(* ===== verification/Prelude.thy ===== *)
theory Prelude
  imports Main "HOL-Library.Word" "HOL-Library.AList"
begin

text \<open>
  Shared vocabulary of the development.

  \<^item> The machine types of the Rust sources (\<open>byte\<close>, \<open>u32\<close>, \<open>u64\<close>) and the outcome of a Rust
    function: \<open>Ok\<close>, \<open>Err\<close> or \<open>Panic\<close>. The repository compiles every profile with
    \<open>overflow-checks = true\<close> and \<open>panic = "abort"\<close>, so an arithmetic overflow is a
    \<open>Panic\<close>, never a wrapped value.
  \<^item> The checked and saturating operations of \<open>u64\<close>, read as natural numbers below
    \<open>2 ^ 64\<close>.
  \<^item> Little-endian and big-endian byte strings, with their round trips.
  \<^item> \<open>HashMap\<close> as an association list with distinct keys, so that iteration and \<open>len\<close>
    can be written down; its laws are the locale \<open>dict\<close>.
\<close>

named_theorems codec "round trips of the serialized forms"
named_theorems bounds "bounds on machine integers"

type_synonym byte = "8 word"
type_synonym u16 = "16 word"
type_synonym u32 = "32 word"
type_synonym u64 = "64 word"
type_synonym hash256 = "byte list"

section \<open>Outcomes\<close>

datatype ('a, 'e) result = Ok 'a | Err 'e | Panic

fun rbind :: "('a, 'e) result \<Rightarrow> ('a \<Rightarrow> ('b, 'e) result) \<Rightarrow> ('b, 'e) result" where
  "rbind (Ok x) f = f x"
| "rbind (Err e) f = Err e"
| "rbind Panic f = Panic"

fun map_err :: "('e \<Rightarrow> 'f) \<Rightarrow> ('a, 'e) result \<Rightarrow> ('a, 'f) result" where
  "map_err g (Ok x) = Ok x"
| "map_err g (Err e) = Err (g e)"
| "map_err g Panic = Panic"

definition ok_or :: "'a option \<Rightarrow> 'e \<Rightarrow> ('a, 'e) result" where
  "ok_or m e = (case m of None \<Rightarrow> Err e | Some x \<Rightarrow> Ok x)"

definition guard_ok :: "bool \<Rightarrow> 'e \<Rightarrow> (unit, 'e) result" where
  "guard_ok b e = (if b then Ok () else Err e)"

text \<open>The \<open>?\<close> operator in a method that changes the state: an error returns with the state reached.\<close>

definition andthen :: "'s \<Rightarrow> ('a, 'e) result \<Rightarrow> ('a \<Rightarrow> 's \<times> ('b, 'e) result) \<Rightarrow> 's \<times> ('b, 'e) result" where
  "andthen s r k = (case r of Ok x \<Rightarrow> k x | Err e \<Rightarrow> (s, Err e) | Panic \<Rightarrow> (s, Panic))"

text \<open>An addition of two \<open>u64\<close> in the sources: it panics on overflow.\<close>

definition add64 :: "nat \<Rightarrow> nat \<Rightarrow> (nat, 'e) result" where
  "add64 a b = (if a + b < 2 ^ 64 then Ok (a + b) else Panic)"

text \<open>A subtraction of two \<open>u64\<close>, an index and a slice \<open>xs[i..]\<close> in the sources: they panic on underflow and
  out of range.\<close>

definition sub64 :: "nat \<Rightarrow> nat \<Rightarrow> (nat, 'e) result" where
  "sub64 a b = (if b \<le> a then Ok (a - b) else Panic)"

definition index_at :: "'a list \<Rightarrow> nat \<Rightarrow> ('a, 'e) result" where
  "index_at xs i = (if i < length xs then Ok (xs ! i) else Panic)"

definition slice_from :: "'a list \<Rightarrow> nat \<Rightarrow> ('a list, 'e) result" where
  "slice_from xs i = (if i \<le> length xs then Ok (drop i xs) else Panic)"

text \<open>The standard operations of \<open>u64\<close> on values read as natural numbers.\<close>

definition u64_max :: nat where
  "u64_max = 18446744073709551615"

definition checked_add64 :: "nat \<Rightarrow> nat \<Rightarrow> nat option" where
  "checked_add64 a b = (if a + b < 2 ^ 64 then Some (a + b) else None)"

definition checked_sub64 :: "nat \<Rightarrow> nat \<Rightarrow> nat option" where
  "checked_sub64 a b = (if b \<le> a then Some (a - b) else None)"

definition checked_mul64 :: "nat \<Rightarrow> nat \<Rightarrow> nat option" where
  "checked_mul64 a b = (if a * b < 2 ^ 64 then Some (a * b) else None)"

definition sat_add64 :: "nat \<Rightarrow> nat \<Rightarrow> nat" where
  "sat_add64 a b = min (a + b) u64_max"

definition sat_mul64 :: "nat \<Rightarrow> nat \<Rightarrow> nat" where
  "sat_mul64 a b = min (a * b) u64_max"

text \<open>\<open>saturating_sub\<close> is the subtraction of \<open>nat\<close>.\<close>

definition sat_sub64 :: "nat \<Rightarrow> nat \<Rightarrow> nat" where
  "sat_sub64 a b = a - b"

section \<open>Byte strings\<close>

primrec le_bytes :: "nat \<Rightarrow> nat \<Rightarrow> byte list" where
  "le_bytes 0 v = []"
| "le_bytes (Suc n) v = of_nat (v mod 256) # le_bytes n (v div 256)"

primrec le_val :: "byte list \<Rightarrow> nat" where
  "le_val [] = 0"
| "le_val (b # bs) = unat b + 256 * le_val bs"

definition be_bytes :: "nat \<Rightarrow> nat \<Rightarrow> byte list" where
  "be_bytes n v = rev (le_bytes n v)"

definition be_val :: "byte list \<Rightarrow> nat" where
  "be_val bs = le_val (rev bs)"

definition u32_le :: "u32 \<Rightarrow> byte list" where
  "u32_le w = le_bytes 4 (unat w)"

definition u64_le :: "u64 \<Rightarrow> byte list" where
  "u64_le w = le_bytes 8 (unat w)"

definition u32_from_le :: "byte list \<Rightarrow> u32" where
  "u32_from_le bs = of_nat (le_val bs)"

definition u64_from_le :: "byte list \<Rightarrow> u64" where
  "u64_from_le bs = of_nat (le_val bs)"

definition str_bytes :: "string \<Rightarrow> byte list" where
  "str_bytes s = map (\<lambda>c. of_nat (of_char c)) s"

lemma unat_lt: "unat (w :: 'a::len word) < 2 ^ LENGTH('a)"
  by (rule unsigned_less)

lemma length_le_bytes [simp]: "length (le_bytes n v) = n"
  by (induction n arbitrary: v) auto

lemma le_val_bound [bounds]: "le_val bs < 256 ^ length bs"
proof (induction bs)
  case Nil
  then show ?case by simp
next
  case (Cons b bs)
  have "unat b < 256" using unat_lt [of b] by simp
  moreover have "Suc (le_val bs) \<le> 256 ^ length bs" using Cons.IH by simp
  then have "256 * Suc (le_val bs) \<le> 256 * 256 ^ length bs" by (rule mult_le_mono2)
  ultimately show ?case by simp
qed

lemma unat_byte_mod [simp]: "unat (of_nat (v mod 256) :: byte) = v mod 256"
  by (simp add: unat_of_nat take_bit_eq_mod)

lemma le_val_le_bytes [codec]: "le_val (le_bytes n v) = v mod 256 ^ n"
  by (induction n arbitrary: v) (auto simp: mod_mult2_eq)

lemma le_bytes_le_val [codec]: "le_bytes (length bs) (le_val bs) = bs"
proof (induction bs)
  case (Cons b bs)
  have b: "unat b < 256" using unat_lt [of b] by simp
  then have "(unat b + 256 * le_val bs) mod 256 = unat b"
    and "(unat b + 256 * le_val bs) div 256 = le_val bs" by auto
  with Cons show ?case by simp
qed simp

lemma le_bytes_inj: "u < 256 ^ n \<Longrightarrow> v < 256 ^ n \<Longrightarrow> le_bytes n u = le_bytes n v \<Longrightarrow> u = v"
  by (metis le_val_le_bytes mod_less)

lemma length_u32_le [simp]: "length (u32_le w) = 4"
  by (simp add: u32_le_def)

lemma length_u64_le [simp]: "length (u64_le w) = 8"
  by (simp add: u64_le_def)

lemma length_be_bytes [simp]: "length (be_bytes n v) = n"
  by (simp add: be_bytes_def)

lemma be_val_be_bytes [codec]: "be_val (be_bytes n v) = v mod 256 ^ n"
  by (simp add: be_val_def be_bytes_def codec)

lemma be_bytes_be_val [codec]: "be_bytes (length bs) (be_val bs) = bs"
  using le_bytes_le_val [of "rev bs"] by (simp add: be_val_def be_bytes_def)

lemma u32_from_le_u32_le [codec, simp]: "u32_from_le (u32_le w) = w"
  using unat_lt [of w] by (simp add: u32_from_le_def u32_le_def codec)

lemma u64_from_le_u64_le [codec, simp]: "u64_from_le (u64_le w) = w"
  using unat_lt [of w] by (simp add: u64_from_le_def u64_le_def codec)

lemma u32_le_u32_from_le [codec]: "length bs = 4 \<Longrightarrow> u32_le (u32_from_le bs) = bs"
  using le_val_bound [of bs] le_bytes_le_val [of bs]
  by (simp add: u32_from_le_def u32_le_def unat_of_nat take_bit_eq_mod)

lemma u64_le_u64_from_le [codec]: "length bs = 8 \<Longrightarrow> u64_le (u64_from_le bs) = bs"
  using le_val_bound [of bs] le_bytes_le_val [of bs]
  by (simp add: u64_from_le_def u64_le_def unat_of_nat take_bit_eq_mod)

lemma u64_le_inj [simp]: "u64_le a = u64_le b \<longleftrightarrow> a = b"
  by (metis u64_from_le_u64_le)

lemma u32_le_inj [simp]: "u32_le a = u32_le b \<longleftrightarrow> a = b"
  by (metis u32_from_le_u32_le)

lemma length_str_bytes [simp]: "length (str_bytes s) = length s"
  by (simp add: str_bytes_def)

section \<open>Outcome and arithmetic lemmas\<close>

lemma rbind_Ok_iff [simp]: "rbind m f = Ok y \<longleftrightarrow> (\<exists>x. m = Ok x \<and> f x = Ok y)"
  by (cases m) auto

lemma rbind_Err_iff: "rbind m f = Err e \<longleftrightarrow> m = Err e \<or> (\<exists>x. m = Ok x \<and> f x = Err e)"
  by (cases m) auto

lemma rbind_Panic_iff: "rbind m f = Panic \<longleftrightarrow> m = Panic \<or> (\<exists>x. m = Ok x \<and> f x = Panic)"
  by (cases m) auto

lemma map_err_Ok_iff [simp]: "map_err g m = Ok x \<longleftrightarrow> m = Ok x"
  by (cases m) auto

lemma map_err_Panic_iff [simp]: "map_err g m = Panic \<longleftrightarrow> m = Panic"
  by (cases m) auto

lemma ok_or_Ok_iff [simp]: "ok_or m e = Ok x \<longleftrightarrow> m = Some x"
  by (cases m) (auto simp: ok_or_def)

lemma ok_or_not_Panic [simp]: "ok_or m e \<noteq> Panic"
  by (cases m) (auto simp: ok_or_def)

lemma ok_or_Some [simp]: "ok_or (Some x) e = Ok x"
  by (simp add: ok_or_def)

lemma ok_or_None [simp]: "ok_or None e = Err e"
  by (simp add: ok_or_def)

lemma andthen_Ok: "andthen s r k = (s', Ok y) \<longleftrightarrow> (\<exists>x. r = Ok x \<and> k x = (s', Ok y))"
  by (auto simp: andthen_def split: result.splits)

lemma andthen_cases:
  assumes "andthen s r k = p"
  obtains (ok) x where "r = Ok x" "k x = p" | (err) e where "r = Err e" "p = (s, Err e)" | (panic) "r = Panic" "p = (s, Panic)"
  using assms by (auto simp: andthen_def split: result.splits)

lemma andthen_Panic: "andthen s r k = (s', Panic) \<longleftrightarrow> (r = Panic \<and> s' = s) \<or> (\<exists>x. r = Ok x \<and> k x = (s', Panic))"
  by (cases r) (auto simp: andthen_def)

lemma guard_ok_Ok_iff [simp]: "guard_ok b e = Ok x \<longleftrightarrow> b"
  by (auto simp: guard_ok_def)

lemma guard_ok_True [simp]: "guard_ok True e = Ok ()"
  by (simp add: guard_ok_def)

lemma guard_ok_False [simp]: "guard_ok False e = Err e"
  by (simp add: guard_ok_def)

lemma guard_ok_not_Panic [simp]: "guard_ok b e \<noteq> Panic"
  by (auto simp: guard_ok_def)

lemma add64_Ok_iff [simp]: "add64 a b = Ok c \<longleftrightarrow> a + b < 2 ^ 64 \<and> c = a + b"
  by (auto simp: add64_def)

lemma sub64_Ok_iff [simp]: "sub64 a b = Ok c \<longleftrightarrow> b \<le> a \<and> c = a - b"
  by (auto simp: sub64_def)

lemma sub64_Panic_iff [simp]: "sub64 a b = Panic \<longleftrightarrow> a < b"
  by (auto simp: sub64_def)

lemma index_at_Ok_iff [simp]: "index_at xs i = Ok x \<longleftrightarrow> i < length xs \<and> x = xs ! i"
  by (auto simp: index_at_def)

lemma index_at_Panic_iff [simp]: "index_at xs i = Panic \<longleftrightarrow> length xs \<le> i"
  by (auto simp: index_at_def)

lemma index_at_0 [simp]: "index_at (x # xs) 0 = Ok x"
  by (simp add: index_at_def)

lemma slice_from_Ok_iff [simp]: "slice_from xs i = Ok ys \<longleftrightarrow> i \<le> length xs \<and> ys = drop i xs"
  by (auto simp: slice_from_def)

lemma slice_from_Panic_iff [simp]: "slice_from xs i = Panic \<longleftrightarrow> length xs < i"
  by (auto simp: slice_from_def)

lemma slice_from_0 [simp]: "slice_from xs 0 = Ok xs"
  by (simp add: slice_from_def)

lemma slice_from_Suc [simp]: "slice_from (x # xs) (Suc i) = slice_from xs i"
  by (simp add: slice_from_def)

lemma checked_add64_Some_iff [simp]:
  "checked_add64 a b = Some c \<longleftrightarrow> a + b < 2 ^ 64 \<and> c = a + b"
  by (auto simp: checked_add64_def)

lemma checked_sub64_Some_iff [simp]: "checked_sub64 a b = Some c \<longleftrightarrow> b \<le> a \<and> c = a - b"
  by (auto simp: checked_sub64_def)

lemma unat_u64_lt [bounds]: "unat (w :: u64) < 18446744073709551616"
  using unat_lt [of w] by simp

section \<open>Hash maps\<close>

text \<open>
  A \<open>HashMap\<close> is an association list without duplicate keys. Its iteration order is unspecified in
  Rust; nothing below depends on the order of the list.
\<close>

type_synonym ('k, 'v) hmap = "('k \<times> 'v) list"

definition hget :: "('k, 'v) hmap \<Rightarrow> 'k \<Rightarrow> 'v option" where
  "hget m k = map_of m k"

definition hput :: "'k \<Rightarrow> 'v \<Rightarrow> ('k, 'v) hmap \<Rightarrow> ('k, 'v) hmap" where
  "hput k v m = AList.update k v m"

definition hdel :: "'k \<Rightarrow> ('k, 'v) hmap \<Rightarrow> ('k, 'v) hmap" where
  "hdel k m = AList.delete k m"

definition hwf :: "('k, 'v) hmap \<Rightarrow> bool" where
  "hwf m = distinct (map fst m)"

locale dict =
  fixes get :: "'m \<Rightarrow> 'k \<Rightarrow> 'v option"
    and put :: "'k \<Rightarrow> 'v \<Rightarrow> 'm \<Rightarrow> 'm"
    and del :: "'k \<Rightarrow> 'm \<Rightarrow> 'm"
    and items :: "'m \<Rightarrow> ('k \<times> 'v) list"
    and wf :: "'m \<Rightarrow> bool"
  assumes get_put: "get (put k v m) k' = (if k' = k then Some v else get m k')"
    and get_del: "get (del k m) k' = (if k' = k then None else get m k')"
    and wf_put: "wf m \<Longrightarrow> wf (put k v m)"
    and wf_del: "wf m \<Longrightarrow> wf (del k m)"
    and items_distinct: "wf m \<Longrightarrow> distinct (map fst (items m))"
    and items_get: "wf m \<Longrightarrow> get m k = map_of (items m) k"
begin

lemma in_items_iff: "wf m \<Longrightarrow> (k, v) \<in> set (items m) \<longleftrightarrow> get m k = Some v"
  using items_distinct items_get by (metis map_of_eq_Some_iff)

lemma sum_items: "wf m \<Longrightarrow>
    sum_list (map (\<lambda>(k, v). f k v) (items m)) = (\<Sum>(k, v) \<in> {(k, v). get m k = Some v}. f k v)"
  for f :: "'k \<Rightarrow> 'v \<Rightarrow> nat"
proof -
  assume wf: "wf m"
  then have "distinct (items m)"
    using items_distinct by (simp add: distinct_map)
  then have "sum_list (map (\<lambda>(k, v). f k v) (items m)) = (\<Sum>(k, v) \<in> set (items m). f k v)"
    by (simp add: sum_list_distinct_conv_sum_set)
  moreover have "set (items m) = {(k, v). get m k = Some v}"
    using in_items_iff [OF wf] by auto
  ultimately show ?thesis by simp
qed

lemma finite_items: "wf m \<Longrightarrow> finite {(k, v). get m k = Some v}"
proof -
  assume wf: "wf m"
  have "{(k, v). get m k = Some v} = set (items m)"
    using in_items_iff [OF wf] by auto
  then show ?thesis by simp
qed

lemma sum_put: "wf m \<Longrightarrow>
    sum_list (map (\<lambda>(k, v). f k v) (items (put k v m)))
      + (case get m k of None \<Rightarrow> 0 | Some v' \<Rightarrow> f k v')
    = sum_list (map (\<lambda>(k, v). f k v) (items m)) + f k v"
  for f :: "'k \<Rightarrow> 'v \<Rightarrow> nat"
proof -
  assume wf: "wf m"
  let ?R = "{(k', v'). get m k' = Some v' \<and> k' \<noteq> k}"
  have fin: "finite ?R" by (rule finite_subset [OF _ finite_items [OF wf]]) auto
  have new: "{(k', v'). get (put k v m) k' = Some v'} = insert (k, v) ?R"
    by (auto simp: get_put split: if_splits)
  have old: "{(k', v'). get m k' = Some v'} =
      (case get m k of None \<Rightarrow> ?R | Some w \<Rightarrow> insert (k, w) ?R)"
    by (auto split: option.splits)
  show ?thesis
    unfolding sum_items [OF wf] sum_items [OF wf_put [OF wf]] new old
    using fin by (cases "get m k") auto
qed

lemma sum_del: "wf m \<Longrightarrow>
    sum_list (map (\<lambda>(k, v). f k v) (items (del k m)))
      + (case get m k of None \<Rightarrow> 0 | Some v' \<Rightarrow> f k v')
    = sum_list (map (\<lambda>(k, v). f k v) (items m))"
  for f :: "'k \<Rightarrow> 'v \<Rightarrow> nat"
proof -
  assume wf: "wf m"
  let ?R = "{(k', v'). get m k' = Some v' \<and> k' \<noteq> k}"
  have fin: "finite ?R" by (rule finite_subset [OF _ finite_items [OF wf]]) auto
  have new: "{(k', v'). get (del k m) k' = Some v'} = ?R"
    by (auto simp: get_del split: if_splits)
  have old: "{(k', v'). get m k' = Some v'} =
      (case get m k of None \<Rightarrow> ?R | Some w \<Rightarrow> insert (k, w) ?R)"
    by (auto split: option.splits)
  show ?thesis
    unfolding sum_items [OF wf] sum_items [OF wf_del [OF wf]] new old
    using fin by (cases "get m k") auto
qed

end

interpretation hm: dict hget hput hdel "\<lambda>m. m" hwf
  by unfold_locales
    (auto simp: hget_def hput_def hdel_def hwf_def update_conv' delete_conv'
      distinct_update distinct_delete)

lemmas hget_simps [simp] = hm.get_put hm.get_del

lemma hget_empty [simp]: "hget [] k = None"
  by (simp add: hget_def)

lemma hwf_empty [simp]: "hwf []"
  by (simp add: hwf_def)

lemmas hwf_intros [intro, simp] = hm.wf_put hm.wf_del

end
