(* ===== verification/Consensus.thy ===== *)
theory Consensus
  imports Prelude
begin

text \<open>
  The consensus constants of \<open>src/src/consensus.rs\<close>, as natural numbers, and the networks of
  \<open>src/src/address.rs\<close>. The build-time assertions at the end of \<open>consensus.rs\<close> are the lemma
  \<open>consensus_assertions\<close>.
\<close>

definition DECIMALS :: nat where
  "DECIMALS = 8"

definition UNITS_PER_COIN :: nat where
  "UNITS_PER_COIN = 100000000"

definition MAX_SUPPLY_COINS :: nat where
  "MAX_SUPPLY_COINS = 21000001"

definition MAX_SUPPLY :: nat where
  "MAX_SUPPLY = MAX_SUPPLY_COINS * UNITS_PER_COIN"

definition GENESIS_PREMINT :: nat where
  "GENESIS_PREMINT = UNITS_PER_COIN"

definition EMISSION_CAP :: nat where
  "EMISSION_CAP = MAX_SUPPLY - GENESIS_PREMINT"

definition TARGET_BLOCK_SECS :: nat where
  "TARGET_BLOCK_SECS = 120"

definition INITIAL_REWARD :: nat where
  "INITIAL_REWARD = 1382743055"

definition DECAY_EPOCH_BLOCKS :: nat where
  "DECAY_EPOCH_BLOCKS = 4320"

definition DECAY_NUM :: nat where
  "DECAY_NUM = 99715550"

definition DECAY_DEN :: nat where
  "DECAY_DEN = 100000000"

definition SLOW_START_BLOCKS :: nat where
  "SLOW_START_BLOCKS = 20000"

definition TAIL_REWARD :: nat where
  "TAIL_REWARD = 1000000"

definition COINBASE_MATURITY :: nat where
  "COINBASE_MATURITY = 200"

definition MAX_FUTURE_TIME :: nat where
  "MAX_FUTURE_TIME = 10 * 60"

definition LWMA_MAX_AHEAD :: nat where
  "LWMA_MAX_AHEAD = 4"

definition LWMA_MAX_BEHIND :: nat where
  "LWMA_MAX_BEHIND = 6"

definition MEDIAN_TIME_SPAN :: nat where
  "MEDIAN_TIME_SPAN = 11"

definition MAX_BLOCK_SIZE :: nat where
  "MAX_BLOCK_SIZE = 4 * 1024 * 1024"

definition MIN_TX_SIZE :: nat where
  "MIN_TX_SIZE = 64"

definition MAX_TX_PER_BLOCK :: nat where
  "MAX_TX_PER_BLOCK = MAX_BLOCK_SIZE div MIN_TX_SIZE"

definition TARGET_BLOCK_WEIGHT :: nat where
  "TARGET_BLOCK_WEIGHT = 2000000"

definition WITNESS_DISCOUNT :: nat where
  "WITNESS_DISCOUNT = 4"

definition WEIGHT_PER_OUTPUT :: nat where
  "WEIGHT_PER_OUTPUT = 400"

definition MIN_OUTPUT_VALUE :: nat where
  "MIN_OUTPUT_VALUE = 10000"

definition LWMA_WINDOW :: nat where
  "LWMA_WINDOW = 90"

definition INITIAL_BITS :: u32 where
  "INITIAL_BITS = 0x2000ffff"

definition MAX_TARGET_CHANGE :: nat where
  "MAX_TARGET_CHANGE = 4"

definition MAX_REORG_DEPTH :: nat where
  "MAX_REORG_DEPTH = 720"

definition REORG_PENALTY_FROM_DEPTH :: nat where
  "REORG_PENALTY_FROM_DEPTH = 6"

definition REORG_PENALTY_PCT_PER_BLOCK :: nat where
  "REORG_PENALTY_PCT_PER_BLOCK = 1"

definition REORG_PENALTY_MAX_PCT :: nat where
  "REORG_PENALTY_MAX_PCT = 25"

definition MAX_UNCLES :: nat where
  "MAX_UNCLES = 0"

definition MAX_UNCLE_AGE :: nat where
  "MAX_UNCLE_AGE = 7"

definition BODY_WINDOW :: nat where
  "BODY_WINDOW = MAX_REORG_DEPTH + 288"

definition BODY_BUDGET_BYTES :: nat where
  "BODY_BUDGET_BYTES = 1024 * 1024 * 1024"

definition UNCLE_REWARD_PCT :: nat where
  "UNCLE_REWARD_PCT = 25"

definition GENESIS_BENEFICIARY :: hash256 where
  "GENESIS_BENEFICIARY = replicate 32 0"

definition HRP_MAINNET :: string where
  "HRP_MAINNET = ''q21''"

definition HRP_TESTNET :: string where
  "HRP_TESTNET = ''tq21''"

definition HRP_REGTEST :: string where
  "HRP_REGTEST = ''rq21''"

definition POLICY_ACTIVATION_MAINNET :: nat where
  "POLICY_ACTIVATION_MAINNET = u64_max"

definition POLICY_ACTIVATION_REGTEST :: nat where
  "POLICY_ACTIVATION_REGTEST = 1"

definition POLICY_ACTIVATION_TESTNET :: nat where
  "POLICY_ACTIVATION_TESTNET = 4980"

definition NAME_ACTIVATION_MAINNET :: nat where
  "NAME_ACTIVATION_MAINNET = u64_max"

definition NAME_ACTIVATION_TESTNET :: nat where
  "NAME_ACTIVATION_TESTNET = 5200"

definition NAME_ACTIVATION_REGTEST :: nat where
  "NAME_ACTIVATION_REGTEST = 1"

definition STRICT_TIME_ACTIVATION_MAINNET :: nat where
  "STRICT_TIME_ACTIVATION_MAINNET = 1"

definition STRICT_TIME_ACTIVATION_TESTNET :: nat where
  "STRICT_TIME_ACTIVATION_TESTNET = 5950"

definition STRICT_TIME_ACTIVATION_REGTEST :: nat where
  "STRICT_TIME_ACTIVATION_REGTEST = u64_max"

definition NAME_PRICE :: nat where
  "NAME_PRICE = 50000000"

definition NAME_MIN_LEN :: nat where
  "NAME_MIN_LEN = 3"

definition NAME_MAX_LEN :: nat where
  "NAME_MAX_LEN = 30"

definition MAX_NAMES_PER_OWNER :: nat where
  "MAX_NAMES_PER_OWNER = 3"

definition MAX_POLICY_DEPTH :: nat where
  "MAX_POLICY_DEPTH = 4"

definition MAX_POLICY_LEAVES :: nat where
  "MAX_POLICY_LEAVES = 8"

definition MAX_POLICY_SIZE :: nat where
  "MAX_POLICY_SIZE = 512"

definition MAX_POLICY_OLDER :: nat where
  "MAX_POLICY_OLDER = 65535"

datatype network = Mainnet | Testnet | Regtest

fun hrp :: "network \<Rightarrow> string" where
  "hrp Mainnet = HRP_MAINNET"
| "hrp Testnet = HRP_TESTNET"
| "hrp Regtest = HRP_REGTEST"

definition from_hrp :: "string \<Rightarrow> network option" where
  "from_hrp s =
     (if s = HRP_MAINNET then Some Mainnet
      else if s = HRP_TESTNET then Some Testnet
      else if s = HRP_REGTEST then Some Regtest
      else None)"

lemmas supply_defs = MAX_SUPPLY_def MAX_SUPPLY_COINS_def UNITS_PER_COIN_def GENESIS_PREMINT_def
  EMISSION_CAP_def
lemmas emission_const_defs = supply_defs INITIAL_REWARD_def DECAY_EPOCH_BLOCKS_def DECAY_NUM_def
  DECAY_DEN_def SLOW_START_BLOCKS_def TAIL_REWARD_def
lemmas hrp_defs = HRP_MAINNET_def HRP_TESTNET_def HRP_REGTEST_def

text \<open>The assertions \<open>consensus.rs\<close> evaluates at compile time (lines 726 to 789).\<close>

lemma consensus_assertions:
  "MAX_SUPPLY = 2100000100000000"
  "EMISSION_CAP + GENESIS_PREMINT = MAX_SUPPLY"
  "EMISSION_CAP = 21000000 * UNITS_PER_COIN"
  "MAX_SUPPLY < u64_max div 1000"
  "DECAY_NUM < DECAY_DEN"
  "DECAY_DEN div 100 * 99 < DECAY_NUM"
  "INITIAL_REWARD * DECAY_EPOCH_BLOCKS * DECAY_DEN div (DECAY_DEN - DECAY_NUM) \<le> EMISSION_CAP"
  "0 < TAIL_REWARD \<and> TAIL_REWARD < INITIAL_REWARD div 1000"
  "MAX_POLICY_LEAVES * 34 + (MAX_POLICY_LEAVES - 1) * 2 \<le> MAX_POLICY_SIZE"
  "NAME_PRICE = UNITS_PER_COIN div 2 \<and> MIN_OUTPUT_VALUE < NAME_PRICE"
  by (simp_all add: emission_const_defs u64_max_def MAX_POLICY_LEAVES_def MAX_POLICY_SIZE_def
      NAME_PRICE_def MIN_OUTPUT_VALUE_def)

lemma from_hrp_hrp [simp]: "from_hrp (hrp n) = Some n"
  by (cases n) (simp_all add: from_hrp_def hrp_defs)

lemma hrp_inj [simp]: "hrp m = hrp n \<longleftrightarrow> m = n"
  by (metis from_hrp_hrp option.inject)

end
