(* ===== verification/Amounts.thy ===== *)
theory Amounts
  imports Consensus
begin

text \<open>
  The amounts of \<open>src/src/amount.rs\<close>: a \<open>u64\<close> number of indivisible units, with checked arithmetic
  only, and the decimal form in which an amount is displayed. Reading the decimal form back
  (\<open>read_decimal\<close>, a specification) gives the units.
\<close>

datatype amount = Amount (amt: u64)

definition units :: "amount \<Rightarrow> nat" where
  "units a = unat (amt a)"

definition from_units :: "u64 \<Rightarrow> amount" where
  "from_units u = Amount u"

definition AMOUNT_ZERO :: amount where
  "AMOUNT_ZERO = Amount 0"

definition AMOUNT_MAX :: amount where
  "AMOUNT_MAX = Amount (of_nat MAX_SUPPLY)"

definition from_coins :: "u64 \<Rightarrow> amount option" where
  "from_coins coins = map_option (\<lambda>v. Amount (of_nat v)) (checked_mul64 (unat coins) UNITS_PER_COIN)"

definition is_within_supply :: "amount \<Rightarrow> bool" where
  "is_within_supply a \<longleftrightarrow> units a \<le> MAX_SUPPLY"

definition amount_checked_add :: "amount \<Rightarrow> amount \<Rightarrow> amount option" where
  "amount_checked_add a b = map_option (\<lambda>v. Amount (of_nat v)) (checked_add64 (units a) (units b))"

definition amount_checked_sub :: "amount \<Rightarrow> amount \<Rightarrow> amount option" where
  "amount_checked_sub a b = map_option (\<lambda>v. Amount (of_nat v)) (checked_sub64 (units a) (units b))"

fun checked_sum_from :: "amount \<Rightarrow> amount list \<Rightarrow> amount option" where
  "checked_sum_from acc [] = Some acc"
| "checked_sum_from acc (a # as) =
     (case amount_checked_add acc a of None \<Rightarrow> None | Some acc' \<Rightarrow> checked_sum_from acc' as)"

definition checked_sum :: "amount list \<Rightarrow> amount option" where
  "checked_sum as = checked_sum_from AMOUNT_ZERO as"

text \<open>\<open>{}\<close> and \<open>{:0width$}\<close> of a non-negative integer.\<close>

fun show_digits :: "nat \<Rightarrow> string" where
  "show_digits n = (if n < 10 then [char_of (48 + n)] else show_digits (n div 10) @ [char_of (48 + n mod 10)])"

declare show_digits.simps [simp del]

definition show_padded :: "nat \<Rightarrow> nat \<Rightarrow> string" where
  "show_padded width n = (let s = show_digits n in replicate (width - length s) (CHR ''0'') @ s)"

definition amount_display :: "amount \<Rightarrow> string" where
  "amount_display a =
     show_digits (units a div UNITS_PER_COIN) @ ''.'' @ show_padded DECIMALS (units a mod UNITS_PER_COIN)"

section \<open>Arithmetic\<close>

lemma amount_eqI: "units a = units b \<Longrightarrow> a = b"
  by (cases a; cases b) (simp add: units_def word_unat_eq_iff)

lemma units_lt [bounds]: "units a < 2 ^ 64"
  using unat_lt [of "amt a"] by (simp add: units_def)

lemma units_Amount [simp]: "units (Amount w) = unat w"
  by (simp add: units_def)

lemma units_zero [simp]: "units AMOUNT_ZERO = 0"
  by (simp add: AMOUNT_ZERO_def)

lemma unat_of_nat_lt: "v < 2 ^ 64 \<Longrightarrow> unat (of_nat v :: u64) = v"
  by (simp add: unat_of_nat take_bit_eq_mod)

lemma Amount_of_nat_iff: "v < 2 ^ 64 \<Longrightarrow> Amount (of_nat v) = c \<longleftrightarrow> units c = v"
  by (cases c) (auto simp: unat_of_nat_lt simp flip: word_unat_eq_iff)

lemma amount_checked_add_Some [simp]:
  "amount_checked_add a b = Some c \<longleftrightarrow> units c = units a + units b"
  using Amount_of_nat_iff [of "units a + units b" c] units_lt [of c]
  by (auto simp: amount_checked_add_def simp del: of_nat_add)

lemma amount_checked_add_None: "amount_checked_add a b = None \<longleftrightarrow> 2 ^ 64 \<le> units a + units b"
  by (simp add: amount_checked_add_def checked_add64_def not_less)

lemma amount_checked_sub_Some [simp]:
  "amount_checked_sub a b = Some c \<longleftrightarrow> units b \<le> units a \<and> units c = units a - units b"
  using Amount_of_nat_iff [of "units a - units b" c] units_lt [of a]
  by (auto simp: amount_checked_sub_def simp del: of_nat_diff)

lemma checked_sum_from_Some:
  "checked_sum_from acc as = Some s \<Longrightarrow> units s = units acc + sum_list (map units as)"
  by (induction as arbitrary: acc) (auto split: option.splits)

lemma checked_sum_from_None:
  "checked_sum_from acc as = None \<Longrightarrow> 2 ^ 64 \<le> units acc + sum_list (map units as)"
proof (induction as arbitrary: acc)
  case (Cons a as)
  show ?case
  proof (cases "amount_checked_add acc a")
    case None
    then show ?thesis by (simp add: amount_checked_add_None)
  next
    case (Some acc')
    then have "checked_sum_from acc' as = None"
      using Cons.prems by (simp only: checked_sum_from.simps option.case)
    with Cons.IH have "2 ^ 64 \<le> units acc' + sum_list (map units as)" .
    with Some show ?thesis by simp
  qed
qed simp

lemma checked_sum_Some: "checked_sum as = Some s \<Longrightarrow> units s = sum_list (map units as)"
  using checked_sum_from_Some by (fastforce simp: checked_sum_def)

lemma checked_sum_None: "checked_sum as = None \<Longrightarrow> 2 ^ 64 \<le> sum_list (map units as)"
  using checked_sum_from_None [of AMOUNT_ZERO as] by (simp add: checked_sum_def)

section \<open>The decimal form\<close>

definition digit_of :: "char \<Rightarrow> nat" where
  "digit_of c = of_char c - 48"

definition read_digits :: "string \<Rightarrow> nat" where
  "read_digits s = foldl (\<lambda>n c. 10 * n + digit_of c) 0 s"

definition read_decimal :: "string \<Rightarrow> nat" where
  "read_decimal s = (let whole = takeWhile (\<lambda>c. c \<noteq> CHR ''.'') s
     in read_digits whole * UNITS_PER_COIN + read_digits (drop (length whole + 1) s))"

lemma digit_of_char [simp]: "d < 10 \<Longrightarrow> digit_of (char_of (48 + d)) = d"
  by (simp add: digit_of_def)

lemma read_digits_snoc [simp]: "read_digits (s @ [c]) = 10 * read_digits s + digit_of c"
  by (simp add: read_digits_def)

lemma read_show_digits [simp]: "read_digits (show_digits n) = n"
proof (induction n rule: show_digits.induct)
  case (1 n)
  then show ?case
    by (subst show_digits.simps) (auto simp: read_digits_def [of "[_]"])
qed

lemma show_digits_no_dot: "c \<in> set (show_digits n) \<Longrightarrow> c \<noteq> CHR ''.''"
proof (induction n rule: show_digits.induct)
  case (1 n)
  have *: "char_of (48 + d) \<noteq> CHR ''.''" if "d < 10" for d :: nat
  proof
    assume "char_of (48 + d) = CHR ''.''"
    then have "of_char (char_of (48 + d) :: char) = (46 :: nat)" by (simp only:) simp
    then show False using that by simp
  qed
  from 1 * [of n] * [of "n mod 10"] show ?case
    by (subst (asm) (2) show_digits.simps) (auto split: if_splits)
qed

lemma read_digits_zeros [simp]: "read_digits (replicate k (CHR ''0'') @ s) = read_digits s"
proof -
  have "foldl (\<lambda>n c. 10 * n + digit_of c) 0 (replicate k (CHR ''0'')) = 0"
    by (induction k) (auto simp: digit_of_def)
  then show ?thesis by (simp add: read_digits_def)
qed

lemma length_show_digits: "n < 10 ^ Suc k \<Longrightarrow> length (show_digits n) \<le> Suc k"
proof (induction k arbitrary: n)
  case (Suc k)
  show ?case
  proof (cases "n < 10")
    case False
    have "n div 10 < 10 ^ Suc k" using Suc.prems by (simp add: less_mult_imp_div_less)
    from Suc.IH [OF this] False show ?thesis by (simp add: show_digits.simps [of n])
  qed (simp add: show_digits.simps)
qed (simp add: show_digits.simps)

lemma takeWhile_whole:
  "takeWhile (\<lambda>c. c \<noteq> CHR ''.'') (show_digits n @ CHR ''.'' # s) = show_digits n"
  by (subst takeWhile_append2) (use show_digits_no_dot in auto)

text \<open>A checked sum is the exact sum when it fits in 64 bits and fails otherwise: it never
  wraps.\<close>

theorem checked_sum_exact:
  "checked_sum as =
     (if sum_list (map units as) < 2 ^ 64 then Some (Amount (of_nat (sum_list (map units as)))) else None)"
proof (cases "checked_sum as")
  case None
  with checked_sum_None show ?thesis by (simp add: not_less [symmetric])
next
  case (Some s)
  with checked_sum_Some have "units s = sum_list (map units as)" .
  with Some units_lt [of s] Amount_of_nat_iff [of "sum_list (map units as)" s] show ?thesis by simp
qed

text \<open>The displayed form of an amount always has eight decimals and reads back, without any
  rounding, as its number of units.\<close>

theorem amount_display_roundtrip:
  "read_decimal (amount_display a) = units a \<and>
   length (takeWhile (\<lambda>c. c \<noteq> CHR ''.'') (amount_display a)) + 1 + DECIMALS = length (amount_display a)"
proof -
  have small: "units a mod UNITS_PER_COIN < 10 ^ Suc 7" by (simp add: UNITS_PER_COIN_def)
  have "length (show_padded DECIMALS (units a mod UNITS_PER_COIN)) = DECIMALS"
    using length_show_digits [OF small] by (simp add: show_padded_def Let_def DECIMALS_def)
  moreover have "units a div UNITS_PER_COIN * UNITS_PER_COIN + units a mod UNITS_PER_COIN = units a"
    by simp
  ultimately show ?thesis
    by (simp add: amount_display_def read_decimal_def takeWhile_whole show_padded_def Let_def)
qed

end
