(* ===== verification/Ser.thy ===== *)
theory Ser
  imports Prelude
begin

text \<open>
  The byte-level serialization of \<open>src/src/ser.rs\<close>. A \<open>Writer\<close> is the byte list written so far, so a
  writing operation is the list of bytes it appends. A \<open>Reader\<close> is the suffix of the input not yet
  read; a reading operation returns its value and the new suffix, or the \<open>ReadError\<close> of the source.
  Lengths and counts are natural numbers (\<open>usize\<close> is 64 bits wide, so \<open>usize::try_from\<close> of a \<open>u64\<close>
  succeeds).

  The locale \<open>codec\<close> is the contract of every serialized form: reading what was written gives the
  value back and leaves the rest of the input, a value is accepted from one byte string only, and no
  input makes the reader panic. Its consequences (unique decoding, sequences of elements) are proved
  once; the varints and the strings of this theory and the structures of the later ones are
  interpretations.
\<close>

datatype ReadError = UnexpectedEnd | NonCanonicalVarint | InvalidValue | TrailingBytes nat

type_synonym 'a reader = "byte list \<Rightarrow> ('a \<times> byte list, ReadError) result"

section \<open>Writer\<close>

definition w_u8 :: "byte \<Rightarrow> byte list" where
  "w_u8 v = [v]"

definition w_u32 :: "u32 \<Rightarrow> byte list" where
  "w_u32 v = u32_le v"

definition w_u64 :: "u64 \<Rightarrow> byte list" where
  "w_u64 v = u64_le v"

definition w_varint :: "nat \<Rightarrow> byte list" where
  "w_varint v =
     (if v \<le> 0xfc then [of_nat v]
      else if v \<le> 0xffff then 0xfd # le_bytes 2 v
      else if v \<le> 0xffffffff then 0xfe # le_bytes 4 v
      else 0xff # le_bytes 8 v)"

definition w_var_bytes :: "byte list \<Rightarrow> byte list" where
  "w_var_bytes v = w_varint (length v) @ v"

section \<open>Reader\<close>

definition r_take :: "nat \<Rightarrow> byte list reader" where
  "r_take n bs = (if length bs < n then Err UnexpectedEnd else Ok (take n bs, drop n bs))"

definition r_u8 :: "byte reader" where
  "r_u8 bs = rbind (r_take 1 bs) (\<lambda>(b, rest). Ok (b ! 0, rest))"

definition r_u32 :: "u32 reader" where
  "r_u32 bs = rbind (r_take 4 bs) (\<lambda>(b, rest). Ok (u32_from_le b, rest))"

definition r_u64 :: "u64 reader" where
  "r_u64 bs = rbind (r_take 8 bs) (\<lambda>(b, rest). Ok (u64_from_le b, rest))"

definition r_array32 :: "byte list reader" where
  "r_array32 bs = r_take 32 bs"

definition r_varint :: "nat reader" where
  "r_varint bs =
     rbind (r_u8 bs) (\<lambda>(tag, rest).
       if unat tag \<le> 0xfc then Ok (unat tag, rest)
       else if tag = 0xfd then
         rbind (r_take 2 rest) (\<lambda>(b, rest).
           if le_val b < 0xfd then Err NonCanonicalVarint else Ok (le_val b, rest))
       else if tag = 0xfe then
         rbind (r_take 4 rest) (\<lambda>(b, rest).
           if le_val b \<le> 0xffff then Err NonCanonicalVarint else Ok (le_val b, rest))
       else
         rbind (r_u64 rest) (\<lambda>(v, rest).
           if unat v \<le> 0xffffffff then Err NonCanonicalVarint else Ok (unat v, rest)))"

text \<open>\<open>read_count\<close>; a \<open>minimum\<close> of zero disables the check.\<close>

definition read_count :: "nat \<Rightarrow> nat reader" where
  "read_count minimum bs =
     rbind (r_varint bs) (\<lambda>(n, rest).
       if minimum \<noteq> 0 \<and> n > length rest div minimum then Err InvalidValue else Ok (n, rest))"

definition r_var_bytes :: "byte list reader" where
  "r_var_bytes bs = rbind (r_varint bs) (\<lambda>(n, rest). r_take n rest)"

definition expect_end :: "byte list \<Rightarrow> (unit, ReadError) result" where
  "expect_end bs = (if length bs \<noteq> 0 then Err (TrailingBytes (length bs)) else Ok ())"

text \<open>The loops that read a known number of elements.\<close>

fun read_n :: "(byte list \<Rightarrow> ('a \<times> byte list, 'e) result) \<Rightarrow> nat \<Rightarrow> byte list \<Rightarrow> ('a list \<times> byte list, 'e) result"
where
  "read_n rd 0 bs = Ok ([], bs)"
| "read_n rd (Suc n) bs =
     rbind (rd bs) (\<lambda>(x, rest). rbind (read_n rd n rest) (\<lambda>(xs, rest). Ok (x # xs, rest)))"

section \<open>The contract of a serialized form\<close>

locale codec =
  fixes enc :: "'a \<Rightarrow> byte list"
    and dec :: "byte list \<Rightarrow> ('a \<times> byte list, 'e) result"
    and wf :: "'a \<Rightarrow> bool"
  assumes dec_enc: "wf x \<Longrightarrow> dec (enc x @ rest) = Ok (x, rest)"
    and enc_dec: "dec bs = Ok (x, rest) \<Longrightarrow> bs = enc x @ rest \<and> wf x"
    and no_panic: "dec bs \<noteq> Panic"
begin

lemma dec_iff: "dec bs = Ok (x, rest) \<longleftrightarrow> wf x \<and> bs = enc x @ rest"
  using dec_enc enc_dec by blast

lemma prefix_free:
  assumes "wf x" "wf y" "enc x @ r = enc y @ s"
  shows "x = y \<and> r = s"
proof -
  have "dec (enc x @ r) = Ok (x, r)" "dec (enc y @ s) = Ok (y, s)"
    using assms(1,2) dec_enc by auto
  then show ?thesis unfolding assms(3) by simp
qed

lemma enc_inj: "wf x \<Longrightarrow> wf y \<Longrightarrow> enc x = enc y \<Longrightarrow> x = y"
  using prefix_free [of x y "[]" "[]"] by simp

lemma read_n_enc:
  "(\<forall>x \<in> set xs. wf x) \<Longrightarrow> read_n dec (length xs) (concat (map enc xs) @ rest) = Ok (xs, rest)"
  by (induction xs) (auto simp: dec_enc)

lemma read_n_dec:
  "read_n dec n bs = Ok (xs, rest) \<Longrightarrow>
   bs = concat (map enc xs) @ rest \<and> length xs = n \<and> (\<forall>x \<in> set xs. wf x)"
proof (induction n arbitrary: bs xs)
  case (Suc n)
  then obtain x r ys where "dec bs = Ok (x, r)" "read_n dec n r = Ok (ys, rest)" "xs = x # ys"
    by (auto split: prod.splits)
  with Suc.IH enc_dec show ?case by fastforce
qed simp

lemma read_n_no_panic: "read_n dec n bs \<noteq> Panic"
  by (induction n arbitrary: bs) (auto simp: rbind_Panic_iff no_panic split: prod.splits)

lemma list_prefix_free:
  assumes "\<forall>x \<in> set xs. wf x" "\<forall>x \<in> set ys. wf x" "length xs = length ys"
    and "concat (map enc xs) @ r = concat (map enc ys) @ s"
  shows "xs = ys \<and> r = s"
proof -
  have "read_n dec (length xs) (concat (map enc xs) @ r) = Ok (xs, r)"
    "read_n dec (length xs) (concat (map enc ys) @ s) = Ok (ys, s)"
    using read_n_enc [OF assms(1)] read_n_enc [OF assms(2)] assms(3) by simp_all
  then show ?thesis unfolding assms(4) by simp
qed

end

section \<open>The primitive forms\<close>

lemma r_take_Ok_iff [simp]: "r_take n bs = Ok (x, rest) \<longleftrightarrow> bs = x @ rest \<and> length x = n"
  by (auto simp: r_take_def append_eq_conv_conj)

lemma r_take_append [simp]: "length x = n \<Longrightarrow> r_take n (x @ rest) = Ok (x, rest)"
  by simp

lemma r_take_no_panic [simp]: "r_take n bs \<noteq> Panic"
  by (simp add: r_take_def)

lemma r_u8_Ok_iff [simp]: "r_u8 bs = Ok (b, rest) \<longleftrightarrow> bs = b # rest"
  by (auto simp: r_u8_def length_Suc_conv intro!: exI [of _ "[b]"] exI)

lemma r_u8_Cons: "r_u8 (b # rest) = Ok (b, rest)"
  by simp

lemma r_u8_no_panic [simp]: "r_u8 bs \<noteq> Panic"
  by (auto simp: r_u8_def rbind_Panic_iff)

lemma r_u32_Ok_iff [simp]: "r_u32 bs = Ok (w, rest) \<longleftrightarrow> bs = w_u32 w @ rest"
  by (auto simp: r_u32_def w_u32_def u32_le_u32_from_le intro!: exI [of _ "u32_le w"])

lemma r_u64_Ok_iff [simp]: "r_u64 bs = Ok (w, rest) \<longleftrightarrow> bs = w_u64 w @ rest"
  by (auto simp: r_u64_def w_u64_def u64_le_u64_from_le intro!: exI [of _ "u64_le w"])

lemma r_words_no_panic [simp]: "r_u32 bs \<noteq> Panic" "r_u64 bs \<noteq> Panic" "r_array32 bs \<noteq> Panic"
  by (auto simp: r_u32_def r_u64_def r_array32_def rbind_Panic_iff)

lemma r_array32_Ok_iff [simp]: "r_array32 bs = Ok (x, rest) \<longleftrightarrow> bs = x @ rest \<and> length x = 32"
  by (simp add: r_array32_def)

interpretation u8: codec w_u8 r_u8 "\<lambda>_. True"
  by unfold_locales (auto simp: w_u8_def)

interpretation u32: codec w_u32 r_u32 "\<lambda>_. True"
  by unfold_locales auto

interpretation u64: codec w_u64 r_u64 "\<lambda>_. True"
  by unfold_locales auto

interpretation arr32: codec "\<lambda>x. x" r_array32 "\<lambda>x. length x = 32"
  by unfold_locales auto

section \<open>Varints and length-prefixed strings\<close>

lemma u8_tag: "unat (b :: byte) > 0xfc \<Longrightarrow> b = 0xfd \<or> b = 0xfe \<or> b = 0xff"
proof -
  assume "unat b > 0xfc"
  moreover have "unat b < 256" using unat_lt [of b] by simp
  ultimately have "unat b = 253 \<or> unat b = 254 \<or> unat b = 255" by auto
  then show ?thesis by (auto simp: word_unat_eq_iff)
qed

lemma le_val_take:
  "length b = n \<Longrightarrow> le_val b < 256 ^ n \<and> le_bytes n (le_val b) = b"
  using le_val_bound [of b] le_bytes_le_val [of b] by auto

lemma r_varint_enc: "v < 2 ^ 64 \<Longrightarrow> r_varint (w_varint v @ rest) = Ok (v, rest)"
proof -
  assume v: "v < 2 ^ 64"
  consider "v \<le> 0xfc" | "0xfc < v" "v \<le> 0xffff" | "0xffff < v" "v \<le> 0xffffffff" | "0xffffffff < v"
    by linarith
  then show ?thesis
  proof cases
    case 1
    then have "unat (of_nat v :: byte) = v" by (simp add: unat_of_nat)
    with 1 show ?thesis by (simp add: w_varint_def r_varint_def r_u8_def r_take_def)
  next
    case 2
    then show ?thesis
      by (simp add: w_varint_def r_varint_def r_u8_def r_take_def le_val_le_bytes)
  next
    case 3
    then show ?thesis
      by (simp add: w_varint_def r_varint_def r_u8_def r_take_def le_val_le_bytes)
  next
    case 4
    then have "unat (of_nat v :: u64) = v" using v by (simp add: unat_of_nat)
    with 4 v show ?thesis
      by (simp add: w_varint_def r_varint_def r_u8_def r_take_def r_u64_def u64_from_le_def
          le_val_le_bytes)
  qed
qed

lemma r_varint_dec: "r_varint bs = Ok (v, rest) \<Longrightarrow> bs = w_varint v @ rest \<and> v < 2 ^ 64"
proof -
  assume ok: "r_varint bs = Ok (v, rest)"
  then obtain tag rs where bs: "bs = tag # rs"
    by (auto simp: r_varint_def split: prod.splits)
  have t: "unat tag < 256" using unat_lt [of tag] by simp
  consider "unat tag \<le> 0xfc" | "tag = 0xfd" | "tag = 0xfe" | "tag = 0xff" using u8_tag [of tag] by force
  then show ?thesis
  proof cases
    case 1
    with ok bs t show ?thesis by (auto simp: r_varint_def r_u8_def r_take_def w_varint_def)
  next
    case 2
    then obtain b where b: "rs = b @ rest" "length b = 2" "v = le_val b" "\<not> le_val b < 0xfd"
      using ok bs by (auto simp: r_varint_def r_u8_Cons split: if_splits)
    with 2 bs le_val_take [of b 2] show ?thesis by (simp add: w_varint_def)
  next
    case 3
    then obtain b where b: "rs = b @ rest" "length b = 4" "v = le_val b" "\<not> le_val b \<le> 0xffff"
      using ok bs by (auto simp: r_varint_def r_u8_Cons split: if_splits)
    with 3 bs le_val_take [of b 4] show ?thesis by (simp add: w_varint_def)
  next
    case 4
    then obtain w where w: "rs = w_u64 w @ rest" "v = unat w" "\<not> unat w \<le> 0xffffffff"
      using ok bs by (auto simp: r_varint_def r_u8_Cons split: if_splits)
    with 4 bs unat_lt [of w] show ?thesis by (simp add: w_varint_def w_u64_def u64_le_def)
  qed
qed

lemma r_varint_no_panic [simp]: "r_varint bs \<noteq> Panic"
  by (auto simp: r_varint_def rbind_Panic_iff split: prod.splits if_splits)

interpretation varint: codec w_varint r_varint "\<lambda>v. v < 2 ^ 64"
  by unfold_locales (auto simp: r_varint_enc dest: r_varint_dec)

interpretation var_bytes: codec w_var_bytes r_var_bytes "\<lambda>v. length v < 2 ^ 64"
  by unfold_locales
    (auto simp: w_var_bytes_def r_var_bytes_def varint.dec_enc rbind_Panic_iff split: prod.splits
      dest!: varint.enc_dec)

lemma read_count_no_panic [simp]: "read_count m bs \<noteq> Panic"
  by (auto simp: read_count_def rbind_Panic_iff split: prod.splits if_splits)

lemma read_count_Ok_iff:
  "read_count m bs = Ok (n, rest) \<longleftrightarrow>
   n < 2 ^ 64 \<and> bs = w_varint n @ rest \<and> (m \<noteq> 0 \<longrightarrow> n \<le> length rest div m)"
proof
  assume "read_count m bs = Ok (n, rest)"
  then show "n < 2 ^ 64 \<and> bs = w_varint n @ rest \<and> (m \<noteq> 0 \<longrightarrow> n \<le> length rest div m)"
    by (auto simp: read_count_def split: prod.splits if_splits dest!: varint.enc_dec)
qed (auto simp: read_count_def varint.dec_enc)

lemma read_count_enc:
  "n < 2 ^ 64 \<Longrightarrow> n * m \<le> length rest \<Longrightarrow> read_count m (w_varint n @ rest) = Ok (n, rest)"
proof -
  assume "n < 2 ^ 64" "n * m \<le> length rest"
  moreover have "m \<noteq> 0 \<Longrightarrow> n \<le> length rest div m"
    using \<open>n * m \<le> length rest\<close> by (simp add: less_eq_div_iff_mult_less_eq)
  ultimately show ?thesis by (simp add: read_count_Ok_iff)
qed

lemma length_w_varint_ge [simp]: "1 \<le> length (w_varint v)"
  by (simp add: w_varint_def)

lemma expect_end_Ok_iff [simp]: "expect_end bs = Ok u \<longleftrightarrow> bs = []"
  by (auto simp: expect_end_def)

lemma expect_end_no_panic [simp]: "expect_end bs \<noteq> Panic"
  by (simp add: expect_end_def)

text \<open>Variable-length integers have one form: the reader returns exactly the values below
  \<open>2 ^ 64\<close>, each from the bytes the writer produces for it and from no others, and never panics.
  The announced count of \<open>read_count\<close> always fits in the rest of the input.\<close>

theorem varint_canonical:
  "(r_varint bs = Ok (v, rest) \<longleftrightarrow> v < 2 ^ 64 \<and> bs = w_varint v @ rest) \<and>
   (read_count m bs = Ok (n, rest') \<longleftrightarrow>
      n < 2 ^ 64 \<and> bs = w_varint n @ rest' \<and> (m = 0 \<or> n * m \<le> length rest')) \<and>
   r_varint bs \<noteq> Panic"
  by (auto simp: varint.dec_iff read_count_Ok_iff less_eq_div_iff_mult_less_eq)

end
