(* ===== verification/Hashing.thy ===== *)
theory Hashing
  imports Prelude "HOL-Library.While_Combinator"
begin

text \<open>
  SHA-256 (\<open>src/src/sha256.rs\<close>) and the tagged hashes (\<open>src/src/hash.rs\<close>). The incremental hasher is a
  record with the fields of the source: the chaining state, the 64-byte buffer, the number of bytes
  buffered and the total length modulo \<open>2 ^ 64\<close>. \<open>sha256_spec\<close> is the padding and block chaining of
  FIPS 180-4 on a whole message; feeding the hasher in any number of parts gives the digest of
  their concatenation.
\<close>

unbundle bit_operations_syntax

section \<open>The incremental hasher\<close>

definition SHA_H0 :: "u32 list" where
  "SHA_H0 = [0x6a09e667, 0xbb67ae85, 0x3c6ef372, 0xa54ff53a,
             0x510e527f, 0x9b05688c, 0x1f83d9ab, 0x5be0cd19]"

text \<open>The 64 round constants, two to a 64-bit literal.\<close>

definition SHA_K_PAIRS :: "u64 list" where
  "SHA_K_PAIRS = [
    0x428a2f9871374491, 0xb5c0fbcfe9b5dba5, 0x3956c25b59f111f1, 0x923f82a4ab1c5ed5,
    0xd807aa9812835b01, 0x243185be550c7dc3, 0x72be5d7480deb1fe, 0x9bdc06a7c19bf174,
    0xe49b69c1efbe4786, 0x0fc19dc6240ca1cc, 0x2de92c6f4a7484aa, 0x5cb0a9dc76f988da,
    0x983e5152a831c66d, 0xb00327c8bf597fc7, 0xc6e00bf3d5a79147, 0x06ca635114292967,
    0x27b70a852e1b2138, 0x4d2c6dfc53380d13, 0x650a7354766a0abb, 0x81c2c92e92722c85,
    0xa2bfe8a1a81a664b, 0xc24b8b70c76c51a3, 0xd192e819d6990624, 0xf40e3585106aa070,
    0x19a4c1161e376c08, 0x2748774c34b0bcb5, 0x391c0cb34ed8aa4a, 0x5b9cca4f682e6ff3,
    0x748f82ee78a5636f, 0x84c878148cc70208, 0x90befffaa4506ceb, 0xbef9a3f7c67178f2]"

definition SHA_K :: "u32 list" where
  "SHA_K = concat (map (\<lambda>w. [ucast (drop_bit 32 w), ucast w]) SHA_K_PAIRS)"

record sha256_hasher =
  sha_state :: "u32 list"
  sha_buffer :: "byte list"
  sha_buffered :: nat
  sha_total_len :: u64

definition sha256_new :: sha256_hasher where
  "sha256_new = \<lparr>sha_state = SHA_H0, sha_buffer = replicate 64 0, sha_buffered = 0, sha_total_len = 0\<rparr>"

text \<open>The message schedule: sixteen words of the block, then forty-eight derived ones.\<close>

fun schedule_from :: "nat \<Rightarrow> u32 list \<Rightarrow> u32 list" where
  "schedule_from 0 w = w"
| "schedule_from (Suc n) w =
     (let i = length w;
          a = w ! (i - 15); b = w ! (i - 2);
          s0 = word_rotr 7 a XOR word_rotr 18 a XOR drop_bit 3 a;
          s1 = word_rotr 17 b XOR word_rotr 19 b XOR drop_bit 10 b
      in schedule_from n (w @ [w ! (i - 16) + s0 + w ! (i - 7) + s1]))"

definition sha_schedule :: "byte list \<Rightarrow> u32 list" where
  "sha_schedule block =
     schedule_from 48 (map (\<lambda>i. of_nat (be_val (take 4 (drop (i * 4) block)))) [0..<16])"

type_synonym sha_vars = "u32 \<times> u32 \<times> u32 \<times> u32 \<times> u32 \<times> u32 \<times> u32 \<times> u32"

fun sha_round :: "u32 list \<Rightarrow> sha_vars \<Rightarrow> nat \<Rightarrow> sha_vars" where
  "sha_round w (a, b, c, d, e, f, g, h) i =
     (let s1 = word_rotr 6 e XOR word_rotr 11 e XOR word_rotr 25 e;
          ch = (e AND f) XOR (NOT e AND g);
          t1 = h + s1 + ch + SHA_K ! i + w ! i;
          s0 = word_rotr 2 a XOR word_rotr 13 a XOR word_rotr 22 a;
          maj = (a AND b) XOR (a AND c) XOR (b AND c);
          t2 = s0 + maj
      in (t1 + t2, a, b, c, d + t1, e, f, g))"

definition sha_compress :: "u32 list \<Rightarrow> byte list \<Rightarrow> u32 list" where
  "sha_compress st block =
     (case foldl (sha_round (sha_schedule block))
             (st ! 0, st ! 1, st ! 2, st ! 3, st ! 4, st ! 5, st ! 6, st ! 7) [0..<64] of
        (a, b, c, d, e, f, g, h) \<Rightarrow>
          [st ! 0 + a, st ! 1 + b, st ! 2 + c, st ! 3 + d, st ! 4 + e, st ! 5 + f, st ! 6 + g, st ! 7 + h])"

text \<open>\<open>dst[i..i + src.len()].copy_from_slice(src)\<close>.\<close>

definition copy_at :: "nat \<Rightarrow> 'a list \<Rightarrow> 'a list \<Rightarrow> 'a list" where
  "copy_at i src dst = take i dst @ src @ drop (i + length src) dst"

text \<open>The middle loop of \<open>update\<close>: whole blocks straight from the input.\<close>

function sha_blocks :: "u32 list \<Rightarrow> byte list \<Rightarrow> u32 list \<times> byte list" where
  "sha_blocks st bs =
     (if length bs \<ge> 64 then sha_blocks (sha_compress st (take 64 bs)) (drop 64 bs) else (st, bs))"
  by pat_completeness auto
termination
  by (relation "measure (\<lambda>(st, bs). length bs)") auto

declare sha_blocks.simps [simp del]

definition sha256_update :: "sha256_hasher \<Rightarrow> byte list \<Rightarrow> sha256_hasher" where
  "sha256_update s bs =
     (let s = s\<lparr>sha_total_len := sha_total_len s + of_nat (length bs)\<rparr>;
          (s, bs) =
            (if sha_buffered s > 0 then
               let need = 64 - sha_buffered s;
                   tk = min need (length bs);
                   buf = copy_at (sha_buffered s) (take tk bs) (sha_buffer s);
                   n = sha_buffered s + tk
               in if n = 64 then
                    (s\<lparr>sha_buffer := buf, sha_buffered := 0, sha_state := sha_compress (sha_state s) buf\<rparr>,
                     drop tk bs)
                  else (s\<lparr>sha_buffer := buf, sha_buffered := n\<rparr>, drop tk bs)
             else (s, bs));
          (st, bs) = sha_blocks (sha_state s) bs;
          s = s\<lparr>sha_state := st\<rparr>
      in if bs \<noteq> [] then s\<lparr>sha_buffer := copy_at 0 bs (sha_buffer s), sha_buffered := length bs\<rparr> else s)"

definition sha_pad :: "sha256_hasher \<Rightarrow> sha256_hasher option" where
  "sha_pad s = while_option (\<lambda>s. sha_buffered s \<noteq> 56) (\<lambda>s. sha256_update s [0]) s"

text \<open>\<open>finalize\<close>; \<open>None\<close> would be a padding loop that does not end.\<close>

definition sha256_finalize :: "sha256_hasher \<Rightarrow> byte list option" where
  "sha256_finalize s =
     (let bit_len = sha_total_len s * 8
      in map_option (\<lambda>s.
           let block = copy_at 56 (be_bytes 8 (unat bit_len)) (sha_buffer s);
               st = sha_compress (sha_state s) block
           in concat (map (\<lambda>w. be_bytes 4 (unat w)) st))
         (sha_pad (sha256_update s [0x80])))"

definition sha256 :: "byte list \<Rightarrow> byte list" where
  "sha256 bs = the (sha256_finalize (sha256_update sha256_new bs))"

section \<open>Tagged hashes\<close>

definition tagged_hash :: "string \<Rightarrow> byte list \<Rightarrow> hash256" where
  "tagged_hash tag message =
     (let tag_hash = sha256 (str_bytes tag);
          h = sha256_update (sha256_update sha256_new tag_hash) tag_hash
      in the (sha256_finalize (sha256_update h message)))"

definition tagged_hash_parts :: "string \<Rightarrow> byte list list \<Rightarrow> hash256" where
  "tagged_hash_parts tag parts =
     (let tag_hash = sha256 (str_bytes tag);
          h = sha256_update (sha256_update sha256_new tag_hash) tag_hash
      in the (sha256_finalize (foldl sha256_update h parts)))"

definition HASH_ZERO :: hash256 where
  "HASH_ZERO = replicate 32 0"

definition TAG_TX :: string where
  "TAG_TX = ''Q21/tx''"

definition TAG_BLOCK_HEADER :: string where
  "TAG_BLOCK_HEADER = ''Q21/header''"

definition TAG_MERKLE_LEAF :: string where
  "TAG_MERKLE_LEAF = ''Q21/merkle/leaf''"

definition TAG_MERKLE_BRANCH :: string where
  "TAG_MERKLE_BRANCH = ''Q21/merkle/branch''"

definition TAG_ADDRESS :: string where
  "TAG_ADDRESS = ''Q21/address''"

definition TAG_SIGHASH :: string where
  "TAG_SIGHASH = ''Q21/sighash/2''"

definition TAG_POLICY :: string where
  "TAG_POLICY = ''Q21/policy''"

definition TAG_POLICY_SIGHASH :: string where
  "TAG_POLICY_SIGHASH = ''Q21/sighash/policy''"

definition TAG_WALLET_SEED :: string where
  "TAG_WALLET_SEED = ''Q21/wallet/seed''"

text \<open>Lower-case hexadecimal, as \<open>{b:02x}\<close> prints it, and \<open>u8::from_str_radix(_, 16)\<close> on two
  characters, which also accepts upper case and a leading plus sign.\<close>

definition hex_digit :: "nat \<Rightarrow> char" where
  "hex_digit n = ''0123456789abcdef'' ! n"

definition to_hex :: "hash256 \<Rightarrow> string" where
  "to_hex h = concat (map (\<lambda>b. [hex_digit (unat b div 16), hex_digit (unat b mod 16)]) h)"

definition hex_value :: "char \<Rightarrow> nat option" where
  "hex_value c =
     (let n = of_char c :: nat
      in if 48 \<le> n \<and> n \<le> 57 then Some (n - 48)
         else if 97 \<le> n \<and> n \<le> 102 then Some (n - 87)
         else if 65 \<le> n \<and> n \<le> 70 then Some (n - 55)
         else None)"

definition hex_pair :: "char \<Rightarrow> char \<Rightarrow> byte option" where
  "hex_pair c d =
     (if c = CHR ''+'' then map_option of_nat (hex_value d)
      else Option.bind (hex_value c) (\<lambda>x. map_option (\<lambda>y. of_nat (16 * x + y)) (hex_value d)))"

fun from_hex_pairs :: "string \<Rightarrow> byte list option" where
  "from_hex_pairs [] = Some []"
| "from_hex_pairs [c] = None"
| "from_hex_pairs (c # d # s) =
     Option.bind (hex_pair c d) (\<lambda>b. map_option (\<lambda>bs. b # bs) (from_hex_pairs s))"

definition from_hex :: "string \<Rightarrow> hash256 option" where
  "from_hex s = (if length s \<noteq> 64 then None else from_hex_pairs s)"

section \<open>Streaming\<close>

definition sha_zeros :: "nat \<Rightarrow> nat" where
  "sha_zeros n = (119 - n mod 64) mod 64"

definition sha_padded :: "byte list \<Rightarrow> byte list" where
  "sha_padded m = m @ [0x80] @ replicate (sha_zeros (length m)) 0 @ be_bytes 8 (8 * length m mod 2 ^ 64)"

definition sha256_spec :: "byte list \<Rightarrow> byte list" where
  "sha256_spec m = concat (map (\<lambda>w. be_bytes 4 (unat w)) (fst (sha_blocks SHA_H0 (sha_padded m))))"

lemma sha_blocks_append:
  "sha_blocks st (a @ b) = (case sha_blocks st a of (st', r) \<Rightarrow> sha_blocks st' (r @ b))"
proof (induction st a rule: sha_blocks.induct)
  case (1 st a)
  show ?case
  proof (cases "length a \<ge> 64")
    case True
    then have "sha_blocks st (a @ b) = sha_blocks (sha_compress st (take 64 a)) (drop 64 a @ b)"
      by (subst sha_blocks.simps) simp
    moreover have "sha_blocks st a = sha_blocks (sha_compress st (take 64 a)) (drop 64 a)"
      using True by (subst sha_blocks.simps) simp
    ultimately show ?thesis using 1 True by simp
  next
    case False
    then have "sha_blocks st a = (st, a)" by (simp add: sha_blocks.simps)
    then show ?thesis by simp
  qed
qed

lemma sha_blocks_rest: "length (snd (sha_blocks st bs)) = length bs mod 64"
proof (induction st bs rule: sha_blocks.induct)
  case (1 st bs)
  then show ?case
    by (subst sha_blocks.simps) (auto simp: le_mod_geq)
qed

lemma sha_blocks_short: "length bs < 64 \<Longrightarrow> sha_blocks st bs = (st, bs)"
  by (simp add: sha_blocks.simps)

lemma sha_blocks_one: "length bs = 64 \<Longrightarrow> sha_blocks st bs = (sha_compress st bs, [])"
  by (subst sha_blocks.simps) (simp add: sha_blocks_short)

text \<open>The hasher has absorbed the message \<open>m\<close>.\<close>

definition absorbed :: "sha256_hasher \<Rightarrow> byte list \<Rightarrow> bool" where
  "absorbed s m \<longleftrightarrow>
     sha_blocks SHA_H0 m = (sha_state s, take (sha_buffered s) (sha_buffer s)) \<and>
     sha_buffered s < 64 \<and> length (sha_buffer s) = 64 \<and> sha_total_len s = of_nat (length m)"

lemma absorbed_buffered: "absorbed s m \<Longrightarrow> sha_buffered s = length m mod 64"
  using sha_blocks_rest [of SHA_H0 m] by (auto simp: absorbed_def)

lemma absorbed_new [simp]: "absorbed sha256_new []"
  by (simp add: absorbed_def sha256_new_def sha_blocks_short)

lemma length_copy_at [simp]: "i + length src \<le> length dst \<Longrightarrow> length (copy_at i src dst) = length dst"
  by (simp add: copy_at_def)

lemma take_copy_at: "i \<le> length dst \<Longrightarrow> take (i + length src) (copy_at i src dst) = take i dst @ src"
  by (simp add: copy_at_def)

lemma absorbed_update:
  assumes "absorbed s m"
  shows "absorbed (sha256_update s d) (m @ d)"
proof -
  let ?b = "sha_buffered s" and ?buf = "sha_buffer s" and ?st = "sha_state s"
  let ?tk = "min (64 - ?b) (length d)"
  let ?nb = "copy_at ?b (take ?tk d) ?buf"
  have b: "?b < 64" and len: "length ?buf = 64"
    and blk: "sha_blocks SHA_H0 m = (?st, take ?b ?buf)"
    and tot: "sha_total_len s = of_nat (length m)"
    using assms by (auto simp: absorbed_def)
  have full: "sha_blocks SHA_H0 (m @ d) = sha_blocks ?st (take ?b ?buf @ d)"
    using sha_blocks_append [of SHA_H0 m d] blk by simp
  obtain st r where fin: "sha_blocks ?st (take ?b ?buf @ d) = (st, r)" by force
  have r: "length r < 64" using sha_blocks_rest [of ?st "take ?b ?buf @ d"] fin by simp
  show ?thesis
  proof (cases "?b = 0")
    case True
    then have "sha_blocks ?st d = (st, r)" using fin by simp
    with True r full fin len tot show ?thesis
      by (auto simp: sha256_update_def Let_def absorbed_def copy_at_def)
  next
    case False
    have nb: "take (?b + ?tk) ?nb = take ?b ?buf @ take ?tk d"
      using take_copy_at [of ?b ?buf "take ?tk d"] b len by simp
    show ?thesis
    proof (cases "?b + ?tk = 64")
      case True
      then have "?nb = take ?b ?buf @ take ?tk d" using nb len b by simp
      moreover have "length (take ?b ?buf @ take ?tk d) = 64" using True b len by simp
      ultimately have "sha_blocks ?st (take ?b ?buf @ d) = sha_blocks (sha_compress ?st ?nb) (drop ?tk d)"
        using sha_blocks_append [of ?st "take ?b ?buf @ take ?tk d" "drop ?tk d"]
        by (simp add: sha_blocks_one)
      then have "sha_blocks (sha_compress ?st ?nb) (drop ?tk d) = (st, r)" using fin by simp
      with True False r full fin len tot b show ?thesis
        by (auto simp: sha256_update_def Let_def absorbed_def copy_at_def)
    next
      case less: False
      then have tk: "?tk = length d" "?b + length d < 64" using b by auto
      then have "sha_blocks ?st (take ?b ?buf @ d) = (?st, take ?b ?buf @ d)"
        using len b by (intro sha_blocks_short) simp
      with tk False full nb len tot b show ?thesis
        by (auto simp: sha256_update_def Let_def absorbed_def sha_blocks_short)
    qed
  qed
qed

lemma absorbed_updates: "absorbed s m \<Longrightarrow> absorbed (foldl sha256_update s ps) (m @ concat ps)"
proof (induction ps arbitrary: s m)
  case (Cons p ps)
  from Cons.IH [OF absorbed_update [OF Cons.prems, of p]] show ?case by simp
qed simp

lemma sha_pad_absorbed:
  assumes "absorbed s m" and "(sha_buffered s + k) mod 64 = 56" and "k < 64"
  shows "\<exists>s'. sha_pad s = Some s' \<and> absorbed s' (m @ replicate k 0) \<and> sha_buffered s' = 56"
  using assms
proof (induction k arbitrary: s m)
  case 0
  then have "sha_buffered s = 56" by (simp add: absorbed_def)
  with 0 show ?case by (simp add: sha_pad_def while_option_unfold)
next
  case (Suc k)
  let ?s = "sha256_update s [0]"
  have b: "sha_buffered s < 64" using Suc.prems by (simp add: absorbed_def)
  have ne: "sha_buffered s \<noteq> 56"
  proof
    assume "sha_buffered s = 56"
    with Suc.prems(2) have "(57 + k) mod 64 = 56" by simp
    with Suc.prems(3) show False by (auto simp: mod_if split: if_splits)
  qed
  have a: "absorbed ?s (m @ [0])" by (rule absorbed_update [OF Suc.prems(1)])
  have "sha_buffered ?s = (sha_buffered s + 1) mod 64"
    using absorbed_buffered [OF a] absorbed_buffered [OF Suc.prems(1)] by (simp add: mod_Suc_eq)
  then have "(sha_buffered ?s + k) mod 64 = 56"
    using Suc.prems(2) by (simp add: mod_add_left_eq)
  from Suc.IH [OF a this] Suc.prems(3) obtain s' where
    "sha_pad ?s = Some s'" "absorbed s' (m @ replicate (Suc k) 0)" "sha_buffered s' = 56" by auto
  moreover have "sha_pad s = sha_pad ?s"
    using ne by (simp add: sha_pad_def while_option_unfold [of _ _ s])
  ultimately show ?case by auto
qed

lemma sha_zeros_ok: "(Suc n + sha_zeros n) mod 64 = 56" "sha_zeros n < 64"
proof -
  have "(Suc n + (119 - n mod 64)) mod 64 = (Suc (n mod 64) + (119 - n mod 64)) mod 64"
    by (metis mod_Suc_eq mod_add_left_eq)
  also have "\<dots> = 56" using pos_mod_bound [of 64 "int n"] by (simp add: less_imp_le)
  finally show "(Suc n + sha_zeros n) mod 64 = 56" by (simp only: sha_zeros_def mod_add_right_eq)
qed (simp add: sha_zeros_def)

lemma sha256_finalize_absorbed:
  assumes "absorbed s m"
  shows "sha256_finalize s = Some (sha256_spec m)"
proof -
  let ?z = "sha_zeros (length m)"
  let ?s = "sha256_update s [0x80]"
  have a: "absorbed ?s (m @ [0x80])" by (rule absorbed_update [OF assms])
  have "(sha_buffered ?s + ?z) mod 64 = 56"
    using absorbed_buffered [OF a] sha_zeros_ok(1) [of "length m"] by (simp add: mod_add_left_eq)
  from sha_pad_absorbed [OF a this sha_zeros_ok(2)] obtain s' where
    s': "sha_pad ?s = Some s'" "absorbed s' (m @ [0x80] @ replicate ?z 0)" "sha_buffered s' = 56" by auto
  let ?l = "be_bytes 8 (8 * length m mod 2 ^ 64)"
  have "unat (sha_total_len s * 8) = 8 * length m mod 2 ^ 64"
    using assms unat_of_nat [of "8 * length m", where 'a = 64]
    by (simp add: absorbed_def mult.commute)
  moreover have "copy_at 56 ?l (sha_buffer s') = take 56 (sha_buffer s') @ ?l"
    using s'(2) by (simp add: copy_at_def absorbed_def)
  moreover have "sha_blocks SHA_H0 (sha_padded m) =
      (sha_compress (sha_state s') (take 56 (sha_buffer s') @ ?l), [])"
  proof -
    have "sha_padded m = (m @ [0x80] @ replicate ?z 0) @ ?l" by (simp add: sha_padded_def)
    then have "sha_blocks SHA_H0 (sha_padded m) = sha_blocks (sha_state s') (take 56 (sha_buffer s') @ ?l)"
      using s'(2,3) sha_blocks_append [of SHA_H0 "m @ [0x80] @ replicate ?z 0" ?l]
      by (simp add: absorbed_def)
    then show ?thesis using s'(2) by (simp add: sha_blocks_one absorbed_def)
  qed
  ultimately show ?thesis
    using s'(1) by (simp add: sha256_finalize_def sha256_spec_def Let_def)
qed

lemma sha256_eq_spec: "sha256 m = sha256_spec m"
  using sha256_finalize_absorbed [OF absorbed_update [OF absorbed_new]] by (simp add: sha256_def)

lemma tagged_hash_parts_eq:
  "tagged_hash_parts tag ps = sha256_spec (sha256 (str_bytes tag) @ sha256 (str_bytes tag) @ concat ps)"
  using sha256_finalize_absorbed [OF absorbed_updates [OF absorbed_update [OF absorbed_update [OF absorbed_new]]]]
  by (simp add: tagged_hash_parts_def Let_def)

lemma tagged_hash_eq:
  "tagged_hash tag m = sha256_spec (sha256 (str_bytes tag) @ sha256 (str_bytes tag) @ m)"
  using sha256_finalize_absorbed [OF absorbed_update [OF absorbed_update [OF absorbed_update [OF absorbed_new]]]]
  by (simp add: tagged_hash_def Let_def)

lemma tagged_hash_parts_concat: "tagged_hash_parts tag ps = tagged_hash tag (concat ps)"
  by (simp add: tagged_hash_parts_eq tagged_hash_eq)

lemma length_sha_compress [simp]: "length (sha_compress st b) = 8"
  by (simp add: sha_compress_def split: prod.splits)

lemma length_sha_blocks: "length st = 8 \<Longrightarrow> length (fst (sha_blocks st bs)) = 8"
proof (induction st bs rule: sha_blocks.induct)
  case (1 st bs)
  then show ?case by (subst sha_blocks.simps) simp
qed

lemma length_sha256_spec [simp]: "length (sha256_spec m) = 32"
proof -
  have "length (fst (sha_blocks SHA_H0 (sha_padded m))) = 8"
    by (rule length_sha_blocks) (simp add: SHA_H0_def)
  then show ?thesis
    by (simp add: sha256_spec_def length_concat comp_def sum_list_triv)
qed

lemma length_tagged_hash [simp]: "length (tagged_hash tag m) = 32" "length (tagged_hash_parts tag ps) = 32"
  by (simp_all add: tagged_hash_eq tagged_hash_parts_eq)

section \<open>Hexadecimal\<close>

lemma hex_value_digit: "n < 16 \<Longrightarrow> hex_value (hex_digit n) = Some n \<and> hex_digit n \<noteq> CHR ''+''"
proof -
  assume "n < 16"
  moreover have "\<forall>n \<in> set [0..<16]. hex_value (hex_digit n) = Some n \<and> hex_digit n \<noteq> CHR ''+''"
    by code_simp
  ultimately show ?thesis by simp
qed

lemma from_hex_pairs_to_hex: "from_hex_pairs (to_hex h) = Some h"
proof (induction h)
  case (Cons b h)
  have lt: "unat b div 16 < 16" using unat_lt [of b] by (simp add: less_mult_imp_div_less)
  have "hex_pair (hex_digit (unat b div 16)) (hex_digit (unat b mod 16)) = Some b"
    using hex_value_digit [OF lt] hex_value_digit [of "unat b mod 16"]
    by (simp add: hex_pair_def del: of_nat_add of_nat_mult)
  with Cons show ?case by (simp add: to_hex_def)
qed (simp add: to_hex_def)

lemma length_to_hex: "length (to_hex h) = 2 * length h"
  by (induction h) (simp_all add: to_hex_def)

text \<open>The incremental hasher returns, always, the FIPS 180-4 digest of the concatenation of what it
  was fed, however it was split: the buffering loses nothing, the padding loop ends, and the digest
  has 32 bytes. The multi-part tagged hash is the tagged hash of the concatenation.\<close>

theorem sha256_streaming:
  "sha256_finalize (foldl sha256_update sha256_new parts) = Some (sha256_spec (concat parts)) \<and>
   length (sha256_spec (concat parts)) = 32 \<and> sha256 (concat parts) = sha256_spec (concat parts) \<and>
   tagged_hash_parts tag parts = tagged_hash tag (concat parts)"
  using sha256_finalize_absorbed [OF absorbed_updates [OF absorbed_new]]
  by (simp add: sha256_eq_spec tagged_hash_parts_concat)

end
