(* ===== verification/Merkle.thy ===== *)
theory Merkle
  imports Hashing
begin

text \<open>
  The Merkle tree of \<open>src/src/merkle.rs\<close>: roots, inclusion proofs and their verification. The loops
  over a level are recursions over its list; the variables \<open>i\<close>, \<open>next.len()\<close> and \<open>pos\<close> of
  \<open>merkle_proof\<close> are kept.

  The specification is a tree: \<open>mtree\<close> with its hash, its leaves and the list of the tagged
  messages hashed to build it. A digest is a commitment only up to collisions, so the binding
  theorem exhibits a collision among the messages the two trees hash.
\<close>

definition leaf_hash :: "byte list \<Rightarrow> hash256" where
  "leaf_hash bs = tagged_hash TAG_MERKLE_LEAF bs"

definition branch_hash :: "hash256 \<Rightarrow> hash256 \<Rightarrow> hash256" where
  "branch_hash left right = tagged_hash_parts TAG_MERKLE_BRANCH [left, right]"

text \<open>One level up: pairs are hashed, an odd last node is promoted.\<close>

fun merkle_level :: "hash256 list \<Rightarrow> hash256 list" where
  "merkle_level (a # b # rest) = branch_hash a b # merkle_level rest"
| "merkle_level level = level"

lemma length_merkle_level: "length (merkle_level xs) = (length xs + 1) div 2"
  by (induction xs rule: merkle_level.induct) auto

function merkle_up :: "hash256 list \<Rightarrow> hash256" where
  "merkle_up level = (if length level > 1 then merkle_up (merkle_level level) else level ! 0)"
  by pat_completeness auto
termination
  by (relation "measure length") (auto simp: length_merkle_level)

declare merkle_up.simps [simp del]

definition merkle_root :: "hash256 list \<Rightarrow> hash256" where
  "merkle_root leaves = (if leaves = [] then HASH_ZERO else merkle_up leaves)"

record proof_step =
  sibling :: hash256
  sibling_on_right :: bool

fun proof_level ::
  "hash256 list \<Rightarrow> nat \<Rightarrow> nat \<Rightarrow> nat \<Rightarrow> hash256 list \<times> nat \<times> proof_step list" where
  "proof_level (a # b # rest) i next_len pos =
     (let (pos', step) =
            (if i = pos \<or> i + 1 = pos then
               let on_right = (pos = i)
               in (next_len, [\<lparr>sibling = (if on_right then b else a), sibling_on_right = on_right\<rparr>])
             else (pos, []));
          (nx, p, steps) = proof_level rest (i + 2) (next_len + 1) pos'
      in (branch_hash a b # nx, p, step @ steps))"
| "proof_level [a] i next_len pos = ([a], if i = pos then next_len else pos, [])"
| "proof_level [] i next_len pos = ([], pos, [])"

lemma fst_proof_level: "fst (proof_level xs i n pos) = merkle_level xs"
  by (induction xs i n pos rule: proof_level.induct) (auto simp: Let_def split: prod.splits if_splits)

function merkle_proof_up :: "hash256 list \<Rightarrow> nat \<Rightarrow> proof_step list" where
  "merkle_proof_up level pos =
     (if length level > 1 then
        (case proof_level level 0 0 pos of (level', pos', steps) \<Rightarrow> steps @ merkle_proof_up level' pos')
      else [])"
  by pat_completeness auto
termination
proof (relation "measure (\<lambda>(level, pos). length level)")
  fix level :: "hash256 list" and pos level' y pos' steps
  assume "1 < length level" "(level', y) = proof_level level 0 0 pos" "(pos', steps) = y"
  then show "((level', pos'), level, pos) \<in> measure (\<lambda>(level, pos). length level)"
    using fst_proof_level [of level 0 0 pos] by (auto simp: length_merkle_level dest: arg_cong [of _ _ fst])
qed simp

declare merkle_proof_up.simps [simp del]

definition merkle_proof :: "hash256 list \<Rightarrow> nat \<Rightarrow> proof_step list option" where
  "merkle_proof leaves index = (if index \<ge> length leaves then None else Some (merkle_proof_up leaves index))"

fun proof_fold :: "hash256 \<Rightarrow> proof_step list \<Rightarrow> hash256" where
  "proof_fold current [] = current"
| "proof_fold current (s # steps) =
     proof_fold (if sibling_on_right s then branch_hash current (sibling s)
                 else branch_hash (sibling s) current) steps"

definition verify_proof :: "hash256 \<Rightarrow> proof_step list \<Rightarrow> hash256 \<Rightarrow> bool" where
  "verify_proof leaf prf root \<longleftrightarrow> proof_fold leaf prf = root"

section \<open>Inclusion proofs\<close>

lemma proof_fold_append: "proof_fold c (xs @ ys) = proof_fold (proof_fold c xs) ys"
  by (induction xs arbitrary: c) auto

text \<open>Past the tracked position, the loop leaves it alone.\<close>

lemma proof_level_past: "pos < i \<Longrightarrow> proof_level xs i n pos = (merkle_level xs, pos, [])"
  by (induction xs i n pos rule: proof_level.induct) auto

lemma proof_level_step:
  assumes "i \<le> pos" "pos < i + length xs" "n \<le> i"
  shows "\<exists>p steps. proof_level xs i n pos = (merkle_level xs, p, steps) \<and>
    n \<le> p \<and> p < n + length (merkle_level xs) \<and> length steps \<le> 1 \<and>
    proof_fold (xs ! (pos - i)) steps = merkle_level xs ! (p - n)"
  using assms
proof (induction xs i n pos rule: proof_level.induct)
  case (1 a b rest i n pos)
  show ?case
  proof (cases "i = pos \<or> i + 1 = pos")
    case True
    then have "proof_level rest (i + 2) (n + 1) n = (merkle_level rest, n, [])"
      using "1.prems" by (intro proof_level_past) simp
    with True "1.prems" show ?thesis by (auto simp: Let_def)
  next
    case False
    then have "i + 2 \<le> pos" "pos < i + 2 + length rest" "n + 1 \<le> i + 2"
      using "1.prems" by auto
    moreover have "(pos, []) = (if i = pos \<or> i + 1 = pos
        then let on_right = pos = i
             in (n, [\<lparr>sibling = if on_right then b else a, sibling_on_right = on_right\<rparr>])
        else (pos, []))" using False by auto
    ultimately obtain p steps where
      r: "proof_level rest (i + 2) (n + 1) pos = (merkle_level rest, p, steps)"
      "n + 1 \<le> p" "p < n + 1 + length (merkle_level rest)" "length steps \<le> 1"
      "proof_fold (rest ! (pos - (i + 2))) steps = merkle_level rest ! (p - (n + 1))"
      using "1.IH" by blast
    have "(a # b # rest) ! (pos - i) = rest ! (pos - (i + 2))"
      using \<open>i + 2 \<le> pos\<close> by (simp add: nth_Cons' numeral_2_eq_2)
    moreover have "merkle_level (a # b # rest) ! (p - n) = merkle_level rest ! (p - (n + 1))"
      using r(2) by (simp add: nth_Cons')
    moreover have "proof_level (a # b # rest) i n pos = (merkle_level (a # b # rest), p, steps)"
      using False r(1) by auto
    ultimately show ?thesis using r by (intro exI [of _ p] exI [of _ steps]) auto
  qed
qed auto

lemma merkle_proof_up_fold:
  "pos < length xs \<Longrightarrow> proof_fold (xs ! pos) (merkle_proof_up xs pos) = merkle_up xs"
proof (induction xs pos rule: merkle_proof_up.induct)
  case (1 xs pos)
  show ?case
  proof (cases "length xs > 1")
    case True
    obtain p steps where r: "proof_level xs 0 0 pos = (merkle_level xs, p, steps)"
      "p < length (merkle_level xs)" "proof_fold (xs ! pos) steps = merkle_level xs ! p"
      using proof_level_step [of 0 pos xs 0] "1.prems" by auto
    have "merkle_proof_up xs pos = steps @ merkle_proof_up (merkle_level xs) p"
      using True r by (subst merkle_proof_up.simps) simp
    moreover have "merkle_up xs = merkle_up (merkle_level xs)"
      using True by (subst merkle_up.simps) simp
    ultimately show ?thesis using "1.IH" [OF True r(1) [symmetric] refl] r by (simp add: proof_fold_append)
  next
    case False
    moreover have "pos = 0" using False "1.prems" by simp
    ultimately show ?thesis
      by (simp add: merkle_proof_up.simps [of xs] merkle_up.simps [of xs])
  qed
qed

lemma merkle_proof_up_length: "pos < length xs \<Longrightarrow> length xs \<le> 2 ^ k \<Longrightarrow> length (merkle_proof_up xs pos) \<le> k"
proof (induction k arbitrary: xs pos)
  case 0
  then show ?case by (simp add: merkle_proof_up.simps [of xs])
next
  case (Suc k)
  show ?case
  proof (cases "length xs > 1")
    case True
    obtain p steps where r: "proof_level xs 0 0 pos = (merkle_level xs, p, steps)"
      "p < length (merkle_level xs)" "length steps \<le> 1"
      using proof_level_step [of 0 pos xs 0] Suc.prems by auto
    have "length (merkle_level xs) \<le> 2 ^ k" using Suc.prems(2) by (simp add: length_merkle_level)
    with Suc.IH r(2) have "length (merkle_proof_up (merkle_level xs) p) \<le> k" by blast
    then show ?thesis using True r by (subst merkle_proof_up.simps) simp
  qed (simp add: merkle_proof_up.simps [of xs])
qed

section \<open>Trees\<close>

datatype mtree = MLeaf "byte list" | MBranch mtree mtree

primrec mhash :: "mtree \<Rightarrow> hash256" where
  "mhash (MLeaf d) = leaf_hash d"
| "mhash (MBranch l r) = branch_hash (mhash l) (mhash r)"

primrec mleaves :: "mtree \<Rightarrow> byte list list" where
  "mleaves (MLeaf d) = [d]"
| "mleaves (MBranch l r) = mleaves l @ mleaves r"

text \<open>The tagged messages hashed to compute the root.\<close>

primrec mqueries :: "mtree \<Rightarrow> (string \<times> byte list) list" where
  "mqueries (MLeaf d) = [(TAG_MERKLE_LEAF, d)]"
| "mqueries (MBranch l r) = (TAG_MERKLE_BRANCH, mhash l @ mhash r) # mqueries l @ mqueries r"

fun tree_level :: "mtree list \<Rightarrow> mtree list" where
  "tree_level (a # b # rest) = MBranch a b # tree_level rest"
| "tree_level level = level"

lemma length_tree_level: "length (tree_level xs) = (length xs + 1) div 2"
  by (induction xs rule: tree_level.induct) auto

function tree_up :: "mtree list \<Rightarrow> mtree" where
  "tree_up level = (if length level > 1 then tree_up (tree_level level) else level ! 0)"
  by pat_completeness auto
termination
  by (relation "measure length") (auto simp: length_tree_level)

declare tree_up.simps [simp del]

definition merkle_tree :: "byte list list \<Rightarrow> mtree" where
  "merkle_tree ds = tree_up (map MLeaf ds)"

lemma map_mhash_tree_level: "map mhash (tree_level ts) = merkle_level (map mhash ts)"
  by (induction ts rule: tree_level.induct) auto

lemma concat_mleaves_tree_level: "concat (map mleaves (tree_level ts)) = concat (map mleaves ts)"
  by (induction ts rule: tree_level.induct) auto

lemma tree_up_spec:
  "ts \<noteq> [] \<Longrightarrow> mhash (tree_up ts) = merkle_up (map mhash ts) \<and> mleaves (tree_up ts) = concat (map mleaves ts)"
proof (induction ts rule: tree_up.induct)
  case (1 ts)
  show ?case
  proof (cases "length ts > 1")
    case True
    then have "tree_level ts \<noteq> []" using length_tree_level [of ts] by auto
    with 1 True have "mhash (tree_up (tree_level ts)) = merkle_up (map mhash (tree_level ts)) \<and>
        mleaves (tree_up (tree_level ts)) = concat (map mleaves (tree_level ts))" by blast
    then show ?thesis using True
      by (simp add: tree_up.simps [of ts] merkle_up.simps [of "map mhash ts"] map_mhash_tree_level
          concat_mleaves_tree_level)
  next
    case False
    with 1 obtain t where "ts = [t]" by (cases ts) auto
    then show ?thesis by (simp add: tree_up.simps merkle_up.simps)
  qed
qed

lemma merkle_root_tree: "ds \<noteq> [] \<Longrightarrow> merkle_root (map leaf_hash ds) = mhash (merkle_tree ds)"
  using tree_up_spec [of "map MLeaf ds"] by (simp add: merkle_root_def merkle_tree_def comp_def)

lemma mleaves_merkle_tree: "ds \<noteq> [] \<Longrightarrow> mleaves (merkle_tree ds) = ds"
  using tree_up_spec [of "map MLeaf ds"] by (simp add: merkle_tree_def comp_def)

lemma length_mhash [simp]: "length (mhash t) = 32"
  by (cases t) (simp_all add: leaf_hash_def branch_hash_def)

definition collision :: "(string \<times> byte list) \<Rightarrow> (string \<times> byte list) \<Rightarrow> bool" where
  "collision p q \<longleftrightarrow> p \<noteq> q \<and> tagged_hash (fst p) (snd p) = tagged_hash (fst q) (snd q)"

lemma tags_differ: "TAG_MERKLE_LEAF \<noteq> TAG_MERKLE_BRANCH"
  by (simp add: TAG_MERKLE_LEAF_def TAG_MERKLE_BRANCH_def)

lemma mhash_query: "\<exists>p \<in> set (mqueries t). mhash t = tagged_hash (fst p) (snd p) \<and>
    fst p = (case t of MLeaf _ \<Rightarrow> TAG_MERKLE_LEAF | MBranch _ _ \<Rightarrow> TAG_MERKLE_BRANCH)"
  by (cases t) (auto simp: leaf_hash_def branch_hash_def tagged_hash_parts_concat)

lemma mhash_binding:
  "mhash t = mhash u \<Longrightarrow> t = u \<or> (\<exists>p \<in> set (mqueries t). \<exists>q \<in> set (mqueries u). collision p q)"
proof (induction t arbitrary: u)
  case (MLeaf d)
  then show ?case
    using tags_differ
    by (cases u) (force simp: collision_def leaf_hash_def branch_hash_def tagged_hash_parts_concat)+
next
  case (MBranch l r)
  show ?case
  proof (cases u)
    case (MLeaf d)
    with MBranch.prems tags_differ show ?thesis
      by (force simp: collision_def leaf_hash_def branch_hash_def tagged_hash_parts_concat)
  next
    case (MBranch l' r')
    show ?thesis
    proof (cases "mhash l @ mhash r = mhash l' @ mhash r'")
      case True
      then have "mhash l = mhash l'" "mhash r = mhash r'" by auto
      with MBranch.IH [of l'] MBranch.IH(2) [of r'] MBranch show ?thesis by auto
    next
      case False
      with MBranch MBranch.prems show ?thesis
        by (force simp: collision_def branch_hash_def tagged_hash_parts_concat)
    qed
  qed
qed

text \<open>Every proof the tree builds is accepted, for every leaf of every tree, and has at most
  \<open>k\<close> steps when the tree has at most \<open>2 ^ k\<close> leaves; an index past the end has no proof.\<close>

theorem merkle_proof_complete:
  "(case merkle_proof leaves index of
      None \<Rightarrow> length leaves \<le> index
    | Some prf \<Rightarrow> index < length leaves \<and> verify_proof (leaves ! index) prf (merkle_root leaves) \<and>
        (2 ^ k < length leaves \<or> length prf \<le> k))"
  using merkle_proof_up_fold [of index leaves] merkle_proof_up_length [of index leaves k]
  by (cases "length leaves \<le> 2 ^ k") (auto simp: merkle_proof_def verify_proof_def merkle_root_def)

text \<open>C10. The root binds the list of leaves, its length included: two different non-empty lists have
  the same root only if two of the messages hashed for them collide. The duplicated last node of
  CVE-2012-2459 is one of the cases ruled out.\<close>

theorem merkle_root_binding:
  "merkle_root (map leaf_hash (d # ds)) = merkle_root (map leaf_hash (e # es)) \<Longrightarrow>
   d # ds = e # es \<or>
   (\<exists>p \<in> set (mqueries (merkle_tree (d # ds))). \<exists>q \<in> set (mqueries (merkle_tree (e # es))). collision p q)"
  using mhash_binding [of "merkle_tree (d # ds)" "merkle_tree (e # es)"]
    mleaves_merkle_tree [of "d # ds"] mleaves_merkle_tree [of "e # es"]
  by (metis list.distinct(1) merkle_root_tree)

theorem merkle_root_binding_witness:
  "merkle_root (map leaf_hash [[1], [2], [3]]) = merkle_root (map leaf_hash [[1], [2], [3]]) \<and>
   ([[1], [2], [3]] = [[1], [2], [3 :: byte]] \<or>
   (\<exists>p \<in> set (mqueries (merkle_tree [[1], [2], [3]])). \<exists>q \<in> set (mqueries (merkle_tree [[1], [2], [3]])).
      collision p q))"
  using merkle_root_binding [of "[1]" "[[2], [3]]" "[1]" "[[2], [3]]"] by simp

end
