(* ===== verification/Sig.thy ===== *)
theory Sig
  imports Consensus Hashing
begin

text \<open>
  Signature schemes (\<open>src/src/sig.rs\<close>) and the Lamport one-time signatures of \<open>src/src/lamport.rs\<close>.

  ML-DSA is the \<open>ml-dsa\<close> crate: it is the parameter \<open>mldsa\<close> of \<open>verify\<close>, the answer of
  \<open>Signature::try_from(sig)\<close> followed by \<open>VerifyingKey::verify\<close> for a parameter set, a public key, a
  message and a signature. The model is the default build (\<open>mldsa\<close> feature on).
\<close>

unbundle bit_operations_syntax

section \<open>Schemes\<close>

datatype SchemeId = MlDsa65 | MlDsa87 | SphincsPlus | LamportOts | Policy | NameTag | NameKey

definition scheme_from_u8 :: "byte \<Rightarrow> SchemeId option" where
  "scheme_from_u8 v =
     (if v = 1 then Some MlDsa65 else if v = 2 then Some MlDsa87 else if v = 3 then Some SphincsPlus
      else if v = 4 then Some LamportOts else if v = 5 then Some Policy else if v = 6 then Some NameTag
      else if v = 7 then Some NameKey else None)"

fun scheme_as_u8 :: "SchemeId \<Rightarrow> byte" where
  "scheme_as_u8 MlDsa65 = 1"
| "scheme_as_u8 MlDsa87 = 2"
| "scheme_as_u8 SphincsPlus = 3"
| "scheme_as_u8 LamportOts = 4"
| "scheme_as_u8 Policy = 5"
| "scheme_as_u8 NameTag = 6"
| "scheme_as_u8 NameKey = 7"

fun scheme_name :: "SchemeId \<Rightarrow> string" where
  "scheme_name MlDsa65 = ''ML-DSA-65''"
| "scheme_name MlDsa87 = ''ML-DSA-87''"
| "scheme_name SphincsPlus = ''SPHINCS+-SHA2-192s''"
| "scheme_name LamportOts = ''Lamport-OTS (test only)''"
| "scheme_name Policy = ''policy''"
| "scheme_name NameTag = ''name''"
| "scheme_name NameKey = ''name-owner''"

definition LAMPORT_N_BITS :: nat where
  "LAMPORT_N_BITS = 256"

definition LAMPORT_PUBKEY_LEN :: nat where
  "LAMPORT_PUBKEY_LEN = LAMPORT_N_BITS * 2 * 32"

definition LAMPORT_SIG_LEN :: nat where
  "LAMPORT_SIG_LEN = LAMPORT_N_BITS * 32"

fun pubkey_len :: "SchemeId \<Rightarrow> nat" where
  "pubkey_len MlDsa65 = 1952"
| "pubkey_len MlDsa87 = 2592"
| "pubkey_len SphincsPlus = 48"
| "pubkey_len LamportOts = LAMPORT_PUBKEY_LEN"
| "pubkey_len Policy = 0"
| "pubkey_len NameTag = 0"
| "pubkey_len NameKey = 0"

fun sig_len :: "SchemeId \<Rightarrow> nat" where
  "sig_len MlDsa65 = 3309"
| "sig_len MlDsa87 = 4627"
| "sig_len SphincsPlus = 16224"
| "sig_len LamportOts = LAMPORT_SIG_LEN"
| "sig_len Policy = 0"
| "sig_len NameTag = 0"
| "sig_len NameKey = 0"

definition SCHEME_ALL :: "SchemeId list" where
  "SCHEME_ALL = [MlDsa65, MlDsa87, SphincsPlus, LamportOts]"

fun allowed_on :: "SchemeId \<Rightarrow> network \<Rightarrow> bool" where
  "allowed_on LamportOts net = (net \<noteq> Mainnet)"
| "allowed_on MlDsa65 net = True"
| "allowed_on MlDsa87 net = True"
| "allowed_on SphincsPlus net = False"
| "allowed_on Policy net = False"
| "allowed_on NameTag net = False"
| "allowed_on NameKey net = False"

definition is_spendable :: "SchemeId \<Rightarrow> bool" where
  "is_spendable s \<longleftrightarrow> \<not> (s = NameTag \<or> s = NameKey)"

definition is_name :: "SchemeId \<Rightarrow> bool" where
  "is_name s \<longleftrightarrow> s = NameTag \<or> s = NameKey"

definition is_one_time :: "SchemeId \<Rightarrow> bool" where
  "is_one_time s \<longleftrightarrow> s = LamportOts"

fun is_available :: "SchemeId \<Rightarrow> bool" where
  "is_available LamportOts = True"
| "is_available MlDsa65 = True"
| "is_available MlDsa87 = True"
| "is_available SphincsPlus = False"
| "is_available Policy = True"
| "is_available NameTag = True"
| "is_available NameKey = True"

definition pubkey_hash :: "SchemeId \<Rightarrow> byte list \<Rightarrow> hash256" where
  "pubkey_hash scheme pubkey = tagged_hash TAG_ADDRESS (scheme_as_u8 scheme # pubkey)"

section \<open>Lamport\<close>

definition TAG_LAMPORT_DERIVE :: string where
  "TAG_LAMPORT_DERIVE = ''Q21/lamport/derive''"

definition TAG_LAMPORT_COMMIT :: string where
  "TAG_LAMPORT_COMMIT = ''Q21/lamport/commit''"

record lamport_key =
  lk_seed :: "byte list"
  lk_index :: u32

definition lamport_preimage :: "lamport_key \<Rightarrow> nat \<Rightarrow> byte \<Rightarrow> byte list" where
  "lamport_preimage k b v =
     tagged_hash_parts TAG_LAMPORT_DERIVE [lk_seed k, u32_le (lk_index k), le_bytes 2 b, [v]]"

definition lamport_public_key :: "lamport_key \<Rightarrow> byte list" where
  "lamport_public_key k =
     concat (map (\<lambda>b. concat (map (\<lambda>v. tagged_hash_parts TAG_LAMPORT_COMMIT [lamport_preimage k b v]) [0, 1]))
       [0..<LAMPORT_N_BITS])"

definition message_bit :: "hash256 \<Rightarrow> nat \<Rightarrow> byte" where
  "message_bit m b = drop_bit (7 - b mod 8) (m ! (b div 8)) AND 1"

definition lamport_sign :: "lamport_key \<Rightarrow> hash256 \<Rightarrow> byte list" where
  "lamport_sign k m = concat (map (\<lambda>b. lamport_preimage k b (message_bit m b)) [0..<LAMPORT_N_BITS])"

text \<open>The lengths, checked first, put every slice below in range (\<open>lamport_slices\<close>).\<close>

definition lamport_verify :: "byte list \<Rightarrow> hash256 \<Rightarrow> byte list \<Rightarrow> bool" where
  "lamport_verify pubkey m sg \<longleftrightarrow>
     (if length pubkey \<noteq> LAMPORT_PUBKEY_LEN \<or> length sg \<noteq> LAMPORT_SIG_LEN then False
      else list_all (\<lambda>b.
             tagged_hash_parts TAG_LAMPORT_COMMIT [take 32 (drop (b * 32) sg)]
             = take 32 (drop ((b * 2 + unat (message_bit m b)) * 32) pubkey)) [0..<LAMPORT_N_BITS])"

section \<open>Verification\<close>

datatype VerifyError =
    SchemeUnavailable SchemeId
  | InvalidKeyLength nat nat
  | InvalidSignatureLength nat nat
  | InvalidSignature

definition check_sizes :: "SchemeId \<Rightarrow> byte list \<Rightarrow> byte list \<Rightarrow> (unit, VerifyError) result" where
  "check_sizes scheme pubkey sg =
     (if length pubkey \<noteq> pubkey_len scheme then Err (InvalidKeyLength (pubkey_len scheme) (length pubkey))
      else if length sg \<noteq> sig_len scheme then Err (InvalidSignatureLength (sig_len scheme) (length sg))
      else Ok ())"

type_synonym mldsa_lib = "SchemeId \<Rightarrow> byte list \<Rightarrow> byte list \<Rightarrow> byte list \<Rightarrow> bool"

definition mldsa_verify_params ::
  "mldsa_lib \<Rightarrow> SchemeId \<Rightarrow> byte list \<Rightarrow> byte list \<Rightarrow> byte list \<Rightarrow> bool option" where
  "mldsa_verify_params mldsa scheme pubkey msg sg =
     (if length pubkey \<noteq> pubkey_len scheme then None else Some (mldsa scheme pubkey msg sg))"

fun mldsa_backend_verify ::
  "mldsa_lib \<Rightarrow> SchemeId \<Rightarrow> byte list \<Rightarrow> byte list \<Rightarrow> byte list \<Rightarrow> bool option" where
  "mldsa_backend_verify mldsa MlDsa65 pubkey msg sg = mldsa_verify_params mldsa MlDsa65 pubkey msg sg"
| "mldsa_backend_verify mldsa MlDsa87 pubkey msg sg = mldsa_verify_params mldsa MlDsa87 pubkey msg sg"
| "mldsa_backend_verify mldsa _ pubkey msg sg = None"

definition verify ::
  "mldsa_lib \<Rightarrow> SchemeId \<Rightarrow> byte list \<Rightarrow> hash256 \<Rightarrow> byte list \<Rightarrow> (unit, VerifyError) result" where
  "verify mldsa scheme pubkey message sg =
     (if scheme = Policy then Err InvalidSignature
      else rbind (check_sizes scheme pubkey sg) (\<lambda>_.
        if scheme = LamportOts then
          (if lamport_verify pubkey message sg then Ok () else Err InvalidSignature)
        else case mldsa_backend_verify mldsa scheme pubkey message sg of
               Some r \<Rightarrow> if r then Ok () else Err InvalidSignature
             | None \<Rightarrow> Err (SchemeUnavailable scheme)))"

section \<open>Lemmas\<close>

lemma scheme_from_as_u8 [simp, codec]: "scheme_from_u8 (scheme_as_u8 s) = Some s"
  by (cases s) (simp_all add: scheme_from_u8_def)

lemma scheme_as_from_u8 [codec]: "scheme_from_u8 v = Some s \<Longrightarrow> scheme_as_u8 s = v"
  by (auto simp: scheme_from_u8_def split: if_splits)

lemma scheme_as_u8_inj [simp]: "scheme_as_u8 s = scheme_as_u8 t \<longleftrightarrow> s = t"
  by (metis scheme_from_as_u8 option.inject)

lemma length_pubkey_hash [simp]: "length (pubkey_hash s k) = 32"
  by (simp add: pubkey_hash_def)

lemma concat_chunk:
  assumes "\<And>x. x \<in> set xs \<Longrightarrow> length (f x) = n" and "i < length xs"
  shows "take n (drop (i * n) (concat (map f xs))) = f (xs ! i)"
  using assms
proof (induction xs arbitrary: i)
  case (Cons x xs)
  then show ?case
    by (cases i) (auto simp: drop_append)
qed simp

lemma length_concat_chunks:
  "(\<And>x. x \<in> set xs \<Longrightarrow> length (f x) = n) \<Longrightarrow> length (concat (map f xs)) = n * length xs"
  by (induction xs) auto

lemma message_bit_cases: "message_bit m b = 0 \<or> message_bit m b = 1"
  by (simp add: message_bit_def and_one_eq mod_2_eq_odd)

lemma lamport_public_key_chunk:
  assumes "b < LAMPORT_N_BITS" and "v = 0 \<or> v = 1"
  shows "take 32 (drop ((b * 2 + unat v) * 32) (lamport_public_key k)) =
    tagged_hash_parts TAG_LAMPORT_COMMIT [lamport_preimage k b v]"
proof -
  let ?pair = "\<lambda>b. concat (map (\<lambda>v. tagged_hash_parts TAG_LAMPORT_COMMIT [lamport_preimage k b v]) [0, 1])"
  have pair: "take 64 (drop (b * 64) (lamport_public_key k)) = ?pair b"
    using concat_chunk [of "[0..<LAMPORT_N_BITS]" ?pair 64 b] assms(1)
    by (simp add: lamport_public_key_def)
  have "take 32 (drop ((b * 2 + unat v) * 32) (lamport_public_key k))
      = take 32 (drop (unat v * 32) (take 64 (drop (b * 64) (lamport_public_key k))))"
    using assms(2) by (auto simp: drop_take add.commute mult.commute distrib_left)
  also have "\<dots> = tagged_hash_parts TAG_LAMPORT_COMMIT [lamport_preimage k b v]"
    unfolding pair using assms(2) by auto
  finally show ?thesis .
qed

lemma lamport_slices:
  assumes "length pubkey = LAMPORT_PUBKEY_LEN" "length sg = LAMPORT_SIG_LEN" "b < LAMPORT_N_BITS"
  shows "b * 32 + 32 \<le> length sg" "(b * 2 + unat (message_bit m b)) * 32 + 32 \<le> length pubkey"
  using assms message_bit_cases [of m b] by (auto simp: LAMPORT_PUBKEY_LEN_def LAMPORT_SIG_LEN_def LAMPORT_N_BITS_def)

lemma lamport_sign_verify: "lamport_verify (lamport_public_key k) m (lamport_sign k m)"
proof -
  have "take 32 (drop (b * 32) (lamport_sign k m)) = lamport_preimage k b (message_bit m b)"
    if "b < LAMPORT_N_BITS" for b
    using concat_chunk [of "[0..<LAMPORT_N_BITS]" "\<lambda>b. lamport_preimage k b (message_bit m b)" 32 b] that
    by (simp add: lamport_sign_def lamport_preimage_def)
  moreover have "length (lamport_sign k m) = LAMPORT_SIG_LEN"
    using length_concat_chunks [of "[0..<LAMPORT_N_BITS]" "\<lambda>b. lamport_preimage k b (message_bit m b)" 32]
    by (simp add: lamport_sign_def lamport_preimage_def LAMPORT_SIG_LEN_def)
  moreover have "length (lamport_public_key k) = LAMPORT_PUBKEY_LEN"
    using length_concat_chunks [of "[0..<LAMPORT_N_BITS]"
        "\<lambda>b. concat (map (\<lambda>v. tagged_hash_parts TAG_LAMPORT_COMMIT [lamport_preimage k b v]) [0, 1])" 64]
    by (simp add: lamport_public_key_def LAMPORT_PUBKEY_LEN_def)
  ultimately show ?thesis
    using lamport_public_key_chunk message_bit_cases
    by (auto simp: lamport_verify_def list_all_iff)
qed

lemma verify_no_panic [simp]: "verify mldsa s k m g \<noteq> Panic"
  by (auto simp: verify_def check_sizes_def split: option.splits)

lemma verify_Ok_iff:
  "verify mldsa s k m g = Ok u \<longleftrightarrow>
   length k = pubkey_len s \<and> length g = sig_len s \<and>
   (s = LamportOts \<and> lamport_verify k m g \<or> (s = MlDsa65 \<or> s = MlDsa87) \<and> mldsa s k m g)"
  by (cases s) (auto simp: verify_def check_sizes_def mldsa_verify_params_def split: option.splits)

text \<open>C9. A signature is accepted exactly when the key and the signature have the sizes of the
  scheme and the scheme's own verification accepts: Lamport's for Lamport, the ML-DSA library's for
  the two ML-DSA levels, and nothing else is ever accepted, whatever the library answers.
  Verification never panics, and a Lamport signature made with a key verifies under it.\<close>

theorem verify_accepts_only_verified:
  "(verify mldsa s k m g = Ok () \<longleftrightarrow>
      length k = pubkey_len s \<and> length g = sig_len s \<and>
      (s = LamportOts \<and> lamport_verify k m g \<or> (s = MlDsa65 \<or> s = MlDsa87) \<and> mldsa s k m g)) \<and>
   verify mldsa s k m g \<noteq> Panic \<and>
   verify mldsa LamportOts (lamport_public_key sk) m (lamport_sign sk m) = Ok ()"
proof -
  have "lamport_verify (lamport_public_key sk) m (lamport_sign sk m)" by (rule lamport_sign_verify)
  then have "verify mldsa LamportOts (lamport_public_key sk) m (lamport_sign sk m) = Ok ()"
    by (auto simp: verify_Ok_iff lamport_verify_def split: if_splits)
  then show ?thesis by (simp add: verify_Ok_iff)
qed

end
