(* ===== verification/Tx.thy ===== *)
theory Tx
  imports Amounts Ser Merkle Sig
begin

text \<open>
  Transactions (\<open>src/src/tx.rs\<close>): the data, the wire encoding, the identifiers and signed hashes, the
  shape checks and the weight. \<open>wf_tx\<close> is what the Rust types guarantee (32-byte digests, lengths
  below \<open>2 ^ 64\<close>).
\<close>

section \<open>Data\<close>

record outpoint =
  op_txid :: hash256
  op_index :: u32

record tx_witness =
  wit_pubkey :: "byte list"
  wit_signature :: "byte list"

record txin =
  prev_out :: outpoint
  in_witness :: tx_witness
  in_sequence :: u32

record txout =
  out_value :: amount
  out_scheme :: SchemeId
  out_pubkey_hash :: hash256

record transaction =
  tx_version :: u32
  tx_inputs :: "txin list"
  tx_outputs :: "txout list"
  tx_lock_time :: u64

datatype TxError =
    NoInputs
  | NoOutputs
  | AmountAboveCap
  | OutputSumOverflow
  | UnknownScheme byte
  | TxRead ReadError

definition OUTPOINT_COINBASE :: outpoint where
  "OUTPOINT_COINBASE = \<lparr>op_txid = HASH_ZERO, op_index = -1\<rparr>"

definition outpoint_is_coinbase :: "outpoint \<Rightarrow> bool" where
  "outpoint_is_coinbase op \<longleftrightarrow> op = OUTPOINT_COINBASE"

definition txin_coinbase :: "byte list \<Rightarrow> txin" where
  "txin_coinbase d = \<lparr>prev_out = OUTPOINT_COINBASE,
     in_witness = \<lparr>wit_pubkey = [], wit_signature = d\<rparr>, in_sequence = -1\<rparr>"

section \<open>Encoding\<close>

definition encode_prev :: "outpoint \<times> u32 \<Rightarrow> byte list" where
  "encode_prev p = op_txid (fst p) @ w_u32 (op_index (fst p)) @ w_u32 (snd p)"

definition encode_output :: "txout \<Rightarrow> byte list" where
  "encode_output out = w_u64 (amt (out_value out)) @ w_u8 (scheme_as_u8 (out_scheme out)) @ out_pubkey_hash out"

definition encode_witness :: "tx_witness \<Rightarrow> byte list" where
  "encode_witness w = w_var_bytes (wit_pubkey w) @ w_var_bytes (wit_signature w)"

definition encode_without_witness :: "transaction \<Rightarrow> byte list" where
  "encode_without_witness t =
     w_u32 (tx_version t)
     @ w_varint (length (tx_inputs t))
     @ concat (map (\<lambda>i. encode_prev (prev_out i, in_sequence i)) (tx_inputs t))
     @ w_varint (length (tx_outputs t))
     @ concat (map encode_output (tx_outputs t))
     @ w_u64 (tx_lock_time t)"

definition tx_encode :: "transaction \<Rightarrow> byte list" where
  "tx_encode t = encode_without_witness t @ concat (map (\<lambda>i. encode_witness (in_witness i)) (tx_inputs t))"

definition read_prev :: "byte list \<Rightarrow> ((outpoint \<times> u32) \<times> byte list, TxError) result" where
  "read_prev bs = map_err TxRead
     (rbind (r_array32 bs) (\<lambda>(txid, bs).
      rbind (r_u32 bs) (\<lambda>(idx, bs).
      rbind (r_u32 bs) (\<lambda>(sq, bs).
      Ok ((\<lparr>op_txid = txid, op_index = idx\<rparr>, sq), bs)))))"

definition read_output :: "byte list \<Rightarrow> (txout \<times> byte list, TxError) result" where
  "read_output bs =
     rbind (map_err TxRead (r_u64 bs)) (\<lambda>(v, bs).
     rbind (map_err TxRead (r_u8 bs)) (\<lambda>(raw, bs).
     rbind (ok_or (scheme_from_u8 raw) (UnknownScheme raw)) (\<lambda>scheme.
     rbind (map_err TxRead (r_array32 bs)) (\<lambda>(h, bs).
     Ok (\<lparr>out_value = from_units v, out_scheme = scheme, out_pubkey_hash = h\<rparr>, bs)))))"

definition read_witness :: "byte list \<Rightarrow> (tx_witness \<times> byte list, TxError) result" where
  "read_witness bs = map_err TxRead
     (rbind (r_var_bytes bs) (\<lambda>(k, bs).
      rbind (r_var_bytes bs) (\<lambda>(s, bs).
      Ok (\<lparr>wit_pubkey = k, wit_signature = s\<rparr>, bs))))"

definition make_input :: "(outpoint \<times> u32) \<times> tx_witness \<Rightarrow> txin" where
  "make_input p = \<lparr>prev_out = fst (fst p), in_witness = snd p, in_sequence = snd (fst p)\<rparr>"

definition read_transaction :: "byte list \<Rightarrow> (transaction \<times> byte list, TxError) result" where
  "read_transaction bs =
     rbind (map_err TxRead (r_u32 bs)) (\<lambda>(version, bs).
     rbind (map_err TxRead (read_count 40 bs)) (\<lambda>(n_in, bs).
     rbind (read_n read_prev n_in bs) (\<lambda>(prev, bs).
     rbind (map_err TxRead (read_count 41 bs)) (\<lambda>(n_out, bs).
     rbind (read_n read_output n_out bs) (\<lambda>(outputs, bs).
     rbind (map_err TxRead (r_u64 bs)) (\<lambda>(lock_time, bs).
     rbind (read_n read_witness (length prev) bs) (\<lambda>(ws, bs).
     Ok (\<lparr>tx_version = version, tx_inputs = map make_input (zip prev ws), tx_outputs = outputs,
          tx_lock_time = lock_time\<rparr>, bs))))))))"

definition tx_decode :: "byte list \<Rightarrow> (transaction, TxError) result" where
  "tx_decode bs =
     rbind (read_transaction bs) (\<lambda>(t, rest). rbind (map_err TxRead (expect_end rest)) (\<lambda>_. Ok t))"

section \<open>Identifiers and signed hashes\<close>

definition tx_is_coinbase :: "transaction \<Rightarrow> bool" where
  "tx_is_coinbase t \<longleftrightarrow> length (tx_inputs t) = 1 \<and> outpoint_is_coinbase (prev_out (tx_inputs t ! 0))"

text \<open>The preimage of the transaction id: a coinbase commits to its data as well.\<close>

definition txid_preimage :: "transaction \<Rightarrow> byte list" where
  "txid_preimage t =
     (let base = encode_without_witness t
      in if tx_is_coinbase t then base @ w_var_bytes (wit_signature (in_witness (tx_inputs t ! 0))) else base)"

definition txid :: "transaction \<Rightarrow> hash256" where
  "txid t = tagged_hash TAG_TX (txid_preimage t)"

definition wtxid :: "transaction \<Rightarrow> hash256" where
  "wtxid t = tagged_hash TAG_TX (tx_encode t)"

definition sighash_preimage :: "transaction \<Rightarrow> u32 \<Rightarrow> network \<Rightarrow> txout \<Rightarrow> byte list" where
  "sighash_preimage t i net spent =
     w_var_bytes (str_bytes (hrp net)) @ encode_without_witness t @ w_u32 i
     @ w_u64 (amt (out_value spent)) @ w_u8 (scheme_as_u8 (out_scheme spent)) @ out_pubkey_hash spent"

definition sighash :: "transaction \<Rightarrow> u32 \<Rightarrow> network \<Rightarrow> txout \<Rightarrow> hash256" where
  "sighash t i net spent = tagged_hash TAG_SIGHASH (sighash_preimage t i net spent)"

definition policy_sighash_of_stripped ::
  "byte list \<Rightarrow> u32 \<Rightarrow> network \<Rightarrow> txout \<Rightarrow> byte list \<Rightarrow> byte \<Rightarrow> byte list \<Rightarrow> hash256" where
  "policy_sighash_of_stripped stripped i net spent policy leaf choices =
     tagged_hash_parts TAG_POLICY_SIGHASH
       [w_var_bytes (str_bytes (hrp net)),
        stripped,
        w_u32 i @ w_u64 (amt (out_value spent)) @ w_u8 (scheme_as_u8 (out_scheme spent))
        @ out_pubkey_hash spent @ w_var_bytes policy @ w_u8 leaf @ w_var_bytes choices]"

definition policy_sighash ::
  "transaction \<Rightarrow> u32 \<Rightarrow> network \<Rightarrow> txout \<Rightarrow> byte list \<Rightarrow> byte \<Rightarrow> byte list \<Rightarrow> hash256" where
  "policy_sighash t i net spent policy leaf choices =
     policy_sighash_of_stripped (encode_without_witness t) i net spent policy leaf choices"

definition merkle_leaf :: "transaction \<Rightarrow> hash256" where
  "merkle_leaf t = leaf_hash (txid t @ wtxid t)"

section \<open>Shape and weight\<close>

definition total_output :: "transaction \<Rightarrow> (amount, TxError) result" where
  "total_output t = ok_or (checked_sum (map out_value (tx_outputs t))) OutputSumOverflow"

definition tx_check_shape :: "transaction \<Rightarrow> (unit, TxError) result" where
  "tx_check_shape t =
     (if tx_inputs t = [] then Err NoInputs
      else if tx_outputs t = [] then Err NoOutputs
      else if list_ex (\<lambda>out. \<not> is_within_supply (out_value out)) (tx_outputs t) then Err AmountAboveCap
      else rbind (total_output t) (\<lambda>s. if \<not> is_within_supply s then Err AmountAboveCap else Ok ()))"

text \<open>\<open>weight\<close>; the sums are of lengths of data in memory, so they do not overflow.\<close>

definition tx_weight :: "transaction \<Rightarrow> nat \<Rightarrow> nat" where
  "tx_weight t witness_discount =
     length (encode_without_witness t) * witness_discount
     + sum_list (map (\<lambda>i. length (wit_pubkey (in_witness i)) + length (wit_signature (in_witness i))) (tx_inputs t))
     + length (tx_outputs t) * WEIGHT_PER_OUTPUT"

section \<open>The encoding is canonical\<close>

definition wf_prev :: "outpoint \<times> u32 \<Rightarrow> bool" where
  "wf_prev p \<longleftrightarrow> length (op_txid (fst p)) = 32"

definition wf_txout :: "txout \<Rightarrow> bool" where
  "wf_txout out \<longleftrightarrow> length (out_pubkey_hash out) = 32"

definition wf_witness :: "tx_witness \<Rightarrow> bool" where
  "wf_witness w \<longleftrightarrow> length (wit_pubkey w) < 2 ^ 64 \<and> length (wit_signature w) < 2 ^ 64"

definition wf_txin :: "txin \<Rightarrow> bool" where
  "wf_txin i \<longleftrightarrow> wf_prev (prev_out i, in_sequence i) \<and> wf_witness (in_witness i)"

definition wf_tx :: "transaction \<Rightarrow> bool" where
  "wf_tx t \<longleftrightarrow> length (tx_inputs t) < 2 ^ 64 \<and> length (tx_outputs t) < 2 ^ 64 \<and>
     (\<forall>i \<in> set (tx_inputs t). wf_txin i) \<and> (\<forall>out \<in> set (tx_outputs t). wf_txout out)"

interpretation prev: codec encode_prev read_prev wf_prev
  by unfold_locales
    (auto simp: encode_prev_def read_prev_def wf_prev_def rbind_Panic_iff arr32.dec_enc u32.dec_enc
      split: prod.splits)

lemma amount_Amount_amt [simp]: "from_units (amt a) = a" "amt (from_units w) = w"
  by (simp_all add: from_units_def)

interpretation txo: codec encode_output read_output wf_txout
proof unfold_locales
  fix x rest
  show "wf_txout x \<Longrightarrow> read_output (encode_output x @ rest) = Ok (x, rest)"
    by (simp add: encode_output_def read_output_def wf_txout_def arr32.dec_enc u64.dec_enc w_u8_def r_u8_Cons)
next
  fix bs x rest
  show "read_output bs = Ok (x, rest) \<Longrightarrow> bs = encode_output x @ rest \<and> wf_txout x"
    by (auto simp: encode_output_def read_output_def wf_txout_def w_u8_def scheme_as_from_u8 split: prod.splits)
next
  fix bs
  show "read_output bs \<noteq> Panic"
    by (auto simp: read_output_def rbind_Panic_iff split: prod.splits)
qed

interpretation wit: codec encode_witness read_witness wf_witness
proof unfold_locales
  fix x rest
  show "wf_witness x \<Longrightarrow> read_witness (encode_witness x @ rest) = Ok (x, rest)"
    by (simp add: encode_witness_def read_witness_def wf_witness_def var_bytes.dec_enc)
next
  fix bs x rest
  show "read_witness bs = Ok (x, rest) \<Longrightarrow> bs = encode_witness x @ rest \<and> wf_witness x"
    by (auto simp: encode_witness_def read_witness_def wf_witness_def var_bytes.dec_iff split: prod.splits)
next
  fix bs
  show "read_witness bs \<noteq> Panic"
    by (auto simp: read_witness_def rbind_Panic_iff var_bytes.no_panic split: prod.splits)
qed

lemma length_encode_prev [simp]: "wf_prev p \<Longrightarrow> length (encode_prev p) = 40"
  by (simp add: wf_prev_def encode_prev_def w_u32_def)

lemma length_encode_output [simp]: "wf_txout out \<Longrightarrow> length (encode_output out) = 41"
  by (simp add: wf_txout_def encode_output_def w_u64_def w_u8_def)

abbreviation input_prev :: "txin \<Rightarrow> outpoint \<times> u32" where
  "input_prev i \<equiv> (prev_out i, in_sequence i)"

lemma make_input_zip: "map make_input (zip (map input_prev is) (map in_witness is)) = is"
  by (induction "is") (simp_all add: make_input_def)

lemma input_prev_make: "length ps = length ws \<Longrightarrow> map input_prev (map make_input (zip ps ws)) = ps"
  "length ps = length ws \<Longrightarrow> map in_witness (map make_input (zip ps ws)) = ws"
  by (induction ps ws rule: list_induct2) (simp_all add: make_input_def)

lemma read_transaction_enc:
  assumes "wf_tx t"
  shows "read_transaction (tx_encode t @ rest) = Ok (t, rest)"
proof -
  let ?is = "tx_inputs t" and ?os = "tx_outputs t"
  let ?W = "concat (map encode_witness (map in_witness ?is)) @ rest"
  let ?L = "w_u64 (tx_lock_time t) @ ?W"
  let ?O = "concat (map encode_output ?os) @ ?L"
  let ?P = "concat (map encode_prev (map input_prev ?is)) @ w_varint (length ?os) @ ?O"
  have wf: "\<forall>p \<in> set (map input_prev ?is). wf_prev p" "\<forall>w \<in> set (map in_witness ?is). wf_witness w"
    "\<forall>out \<in> set ?os. wf_txout out" "length ?is < 2 ^ 64" "length ?os < 2 ^ 64"
    using assms by (auto simp: wf_tx_def wf_txin_def)
  have lo: "length (concat (map encode_output ?os)) = 41 * length ?os"
    using wf(3) by (intro length_concat_chunks) auto
  have lp: "length (concat (map encode_prev (map input_prev ?is))) = 40 * length ?is"
  proof -
    have "length (concat (map encode_prev (map input_prev ?is))) = 40 * length (map input_prev ?is)"
      by (rule length_concat_chunks) (use wf(1) in auto)
    then show ?thesis by simp
  qed
  have "tx_encode t @ rest = w_u32 (tx_version t) @ w_varint (length ?is) @ ?P"
    by (simp add: tx_encode_def encode_without_witness_def comp_def)
  moreover have "read_count 40 (w_varint (length ?is) @ ?P) = Ok (length ?is, ?P)"
    by (rule read_count_enc [OF wf(4)]) (use lp in simp)
  moreover have "read_n read_prev (length ?is) ?P = Ok (map input_prev ?is, w_varint (length ?os) @ ?O)"
    using prev.read_n_enc [OF wf(1)] by simp
  moreover have "read_count 41 (w_varint (length ?os) @ ?O) = Ok (length ?os, ?O)"
    by (rule read_count_enc [OF wf(5)]) (use lo in simp)
  moreover have "read_n read_output (length ?os) ?O = Ok (?os, ?L)"
    by (rule txo.read_n_enc [OF wf(3)])
  moreover have "read_n read_witness (length (map input_prev ?is)) ?W = Ok (map in_witness ?is, rest)"
    using wit.read_n_enc [OF wf(2)] by simp
  ultimately show ?thesis
    by (simp only: read_transaction_def u32.dec_enc u64.dec_enc map_err.simps rbind.simps prod.case
        make_input_zip) simp
qed

lemma read_transaction_dec:
  assumes "read_transaction bs = Ok (t, rest)"
  shows "bs = tx_encode t @ rest \<and> wf_tx t"
proof -
  from assms obtain v b1 n b2 ps b3 m b4 os b5 l b6 ws where
    r: "r_u32 bs = Ok (v, b1)" "read_count 40 b1 = Ok (n, b2)" "read_n read_prev n b2 = Ok (ps, b3)"
    "read_count 41 b3 = Ok (m, b4)" "read_n read_output m b4 = Ok (os, b5)" "r_u64 b5 = Ok (l, b6)"
    "read_n read_witness (length ps) b6 = Ok (ws, rest)"
    and t: "t = \<lparr>tx_version = v, tx_inputs = map make_input (zip ps ws), tx_outputs = os, tx_lock_time = l\<rparr>"
    unfolding read_transaction_def
    by (simp only: rbind_Ok_iff map_err_Ok_iff split_paired_Ex prod.case result.inject prod.inject) blast
  note p = prev.read_n_dec [OF r(3)] and out = txo.read_n_dec [OF r(5)] and w = wit.read_n_dec [OF r(7)]
  have maps: "map input_prev (tx_inputs t) = ps" "map in_witness (tx_inputs t) = ws"
    using input_prev_make [of ps ws] w t by simp_all
  have wf: "wf_txin i" if "i \<in> set (tx_inputs t)" for i
  proof -
    from that have "input_prev i \<in> set (map input_prev (tx_inputs t))"
      "in_witness i \<in> set (map in_witness (tx_inputs t))" by auto
    with maps p w show ?thesis by (simp add: wf_txin_def)
  qed
  have len: "length (tx_inputs t) = n" using maps(1) p by (metis length_map)
  have "tx_encode t @ rest = w_u32 v @ w_varint n @ concat (map encode_prev ps) @ w_varint m
      @ concat (map encode_output os) @ w_u64 l @ concat (map encode_witness ws) @ rest"
  proof -
    have "concat (map (\<lambda>i. encode_prev (input_prev i)) (tx_inputs t)) = concat (map encode_prev ps)"
      "concat (map (\<lambda>i. encode_witness (in_witness i)) (tx_inputs t)) = concat (map encode_witness ws)"
      unfolding maps [symmetric] by (simp_all add: comp_def)
    moreover have "tx_version t = v" "tx_outputs t = os" "tx_lock_time t = l" using t by simp_all
    ultimately show ?thesis
      using len out by (simp add: tx_encode_def encode_without_witness_def)
  qed
  moreover have "bs = \<dots>"
    using r p out w by (simp add: read_count_Ok_iff)
  moreover have "wf_tx t"
    using r(2,4) wf len out t by (simp add: wf_tx_def read_count_Ok_iff)
  ultimately show ?thesis by simp
qed

lemma read_transaction_no_panic [simp]: "read_transaction bs \<noteq> Panic"
  by (auto simp: read_transaction_def rbind_Panic_iff prev.read_n_no_panic txo.read_n_no_panic
      wit.read_n_no_panic split: prod.splits)

interpretation tx: codec tx_encode read_transaction wf_tx
  by unfold_locales (auto simp: read_transaction_enc dest: read_transaction_dec)

lemma tx_decode_Ok_iff: "tx_decode bs = Ok t \<longleftrightarrow> wf_tx t \<and> bs = tx_encode t"
  using tx.dec_enc [of t "[]"] by (auto simp: tx_decode_def dest!: tx.enc_dec)

lemma tx_decode_no_panic [simp]: "tx_decode bs \<noteq> Panic"
  by (auto simp: tx_decode_def rbind_Panic_iff split: prod.splits)

text \<open>C6. The wire form of a transaction is canonical: decoding accepts exactly the encodings of
  well-formed transactions, returns the transaction that was encoded, and never panics on any
  input.\<close>

theorem tx_decode_canonical:
  "(tx_decode bs = Ok t \<longleftrightarrow> wf_tx t \<and> bs = tx_encode t) \<and> tx_decode bs \<noteq> Panic"
  by (simp add: tx_decode_Ok_iff)

section \<open>What the hashes commit to\<close>

text \<open>Everything of a transaction but its witnesses.\<close>

definition stripped :: "transaction \<Rightarrow> u32 \<times> (outpoint \<times> u32) list \<times> txout list \<times> u64" where
  "stripped t = (tx_version t, map input_prev (tx_inputs t), tx_outputs t, tx_lock_time t)"

lemma encode_without_witness_prefix_free:
  assumes "wf_tx t" "wf_tx t'" "encode_without_witness t @ r = encode_without_witness t' @ s"
  shows "stripped t = stripped t' \<and> r = s"
proof -
  let ?P = "\<lambda>t. concat (map encode_prev (map input_prev (tx_inputs t)))"
  let ?O = "\<lambda>t. concat (map encode_output (tx_outputs t))"
  have P: "concat (map (\<lambda>i. encode_prev (input_prev i)) (tx_inputs t)) = ?P t" for t
    by (simp add: comp_def)
  have wfs: "\<forall>p \<in> set (map input_prev (tx_inputs t)). wf_prev p" "\<forall>p \<in> set (map input_prev (tx_inputs t')). wf_prev p"
    "\<forall>out \<in> set (tx_outputs t). wf_txout out" "\<forall>out \<in> set (tx_outputs t'). wf_txout out"
    "length (tx_inputs t) < 2 ^ 64" "length (tx_inputs t') < 2 ^ 64"
    "length (tx_outputs t) < 2 ^ 64" "length (tx_outputs t') < 2 ^ 64"
    using assms(1,2) by (auto simp: wf_tx_def wf_txin_def)
  from assms(3) have 1: "tx_version t = tx_version t'"
    "w_varint (length (tx_inputs t)) @ ?P t @ w_varint (length (tx_outputs t)) @ ?O t @ w_u64 (tx_lock_time t) @ r
     = w_varint (length (tx_inputs t')) @ ?P t' @ w_varint (length (tx_outputs t')) @ ?O t' @ w_u64 (tx_lock_time t') @ s"
    unfolding encode_without_witness_def P append_assoc using u32.prefix_free by blast+
  from varint.prefix_free [OF wfs(5,6) 1(2)] have 2: "length (tx_inputs t) = length (tx_inputs t')"
    "?P t @ w_varint (length (tx_outputs t)) @ ?O t @ w_u64 (tx_lock_time t) @ r
     = ?P t' @ w_varint (length (tx_outputs t')) @ ?O t' @ w_u64 (tx_lock_time t') @ s" by simp_all
  from prev.list_prefix_free [OF wfs(1,2) _ 2(2)] 2(1) have
    3: "map input_prev (tx_inputs t) = map input_prev (tx_inputs t')"
    "w_varint (length (tx_outputs t)) @ ?O t @ w_u64 (tx_lock_time t) @ r
     = w_varint (length (tx_outputs t')) @ ?O t' @ w_u64 (tx_lock_time t') @ s" by simp_all
  from varint.prefix_free [OF wfs(7,8) 3(2)] have 4: "length (tx_outputs t) = length (tx_outputs t')"
    "?O t @ w_u64 (tx_lock_time t) @ r = ?O t' @ w_u64 (tx_lock_time t') @ s" by simp_all
  from txo.list_prefix_free [OF wfs(3,4) 4] have 5: "tx_outputs t = tx_outputs t'"
    "w_u64 (tx_lock_time t) @ r = w_u64 (tx_lock_time t') @ s" by simp_all
  then have "tx_lock_time t = tx_lock_time t' \<and> r = s" using u64.prefix_free by blast
  with 1(1) 3(1) 5(1) show ?thesis by (simp add: stripped_def)
qed

lemma str_bytes_inj: "str_bytes s = str_bytes t \<longleftrightarrow> s = t"
proof
  assume eq: "str_bytes s = str_bytes t"
  have "of_nat (of_char c) = (of_nat (of_char d) :: byte) \<longleftrightarrow> c = d" for c d
  proof -
    have "unat (of_nat (of_char c) :: byte) = of_char c" for c :: char
      by (simp add: unat_of_nat)
    then show ?thesis by (metis of_char_eq_iff)
  qed
  then have "inj (\<lambda>c. of_nat (of_char c) :: byte)" by (simp add: inj_def)
  with eq show "s = t" by (simp add: str_bytes_def inj_map_eq_map)
qed simp

lemma length_hrp: "length (str_bytes (hrp n)) < 2 ^ 64"
  by (cases n) (simp_all add: hrp_defs)

text \<open>C8. The hash a spender signs covers the network, the whole transaction but its witnesses, the
  position of the input and the output spent (value, scheme and lock): two signing requests with the
  same preimage agree on all of them, so a signature cannot be moved to another network, another
  input, another output or another transaction.\<close>

theorem sighash_commits:
  assumes "wf_tx t" "wf_tx t'" "wf_txout spent" "wf_txout spent'"
    and "sighash_preimage t i net spent = sighash_preimage t' i' net' spent'"
  shows "net = net' \<and> stripped t = stripped t' \<and> i = i' \<and> spent = spent'"
proof -
  let ?T = "\<lambda>t i spent. encode_without_witness t @ w_u32 i @ encode_output spent"
  have "w_var_bytes (str_bytes (hrp net)) @ ?T t i spent = w_var_bytes (str_bytes (hrp net')) @ ?T t' i' spent'"
    using assms(5) by (simp add: sighash_preimage_def encode_output_def)
  from var_bytes.prefix_free [OF length_hrp length_hrp this]
  have n: "net = net'" and rest: "?T t i spent = ?T t' i' spent'"
    by (auto simp: str_bytes_inj hrp_inj)
  from encode_without_witness_prefix_free [OF assms(1,2) rest]
  have "stripped t = stripped t'" "w_u32 i @ encode_output spent = w_u32 i' @ encode_output spent'"
    by simp_all
  moreover from this(2) have "i = i'" "encode_output spent = encode_output spent'"
    using u32.prefix_free by blast+
  moreover from this(2) have "spent = spent'" using txo.enc_inj assms(3,4) by blast
  ultimately show ?thesis using n by simp
qed

definition example_out :: txout where
  "example_out = \<lparr>out_value = Amount 5, out_scheme = MlDsa87, out_pubkey_hash = replicate 32 7\<rparr>"

definition example_tx :: transaction where
  "example_tx = \<lparr>tx_version = 1,
     tx_inputs = [\<lparr>prev_out = \<lparr>op_txid = replicate 32 9, op_index = 0\<rparr>,
       in_witness = \<lparr>wit_pubkey = [], wit_signature = []\<rparr>, in_sequence = 0\<rparr>],
     tx_outputs = [example_out], tx_lock_time = 0\<rparr>"

lemma wf_example [simp]: "wf_tx example_tx" "wf_txout example_out"
  by (simp_all add: example_tx_def example_out_def wf_tx_def wf_txin_def wf_prev_def wf_witness_def wf_txout_def)

theorem sighash_commits_witness:
  "wf_tx example_tx \<and> wf_txout example_out \<and>
   Testnet = Testnet \<and> stripped example_tx = stripped example_tx \<and> (0 :: u32) = 0 \<and> example_out = example_out"
  using sighash_commits [of example_tx example_tx example_out example_out 0 Testnet 0 Testnet] by simp

section \<open>Totals\<close>

lemma total_output_Ok: "total_output t = Ok s \<Longrightarrow> units s = sum_list (map (\<lambda>out. units (out_value out)) (tx_outputs t))"
  using checked_sum_Some [of "map out_value (tx_outputs t)" s] by (simp add: total_output_def comp_def)

lemma tx_check_shape_Ok:
  "tx_check_shape t = Ok u \<Longrightarrow> tx_inputs t \<noteq> [] \<and> tx_outputs t \<noteq> [] \<and>
   sum_list (map (\<lambda>out. units (out_value out)) (tx_outputs t)) \<le> MAX_SUPPLY"
  using total_output_Ok [of t] by (auto simp: tx_check_shape_def is_within_supply_def split: if_splits)

lemma tx_check_shape_no_panic [simp]: "tx_check_shape t \<noteq> Panic"
  by (auto simp: tx_check_shape_def total_output_def rbind_Panic_iff)

end
