(* ===== verification/Names.thy ===== *)
theory Names
  imports Tx
begin

text \<open>
  Names (\<open>src/src/names.rs\<close>): canonical names and their 32-byte form, the look-alike skeleton, the two
  outputs of a registration, and the registry with its four maps. A name is the list of its ASCII
  bytes; what a user types is a list of Unicode code points. The \<open>audit\<close> feature is off.

  \<open>names_inv\<close> ties the four maps together; it is kept by \<open>names_add\<close> for a fresh skeleton, as
  validation requires, and by \<open>names_remove_tag\<close>.
\<close>

type_synonym name_bytes = "byte list"

section \<open>Activation\<close>

fun names_activation_height :: "network \<Rightarrow> nat" where
  "names_activation_height Mainnet = NAME_ACTIVATION_MAINNET"
| "names_activation_height Testnet = NAME_ACTIVATION_TESTNET"
| "names_activation_height Regtest = NAME_ACTIVATION_REGTEST"

definition names_is_active :: "network \<Rightarrow> nat \<Rightarrow> bool" where
  "names_is_active net height \<longleftrightarrow> height \<ge> names_activation_height net"

definition names_may_appear_on :: "network \<Rightarrow> bool" where
  "names_may_appear_on net \<longleftrightarrow> names_activation_height net \<noteq> u64_max"

definition names_has_transition :: "network \<Rightarrow> bool" where
  "names_has_transition net \<longleftrightarrow> names_activation_height net > 1 \<and> names_activation_height net \<noteq> u64_max"

definition names_reached :: "network \<Rightarrow> nat \<Rightarrow> (bool, 'e) result" where
  "names_reached net tip =
     (if \<not> names_may_appear_on net then Ok False
      else if \<not> names_has_transition net then Ok True
      else rbind (add64 tip 1) (\<lambda>next. Ok (next \<ge> names_activation_height net)))"

section \<open>The name itself\<close>

definition name_allowed :: "byte \<Rightarrow> bool" where
  "name_allowed c \<longleftrightarrow> (97 \<le> unat c \<and> unat c \<le> 122) \<or> (48 \<le> unat c \<and> unat c \<le> 57) \<or> c = 45"

definition is_canonical :: "byte list \<Rightarrow> bool" where
  "is_canonical b \<longleftrightarrow> NAME_MIN_LEN \<le> length b \<and> length b \<le> NAME_MAX_LEN \<and>
     list_all name_allowed b \<and> hd b \<noteq> 45 \<and> last b \<noteq> 45"

text \<open>\<open>char::is_whitespace\<close>, as \<open>str::trim\<close> uses it.\<close>

definition is_white :: "nat \<Rightarrow> bool" where
  "is_white c \<longleftrightarrow> (9 \<le> c \<and> c \<le> 13) \<or> c = 32 \<or> c = 0x85 \<or> c = 0xa0 \<or> c = 0x1680 \<or>
     (0x2000 \<le> c \<and> c \<le> 0x200a) \<or> c = 0x2028 \<or> c = 0x2029 \<or> c = 0x202f \<or> c = 0x205f \<or> c = 0x3000"

definition str_trim :: "nat list \<Rightarrow> nat list" where
  "str_trim s = rev (dropWhile is_white (rev (dropWhile is_white s)))"

definition ascii_lower :: "nat \<Rightarrow> nat" where
  "ascii_lower c = (if 65 \<le> c \<and> c \<le> 90 then c + 32 else c)"

definition name_normalize :: "nat list \<Rightarrow> byte list option" where
  "name_normalize input =
     (let t = str_trim input;
          t = (case t of c # cs \<Rightarrow> if c = 64 then cs else t | [] \<Rightarrow> t);
          lowered = map ascii_lower t;
          b = map of_nat lowered
      in if list_all (\<lambda>c. c < 128) lowered \<and> is_canonical b then Some b else None)"

definition name_encode :: "byte list \<Rightarrow> name_bytes option" where
  "name_encode name = (if is_canonical name then Some (name @ replicate (32 - length name) 0) else None)"

definition name_decode :: "name_bytes \<Rightarrow> byte list option" where
  "name_decode b =
     (let text = takeWhile (\<lambda>c. c \<noteq> 0) b
      in if list_ex (\<lambda>c. c \<noteq> 0) (drop (length text) b) then None
         else if is_canonical text then Some text else None)"

definition skeleton_map :: "byte \<Rightarrow> byte" where
  "skeleton_map c =
     (if c = 48 then 111 else if c = 49 \<or> c = 105 then 108 else if c = 50 then 122
      else if c = 52 then 97 else if c = 53 then 115 else if c = 54 \<or> c = 56 then 98
      else if c = 57 then 103 else c)"

fun skeleton_pairs :: "byte list \<Rightarrow> byte list" where
  "skeleton_pairs (a # b # cs) =
     (if a = 114 \<and> b = 110 then 109 # skeleton_pairs cs
      else if a = 118 \<and> b = 118 then 119 # skeleton_pairs cs
      else if a = 99 \<and> b = 108 then 100 # skeleton_pairs cs
      else a # skeleton_pairs (b # cs))"
| "skeleton_pairs cs = cs"

definition skeleton :: "byte list \<Rightarrow> byte list" where
  "skeleton name = skeleton_pairs (map skeleton_map (filter (\<lambda>c. c \<noteq> 45) name))"

section \<open>The registration\<close>

record name_registration =
  reg_name :: "byte list"
  reg_owner :: hash256
  reg_tag_index :: nat

datatype NameError =
    MoreThanOne
  | Unpaired
  | NotCanonical
  | WrongAmount nat nat
  | NoOwnerInput
  | Taken
  | OwnerFull
  | InCoinbase
  | Unspendable outpoint

definition scheme_positions :: "SchemeId \<Rightarrow> transaction \<Rightarrow> nat list" where
  "scheme_positions s t = filter (\<lambda>i. out_scheme (tx_outputs t ! i) = s) [0..<length (tx_outputs t)]"

definition registration :: "transaction \<Rightarrow> (name_registration option, NameError) result" where
  "registration t =
     (case (scheme_positions NameTag t, scheme_positions NameKey t) of
        ([], []) \<Rightarrow> Ok None
      | ([tg], [k]) \<Rightarrow>
          if k = tg + 1 then
            let tag = tx_outputs t ! tg; key = tx_outputs t ! k
            in if units (out_value tag) \<noteq> NAME_PRICE then Err (WrongAmount NAME_PRICE (units (out_value tag)))
               else if units (out_value key) \<noteq> 0 then Err (WrongAmount 0 (units (out_value key)))
               else rbind (ok_or (name_decode (out_pubkey_hash tag)) NotCanonical) (\<lambda>name.
                      Ok (Some \<lparr>reg_name = name, reg_owner = out_pubkey_hash key, reg_tag_index = tg\<rparr>))
          else Err Unpaired
      | ([_], []) \<Rightarrow> Err Unpaired
      | ([], [_]) \<Rightarrow> Err Unpaired
      | _ \<Rightarrow> Err MoreThanOne)"

section \<open>The registry\<close>

record name_record =
  nr_owner :: hash256
  nr_tag :: outpoint
  nr_height :: nat

record name_index =
  by_name :: "(name_bytes, name_record) hmap"
  by_skeleton :: "(byte list, name_bytes) hmap"
  per_owner :: "(hash256, nat) hmap"
  by_tag :: "(outpoint, name_bytes) hmap"

definition names_empty :: name_index where
  "names_empty = \<lparr>by_name = [], by_skeleton = [], per_owner = [], by_tag = []\<rparr>"

definition names_owned :: "name_index \<Rightarrow> hash256 \<Rightarrow> nat" where
  "names_owned ix owner = (case hget (per_owner ix) owner of None \<Rightarrow> 0 | Some n \<Rightarrow> n)"

definition names_add :: "name_index \<Rightarrow> outpoint \<Rightarrow> name_bytes \<Rightarrow> hash256 \<Rightarrow> nat \<Rightarrow> name_index" where
  "names_add ix tag name owner height =
     (case name_decode name of
        None \<Rightarrow> ix
      | Some text \<Rightarrow>
          if hget (by_tag ix) tag \<noteq> None then ix
          else ix\<lparr>by_tag := hput tag name (by_tag ix),
                  by_skeleton := hput (skeleton text) name (by_skeleton ix),
                  by_name := hput name \<lparr>nr_owner = owner, nr_tag = tag, nr_height = height\<rparr> (by_name ix),
                  per_owner := hput owner (names_owned ix owner + 1) (per_owner ix)\<rparr>)"

text \<open>\<open>*n -= 1\<close> on a stored zero would panic; no stored count is zero (\<open>names_inv\<close>).\<close>

definition names_remove_tag :: "name_index \<Rightarrow> outpoint \<Rightarrow> name_index" where
  "names_remove_tag ix tag =
     (case hget (by_tag ix) tag of
        None \<Rightarrow> ix
      | Some name \<Rightarrow>
          let ix = ix\<lparr>by_tag := hdel tag (by_tag ix)\<rparr>
          in case hget (by_name ix) name of
               None \<Rightarrow> ix
             | Some r \<Rightarrow>
                 if nr_tag r = tag then
                   let ix = ix\<lparr>by_name := hdel name (by_name ix)\<rparr>;
                       ix = (case name_decode name of
                               None \<Rightarrow> ix
                             | Some text \<Rightarrow>
                                 if hget (by_skeleton ix) (skeleton text) = Some name
                                 then ix\<lparr>by_skeleton := hdel (skeleton text) (by_skeleton ix)\<rparr> else ix)
                   in case hget (per_owner ix) (nr_owner r) of
                        None \<Rightarrow> ix
                      | Some n \<Rightarrow>
                          if n - 1 = 0 then ix\<lparr>per_owner := hdel (nr_owner r) (per_owner ix)\<rparr>
                          else ix\<lparr>per_owner := hput (nr_owner r) (n - 1) (per_owner ix)\<rparr>
                 else ix)"

definition names_get :: "name_index \<Rightarrow> byte list \<Rightarrow> name_record option" where
  "names_get ix name = Option.bind (name_encode name) (hget (by_name ix))"

definition names_by_skeleton :: "name_index \<Rightarrow> byte list \<Rightarrow> byte list option" where
  "names_by_skeleton ix sk = Option.bind (hget (by_skeleton ix) sk) name_decode"

definition names_is_well_formed :: "name_index \<Rightarrow> bool" where
  "names_is_well_formed ix \<longleftrightarrow>
     length (by_tag ix) = length (by_name ix) \<and> length (by_name ix) = length (by_skeleton ix) \<and>
     list_all (\<lambda>(owner, n). n \<le> MAX_NAMES_PER_OWNER) (per_owner ix) \<and>
     sum_list (map snd (per_owner ix)) = length (by_name ix)"

definition names_len :: "name_index \<Rightarrow> nat" where
  "names_len ix = length (by_name ix)"

definition names_burned :: "name_index \<Rightarrow> nat" where
  "names_burned ix = sat_mul64 (length (by_name ix)) NAME_PRICE"

section \<open>The 32-byte form\<close>

lemma canonical_no_zero: "is_canonical n \<Longrightarrow> 0 \<notin> set n"
  by (auto simp: is_canonical_def list_all_iff name_allowed_def)

lemma canonical_length: "is_canonical n \<Longrightarrow> length n \<le> 30"
  by (simp add: is_canonical_def NAME_MAX_LEN_def)

lemma name_encode_decode: "name_encode n = Some b \<Longrightarrow> name_decode b = Some n \<and> length b = 32"
proof -
  assume e: "name_encode n = Some b"
  then have c: "is_canonical n" and b: "b = n @ replicate (32 - length n) 0"
    by (auto simp: name_encode_def split: if_splits)
  have "takeWhile (\<lambda>c. c \<noteq> 0) b = n"
  proof -
    have "\<forall>x \<in> set n. x \<noteq> 0" using canonical_no_zero [OF c] by auto
    then have "takeWhile (\<lambda>c. c \<noteq> 0) (n @ replicate (32 - length n) 0) =
        n @ takeWhile (\<lambda>c. c \<noteq> 0) (replicate (32 - length n) (0 :: byte))"
      by (intro takeWhile_append2) simp
    then show ?thesis using b by (simp add: takeWhile_replicate)
  qed
  then show ?thesis using b c canonical_length [OF c]
    by (simp add: name_decode_def Let_def list_ex_iff)
qed

lemma name_decode_encode: "name_decode b = Some n \<Longrightarrow> length b = 32 \<Longrightarrow> name_encode n = Some b"
proof -
  assume d: "name_decode b = Some n" and len: "length b = 32"
  let ?t = "takeWhile (\<lambda>c. c \<noteq> 0) b"
  from d have z: "\<not> list_ex (\<lambda>c. c \<noteq> 0) (drop (length ?t) b)" and c: "is_canonical ?t" and n: "n = ?t"
    by (auto simp: name_decode_def Let_def split: if_splits)
  have "drop (length ?t) b = replicate (32 - length ?t) 0"
  proof (rule replicate_eqI)
    show "length (drop (length ?t) b) = 32 - length ?t" using len by (simp only: length_drop)
  qed (use z in \<open>unfold list_ex_iff, blast\<close>)
  moreover have "take (length ?t) b = ?t" by (rule takeWhile_eq_take [symmetric])
  ultimately have "b = ?t @ replicate (32 - length ?t) 0" by (metis append_take_drop_id)
  with c n show ?thesis by (simp add: name_encode_def)
qed

lemma name_decode_inj: "name_decode a = Some n \<Longrightarrow> name_decode b = Some n \<Longrightarrow> length a = 32 \<Longrightarrow> length b = 32 \<Longrightarrow> a = b"
  using name_decode_encode [of a n] name_decode_encode [of b n] by simp

section \<open>The invariant of the registry\<close>

definition names_inv :: "name_index \<Rightarrow> bool" where
  "names_inv ix \<longleftrightarrow>
     hwf (by_name ix) \<and> hwf (by_skeleton ix) \<and> hwf (per_owner ix) \<and> hwf (by_tag ix) \<and>
     (\<forall>tag n. hget (by_tag ix) tag = Some n \<longrightarrow> (\<exists>r. hget (by_name ix) n = Some r \<and> nr_tag r = tag)) \<and>
     (\<forall>n r. hget (by_name ix) n = Some r \<longrightarrow>
        hget (by_tag ix) (nr_tag r) = Some n \<and>
        (\<exists>text. name_decode n = Some text \<and> hget (by_skeleton ix) (skeleton text) = Some n)) \<and>
     (\<forall>sk n. hget (by_skeleton ix) sk = Some n \<longrightarrow>
        (\<exists>text r. name_decode n = Some text \<and> sk = skeleton text \<and> hget (by_name ix) n = Some r)) \<and>
     (\<forall>owner. hget (per_owner ix) owner =
        (let c = card {n. \<exists>r. hget (by_name ix) n = Some r \<and> nr_owner r = owner} in if c = 0 then None else Some c))"

lemma names_inv_tagD:
  "names_inv ix \<Longrightarrow> hget (by_tag ix) tag = Some n \<Longrightarrow> \<exists>r. hget (by_name ix) n = Some r \<and> nr_tag r = tag"
  unfolding names_inv_def by blast

lemma names_inv_nameD:
  "names_inv ix \<Longrightarrow> hget (by_name ix) n = Some r \<Longrightarrow>
   hget (by_tag ix) (nr_tag r) = Some n \<and>
   (\<exists>text. name_decode n = Some text \<and> hget (by_skeleton ix) (skeleton text) = Some n)"
  unfolding names_inv_def by blast

lemma names_inv_skD:
  "names_inv ix \<Longrightarrow> hget (by_skeleton ix) sk = Some n \<Longrightarrow>
   \<exists>text r. name_decode n = Some text \<and> sk = skeleton text \<and> hget (by_name ix) n = Some r"
  unfolding names_inv_def by blast

lemma names_inv_ownerD:
  "names_inv ix \<Longrightarrow> hget (per_owner ix) owner =
     (let c = card {n. \<exists>r. hget (by_name ix) n = Some r \<and> nr_owner r = owner} in if c = 0 then None else Some c)"
  unfolding names_inv_def by blast

lemma names_inv_hwf:
  "names_inv ix \<Longrightarrow> hwf (by_name ix) \<and> hwf (by_skeleton ix) \<and> hwf (per_owner ix) \<and> hwf (by_tag ix)"
  unfolding names_inv_def by blast

lemma names_inv_empty: "names_inv names_empty"
  by (simp add: names_inv_def names_empty_def)

lemma finite_hget: "finite {k. \<exists>v. hget m k = Some v \<and> P v}"
proof -
  have "{k. \<exists>v. hget m k = Some v \<and> P v} \<subseteq> dom (map_of m)" by (auto simp: hget_def)
  then show ?thesis by (rule finite_subset) (rule finite_dom_map_of)
qed

lemma names_owned_card:
  "names_inv ix \<Longrightarrow> names_owned ix owner = card {n. \<exists>r. hget (by_name ix) n = Some r \<and> nr_owner r = owner}"
  using names_inv_ownerD [of ix owner] by (simp add: names_owned_def Let_def split: if_splits)

text \<open>A new name is fresh when its skeleton is: validation checks the skeleton only.\<close>

lemma fresh_skeleton_fresh_name:
  "names_inv ix \<Longrightarrow> name_decode n = Some text \<Longrightarrow> hget (by_skeleton ix) (skeleton text) = None \<Longrightarrow>
   hget (by_name ix) n = None"
  using names_inv_nameD [of ix n] by (cases "hget (by_name ix) n") auto

lemma names_inv_add:
  assumes inv: "names_inv ix" and dec: "name_decode n = Some text"
    and sk: "hget (by_skeleton ix) (skeleton text) = None" and tg: "hget (by_tag ix) tag = None"
  shows "names_inv (names_add ix tag n owner height)"
proof -
  let ?r = "\<lparr>nr_owner = owner, nr_tag = tag, nr_height = height\<rparr>"
  let ?ix = "names_add ix tag n owner height"
  note nn = fresh_skeleton_fresh_name [OF inv dec sk]
  have ix: "by_tag ?ix = hput tag n (by_tag ix)" "by_skeleton ?ix = hput (skeleton text) n (by_skeleton ix)"
    "by_name ?ix = hput n ?r (by_name ix)" "per_owner ?ix = hput owner (names_owned ix owner + 1) (per_owner ix)"
    using dec tg by (simp_all add: names_add_def)
  have own: "{m. \<exists>r. hget (by_name ?ix) m = Some r \<and> nr_owner r = ow} =
      (if ow = owner then insert n else id) {m. \<exists>r. hget (by_name ix) m = Some r \<and> nr_owner r = ow}" for ow
    using nn by (auto simp: ix split: if_splits)
  have cnt: "hget (per_owner ?ix) ow =
      (let c = card {m. \<exists>r. hget (by_name ?ix) m = Some r \<and> nr_owner r = ow} in if c = 0 then None else Some c)" for ow
  proof (cases "ow = owner")
    case True
    have "card (insert n {m. \<exists>r. hget (by_name ix) m = Some r \<and> nr_owner r = owner}) = Suc (names_owned ix owner)"
      using nn finite_hget [of "by_name ix" "\<lambda>r. nr_owner r = owner"] names_owned_card [OF inv, of owner]
      by simp
    then show ?thesis unfolding own using True by (simp add: ix Let_def)
  next
    case False
    then show ?thesis unfolding own using names_inv_ownerD [OF inv, of ow] by (simp add: ix)
  qed
  have t1: "\<exists>r. hget (by_name ?ix) m = Some r \<and> nr_tag r = tg'" if "hget (by_tag ?ix) tg' = Some m" for tg' m
    using that names_inv_tagD [OF inv, of tg' m] nn unfolding ix by (cases "tg' = tag") auto
  have t2: "hget (by_tag ?ix) (nr_tag r) = Some m \<and>
      (\<exists>tw. name_decode m = Some tw \<and> hget (by_skeleton ?ix) (skeleton tw) = Some m)"
    if "hget (by_name ?ix) m = Some r" for m r
  proof (cases "m = n")
    case True
    then show ?thesis using that dec by (auto simp: ix)
  next
    case False
    then have old: "hget (by_name ix) m = Some r" using that by (simp add: ix)
    then obtain tw where found: "hget (by_tag ix) (nr_tag r) = Some m" "name_decode m = Some tw"
      "hget (by_skeleton ix) (skeleton tw) = Some m" using names_inv_nameD [OF inv] by blast
    then show ?thesis using tg sk by (auto simp: ix)
  qed
  have t3: "\<exists>tw r. name_decode m = Some tw \<and> s = skeleton tw \<and> hget (by_name ?ix) m = Some r"
    if "hget (by_skeleton ?ix) s = Some m" for s m
    using that names_inv_skD [OF inv, of s m] dec unfolding ix by (cases "s = skeleton text") auto
  have "hwf (by_name ?ix)" "hwf (by_skeleton ?ix)" "hwf (per_owner ?ix)" "hwf (by_tag ?ix)"
    using names_inv_hwf [OF inv] by (simp_all add: ix)
  then show ?thesis unfolding names_inv_def using t1 t2 t3 cnt by blast
qed

lemma names_remove_tag_fields:
  assumes inv: "names_inv ix" and tg: "hget (by_tag ix) tag = Some n"
    and r: "hget (by_name ix) n = Some r" and dec: "name_decode n = Some text"
  shows "names_remove_tag ix tag = ix\<lparr>by_tag := hdel tag (by_tag ix), by_name := hdel n (by_name ix),
    by_skeleton := hdel (skeleton text) (by_skeleton ix),
    per_owner := (if names_owned ix (nr_owner r) = 1 then hdel (nr_owner r) (per_owner ix)
                  else hput (nr_owner r) (names_owned ix (nr_owner r) - 1) (per_owner ix))\<rparr>"
proof -
  have t: "nr_tag r = tag" using names_inv_tagD [OF inv tg] r by auto
  have s: "hget (by_skeleton ix) (skeleton text) = Some n" using names_inv_nameD [OF inv r] dec by auto
  let ?S = "{m. \<exists>q. hget (by_name ix) m = Some q \<and> nr_owner q = nr_owner r}"
  have "n \<in> ?S" using r by auto
  then have "card ?S \<noteq> 0" using finite_hget [of "by_name ix" "\<lambda>q. nr_owner q = nr_owner r"] by auto
  then have c: "hget (per_owner ix) (nr_owner r) = Some (card ?S)" "names_owned ix (nr_owner r) = card ?S"
    using names_inv_ownerD [OF inv, of "nr_owner r"] names_owned_card [OF inv, of "nr_owner r"]
    by (simp_all add: Let_def)
  then have "names_owned ix (nr_owner r) - 1 = 0 \<longleftrightarrow> names_owned ix (nr_owner r) = 1"
    using \<open>card ?S \<noteq> 0\<close> by auto
  then show ?thesis using t s c tg r dec by (simp add: names_remove_tag_def Let_def)
qed

lemma names_inv_remove:
  assumes inv: "names_inv ix"
  shows "names_inv (names_remove_tag ix tag)"
proof (cases "hget (by_tag ix) tag")
  case None
  then show ?thesis using inv by (simp add: names_remove_tag_def)
next
  case (Some n)
  then obtain r where r: "hget (by_name ix) n = Some r" "nr_tag r = tag" using names_inv_tagD [OF inv] by blast
  then obtain tw0 where dec: "name_decode n = Some tw0" "hget (by_skeleton ix) (skeleton tw0) = Some n"
    using names_inv_nameD [OF inv] by blast
  let ?ix = "names_remove_tag ix tag"
  let ?S = "\<lambda>ix ow. {m. \<exists>q. hget (by_name ix) m = Some q \<and> nr_owner q = ow}"
  note ix = names_remove_tag_fields [OF inv Some r(1) dec(1)]
  have f: "by_tag ?ix = hdel tag (by_tag ix)" "by_name ?ix = hdel n (by_name ix)"
    "by_skeleton ?ix = hdel (skeleton tw0) (by_skeleton ix)"
    "per_owner ?ix = (if names_owned ix (nr_owner r) = 1 then hdel (nr_owner r) (per_owner ix)
                  else hput (nr_owner r) (names_owned ix (nr_owner r) - 1) (per_owner ix))"
    by (simp_all add: ix)
  have S: "?S ?ix ow = ?S ix ow - (if ow = nr_owner r then {n} else {})" for ow
    using r by (auto simp: f)
  have cnt: "hget (per_owner ?ix) ow = (let c = card (?S ?ix ow) in if c = 0 then None else Some c)" for ow
  proof (cases "ow = nr_owner r")
    case True
    have "n \<in> ?S ix ow" using r True by auto
    then have "card (?S ?ix ow) = names_owned ix ow - 1"
      unfolding S using True names_owned_card [OF inv, of ow] by (simp add: card_Diff_singleton)
    moreover have "names_owned ix ow \<noteq> 0"
      using \<open>n \<in> ?S ix ow\<close> names_owned_card [OF inv, of ow] finite_hget [of "by_name ix" "\<lambda>q. nr_owner q = ow"] by auto
    ultimately show ?thesis using True by (simp add: f Let_def)
  next
    case False
    then show ?thesis unfolding S using names_inv_ownerD [OF inv, of ow] by (simp add: f)
  qed
  have t1: "\<exists>q. hget (by_name ?ix) m = Some q \<and> nr_tag q = tg" if "hget (by_tag ?ix) tg = Some m" for tg m
  proof -
    from that have tg: "tg \<noteq> tag" "hget (by_tag ix) tg = Some m" by (auto simp: f split: if_splits)
    with names_inv_tagD [OF inv tg(2)] r show ?thesis by (auto simp: f)
  qed
  have t2: "hget (by_tag ?ix) (nr_tag q) = Some m \<and>
      (\<exists>tw. name_decode m = Some tw \<and> hget (by_skeleton ?ix) (skeleton tw) = Some m)"
    if "hget (by_name ?ix) m = Some q" for m q
  proof -
    from that have m: "m \<noteq> n" "hget (by_name ix) m = Some q" by (auto simp: f split: if_splits)
    obtain tw where tw: "hget (by_tag ix) (nr_tag q) = Some m" "name_decode m = Some tw"
      "hget (by_skeleton ix) (skeleton tw) = Some m" using names_inv_nameD [OF inv m(2)] by blast
    then have "skeleton tw \<noteq> skeleton tw0" "nr_tag q \<noteq> tag" using dec(2) Some m(1) by auto
    with tw show ?thesis by (intro conjI exI [of _ tw]) (simp_all add: f)
  qed
  have t3: "\<exists>tw q. name_decode m = Some tw \<and> s = skeleton tw \<and> hget (by_name ?ix) m = Some q"
    if "hget (by_skeleton ?ix) s = Some m" for s m
  proof -
    from that have s: "s \<noteq> skeleton tw0" "hget (by_skeleton ix) s = Some m" by (auto simp: f split: if_splits)
    with names_inv_skD [OF inv s(2)] dec show ?thesis by (auto simp: f)
  qed
  have "hwf (by_name ?ix)" "hwf (by_skeleton ?ix)" "hwf (per_owner ?ix)" "hwf (by_tag ?ix)"
    using names_inv_hwf [OF inv] by (simp_all add: f)
  then show ?thesis unfolding names_inv_def using t1 t2 t3 cnt by blast
qed

section \<open>Sizes\<close>

lemma hmap_length: "hwf m \<Longrightarrow> length m = card {k. \<exists>v. hget m k = Some v}"
proof -
  assume "hwf m"
  then have "length m = card (fst ` set m)" by (metis distinct_card hwf_def length_map list.set_map)
  also have "fst ` set m = {k. \<exists>v. hget m k = Some v}"
    by (auto simp: hget_def dom_map_of_conv_image_fst [symmetric] simp flip: domIff)
  finally show ?thesis .
qed

lemma names_lengths:
  assumes inv: "names_inv ix"
  shows "length (by_tag ix) = length (by_name ix)" "length (by_name ix) = length (by_skeleton ix)"
proof -
  note wf = names_inv_hwf [OF inv]
  let ?N = "{n. \<exists>r. hget (by_name ix) n = Some r}"
  have "bij_betw (\<lambda>n. nr_tag (the (hget (by_name ix) n))) ?N {t. \<exists>n. hget (by_tag ix) t = Some n}"
  proof (rule bij_betw_byWitness [where f' = "\<lambda>t. the (hget (by_tag ix) t)"]; clarify)
    fix n r assume n: "hget (by_name ix) n = Some r"
    from names_inv_nameD [OF inv n] n
    show "the (hget (by_tag ix) (nr_tag (the (hget (by_name ix) n)))) = n"
      and "\<exists>m. hget (by_tag ix) (nr_tag (the (hget (by_name ix) n))) = Some m" by auto
  next
    fix t n assume t: "hget (by_tag ix) t = Some n"
    from names_inv_tagD [OF inv t] t
    show "nr_tag (the (hget (by_name ix) (the (hget (by_tag ix) t)))) = t"
      and "\<exists>r. hget (by_name ix) (the (hget (by_tag ix) t)) = Some r" by auto
  qed
  from bij_betw_same_card [OF this] show "length (by_tag ix) = length (by_name ix)"
    using wf by (simp add: hmap_length)
  have "bij_betw (\<lambda>n. skeleton (the (name_decode n))) ?N {s. \<exists>n. hget (by_skeleton ix) s = Some n}"
  proof (rule bij_betw_byWitness [where f' = "\<lambda>s. the (hget (by_skeleton ix) s)"]; clarify)
    fix n r assume n: "hget (by_name ix) n = Some r"
    from names_inv_nameD [OF inv n] n
    show "the (hget (by_skeleton ix) (skeleton (the (name_decode n)))) = n"
      and "\<exists>m. hget (by_skeleton ix) (skeleton (the (name_decode n))) = Some m" by auto
  next
    fix s n assume s: "hget (by_skeleton ix) s = Some n"
    from names_inv_skD [OF inv s] s
    show "skeleton (the (name_decode (the (hget (by_skeleton ix) s)))) = s"
      and "\<exists>r. hget (by_name ix) (the (hget (by_skeleton ix) s)) = Some r" by auto
  qed
  from bij_betw_same_card [OF this] show "length (by_name ix) = length (by_skeleton ix)"
    using wf by (simp add: hmap_length)
qed

lemma card_eq_sum_fibres:
  assumes "finite A" "finite B" "f ` A \<subseteq> B"
  shows "card A = (\<Sum>b \<in> B. card {a \<in> A. f a = b})"
proof -
  have "card A = (\<Sum>a \<in> A. 1)" by simp
  also have "\<dots> = (\<Sum>b \<in> B. \<Sum>a \<in> {a \<in> A. f a = b}. 1)"
    by (rule sum.group [OF assms, symmetric])
  finally show ?thesis by simp
qed

lemma names_owner_sum:
  assumes inv: "names_inv ix"
  shows "sum_list (map snd (per_owner ix)) = length (by_name ix)"
proof -
  note wf = names_inv_hwf [OF inv]
  let ?N = "{n. \<exists>r. hget (by_name ix) n = Some r}"
  let ?O = "{ow. \<exists>c. hget (per_owner ix) ow = Some c}"
  let ?own = "\<lambda>n. nr_owner (the (hget (by_name ix) n))"
  have cnt: "hget (per_owner ix) ow = Some c \<Longrightarrow> c = card {n \<in> ?N. ?own n = ow}" for ow c
  proof -
    assume "hget (per_owner ix) ow = Some c"
    moreover have "{n \<in> ?N. ?own n = ow} = {n. \<exists>r. hget (by_name ix) n = Some r \<and> nr_owner r = ow}" by auto
    ultimately show ?thesis using names_inv_ownerD [OF inv, of ow] by (simp add: Let_def split: if_splits)
  qed
  have fin: "finite ?N" "finite ?O"
    using finite_hget [of "by_name ix" "\<lambda>_. True"] finite_hget [of "per_owner ix" "\<lambda>_. True"] by simp_all
  have sub: "?own ` ?N \<subseteq> ?O"
  proof clarify
    fix n r assume n: "hget (by_name ix) n = Some r"
    then have "n \<in> {m. \<exists>q. hget (by_name ix) m = Some q \<and> nr_owner q = nr_owner r}" by auto
    then have "card {m. \<exists>q. hget (by_name ix) m = Some q \<and> nr_owner q = nr_owner r} \<noteq> 0"
      using finite_hget [of "by_name ix" "\<lambda>q. nr_owner q = nr_owner r"] by auto
    with n show "\<exists>c. hget (per_owner ix) (?own n) = Some c"
      using names_inv_ownerD [OF inv, of "nr_owner r"] by (simp add: Let_def)
  qed
  have "sum_list (map snd (per_owner ix)) = (\<Sum>(ow, c) \<in> {(ow, c). hget (per_owner ix) ow = Some c}. c)"
    using hm.sum_items [of "per_owner ix" "\<lambda>_ c. c"] wf by (simp add: case_prod_unfold)
  also have "{(ow, c). hget (per_owner ix) ow = Some c} = (\<lambda>ow. (ow, the (hget (per_owner ix) ow))) ` ?O"
    by force
  also have "(\<Sum>(ow, c) \<in> (\<lambda>ow. (ow, the (hget (per_owner ix) ow))) ` ?O. c) = (\<Sum>ow \<in> ?O. the (hget (per_owner ix) ow))"
    by (subst sum.reindex) (auto simp: inj_on_def)
  also have "\<dots> = (\<Sum>ow \<in> ?O. card {n \<in> ?N. ?own n = ow})"
  proof (rule sum.cong [OF refl])
    fix ow assume "ow \<in> ?O"
    then obtain c where "hget (per_owner ix) ow = Some c" by auto
    with cnt [OF this] show "the (hget (per_owner ix) ow) = card {n \<in> ?N. ?own n = ow}" by simp
  qed
  also have "\<dots> = card ?N" by (rule card_eq_sum_fibres [OF fin sub, symmetric])
  finally show ?thesis using wf by (simp add: hmap_length)
qed

section \<open>Properties\<close>

text \<open>Two registries with the same contents, whatever the order of their maps.\<close>

definition names_same :: "name_index \<Rightarrow> name_index \<Rightarrow> bool" where
  "names_same a b \<longleftrightarrow>
     (\<forall>k. hget (by_name a) k = hget (by_name b) k) \<and> (\<forall>k. hget (by_skeleton a) k = hget (by_skeleton b) k) \<and>
     (\<forall>k. hget (per_owner a) k = hget (per_owner b) k) \<and> (\<forall>k. hget (by_tag a) k = hget (by_tag b) k)"

lemma names_remove_add:
  assumes inv: "names_inv ix" and dec: "name_decode n = Some text"
    and sk: "hget (by_skeleton ix) (skeleton text) = None" and tg: "hget (by_tag ix) tag = None"
  shows "names_same (names_remove_tag (names_add ix tag n owner height) tag) ix"
proof -
  let ?r = "\<lparr>nr_owner = owner, nr_tag = tag, nr_height = height\<rparr>"
  let ?ix = "names_add ix tag n owner height"
  have ix: "?ix = ix\<lparr>by_tag := hput tag n (by_tag ix), by_skeleton := hput (skeleton text) n (by_skeleton ix),
      by_name := hput n ?r (by_name ix), per_owner := hput owner (names_owned ix owner + 1) (per_owner ix)\<rparr>"
    using dec tg by (simp add: names_add_def)
  have nn: "hget (by_name ix) n = None" by (rule fresh_skeleton_fresh_name [OF inv dec sk])
  have g: "hget (by_tag ?ix) tag = Some n" "hget (by_name ?ix) n = Some ?r" by (simp_all add: ix)
  have own: "names_owned ?ix owner = names_owned ix owner + 1" by (simp add: ix names_owned_def)
  have "hget (per_owner ix) owner = (if names_owned ix owner = 0 then None else Some (names_owned ix owner))"
    using names_inv_ownerD [OF inv, of owner] names_owned_card [OF inv, of owner] by (simp add: Let_def)
  then show ?thesis
    unfolding names_remove_tag_fields [OF names_inv_add [OF inv dec sk tg] g dec] names_same_def
    using nn sk tg own by (simp add: ix)
qed

lemma names_well_formed_iff:
  assumes "names_inv ix"
  shows "names_is_well_formed ix \<longleftrightarrow> (\<forall>owner. names_owned ix owner \<le> MAX_NAMES_PER_OWNER)"
proof -
  have "hwf (per_owner ix)" using names_inv_hwf [OF assms] by blast
  then have "list_all (\<lambda>(owner, n). n \<le> MAX_NAMES_PER_OWNER) (per_owner ix) \<longleftrightarrow>
      (\<forall>owner n. hget (per_owner ix) owner = Some n \<longrightarrow> n \<le> MAX_NAMES_PER_OWNER)"
    using hm.in_items_iff [of "per_owner ix"] by (fastforce simp: list_all_iff)
  then show ?thesis
    using names_lengths [OF assms] names_owner_sum [OF assms]
    by (auto simp: names_is_well_formed_def names_owned_def split: option.splits)
qed

text \<open>C19. The four maps of the registry stay tied together: registering a name whose skeleton is free
  and undoing any registration keep the invariant, undoing the last registration restores the
  registry, and under the invariant the self-check of the registry can only fail on an owner above
  the limit.\<close>

theorem names_registry_consistent:
  assumes "names_inv ix" and "name_decode n = Some text"
    and "hget (by_skeleton ix) (skeleton text) = None" and "hget (by_tag ix) tag = None"
  shows "names_inv (names_add ix tag n owner height) \<and>
    names_same (names_remove_tag (names_add ix tag n owner height) tag) ix \<and>
    names_inv (names_remove_tag ix tag') \<and>
    (names_is_well_formed ix \<longleftrightarrow> (\<forall>owner. names_owned ix owner \<le> MAX_NAMES_PER_OWNER))"
  using names_inv_add [OF assms] names_remove_add [OF assms] names_inv_remove [OF assms(1)]
    names_well_formed_iff [OF assms(1)] by blast

definition example_name :: "byte list" where
  "example_name = str_bytes ''alice''"

lemma example_name_decode: "name_decode (example_name @ replicate 27 0) = Some example_name"
  by code_simp

theorem names_registry_consistent_witness:
  "names_inv (names_add names_empty OUTPOINT_COINBASE (example_name @ replicate 27 0) HASH_ZERO 1) \<and>
   names_is_well_formed names_empty"
  using names_registry_consistent [OF names_inv_empty example_name_decode, of OUTPOINT_COINBASE HASH_ZERO 1]
  by (simp add: names_empty_def names_owned_def)

text \<open>Names have one 32-byte form: encoding and decoding are inverse of each other, on 32-byte
  strings.\<close>

theorem name_codec:
  "(name_encode n = Some b \<longleftrightarrow> length b = 32 \<and> name_decode b = Some n)"
  using name_encode_decode name_decode_encode by blast

end
