(* ===== verification/Uint256.thy ===== *)
theory Uint256
  imports Prelude
begin

text \<open>
  The 256-bit integers of \<open>src/src/uint.rs\<close>: four \<open>u64\<close> limbs, least significant first. Every loop
  over the limbs is a recursion over the list of limbs with the carry, borrow or remainder of the
  source as an accumulator; the \<open>u128\<close> intermediates are natural numbers and are shown to fit.

  \<open>uval\<close> is the number an array of limbs stands for; each operation is proved to be the operation of
  the natural numbers under it.
\<close>

unbundle bit_operations_syntax

datatype U256 = U256 u64 u64 u64 u64

fun limbs :: "U256 \<Rightarrow> u64 list" where
  "limbs (U256 a b c d) = [a, b, c, d]"

definition of_limbs :: "u64 list \<Rightarrow> U256" where
  "of_limbs xs = U256 (xs ! 0) (xs ! 1) (xs ! 2) (xs ! 3)"

definition U256_ZERO :: U256 where
  "U256_ZERO = U256 0 0 0 0"

definition U256_ONE :: U256 where
  "U256_ONE = U256 1 0 0 0"

definition U256_MAX :: U256 where
  "U256_MAX = U256 (-1) (-1) (-1) (-1)"

definition u256_from_u64 :: "u64 \<Rightarrow> U256" where
  "u256_from_u64 v = U256 v 0 0 0"

definition u256_from_be_bytes :: "byte list \<Rightarrow> U256" where
  "u256_from_be_bytes b =
     of_limbs (rev (map (\<lambda>i. of_nat (be_val (take 8 (drop (i * 8) b)))) [0..<4]))"

definition u256_to_be_bytes :: "U256 \<Rightarrow> byte list" where
  "u256_to_be_bytes u = concat (map (\<lambda>l. be_bytes 8 (unat l)) (rev (limbs u)))"

definition u256_is_zero :: "U256 \<Rightarrow> bool" where
  "u256_is_zero u \<longleftrightarrow> limbs u = [0, 0, 0, 0]"

definition low_u64 :: "U256 \<Rightarrow> u64" where
  "low_u64 u = limbs u ! 0"

text \<open>\<open>u64::leading_zeros\<close>, scanning from the top bit.\<close>

fun lz_from :: "u64 \<Rightarrow> nat \<Rightarrow> nat" where
  "lz_from w 0 = 0"
| "lz_from w (Suc n) = (if bit w n then 0 else Suc (lz_from w n))"

definition leading_zeros :: "u64 \<Rightarrow> nat" where
  "leading_zeros w = lz_from w 64"

fun bits_from :: "u64 list \<Rightarrow> nat \<Rightarrow> nat" where
  "bits_from ls 0 = 0"
| "bits_from ls (Suc i) =
     (if ls ! i \<noteq> 0 then 64 * i + (64 - leading_zeros (ls ! i)) else bits_from ls i)"

definition u256_bits :: "U256 \<Rightarrow> nat" where
  "u256_bits u = bits_from (limbs u) 4"

definition overflowing_add :: "u64 \<Rightarrow> u64 \<Rightarrow> u64 \<times> bool" where
  "overflowing_add a b = (a + b, 2 ^ 64 \<le> unat a + unat b)"

definition overflowing_sub :: "u64 \<Rightarrow> u64 \<Rightarrow> u64 \<times> bool" where
  "overflowing_sub a b = (a - b, unat a < unat b)"

fun add_limbs :: "u64 \<Rightarrow> u64 list \<Rightarrow> u64 list \<Rightarrow> u64 list \<times> u64" where
  "add_limbs carry (a # as) (b # bs) =
     (let (s1, c1) = overflowing_add a b;
          (s2, c2) = overflowing_add s1 carry;
          (os, c) = add_limbs (of_bool c1 + of_bool c2) as bs
      in (s2 # os, c))"
| "add_limbs carry _ _ = ([], carry)"

definition u256_checked_add :: "U256 \<Rightarrow> U256 \<Rightarrow> U256 option" where
  "u256_checked_add x y =
     (let (out, carry) = add_limbs 0 (limbs x) (limbs y)
      in if carry \<noteq> 0 then None else Some (of_limbs out))"

definition u256_wrapping_add :: "U256 \<Rightarrow> U256 \<Rightarrow> U256" where
  "u256_wrapping_add x y = of_limbs (fst (add_limbs 0 (limbs x) (limbs y)))"

fun mul_limbs :: "u64 \<Rightarrow> nat \<Rightarrow> u64 list \<Rightarrow> u64 list \<times> nat" where
  "mul_limbs rhs carry [] = ([], carry)"
| "mul_limbs rhs carry (a # as) =
     (let p = unat a * unat rhs + carry;
          (os, c) = mul_limbs rhs (p div 2 ^ 64) as
      in (of_nat p # os, c))"

definition u256_checked_mul_u64 :: "U256 \<Rightarrow> u64 \<Rightarrow> U256 option" where
  "u256_checked_mul_u64 x rhs =
     (let (out, carry) = mul_limbs rhs 0 (limbs x)
      in if carry \<noteq> 0 then None else Some (of_limbs out))"

text \<open>The limbs are visited from the most significant one: the list is in that order.\<close>

fun div_limbs :: "u64 \<Rightarrow> nat \<Rightarrow> u64 list \<Rightarrow> u64 list \<times> nat" where
  "div_limbs rhs rm [] = ([], rm)"
| "div_limbs rhs rm (a # as) =
     (let cur = rm * 2 ^ 64 + unat a;
          (os, r) = div_limbs rhs (cur mod unat rhs) as
      in (of_nat (cur div unat rhs) # os, r))"

definition u256_checked_div_u64 :: "U256 \<Rightarrow> u64 \<Rightarrow> U256 option" where
  "u256_checked_div_u64 x rhs =
     (if rhs = 0 then None
      else Some (of_limbs (rev (fst (div_limbs rhs 0 (rev (limbs x)))))))"

definition u256_not :: "U256 \<Rightarrow> U256" where
  "u256_not u = of_limbs (map (\<lambda>l. NOT l) (limbs u))"

fun sub_limbs :: "u64 \<Rightarrow> u64 list \<Rightarrow> u64 list \<Rightarrow> u64 list \<times> u64" where
  "sub_limbs borrow (a # as) (b # bs) =
     (let (d1, b1) = overflowing_sub a b;
          (d2, b2) = overflowing_sub d1 borrow;
          (os, c) = sub_limbs (of_bool b1 + of_bool b2) as bs
      in (d2 # os, c))"
| "sub_limbs borrow _ _ = ([], borrow)"

definition u256_checked_sub :: "U256 \<Rightarrow> U256 \<Rightarrow> U256 option" where
  "u256_checked_sub x y =
     (let (out, borrow) = sub_limbs 0 (limbs x) (limbs y)
      in if borrow \<noteq> 0 then None else Some (of_limbs out))"

definition u256_bit :: "U256 \<Rightarrow> nat \<Rightarrow> bool" where
  "u256_bit u i \<longleftrightarrow> (if i \<ge> 256 then False
     else drop_bit (i mod 64) (limbs u ! (i div 64)) AND 1 = 1)"

definition u256_set_bit :: "U256 \<Rightarrow> nat \<Rightarrow> U256" where
  "u256_set_bit u i =
     (if i < 256 then
        of_limbs ((limbs u)[i div 64 := limbs u ! (i div 64) OR push_bit (i mod 64) 1])
      else u)"

fun shl1_limbs :: "u64 \<Rightarrow> u64 list \<Rightarrow> u64 list \<times> u64" where
  "shl1_limbs carry [] = ([], carry)"
| "shl1_limbs carry (a # as) =
     (let (os, c) = shl1_limbs (drop_bit 63 a) as in ((push_bit 1 a OR carry) # os, c))"

definition u256_shl1 :: "U256 \<Rightarrow> U256" where
  "u256_shl1 u = of_limbs (fst (shl1_limbs 0 (limbs u)))"

datatype ordering = Less | Equal | Greater

fun cmp_limbs :: "u64 list \<Rightarrow> u64 list \<Rightarrow> ordering" where
  "cmp_limbs (a # as) (b # bs) =
     (if unat a < unat b then Less else if unat b < unat a then Greater else cmp_limbs as bs)"
| "cmp_limbs _ _ = Equal"

definition u256_cmp :: "U256 \<Rightarrow> U256 \<Rightarrow> ordering" where
  "u256_cmp x y = cmp_limbs (rev (limbs x)) (rev (limbs y))"

text \<open>The order of the type is the one \<open>cmp\<close> gives; the class instance below uses it.\<close>

instantiation U256 :: ord
begin

definition less_eq_U256 :: "U256 \<Rightarrow> U256 \<Rightarrow> bool" where
  "x \<le> y \<longleftrightarrow> u256_cmp x y \<noteq> Greater"

definition less_U256 :: "U256 \<Rightarrow> U256 \<Rightarrow> bool" where
  "x < y \<longleftrightarrow> u256_cmp x y = Less"

instance ..

end

text \<open>
  Long division. \<open>div_rem_loop n\<close> runs the iterations \<open>n - 1\<close> down to \<open>0\<close>; the \<open>expect\<close> of the
  source is a \<open>Panic\<close>, and the \<open>None\<close> for a zero divisor is \<open>Err ()\<close>.
\<close>

fun div_rem_loop :: "U256 \<Rightarrow> U256 \<Rightarrow> nat \<Rightarrow> U256 \<times> U256 \<Rightarrow> (U256 \<times> U256, unit) result" where
  "div_rem_loop x y 0 (q, r) = Ok (q, r)"
| "div_rem_loop x y (Suc i) (q, r) =
     (let r1 = u256_shl1 r;
          r2 = if u256_bit x i then u256_set_bit r1 0 else r1
      in if y \<le> r2 then
           (case u256_checked_sub r2 y of
              None \<Rightarrow> Panic
            | Some r3 \<Rightarrow> div_rem_loop x y i (u256_set_bit q i, r3))
         else div_rem_loop x y i (q, r2))"

definition u256_div_rem :: "U256 \<Rightarrow> U256 \<Rightarrow> (U256 \<times> U256, unit) result" where
  "u256_div_rem x y =
     (if u256_is_zero y then Err () else div_rem_loop x y 256 (U256_ZERO, U256_ZERO))"

definition u256_mul_div :: "U256 \<Rightarrow> u64 \<Rightarrow> u64 \<Rightarrow> U256 option" where
  "u256_mul_div x m d =
     (if d = 0 then None
      else case u256_checked_mul_u64 x m of
             Some p \<Rightarrow> u256_checked_div_u64 p d
           | None \<Rightarrow> Option.bind (u256_checked_div_u64 x d) (\<lambda>q. u256_checked_mul_u64 q m))"

section \<open>Values\<close>

primrec lval :: "u64 list \<Rightarrow> nat" where
  "lval [] = 0"
| "lval (x # xs) = unat x + 2 ^ 64 * lval xs"

definition uval :: "U256 \<Rightarrow> nat" where
  "uval u = lval (limbs u)"

lemma length_limbs [simp]: "length (limbs u) = 4"
  by (cases u) simp

lemma of_limbs_limbs [simp]: "of_limbs (limbs u) = u"
  by (cases u) (simp add: of_limbs_def)

lemma limbs_of_limbs [simp]: "length xs = 4 \<Longrightarrow> limbs (of_limbs xs) = xs"
  by (auto simp: of_limbs_def eval_nat_numeral length_Suc_conv)

lemma uval_of_limbs [simp]: "length xs = 4 \<Longrightarrow> uval (of_limbs xs) = lval xs"
  by (simp add: uval_def)

lemma lval_lt: "lval xs < (2 ^ 64) ^ length xs"
proof (induction xs)
  case (Cons x xs)
  have "unat x < 2 ^ 64" using unat_lt [of x] by simp
  moreover have "2 ^ 64 * Suc (lval xs) \<le> 2 ^ 64 * (2 ^ 64) ^ length xs"
    using Cons.IH by (intro mult_le_mono2) (simp add: Suc_leI)
  ultimately show ?case by simp
qed simp

lemma uval_lt [bounds]: "uval u < 2 ^ 256"
  using lval_lt [of "limbs u"] by (simp add: uval_def)

lemma limb_split_unique:
  fixes a b x y :: nat
  assumes "a + 2 ^ 64 * x = b + 2 ^ 64 * y" "a < 2 ^ 64" "b < 2 ^ 64"
  shows "a = b \<and> x = y"
proof -
  have "(a + 2 ^ 64 * x) mod 2 ^ 64 = a" "(b + 2 ^ 64 * y) mod 2 ^ 64 = b"
    using assms(2,3) by auto
  with assms(1) show ?thesis by simp
qed

lemma lval_inj: "length xs = length ys \<Longrightarrow> lval xs = lval ys \<Longrightarrow> xs = ys"
proof (induction xs ys rule: list_induct2)
  case (Cons x xs y ys)
  have "unat x < 2 ^ 64" "unat y < 2 ^ 64" using unat_lt [of x] unat_lt [of y] by auto
  with Cons.prems limb_split_unique have "unat x = unat y \<and> lval xs = lval ys"
    by (metis lval.simps(2))
  with Cons.IH show ?case by (simp add: word_unat_eq_iff)
qed simp

lemma uval_inj: "uval x = uval y \<longleftrightarrow> x = y"
proof
  assume "uval x = uval y"
  then have "limbs x = limbs y" using lval_inj [of "limbs x" "limbs y"] by (simp add: uval_def)
  then show "x = y" by (metis of_limbs_limbs)
qed simp

lemma uval_consts [simp]: "uval U256_ZERO = 0" "uval U256_ONE = 1" "uval (u256_from_u64 v) = unat v"
  by (simp_all add: uval_def U256_ZERO_def U256_ONE_def u256_from_u64_def)

lemma uval_MAX: "uval U256_MAX = 2 ^ 256 - 1"
  by (simp add: uval_def U256_MAX_def unsigned_minus_1_eq_mask mask_eq_exp_minus_1)

lemma u256_is_zero_iff [simp]: "u256_is_zero u \<longleftrightarrow> uval u = 0"
  by (cases u) (auto simp: u256_is_zero_def uval_def unat_eq_0)

section \<open>Addition and subtraction\<close>

lemma length_add_limbs [simp]: "length xs = length ys \<Longrightarrow> length (fst (add_limbs c xs ys)) = length xs"
  by (induction c xs ys rule: add_limbs.induct) (auto simp: Let_def split: prod.splits)

lemma overflowing_add_val:
  "unat (fst (overflowing_add a b)) + 2 ^ 64 * of_bool (snd (overflowing_add a b)) = unat a + unat b"
proof -
  have "unat (a + b) = (unat a + unat b) mod 2 ^ 64" by (simp add: unat_word_ariths)
  moreover have "unat a + unat b < 2 * 2 ^ 64" using unat_lt [of a] unat_lt [of b] by simp
  ultimately show ?thesis
    by (auto simp: overflowing_add_def of_bool_def not_le mod_if le_mod_geq)
qed

lemma overflowing_sub_val:
  "unat (fst (overflowing_sub a b)) + unat b = unat a + 2 ^ 64 * of_bool (snd (overflowing_sub a b))"
proof -
  have "unat a < 2 ^ 64" "unat b < 2 ^ 64" using unat_lt [of a] unat_lt [of b] by auto
  then show ?thesis
    by (auto simp: overflowing_sub_def of_bool_def unat_sub_if')
qed

lemma add_limbs_val:
  assumes "length xs = length ys" "unat c \<le> 1"
  shows "lval (fst (add_limbs c xs ys)) + (2 ^ 64) ^ length xs * unat (snd (add_limbs c xs ys))
           = lval xs + lval ys + unat c \<and> unat (snd (add_limbs c xs ys)) \<le> 1"
  using assms
proof (induction c xs ys rule: add_limbs.induct)
  case (1 c a as b bs)
  obtain s1 c1 where o1: "overflowing_add a b = (s1, c1)" by force
  obtain s2 c2 where o2: "overflowing_add s1 c = (s2, c2)" by force
  let ?c = "of_bool c1 + of_bool c2 :: u64"
  have v: "unat s1 + 2 ^ 64 * of_bool c1 = unat a + unat b" "unat s2 + 2 ^ 64 * of_bool c2 = unat s1 + unat c"
    using overflowing_add_val [of a b] overflowing_add_val [of s1 c] o1 o2 by simp_all
  have lt: "unat a < 2 ^ 64" "unat b < 2 ^ 64" using unat_lt [of a] unat_lt [of b] by auto
  have le: "unat ?c \<le> 1" "unat ?c = of_bool c1 + of_bool c2"
    using v lt "1.prems"(2) by (cases c1; cases c2; simp)+
  obtain os c' where rec: "add_limbs ?c as bs = (os, c')" by force
  have "lval os + (2 ^ 64) ^ length as * unat c' = lval as + lval bs + unat ?c \<and> unat c' \<le> 1"
    using "1.IH" [OF o1 [symmetric] refl o2 [symmetric] refl] "1.prems" le(1) rec by simp
  then show ?case
    using o1 o2 rec v le by (simp add: algebra_simps)
qed simp_all

lemma length_sub_limbs [simp]: "length xs = length ys \<Longrightarrow> length (fst (sub_limbs c xs ys)) = length xs"
  by (induction c xs ys rule: sub_limbs.induct) (auto simp: Let_def split: prod.splits)

lemma sub_limbs_val:
  assumes "length xs = length ys" "unat c \<le> 1"
  shows "lval (fst (sub_limbs c xs ys)) + lval ys + unat c
           = lval xs + (2 ^ 64) ^ length xs * unat (snd (sub_limbs c xs ys))
         \<and> unat (snd (sub_limbs c xs ys)) \<le> 1"
  using assms
proof (induction c xs ys rule: sub_limbs.induct)
  case (1 c a as b bs)
  obtain s1 c1 where o1: "overflowing_sub a b = (s1, c1)" by force
  obtain s2 c2 where o2: "overflowing_sub s1 c = (s2, c2)" by force
  let ?c = "of_bool c1 + of_bool c2 :: u64"
  have v: "unat s1 + unat b = unat a + 2 ^ 64 * of_bool c1" "unat s2 + unat c = unat s1 + 2 ^ 64 * of_bool c2"
    using overflowing_sub_val [of a b] overflowing_sub_val [of s1 c] o1 o2 by simp_all
  have lt: "unat a < 2 ^ 64" "unat b < 2 ^ 64" "unat s2 < 2 ^ 64"
    using unat_lt [of a] unat_lt [of b] unat_lt [of s2] by auto
  have le: "unat ?c \<le> 1" "unat ?c = of_bool c1 + of_bool c2"
    using v lt "1.prems"(2) by (cases c1; cases c2; simp)+
  obtain os c' where rec: "sub_limbs ?c as bs = (os, c')" by force
  have "lval os + lval bs + unat ?c = lval as + (2 ^ 64) ^ length as * unat c' \<and> unat c' \<le> 1"
    using "1.IH" [OF o1 [symmetric] refl o2 [symmetric] refl] "1.prems" le(1) rec by simp
  then show ?case
    using o1 o2 rec v le by (simp add: algebra_simps)
qed simp_all

lemma u256_checked_add_Some:
  "u256_checked_add x y = Some z \<longleftrightarrow> uval z = uval x + uval y"
proof -
  obtain os c where r: "add_limbs 0 (limbs x) (limbs y) = (os, c)" by force
  have v: "lval os + 2 ^ 256 * unat c = uval x + uval y" "length os = 4"
    using add_limbs_val [of "limbs x" "limbs y" 0] length_add_limbs [of "limbs x" "limbs y" 0] r
    by (simp_all add: uval_def)
  show ?thesis
  proof (cases "c = 0")
    case True
    with v r show ?thesis
      by (auto simp: u256_checked_add_def uval_inj [symmetric])
  next
    case False
    then have "2 ^ 256 \<le> uval x + uval y" using v(1) by (cases "unat c") (auto simp: unat_eq_0)
    then show ?thesis using False r uval_lt [of z] by (simp add: u256_checked_add_def)
  qed
qed

lemma u256_checked_add_None: "u256_checked_add x y = None \<longleftrightarrow> 2 ^ 256 \<le> uval x + uval y"
proof -
  obtain os c where r: "add_limbs 0 (limbs x) (limbs y) = (os, c)" by force
  have v: "lval os + 2 ^ 256 * unat c = uval x + uval y" "length os = 4"
    using add_limbs_val [of "limbs x" "limbs y" 0] length_add_limbs [of "limbs x" "limbs y" 0] r
    by (simp_all add: uval_def)
  have "lval os < 2 ^ 256" using lval_lt [of os] v(2) by simp
  then show ?thesis using v(1) r
    by (cases "unat c") (auto simp: u256_checked_add_def unat_eq_0)
qed

lemma u256_wrapping_add_val: "uval (u256_wrapping_add x y) = (uval x + uval y) mod 2 ^ 256"
proof -
  obtain os c where r: "add_limbs 0 (limbs x) (limbs y) = (os, c)" by force
  have v: "lval os + 2 ^ 256 * unat c = uval x + uval y" "length os = 4"
    using add_limbs_val [of "limbs x" "limbs y" 0] length_add_limbs [of "limbs x" "limbs y" 0] r
    by (simp_all add: uval_def)
  have "lval os < 2 ^ 256" using lval_lt [of os] v(2) by simp
  then have "(uval x + uval y) mod 2 ^ 256 = lval os" unfolding v(1) [symmetric] by simp
  then show ?thesis using v(2) r by (simp add: u256_wrapping_add_def)
qed

lemma u256_checked_sub_Some:
  "u256_checked_sub x y = Some z \<longleftrightarrow> uval y \<le> uval x \<and> uval z = uval x - uval y"
proof -
  obtain os c where r: "sub_limbs 0 (limbs x) (limbs y) = (os, c)" by force
  have v: "lval os + uval y = uval x + 2 ^ 256 * unat c" "length os = 4"
    using sub_limbs_val [of "limbs x" "limbs y" 0] length_sub_limbs [of "limbs x" "limbs y" 0] r
    by (simp_all add: uval_def)
  have lt: "lval os < 2 ^ 256" using lval_lt [of os] v(2) by simp
  show ?thesis
  proof (cases "c = 0")
    case True
    with v r show ?thesis
      by (auto simp: u256_checked_sub_def uval_inj [symmetric])
  next
    case False
    then have "uval x < uval y" using v(1) lt by (cases "unat c") (auto simp: unat_eq_0)
    then show ?thesis using False r by (simp add: u256_checked_sub_def)
  qed
qed

lemma u256_checked_sub_total: "uval y \<le> uval x \<Longrightarrow> u256_checked_sub x y \<noteq> None"
proof -
  assume le: "uval y \<le> uval x"
  obtain os c where r: "sub_limbs 0 (limbs x) (limbs y) = (os, c)" by force
  have v: "lval os + uval y = uval x + 2 ^ 256 * unat c" "length os = 4"
    using sub_limbs_val [of "limbs x" "limbs y" 0] length_sub_limbs [of "limbs x" "limbs y" 0] r
    by (simp_all add: uval_def)
  have "lval os < 2 ^ 256" using lval_lt [of os] v(2) by simp
  with v(1) le have "unat c = 0" by (cases "unat c") auto
  with r show ?thesis by (simp add: u256_checked_sub_def unat_eq_0)
qed

lemma u256_not_val: "uval (u256_not u) = 2 ^ 256 - 1 - uval u"
proof -
  have "unat (NOT l) + unat l = 2 ^ 64 - 1" for l :: u64
  proof -
    have "NOT l = - 1 - l" by (simp add: not_eq_complement)
    moreover have "unat (- 1 - l) = unat (- 1 :: u64) - unat l" by (rule unat_sub) simp
    moreover have "unat l < 2 ^ 64" using unat_lt [of l] by simp
    ultimately show ?thesis by (simp add: unsigned_minus_1_eq_mask mask_eq_exp_minus_1)
  qed
  note n = this
  show ?thesis
  proof (cases u)
    case (U256 a b c d)
    then show ?thesis using n [of a] n [of b] n [of c] n [of d]
      by (simp add: u256_not_def uval_def of_limbs_def)
  qed
qed

section \<open>Multiplication and division by a scalar\<close>

lemma length_mul_limbs [simp]: "length (fst (mul_limbs m c xs)) = length xs"
  by (induction m c xs rule: mul_limbs.induct) (auto simp: Let_def split: prod.splits)

lemma length_div_limbs [simp]: "length (fst (div_limbs m c xs)) = length xs"
  by (induction m c xs rule: div_limbs.induct) (auto simp: Let_def split: prod.splits)

lemma unat_of_nat_u64: "unat (of_nat p :: u64) = p mod 2 ^ 64"
  by (simp add: unat_of_nat)

lemma mul_limbs_val:
  "lval (fst (mul_limbs m c xs)) + (2 ^ 64) ^ length xs * snd (mul_limbs m c xs) = lval xs * unat m + c"
proof (induction m c xs rule: mul_limbs.induct)
  case (2 m c a as)
  let ?p = "unat a * unat m + c"
  obtain os c' where rec: "mul_limbs m (?p div 2 ^ 64) as = (os, c')" by force
  have ih: "lval os + (2 ^ 64) ^ length as * c' = lval as * unat m + ?p div 2 ^ 64"
    using "2" [OF refl] rec by simp
  have "lval (fst (mul_limbs m c (a # as))) + (2 ^ 64) ^ length (a # as) * snd (mul_limbs m c (a # as))
      = ?p mod 2 ^ 64 + 2 ^ 64 * (lval os + (2 ^ 64) ^ length as * c')"
    using rec by (simp add: Let_def unat_of_nat_u64 algebra_simps del: of_nat_add of_nat_mult)
  also have "\<dots> = ?p mod 2 ^ 64 + 2 ^ 64 * (?p div 2 ^ 64) + 2 ^ 64 * (lval as * unat m)"
    unfolding ih by (simp add: algebra_simps)
  also have "\<dots> = ?p + 2 ^ 64 * (lval as * unat m)"
    by (simp only: mod_mult_div_eq)
  finally show ?case by (simp add: algebra_simps)
qed simp

text \<open>The product of a limb and the scalar plus the carry stays below \<open>2 ^ 128\<close>.\<close>

lemma mul_limbs_u128:
  "c < 2 ^ 64 \<Longrightarrow> unat (a :: u64) * unat (m :: u64) + c < 2 ^ 128 \<and> (unat a * unat m + c) div 2 ^ 64 < 2 ^ 64"
proof -
  assume c: "c < 2 ^ 64"
  have "unat a \<le> 2 ^ 64 - 1" "unat m \<le> 2 ^ 64 - 1" using unat_lt [of a] unat_lt [of m] by auto
  then have "unat a * unat m \<le> (2 ^ 64 - 1) * (2 ^ 64 - 1)" by (rule mult_le_mono)
  with c have "unat a * unat m + c < 2 ^ 128" by simp
  then show ?thesis by (simp add: less_mult_imp_div_less)
qed

lemma u256_checked_mul_u64_Some:
  "u256_checked_mul_u64 x m = Some z \<longleftrightarrow> uval z = uval x * unat m"
proof -
  obtain os c where r: "mul_limbs m 0 (limbs x) = (os, c)" by force
  have v: "lval os + 2 ^ 256 * c = uval x * unat m" "length os = 4"
    using mul_limbs_val [of m 0 "limbs x"] length_mul_limbs [of m 0 "limbs x"] r
    by (simp_all add: uval_def)
  show ?thesis
  proof (cases "c = 0")
    case True
    with v r show ?thesis by (auto simp: u256_checked_mul_u64_def uval_inj [symmetric])
  next
    case False
    then have "2 ^ 256 \<le> uval x * unat m" using v(1) by (cases c) auto
    then show ?thesis using False r uval_lt [of z] by (simp add: u256_checked_mul_u64_def)
  qed
qed

lemma lval_append: "lval (xs @ ys) = lval xs + (2 ^ 64) ^ length xs * lval ys"
  by (induction xs) (simp_all add: algebra_simps)

lemma div_limbs_val:
  assumes "0 < unat m" "r < unat m"
  shows "lval (rev (fst (div_limbs m r xs))) * unat m + snd (div_limbs m r xs)
           = r * (2 ^ 64) ^ length xs + lval (rev xs) \<and> snd (div_limbs m r xs) < unat m"
  using assms
proof (induction m r xs rule: div_limbs.induct)
  case (2 m r a as)
  let ?cur = "r * 2 ^ 64 + unat a"
  obtain os r' where rec: "div_limbs m (?cur mod unat m) as = (os, r')" by force
  have ih: "lval (rev os) * unat m + r' = ?cur mod unat m * (2 ^ 64) ^ length as + lval (rev as)"
    "r' < unat m" "length os = length as"
    using "2.IH" [OF refl] "2.prems" rec length_div_limbs [of m "?cur mod unat m" as] by auto
  have "unat a < 2 ^ 64" using unat_lt [of a] by simp
  moreover have "Suc r * 2 ^ 64 \<le> unat m * 2 ^ 64" using "2.prems"(2) by (intro mult_le_mono1) simp
  ultimately have "?cur < unat m * 2 ^ 64" by simp
  then have q: "?cur div unat m < 2 ^ 64" by (simp add: less_mult_imp_div_less mult.commute)
  have "lval (rev (fst (div_limbs m r (a # as)))) * unat m + r'
      = (lval (rev os) * unat m + r') + (2 ^ 64) ^ length as * (?cur div unat m * unat m)"
    using rec q ih(3) by (simp add: Let_def lval_append unat_of_nat_u64 algebra_simps
        del: of_nat_add of_nat_mult)
  also have "\<dots> = (2 ^ 64) ^ length as * (?cur div unat m * unat m + ?cur mod unat m) + lval (rev as)"
    unfolding ih(1) distrib_left by (simp only: ac_simps)
  also have "\<dots> = r * (2 ^ 64) ^ length (a # as) + lval (rev (a # as))"
    unfolding div_mult_mod_eq by (simp add: lval_append algebra_simps)
  finally show ?case using rec ih(2) by (simp add: Let_def)
qed simp

lemma u256_checked_div_u64_Some:
  "u256_checked_div_u64 x m = Some z \<longleftrightarrow> m \<noteq> 0 \<and> uval z = uval x div unat m"
proof (cases "m = 0")
  case False
  then have pos: "0 < unat m" by (simp add: unat_gt_0)
  let ?d = "div_limbs m 0 (rev (limbs x))"
  have v: "lval (rev (fst ?d)) * unat m + snd ?d = uval x" "snd ?d < unat m"
    using div_limbs_val [OF pos pos, of "rev (limbs x)"] by (simp_all add: uval_def)
  then have "uval x div unat m = lval (rev (fst ?d))"
    using pos by (metis add.commute div_mult_self1_is_m div_mult_self3 div_less add_0 less_not_refl2)
  with False show ?thesis
    by (auto simp: u256_checked_div_u64_def uval_inj [symmetric])
qed (simp add: u256_checked_div_u64_def)

section \<open>Comparison\<close>

lemma cmp_limbs_val:
  assumes "length xs = length ys"
  shows "cmp_limbs xs ys =
    (if lval (rev xs) < lval (rev ys) then Less
     else if lval (rev ys) < lval (rev xs) then Greater else Equal)"
  using assms
proof (induction xs ys rule: cmp_limbs.induct)
  case (1 a as b bs)
  let ?B = "(2 ^ 64) ^ length as :: nat"
  have bnd: "lval (rev as) < ?B" "lval (rev bs) < ?B"
    using lval_lt [of "rev as"] lval_lt [of "rev bs"] "1.prems" by auto
  have mono: "u + ?B * x < v + ?B * y" if "x < y" "u < ?B" for u v x y
  proof -
    have "?B * Suc x \<le> ?B * y" using that(1) by (intro mult_le_mono2) simp
    then show ?thesis using that(2) by simp
  qed
  have app: "lval (rev (a # as)) = lval (rev as) + ?B * unat a"
    "lval (rev (b # bs)) = lval (rev bs) + ?B * unat b"
    using "1.prems" by (simp_all add: lval_append)
  consider "unat a < unat b" | "unat b < unat a" | "unat a = unat b" by linarith
  then show ?case
  proof cases
    case 3
    then have "cmp_limbs (a # as) (b # bs) = cmp_limbs as bs" by simp
    with 3 app "1.IH" "1.prems" show ?thesis by simp
  qed (use app mono bnd less_asym' in \<open>auto simp: not_less_iff_gr_or_eq\<close>)
qed simp_all

lemma u256_cmp_val:
  "u256_cmp x y = (if uval x < uval y then Less else if uval y < uval x then Greater else Equal)"
  using cmp_limbs_val [of "rev (limbs x)" "rev (limbs y)"] by (simp add: u256_cmp_def uval_def)

lemma U256_le_iff [simp]: "x \<le> y \<longleftrightarrow> uval x \<le> uval (y :: U256)"
  by (auto simp: less_eq_U256_def u256_cmp_val)

lemma U256_less_iff [simp]: "x < y \<longleftrightarrow> uval x < uval (y :: U256)"
  by (auto simp: less_U256_def u256_cmp_val)

instance U256 :: linorder
  by standard (auto simp: uval_inj [symmetric])

section \<open>Bits\<close>

lemma bit_lval: "bit (lval xs) i \<longleftrightarrow> i div 64 < length xs \<and> bit (xs ! (i div 64)) (i mod 64)"
proof (induction xs arbitrary: i)
  case (Cons x xs)
  have x: "unat x < 2 ^ 64" using unat_lt [of x] by simp
  have dis: "lval (x # xs) = unat x OR push_bit 64 (lval xs)"
  proof -
    have "\<not> bit (unat x) n" if "64 \<le> n" for n
      using that bit_imp_le_length [of x n] by (auto simp: bit_unsigned_iff)
    then have "unat x + push_bit 64 (lval xs) = unat x OR push_bit 64 (lval xs)"
      by (intro disjunctive_add) (auto simp: bit_push_bit_iff)
    then show ?thesis by (simp add: push_bit_eq_mult mult.commute)
  qed
  show ?case
  proof (cases "i < 64")
    case True
    then show ?thesis unfolding dis by (simp add: bit_or_iff bit_push_bit_iff bit_unsigned_iff)
  next
    case False
    then have "i div 64 = Suc ((i - 64) div 64)" "i mod 64 = (i - 64) mod 64"
      by (simp_all add: le_div_geq le_mod_geq)
    moreover have "\<not> bit x i" using False bit_imp_le_length [of x i] by auto
    ultimately show ?thesis unfolding dis using False Cons.IH
      by (simp add: bit_or_iff bit_push_bit_iff bit_unsigned_iff)
  qed
qed simp

lemma u256_bit_iff: "u256_bit u i \<longleftrightarrow> bit (uval u) i"
proof -
  have "drop_bit n w AND 1 = 1 \<longleftrightarrow> bit w n" for w :: u64 and n
    by (simp add: and_one_eq bit_iff_odd_drop_bit odd_iff_mod_2_eq_one)
  moreover have "i div 64 < 4 \<longleftrightarrow> i < 256" by auto
  ultimately show ?thesis by (auto simp: u256_bit_def uval_def bit_lval not_le)
qed

lemma lval_update:
  "k < length xs \<Longrightarrow> lval (xs[k := w]) + (2 ^ 64) ^ k * unat (xs ! k) = lval xs + (2 ^ 64) ^ k * unat w"
proof (induction xs arbitrary: k)
  case (Cons x xs)
  then show ?case
  proof (cases k)
    case (Suc j)
    with Cons.prems Cons.IH [of j]
    have "2 ^ 64 * (lval (xs[j := w]) + (2 ^ 64) ^ j * unat (xs ! j))
        = 2 ^ 64 * (lval xs + (2 ^ 64) ^ j * unat w)" by simp
    with Suc show ?thesis by (simp add: algebra_simps)
  qed simp
qed simp

lemma unat_or_bit:
  "\<not> bit w j \<Longrightarrow> j < 64 \<Longrightarrow> unat (w OR push_bit j 1 :: u64) = unat w + 2 ^ j"
proof -
  assume nb: "\<not> bit w j" and j: "j < 64"
  have "(2 :: nat) ^ j < 2 ^ 64" using j by (rule power_strict_increasing) simp
  then have p: "unat (push_bit j 1 :: u64) = 2 ^ j"
    using unat_of_nat_u64 [of "2 ^ j"] by simp
  have "unat w + 2 ^ j = unat w OR 2 ^ j"
    using nb by (intro disjunctive_add) (auto simp: bit_exp_iff bit_unsigned_iff)
  then show ?thesis by (simp only: unsigned_or_eq p)
qed

lemma u256_set_bit_val:
  assumes "i < 256" and "\<not> bit (uval u) i"
  shows "uval (u256_set_bit u i) = uval u + 2 ^ i"
proof -
  let ?k = "i div 64" and ?j = "i mod 64"
  have k: "?k < 4" using assms(1) by auto
  then have nb: "\<not> bit (limbs u ! ?k) ?j" using assms(2) by (simp add: uval_def bit_lval)
  have "lval ((limbs u)[?k := limbs u ! ?k OR push_bit ?j 1]) + (2 ^ 64) ^ ?k * unat (limbs u ! ?k)
      = uval u + (2 ^ 64) ^ ?k * (unat (limbs u ! ?k) + 2 ^ ?j)"
    using lval_update [of ?k "limbs u" "limbs u ! ?k OR push_bit ?j 1"] k unat_or_bit [OF nb]
    by (simp add: uval_def)
  moreover have "(2 ^ 64) ^ ?k * 2 ^ ?j = (2 ^ i :: nat)"
    by (simp only: power_mult [symmetric] power_add [symmetric] mult_div_mod_eq)
  ultimately show ?thesis using assms(1)
    by (simp add: u256_set_bit_def distrib_left)
qed

lemma length_shl1_limbs [simp]: "length (fst (shl1_limbs c xs)) = length xs"
  by (induction c xs rule: shl1_limbs.induct) (auto split: prod.splits)

lemma shl1_limb:
  assumes "unat c \<le> 1"
  shows "unat (push_bit 1 a OR c :: u64) + 2 ^ 64 * unat (drop_bit 63 a) = 2 * unat a + unat c"
    and "unat (drop_bit 63 a :: u64) \<le> 1"
proof -
  have a: "unat a < 2 ^ 64" using unat_lt [of a] by simp
  have c: "c = 0 \<or> c = 1" using assms by (auto simp: le_Suc_eq word_unat_eq_iff)
  have d: "unat (drop_bit 63 a) = unat a div 2 ^ 63"
    by (simp add: drop_bit_eq_div unat_div_distrib)
  have p: "unat (push_bit 1 a) = 2 * unat a mod 2 ^ 64"
    by (simp add: push_bit_eq_mult unat_word_ariths mult.commute)
  have e: "even (unat (push_bit 1 a))" unfolding p by (simp add: dvd_mod_iff)
  have "unat (push_bit 1 a OR c) = unat (push_bit 1 a) + unat c"
    using c e by (auto simp: unsigned_or_eq or_Suc_0_eq)
  moreover have "2 * unat a mod 2 ^ 64 + 2 ^ 64 * (unat a div 2 ^ 63) = 2 * unat a"
    using mod_mult_div_eq [of "2 * unat a" "2 ^ 64"] div_mult_mult1 [of 2 "unat a" "2 ^ 63"] by simp
  ultimately show "unat (push_bit 1 a OR c) + 2 ^ 64 * unat (drop_bit 63 a) = 2 * unat a + unat c"
    unfolding p d by simp
  show "unat (drop_bit 63 a) \<le> 1" unfolding d using a by (simp add: less_Suc_eq_le [symmetric] less_mult_imp_div_less)
qed

lemma shl1_limbs_val:
  "unat c \<le> 1 \<Longrightarrow>
   lval (fst (shl1_limbs c xs)) + (2 ^ 64) ^ length xs * unat (snd (shl1_limbs c xs)) = 2 * lval xs + unat c"
proof (induction c xs rule: shl1_limbs.induct)
  case (2 c a as)
  obtain os c' where rec: "shl1_limbs (drop_bit 63 a) as = (os, c')" by force
  have ih: "lval os + (2 ^ 64) ^ length as * unat c' = 2 * lval as + unat (drop_bit 63 a)"
    using "2.IH" shl1_limb(2) [OF "2.prems"] rec by simp
  have "lval (fst (shl1_limbs c (a # as))) + (2 ^ 64) ^ length (a # as) * unat (snd (shl1_limbs c (a # as)))
      = unat (push_bit 1 a OR c) + 2 ^ 64 * (lval os + (2 ^ 64) ^ length as * unat c')"
    using rec by (simp add: distrib_left mult.assoc)
  also have "\<dots> = (unat (push_bit 1 a OR c) + 2 ^ 64 * unat (drop_bit 63 a)) + 2 ^ 64 * (2 * lval as)"
    unfolding ih by (simp add: distrib_left)
  finally show ?case unfolding shl1_limb(1) [OF "2.prems"] by simp
qed simp

lemma u256_shl1_val: "uval u < 2 ^ 255 \<Longrightarrow> uval (u256_shl1 u) = 2 * uval u"
proof -
  assume lt: "uval u < 2 ^ 255"
  obtain os c where r: "shl1_limbs 0 (limbs u) = (os, c)" by force
  have v: "lval os + 2 ^ 256 * unat c = 2 * uval u" "length os = 4"
    using shl1_limbs_val [of 0 "limbs u"] length_shl1_limbs [of 0 "limbs u"] r
    by (simp_all add: uval_def)
  then have "unat c = 0" using lt by (cases "unat c") auto
  with v r show ?thesis by (simp add: u256_shl1_def)
qed

lemma lz_from_bounds:
  assumes "unat w < 2 ^ n"
  shows "lz_from w n \<le> n \<and> unat w < 2 ^ (n - lz_from w n) \<and>
    (w \<noteq> 0 \<longrightarrow> lz_from w n < n \<and> 2 ^ (n - lz_from w n - 1) \<le> unat w)"
  using assms
proof (induction n)
  case 0
  then show ?case by (simp add: unat_eq_0)
next
  case (Suc n)
  have b: "bit w n \<longleftrightarrow> odd (unat w div 2 ^ n)"
    by (simp add: bit_iff_odd [symmetric] bit_unsigned_iff)
  have lt: "unat w div 2 ^ n < 2" using Suc.prems by (simp add: less_mult_imp_div_less)
  show ?case
  proof (cases "bit w n")
    case True
    then have "unat w div 2 ^ n = 1" using b lt by (auto simp: less_2_cases_iff)
    then have "2 ^ n \<le> unat w" by (metis div_less le_less_linear zero_neq_one)
    with True Suc.prems show ?thesis by simp
  next
    case False
    then have "unat w div 2 ^ n = 0" using b lt by (auto simp: less_2_cases_iff)
    then have "unat w < 2 ^ n" by (simp add: div_eq_0_iff)
    with Suc.IH False show ?thesis by (auto simp: Suc_diff_le)
  qed
qed

lemma u256_bits_val:
  "uval u < 2 ^ u256_bits u \<and> (0 < u256_bits u \<longrightarrow> 2 ^ (u256_bits u - 1) \<le> uval u)"
proof -
  have lead: "lval (take i ls) < 2 ^ bits_from ls i \<and>
      (0 < bits_from ls i \<longrightarrow> 2 ^ (bits_from ls i - 1) \<le> lval (take i ls))"
    if "i \<le> length ls" for i ls
    using that
  proof (induction i)
    case (Suc i)
    let ?w = "ls ! i"
    have split: "lval (take (Suc i) ls) = lval (take i ls) + 2 ^ (64 * i) * unat ?w"
      using Suc.prems by (simp add: take_Suc_conv_app_nth lval_append power_mult)
    show ?case
    proof (cases "?w = 0")
      case True
      with Suc split show ?thesis by simp
    next
      case False
      let ?k = "64 - leading_zeros ?w"
      have k: "unat ?w < 2 ^ ?k" "0 < ?k" "2 ^ (?k - 1) \<le> unat ?w"
        using lz_from_bounds [of ?w 64] unat_lt [of ?w] False by (auto simp: leading_zeros_def)
      have low: "lval (take i ls) < 2 ^ (64 * i)"
        using lval_lt [of "take i ls"] Suc.prems by (simp add: power_mult)
      have "2 ^ (64 * i) * Suc (unat ?w) \<le> 2 ^ (64 * i) * 2 ^ ?k"
        using k(1) by (intro mult_le_mono2) simp
      then have "lval (take (Suc i) ls) < 2 ^ (64 * i + ?k)"
        using split low by (simp add: power_add)
      moreover have "2 ^ (64 * i + ?k - 1) \<le> lval (take (Suc i) ls)"
      proof -
        have "(2 :: nat) ^ (64 * i + ?k - 1) = 2 ^ (64 * i) * 2 ^ (?k - 1)"
          using k(2) by (simp add: power_add [symmetric])
        also have "\<dots> \<le> 2 ^ (64 * i) * unat ?w" using k(3) by (rule mult_le_mono2)
        finally show ?thesis using split by linarith
      qed
      ultimately show ?thesis using False by simp
    qed
  qed simp
  show ?thesis using lead [of 4 "limbs u"] by (simp add: u256_bits_def uval_def)
qed

section \<open>Long division\<close>

lemma double_bit_div_mod:
  fixes A Y :: nat
  assumes "0 < Y" and "b \<le> 1"
  shows "(2 * A + b) div Y = 2 * (A div Y) + (if Y \<le> 2 * (A mod Y) + b then 1 else 0)"
    and "(2 * A + b) mod Y = 2 * (A mod Y) + b - (if Y \<le> 2 * (A mod Y) + b then Y else 0)"
proof -
  let ?r = "2 * (A mod Y) + b"
  let ?c = "if Y \<le> ?r then 1 else 0 :: nat"
  have "A = A div Y * Y + A mod Y" by simp
  then have "2 * A + b = 2 * (A div Y) * Y + ?r" by linarith
  moreover have "A mod Y < Y" using assms(1) by simp
  then have "?r - ?c * Y < Y" using assms(2) by auto
  moreover have "?c * Y \<le> ?r" by auto
  ultimately have e: "2 * A + b = (2 * (A div Y) + ?c) * Y + (?r - ?c * Y)" "?r - ?c * Y < Y"
    by (auto simp: algebra_simps)
  show "(2 * A + b) div Y = 2 * (A div Y) + ?c"
    by (rule div_nat_eqI) (use e in \<open>auto simp: algebra_simps split: if_splits\<close>)
  then show "(2 * A + b) mod Y = ?r - (if Y \<le> ?r then Y else 0)"
    using e by (simp add: modulo_nat_def algebra_simps split: if_splits)
qed

lemma div_rem_loop_val:
  assumes "0 < uval y" and "n \<le> 256"
    and "uval r = (uval x div 2 ^ n) mod uval y"
    and "uval q = (uval x div 2 ^ n) div uval y * 2 ^ n"
  shows "\<exists>q' r'. div_rem_loop x y n (q, r) = Ok (q', r') \<and>
    uval q' = uval x div uval y \<and> uval r' = uval x mod uval y"
  using assms(2-)
proof (induction n arbitrary: q r)
  case 0
  then show ?case by simp
next
  case (Suc i)
  let ?A = "uval x div 2 ^ Suc i" and ?N = "uval x div 2 ^ i" and ?Y = "uval y"
  let ?b = "of_bool (bit (uval x) i) :: nat"
  let ?r1 = "u256_shl1 r"
  let ?r2 = "if u256_bit x i then u256_set_bit ?r1 0 else ?r1"
  have half: "?A = ?N div 2" by (simp only: power_Suc2 div_mult2_eq)
  have N: "?N = 2 * ?A + ?b"
    unfolding half bit_iff_odd mod_2_eq_odd [symmetric] by (rule mult_div_mod_eq [symmetric])
  have "uval r \<le> ?A" using Suc.prems(2) by simp
  also have "?A \<le> uval x div 2" by (simp add: div_le_mono2 div_mult2_eq)
  also have "\<dots> < 2 ^ 255" using uval_lt [of x] by simp
  finally have r1: "uval ?r1 = 2 * uval r" by (rule u256_shl1_val)
  then have "\<not> bit (uval ?r1) 0" by (simp add: bit_0)
  then have r2: "uval ?r2 = 2 * (?A mod ?Y) + ?b"
    using u256_set_bit_val [of 0 ?r1] r1 Suc.prems(2) by (simp add: u256_bit_iff)
  have b: "?b \<le> 1" by simp
  note dm = double_bit_div_mod [OF assms(1) b, of ?A, folded N]
  show ?case
  proof (cases "y \<le> ?r2")
    case True
    then have ge: "?Y \<le> 2 * (?A mod ?Y) + ?b" using r2 by simp
    obtain r3 where r3: "u256_checked_sub ?r2 y = Some r3"
      using True u256_checked_sub_Some [of ?r2 y "the (u256_checked_sub ?r2 y)"]
      by (metis U256_le_iff not_None_eq option.sel u256_checked_sub_total)
    then have v3: "uval r3 = ?N mod ?Y"
      using u256_checked_sub_Some r2 dm(2) ge by auto
    have "\<not> bit (uval q) i"
      unfolding Suc.prems(3) by (simp add: bit_iff_odd mult.assoc [symmetric])
    then have "uval (u256_set_bit q i) = uval q + 2 ^ i"
      using Suc.prems(1) by (intro u256_set_bit_val) auto
    then have vq: "uval (u256_set_bit q i) = ?N div ?Y * 2 ^ i"
      using dm(1) ge Suc.prems(3) by (simp add: algebra_simps)
    have "div_rem_loop x y (Suc i) (q, r) = div_rem_loop x y i (u256_set_bit q i, r3)"
      using True r3 by (simp add: Let_def)
    then show ?thesis using Suc.IH [OF _ v3 vq] Suc.prems(1) by simp
  next
    case False
    then have lt: "\<not> ?Y \<le> 2 * (?A mod ?Y) + ?b" using r2 by simp
    have v2: "uval ?r2 = ?N mod ?Y" using dm(2) lt r2 by simp
    have vq: "uval q = ?N div ?Y * 2 ^ i" using dm(1) lt Suc.prems(3) by simp
    have "div_rem_loop x y (Suc i) (q, r) = div_rem_loop x y i (q, ?r2)"
      using False by (simp add: Let_def)
    then show ?thesis using Suc.IH [OF _ v2 vq] Suc.prems(1) by simp
  qed
qed

lemma u256_div_rem_val:
  assumes "0 < uval y"
  shows "\<exists>q r. u256_div_rem x y = Ok (q, r) \<and> uval q = uval x div uval y \<and> uval r = uval x mod uval y"
proof -
  have "uval x div 2 ^ 256 = 0" using uval_lt [of x] by simp
  then show ?thesis
    using div_rem_loop_val [OF assms, of 256 U256_ZERO x U256_ZERO] assms
    by (simp add: u256_div_rem_def)
qed

section \<open>Big-endian bytes\<close>

lemma le_val_append: "le_val (xs @ ys) = le_val xs + 256 ^ length xs * le_val ys"
  by (induction xs) (simp_all add: algebra_simps)

lemma be_val_append: "be_val (xs @ ys) = be_val xs * 256 ^ length ys + be_val ys"
  by (simp add: be_val_def le_val_append)

lemma be_val_lt: "be_val xs < 256 ^ length xs"
  using le_val_bound [of "rev xs"] by (simp add: be_val_def)

lemma unat_of_nat_be8: "length xs \<le> 8 \<Longrightarrow> unat (of_nat (be_val xs) :: u64) = be_val xs"
proof -
  assume "length xs \<le> 8"
  then have "(256 :: nat) ^ length xs \<le> 256 ^ 8" by (intro power_increasing) simp_all
  with be_val_lt [of xs] show ?thesis by (simp add: unat_of_nat_u64)
qed

lemma u256_from_be_bytes_val:
  assumes "length b = 32"
  shows "uval (u256_from_be_bytes b) = be_val b"
proof -
  let ?c = "\<lambda>i. take 8 (drop (i * 8) b)"
  have "b = ?c 0 @ ?c 1 @ ?c 2 @ ?c 3"
    using take_add [of 8 24 b] take_add [of 8 16 "drop 8 b"] take_add [of 8 8 "drop 16 b"] assms
    by simp
  then have "be_val b = be_val (?c 0 @ ?c 1 @ ?c 2 @ ?c 3)" by simp
  also have "\<dots> = ((be_val (?c 0) * 2 ^ 64 + be_val (?c 1)) * 2 ^ 64 + be_val (?c 2)) * 2 ^ 64 + be_val (?c 3)"
    using assms by (simp add: be_val_append algebra_simps del: mult_0)
  also have "\<dots> = lval (map (\<lambda>i. of_nat (be_val (?c i))) [3, 2, 1, 0])"
    by (simp add: unat_of_nat_be8)
  finally have "be_val b = lval (map (\<lambda>i. of_nat (be_val (?c i))) [3, 2, 1, 0])" .
  moreover have "rev [0..<4] = [3, 2, 1, 0 :: nat]" by code_simp
  ultimately show ?thesis
    by (simp add: u256_from_be_bytes_def rev_map)
qed

lemma length_u256_to_be_bytes [simp]: "length (u256_to_be_bytes u) = 32"
  by (cases u) (simp add: u256_to_be_bytes_def)

lemma be_bytes8_unat: "be_val (be_bytes 8 (unat (l :: u64))) = unat l"
  using unat_lt [of l] by (simp add: be_val_be_bytes)

lemma u256_to_be_bytes_val: "be_val (u256_to_be_bytes u) = uval u"
  by (cases u) (simp add: u256_to_be_bytes_def uval_def be_val_append be_bytes8_unat)

lemma u256_be_bytes_roundtrip [codec]: "u256_from_be_bytes (u256_to_be_bytes u) = u"
  by (simp add: uval_inj [symmetric] u256_from_be_bytes_val u256_to_be_bytes_val)

lemma uval_surj: "v < 2 ^ 256 \<Longrightarrow> \<exists>u. uval u = v"
proof -
  assume "v < 2 ^ 256"
  then have "uval (u256_from_be_bytes (be_bytes 32 v)) = v"
    by (simp add: u256_from_be_bytes_val be_val_be_bytes)
  then show ?thesis by blast
qed

lemma be_val_inj: "length xs = length ys \<Longrightarrow> be_val xs = be_val ys \<Longrightarrow> xs = ys"
  by (metis be_bytes_be_val)

lemma u256_to_from_be_bytes [codec]: "length b = 32 \<Longrightarrow> u256_to_be_bytes (u256_from_be_bytes b) = b"
  by (rule be_val_inj) (simp_all add: u256_to_be_bytes_val u256_from_be_bytes_val)

section \<open>Properties\<close>

text \<open>The limb-by-limb operations are exact: each checked operation returns the result of the
  natural numbers exactly when it fits in 256 bits and \<open>None\<close> otherwise, wrapping addition is
  addition modulo \<open>2 ^ 256\<close>, and the comparison from the top limb is the comparison of the values.\<close>

theorem u256_arith_exact:
  "(u256_checked_add x y = Some z \<longleftrightarrow> uval z = uval x + uval y) \<and>
   (u256_checked_add x y = None \<longleftrightarrow> 2 ^ 256 \<le> uval x + uval y) \<and>
   uval (u256_wrapping_add x y) = (uval x + uval y) mod 2 ^ 256 \<and>
   (u256_checked_sub x y = Some z \<longleftrightarrow> uval y \<le> uval x \<and> uval z = uval x - uval y) \<and>
   (u256_checked_mul_u64 x m = Some z \<longleftrightarrow> uval z = uval x * unat m) \<and>
   (u256_checked_div_u64 x m = Some z \<longleftrightarrow> m \<noteq> 0 \<and> uval z = uval x div unat m) \<and>
   (x < y \<longleftrightarrow> uval x < uval y)"
  by (simp add: u256_checked_add_Some u256_checked_add_None u256_wrapping_add_val
      u256_checked_sub_Some u256_checked_mul_u64_Some u256_checked_div_u64_Some)

text \<open>C12. The binary long division ends on every non-zero divisor without reaching its \<open>expect\<close>, with
  the quotient and the remainder of the natural numbers: the shift of the remainder never loses a
  bit, even for a divisor above \<open>2 ^ 255\<close>.\<close>

theorem u256_div_rem_correct:
  "(case u256_div_rem x y of
      Ok (q, r) \<Rightarrow> uval y \<noteq> 0 \<and> uval q = uval x div uval y \<and> uval r = uval x mod uval y
    | Err e \<Rightarrow> uval y = 0
    | Panic \<Rightarrow> False)"
proof (cases "uval y = 0")
  case True
  then show ?thesis by (simp add: u256_div_rem_def)
next
  case False
  then have "0 < uval y" by simp
  with u256_div_rem_val [OF this, of x] show ?thesis by auto
qed

end
