(* ===== verification/Muhash.thy ===== *)
theory Muhash
  imports Hashing Uint256 "HOL-Library.Multiset"
begin

text \<open>
  MuHash (\<open>src/src/muhash.rs\<close>): the 3072-bit arithmetic limb by limb, the group element of a piece of
  data, and the accumulator with its numerator and denominator.

  A number is the list of its 48 limbs, least significant first, and \<open>lval\<close> is its value. The
  \<open>u128\<close> intermediates are natural numbers: \<open>mul_step_fits\<close> shows that they stay below \<open>2 ^ 128\<close>. An
  index past the end of an array is \<open>None\<close>; the lemmas show that no multiplication of 48-limb numbers
  reaches it. The primality of the modulus is not proved: what the division needs of it is a
  hypothesis on the denominator at hand.
\<close>

type_synonym num3072 = "u64 list"

section \<open>The arithmetic\<close>

definition LIMBS :: nat where
  "LIMBS = 48"

definition MU_C :: u64 where
  "MU_C = 1103717"

definition P_LIMBS :: num3072 where
  "P_LIMBS = (- 1 - (MU_C - 1)) # replicate 47 (- 1)"

definition EXP_INVERSE :: num3072 where
  "EXP_INVERSE = (- 1 - (MU_C + 1)) # replicate 47 (- 1)"

definition num_one :: num3072 where
  "num_one = 1 # replicate 47 0"

definition num_is_one :: "num3072 \<Rightarrow> bool" where
  "num_is_one n \<longleftrightarrow> n ! 0 = 1 \<and> list_all (\<lambda>l. l = 0) (drop 1 n)"

fun add_scalar :: "num3072 \<Rightarrow> u64 \<Rightarrow> num3072 \<times> u64" where
  "add_scalar [] carry = ([], carry)"
| "add_scalar (l # ls) carry =
     (if unat l + unat carry < 2 ^ 64 then ((l + carry) # ls, 0)
      else let (r, c) = add_scalar ls 1 in ((l + carry) # r, c))"

fun add_assign_from :: "num3072 \<Rightarrow> num3072 \<Rightarrow> nat \<Rightarrow> num3072 \<times> nat" where
  "add_assign_from (l # ls) (a # as) carry =
     (let s = unat l + unat a + carry;
          (r, c) = add_assign_from ls as (s div 2 ^ 64)
      in (of_nat s # r, c))"
| "add_assign_from ls as carry = (ls, carry)"

definition add_assign :: "num3072 \<Rightarrow> num3072 \<Rightarrow> num3072 \<times> u64" where
  "add_assign ls other = (let (r, c) = add_assign_from ls other 0 in (r, of_nat c))"

fun geq_high :: "u64 list \<Rightarrow> u64 list \<Rightarrow> bool" where
  "geq_high (l # ls) (p # ps) = (if l \<noteq> p then l > p else geq_high ls ps)"
| "geq_high ls ps = True"

definition geq_p :: "num3072 \<Rightarrow> bool" where
  "geq_p ls = geq_high (rev ls) (rev P_LIMBS)"

definition reduce_once :: "num3072 \<Rightarrow> num3072" where
  "reduce_once ls = (if geq_p ls then fst (add_scalar ls MU_C) else ls)"

text \<open>The carry loop of a row of \<open>mul_wide\<close>, from \<open>k = i + LIMBS\<close> upwards.\<close>

fun carry_up :: "u64 list \<Rightarrow> nat \<Rightarrow> u64 list option" where
  "carry_up os carry =
     (if carry = 0 then Some os
      else case os of
        [] \<Rightarrow> None
      | l # ls \<Rightarrow> let cur = unat l + carry
                 in map_option ((#) (of_nat cur)) (carry_up ls (cur div 2 ^ 64)))"

declare carry_up.simps [simp del]

text \<open>One row: the inner loop over \<open>j\<close> on the part of \<open>out\<close> from \<open>i\<close> upwards, then the carry loop.\<close>

fun mul_row :: "u64 list \<Rightarrow> u64 \<Rightarrow> u64 list \<Rightarrow> nat \<Rightarrow> u64 list option" where
  "mul_row out ai [] carry = carry_up out carry"
| "mul_row [] ai (b # bs) carry = None"
| "mul_row (l # ls) ai (b # bs) carry =
     (let cur = unat l + unat ai * unat b + carry
      in map_option ((#) (of_nat cur)) (mul_row ls ai bs (cur div 2 ^ 64)))"

fun mul_rows :: "nat \<Rightarrow> u64 list \<Rightarrow> u64 list \<Rightarrow> u64 list \<Rightarrow> u64 list option" where
  "mul_rows i out [] b = Some out"
| "mul_rows i out (ai # as) b =
     Option.bind (mul_row (drop i out) ai b 0) (\<lambda>r. mul_rows (Suc i) (take i out @ r) as b)"

definition mul_wide :: "num3072 \<Rightarrow> num3072 \<Rightarrow> u64 list option" where
  "mul_wide a b = mul_rows 0 (replicate (2 * LIMBS) 0) a b"

text \<open>\<open>C * high\<close>, limb by limb, with its carry.\<close>

fun mul_c :: "u64 list \<Rightarrow> nat \<Rightarrow> u64 list \<times> nat" where
  "mul_c [] carry = ([], carry)"
| "mul_c (h # hs) carry =
     (let cur = unat MU_C * unat h + carry;
          (r, c) = mul_c hs (cur div 2 ^ 64)
      in (of_nat cur # r, c))"

text \<open>The folding loop; a loop that does not end is \<open>None\<close>.\<close>

partial_function (option) fold_over :: "num3072 \<Rightarrow> u64 \<Rightarrow> num3072 option" where
  "fold_over low over =
     (if over = 0 then Some low
      else let r = add_scalar low (MU_C * over) in fold_over (fst r) (snd r))"

definition reduce_wide :: "u64 list \<Rightarrow> num3072 option" where
  "reduce_wide product =
     (let (ch, carry) = mul_c (drop LIMBS product) 0;
          (low, c) = add_assign (take LIMBS product) ch;
          over = (of_nat carry :: u64)
      in if unat over + unat c < 2 ^ 64 then map_option reduce_once (fold_over low (over + c)) else None)"

text \<open>\<open>Num3072::mul\<close>; the empty list stands for a panic, which \<open>num_mul_val\<close> excludes.\<close>

definition num_mul :: "num3072 \<Rightarrow> num3072 \<Rightarrow> num3072" where
  "num_mul a b = (case Option.bind (mul_wide a b) reduce_wide of None \<Rightarrow> [] | Some r \<Rightarrow> r)"

definition pow_step :: "num3072 \<Rightarrow> bool \<Rightarrow> num3072 \<Rightarrow> num3072" where
  "pow_step base b result = (let r = num_mul result result in if b then num_mul r base else r)"

definition limb_bits :: "u64 \<Rightarrow> bool list" where
  "limb_bits e = map (bit e) (rev [0..<64])"

definition num_pow :: "num3072 \<Rightarrow> num3072 \<Rightarrow> num3072" where
  "num_pow base ex = fold (pow_step base) (concat (map limb_bits (rev ex))) num_one"

definition num_inverse :: "num3072 \<Rightarrow> num3072" where
  "num_inverse n = (if num_is_one n then num_one else num_pow n EXP_INVERSE)"

definition from_wide_bytes :: "byte list \<Rightarrow> num3072" where
  "from_wide_bytes bs =
     (let ls = reduce_once (map (\<lambda>i. u64_from_le (take 8 (drop (i * 8) bs))) [0..<LIMBS])
      in if list_all (\<lambda>l. l = 0) ls then num_one else ls)"

definition num_to_bytes :: "num3072 \<Rightarrow> byte list" where
  "num_to_bytes n = concat (map u64_le n)"

section \<open>The accumulator\<close>

definition TAG_ELEMENT :: string where
  "TAG_ELEMENT = ''Q21/muhash/element''"

definition TAG_EXPANSION :: string where
  "TAG_EXPANSION = ''Q21/muhash/expansion''"

definition TAG_COMMITMENT :: string where
  "TAG_COMMITMENT = ''Q21/muhash/commitment''"

definition mu_element :: "byte list \<Rightarrow> num3072" where
  "mu_element data =
     (let seed = tagged_hash TAG_ELEMENT data
      in from_wide_bytes (concat (map (\<lambda>i. tagged_hash_parts TAG_EXPANSION [seed, [of_nat i]]) [0..<12])))"

record muhash =
  mu_num :: num3072
  mu_den :: num3072

definition mu_new :: muhash where
  "mu_new = \<lparr>mu_num = num_one, mu_den = num_one\<rparr>"

definition mu_insert :: "muhash \<Rightarrow> byte list \<Rightarrow> muhash" where
  "mu_insert m data = m\<lparr>mu_num := num_mul (mu_num m) (mu_element data)\<rparr>"

definition mu_remove :: "muhash \<Rightarrow> byte list \<Rightarrow> muhash" where
  "mu_remove m data = m\<lparr>mu_den := num_mul (mu_den m) (mu_element data)\<rparr>"

definition mu_combine :: "muhash \<Rightarrow> muhash \<Rightarrow> muhash" where
  "mu_combine m m' =
     \<lparr>mu_num = num_mul (mu_num m) (mu_num m'), mu_den = num_mul (mu_den m) (mu_den m')\<rparr>"

definition mu_digest_with_tag :: "muhash \<Rightarrow> string \<Rightarrow> hash256" where
  "mu_digest_with_tag m tag =
     (let accumulated = (if num_is_one (mu_den m) then mu_num m
                         else num_mul (mu_num m) (num_inverse (mu_den m)))
      in tagged_hash tag (num_to_bytes accumulated))"

definition mu_digest :: "muhash \<Rightarrow> hash256" where
  "mu_digest m = mu_digest_with_tag m TAG_COMMITMENT"

section \<open>Values of limb lists\<close>

definition MU_P :: nat where
  "MU_P = 2 ^ 3072 - 1103717"

lemma lval_bound: "lval ls < 2 ^ (64 * length ls)"
  using lval_lt [of ls] by (simp add: power_mult)

lemma lval_app: "lval (xs @ ys) = lval xs + 2 ^ (64 * length xs) * lval ys"
  using lval_append [of xs ys] by (simp add: power_mult)

lemma limb_split: "unat (of_nat s :: u64) + 2 ^ 64 * (s div 2 ^ 64) = s"
  by (simp only: unat_of_nat_u64 mod_mult_div_eq)

lemma add_scalar_val:
  "add_scalar ls c = (r, d) \<Longrightarrow> length r = length ls \<and> lval r + 2 ^ (64 * length ls) * unat d = lval ls + unat c \<and>
     (ls \<noteq> [] \<longrightarrow> unat d \<le> 1)"
proof (induction ls c arbitrary: r d rule: add_scalar.induct)
  case (2 l ls c)
  show ?case
  proof (cases "unat l + unat c < 2 ^ 64")
    case True
    then have "unat (l + c) = unat l + unat c" by (simp add: unat_add_lem [symmetric])
    then show ?thesis using 2(2) True by auto
  next
    case False
    obtain q e where qe: "add_scalar ls 1 = (q, e)" by (cases "add_scalar ls 1")
    have u: "unat (l + c) + 2 ^ 64 = unat l + unat c"
      using False unat_lt [of l] unat_lt [of c] by (simp add: unat_word_ariths mod_if) linarith
    have e: "unat e \<le> 1"
    proof (cases ls)
      case Nil
      then have "e = 1" using qe by simp
      then show ?thesis by simp
    qed (use 2(1) [OF False qe] in auto)
    have "length q = length ls" "lval q + 2 ^ (64 * length ls) * unat e = lval ls + 1"
      using 2(1) [OF False qe] by simp_all
    moreover have "r = (l + c) # q" "d = e" using 2(2) False qe by simp_all
    ultimately show ?thesis using u e by (simp add: power_add algebra_simps)
  qed
qed simp

lemma add_assign_from_val:
  "length as = length ls \<Longrightarrow> carry \<le> 1 \<Longrightarrow> add_assign_from ls as carry = (r, d) \<Longrightarrow>
     length r = length ls \<and> lval r + 2 ^ (64 * length ls) * d = lval ls + lval as + carry \<and> d \<le> 1"
proof (induction ls as carry arbitrary: r d rule: add_assign_from.induct)
  case (1 l ls a as carry)
  let ?s = "unat l + unat a + carry"
  obtain q e where qe: "add_assign_from ls as (?s div 2 ^ 64) = (q, e)"
    by (cases "add_assign_from ls as (?s div 2 ^ 64)")
  have "?s div 2 ^ 64 \<le> 1"
    using unat_lt [of l] unat_lt [of a] 1(3) by simp
  then have ih: "length q = length ls" "lval q + 2 ^ (64 * length ls) * e = lval ls + lval as + ?s div 2 ^ 64" "e \<le> 1"
    using 1(1) [OF refl _ _ qe] 1(2) by simp_all
  moreover have "r = of_nat ?s # q" "d = e" using 1(4) qe by (simp_all add: Let_def)
  ultimately show ?case using limb_split [of ?s] by (simp add: power_add algebra_simps)
qed auto


lemma add_assign_val:
  "length as = length ls \<Longrightarrow> add_assign ls as = (r, d) \<Longrightarrow>
     length r = length ls \<and> lval r + 2 ^ (64 * length ls) * unat d = lval ls + lval as \<and> unat d \<le> 1"
proof -
  assume len: "length as = length ls" and e: "add_assign ls as = (r, d)"
  obtain q c where qc: "add_assign_from ls as 0 = (q, c)" by (cases "add_assign_from ls as 0")
  have v: "length q = length ls" "lval q + 2 ^ (64 * length ls) * c = lval ls + lval as + 0" "c \<le> 1"
    using add_assign_from_val [OF len _ qc] by simp_all
  then have "unat (of_nat c :: u64) = c" by (simp only: unat_of_nat_u64) simp
  moreover have "r = q" "d = of_nat c" using e qc by (simp_all add: add_assign_def)
  ultimately show ?thesis using v by simp
qed

lemma geq_high_val: "length hs = length ks \<Longrightarrow> geq_high hs ks \<longleftrightarrow> lval (rev ks) \<le> lval (rev hs)"
proof (induction hs ks rule: list_induct2)
  case (Cons h hs k ks)
  let ?b = "2 ^ (64 * length hs) :: nat"
  have lt: "lval (rev hs) < ?b" "lval (rev ks) < ?b"
    using lval_bound [of "rev hs"] lval_bound [of "rev ks"] Cons by simp_all
  have v: "lval (rev (h # hs)) = lval (rev hs) + ?b * unat h" "lval (rev (k # ks)) = lval (rev ks) + ?b * unat k"
    using Cons by (simp_all add: lval_app)
  show ?case
  proof (cases "h = k")
    case True
    then show ?thesis using Cons v by simp
  next
    case False
    have step: "u + ?b * x < w + ?b * y" if "x < y" "u < ?b" for u w x y :: nat
    proof -
      have "u + ?b * x < ?b * Suc x" using that by simp
      also have "\<dots> \<le> ?b * y" using that by (intro mult_le_mono2) simp
      finally show ?thesis by simp
    qed
    consider "unat h < unat k" | "unat k < unat h" using False by (metis linorder_neqE_nat word_unat_eq_iff)
    then show ?thesis
    proof cases
      case 1
      then have "lval (rev (h # hs)) < lval (rev (k # ks))" unfolding v using lt(1) by (rule step)
      then show ?thesis using 1 False by (simp add: word_less_nat_alt)
    next
      case 2
      then have "lval (rev (k # ks)) < lval (rev (h # hs))" unfolding v using lt(2) by (rule step)
      then show ?thesis using 2 False by (simp add: word_less_nat_alt)
    qed
  qed
qed simp

lemma lval_ones: "lval (replicate n (- 1)) + 1 = 2 ^ (64 * n)"
proof (induction n)
  case (Suc n)
  have "lval (replicate (Suc n) (- 1)) + 1 = 2 ^ 64 * (lval (replicate n (- 1)) + 1)"
    by (simp add: unsigned_minus_1_eq_mask mask_eq_exp_minus_1)
  then show ?case by (simp only: Suc power_add [symmetric]) (simp add: power_add)
qed simp

lemma lval_zeros [simp]: "lval (replicate n 0) = 0"
  by (induction n) auto

lemma MU_P_eq: "MU_P + 1103717 = 2 ^ 3072"
  by (simp add: MU_P_def)

lemma MU_P_C: "1103717 < MU_P"
  by (simp add: MU_P_def)

lemma lval_P_LIMBS: "lval P_LIMBS = MU_P"
proof -
  have "unat (- 1 - (MU_C - 1) :: u64) + 1103717 = 2 ^ 64" by (simp add: MU_C_def)
  moreover have "lval (replicate 47 (- 1)) + 1 = 2 ^ (64 * 47)" by (rule lval_ones)
  ultimately have "lval P_LIMBS + 1103717 = 2 ^ 3072" by (simp add: P_LIMBS_def)
  then show ?thesis using MU_P_eq by linarith
qed

lemma geq_p_val: "length ls = LIMBS \<Longrightarrow> geq_p ls \<longleftrightarrow> MU_P \<le> lval ls"
  unfolding geq_p_def using geq_high_val [of "rev ls" "rev P_LIMBS"] lval_P_LIMBS
  by (simp add: LIMBS_def P_LIMBS_def)

lemma reduce_once_val:
  assumes "length ls = LIMBS"
  shows "length (reduce_once ls) = LIMBS \<and> lval (reduce_once ls) = lval ls mod MU_P"
proof (cases "geq_p ls")
  case True
  then have ge: "MU_P \<le> lval ls" using geq_p_val [OF assms] by simp
  obtain r d where rd: "add_scalar ls MU_C = (r, d)" by (cases "add_scalar ls MU_C")
  have v: "length r = length ls" "lval r + 2 ^ 3072 * unat d = lval ls + 1103717" "unat d \<le> 1"
    using add_scalar_val [OF rd] assms by (auto simp: LIMBS_def MU_C_def)
  have lt: "lval r < 2 ^ 3072" "lval ls < 2 ^ 3072"
    using lval_bound [of r] lval_bound [of ls] v assms by (simp_all add: LIMBS_def)
  have "unat d \<noteq> 0"
  proof
    assume "unat d = 0"
    then have "lval r = lval ls + 1103717" using v(2) by (simp only: mult_0_right add_0_right)
    then show False using lt(1) ge MU_P_eq by linarith
  qed
  then have "unat d = 1" using v(3) by linarith
  then have "lval r + 2 ^ 3072 = lval ls + 1103717" using v(2) by (simp only: mult_1_right)
  then have "lval r = lval ls - MU_P" using MU_P_eq ge by linarith
  moreover have "lval ls - MU_P < MU_P" using lt(2) ge MU_P_C unfolding MU_P_eq [symmetric] by linarith
  ultimately show ?thesis using True rd v(1) assms ge by (simp add: reduce_once_def le_mod_geq)
qed (use geq_p_val [OF assms] assms in \<open>simp add: reduce_once_def\<close>)

section \<open>The multiplication\<close>

lemma mul_step_fits: "l + a * b + c < 2 ^ 128 \<and> (l + a * b + c) div 2 ^ 64 < 2 ^ 64"
  if "l < 2 ^ 64" "a < 2 ^ 64" "b < 2 ^ 64" "c < 2 ^ 64" for l a b c :: nat
proof -
  have "a * b \<le> (2 ^ 64 - 1) * (2 ^ 64 - 1)" using that by (intro mult_le_mono) simp_all
  then have "l + a * b + c < 2 ^ 64 * 2 ^ 64" using that by simp
  then show ?thesis by (auto simp: power_add [symmetric] intro: less_mult_imp_div_less)
qed

lemma carry_fits: "u + b * x < b * y \<Longrightarrow> u div b + x < y" for u b x y :: nat
proof -
  assume "u + b * x < b * y"
  then have "(u + b * x) div b < y" by (metis less_mult_imp_div_less mult.commute)
  moreover have "0 < b" using \<open>u + b * x < b * y\<close> by (cases b) auto
  ultimately show ?thesis by (simp add: div_mult_self2)
qed

lemma carry_up_val:
  "lval os + c < 2 ^ (64 * length os) \<Longrightarrow>
   \<exists>r. carry_up os c = Some r \<and> length r = length os \<and> lval r = lval os + c"
proof (induction os arbitrary: c)
  case Nil
  then show ?case by (simp add: carry_up.simps)
next
  case (Cons l ls)
  let ?u = "unat l + c"
  have "?u + 2 ^ 64 * lval ls < 2 ^ 64 * 2 ^ (64 * length ls)" using Cons.prems by (simp add: power_add)
  then have "lval ls + ?u div 2 ^ 64 < 2 ^ (64 * length ls)"
    using carry_fits [of ?u "2 ^ 64" "lval ls" "2 ^ (64 * length ls)"] by (simp only: add.commute)
  from Cons.IH [OF this] obtain r where
    "carry_up ls (?u div 2 ^ 64) = Some r" "length r = length ls" "lval r = lval ls + ?u div 2 ^ 64" by blast
  then show ?case using limb_split [of ?u]
    by (simp add: carry_up.simps [of "l # ls"] Let_def distrib_left)
qed

lemma mul_row_val:
  "length bs \<le> length os \<Longrightarrow> lval os + unat ai * lval bs + c < 2 ^ (64 * length os) \<Longrightarrow>
   \<exists>r. mul_row os ai bs c = Some r \<and> length r = length os \<and> lval r = lval os + unat ai * lval bs + c"
proof (induction os ai bs c rule: mul_row.induct)
  case (1 out ai c)
  then show ?case using carry_up_val [of out c] by simp
next
  case (3 l ls ai b bs c)
  let ?u = "unat l + unat ai * unat b + c"
  have e: "lval (l # ls) + unat ai * lval (b # bs) + c = ?u + 2 ^ 64 * (lval ls + unat ai * lval bs)"
    by (simp add: algebra_simps)
  then have "?u + 2 ^ 64 * (lval ls + unat ai * lval bs) < 2 ^ 64 * 2 ^ (64 * length ls)"
    using 3(3) by (simp add: power_add)
  then have "lval ls + unat ai * lval bs + ?u div 2 ^ 64 < 2 ^ (64 * length ls)"
    using carry_fits [of ?u "2 ^ 64" "lval ls + unat ai * lval bs" "2 ^ (64 * length ls)"]
    by (simp only: add.commute)
  then obtain r where r: "mul_row ls ai bs (?u div 2 ^ 64) = Some r" "length r = length ls"
      "lval r = lval ls + unat ai * lval bs + ?u div 2 ^ 64"
    using 3(1) [OF refl] 3(2) by auto
  moreover have "lval (of_nat ?u # r) = lval (l # ls) + unat ai * lval (b # bs) + c"
    unfolding e using r(3) limb_split [of ?u] by (simp add: distrib_left)
  ultimately show ?case by (simp add: Let_def)
qed simp

lemma lval_take_drop: "i \<le> length xs \<Longrightarrow> lval (take i xs) + 2 ^ (64 * i) * lval (drop i xs) = lval xs"
  using lval_app [of "take i xs" "drop i xs"] by (simp add: min_absorb2)

lemma mul_rows_val:
  "i + length as + length b \<le> length out \<Longrightarrow>
   lval out + 2 ^ (64 * i) * (lval as * lval b) < 2 ^ (64 * length out) \<Longrightarrow>
   \<exists>r. mul_rows i out as b = Some r \<and> length r = length out \<and>
       lval r = lval out + 2 ^ (64 * i) * (lval as * lval b)"
proof (induction as arbitrary: i out)
  case (Cons a as)
  let ?p = "2 ^ (64 * i) :: nat"
  have i: "i \<le> length out" and len: "length b \<le> length (drop i out)" using Cons.prems(1) by simp_all
  have e: "?p * (lval (a # as) * lval b) = ?p * (unat a * lval b) + 2 ^ (64 * Suc i) * (lval as * lval b)"
    by (simp add: power_add algebra_simps)
  have pw: "(2 ^ (64 * length out) :: nat) = ?p * 2 ^ (64 * (length out - i))"
    using i by (simp add: power_add [symmetric] right_diff_distrib')
  have "lval (take i out) + ?p * (lval (drop i out) + unat a * lval b) < ?p * 2 ^ (64 * (length out - i))"
    using Cons.prems(2) lval_take_drop [OF i] unfolding e pw by (simp add: distrib_left)
  then have "lval (drop i out) + unat a * lval b + 0 < 2 ^ (64 * length (drop i out))"
    using carry_fits [of "lval (take i out)" ?p] by fastforce
  then obtain r where r: "mul_row (drop i out) a b 0 = Some r" "length r = length out - i"
      "lval r = lval (drop i out) + unat a * lval b"
    using mul_row_val [of b "drop i out" a 0] len by auto
  have v: "lval (take i out @ r) = lval out + ?p * (unat a * lval b)"
    using lval_take_drop [OF i] r(3) i by (simp add: lval_app min_absorb2 distrib_left)
  have "\<exists>q. mul_rows (Suc i) (take i out @ r) as b = Some q \<and> length q = length (take i out @ r) \<and>
       lval q = lval (take i out @ r) + 2 ^ (64 * Suc i) * (lval as * lval b)"
    using Cons.prems r(2) i e v by (intro Cons.IH) (simp_all add: min_absorb2)
  then show ?case using r i unfolding v e by (auto simp: min_absorb2 add.assoc)
qed simp

lemma mul_wide_val:
  assumes "length a = LIMBS" "length b = LIMBS"
  shows "\<exists>r. mul_wide a b = Some r \<and> length r = 2 * LIMBS \<and> lval r = lval a * lval b"
proof -
  have "lval a * lval b < 2 ^ (64 * LIMBS) * 2 ^ (64 * LIMBS)"
    using lval_bound [of a] lval_bound [of b] assms by (intro mult_strict_mono) simp_all
  also have "\<dots> = 2 ^ (64 * (2 * LIMBS))" by (simp only: power_add [symmetric]) (simp add: LIMBS_def)
  finally show ?thesis
    using mul_rows_val [of 0 a b "replicate (2 * LIMBS) 0"] assms by (simp add: mul_wide_def)
qed

lemma mul_c_val:
  "mul_c hs c = (r, d) \<Longrightarrow> c < 1103717 \<Longrightarrow>
   length r = length hs \<and> lval r + 2 ^ (64 * length hs) * d = 1103717 * lval hs + c \<and> d < 1103717"
proof (induction hs c arbitrary: r d rule: mul_c.induct)
  case (2 h hs c)
  let ?u = "unat MU_C * unat h + c"
  obtain q e where qe: "mul_c hs (?u div 2 ^ 64) = (q, e)" by (cases "mul_c hs (?u div 2 ^ 64)")
  have C: "unat MU_C = 1103717" by (simp add: MU_C_def)
  have "?u < 1103717 * 2 ^ 64" using unat_lt [of h] 2(3) by (simp add: C)
  then have "?u div 2 ^ 64 < 1103717" by (rule less_mult_imp_div_less)
  then have "length q = length hs" "lval q + 2 ^ (64 * length hs) * e = 1103717 * lval hs + ?u div 2 ^ 64"
      "e < 1103717"
    using 2(1) [OF refl qe] by simp_all
  moreover have "r = of_nat ?u # q" "d = e" using 2(2) qe by (simp_all add: Let_def)
  ultimately show ?case using limb_split [of ?u] by (simp add: power_add algebra_simps C)
qed simp

lemma fold_mod: "(x + 2 ^ 3072 * k) mod MU_P = (x + 1103717 * k) mod MU_P"
proof -
  have "x + 2 ^ 3072 * k = (x + 1103717 * k) + MU_P * k"
    unfolding MU_P_eq [symmetric] by (simp only: algebra_simps)
  then show ?thesis by (simp only: mod_mult_self2)
qed

lemma fold_over_val:
  assumes len: "length low = LIMBS" and ov: "unat over \<le> 1103717"
  shows "\<exists>r. fold_over low over = Some r \<and> length r = LIMBS \<and>
    lval r mod MU_P = (lval low + 2 ^ 3072 * unat over) mod MU_P"
proof (cases "over = 0")
  case True
  then show ?thesis using len by (simp add: fold_over.simps)
next
  case False
  have m: "unat (MU_C * k) = 1103717 * unat k" if "unat k \<le> 1103717" for k :: u64
    using that by (simp add: unat_word_ariths MU_C_def)
  obtain l1 o1 where s1: "add_scalar low (MU_C * over) = (l1, o1)" by (cases "add_scalar low (MU_C * over)")
  have ne: "low \<noteq> []" using len by (auto simp: LIMBS_def)
  have v1: "length l1 = LIMBS" "lval l1 + 2 ^ 3072 * unat o1 = lval low + 1103717 * unat over" "unat o1 \<le> 1"
    using add_scalar_val [OF s1] len m [OF ov] ne by (simp_all add: LIMBS_def)
  have w1: "(lval l1 + 2 ^ 3072 * unat o1) mod MU_P = (lval low + 2 ^ 3072 * unat over) mod MU_P"
    unfolding v1(2) fold_mod by (rule refl)
  show ?thesis
  proof (cases "o1 = 0")
    case True
    then show ?thesis using False s1 v1(1) w1 by (simp add: fold_over.simps)
  next
    case o1: False
    then have one: "unat o1 = 1" using v1(3) by (metis le_neq_implies_less less_one unat_eq_zero)
    obtain l2 o2 where s2: "add_scalar l1 (MU_C * o1) = (l2, o2)" by (cases "add_scalar l1 (MU_C * o1)")
    have v2: "length l2 = LIMBS" "lval l2 + 2 ^ 3072 * unat o2 = lval l1 + 1103717"
      using add_scalar_val [OF s2] v1(1) m [of o1] one by (simp_all add: LIMBS_def)
    have "lval low < 2 ^ 3072" using lval_bound [of low] len by (simp add: LIMBS_def)
    moreover have "lval l1 + 2 ^ 3072 = lval low + 1103717 * unat over" using v1(2) one by (simp only: mult_1_right)
    ultimately have "lval l1 + 1103717 < 1103717 * 1103717 + 1103717" using ov by linarith
    also have "\<dots> < 2 ^ 3072" by simp
    finally have "2 ^ 3072 * unat o2 < 2 ^ 3072 * 1" using v2(2) by linarith
    then have z: "unat o2 = 0" by (simp only: nat_mult_less_cancel_disj) linarith
    have "fold_over low over = Some l2"
      using False o1 z s1 s2 by (simp add: fold_over.simps unat_eq_zero)
    moreover have "lval l2 mod MU_P = (lval l1 + 2 ^ 3072 * unat o1) mod MU_P"
      using v2(2) z unfolding fold_mod one by (simp only: mult_0_right add_0_right mult_1_right)
    ultimately show ?thesis using v2(1) w1 by simp
  qed
qed

lemma reduce_wide_val:
  assumes "length w = 2 * LIMBS"
  shows "\<exists>r. reduce_wide w = Some r \<and> length r = LIMBS \<and> lval r = lval w mod MU_P"
proof -
  obtain ch d where c: "mul_c (drop LIMBS w) 0 = (ch, d)" by (cases "mul_c (drop LIMBS w) 0")
  have vc: "length ch = LIMBS" "lval ch + 2 ^ 3072 * d = 1103717 * lval (drop LIMBS w)" "d < 1103717"
    using mul_c_val [OF c] assms by (simp_all add: LIMBS_def)
  obtain low e where a: "add_assign (take LIMBS w) ch = (low, e)" by (cases "add_assign (take LIMBS w) ch")
  have va: "length low = LIMBS" "lval low + 2 ^ 3072 * unat e = lval (take LIMBS w) + lval ch" "unat e \<le> 1"
    using add_assign_val [OF _ a] assms vc(1) by (simp_all add: LIMBS_def)
  have ud: "unat (of_nat d :: u64) = d" using vc(3) by (simp only: unat_of_nat_u64) simp
  have sum: "unat (of_nat d + e :: u64) = d + unat e"
    using ud va(3) vc(3) by (simp add: unat_word_ariths)
  obtain r where r: "fold_over low (of_nat d + e) = Some r" "length r = LIMBS"
      "lval r mod MU_P = (lval low + 2 ^ 3072 * unat (of_nat d + e :: u64)) mod MU_P"
    using fold_over_val [of low "of_nat d + e"] va(1,3) vc(3) sum by fastforce
  have "lval low + 2 ^ 3072 * unat (of_nat d + e :: u64) = (lval low + 2 ^ 3072 * unat e) + 2 ^ 3072 * d"
    unfolding sum by (simp only: algebra_simps)
  also have "\<dots> = lval (take LIMBS w) + (lval ch + 2 ^ 3072 * d)" unfolding va(2) by linarith
  also have "\<dots> = lval (take LIMBS w) + 1103717 * lval (drop LIMBS w)" by (simp only: vc(2))
  finally have "lval r mod MU_P = (lval (take LIMBS w) + 2 ^ 3072 * lval (drop LIMBS w)) mod MU_P"
    using r(3) by (simp only: fold_mod)
  also have "\<dots> = lval w mod MU_P"
    using lval_take_drop [of LIMBS w] assms by (simp add: LIMBS_def)
  finally show ?thesis
    using r(1,2) c a ud va(3) vc(3) reduce_once_val [OF r(2)] by (simp add: reduce_wide_def)
qed

lemma num_mul_val:
  assumes "length a = LIMBS" "length b = LIMBS"
  shows "length (num_mul a b) = LIMBS \<and> lval (num_mul a b) = lval a * lval b mod MU_P"
proof -
  obtain w where w: "mul_wide a b = Some w" "length w = 2 * LIMBS" "lval w = lval a * lval b"
    using mul_wide_val [OF assms] by blast
  obtain r where "reduce_wide w = Some r" "length r = LIMBS" "lval r = lval w mod MU_P"
    using reduce_wide_val [OF w(2)] by blast
  with w show ?thesis by (simp add: num_mul_def)
qed

section \<open>Powers, inverses and elements\<close>

definition bits_val :: "nat \<Rightarrow> bool list \<Rightarrow> nat" where
  "bits_val k bs = foldl (\<lambda>a b. 2 * a + of_bool b) k bs"

lemma bits_val_limb: "bits_val k (limb_bits e) = k * 2 ^ 64 + unat e"
proof -
  have "bits_val k (map (bit e) (rev [0..<n])) = k * 2 ^ n + take_bit n (unat e)" for n
  proof (induction n arbitrary: k)
    case (Suc n)
    have "bit (unat e) n = bit e n" by (simp add: bit_unsigned_iff impossible_bit)
    then show ?case using Suc [of "2 * k + of_bool (bit e n)"]
      by (simp add: bits_val_def take_bit_Suc_from_most algebra_simps)
  qed (simp add: bits_val_def)
  moreover have "take_bit 64 (unat e) = unat e" using unat_lt [of e] by (simp add: take_bit_nat_eq_self)
  ultimately show ?thesis by (simp add: limb_bits_def)
qed

lemma bits_val_append: "bits_val k (xs @ ys) = bits_val (bits_val k xs) ys"
  by (simp add: bits_val_def)

lemma bits_val_limbs: "bits_val k (concat (map limb_bits (rev ex))) = k * 2 ^ (64 * length ex) + lval ex"
proof (induction ex arbitrary: k)
  case (Cons e ex)
  then show ?case by (simp add: bits_val_append bits_val_limb power_add algebra_simps)
qed (simp add: bits_val_def)

lemma num_one_val [simp]: "length num_one = LIMBS" "lval num_one = 1"
  by (simp_all add: num_one_def LIMBS_def)

lemma one_mod_P [simp]: "1 mod MU_P = 1" "Suc 0 mod MU_P = Suc 0" "MU_P \<noteq> Suc 0"
  using MU_P_C by simp_all

lemma pow_step_val:
  assumes "length base = LIMBS" "length r = LIMBS" "lval r = lval base ^ k mod MU_P"
  shows "length (pow_step base b r) = LIMBS \<and>
    lval (pow_step base b r) = lval base ^ (2 * k + of_bool b) mod MU_P"
proof -
  let ?q = "num_mul r r"
  have q: "length ?q = LIMBS" "lval ?q = lval base ^ (2 * k) mod MU_P"
    using num_mul_val [OF assms(2,2)] assms(3) by (simp_all add: mult_2 power_add mod_mult_eq)
  show ?thesis
    using q num_mul_val [OF q(1) assms(1)] by (auto simp: pow_step_def Let_def mod_simps mult.commute)
qed

lemma fold_pow_val:
  "length base = LIMBS \<Longrightarrow> length r = LIMBS \<Longrightarrow> lval r = lval base ^ k mod MU_P \<Longrightarrow>
   length (fold (pow_step base) bs r) = LIMBS \<and>
   lval (fold (pow_step base) bs r) = lval base ^ bits_val k bs mod MU_P"
proof (induction bs arbitrary: r k)
  case (Cons b bs)
  show ?case
    using Cons.IH [OF Cons.prems(1), of "pow_step base b r" "2 * k + of_bool b"] pow_step_val [OF Cons.prems]
    by (simp add: bits_val_def)
qed (simp add: bits_val_def)

lemma num_pow_val:
  "length base = LIMBS \<Longrightarrow> length ex = LIMBS \<Longrightarrow>
   length (num_pow base ex) = LIMBS \<and> lval (num_pow base ex) = lval base ^ lval ex mod MU_P"
  using fold_pow_val [of base num_one 0 "concat (map limb_bits (rev ex))"] bits_val_limbs [of 0 ex]
  by (simp add: num_pow_def)

lemma lval_EXP_INVERSE: "lval EXP_INVERSE = MU_P - 2"
proof -
  have "unat (- 1 - (MU_C + 1) :: u64) + 1103719 = 2 ^ 64" by (simp add: MU_C_def)
  moreover have "lval (replicate 47 (- 1)) + 1 = 2 ^ (64 * 47)" by (rule lval_ones)
  ultimately have "lval EXP_INVERSE + 1103719 = 2 ^ 3072" by (simp add: EXP_INVERSE_def)
  then show ?thesis using MU_P_eq by linarith
qed

lemma list_all_zero_val: "list_all (\<lambda>l. l = 0) ls \<longleftrightarrow> lval ls = 0"
  by (induction ls) (auto simp: unat_eq_zero)

lemma num_is_one_val: "length n = LIMBS \<Longrightarrow> num_is_one n \<longleftrightarrow> lval n = 1"
proof -
  assume len: "length n = LIMBS"
  then obtain l ls where n: "n = l # ls" by (cases n) (auto simp: LIMBS_def)
  have "lval n = 1 \<longleftrightarrow> unat l = 1 \<and> lval ls = 0" unfolding n by (auto simp: add_is_1)
  also have "unat l = 1 \<longleftrightarrow> l = 1" by (metis unat_1 word_unat_eq_iff)
  finally show ?thesis unfolding n num_is_one_def using list_all_zero_val [of ls] by simp
qed

text \<open>Fermat's little theorem at \<open>n\<close> is what makes the power an inverse.\<close>

lemma num_inverse_val:
  assumes "length n = LIMBS" "lval n ^ (MU_P - 1) mod MU_P = 1"
  shows "length (num_inverse n) = LIMBS \<and> lval n * lval (num_inverse n) mod MU_P = 1"
proof (cases "num_is_one n")
  case True
  then show ?thesis using num_is_one_val [OF assms(1)] by (simp add: num_inverse_def)
next
  case False
  have e: "Suc (MU_P - 2) = MU_P - 1" using MU_P_C by linarith
  have v: "length (num_pow n EXP_INVERSE) = LIMBS" "lval (num_pow n EXP_INVERSE) = lval n ^ (MU_P - 2) mod MU_P"
    using num_pow_val [OF assms(1), of EXP_INVERSE] lval_EXP_INVERSE by (simp_all add: EXP_INVERSE_def LIMBS_def)
  have "lval n * lval (num_pow n EXP_INVERSE) mod MU_P = lval n ^ Suc (MU_P - 2) mod MU_P"
    unfolding v(2) by (simp add: mod_mult_right_eq)
  then show ?thesis using False v(1) assms(2) unfolding e by (simp add: num_inverse_def)
qed

lemma from_wide_bytes_val:
  "length (from_wide_bytes bs) = LIMBS \<and> 0 < lval (from_wide_bytes bs) \<and> lval (from_wide_bytes bs) < MU_P"
proof -
  let ?l = "reduce_once (map (\<lambda>i. u64_from_le (take 8 (drop (i * 8) bs))) [0..<LIMBS])"
  have "length ?l = LIMBS" "lval ?l < MU_P"
    using reduce_once_val [of "map (\<lambda>i. u64_from_le (take 8 (drop (i * 8) bs))) [0..<LIMBS]"] MU_P_C by simp_all
  then show ?thesis using MU_P_C list_all_zero_val [of ?l] by (auto simp: from_wide_bytes_def Let_def)
qed

lemma mu_element_val:
  "length (mu_element d) = LIMBS \<and> 0 < lval (mu_element d) \<and> lval (mu_element d) < MU_P"
  unfolding mu_element_def Let_def by (rule from_wide_bytes_val)

section \<open>The commitment of a multiset\<close>

text \<open>The value of an accumulator that has seen insertions \<open>xs\<close> and removals \<open>ys\<close>.\<close>

definition elems_val :: "byte list list \<Rightarrow> nat" where
  "elems_val xs = prod_list (map (\<lambda>d. lval (mu_element d)) xs)"

text \<open>\<open>mu_commits m xs\<close>: the fraction of \<open>m\<close> is the product of the elements of \<open>xs\<close>.\<close>

definition mu_commits :: "muhash \<Rightarrow> byte list list \<Rightarrow> bool" where
  "mu_commits m xs \<longleftrightarrow> length (mu_num m) = LIMBS \<and> length (mu_den m) = LIMBS \<and>
     lval (mu_num m) < MU_P \<and> lval (mu_den m) < MU_P \<and>
     lval (mu_num m) mod MU_P = lval (mu_den m) * elems_val xs mod MU_P"

lemma mu_commits_new: "mu_commits mu_new []"
  using MU_P_C by (simp add: mu_commits_def mu_new_def elems_val_def)

lemma mu_commits_insert: "mu_commits m xs \<Longrightarrow> mu_commits (mu_insert m d) (d # xs)"
proof -
  assume m: "mu_commits m xs"
  let ?e = "lval (mu_element d)"
  have v: "length (num_mul (mu_num m) (mu_element d)) = LIMBS"
      "lval (num_mul (mu_num m) (mu_element d)) = lval (mu_num m) * ?e mod MU_P"
    using num_mul_val [of "mu_num m" "mu_element d"] m mu_element_val [of d] by (simp_all add: mu_commits_def)
  have "lval (mu_num m) * ?e mod MU_P = (lval (mu_den m) * elems_val xs mod MU_P) * ?e mod MU_P"
    using m unfolding mu_commits_def by (metis mod_mult_left_eq)
  also have "\<dots> = lval (mu_den m) * elems_val (d # xs) mod MU_P"
    by (simp add: mod_simps elems_val_def ac_simps)
  finally show ?thesis using m v MU_P_C by (simp add: mu_commits_def mu_insert_def)
qed

lemma mu_commits_remove: "mu_commits m (d # xs) \<Longrightarrow> mu_commits (mu_remove m d) xs"
proof -
  assume m: "mu_commits m (d # xs)"
  let ?e = "lval (mu_element d)"
  have v: "length (num_mul (mu_den m) (mu_element d)) = LIMBS"
      "lval (num_mul (mu_den m) (mu_element d)) = lval (mu_den m) * ?e mod MU_P"
    using num_mul_val [of "mu_den m" "mu_element d"] m mu_element_val [of d] by (simp_all add: mu_commits_def)
  have "lval (mu_num m) mod MU_P = lval (mu_den m) * (?e * elems_val xs) mod MU_P"
    using m by (simp add: mu_commits_def elems_val_def)
  also have "\<dots> = (lval (mu_den m) * ?e mod MU_P) * elems_val xs mod MU_P"
    by (simp add: mod_simps ac_simps)
  finally show ?thesis using m v MU_P_C by (simp add: mu_commits_def mu_remove_def)
qed

lemma elems_val_perm: "mset xs = mset ys \<Longrightarrow> elems_val xs = elems_val ys"
proof -
  assume "mset xs = mset ys"
  then have "mset (map (\<lambda>d. lval (mu_element d)) xs) = mset (map (\<lambda>d. lval (mu_element d)) ys)"
    by (simp only: mset_map)
  then show ?thesis unfolding elems_val_def by (simp only: prod_mset_prod_list [symmetric])
qed

lemma mu_commits_perm: "mset xs = mset ys \<Longrightarrow> mu_commits m xs = mu_commits m ys"
  unfolding mu_commits_def using elems_val_perm by metis

definition mu_accumulated :: "muhash \<Rightarrow> num3072" where
  "mu_accumulated m = (if num_is_one (mu_den m) then mu_num m else num_mul (mu_num m) (num_inverse (mu_den m)))"

lemma mu_digest_eq: "mu_digest m = tagged_hash TAG_COMMITMENT (num_to_bytes (mu_accumulated m))"
  by (simp add: mu_digest_def mu_digest_with_tag_def mu_accumulated_def)

lemma mu_accumulated_val:
  assumes m: "mu_commits m xs" and fermat: "lval (mu_den m) ^ (MU_P - 1) mod MU_P = 1"
  shows "length (mu_accumulated m) = LIMBS \<and> lval (mu_accumulated m) = elems_val xs mod MU_P"
proof (cases "num_is_one (mu_den m)")
  case True
  then show ?thesis using m num_is_one_val [of "mu_den m"] by (auto simp: mu_accumulated_def mu_commits_def)
next
  case False
  have len: "length (mu_num m) = LIMBS" "length (mu_den m) = LIMBS" using m by (simp_all add: mu_commits_def)
  have i: "length (num_inverse (mu_den m)) = LIMBS" "lval (mu_den m) * lval (num_inverse (mu_den m)) mod MU_P = 1"
    using num_inverse_val [OF len(2) fermat] by simp_all
  have "lval (mu_num m) * lval (num_inverse (mu_den m)) mod MU_P =
      (lval (mu_den m) * elems_val xs mod MU_P) * lval (num_inverse (mu_den m)) mod MU_P"
    using m unfolding mu_commits_def by (metis mod_mult_left_eq)
  also have "\<dots> = (lval (mu_den m) * lval (num_inverse (mu_den m)) mod MU_P) * elems_val xs mod MU_P"
    by (simp add: mod_simps ac_simps)
  also have "\<dots> = elems_val xs mod MU_P" unfolding i(2) by simp
  finally show ?thesis using False num_mul_val [OF len(1) i(1)] by (simp add: mu_accumulated_def)
qed

text \<open>Two accumulators that commit to the same multiset have the same digest.\<close>

lemma mu_digest_unique:
  assumes "mu_commits m xs" "mu_commits m' ys" "mset xs = mset ys"
    and "lval (mu_den m) ^ (MU_P - 1) mod MU_P = 1" "lval (mu_den m') ^ (MU_P - 1) mod MU_P = 1"
  shows "mu_digest m = mu_digest m'"
proof -
  have "mu_accumulated m = mu_accumulated m'"
    using mu_accumulated_val [OF assms(1,4)] mu_accumulated_val [OF assms(2,5)] elems_val_perm [OF assms(3)]
    by (intro lval_inj) simp_all
  then show ?thesis by (simp add: mu_digest_eq)
qed

end
