(* ===== verification/Utxo.thy ===== *)
theory Utxo
  imports Names Muhash
begin

text \<open>
  The set of unspent outputs (\<open>src/src/utxo.rs\<close>): the map, the three derived structures that
  \<open>insert\<close> and \<open>remove\<close> keep beside it (the index by key hash, the MuHash accumulator, the registry
  of names), the application of a transaction with its undo record, and the queries. A \<open>HashSet\<close> is
  a list without repetition.

  \<open>utxo_inv\<close> says that the derived structures are those of the map. The interface that validation
  reads, \<open>UtxoView\<close>, is the record \<open>utxo_view\<close>; the laws of the set as a map are the
  locale \<open>utxo_store\<close>.
\<close>

record utxo_entry =
  ue_output :: txout
  ue_height :: nat
  ue_is_coinbase :: bool

record utxo_set =
  u_map :: "(outpoint, utxo_entry) hmap"
  u_by_pubkey_hash :: "(hash256, outpoint list) hmap"
  u_muhash :: muhash
  u_names :: name_index

record undo_record =
  undo_spent :: "(outpoint \<times> utxo_entry) list"
  undo_created :: "outpoint list"

text \<open>The trait \<open>UtxoView\<close>: the three questions validation asks.\<close>

record utxo_view =
  view_lookup :: "outpoint \<Rightarrow> utxo_entry option"
  view_name_by_skeleton :: "byte list \<Rightarrow> byte list option"
  view_names_owned :: "hash256 \<Rightarrow> nat"

definition utxo_new :: utxo_set where
  "utxo_new = \<lparr>u_map = [], u_by_pubkey_hash = [], u_muhash = mu_new, u_names = names_empty\<rparr>"

definition undo_new :: undo_record where
  "undo_new = \<lparr>undo_spent = [], undo_created = []\<rparr>"

definition utxo_len :: "utxo_set \<Rightarrow> nat" where
  "utxo_len s = length (u_map s)"

definition utxo_get :: "utxo_set \<Rightarrow> outpoint \<Rightarrow> utxo_entry option" where
  "utxo_get s op = hget (u_map s) op"

definition utxo_contains :: "utxo_set \<Rightarrow> outpoint \<Rightarrow> bool" where
  "utxo_contains s op \<longleftrightarrow> utxo_get s op \<noteq> None"

definition set_view :: "utxo_set \<Rightarrow> utxo_view" where
  "set_view s = \<lparr>view_lookup = utxo_get s, view_name_by_skeleton = names_by_skeleton (u_names s),
     view_names_owned = names_owned (u_names s)\<rparr>"

text \<open>The 86-byte element; the height is a \<open>u64\<close>.\<close>

definition serialized_element :: "outpoint \<Rightarrow> utxo_entry \<Rightarrow> byte list" where
  "serialized_element op e =
     op_txid op @ w_u32 (op_index op) @ w_u64 (amt (out_value (ue_output e)))
     @ w_u8 (scheme_as_u8 (out_scheme (ue_output e))) @ out_pubkey_hash (ue_output e)
     @ w_u64 (of_nat (ue_height e)) @ w_u8 (if ue_is_coinbase e then 1 else 0)"

section \<open>Insertion and removal\<close>

definition next_index :: "outpoint \<Rightarrow> outpoint option" where
  "next_index op = (if op_index op = - 1 then None else Some (op\<lparr>op_index := op_index op + 1\<rparr>))"

definition prev_index :: "outpoint \<Rightarrow> outpoint option" where
  "prev_index op = (if op_index op = 0 then None else Some (op\<lparr>op_index := op_index op - 1\<rparr>))"

definition name_pair :: "outpoint \<Rightarrow> utxo_entry \<Rightarrow> (outpoint \<times> outpoint) option" where
  "name_pair op e =
     (case out_scheme (ue_output e) of
        NameTag \<Rightarrow> map_option (\<lambda>key. (op, key)) (next_index op)
      | NameKey \<Rightarrow> map_option (\<lambda>tag. (tag, op)) (prev_index op)
      | _ \<Rightarrow> None)"

definition index_name :: "utxo_set \<Rightarrow> outpoint \<Rightarrow> utxo_entry \<Rightarrow> utxo_set" where
  "index_name s op e =
     (case name_pair op e of
        None \<Rightarrow> s
      | Some (tag, key) \<Rightarrow>
          (case (hget (u_map s) tag, hget (u_map s) key) of
             (Some t, Some k) \<Rightarrow>
               if out_scheme (ue_output t) \<noteq> NameTag \<or> out_scheme (ue_output k) \<noteq> NameKey then s
               else s\<lparr>u_names := names_add (u_names s) tag (out_pubkey_hash (ue_output t))
                                   (out_pubkey_hash (ue_output k)) (ue_height t)\<rparr>
           | _ \<Rightarrow> s))"

definition unindex_name :: "utxo_set \<Rightarrow> outpoint \<Rightarrow> utxo_entry \<Rightarrow> utxo_set" where
  "unindex_name s op e =
     (case name_pair op e of
        None \<Rightarrow> s
      | Some (tag, key) \<Rightarrow> s\<lparr>u_names := names_remove_tag (u_names s) tag\<rparr>)"

definition unindex :: "utxo_set \<Rightarrow> hash256 \<Rightarrow> outpoint \<Rightarrow> utxo_set" where
  "unindex s key_hash op =
     (case hget (u_by_pubkey_hash s) key_hash of
        None \<Rightarrow> s
      | Some l \<Rightarrow>
          let l' = remove1 op l
          in s\<lparr>u_by_pubkey_hash := (if l' = [] then hdel key_hash (u_by_pubkey_hash s)
                                    else hput key_hash l' (u_by_pubkey_hash s))\<rparr>)"

definition index_key :: "utxo_set \<Rightarrow> hash256 \<Rightarrow> outpoint \<Rightarrow> utxo_set" where
  "index_key s key_hash op =
     s\<lparr>u_by_pubkey_hash :=
         hput key_hash (List.insert op (case hget (u_by_pubkey_hash s) key_hash of None \<Rightarrow> [] | Some l \<Rightarrow> l))
           (u_by_pubkey_hash s)\<rparr>"

definition utxo_insert :: "utxo_set \<Rightarrow> outpoint \<Rightarrow> utxo_entry \<Rightarrow> utxo_set" where
  "utxo_insert s op e =
     (let key_hash = out_pubkey_hash (ue_output e);
          s1 = s\<lparr>u_map := hput op e (u_map s)\<rparr>;
          s2 = (case hget (u_map s) op of
                  None \<Rightarrow> s1
                | Some previous \<Rightarrow>
                    let s1 = s1\<lparr>u_muhash := mu_remove (u_muhash s1) (serialized_element op previous)\<rparr>
                    in if is_name (out_scheme (ue_output previous)) then unindex_name s1 op previous
                       else if out_pubkey_hash (ue_output previous) \<noteq> key_hash \<or> is_name (out_scheme (ue_output e))
                       then unindex s1 (out_pubkey_hash (ue_output previous)) op
                       else s1);
          s3 = s2\<lparr>u_muhash := mu_insert (u_muhash s2) (serialized_element op e)\<rparr>
      in if is_name (out_scheme (ue_output e)) then index_name s3 op e else index_key s3 key_hash op)"

definition utxo_remove :: "utxo_set \<Rightarrow> outpoint \<Rightarrow> utxo_set \<times> utxo_entry option" where
  "utxo_remove s op =
     (case hget (u_map s) op of
        None \<Rightarrow> (s, None)
      | Some v \<Rightarrow>
          let s1 = s\<lparr>u_map := hdel op (u_map s), u_muhash := mu_remove (u_muhash s) (serialized_element op v)\<rparr>
          in (if is_name (out_scheme (ue_output v)) then unindex_name s1 op v
              else unindex s1 (out_pubkey_hash (ue_output v)) op, Some v))"

section \<open>Blocks forwards and backwards\<close>

fun spend_inputs :: "utxo_set \<Rightarrow> undo_record \<Rightarrow> txin list \<Rightarrow> utxo_set \<times> undo_record" where
  "spend_inputs s u [] = (s, u)"
| "spend_inputs s u (i # is) =
     (case utxo_remove s (prev_out i) of
        (s', Some e) \<Rightarrow> spend_inputs s' (u\<lparr>undo_spent := undo_spent u @ [(prev_out i, e)]\<rparr>) is
      | (s', None) \<Rightarrow> spend_inputs s' u is)"

fun create_outputs ::
  "hash256 \<Rightarrow> nat \<Rightarrow> bool \<Rightarrow> nat \<Rightarrow> utxo_set \<Rightarrow> undo_record \<Rightarrow> txout list \<Rightarrow> utxo_set \<times> undo_record" where
  "create_outputs tid height coinbase i s u [] = (s, u)"
| "create_outputs tid height coinbase i s u (out # outs) =
     (let op = \<lparr>op_txid = tid, op_index = of_nat i\<rparr>
      in create_outputs tid height coinbase (Suc i)
           (utxo_insert s op \<lparr>ue_output = out, ue_height = height, ue_is_coinbase = coinbase\<rparr>)
           (u\<lparr>undo_created := undo_created u @ [op]\<rparr>) outs)"

definition apply_transaction ::
  "utxo_set \<Rightarrow> transaction \<Rightarrow> nat \<Rightarrow> undo_record \<Rightarrow> utxo_set \<times> undo_record" where
  "apply_transaction s t height u =
     (let coinbase = tx_is_coinbase t;
          (s1, u1) = (if coinbase then (s, u) else spend_inputs s u (tx_inputs t))
      in create_outputs (txid t) height coinbase 0 s1 u1 (tx_outputs t))"

text \<open>A block's transactions in order, as \<open>Chain::connect\<close> applies them.\<close>

fun apply_transactions ::
  "utxo_set \<Rightarrow> undo_record \<Rightarrow> nat \<Rightarrow> transaction list \<Rightarrow> utxo_set \<times> undo_record" where
  "apply_transactions s u height [] = (s, u)"
| "apply_transactions s u height (t # ts) =
     (let (s', u') = apply_transaction s t height u in apply_transactions s' u' height ts)"

definition remove_all :: "utxo_set \<Rightarrow> outpoint list \<Rightarrow> utxo_set" where
  "remove_all s ops = foldl (\<lambda>s op. fst (utxo_remove s op)) s ops"

definition utxo_undo :: "utxo_set \<Rightarrow> undo_record \<Rightarrow> utxo_set" where
  "utxo_undo s r =
     foldl (\<lambda>s (op, e). if op \<in> set (undo_created r) then s else utxo_insert s op e)
       (remove_all s (undo_created r)) (undo_spent r)"

section \<open>Queries\<close>

text \<open>\<open>total_value\<close>; \<open>None\<close> is the failed \<open>expect\<close>.\<close>

definition utxo_total_value :: "utxo_set \<Rightarrow> amount option" where
  "utxo_total_value s = checked_sum (map (\<lambda>(op, e). out_value (ue_output e)) (u_map s))"

definition utxo_commitment :: "utxo_set \<Rightarrow> hash256" where
  "utxo_commitment s = mu_digest (u_muhash s)"

definition utxo_commitment_with_tag :: "utxo_set \<Rightarrow> string \<Rightarrow> hash256" where
  "utxo_commitment_with_tag s tag = mu_digest_with_tag (u_muhash s) tag"

definition recomputed_commitment :: "utxo_set \<Rightarrow> hash256" where
  "recomputed_commitment s = mu_digest (foldl (\<lambda>mu (op, e). mu_insert mu (serialized_element op e)) mu_new (u_map s))"

definition utxo_points :: "utxo_set \<Rightarrow> hash256 \<Rightarrow> outpoint list" where
  "utxo_points s kh = (case hget (u_by_pubkey_hash s) kh of None \<Rightarrow> [] | Some l \<Rightarrow> l)"

definition utxo_knows :: "utxo_set \<Rightarrow> hash256 \<Rightarrow> bool" where
  "utxo_knows s kh = (case hget (u_by_pubkey_hash s) kh of None \<Rightarrow> False | Some l \<Rightarrow> l \<noteq> [])"

text \<open>The loop of \<open>balance_of\<close>; its counter stays below the number of outputs of the set.\<close>

definition balance_step :: "utxo_set \<Rightarrow> (utxo_entry \<Rightarrow> bool) \<Rightarrow> nat \<times> nat \<Rightarrow> outpoint \<Rightarrow> nat \<times> nat" where
  "balance_step s p acc op =
     (case hget (u_map s) op of
        None \<Rightarrow> acc
      | Some e \<Rightarrow> if p e then (sat_add64 (fst acc) (units (out_value (ue_output e))), snd acc + 1) else acc)"

definition balance_of :: "utxo_set \<Rightarrow> hash256 \<Rightarrow> nat \<times> nat" where
  "balance_of s kh = foldl (balance_step s (\<lambda>_. True)) (0, 0) (utxo_points s kh)"

definition balance_of_scheme :: "utxo_set \<Rightarrow> hash256 \<Rightarrow> SchemeId \<Rightarrow> nat \<times> nat" where
  "balance_of_scheme s kh scheme =
     foldl (balance_step s (\<lambda>e. out_scheme (ue_output e) = scheme)) (0, 0) (utxo_points s kh)"

text \<open>The order of outpoints: transaction ids as byte strings, then the index.\<close>

definition outpoint_key :: "outpoint \<Rightarrow> nat" where
  "outpoint_key op = be_val (op_txid op) * 2 ^ 32 + unat (op_index op)"

definition entries_of :: "utxo_set \<Rightarrow> hash256 \<Rightarrow> (outpoint \<times> utxo_entry) list" where
  "entries_of s kh = List.map_filter (\<lambda>op. map_option (Pair op) (hget (u_map s) op)) (utxo_points s kh)"

definition outputs_of :: "utxo_set \<Rightarrow> hash256 \<Rightarrow> (outpoint \<times> utxo_entry) list" where
  "outputs_of s kh = sort_key (\<lambda>(op, e). outpoint_key op) (entries_of s kh)"

text \<open>\<open>spendable_for\<close>; the sum of a height and the maturity panics on overflow.\<close>

definition spendable_for :: "utxo_set \<Rightarrow> hash256 \<Rightarrow> nat \<Rightarrow> nat \<Rightarrow> (outpoint \<times> utxo_entry) list option" where
  "spendable_for s kh current_height maturity =
     (let v = entries_of s kh
      in if list_ex (\<lambda>(op, e). ue_is_coinbase e \<and> 2 ^ 64 \<le> ue_height e + maturity) v then None
         else Some (sort_key (\<lambda>(op, e). outpoint_key op)
                (filter (\<lambda>(op, e). \<not> ue_is_coinbase e \<or> ue_height e + maturity \<le> current_height) v)))"

section \<open>The set as a map\<close>

text \<open>
  What the code relies on of a store of outputs: a lookup sees the last insertion or removal. The
  undo of a block is an inverse for every such store.
\<close>

locale utxo_store =
  fixes get :: "'s \<Rightarrow> outpoint \<Rightarrow> utxo_entry option"
    and ins :: "'s \<Rightarrow> outpoint \<Rightarrow> utxo_entry \<Rightarrow> 's"
    and rem :: "'s \<Rightarrow> outpoint \<Rightarrow> 's"
    and inv :: "'s \<Rightarrow> bool"
  assumes get_ins: "get (ins s op e) op' = (if op' = op then Some e else get s op')"
    and get_rem: "get (rem s op) op' = (if op' = op then None else get s op')"
    and inv_ins: "inv s \<Longrightarrow> inv (ins s op e)"
    and inv_rem: "inv s \<Longrightarrow> inv (rem s op)"
begin

lemma get_rem_all: "get (foldl rem s ops) op = (if op \<in> set ops then None else get s op)"
  by (induction ops arbitrary: s) (auto simp: get_rem)

lemma inv_rem_all: "inv s \<Longrightarrow> inv (foldl rem s ops)"
  by (induction ops arbitrary: s) (auto simp: inv_rem)

lemma get_restore:
  "distinct (map fst (filter (\<lambda>(op, e). op \<notin> C) sp)) \<Longrightarrow>
   get (foldl (\<lambda>s (op, e). if op \<in> C then s else ins s op e) s sp) op =
   (if op \<in> C then get s op else case map_of sp op of None \<Rightarrow> get s op | Some e \<Rightarrow> Some e)"
proof (induction sp arbitrary: s)
  case (Cons x sp)
  obtain op' e where x: "x = (op', e)" by (cases x)
  show ?case
  proof (cases "op' \<in> C")
    case True
    then show ?thesis using Cons by (auto simp: x)
  next
    case False
    then have "op' \<notin> fst ` set (filter (\<lambda>(op, e). op \<notin> C) sp)" using Cons.prems x by auto
    then have "map_of sp op' = None" using False by (force simp: map_of_eq_None_iff)
    then show ?thesis using Cons False by (auto simp: x get_ins split: option.splits)
  qed
qed simp

lemma inv_restore: "inv s \<Longrightarrow> inv (foldl (\<lambda>s (op, e). if op \<in> C then s else ins s op e) s sp)"
  by (induction sp arbitrary: s) (auto simp: inv_ins)

end

definition key_of :: "(outpoint, utxo_entry) hmap \<Rightarrow> outpoint \<Rightarrow> hash256 option" where
  "key_of m op =
     (case hget m op of
        None \<Rightarrow> None
      | Some e \<Rightarrow> if is_name (out_scheme (ue_output e)) then None else Some (out_pubkey_hash (ue_output e)))"

definition bucket :: "(hash256, outpoint list) hmap \<Rightarrow> hash256 \<Rightarrow> outpoint list" where
  "bucket b kh = (case hget b kh of None \<Rightarrow> [] | Some l \<Rightarrow> l)"

definition idx_ok :: "(outpoint \<Rightarrow> hash256 option) \<Rightarrow> (hash256, outpoint list) hmap \<Rightarrow> bool" where
  "idx_ok K b \<longleftrightarrow> hwf b \<and>
     (\<forall>kh. hget b kh \<noteq> Some [] \<and> distinct (bucket b kh) \<and> set (bucket b kh) = {op. K op = Some kh})"

definition tag_of :: "(outpoint, utxo_entry) hmap \<Rightarrow> outpoint \<Rightarrow> name_bytes option" where
  "tag_of m tag =
     Option.bind (hget m tag) (\<lambda>t.
     Option.bind (next_index tag) (\<lambda>key.
     Option.bind (hget m key) (\<lambda>k.
       let n = out_pubkey_hash (ue_output t)
       in if out_scheme (ue_output t) = NameTag \<and> out_scheme (ue_output k) = NameKey \<and> name_decode n \<noteq> None
          then Some n else None)))"

definition elements :: "(outpoint, utxo_entry) hmap \<Rightarrow> byte list list" where
  "elements m = map (\<lambda>(op, e). serialized_element op e) m"

definition utxo_inv :: "utxo_set \<Rightarrow> bool" where
  "utxo_inv s \<longleftrightarrow> hwf (u_map s) \<and> idx_ok (key_of (u_map s)) (u_by_pubkey_hash s) \<and>
     mu_commits (u_muhash s) (elements (u_map s)) \<and>
     (\<forall>tag. hget (by_tag (u_names s)) tag = tag_of (u_map s) tag)"

lemma unindex_fields [simp]:
  "u_map (unindex s kh op) = u_map s" "u_muhash (unindex s kh op) = u_muhash s" "u_names (unindex s kh op) = u_names s"
  by (simp_all add: unindex_def Let_def split: option.split)

lemma index_key_fields [simp]:
  "u_map (index_key s kh op) = u_map s" "u_muhash (index_key s kh op) = u_muhash s"
  "u_names (index_key s kh op) = u_names s"
  by (simp_all add: index_key_def)

lemma name_index_fields [simp]:
  "u_map (index_name s op e) = u_map s" "u_muhash (index_name s op e) = u_muhash s"
  "u_by_pubkey_hash (index_name s op e) = u_by_pubkey_hash s"
  "u_map (unindex_name s op e) = u_map s" "u_muhash (unindex_name s op e) = u_muhash s"
  "u_by_pubkey_hash (unindex_name s op e) = u_by_pubkey_hash s"
  by (auto simp: index_name_def unindex_name_def split: option.split prod.split)

lemma utxo_insert_map: "u_map (utxo_insert s op e) = hput op e (u_map s)"
  by (simp add: utxo_insert_def Let_def split: option.split)

lemma utxo_remove_map: "u_map (fst (utxo_remove s op)) = (if hget (u_map s) op = None then u_map s else hdel op (u_map s))"
  by (simp add: utxo_remove_def Let_def split: option.split)

lemma utxo_remove_result: "snd (utxo_remove s op) = utxo_get s op"
  by (simp add: utxo_remove_def utxo_get_def Let_def split: option.split)

lemma utxo_get_insert: "utxo_get (utxo_insert s op e) op' = (if op' = op then Some e else utxo_get s op')"
  by (simp add: utxo_get_def utxo_insert_map)

lemma utxo_get_remove: "utxo_get (fst (utxo_remove s op)) op' = (if op' = op then None else utxo_get s op')"
  by (auto simp: utxo_get_def utxo_remove_map)

section \<open>The derived structures follow the map\<close>

lemma bucket_unindex:
  "bucket (u_by_pubkey_hash (unindex s kh op)) kh' =
     (if kh' = kh then remove1 op (bucket (u_by_pubkey_hash s) kh) else bucket (u_by_pubkey_hash s) kh')"
  by (auto simp: unindex_def bucket_def Let_def split: option.split)

lemma bucket_index_key:
  "bucket (u_by_pubkey_hash (index_key s kh op)) kh' =
     (if kh' = kh then List.insert op (bucket (u_by_pubkey_hash s) kh) else bucket (u_by_pubkey_hash s) kh')"
  by (auto simp: index_key_def bucket_def split: option.split)

lemma idx_unindex:
  assumes "idx_ok K (u_by_pubkey_hash s)" "K op = Some kh"
  shows "idx_ok (K(op := None)) (u_by_pubkey_hash (unindex s kh op))"
proof -
  have "hwf (u_by_pubkey_hash (unindex s kh op))"
    using assms(1) by (auto simp: idx_ok_def unindex_def Let_def split: option.split)
  moreover have "hget (u_by_pubkey_hash (unindex s kh op)) kh' \<noteq> Some []" for kh'
    using assms(1) by (auto simp: idx_ok_def unindex_def Let_def split: option.split)
  moreover have "distinct (bucket (u_by_pubkey_hash (unindex s kh op)) kh') \<and>
      set (bucket (u_by_pubkey_hash (unindex s kh op)) kh') = {op'. (K(op := None)) op' = Some kh'}" for kh'
    using assms by (auto simp: idx_ok_def bucket_unindex)
  ultimately show ?thesis unfolding idx_ok_def by blast
qed

lemma idx_index:
  assumes "idx_ok K (u_by_pubkey_hash s)" "K op = None \<or> K op = Some kh"
  shows "idx_ok (K(op := Some kh)) (u_by_pubkey_hash (index_key s kh op))"
proof -
  have "hwf (u_by_pubkey_hash (index_key s kh op))"
    using assms(1) by (auto simp: idx_ok_def index_key_def split: option.split)
  moreover have "hget (u_by_pubkey_hash (index_key s kh op)) kh' \<noteq> Some []" for kh'
    using assms(1) by (auto simp: idx_ok_def index_key_def List.insert_def split: option.split)
  moreover have "distinct (bucket (u_by_pubkey_hash (index_key s kh op)) kh') \<and>
      set (bucket (u_by_pubkey_hash (index_key s kh op)) kh') = {op'. (K(op := Some kh)) op' = Some kh'}" for kh'
    using assms by (auto simp: idx_ok_def bucket_index_key)
  ultimately show ?thesis unfolding idx_ok_def by blast
qed

lemma key_of_put: "key_of (hput op e m) =
    (key_of m)(op := (if is_name (out_scheme (ue_output e)) then None else Some (out_pubkey_hash (ue_output e))))"
  by (auto simp: key_of_def)

lemma key_of_del: "key_of (hdel op m) = (key_of m)(op := None)"
  by (auto simp: key_of_def)

lemma idx_insert:
  assumes "idx_ok (key_of (u_map s)) (u_by_pubkey_hash s)"
  shows "idx_ok (key_of (u_map (utxo_insert s op e))) (u_by_pubkey_hash (utxo_insert s op e))"
proof (cases "hget (u_map s) op")
  case None
  then have "key_of (u_map s) op = None" by (simp add: key_of_def)
  then show ?thesis using assms None idx_index [OF _ disjI1]
    by (auto simp: utxo_insert_def Let_def key_of_put fun_upd_idem)
next
  case (Some v)
  then have k: "key_of (u_map s) op =
      (if is_name (out_scheme (ue_output v)) then None else Some (out_pubkey_hash (ue_output v)))"
    by (simp add: key_of_def)
  let ?s = "s\<lparr>u_map := hput op e (u_map s), u_muhash := mu_remove (u_muhash s) (serialized_element op v)\<rparr>"
  let ?kh = "out_pubkey_hash (ue_output e)" and ?en = "is_name (out_scheme (ue_output e))"
  let ?s2 = "if is_name (out_scheme (ue_output v)) then unindex_name ?s op v
    else if out_pubkey_hash (ue_output v) \<noteq> ?kh \<or> ?en then unindex ?s (out_pubkey_hash (ue_output v)) op else ?s"
  have u: "idx_ok ((key_of (u_map s))(op := None)) (u_by_pubkey_hash (unindex ?s (out_pubkey_hash (ue_output v)) op))"
    if "\<not> is_name (out_scheme (ue_output v))"
    using assms k that by (intro idx_unindex) simp_all
  have "\<exists>K. idx_ok K (u_by_pubkey_hash ?s2) \<and> (K = key_of (u_map s) \<or> K = (key_of (u_map s))(op := None)) \<and>
      (K op = None \<or> \<not> ?en \<and> K op = Some ?kh)"
    using assms k u by (cases "is_name (out_scheme (ue_output v))") auto
  then obtain K where K: "idx_ok K (u_by_pubkey_hash ?s2)" "K op = None \<or> \<not> ?en \<and> K op = Some ?kh"
      "\<And>x. K(op := x) = (key_of (u_map s))(op := x)"
    by auto
  define s3 where "s3 = ?s2\<lparr>u_muhash := mu_insert (u_muhash ?s2) (serialized_element op e)\<rparr>"
  have by3: "u_by_pubkey_hash s3 = u_by_pubkey_hash ?s2" by (simp add: s3_def)
  have s': "utxo_insert s op e = (if ?en then index_name s3 op e else index_key s3 ?kh op)"
    using Some by (simp add: utxo_insert_def Let_def s3_def)
  have k': "key_of (u_map (utxo_insert s op e)) = K(op := if ?en then None else Some ?kh)"
    by (simp only: utxo_insert_map key_of_put K(3))
  show ?thesis
    unfolding k' unfolding s' using K(1,2) idx_index [of K s3 op ?kh] unfolding by3 [symmetric] by (auto simp: fun_upd_idem)
qed

lemma idx_remove:
  assumes "idx_ok (key_of (u_map s)) (u_by_pubkey_hash s)"
  shows "idx_ok (key_of (u_map (fst (utxo_remove s op)))) (u_by_pubkey_hash (fst (utxo_remove s op)))"
proof (cases "hget (u_map s) op")
  case (Some v)
  then have k: "key_of (u_map s) op =
      (if is_name (out_scheme (ue_output v)) then None else Some (out_pubkey_hash (ue_output v)))"
    by (simp add: key_of_def)
  then show ?thesis using assms Some idx_unindex
    by (auto simp: utxo_remove_def Let_def key_of_del fun_upd_idem)
qed (use assms in \<open>simp add: utxo_remove_def\<close>)

lemma mset_hput_new: "hget m k = None \<Longrightarrow> mset (hput k v m) = add_mset (k, v) (mset m)"
  by (induction m) (auto simp: hget_def hput_def split: if_splits)

lemma mset_hput_old: "hwf m \<Longrightarrow> hget m k = Some w \<Longrightarrow> add_mset (k, w) (mset (hput k v m)) = add_mset (k, v) (mset m)"
  by (induction m) (auto simp: hget_def hput_def hwf_def split: if_splits)

lemma mset_hdel: "hwf m \<Longrightarrow> hget m k = Some w \<Longrightarrow> add_mset (k, w) (mset (hdel k m)) = mset m"
proof (induction m)
  case (Cons x m)
  show ?case
  proof (cases "fst x = k")
    case True
    then have "map_of m k = None" using Cons.prems(1) by (simp add: hwf_def map_of_eq_None_iff)
    then have "AList.delete k m = m" by (simp add: delete_id map_of_eq_None_iff)
    then show ?thesis using True Cons.prems(2) by (cases x) (simp add: hget_def hdel_def)
  next
    case False
    then show ?thesis using Cons by (cases x) (simp add: hget_def hdel_def hwf_def)
  qed
qed (simp add: hget_def)

lemma elements_mset: "mset (elements m) = image_mset (\<lambda>(op, e). serialized_element op e) (mset m)"
  by (simp add: elements_def)

lemma mu_insert_set:
  assumes "hwf (u_map s)" "mu_commits (u_muhash s) (elements (u_map s))"
  shows "mu_commits (u_muhash (utxo_insert s op e)) (elements (u_map (utxo_insert s op e)))"
proof (cases "hget (u_map s) op")
  case None
  have "mset (elements (hput op e (u_map s))) = mset (serialized_element op e # elements (u_map s))"
    using mset_hput_new [OF None, of e] by (simp add: elements_mset)
  then have "mu_commits (mu_insert (u_muhash s) (serialized_element op e)) (elements (hput op e (u_map s)))"
    using mu_commits_insert [OF assms(2)] mu_commits_perm by blast
  then show ?thesis using None unfolding utxo_insert_map by (simp add: utxo_insert_def Let_def)
next
  case (Some v)
  let ?new = "serialized_element op e" and ?old = "serialized_element op v"
  have "mset (elements (u_map s)) = mset (?old # elements (hdel op (u_map s)))"
    using mset_hdel [OF assms(1) Some] by (simp add: elements_mset flip: image_mset_add_mset)
      (metis (no_types, lifting) case_prod_conv image_mset_add_mset)
  then have "mu_commits (mu_remove (u_muhash s) ?old) (elements (hdel op (u_map s)))"
    using assms(2) mu_commits_perm mu_commits_remove by metis
  then have "mu_commits (mu_insert (mu_remove (u_muhash s) ?old) ?new) (?new # elements (hdel op (u_map s)))"
    by (rule mu_commits_insert)
  moreover have "mset (elements (hput op e (u_map s))) = mset (?new # elements (hdel op (u_map s)))"
  proof -
    have "add_mset (op, v) (mset (hput op e (u_map s))) = add_mset (op, v) (add_mset (op, e) (mset (hdel op (u_map s))))"
      using mset_hput_old [OF assms(1) Some, of e] mset_hdel [OF assms(1) Some] by (metis add_mset_commute)
    then show ?thesis by (simp add: elements_mset)
  qed
  ultimately have "mu_commits (mu_insert (mu_remove (u_muhash s) ?old) ?new) (elements (hput op e (u_map s)))"
    using mu_commits_perm by blast
  then show ?thesis using Some unfolding utxo_insert_map by (simp add: utxo_insert_def Let_def)
qed

lemma mu_remove_set:
  assumes "hwf (u_map s)" "mu_commits (u_muhash s) (elements (u_map s))"
  shows "mu_commits (u_muhash (fst (utxo_remove s op))) (elements (u_map (fst (utxo_remove s op))))"
proof (cases "hget (u_map s) op")
  case (Some v)
  have "mset (elements (u_map s)) = mset (serialized_element op v # elements (hdel op (u_map s)))"
    using mset_hdel [OF assms(1) Some] by (simp add: elements_mset flip: image_mset_add_mset)
      (metis (no_types, lifting) case_prod_conv image_mset_add_mset)
  then have "mu_commits (mu_remove (u_muhash s) (serialized_element op v)) (elements (hdel op (u_map s)))"
    using assms(2) mu_commits_perm mu_commits_remove by metis
  then show ?thesis using Some by (simp add: utxo_remove_def Let_def)
qed (use assms in \<open>simp add: utxo_remove_def\<close>)

section \<open>The tags of the registry\<close>

lemma by_tag_add: "hget (by_tag (names_add ix tag n ow h)) tag' =
    (if tag' = tag \<and> hget (by_tag ix) tag = None \<and> name_decode n \<noteq> None then Some n else hget (by_tag ix) tag')"
  by (auto simp: names_add_def split: option.split)

lemma by_tag_remove: "hget (by_tag (names_remove_tag ix tag)) tag' = (if tag' = tag then None else hget (by_tag ix) tag')"
  by (auto simp: names_remove_tag_def Let_def split: option.split)

lemma next_prev: "next_index tag = Some op \<longleftrightarrow> prev_index op = Some tag"
proof -
  obtain t i where tag: "tag = \<lparr>op_txid = t, op_index = i\<rparr>" by (cases tag)
  obtain u j where op: "op = \<lparr>op_txid = u, op_index = j\<rparr>" by (cases op)
  have "next_index tag = Some op \<longleftrightarrow> i \<noteq> - 1 \<and> t = u \<and> j = i + 1"
    unfolding tag op next_index_def by (simp split: if_split) blast
  also have "\<dots> \<longleftrightarrow> j \<noteq> 0 \<and> u = t \<and> i = j - 1"
    by (metis add_diff_cancel_right' diff_add_cancel diff_0 eq_iff_diff_eq_0)
  also have "\<dots> \<longleftrightarrow> prev_index op = Some tag"
    unfolding tag op prev_index_def by (simp split: if_split) blast
  finally show ?thesis .
qed

lemma next_index_neq: "next_index op \<noteq> Some op"
  by (cases op) (auto simp: next_index_def)

text \<open>Only the pairs that \<open>op\<close> belongs to change when \<open>op\<close> does.\<close>

lemma tag_of_other:
  "(\<And>op'. op' \<noteq> op \<Longrightarrow> hget m' op' = hget m op') \<Longrightarrow> tag \<noteq> op \<Longrightarrow> prev_index op \<noteq> Some tag \<Longrightarrow>
   tag_of m' tag = tag_of m tag"
proof -
  assume m: "\<And>op'. op' \<noteq> op \<Longrightarrow> hget m' op' = hget m op'" and t: "tag \<noteq> op" "prev_index op \<noteq> Some tag"
  have "next_index tag \<noteq> Some op" using t(2) next_prev by blast
  then show ?thesis using m t(1) by (cases "next_index tag") (auto simp: tag_of_def)
qed

text \<open>The pair tag of an outpoint present with a name scheme; nothing else of it is indexed.\<close>

lemma tag_of_cleared:
  assumes "\<And>tag. hget (by_tag ix) tag = tag_of m tag" "hget m op = Some v"
    and "\<And>tag. \<exists>key. name_pair op v = Some (tag, key) \<Longrightarrow> hget (by_tag ix') tag = None"
    and "\<And>tag. (\<forall>key. name_pair op v \<noteq> Some (tag, key)) \<Longrightarrow> hget (by_tag ix') tag = hget (by_tag ix) tag"
  shows "hget (by_tag ix') op = None" and "prev_index op = Some q \<Longrightarrow> hget (by_tag ix') q = None"
    and "tag \<noteq> op \<Longrightarrow> prev_index op \<noteq> Some tag \<Longrightarrow> hget (by_tag ix') tag = tag_of m tag"
proof -
  show "hget (by_tag ix') op = None"
  proof (cases "\<exists>key. name_pair op v = Some (op, key)")
    case False
    then have "tag_of m op = None"
      using assms(2) by (auto simp: tag_of_def name_pair_def Let_def split: bind_split SchemeId.splits if_splits)
    then show ?thesis using assms(1,4) False by simp
  qed (use assms(3) in blast)
  show "hget (by_tag ix') q = None" if q: "prev_index op = Some q"
  proof (cases "\<exists>key. name_pair op v = Some (q, key)")
    case False
    have "next_index q = Some op" using q next_prev by blast
    then have "tag_of m q = None"
      using assms(2) False q by (auto simp: tag_of_def name_pair_def Let_def split: bind_split)
    then show ?thesis using assms(1,4) False by simp
  qed (use assms(3) in blast)
  show "hget (by_tag ix') tag = tag_of m tag" if "tag \<noteq> op" "prev_index op \<noteq> Some tag"
  proof -
    have "\<forall>key. name_pair op v \<noteq> Some (tag, key)"
      using that by (auto simp: name_pair_def split: SchemeId.splits)
    then show ?thesis using assms(1,4) by simp
  qed
qed

lemma index_name_tags:
  assumes m: "hget (u_map s) op = Some e"
    and op: "hget (by_tag (u_names s)) op = None" and q: "\<And>q. prev_index op = Some q \<Longrightarrow> hget (by_tag (u_names s)) q = None"
  shows "tag = op \<or> prev_index op = Some tag \<Longrightarrow> is_name (out_scheme (ue_output e)) \<Longrightarrow>
      hget (by_tag (u_names (index_name s op e))) tag = tag_of (u_map s) tag"
    and "tag \<noteq> op \<Longrightarrow> prev_index op \<noteq> Some tag \<Longrightarrow>
      hget (by_tag (u_names (index_name s op e))) tag = hget (by_tag (u_names s)) tag"
proof -
  show "hget (by_tag (u_names (index_name s op e))) tag = hget (by_tag (u_names s)) tag"
    if "tag \<noteq> op" "prev_index op \<noteq> Some tag"
    using that by (auto simp: index_name_def name_pair_def by_tag_add split: option.split SchemeId.splits)
  assume t: "tag = op \<or> prev_index op = Some tag" and n: "is_name (out_scheme (ue_output e))"
  consider (tag) "out_scheme (ue_output e) = NameTag" | (key) "out_scheme (ue_output e) = NameKey"
    using n by (auto simp: is_name_def)
  then show "hget (by_tag (u_names (index_name s op e))) tag = tag_of (u_map s) tag"
  proof cases
    case tag
    show ?thesis
    proof (cases "tag = op")
      case True
      then show ?thesis using tag m op
        by (auto simp: index_name_def name_pair_def by_tag_add tag_of_def Let_def split: option.split bind_split)
    next
      case False
      then have p: "prev_index op = Some tag" using t by simp
      then have "tag_of (u_map s) tag = None" using m tag next_prev [of tag op]
        by (auto simp: tag_of_def Let_def split: bind_split)
      then show ?thesis using p False q tag
        by (auto simp: index_name_def name_pair_def by_tag_add split: option.split)
    qed
  next
    case key
    show ?thesis
    proof (cases "tag = op")
      case True
      have "prev_index op \<noteq> Some op" using next_prev next_index_neq by blast
      moreover have "tag_of (u_map s) op = None" using m key by (auto simp: tag_of_def Let_def split: bind_split)
      ultimately show ?thesis using key True op
        by (auto simp: index_name_def name_pair_def by_tag_add split: option.split)
    next
      case False
      then have p: "prev_index op = Some tag" using t by simp
      then show ?thesis using key m q [OF p] next_prev [of tag op]
        by (auto simp: index_name_def name_pair_def by_tag_add tag_of_def Let_def split: option.split bind_split)
    qed
  qed
qed

lemma tag_of_plain: "hget m op = Some e \<Longrightarrow> \<not> is_name (out_scheme (ue_output e)) \<Longrightarrow>
    tag = op \<or> prev_index op = Some tag \<Longrightarrow> tag_of m tag = None"
  using next_prev [of tag op] by (auto simp: tag_of_def is_name_def Let_def split: bind_split)

lemma tag_of_absent: "hget m op = None \<Longrightarrow> tag = op \<or> prev_index op = Some tag \<Longrightarrow> tag_of m tag = None"
  using next_prev [of tag op] by (auto simp: tag_of_def split: bind_split)

lemma unindex_name_tags:
  assumes "\<And>tag. hget (by_tag (u_names s)) tag = tag_of m tag" "hget m op = Some v"
  shows "tag = op \<or> prev_index op = Some tag \<Longrightarrow> hget (by_tag (u_names (unindex_name s op v))) tag = None"
    and "tag \<noteq> op \<Longrightarrow> prev_index op \<noteq> Some tag \<Longrightarrow> hget (by_tag (u_names (unindex_name s op v))) tag = tag_of m tag"
proof -
  have a: "hget (by_tag (u_names (unindex_name s op v))) t = None" if "\<exists>key. name_pair op v = Some (t, key)" for t
    using that by (auto simp: unindex_name_def by_tag_remove)
  have b: "hget (by_tag (u_names (unindex_name s op v))) t = hget (by_tag (u_names s)) t"
    if "\<forall>key. name_pair op v \<noteq> Some (t, key)" for t
    using that by (auto simp: unindex_name_def by_tag_remove split: option.split)
  note c = tag_of_cleared [where ix' = "u_names (unindex_name s op v)", OF assms a b]
  show "hget (by_tag (u_names (unindex_name s op v))) tag = None" if "tag = op \<or> prev_index op = Some tag"
    using that c(1) c(2) by (elim disjE) simp_all
  show "hget (by_tag (u_names (unindex_name s op v))) tag = tag_of m tag" if "tag \<noteq> op" "prev_index op \<noteq> Some tag"
    using that by (intro c(3)) simp_all
qed

lemma tags_insert:
  assumes tags: "\<And>tag. hget (by_tag (u_names s)) tag = tag_of (u_map s) tag"
  shows "hget (by_tag (u_names (utxo_insert s op e))) tag = tag_of (u_map (utxo_insert s op e)) tag"
proof -
  let ?m = "hput op e (u_map s)" and ?en = "is_name (out_scheme (ue_output e))" and ?kh = "out_pubkey_hash (ue_output e)"
  define s2 where "s2 = (let s1 = s\<lparr>u_map := ?m\<rparr> in case hget (u_map s) op of
      None \<Rightarrow> s1
    | Some v \<Rightarrow>
        let s1 = s1\<lparr>u_muhash := mu_remove (u_muhash s1) (serialized_element op v)\<rparr>
        in if is_name (out_scheme (ue_output v)) then unindex_name s1 op v
           else if out_pubkey_hash (ue_output v) \<noteq> ?kh \<or> ?en then unindex s1 (out_pubkey_hash (ue_output v)) op else s1)"
  define s3 where "s3 = s2\<lparr>u_muhash := mu_insert (u_muhash s2) (serialized_element op e)\<rparr>"
  have s': "utxo_insert s op e = (if ?en then index_name s3 op e else index_key s3 ?kh op)"
    by (simp add: utxo_insert_def Let_def s3_def s2_def)
  have m3: "u_map s3 = ?m" by (simp add: s3_def s2_def Let_def split: option.split)
  have cleared: "(t = op \<or> prev_index op = Some t \<longrightarrow> hget (by_tag (u_names s3)) t = None) \<and>
      (t \<noteq> op \<and> prev_index op \<noteq> Some t \<longrightarrow> hget (by_tag (u_names s3)) t = tag_of (u_map s) t)" for t
  proof (cases "hget (u_map s) op")
    case None
    then show ?thesis using tags tag_of_absent [OF None] by (auto simp: s3_def s2_def)
  next
    case (Some v)
    let ?s1 = "s\<lparr>u_map := ?m, u_muhash := mu_remove (u_muhash s) (serialized_element op v)\<rparr>"
    have t1: "hget (by_tag (u_names ?s1)) t' = tag_of (u_map s) t'" for t' using tags by simp
    show ?thesis
    proof (cases "is_name (out_scheme (ue_output v))")
      case True
      then show ?thesis using Some unindex_name_tags [where s = ?s1, OF t1 Some] by (auto simp: s3_def s2_def Let_def)
    next
      case False
      then show ?thesis using Some tags tag_of_plain [OF Some False] by (auto simp: s3_def s2_def Let_def)
    qed
  qed
  have e3: "hget (u_map s3) op = Some e" by (simp add: m3)
  have other: "tag_of ?m tag = tag_of (u_map s) tag" if "tag \<noteq> op" "prev_index op \<noteq> Some tag"
    using that by (intro tag_of_other) simp_all
  have "hget (by_tag (u_names (if ?en then index_name s3 op e else index_key s3 ?kh op))) tag = tag_of ?m tag"
    using index_name_tags [where s = s3, OF e3] cleared other tag_of_plain [of ?m op e] m3
    by (cases "tag = op \<or> prev_index op = Some tag"; cases ?en) auto
  then show ?thesis by (simp only: utxo_insert_map) (simp only: s')
qed

lemma tags_remove:
  assumes tags: "\<And>tag. hget (by_tag (u_names s)) tag = tag_of (u_map s) tag"
  shows "hget (by_tag (u_names (fst (utxo_remove s op)))) tag = tag_of (u_map (fst (utxo_remove s op))) tag"
proof (cases "hget (u_map s) op")
  case (Some v)
  let ?s1 = "s\<lparr>u_map := hdel op (u_map s), u_muhash := mu_remove (u_muhash s) (serialized_element op v)\<rparr>"
  have t1: "hget (by_tag (u_names ?s1)) t = tag_of (u_map s) t" for t using tags by simp
  have other: "tag_of (hdel op (u_map s)) tag = tag_of (u_map s) tag" if "tag \<noteq> op" "prev_index op \<noteq> Some tag"
    using that by (intro tag_of_other) simp_all
  have absent: "tag_of (hdel op (u_map s)) tag = None" if "tag = op \<or> prev_index op = Some tag"
    using that by (intro tag_of_absent) simp_all
  show ?thesis
    using Some other absent unindex_name_tags [where s = ?s1, OF t1 Some] tags tag_of_plain [OF Some]
    by (cases "is_name (out_scheme (ue_output v))"; cases "tag = op \<or> prev_index op = Some tag")
      (auto simp: utxo_remove_def Let_def)
qed (use assms in \<open>simp add: utxo_remove_def\<close>)

section \<open>The invariant\<close>

lemma utxo_inv_new: "utxo_inv utxo_new"
  by (simp add: utxo_inv_def utxo_new_def idx_ok_def key_of_def bucket_def elements_def mu_commits_new
      names_empty_def tag_of_def)

lemma utxo_inv_insert: "utxo_inv s \<Longrightarrow> utxo_inv (utxo_insert s op e)"
  using idx_insert [of s op e] mu_insert_set [of s op e] tags_insert [of s op e]
  by (auto simp: utxo_inv_def utxo_insert_map)

lemma utxo_inv_remove: "utxo_inv s \<Longrightarrow> utxo_inv (fst (utxo_remove s op))"
  using idx_remove [of s op] mu_remove_set [of s op] tags_remove [of s op]
  by (auto simp: utxo_inv_def utxo_remove_map)

interpretation us: utxo_store utxo_get utxo_insert "\<lambda>s op. fst (utxo_remove s op)" utxo_inv
  by unfold_locales (simp_all add: utxo_get_insert utxo_get_remove utxo_inv_insert utxo_inv_remove)

section \<open>Undo is the inverse of apply\<close>

text \<open>\<open>tracks s0 s u\<close>: outside of what the block created, \<open>u\<close> holds what \<open>s\<close> lacks of \<open>s0\<close>.\<close>

definition tracks :: "utxo_set \<Rightarrow> utxo_set \<Rightarrow> undo_record \<Rightarrow> bool" where
  "tracks s0 s u \<longleftrightarrow>
     distinct (map fst (filter (\<lambda>(op, e). op \<notin> set (undo_created u)) (undo_spent u))) \<and>
     (\<forall>op. op \<notin> set (undo_created u) \<longrightarrow> map_of (undo_spent u) op = None \<longrightarrow> utxo_get s op = utxo_get s0 op) \<and>
     (\<forall>op e. op \<notin> set (undo_created u) \<longrightarrow> map_of (undo_spent u) op = Some e \<longrightarrow>
        utxo_get s0 op = Some e \<and> utxo_get s op = None)"

lemma tracks_new: "tracks s s undo_new"
  by (simp add: tracks_def undo_new_def)

lemma tracks_remove:
  assumes t: "tracks s0 s u" and r: "utxo_remove s op = (s', Some e)"
  shows "tracks s0 s' (u\<lparr>undo_spent := undo_spent u @ [(op, e)]\<rparr>)"
proof -
  have g: "utxo_get s op = Some e" using utxo_remove_result [of s op] r by simp
  have s': "utxo_get s' op' = (if op' = op then None else utxo_get s op')" for op'
    using utxo_get_remove [of s op op'] r by simp
  have n: "map_of (undo_spent u) op = None \<and> utxo_get s0 op = Some e" if "op \<notin> set (undo_created u)"
    using t g that by (cases "map_of (undo_spent u) op") (auto simp: tracks_def)
  then have "op \<notin> set (undo_created u) \<longrightarrow> op \<notin> fst ` set (undo_spent u)" by (simp add: map_of_eq_None_iff)
  then show ?thesis using t n s' by (auto simp: tracks_def map_add_def split: option.splits)
qed

lemma tracks_insert:
  "tracks s0 s u \<Longrightarrow> tracks s0 (utxo_insert s op e) (u\<lparr>undo_created := undo_created u @ [op]\<rparr>)"
proof -
  assume t: "tracks s0 s u"
  have "filter (\<lambda>(op', e). op' \<notin> set (undo_created u @ [op])) (undo_spent u) =
      filter (\<lambda>(op', e). op' \<noteq> op) (filter (\<lambda>(op', e). op' \<notin> set (undo_created u)) (undo_spent u))"
    by (auto intro: filter_cong)
  then have "distinct (map fst (filter (\<lambda>(op', e). op' \<notin> set (undo_created u @ [op])) (undo_spent u)))"
    using t unfolding tracks_def by (simp only: distinct_map_filter)
  then show ?thesis using t by (simp add: tracks_def utxo_get_insert)
qed

lemma tracks_spend: "tracks s0 s u \<Longrightarrow> spend_inputs s u is = (s', u') \<Longrightarrow> tracks s0 s' u'"
proof (induction s u "is" rule: spend_inputs.induct)
  case (2 s u i "is")
  obtain s1 r where r: "utxo_remove s (prev_out i) = (s1, r)" by (cases "utxo_remove s (prev_out i)")
  show ?case
  proof (cases r)
    case None
    then have "s1 = s" using r by (simp add: utxo_remove_def Let_def split: option.splits)
    then show ?thesis using 2 r None by simp
  next
    case (Some e)
    then show ?thesis using 2 r tracks_remove [of s0 s u "prev_out i" s1 e] by simp
  qed
qed simp

lemma tracks_create: "tracks s0 s u \<Longrightarrow> create_outputs tid h c i s u outs = (s', u') \<Longrightarrow> tracks s0 s' u'"
proof (induction outs arbitrary: i s u)
  case (Cons out outs)
  from Cons.prems(2) show ?case unfolding create_outputs.simps Let_def
    by (rule Cons.IH [OF tracks_insert [OF Cons.prems(1)]])
qed simp

lemma tracks_apply: "tracks s0 s u \<Longrightarrow> apply_transaction s t h u = (s', u') \<Longrightarrow> tracks s0 s' u'"
  by (auto simp: apply_transaction_def Let_def split: prod.splits if_splits
      intro: tracks_create tracks_spend)

lemma tracks_block: "tracks s0 s u \<Longrightarrow> apply_transactions s u h ts = (s', u') \<Longrightarrow> tracks s0 s' u'"
  by (induction ts arbitrary: s u) (auto split: prod.splits intro: tracks_apply)

lemma utxo_inv_spend: "utxo_inv s \<Longrightarrow> utxo_inv (fst (spend_inputs s u is))"
proof (induction s u "is" rule: spend_inputs.induct)
  case (2 s u i "is")
  show ?case
  proof (cases "utxo_remove s (prev_out i)")
    case (Pair s1 r)
    then have "utxo_inv s1" using utxo_inv_remove [OF 2(3), of "prev_out i"] by simp
    then show ?thesis using 2 Pair by (cases r) auto
  qed
qed simp

lemma utxo_inv_create: "utxo_inv s \<Longrightarrow> utxo_inv (fst (create_outputs tid h c i s u outs))"
  by (induction outs arbitrary: i s u) (auto simp: Let_def utxo_inv_insert)

lemma utxo_inv_apply: "utxo_inv s \<Longrightarrow> utxo_inv (fst (apply_transaction s t h u))"
  using utxo_inv_spend [of s u "tx_inputs t"]
  by (auto simp: apply_transaction_def Let_def utxo_inv_create split: prod.split)

lemma utxo_inv_apply_all: "utxo_inv s \<Longrightarrow> utxo_inv (fst (apply_transactions s u h ts))"
proof (induction ts arbitrary: s u)
  case (Cons t ts)
  then show ?case using utxo_inv_apply [OF Cons.prems, of t h u] by (auto split: prod.split)
qed simp

lemma utxo_inv_undo: "utxo_inv s \<Longrightarrow> utxo_inv (utxo_undo s r)"
  unfolding utxo_undo_def remove_all_def by (intro us.inv_restore us.inv_rem_all)

lemma utxo_undo_get:
  assumes "tracks s0 s u" "\<And>op. op \<in> set (undo_created u) \<Longrightarrow> utxo_get s0 op = None"
  shows "utxo_get (utxo_undo s u) = utxo_get s0"
proof
  fix op
  show "utxo_get (utxo_undo s u) op = utxo_get s0 op"
    unfolding utxo_undo_def remove_all_def
    using assms by (subst us.get_restore) (auto simp: us.get_rem_all tracks_def split: option.split)
qed

text \<open>Two sets with the same lookups agree on everything that is derived from the map.\<close>

lemma same_get_mset:
  assumes "utxo_inv s" "utxo_inv s'" "utxo_get s = utxo_get s'"
  shows "mset (u_map s) = mset (u_map s')"
proof -
  have "set (u_map s) = set (u_map s')"
    using assms hm.in_items_iff [of "u_map s"] hm.in_items_iff [of "u_map s'"]
    by (auto simp: utxo_inv_def utxo_get_def fun_eq_iff)
  moreover have "distinct (u_map s)" "distinct (u_map s')"
    using assms by (auto simp: utxo_inv_def hwf_def distinct_map)
  ultimately show ?thesis by (simp add: set_eq_iff_mset_eq_distinct)
qed

lemma points_set: "utxo_inv s \<Longrightarrow> distinct (utxo_points s kh) \<and>
    set (utxo_points s kh) = {op. \<exists>e. utxo_get s op = Some e \<and> \<not> is_name (out_scheme (ue_output e)) \<and>
      out_pubkey_hash (ue_output e) = kh}"
  by (auto simp: utxo_inv_def idx_ok_def bucket_def utxo_points_def key_of_def utxo_get_def
      split: option.splits if_splits)

section \<open>Value\<close>

definition entry_value :: "utxo_entry \<Rightarrow> nat" where
  "entry_value e = units (out_value (ue_output e))"

definition utxo_sum :: "utxo_set \<Rightarrow> nat" where
  "utxo_sum s = sum_list (map (\<lambda>(op, e). entry_value e) (u_map s))"

definition outs_value :: "txout list \<Rightarrow> nat" where
  "outs_value outs = sum_list (map (\<lambda>out. units (out_value out)) outs)"

definition spent_value :: "undo_record \<Rightarrow> nat" where
  "spent_value u = sum_list (map (\<lambda>(op, e). entry_value e) (undo_spent u))"

lemma utxo_sum_insert: "utxo_inv s \<Longrightarrow>
    utxo_sum (utxo_insert s op e) + (case utxo_get s op of None \<Rightarrow> 0 | Some v \<Rightarrow> entry_value v) = utxo_sum s + entry_value e"
  using hm.sum_put [of "u_map s" "\<lambda>_. entry_value" op e]
  by (simp add: utxo_sum_def utxo_insert_map utxo_get_def utxo_inv_def)

lemma utxo_sum_remove: "utxo_inv s \<Longrightarrow>
    utxo_sum (fst (utxo_remove s op)) + (case utxo_get s op of None \<Rightarrow> 0 | Some v \<Rightarrow> entry_value v) = utxo_sum s"
  using hm.sum_del [of "u_map s" "\<lambda>_. entry_value" op]
  by (auto simp: utxo_sum_def utxo_remove_map utxo_get_def utxo_inv_def)

lemma spend_value: "utxo_inv s \<Longrightarrow> spend_inputs s u is = (s', u') \<Longrightarrow>
    utxo_sum s' + spent_value u' = utxo_sum s + spent_value u"
proof (induction s u "is" rule: spend_inputs.induct)
  case (2 s u i "is")
  obtain s1 r where r: "utxo_remove s (prev_out i) = (s1, r)" by (cases "utxo_remove s (prev_out i)")
  have i1: "utxo_inv s1" using utxo_inv_remove [OF 2(3), of "prev_out i"] r by simp
  have g: "utxo_get s (prev_out i) = r" using utxo_remove_result [of s "prev_out i"] r by simp
  have v: "utxo_sum s1 + (case r of None \<Rightarrow> 0 | Some v \<Rightarrow> entry_value v) = utxo_sum s"
    using utxo_sum_remove [OF 2(3), of "prev_out i"] r g by simp
  show ?case
  proof (cases r)
    case None
    then show ?thesis using 2 r i1 v by simp
  next
    case (Some e)
    from 2(2) [OF r [symmetric] Some i1] show ?thesis using 2(4) r v Some by (simp add: spent_value_def)
  qed
qed simp

lemma create_value: "utxo_inv s \<Longrightarrow> create_outputs tid h c i s u outs = (s', u') \<Longrightarrow>
    utxo_sum s' \<le> utxo_sum s + outs_value outs \<and> undo_spent u' = undo_spent u"
proof (induction outs arbitrary: i s u)
  case (Cons out outs)
  let ?op = "\<lparr>op_txid = tid, op_index = of_nat i\<rparr>" and ?e = "\<lparr>ue_output = out, ue_height = h, ue_is_coinbase = c\<rparr>"
  have "utxo_sum (utxo_insert s ?op ?e) \<le> utxo_sum s + units (out_value out)"
    using utxo_sum_insert [OF Cons.prems(1), of ?op ?e] by (simp add: entry_value_def)
  then show ?case
    using Cons.IH [OF utxo_inv_insert [OF Cons.prems(1)], of "Suc i" ?op ?e "u\<lparr>undo_created := undo_created u @ [?op]\<rparr>"]
      Cons.prems(2) by (simp add: Let_def outs_value_def)
qed (simp add: outs_value_def)

lemma apply_value:
  assumes "utxo_inv s" "apply_transaction s t h u = (s', u')"
  shows "utxo_sum s' + spent_value u' \<le> utxo_sum s + spent_value u + outs_value (tx_outputs t)"
proof -
  obtain s1 u1 where a: "(if tx_is_coinbase t then (s, u) else spend_inputs s u (tx_inputs t)) = (s1, u1)"
    by (cases "if tx_is_coinbase t then (s, u) else spend_inputs s u (tx_inputs t)")
  have i1: "utxo_inv s1"
    using a assms(1) utxo_inv_spend [OF assms(1), of u "tx_inputs t"] by (auto split: if_splits)
  have v1: "utxo_sum s1 + spent_value u1 = utxo_sum s + spent_value u"
    using a spend_value [OF assms(1)] by (auto split: if_splits)
  have "create_outputs (txid t) h (tx_is_coinbase t) 0 s1 u1 (tx_outputs t) = (s', u')"
    using assms(2) a by (simp add: apply_transaction_def)
  from create_value [OF i1 this] v1 show ?thesis by (simp add: spent_value_def)
qed

text \<open>What a transaction consumes, when its inputs are present and distinct.\<close>

definition inputs_value :: "utxo_set \<Rightarrow> txin list \<Rightarrow> nat" where
  "inputs_value s is = sum_list (map (\<lambda>i. case utxo_get s (prev_out i) of None \<Rightarrow> 0 | Some e \<Rightarrow> entry_value e) is)"

lemma spend_inputs_spent: "distinct (map prev_out is) \<Longrightarrow> spend_inputs s u is = (s', u') \<Longrightarrow>
    spent_value u' = spent_value u + inputs_value s is"
proof (induction s u "is" rule: spend_inputs.induct)
  case (2 s u i "is")
  obtain s1 r where r: "utxo_remove s (prev_out i) = (s1, r)" by (cases "utxo_remove s (prev_out i)")
  have g: "utxo_get s (prev_out i) = r" using utxo_remove_result [of s "prev_out i"] r by simp
  have "prev_out x \<noteq> prev_out i" if "x \<in> set is" for x using 2(3) that by (metis distinct.simps(2) image_eqI list.set_map list.simps(9))
  then have "inputs_value s1 is = inputs_value s is"
    using utxo_get_remove [of s "prev_out i"] r
    by (auto simp: inputs_value_def intro!: arg_cong [of _ _ sum_list] map_cong)
  then show ?case using 2 r g by (cases r) (auto simp: inputs_value_def spent_value_def)
qed (simp add: inputs_value_def)

lemma create_spent: "create_outputs tid h c i s u outs = (s', u') \<Longrightarrow> undo_spent u' = undo_spent u"
proof (induction outs arbitrary: i s u)
  case (Cons out outs)
  from Cons.prems show ?case unfolding create_outputs.simps Let_def by (drule_tac Cons.IH) simp
qed simp

lemma apply_spent:
  assumes "apply_transaction s t h u = (s', u')" "distinct (map prev_out (tx_inputs t))"
  shows "spent_value u' = spent_value u + (if tx_is_coinbase t then 0 else inputs_value s (tx_inputs t))"
proof -
  obtain s1 u1 where a: "(if tx_is_coinbase t then (s, u) else spend_inputs s u (tx_inputs t)) = (s1, u1)"
    by (cases "if tx_is_coinbase t then (s, u) else spend_inputs s u (tx_inputs t)")
  have "create_outputs (txid t) h (tx_is_coinbase t) 0 s1 u1 (tx_outputs t) = (s', u')"
    using assms(1) a by (simp add: apply_transaction_def)
  from create_spent [OF this] have "spent_value u' = spent_value u1" by (simp add: spent_value_def)
  then show ?thesis using a spend_inputs_spent [OF assms(2)] by (auto split: if_splits)
qed

section \<open>Balances and commitment\<close>

definition pays :: "hash256 \<Rightarrow> utxo_entry \<Rightarrow> bool" where
  "pays kh e \<longleftrightarrow> \<not> is_name (out_scheme (ue_output e)) \<and> out_pubkey_hash (ue_output e) = kh"

lemma entries_set: "utxo_inv s \<Longrightarrow> set (entries_of s kh) = {(op, e). utxo_get s op = Some e \<and> pays kh e}"
  using points_set [of s kh]
  by (force simp: entries_of_def List.map_filter_def utxo_get_def pays_def)

lemma balance_fold:
  "foldl (balance_step s p) (min a u64_max, n) ops =
     (let es = filter p (List.map_filter (utxo_get s) ops)
      in (min (a + sum_list (map entry_value es)) u64_max, n + length es))"
proof (induction ops arbitrary: a n)
  case (Cons op ops)
  have sat: "sat_add64 (min a u64_max) v = min (a + v) u64_max" for v
    by (simp add: sat_add64_def min_def)
  show ?case
  proof (cases "hget (u_map s) op")
    case None
    then show ?thesis using Cons by (simp add: balance_step_def utxo_get_def List.map_filter_def)
  next
    case (Some e)
    then show ?thesis using Cons [of "a + entry_value e" "Suc n"] Cons [of a n]
      by (simp add: balance_step_def utxo_get_def List.map_filter_def sat entry_value_def [symmetric] Let_def add.assoc)
  qed
qed (simp add: List.map_filter_def)

lemma balance_of_sum: "balance_of s kh =
    (let es = map snd (entries_of s kh) in (min (sum_list (map entry_value es)) u64_max, length es))"
proof -
  have e: "List.map_filter (utxo_get s) ops = map snd (List.map_filter (\<lambda>op. map_option (Pair op) (hget (u_map s) op)) ops)" for ops
    by (induction ops) (auto simp: List.map_filter_def utxo_get_def)
  show ?thesis
    using balance_fold [of s "\<lambda>_. True" 0 0 "utxo_points s kh"]
    by (simp add: balance_of_def entries_of_def e Let_def)
qed

text \<open>C14. The index by key hash is exact, and stays so under every operation of the set. For a key
  hash, \<open>outputs_of\<close> lists in the order of outpoints exactly the unspent outputs that pay it and are
  not name records, and \<open>balance_of\<close> is their saturating sum and their number.\<close>

theorem utxo_index_exact:
  assumes "utxo_inv s"
  shows "utxo_inv (utxo_insert s op e) \<and> utxo_inv (fst (utxo_remove s op)) \<and>
    utxo_inv (fst (apply_transaction s t h u)) \<and> utxo_inv (utxo_undo s r) \<and>
    set (outputs_of s kh) = {(op, e). utxo_get s op = Some e \<and> pays kh e} \<and>
    sorted (map (\<lambda>(op, e). outpoint_key op) (outputs_of s kh)) \<and>
    (utxo_knows s kh \<longleftrightarrow> (\<exists>op e. utxo_get s op = Some e \<and> pays kh e)) \<and>
    balance_of s kh = (min (sum_list (map (\<lambda>(op, e). entry_value e) (outputs_of s kh))) u64_max,
                       length (outputs_of s kh))"
proof -
  have "mset (outputs_of s kh) = mset (entries_of s kh)" by (simp add: outputs_of_def)
  then have "sum_list (map (\<lambda>(op, e). entry_value e) (outputs_of s kh)) = sum_list (map entry_value (map snd (entries_of s kh)))"
    by (metis (no_types, lifting) case_prod_unfold map_map comp_def mset_map sum_mset_sum_list map_eq_conv)
  then have b: "balance_of s kh = (min (sum_list (map (\<lambda>(op, e). entry_value e) (outputs_of s kh))) u64_max,
      length (outputs_of s kh))"
    using balance_of_sum [of s kh] by (simp add: outputs_of_def Let_def)
  have k: "utxo_knows s kh \<longleftrightarrow> utxo_points s kh \<noteq> []"
    by (simp add: utxo_knows_def utxo_points_def split: option.split)
  have "utxo_points s kh \<noteq> [] \<longleftrightarrow> (\<exists>op e. utxo_get s op = Some e \<and> pays kh e)"
    using points_set [OF assms, of kh] unfolding pays_def by (simp only: set_empty [symmetric]) blast
  then show ?thesis using b k assms
    by (simp add: utxo_inv_insert utxo_inv_remove utxo_inv_apply utxo_inv_undo outputs_of_def entries_set)
qed

definition example_entry :: utxo_entry where
  "example_entry = \<lparr>ue_output = example_out, ue_height = 7, ue_is_coinbase = False\<rparr>"

theorem utxo_index_exact_witness:
  "set (outputs_of (utxo_insert utxo_new OUTPOINT_COINBASE example_entry) (out_pubkey_hash example_out)) =
     {(OUTPOINT_COINBASE, example_entry)}"
  using utxo_index_exact [where kh = "out_pubkey_hash example_out",
      OF utxo_inv_insert [OF utxo_inv_new, of OUTPOINT_COINBASE example_entry]]
  by (auto simp: utxo_get_insert example_entry_def example_out_def pays_def is_name_def)
    (auto simp: utxo_get_def utxo_new_def split: if_splits)

text \<open>C13. Undoing a block after applying it gives back the set: every lookup, every derived structure,
  the total value and the commitment's multiset. This holds for blocks that spend their own outputs;
  what the block creates must not be in the set before it.\<close>

theorem utxo_undo_restores:
  assumes "utxo_inv s" "apply_transactions s undo_new h ts = (s', u)"
    and "\<forall>op \<in> set (undo_created u). utxo_get s op = None"
  shows "utxo_get (utxo_undo s' u) = utxo_get s \<and> utxo_inv (utxo_undo s' u) \<and>
    mset (u_map (utxo_undo s' u)) = mset (u_map s) \<and> utxo_sum (utxo_undo s' u) = utxo_sum s \<and>
    (\<forall>kh. set (utxo_points (utxo_undo s' u) kh) = set (utxo_points s kh))"
proof -
  have g: "utxo_get (utxo_undo s' u) = utxo_get s"
    using tracks_block [OF tracks_new assms(2)] assms(3) by (intro utxo_undo_get) auto
  have i: "utxo_inv (utxo_undo s' u)"
    using utxo_inv_apply_all [OF assms(1), of undo_new h ts] assms(2) by (intro utxo_inv_undo) simp
  have m: "mset (u_map (utxo_undo s' u)) = mset (u_map s)" by (rule same_get_mset [OF i assms(1) g])
  then have "utxo_sum (utxo_undo s' u) = utxo_sum s"
    unfolding utxo_sum_def by (metis mset_map sum_mset_sum_list)
  then show ?thesis using g i m points_set [OF i] points_set [OF assms(1)] by simp
qed

definition example_spend :: transaction where
  "example_spend = \<lparr>tx_version = 1,
     tx_inputs = [\<lparr>prev_out = \<lparr>op_txid = txid example_tx, op_index = 0\<rparr>,
                   in_witness = \<lparr>wit_pubkey = [], wit_signature = []\<rparr>, in_sequence = 0\<rparr>],
     tx_outputs = [example_out], tx_lock_time = 0\<rparr>"

theorem utxo_undo_restores_witness:
  "utxo_get (utxo_undo (fst (apply_transactions utxo_new undo_new 9 [example_tx, example_spend]))
     (snd (apply_transactions utxo_new undo_new 9 [example_tx, example_spend]))) = utxo_get utxo_new"
proof -
  let ?a = "apply_transactions utxo_new undo_new 9 [example_tx, example_spend]"
  have "\<forall>op \<in> set (undo_created (snd ?a)). utxo_get utxo_new op = None"
    by (simp add: utxo_get_def utxo_new_def)
  then show ?thesis
    using utxo_undo_restores [OF utxo_inv_new, of 9 "[example_tx, example_spend]" "fst ?a" "snd ?a"]
    by (simp only: prod.collapse)
qed

end
