(* ===== verification/Commitment.thy ===== *)
theory Commitment
  imports Utxo
begin

text \<open>
  The commitment to the set of unspent outputs (\<open>src/src/muhash.rs\<close>, \<open>src/src/utxo.rs\<close>) over any history of
  insertions and removals. The numerator and the denominator kept by the code are exact products; the
  digest inverts the denominator with the power \<open>P - 2\<close>, which is an inverse because the modulus is prime
  and no element is zero. Primality of the modulus is the one fact that is not proved here: it is the
  explicit premise \<open>prime_modulus\<close>, and Fermat's little theorem is derived from it.
\<close>

section \<open>Fermat's little theorem\<close>

definition prime_modulus :: bool where
  "prime_modulus \<longleftrightarrow> (\<forall>d. d dvd MU_P \<longrightarrow> d = 1 \<or> d = MU_P)"

lemma coprime_below:
  fixes p :: nat
  assumes "\<forall>d. d dvd p \<longrightarrow> d = 1 \<or> d = p" "0 < k" "k < p"
  shows "coprime k p"
proof -
  have "gcd k p \<noteq> p" using assms(2,3) gcd_le1_nat [of k p] by linarith
  then show ?thesis using assms(1) gcd_dvd2 [of k p] by (auto simp: coprime_iff_gcd_eq_1)
qed

lemma multiples_permute:
  fixes p :: nat
  assumes pr: "\<forall>d. d dvd p \<longrightarrow> d = 1 \<or> d = p" and a: "0 < a" "a < p"
  shows "inj_on (\<lambda>k. a * k mod p) {0<..<p}" "(\<lambda>k. a * k mod p) ` {0<..<p} = {0<..<p}"
proof -
  note ca = coprime_below [OF pr a]
  have eq: "k = l" if "k < p" "l \<le> k" "a * k mod p = a * l mod p" for k l
  proof -
    have "p dvd a * k - a * l" using that(2,3) by (simp add: mod_eq_dvd_iff_nat)
    then have "p dvd a * (k - l)" by (simp add: diff_mult_distrib2)
    then have "p dvd k - l" using ca by (simp add: coprime_commute coprime_dvd_mult_right_iff)
    then show ?thesis using that(1,2) by (metis dvd_imp_le le_antisym less_imp_diff_less not_le diff_is_0_eq neq0_conv)
  qed
  show inj: "inj_on (\<lambda>k. a * k mod p) {0<..<p}"
  proof (rule inj_onI)
    fix k l assume "k \<in> {0<..<p}" "l \<in> {0<..<p}" "a * k mod p = a * l mod p"
    then show "k = l" using eq [of k l] eq [of l k] by (cases "l \<le> k") auto
  qed
  have "a * k mod p \<in> {0<..<p}" if "k \<in> {0<..<p}" for k
  proof -
    have "\<not> p dvd a * k"
      using that ca by (auto simp: coprime_commute coprime_dvd_mult_right_iff dest: dvd_imp_le)
    then show ?thesis using that by (auto simp: mod_greater_zero_iff_not_dvd)
  qed
  then have "(\<lambda>k. a * k mod p) ` {0<..<p} \<subseteq> {0<..<p}" by blast
  then show "(\<lambda>k. a * k mod p) ` {0<..<p} = {0<..<p}" by (intro endo_inj_surj inj) auto
qed

lemma fermat_little:
  fixes p :: nat
  assumes pr: "\<forall>d. d dvd p \<longrightarrow> d = 1 \<or> d = p" and a: "0 < a" "a < p" and p: "1 < p"
  shows "a ^ (p - 1) mod p = 1"
proof -
  let ?S = "{0<..<p}" and ?f = "\<lambda>k. a * k mod p"
  note perm = multiples_permute [OF pr a]
  have "(\<Prod>k\<in>?S. k) = (\<Prod>k\<in>?f ` ?S. k)" unfolding perm(2) ..
  also have "\<dots> = (\<Prod>k\<in>?S. a * k mod p)" by (simp add: prod.reindex [OF perm(1)])
  finally have "(\<Prod>k\<in>?S. k) mod p = (\<Prod>k\<in>?S. a * k) mod p" by (simp add: mod_prod_eq)
  also have "(\<Prod>k\<in>?S. a * k) = a ^ (p - 1) * (\<Prod>k\<in>?S. k)" by (simp add: prod.distrib)
  finally have "p dvd a ^ (p - 1) * (\<Prod>k\<in>?S. k) - (\<Prod>k\<in>?S. k)"
    using a(1) by (simp add: mod_eq_dvd_iff_nat [symmetric])
  then have "p dvd (a ^ (p - 1) - 1) * (\<Prod>k\<in>?S. k)" by (simp add: diff_mult_distrib)
  moreover have "coprime p (\<Prod>k\<in>?S. k)" using coprime_below [OF pr] by (intro prod_coprime_right) (auto simp: coprime_commute)
  ultimately have "p dvd a ^ (p - 1) - 1" by (simp add: coprime_dvd_mult_left_iff)
  moreover have "1 \<le> a ^ (p - 1)" using a(1) by simp
  ultimately have "a ^ (p - 1) mod p = 1 mod p" by (subst mod_eq_dvd_iff_nat)
  then show ?thesis using p by simp
qed

lemma element_fermat: "prime_modulus \<Longrightarrow> lval (mu_element d) ^ (MU_P - 1) mod MU_P = 1"
  using fermat_little [of MU_P "lval (mu_element d)"] mu_element_val [of d] MU_P_C by (simp add: prime_modulus_def)

lemma elems_fermat: "prime_modulus \<Longrightarrow> elems_val ds ^ (MU_P - 1) mod MU_P = 1"
proof (induction ds)
  case (Cons d ds)
  have "elems_val (d # ds) ^ (MU_P - 1) mod MU_P =
      (lval (mu_element d) ^ (MU_P - 1) mod MU_P) * (elems_val ds ^ (MU_P - 1) mod MU_P) mod MU_P"
    by (simp add: elems_val_def power_mult_distrib mod_mult_eq)
  also have "\<dots> = 1" unfolding element_fermat [OF Cons.prems] Cons.IH [OF Cons.prems] by simp
  finally show ?case .
qed (simp add: elems_val_def)

section \<open>A history of the set\<close>

datatype utxo_step = Put outpoint utxo_entry | Take outpoint

fun utxo_do :: "utxo_set \<Rightarrow> utxo_step \<Rightarrow> utxo_set" where
  "utxo_do s (Put op e) = utxo_insert s op e"
| "utxo_do s (Take op) = fst (utxo_remove s op)"

definition utxo_run :: "utxo_step list \<Rightarrow> utxo_set" where
  "utxo_run steps = foldl utxo_do utxo_new steps"

text \<open>What a step takes out of the set: the output spent, or the one an insertion replaces.\<close>

definition taken :: "utxo_set \<Rightarrow> outpoint \<Rightarrow> byte list list" where
  "taken s op = (case utxo_get s op of Some v \<Rightarrow> [serialized_element op v] | None \<Rightarrow> [])"

fun removed :: "utxo_set \<Rightarrow> utxo_step list \<Rightarrow> byte list list" where
  "removed s [] = []"
| "removed s (Put op e # steps) = taken s op @ removed (utxo_do s (Put op e)) steps"
| "removed s (Take op # steps) = taken s op @ removed (utxo_do s (Take op)) steps"

lemma utxo_do_inv: "utxo_inv s \<Longrightarrow> utxo_inv (utxo_do s st)"
  by (cases st) (simp_all add: utxo_inv_insert utxo_inv_remove)

lemma utxo_run_inv: "utxo_inv (utxo_run steps)"
proof -
  have "utxo_inv (foldl utxo_do s steps)" if "utxo_inv s" for s
    using that by (induction steps arbitrary: s) (simp_all add: utxo_do_inv)
  then show ?thesis using utxo_inv_new by (simp add: utxo_run_def)
qed

text \<open>The denominator is the product of what was taken out.\<close>

definition den_is :: "utxo_set \<Rightarrow> byte list list \<Rightarrow> bool" where
  "den_is s ds \<longleftrightarrow> length (mu_den (u_muhash s)) = LIMBS \<and> lval (mu_den (u_muhash s)) = elems_val ds mod MU_P"

lemma den_insert [simp]: "mu_den (mu_insert m d) = mu_den m"
  by (simp add: mu_insert_def)

lemma den_taken:
  assumes "length (mu_den m) = LIMBS" "lval (mu_den m) = elems_val ds mod MU_P"
  shows "length (mu_den (mu_remove m d)) = LIMBS \<and> lval (mu_den (mu_remove m d)) = elems_val (ds @ [d]) mod MU_P"
  using num_mul_val [of "mu_den m" "mu_element d"] assms mu_element_val [of d]
  by (simp add: mu_remove_def elems_val_def mod_simps)

lemma utxo_insert_muhash: "u_muhash (utxo_insert s op e) =
    mu_insert (case utxo_get s op of Some v \<Rightarrow> mu_remove (u_muhash s) (serialized_element op v) | None \<Rightarrow> u_muhash s)
      (serialized_element op e)"
  by (auto simp: utxo_insert_def utxo_get_def Let_def split: option.split)

lemma utxo_remove_muhash: "u_muhash (fst (utxo_remove s op)) =
    (case utxo_get s op of Some v \<Rightarrow> mu_remove (u_muhash s) (serialized_element op v) | None \<Rightarrow> u_muhash s)"
  by (auto simp: utxo_remove_def utxo_get_def Let_def split: option.split)

lemma den_insert_step: "den_is s ds \<Longrightarrow> den_is (utxo_insert s op e) (ds @ taken s op)"
  and den_remove_step: "den_is s ds \<Longrightarrow> den_is (fst (utxo_remove s op)) (ds @ taken s op)"
  using den_taken [of "u_muhash s" ds]
  by (auto simp: den_is_def taken_def utxo_insert_muhash utxo_remove_muhash split: option.split)

lemma den_run: "den_is s ds \<Longrightarrow> den_is (foldl utxo_do s steps) (ds @ removed s steps)"
proof (induction steps arbitrary: s ds)
  case (Cons st steps)
  then show ?case
    using Cons.IH [OF den_insert_step [OF Cons.prems]] Cons.IH [OF den_remove_step [OF Cons.prems]] by (cases st) simp_all
qed simp

lemma run_products:
  fixes steps
  defines "s \<equiv> utxo_run steps"
  shows "den_is s (removed utxo_new steps)"
    "length (mu_num (u_muhash s)) = LIMBS \<and> lval (mu_num (u_muhash s)) = elems_val (removed utxo_new steps @ elements (u_map s)) mod MU_P"
proof -
  have "den_is utxo_new []" using MU_P_C by (simp add: den_is_def utxo_new_def mu_new_def elems_val_def)
  from den_run [OF this, of steps] show d: "den_is s (removed utxo_new steps)" by (simp add: s_def utxo_run_def)
  have "mu_commits (u_muhash s) (elements (u_map s))" using utxo_run_inv [of steps] by (simp add: s_def utxo_inv_def)
  then show "length (mu_num (u_muhash s)) = LIMBS \<and> lval (mu_num (u_muhash s)) = elems_val (removed utxo_new steps @ elements (u_map s)) mod MU_P"
    using d by (simp add: mu_commits_def den_is_def elems_val_def mod_simps) (metis mod_less)
qed

section \<open>The digest\<close>

lemma recomputed_commits:
  "mu_commits m xs \<Longrightarrow>
   \<exists>ys. mset ys = mset xs + mset (elements ms) \<and>
     mu_commits (foldl (\<lambda>mu (op, e). mu_insert mu (serialized_element op e)) m ms) ys \<and>
     mu_den (foldl (\<lambda>mu (op, e). mu_insert mu (serialized_element op e)) m ms) = mu_den m"
proof (induction ms arbitrary: m xs)
  case (Cons x ms)
  obtain op e where x: "x = (op, e)" by (cases x)
  show ?case using Cons.IH [OF mu_commits_insert [OF Cons.prems], of "serialized_element op e"]
    by (auto simp: x elements_def mu_insert_def)
qed (auto simp: elements_def)

lemma recomputed_same:
  assumes "utxo_inv s" "lval (mu_den (u_muhash s)) ^ (MU_P - 1) mod MU_P = 1"
  shows "utxo_commitment s = recomputed_commitment s"
proof -
  let ?r = "foldl (\<lambda>mu (op, e). mu_insert mu (serialized_element op e)) mu_new (u_map s)"
  have m: "mu_commits (u_muhash s) (elements (u_map s))" using assms(1) by (simp add: utxo_inv_def)
  obtain ys where "mset ys = mset (elements (u_map s))" "mu_commits ?r ys" "mu_den ?r = num_one"
    using recomputed_commits [OF mu_commits_new, of "u_map s"] by (auto simp: mu_new_def)
  then show ?thesis
    unfolding utxo_commitment_def recomputed_commitment_def
    using m assms(2) by (intro mu_digest_unique [of _ "elements (u_map s)" _ ys]) simp_all
qed

lemma run_fermat: "prime_modulus \<Longrightarrow> lval (mu_den (u_muhash (utxo_run steps))) ^ (MU_P - 1) mod MU_P = 1"
  using run_products(1) [of steps] elems_fermat [of "removed utxo_new steps"] by (simp add: den_is_def power_mod)

lemma same_products:
  assumes "utxo_get (utxo_run steps) = utxo_get (utxo_run steps')" "mset (removed utxo_new steps) = mset (removed utxo_new steps')"
  shows "u_muhash (utxo_run steps) = u_muhash (utxo_run steps')"
proof -
  have "mset (elements (u_map (utxo_run steps))) = mset (elements (u_map (utxo_run steps')))"
    using same_get_mset [OF utxo_run_inv utxo_run_inv assms(1)] by (simp add: elements_mset)
  then have "elems_val (removed utxo_new steps @ elements (u_map (utxo_run steps))) =
      elems_val (removed utxo_new steps' @ elements (u_map (utxo_run steps')))"
    using assms(2) by (intro elems_val_perm) simp
  then have "mu_num (u_muhash (utxo_run steps)) = mu_num (u_muhash (utxo_run steps'))"
    using run_products(2) [of steps] run_products(2) [of steps'] by (intro lval_inj) simp_all
  moreover have "mu_den (u_muhash (utxo_run steps)) = mu_den (u_muhash (utxo_run steps'))"
    using run_products(1) [of steps] run_products(1) [of steps'] elems_val_perm [OF assms(2)]
    by (intro lval_inj) (simp_all add: den_is_def)
  ultimately show ?thesis by simp
qed

text \<open>C15. The commitment follows the set through any history of insertions and removals. The numerator kept
  by the code is, modulo \<open>P\<close>, the product of the elements of the outputs held and of those taken out,
  the denominator the product of those taken out; every element is a residue between \<open>1\<close> and \<open>P - 1\<close>. Two
  histories that leave the same outputs and took out the same ones, in any order, give the same
  commitment; a history without removals gives the one recomputed from scratch. When the modulus is
  prime, which the source states and is not proved here, every history gives the recomputed
  commitment, and two histories that leave the same outputs give the same one.\<close>

theorem utxo_commitment_incremental:
  assumes "s = utxo_run steps" "s' = utxo_run steps'" "utxo_get s = utxo_get s'"
  shows "lval (mu_num (u_muhash s)) = elems_val (removed utxo_new steps @ elements (u_map s)) mod MU_P \<and>
    lval (mu_den (u_muhash s)) = elems_val (removed utxo_new steps) mod MU_P \<and>
    (\<forall>d. 0 < lval (mu_element d) \<and> lval (mu_element d) < MU_P) \<and>
    (mset (removed utxo_new steps) = mset (removed utxo_new steps') \<longrightarrow> utxo_commitment s = utxo_commitment s') \<and>
    (removed utxo_new steps = [] \<longrightarrow> utxo_commitment s = recomputed_commitment s) \<and>
    (prime_modulus \<longrightarrow> utxo_commitment s = recomputed_commitment s \<and> utxo_commitment s = utxo_commitment s')"
proof (intro conjI impI allI)
  show "lval (mu_num (u_muhash s)) = elems_val (removed utxo_new steps @ elements (u_map s)) mod MU_P"
    "lval (mu_den (u_muhash s)) = elems_val (removed utxo_new steps) mod MU_P"
    using run_products [of steps] assms(1) by (simp_all add: den_is_def)
  show "0 < lval (mu_element d)" "lval (mu_element d) < MU_P" for d using mu_element_val [of d] by simp_all
  show "utxo_commitment s = utxo_commitment s'" if "mset (removed utxo_new steps) = mset (removed utxo_new steps')"
    using same_products [OF _ that] assms by (simp add: utxo_commitment_def)
  have inv: "utxo_inv s" "utxo_inv s'" using assms(1,2) utxo_run_inv by simp_all
  show "utxo_commitment s = recomputed_commitment s" if "removed utxo_new steps = []"
    using run_products(1) [of steps] assms(1) that by (intro recomputed_same [OF inv(1)]) (simp add: den_is_def elems_val_def)
  assume pr: "prime_modulus"
  show "utxo_commitment s = recomputed_commitment s" using run_fermat [OF pr] assms(1) by (intro recomputed_same [OF inv(1)]) simp
  have "mset (elements (u_map s)) = mset (elements (u_map s'))" using same_get_mset [OF inv assms(3)] by (simp add: elements_mset)
  then show "utxo_commitment s = utxo_commitment s'"
    unfolding utxo_commitment_def
    using inv run_fermat [OF pr] assms(1,2) by (intro mu_digest_unique [of _ "elements (u_map s)" _ "elements (u_map s')"]) (simp_all add: utxo_inv_def)
qed

definition example_point :: outpoint where
  "example_point = \<lparr>op_txid = [], op_index = 3\<rparr>"

text \<open>An output that comes and goes leaves the commitment as if it had come first.\<close>

theorem utxo_commitment_incremental_witness:
  "utxo_commitment (utxo_run [Put OUTPOINT_COINBASE example_entry, Put example_point example_entry, Take example_point]) =
     utxo_commitment (utxo_run [Put example_point example_entry, Take example_point, Put OUTPOINT_COINBASE example_entry]) \<and>
   removed utxo_new [Put OUTPOINT_COINBASE example_entry, Put example_point example_entry, Take example_point] \<noteq> []"
proof -
  let ?a = "[Put OUTPOINT_COINBASE example_entry, Put example_point example_entry, Take example_point]"
  let ?b = "[Put example_point example_entry, Take example_point, Put OUTPOINT_COINBASE example_entry]"
  have ne: "example_point \<noteq> OUTPOINT_COINBASE" by (simp add: example_point_def OUTPOINT_COINBASE_def HASH_ZERO_def)
  have new: "utxo_get utxo_new op = None" for op by (simp add: utxo_get_def utxo_new_def)
  have g: "utxo_get (utxo_run ?a) = utxo_get (utxo_run ?b)"
    using ne by (auto simp: fun_eq_iff utxo_run_def utxo_get_insert utxo_get_remove new)
  have r: "removed utxo_new ?a = [serialized_element example_point example_entry]" "removed utxo_new ?b = removed utxo_new ?a"
    using ne by (simp_all add: taken_def utxo_get_insert utxo_get_remove new)
  show ?thesis using utxo_commitment_incremental [OF refl refl g] r by (metis not_Cons_self2)
qed

end
