(* ===== verification/Block.thy ===== *)
theory Block
  imports Tx
begin

text \<open>
  Blocks and headers (\<open>src/src/block.rs\<close>): the encodings, the id, the two Merkle roots and the
  structural checks.
\<close>

record block_header =
  hdr_version :: u32
  hdr_prev_block :: hash256
  hdr_merkle_root :: hash256
  hdr_uncles_root :: hash256
  hdr_miner :: hash256
  hdr_time :: u64
  hdr_bits :: u32
  hdr_height :: u64
  hdr_nonce :: u64

definition HEADER_SIZE :: nat where
  "HEADER_SIZE = 4 + 32 + 32 + 32 + 32 + 8 + 4 + 8 + 8"

definition header_encode :: "block_header \<Rightarrow> byte list" where
  "header_encode h =
     w_u32 (hdr_version h) @ hdr_prev_block h @ hdr_merkle_root h @ hdr_uncles_root h @ hdr_miner h
     @ w_u64 (hdr_time h) @ w_u32 (hdr_bits h) @ w_u64 (hdr_height h) @ w_u64 (hdr_nonce h)"

definition read_header :: "block_header reader" where
  "read_header bs =
     rbind (r_u32 bs) (\<lambda>(v, bs).
     rbind (r_array32 bs) (\<lambda>(prev, bs).
     rbind (r_array32 bs) (\<lambda>(mr, bs).
     rbind (r_array32 bs) (\<lambda>(ur, bs).
     rbind (r_array32 bs) (\<lambda>(mi, bs).
     rbind (r_u64 bs) (\<lambda>(t, bs).
     rbind (r_u32 bs) (\<lambda>(b, bs).
     rbind (r_u64 bs) (\<lambda>(h, bs).
     rbind (r_u64 bs) (\<lambda>(n, bs).
     Ok (\<lparr>hdr_version = v, hdr_prev_block = prev, hdr_merkle_root = mr, hdr_uncles_root = ur,
          hdr_miner = mi, hdr_time = t, hdr_bits = b, hdr_height = h, hdr_nonce = n\<rparr>, bs))))))))))"

definition header_decode :: "byte list \<Rightarrow> (block_header, ReadError) result" where
  "header_decode bs = rbind (read_header bs) (\<lambda>(h, rest). rbind (expect_end rest) (\<lambda>_. Ok h))"

definition block_id :: "block_header \<Rightarrow> hash256" where
  "block_id h = tagged_hash TAG_BLOCK_HEADER (header_encode h)"

record block =
  blk_header :: block_header
  blk_transactions :: "transaction list"
  blk_uncles :: "block_header list"

datatype BlockError =
    NoTransactions
  | FirstTransactionNotCoinbase
  | MultipleCoinbase
  | BadMerkleRoot
  | BadUnclesRoot
  | BlockTransaction TxError
  | BlockRead ReadError

definition compute_merkle_root :: "block \<Rightarrow> hash256" where
  "compute_merkle_root b = merkle_root (map merkle_leaf (blk_transactions b))"

definition compute_uncles_root :: "block \<Rightarrow> hash256" where
  "compute_uncles_root b = merkle_root (map (\<lambda>u. leaf_hash (block_id u)) (blk_uncles b))"

fun check_shapes :: "transaction list \<Rightarrow> (unit, BlockError) result" where
  "check_shapes [] = Ok ()"
| "check_shapes (t # ts) = rbind (map_err BlockTransaction (tx_check_shape t)) (\<lambda>_. check_shapes ts)"

definition block_check_shape :: "block \<Rightarrow> (unit, BlockError) result" where
  "block_check_shape b =
     (if blk_transactions b = [] then Err NoTransactions
      else if \<not> tx_is_coinbase (blk_transactions b ! 0) then Err FirstTransactionNotCoinbase
      else if list_ex tx_is_coinbase (drop 1 (blk_transactions b)) then Err MultipleCoinbase
      else rbind (check_shapes (blk_transactions b)) (\<lambda>_.
        if compute_merkle_root b \<noteq> hdr_merkle_root (blk_header b) then Err BadMerkleRoot
        else if compute_uncles_root b \<noteq> hdr_uncles_root (blk_header b) then Err BadUnclesRoot
        else Ok ()))"

definition block_encode :: "block \<Rightarrow> byte list" where
  "block_encode b =
     header_encode (blk_header b)
     @ w_varint (length (blk_transactions b))
     @ concat (map (\<lambda>t. w_var_bytes (tx_encode t)) (blk_transactions b))
     @ w_varint (length (blk_uncles b))
     @ concat (map header_encode (blk_uncles b))"

definition read_block_tx :: "byte list \<Rightarrow> (transaction \<times> byte list, BlockError) result" where
  "read_block_tx bs =
     rbind (map_err BlockRead (r_var_bytes bs)) (\<lambda>(raw, bs).
     rbind (map_err BlockTransaction (tx_decode raw)) (\<lambda>t. Ok (t, bs)))"

text \<open>An uncle is read byte by byte into a fixed buffer, then decoded.\<close>

definition read_uncle :: "byte list \<Rightarrow> (block_header \<times> byte list, BlockError) result" where
  "read_uncle bs =
     (if length bs < HEADER_SIZE then Err (BlockRead UnexpectedEnd)
      else rbind (map_err BlockRead (read_n r_u8 HEADER_SIZE bs)) (\<lambda>(buf, bs).
           rbind (map_err BlockRead (header_decode buf)) (\<lambda>h. Ok (h, bs))))"

definition read_block :: "byte list \<Rightarrow> (block \<times> byte list, BlockError) result" where
  "read_block bs =
     (if length bs < HEADER_SIZE then Err (BlockRead UnexpectedEnd)
      else rbind (map_err BlockRead (header_decode (take HEADER_SIZE bs))) (\<lambda>header.
           rbind (map_err BlockRead (read_count 10 (drop HEADER_SIZE bs))) (\<lambda>(n, bs).
           rbind (read_n read_block_tx n bs) (\<lambda>(txs, bs).
           rbind (map_err BlockRead (read_count HEADER_SIZE bs)) (\<lambda>(m, bs).
           rbind (read_n read_uncle m bs) (\<lambda>(us, bs).
           Ok (\<lparr>blk_header = header, blk_transactions = txs, blk_uncles = us\<rparr>, bs)))))))"

definition decode_prefix :: "byte list \<Rightarrow> (block \<times> nat, BlockError) result" where
  "decode_prefix bs = rbind (read_block bs) (\<lambda>(b, rest). Ok (b, length bs - length rest))"

definition block_decode :: "byte list \<Rightarrow> (block, BlockError) result" where
  "block_decode bs =
     rbind (decode_prefix bs) (\<lambda>(b, consumed).
       if consumed \<noteq> length bs then Err (BlockRead (TrailingBytes (length bs - consumed))) else Ok b)"

section \<open>The encodings are canonical\<close>

definition wf_header :: "block_header \<Rightarrow> bool" where
  "wf_header h \<longleftrightarrow> length (hdr_prev_block h) = 32 \<and> length (hdr_merkle_root h) = 32 \<and>
     length (hdr_uncles_root h) = 32 \<and> length (hdr_miner h) = 32"

definition wf_block_tx :: "transaction \<Rightarrow> bool" where
  "wf_block_tx t \<longleftrightarrow> wf_tx t \<and> length (tx_encode t) < 2 ^ 64"

definition wf_block :: "block \<Rightarrow> bool" where
  "wf_block b \<longleftrightarrow> wf_header (blk_header b) \<and>
     length (blk_transactions b) < 2 ^ 64 \<and> length (blk_uncles b) < 2 ^ 64 \<and>
     (\<forall>t \<in> set (blk_transactions b). wf_block_tx t) \<and> (\<forall>u \<in> set (blk_uncles b). wf_header u)"

lemma length_header_encode [simp]: "wf_header h \<Longrightarrow> length (header_encode h) = HEADER_SIZE"
  by (simp add: wf_header_def header_encode_def HEADER_SIZE_def w_u32_def w_u64_def)

lemma read_header_enc: "wf_header h \<Longrightarrow> read_header (header_encode h @ rest) = Ok (h, rest)"
  by (simp add: wf_header_def header_encode_def read_header_def arr32.dec_enc u32.dec_enc u64.dec_enc)

lemma read_header_dec: "read_header bs = Ok (h, rest) \<Longrightarrow> bs = header_encode h @ rest \<and> wf_header h"
  unfolding read_header_def
  by (simp only: rbind_Ok_iff split_paired_Ex prod.case result.inject prod.inject)
    (auto simp: header_encode_def wf_header_def)

lemma read_header_no_panic [simp]: "read_header bs \<noteq> Panic"
  by (auto simp: read_header_def rbind_Panic_iff split: prod.splits)

interpretation hdr: codec header_encode read_header wf_header
  by unfold_locales (auto simp: read_header_enc dest: read_header_dec)

lemma header_decode_Ok_iff [simp]: "header_decode bs = Ok h \<longleftrightarrow> wf_header h \<and> bs = header_encode h"
  using hdr.dec_enc [of h "[]"] by (auto simp: header_decode_def dest!: hdr.enc_dec)

lemma header_decode_no_panic [simp]: "header_decode bs \<noteq> Panic"
  by (auto simp: header_decode_def rbind_Panic_iff split: prod.splits)

interpretation btx: codec "\<lambda>t. w_var_bytes (tx_encode t)" read_block_tx wf_block_tx
proof unfold_locales
  fix t rest
  show "wf_block_tx t \<Longrightarrow> read_block_tx (w_var_bytes (tx_encode t) @ rest) = Ok (t, rest)"
    using tx_decode_Ok_iff [of "tx_encode t" t]
    by (simp add: read_block_tx_def wf_block_tx_def var_bytes.dec_enc)
next
  fix bs t rest
  show "read_block_tx bs = Ok (t, rest) \<Longrightarrow> bs = w_var_bytes (tx_encode t) @ rest \<and> wf_block_tx t"
    by (auto simp: read_block_tx_def wf_block_tx_def tx_decode_Ok_iff var_bytes.dec_iff split: prod.splits)
next
  fix bs
  show "read_block_tx bs \<noteq> Panic"
    by (auto simp: read_block_tx_def rbind_Panic_iff var_bytes.no_panic split: prod.splits)
qed

lemma read_n_u8: "read_n r_u8 n bs = (if length bs < n then Err UnexpectedEnd else Ok (take n bs, drop n bs))"
proof (induction n arbitrary: bs)
  case (Suc n)
  then show ?case by (cases bs) (auto simp: r_u8_def r_take_def)
qed simp

interpretation uncle: codec header_encode read_uncle wf_header
proof unfold_locales
  fix h rest
  show "wf_header h \<Longrightarrow> read_uncle (header_encode h @ rest) = Ok (h, rest)"
    using header_decode_Ok_iff [of "header_encode h" h] by (simp add: read_uncle_def read_n_u8)
next
  fix bs h rest
  assume ok: "read_uncle bs = Ok (h, rest)"
  then have "header_decode (take HEADER_SIZE bs) = Ok h" "rest = drop HEADER_SIZE bs"
    by (auto simp: read_uncle_def read_n_u8 simp del: header_decode_Ok_iff split: if_splits)
  then show "bs = header_encode h @ rest \<and> wf_header h"
    by (metis append_take_drop_id header_decode_Ok_iff)
next
  fix bs
  show "read_uncle bs \<noteq> Panic"
    by (auto simp: read_uncle_def read_n_u8 rbind_Panic_iff split: prod.splits)
qed

lemma length_tx_encode_ge: "14 \<le> length (tx_encode t)"
  using length_w_varint_ge [of "length (tx_inputs t)"] length_w_varint_ge [of "length (tx_outputs t)"]
  by (simp add: tx_encode_def encode_without_witness_def w_u32_def w_u64_def)

lemma length_concat_ge:
  "(\<And>x. x \<in> set xs \<Longrightarrow> n \<le> length (f x)) \<Longrightarrow> length xs * n \<le> length (concat (map f xs))"
  by (induction xs) (auto intro: add_mono)

lemma read_block_enc:
  assumes "wf_block b"
  shows "read_block (block_encode b @ rest) = Ok (b, rest)"
proof -
  let ?H = "header_encode (blk_header b)" and ?ts = "blk_transactions b" and ?us = "blk_uncles b"
  let ?U = "concat (map header_encode ?us) @ rest"
  let ?T = "concat (map (\<lambda>t. w_var_bytes (tx_encode t)) ?ts) @ w_varint (length ?us) @ ?U"
  have wf: "wf_header (blk_header b)" "\<forall>t \<in> set ?ts. wf_block_tx t" "\<forall>u \<in> set ?us. wf_header u"
    "length ?ts < 2 ^ 64" "length ?us < 2 ^ 64"
    using assms by (auto simp: wf_block_def)
  have lt: "length ?ts * 10 \<le> length (concat (map (\<lambda>t. w_var_bytes (tx_encode t)) ?ts))"
  proof (rule length_concat_ge)
    fix t
    show "10 \<le> length (w_var_bytes (tx_encode t))"
      using length_tx_encode_ge [of t] by (simp add: w_var_bytes_def)
  qed
  have lu: "length (concat (map header_encode ?us)) = HEADER_SIZE * length ?us"
    using wf(3) by (intro length_concat_chunks) auto
  have "block_encode b @ rest = ?H @ w_varint (length ?ts) @ ?T"
    by (simp add: block_encode_def)
  moreover have "read_count 10 (w_varint (length ?ts) @ ?T) = Ok (length ?ts, ?T)"
    by (rule read_count_enc [OF wf(4)]) (use lt in simp)
  moreover have "read_n read_block_tx (length ?ts) ?T = Ok (?ts, w_varint (length ?us) @ ?U)"
    by (rule btx.read_n_enc [OF wf(2)])
  moreover have "read_count HEADER_SIZE (w_varint (length ?us) @ ?U) = Ok (length ?us, ?U)"
    by (rule read_count_enc [OF wf(5)]) (use lu in \<open>simp add: mult.commute\<close>)
  moreover have "read_n read_uncle (length ?us) ?U = Ok (?us, rest)"
    by (rule uncle.read_n_enc [OF wf(3)])
  moreover have "header_decode ?H = Ok (blk_header b)" using wf(1) by simp
  ultimately show ?thesis using wf(1) by (simp add: read_block_def del: header_decode_Ok_iff)
qed

lemma read_block_dec:
  assumes "read_block bs = Ok (b, rest)"
  shows "bs = block_encode b @ rest \<and> wf_block b"
proof -
  have long: "\<not> length bs < HEADER_SIZE" using assms by (auto simp: read_block_def)
  with assms obtain h n b1 ts b2 m b3 us where
    r: "header_decode (take HEADER_SIZE bs) = Ok h" "read_count 10 (drop HEADER_SIZE bs) = Ok (n, b1)"
    "read_n read_block_tx n b1 = Ok (ts, b2)" "read_count HEADER_SIZE b2 = Ok (m, b3)"
    "read_n read_uncle m b3 = Ok (us, rest)"
    and b: "b = \<lparr>blk_header = h, blk_transactions = ts, blk_uncles = us\<rparr>"
    unfolding read_block_def
    by (simp only: if_False rbind_Ok_iff map_err_Ok_iff split_paired_Ex prod.case result.inject prod.inject) blast
  note t = btx.read_n_dec [OF r(3)] and u = uncle.read_n_dec [OF r(5)]
  have h: "wf_header h" "take HEADER_SIZE bs = header_encode h" using r(1) by auto
  have "bs = take HEADER_SIZE bs @ drop HEADER_SIZE bs" by simp
  also have "\<dots> = block_encode b @ rest"
    unfolding h(2) using r(2,4) t u b by (simp add: block_encode_def read_count_Ok_iff)
  finally show ?thesis using r(2,4) t u b h(1) by (simp add: wf_block_def read_count_Ok_iff)
qed

lemma read_block_no_panic [simp]: "read_block bs \<noteq> Panic"
  by (auto simp: read_block_def rbind_Panic_iff btx.read_n_no_panic uncle.read_n_no_panic split: prod.splits)

interpretation blk: codec block_encode read_block wf_block
  by unfold_locales (auto simp: read_block_enc dest: read_block_dec)

lemma block_decode_Ok_iff: "block_decode bs = Ok b \<longleftrightarrow> wf_block b \<and> bs = block_encode b"
proof
  assume "block_decode bs = Ok b"
  then obtain rest where r: "read_block bs = Ok (b, rest)" "length bs - length rest = length bs"
    by (auto simp: block_decode_def decode_prefix_def split: if_splits)
  from blk.enc_dec [OF r(1)] r(2) show "wf_block b \<and> bs = block_encode b" by auto
next
  assume "wf_block b \<and> bs = block_encode b"
  then show "block_decode bs = Ok b"
    using blk.dec_enc [of b "[]"] by (simp add: block_decode_def decode_prefix_def)
qed

lemma block_decode_no_panic [simp]: "block_decode bs \<noteq> Panic"
  by (auto simp: block_decode_def decode_prefix_def rbind_Panic_iff split: prod.splits if_splits)

lemma check_shapes_Ok_iff: "check_shapes ts = Ok u \<longleftrightarrow> (\<forall>t \<in> set ts. tx_check_shape t = Ok ())"
  by (induction ts) auto

lemma check_shapes_no_panic [simp]: "check_shapes ts \<noteq> Panic"
  by (induction ts) (auto simp: rbind_Panic_iff)

lemma block_check_shape_no_panic [simp]: "block_check_shape b \<noteq> Panic"
  by (auto simp: block_check_shape_def rbind_Panic_iff)

lemma block_check_shape_Ok_iff:
  "block_check_shape b = Ok u \<longleftrightarrow>
   (\<exists>c ts. blk_transactions b = c # ts \<and> tx_is_coinbase c \<and> (\<forall>t \<in> set ts. \<not> tx_is_coinbase t)) \<and>
   (\<forall>t \<in> set (blk_transactions b). tx_check_shape t = Ok ()) \<and>
   compute_merkle_root b = hdr_merkle_root (blk_header b) \<and>
   compute_uncles_root b = hdr_uncles_root (blk_header b)"
  by (cases "blk_transactions b") (auto simp: block_check_shape_def check_shapes_Ok_iff list_ex_iff)

text \<open>C7. The wire form of a block is canonical and self-delimiting: decoding accepts exactly the
  encodings of well-formed blocks; the prefix decoder finds the block at the start of any longer
  input, with its exact length; no input makes either panic.\<close>

theorem block_decode_canonical:
  "(block_decode bs = Ok b \<longleftrightarrow> wf_block b \<and> bs = block_encode b) \<and>
   (decode_prefix bs = Ok (b, n) \<longleftrightarrow> wf_block b \<and> n = length (block_encode b) \<and> take n bs = block_encode b) \<and>
   block_decode bs \<noteq> Panic"
proof -
  have "decode_prefix bs = Ok (b, n) \<longleftrightarrow> (\<exists>rest. wf_block b \<and> bs = block_encode b @ rest \<and> n = length (block_encode b))"
    by (auto simp: decode_prefix_def blk.dec_iff split: prod.splits)
  also have "\<dots> \<longleftrightarrow> wf_block b \<and> n = length (block_encode b) \<and> take n bs = block_encode b"
    by (metis append_eq_conv_conj)
  finally show ?thesis by (simp only: block_decode_Ok_iff block_decode_no_panic simp_thms)
qed

end
