(* ===== verification/Pow.thy ===== *)
theory Pow
  imports Block Uint256
begin

text \<open>
  Proof of work (\<open>src/src/pow.rs\<close>): compact targets, the work check with its difficulty floor, the
  registry of verdicts, the work of a block and the miners. An engine is the hash it computes on a
  header; the rule that compares the hash with the target is \<open>pow_check\<close>, common to all of them.

  \<open>Panic\<close> branches stand for \<open>expect\<close> and for arithmetic overflow and are shown unreachable.
\<close>

section \<open>Compact targets\<close>

datatype PowError = NegativeTarget | ZeroTarget | TargetTooLarge | TargetTooEasy | InsufficientWork

fun mul256_times :: "nat \<Rightarrow> U256 \<Rightarrow> (U256, PowError) result" where
  "mul256_times 0 v = Ok v"
| "mul256_times (Suc n) v = rbind (ok_or (u256_checked_mul_u64 v 256) TargetTooLarge) (mul256_times n)"

definition target_from_compact :: "u32 \<Rightarrow> (U256, PowError) result" where
  "target_from_compact bits =
     (let exponent = unat (drop_bit 24 bits);
          mantissa = bits AND 0x007fffff
      in if bits AND 0x00800000 \<noteq> 0 then Err NegativeTarget
         else if mantissa = 0 then Err ZeroTarget
         else rbind (if exponent \<le> 3 then Ok (u256_from_u64 (ucast (drop_bit (8 * (3 - exponent)) mantissa)))
                     else mul256_times (exponent - 3) (u256_from_u64 (ucast mantissa)))
                (\<lambda>target. if u256_is_zero target then Err ZeroTarget else Ok target))"

definition floor_target :: "(U256, PowError) result" where
  "floor_target = (case target_from_compact INITIAL_BITS of Ok t \<Rightarrow> Ok t | Err e \<Rightarrow> Panic | Panic \<Rightarrow> Panic)"

fun shift_in :: "u32 \<Rightarrow> byte list \<Rightarrow> u32" where
  "shift_in v [] = v"
| "shift_in v (b # bs) = shift_in (push_bit 8 v OR ucast b) bs"

definition target_to_compact :: "U256 \<Rightarrow> u32" where
  "target_to_compact target =
     (if u256_is_zero target then 0
      else
        let bytes = u256_to_be_bytes target;
            exponent = (u256_bits target + 7) div 8;
            start = 32 - exponent;
            mantissa =
              (if exponent \<le> 3 then push_bit (8 * (3 - exponent)) (shift_in 0 (drop start bytes))
               else push_bit 16 (ucast (bytes ! start)) OR push_bit 8 (ucast (bytes ! (start + 1)))
                    OR ucast (bytes ! (start + 2)));
            (mantissa, exponent) =
              (if mantissa AND 0x00800000 \<noteq> 0 then (drop_bit 8 mantissa, exponent + 1)
               else (mantissa, exponent))
        in push_bit 24 (of_nat exponent) OR mantissa)"

section \<open>The check\<close>

definition pow_check :: "(block_header \<Rightarrow> hash256) \<Rightarrow> block_header \<Rightarrow> (unit, PowError) result" where
  "pow_check hash header =
     rbind (target_from_compact (hdr_bits header)) (\<lambda>target.
     rbind floor_target (\<lambda>fl.
     if fl < target then Err TargetTooEasy
     else if target < u256_from_be_bytes (hash header) then Err InsufficientWork
     else Ok ()))"

definition TAG_POW :: string where
  "TAG_POW = ''Q21/pow/sha256-provisional''"

definition sha256_pow_hash :: "block_header \<Rightarrow> hash256" where
  "sha256_pow_hash header = tagged_hash TAG_POW (header_encode header)"

section \<open>The registry of verdicts\<close>

definition WORK_MEMO_MAX :: nat where
  "WORK_MEMO_MAX = 4096"

record work_memo =
  memo_verdicts :: "(hash256, (unit, PowError) result) hmap"
  memo_order :: "hash256 list"
  memo_hits :: u64
  memo_computed :: u64

definition memo_new :: work_memo where
  "memo_new = \<lparr>memo_verdicts = [], memo_order = [], memo_hits = 0, memo_computed = 0\<rparr>"

definition memo_verdict :: "work_memo \<Rightarrow> hash256 \<Rightarrow> (unit, PowError) result option" where
  "memo_verdict m i = hget (memo_verdicts m) i"

fun memo_trim :: "hash256 list \<Rightarrow> (hash256, (unit, PowError) result) hmap
    \<Rightarrow> hash256 list \<times> (hash256, (unit, PowError) result) hmap" where
  "memo_trim [] vs = ([], vs)"
| "memo_trim (q # qs) vs =
     (if length (q # qs) > WORK_MEMO_MAX then memo_trim qs (hdel q vs) else (q # qs, vs))"

definition memo_record :: "work_memo \<Rightarrow> hash256 \<Rightarrow> (unit, PowError) result \<Rightarrow> work_memo" where
  "memo_record m i v =
     (let vs = hput i v (memo_verdicts m)
      in if hget (memo_verdicts m) i = None then
           (case memo_trim (memo_order m @ [i]) vs of
              (q, vs') \<Rightarrow> m\<lparr>memo_order := q, memo_verdicts := vs'\<rparr>)
         else m\<lparr>memo_verdicts := vs\<rparr>)"

definition memo_len :: "work_memo \<Rightarrow> nat" where
  "memo_len m = length (memo_verdicts m)"

definition memo_is_empty :: "work_memo \<Rightarrow> bool" where
  "memo_is_empty m \<longleftrightarrow> memo_len m = 0"

definition memoized_check ::
  "(block_header \<Rightarrow> hash256) \<Rightarrow> work_memo \<Rightarrow> block_header \<Rightarrow> (unit, PowError) result \<times> work_memo" where
  "memoized_check hash m header =
     (let i = block_id header
      in case memo_verdict m i of
           Some v \<Rightarrow> (v, m\<lparr>memo_hits := memo_hits m + 1\<rparr>)
         | None \<Rightarrow>
             let m = m\<lparr>memo_computed := memo_computed m + 1\<rparr>;
                 v = pow_check hash header
             in (v, memo_record m i v))"

section \<open>Work\<close>

text \<open>The \<open>Panic\<close> of the long division is unreachable (\<open>u256_div_rem_val\<close>).\<close>

definition block_work :: "u32 \<Rightarrow> U256" where
  "block_work bits =
     (case target_from_compact bits of
        Ok target \<Rightarrow>
          (case u256_checked_add target U256_ONE of
             None \<Rightarrow> U256_ONE
           | Some denom \<Rightarrow>
               (case u256_div_rem (u256_not target) denom of
                  Ok (q, _) \<Rightarrow> (case u256_checked_add q U256_ONE of Some w \<Rightarrow> w | None \<Rightarrow> q)
                | Err _ \<Rightarrow> U256_ZERO
                | Panic \<Rightarrow> U256_ZERO))
      | _ \<Rightarrow> U256_ZERO)"

section \<open>Mining\<close>

text \<open>
  A miner returns the number of the winning attempt, or the number of attempts made, with the header
  it leaves behind. \<open>hash\<close> is \<open>hash_mining\<close> with the table of the epoch, or the hash of the engine.
\<close>

fun mine_loop :: "(block_header \<Rightarrow> hash256) \<Rightarrow> U256 \<Rightarrow> nat \<Rightarrow> nat \<Rightarrow> block_header \<Rightarrow> nat option \<times> block_header" where
  "mine_loop hash target attempt 0 h = (None, h)"
| "mine_loop hash target attempt (Suc n) h =
     (if u256_from_be_bytes (hash h) \<le> target then (Some attempt, h)
      else mine_loop hash target (attempt + 1) n (h\<lparr>hdr_nonce := hdr_nonce h + 1\<rparr>))"

definition mine :: "(block_header \<Rightarrow> hash256) \<Rightarrow> block_header \<Rightarrow> nat \<Rightarrow> (nat, nat) result \<times> block_header" where
  "mine hash header max_tries =
     (case target_from_compact (hdr_bits header) of
        Ok target \<Rightarrow>
          (case mine_loop hash target 0 max_tries header of
             (Some attempt, h) \<Rightarrow> (Ok attempt, h)
           | (None, h) \<Rightarrow> (Err max_tries, h))
      | _ \<Rightarrow> (Err 0, header))"

definition mine_with_table :: "(block_header \<Rightarrow> hash256) \<Rightarrow> block_header \<Rightarrow> nat \<Rightarrow> (nat, nat) result \<times> block_header" where
  "mine_with_table hash header max_tries =
     (case target_from_compact (hdr_bits header) of
        Ok target \<Rightarrow>
          (case mine_loop hash target 0 max_tries header of
             (Some attempt, h) \<Rightarrow> (Ok attempt, h)
           | (None, h) \<Rightarrow> (Err max_tries, h))
      | _ \<Rightarrow> (Err 0, header))"

definition BATCH_PER_THREAD :: nat where
  "BATCH_PER_THREAD = 512"

text \<open>One thread of a wave: nonces \<open>first\<close>, \<open>first + 1\<close>, \dots\<close>

definition thread_search :: "(block_header \<Rightarrow> hash256) \<Rightarrow> U256 \<Rightarrow> block_header \<Rightarrow> u64 \<Rightarrow> nat \<Rightarrow> nat \<Rightarrow> nat \<Rightarrow> nat \<Rightarrow> nat option" where
  "thread_search hash target h base don per_thread f n =
     map_option (\<lambda>k. don + f * per_thread + k)
       (find (\<lambda>k. u256_from_be_bytes
                (hash (h\<lparr>hdr_nonce := base + of_nat (f * per_thread) + of_nat k\<rparr>)) \<le> target) [0..<n])"

definition wave_winner :: "nat option list \<Rightarrow> nat option" where
  "wave_winner rs = (case List.map_filter id rs of [] \<Rightarrow> None | x # xs \<Rightarrow> Some (fold min xs x))"

definition wave :: "(block_header \<Rightarrow> hash256) \<Rightarrow> U256 \<Rightarrow> block_header \<Rightarrow> u64 \<Rightarrow> nat \<Rightarrow> nat \<Rightarrow> nat \<Rightarrow> nat option" where
  "wave hash target h base don per_thread threads =
     wave_winner (map (\<lambda>f. thread_search hash target h base don per_thread f per_thread) [0..<threads])"

definition wave_size :: "nat \<Rightarrow> nat \<Rightarrow> nat \<Rightarrow> nat" where
  "wave_size don max_tries threads =
     max (min BATCH_PER_THREAD ((max_tries - don + (threads - 1)) div threads)) 1"

lemma wave_size_pos [simp]: "0 < wave_size don max_tries threads"
  by (simp add: wave_size_def)

function waves :: "(block_header \<Rightarrow> hash256) \<Rightarrow> U256 \<Rightarrow> block_header \<Rightarrow> u64 \<Rightarrow> nat \<Rightarrow> nat \<Rightarrow> nat \<Rightarrow> nat option" where
  "waves hash target h start don max_tries threads =
     (if don < max_tries \<and> 0 < threads then
        let per_thread = wave_size don max_tries threads
        in case wave hash target h (start + of_nat don) don per_thread threads of
             Some attempt \<Rightarrow> Some attempt
           | None \<Rightarrow> waves hash target h start (don + per_thread * threads) max_tries threads
      else None)"
  by pat_completeness auto
termination
  by (relation "measure (\<lambda>(hash, target, h, start, don, max_tries, threads). max_tries - don)")
    (auto intro!: diff_less_mono2)

declare waves.simps [simp del]

definition mine_with_table_parallel ::
  "(block_header \<Rightarrow> hash256) \<Rightarrow> block_header \<Rightarrow> nat \<Rightarrow> nat \<Rightarrow> (nat, nat) result \<times> block_header" where
  "mine_with_table_parallel hash header max_tries threads =
     (let threads = max threads 1
      in if threads = 1 then mine_with_table hash header max_tries
         else case target_from_compact (hdr_bits header) of
           Ok target \<Rightarrow>
             let start = hdr_nonce header;
                 probe = min BATCH_PER_THREAD max_tries
             in (case mine_loop hash target 0 probe header of
                   (Some attempt, h) \<Rightarrow> (Ok attempt, h)
                 | (None, h) \<Rightarrow>
                     (case waves hash target h start probe max_tries threads of
                        Some attempt \<Rightarrow> (Ok attempt, h\<lparr>hdr_nonce := start + of_nat attempt\<rparr>)
                      | None \<Rightarrow> (Err max_tries, h\<lparr>hdr_nonce := start + of_nat max_tries\<rparr>)))
         | _ \<Rightarrow> (Err 0, header))"

section \<open>Compact targets are exact\<close>

lemma mul256_times_Ok:
  "mul256_times n v = Ok t \<longleftrightarrow> uval t = uval v * 256 ^ n"
proof (induction n arbitrary: v)
  case 0
  then show ?case by (auto simp: uval_inj)
next
  case (Suc n)
  show ?case
  proof (cases "u256_checked_mul_u64 v 256")
    case None
    then have no: "uval z \<noteq> uval v * 256" for z
      using u256_checked_mul_u64_Some [of v 256 z] by auto
    have "2 ^ 256 \<le> uval v * 256"
    proof (rule ccontr)
      assume "\<not> 2 ^ 256 \<le> uval v * 256"
      then obtain z where "uval z = uval v * 256" using uval_surj [of "uval v * 256"] by auto
      with no show False by blast
    qed
    also have "\<dots> \<le> uval v * 256 ^ Suc n" by (simp add: mult_le_mono2)
    finally have "uval t \<noteq> uval v * 256 ^ Suc n" using uval_lt [of t] by linarith
    with None show ?thesis by simp
  next
    case (Some z)
    then have "uval z = uval v * 256" by (simp add: u256_checked_mul_u64_Some)
    with Some Suc.IH show ?thesis by (simp add: mult.assoc)
  qed
qed

lemma mul256_times_no_panic [simp]: "mul256_times n v \<noteq> Panic"
  by (induction n arbitrary: v) (auto simp: rbind_Panic_iff)

lemma target_from_compact_no_panic [simp]: "target_from_compact b \<noteq> Panic"
  by (auto simp: target_from_compact_def Let_def rbind_Panic_iff split: if_splits)

text \<open>The number a compact target stands for.\<close>

definition compact_value :: "nat \<Rightarrow> nat \<Rightarrow> nat" where
  "compact_value e m = (if e \<le> 3 then m div 256 ^ (3 - e) else m * 256 ^ (e - 3))"

definition bits_exponent :: "u32 \<Rightarrow> nat" where
  "bits_exponent b = unat b div 2 ^ 24"

definition bits_mantissa :: "u32 \<Rightarrow> nat" where
  "bits_mantissa b = unat b mod 2 ^ 23"

lemma unat_drop_bit: "unat (drop_bit n w) = unat w div 2 ^ n" for w :: "'a::len word"
  by (metis drop_bit_eq_div unsigned_drop_bit_eq unsigned_take_bit_eq take_bit_length_eq)

lemma bit_unat_iff: "bit w n \<longleftrightarrow> odd (unat w div 2 ^ n)" for w :: "'a::len word"
  by (simp add: bit_iff_odd [symmetric] bit_unsigned_iff)

lemma bits_fields:
  "unat (drop_bit 24 b) = bits_exponent b" "unat (b AND 0x007fffff :: u32) = bits_mantissa b"
  "b AND 0x00800000 = 0 \<longleftrightarrow> even (unat b div 2 ^ 23)"
proof -
  show "unat (drop_bit 24 b) = bits_exponent b"
    by (simp add: bits_exponent_def unat_drop_bit)
  have "b AND mask 23 = take_bit 23 b" by (simp add: take_bit_eq_mask)
  moreover have "(mask 23 :: u32) = 0x007fffff" by (simp add: mask_eq_exp_minus_1)
  ultimately show "unat (b AND 0x007fffff) = bits_mantissa b"
    by (metis bits_mantissa_def take_bit_eq_mod unsigned_take_bit_eq)
  have "(0x00800000 :: u32) = push_bit 23 1" by simp
  then have "b AND 0x00800000 = 0 \<longleftrightarrow> \<not> bit b 23"
    by (simp add: and_exp_eq_0_iff_not_bit [of b 23, simplified])
  also have "\<dots> \<longleftrightarrow> even (unat b div 2 ^ 23)"
    by (simp only: bit_unat_iff not_not)
  finally show "b AND 0x00800000 = 0 \<longleftrightarrow> even (unat b div 2 ^ 23)" .
qed

lemma target_from_compact_Ok_iff:
  "target_from_compact b = Ok t \<longleftrightarrow>
   even (unat b div 2 ^ 23) \<and> 0 < uval t \<and> uval t = compact_value (bits_exponent b) (bits_mantissa b)"
proof -
  let ?e = "bits_exponent b" and ?m = "bits_mantissa b"
  have m: "?m < 2 ^ 23" by (simp add: bits_mantissa_def)
  have uc: "unat (ucast w :: u64) = unat w" for w :: u32
    by (simp add: unsigned_ucast_eq take_bit_nat_eq_self unsigned_less [THEN less_le_trans])
  have sh: "unat (drop_bit (8 * (3 - ?e)) (b AND 0x007fffff)) = ?m div 256 ^ (3 - ?e)"
    by (simp only: unat_drop_bit bits_fields power_mult) simp
  have z: "b AND 0x007fffff = 0 \<longleftrightarrow> ?m = 0" by (metis bits_fields(2) unat_eq_0)
  consider "odd (unat b div 2 ^ 23)" | "even (unat b div 2 ^ 23)" "?m = 0"
    | "even (unat b div 2 ^ 23)" "?m \<noteq> 0" "?e \<le> 3" | "even (unat b div 2 ^ 23)" "?m \<noteq> 0" "3 < ?e"
    by linarith
  then show ?thesis
  proof cases
    case 3
    have "target_from_compact b = (let t = u256_from_u64 (ucast (drop_bit (8 * (3 - ?e)) (b AND 0x007fffff)))
        in if u256_is_zero t then Err ZeroTarget else Ok t)"
      using 3 z by (simp add: target_from_compact_def Let_def bits_fields(1,3))
    then show ?thesis using 3 uc sh by (auto simp: Let_def compact_value_def uval_inj [symmetric])
  next
    case 4
    have "target_from_compact b = rbind (mul256_times (?e - 3) (u256_from_u64 (ucast (b AND 0x007fffff))))
        (\<lambda>t. if u256_is_zero t then Err ZeroTarget else Ok t)"
      using 4 z by (simp add: target_from_compact_def Let_def bits_fields(1,3))
    then show ?thesis using 4 uc bits_fields(2) by (auto simp: compact_value_def mul256_times_Ok)
  qed (use z in \<open>auto simp: target_from_compact_def Let_def bits_fields(1,3) compact_value_def\<close>)
qed

lemma floor_target_eq: "\<exists>f. floor_target = Ok f \<and> uval f = 0xffff * 256 ^ 29"
proof -
  obtain f where f: "uval f = 0xffff * 256 ^ 29" using uval_surj [of "0xffff * 256 ^ 29"] by auto
  then have "target_from_compact INITIAL_BITS = Ok f"
    by (simp add: target_from_compact_Ok_iff INITIAL_BITS_def bits_exponent_def bits_mantissa_def compact_value_def)
  with f show ?thesis by (simp add: floor_target_def)
qed

lemma pow_check_no_panic [simp]: "pow_check hash h \<noteq> Panic"
  using floor_target_eq by (auto simp: pow_check_def rbind_Panic_iff)

lemma pow_check_Ok_iff:
  "pow_check hash h = Ok u \<longleftrightarrow>
   (\<exists>t. target_from_compact (hdr_bits h) = Ok t \<and> uval t \<le> 0xffff * 256 ^ 29 \<and>
        uval (u256_from_be_bytes (hash h)) \<le> uval t)"
proof -
  obtain f where f: "floor_target = Ok f" "uval f = 0xffff * 256 ^ 29" using floor_target_eq by blast
  show ?thesis by (cases "target_from_compact (hdr_bits h)") (auto simp: pow_check_def f not_less)
qed

section \<open>Work\<close>

lemma block_work_val:
  assumes "target_from_compact b = Ok t"
  shows "uval (block_work b) = 2 ^ 256 div (uval t + 1)"
proof (cases "u256_checked_add t U256_ONE")
  case None
  then have "2 ^ 256 \<le> uval t + 1" by (simp add: u256_checked_add_None)
  then have "uval t + 1 = 2 ^ 256" using uval_lt [of t] by simp
  with assms None show ?thesis by (simp add: block_work_def)
next
  case (Some d)
  then have d: "uval d = uval t + 1" by (simp add: u256_checked_add_Some)
  then have "0 < uval d" by simp
  from u256_div_rem_val [OF this, of "u256_not t"] obtain q r where
    q: "u256_div_rem (u256_not t) d = Ok (q, r)" "uval q = uval (u256_not t) div uval d" by blast
  have "0 < uval t" using assms by (simp add: target_from_compact_Ok_iff)
  have "2 ^ 256 = uval (u256_not t) + uval d"
    using uval_lt [of t] by (simp add: u256_not_val d)
  moreover have "(uval (u256_not t) + uval d) div uval d = uval (u256_not t) div uval d + 1"
    by (rule div_add_self2) (use \<open>0 < uval d\<close> in simp)
  ultimately have "2 ^ 256 div uval d = uval (u256_not t) div uval d + 1" by (simp only:)
  then have sum: "uval q + 1 = 2 ^ 256 div (uval t + 1)" using q(2) d by simp
  have "2 ^ 256 div (uval t + 1) \<le> 2 ^ 256 div 2" using \<open>0 < uval t\<close> by (intro div_le_mono2) auto
  then have "uval q + 1 < 2 ^ 256" using sum by simp
  then obtain w where w: "u256_checked_add q U256_ONE = Some w"
    by (metis not_None_eq u256_checked_add_None not_le uval_consts(2))
  then have "uval w = uval q + 1" by (simp add: u256_checked_add_Some)
  with assms Some q w sum show ?thesis by (simp add: block_work_def)
qed

text \<open>The work credited to a valid target is exactly \<open>2 ^ 256 div (target + 1)\<close>, the expected
  number of attempts, although that power does not fit in the type; a target that does not decode is
  credited with nothing; a harder target is never credited with less.\<close>

theorem block_work_exact:
  "(case target_from_compact b of
      Ok t \<Rightarrow> uval (block_work b) = 2 ^ 256 div (uval t + 1) \<and>
        (case target_from_compact b' of
           Ok t' \<Rightarrow> uval t < uval t' \<or> uval (block_work b) \<le> uval (block_work b')
         | _ \<Rightarrow> True)
    | _ \<Rightarrow> uval (block_work b) = 0)"
proof (cases "target_from_compact b")
  case (Ok t)
  show ?thesis
  proof (cases "target_from_compact b'")
    case Ok': (Ok t')
    from div_le_mono2 [of "uval t' + 1" "uval t + 1" "2 ^ 256"] show ?thesis
      using Ok Ok' by (cases "uval t < uval t'") (simp_all add: block_work_val)
  qed (simp_all add: Ok block_work_val)
qed (simp_all add: block_work_def)

section \<open>Compacting a target\<close>

lemma nat_shift_or: "y < 2 ^ n \<Longrightarrow> push_bit n x OR y = 2 ^ n * x + y" for x y :: nat
proof -
  assume y: "y < 2 ^ n"
  have "\<not> bit y k" if "n \<le> k" for k
    using y that by (metis bit_take_bit_iff not_less take_bit_nat_eq_self)
  then have "push_bit n x + y = push_bit n x OR y"
    by (intro disjunctive_add) (auto simp: bit_push_bit_iff)
  then show ?thesis by (simp add: push_bit_eq_mult mult.commute)
qed

lemma unat_shift_or:
  assumes "unat v < 2 ^ (32 - n)" "n \<le> 32" "unat w < 2 ^ n"
  shows "unat (push_bit n v OR w :: u32) = 2 ^ n * unat v + unat w"
proof -
  have "2 ^ n * unat v < 2 ^ n * 2 ^ (32 - n)" using assms(1) by simp
  also have "\<dots> = 2 ^ 32" using assms(2) by (simp add: power_add [symmetric])
  finally have "unat (push_bit n v) = push_bit n (unat v)"
    by (simp only: unsigned_push_bit_eq) (simp add: take_bit_eq_mod push_bit_eq_mult mult.commute)
  then show ?thesis using nat_shift_or [OF assms(3), of "unat v"] by (simp only: unsigned_or_eq)
qed

lemma unat_ucast_byte: "unat (ucast (b :: byte) :: u32) = unat b" "unat b < 2 ^ 8"
  using unat_lt [of b]
  by (simp_all add: unsigned_ucast_eq take_bit_nat_eq_self)

lemma shift_in_val:
  "unat v * 256 ^ length bs + be_val bs < 2 ^ 32 \<Longrightarrow>
   unat (shift_in v bs) = unat v * 256 ^ length bs + be_val bs"
proof (induction bs arbitrary: v)
  case Nil
  then show ?case by (simp add: be_val_def)
next
  case (Cons b bs)
  have be: "be_val (b # bs) = unat b * 256 ^ length bs + be_val bs"
    using be_val_append [of "[b]" bs] by (simp add: be_val_def)
  have "unat v * 256 \<le> unat v * 256 ^ length (b # bs)" by simp
  with Cons.prems have "unat v * 256 < 2 ^ 32" by linarith
  then have "unat v < 2 ^ (32 - 8)" by simp
  then have s: "unat (push_bit 8 v OR ucast b) = 2 ^ 8 * unat v + unat b"
    using unat_shift_or [of v 8 "ucast b"] unat_ucast_byte [of b] by simp
  have e: "unat v * 256 ^ length (b # bs) + be_val (b # bs)
      = unat (push_bit 8 v OR ucast b) * 256 ^ length bs + be_val bs"
    unfolding s be by (simp add: algebra_simps)
  show ?case using Cons.IH [of "push_bit 8 v OR ucast b"] Cons.prems unfolding e by simp
qed

lemma take_le_bytes: "k \<le> n \<Longrightarrow> take k (le_bytes n v) = le_bytes k v"
proof (induction k arbitrary: n v)
  case (Suc k)
  then show ?case by (cases n) auto
qed simp

lemma drop_le_bytes: "drop k (le_bytes (k + n) v) = le_bytes n (v div 256 ^ k)"
  by (induction k arbitrary: v) (simp_all add: div_mult2_eq)

lemma drop_be_bytes: "k \<le> n \<Longrightarrow> drop (n - k) (be_bytes n v) = be_bytes k v"
  by (simp add: be_bytes_def drop_rev take_le_bytes)

lemma take_be_bytes: "take k (be_bytes (k + j) v) = be_bytes k (v div 256 ^ j)"
  using drop_le_bytes [of j k v] by (simp add: be_bytes_def take_rev add.commute)

lemma u256_to_be_bytes_eq: "u256_to_be_bytes u = be_bytes 32 (uval u)"
  using be_bytes_be_val [of "u256_to_be_bytes u"] by (simp add: u256_to_be_bytes_val)

text \<open>The length in bytes of a non-zero target.\<close>

lemma byte_length:
  assumes "0 < uval t"
  defines "e \<equiv> (u256_bits t + 7) div 8"
  shows "1 \<le> e" "e \<le> 32" "256 ^ (e - 1) \<le> uval t" "uval t < 256 ^ e"
proof -
  let ?b = "u256_bits t"
  have b: "0 < ?b" using u256_bits_val [of t] assms(1) by (cases ?b) auto
  then have lo: "2 ^ (?b - 1) \<le> uval t" and hi: "uval t < 2 ^ ?b" using u256_bits_val [of t] by auto
  have "(2 :: nat) ^ (?b - 1) < 2 ^ 256" using lo uval_lt [of t] by linarith
  then have "?b - 1 < 256" by (rule power_less_imp_less_exp [rotated]) simp
  then have b256: "?b \<le> 256" by simp
  show "1 \<le> e" "e \<le> 32" using b b256 by (auto simp: e_def)
  have p: "(256 :: nat) ^ k = 2 ^ (8 * k)" for k by (simp add: power_mult)
  have "8 * (e - 1) \<le> ?b - 1" "?b \<le> 8 * e" using b by (auto simp: e_def)
  then have "(2 :: nat) ^ (8 * (e - 1)) \<le> 2 ^ (?b - 1)" "(2 :: nat) ^ ?b \<le> 2 ^ (8 * e)"
    by (auto intro: power_increasing)
  then show "256 ^ (e - 1) \<le> uval t" "uval t < 256 ^ e"
    unfolding p using lo hi by linarith+
qed

text \<open>The mantissa before the sign bit is cleared.\<close>

definition raw_mantissa :: "nat \<Rightarrow> nat \<Rightarrow> nat" where
  "raw_mantissa e T = (if e \<le> 3 then T * 256 ^ (3 - e) else T div 256 ^ (e - 3))"

lemma raw_mantissa_bounds:
  assumes "1 \<le> e" "256 ^ (e - 1) \<le> T" "T < 256 ^ e"
  shows "2 ^ 16 \<le> raw_mantissa e T" "raw_mantissa e T < 2 ^ 24"
proof -
  have *: "2 ^ 16 \<le> raw_mantissa e T \<and> raw_mantissa e T < 2 ^ 24"
  proof (cases "e \<le> 3")
    case True
    then have s: "(256 :: nat) ^ (e - 1) * 256 ^ (3 - e) = 2 ^ 16" "(256 :: nat) ^ e * 256 ^ (3 - e) = 2 ^ 24"
      using assms(1) by (simp_all add: power_add [symmetric])
    have "256 ^ (e - 1) * 256 ^ (3 - e) \<le> T * 256 ^ (3 - e)" "T * 256 ^ (3 - e) < 256 ^ e * 256 ^ (3 - e)"
      using assms(2,3) by simp_all
    then show ?thesis using True unfolding s by (simp add: raw_mantissa_def)
  next
    case False
    then have "e - 1 = 2 + (e - 3)" "e = 3 + (e - 3)" by auto
    then have "(256 :: nat) ^ (e - 1) = 256 ^ 2 * 256 ^ (e - 3)" "(256 :: nat) ^ e = 256 ^ 3 * 256 ^ (e - 3)"
      by (metis power_add)+
    then have s: "(256 :: nat) ^ (e - 1) = 2 ^ 16 * 256 ^ (e - 3)" "(256 :: nat) ^ e = 2 ^ 24 * 256 ^ (e - 3)"
      by simp_all
    have "2 ^ 16 \<le> T div 256 ^ (e - 3)"
      using assms(2) unfolding s by (simp add: less_eq_div_iff_mult_less_eq)
    moreover have "T div 256 ^ (e - 3) < 2 ^ 24"
      using assms(3) unfolding s by (rule less_mult_imp_div_less)
    ultimately show ?thesis using False by (simp add: raw_mantissa_def)
  qed
  then show "2 ^ 16 \<le> raw_mantissa e T" "raw_mantissa e T < 2 ^ 24" by auto
qed

text \<open>Exponent and mantissa of the compact form.\<close>

definition fit_exponent :: "nat \<Rightarrow> nat \<Rightarrow> nat" where
  "fit_exponent e T = (if 2 ^ 23 \<le> raw_mantissa e T then e + 1 else e)"

lemma raw_mantissa_Suc: "1 \<le> e \<Longrightarrow> raw_mantissa e T div 256 = raw_mantissa (Suc e) T"
proof -
  assume e: "1 \<le> e"
  consider "e < 3" | "e = 3" | "3 < e" by linarith
  then show ?thesis
  proof cases
    case 1
    then have "3 - e = Suc (2 - e)" by simp
    then show ?thesis using 1 by (simp add: raw_mantissa_def)
  next
    case 3
    then have "Suc e - 3 = Suc (e - 3)" by simp
    moreover have "T div 256 ^ Suc (e - 3) = T div 256 ^ (e - 3) div 256"
      by (simp only: power_Suc2 div_mult2_eq)
    ultimately show ?thesis using 3 by (simp add: raw_mantissa_def del: power_Suc)
  qed (simp add: raw_mantissa_def)
qed

lemma fit_mantissa:
  assumes "1 \<le> e" "256 ^ (e - 1) \<le> T" "T < 256 ^ e"
  shows "2 ^ 15 \<le> raw_mantissa (fit_exponent e T) T" "raw_mantissa (fit_exponent e T) T < 2 ^ 23"
proof -
  note b = raw_mantissa_bounds [OF assms]
  have "2 ^ 15 \<le> raw_mantissa (fit_exponent e T) T \<and> raw_mantissa (fit_exponent e T) T < 2 ^ 23"
  proof (cases "2 ^ 23 \<le> raw_mantissa e T")
    case True
    then have "raw_mantissa (fit_exponent e T) T = raw_mantissa e T div 256"
      using raw_mantissa_Suc [OF assms(1)] by (simp add: fit_exponent_def)
    moreover have "2 ^ 15 \<le> raw_mantissa e T div 256" using True by (simp add: less_eq_div_iff_mult_less_eq)
    moreover have "raw_mantissa e T div 256 < 2 ^ 16" using b(2) by (simp add: less_mult_imp_div_less)
    ultimately show ?thesis by simp
  next
    case False
    then show ?thesis using b(1) by (simp add: fit_exponent_def)
  qed
  then show "2 ^ 15 \<le> raw_mantissa (fit_exponent e T) T" "raw_mantissa (fit_exponent e T) T < 2 ^ 23"
    by auto
qed

lemma be_val_3: "be_val [a, b, c] = 256 * (256 * unat a + unat b) + unat c"
  by (simp add: be_val_def)

lemma or_three_bytes:
  "push_bit 16 (ucast a) OR push_bit 8 (ucast b) OR ucast c = shift_in 0 [a, b, c]" for a b c :: byte
  by (rule bit_word_eqI) (auto simp: bit_simps)

lemma take_3_drop: "i + 3 \<le> length B \<Longrightarrow> take 3 (drop i B) = [B ! i, B ! (i + 1), B ! (i + 2)]"
  by (simp add: numeral_3_eq_3 take_Suc_conv_app_nth)

lemma raw_mantissa_code:
  assumes "0 < uval t"
  defines "e \<equiv> (u256_bits t + 7) div 8" and "B \<equiv> u256_to_be_bytes t"
  shows "unat (if e \<le> 3 then push_bit (8 * (3 - e)) (shift_in 0 (drop (32 - e) B))
               else push_bit 16 (ucast (B ! (32 - e))) OR push_bit 8 (ucast (B ! (32 - e + 1)))
                    OR ucast (B ! (32 - e + 2)) :: u32) = raw_mantissa e (uval t)"
proof -
  note len = byte_length [OF assms(1), folded e_def]
  note m = raw_mantissa_bounds [OF len(1,3,4)]
  have d: "drop (32 - e) B = be_bytes e (uval t)"
    unfolding B_def u256_to_be_bytes_eq by (rule drop_be_bytes [OF len(2)])
  have v: "be_val (be_bytes e (uval t)) = uval t"
    using len(4) by (simp add: be_val_be_bytes)
  show ?thesis
  proof (cases "e \<le> 3")
    case True
    have "(256 :: nat) ^ e \<le> 256 ^ 3" using True by (intro power_increasing) simp_all
    then have s: "unat (shift_in 0 (drop (32 - e) B)) = uval t"
      using shift_in_val [of 0 "be_bytes e (uval t)"] v len(4) d by simp
    have "uval t * 256 ^ (3 - e) < 2 ^ 32" using m(2) True by (simp add: raw_mantissa_def)
    then have "unat (push_bit (8 * (3 - e)) (shift_in 0 (drop (32 - e) B))) = uval t * 256 ^ (3 - e)"
      by (simp only: unsigned_push_bit_eq s) (simp add: take_bit_eq_mod push_bit_eq_mult power_mult)
    then show ?thesis using True by (simp add: raw_mantissa_def)
  next
    case False
    then have e: "e = 3 + (e - 3)" by simp
    have "take 3 (drop (32 - e) B) = be_bytes 3 (uval t div 256 ^ (e - 3))"
      unfolding d by (subst e) (rule take_be_bytes)
    moreover have "take 3 (drop (32 - e) B) = [B ! (32 - e), B ! (32 - e + 1), B ! (32 - e + 2)]"
      by (rule take_3_drop) (use len(2) False in \<open>simp add: B_def\<close>)
    ultimately have "be_val [B ! (32 - e), B ! (32 - e + 1), B ! (32 - e + 2)] = raw_mantissa e (uval t)"
      using m(2) False by (simp add: be_val_be_bytes raw_mantissa_def)
    then show ?thesis
      using False m(2) shift_in_val [of 0 "[B ! (32 - e), B ! (32 - e + 1), B ! (32 - e + 2)]"]
      by (simp add: or_three_bytes)
  qed
qed

lemma target_to_compact_unat:
  assumes "0 < uval t"
  defines "e \<equiv> (u256_bits t + 7) div 8"
  shows "unat (target_to_compact t) =
    2 ^ 24 * fit_exponent e (uval t) + raw_mantissa (fit_exponent e (uval t)) (uval t)"
proof -
  let ?T = "uval t" and ?B = "u256_to_be_bytes t"
  let ?m = "if e \<le> 3 then push_bit (8 * (3 - e)) (shift_in 0 (drop (32 - e) ?B))
               else push_bit 16 (ucast (?B ! (32 - e))) OR push_bit 8 (ucast (?B ! (32 - e + 1)))
                    OR ucast (?B ! (32 - e + 2)) :: u32"
  note len = byte_length [OF assms(1), folded e_def]
  have m: "unat ?m = raw_mantissa e ?T" unfolding e_def by (rule raw_mantissa_code [OF assms(1)])
  have m24: "unat ?m < 2 ^ 24" using raw_mantissa_bounds(2) [OF len(1,3,4)] m by simp
  have "?m AND 0x00800000 = 0 \<longleftrightarrow> even (unat ?m div 2 ^ 23)" by (rule bits_fields(3))
  moreover have "unat ?m div 2 ^ 23 < 2" using m24 by (intro less_mult_imp_div_less) simp
  ultimately have sgn: "?m AND 0x00800000 \<noteq> 0 \<longleftrightarrow> 2 ^ 23 \<le> unat ?m"
    by (auto simp: less_2_cases_iff not_less div_eq_0_iff)
  let ?e' = "fit_exponent e ?T" and ?m' = "if 2 ^ 23 \<le> unat ?m then drop_bit 8 ?m else ?m"
  have m': "unat ?m' = raw_mantissa ?e' ?T"
    using raw_mantissa_Suc [OF len(1), of ?T] m by (simp add: fit_exponent_def unat_drop_bit)
  have e': "?e' < 256" using len(2) by (simp add: fit_exponent_def)
  have "target_to_compact t = push_bit 24 (of_nat ?e') OR ?m'"
    using assms(1) sgn m by (simp add: target_to_compact_def Let_def e_def [symmetric] fit_exponent_def)
  moreover have "unat (of_nat ?e' :: u32) = ?e'" using e' by (simp add: unat_of_nat)
  moreover have "unat ?m' < 2 ^ 24" using fit_mantissa(2) [OF len(1,3,4)] m' by simp
  ultimately show ?thesis
    using unat_shift_or [of "of_nat ?e'" 24 ?m'] e' m' by simp
qed

lemma compact_fields:
  "unat b = 2 ^ 24 * e + m \<Longrightarrow> m < 2 ^ 23 \<Longrightarrow>
   bits_exponent b = e \<and> bits_mantissa b = m \<and> even (unat b div 2 ^ 23)"
proof -
  assume u: "unat b = 2 ^ 24 * e + m" and m: "m < 2 ^ 23"
  have "(2 ^ 24 * e + m) div 2 ^ 24 = e" using m by simp
  moreover have "(2 ^ 23 * (2 * e) + m) mod 2 ^ 23 = m" using m by (simp del: power_numeral)
  moreover have "(2 ^ 23 * (2 * e) + m) div 2 ^ 23 = 2 * e" using m by simp
  ultimately show ?thesis by (simp add: bits_exponent_def bits_mantissa_def u)
qed

lemma compact_rounding:
  assumes "2 ^ 15 \<le> raw_mantissa e T"
  shows "compact_value e (raw_mantissa e T) \<le> T"
    "2 ^ 15 * (T - compact_value e (raw_mantissa e T)) \<le> compact_value e (raw_mantissa e T)"
proof -
  have "compact_value e (raw_mantissa e T) \<le> T \<and>
    2 ^ 15 * (T - compact_value e (raw_mantissa e T)) \<le> compact_value e (raw_mantissa e T)"
  proof (cases "e \<le> 3")
    case True
    then show ?thesis by (simp add: compact_value_def raw_mantissa_def)
  next
    case False
    let ?P = "256 ^ (e - 3) :: nat"
    have "T - T div ?P * ?P \<le> ?P" by (simp add: minus_div_mult_eq_mod less_imp_le)
    then have "2 ^ 15 * (T - T div ?P * ?P) \<le> 2 ^ 15 * ?P" by (rule mult_le_mono2)
    also have "\<dots> \<le> T div ?P * ?P" using assms False by (simp add: raw_mantissa_def)
    finally show ?thesis using False by (simp add: compact_value_def raw_mantissa_def)
  qed
  then show "compact_value e (raw_mantissa e T) \<le> T"
    "2 ^ 15 * (T - compact_value e (raw_mantissa e T)) \<le> compact_value e (raw_mantissa e T)" by auto
qed

lemma target_compact_roundtrip:
  assumes "0 < uval t"
  shows "\<exists>t'. target_from_compact (target_to_compact t) = Ok t' \<and> uval t' \<le> uval t \<and>
    2 ^ 15 * (uval t - uval t') \<le> uval t'"
proof -
  let ?T = "uval t"
  let ?e = "fit_exponent ((u256_bits t + 7) div 8) ?T"
  let ?m = "raw_mantissa ?e ?T"
  note len = byte_length [OF assms]
  note fm = fit_mantissa [OF len(1,3,4)]
  note f = compact_fields [OF target_to_compact_unat [OF assms] fm(2)]
  note r = compact_rounding [OF fm(1)]
  have "0 < compact_value ?e ?m" using r assms by (cases "compact_value ?e ?m") auto
  moreover have "compact_value ?e ?m < 2 ^ 256" using r(1) uval_lt [of t] by linarith
  then obtain t' where t': "uval t' = compact_value ?e ?m" using uval_surj by blast
  ultimately have "target_from_compact (target_to_compact t) = Ok t'"
    using f by (simp add: target_from_compact_Ok_iff)
  with r t' show ?thesis by auto
qed

text \<open>Compacting a target rounds it down, by less than one part in \<open>2 ^ 15\<close>, to a target that
  decodes: the expected difficulty of a block can always be read back, and is never easier than the
  target computed for it.\<close>

theorem target_to_compact_rounds_down:
  "uval t = 0 \<or>
   (\<exists>t'. target_from_compact (target_to_compact t) = Ok t' \<and> 0 < uval t' \<and> uval t' \<le> uval t \<and>
      2 ^ 15 * (uval t - uval t') \<le> uval t')"
proof (cases "uval t = 0")
  case False
  then have "0 < uval t" by simp
  from target_compact_roundtrip [OF this] show ?thesis by (auto simp: target_from_compact_Ok_iff)
qed simp

section \<open>Engines and the registry\<close>

text \<open>
  What the callers of an engine rely on: whatever headers it has been given before, its answer is
  the rule of \<open>pow_check\<close> for its hash. The registry looks verdicts up by block id, so the law is stated
  for headers whose ids are distinct.
\<close>

locale pow_engine =
  fixes hash :: "block_header \<Rightarrow> hash256"
    and run :: "'s \<Rightarrow> block_header \<Rightarrow> (unit, PowError) result \<times> 's"
    and inv :: "block_header list \<Rightarrow> 's \<Rightarrow> bool"
  assumes run_check: "inv hs s \<Longrightarrow> inj_on block_id (insert h (set hs)) \<Longrightarrow> fst (run s h) = pow_check hash h"
    and run_inv: "inv hs s \<Longrightarrow> inv (h # hs) (snd (run s h))"
begin

fun run_all :: "'s \<Rightarrow> block_header list \<Rightarrow> (unit, PowError) result list \<times> 's" where
  "run_all s [] = ([], s)"
| "run_all s (h # hs) = (case run s h of (v, s) \<Rightarrow> case run_all s hs of (vs, s) \<Rightarrow> (v # vs, s))"

lemma run_all_check:
  "inv hs s \<Longrightarrow> inj_on block_id (set hs \<union> set gs) \<Longrightarrow> fst (run_all s gs) = map (pow_check hash) gs"
proof (induction gs arbitrary: s hs)
  case (Cons g gs)
  have "inj_on block_id (insert g (set hs))" by (rule inj_on_subset [OF Cons.prems(2)]) auto
  then have "fst (run s g) = pow_check hash g" using run_check Cons.prems(1) by blast
  moreover have "fst (run_all (snd (run s g)) gs) = map (pow_check hash) gs"
    using Cons.IH [OF run_inv [OF Cons.prems(1)], of g] Cons.prems(2) by (simp add: Un_commute)
  ultimately show ?case by (auto split: prod.splits)
qed simp

lemma run_all_inv: "inv hs s \<Longrightarrow> inv (rev gs @ hs) (snd (run_all s gs))"
proof (induction gs arbitrary: s hs)
  case (Cons g gs)
  from Cons.IH [OF run_inv [OF Cons.prems], of g] show ?case by (auto split: prod.splits)
qed simp

end

interpretation plain: pow_engine hash "\<lambda>s h. (pow_check hash h, s)" "\<lambda>_ _. True" for hash
  by unfold_locales auto

definition memo_keys :: "work_memo \<Rightarrow> hash256 set" where
  "memo_keys m = {i. hget (memo_verdicts m) i \<noteq> None}"

definition memo_inv :: "(block_header \<Rightarrow> hash256) \<Rightarrow> block_header list \<Rightarrow> work_memo \<Rightarrow> bool" where
  "memo_inv hash hs m \<longleftrightarrow>
     hwf (memo_verdicts m) \<and> distinct (memo_order m) \<and> set (memo_order m) = memo_keys m \<and>
     length (memo_order m) \<le> WORK_MEMO_MAX \<and>
     (\<forall>i v. hget (memo_verdicts m) i = Some v \<longrightarrow> (\<exists>h \<in> set hs. block_id h = i \<and> v = pow_check hash h))"

lemma memo_trim_cases:
  "length q \<le> Suc WORK_MEMO_MAX \<Longrightarrow>
   memo_trim q vs = (if length q \<le> WORK_MEMO_MAX then (q, vs) else (tl q, hdel (hd q) vs))"
  by (cases q; cases "tl q") auto

lemma memo_record_inv:
  assumes "memo_inv hash hs m"
  shows "memo_inv hash (h # hs) (memo_record m (block_id h) (pow_check hash h))"
proof (cases "hget (memo_verdicts m) (block_id h)")
  case None
  let ?i = "block_id h" and ?q = "memo_order m @ [block_id h]"
  have fresh: "?i \<notin> set (memo_order m)" using assms None by (simp add: memo_inv_def memo_keys_def)
  show ?thesis
  proof (cases "length ?q \<le> WORK_MEMO_MAX")
    case True
    then show ?thesis using assms None fresh
      by (auto simp: memo_inv_def memo_record_def memo_trim_cases memo_keys_def split: if_splits)
  next
    case False
    then obtain q qs where q: "memo_order m = q # qs" by (cases "memo_order m") (auto simp: WORK_MEMO_MAX_def)
    then have "q \<noteq> ?i" "?i \<notin> set qs" using fresh by auto
    with q False assms None show ?thesis
      by (auto simp: memo_inv_def memo_record_def memo_trim_cases memo_keys_def split: if_splits)
  qed
next
  case (Some v)
  then show ?thesis using assms
    by (auto simp: memo_inv_def memo_record_def memo_keys_def split: if_splits)
qed

lemma memo_inv_more: "memo_inv hash hs m \<Longrightarrow> memo_inv hash (h # hs) m"
  by (auto simp: memo_inv_def)

lemma memo_inv_counters [simp]:
  "memo_inv hash hs (m\<lparr>memo_hits := x\<rparr>) = memo_inv hash hs m"
  "memo_inv hash hs (m\<lparr>memo_computed := x\<rparr>) = memo_inv hash hs m"
  by (simp_all add: memo_inv_def memo_keys_def)

interpretation memo: pow_engine hash "memoized_check hash" "memo_inv hash" for hash
proof unfold_locales
  fix hs m h
  assume inv: "memo_inv hash hs m" and inj: "inj_on block_id (insert h (set hs))"
  show "fst (memoized_check hash m h) = pow_check hash h"
  proof (cases "memo_verdict m (block_id h)")
    case None
    then show ?thesis by (simp add: memoized_check_def Let_def)
  next
    case (Some v)
    with inv obtain g where "g \<in> set hs" "block_id g = block_id h" "v = pow_check hash g"
      unfolding memo_inv_def memo_verdict_def by blast
    with inj have "v = pow_check hash h" by (auto simp: inj_on_def)
    with Some show ?thesis by (simp add: memoized_check_def)
  qed
next
  fix hs m h
  assume inv: "memo_inv hash hs m"
  then show "memo_inv hash (h # hs) (snd (memoized_check hash m h))"
    by (auto simp: memoized_check_def Let_def memo_inv_more memo_record_inv split: option.splits)
qed

lemma memo_new_inv [simp]: "memo_inv hash [] memo_new"
  by (simp add: memo_inv_def memo_new_def memo_keys_def)

text \<open>The verdicts of a sequence of checks, through one registry.\<close>

fun memoized_checks ::
  "(block_header \<Rightarrow> hash256) \<Rightarrow> work_memo \<Rightarrow> block_header list \<Rightarrow> (unit, PowError) result list \<times> work_memo" where
  "memoized_checks hash m [] = ([], m)"
| "memoized_checks hash m (h # hs) =
     (case memoized_check hash m h of (v, m) \<Rightarrow>
        case memoized_checks hash m hs of (vs, m) \<Rightarrow> (v # vs, m))"

lemma memoized_checks_run_all: "memoized_checks hash m hs = memo.run_all hash m hs"
  by (induction hs arbitrary: m) (simp_all split: prod.splits)

lemma memo_inv_len: "memo_inv hash hs m \<Longrightarrow> memo_len m = length (memo_order m)"
proof -
  assume inv: "memo_inv hash hs m"
  have keys: "set (map fst (memo_verdicts m)) = memo_keys m"
    by (auto simp: memo_keys_def hget_def map_of_eq_None_iff)
  have "length (map fst (memo_verdicts m)) = card (memo_keys m)"
    using inv keys distinct_card [of "map fst (memo_verdicts m)"] by (simp add: memo_inv_def hwf_def)
  also have "\<dots> = length (memo_order m)"
    using inv distinct_card [of "memo_order m"] by (simp add: memo_inv_def)
  finally show ?thesis by (simp add: memo_len_def)
qed

lemma memo_len_le: "memo_inv hash hs m \<Longrightarrow> memo_len m \<le> WORK_MEMO_MAX"
  using memo_inv_len [of hash hs m] by (simp add: memo_inv_def)

text \<open>A verdict just returned is in the registry, even when the oldest one had to leave.\<close>

lemma memoized_check_keeps:
  assumes "memo_inv hash hs m"
  shows "memo_verdict (snd (memoized_check hash m h)) (block_id h) = Some (fst (memoized_check hash m h))"
proof (cases "memo_verdict m (block_id h)")
  case None
  then have fresh: "block_id h \<notin> set (memo_order m)" using assms by (simp add: memo_inv_def memo_keys_def memo_verdict_def)
  have "length (memo_order m @ [block_id h]) \<le> Suc WORK_MEMO_MAX" using assms by (simp add: memo_inv_def)
  moreover have "hd (memo_order m @ [block_id h]) \<noteq> block_id h" if "WORK_MEMO_MAX < length (memo_order m @ [block_id h])"
    using that fresh by (cases "memo_order m") (auto simp: WORK_MEMO_MAX_def)
  ultimately show ?thesis using None
    by (auto simp: memoized_check_def memo_record_def memo_verdict_def memo_trim_cases Let_def not_le split: if_splits)
next
  case (Some v)
  then show ?thesis by (simp add: memoized_check_def memo_verdict_def Let_def)
qed

lemma memoized_checks_snoc:
  "memoized_checks hash m (hs @ [h]) =
     (case memoized_checks hash m hs of (vs, m1) \<Rightarrow> case memoized_check hash m1 h of (v, m2) \<Rightarrow> (vs @ [v], m2))"
  by (induction hs arbitrary: m) (auto split: prod.splits)

lemma memoized_checks_keeps:
  assumes "memo_inv hash [] m"
  shows "memo_verdict (snd (memoized_checks hash m (hs @ [h]))) (block_id h) = Some (last (fst (memoized_checks hash m (hs @ [h]))))"
proof -
  have "memo_inv hash (rev hs @ []) (snd (memoized_checks hash m hs))"
    unfolding memoized_checks_run_all by (rule memo.run_all_inv [OF assms])
  from memoized_check_keeps [OF this, of h] show ?thesis
    by (auto simp: memoized_checks_snoc split: prod.splits)
qed

text \<open>C11. The registry never changes a verdict: for any sequence of headers with distinct ids for
  distinct headers, repeated ones included, the answers read back or computed through it are those
  of the plain check. The map of verdicts itself, whose size is \<open>WorkMemo::len\<close>, never holds more than
  \<open>WORK_MEMO_MAX\<close> entries, its keys are exactly the ids of the queue, each there once, and the verdict
  just returned is among them.\<close>

theorem memoized_checks_correct:
  assumes "inj_on block_id (set hs)" "memoized_checks hash memo_new hs = (vs, m)"
  shows "vs = map (pow_check hash) hs \<and> memo_len m \<le> WORK_MEMO_MAX \<and>
    distinct (memo_order m) \<and> set (memo_order m) = {i. memo_verdict m i \<noteq> None} \<and>
    (hs \<noteq> [] \<longrightarrow> memo_verdict m (block_id (last hs)) = Some (pow_check hash (last hs)))"
proof -
  have vs: "vs = map (pow_check hash) hs"
    using memo.run_all_check [OF memo_new_inv, of hs hash] assms by (simp add: memoized_checks_run_all)
  have inv: "memo_inv hash (rev hs) m"
    using memo.run_all_inv [OF memo_new_inv, of hash hs] assms(2) by (simp add: memoized_checks_run_all)
  have "memo_verdict m (block_id (last hs)) = Some (pow_check hash (last hs))" if "hs \<noteq> []"
    using memoized_checks_keeps [OF memo_new_inv, of hash "butlast hs" "last hs"] that assms(2) vs
    by (simp add: last_map)
  then show ?thesis using vs memo_len_le [OF inv] inv by (simp add: memo_inv_def memo_keys_def memo_verdict_def)
qed

definition example_header :: block_header where
  "example_header = \<lparr>hdr_version = 1, hdr_prev_block = replicate 32 0, hdr_merkle_root = replicate 32 0,
     hdr_uncles_root = replicate 32 0, hdr_miner = replicate 32 0, hdr_time = 0, hdr_bits = INITIAL_BITS,
     hdr_height = 1, hdr_nonce = 0\<rparr>"

theorem memoized_checks_correct_witness:
  "memoized_checks sha256_pow_hash memo_new [example_header, example_header] =
     ([pow_check sha256_pow_hash example_header, pow_check sha256_pow_hash example_header],
      snd (memoized_checks sha256_pow_hash memo_new [example_header, example_header])) \<and>
   memo_verdict (snd (memoized_checks sha256_pow_hash memo_new [example_header, example_header])) (block_id example_header) =
     Some (pow_check sha256_pow_hash example_header)"
  using memoized_checks_correct [of "[example_header, example_header]" sha256_pow_hash
      "fst (memoized_checks sha256_pow_hash memo_new [example_header, example_header])"
      "snd (memoized_checks sha256_pow_hash memo_new [example_header, example_header])"]
  by (simp add: prod_eq_iff)

section \<open>Mining\<close>

text \<open>Attempt \<open>k\<close> wins from the starting nonce of \<open>h\<close>.\<close>

definition wins :: "(block_header \<Rightarrow> hash256) \<Rightarrow> U256 \<Rightarrow> block_header \<Rightarrow> nat \<Rightarrow> bool" where
  "wins hash target h k \<longleftrightarrow> u256_from_be_bytes (hash (h\<lparr>hdr_nonce := hdr_nonce h + of_nat k\<rparr>)) \<le> target"

definition first_in :: "(nat \<Rightarrow> bool) \<Rightarrow> nat \<Rightarrow> nat \<Rightarrow> nat option" where
  "first_in P a b = (if \<exists>k \<in> {a..<b}. P k then Some (LEAST k. a \<le> k \<and> k < b \<and> P k) else None)"

lemma first_in_Some: "first_in P a b = Some x \<longleftrightarrow> a \<le> x \<and> x < b \<and> P x \<and> (\<forall>y. a \<le> y \<and> y < x \<longrightarrow> \<not> P y)"
proof
  assume *: "first_in P a b = Some x"
  then have ex: "\<exists>k. a \<le> k \<and> k < b \<and> P k" and x: "x = (LEAST k. a \<le> k \<and> k < b \<and> P k)"
    by (auto simp: first_in_def split: if_splits)
  from LeastI_ex [OF ex] x have "a \<le> x \<and> x < b \<and> P x" by simp
  moreover have "\<not> P y" if "a \<le> y" "y < x" for y
    using not_less_Least [of y "\<lambda>k. a \<le> k \<and> k < b \<and> P k"] that calculation x by auto
  ultimately show "a \<le> x \<and> x < b \<and> P x \<and> (\<forall>y. a \<le> y \<and> y < x \<longrightarrow> \<not> P y)" by blast
next
  assume *: "a \<le> x \<and> x < b \<and> P x \<and> (\<forall>y. a \<le> y \<and> y < x \<longrightarrow> \<not> P y)"
  then have "(LEAST k. a \<le> k \<and> k < b \<and> P k) = x"
  proof (intro Least_equality)
    fix y assume "a \<le> y \<and> y < b \<and> P y"
    with * show "x \<le> y" using not_le by blast
  qed simp
  moreover have "\<exists>k \<in> {a..<b}. P k" using * by auto
  ultimately show "first_in P a b = Some x" by (simp add: first_in_def)
qed

lemma first_in_None: "first_in P a b = None \<longleftrightarrow> (\<forall>k. a \<le> k \<and> k < b \<longrightarrow> \<not> P k)"
  by (auto simp: first_in_def)

lemma first_in_split:
  assumes "a \<le> b" "b \<le> c"
  shows "first_in P a c = (case first_in P a b of Some x \<Rightarrow> Some x | None \<Rightarrow> first_in P b c)"
proof (cases "first_in P a b")
  case None
  show ?thesis
  proof (cases "first_in P b c")
    case n: None
    with None have "first_in P a c = None" by (force simp: first_in_None not_less)
    with None n show ?thesis by simp
  next
    case (Some x)
    with None assms have "first_in P a c = Some x" by (force simp: first_in_None first_in_Some not_less)
    with None Some show ?thesis by simp
  qed
next
  case (Some x)
  then have "first_in P a c = Some x" using assms by (auto simp: first_in_Some)
  with Some show ?thesis by simp
qed

lemma mine_loop_first:
  "mine_loop hash target a n h =
     (case first_in (wins hash target h) 0 n of
        Some k \<Rightarrow> (Some (a + k), h\<lparr>hdr_nonce := hdr_nonce h + of_nat k\<rparr>)
      | None \<Rightarrow> (None, h\<lparr>hdr_nonce := hdr_nonce h + of_nat n\<rparr>))"
proof (induction n arbitrary: a h)
  case 0
  then show ?case by (simp add: first_in_def)
next
  case (Suc n)
  let ?W = "wins hash target h" and ?h = "h\<lparr>hdr_nonce := hdr_nonce h + 1\<rparr>"
  have shift: "wins hash target ?h k = ?W (Suc k)" for k
    by (simp add: wins_def add.assoc)
  show ?case
  proof (cases "?W 0")
    case True
    then have "first_in ?W 0 (Suc n) = Some 0" by (simp add: first_in_Some)
    moreover have "u256_from_be_bytes (hash h) \<le> target" using True by (simp add: wins_def)
    ultimately show ?thesis by simp
  next
    case False
    have step: "first_in ?W 0 (Suc n) = map_option Suc (first_in (wins hash target ?h) 0 n)"
    proof (cases "first_in (wins hash target ?h) 0 n")
      case None
      then have "first_in ?W 0 (Suc n) = None"
        using False by (auto simp: first_in_None shift less_Suc_eq_0_disj)
      with None show ?thesis by simp
    next
      case (Some k)
      then have "first_in ?W 0 (Suc n) = Some (Suc k)"
        using False by (auto simp: first_in_Some shift less_Suc_eq_0_disj)
      with Some show ?thesis by simp
    qed
    have "\<not> u256_from_be_bytes (hash h) \<le> target" using False by (simp add: wins_def)
    then show ?thesis using Suc.IH [of "a + 1" ?h] step
      by (auto simp: add.assoc split: option.splits)
  qed
qed

lemma find_upt: "find P [0..<n] = first_in P 0 n"
proof (cases "find P [0..<n]")
  case None
  then have "\<forall>k<n. \<not> P k" by (auto simp: find_None_iff)
  with None show ?thesis by (auto simp: first_in_def)
next
  case (Some x)
  then obtain i where "i < n" "P i" "x = i" "\<forall>j<i. \<not> P j" by (auto simp: find_Some_iff)
  then have "first_in P 0 n = Some x" by (simp add: first_in_Some)
  with Some show ?thesis by simp
qed

lemma thread_search_first:
  assumes "hdr_nonce h = start + of_nat c"
    and "W = wins hash target (h\<lparr>hdr_nonce := start\<rparr>)"
  shows "thread_search hash target h (start + of_nat don) don p f p = first_in W (don + f * p) (don + f * p + p)"
proof -
  let ?Q = "\<lambda>k. u256_from_be_bytes (hash (h\<lparr>hdr_nonce := start + of_nat don + of_nat (f * p) + of_nat k\<rparr>)) \<le> target"
  have Q: "?Q k = W (don + f * p + k)" for k
    unfolding assms(2) wins_def by (simp add: add.assoc)
  show ?thesis
  proof (cases "first_in ?Q 0 p")
    case None
    then have "first_in W (don + f * p) (don + f * p + p) = None"
      unfolding first_in_None Q by (metis add_less_cancel_left le_iff_add zero_le)
    with None show ?thesis by (simp add: thread_search_def find_upt)
  next
    case (Some k)
    then have "first_in W (don + f * p) (don + f * p + p) = Some (don + f * p + k)"
      unfolding first_in_Some Q by (metis add_le_cancel_left add_less_cancel_left le_iff_add zero_le)
    with Some show ?thesis by (simp add: thread_search_def find_upt)
  qed
qed

lemma wave_winner_least:
  "wave_winner rs = (if \<exists>r \<in> set rs. r \<noteq> None then Some (Min {x. Some x \<in> set rs}) else None)"
proof -
  have set_mf: "set (List.map_filter id rs) = {x. Some x \<in> set rs}"
    by (induction rs) (auto simp: map_filter_simps split: option.splits)
  show ?thesis
  proof (cases "List.map_filter id rs")
    case Nil
    then have "{x. Some x \<in> set rs} = {}" using set_mf by simp
    then have no: "Some x \<notin> set rs" for x by blast
    have "r = None" if "r \<in> set rs" for r using that no by (metis not_Some_eq)
    with Nil show ?thesis by (simp add: wave_winner_def)
  next
    case (Cons x xs)
    then have s: "{x. Some x \<in> set rs} = set (x # xs)" using set_mf by simp
    then have "\<exists>r \<in> set rs. r \<noteq> None" by auto
    moreover have "fold min xs x = Min (set (x # xs))" by (metis Min.set_eq_fold)
    ultimately show ?thesis using Cons s by (simp add: wave_winner_def)
  qed
qed

lemma wave_first:
  assumes "hdr_nonce h = start + of_nat c"
    and W: "W = wins hash target (h\<lparr>hdr_nonce := start\<rparr>)"
  shows "wave hash target h (start + of_nat don) don p threads = first_in W don (don + p * threads)"
proof -
  let ?R = "map (\<lambda>f. first_in W (don + f * p) (don + f * p + p)) [0..<threads]"
  have eq: "wave hash target h (start + of_nat don) don p threads = wave_winner ?R"
    unfolding wave_def using thread_search_first [OF assms] by simp
  have slot: "\<exists>f < threads. don + f * p \<le> k \<and> k < don + f * p + p"
    if k: "don \<le> k" "k < don + p * threads" for k
  proof -
    have p: "0 < p" using k by (cases p) auto
    have m: "(k - don) mod p < p" using p by simp
    have "k - don < threads * p" using k by (simp add: mult.commute less_diff_conv2)
    then have "(k - don) div p < threads" by (rule less_mult_imp_div_less)
    moreover have "(k - don) div p * p + (k - don) mod p = k - don" by (rule div_mult_mod_eq)
    ultimately show ?thesis using m k(1) by (intro exI [of _ "(k - don) div p"]) linarith
  qed
  have range: "don \<le> k \<and> k < don + p * threads"
    if "f < threads" "don + f * p \<le> k" "k < don + f * p + p" for f k
  proof -
    have "Suc f * p \<le> threads * p" using that(1) by (intro mult_le_mono1) simp
    then have "f * p + p \<le> p * threads" by (simp add: mult.commute)
    then show ?thesis using that by linarith
  qed
  show ?thesis
  proof (cases "first_in W don (don + p * threads)")
    case None
    then have "\<forall>r \<in> set ?R. r = None" using range by (auto simp: first_in_None)
    then have "wave_winner ?R = None" by (simp add: wave_winner_least)
    with None eq show ?thesis by simp
  next
    case (Some x)
    then have x: "don \<le> x" "x < don + p * threads" "W x" "\<forall>y. don \<le> y \<and> y < x \<longrightarrow> \<not> W y"
      by (auto simp: first_in_Some)
    obtain f where f: "f < threads" "don + f * p \<le> x" "x < don + f * p + p"
      using slot [OF x(1,2)] by blast
    then have "first_in W (don + f * p) (don + f * p + p) = Some x"
      using x by (auto simp: first_in_Some)
    then have mem: "Some x \<in> set ?R" using f(1) by force
    have least: "x \<le> y" if "Some y \<in> set ?R" for y
    proof -
      from that obtain g where g: "g < threads" "first_in W (don + g * p) (don + g * p + p) = Some y"
        by auto
      then have "W y" "don \<le> y" by (auto simp: first_in_Some)
      then show ?thesis using x(4) not_le by blast
    qed
    have fin: "finite {y. Some y \<in> set ?R}"
      by (rule finite_imageD [of Some]) (auto intro: finite_subset [of _ "set ?R"])
    have "Min {y. Some y \<in> set ?R} = x"
      by (rule Min_eqI [OF fin]) (use mem least in auto)
    moreover have "\<exists>r \<in> set ?R. r \<noteq> None" using mem by blast
    then have "wave_winner ?R = Some (Min {y. Some y \<in> set ?R})"
      unfolding wave_winner_least by (rule if_P)
    ultimately have "wave_winner ?R = Some x" by (simp only:)
    with Some eq show ?thesis by simp
  qed
qed

lemma wave_size_covers:
  assumes "0 < threads" "don < n"
  shows "wave_size don n threads * threads < n - don + threads"
proof -
  let ?q = "(n - don + (threads - 1)) div threads"
  have "?q * threads \<le> n - don + (threads - 1)" by (rule div_times_less_eq_dividend)
  then have "?q * threads < n - don + threads" using assms by linarith
  moreover have "min BATCH_PER_THREAD ?q * threads \<le> ?q * threads" by (intro mult_le_mono1) simp
  moreover have "1 * threads < n - don + threads" using assms by simp
  moreover have "wave_size don n threads = min BATCH_PER_THREAD ?q \<or> wave_size don n threads = 1"
    by (auto simp: wave_size_def max_def)
  ultimately show ?thesis by (metis le_less_trans)
qed

lemma waves_first:
  assumes "hdr_nonce h = start + of_nat c" and W: "W = wins hash target (h\<lparr>hdr_nonce := start\<rparr>)"
    and "0 < threads"
  shows "\<exists>b. (don < n \<longrightarrow> n \<le> b \<and> b < n + threads) \<and> (n \<le> don \<longrightarrow> b = don) \<and>
    waves hash target h start don n threads = first_in W don b"
proof (induction "n - don" arbitrary: don rule: less_induct)
  case less
  show ?case
  proof (cases "don < n")
    case False
    then show ?thesis by (intro exI [of _ don]) (simp add: waves.simps first_in_def)
  next
    case True
    let ?p = "wave_size don n threads" and ?don = "don + wave_size don n threads * threads"
    have pos: "0 < ?p * threads" using assms(3) by simp
    then have "n - ?don < n - don" using True by linarith
    from less [OF this] obtain b where b: "?don < n \<longrightarrow> n \<le> b \<and> b < n + threads" "n \<le> ?don \<longrightarrow> b = ?don"
      "waves hash target h start ?don n threads = first_in W ?don b" by blast
    have over: "?don < n + threads" using wave_size_covers [OF assms(3) True] True by linarith
    have bound: "n \<le> b \<and> b < n + threads" "?don \<le> b" using b(1,2) over by (cases "?don < n"; auto)+
    have "waves hash target h start don n threads =
        (case first_in W don ?don of Some x \<Rightarrow> Some x | None \<Rightarrow> first_in W ?don b)"
      using True assms(3) b(3) wave_first [OF assms(1) W, of don ?p threads]
      by (subst waves.simps) (simp add: Let_def split: option.splits)
    also have "\<dots> = first_in W don b" using first_in_split [of don ?don b W] bound by simp
    finally show ?thesis using bound True by (intro exI [of _ b]) simp
  qed
qed

lemma mine_with_table_first:
  "target_from_compact (hdr_bits h) = Ok target \<Longrightarrow>
   mine_with_table hash h n =
     (case first_in (wins hash target h) 0 n of
        Some k \<Rightarrow> (Ok k, h\<lparr>hdr_nonce := hdr_nonce h + of_nat k\<rparr>)
      | None \<Rightarrow> (Err n, h\<lparr>hdr_nonce := hdr_nonce h + of_nat n\<rparr>))"
  by (auto simp: mine_with_table_def mine_loop_first split: option.splits)

lemma mine_parallel_first:
  assumes "target_from_compact (hdr_bits h) = Ok target" and "1 < threads"
  shows "\<exists>b. n \<le> b \<and> b < n + threads \<and>
    mine_with_table_parallel hash h n threads =
     (case first_in (wins hash target h) 0 b of
        Some k \<Rightarrow> (Ok k, h\<lparr>hdr_nonce := hdr_nonce h + of_nat k\<rparr>)
      | None \<Rightarrow> (Err n, h\<lparr>hdr_nonce := hdr_nonce h + of_nat n\<rparr>))"
proof -
  let ?W = "wins hash target h" and ?p = "min BATCH_PER_THREAD n"
  let ?h = "h\<lparr>hdr_nonce := hdr_nonce h + of_nat ?p\<rparr>"
  have "\<exists>b. (?p < n \<longrightarrow> n \<le> b \<and> b < n + threads) \<and> (n \<le> ?p \<longrightarrow> b = ?p) \<and>
      waves hash target ?h (hdr_nonce h) ?p n threads = first_in ?W ?p b"
    by (rule waves_first [where c = ?p]) (use assms(2) in simp_all)
  then obtain b where b: "?p < n \<longrightarrow> n \<le> b \<and> b < n + threads" "n \<le> ?p \<longrightarrow> b = ?p"
    "waves hash target ?h (hdr_nonce h) ?p n threads = first_in ?W ?p b" by blast
  have bound: "n \<le> b" "b < n + threads" "?p \<le> b" using b(1,2) assms(2) by (cases "?p < n"; auto)+
  have "mine_with_table_parallel hash h n threads =
     (case (case first_in ?W 0 ?p of Some k \<Rightarrow> Some k | None \<Rightarrow> first_in ?W ?p b) of
        Some k \<Rightarrow> (Ok k, h\<lparr>hdr_nonce := hdr_nonce h + of_nat k\<rparr>)
      | None \<Rightarrow> (Err n, h\<lparr>hdr_nonce := hdr_nonce h + of_nat n\<rparr>))"
    using assms b(3)
    by (auto simp: mine_with_table_parallel_def Let_def mine_loop_first split: option.splits)
  also have "(case first_in ?W 0 ?p of Some k \<Rightarrow> Some k | None \<Rightarrow> first_in ?W ?p b) = first_in ?W 0 b"
    using first_in_split [of 0 ?p b ?W] bound(3) by simp
  finally show ?thesis using bound by blast
qed

text \<open>Whenever the sequential search over the allowed attempts succeeds, the parallel one returns
  the same attempt and the same header, whatever the number of threads. When it fails, the parallel
  search either fails in the same way or returns a winning attempt beyond the allowed ones, fewer
  than \<open>threads\<close> past the end: the last wave is not cut at \<open>max_tries\<close>.\<close>

theorem mine_parallel_deterministic:
  "mine_with_table_parallel hash h n threads = mine_with_table hash h n \<or>
   (\<exists>a. n \<le> a \<and> a < n + threads \<and>
      fst (mine_with_table hash h n) = Err n \<and>
      mine_with_table_parallel hash h n threads = (Ok a, h\<lparr>hdr_nonce := hdr_nonce h + of_nat a\<rparr>))"
proof (cases "target_from_compact (hdr_bits h)")
  case (Ok target)
  let ?W = "wins hash target h"
  show ?thesis
  proof (cases "1 < threads")
    case True
    obtain b where b: "n \<le> b" "b < n + threads" and par: "mine_with_table_parallel hash h n threads =
        (case first_in ?W 0 b of
           Some k \<Rightarrow> (Ok k, h\<lparr>hdr_nonce := hdr_nonce h + of_nat k\<rparr>)
         | None \<Rightarrow> (Err n, h\<lparr>hdr_nonce := hdr_nonce h + of_nat n\<rparr>))"
      using mine_parallel_first [OF Ok True] by blast
    note seq = mine_with_table_first [OF Ok, of hash n]
    have split: "first_in ?W 0 b = (case first_in ?W 0 n of Some x \<Rightarrow> Some x | None \<Rightarrow> first_in ?W n b)"
      using first_in_split [of 0 n b ?W] b(1) by simp
    show ?thesis
    proof (cases "first_in ?W 0 n")
      case (Some x)
      then show ?thesis using par seq split by simp
    next
      case None
      then show ?thesis
        using par seq split b by (cases "first_in ?W n b") (auto simp: first_in_Some)
    qed
  next
    case False
    then show ?thesis by (simp add: mine_with_table_parallel_def max_def)
  qed
qed (auto simp: mine_with_table_def mine_with_table_parallel_def Let_def)

definition lucky_hash :: "block_header \<Rightarrow> hash256" where
  "lucky_hash h = (if hdr_nonce h = 513 then replicate 32 0 else replicate 32 255)"

lemma le_val_replicate: "le_val (replicate n 0) = 0" "le_val (replicate n 255) = 256 ^ n - 1"
proof -
  show "le_val (replicate n 0) = 0" by (induction n) simp_all
  have "le_val (replicate n 255) + 1 = 256 ^ n" by (induction n) simp_all
  then show "le_val (replicate n 255) = 256 ^ n - 1" by simp
qed

lemma lucky_wins:
  assumes "uval f = 0xffff * 256 ^ 29" and "k < 2 ^ 64"
  shows "wins lucky_hash f example_header k \<longleftrightarrow> k = 513"
proof -
  have "uval (u256_from_be_bytes (replicate 32 0)) = 0"
    by (simp add: u256_from_be_bytes_val be_val_def le_val_replicate)
  moreover have "uval (u256_from_be_bytes (replicate 32 255)) = 2 ^ 256 - 1"
    by (simp add: u256_from_be_bytes_val be_val_def le_val_replicate)
  moreover have "(of_nat k :: u64) = 513 \<longleftrightarrow> k = 513"
  proof
    assume "(of_nat k :: u64) = 513"
    then have "unat (of_nat k :: u64) = 513" by simp
    then show "k = 513" using assms(2) by (simp add: unat_of_nat)
  qed simp
  ultimately show ?thesis using assms(1)
    by (simp add: wins_def lucky_hash_def example_header_def)
qed

text \<open>The overshoot happens: with 513 attempts allowed and two threads, for a hash that wins at
  nonce 513 only, the parallel search returns attempt 513, which the sequential one never tries.\<close>

theorem mine_parallel_overshoots:
  "fst (mine_with_table lucky_hash example_header 513) = Err 513 \<and>
   fst (mine_with_table_parallel lucky_hash example_header 513 2) = Ok 513"
proof -
  obtain f where f: "floor_target = Ok f" "uval f = 0xffff * 256 ^ 29" using floor_target_eq by blast
  then have t: "target_from_compact (hdr_bits example_header) = Ok f"
    by (simp add: floor_target_def example_header_def split: result.splits)
  let ?h = "example_header" and ?W = "wins lucky_hash f example_header"
  have W: "?W k \<longleftrightarrow> k = 513" if "k < 1000" for k using lucky_wins [OF f(2)] that by simp
  have "first_in ?W 0 513 = None" by (simp add: first_in_None W)
  then have seq: "fst (mine_with_table lucky_hash ?h 513) = Err 513"
    by (simp add: mine_with_table_first [OF t])
  have probe: "first_in ?W 0 512 = None" by (simp add: first_in_None W)
  let ?h' = "?h\<lparr>hdr_nonce := hdr_nonce ?h + of_nat 512\<rparr>"
  have size: "wave_size 512 513 2 = 1" by (simp add: wave_size_def BATCH_PER_THREAD_def)
  have "wave lucky_hash f ?h' (hdr_nonce ?h + of_nat 512) 512 1 2 = first_in ?W 512 (512 + 1 * 2)"
    by (rule wave_first [where c = 512]) simp_all
  also have "\<dots> = Some 513" by (auto simp: first_in_Some W)
  finally have "waves lucky_hash f ?h' (hdr_nonce ?h) 512 513 2 = Some 513"
    by (subst waves.simps) (simp add: Let_def size)
  then have "fst (mine_with_table_parallel lucky_hash ?h 513 2) = Ok 513"
    using t probe
    by (simp add: mine_with_table_parallel_def Let_def mine_loop_first BATCH_PER_THREAD_def numeral_2_eq_2)
  with seq show ?thesis by simp
qed

end
