(* ===== verification/Policy.thy ===== *)
theory Policy
  imports Utxo Block Pow
begin

text \<open>
  Spending policies (\<open>src/src/policy.rs\<close>): the tree, its canonical serialization with every bound, the
  walk of a satisfaction along the branches it names, and the checks of a spend. The
  errors of validation (\<open>src/src/validate.rs\<close>) are declared here, because the checks of a spend
  return them. Leaf positions are natural numbers: a decoded policy has at most eight leaves
  (\<open>policy_read_sound\<close>), so the \<open>u8\<close> counter of the source never overflows.
\<close>

section \<open>Data\<close>

definition NODE_KEY :: byte where
  "NODE_KEY = 1"

definition NODE_PREIMAGE :: byte where
  "NODE_PREIMAGE = 2"

definition NODE_OLDER :: byte where
  "NODE_OLDER = 3"

definition NODE_ALL :: byte where
  "NODE_ALL = 4"

definition NODE_ANY :: byte where
  "NODE_ANY = 5"

definition NODE_AFTER :: byte where
  "NODE_AFTER = 6"

datatype policy =
    PKey SchemeId hash256
  | PPreimage hash256
  | POlder u16
  | PAfter u32
  | PAll "policy list"
  | PAny "policy list"

datatype satisfaction =
    SKey "byte list" "byte list"
  | SPreimage "byte list"
  | SOlder
  | SAfter
  | SAll "satisfaction list"
  | SAny byte satisfaction

datatype PolicyError =
    TooLarge nat
  | DoesNotMatchLock
  | Malformed ReadError
  | UnknownNode byte
  | NotAKeyScheme byte
  | TooDeep
  | TooManyLeaves
  | BadArity nat
  | OlderOutOfRange
  | AfterOutOfRange
  | TrailingPolicyBytes nat
  | BadBranch byte nat
  | WitnessSize VerifyError
  | WrongPreimage
  | TooEarly nat nat
  | ExtraWitnessData nat
  | NotAKeyLeaf byte
  | OneTimeKey byte
  | Unsigned

datatype ValidationError =
    Structure BlockError
  | TransactionError TxError
  | ProofOfWork PowError
  | BadHeight nat nat
  | BadParent
  | BadDifficulty u32 u32
  | TimestampTooOld nat nat
  | TimestampInFuture nat nat
  | TimestampNotAfterParent nat nat
  | NotTheAnchor nat
  | BlockTooLarge nat nat
  | MissingInput outpoint
  | DoubleSpend outpoint
  | CoinbaseImmature nat nat
  | ValueNotConserved nat nat
  | ExcessiveSubsidy nat nat
  | FeeOverflow
  | TooManyUncles nat nat
  | DuplicateUncle hash256
  | UncleTooOld nat nat
  | UncleInFuture
  | OrphanUncle
  | UncleAlreadyClaimed hash256
  | UncleIsAncestor
  | UncleProofOfWork PowError
  | CoinbaseDoesNotPayMiner
  | UncleNotRewarded nat
  | BadUncleDifficulty u32 u32
  | CapExceeded nat nat nat
  | CoinbaseWithoutHeight
  | IncompleteHistory
  | KeyDoesNotMatchLock
  | SchemeForbiddenOnNetwork SchemeId
  | SignatureError VerifyError
  | DustOutput nat nat
  | PolicyErr PolicyError
  | NameErr NameError

fun locally_unverifiable_scheme :: "ValidationError \<Rightarrow> SchemeId option" where
  "locally_unverifiable_scheme (SignatureError (SchemeUnavailable s)) = Some s"
| "locally_unverifiable_scheme _ = None"

section \<open>Activation\<close>

fun policy_activation_height :: "network \<Rightarrow> nat" where
  "policy_activation_height Mainnet = POLICY_ACTIVATION_MAINNET"
| "policy_activation_height Testnet = POLICY_ACTIVATION_TESTNET"
| "policy_activation_height Regtest = POLICY_ACTIVATION_REGTEST"

definition policy_is_active :: "network \<Rightarrow> nat \<Rightarrow> bool" where
  "policy_is_active net height \<longleftrightarrow> height \<ge> policy_activation_height net"

definition policy_may_appear_on :: "network \<Rightarrow> bool" where
  "policy_may_appear_on net \<longleftrightarrow> policy_activation_height net \<noteq> u64_max"

definition policy_has_transition :: "network \<Rightarrow> bool" where
  "policy_has_transition net \<longleftrightarrow>
     policy_activation_height net > 1 \<and> policy_activation_height net \<noteq> u64_max"

definition policy_reached :: "network \<Rightarrow> nat \<Rightarrow> bool" where
  "policy_reached net tip \<longleftrightarrow>
     policy_may_appear_on net \<and> (\<not> policy_has_transition net \<or> tip \<ge> policy_activation_height net)"

record activation_status =
  as_activation_height :: "nat option"
  as_tip :: nat
  as_active :: bool
  as_blocks_remaining :: "nat option"

definition eta_seconds :: "activation_status \<Rightarrow> nat option" where
  "eta_seconds st = map_option (\<lambda>b. sat_mul64 b TARGET_BLOCK_SECS) (as_blocks_remaining st)"

definition policy_status :: "network \<Rightarrow> nat \<Rightarrow> activation_status" where
  "policy_status net tip =
     (if \<not> policy_may_appear_on net
      then \<lparr>as_activation_height = None, as_tip = tip, as_active = False, as_blocks_remaining = None\<rparr>
      else let h = policy_activation_height net; active = policy_reached net tip
           in \<lparr>as_activation_height = Some h, as_tip = tip, as_active = active,
               as_blocks_remaining = Some (if active then 0 else h - tip)\<rparr>)"

definition scheme_allowed :: "SchemeId \<Rightarrow> network \<Rightarrow> nat \<Rightarrow> bool" where
  "scheme_allowed scheme net height =
     (case scheme of
        SchemeId.Policy \<Rightarrow> policy_is_active net height
      | NameTag \<Rightarrow> names_is_active net height
      | NameKey \<Rightarrow> names_is_active net height
      | s \<Rightarrow> allowed_on s net)"

section \<open>Serialization\<close>

definition arity_byte :: "nat \<Rightarrow> byte" where
  "arity_byte n = (if n < 256 then of_nat n else 255)"

primrec policy_encode :: "policy \<Rightarrow> byte list" where
  "policy_encode (PKey scheme h) = w_u8 NODE_KEY @ w_u8 (scheme_as_u8 scheme) @ h"
| "policy_encode (PPreimage h) = w_u8 NODE_PREIMAGE @ h"
| "policy_encode (POlder n) = w_u8 NODE_OLDER @ le_bytes 2 (unat n)"
| "policy_encode (PAfter h) = w_u8 NODE_AFTER @ w_u32 h"
| "policy_encode (PAll cs) = w_u8 NODE_ALL @ w_u8 (arity_byte (length cs)) @ concat (map policy_encode cs)"
| "policy_encode (PAny cs) = w_u8 NODE_ANY @ w_u8 (arity_byte (length cs)) @ concat (map policy_encode cs)"

primrec always_signed :: "policy \<Rightarrow> bool" where
  "always_signed (PKey s h) = True"
| "always_signed (PPreimage h) = False"
| "always_signed (POlder n) = False"
| "always_signed (PAfter h) = False"
| "always_signed (PAll cs) = list_ex id (map always_signed cs)"
| "always_signed (PAny cs) = list_all id (map always_signed cs)"

type_synonym policy_reader = "nat \<Rightarrow> byte list \<Rightarrow> (policy \<times> nat \<times> byte list, PolicyError) result"

text \<open>The closure \<open>leaf\<close>: counts a leaf just read.\<close>

definition policy_leaf :: "policy \<Rightarrow> nat \<Rightarrow> byte list \<Rightarrow> (policy \<times> nat \<times> byte list, PolicyError) result" where
  "policy_leaf p leaves rest =
     (if leaves + 1 > MAX_POLICY_LEAVES then Err TooManyLeaves else Ok (p, leaves + 1, rest))"

fun read_children :: "policy_reader \<Rightarrow> nat \<Rightarrow> nat \<Rightarrow> byte list \<Rightarrow> (policy list \<times> nat \<times> byte list, PolicyError) result" where
  "read_children rd 0 leaves bs = Ok ([], leaves, bs)"
| "read_children rd (Suc n) leaves bs =
     rbind (rd leaves bs) (\<lambda>(p, leaves, rest).
     rbind (read_children rd n leaves rest) (\<lambda>(ps, leaves, rest). Ok (p # ps, leaves, rest)))"

text \<open>\<open>Policy::read\<close>; the first argument is the number of levels left, so \<open>0\<close> is the source's
  \<open>depth > MAX_POLICY_DEPTH\<close>.\<close>

primrec policy_read :: "nat \<Rightarrow> policy_reader" where
  "policy_read 0 leaves bs = Err TooDeep"
| "policy_read (Suc levels) leaves bs =
     rbind (map_err Malformed (r_u8 bs)) (\<lambda>(tag, bs).
       if tag = NODE_KEY then
         rbind (map_err Malformed (r_u8 bs)) (\<lambda>(raw, bs).
         rbind (ok_or (Option.bind (scheme_from_u8 raw) (\<lambda>s. if s \<in> set SCHEME_ALL then Some s else None))
                  (NotAKeyScheme raw)) (\<lambda>scheme.
           if is_one_time scheme then Err (OneTimeKey raw)
           else rbind (map_err Malformed (r_array32 bs)) (\<lambda>(h, bs). policy_leaf (PKey scheme h) leaves bs)))
       else if tag = NODE_PREIMAGE then
         rbind (map_err Malformed (r_array32 bs)) (\<lambda>(h, bs). policy_leaf (PPreimage h) leaves bs)
       else if tag = NODE_OLDER then
         rbind (map_err Malformed (r_u8 bs)) (\<lambda>(lo, bs).
         rbind (map_err Malformed (r_u8 bs)) (\<lambda>(hi, bs).
           let n = (of_nat (le_val [lo, hi]) :: u16)
           in if n = 0 then Err OlderOutOfRange else policy_leaf (POlder n) leaves bs))
       else if tag = NODE_AFTER then
         rbind (map_err Malformed (r_u32 bs)) (\<lambda>(h, bs).
           if h = 0 then Err AfterOutOfRange else policy_leaf (PAfter h) leaves bs)
       else if tag = NODE_ALL \<or> tag = NODE_ANY then
         rbind (map_err Malformed (r_u8 bs)) (\<lambda>(n, bs).
           if \<not> (2 \<le> unat n \<and> unat n \<le> MAX_POLICY_LEAVES) then Err (BadArity (unat n))
           else rbind (read_children (policy_read levels) (unat n) leaves bs) (\<lambda>(cs, leaves, bs).
             Ok (if tag = NODE_ALL then PAll cs else PAny cs, leaves, bs)))
       else Err (UnknownNode tag))"

definition policy_decode :: "byte list \<Rightarrow> (policy, PolicyError) result" where
  "policy_decode data =
     (if length data > MAX_POLICY_SIZE then Err (TooLarge (length data))
      else rbind (policy_read MAX_POLICY_DEPTH 0 data) (\<lambda>(p, leaves, rest).
        if length rest \<noteq> 0 then Err (TrailingPolicyBytes (length rest))
        else if \<not> always_signed p then Err Unsigned
        else Ok p))"

definition lock_hash_of :: "byte list \<Rightarrow> hash256" where
  "lock_hash_of bs = tagged_hash TAG_POLICY bs"

definition lock_hash :: "policy \<Rightarrow> hash256" where
  "lock_hash p = lock_hash_of (policy_encode p)"

definition policy_output :: "policy \<Rightarrow> amount \<Rightarrow> txout" where
  "policy_output p v = \<lparr>out_value = v, out_scheme = SchemeId.Policy, out_pubkey_hash = lock_hash p\<rparr>"

primrec leaf_count :: "policy \<Rightarrow> nat" where
  "leaf_count (PKey s h) = 1"
| "leaf_count (PPreimage h) = 1"
| "leaf_count (POlder n) = 1"
| "leaf_count (PAfter h) = 1"
| "leaf_count (PAll cs) = sum_list (map leaf_count cs)"
| "leaf_count (PAny cs) = sum_list (map leaf_count cs)"

text \<open>\<open>key_leaves\<close>: the recursion \<open>go\<close> threads the position and the list.\<close>

primrec key_leaves_go ::
  "policy \<Rightarrow> nat \<times> (nat \<times> SchemeId \<times> hash256) list \<Rightarrow> nat \<times> (nat \<times> SchemeId \<times> hash256) list" where
  "key_leaves_go (PKey s h) = (\<lambda>(pos, out). (pos + 1, out @ [(pos, s, h)]))"
| "key_leaves_go (PPreimage h) = (\<lambda>(pos, out). (pos + 1, out))"
| "key_leaves_go (POlder n) = (\<lambda>(pos, out). (pos + 1, out))"
| "key_leaves_go (PAfter h) = (\<lambda>(pos, out). (pos + 1, out))"
| "key_leaves_go (PAll cs) = (\<lambda>st. fold (\<lambda>f st. f st) (map key_leaves_go cs) st)"
| "key_leaves_go (PAny cs) = (\<lambda>st. fold (\<lambda>f st. f st) (map key_leaves_go cs) st)"

definition key_leaves :: "policy \<Rightarrow> (nat \<times> SchemeId \<times> hash256) list" where
  "key_leaves p = snd (key_leaves_go p (0, []))"

text \<open>\<open>choices_to\<close>: \<open>go\<close> returns whether the leaf was found, the position and the choices.\<close>

fun first_child :: "(nat \<Rightarrow> byte list \<Rightarrow> bool \<times> nat \<times> byte list) list \<Rightarrow> nat \<Rightarrow> byte list \<Rightarrow> bool \<times> nat \<times> byte list" where
  "first_child [] pos out = (False, pos, out)"
| "first_child (f # fs) pos out =
     (case f pos out of (True, pos, out) \<Rightarrow> (True, pos, out) | (False, pos, out) \<Rightarrow> first_child fs pos out)"

fun first_branch ::
  "nat \<Rightarrow> (nat \<Rightarrow> byte list \<Rightarrow> bool \<times> nat \<times> byte list) list \<Rightarrow> nat \<Rightarrow> byte list \<Rightarrow> bool \<times> nat \<times> byte list" where
  "first_branch i [] pos out = (False, pos, out)"
| "first_branch i (f # fs) pos out =
     (case f pos (out @ [of_nat i]) of
        (True, pos, out) \<Rightarrow> (True, pos, out)
      | (False, pos, out) \<Rightarrow> first_branch (Suc i) fs pos (butlast out))"

primrec choices_go :: "policy \<Rightarrow> nat \<Rightarrow> nat \<Rightarrow> byte list \<Rightarrow> bool \<times> nat \<times> byte list" where
  "choices_go (PKey s h) = (\<lambda>leaf pos out. (pos = leaf, pos + 1, out))"
| "choices_go (PPreimage h) = (\<lambda>leaf pos out. (pos = leaf, pos + 1, out))"
| "choices_go (POlder n) = (\<lambda>leaf pos out. (pos = leaf, pos + 1, out))"
| "choices_go (PAfter h) = (\<lambda>leaf pos out. (pos = leaf, pos + 1, out))"
| "choices_go (PAll cs) = (\<lambda>leaf. first_child (map (\<lambda>f. f leaf) (map choices_go cs)))"
| "choices_go (PAny cs) = (\<lambda>leaf. first_branch 0 (map (\<lambda>f. f leaf) (map choices_go cs)))"

definition choices_to :: "policy \<Rightarrow> nat \<Rightarrow> byte list" where
  "choices_to p leaf = snd (snd (choices_go p leaf 0 []))"

primrec sat_choices :: "satisfaction \<Rightarrow> byte list" where
  "sat_choices (SKey k g) = []"
| "sat_choices (SPreimage p) = []"
| "sat_choices SOlder = []"
| "sat_choices SAfter = []"
| "sat_choices (SAll ss) = concat (map sat_choices ss)"
| "sat_choices (SAny i s) = i # sat_choices s"

primrec sat_encode :: "satisfaction \<Rightarrow> byte list" where
  "sat_encode (SKey k g) = w_var_bytes k @ w_var_bytes g"
| "sat_encode (SPreimage p) = p"
| "sat_encode SOlder = []"
| "sat_encode SAfter = []"
| "sat_encode (SAll ss) = concat (map sat_encode ss)"
| "sat_encode (SAny i s) = w_u8 i @ sat_encode s"

definition policy_witness :: "policy \<Rightarrow> satisfaction \<Rightarrow> tx_witness" where
  "policy_witness p s = \<lparr>wit_pubkey = policy_encode p, wit_signature = sat_encode s\<rparr>"

definition policy_message :: "transaction \<Rightarrow> u32 \<Rightarrow> network \<Rightarrow> txout \<Rightarrow> policy \<Rightarrow> byte \<Rightarrow> byte list \<Rightarrow> hash256" where
  "policy_message t i net spent p leaf choices = policy_sighash t i net spent (policy_encode p) leaf choices"

section \<open>Walking a satisfaction\<close>

record key_use =
  ku_leaf :: nat
  ku_scheme :: SchemeId
  ku_hash :: hash256
  ku_pubkey :: "byte list"
  ku_signature :: "byte list"

record policy_path =
  pp_keys :: "key_use list"
  pp_min_age :: nat
  pp_min_height :: nat
  pp_choices :: "byte list"
  pp_check_preimages :: bool

definition path_available_at :: "policy_path \<Rightarrow> nat \<Rightarrow> nat" where
  "path_available_at path born =
     (let relative = (if pp_min_age path > 0 then sat_add64 born (pp_min_age path) else 0)
      in max relative (pp_min_height path))"

definition path_new :: "bool \<Rightarrow> policy_path" where
  "path_new check = \<lparr>pp_keys = [], pp_min_age = 0, pp_min_height = 0, pp_choices = [], pp_check_preimages = check\<rparr>"

text \<open>What \<open>walk\<close> threads: the reader, the leaf position and the path.\<close>

type_synonym walk_state = "byte list \<times> nat \<times> policy_path"
type_synonym walker = "walk_state \<Rightarrow> (walk_state, PolicyError) result"

fun walk_seq :: "walker list \<Rightarrow> walker" where
  "walk_seq [] st = Ok st"
| "walk_seq (f # fs) st = rbind (f st) (walk_seq fs)"

fun walk_branch :: "nat \<Rightarrow> nat \<Rightarrow> (walker \<times> nat) list \<Rightarrow> walker" where
  "walk_branch index i [] st = Ok st"
| "walk_branch index i ((f, n) # fs) st =
     (if i = index then rbind (f st) (walk_branch index (Suc i) fs)
      else (case st of (bs, leaf, path) \<Rightarrow> walk_branch index (Suc i) fs (bs, leaf + n, path)))"

primrec walk :: "policy \<Rightarrow> walker" where
  "walk (PKey scheme h) = (\<lambda>(bs, leaf, path).
     rbind (map_err Malformed (r_var_bytes bs)) (\<lambda>(pubkey, bs).
     rbind (map_err Malformed (r_var_bytes bs)) (\<lambda>(sg, bs).
     rbind (map_err WitnessSize (check_sizes scheme pubkey sg)) (\<lambda>_.
       Ok (bs, leaf + 1, path\<lparr>pp_keys := pp_keys path @
         [\<lparr>ku_leaf = leaf, ku_scheme = scheme, ku_hash = h, ku_pubkey = pubkey, ku_signature = sg\<rparr>]\<rparr>)))))"
| "walk (PPreimage h) = (\<lambda>(bs, leaf, path).
     rbind (map_err Malformed (r_array32 bs)) (\<lambda>(secret, bs).
       if pp_check_preimages path \<and> sha256 secret \<noteq> h then Err WrongPreimage else Ok (bs, leaf + 1, path)))"
| "walk (POlder n) = (\<lambda>(bs, leaf, path).
     Ok (bs, leaf + 1, path\<lparr>pp_min_age := max (pp_min_age path) (unat n)\<rparr>))"
| "walk (PAfter h) = (\<lambda>(bs, leaf, path).
     Ok (bs, leaf + 1, path\<lparr>pp_min_height := max (pp_min_height path) (unat h)\<rparr>))"
| "walk (PAll cs) = walk_seq (map walk cs)"
| "walk (PAny cs) = (\<lambda>(bs, leaf, path).
     rbind (map_err Malformed (r_u8 bs)) (\<lambda>(index, bs).
       if unat index \<ge> length cs then Err (BadBranch index (length cs))
       else walk_branch (unat index) 0 (zip (map walk cs) (map leaf_count cs))
              (bs, leaf, path\<lparr>pp_choices := pp_choices path @ [index]\<rparr>)))"

definition read_spend :: "txout \<Rightarrow> tx_witness \<Rightarrow> (policy \<times> policy_path, PolicyError) result" where
  "read_spend spent wit =
     (if length (wit_pubkey wit) > MAX_POLICY_SIZE then Err (TooLarge (length (wit_pubkey wit)))
      else if lock_hash_of (wit_pubkey wit) \<noteq> out_pubkey_hash spent then Err DoesNotMatchLock
      else rbind (policy_decode (wit_pubkey wit)) (\<lambda>p.
           rbind (walk p (wit_signature wit, 0, path_new True)) (\<lambda>(rest, leaf, path).
             if length rest \<noteq> 0 then Err (ExtraWitnessData (length rest)) else Ok (p, path))))"

section \<open>Checking a spend\<close>

fun check_path_keys :: "network \<Rightarrow> key_use list \<Rightarrow> (unit, ValidationError) result" where
  "check_path_keys net [] = Ok ()"
| "check_path_keys net (k # ks) =
     (if \<not> allowed_on (ku_scheme k) net then Err (SchemeForbiddenOnNetwork (ku_scheme k))
      else if pubkey_hash (ku_scheme k) (ku_pubkey k) \<noteq> ku_hash k then Err KeyDoesNotMatchLock
      else check_path_keys net ks)"

definition precheck :: "network \<Rightarrow> utxo_entry \<Rightarrow> nat \<Rightarrow> tx_witness \<Rightarrow> (policy_path, ValidationError) result" where
  "precheck net spent height wit =
     rbind (map_err PolicyErr (read_spend (ue_output spent) wit)) (\<lambda>(p, path).
       let at = path_available_at path (ue_height spent)
       in if height < at then Err (PolicyErr (TooEarly at height))
          else rbind (check_path_keys net (pp_keys path)) (\<lambda>_. Ok path))"

definition precheck_spend :: "network \<Rightarrow> utxo_entry \<Rightarrow> nat \<Rightarrow> tx_witness \<Rightarrow> (unit, ValidationError) result" where
  "precheck_spend net spent height wit = rbind (precheck net spent height wit) (\<lambda>_. Ok ())"

fun verify_path_keys ::
  "mldsa_lib \<Rightarrow> (nat \<Rightarrow> hash256) \<Rightarrow> key_use list \<Rightarrow> (unit, ValidationError) result" where
  "verify_path_keys mldsa message [] = Ok ()"
| "verify_path_keys mldsa message (k # ks) =
     rbind (map_err SignatureError
       (verify mldsa (ku_scheme k) (ku_pubkey k) (message (ku_leaf k)) (ku_signature k))) (\<lambda>_.
     verify_path_keys mldsa message ks)"

definition check_spend ::
  "mldsa_lib \<Rightarrow> transaction \<Rightarrow> u32 \<Rightarrow> network \<Rightarrow> utxo_entry \<Rightarrow> nat \<Rightarrow> tx_witness \<Rightarrow> (unit, ValidationError) result" where
  "check_spend mldsa t i net spent height wit =
     rbind (precheck net spent height wit) (\<lambda>path.
       verify_path_keys mldsa
         (\<lambda>leaf. policy_sighash_of_stripped (encode_without_witness t) i net (ue_output spent)
                   (wit_pubkey wit) (of_nat leaf) (pp_choices path))
         (pp_keys path))"

definition check_signature ::
  "mldsa_lib \<Rightarrow> transaction \<Rightarrow> u32 \<Rightarrow> network \<Rightarrow> txout \<Rightarrow> byte list \<Rightarrow> nat \<Rightarrow> byte list \<Rightarrow> byte list \<Rightarrow> byte list
   \<Rightarrow> (unit, ValidationError) result" where
  "check_signature mldsa t i net spent bs leaf choices pubkey sg =
     (if out_scheme spent \<noteq> SchemeId.Policy \<or> policy_activation_height net = u64_max
      then Err (SchemeForbiddenOnNetwork (out_scheme spent))
      else if length bs > MAX_POLICY_SIZE then Err (PolicyErr (TooLarge (length bs)))
      else if lock_hash_of bs \<noteq> out_pubkey_hash spent then Err (PolicyErr DoesNotMatchLock)
      else rbind (map_err PolicyErr (policy_decode bs)) (\<lambda>p.
           rbind (ok_or (List.find (\<lambda>(pos, s, h). pos = leaf) (key_leaves p)) (PolicyErr (NotAKeyLeaf (of_nat leaf))))
             (\<lambda>(pos, scheme, h).
               if \<not> allowed_on scheme net then Err (SchemeForbiddenOnNetwork scheme)
               else rbind (map_err (\<lambda>e. PolicyErr (WitnessSize e)) (check_sizes scheme pubkey sg)) (\<lambda>_.
                 if pubkey_hash scheme pubkey \<noteq> h then Err KeyDoesNotMatchLock
                 else if length choices > MAX_POLICY_LEAVES then Err (PolicyErr TooManyLeaves)
                 else map_err SignatureError
                   (verify mldsa scheme pubkey (policy_sighash t i net spent bs (of_nat leaf) choices) sg)))))"

definition relative_lock :: "txout \<Rightarrow> tx_witness \<Rightarrow> nat" where
  "relative_lock spent wit =
     (if out_scheme spent \<noteq> SchemeId.Policy then 0
      else case read_spend spent wit of Ok (p, path) \<Rightarrow> pp_min_age path | _ \<Rightarrow> 0)"

definition verifications_claimed :: "tx_witness \<Rightarrow> nat" where
  "verifications_claimed wit =
     (if length (wit_pubkey wit) > MAX_POLICY_SIZE then 1
      else case policy_decode (wit_pubkey wit) of
        Ok p \<Rightarrow> (case walk p (wit_signature wit, 0, path_new False) of
                   Ok (rest, leaf, path) \<Rightarrow> max (length (pp_keys path)) 1
                 | _ \<Rightarrow> 1)
      | _ \<Rightarrow> 1)"

definition policy_available_at :: "utxo_entry \<Rightarrow> tx_witness \<Rightarrow> nat" where
  "policy_available_at spent wit =
     (if out_scheme (ue_output spent) \<noteq> SchemeId.Policy then 0
      else case read_spend (ue_output spent) wit of Ok (p, path) \<Rightarrow> path_available_at path (ue_height spent) | _ \<Rightarrow> 0)"

section \<open>One form per policy\<close>

primrec policy_shape :: "policy \<Rightarrow> bool" where
  "policy_shape (PKey s h) \<longleftrightarrow> s \<in> set SCHEME_ALL \<and> \<not> is_one_time s \<and> length h = 32"
| "policy_shape (PPreimage h) \<longleftrightarrow> length h = 32"
| "policy_shape (POlder n) \<longleftrightarrow> n \<noteq> 0"
| "policy_shape (PAfter h) \<longleftrightarrow> h \<noteq> 0"
| "policy_shape (PAll cs) \<longleftrightarrow> 2 \<le> length cs \<and> length cs \<le> MAX_POLICY_LEAVES \<and> list_all id (map policy_shape cs)"
| "policy_shape (PAny cs) \<longleftrightarrow> 2 \<le> length cs \<and> length cs \<le> MAX_POLICY_LEAVES \<and> list_all id (map policy_shape cs)"

text \<open>\<open>fits d p\<close>: at most \<open>d\<close> levels.\<close>

primrec fits :: "policy \<Rightarrow> nat \<Rightarrow> bool" where
  "fits (PKey s h) = (\<lambda>d. 0 < d)"
| "fits (PPreimage h) = (\<lambda>d. 0 < d)"
| "fits (POlder n) = (\<lambda>d. 0 < d)"
| "fits (PAfter h) = (\<lambda>d. 0 < d)"
| "fits (PAll cs) = (\<lambda>d. 0 < d \<and> list_all (\<lambda>f. f (d - 1)) (map fits cs))"
| "fits (PAny cs) = (\<lambda>d. 0 < d \<and> list_all (\<lambda>f. f (d - 1)) (map fits cs))"

lemma list_all_id_map: "list_all id (map P xs) \<longleftrightarrow> (\<forall>x \<in> set xs. P x)"
  by (simp add: list_all_iff)

lemma list_all_app_map: "list_all (\<lambda>f. f d) (map P xs) \<longleftrightarrow> (\<forall>x \<in> set xs. P x d)"
  by (simp add: list_all_iff)

lemmas node_defs = NODE_KEY_def NODE_PREIMAGE_def NODE_OLDER_def NODE_ALL_def NODE_ANY_def NODE_AFTER_def

lemma policy_leaf_Ok [simp]:
  "policy_leaf p l bs = Ok (q, l', rest) \<longleftrightarrow> l < MAX_POLICY_LEAVES \<and> q = p \<and> l' = Suc l \<and> rest = bs"
  by (auto simp: policy_leaf_def)

lemma arity_byte_val: "n < 256 \<Longrightarrow> unat (arity_byte n) = n"
  by (simp add: arity_byte_def unat_of_nat)

lemma arity_byte_unat: "arity_byte (unat b) = b"
  using unat_lt [of b] by (simp add: arity_byte_def)

lemma older_bytes: "le_bytes 2 (unat (of_nat (le_val [lo, hi]) :: u16)) = [lo, hi]"
proof -
  have u: "unat (of_nat v :: u16) = v" if "v < 2 ^ 16" for v using that by (simp add: unat_of_nat take_bit_nat_eq_self)
  have "unat (of_nat (le_val [lo, hi]) :: u16) = le_val [lo, hi]"
    by (rule u) (use le_val_bound [of "[lo, hi]"] in simp)
  then show ?thesis using le_bytes_le_val [of "[lo, hi]"] by (simp only: length_Cons list.size numeral_2_eq_2)
qed

lemma older_val: "le_bytes 2 (unat n) = [lo, hi] \<Longrightarrow> (of_nat (le_val [lo, hi]) :: u16) = n"
  using le_val_le_bytes [of 2 "unat n"] unat_lt [of n] by simp

lemma older_iff: "(\<exists>lo hi. bs = lo # hi # rest \<and> n = of_nat (le_val [lo, hi])) \<longleftrightarrow> bs = le_bytes 2 (unat n) @ rest"
  for n :: u16
proof
  assume "\<exists>lo hi. bs = lo # hi # rest \<and> n = of_nat (le_val [lo, hi])"
  then obtain lo hi where e: "bs = lo # hi # rest" "n = of_nat (le_val [lo, hi])" by blast
  have "le_bytes 2 (unat n) = [lo, hi]" unfolding e(2) by (rule older_bytes)
  then show "bs = le_bytes 2 (unat n) @ rest" using e(1) by (simp only: append_Cons append_Nil)
next
  assume b: "bs = le_bytes 2 (unat n) @ rest"
  have "le_bytes 2 (unat n) = [of_nat (unat n mod 256), of_nat (unat n div 256 mod 256)]"
    by (simp add: numeral_2_eq_2)
  then obtain lo hi where e: "le_bytes 2 (unat n) = [lo, hi]" by blast
  then show "\<exists>lo hi. bs = lo # hi # rest \<and> n = of_nat (le_val [lo, hi])"
    using b older_val [OF e] by (metis append_Cons append_Nil)
qed

definition read_spec :: "policy_reader \<Rightarrow> nat \<Rightarrow> bool" where
  "read_spec rd d \<longleftrightarrow>
     (\<forall>l bs p l' rest. rd l bs = Ok (p, l', rest) \<longleftrightarrow>
        policy_shape p \<and> fits p d \<and> l' = l + leaf_count p \<and> l' \<le> MAX_POLICY_LEAVES \<and> bs = policy_encode p @ rest)"

lemma leaf_count_pos: "policy_shape p \<Longrightarrow> 0 < leaf_count p"
proof (induction p)
  case (PAll cs)
  then obtain c where "c \<in> set cs" by (cases cs) auto
  then show ?case using PAll member_le_sum_list [of "leaf_count c" "map leaf_count cs"]
    by (fastforce simp: list_all_id_map)
next
  case (PAny cs)
  then obtain c where "c \<in> set cs" by (cases cs) auto
  then show ?case using PAny member_le_sum_list [of "leaf_count c" "map leaf_count cs"]
    by (fastforce simp: list_all_id_map)
qed simp_all

lemma read_specD: "read_spec rd d \<Longrightarrow> rd l bs = Ok (p, l', rest) \<longleftrightarrow>
    policy_shape p \<and> fits p d \<and> l' = l + leaf_count p \<and> l' \<le> MAX_POLICY_LEAVES \<and> bs = policy_encode p @ rest"
  unfolding read_spec_def by blast

lemma read_children_spec:
  assumes "read_spec rd d"
  shows "read_children rd n l bs = Ok (cs, l', rest) \<longleftrightarrow>
    length cs = n \<and> (\<forall>c \<in> set cs. policy_shape c \<and> fits c d) \<and> l' = l + sum_list (map leaf_count cs) \<and>
    (cs \<noteq> [] \<longrightarrow> l' \<le> MAX_POLICY_LEAVES) \<and> bs = concat (map policy_encode cs) @ rest"
proof (induction n arbitrary: l bs cs)
  case (Suc n)
  show ?case
  proof (cases cs)
    case Nil
    then show ?thesis by (auto split: prod.splits)
  next
    case (Cons c cs')
    have "read_children rd (Suc n) l bs = Ok (c # cs', l', rest) \<longleftrightarrow>
      (\<exists>l1 r1. rd l bs = Ok (c, l1, r1) \<and> read_children rd n l1 r1 = Ok (cs', l', rest))"
      by (auto split: prod.splits)
    also have "\<dots> \<longleftrightarrow> (\<exists>l1 r1. (policy_shape c \<and> fits c d \<and> l1 = l + leaf_count c \<and> l1 \<le> MAX_POLICY_LEAVES \<and>
        bs = policy_encode c @ r1) \<and> read_children rd n l1 r1 = Ok (cs', l', rest))"
      by (simp only: read_specD [OF assms])
    also have "\<dots> \<longleftrightarrow> length (c # cs') = Suc n \<and> (\<forall>c \<in> set (c # cs'). policy_shape c \<and> fits c d) \<and>
        l' = l + sum_list (map leaf_count (c # cs')) \<and> l' \<le> MAX_POLICY_LEAVES \<and>
        bs = concat (map policy_encode (c # cs')) @ rest"
      unfolding Suc by auto
    finally show ?thesis using Cons by simp
  qed
qed auto

lemma read_children_length: "read_children rd n l bs = Ok (cs, l', rest) \<Longrightarrow> length cs = n"
  by (induction n arbitrary: l bs cs) (auto split: prod.splits)

lemma policy_read_node:
  "policy_read (Suc d) l (tag # bs) = Ok (p, l', rest) \<longleftrightarrow>
     (tag = NODE_KEY \<and> (\<exists>s h. p = PKey s h \<and> policy_shape p \<and> l < MAX_POLICY_LEAVES \<and> l' = Suc l \<and>
        bs = scheme_as_u8 s # h @ rest) \<or>
      tag = NODE_PREIMAGE \<and> (\<exists>h. p = PPreimage h \<and> policy_shape p \<and> l < MAX_POLICY_LEAVES \<and> l' = Suc l \<and> bs = h @ rest) \<or>
      tag = NODE_OLDER \<and> (\<exists>n. p = POlder n \<and> policy_shape p \<and> l < MAX_POLICY_LEAVES \<and> l' = Suc l \<and>
        bs = le_bytes 2 (unat n) @ rest) \<or>
      tag = NODE_AFTER \<and> (\<exists>h. p = PAfter h \<and> policy_shape p \<and> l < MAX_POLICY_LEAVES \<and> l' = Suc l \<and> bs = w_u32 h @ rest) \<or>
      (tag = NODE_ALL \<or> tag = NODE_ANY) \<and> (\<exists>cs bs'. p = (if tag = NODE_ALL then PAll cs else PAny cs) \<and>
        2 \<le> length cs \<and> length cs \<le> MAX_POLICY_LEAVES \<and> bs = arity_byte (length cs) # bs' \<and>
        read_children (policy_read d) (length cs) l bs' = Ok (cs, l', rest)))"
  (is "?lhs \<longleftrightarrow> ?rhs")
proof -
  consider (key) "tag = NODE_KEY" | (pre) "tag = NODE_PREIMAGE" | (older) "tag = NODE_OLDER" | (after) "tag = NODE_AFTER"
    | (comb) "tag = NODE_ALL \<or> tag = NODE_ANY"
    | (other) "tag \<notin> {NODE_KEY, NODE_PREIMAGE, NODE_OLDER, NODE_AFTER, NODE_ALL, NODE_ANY}"
    by auto
  then show ?thesis
  proof cases
    case key
    then show ?thesis
      by (auto simp: node_defs bind_eq_Some_conv split: prod.splits if_splits dest: scheme_as_from_u8) blast
  next
    case pre
    then show ?thesis by (auto simp: node_defs split: prod.splits)
  next
    case older
    have "?lhs \<longleftrightarrow> (\<exists>lo hi. bs = lo # hi # rest \<and> (of_nat (le_val [lo, hi]) :: u16) \<noteq> 0 \<and> l < MAX_POLICY_LEAVES \<and>
        l' = Suc l \<and> p = POlder (of_nat (le_val [lo, hi])))"
      using older by (auto simp: node_defs Let_def simp del: le_val.simps split: prod.splits if_splits)
    also have "\<dots> \<longleftrightarrow> (\<exists>n. p = POlder n \<and> n \<noteq> 0 \<and> l < MAX_POLICY_LEAVES \<and> l' = Suc l \<and> bs = le_bytes 2 (unat n) @ rest)"
      unfolding older_iff [symmetric] by blast
    finally show ?thesis using older by (auto simp: node_defs)
  next
    case after
    then show ?thesis by (auto simp: node_defs split: prod.splits if_splits)
  next
    case comb
    have "?lhs \<longleftrightarrow> (\<exists>n bs' cs. bs = n # bs' \<and> 2 \<le> unat n \<and> unat n \<le> MAX_POLICY_LEAVES \<and>
        read_children (policy_read d) (unat n) l bs' = Ok (cs, l', rest) \<and>
        p = (if tag = NODE_ALL then PAll cs else PAny cs))"
      using comb by (auto simp: node_defs split: prod.splits if_splits)
    also have "\<dots> \<longleftrightarrow> (\<exists>cs bs'. p = (if tag = NODE_ALL then PAll cs else PAny cs) \<and>
        2 \<le> length cs \<and> length cs \<le> MAX_POLICY_LEAVES \<and> bs = arity_byte (length cs) # bs' \<and>
        read_children (policy_read d) (length cs) l bs' = Ok (cs, l', rest))"
      (is "?a \<longleftrightarrow> ?b")
    proof
      assume ?a
      then obtain n bs' cs where a: "bs = n # bs'" "2 \<le> unat n" "unat n \<le> MAX_POLICY_LEAVES"
        "read_children (policy_read d) (unat n) l bs' = Ok (cs, l', rest)"
        "p = (if tag = NODE_ALL then PAll cs else PAny cs)" by blast
      then have "length cs = unat n" by (auto dest: read_children_length)
      then show ?b using a by (intro exI [of _ cs] exI [of _ bs']) (simp add: arity_byte_unat)
    next
      assume ?b
      then obtain cs bs' where b: "p = (if tag = NODE_ALL then PAll cs else PAny cs)" "2 \<le> length cs"
        "length cs \<le> MAX_POLICY_LEAVES" "bs = arity_byte (length cs) # bs'"
        "read_children (policy_read d) (length cs) l bs' = Ok (cs, l', rest)" by blast
      then have "unat (arity_byte (length cs)) = length cs" by (intro arity_byte_val) (simp add: MAX_POLICY_LEAVES_def)
      then show ?a using b by (intro exI [of _ "arity_byte (length cs)"] exI [of _ bs'] exI [of _ cs]) simp
    qed
    finally show ?thesis using comb by (auto simp: node_defs)
  next
    case other
    then show ?thesis by (auto split: prod.splits)
  qed
qed

lemma policy_read_spec: "read_spec (policy_read d) d"
proof (induction d)
  case 0
  have "\<not> fits p 0" for p by (cases p) auto
  then show ?case by (simp add: read_spec_def)
next
  case (Suc d)
  note ch = read_children_spec [OF Suc]
  have "policy_read (Suc d) l bs = Ok (p, l', rest) \<longleftrightarrow>
      policy_shape p \<and> fits p (Suc d) \<and> l' = l + leaf_count p \<and> l' \<le> MAX_POLICY_LEAVES \<and> bs = policy_encode p @ rest"
    for l bs p l' rest
  proof (cases bs)
    case Nil
    then show ?thesis by (cases p) (auto simp: w_u8_def split: prod.splits)
  next
    case (Cons tag bs')
    show ?thesis
      unfolding Cons policy_read_node ch
      by (cases p) (auto simp: node_defs w_u8_def list_all_id_map list_all_app_map)
  qed
  then show ?case unfolding read_spec_def by blast
qed

lemma read_children_no_panic: "(\<And>l bs. rd l bs \<noteq> Panic) \<Longrightarrow> read_children rd n l bs \<noteq> Panic"
  by (induction n arbitrary: l bs) (auto simp: rbind_Panic_iff split: prod.splits)

lemma policy_leaf_no_panic [simp]: "policy_leaf p l bs \<noteq> Panic"
  by (simp add: policy_leaf_def)

lemma policy_read_no_panic: "policy_read d l bs \<noteq> Panic"
proof (induction d arbitrary: l bs)
  case (Suc d)
  show ?case
    using read_children_no_panic [of "policy_read d", OF Suc]
    by (auto simp: rbind_Panic_iff Let_def split: prod.splits if_splits)
qed simp

lemma policy_encode_length: "policy_shape p \<Longrightarrow> length (policy_encode p) + 2 \<le> 36 * leaf_count p"
proof (induction p)
  have many: "sum_list (map (\<lambda>c. length (policy_encode c)) cs) + 2 * length cs \<le> 36 * sum_list (map leaf_count cs)"
    if "\<And>c. c \<in> set cs \<Longrightarrow> length (policy_encode c) + 2 \<le> 36 * leaf_count c" for cs
    using that by (induction cs) (auto simp: algebra_simps, fastforce)
  {
    case (PAll cs)
    then show ?case using many [of cs] by (auto simp: w_u8_def length_concat list_all_id_map comp_def)
  next
    case (PAny cs)
    then show ?case using many [of cs] by (auto simp: w_u8_def length_concat list_all_id_map comp_def)
  }
qed (simp_all add: w_u8_def w_u32_def)

text \<open>A policy that the code accepts: shape, at most four levels and eight leaves, always signed.\<close>

definition policy_ok :: "policy \<Rightarrow> bool" where
  "policy_ok p \<longleftrightarrow> policy_shape p \<and> fits p MAX_POLICY_DEPTH \<and> leaf_count p \<le> MAX_POLICY_LEAVES \<and> always_signed p"

lemma policy_decode_iff: "policy_decode bs = Ok p \<longleftrightarrow> policy_ok p \<and> bs = policy_encode p"
proof -
  have "length (policy_encode p) \<le> MAX_POLICY_SIZE" if "policy_ok p"
    using that policy_encode_length [of p] by (simp add: policy_ok_def MAX_POLICY_SIZE_def MAX_POLICY_LEAVES_def)
  then show ?thesis
    by (auto simp: policy_decode_def policy_ok_def read_specD [OF policy_read_spec] split: prod.splits if_splits)
qed

lemma policy_decode_no_panic: "policy_decode bs \<noteq> Panic"
  by (auto simp: policy_decode_def rbind_Panic_iff policy_read_no_panic split: prod.splits if_splits)

text \<open>C16. A policy has one serialized form. Decoding accepts a byte string exactly when it is the
  encoding of a policy within the bounds (at most \<open>MAX_POLICY_DEPTH\<close> levels, \<open>MAX_POLICY_LEAVES\<close>
  leaves, key leaves of reusable key schemes, no empty lock, and a signature on every path), returns
  that policy and never panics; two policies within the bounds with the same bytes are equal, and such
  an encoding is at most 286 bytes long, below \<open>MAX_POLICY_SIZE\<close>.\<close>

theorem policy_decode_canonical:
  "(policy_decode bs = Ok p \<longleftrightarrow> policy_ok p \<and> bs = policy_encode p \<and> length bs \<le> 286) \<and>
   policy_decode bs \<noteq> Panic"
  using policy_decode_iff [of bs p] policy_decode_no_panic [of bs] policy_encode_length [of p]
  by (auto simp: policy_ok_def MAX_POLICY_LEAVES_def)

lemma pubkey_sig_len_small: "pubkey_len s < 2 ^ 64" "sig_len s < 2 ^ 64"
  by (cases s; simp add: LAMPORT_PUBKEY_LEN_def LAMPORT_SIG_LEN_def LAMPORT_N_BITS_def)+

section \<open>What a spend must satisfy\<close>

text \<open>
  The meaning of a policy, on the tree and without the reader: which satisfactions open it for an output
  born at height \<open>born\<close> and spent at \<open>height\<close>. \<open>key leaf scheme h k g\<close> is what
  is asked of the key \<open>k\<close> and the signature \<open>g\<close> shown for the key leaf at that position, which commits to \<open>h\<close>.
  A hash leaf needs its preimage, a lock its delay or its height; \<open>PAll\<close> needs all its children and \<open>PAny\<close> the one it names.
  Positions count the leaves of the tree from the left, those of the branches not taken included.
\<close>

inductive satisfies :: "(nat \<Rightarrow> SchemeId \<Rightarrow> hash256 \<Rightarrow> byte list \<Rightarrow> byte list \<Rightarrow> bool) \<Rightarrow> nat \<Rightarrow> nat \<Rightarrow> nat \<Rightarrow> policy \<Rightarrow> satisfaction \<Rightarrow> bool"
  and satisfies_all :: "(nat \<Rightarrow> SchemeId \<Rightarrow> hash256 \<Rightarrow> byte list \<Rightarrow> byte list \<Rightarrow> bool) \<Rightarrow> nat \<Rightarrow> nat \<Rightarrow> nat \<Rightarrow> policy list \<Rightarrow> satisfaction list \<Rightarrow> bool"
  for key :: "nat \<Rightarrow> SchemeId \<Rightarrow> hash256 \<Rightarrow> byte list \<Rightarrow> byte list \<Rightarrow> bool" and born height :: nat where
  sat_key: "length k = pubkey_len s \<Longrightarrow> length g = sig_len s \<Longrightarrow> key leaf s h k g \<Longrightarrow>
    satisfies key born height leaf (PKey s h) (SKey k g)"
| sat_preimage: "length x = 32 \<Longrightarrow> sha256 x = h \<Longrightarrow> satisfies key born height leaf (PPreimage h) (SPreimage x)"
| sat_older: "min (born + unat n) u64_max \<le> height \<Longrightarrow> satisfies key born height leaf (POlder n) SOlder"
| sat_after: "unat h \<le> height \<Longrightarrow> satisfies key born height leaf (PAfter h) SAfter"
| sat_all: "satisfies_all key born height leaf cs ss \<Longrightarrow> satisfies key born height leaf (PAll cs) (SAll ss)"
| sat_any: "unat i < length cs \<Longrightarrow>
    satisfies key born height (leaf + sum_list (map leaf_count (take (unat i) cs))) (cs ! unat i) s \<Longrightarrow>
    satisfies key born height leaf (PAny cs) (SAny i s)"
| sat_nil: "satisfies_all key born height leaf [] []"
| sat_cons: "satisfies key born height leaf c s \<Longrightarrow> satisfies_all key born height (leaf + leaf_count c) cs ss \<Longrightarrow>
    satisfies_all key born height leaf (c # cs) (s # ss)"

primrec sat_signatures :: "satisfaction \<Rightarrow> nat" where
  "sat_signatures (SKey k g) = 1"
| "sat_signatures (SPreimage p) = 0"
| "sat_signatures SOlder = 0"
| "sat_signatures SAfter = 0"
| "sat_signatures (SAll ss) = sum_list (map sat_signatures ss)"
| "sat_signatures (SAny i s) = sat_signatures s"

lemma satisfies_signed:
  "satisfies key born height leaf p s \<Longrightarrow> always_signed p \<Longrightarrow> 0 < sat_signatures s"
  "satisfies_all key born height leaf cs ss \<Longrightarrow> list_ex id (map always_signed cs) \<Longrightarrow> 0 < sum_list (map sat_signatures ss)"
proof (induction rule: satisfies_satisfies_all.inducts)
  case (sat_any i cs leaf s)
  then show ?case by (simp add: list_all_length)
next
  case (sat_cons leaf c s cs ss)
  then show ?case by auto
qed auto

section \<open>The walk reads what satisfies\<close>

text \<open>What a walk adds to its path: keys, locks and choices.\<close>

definition path_add :: "policy_path \<Rightarrow> key_use list \<Rightarrow> nat \<Rightarrow> nat \<Rightarrow> byte list \<Rightarrow> policy_path" where
  "path_add path ks a h cs = path\<lparr>pp_keys := pp_keys path @ ks, pp_min_age := max (pp_min_age path) a,
     pp_min_height := max (pp_min_height path) h, pp_choices := pp_choices path @ cs\<rparr>"

lemma path_add_add [simp]:
  "path_add (path_add path ks a h cs) ks' a' h' cs' = path_add path (ks @ ks') (max a a') (max h h') (cs @ cs')"
  by (simp add: path_add_def max.assoc)

lemma path_add_none [simp]: "path_add path [] 0 0 [] = path"
  by (simp add: path_add_def)

lemma path_add_check [simp]: "pp_check_preimages (path_add path ks a h cs) = pp_check_preimages path"
  by (simp add: path_add_def)

definition locks_open :: "nat \<Rightarrow> nat \<Rightarrow> nat \<Rightarrow> nat \<Rightarrow> bool" where
  "locks_open born height a h \<longleftrightarrow> (a \<noteq> 0 \<longrightarrow> min (born + a) u64_max \<le> height) \<and> h \<le> height"

lemma locks_open_max [simp]:
  "locks_open born height (max a a') (max h h') \<longleftrightarrow> locks_open born height a h \<and> locks_open born height a' h'"
  by (auto simp: locks_open_def max_def min_def split: if_splits)

lemma path_add_new [simp]:
  "pp_keys (path_add (path_new c) ks a h cs) = ks" "pp_choices (path_add (path_new c) ks a h cs) = cs"
  by (simp_all add: path_add_def path_new_def)

lemma locks_open_0 [simp]: "locks_open born height 0 0"
  by (simp add: locks_open_def)

definition key_good :: "(nat \<Rightarrow> SchemeId \<Rightarrow> hash256 \<Rightarrow> byte list \<Rightarrow> byte list \<Rightarrow> bool) \<Rightarrow> key_use \<Rightarrow> bool" where
  "key_good key k \<longleftrightarrow> key (ku_leaf k) (ku_scheme k) (ku_hash k) (ku_pubkey k) (ku_signature k)"

lemma check_sizes_Ok: "check_sizes s k g = Ok () \<longleftrightarrow> length k = pubkey_len s \<and> length g = sig_len s"
  by (auto simp: check_sizes_def)

lemma walk_branch_skip:
  "index < i \<Longrightarrow> walk_branch index i (zip (map walk cs) (map leaf_count cs)) (bs, leaf, path) =
     Ok (bs, leaf + sum_list (map leaf_count cs), path)"
  by (induction cs arbitrary: i leaf) (auto simp: add.assoc)

text \<open>The loop over the branches walks the one named, at its position.\<close>

lemma walk_branch_at:
  "i \<le> index \<Longrightarrow> index < i + length cs \<Longrightarrow>
   walk_branch index i (zip (map walk cs) (map leaf_count cs)) (bs, leaf, path) =
     rbind (walk (cs ! (index - i)) (bs, leaf + sum_list (map leaf_count (take (index - i) cs)), path)) (\<lambda>(bs, l, path).
       Ok (bs, l + sum_list (map leaf_count (drop (Suc (index - i)) cs)), path))"
proof (induction cs arbitrary: i leaf)
  case (Cons c cs)
  show ?case
  proof (cases "i = index")
    case True
    then show ?thesis by (cases "walk c (bs, leaf, path)") (auto simp: walk_branch_skip)
  next
    case False
    then have "index - i = Suc (index - Suc i)" using Cons.prems by simp
    then show ?thesis using Cons.IH [of "Suc i" "leaf + leaf_count c"] Cons.prems False by (simp add: add.assoc)
  qed
qed simp

lemma sum_take_nth_drop: "k < length xs \<Longrightarrow>
    sum_list (map f (take k xs)) + f (xs ! k) + sum_list (map f (drop (Suc k) xs)) = sum_list (map f xs)" for f :: "'a \<Rightarrow> nat"
  using arg_cong [OF id_take_nth_drop [of k xs], of "\<lambda>ys. sum_list (map f ys)"] by simp

definition walk_sound :: "policy \<Rightarrow> bool" where
  "walk_sound p \<longleftrightarrow> (\<forall>bs leaf path rest leaf' path'.
     walk p (bs, leaf, path) = Ok (rest, leaf', path') \<longrightarrow> pp_check_preimages path \<longrightarrow> policy_shape p \<longrightarrow>
     (\<exists>s ks a h. bs = sat_encode s @ rest \<and> leaf' = leaf + leaf_count p \<and> path' = path_add path ks a h (sat_choices s) \<and>
        (\<forall>key born height. list_all (key_good key) ks \<longrightarrow> locks_open born height a h \<longrightarrow>
           satisfies key born height leaf p s)))"

lemma walk_soundD:
  assumes "walk_sound p" "walk p (bs, leaf, path) = Ok (rest, leaf', path')" "pp_check_preimages path" "policy_shape p"
  obtains s ks a h where "bs = sat_encode s @ rest" "leaf' = leaf + leaf_count p" "path' = path_add path ks a h (sat_choices s)"
    "\<And>key born height. list_all (key_good key) ks \<Longrightarrow> locks_open born height a h \<Longrightarrow>
       satisfies key born height leaf p s"
  using assms unfolding walk_sound_def by blast

lemma walk_seq_sound:
  "(\<And>c. c \<in> set cs \<Longrightarrow> walk_sound c \<and> policy_shape c) \<Longrightarrow> walk_seq (map walk cs) (bs, leaf, path) = Ok (rest, leaf', path') \<Longrightarrow>
   pp_check_preimages path \<Longrightarrow>
   \<exists>ss ks a h. bs = concat (map sat_encode ss) @ rest \<and> leaf' = leaf + sum_list (map leaf_count cs) \<and>
     path' = path_add path ks a h (concat (map sat_choices ss)) \<and>
     (\<forall>key born height. list_all (key_good key) ks \<longrightarrow> locks_open born height a h \<longrightarrow>
        satisfies_all key born height leaf cs ss)"
proof (induction cs arbitrary: bs leaf path)
  case Nil
  then show ?case by (intro exI [of _ "[]"] exI [of _ 0]) (auto intro: sat_nil)
next
  case (Cons c cs)
  obtain bs1 leaf1 path1 where 1: "walk c (bs, leaf, path) = Ok (bs1, leaf1, path1)"
    "walk_seq (map walk cs) (bs1, leaf1, path1) = Ok (rest, leaf', path')" using Cons.prems(2) by auto
  obtain s ks a h where s: "bs = sat_encode s @ bs1" "leaf1 = leaf + leaf_count c" "path1 = path_add path ks a h (sat_choices s)"
    "\<And>key born height. list_all (key_good key) ks \<Longrightarrow> locks_open born height a h \<Longrightarrow>
       satisfies key born height leaf c s"
    using walk_soundD [OF _ 1(1) Cons.prems(3)] Cons.prems(1) by (metis list.set_intros(1))
  have "pp_check_preimages path1" using Cons.prems(3) s(3) by simp
  with Cons.IH [OF _ 1(2)] Cons.prems(1) obtain ss ks' a' h' where ss: "bs1 = concat (map sat_encode ss) @ rest"
    "leaf' = leaf1 + sum_list (map leaf_count cs)" "path' = path_add path1 ks' a' h' (concat (map sat_choices ss))"
    "\<forall>key born height. list_all (key_good key) ks' \<longrightarrow> locks_open born height a' h' \<longrightarrow>
        satisfies_all key born height leaf1 cs ss"
    by (metis list.set_intros(2))
  show ?case
    using s ss by (intro exI [of _ "s # ss"] exI [of _ "ks @ ks'"] exI [of _ "max a a'"] exI [of _ "max h h'"])
      (auto intro: sat_cons)
qed

lemma walk_sound: "walk_sound p"
proof (induction p)
  case (PKey sc h)
  show ?case
    unfolding walk_sound_def
  proof (intro allI impI)
    fix bs leaf path rest leaf' path'
    assume "walk (PKey sc h) (bs, leaf, path) = Ok (rest, leaf', path')"
    then obtain k g where w: "bs = w_var_bytes k @ w_var_bytes g @ rest" "check_sizes sc k g = Ok ()" "leaf' = leaf + 1"
      "path' = path_add path [\<lparr>ku_leaf = leaf, ku_scheme = sc, ku_hash = h, ku_pubkey = k, ku_signature = g\<rparr>] 0 0 []"
      by (auto simp: var_bytes.dec_iff path_add_def split: prod.splits)
    then show "\<exists>s ks a ht. bs = sat_encode s @ rest \<and> leaf' = leaf + leaf_count (PKey sc h) \<and>
        path' = path_add path ks a ht (sat_choices s) \<and>
        (\<forall>key born height. list_all (key_good key) ks \<longrightarrow> locks_open born height a ht \<longrightarrow>
           satisfies key born height leaf (PKey sc h) s)"
      by (intro exI [of _ "SKey k g"] exI [of _ "[\<lparr>ku_leaf = leaf, ku_scheme = sc, ku_hash = h, ku_pubkey = k, ku_signature = g\<rparr>]"] exI [of _ 0])
        (auto simp: check_sizes_Ok key_good_def intro: sat_key)
  qed
next
  case (PPreimage h)
  show ?case
    unfolding walk_sound_def
    by (auto simp: split: prod.splits if_splits intro!: exI [of _ "SPreimage _"] exI [of _ "[]"] exI [of _ 0] sat_preimage)
next
  case (POlder n)
  have w: "walk (POlder n) (bs, leaf, path) = Ok (bs, leaf + 1, path_add path [] (unat n) 0 [])" for bs leaf path
    by (simp add: path_add_def)
  show ?case
    unfolding walk_sound_def
    by (intro allI impI, rule exI [of _ SOlder], rule exI [of _ "[]"], rule exI [of _ "unat n"], rule exI [of _ 0])
      (auto simp: w intro!: sat_older simp: locks_open_def unat_eq_zero simp del: walk.simps)
next
  case (PAfter h)
  have w: "walk (PAfter h) (bs, leaf, path) = Ok (bs, leaf + 1, path_add path [] 0 (unat h) [])" for bs leaf path
    by (simp add: path_add_def)
  show ?case
    unfolding walk_sound_def
    by (intro allI impI, rule exI [of _ SAfter], rule exI [of _ "[]"], rule exI [of _ 0], rule exI [of _ "unat h"])
      (auto simp: w intro!: sat_after simp: locks_open_def simp del: walk.simps)
next
  case (PAll cs)
  show ?case
    unfolding walk_sound_def
  proof (intro allI impI)
    fix bs leaf path rest leaf' path'
    assume w: "walk (PAll cs) (bs, leaf, path) = Ok (rest, leaf', path')" "pp_check_preimages path" "policy_shape (PAll cs)"
    have "walk_sound c \<and> policy_shape c" if "c \<in> set cs" for c using PAll that w(3) by (auto simp: list_all_id_map)
    from walk_seq_sound [OF this _ w(2)] w(1) obtain ss ks a h where ss: "bs = concat (map sat_encode ss) @ rest"
      "leaf' = leaf + sum_list (map leaf_count cs)" "path' = path_add path ks a h (concat (map sat_choices ss))"
      "\<forall>key born height. list_all (key_good key) ks \<longrightarrow> locks_open born height a h \<longrightarrow>
         satisfies_all key born height leaf cs ss"
      by fastforce
    then show "\<exists>s ks a h. bs = sat_encode s @ rest \<and> leaf' = leaf + leaf_count (PAll cs) \<and>
        path' = path_add path ks a h (sat_choices s) \<and>
        (\<forall>key born height. list_all (key_good key) ks \<longrightarrow> locks_open born height a h \<longrightarrow>
           satisfies key born height leaf (PAll cs) s)"
      by (intro exI [of _ "SAll ss"] exI [of _ ks] exI [of _ a] exI [of _ h]) (auto intro: sat_all)
  qed
next
  case (PAny cs)
  show ?case
    unfolding walk_sound_def
  proof (intro allI impI)
    fix bs leaf path rest leaf' path'
    assume w: "walk (PAny cs) (bs, leaf, path) = Ok (rest, leaf', path')" "pp_check_preimages path" "policy_shape (PAny cs)"
    then obtain i bs1 where b: "bs = i # bs1" "unat i < length cs"
      "walk_branch (unat i) 0 (zip (map walk cs) (map leaf_count cs)) (bs1, leaf, path_add path [] 0 0 [i]) = Ok (rest, leaf', path')"
      by (auto simp: not_le path_add_def split: prod.splits if_splits)
    let ?l = "leaf + sum_list (map leaf_count (take (unat i) cs))"
    obtain l where l: "walk (cs ! unat i) (bs1, ?l, path_add path [] 0 0 [i]) = Ok (rest, l, path')"
      "leaf' = l + sum_list (map leaf_count (drop (Suc (unat i)) cs))"
      using b(3) walk_branch_at [of 0 "unat i" cs bs1 leaf "path_add path [] 0 0 [i]"] b(2) by (auto split: prod.splits)
    have c: "walk_sound (cs ! unat i)" "policy_shape (cs ! unat i)" using PAny b(2) w(3) by (auto simp: list_all_id_map)
    obtain s ks a h where s: "bs1 = sat_encode s @ rest" "l = ?l + leaf_count (cs ! unat i)"
      "path' = path_add (path_add path [] 0 0 [i]) ks a h (sat_choices s)"
      "\<And>key born height. list_all (key_good key) ks \<Longrightarrow> locks_open born height a h \<Longrightarrow>
         satisfies key born height ?l (cs ! unat i) s"
      using walk_soundD [OF c(1) l(1) _ c(2)] w(2) by (metis path_add_check)
    have "leaf' = leaf + leaf_count (PAny cs)" using l(2) s(2) sum_take_nth_drop [OF b(2), of leaf_count] by simp
    then show "\<exists>s ks a h. bs = sat_encode s @ rest \<and> leaf' = leaf + leaf_count (PAny cs) \<and>
        path' = path_add path ks a h (sat_choices s) \<and>
        (\<forall>key born height. list_all (key_good key) ks \<longrightarrow> locks_open born height a h \<longrightarrow>
           satisfies key born height leaf (PAny cs) s)"
      using b s by (intro exI [of _ "SAny i s"] exI [of _ ks] exI [of _ a] exI [of _ h]) (auto simp: w_u8_def intro: sat_any)
  qed
qed

lemma satisfies_walk:
  "satisfies key born height leaf p s \<Longrightarrow> \<exists>ks a h. list_all (key_good key) ks \<and> locks_open born height a h \<and>
     (\<forall>rest path. walk p (sat_encode s @ rest, leaf, path) = Ok (rest, leaf + leaf_count p, path_add path ks a h (sat_choices s)))"
  "satisfies_all key born height leaf cs ss \<Longrightarrow> \<exists>ks a h. list_all (key_good key) ks \<and> locks_open born height a h \<and>
     (\<forall>rest path. walk_seq (map walk cs) (concat (map sat_encode ss) @ rest, leaf, path) =
        Ok (rest, leaf + sum_list (map leaf_count cs), path_add path ks a h (concat (map sat_choices ss))))"
proof (induction rule: satisfies_satisfies_all.inducts)
  case (sat_key k s g leaf h)
  then have "length k < 2 ^ 64" "length g < 2 ^ 64" using pubkey_sig_len_small [of s] by auto
  then show ?case using sat_key
    by (intro exI [of _ "[\<lparr>ku_leaf = leaf, ku_scheme = s, ku_hash = h, ku_pubkey = k, ku_signature = g\<rparr>]"] exI [of _ 0])
      (simp add: var_bytes.dec_enc check_sizes_Ok key_good_def path_add_def)
next
  case (sat_preimage x h leaf)
  then have "r_array32 (x @ rest) = Ok (x, rest)" for rest by simp
  then show ?case using sat_preimage by (intro exI [of _ "[]"] exI [of _ 0]) (simp del: r_array32_Ok_iff)
next
  case (sat_older n leaf)
  then show ?case by (intro exI [of _ "[]"] exI [of _ "unat n"] exI [of _ 0]) (simp add: path_add_def locks_open_def)
next
  case (sat_after h leaf)
  then show ?case by (intro exI [of _ "[]"] exI [of _ 0] exI [of _ "unat h"]) (simp add: path_add_def locks_open_def)
next
  case (sat_all leaf cs ss)
  then show ?case by simp
next
  case (sat_any i cs leaf s)
  then obtain ks a h where k: "list_all (key_good key) ks" "locks_open born height a h"
    "\<And>rest path. walk (cs ! unat i) (sat_encode s @ rest, leaf + sum_list (map leaf_count (take (unat i) cs)), path) =
       Ok (rest, leaf + sum_list (map leaf_count (take (unat i) cs)) + leaf_count (cs ! unat i), path_add path ks a h (sat_choices s))"
    by blast
  have "walk (PAny cs) (sat_encode (SAny i s) @ rest, leaf, path) =
      Ok (rest, leaf + leaf_count (PAny cs), path_add path ks a h (sat_choices (SAny i s)))" for rest path
  proof -
    have "path\<lparr>pp_choices := pp_choices path @ [i]\<rparr> = path_add path [] 0 0 [i]" by (simp add: path_add_def)
    then show ?thesis
      using sat_any.hyps(1) walk_branch_at [of 0 "unat i" cs "sat_encode s @ rest" leaf "path_add path [] 0 0 [i]"] k(3)
        sum_take_nth_drop [OF sat_any.hyps(1), of leaf_count]
      by (simp add: w_u8_def add.assoc)
  qed
  then show ?case using k(1,2) by blast
next
  case (sat_nil leaf)
  then show ?case by (intro exI [of _ "[]"] exI [of _ 0]) simp
next
  case (sat_cons leaf c s cs ss)
  then obtain ks a h ks' a' h' where k: "list_all (key_good key) ks" "locks_open born height a h"
    "\<And>rest path. walk c (sat_encode s @ rest, leaf, path) = Ok (rest, leaf + leaf_count c, path_add path ks a h (sat_choices s))"
    "list_all (key_good key) ks'" "locks_open born height a' h'"
    "\<And>rest path. walk_seq (map walk cs) (concat (map sat_encode ss) @ rest, leaf + leaf_count c, path) =
       Ok (rest, leaf + leaf_count c + sum_list (map leaf_count cs), path_add path ks' a' h' (concat (map sat_choices ss)))"
    by blast
  then show ?case
    by (intro exI [of _ "ks @ ks'"] exI [of _ "max a a'"] exI [of _ "max h h'"]) (simp add: add.assoc)
qed

lemma walk_seq_no_panic: "(\<And>f st. f \<in> set fs \<Longrightarrow> f st \<noteq> Panic) \<Longrightarrow> walk_seq fs st \<noteq> Panic"
  by (induction fs arbitrary: st) (auto simp: rbind_Panic_iff)

lemma walk_branch_no_panic: "(\<And>f n st. (f, n) \<in> set fs \<Longrightarrow> f st \<noteq> Panic) \<Longrightarrow> walk_branch index i fs st \<noteq> Panic"
proof (induction fs arbitrary: i st)
  case (Cons x fs)
  obtain f n where x: "x = (f, n)" by (cases x)
  have ih: "walk_branch index (Suc i) fs st1 \<noteq> Panic" for st1
    using Cons.IH [of "Suc i" st1] Cons.prems by (metis list.set_intros(2))
  have "f st1 \<noteq> Panic" for st1 using Cons.prems [of f n st1] x by simp
  then show ?case using ih unfolding x by (cases st) (auto simp: rbind_Panic_iff)
qed simp

lemma walk_no_panic: "walk p st \<noteq> Panic"
proof (induction p arbitrary: st)
  case (PAll cs)
  then show ?case by (auto intro!: walk_seq_no_panic)
next
  case (PAny cs)
  then show ?case
    by (auto simp: rbind_Panic_iff split: prod.splits if_splits intro!: walk_branch_no_panic dest!: set_zip_leftD)
qed (auto simp: rbind_Panic_iff var_bytes.no_panic check_sizes_def split: prod.splits if_splits)

lemma check_path_keys_Ok: "check_path_keys net ks = Ok () \<longleftrightarrow>
    (\<forall>k \<in> set ks. allowed_on (ku_scheme k) net \<and> pubkey_hash (ku_scheme k) (ku_pubkey k) = ku_hash k)"
  by (induction ks) auto

lemma verify_path_keys_Ok: "verify_path_keys mldsa m ks = Ok () \<longleftrightarrow>
    (\<forall>k \<in> set ks. verify mldsa (ku_scheme k) (ku_pubkey k) (m (ku_leaf k)) (ku_signature k) = Ok ())"
  by (induction ks) auto

lemma path_available_locks:
  "path_available_at (path_add (path_new c) ks a h cs) born \<le> height \<longleftrightarrow> locks_open born height a h"
  by (auto simp: path_available_at_def path_add_def path_new_def locks_open_def sat_add64_def Let_def)

lemma path_keys_good:
  "check_path_keys net ks = Ok () \<and> verify_path_keys mldsa m ks = Ok () \<longleftrightarrow>
   list_all (key_good (\<lambda>leaf s h k g. allowed_on s net \<and> pubkey_hash s k = h \<and> verify mldsa s k (m leaf) g = Ok ())) ks"
  by (auto simp: check_path_keys_Ok verify_path_keys_Ok key_good_def list_all_iff)

lemma read_spend_iff:
  "read_spend spent wit = Ok (p, path) \<longleftrightarrow>
     policy_ok p \<and> wit_pubkey wit = policy_encode p \<and> lock_hash p = out_pubkey_hash spent \<and>
     (\<exists>leaf. walk p (wit_signature wit, 0, path_new True) = Ok ([], leaf, path))"
proof -
  have "length (policy_encode p) \<le> MAX_POLICY_SIZE" if "policy_ok p"
    using that policy_encode_length [of p] by (simp add: policy_ok_def MAX_POLICY_SIZE_def MAX_POLICY_LEAVES_def)
  then show ?thesis by (auto simp: read_spend_def policy_decode_iff lock_hash_def split: prod.splits if_splits)
qed

lemma check_spend_Ok:
  "check_spend mldsa t i net spent height wit = Ok () \<longleftrightarrow>
     (\<exists>p path. read_spend (ue_output spent) wit = Ok (p, path) \<and> path_available_at path (ue_height spent) \<le> height \<and>
        list_all (key_good (\<lambda>leaf s h k g. allowed_on s net \<and> pubkey_hash s k = h \<and>
           verify mldsa s k (policy_sighash t i net (ue_output spent) (wit_pubkey wit) (of_nat leaf) (pp_choices path)) g = Ok ()))
          (pp_keys path))"
  unfolding path_keys_good [symmetric]
  by (cases "read_spend (ue_output spent) wit")
    (auto simp: check_spend_def precheck_def Let_def policy_sighash_def not_less split: prod.splits if_splits)

lemma check_spend_no_panic: "check_spend mldsa t i net spent height wit \<noteq> Panic"
proof -
  have "check_path_keys net ks \<noteq> Panic" "verify_path_keys mldsa m ks \<noteq> Panic" for ks m
    by (induction ks) (auto simp: rbind_Panic_iff)
  moreover have "read_spend (ue_output spent) wit \<noteq> Panic"
    by (auto simp: read_spend_def rbind_Panic_iff walk_no_panic policy_decode_no_panic split: prod.splits if_splits)
  ultimately show ?thesis
    by (auto simp: check_spend_def precheck_def Let_def rbind_Panic_iff split: prod.splits if_splits)
qed

text \<open>C17. Exactly the spends that satisfy the committed policy are accepted. \<open>check_spend\<close> accepts precisely
  when the witness reveals a policy within the bounds whose hash is the one the output commits to, and
  a satisfaction of it, and nothing more, in which every key leaf on the path shows the committed key,
  of a scheme allowed on the network, with a signature that verifies for a message naming that leaf and
  the choices made; every hash leaf on the path shows a preimage; every relative and absolute lock on
  the path has expired; all the children of an \<open>All\<close> and one of an \<open>Any\<close> are satisfied. At least one
  signature was then verified. The check never panics.\<close>

theorem policy_spend_is_signed:
  "(check_spend mldsa t i net spent height wit = Ok () \<longleftrightarrow>
     (\<exists>p s. policy_ok p \<and> lock_hash p = out_pubkey_hash (ue_output spent) \<and> wit = policy_witness p s \<and>
        satisfies (\<lambda>leaf scheme h k g. allowed_on scheme net \<and> pubkey_hash scheme k = h \<and>
            verify mldsa scheme k (policy_message t i net (ue_output spent) p (of_nat leaf) (sat_choices s)) g = Ok ())
          (ue_height spent) height 0 p s \<and>
        0 < sat_signatures s)) \<and>
   check_spend mldsa t i net spent height wit \<noteq> Panic"
  (is "(?lhs \<longleftrightarrow> (\<exists>p s. ?rhs p s)) \<and> _")
proof (intro conjI iffI)
  assume ?lhs
  then obtain p path where r: "read_spend (ue_output spent) wit = Ok (p, path)"
    "path_available_at path (ue_height spent) \<le> height"
    "list_all (key_good (\<lambda>leaf s h k g. allowed_on s net \<and> pubkey_hash s k = h \<and>
       verify mldsa s k (policy_sighash t i net (ue_output spent) (wit_pubkey wit) (of_nat leaf) (pp_choices path)) g = Ok ())) (pp_keys path)" by (auto simp: check_spend_Ok)
  then obtain leaf where ok: "policy_ok p" "wit_pubkey wit = policy_encode p" "lock_hash p = out_pubkey_hash (ue_output spent)"
    "walk p (wit_signature wit, 0, path_new True) = Ok ([], leaf, path)" by (auto simp: read_spend_iff)
  obtain s ks a h where s: "wit_signature wit = sat_encode s @ []" "path = path_add (path_new True) ks a h (sat_choices s)"
    "\<And>key born height. list_all (key_good key) ks \<Longrightarrow> locks_open born height a h \<Longrightarrow>
       satisfies key born height 0 p s"
    by (rule walk_soundD [OF walk_sound ok(4)]) (use ok(1) in \<open>simp_all add: policy_ok_def path_new_def\<close>)
  have ks: "pp_keys path = ks" "pp_choices path = sat_choices s" by (simp_all add: s(2))
  have "satisfies (\<lambda>leaf scheme h k g. allowed_on scheme net \<and> pubkey_hash scheme k = h \<and> verify mldsa scheme k
      (policy_message t i net (ue_output spent) p (of_nat leaf) (sat_choices s)) g = Ok ()) (ue_height spent) height 0 p s"
    using r(2,3) by (intro s(3)) (simp_all add: ks path_available_locks s(2) policy_message_def ok(2))
  moreover have "0 < sat_signatures s" using satisfies_signed(1) [OF calculation] ok(1) by (simp add: policy_ok_def)
  moreover have "wit = policy_witness p s" using ok(2) s(1) by (simp add: policy_witness_def)
  ultimately show "\<exists>p s. ?rhs p s" using ok by blast
next
  assume "\<exists>p s. ?rhs p s"
  then obtain p s where r: "?rhs p s" by blast
  then obtain ks a h where k: "list_all (key_good (\<lambda>leaf scheme h k g. allowed_on scheme net \<and> pubkey_hash scheme k = h \<and> verify mldsa scheme k
      (policy_message t i net (ue_output spent) p (of_nat leaf) (sat_choices s)) g = Ok ())) ks"
    "locks_open (ue_height spent) height a h"
    "\<And>rest path. walk p (sat_encode s @ rest, 0, path) = Ok (rest, 0 + leaf_count p, path_add path ks a h (sat_choices s))"
    using satisfies_walk(1) by blast
  have "read_spend (ue_output spent) wit = Ok (p, path_add (path_new True) ks a h (sat_choices s))"
    using r k(3) [of "[]" "path_new True"] by (auto simp: read_spend_iff policy_witness_def)
  then show ?lhs using r k(1,2)
    by (auto simp: check_spend_Ok path_available_locks policy_message_def policy_witness_def)
next
  show "check_spend mldsa t i net spent height wit \<noteq> Panic" by (rule check_spend_no_panic)
qed

section \<open>Satisfactions read back\<close>

text \<open>A satisfaction that answers a policy, with the parts in their sizes and the branches in range.\<close>

inductive answers :: "policy \<Rightarrow> satisfaction \<Rightarrow> bool" where
  answers_key: "check_sizes s k g = Ok () \<Longrightarrow> answers (PKey s h) (SKey k g)"
| answers_preimage: "length x = 32 \<Longrightarrow> sha256 x = h \<Longrightarrow> answers (PPreimage h) (SPreimage x)"
| answers_older: "answers (POlder n) SOlder"
| answers_after: "answers (PAfter h) SAfter"
| answers_all: "list_all2 answers cs ss \<Longrightarrow> answers (PAll cs) (SAll ss)"
| answers_any: "unat i < length cs \<Longrightarrow> answers (cs ! unat i) s \<Longrightarrow> answers (PAny cs) (SAny i s)"
monos list.rel_mono_strong

inductive_cases answers_allE: "answers (PAll cs) s"

definition walk_reads :: "policy \<Rightarrow> satisfaction \<Rightarrow> bool" where
  "walk_reads p s \<longleftrightarrow> (\<forall>rest leaf path. \<exists>path'. walk p (sat_encode s @ rest, leaf, path) = Ok (rest, leaf + leaf_count p, path') \<and>
     pp_choices path' = pp_choices path @ sat_choices s)"

lemma walk_seq_reads:
  "list_all2 walk_reads cs ss \<Longrightarrow>
   \<exists>path'. walk_seq (map walk cs) (concat (map sat_encode ss) @ rest, leaf, path) =
       Ok (rest, leaf + sum_list (map leaf_count cs), path') \<and>
     pp_choices path' = pp_choices path @ concat (map sat_choices ss)"
proof (induction cs ss arbitrary: leaf path rule: list_all2_induct)
  case (Cons c cs s ss)
  obtain p1 where 1: "walk c (sat_encode s @ concat (map sat_encode ss) @ rest, leaf, path) =
      Ok (concat (map sat_encode ss) @ rest, leaf + leaf_count c, p1)" "pp_choices p1 = pp_choices path @ sat_choices s"
    using Cons.hyps(1) unfolding walk_reads_def by meson
  obtain p2 where "walk_seq (map walk cs) (concat (map sat_encode ss) @ rest, leaf + leaf_count c, p1) =
      Ok (rest, leaf + leaf_count c + sum_list (map leaf_count cs), p2)"
      "pp_choices p2 = pp_choices p1 @ concat (map sat_choices ss)"
    using Cons.IH by meson
  then show ?case using 1 by (simp add: add.assoc)
qed simp

lemma walk_branch_reads:
  "index < i + length cs \<Longrightarrow> i \<le> index \<Longrightarrow> walk_reads (cs ! (index - i)) s \<Longrightarrow>
   \<exists>path'. walk_branch index i (zip (map walk cs) (map leaf_count cs)) (sat_encode s @ rest, leaf, path) =
       Ok (rest, leaf + sum_list (map leaf_count cs), path') \<and> pp_choices path' = pp_choices path @ sat_choices s"
proof (induction cs arbitrary: i leaf)
  case (Cons c cs)
  show ?case
  proof (cases "i = index")
    case True
    then obtain p1 where "walk c (sat_encode s @ rest, leaf, path) = Ok (rest, leaf + leaf_count c, p1)"
        "pp_choices p1 = pp_choices path @ sat_choices s"
      using Cons.prems(3) unfolding walk_reads_def by auto meson
    then show ?thesis using True by (simp add: walk_branch_skip add.assoc)
  next
    case False
    then have "cs ! (index - Suc i) = (c # cs) ! (index - i)" using Cons.prems(2) by (simp add: nth_Cons')
    then show ?thesis using Cons.IH [of "Suc i" "leaf + leaf_count c"] Cons.prems False by (simp add: add.assoc)
  qed
qed simp

lemma answers_reads: "answers p s \<Longrightarrow> walk_reads p s"
proof (induction rule: answers.induct)
  case (answers_key s k g h)
  then have "length k < 2 ^ 64" "length g < 2 ^ 64"
    using pubkey_sig_len_small [of s] by (auto simp: check_sizes_def split: if_splits)
  then show ?case using answers_key by (simp add: walk_reads_def var_bytes.dec_enc)
next
  case (answers_preimage x h)
  then have "r_array32 (x @ rest) = Ok (x, rest)" for rest by simp
  then show ?case using answers_preimage by (simp add: walk_reads_def del: r_array32_Ok_iff)
next
  case (answers_all cs ss)
  then have "list_all2 walk_reads cs ss" by (auto elim: list_all2_mono)
  then show ?case using walk_seq_reads by (simp add: walk_reads_def)
next
  case (answers_any i cs s)
  show ?case
    unfolding walk_reads_def
  proof (intro allI)
    fix rest leaf path
    show "\<exists>path'. walk (PAny cs) (sat_encode (SAny i s) @ rest, leaf, path) = Ok (rest, leaf + leaf_count (PAny cs), path') \<and>
      pp_choices path' = pp_choices path @ sat_choices (SAny i s)"
      using walk_branch_reads [of "unat i" 0 cs s rest leaf "path\<lparr>pp_choices := pp_choices path @ [i]\<rparr>"] answers_any
      by (auto simp: w_u8_def)
  qed
qed (simp_all add: walk_reads_def)

inductive_cases answers_keyE: "answers (PKey s h) a"
inductive_cases answers_preimageE: "answers (PPreimage h) a"
inductive_cases answers_olderE: "answers (POlder n) a"
inductive_cases answers_afterE: "answers (PAfter h) a"
inductive_cases answers_anyE: "answers (PAny cs) a"

text \<open>A satisfaction has one form: two answers to a policy that start the same bytes are equal.\<close>

definition answer_unique :: "policy \<Rightarrow> satisfaction \<Rightarrow> bool" where
  "answer_unique p s \<longleftrightarrow> (\<forall>s' r r'. answers p s' \<longrightarrow> sat_encode s @ r = sat_encode s' @ r' \<longrightarrow> s = s' \<and> r = r')"

lemma answers_all_unique:
  "list_all2 answer_unique cs ss \<Longrightarrow> list_all2 answers cs ss' \<Longrightarrow>
   concat (map sat_encode ss) @ r = concat (map sat_encode ss') @ r' \<Longrightarrow> ss = ss' \<and> r = r'"
proof (induction cs ss arbitrary: ss' rule: list_all2_induct)
  case (Cons c cs s ss)
  then obtain s' ss'' where s': "ss' = s' # ss''" "answers c s'" "list_all2 answers cs ss''" by (auto simp: list_all2_Cons1)
  have "s = s' \<and> concat (map sat_encode ss) @ r = concat (map sat_encode ss'') @ r'"
    using Cons.hyps(1) s'(2) Cons.prems(2) unfolding answer_unique_def s'(1) by (simp only: list.map concat.simps append_assoc)
  then show ?case using Cons.IH [OF s'(3)] s'(1) by simp
qed simp

lemma answers_unique: "answers p s \<Longrightarrow> answer_unique p s"
proof (induction rule: answers.induct)
  case (answers_key sc k g h)
  show ?case
    unfolding answer_unique_def
  proof (intro allI impI)
    fix s' r r'
    assume a: "answers (PKey sc h) s'" "sat_encode (SKey k g) @ r = sat_encode s' @ r'"
    then obtain k' g' where s': "s' = SKey k' g'" "check_sizes sc k' g' = Ok ()" by (auto elim: answers_keyE)
    have l: "length k < 2 ^ 64" "length g < 2 ^ 64" "length k' < 2 ^ 64" "length g' < 2 ^ 64"
      using answers_key s'(2) pubkey_sig_len_small [of sc] by (auto simp: check_sizes_Ok)
    have "w_var_bytes k @ w_var_bytes g @ r = w_var_bytes k' @ w_var_bytes g' @ r'" using a(2) s'(1) by simp
    then show "SKey k g = s' \<and> r = r'"
      using var_bytes.prefix_free [OF l(1,3)] var_bytes.prefix_free [OF l(2,4)] s'(1) by blast
  qed
next
  case (answers_all cs ss)
  then have "list_all2 answer_unique cs ss" by (auto elim: list_all2_mono)
  from answers_all_unique [OF this] show ?case
    unfolding answer_unique_def [of "PAll cs"] by (fastforce elim: answers_allE)
next
  case (answers_any i cs s)
  show ?case
    unfolding answer_unique_def
  proof (intro allI impI)
    fix s' r r'
    assume a: "answers (PAny cs) s'" "sat_encode (SAny i s) @ r = sat_encode s' @ r'"
    then obtain j t where t: "s' = SAny j t" "answers (cs ! unat j) t" by (auto elim: answers_anyE)
    then have "j = i" "sat_encode s @ r = sat_encode t @ r'" using a(2) by (simp_all add: w_u8_def)
    then show "SAny i s = s' \<and> r = r'" using answers_any.IH t unfolding answer_unique_def by blast
  qed
next
  case (answers_preimage x h)
  show ?case
    unfolding answer_unique_def
  proof (intro allI impI)
    fix s' r r'
    assume a: "answers (PPreimage h) s'" "sat_encode (SPreimage x) @ r = sat_encode s' @ r'"
    from a(1) obtain y where "s' = SPreimage y" "length y = 32" by (rule answers_preimageE) blast
    then show "SPreimage x = s' \<and> r = r'" using a(2) answers_preimage(1) by simp
  qed
next
  case (answers_older n)
  then show ?case by (auto simp: answer_unique_def elim!: answers_olderE)
next
  case (answers_after h)
  then show ?case by (auto simp: answer_unique_def elim!: answers_afterE)
qed

lemma satisfies_answers:
  "satisfies key born height leaf p s \<Longrightarrow> answers p s"
  "satisfies_all key born height leaf cs ss \<Longrightarrow> list_all2 answers cs ss"
  by (induction rule: satisfies_satisfies_all.inducts) (auto intro: answers.intros simp: check_sizes_Ok)

text \<open>
  The locks of a spend, on the tree: the satisfaction shown for the committed policy passes every lock on its
  path for an output born at \<open>born\<close> and spent at \<open>height\<close>, and every preimage, whatever the keys.
\<close>

definition locks_hold :: "nat \<Rightarrow> txout \<Rightarrow> tx_witness \<Rightarrow> nat \<Rightarrow> bool" where
  "locks_hold born spent wit height \<longleftrightarrow> (out_scheme spent = SchemeId.Policy \<longrightarrow>
     (\<forall>p s. policy_ok p \<longrightarrow> lock_hash p = out_pubkey_hash spent \<longrightarrow> answers p s \<longrightarrow> wit = policy_witness p s \<longrightarrow>
        satisfies (\<lambda>_ _ _ _ _. True) born height 0 p s))"

lemma read_spend_locks:
  assumes "read_spend spent wit = Ok (p, path)"
  obtains s where "answers p s" "wit = policy_witness p s"
    "\<And>born height. satisfies (\<lambda>_ _ _ _ _. True) born height 0 p s \<longleftrightarrow> locks_open born height (pp_min_age path) (pp_min_height path)"
proof -
  obtain leaf where ok: "policy_ok p" "wit_pubkey wit = policy_encode p" "walk p (wit_signature wit, 0, path_new True) = Ok ([], leaf, path)"
    using assms by (auto simp: read_spend_iff)
  obtain s ks a h where s: "wit_signature wit = sat_encode s @ []" "path = path_add (path_new True) ks a h (sat_choices s)"
    "\<And>key born height. list_all (key_good key) ks \<Longrightarrow> locks_open born height a h \<Longrightarrow> satisfies key born height 0 p s"
    by (rule walk_soundD [OF walk_sound ok(3)]) (use ok(1) in \<open>simp_all add: policy_ok_def path_new_def\<close>)
  have pa: "pp_min_age path = a" "pp_min_height path = h" by (simp_all add: s(2) path_add_def path_new_def)
  have iff: "satisfies (\<lambda>_ _ _ _ _. True) born height 0 p s \<longleftrightarrow> locks_open born height (pp_min_age path) (pp_min_height path)" for born height
  proof
    assume "satisfies (\<lambda>_ _ _ _ _. True) born height 0 p s"
    from satisfies_walk(1) [OF this] obtain ks' a' h' where "locks_open born height a' h'"
      "walk p (sat_encode s @ [], 0, path_new True) = Ok ([], 0 + leaf_count p, path_add (path_new True) ks' a' h' (sat_choices s))" by blast
    then show "locks_open born height (pp_min_age path) (pp_min_height path)" using ok(3) s(1)
      by (auto simp: path_add_def path_new_def)
  next
    assume "locks_open born height (pp_min_age path) (pp_min_height path)"
    then show "satisfies (\<lambda>_ _ _ _ _. True) born height 0 p s" unfolding pa by (intro s(3)) (simp_all add: key_good_def list_all_iff)
  qed
  have "locks_open 0 (a + h) a h" by (simp add: locks_open_def min_def)
  then have "answers p s" using iff satisfies_answers(1) unfolding pa by blast
  moreover have "wit = policy_witness p s" using ok(2) s(1) by (simp add: policy_witness_def)
  ultimately show ?thesis using iff that by blast
qed

lemma policy_encode_inj: "policy_ok p \<Longrightarrow> policy_ok q \<Longrightarrow> policy_encode p = policy_encode q \<Longrightarrow> p = q"
  using policy_decode_iff [of "policy_encode p" p] policy_decode_iff [of "policy_encode p" q] by simp

lemma answers_read_spend:
  assumes "policy_ok p" "lock_hash p = out_pubkey_hash spent" "answers p s" "wit = policy_witness p s"
  shows "\<exists>path. read_spend spent wit = Ok (p, path) \<and> pp_choices path = sat_choices s"
proof -
  obtain path where "walk p (sat_encode s @ [], 0, path_new True) = Ok ([], 0 + leaf_count p, path)"
    "pp_choices path = pp_choices (path_new True) @ sat_choices s"
    using answers_reads [OF assms(3)] unfolding walk_reads_def by meson
  then show ?thesis using assms(1,2,4) by (auto simp: read_spend_iff policy_witness_def path_new_def)
qed

text \<open>The locks hold exactly when the walk, if it reads the witness, finds them open.\<close>

lemma locks_hold_iff:
  assumes "out_scheme spent = SchemeId.Policy"
  shows "locks_hold born spent wit height \<longleftrightarrow> (\<forall>p path. read_spend spent wit = Ok (p, path) \<longrightarrow>
    locks_open born height (pp_min_age path) (pp_min_height path))"
proof
  assume l: "locks_hold born spent wit height"
  show "\<forall>p path. read_spend spent wit = Ok (p, path) \<longrightarrow> locks_open born height (pp_min_age path) (pp_min_height path)"
  proof (intro allI impI)
    fix p path
    assume r: "read_spend spent wit = Ok (p, path)"
    from read_spend_locks [OF r] l r assms show "locks_open born height (pp_min_age path) (pp_min_height path)"
      unfolding locks_hold_def by (metis read_spend_iff)
  qed
next
  assume r: "\<forall>p path. read_spend spent wit = Ok (p, path) \<longrightarrow> locks_open born height (pp_min_age path) (pp_min_height path)"
  show "locks_hold born spent wit height"
    unfolding locks_hold_def
  proof (intro impI allI)
    fix p s
    assume a: "policy_ok p" "lock_hash p = out_pubkey_hash spent" "answers p s" "wit = policy_witness p s"
    then obtain path where path: "read_spend spent wit = Ok (p, path)" using answers_read_spend by blast
    obtain s' where s': "answers p s'" "wit = policy_witness p s'"
      "satisfies (\<lambda>_ _ _ _ _. True) born height 0 p s' \<longleftrightarrow> locks_open born height (pp_min_age path) (pp_min_height path)"
      by (rule read_spend_locks [OF path]) blast
    have "sat_encode s @ [] = sat_encode s' @ []" using a(4) s'(2) by (simp add: policy_witness_def)
    then have "s = s'" using answers_unique [OF a(3)] s'(1) unfolding answer_unique_def by blast
    then show "satisfies (\<lambda>_ _ _ _ _. True) born height 0 p s" using s'(3) r path by blast
  qed
qed

text \<open>C18. A witness built by \<open>witness\<close> for a policy within the bounds and a satisfaction that answers it
  is read back: the spend of an output locked to the policy decodes to that policy, consumes the whole
  satisfaction, and the choices it collects, which every key signs, are those of the satisfaction.\<close>

theorem policy_witness_reads:
  assumes "policy_ok p" "answers p s"
  shows "\<exists>path. read_spend (policy_output p v) (policy_witness p s) = Ok (p, path) \<and> pp_choices path = sat_choices s"
  using answers_read_spend [OF assms(1) _ assms(2)] by (simp add: policy_output_def)

definition example_policy :: policy where
  "example_policy = PAny [PKey MlDsa65 HASH_ZERO, PAll [PKey MlDsa87 HASH_ZERO, POlder 144]]"

definition example_answer :: satisfaction where
  "example_answer = SAny 1 (SAll [SKey (replicate (pubkey_len MlDsa87) 7) (replicate (sig_len MlDsa87) 9), SOlder])"

lemma example_policy_ok: "policy_ok example_policy" and example_answers: "answers example_policy example_answer"
proof -
  show "policy_ok example_policy"
    by (simp add: policy_ok_def example_policy_def SCHEME_ALL_def is_one_time_def HASH_ZERO_def
        MAX_POLICY_LEAVES_def MAX_POLICY_DEPTH_def)
  show "answers example_policy example_answer"
    unfolding example_policy_def example_answer_def
    by (auto intro!: answers.intros simp: check_sizes_def)
qed

theorem policy_witness_reads_witness:
  "\<exists>path. read_spend (policy_output example_policy AMOUNT_ZERO) (policy_witness example_policy example_answer) =
     Ok (example_policy, path) \<and> pp_choices path = [1]"
  using policy_witness_reads [OF example_policy_ok example_answers, of AMOUNT_ZERO] by (simp add: example_answer_def)

end
