(* ===== verification/Emission.thy ===== *)
theory Emission
  imports Consensus
begin

text \<open>
  The emission schedule of \<open>src/src/emission.rs\<close>. Heights, rewards and totals are \<open>u64\<close> values read
  as natural numbers; the \<open>as u64\<close> casts are \<open>mod 2 ^ 64\<close> and the saturating operations are those
  of the prelude.

  The reference schedule is \<open>scheduled_reward\<close>: what each block would pay with no cap. The memoized
  table and the per-epoch shortcuts of \<open>cumulative_emission\<close> are proved equal to the clipped sum of
  that schedule.
\<close>

section \<open>The code\<close>

text \<open>One step of the decay: \<open>((reward as u128 * DECAY_NUM) / DECAY_DEN) as u64\<close>.\<close>

definition next_base :: "nat \<Rightarrow> nat" where
  "next_base base = (base * DECAY_NUM div DECAY_DEN) mod 2 ^ 64"

fun epoch_base_reward_loop :: "nat \<Rightarrow> nat \<Rightarrow> nat" where
  "epoch_base_reward_loop 0 reward = reward"
| "epoch_base_reward_loop (Suc n) reward =
     (let reward' = (reward * DECAY_NUM div DECAY_DEN) mod 2 ^ 64
      in if reward' = 0 then 0 else epoch_base_reward_loop n reward')"

definition epoch_base_reward :: "nat \<Rightarrow> nat" where
  "epoch_base_reward epoch = epoch_base_reward_loop epoch INITIAL_REWARD"

definition apply_slow_start :: "nat \<Rightarrow> nat \<Rightarrow> nat" where
  "apply_slow_start base height =
     (if height \<ge> SLOW_START_BLOCKS then base
      else (base * height div SLOW_START_BLOCKS) mod 2 ^ 64)"

fun add_slow_blocks :: "nat \<Rightarrow> nat \<Rightarrow> nat list \<Rightarrow> nat" where
  "add_slow_blocks t paid [] = t"
| "add_slow_blocks t paid (h # hs) = add_slow_blocks (sat_add64 t (apply_slow_start paid h)) paid hs"

definition add_epoch :: "nat \<Rightarrow> nat \<Rightarrow> nat \<Rightarrow> nat \<Rightarrow> nat" where
  "add_epoch tot base start fin =
     (let paid = max base TAIL_REWARD
      in if start < SLOW_START_BLOCKS then add_slow_blocks tot paid [start..<Suc fin]
         else sat_add64 tot (sat_mul64 paid (fin - start + 1)))"

text \<open>
  The loop that builds the table. It is a function of its three variables; the lemma
  \<open>add_epoch_gt\<close> gives its termination: every epoch issues something until the cap is reached.
  The guard on \<open>base\<close> is the width of the variable: it never fires on a \<open>u64\<close>.
\<close>

lemma add_slow_blocks_ge: "t \<le> u64_max \<Longrightarrow> t \<le> add_slow_blocks t paid hs \<and> add_slow_blocks t paid hs \<le> u64_max"
proof (induction hs arbitrary: t)
  case (Cons h hs)
  have "t \<le> sat_add64 t (apply_slow_start paid h)" "sat_add64 t (apply_slow_start paid h) \<le> u64_max"
    using Cons.prems by (auto simp: sat_add64_def)
  with Cons.IH show ?case by (metis add_slow_blocks.simps(2) order_trans)
qed simp

lemma add_slow_blocks_append:
  "add_slow_blocks t paid (hs @ hs') = add_slow_blocks (add_slow_blocks t paid hs) paid hs'"
  by (induction hs arbitrary: t) auto

lemma apply_slow_start_pos:
  assumes "TAIL_REWARD \<le> paid" "paid < 2 ^ 64" "DECAY_EPOCH_BLOCKS \<le> Suc h"
  shows "0 < apply_slow_start paid h"
proof (cases "h \<ge> SLOW_START_BLOCKS")
  case True
  with assms show ?thesis by (simp add: apply_slow_start_def TAIL_REWARD_def)
next
  case False
  then have h: "h < 20000" "4319 \<le> h"
    using assms by (auto simp: SLOW_START_BLOCKS_def DECAY_EPOCH_BLOCKS_def)
  have "1000000 * 4319 \<le> paid * h"
    using assms(1) h(2) by (intro mult_le_mono) (auto simp: TAIL_REWARD_def)
  then have "0 < paid * h div 20000" by simp
  moreover have "paid * h div 20000 < 2 ^ 64"
  proof -
    have "paid * h \<le> paid * 20000" using h(1) by simp
    then have "paid * h div 20000 \<le> paid * 20000 div 20000" by (rule div_le_mono)
    then show ?thesis using assms(2) by simp
  qed
  ultimately show ?thesis using False by (simp add: apply_slow_start_def SLOW_START_BLOCKS_def)
qed

lemma add_epoch_gt:
  assumes "tot < EMISSION_CAP" and "base < 2 ^ 64"
  shows "tot < add_epoch tot base (e * DECAY_EPOCH_BLOCKS)
                   (e * DECAY_EPOCH_BLOCKS + DECAY_EPOCH_BLOCKS - 1)"
proof -
  let ?s = "e * DECAY_EPOCH_BLOCKS"
  let ?p = "max base TAIL_REWARD"
  have t0: "tot < u64_max" using assms(1) by (simp add: supply_defs u64_max_def)
  have p: "TAIL_REWARD \<le> ?p" "?p < 2 ^ 64" "0 < ?p" using assms(2) by (auto simp: TAIL_REWARD_def)
  have lst: "?s + DECAY_EPOCH_BLOCKS - 1 = ?s + 4319" by (simp add: DECAY_EPOCH_BLOCKS_def)
  show ?thesis
  proof (cases "?s < SLOW_START_BLOCKS")
    case True
    let ?t = "add_slow_blocks tot ?p [?s..<?s + 4319]"
    have t: "tot \<le> ?t" "?t \<le> u64_max"
      using add_slow_blocks_ge [of tot] t0 by auto
    have pos: "0 < apply_slow_start ?p (?s + 4319)"
      by (rule apply_slow_start_pos) (use p in \<open>auto simp: DECAY_EPOCH_BLOCKS_def\<close>)
    have up: "[?s..<Suc (?s + 4319)] = [?s..<?s + 4319] @ [?s + 4319]"
      by (rule upt_Suc_append) simp
    have "add_epoch tot base ?s (?s + 4319) = add_slow_blocks tot ?p [?s..<Suc (?s + 4319)]"
      using True by (simp only: add_epoch_def Let_def if_True)
    then have "add_epoch tot base ?s (?s + 4319) = sat_add64 ?t (apply_slow_start ?p (?s + 4319))"
      by (simp only: up add_slow_blocks_append add_slow_blocks.simps)
    moreover have "tot < sat_add64 ?t (apply_slow_start ?p (?s + 4319))"
      using t pos t0 by (auto simp: sat_add64_def)
    ultimately show ?thesis using lst by simp
  next
    case False
    then show ?thesis using t0 p(3)
      by (auto simp: add_epoch_def Let_def sat_add64_def sat_mul64_def lst u64_max_def)
  qed
qed

lemma next_base_lt: "next_base b < 2 ^ 64"
  by (simp add: next_base_def)

function epoch_table :: "nat \<Rightarrow> nat \<Rightarrow> nat \<Rightarrow> (nat \<times> nat) list" where
  "epoch_table epoch tot base =
     (tot, base) #
     (if tot \<ge> EMISSION_CAP \<or> base \<ge> 2 ^ 64 then []
      else let start = epoch * DECAY_EPOCH_BLOCKS
           in epoch_table (epoch + 1)
                (add_epoch tot base start (start + DECAY_EPOCH_BLOCKS - 1)) (next_base base))"
  by pat_completeness auto
termination
  by (relation "measure (\<lambda>(epoch, tot, base). EMISSION_CAP - tot)")
    (auto simp: not_le simp del: One_nat_def intro!: diff_less_mono2 add_epoch_gt)

declare epoch_table.simps [simp del]

definition epoch_starts :: "(nat \<times> nat) list" where
  "epoch_starts = epoch_table 0 0 INITIAL_REWARD"

definition cumulative_emission :: "nat \<Rightarrow> nat" where
  "cumulative_emission height =
     (let epoch = height div DECAY_EPOCH_BLOCKS
      in if epoch < length epoch_starts then
           (case epoch_starts ! epoch of (tot, base) \<Rightarrow>
              if tot \<ge> EMISSION_CAP then EMISSION_CAP
              else min (add_epoch tot base (epoch * DECAY_EPOCH_BLOCKS) height) EMISSION_CAP)
         else EMISSION_CAP)"

text \<open>
  The subtraction of the source would panic below zero; \<open>cumulative_emission_mono\<close> shows that it
  never does.
\<close>

definition block_subsidy :: "nat \<Rightarrow> nat" where
  "block_subsidy height =
     (if height = 0 then 0
      else cumulative_emission height - cumulative_emission (height - 1))"

definition total_supply_at :: "nat \<Rightarrow> nat" where
  "total_supply_at height = cumulative_emission height + GENESIS_PREMINT"

function emission_search :: "nat \<Rightarrow> nat \<Rightarrow> nat" where
  "emission_search low high =
     (if low < high then
        let m = low + (high - low) div 2
        in if cumulative_emission m \<ge> EMISSION_CAP then emission_search low m
           else emission_search (m + 1) high
      else low)"
  by pat_completeness auto
termination
  by (relation "measure (\<lambda>(low, high). high - low)") auto

declare emission_search.simps [simp del]

definition emission_safe_high :: nat where
  "emission_safe_high = EMISSION_CAP div TAIL_REWARD + SLOW_START_BLOCKS + DECAY_EPOCH_BLOCKS"

definition emission_end_height :: nat where
  "emission_end_height = emission_search 0 emission_safe_high + 1"

section \<open>The reference schedule\<close>

definition epoch_base :: "nat \<Rightarrow> nat" where
  "epoch_base e = (next_base ^^ e) INITIAL_REWARD"

definition scheduled_reward :: "nat \<Rightarrow> nat" where
  "scheduled_reward h =
     apply_slow_start (max (epoch_base (h div DECAY_EPOCH_BLOCKS)) TAIL_REWARD) h"

definition scheduled_total :: "nat \<Rightarrow> nat" where
  "scheduled_total h = (\<Sum>i < h. scheduled_reward i)"

lemma next_base_le: "b < 2 ^ 64 \<Longrightarrow> next_base b \<le> b"
proof -
  assume "b < 2 ^ 64"
  have "b * DECAY_NUM div DECAY_DEN \<le> b * DECAY_DEN div DECAY_DEN"
    by (intro div_le_mono mult_le_mono2) (simp add: DECAY_NUM_def DECAY_DEN_def)
  then show ?thesis
    by (simp add: next_base_def DECAY_DEN_def)
qed

lemma epoch_base_le: "epoch_base e \<le> INITIAL_REWARD"
proof (induction e)
  case (Suc e)
  then have "epoch_base e < 2 ^ 64" by (simp add: INITIAL_REWARD_def)
  then have "next_base (epoch_base e) \<le> epoch_base e" by (rule next_base_le)
  with Suc show ?case by (simp add: epoch_base_def)
qed (simp add: epoch_base_def)

lemma epoch_base_0 [simp]: "epoch_base 0 = INITIAL_REWARD"
  by (simp add: epoch_base_def)

lemma epoch_base_Suc [simp]: "epoch_base (Suc e) = next_base (epoch_base e)"
  by (simp add: epoch_base_def)

lemma epoch_base_reward_loop_eq: "epoch_base_reward_loop n r = (next_base ^^ n) r"
proof (induction n arbitrary: r)
  case (Suc n)
  have zero: "(next_base ^^ n) 0 = 0" by (induction n) (auto simp: next_base_def)
  have "epoch_base_reward_loop (Suc n) r = (next_base ^^ n) (next_base r)"
    using Suc.IH [of "next_base r"] zero
    by (simp only: epoch_base_reward_loop.simps Let_def next_base_def [symmetric]) simp
  then show ?case by (simp add: funpow_swap1)
qed simp

lemma apply_slow_start_le: "p < 2 ^ 64 \<Longrightarrow> apply_slow_start p h \<le> p"
proof -
  assume "p < 2 ^ 64"
  have "h < SLOW_START_BLOCKS \<Longrightarrow> p * h div SLOW_START_BLOCKS \<le> p * SLOW_START_BLOCKS div SLOW_START_BLOCKS"
    by (intro div_le_mono mult_le_mono2) simp
  then show ?thesis
    by (auto simp: apply_slow_start_def SLOW_START_BLOCKS_def intro: order_trans [OF mod_less_eq_dividend])
qed

lemma scheduled_reward_le: "scheduled_reward h \<le> INITIAL_REWARD"
proof -
  let ?p = "max (epoch_base (h div DECAY_EPOCH_BLOCKS)) TAIL_REWARD"
  have "?p \<le> INITIAL_REWARD"
    using epoch_base_le by (simp add: TAIL_REWARD_def INITIAL_REWARD_def)
  moreover have "scheduled_reward h \<le> ?p"
    unfolding scheduled_reward_def using \<open>?p \<le> INITIAL_REWARD\<close>
    by (intro apply_slow_start_le) (simp add: INITIAL_REWARD_def)
  ultimately show ?thesis by (rule order_trans [rotated])
qed

lemma scheduled_reward_tail:
  "h \<ge> SLOW_START_BLOCKS \<Longrightarrow> TAIL_REWARD \<le> scheduled_reward h"
  by (simp add: scheduled_reward_def apply_slow_start_def)

lemma scheduled_total_Suc: "scheduled_total (Suc h) = scheduled_total h + scheduled_reward h"
  by (simp add: scheduled_total_def)

lemma scheduled_total_mono: "m \<le> n \<Longrightarrow> scheduled_total m \<le> scheduled_total n"
  unfolding scheduled_total_def by (rule sum_mono2) auto

section \<open>The table is the schedule\<close>

lemma add_slow_blocks_sum:
  "t + sum_list (map (apply_slow_start p) hs) \<le> u64_max \<Longrightarrow>
   add_slow_blocks t p hs = t + sum_list (map (apply_slow_start p) hs)"
proof (induction hs arbitrary: t)
  case (Cons h hs)
  then have "sat_add64 t (apply_slow_start p h) = t + apply_slow_start p h"
    by (simp add: sat_add64_def)
  with Cons show ?case by (simp add: add.assoc)
qed simp

lemma sum_upto_split: "(m::nat) \<le> n \<Longrightarrow> (\<Sum>i<n. f i) = (\<Sum>i<m. f i) + (\<Sum>i=m..<n. (f i :: nat))"
  using sum.atLeastLessThan_concat [of 0 m n f] by (simp add: lessThan_atLeast0)

lemma epoch_slice:
  assumes "e * DECAY_EPOCH_BLOCKS \<le> h" and "h < Suc e * DECAY_EPOCH_BLOCKS"
  shows "scheduled_total (Suc h) =
    scheduled_total (e * DECAY_EPOCH_BLOCKS)
      + (\<Sum>i = e * DECAY_EPOCH_BLOCKS..<Suc h. apply_slow_start (max (epoch_base e) TAIL_REWARD) i)"
proof -
  have "scheduled_total (Suc h) = scheduled_total (e * DECAY_EPOCH_BLOCKS)
      + (\<Sum>i = e * DECAY_EPOCH_BLOCKS..<Suc h. scheduled_reward i)"
    unfolding scheduled_total_def using assms(1) by (intro sum_upto_split) simp
  moreover have "(\<Sum>i = e * DECAY_EPOCH_BLOCKS..<Suc h. scheduled_reward i) =
      (\<Sum>i = e * DECAY_EPOCH_BLOCKS..<Suc h. apply_slow_start (max (epoch_base e) TAIL_REWARD) i)"
  proof (rule sum.cong)
    fix i assume "i \<in> {e * DECAY_EPOCH_BLOCKS..<Suc h}"
    then have "i div DECAY_EPOCH_BLOCKS = e"
      using assms by (intro div_nat_eqI) (auto simp: DECAY_EPOCH_BLOCKS_def)
    then show "scheduled_reward i = apply_slow_start (max (epoch_base e) TAIL_REWARD) i"
      by (simp add: scheduled_reward_def)
  qed simp
  ultimately show ?thesis by simp
qed

lemma add_epoch_eq:
  assumes "scheduled_total (e * DECAY_EPOCH_BLOCKS) < EMISSION_CAP"
    and "e * DECAY_EPOCH_BLOCKS \<le> h" and "h < Suc e * DECAY_EPOCH_BLOCKS"
  shows "add_epoch (scheduled_total (e * DECAY_EPOCH_BLOCKS)) (epoch_base e)
           (e * DECAY_EPOCH_BLOCKS) h = scheduled_total (Suc h)"
proof -
  let ?s = "e * DECAY_EPOCH_BLOCKS" and ?p = "max (epoch_base e) TAIL_REWARD"
  let ?t = "scheduled_total ?s"
  let ?sum = "\<Sum>i = ?s..<Suc h. apply_slow_start ?p i"
  have p: "?p \<le> INITIAL_REWARD" "?p < 2 ^ 64"
    using epoch_base_le [of e] by (auto simp: TAIL_REWARD_def INITIAL_REWARD_def)
  have n: "Suc h - ?s \<le> 4320" using assms(2,3) by (simp add: DECAY_EPOCH_BLOCKS_def)
  have "?sum \<le> (\<Sum>i = ?s..<Suc h. ?p)"
    using apply_slow_start_le p(2) by (intro sum_mono) auto
  also have "\<dots> \<le> 4320 * INITIAL_REWARD" using n p(1) by (auto intro: mult_le_mono)
  finally have small: "?t + ?sum \<le> u64_max"
    using assms(1) by (simp add: u64_max_def emission_const_defs)
  show ?thesis
  proof (cases "?s < SLOW_START_BLOCKS")
    case True
    have "sum_list (map (apply_slow_start ?p) [?s..<Suc h]) = ?sum"
      by (simp only: sum_set_upt_conv_sum_list_nat [symmetric] set_upt)
    then show ?thesis
      using True small add_slow_blocks_sum [of ?t ?p "[?s..<Suc h]"] epoch_slice [OF assms(2,3)]
      by (simp only: add_epoch_def Let_def if_True)
  next
    case False
    have "?sum = (\<Sum>i = ?s..<Suc h. ?p)"
      using False by (intro sum.cong) (auto simp: apply_slow_start_def)
    then have "?sum = ?p * (h - ?s + 1)" using assms(2) by (simp add: mult.commute Suc_diff_le)
    then show ?thesis
      using False small epoch_slice [OF assms(2,3)]
      by (simp add: add_epoch_def Let_def sat_add64_def sat_mul64_def)
  qed
qed

lemma epoch_table_nth:
  assumes "i < length (epoch_table e (scheduled_total (e * DECAY_EPOCH_BLOCKS)) (epoch_base e))"
  shows "epoch_table e (scheduled_total (e * DECAY_EPOCH_BLOCKS)) (epoch_base e) ! i =
         (scheduled_total ((e + i) * DECAY_EPOCH_BLOCKS), epoch_base (e + i))"
  using assms
proof (induction i arbitrary: e)
  case 0
  then show ?case by (simp add: epoch_table.simps)
next
  case (Suc i)
  let ?s = "e * DECAY_EPOCH_BLOCKS"
  have low: "scheduled_total ?s < EMISSION_CAP"
    using Suc.prems by (subst (asm) epoch_table.simps) (simp split: if_splits)
  have b: "epoch_base e < 2 ^ 64" using epoch_base_le [of e] by (simp add: INITIAL_REWARD_def)
  have "add_epoch (scheduled_total ?s) (epoch_base e) ?s (?s + DECAY_EPOCH_BLOCKS - 1)
      = scheduled_total (Suc (?s + DECAY_EPOCH_BLOCKS - 1))"
    by (rule add_epoch_eq [OF low]) (auto simp: DECAY_EPOCH_BLOCKS_def)
  then have step: "add_epoch (scheduled_total ?s) (epoch_base e) ?s (?s + DECAY_EPOCH_BLOCKS - 1)
      = scheduled_total (Suc e * DECAY_EPOCH_BLOCKS)"
    by (simp add: DECAY_EPOCH_BLOCKS_def)
  have unf: "epoch_table e (scheduled_total ?s) (epoch_base e) = (scheduled_total ?s, epoch_base e) #
      epoch_table (Suc e) (scheduled_total (Suc e * DECAY_EPOCH_BLOCKS)) (epoch_base (Suc e))"
    using low b
    by (subst epoch_table.simps)
      (simp only: Let_def step not_le [symmetric] de_Morgan_disj simp_thms if_False epoch_base_Suc
        Suc_eq_plus1 [symmetric])
  show ?case
    using Suc.prems Suc.IH [of "Suc e"] unfolding unf by (simp del: mult_Suc)
qed

lemma epoch_starts_nth:
  "i < length epoch_starts \<Longrightarrow>
   epoch_starts ! i = (scheduled_total (i * DECAY_EPOCH_BLOCKS), epoch_base i)"
  using epoch_table_nth [of i 0] by (simp add: epoch_starts_def scheduled_total_def)

lemma epoch_table_last: "b < 2 ^ 64 \<Longrightarrow> EMISSION_CAP \<le> fst (last (epoch_table e t b))"
proof (induction e t b rule: epoch_table.induct)
  case (1 e t b)
  show ?case
  proof (cases "t \<ge> EMISSION_CAP")
    case True
    then show ?thesis by (simp add: epoch_table.simps [of e t b])
  next
    case False
    have ne: "epoch_table e' t' b' \<noteq> []" for e' t' b' by (subst epoch_table.simps) simp
    from False 1 next_base_lt [of b] show ?thesis
      by (subst epoch_table.simps) (simp add: Let_def ne del: One_nat_def)
  qed
qed

lemma epoch_starts_end: "EMISSION_CAP \<le> scheduled_total ((length epoch_starts - 1) * DECAY_EPOCH_BLOCKS)"
proof -
  have ne: "epoch_starts \<noteq> []" by (simp add: epoch_starts_def epoch_table.simps)
  have "EMISSION_CAP \<le> fst (last epoch_starts)"
    unfolding epoch_starts_def by (rule epoch_table_last) (simp add: INITIAL_REWARD_def)
  then show ?thesis
    using ne epoch_starts_nth [of "length epoch_starts - 1"] by (simp add: last_conv_nth)
qed

lemma cumulative_emission_eq: "cumulative_emission h = min EMISSION_CAP (scheduled_total (Suc h))"
proof -
  let ?e = "h div DECAY_EPOCH_BLOCKS"
  have D: "0 < DECAY_EPOCH_BLOCKS" by (simp add: DECAY_EPOCH_BLOCKS_def)
  have lo: "?e * DECAY_EPOCH_BLOCKS \<le> h" by simp
  have hi: "h < Suc ?e * DECAY_EPOCH_BLOCKS" using D by (simp add: dividend_less_div_times)
  show ?thesis
  proof (cases "?e < length epoch_starts")
    case True
    note nth = epoch_starts_nth [OF True]
    show ?thesis
    proof (cases "scheduled_total (?e * DECAY_EPOCH_BLOCKS) \<ge> EMISSION_CAP")
      case full: True
      have "EMISSION_CAP \<le> scheduled_total (Suc h)"
        using full scheduled_total_mono [of "?e * DECAY_EPOCH_BLOCKS" "Suc h"] lo by simp
      then show ?thesis using True full nth by (simp add: cumulative_emission_def Let_def)
    next
      case False
      then show ?thesis
        using True nth add_epoch_eq [OF _ lo hi]
        by (simp add: cumulative_emission_def Let_def min.commute)
    qed
  next
    case False
    then have "length epoch_starts - 1 \<le> ?e" by simp
    then have "(length epoch_starts - 1) * DECAY_EPOCH_BLOCKS \<le> ?e * DECAY_EPOCH_BLOCKS"
      by (rule mult_le_mono1)
    then have "EMISSION_CAP \<le> scheduled_total (Suc h)"
      using epoch_starts_end lo scheduled_total_mono
      by (meson le_SucI order_trans)
    then show ?thesis using False by (simp add: cumulative_emission_def Let_def)
  qed
qed

section \<open>What the schedule promises\<close>

lemma cumulative_emission_mono: "m \<le> n \<Longrightarrow> cumulative_emission m \<le> cumulative_emission n"
  unfolding cumulative_emission_eq
  using scheduled_total_mono [of "Suc m" "Suc n"] by (simp add: min.coboundedI2)

lemma cumulative_emission_le: "cumulative_emission h \<le> EMISSION_CAP"
  by (simp add: cumulative_emission_eq)

lemma cumulative_emission_0: "cumulative_emission 0 = 0"
  by (simp add: cumulative_emission_eq scheduled_total_def scheduled_reward_def apply_slow_start_def
      SLOW_START_BLOCKS_def)

lemma block_subsidy_step: "cumulative_emission h + block_subsidy (Suc h) = cumulative_emission (Suc h)"
  using cumulative_emission_mono [of h "Suc h"] by (simp add: block_subsidy_def)

lemma sum_block_subsidy: "(\<Sum>i \<le> h. block_subsidy i) = cumulative_emission h"
  by (induction h)
    (simp_all add: block_subsidy_def cumulative_emission_0
      le_add_diff_inverse [OF cumulative_emission_mono])

lemma block_subsidy_le: "block_subsidy h \<le> INITIAL_REWARD"
proof (cases h)
  case 0
  then show ?thesis by (simp add: block_subsidy_def)
next
  case (Suc n)
  have "block_subsidy h \<le> scheduled_reward h"
    using Suc by (simp add: block_subsidy_def cumulative_emission_eq scheduled_total_Suc)
  then show ?thesis using scheduled_reward_le order_trans by blast
qed

lemma scheduled_total_tail:
  "h \<ge> SLOW_START_BLOCKS \<Longrightarrow> TAIL_REWARD * (h - SLOW_START_BLOCKS) \<le> scheduled_total h"
proof (induction h rule: dec_induct)
  case (step n)
  then have "TAIL_REWARD \<le> scheduled_reward n" by (intro scheduled_reward_tail)
  with step show ?case by (simp add: scheduled_total_Suc Suc_diff_le)
qed simp

lemma cap_reached: "cumulative_emission emission_safe_high = EMISSION_CAP"
proof -
  have "TAIL_REWARD * (Suc emission_safe_high - SLOW_START_BLOCKS)
      \<le> scheduled_total (Suc emission_safe_high)"
    by (rule scheduled_total_tail) (simp add: emission_safe_high_def)
  moreover have "EMISSION_CAP \<le> TAIL_REWARD * (Suc emission_safe_high - SLOW_START_BLOCKS)"
    by (simp add: emission_safe_high_def emission_const_defs)
  ultimately show ?thesis by (simp add: cumulative_emission_eq)
qed

lemma emission_search_correct:
  assumes "low \<le> high" "cumulative_emission high \<ge> EMISSION_CAP"
    and "\<And>m. m < low \<Longrightarrow> cumulative_emission m < EMISSION_CAP"
  shows "cumulative_emission (emission_search low high) \<ge> EMISSION_CAP \<and>
    (\<forall>m < emission_search low high. cumulative_emission m < EMISSION_CAP)"
  using assms
proof (induction low high rule: emission_search.induct)
  case (1 low high)
  show ?case
  proof (cases "low < high")
    case False
    then have "emission_search low high = low" by (simp add: emission_search.simps)
    with False "1.prems" show ?thesis by simp
  next
    case True
    let ?m = "low + (high - low) div 2"
    have m: "low \<le> ?m" "?m < high" using True by auto
    show ?thesis
    proof (cases "EMISSION_CAP \<le> cumulative_emission ?m")
      case up: True
      have "emission_search low high = emission_search low ?m"
        using True up by (subst emission_search.simps) (simp add: Let_def)
      then show ?thesis using "1.IH"(1) [OF True refl up] m up "1.prems"(3) by simp
    next
      case False
      have eq: "emission_search low high = emission_search (?m + 1) high"
        using True False by (subst emission_search.simps) (simp add: Let_def)
      have "cumulative_emission k < EMISSION_CAP" if "k < ?m + 1" for k
        using False cumulative_emission_mono [of k ?m] that by simp
      then show ?thesis using "1.IH"(2) [OF True refl False] m "1.prems"(2) eq by simp
    qed
  qed
qed

lemma emission_search_end:
  "cumulative_emission (emission_search 0 emission_safe_high) = EMISSION_CAP"
  "m < emission_search 0 emission_safe_high \<Longrightarrow> cumulative_emission m < EMISSION_CAP"
  using emission_search_correct [of 0 emission_safe_high] cap_reached
    cumulative_emission_le [of "emission_search 0 emission_safe_high"] by auto

lemma emission_search_pos: "0 < emission_search 0 emission_safe_high"
  using emission_search_end(1) cumulative_emission_0
  by (cases "emission_search 0 emission_safe_high") (auto simp: supply_defs)

text \<open>C5. The memoized table with its per-epoch shortcuts (block by block in the slow start, one
  multiplication afterwards, saturating additions, clipping) computes the reference schedule: the
  issue of blocks \<open>0..=h\<close> is the clipped sum of the per-block rewards, at every height.\<close>

theorem cumulative_emission_is_schedule:
  "cumulative_emission h =
     min EMISSION_CAP
       (\<Sum>i \<le> h. apply_slow_start (max (epoch_base_reward (i div DECAY_EPOCH_BLOCKS)) TAIL_REWARD) i)"
  by (simp add: cumulative_emission_eq scheduled_total_def scheduled_reward_def lessThan_Suc_atMost
      epoch_base_reward_def epoch_base_reward_loop_eq epoch_base_def)

text \<open>C4. The block rewards add up to the cumulative emission exactly, no reward exceeds the initial
  one, and the supply with the genesis coin never exceeds 21,000,001 coins.\<close>

theorem supply_is_capped:
  "(\<Sum>i \<le> h. block_subsidy i) = cumulative_emission h \<and> block_subsidy h \<le> INITIAL_REWARD \<and>
   total_supply_at h = GENESIS_PREMINT + (\<Sum>i \<le> h. block_subsidy i) \<and> total_supply_at h \<le> MAX_SUPPLY"
  using cumulative_emission_le [of h]
  by (simp add: sum_block_subsidy block_subsidy_le total_supply_at_def supply_defs)

text \<open>The binary search returns the first height with a zero reward once emission has started:
  the block before it still pays, every block from it on pays nothing, and the cap is then reached
  exactly.\<close>

theorem emission_ends:
  "0 < block_subsidy (emission_end_height - 1) \<and> block_subsidy (emission_end_height + k) = 0 \<and>
   total_supply_at (emission_end_height + k) = MAX_SUPPLY"
proof -
  let ?l = "emission_search 0 emission_safe_high"
  have cap: "cumulative_emission (?l + j) = EMISSION_CAP" for j
    using emission_search_end(1) cumulative_emission_mono [of ?l "?l + j"]
      cumulative_emission_le [of "?l + j"] by simp
  have "cumulative_emission (?l - 1) < cumulative_emission ?l"
    using emission_search_end emission_search_pos by simp
  then have "0 < block_subsidy ?l"
    using emission_search_pos by (simp add: block_subsidy_def)
  moreover have "block_subsidy (?l + 1 + k) = 0"
    using cap [of "1 + k"] cap [of k] by (simp add: block_subsidy_def)
  moreover have "total_supply_at (?l + 1 + k) = MAX_SUPPLY"
    using cap [of "1 + k"] by (simp add: total_supply_at_def supply_defs)
  ultimately show ?thesis by (simp add: emission_end_height_def)
qed

end
