(* ===== verification/Validate.thy ===== *)
theory Validate
  imports Policy Emission
begin

text \<open>
  Validation (\<open>src/src/validate.rs\<close>): the rules of a transaction against a view of the unspent outputs,
  the view that a block builds as it goes, uncles, timestamps, anchors, and the rules of a block in
  the order of the source. The proof-of-work engine is the argument \<open>pow\<close>, a check of a
  header; the ML-DSA library is the argument \<open>mldsa\<close>. A \<open>HashSet\<close> is a list. An index, a slice and a
  subtraction of the source go through \<open>index_at\<close>, \<open>slice_from\<close> and \<open>sub64\<close>, which panic out of range.
\<close>

section \<open>Time, anchors\<close>

fun strict_time_activation :: "network \<Rightarrow> nat" where
  "strict_time_activation Mainnet = STRICT_TIME_ACTIVATION_MAINNET"
| "strict_time_activation Testnet = STRICT_TIME_ACTIVATION_TESTNET"
| "strict_time_activation Regtest = STRICT_TIME_ACTIVATION_REGTEST"

definition strict_time_at :: "network \<Rightarrow> nat \<Rightarrow> bool" where
  "strict_time_at net height \<longleftrightarrow> height \<ge> strict_time_activation net"

definition check_after_parent :: "network \<Rightarrow> nat \<Rightarrow> nat option \<Rightarrow> nat \<Rightarrow> (unit, ValidationError) result" where
  "check_after_parent net height parent_time time =
     (case parent_time of
        Some parent \<Rightarrow> if strict_time_at net height \<and> time \<le> parent then Err (TimestampNotAfterParent parent time) else Ok ()
      | None \<Rightarrow> Ok ())"

definition ANCHORS_TESTNET :: "(nat \<times> string) list" where
  "ANCHORS_TESTNET =
     [(1000, ''ff33881b6fb3a68cb5e1b8eef37eb995a492bcf94ca3a85b703cd964aed027ca''),
      (2000, ''627b819a12bc8351b9139b28cb4b0f9a59596e86f1bc9da4f2c460022325c7f4''),
      (2500, ''104b317dfbad96fbe0ba616b708c519faeade0dd13b3520fd69e3ba9f593ac26''),
      (3000, ''7a12e78633c437972381f307cb2e063d5cc119b90157afdb79f2a926636fa2c4''),
      (4000, ''fa7f43c5e9124bd4a0ab4ae8aa93d6547800f5de82e3efcd99f81ff2331c79b4''),
      (5000, ''e5f33ab0bc15f5d7b159cceda8b50526e46cf52983c4f08b868fa6e037fcd5db'')]"

text \<open>\<open>anchors\<close>; \<open>the\<close> is the \<open>expect\<close> of the source, and \<open>anchors_decode\<close> shows that it holds.\<close>

fun anchors :: "network \<Rightarrow> (nat \<times> hash256) list" where
  "anchors Testnet = map (\<lambda>(h, id). (h, the (from_hex id))) ANCHORS_TESTNET"
| "anchors _ = []"

definition last_anchor_height :: "network \<Rightarrow> nat" where
  "last_anchor_height net = (if anchors net = [] then 0 else fst (last (anchors net)))"

definition check_anchor :: "network \<Rightarrow> nat \<Rightarrow> hash256 \<Rightarrow> (unit, ValidationError) result" where
  "check_anchor net height bid =
     (case List.find (\<lambda>(h, _). h = height) (anchors net) of
        Some (_, expected) \<Rightarrow> if expected \<noteq> bid then Err (NotTheAnchor height) else Ok ()
      | None \<Rightarrow> Ok ())"

definition median_time :: "nat list \<Rightarrow> (nat, 'e) result" where
  "median_time ts =
     (if ts = [] then Ok 0
      else let v = sort (take MEDIAN_TIME_SPAN (rev ts)) in index_at v (length v div 2))"

section \<open>The context of a block, uncles\<close>

record block_context =
  ctx_network :: network
  ctx_height :: nat
  ctx_prev_id :: hash256
  ctx_recent_times :: "nat list"
  ctx_parent_time :: "nat option"
  ctx_expected_bits :: u32
  ctx_now :: nat
  ctx_ancestors :: "hash256 list"
  ctx_claimed_uncles :: "hash256 list"
  ctx_uncle_expected_bits :: "(hash256, u32) hmap"
  ctx_cumulative_issued :: nat

record UncleRewards =
  per_uncle :: nat
  miner_share :: nat

text \<open>\<open>uncle_rewards\<close>; the product with \<open>UNCLE_REWARD_PCT\<close> is below the subsidy.\<close>

definition uncle_rewards :: "nat \<Rightarrow> nat \<Rightarrow> UncleRewards" where
  "uncle_rewards height n_uncles =
     (let base = block_subsidy height;
          per = base div 100 * UNCLE_REWARD_PCT;
          paid_out = sat_mul64 per n_uncles
      in \<lparr>per_uncle = per, miner_share = sat_sub64 base paid_out\<rparr>)"

fun check_uncle_list ::
  "(block_header \<Rightarrow> (unit, PowError) result) \<Rightarrow> block_context \<Rightarrow> hash256 list \<Rightarrow> block_header list \<Rightarrow> (unit, ValidationError) result" where
  "check_uncle_list pow ctx seen [] = Ok ()"
| "check_uncle_list pow ctx seen (uncle # us) =
     (let bid = block_id uncle; height = unat (hdr_height uncle)
      in if bid \<in> set seen then Err (DuplicateUncle bid)
         else if bid \<in> set (ctx_claimed_uncles ctx) then Err (UncleAlreadyClaimed bid)
         else if bid \<in> set (ctx_ancestors ctx) then Err UncleIsAncestor
         else if height \<ge> ctx_height ctx then Err UncleInFuture
         else rbind (sub64 (ctx_height ctx) height) (\<lambda>age.
           if age > MAX_UNCLE_AGE then Err (UncleTooOld age MAX_UNCLE_AGE)
           else if hdr_prev_block uncle \<notin> set (ctx_ancestors ctx) then Err OrphanUncle
           else rbind (ok_or (hget (ctx_uncle_expected_bits ctx) (hdr_prev_block uncle)) OrphanUncle) (\<lambda>expected.
             if hdr_bits uncle \<noteq> expected then Err (BadUncleDifficulty expected (hdr_bits uncle))
             else rbind (map_err UncleProofOfWork (pow uncle)) (\<lambda>_. check_uncle_list pow ctx (bid # seen) us))))"

definition check_uncles ::
  "(block_header \<Rightarrow> (unit, PowError) result) \<Rightarrow> block \<Rightarrow> block_context \<Rightarrow> (unit, ValidationError) result" where
  "check_uncles pow b ctx =
     (if length (blk_uncles b) > MAX_UNCLES then Err (TooManyUncles MAX_UNCLES (length (blk_uncles b)))
      else check_uncle_list pow ctx [] (blk_uncles b))"

section \<open>A transaction\<close>

fun check_outputs :: "network \<Rightarrow> nat \<Rightarrow> txout list \<Rightarrow> (unit, ValidationError) result" where
  "check_outputs net height [] = Ok ()"
| "check_outputs net height (out # outs) =
     (if \<not> scheme_allowed (out_scheme out) net height then Err (SchemeForbiddenOnNetwork (out_scheme out))
      else if out_scheme out = NameKey then check_outputs net height outs
      else if units (out_value out) < MIN_OUTPUT_VALUE then Err (DustOutput MIN_OUTPUT_VALUE (units (out_value out)))
      else check_outputs net height outs)"

definition check_registration :: "transaction \<Rightarrow> utxo_view \<Rightarrow> (unit, ValidationError) result" where
  "check_registration t view =
     rbind (map_err NameErr (registration t)) (\<lambda>r.
       case r of
         None \<Rightarrow> Ok ()
       | Some reg \<Rightarrow>
           if \<not> list_ex (\<lambda>i. case view_lookup view (prev_out i) of
                  None \<Rightarrow> False
                | Some e \<Rightarrow> out_scheme (ue_output e) = MlDsa87 \<and> out_pubkey_hash (ue_output e) = reg_owner reg) (tx_inputs t)
           then Err (NameErr NoOwnerInput)
           else if view_name_by_skeleton view (skeleton (reg_name reg)) \<noteq> None then Err (NameErr Taken)
           else if view_names_owned view (reg_owner reg) \<ge> MAX_NAMES_PER_OWNER then Err (NameErr OwnerFull)
           else Ok ())"

fun precheck_inputs :: "network \<Rightarrow> nat \<Rightarrow> utxo_view \<Rightarrow> txin list \<Rightarrow> (unit, ValidationError) result" where
  "precheck_inputs net height view [] = Ok ()"
| "precheck_inputs net height view (i # is) =
     (case view_lookup view (prev_out i) of
        None \<Rightarrow> precheck_inputs net height view is
      | Some e \<Rightarrow>
          if out_scheme (ue_output e) = SchemeId.Policy \<and> scheme_allowed (out_scheme (ue_output e)) net height
          then rbind (precheck_spend net e height (in_witness i)) (\<lambda>_. precheck_inputs net height view is)
          else precheck_inputs net height view is)"

text \<open>The maturity rule; the sum of the heights panics on overflow, and is computed for a coinbase only.\<close>

definition check_maturity :: "nat \<Rightarrow> utxo_entry \<Rightarrow> (unit, ValidationError) result" where
  "check_maturity height e =
     (if ue_is_coinbase e
      then rbind (add64 (ue_height e) COINBASE_MATURITY) (\<lambda>at.
             if height < at then Err (CoinbaseImmature at height) else Ok ())
      else Ok ())"

text \<open>What unlocks an input: the policy, or the key and its signature.\<close>

definition check_unlock ::
  "mldsa_lib \<Rightarrow> transaction \<Rightarrow> nat \<Rightarrow> network \<Rightarrow> nat \<Rightarrow> utxo_entry \<Rightarrow> tx_witness \<Rightarrow> (unit, ValidationError) result" where
  "check_unlock mldsa t i net height e wit =
     (if out_scheme (ue_output e) = SchemeId.Policy
      then check_spend mldsa t (of_nat i) net e height wit
      else if pubkey_hash (out_scheme (ue_output e)) (wit_pubkey wit) \<noteq> out_pubkey_hash (ue_output e)
      then Err KeyDoesNotMatchLock
      else map_err SignatureError
        (verify mldsa (out_scheme (ue_output e)) (wit_pubkey wit) (sighash t (of_nat i) net (ue_output e)) (wit_signature wit)))"

text \<open>The loop over the inputs: the outpoints seen so far and the sum of the inputs.\<close>

fun check_inputs ::
  "mldsa_lib \<Rightarrow> transaction \<Rightarrow> utxo_view \<Rightarrow> network \<Rightarrow> nat \<Rightarrow> nat \<Rightarrow> outpoint list \<Rightarrow> nat \<Rightarrow> txin list
   \<Rightarrow> (outpoint list \<times> nat, ValidationError) result" where
  "check_inputs mldsa t view net height i seen total_inputs [] = Ok (seen, total_inputs)"
| "check_inputs mldsa t view net height i seen total_inputs (inp # is) =
     (if prev_out inp \<in> set seen then Err (DoubleSpend (prev_out inp))
      else rbind (ok_or (view_lookup view (prev_out inp)) (MissingInput (prev_out inp))) (\<lambda>e.
        if \<not> is_spendable (out_scheme (ue_output e)) then Err (NameErr (Unspendable (prev_out inp)))
        else rbind (check_maturity height e) (\<lambda>_.
          if \<not> scheme_allowed (out_scheme (ue_output e)) net height
          then Err (SchemeForbiddenOnNetwork (out_scheme (ue_output e)))
          else rbind (check_unlock mldsa t i net height e (in_witness inp)) (\<lambda>_.
            rbind (ok_or (checked_add64 total_inputs (units (out_value (ue_output e)))) FeeOverflow) (\<lambda>total.
              check_inputs mldsa t view net height (Suc i) (prev_out inp # seen) total is)))))"

definition check_transaction ::
  "mldsa_lib \<Rightarrow> transaction \<Rightarrow> utxo_view \<Rightarrow> network \<Rightarrow> nat \<Rightarrow> outpoint list
   \<Rightarrow> (amount \<times> outpoint list, ValidationError) result" where
  "check_transaction mldsa t view net height seen =
     rbind (map_err TransactionError (tx_check_shape t)) (\<lambda>_.
     rbind (check_outputs net height (tx_outputs t)) (\<lambda>_.
     rbind (check_registration t view) (\<lambda>_.
     rbind (precheck_inputs net height view (tx_inputs t)) (\<lambda>_.
     rbind (check_inputs mldsa t view net height 0 seen 0 (tx_inputs t)) (\<lambda>(seen, total_inputs).
     rbind (map_err TransactionError (total_output t)) (\<lambda>total_outputs.
       if units total_outputs > total_inputs then Err (ValueNotConserved total_inputs (units total_outputs))
       else rbind (sub64 total_inputs (units total_outputs)) (\<lambda>fee. Ok (from_units (of_nat fee), seen))))))))"

section \<open>The view of a block\<close>

record block_view =
  bv_confirmed :: utxo_set
  bv_created :: "(outpoint, utxo_entry) hmap"
  bv_spent :: "outpoint list"
  bv_named :: "(byte list, byte list) hmap"
  bv_owned :: "(hash256, nat) hmap"

definition block_view_new :: "utxo_set \<Rightarrow> block_view" where
  "block_view_new s = \<lparr>bv_confirmed = s, bv_created = [], bv_spent = [], bv_named = [], bv_owned = []\<rparr>"

fun bv_create :: "hash256 \<Rightarrow> nat \<Rightarrow> nat \<Rightarrow> (outpoint, utxo_entry) hmap \<Rightarrow> txout list \<Rightarrow> (outpoint, utxo_entry) hmap" where
  "bv_create tid height i m [] = m"
| "bv_create tid height i m (out # outs) =
     bv_create tid height (Suc i)
       (hput \<lparr>op_txid = tid, op_index = of_nat i\<rparr> \<lparr>ue_output = out, ue_height = height, ue_is_coinbase = False\<rparr> m) outs"

definition bv_count :: "block_view \<Rightarrow> hash256 \<Rightarrow> nat" where
  "bv_count v owner = (case hget (bv_owned v) owner of None \<Rightarrow> 0 | Some n \<Rightarrow> n)"

definition bv_apply :: "block_view \<Rightarrow> transaction \<Rightarrow> nat \<Rightarrow> block_view" where
  "bv_apply v t height =
     (let v = v\<lparr>bv_spent := map prev_out (tx_inputs t) @ bv_spent v\<rparr>;
          v = (case registration t of
                 Ok (Some reg) \<Rightarrow>
                   v\<lparr>bv_named := hput (skeleton (reg_name reg)) (reg_name reg) (bv_named v),
                     bv_owned := hput (reg_owner reg) (bv_count v (reg_owner reg) + 1) (bv_owned v)\<rparr>
               | _ \<Rightarrow> v)
      in v\<lparr>bv_created := bv_create (txid t) height 0 (bv_created v) (tx_outputs t)\<rparr>)"

definition bv_lookup :: "block_view \<Rightarrow> outpoint \<Rightarrow> utxo_entry option" where
  "bv_lookup v op =
     (if op \<in> set (bv_spent v) then None
      else case hget (bv_created v) op of Some e \<Rightarrow> Some e | None \<Rightarrow> utxo_get (bv_confirmed v) op)"

definition bv_view :: "block_view \<Rightarrow> utxo_view" where
  "bv_view v =
     \<lparr>view_lookup = bv_lookup v,
      view_name_by_skeleton = (\<lambda>sk. case hget (bv_named v) sk of
         Some n \<Rightarrow> Some n | None \<Rightarrow> view_name_by_skeleton (set_view (bv_confirmed v)) sk),
      view_names_owned = (\<lambda>owner. view_names_owned (set_view (bv_confirmed v)) owner + bv_count v owner)\<rparr>"

fun check_txs ::
  "mldsa_lib \<Rightarrow> network \<Rightarrow> nat \<Rightarrow> outpoint list \<Rightarrow> nat \<Rightarrow> block_view \<Rightarrow> transaction list \<Rightarrow> (nat, ValidationError) result" where
  "check_txs mldsa net height seen total_fees view [] = Ok total_fees"
| "check_txs mldsa net height seen total_fees view (t # ts) =
     rbind (check_transaction mldsa t (bv_view view) net height seen) (\<lambda>(f, seen).
     rbind (ok_or (checked_add64 total_fees (units f)) FeeOverflow) (\<lambda>total_fees.
       check_txs mldsa net height seen total_fees (bv_apply view t height) ts))"

fun first_invalid_from ::
  "mldsa_lib \<Rightarrow> network \<Rightarrow> nat \<Rightarrow> nat \<Rightarrow> outpoint list \<Rightarrow> block_view \<Rightarrow> transaction list
   \<Rightarrow> ((nat \<times> ValidationError) option, 'e) result" where
  "first_invalid_from mldsa net height i seen view [] = Ok None"
| "first_invalid_from mldsa net height i seen view (t # ts) =
     (case check_transaction mldsa t (bv_view view) net height seen of
        Err e \<Rightarrow> Ok (Some (i, e))
      | Ok (f, seen) \<Rightarrow> first_invalid_from mldsa net height (Suc i) seen (bv_apply view t height) ts
      | Panic \<Rightarrow> Panic)"

definition first_invalid_transaction ::
  "mldsa_lib \<Rightarrow> block \<Rightarrow> utxo_set \<Rightarrow> network \<Rightarrow> nat \<Rightarrow> ((nat \<times> ValidationError) option, 'e) result" where
  "first_invalid_transaction mldsa b s net height =
     first_invalid_from mldsa net height 1 [] (block_view_new s) (drop 1 (blk_transactions b))"

section \<open>A block\<close>

text \<open>The checks that need the header only, after the size.\<close>

definition check_header_rules ::
  "(block_header \<Rightarrow> (unit, PowError) result) \<Rightarrow> block_header \<Rightarrow> block_context \<Rightarrow> (unit, ValidationError) result" where
  "check_header_rules pow h ctx =
     (if unat (hdr_height h) \<noteq> ctx_height ctx then Err (BadHeight (ctx_height ctx) (unat (hdr_height h)))
      else if hdr_prev_block h \<noteq> ctx_prev_id ctx then Err BadParent
      else if hdr_bits h \<noteq> ctx_expected_bits ctx then Err (BadDifficulty (ctx_expected_bits ctx) (hdr_bits h))
      else rbind (median_time (ctx_recent_times ctx)) (\<lambda>median. let time = unat (hdr_time h)
           in if ctx_recent_times ctx \<noteq> [] \<and> time \<le> median then Err (TimestampTooOld median time)
              else rbind (check_after_parent (ctx_network ctx) (ctx_height ctx) (ctx_parent_time ctx) time) (\<lambda>_.
                   rbind (check_anchor (ctx_network ctx) (ctx_height ctx) (block_id h)) (\<lambda>_.
                   rbind (add64 (ctx_now ctx) MAX_FUTURE_TIME) (\<lambda>limit.
                     if time > limit then Err (TimestampInFuture limit time)
                     else map_err ProofOfWork (pow h))))))"

fun coinbase_dust :: "txout list \<Rightarrow> (unit, ValidationError) result" where
  "coinbase_dust [] = Ok ()"
| "coinbase_dust (out # outs) =
     (if units (out_value out) < MIN_OUTPUT_VALUE then Err (DustOutput MIN_OUTPUT_VALUE (units (out_value out)))
      else coinbase_dust outs)"

text \<open>The payment of each uncle, at \<open>coinbase.outputs[i + 1]\<close>.\<close>

fun uncles_paid :: "nat \<Rightarrow> txout list \<Rightarrow> nat \<Rightarrow> block_header list \<Rightarrow> (unit, ValidationError) result" where
  "uncles_paid per outputs i [] = Ok ()"
| "uncles_paid per outputs i (uncle # us) =
     rbind (index_at outputs (i + 1)) (\<lambda>out.
       if out_pubkey_hash out \<noteq> hdr_miner uncle \<or> units (out_value out) \<noteq> per then Err (UncleNotRewarded i)
       else uncles_paid per outputs (Suc i) us)"

fun coinbase_schemes :: "network \<Rightarrow> nat \<Rightarrow> txout list \<Rightarrow> (unit, ValidationError) result" where
  "coinbase_schemes net height [] = Ok ()"
| "coinbase_schemes net height (out # outs) =
     (if is_name (out_scheme out) then Err (NameErr InCoinbase)
      else if \<not> scheme_allowed (out_scheme out) net height then Err (SchemeForbiddenOnNetwork (out_scheme out))
      else coinbase_schemes net height outs)"

definition starts_with :: "byte list \<Rightarrow> byte list \<Rightarrow> bool" where
  "starts_with bs pre \<longleftrightarrow> take (length pre) bs = pre"

text \<open>The rules of the coinbase, given the fees of the block.\<close>

definition check_coinbase :: "block \<Rightarrow> block_context \<Rightarrow> nat \<Rightarrow> (unit, ValidationError) result" where
  "check_coinbase b ctx total_fees =
     rbind (index_at (blk_transactions b) 0) (\<lambda>coinbase.
     let rewards = uncle_rewards (ctx_height ctx) (length (blk_uncles b))
     in rbind (if ctx_height ctx > 0 then coinbase_dust (tx_outputs coinbase) else Ok ()) (\<lambda>_.
        rbind (index_at (tx_inputs coinbase) 0) (\<lambda>input.
        if \<not> starts_with (wit_signature (in_witness input)) (le_bytes 8 (ctx_height ctx)) then Err CoinbaseWithoutHeight
        else if length (tx_outputs coinbase) \<noteq> 1 + length (blk_uncles b) then Err (UncleNotRewarded 0)
        else rbind (index_at (tx_outputs coinbase) 0) (\<lambda>miner_output.
        if out_pubkey_hash miner_output \<noteq> hdr_miner (blk_header b) then Err CoinbaseDoesNotPayMiner
        else rbind (uncles_paid (per_uncle rewards) (tx_outputs coinbase) 0 (blk_uncles b)) (\<lambda>_.
             rbind (ok_or (checked_add64 (miner_share rewards) total_fees) FeeOverflow) (\<lambda>miner_allowed.
             let claimed = units (out_value miner_output)
             in if claimed > miner_allowed then Err (ExcessiveSubsidy miner_allowed claimed)
                else rbind (map_err (\<lambda>_. FeeOverflow) (total_output coinbase)) (\<lambda>total_coinbase.
                  let emission = sat_sub64 (units total_coinbase) total_fees
                  in rbind (ok_or (checked_add64 (ctx_cumulative_issued ctx) emission) FeeOverflow) (\<lambda>cumulative.
                       if cumulative > MAX_SUPPLY
                       then Err (CapExceeded (ctx_cumulative_issued ctx) emission MAX_SUPPLY)
                       else coinbase_schemes (ctx_network ctx) (ctx_height ctx) (tx_outputs coinbase)))))))))"

definition check_block ::
  "mldsa_lib \<Rightarrow> (block_header \<Rightarrow> (unit, PowError) result) \<Rightarrow> block \<Rightarrow> utxo_set \<Rightarrow> block_context
   \<Rightarrow> (amount, ValidationError) result" where
  "check_block mldsa pow b s ctx =
     (let size = length (block_encode b)
      in if size > MAX_BLOCK_SIZE then Err (BlockTooLarge MAX_BLOCK_SIZE size)
         else rbind (check_header_rules pow (blk_header b) ctx) (\<lambda>_.
              rbind (map_err Structure (block_check_shape b)) (\<lambda>_.
              rbind (slice_from (blk_transactions b) 1) (\<lambda>txs.
              rbind (check_txs mldsa (ctx_network ctx) (ctx_height ctx) [] 0 (block_view_new s) txs) (\<lambda>total_fees.
              rbind (check_uncles pow b ctx) (\<lambda>_.
              rbind (check_coinbase b ctx total_fees) (\<lambda>_.
                Ok (from_units (of_nat total_fees)))))))))"

section \<open>What an accepted transaction satisfies\<close>

lemma check_outputs_Ok: "check_outputs net height outs = Ok () \<longleftrightarrow>
    (\<forall>out \<in> set outs. scheme_allowed (out_scheme out) net height \<and>
       (out_scheme out = NameKey \<or> MIN_OUTPUT_VALUE \<le> units (out_value out)))"
  by (induction outs) auto

lemma check_maturity_Ok: "check_maturity height e = Ok () \<longleftrightarrow>
    (ue_is_coinbase e \<longrightarrow> ue_height e + COINBASE_MATURITY < 2 ^ 64 \<and> ue_height e + COINBASE_MATURITY \<le> height)"
  by (auto simp: check_maturity_def)

definition input_ok :: "mldsa_lib \<Rightarrow> transaction \<Rightarrow> utxo_view \<Rightarrow> network \<Rightarrow> nat \<Rightarrow> nat \<Rightarrow> txin \<Rightarrow> bool" where
  "input_ok mldsa t view net height i inp \<longleftrightarrow>
     (\<exists>e. view_lookup view (prev_out inp) = Some e \<and> is_spendable (out_scheme (ue_output e)) \<and>
        check_maturity height e = Ok () \<and> scheme_allowed (out_scheme (ue_output e)) net height \<and>
        check_unlock mldsa t i net height e (in_witness inp) = Ok ())"

definition view_value :: "utxo_view \<Rightarrow> outpoint \<Rightarrow> nat" where
  "view_value view op = (case view_lookup view op of None \<Rightarrow> 0 | Some e \<Rightarrow> entry_value e)"

definition ins_value :: "utxo_view \<Rightarrow> txin list \<Rightarrow> nat" where
  "ins_value view is = sum_list (map (\<lambda>inp. view_value view (prev_out inp)) is)"

lemma ins_value_Cons [simp]: "ins_value view (inp # is) = view_value view (prev_out inp) + ins_value view is"
  by (simp add: ins_value_def)

lemma ins_value_Nil [simp]: "ins_value view [] = 0"
  by (simp add: ins_value_def)

lemma check_inputs_Ok:
  "check_inputs mldsa t view net height i seen sm is = Ok (seen', sm') \<longleftrightarrow>
   distinct (map prev_out is) \<and> set (map prev_out is) \<inter> set seen = {} \<and>
   (\<forall>j < length is. input_ok mldsa t view net height (i + j) (is ! j)) \<and>
   seen' = rev (map prev_out is) @ seen \<and> sm' = sm + ins_value view is \<and> (is \<noteq> [] \<longrightarrow> sm' < 2 ^ 64)"
proof (induction "is" arbitrary: i seen sm)
  case (Cons inp "is")
  have all: "(\<forall>j < length (inp # is). input_ok mldsa t view net height (i + j) ((inp # is) ! j)) \<longleftrightarrow>
      input_ok mldsa t view net height i inp \<and> (\<forall>j < length is. input_ok mldsa t view net height (Suc i + j) (is ! j))"
    by (auto simp: less_Suc_eq_0_disj)
  show ?case
  proof (cases "prev_out inp \<in> set seen")
    case False
    have "check_inputs mldsa t view net height i seen sm (inp # is) = Ok (seen', sm') \<longleftrightarrow>
      input_ok mldsa t view net height i inp \<and> sm + view_value view (prev_out inp) < 2 ^ 64 \<and>
      check_inputs mldsa t view net height (Suc i) (prev_out inp # seen) (sm + view_value view (prev_out inp)) is = Ok (seen', sm')"
      using False by (auto simp: input_ok_def view_value_def entry_value_def)
    then show ?thesis using False unfolding Cons.IH all by auto
  qed auto
qed auto

text \<open>The cheap checks done first are implied by the full ones: they only change the order of refusals.\<close>

lemma precheck_inputs_implied:
  "(\<forall>j < length is. input_ok mldsa t view net height (i + j) (is ! j)) \<Longrightarrow> precheck_inputs net height view is = Ok ()"
proof (induction "is" arbitrary: i)
  case (Cons inp "is")
  have "input_ok mldsa t view net height i inp" using Cons.prems by (metis add.right_neutral length_greater_0_conv list.distinct(1) nth_Cons_0)
  then obtain e where e: "view_lookup view (prev_out inp) = Some e" "check_unlock mldsa t i net height e (in_witness inp) = Ok ()"
    by (auto simp: input_ok_def)
  have "precheck_spend net e height (in_witness inp) = Ok ()" if "out_scheme (ue_output e) = SchemeId.Policy"
    using e(2) that by (auto simp: check_unlock_def check_spend_def precheck_spend_def)
  moreover have "\<forall>j < length is. input_ok mldsa t view net height (Suc i + j) (is ! j)"
    using Cons.prems by (metis Suc_less_eq add_Suc_shift length_Cons nth_Cons_Suc)
  then have "precheck_inputs net height view is = Ok ()" by (rule Cons.IH)
  ultimately show ?case using e(1) by simp
qed simp

lemma check_transaction_iff:
  "check_transaction mldsa t view net height seen = Ok (f, seen') \<longleftrightarrow>
   tx_check_shape t = Ok () \<and> check_outputs net height (tx_outputs t) = Ok () \<and> check_registration t view = Ok () \<and>
   distinct (map prev_out (tx_inputs t)) \<and> set (map prev_out (tx_inputs t)) \<inter> set seen = {} \<and>
   (\<forall>j < length (tx_inputs t). input_ok mldsa t view net height j (tx_inputs t ! j)) \<and>
   seen' = rev (map prev_out (tx_inputs t)) @ seen \<and>
   ins_value view (tx_inputs t) < 2 ^ 64 \<and> ins_value view (tx_inputs t) = outs_value (tx_outputs t) + units f"
  (is "?lhs \<longleftrightarrow> ?rhs")
proof
  assume ?lhs
  then obtain sm outs where c: "tx_check_shape t = Ok ()" "check_outputs net height (tx_outputs t) = Ok ()"
    "check_registration t view = Ok ()"
    "check_inputs mldsa t view net height 0 seen 0 (tx_inputs t) = Ok (seen', sm)"
    "total_output t = Ok outs" "units outs \<le> sm" "f = from_units (of_nat (sm - units outs))"
    unfolding check_transaction_def by (auto split: prod.splits if_splits)
  have ne: "tx_inputs t \<noteq> []" using c(1) by (auto simp: tx_check_shape_def)
  note i = c(4) [unfolded check_inputs_Ok]
  have "units outs = outs_value (tx_outputs t)" using total_output_Ok [OF c(5)] by (simp add: outs_value_def)
  moreover have "units f = sm - units outs"
  proof -
    have "sm - units outs < 2 ^ 64" using i ne by (simp add: less_imp_diff_less)
    then show ?thesis unfolding c(7) from_units_def units_Amount by (rule unat_of_nat_lt)
  qed
  ultimately show ?rhs using c i ne by auto
next
  assume r: ?rhs
  have ne: "tx_inputs t \<noteq> []" using r by (auto simp: tx_check_shape_def)
  have i: "check_inputs mldsa t view net height 0 seen 0 (tx_inputs t) = Ok (seen', ins_value view (tx_inputs t))"
    unfolding check_inputs_Ok using r by simp
  have p: "precheck_inputs net height view (tx_inputs t) = Ok ()"
    by (rule precheck_inputs_implied [where i = 0 and mldsa = mldsa and t = t]) (use r in simp)
  obtain outs where outs: "total_output t = Ok outs" using r by (auto simp: tx_check_shape_def split: if_splits)
  have v: "units outs = outs_value (tx_outputs t)" using total_output_Ok [OF outs] by (simp add: outs_value_def)
  have "from_units (of_nat (ins_value view (tx_inputs t) - units outs)) = f"
    unfolding from_units_def by (subst Amount_of_nat_iff) (use r v in auto)
  then show ?lhs using r i p outs v by (simp add: check_transaction_def)
qed

section \<open>The view follows the set\<close>

fun created_entry :: "hash256 \<Rightarrow> nat \<Rightarrow> bool \<Rightarrow> nat \<Rightarrow> txout list \<Rightarrow> outpoint \<Rightarrow> utxo_entry option" where
  "created_entry tid h c i [] op = None"
| "created_entry tid h c i (out # outs) op =
     (case created_entry tid h c (Suc i) outs op of
        Some e \<Rightarrow> Some e
      | None \<Rightarrow> if op = \<lparr>op_txid = tid, op_index = of_nat i\<rparr>
                then Some \<lparr>ue_output = out, ue_height = h, ue_is_coinbase = c\<rparr> else None)"

lemma create_outputs_get: "utxo_get (fst (create_outputs tid h c i s u outs)) op =
    (case created_entry tid h c i outs op of Some e \<Rightarrow> Some e | None \<Rightarrow> utxo_get s op)"
  by (induction outs arbitrary: i s u) (auto simp: Let_def utxo_get_insert split: option.split)

lemma bv_create_get: "hget (bv_create tid h i m outs) op =
    (case created_entry tid h False i outs op of Some e \<Rightarrow> Some e | None \<Rightarrow> hget m op)"
  by (induction outs arbitrary: i m) (auto split: option.split)

lemma created_entry_txid: "created_entry tid h c i outs op = Some e \<Longrightarrow> op_txid op = tid"
  by (induction outs arbitrary: i) (auto split: option.splits if_splits)

lemma spend_inputs_get: "utxo_get (fst (spend_inputs s u is)) op = (if op \<in> set (map prev_out is) then None else utxo_get s op)"
proof (induction "is" arbitrary: s u)
  case (Cons i "is")
  obtain s1 r where r: "utxo_remove s (prev_out i) = (s1, r)" by (cases "utxo_remove s (prev_out i)")
  have "utxo_get s1 op = (if op = prev_out i then None else utxo_get s op)"
    using utxo_get_remove [of s "prev_out i" op] r by simp
  then show ?case using Cons r by (cases r) auto
qed simp

lemma apply_transaction_get: "utxo_get (fst (apply_transaction s t h u)) op =
    (case created_entry (txid t) h (tx_is_coinbase t) 0 (tx_outputs t) op of
       Some e \<Rightarrow> Some e
     | None \<Rightarrow> if \<not> tx_is_coinbase t \<and> op \<in> set (map prev_out (tx_inputs t)) then None else utxo_get s op)"
proof -
  obtain s1 u1 where a: "(if tx_is_coinbase t then (s, u) else spend_inputs s u (tx_inputs t)) = (s1, u1)"
    by (cases "if tx_is_coinbase t then (s, u) else spend_inputs s u (tx_inputs t)")
  have "utxo_get s1 op = (if \<not> tx_is_coinbase t \<and> op \<in> set (map prev_out (tx_inputs t)) then None else utxo_get s op)"
    using a spend_inputs_get [of s u "tx_inputs t" op] by (auto split: if_splits)
  then show ?thesis using a by (simp add: apply_transaction_def create_outputs_get split: option.split)
qed

text \<open>Everything the view shows is in the set, as it is there.\<close>

definition mirrors :: "block_view \<Rightarrow> utxo_set \<Rightarrow> bool" where
  "mirrors v s \<longleftrightarrow> (\<forall>op e. bv_lookup v op = Some e \<longrightarrow> utxo_get s op = Some e)"

lemma bv_apply_lookup: "bv_lookup (bv_apply v t h) op =
    (if op \<in> set (map prev_out (tx_inputs t)) \<or> op \<in> set (bv_spent v) then None
     else case created_entry (txid t) h False 0 (tx_outputs t) op of
       Some e \<Rightarrow> Some e | None \<Rightarrow> bv_lookup v op)"
  by (auto simp: bv_lookup_def bv_apply_def Let_def bv_create_get split: result.split option.split)

lemma mirrors_apply:
  assumes "mirrors v s" "\<not> tx_is_coinbase t"
  shows "mirrors (bv_apply v t h) (fst (apply_transaction s t h u))"
  unfolding mirrors_def
proof (intro allI impI)
  fix op e
  assume l: "bv_lookup (bv_apply v t h) op = Some e"
  then have "op \<notin> set (map prev_out (tx_inputs t))" by (auto simp: bv_apply_lookup split: if_splits)
  then show "utxo_get (fst (apply_transaction s t h u)) op = Some e"
    using l assms by (auto simp: bv_apply_lookup apply_transaction_get mirrors_def split: option.splits if_splits)
qed

lemma mirrors_coinbase:
  assumes "\<And>i. utxo_get s \<lparr>op_txid = txid t, op_index = i\<rparr> = None" "tx_is_coinbase t"
  shows "mirrors (block_view_new s) (fst (apply_transaction s t h u))"
  unfolding mirrors_def
proof (intro allI impI)
  fix op e
  assume l: "bv_lookup (block_view_new s) op = Some e"
  then have g: "utxo_get s op = Some e" by (simp add: bv_lookup_def block_view_new_def)
  have "op_txid op \<noteq> txid t"
  proof
    assume "op_txid op = txid t"
    then have "op = \<lparr>op_txid = txid t, op_index = op_index op\<rparr>" by simp
    then show False using assms(1) [of "op_index op"] g by simp
  qed
  then have "created_entry (txid t) h (tx_is_coinbase t) 0 (tx_outputs t) op = None"
    using created_entry_txid by (metis not_None_eq)
  then show "utxo_get (fst (apply_transaction s t h u)) op = Some e"
    using g assms(2) by (simp add: apply_transaction_get)
qed

lemma mirrors_inputs_value:
  "mirrors v s \<Longrightarrow> (\<forall>j < length is. input_ok mldsa t (bv_view v) net h j (is ! j)) \<Longrightarrow>
   inputs_value s is = ins_value (bv_view v) is"
proof -
  assume m: "mirrors v s" and ok: "\<forall>j < length is. input_ok mldsa t (bv_view v) net h j (is ! j)"
  have "(case utxo_get s (prev_out i) of None \<Rightarrow> 0 | Some e \<Rightarrow> entry_value e) = view_value (bv_view v) (prev_out i)"
    if i: "i \<in> set is" for i
  proof -
    obtain e where "bv_lookup v (prev_out i) = Some e"
      using ok i unfolding in_set_conv_nth input_ok_def bv_view_def by auto
    then show ?thesis using m by (simp add: mirrors_def view_value_def bv_view_def)
  qed
  then show ?thesis by (auto simp: inputs_value_def ins_value_def intro!: arg_cong [of _ _ sum_list] map_cong)
qed

text \<open>Each transaction leaves the set poorer by its fee.\<close>

lemma check_txs_value:
  "check_txs mldsa net h seen fees v ts = Ok fees' \<Longrightarrow> mirrors v s \<Longrightarrow> utxo_inv s \<Longrightarrow>
   (\<And>t. t \<in> set ts \<Longrightarrow> \<not> tx_is_coinbase t) \<Longrightarrow>
   utxo_sum (fst (apply_transactions s u h ts)) + fees' \<le> utxo_sum s + fees"
proof (induction ts arbitrary: seen fees v s u)
  case (Cons t ts)
  from Cons.prems(1) obtain f seen' where c: "check_transaction mldsa t (bv_view v) net h seen = Ok (f, seen')"
    "check_txs mldsa net h seen' (fees + units f) (bv_apply v t h) ts = Ok fees'"
    by (auto split: prod.splits)
  obtain s1 u1 where a: "apply_transaction s t h u = (s1, u1)" by (cases "apply_transaction s t h u")
  note k = c(1) [unfolded check_transaction_iff]
  have nc: "\<not> tx_is_coinbase t" using Cons.prems(4) by simp
  have iv: "inputs_value s (tx_inputs t) = outs_value (tx_outputs t) + units f"
    using mirrors_inputs_value [OF Cons.prems(2)] k by metis
  have "utxo_sum s1 + units f \<le> utxo_sum s"
    using apply_value [OF Cons.prems(3) a] apply_spent [OF a] k nc iv by simp
  moreover have "utxo_sum (fst (apply_transactions s1 u1 h ts)) + fees' \<le> utxo_sum s1 + (fees + units f)"
  proof (rule Cons.IH [OF c(2)])
    show "mirrors (bv_apply v t h) s1" using mirrors_apply [OF Cons.prems(2) nc, of h u] a by simp
    show "utxo_inv s1" using utxo_inv_apply [OF Cons.prems(3), of t h u] a by simp
  qed (use Cons.prems(4) in simp)
  ultimately show ?case using a by simp
qed simp

lemma check_txs_bound: "check_txs mldsa net h seen fees v ts = Ok fees' \<Longrightarrow> fees < 2 ^ 64 \<Longrightarrow> fees' < 2 ^ 64"
  by (induction ts arbitrary: seen fees v) (auto split: prod.splits)

section \<open>The coinbase\<close>

lemma uncle_rewards_split:
  assumes "n \<le> 4"
  shows "miner_share (uncle_rewards h n) + n * per_uncle (uncle_rewards h n) = block_subsidy h"
proof -
  let ?p = "block_subsidy h div 100 * 25"
  have "?p * n \<le> ?p * 4" using assms by simp
  also have "\<dots> \<le> block_subsidy h" by simp
  finally have le: "?p * n \<le> block_subsidy h" .
  have "block_subsidy h \<le> u64_max" using block_subsidy_le [of h]
    by (simp add: INITIAL_REWARD_def UNITS_PER_COIN_def u64_max_def)
  then have "sat_mul64 ?p n = ?p * n" using le by (simp add: sat_mul64_def)
  then show ?thesis using le
    by (simp add: uncle_rewards_def Let_def UNCLE_REWARD_PCT_def sat_sub64_def mult.commute)
qed

lemma uncles_paid_value: "uncles_paid per outputs i us = Ok () \<Longrightarrow>
    outs_value (take (length us) (drop (i + 1) outputs)) = length us * per"
proof (induction us arbitrary: i)
  case (Cons u us)
  then have "i + 1 < length outputs" "units (out_value (outputs ! (i + 1))) = per" "uncles_paid per outputs (Suc i) us = Ok ()"
    by (auto split: if_splits)
  moreover from this(1) have "take (length (u # us)) (drop (i + 1) outputs) = outputs ! (i + 1) # take (length us) (drop (Suc i + 1) outputs)"
    by (simp add: Cons_nth_drop_Suc [symmetric])
  ultimately show ?case using Cons.IH [of "Suc i"] by (simp add: outs_value_def)
qed (simp add: outs_value_def)

lemma uncles_paid_no_panic: "i + length us < length outputs \<Longrightarrow> uncles_paid per outputs i us \<noteq> Panic"
  by (induction us arbitrary: i) (auto simp: rbind_Panic_iff)

lemma median_time_no_panic [simp]: "median_time ts \<noteq> Panic"
proof (cases "ts = []")
  case False
  then have "0 < length (take MEDIAN_TIME_SPAN (rev ts))" by (simp add: MEDIAN_TIME_SPAN_def)
  then have "length (take MEDIAN_TIME_SPAN (rev ts)) div 2 < length (take MEDIAN_TIME_SPAN (rev ts))"
    by (rule div_less_dividend [rotated]) simp
  then show ?thesis using False by (simp add: median_time_def Let_def del: length_take)
qed (simp add: median_time_def)

lemma check_coinbase_value:
  assumes "check_coinbase b ctx fees = Ok ()" "check_uncles pow b ctx = Ok ()" "blk_transactions b = cb # ts"
  shows "outs_value (tx_outputs cb) \<le> block_subsidy (ctx_height ctx) + fees \<and>
    ctx_cumulative_issued ctx + (outs_value (tx_outputs cb) - fees) \<le> MAX_SUPPLY"
proof -
  let ?r = "uncle_rewards (ctx_height ctx) (length (blk_uncles b))"
  from assms(1,3) obtain sm where c: "length (tx_outputs cb) = 1 + length (blk_uncles b)"
    "uncles_paid (per_uncle ?r) (tx_outputs cb) 0 (blk_uncles b) = Ok ()"
    "units (out_value (tx_outputs cb ! 0)) \<le> miner_share ?r + fees" "total_output cb = Ok sm"
    "ctx_cumulative_issued ctx + (units sm - fees) \<le> MAX_SUPPLY"
    unfolding check_coinbase_def by (auto simp: Let_def sat_sub64_def split: if_splits)
  have sm: "units sm = outs_value (tx_outputs cb)" using total_output_Ok [OF c(4)] by (simp add: outs_value_def)
  obtain m outs where o: "tx_outputs cb = m # outs" using c(1) by (cases "tx_outputs cb") auto
  have "outs_value outs = length (blk_uncles b) * per_uncle ?r" using uncles_paid_value [OF c(2)] c(1) o by simp
  moreover have "length (blk_uncles b) \<le> 4"
    using assms(2) by (auto simp: check_uncles_def MAX_UNCLES_def split: if_splits)
  ultimately have "outs_value (tx_outputs cb) \<le> block_subsidy (ctx_height ctx) + fees"
    using uncle_rewards_split [of "length (blk_uncles b)" "ctx_height ctx"] c(3) o by (simp add: outs_value_def)
  then show ?thesis using c(5) sm by simp
qed

lemma accepted_block_value:
  assumes "utxo_inv s" "check_block mldsa pow b s ctx = Ok fees" "blk_transactions b = cb # ts"
    and "\<And>i. utxo_get s \<lparr>op_txid = txid cb, op_index = i\<rparr> = None"
  shows "utxo_sum (fst (apply_transactions s undo_new (ctx_height ctx) (blk_transactions b))) + units fees \<le>
      utxo_sum s + outs_value (tx_outputs cb) \<and>
    outs_value (tx_outputs cb) \<le> block_subsidy (ctx_height ctx) + units fees \<and>
    ctx_cumulative_issued ctx + (outs_value (tx_outputs cb) - units fees) \<le> MAX_SUPPLY"
proof -
  let ?h = "ctx_height ctx"
  from assms(2,3) obtain n where c: "block_check_shape b = Ok ()"
    "check_txs mldsa (ctx_network ctx) ?h [] 0 (block_view_new s) ts = Ok n"
    "check_uncles pow b ctx = Ok ()" "check_coinbase b ctx n = Ok ()" "fees = from_units (of_nat n)"
    by (auto simp: check_block_def Let_def split: if_splits)
  have sh: "tx_is_coinbase cb" "\<And>t. t \<in> set ts \<Longrightarrow> \<not> tx_is_coinbase t"
    using c(1) assms(3) by (auto simp: block_check_shape_Ok_iff)
  obtain s1 u1 where a: "apply_transaction s cb ?h undo_new = (s1, u1)" by (cases "apply_transaction s cb ?h undo_new")
  have i1: "utxo_inv s1" using utxo_inv_apply [OF assms(1), of cb ?h undo_new] a by simp
  have m1: "mirrors (block_view_new s) s1" using mirrors_coinbase [of s cb ?h undo_new] assms(4) sh(1) a by simp
  have v1: "utxo_sum s1 \<le> utxo_sum s + outs_value (tx_outputs cb)"
    using apply_value [OF assms(1) a] by (simp add: spent_value_def undo_new_def)
  have v: "utxo_sum (fst (apply_transactions s1 u1 ?h ts)) + n \<le> utxo_sum s1"
    using check_txs_value [OF c(2) m1 i1 sh(2), of u1] by simp
  have n: "n < 2 ^ 64" using c(2) check_txs_bound by fastforce
  then have f: "units fees = n" unfolding c(5) from_units_def units_Amount by (rule unat_of_nat_lt)
  have "fst (apply_transactions s undo_new ?h (blk_transactions b)) = fst (apply_transactions s1 u1 ?h ts)"
    using assms(3) a by simp
  then show ?thesis using v v1 f check_coinbase_value [OF c(4,3) assms(3)] by simp
qed

section \<open>Properties\<close>

text \<open>C2. A transaction is accepted exactly when its shape, outputs and registration pass, its inputs are
  pairwise distinct, not spent before in the block, present in the view, spendable, mature, of a scheme
  in force and unlocked by their witness, and their sum, below \<open>2 ^ 64\<close>, is the sum of the outputs plus
  the fee returned. The early policy checks never change the verdict.\<close>

theorem transaction_accepted_iff:
  "check_transaction mldsa t view net height seen = Ok (f, seen') \<longleftrightarrow>
   tx_check_shape t = Ok () \<and> check_outputs net height (tx_outputs t) = Ok () \<and> check_registration t view = Ok () \<and>
   distinct (map prev_out (tx_inputs t)) \<and> set (map prev_out (tx_inputs t)) \<inter> set seen = {} \<and>
   list_all (\<lambda>(j, inp). input_ok mldsa t view net height j inp) (List.enumerate 0 (tx_inputs t)) \<and>
   seen' = rev (map prev_out (tx_inputs t)) @ seen \<and>
   ins_value view (tx_inputs t) < 2 ^ 64 \<and> ins_value view (tx_inputs t) = outs_value (tx_outputs t) + units f"
proof -
  have "list_all (\<lambda>(j, inp). input_ok mldsa t view net height j inp) (List.enumerate 0 (tx_inputs t)) \<longleftrightarrow>
      (\<forall>j < length (tx_inputs t). input_ok mldsa t view net height j (tx_inputs t ! j))"
    by (simp add: list_all_length nth_enumerate_eq)
  then show ?thesis unfolding check_transaction_iff by simp
qed

text \<open>C1. No block creates money beyond its subsidy. When a block is accepted and its transactions are
  applied to the set, the total value grows at most by the subsidy of its height; precisely, what the
  set gains plus the fees is at most what the coinbase pays; and the cumulative emission stays within
  the cap. The coinbase's transaction id must be new to the set.\<close>

theorem block_cannot_inflate:
  assumes "utxo_inv s" "check_block mldsa pow b s ctx = Ok fees" "blk_transactions b = cb # ts"
    and "\<forall>i. utxo_get s \<lparr>op_txid = txid cb, op_index = i\<rparr> = None"
  shows "utxo_sum (fst (apply_transactions s undo_new (ctx_height ctx) (blk_transactions b))) \<le>
      utxo_sum s + block_subsidy (ctx_height ctx) \<and>
    utxo_sum (fst (apply_transactions s undo_new (ctx_height ctx) (blk_transactions b))) + units fees \<le>
      utxo_sum s + outs_value (tx_outputs cb) \<and>
    ctx_cumulative_issued ctx + (outs_value (tx_outputs cb) - units fees) \<le> MAX_SUPPLY"
proof -
  have "utxo_get s \<lparr>op_txid = txid cb, op_index = i\<rparr> = None" for i using assms(4) by blast
  from accepted_block_value [OF assms(1-3) this] show ?thesis by linarith
qed

definition example_coinbase :: transaction where
  "example_coinbase = \<lparr>tx_version = 1, tx_inputs = [txin_coinbase (le_bytes 8 1)],
     tx_outputs = [\<lparr>out_value = Amount 10000, out_scheme = MlDsa65, out_pubkey_hash = HASH_ZERO\<rparr>], tx_lock_time = 0\<rparr>"

definition example_block :: block where
  "example_block = \<lparr>
     blk_header = \<lparr>hdr_version = 1, hdr_prev_block = HASH_ZERO, hdr_merkle_root = merkle_root [merkle_leaf example_coinbase],
       hdr_uncles_root = merkle_root [], hdr_miner = HASH_ZERO, hdr_time = 100, hdr_bits = 0, hdr_height = 1, hdr_nonce = 0\<rparr>,
     blk_transactions = [example_coinbase], blk_uncles = []\<rparr>"

definition example_context :: block_context where
  "example_context = \<lparr>ctx_network = Regtest, ctx_height = 1, ctx_prev_id = HASH_ZERO, ctx_recent_times = [],
     ctx_parent_time = None, ctx_expected_bits = 0, ctx_now = 100, ctx_ancestors = [], ctx_claimed_uncles = [],
     ctx_uncle_expected_bits = [], ctx_cumulative_issued = 0\<rparr>"

lemma block_subsidy_1: "10000 \<le> block_subsidy 1"
proof -
  have "scheduled_reward 1 \<ge> 10000"
    by (simp add: scheduled_reward_def apply_slow_start_def epoch_base_0 SLOW_START_BLOCKS_def DECAY_EPOCH_BLOCKS_def
        INITIAL_REWARD_def TAIL_REWARD_def max_def)
  moreover have "scheduled_total 2 = scheduled_reward 0 + scheduled_reward 1" "scheduled_total 1 = scheduled_reward 0"
    by (simp_all add: scheduled_total_def numeral_2_eq_2)
  moreover have "scheduled_reward 0 = 0" by (simp add: scheduled_reward_def apply_slow_start_def SLOW_START_BLOCKS_def)
  ultimately show ?thesis
    by (simp add: block_subsidy_def cumulative_emission_eq numeral_2_eq_2 emission_const_defs EMISSION_CAP_def)
qed

lemmas example_block_defs = example_block_def example_coinbase_def example_context_def txin_coinbase_def
  OUTPOINT_COINBASE_def HASH_ZERO_def

lemma example_block_encode_size: "length (block_encode example_block) \<le> MAX_BLOCK_SIZE"
  by (simp add: block_encode_def header_encode_def w_var_bytes_def tx_encode_def encode_without_witness_def
      encode_prev_def encode_output_def encode_witness_def w_varint_def w_u8_def w_u32_def w_u64_def
      example_block_defs MAX_BLOCK_SIZE_def merkle_root_def merkle_leaf_def leaf_hash_def merkle_up.simps)

lemma example_total: "checked_sum [Amount 10000] = Some (Amount 10000)"
proof (cases "checked_sum [Amount 10000]")
  case None
  from checked_sum_None [OF this] show ?thesis by simp
next
  case (Some x)
  from checked_sum_Some [OF this] have "x = Amount 10000" by (intro amount_eqI) simp
  then show ?thesis using Some by simp
qed

lemma example_block_accepted:
  "check_block (\<lambda>_ _ _ _. False) (\<lambda>_. Ok ()) example_block utxo_new example_context = Ok AMOUNT_ZERO"
proof -
  have sh: "block_check_shape example_block = Ok ()"
    by (simp add: block_check_shape_def example_block_defs tx_is_coinbase_def outpoint_is_coinbase_def tx_check_shape_def
        total_output_def example_total is_within_supply_def supply_defs compute_merkle_root_def compute_uncles_root_def)
  have hd: "check_header_rules (\<lambda>_. Ok ()) (blk_header example_block) example_context = Ok ()"
    by (simp add: check_header_rules_def example_block_defs check_after_parent_def check_anchor_def MAX_FUTURE_TIME_def median_time_def)
  have cb: "check_coinbase example_block example_context 0 = Ok ()"
    using block_subsidy_1 uncle_rewards_split [of 0 1] block_subsidy_le [of 1]
    by (simp add: check_coinbase_def example_block_defs Let_def starts_with_def MIN_OUTPUT_VALUE_def total_output_def
        example_total supply_defs sat_sub64_def is_name_def scheme_allowed_def INITIAL_REWARD_def)
  show ?thesis
    using example_block_encode_size sh hd cb
    by (simp add: check_block_def check_uncles_def)
      (simp add: example_block_def example_context_def from_units_def AMOUNT_ZERO_def)
qed

theorem block_cannot_inflate_witness:
  "utxo_sum (fst (apply_transactions utxo_new undo_new 1 [example_coinbase])) \<le> block_subsidy 1"
  using block_cannot_inflate [OF utxo_inv_new example_block_accepted, of example_coinbase "[]"]
  by (simp add: utxo_get_def utxo_new_def utxo_sum_def example_block_def example_context_def)

section \<open>No panic\<close>

definition low_heights :: "utxo_view \<Rightarrow> bool" where
  "low_heights view \<longleftrightarrow> (\<forall>op e. view_lookup view op = Some e \<longrightarrow> ue_height e + COINBASE_MATURITY < 2 ^ 64)"

lemma registration_no_panic [simp]: "registration t \<noteq> Panic"
  by (auto simp: registration_def Let_def rbind_Panic_iff split: list.splits if_splits)

lemma check_outputs_no_panic [simp]: "check_outputs net h outs \<noteq> Panic"
  by (induction outs) auto

lemma check_registration_no_panic [simp]: "check_registration t view \<noteq> Panic"
  by (auto simp: check_registration_def rbind_Panic_iff split: option.splits if_splits)

lemma precheck_spend_no_panic [simp]: "precheck_spend net e h wit \<noteq> Panic"
proof -
  have "check_path_keys net ks \<noteq> Panic" for ks by (induction ks) auto
  moreover have "read_spend (ue_output e) wit \<noteq> Panic"
    by (auto simp: read_spend_def rbind_Panic_iff walk_no_panic policy_decode_no_panic split: prod.splits if_splits)
  ultimately show ?thesis
    by (auto simp: precheck_spend_def precheck_def Let_def rbind_Panic_iff split: prod.splits if_splits)
qed

lemma precheck_inputs_no_panic [simp]: "precheck_inputs net h view is \<noteq> Panic"
  by (induction "is") (auto simp: rbind_Panic_iff split: option.splits)

lemma check_unlock_no_panic [simp]: "check_unlock mldsa t i net h e wit \<noteq> Panic"
  by (simp add: check_unlock_def check_spend_no_panic)

lemma check_inputs_no_panic: "low_heights view \<Longrightarrow> check_inputs mldsa t view net h i seen sm is \<noteq> Panic"
proof (induction "is" arbitrary: i seen sm)
  case (Cons inp "is")
  have "check_maturity h e \<noteq> Panic" if "view_lookup view (prev_out inp) = Some e" for e
    using Cons.prems that by (auto simp: low_heights_def check_maturity_def rbind_Panic_iff add64_def)
  then show ?case using Cons by (auto simp: rbind_Panic_iff)
qed simp

lemma check_transaction_no_panic: "low_heights view \<Longrightarrow> check_transaction mldsa t view net h seen \<noteq> Panic"
  by (auto simp: check_transaction_def rbind_Panic_iff check_inputs_no_panic total_output_def split: prod.splits if_splits)

lemma created_entry_height: "created_entry tid h c i outs op = Some e \<Longrightarrow> ue_height e = h"
  by (induction outs arbitrary: i) (auto split: option.splits if_splits)

lemma low_heights_apply:
  "low_heights (bv_view v) \<Longrightarrow> h + COINBASE_MATURITY < 2 ^ 64 \<Longrightarrow> low_heights (bv_view (bv_apply v t h))"
  unfolding low_heights_def bv_view_def
  by (auto simp: bv_apply_lookup dest: created_entry_height split: option.splits if_splits)

lemma check_txs_no_panic:
  "low_heights (bv_view v) \<Longrightarrow> h + COINBASE_MATURITY < 2 ^ 64 \<Longrightarrow> check_txs mldsa net h seen fees v ts \<noteq> Panic"
  by (induction ts arbitrary: seen fees v)
    (auto simp: rbind_Panic_iff check_transaction_no_panic low_heights_apply split: prod.splits)

lemma check_uncle_list_no_panic: "(\<And>u. pow u \<noteq> Panic) \<Longrightarrow> check_uncle_list pow ctx seen us \<noteq> Panic"
  by (induction us arbitrary: seen) (auto simp: Let_def rbind_Panic_iff)

text \<open>The shape, checked before, gives the coinbase and its input; the count of its outputs, checked before
  they are read, gives the payments of the uncles.\<close>

lemma block_shape_coinbase:
  assumes "block_check_shape b = Ok ()"
  obtains cb ts i where "blk_transactions b = cb # ts" "tx_inputs cb = [i]"
  using assms by (auto simp: block_check_shape_Ok_iff tx_is_coinbase_def neq_Nil_conv length_Suc_conv)

lemma check_coinbase_no_panic:
  assumes "block_check_shape b = Ok ()"
  shows "check_coinbase b ctx fees \<noteq> Panic"
proof -
  obtain cb ts i where cb: "blk_transactions b = cb # ts" "tx_inputs cb = [i]" by (rule block_shape_coinbase [OF assms])
  have "coinbase_dust outs \<noteq> Panic" "coinbase_schemes net h outs \<noteq> Panic" for outs net h by (induction outs) auto
  then show ?thesis
    by (auto simp: check_coinbase_def cb Let_def rbind_Panic_iff total_output_def uncles_paid_no_panic split: if_splits)
qed

lemma anchors_decode: "list_all (\<lambda>(_, id). from_hex id \<noteq> None) ANCHORS_TESTNET"
  by code_simp

lemma check_block_no_panic:
  assumes "\<And>h. pow h \<noteq> Panic" "ctx_now ctx + MAX_FUTURE_TIME < 2 ^ 64"
    and "ctx_height ctx + COINBASE_MATURITY < 2 ^ 64" "low_heights (bv_view (block_view_new s))"
  shows "check_block mldsa pow b s ctx \<noteq> Panic"
proof -
  have "check_header_rules pow (blk_header b) ctx \<noteq> Panic"
    using assms(1,2) by (auto simp: check_header_rules_def check_after_parent_def check_anchor_def Let_def rbind_Panic_iff
        add64_def split: option.splits prod.splits if_splits)
  moreover have "check_uncles pow b ctx \<noteq> Panic"
    using check_uncle_list_no_panic [OF assms(1)] by (auto simp: check_uncles_def)
  moreover have "slice_from (blk_transactions b) 1 \<noteq> Panic" if "block_check_shape b = Ok ()"
    using block_shape_coinbase [OF that] by (metis One_nat_def le_add1 length_Cons not_le plus_1_eq_Suc slice_from_Panic_iff)
  ultimately show ?thesis
    using check_txs_no_panic [OF assms(4,3)] check_coinbase_no_panic
    by (auto simp: check_block_def Let_def rbind_Panic_iff simp del: slice_from_Panic_iff)
qed

lemma low_heights_set:
  "(\<And>op e. utxo_get s op = Some e \<Longrightarrow> ue_height e + COINBASE_MATURITY < 2 ^ 64) \<Longrightarrow> low_heights (bv_view (block_view_new s))"
  by (auto simp: low_heights_def bv_view_def bv_lookup_def block_view_new_def)

text \<open>C3. Validating a block never panics, whatever its bytes. Every index (\<open>transactions[0]\<close>, \<open>inputs[0]\<close>,
  \<open>outputs[0]\<close>, \<open>outputs[i + 1]\<close>, the median), the slice \<open>transactions[1..]\<close> and every subtraction (the
  age of an uncle, the fee) panics out of range in the model, and the checks done before it keep it in
  range; the two sums the code does not check, the maturity height of an output and the time limit,
  stay below \<open>2 ^ 64\<close> when the clock and the heights do; everything else is refused with an error.\<close>

theorem check_block_never_panics:
  assumes "\<And>h. pow h \<noteq> Panic" "ctx_now ctx + MAX_FUTURE_TIME < 2 ^ 64"
    and "ctx_height ctx + COINBASE_MATURITY < 2 ^ 64"
    and "\<And>op e. utxo_get s op = Some e \<Longrightarrow> ue_height e + COINBASE_MATURITY < 2 ^ 64"
  shows "check_block mldsa pow b s ctx \<noteq> Panic"
  by (rule check_block_no_panic [OF assms(1-3) low_heights_set [OF assms(4)]])

theorem check_block_never_panics_witness:
  "check_block (\<lambda>_ _ _ _. False) (pow_check sha256_pow_hash) example_block utxo_new example_context \<noteq> Panic"
  by (rule check_block_never_panics)
    (simp_all add: example_context_def MAX_FUTURE_TIME_def COINBASE_MATURITY_def utxo_get_def utxo_new_def)

end
