(* ===== verification/Difficulty.thy ===== *)
theory Difficulty
  imports Pow
begin

text \<open>
  Difficulty adjustment (\<open>next_bits\<close> of \<open>src/src/chain.rs\<close>): a linearly weighted moving average of the
  last solve times. The signed \<open>i128\<close> arithmetic is that of \<open>int\<close>: a window holds at most ninety
  intervals of at most \<open>2 ^ 64\<close> seconds, so no sum comes near \<open>2 ^ 127\<close>, and the divisions of the source
  are of non-negative numbers.

  The lemmas show that the difficulty imposed always decodes, is never easier than the floor, moves by
  at most a factor of four from the mean of the window whatever the timestamps, and stays put when
  blocks keep their pace.
\<close>

definition clamp :: "int \<Rightarrow> int \<Rightarrow> int \<Rightarrow> int" where
  "clamp lo hi x = max lo (min x hi)"

definition max_ahead :: int where
  "max_ahead = int (LWMA_MAX_AHEAD * TARGET_BLOCK_SECS)"

definition max_behind :: int where
  "max_behind = int (LWMA_MAX_BEHIND * TARGET_BLOCK_SECS)"

definition solvetime :: "block_header \<Rightarrow> block_header \<Rightarrow> int" where
  "solvetime h0 h1 = clamp (- max_behind) max_ahead (int (unat (hdr_time h1)) - int (unat (hdr_time h0)))"

text \<open>The loop over the intervals; \<open>None\<close> is the early return on a target that does not decode.\<close>

fun lwma_loop :: "nat \<Rightarrow> int \<Rightarrow> U256 \<Rightarrow> block_header list \<Rightarrow> (int \<times> U256) option" where
  "lwma_loop i weighted_sum target_sum (h0 # h1 # hs) =
     (case target_from_compact (hdr_bits h1) of
        Ok c \<Rightarrow> lwma_loop (Suc i) (weighted_sum + solvetime h0 h1 * (int i + 1))
                 (case u256_checked_add target_sum c of Some s \<Rightarrow> s | None \<Rightarrow> target_sum) (h1 # hs)
      | _ \<Rightarrow> None)"
| "lwma_loop i weighted_sum target_sum _ = Some (weighted_sum, target_sum)"

definition lwma_window :: "block_header list \<Rightarrow> block_header list" where
  "lwma_window hs = drop (length hs - min (length hs) (LWMA_WINDOW + 1)) hs"

text \<open>The target of the next block from the mean target and the mean solve time, before it is compacted.\<close>

definition clipped_target :: "U256 \<Rightarrow> U256 \<Rightarrow> U256" where
  "clipped_target average_target new_target =
     (let ceiling = (case u256_checked_mul_u64 average_target (of_nat MAX_TARGET_CHANGE) of Some c \<Rightarrow> c | None \<Rightarrow> U256_MAX);
          floor = (case u256_checked_div_u64 average_target (of_nat MAX_TARGET_CHANGE) of Some c \<Rightarrow> c | None \<Rightarrow> U256_ONE)
      in max (min new_target ceiling) floor)"

definition next_bits :: "block_header list \<Rightarrow> u32" where
  "next_bits recent_headers =
     (if length recent_headers < 2 then INITIAL_BITS
      else let recent = lwma_window recent_headers; k = length recent - 1
      in case lwma_loop 0 0 U256_ZERO recent of
           None \<Rightarrow> INITIAL_BITS
         | Some (weighted_sum, target_sum) \<Rightarrow>
             let total_weight = int k * (int k + 1) div 2
             in if total_weight = 0 then INITIAL_BITS
                else let sum_floor = total_weight * int TARGET_BLOCK_SECS div 20;
                         sm = max weighted_sum sum_floor;
                         lwma = (of_int (max (sm div total_weight) 1) :: u64)
                in case u256_checked_div_u64 target_sum (of_nat k) of
                     None \<Rightarrow> INITIAL_BITS
                   | Some average_target \<Rightarrow>
                       (case u256_mul_div average_target lwma (of_nat TARGET_BLOCK_SECS) of
                          None \<Rightarrow> INITIAL_BITS
                        | Some new \<Rightarrow>
                            let new_target = clipped_target average_target new;
                                limit = (case target_from_compact INITIAL_BITS of Ok t \<Rightarrow> t | _ \<Rightarrow> U256_MAX)
                            in if u256_is_zero new_target then INITIAL_BITS
                               else if limit < new_target then INITIAL_BITS
                               else target_to_compact new_target))"

section \<open>The floor\<close>

definition limit_value :: nat where
  "limit_value = 0xffff * 256 ^ 29"

lemma initial_target: "\<exists>f. target_from_compact INITIAL_BITS = Ok f \<and> uval f = limit_value"
  using floor_target_eq by (auto simp: floor_target_def limit_value_def split: result.splits)

lemma limit_value_pos: "0 < limit_value"
  by (simp add: limit_value_def)

text \<open>Every way out of the function is one of two: the floor, or a compacted target within it.\<close>

lemma next_bits_cases:
  "next_bits hs = INITIAL_BITS \<or> (\<exists>t. next_bits hs = target_to_compact t \<and> 0 < uval t \<and> uval t \<le> limit_value)"
proof -
  obtain f where f: "target_from_compact INITIAL_BITS = Ok f" "uval f = limit_value" using initial_target by blast
  show ?thesis
    unfolding next_bits_def Let_def
    by (auto simp: f split: option.splits prod.splits if_splits)
qed

section \<open>The window\<close>

definition target_value :: "block_header \<Rightarrow> nat" where
  "target_value h = (case target_from_compact (hdr_bits h) of Ok t \<Rightarrow> uval t | _ \<Rightarrow> 0)"

definition paced :: "block_header \<Rightarrow> bool" where
  "paced h \<longleftrightarrow> (\<exists>t. target_from_compact (hdr_bits h) = Ok t \<and> uval t \<le> limit_value)"

fun weighted :: "nat \<Rightarrow> block_header list \<Rightarrow> int" where
  "weighted i (h0 # h1 # hs) = solvetime h0 h1 * (int i + 1) + weighted (Suc i) (h1 # hs)"
| "weighted i _ = 0"

lemma solvetime_bounds: "- 720 \<le> solvetime h0 h1" "solvetime h0 h1 \<le> 480"
  by (simp_all add: solvetime_def clamp_def max_ahead_def max_behind_def LWMA_MAX_AHEAD_def LWMA_MAX_BEHIND_def
      TARGET_BLOCK_SECS_def)

text \<open>The sum of the weights \<open>i + 1, \<dots>, i + k\<close>.\<close>

fun weights :: "nat \<Rightarrow> nat \<Rightarrow> int" where
  "weights i 0 = 0"
| "weights i (Suc k) = int i + 1 + weights (Suc i) k"

lemma weights_closed: "2 * weights i k = int k * (2 * int i + int k + 1)"
proof (induction k arbitrary: i)
  case (Suc k)
  have "2 * weights i (Suc k) = 2 * (int i + 1) + 2 * weights (Suc i) k" by simp
  also have "\<dots> = int (Suc k) * (2 * int i + int (Suc k) + 1)" unfolding Suc by (simp add: algebra_simps)
  finally show ?case .
qed simp

lemma weights_total: "weights 0 k = int k * (int k + 1) div 2"
  using weights_closed [of 0 k] by simp

lemma weighted_le: "weighted i hs \<le> 480 * weights i (length hs - 1)"
proof (induction i hs rule: weighted.induct)
  case (1 i h0 h1 hs)
  have "solvetime h0 h1 * (int i + 1) \<le> 480 * (int i + 1)" using solvetime_bounds by (intro mult_right_mono) auto
  then show ?case using 1 by (simp add: algebra_simps)
qed auto

lemma lwma_loop_val:
  "list_all paced (drop 1 hs) \<Longrightarrow> uval ts + length hs * limit_value < 2 ^ 256 \<Longrightarrow>
   \<exists>ts'. lwma_loop i ws ts hs = Some (ws + weighted i hs, ts') \<and>
     uval ts' = uval ts + sum_list (map target_value (drop 1 hs))"
proof (induction i ws ts hs rule: lwma_loop.induct)
  case (1 i ws ts h0 h1 hs)
  from 1(2) obtain c where c: "target_from_compact (hdr_bits h1) = Ok c" "uval c \<le> limit_value" by (auto simp: paced_def)
  have "uval ts + uval c < 2 ^ 256" using 1(3) c(2) by simp
  then obtain s where s: "u256_checked_add ts c = Some s" using u256_checked_add_None [of ts c] by fastforce
  then have v: "uval s = uval ts + uval c" by (simp add: u256_checked_add_Some)
  have le: "uval s + length (h1 # hs) * limit_value < 2 ^ 256" using 1(3) v c(2) by simp
  have p: "list_all paced (drop 1 (h1 # hs))" using 1(2) by simp
  have "\<exists>ts'. lwma_loop (Suc i) (ws + solvetime h0 h1 * (int i + 1)) s (h1 # hs) =
      Some (ws + solvetime h0 h1 * (int i + 1) + weighted (Suc i) (h1 # hs), ts') \<and>
      uval ts' = uval s + sum_list (map target_value (drop 1 (h1 # hs)))"
    using 1(1) [of c] c(1) s p le by simp
  moreover have "target_value h1 = uval c" using c(1) by (simp add: target_value_def)
  ultimately show ?case using c(1) s v by auto
qed auto

lemma window_length: "2 \<le> length hs \<Longrightarrow> 2 \<le> length (lwma_window hs) \<and> length (lwma_window hs) \<le> 91"
  by (auto simp: lwma_window_def LWMA_WINDOW_def)

text \<open>The mean target of the window, and the target computed from it.\<close>

definition mean_target :: "block_header list \<Rightarrow> nat" where
  "mean_target hs = sum_list (map target_value (drop 1 (lwma_window hs))) div (length (lwma_window hs) - 1)"

definition mean_solvetime :: "block_header list \<Rightarrow> int" where
  "mean_solvetime hs =
     (let k = length (lwma_window hs) - 1 in max (weighted 0 (lwma_window hs)) (6 * weights 0 k) div weights 0 k)"

lemma weights_pos: "0 < k \<Longrightarrow> 0 < weights 0 k"
proof -
  assume "0 < k"
  then have "0 < int k * (2 * int 0 + int k + 1)" by (intro mult_pos_pos) auto
  then show ?thesis using weights_closed [of 0 k] by linarith
qed

lemma mean_solvetime_bounds:
  assumes "2 \<le> length hs"
  shows "6 \<le> mean_solvetime hs" "mean_solvetime hs \<le> 480"
proof -
  let ?k = "length (lwma_window hs) - 1"
  have pos: "0 < weights 0 ?k" using window_length [OF assms] by (intro weights_pos) simp
  let ?m = "max (weighted 0 (lwma_window hs)) (6 * weights 0 ?k)"
  have "6 * weights 0 ?k \<le> ?m" by simp
  then show "6 \<le> mean_solvetime hs" using pos zdiv_mono1 [of "6 * weights 0 ?k" ?m "weights 0 ?k"]
    by (simp add: mean_solvetime_def Let_def)
  have "?m \<le> 480 * weights 0 ?k" using weighted_le [of 0 "lwma_window hs"] pos by simp
  then show "mean_solvetime hs \<le> 480" using pos zdiv_mono1 [of ?m "480 * weights 0 ?k" "weights 0 ?k"]
    by (simp add: mean_solvetime_def Let_def)
qed


text \<open>The product by the mean solve time, divided by the target pace; past \<open>2 ^ 256\<close> it divides first.\<close>

definition scaled_target :: "nat \<Rightarrow> nat \<Rightarrow> nat" where
  "scaled_target avg lwma = (if avg * lwma < 2 ^ 256 then avg * lwma div 120 else avg div 120 * lwma)"

lemma mul_div_scaled:
  assumes "uval avg \<le> limit_value" "lwma \<le> 480"
  shows "\<exists>t. u256_mul_div avg (of_nat lwma) 120 = Some t \<and> uval t = scaled_target (uval avg) lwma"
proof -
  have l: "unat (of_nat lwma :: u64) = lwma" using assms(2) by (intro unat_of_nat_lt) simp
  have le: "uval avg div 120 * lwma \<le> uval avg * 4"
  proof -
    have "uval avg div 120 * lwma \<le> uval avg div 120 * (120 * 4)" using assms(2) by (intro mult_le_mono2) simp
    also have "\<dots> \<le> uval avg * 4" by simp
    finally show ?thesis .
  qed
  have lt: "uval avg * 4 < 2 ^ 256" using assms(1) by (simp add: limit_value_def)
  obtain q where q: "uval q = uval avg div 120" using uval_surj [of "uval avg div 120"] lt by fastforce
  have dq: "u256_checked_div_u64 avg 120 = Some q" using q by (simp add: u256_checked_div_u64_Some)
  obtain t where t: "uval t = uval avg div 120 * lwma" using uval_surj [of "uval avg div 120 * lwma"] le lt by fastforce
  show ?thesis
  proof (cases "uval avg * lwma < 2 ^ 256")
    case True
    then obtain p where p: "uval p = uval avg * lwma" using uval_surj by blast
    have "u256_checked_mul_u64 avg (of_nat lwma) = Some p" using p l by (simp add: u256_checked_mul_u64_Some)
    moreover obtain d where "uval d = uval p div 120" using uval_surj [of "uval p div 120"] uval_lt [of p] by fastforce
    ultimately show ?thesis using True p
      by (intro exI [of _ d]) (simp add: u256_mul_div_def u256_checked_div_u64_Some scaled_target_def)
  next
    case False
    have n: "u256_checked_mul_u64 avg (of_nat lwma) = None"
    proof (rule ccontr)
      assume "u256_checked_mul_u64 avg (of_nat lwma) \<noteq> None"
      then obtain p where "uval p = uval avg * lwma" using l by (auto simp: u256_checked_mul_u64_Some)
      then show False using False uval_lt [of p] by simp
    qed
    have "u256_checked_mul_u64 q (of_nat lwma) = Some t" using t q l by (simp add: u256_checked_mul_u64_Some)
    then show ?thesis using n False dq t by (simp add: u256_mul_div_def scaled_target_def)
  qed
qed

lemma clipped_val:
  assumes "uval avg \<le> limit_value"
  shows "uval (clipped_target avg new) = max (min (uval new) (4 * uval avg)) (uval avg div 4)"
proof -
  have lt: "uval avg * 4 < 2 ^ 256" using assms by (simp add: limit_value_def)
  obtain c where c: "u256_checked_mul_u64 avg 4 = Some c" "uval c = 4 * uval avg"
    using uval_surj [OF lt] by (auto simp: u256_checked_mul_u64_Some mult.commute)
  obtain f where f: "u256_checked_div_u64 avg 4 = Some f" "uval f = uval avg div 4"
    using uval_surj [of "uval avg div 4"] lt by (fastforce simp: u256_checked_div_u64_Some)
  show ?thesis using c f by (simp add: clipped_target_def MAX_TARGET_CHANGE_def max_def min_def) linarith
qed

lemma mean_target_le:
  assumes "2 \<le> length hs" "list_all paced (drop 1 (lwma_window hs))"
  shows "mean_target hs \<le> limit_value"
proof -
  let ?k = "length (lwma_window hs) - 1"
  have "target_value h \<le> limit_value" if "paced h" for h using that by (auto simp: paced_def target_value_def)
  then have "sum_list (map target_value (drop 1 (lwma_window hs))) \<le> length (drop 1 (lwma_window hs)) * limit_value"
    using assms(2) sum_list_mono [of "drop 1 (lwma_window hs)" target_value "\<lambda>_. limit_value"]
    by (simp add: list_all_iff sum_list_triv)
  then have "mean_target hs \<le> ?k * limit_value div ?k" unfolding mean_target_def by (intro div_le_mono) simp
  then show ?thesis using window_length [OF assms(1)] by simp
qed

lemma next_bits_val:
  assumes "2 \<le> length hs" "list_all paced (drop 1 (lwma_window hs))"
  shows "\<exists>t. uval t = max (min (scaled_target (mean_target hs) (nat (mean_solvetime hs))) (4 * mean_target hs)) (mean_target hs div 4) \<and>
    next_bits hs = (if uval t = 0 \<or> limit_value < uval t then INITIAL_BITS else target_to_compact t)"
proof -
  let ?w = "lwma_window hs" and ?avg = "mean_target hs"
  let ?k = "length ?w - 1"
  have len: "2 \<le> length ?w" "length ?w \<le> 91" using window_length [OF assms(1)] by auto
  have kpos: "0 < weights 0 ?k" using len by (intro weights_pos) simp
  have "uval U256_ZERO + length ?w * limit_value < 2 ^ 256"
  proof -
    have "length ?w * limit_value \<le> 91 * limit_value" using len by (intro mult_le_mono1)
    then show ?thesis by (simp add: limit_value_def)
  qed
  then obtain ts where ts: "lwma_loop 0 0 U256_ZERO ?w = Some (weighted 0 ?w, ts)"
    "uval ts = sum_list (map target_value (drop 1 ?w))"
    using lwma_loop_val [OF assms(2), of U256_ZERO 0 0] by auto
  have ku: "unat (of_nat ?k :: u64) = ?k" using len by (intro unat_of_nat_lt) simp
  have k0: "(of_nat ?k :: u64) \<noteq> 0" using ku len by (metis One_nat_def Suc_1 diff_Suc_1 diff_is_0_eq not_less_eq_eq unat_0)
  obtain avg where avg: "uval avg = ?avg" using uval_surj [of ?avg] mean_target_le [OF assms] by (fastforce simp: limit_value_def)
  have d: "u256_checked_div_u64 ts (of_nat ?k) = Some avg"
    using avg k0 ku ts(2) by (simp add: u256_checked_div_u64_Some mean_target_def)
  note b = mean_solvetime_bounds [OF assms(1)]
  have lw: "(of_int (max (max (weighted 0 ?w) (weights 0 ?k * 120 div 20) div weights 0 ?k) 1) :: u64) = of_nat (nat (mean_solvetime hs))"
  proof -
    have "weights 0 ?k * 120 div 20 = 6 * weights 0 ?k" by simp
    then have "max (max (weighted 0 ?w) (weights 0 ?k * 120 div 20) div weights 0 ?k) 1 = mean_solvetime hs"
      using b(1) by (simp add: mean_solvetime_def Let_def)
    then show ?thesis using b(1) by simp
  qed
  have "uval avg \<le> limit_value" "nat (mean_solvetime hs) \<le> 480" using avg mean_target_le [OF assms] b by auto
  from mul_div_scaled [OF this] obtain new where
    new: "u256_mul_div avg (of_nat (nat (mean_solvetime hs))) 120 = Some new"
      "uval new = scaled_target ?avg (nat (mean_solvetime hs))"
    using avg by auto
  obtain f where f: "target_from_compact INITIAL_BITS = Ok f" "uval f = limit_value" using initial_target by blast
  have "next_bits hs = (if uval (clipped_target avg new) = 0 \<or> limit_value < uval (clipped_target avg new) then INITIAL_BITS
      else target_to_compact (clipped_target avg new))"
    using assms(1) ts(1) d lw new(1) f kpos
    by (simp add: next_bits_def Let_def weights_total [symmetric] TARGET_BLOCK_SECS_def)
  moreover have "uval (clipped_target avg new) = max (min (scaled_target ?avg (nat (mean_solvetime hs))) (4 * ?avg)) (?avg div 4)"
    using clipped_val [of avg new] \<open>uval avg \<le> limit_value\<close> avg new(2) by simp
  ultimately show ?thesis by blast
qed


section \<open>Pace\<close>

fun keeps_pace :: "block_header list \<Rightarrow> bool" where
  "keeps_pace (h0 # h1 # hs) \<longleftrightarrow>
     unat (hdr_time h1) = unat (hdr_time h0) + TARGET_BLOCK_SECS \<and> keeps_pace (h1 # hs)"
| "keeps_pace _ \<longleftrightarrow> True"

lemma weighted_pace: "keeps_pace hs \<Longrightarrow> weighted i hs = 120 * weights i (length hs - 1)"
  by (induction i hs rule: weighted.induct)
    (auto simp: solvetime_def clamp_def max_ahead_def max_behind_def LWMA_MAX_AHEAD_def LWMA_MAX_BEHIND_def
      TARGET_BLOCK_SECS_def algebra_simps)

lemma mean_solvetime_pace:
  assumes "2 \<le> length hs" "keeps_pace (lwma_window hs)"
  shows "mean_solvetime hs = 120"
proof -
  let ?k = "length (lwma_window hs) - 1"
  have "0 < weights 0 ?k" using window_length [OF assms(1)] by (intro weights_pos) simp
  then show ?thesis using weighted_pace [OF assms(2), of 0] by (simp add: mean_solvetime_def Let_def max_def)
qed

lemma mean_target_pace:
  assumes "2 \<le> length hs" "list_all (\<lambda>h. target_value h = v) (drop 1 (lwma_window hs))"
  shows "mean_target hs = v"
proof -
  let ?k = "length (lwma_window hs) - 1"
  have "map target_value (drop 1 (lwma_window hs)) = map (\<lambda>_. v) (drop 1 (lwma_window hs))"
    using assms(2) by (intro map_cong) (auto simp: list_all_iff)
  then have "sum_list (map target_value (drop 1 (lwma_window hs))) = ?k * v" by (simp only: sum_list_triv) simp
  then show ?thesis using window_length [OF assms(1)] by (simp add: mean_target_def)
qed

section \<open>Properties\<close>

text \<open>Whatever the headers, the difficulty imposed on the next block decodes to a positive target that
  is at most the floor of the network: no sequence of timestamps or of earlier targets can ask for
  less work than the floor does.\<close>

theorem next_bits_within_floor:
  "\<exists>t. target_from_compact (next_bits hs) = Ok t \<and> 0 < uval t \<and> uval t \<le> 0xffff * 256 ^ 29 \<and>
     uval (block_work INITIAL_BITS) \<le> uval (block_work (next_bits hs))"
proof -
  obtain f where f: "target_from_compact INITIAL_BITS = Ok f" "uval f = limit_value" using initial_target by blast
  have w: ?thesis if t: "target_from_compact (next_bits hs) = Ok t" "0 < uval t" "uval t \<le> limit_value" for t
  proof -
    have "2 ^ 256 div (uval f + 1) \<le> 2 ^ 256 div (uval t + 1)" using t f by (intro div_le_mono2) auto
    then show ?thesis using t f by (intro exI [of _ t]) (simp add: block_work_val limit_value_def)
  qed
  from next_bits_cases [of hs] show ?thesis
  proof
    assume "next_bits hs = INITIAL_BITS"
    then show ?thesis using w f limit_value_pos by simp
  next
    assume "\<exists>t. next_bits hs = target_to_compact t \<and> 0 < uval t \<and> uval t \<le> limit_value"
    then obtain t where t: "next_bits hs = target_to_compact t" "0 < uval t" "uval t \<le> limit_value" by blast
    from target_compact_roundtrip [OF t(2)] show ?thesis
      using t w target_from_compact_Ok_iff by fastforce
  qed
qed

text \<open>C20. With the targets of the window valid, the next target is at most four times their mean, and not
  below a quarter of it (but for the rounding of the compact form) unless it is the floor: no
  timestamps move the difficulty faster. When the blocks of the window keep their pace and their
  target, the next block has the same target.\<close>

theorem next_bits_moves_slowly:
  assumes "2 \<le> length hs" "list_all paced (drop 1 (lwma_window hs))" "20 \<le> mean_target hs"
  shows "(\<exists>t. target_from_compact (next_bits hs) = Ok t \<and> uval t \<le> 4 * mean_target hs \<and>
      (uval t = limit_value \<or> 2 ^ 15 * (mean_target hs div 4 - uval t) \<le> uval t)) \<and>
    (keeps_pace (lwma_window hs) \<longrightarrow> list_all (\<lambda>h. target_value h = uval v) (drop 1 (lwma_window hs)) \<longrightarrow>
      next_bits hs = target_to_compact v)"
proof -
  let ?avg = "mean_target hs"
  obtain t where t: "uval t = max (min (scaled_target ?avg (nat (mean_solvetime hs))) (4 * ?avg)) (?avg div 4)"
    "next_bits hs = (if uval t = 0 \<or> limit_value < uval t then INITIAL_BITS else target_to_compact t)"
    using next_bits_val [OF assms(1,2)] by blast
  obtain f where f: "target_from_compact INITIAL_BITS = Ok f" "uval f = limit_value" using initial_target by blast
  have le: "?avg div 4 \<le> uval t" "uval t \<le> 4 * ?avg" using t(1) by auto
  have pos: "0 < uval t" using le(1) assms(3) by linarith
  have "\<exists>t'. target_from_compact (next_bits hs) = Ok t' \<and> uval t' \<le> 4 * ?avg \<and>
      (uval t' = limit_value \<or> 2 ^ 15 * (?avg div 4 - uval t') \<le> uval t')"
  proof (cases "limit_value < uval t")
    case True
    then show ?thesis using t(2) f le by (intro exI [of _ f]) simp
  next
    case False
    obtain t' where t': "target_from_compact (target_to_compact t) = Ok t'" "uval t' \<le> uval t"
      "2 ^ 15 * (uval t - uval t') \<le> uval t'" using target_compact_roundtrip [OF pos] by blast
    have "2 ^ 15 * (?avg div 4 - uval t') \<le> 2 ^ 15 * (uval t - uval t')" using le(1) by (intro mult_le_mono2 diff_le_mono)
    then have "2 ^ 15 * (?avg div 4 - uval t') \<le> uval t'" using t'(3) by (rule order_trans)
    then show ?thesis using False pos t(2) t'(1,2) le by (intro exI [of _ t']) auto
  qed
  moreover have "next_bits hs = target_to_compact v"
    if p: "keeps_pace (lwma_window hs)" "list_all (\<lambda>h. target_value h = uval v) (drop 1 (lwma_window hs))"
  proof -
    have a: "?avg = uval v" by (rule mean_target_pace [OF assms(1) p(2)])
    have "uval v \<le> limit_value" using mean_target_le [OF assms(1,2)] a by simp
    then have "uval v * 120 < 2 ^ 256" by (simp add: limit_value_def)
    then have "scaled_target (uval v) 120 = uval v" by (simp add: scaled_target_def)
    then have "uval t = uval v" using t(1) a mean_solvetime_pace [OF assms(1) p(1)] by simp
    then have "t = v" by (simp add: uval_inj)
    then show ?thesis using t(2) pos \<open>uval v \<le> limit_value\<close> by simp
  qed
  ultimately show ?thesis by blast
qed

definition paced_headers :: "block_header list" where
  "paced_headers = [example_header\<lparr>hdr_bits := INITIAL_BITS, hdr_time := 1000\<rparr>,
     example_header\<lparr>hdr_bits := INITIAL_BITS, hdr_time := 1120\<rparr>]"

lemma paced_headers_window: "lwma_window paced_headers = paced_headers"
  by (simp add: lwma_window_def paced_headers_def LWMA_WINDOW_def)

lemma paced_headers_target: "list_all (\<lambda>h. target_value h = limit_value) (drop 1 paced_headers)"
  using initial_target by (auto simp: paced_headers_def target_value_def)

theorem next_bits_moves_slowly_witness:
  "\<exists>f. target_from_compact INITIAL_BITS = Ok f \<and> next_bits paced_headers = target_to_compact f"
proof -
  obtain f where f: "target_from_compact INITIAL_BITS = Ok f" "uval f = limit_value" using initial_target by blast
  have p: "list_all paced (drop 1 (lwma_window paced_headers))"
    unfolding paced_headers_window using f by (simp add: paced_headers_def paced_def)
  have m: "mean_target paced_headers = limit_value"
    by (rule mean_target_pace) (simp_all only: paced_headers_window paced_headers_target, simp add: paced_headers_def)
  have k: "keeps_pace (lwma_window paced_headers)"
    unfolding paced_headers_window by (simp add: paced_headers_def TARGET_BLOCK_SECS_def)
  have "next_bits paced_headers = target_to_compact f"
    using next_bits_moves_slowly [of paced_headers f] p m k f(2) paced_headers_target
    by (simp add: paced_headers_window) (simp add: paced_headers_def limit_value_def)
  then show ?thesis using f(1) by blast
qed

end
