(* ===== verification/Chain.thy ===== *)
theory Chain
  imports Validate Difficulty
begin

text \<open>
  The chain (\<open>src/src/chain.rs\<close>): the index of known blocks, the bodies kept in memory, the active
  chain with its set of unspent outputs and its undo records, connection and disconnection of the tip,
  side branches, reorganizations, rolling finality and the assembly of a candidate block.

  A method that changes the chain returns the new state next to its outcome, since an error may leave
  changes behind. An index read \<open>self.index[&id]\<close> is a \<open>Panic\<close> when the id is absent; the active list
  is never empty (\<open>chain_ok\<close> in the theory of the invariant), so \<open>height\<close> and \<open>tip_id\<close> read it directly.

  Parameters: \<open>mldsa\<close>, the signature library; \<open>pow\<close>, the check of a header's work (the registry of
  verdicts returns what the engine does, see \<open>memoized_check\<close>); \<open>src\<close>, the provider of bodies
  that memory no longer keeps, \<open>\<lambda>_. None\<close> when there is none. A \<open>HashSet\<close> and a \<open>VecDeque\<close> are lists.
\<close>

section \<open>State\<close>

record block_index =
  bi_header :: block_header
  bi_total_work :: U256
  bi_issued :: nat

datatype Accept = Extended | SideBranch | Reorganized nat | AlreadyKnown

datatype ChainError =
    Validation ValidationError
  | UnknownParent hash256
  | ForkPointNotFound nat
  | BeyondFinality nat nat
  | InsufficientWorkForDepth nat
  | UndoWindowTooShort nat nat
  | SideBranchTooEasy nat

definition SIDE_BRANCH_EASE_LIMIT :: nat where
  "SIDE_BRANCH_EASE_LIMIT = 16"

definition SIDE_BODY_BUDGET_BYTES :: nat where
  "SIDE_BODY_BUDGET_BYTES = 64 * 1024 * 1024"

definition MAX_WANTED_ON_DISK :: nat where
  "MAX_WANTED_ON_DISK = 4 * (MAX_REORG_DEPTH + 1)"

definition RETURNED_BLOCKS :: nat where
  "RETURNED_BLOCKS = 12"

definition MAX_STARTUP_ABANDONED :: nat where
  "MAX_STARTUP_ABANDONED = RETURNED_BLOCKS"

definition FINALITY_HOLD_SECS :: nat where
  "FINALITY_HOLD_SECS = 3600"

definition RECENT_TIP_SECS :: nat where
  "RECENT_TIP_SECS = MAX_REORG_DEPTH * TARGET_BLOCK_SECS"

fun default_finality_hold :: "network \<Rightarrow> nat option" where
  "default_finality_hold Regtest = None"
| "default_finality_hold _ = Some FINALITY_HOLD_SECS"

text \<open>
  \<open>Chain\<close>. The undo records are oldest first; \<open>c_recent_since\<close> is an instant of the monotonic clock, in
  nanoseconds. The proof-of-work table, the number of mining threads and the plugged providers are not
  part of the state: they are parameters where they are used.
\<close>

record chain =
  c_network :: network
  c_index :: "(hash256, block_index) hmap"
  c_blocks :: "(hash256, block) hmap"
  c_body_order :: "hash256 list"
  c_body_bytes :: nat
  c_side_bodies :: "(hash256 \<times> nat) list"
  c_side_bytes :: nat
  c_active :: "hash256 list"
  c_utxo :: utxo_set
  c_undos :: "undo_record list"
  c_issued :: nat
  c_disconnected :: "block list"
  c_disconnected_txids :: "hash256 list"
  c_wanted :: "hash256 list"
  c_finality_hold :: "nat option"
  c_recent_since :: "nat option"
  c_held_before :: nat
  c_returning :: bool
  c_bound :: bool

type_synonym body_source = "hash256 \<Rightarrow> block option"
type_synonym pow_engine = "block_header \<Rightarrow> (unit, PowError) result"

fun rmap :: "('a \<Rightarrow> ('b, 'e) result) \<Rightarrow> 'a list \<Rightarrow> ('b list, 'e) result" where
  "rmap f [] = Ok []"
| "rmap f (x # xs) = rbind (f x) (\<lambda>y. rbind (rmap f xs) (\<lambda>ys. Ok (y # ys)))"

definition index_of :: "chain \<Rightarrow> hash256 \<Rightarrow> (block_index, 'e) result" where
  "index_of c bid = (case hget (c_index c) bid of Some b \<Rightarrow> Ok b | None \<Rightarrow> Panic)"

definition lget :: "'a list \<Rightarrow> nat \<Rightarrow> 'a option" where
  "lget xs i = (if i < length xs then Some (xs ! i) else None)"

section \<open>Genesis\<close>

definition GENESIS_MESSAGE :: "byte list" where
  "GENESIS_MESSAGE = str_bytes ''Q21 -- one vote per machine, not per silicon foundry''"

definition GENESIS_TIME :: u64 where
  "GENESIS_TIME = 1755734400"

text \<open>\<open>build_genesis\<close>; \<open>hash\<close> is the hash of the network's table at epoch 0. The cache of \<open>genesis_block\<close>
  returns what this function computes.\<close>

definition genesis_coinbase :: transaction where
  "genesis_coinbase = \<lparr>tx_version = 1, tx_inputs = [txin_coinbase GENESIS_MESSAGE],
     tx_outputs = [\<lparr>out_value = from_units (of_nat GENESIS_PREMINT), out_scheme = MlDsa87,
                    out_pubkey_hash = GENESIS_BENEFICIARY\<rparr>],
     tx_lock_time = 0\<rparr>"

definition build_genesis :: "(block_header \<Rightarrow> hash256) \<Rightarrow> block" where
  "build_genesis hash =
     (let b = \<lparr>blk_header = \<lparr>hdr_version = 1, hdr_prev_block = HASH_ZERO, hdr_merkle_root = HASH_ZERO,
                  hdr_uncles_root = HASH_ZERO, hdr_miner = GENESIS_BENEFICIARY, hdr_time = GENESIS_TIME,
                  hdr_bits = INITIAL_BITS, hdr_height = 0, hdr_nonce = 0\<rparr>,
               blk_transactions = [genesis_coinbase], blk_uncles = []\<rparr>;
          h = (blk_header b)\<lparr>hdr_merkle_root := compute_merkle_root b, hdr_uncles_root := compute_uncles_root b\<rparr>
      in b\<lparr>blk_header := snd (mine_with_table hash h 50000000)\<rparr>)"

definition genesis_id :: "(block_header \<Rightarrow> hash256) \<Rightarrow> hash256" where
  "genesis_id hash = block_id (blk_header (build_genesis hash))"

section \<open>A new chain\<close>

fun genesis_apply :: "transaction list \<Rightarrow> nat \<Rightarrow> utxo_set \<Rightarrow> undo_record \<Rightarrow> (nat \<times> utxo_set \<times> undo_record, unit) result" where
  "genesis_apply [] issued s u = Ok (issued, s, u)"
| "genesis_apply (t # ts) issued s u =
     rbind (add64 issued (case total_output t of Ok a \<Rightarrow> units a | _ \<Rightarrow> 0)) (\<lambda>issued.
       let (s, u) = apply_transaction s t 0 u in genesis_apply ts issued s u)"

definition chain_new :: "network \<Rightarrow> block \<Rightarrow> (chain, unit) result" where
  "chain_new net genesis =
     rbind (genesis_apply (blk_transactions genesis) 0 utxo_new undo_new) (\<lambda>(issued, utxo, undo).
       let bid = block_id (blk_header genesis)
       in Ok \<lparr>c_network = net,
              c_index = hput bid \<lparr>bi_header = blk_header genesis, bi_total_work = block_work (hdr_bits (blk_header genesis)),
                                  bi_issued = issued\<rparr> [],
              c_blocks = hput bid genesis [], c_body_order = [bid], c_body_bytes = length (block_encode genesis),
              c_side_bodies = [], c_side_bytes = 0, c_active = [bid], c_utxo = utxo, c_undos = [undo],
              c_issued = issued, c_disconnected = [], c_disconnected_txids = [], c_wanted = [],
              c_finality_hold = default_finality_hold net, c_recent_since = None, c_held_before = 0,
              c_returning = False, c_bound = False\<rparr>)"

section \<open>Bodies\<close>

definition prune_more :: "nat \<Rightarrow> nat \<Rightarrow> chain \<Rightarrow> bool" where
  "prune_more window budget c \<longleftrightarrow>
     length (c_body_order c) > 1 \<and> (length (c_body_order c) > window \<or> c_body_bytes c > budget)"

definition drop_body :: "chain \<Rightarrow> hash256 \<Rightarrow> chain" where
  "drop_body c bid =
     (case hget (c_blocks c) bid of
        None \<Rightarrow> c
      | Some b \<Rightarrow> c\<lparr>c_blocks := hdel bid (c_blocks c),
                    c_body_bytes := c_body_bytes c - length (block_encode b)\<rparr>)"

text \<open>
  The loop of \<open>prune_bodies\<close>, at most \<open>fuel\<close> turns. Genesis goes back to the end of the queue, so one turn
  more than the queue has entries is enough as long as it is there once (\<open>prune_bodies_ends\<close>).
\<close>

fun prune_loop :: "nat \<Rightarrow> nat \<Rightarrow> nat \<Rightarrow> chain \<Rightarrow> chain" where
  "prune_loop 0 window budget c = c"
| "prune_loop (Suc fuel) window budget c =
     (if prune_more window budget c
      then (case c_body_order c of
              [] \<Rightarrow> c
            | oldest # rest \<Rightarrow>
                prune_loop fuel window budget
                  (if lget (c_active c) 0 = Some oldest then c\<lparr>c_body_order := rest @ [oldest]\<rparr>
                   else drop_body (c\<lparr>c_body_order := rest\<rparr>) oldest))
      else c)"

definition prune_bodies :: "nat \<Rightarrow> nat \<Rightarrow> chain \<Rightarrow> chain" where
  "prune_bodies window budget c = prune_loop (Suc (length (c_body_order c))) window budget c"

text \<open>The weights held are bytes of memory, so their sum stays below \<open>2 ^ 64\<close>.\<close>

definition keep_body :: "chain \<Rightarrow> hash256 \<Rightarrow> block \<Rightarrow> chain" where
  "keep_body c bid b =
     (let weight = length (block_encode b);
          c1 = (case hget (c_blocks c) bid of
                  None \<Rightarrow> c\<lparr>c_body_order := c_body_order c @ [bid], c_body_bytes := c_body_bytes c + weight\<rparr>
                | Some previous \<Rightarrow> c\<lparr>c_body_bytes := sat_add64 (c_body_bytes c - length (block_encode previous)) weight\<rparr>)
      in prune_bodies BODY_WINDOW BODY_BUDGET_BYTES (c1\<lparr>c_blocks := hput bid b (c_blocks c1)\<rparr>))"

section \<open>Reading the chain\<close>

definition chain_height :: "chain \<Rightarrow> nat" where
  "chain_height c = length (c_active c) - 1"

definition tip_id :: "chain \<Rightarrow> hash256" where
  "tip_id c = last (c_active c)"

definition chain_tip :: "chain \<Rightarrow> (block_header, 'e) result" where
  "chain_tip c = rbind (index_of c (tip_id c)) (\<lambda>b. Ok (bi_header b))"

definition total_work :: "chain \<Rightarrow> (U256, 'e) result" where
  "total_work c = rbind (index_of c (tip_id c)) (\<lambda>b. Ok (bi_total_work b))"

definition chain_headers :: "chain \<Rightarrow> (block_header list, 'e) result" where
  "chain_headers c = rmap (\<lambda>bid. rbind (index_of c bid) (\<lambda>b. Ok (bi_header b))) (c_active c)"

definition block_by_id :: "body_source \<Rightarrow> chain \<Rightarrow> hash256 \<Rightarrow> block option" where
  "block_by_id src c bid = (case hget (c_blocks c) bid of Some b \<Rightarrow> Some b | None \<Rightarrow> src bid)"

definition active_at :: "chain \<Rightarrow> nat \<Rightarrow> hash256 option" where
  "active_at c height = lget (c_active c) height"

definition block_at :: "body_source \<Rightarrow> chain \<Rightarrow> nat \<Rightarrow> block option" where
  "block_at src c height = Option.bind (lget (c_active c) height) (block_by_id src c)"

definition header_of :: "chain \<Rightarrow> hash256 \<Rightarrow> block_header option" where
  "header_of c bid = map_option bi_header (hget (c_index c) bid)"

definition has_block :: "chain \<Rightarrow> hash256 \<Rightarrow> bool" where
  "has_block c bid \<longleftrightarrow> hget (c_index c) bid \<noteq> None"

text \<open>The index walks back to at most \<open>n\<close> headers from a block, newest first.\<close>

fun walk_back :: "nat \<Rightarrow> chain \<Rightarrow> hash256 \<Rightarrow> block_header list" where
  "walk_back 0 c current = []"
| "walk_back (Suc n) c current =
     (case hget (c_index c) current of
        None \<Rightarrow> []
      | Some b \<Rightarrow> bi_header b # (if hdr_height (bi_header b) = 0 then [] else walk_back n c (hdr_prev_block (bi_header b))))"

definition next_bits_after :: "chain \<Rightarrow> hash256 \<Rightarrow> u32" where
  "next_bits_after c parent =
     (if c_network c = Regtest then INITIAL_BITS else next_bits (rev (walk_back (LWMA_WINDOW + 1) c parent)))"

definition recent_times_after :: "chain \<Rightarrow> hash256 \<Rightarrow> nat list" where
  "recent_times_after c parent = map (\<lambda>h. unat (hdr_time h)) (rev (walk_back MEDIAN_TIME_SPAN c parent))"

definition recent_times :: "chain \<Rightarrow> (nat list, 'e) result" where
  "recent_times c =
     rmap (\<lambda>bid. rbind (index_of c bid) (\<lambda>b. Ok (unat (hdr_time (bi_header b)))))
       (drop (length (c_active c) - MEDIAN_TIME_SPAN) (c_active c))"

definition recent_ancestors :: "chain \<Rightarrow> hash256 list" where
  "recent_ancestors c = drop (length (c_active c) - (MAX_UNCLE_AGE + 2)) (c_active c)"

definition claimed_uncles :: "body_source \<Rightarrow> chain \<Rightarrow> (hash256 list, ValidationError) result" where
  "claimed_uncles src c =
     (if MAX_UNCLES = 0 then Ok []
      else rbind (rmap (\<lambda>bid. ok_or (block_by_id src c bid) IncompleteHistory) (recent_ancestors c))
             (\<lambda>bs. Ok (concat (map (\<lambda>b. map block_id (blk_uncles b)) bs))))"

definition uncle_expected_bits :: "chain \<Rightarrow> (hash256, u32) hmap" where
  "uncle_expected_bits c = foldl (\<lambda>m bid. hput bid (next_bits_after c bid) m) [] (recent_ancestors c)"

section \<open>The locator\<close>

function locator_loop :: "hash256 list \<Rightarrow> hash256 list \<Rightarrow> nat \<Rightarrow> nat \<Rightarrow> hash256 list" where
  "locator_loop active v step i =
     (let v = v @ [active ! i]
      in if i = 0 \<or> length v \<ge> 64 then v
         else let step = (if length v > 10 then step * 2 else step) in locator_loop active v step (i - step))"
  by auto
termination by (relation "measure (\<lambda>(active, v, step, i). 64 - length v)") auto

declare locator_loop.simps [simp del]

definition locator :: "chain \<Rightarrow> hash256 list" where
  "locator c =
     (let v = locator_loop (c_active c) [] 1 (length (c_active c) - 1)
      in if last v \<noteq> c_active c ! 0 then v @ [c_active c ! 0] else v)"

fun locator_start :: "chain \<Rightarrow> hash256 list \<Rightarrow> nat" where
  "locator_start c [] = 0"
| "locator_start c (bid # ids) =
     (case hget (c_index c) bid of
        None \<Rightarrow> locator_start c ids
      | Some b \<Rightarrow> let h = unat (hdr_height (bi_header b))
                  in if lget (c_active c) h = Some bid then h else locator_start c ids)"

fun headers_loop :: "chain \<Rightarrow> hash256 \<Rightarrow> nat \<Rightarrow> block_header list \<Rightarrow> hash256 list \<Rightarrow> (block_header list, 'e) result" where
  "headers_loop c stop mx v [] = Ok v"
| "headers_loop c stop mx v (bid # ids) =
     rbind (index_of c bid) (\<lambda>b.
       let v = v @ [bi_header b]
       in if length v \<ge> mx \<or> bid = stop then Ok v else headers_loop c stop mx v ids)"

definition headers_from :: "chain \<Rightarrow> hash256 list \<Rightarrow> hash256 \<Rightarrow> nat \<Rightarrow> (block_header list, 'e) result" where
  "headers_from c loc stop mx = headers_loop c stop mx [] (drop (locator_start c loc + 1) (c_active c))"

section \<open>Side branches\<close>

definition is_active :: "chain \<Rightarrow> hash256 \<Rightarrow> bool" where
  "is_active c bid \<longleftrightarrow>
     (case hget (c_index c) bid of
        None \<Rightarrow> False
      | Some b \<Rightarrow> lget (c_active c) (unat (hdr_height (bi_header b))) = Some bid)"

text \<open>The eviction loop of \<open>keep_side_body\<close>, over the queue of side bodies.\<close>

fun evict_side :: "chain \<Rightarrow> (hash256 \<times> nat) list \<Rightarrow> chain" where
  "evict_side c [] = c\<lparr>c_side_bodies := []\<rparr>"
| "evict_side c ((old, weight) # q) =
     (if c_side_bytes c > SIDE_BODY_BUDGET_BYTES
      then let c1 = c\<lparr>c_side_bytes := c_side_bytes c - weight\<rparr>
           in evict_side (if is_active c1 old then c1 else drop_body c1 old) q
      else c\<lparr>c_side_bodies := (old, weight) # q\<rparr>)"

definition keep_side_body :: "chain \<Rightarrow> hash256 \<Rightarrow> nat \<Rightarrow> chain" where
  "keep_side_body c bid sz =
     evict_side (c\<lparr>c_side_bytes := sat_add64 (c_side_bytes c) sz\<rparr>) (c_side_bodies c @ [(bid, sz)])"

definition want_on_disk :: "chain \<Rightarrow> hash256 list \<Rightarrow> chain" where
  "want_on_disk c branch =
     (let wanted = (if sat_add64 (length (c_wanted c)) (length branch) > MAX_WANTED_ON_DISK then [] else c_wanted c)
      in c\<lparr>c_wanted := foldl (\<lambda>w bid. List.insert bid w) wanted branch\<rparr>)"

definition wants_on_disk :: "chain \<Rightarrow> hash256 \<Rightarrow> bool" where
  "wants_on_disk c bid \<longleftrightarrow> bid \<in> set (c_wanted c)"

definition children_of :: "(hash256, block_index) hmap \<Rightarrow> hash256 \<Rightarrow> hash256 list" where
  "children_of ix bid = map fst (filter (\<lambda>(_, b). hdr_prev_block (bi_header b) = bid) ix)"

text \<open>The walk down from what goes: a stack of blocks whose children are still to be marked.\<close>

function forget_loop :: "(hash256, block_index) hmap \<Rightarrow> hash256 list \<Rightarrow> hash256 list \<Rightarrow> hash256 list" where
  "forget_loop ix gone [] = gone"
| "forget_loop ix gone (bid # todo) =
     (let new = filter (\<lambda>ch. ch \<notin> set gone) (children_of ix bid)
      in forget_loop ix (new @ gone) (rev new @ todo))"
  by pat_completeness auto
termination
proof (relation "inv_image (less_than <*lex*> less_than)
    (\<lambda>(ix, gone, todo). (card (set (map fst ix) - set gone), length todo))", intro wf_inv_image wf_lex_prod wf_less_than)
  fix ix :: "(hash256, block_index) hmap" and gone todo :: "hash256 list" and bid new
  assume new: "new = filter (\<lambda>ch. ch \<notin> set gone) (children_of ix bid)"
  let ?K = "set (map fst ix)"
  have sub: "set new \<subseteq> ?K - set gone" by (auto simp: new children_of_def)
  show "((ix, new @ gone, rev new @ todo), (ix, gone, bid # todo))
      \<in> inv_image (less_than <*lex*> less_than) (\<lambda>(ix, gone, todo). (card (set (map fst ix) - set gone), length todo))"
  proof (cases "new = []")
    case False
    then obtain x where "x \<in> set new" by (meson list.set_sel(1))
    then have "x \<in> ?K - set gone" "x \<notin> ?K - set (new @ gone)" using sub by auto
    then have "?K - set (new @ gone) \<subset> ?K - set gone" by (intro psubsetI) auto
    then have "card (?K - set (new @ gone)) < card (?K - set gone)" by (intro psubset_card_mono) auto
    then show ?thesis by simp
  qed simp
qed

definition forget_side :: "chain \<Rightarrow> hash256 list \<Rightarrow> chain" where
  "forget_side c ids =
     (let seeds = remdups (filter (\<lambda>bid. hget (c_index c) bid \<noteq> None \<and> \<not> is_active c bid) ids);
          gone = forget_loop (c_index c) seeds seeds;
          c1 = foldl (\<lambda>c bid. drop_body (c\<lparr>c_index := hdel bid (c_index c)\<rparr>) bid) c gone;
          freed = foldl sat_add64 0 (map snd (filter (\<lambda>(bid, _). bid \<in> set gone) (c_side_bodies c1)))
      in c1\<lparr>c_body_order := filter (\<lambda>bid. bid \<notin> set gone) (c_body_order c1),
            c_side_bodies := filter (\<lambda>(bid, _). bid \<notin> set gone) (c_side_bodies c1),
            c_side_bytes := c_side_bytes c1 - freed\<rparr>)"

text \<open>The bits of the active block a branch forks from, looked for over \<open>n\<close> blocks.\<close>

fun fork_bits :: "nat \<Rightarrow> chain \<Rightarrow> hash256 \<Rightarrow> u32 option" where
  "fork_bits 0 c current = None"
| "fork_bits (Suc n) c current =
     (case hget (c_index c) current of
        None \<Rightarrow> None
      | Some b \<Rightarrow>
          if lget (c_active c) (unat (hdr_height (bi_header b))) = Some current then Some (hdr_bits (bi_header b))
          else if hdr_height (bi_header b) = 0 then None
          else fork_bits n c (hdr_prev_block (bi_header b)))"

definition too_easy_for_side :: "chain \<Rightarrow> hash256 \<Rightarrow> U256 \<Rightarrow> bool" where
  "too_easy_for_side c parent work =
     (case fork_bits (BODY_WINDOW + 2) c parent of
        None \<Rightarrow> False
      | Some bits \<Rightarrow>
          (case u256_checked_mul_u64 work (of_nat SIDE_BRANCH_EASE_LIMIT) of
             Some scaled \<Rightarrow> scaled < block_work bits
           | None \<Rightarrow> False))"

definition side_branch_within :: "chain \<Rightarrow> hash256 \<Rightarrow> nat \<Rightarrow> (bool, 'e) result" where
  "side_branch_within c bid blocks =
     (case hget (c_index c) bid of
        None \<Rightarrow> Ok False
      | Some b \<Rightarrow>
          rbind (chain_tip c) (\<lambda>tip.
            let margin = (case u256_checked_mul_u64 (block_work (hdr_bits tip)) (of_nat blocks) of Some m \<Rightarrow> m | None \<Rightarrow> U256_MAX)
            in case u256_checked_add (bi_total_work b) margin of
                 Some reach \<Rightarrow> rbind (total_work c) (\<lambda>w. Ok (w \<le> reach))
               | None \<Rightarrow> Ok True))"

text \<open>\<open>abandoned_since\<close>: the ids from an old tip back to the active chain, then the bodies that can be read.\<close>

fun abandoned_ids :: "nat \<Rightarrow> chain \<Rightarrow> hash256 \<Rightarrow> hash256 list" where
  "abandoned_ids 0 c current = []"
| "abandoned_ids (Suc n) c current =
     (case header_of c current of
        None \<Rightarrow> []
      | Some h \<Rightarrow> if active_at c (unat (hdr_height h)) = Some current then [] else current # abandoned_ids n c (hdr_prev_block h))"

fun read_while :: "body_source \<Rightarrow> hash256 list \<Rightarrow> block list" where
  "read_while read [] = []"
| "read_while read (bid # ids) = (case read bid of Some b \<Rightarrow> b # read_while read ids | None \<Rightarrow> [])"

definition abandoned_since :: "chain \<Rightarrow> hash256 \<Rightarrow> body_source \<Rightarrow> block list" where
  "abandoned_since c old_tip read = read_while read (rev (abandoned_ids MAX_STARTUP_ABANDONED c old_tip))"

section \<open>Rolling finality\<close>

definition finality_binds :: "chain \<Rightarrow> bool" where
  "finality_binds c \<longleftrightarrow>
     (if chain_height c < last_anchor_height (c_network c) then False
      else if c_finality_hold c \<noteq> None \<and> c_returning c then False
      else c_finality_hold c = None \<or> c_bound c)"

definition note_start :: "chain \<Rightarrow> nat \<Rightarrow> (chain, 'e) result" where
  "note_start c now =
     (if c_finality_hold c \<noteq> None
      then rbind (chain_tip c) (\<lambda>tip.
        if now - unat (hdr_time tip) > RECENT_TIP_SECS then Ok (c\<lparr>c_returning := True, c_held_before := 0\<rparr>) else Ok c)
      else Ok c)"

definition finality_bound_on_record :: "chain \<Rightarrow> bool" where
  "finality_bound_on_record c \<longleftrightarrow> c_finality_hold c = None \<or> c_bound c"

definition bind_finality :: "chain \<Rightarrow> chain" where
  "bind_finality c = c\<lparr>c_bound := True\<rparr>"

text \<open>Whole seconds between two instants in nanoseconds, 0 when the second is earlier.\<close>

definition secs_since :: "nat \<Rightarrow> nat \<Rightarrow> nat" where
  "secs_since at t = (at - t) div 1000000000"

definition held_secs :: "chain \<Rightarrow> nat \<Rightarrow> nat" where
  "held_secs c at = sat_add64 (c_held_before c) (case c_recent_since c of None \<Rightarrow> 0 | Some t \<Rightarrow> secs_since at t)"

definition set_held_before :: "chain \<Rightarrow> nat \<Rightarrow> chain" where
  "set_held_before c secs = c\<lparr>c_held_before := secs\<rparr>"

definition set_finality_hold :: "chain \<Rightarrow> nat option \<Rightarrow> chain" where
  "set_finality_hold c hold = c\<lparr>c_finality_hold := hold\<rparr>"

definition note_live_at :: "chain \<Rightarrow> nat \<Rightarrow> nat \<Rightarrow> (chain \<times> bool, 'e) result" where
  "note_live_at c now at =
     (if finality_binds c then Ok (c, True)
      else let hold = (case c_finality_hold c of Some h \<Rightarrow> h | None \<Rightarrow> 0)
      in rbind (chain_tip c) (\<lambda>tip.
        if now - unat (hdr_time tip) > RECENT_TIP_SECS
        then (case c_recent_since c of
                Some t \<Rightarrow> Ok (c\<lparr>c_recent_since := None, c_held_before := sat_add64 (c_held_before c) (secs_since at t)\<rparr>, False)
              | None \<Rightarrow> Ok (c, False))
        else let since = (case c_recent_since c of Some t \<Rightarrow> t | None \<Rightarrow> at);
                 c1 = c\<lparr>c_recent_since := Some since\<rparr>;
                 held = sat_add64 (c_held_before c1) (secs_since at since);
                 c2 = (if held \<ge> hold then c1\<lparr>c_bound := True, c_returning := False\<rparr> else c1)
             in Ok (c2, finality_binds c2)))"

section \<open>Undo window\<close>

definition undo_window :: "chain \<Rightarrow> nat" where
  "undo_window c = length (c_undos c)"

definition spent_above :: "chain \<Rightarrow> nat \<Rightarrow> (outpoint \<times> hash256) list option" where
  "spent_above c height =
     Option.bind (checked_sub64 (chain_height c) height) (\<lambda>depth.
       if depth > length (c_undos c) then None
       else Some (concat (map (\<lambda>u. map (\<lambda>(op, e). (op, out_pubkey_hash (ue_output e))) (undo_spent u))
                    (take depth (rev (c_undos c))))))"

section \<open>Connecting and disconnecting the tip\<close>

definition connect_context :: "body_source \<Rightarrow> chain \<Rightarrow> nat \<Rightarrow> (block_context, ValidationError) result" where
  "connect_context src c now =
     rbind (recent_times c) (\<lambda>recent.
     rbind (claimed_uncles src c) (\<lambda>claimed.
       Ok \<lparr>ctx_network = c_network c, ctx_height = chain_height c + 1, ctx_prev_id = tip_id c,
           ctx_recent_times = recent,
           ctx_parent_time = map_option (\<lambda>b. unat (hdr_time (bi_header b))) (hget (c_index c) (tip_id c)),
           ctx_expected_bits = next_bits_after c (tip_id c), ctx_now = now,
           ctx_ancestors = recent_ancestors c, ctx_claimed_uncles = claimed,
           ctx_uncle_expected_bits = uncle_expected_bits c, ctx_cumulative_issued = c_issued c\<rparr>))"

definition work_after :: "U256 \<Rightarrow> u32 \<Rightarrow> U256" where
  "work_after parent_work bits =
     (case u256_checked_add parent_work (block_work bits) of Some w \<Rightarrow> w | None \<Rightarrow> parent_work)"

text \<open>What \<open>connect\<close> does once the block is known to be valid.\<close>

definition push_tip :: "chain \<Rightarrow> hash256 \<Rightarrow> undo_record \<Rightarrow> chain" where
  "push_tip c bid undo =
     (let undos = c_undos c @ [undo]
      in c\<lparr>c_active := c_active c @ [bid], c_undos := (if length undos > BODY_WINDOW then tl undos else undos)\<rparr>)"

definition connect_valid :: "chain \<Rightarrow> block \<Rightarrow> amount \<Rightarrow> chain \<times> (amount, ValidationError) result" where
  "connect_valid c b fees =
     (let (utxo, undo) = apply_transactions (c_utxo c) undo_new (chain_height c + 1) (blk_transactions b);
          c1 = c\<lparr>c_utxo := utxo\<rparr>
      in andthen c1 (index_at (blk_transactions b) 0) (\<lambda>first.
         andthen c1 (map_err TransactionError (total_output first)) (\<lambda>coinbase.
         andthen c1 (add64 (c_issued c1) (sat_sub64 (units coinbase) (units fees))) (\<lambda>issued.
           let c2 = c1\<lparr>c_issued := issued\<rparr>; bid = block_id (blk_header b)
           in andthen c2 (index_of c2 (hdr_prev_block (blk_header b))) (\<lambda>parent.
             let entry = \<lparr>bi_header = blk_header b,
                          bi_total_work = work_after (bi_total_work parent) (hdr_bits (blk_header b)), bi_issued = issued\<rparr>;
                 c3 = keep_body (c2\<lparr>c_index := hput bid entry (c_index c2)\<rparr>) bid b
             in (push_tip c3 bid undo, Ok fees))))))"

definition connect ::
  "mldsa_lib \<Rightarrow> pow_engine \<Rightarrow> body_source \<Rightarrow> chain \<Rightarrow> block \<Rightarrow> nat \<Rightarrow> chain \<times> (amount, ValidationError) result" where
  "connect mldsa pow src c b now =
     andthen c (connect_context src c now) (\<lambda>ctx.
     andthen c (check_block mldsa pow b (c_utxo c) ctx) (\<lambda>fees.
       connect_valid c b fees))"

definition disconnect :: "chain \<Rightarrow> chain \<times> (bool, 'e) result" where
  "disconnect c =
     (if length (c_active c) \<le> 1 then (c, Ok False)
      else if c_undos c = [] then (c, Ok False)
      else andthen c (index_of c (c_active c ! (length (c_active c) - 2))) (\<lambda>parent.
        (c\<lparr>c_undos := butlast (c_undos c), c_utxo := utxo_undo (c_utxo c) (last (c_undos c)),
           c_active := butlast (c_active c), c_issued := bi_issued parent\<rparr>, Ok True)))"

section \<open>Fork choice\<close>

fun path_loop :: "nat \<Rightarrow> chain \<Rightarrow> hash256 list \<Rightarrow> hash256 \<Rightarrow> (nat \<times> hash256 list) option" where
  "path_loop 0 c branch current = None"
| "path_loop (Suc n) c branch current =
     (case hget (c_index c) current of
        None \<Rightarrow> None
      | Some idx \<Rightarrow>
          let height = unat (hdr_height (bi_header idx))
          in if lget (c_active c) height = Some current then Some (height, rev branch)
             else if hdr_height (bi_header idx) = 0 then None
             else path_loop n c (branch @ [current]) (hdr_prev_block (bi_header idx)))"

definition path_to_active :: "chain \<Rightarrow> hash256 \<Rightarrow> nat \<Rightarrow> (nat \<times> hash256 list) option" where
  "path_to_active c tip reach = path_loop (sat_add64 reach 1 + 1) c [] tip"

definition reorg_threshold :: "chain \<Rightarrow> nat \<Rightarrow> nat \<Rightarrow> (U256, 'e) result" where
  "reorg_threshold c fork depth =
     rbind (total_work c) (\<lambda>tw.
       let common = (case Option.bind (lget (c_active c) fork) (hget (c_index c)) of
                       Some b \<Rightarrow> bi_total_work b | None \<Rightarrow> U256_ZERO);
           since_fork = (case u256_checked_sub tw common of Some w \<Rightarrow> w | None \<Rightarrow> U256_ZERO)
       in if depth \<le> REORG_PENALTY_FROM_DEPTH then Ok tw
          else let excess = min ((depth - REORG_PENALTY_FROM_DEPTH) * REORG_PENALTY_PCT_PER_BLOCK) REORG_PENALTY_MAX_PCT;
                   surcharged = (case u256_mul_div since_fork (of_nat (100 + excess)) 100 of Some w \<Rightarrow> w | None \<Rightarrow> since_fork)
               in Ok (case u256_checked_add common surcharged of Some w \<Rightarrow> w | None \<Rightarrow> tw))"

definition work_required_for_reorg :: "chain \<Rightarrow> nat \<Rightarrow> nat \<Rightarrow> (U256, 'e) result" where
  "work_required_for_reorg c fork depth = reorg_threshold c fork depth"

definition check_attachment :: "chain \<Rightarrow> block_header \<Rightarrow> (nat, ChainError) result" where
  "check_attachment c h =
     rbind (ok_or (hget (c_index c) (hdr_prev_block h)) (UnknownParent (hdr_prev_block h))) (\<lambda>parent.
       let parent_height = unat (hdr_height (bi_header parent))
       in rbind (add64 parent_height 1) (\<lambda>expected.
            if unat (hdr_height h) \<noteq> expected then Err (Validation (BadHeight expected (unat (hdr_height h))))
            else Ok parent_height))"

definition check_context :: "chain \<Rightarrow> block_header \<Rightarrow> nat \<Rightarrow> nat \<Rightarrow> (unit, ChainError) result" where
  "check_context c h parent_height now =
     (let fork_depth = chain_height c - parent_height
      in if fork_depth > MAX_REORG_DEPTH \<and> finality_binds c then Err (BeyondFinality fork_depth MAX_REORG_DEPTH)
         else let expected = next_bits_after c (hdr_prev_block h)
         in if hdr_bits h \<noteq> expected then Err (Validation (BadDifficulty expected (hdr_bits h)))
            else let recent = recent_times_after c (hdr_prev_block h); time = unat (hdr_time h)
            in rbind (median_time recent) (\<lambda>median.
               if recent \<noteq> [] \<and> time \<le> median then Err (Validation (TimestampTooOld median time))
               else let parent_time = map_option (\<lambda>b. unat (hdr_time (bi_header b))) (hget (c_index c) (hdr_prev_block h))
               in rbind (map_err Validation (check_after_parent (c_network c) (unat (hdr_height h)) parent_time time)) (\<lambda>_.
                  rbind (map_err Validation (check_anchor (c_network c) (unat (hdr_height h)) (block_id h))) (\<lambda>_.
                  rbind (add64 now MAX_FUTURE_TIME) (\<lambda>limit.
                    if time > limit then Err (Validation (TimestampInFuture limit time)) else Ok ())))))"

definition check_work :: "pow_engine \<Rightarrow> block_header \<Rightarrow> (unit, ChainError) result" where
  "check_work pow h = map_err (\<lambda>e. Validation (ProofOfWork e)) (pow h)"

definition check_header :: "pow_engine \<Rightarrow> chain \<Rightarrow> block_header \<Rightarrow> nat \<Rightarrow> (unit, ChainError) result" where
  "check_header pow c h now =
     (if has_block c (block_id h) then Ok ()
      else rbind (check_attachment c h) (\<lambda>parent_height.
           rbind (check_context c h parent_height now) (\<lambda>_. check_work pow h)))"

text \<open>\<open>header_to_prove\<close>: whether there is a work to verify, given the registry.\<close>

definition header_to_prove :: "work_memo \<Rightarrow> chain \<Rightarrow> block_header \<Rightarrow> nat \<Rightarrow> (bool, unit) result" where
  "header_to_prove memo c h now =
     (if has_block c (block_id h) then Ok False
      else case rbind (check_attachment c h) (\<lambda>parent_height. check_context c h parent_height now) of
             Ok _ \<Rightarrow> Ok (memo_verdict memo (block_id h) = None)
           | Err _ \<Rightarrow> Ok False
           | Panic \<Rightarrow> Panic)"

section \<open>Reorganization\<close>

text \<open>The bodies of a list of blocks, or the position of the first one missing.\<close>

fun fetch_bodies :: "body_source \<Rightarrow> chain \<Rightarrow> nat \<Rightarrow> hash256 list \<Rightarrow> (block list, nat) result" where
  "fetch_bodies src c i [] = Ok []"
| "fetch_bodies src c i (bid # ids) =
     (case block_by_id src c bid of
        None \<Rightarrow> Err i
      | Some b \<Rightarrow> rbind (fetch_bodies src c (Suc i) ids) (\<lambda>bs. Ok (b # bs)))"

text \<open>\<open>for _ in 0..depth\<close>, stopping at a refusal.\<close>

fun disconnect_times :: "nat \<Rightarrow> chain \<Rightarrow> chain \<times> (unit, 'e) result" where
  "disconnect_times 0 c = (c, Ok ())"
| "disconnect_times (Suc n) c =
     (case disconnect c of
        (c, Ok True) \<Rightarrow> disconnect_times n c
      | (c, Ok False) \<Rightarrow> (c, Ok ())
      | (c, Err e) \<Rightarrow> (c, Err e)
      | (c, Panic) \<Rightarrow> (c, Panic))"

text \<open>\<open>while self.active.len() > n\<close>, stopping at a refusal: each turn shortens the active chain.\<close>

definition disconnect_to :: "nat \<Rightarrow> chain \<Rightarrow> chain \<times> (unit, 'e) result" where
  "disconnect_to n c = disconnect_times (length (c_active c) - n) c"

fun connect_bodies ::
  "mldsa_lib \<Rightarrow> pow_engine \<Rightarrow> body_source \<Rightarrow> nat \<Rightarrow> chain \<Rightarrow> block list \<Rightarrow> chain \<times> (unit, ValidationError) result" where
  "connect_bodies mldsa pow src now c [] = (c, Ok ())"
| "connect_bodies mldsa pow src now c (b # bs) =
     (case connect mldsa pow src c b now of
        (c, Ok _) \<Rightarrow> connect_bodies mldsa pow src now c bs
      | (c, Err e) \<Rightarrow> (c, Err e)
      | (c, Panic) \<Rightarrow> (c, Panic))"

text \<open>A block of the branch failed with \<open>e\<close>: back to the fork, then the old branch again; when that fails
  too, the fork point is what remains.\<close>

definition roll_back ::
  "mldsa_lib \<Rightarrow> pow_engine \<Rightarrow> body_source \<Rightarrow> nat \<Rightarrow> chain \<Rightarrow> nat \<Rightarrow> block list \<Rightarrow> ValidationError
   \<Rightarrow> chain \<times> (nat, ChainError) result" where
  "roll_back mldsa pow src now c fork old_bodies e =
     (case disconnect_to (fork + 1) c of
        (c, Ok _) \<Rightarrow>
          (case connect_bodies mldsa pow src now c old_bodies of
             (c, Ok _) \<Rightarrow> (c, Err (Validation e))
           | (c, Err _) \<Rightarrow>
               (case disconnect_to (fork + 1) c of
                  (c, Ok _) \<Rightarrow> (c, Err (Validation e))
                | (c, Err e') \<Rightarrow> (c, Err e')
                | (c, Panic) \<Rightarrow> (c, Panic))
           | (c, Panic) \<Rightarrow> (c, Panic))
      | (c, Err e') \<Rightarrow> (c, Err e')
      | (c, Panic) \<Rightarrow> (c, Panic))"

definition note_disconnected :: "chain \<Rightarrow> block list \<Rightarrow> chain" where
  "note_disconnected c old_bodies =
     c\<lparr>c_disconnected_txids := concat (map (\<lambda>b. map txid (blk_transactions b)) old_bodies),
       c_disconnected := drop (length old_bodies - RETURNED_BLOCKS) old_bodies\<rparr>"

text \<open>The switch itself, once every check has passed and the bodies are there.\<close>

definition switch_branch ::
  "mldsa_lib \<Rightarrow> pow_engine \<Rightarrow> body_source \<Rightarrow> nat \<Rightarrow> chain \<Rightarrow> nat \<Rightarrow> nat \<Rightarrow> block list \<Rightarrow> block list
   \<Rightarrow> chain \<times> (nat, ChainError) result" where
  "switch_branch mldsa pow src now c fork depth branch_bodies old_bodies =
     (case disconnect_times depth c of
        (c, Ok _) \<Rightarrow>
          (case connect_bodies mldsa pow src now c branch_bodies of
             (c, Ok _) \<Rightarrow> (note_disconnected c old_bodies, Ok depth)
           | (c, Err e) \<Rightarrow> roll_back mldsa pow src now c fork old_bodies e
           | (c, Panic) \<Rightarrow> (c, Panic))
      | (c, Err e) \<Rightarrow> (c, Err e)
      | (c, Panic) \<Rightarrow> (c, Panic))"

text \<open>The bodies of both branches are fetched before any change; a body missing on the new branch makes it
  forgotten from there on.\<close>

definition fetch_and_switch ::
  "mldsa_lib \<Rightarrow> pow_engine \<Rightarrow> body_source \<Rightarrow> nat \<Rightarrow> chain \<Rightarrow> nat \<Rightarrow> hash256 list \<Rightarrow> nat \<Rightarrow> chain \<times> (nat, ChainError) result" where
  "fetch_and_switch mldsa pow src now c fork branch depth =
     andthen c (slice_from (c_active c) (fork + 1)) (\<lambda>old.
         case fetch_bodies src c 0 branch of
           Err i \<Rightarrow> andthen (want_on_disk c branch) (slice_from branch i) (\<lambda>gone.
             (forget_side (want_on_disk c branch) gone, Err (Validation IncompleteHistory)))
         | Panic \<Rightarrow> (c, Panic)
         | Ok branch_bodies \<Rightarrow>
             (case fetch_bodies src c 0 old of
                Err _ \<Rightarrow> (c, Err (Validation IncompleteHistory))
              | Panic \<Rightarrow> (c, Panic)
              | Ok old_bodies \<Rightarrow> switch_branch mldsa pow src now c fork depth branch_bodies old_bodies))"

definition try_reorg ::
  "mldsa_lib \<Rightarrow> pow_engine \<Rightarrow> body_source \<Rightarrow> chain \<Rightarrow> hash256 \<Rightarrow> nat \<Rightarrow> chain \<times> (nat, ChainError) result" where
  "try_reorg mldsa pow src c new_tip now =
     (let binds = finality_binds c;
          reach = (if binds then MAX_REORG_DEPTH + 1 else BODY_WINDOW + 1)
      in andthen c (ok_or (path_to_active c new_tip reach) (ForkPointNotFound MAX_REORG_DEPTH)) (\<lambda>(fork, branch).
         andthen c (sub64 (length (c_active c)) 1) (\<lambda>top. andthen c (sub64 top fork) (\<lambda>depth.
         if binds \<and> depth > MAX_REORG_DEPTH then (c, Err (BeyondFinality depth MAX_REORG_DEPTH))
            else andthen c (if binds then reorg_threshold c fork depth else total_work c) (\<lambda>required.
                 andthen c (index_of c new_tip) (\<lambda>tip.
                   if bi_total_work tip \<le> required then (c, Err (InsufficientWorkForDepth depth))
                   else if length (c_undos c) < depth then (c, Err (UndoWindowTooShort depth (length (c_undos c))))
                   else fetch_and_switch mldsa pow src now c fork branch depth))))))"

definition take_disconnected :: "chain \<Rightarrow> chain \<times> block list" where
  "take_disconnected c = (c\<lparr>c_disconnected := []\<rparr>, c_disconnected c)"

definition take_disconnected_txids :: "chain \<Rightarrow> chain \<times> hash256 list" where
  "take_disconnected_txids c = (c\<lparr>c_disconnected_txids := []\<rparr>, c_disconnected_txids c)"

section \<open>Submission\<close>

text \<open>The checks of a side block, in order; the result is its total work and its size.\<close>

definition check_side ::
  "pow_engine \<Rightarrow> chain \<Rightarrow> block \<Rightarrow> nat \<Rightarrow> nat \<Rightarrow> (U256 \<times> nat, ChainError) result" where
  "check_side pow c b parent_height now =
     (let h = blk_header b
      in rbind (check_context c h parent_height now) (\<lambda>_.
         rbind (index_of c (hdr_prev_block h)) (\<lambda>parent.
         rbind (total_work c) (\<lambda>ours.
           let work = block_work (hdr_bits h); tw = work_after (bi_total_work parent) (hdr_bits h)
           in if tw \<le> ours \<and> too_easy_for_side c (hdr_prev_block h) work
              then Err (SideBranchTooEasy (unat (hdr_height h)))
              else rbind (map_err (\<lambda>e. Validation (Structure e)) (block_check_shape b)) (\<lambda>_.
                   let sz = length (block_encode b)
                   in if sz > MAX_BLOCK_SIZE then Err (Validation (BlockTooLarge MAX_BLOCK_SIZE sz))
                      else rbind (check_work pow h) (\<lambda>_. Ok (tw, sz)))))))"

definition index_side :: "chain \<Rightarrow> block \<Rightarrow> U256 \<Rightarrow> nat \<Rightarrow> chain" where
  "index_side c b tw sz =
     (let bid = block_id (blk_header b);
          c1 = c\<lparr>c_index := hput bid \<lparr>bi_header = blk_header b, bi_total_work = tw, bi_issued = 0\<rparr> (c_index c)\<rparr>
      in keep_side_body (keep_body c1 bid b) bid sz)"

definition submit ::
  "mldsa_lib \<Rightarrow> pow_engine \<Rightarrow> body_source \<Rightarrow> chain \<Rightarrow> block \<Rightarrow> nat \<Rightarrow> chain \<times> (Accept, ChainError) result" where
  "submit mldsa pow src c b now =
     (let bid = block_id (blk_header b)
      in if has_block c bid then (c, Ok AlreadyKnown)
         else andthen c (check_attachment c (blk_header b)) (\<lambda>parent_height.
           if hdr_prev_block (blk_header b) = tip_id c
           then (case connect mldsa pow src c b now of
                   (c, r) \<Rightarrow> (c, rbind (map_err Validation r) (\<lambda>_. Ok Extended)))
           else andthen c (check_side pow c b parent_height now) (\<lambda>(tw, sz).
             let c1 = index_side c b tw sz
             in andthen c1 (total_work c1) (\<lambda>ours.
               if tw \<le> ours then (c1, Ok SideBranch)
               else case try_reorg mldsa pow src c1 bid now of
                      (c2, r) \<Rightarrow> (c2, rbind r (\<lambda>depth. Ok (Reorganized depth)))))))"

section \<open>A candidate block\<close>

text \<open>\<open>Iterator::sum\<close> of \<open>u64\<close> values: it panics on overflow.\<close>

fun sum64 :: "nat \<Rightarrow> nat list \<Rightarrow> (nat, 'e) result" where
  "sum64 acc [] = Ok acc"
| "sum64 acc (x # xs) = rbind (add64 acc x) (\<lambda>acc. sum64 acc xs)"

definition candidate_value :: "utxo_set \<Rightarrow> (outpoint, nat) hmap \<Rightarrow> outpoint \<Rightarrow> nat option" where
  "candidate_value s created_here op =
     (case utxo_get s op of Some e \<Rightarrow> Some (units (out_value (ue_output e))) | None \<Rightarrow> hget created_here op)"

fun note_created :: "hash256 \<Rightarrow> nat \<Rightarrow> (outpoint, nat) hmap \<Rightarrow> txout list \<Rightarrow> (outpoint, nat) hmap" where
  "note_created tid i m [] = m"
| "note_created tid i m (out # outs) =
     note_created tid (Suc i) (hput \<lparr>op_txid = tid, op_index = of_nat i\<rparr> (units (out_value out)) m) outs"

fun candidate_fees :: "utxo_set \<Rightarrow> nat \<Rightarrow> (outpoint, nat) hmap \<Rightarrow> transaction list \<Rightarrow> (nat, 'e) result" where
  "candidate_fees s fees created_here [] = Ok fees"
| "candidate_fees s fees created_here (t # ts) =
     rbind (sum64 0 (List.map_filter (\<lambda>i. candidate_value s created_here (prev_out i)) (tx_inputs t))) (\<lambda>inputs.
       let outputs = (case total_output t of Ok a \<Rightarrow> units a | _ \<Rightarrow> 0)
       in rbind (add64 fees (inputs - outputs)) (\<lambda>fees.
            candidate_fees s fees (note_created (txid t) 0 created_here (tx_outputs t)) ts))"

definition candidate_coinbase ::
  "nat \<Rightarrow> nat \<Rightarrow> hash256 \<Rightarrow> SchemeId \<Rightarrow> block_header list \<Rightarrow> (transaction, 'e) result" where
  "candidate_coinbase height fees beneficiary scheme uncles =
     (let rewards = uncle_rewards height (length uncles)
      in rbind (add64 (miner_share rewards) fees) (\<lambda>share.
           Ok \<lparr>tx_version = 1, tx_inputs = [txin_coinbase (le_bytes 8 height)],
               tx_outputs = \<lparr>out_value = from_units (of_nat share), out_scheme = scheme, out_pubkey_hash = beneficiary\<rparr> #
                 map (\<lambda>u. \<lparr>out_value = from_units (of_nat (per_uncle rewards)), out_scheme = scheme,
                           out_pubkey_hash = hdr_miner u\<rparr>) uncles,
               tx_lock_time = 0\<rparr>))"

definition candidate_time :: "chain \<Rightarrow> nat \<Rightarrow> nat \<Rightarrow> (nat, 'e) result" where
  "candidate_time c height timestamp =
     rbind (recent_times c) (\<lambda>recent.
     rbind (median_time recent) (\<lambda>median.
     rbind (add64 median 1) (\<lambda>after_median.
       let time = max timestamp after_median
       in if strict_time_at (c_network c) height
          then rbind (chain_tip c) (\<lambda>tip. rbind (add64 (unat (hdr_time tip)) 1) (\<lambda>after_tip. Ok (max time after_tip)))
          else Ok time)))"

definition assemble_candidate ::
  "chain \<Rightarrow> hash256 \<Rightarrow> SchemeId \<Rightarrow> transaction list \<Rightarrow> block_header list \<Rightarrow> nat \<Rightarrow> (block, 'e) result" where
  "assemble_candidate c beneficiary scheme mempool uncles timestamp =
     (let height = chain_height c + 1
      in rbind (candidate_fees (c_utxo c) 0 [] mempool) (\<lambda>fees.
         rbind (candidate_coinbase height fees beneficiary scheme uncles) (\<lambda>coinbase.
         rbind (candidate_time c height timestamp) (\<lambda>time.
           let b = \<lparr>blk_header = \<lparr>hdr_version = 1, hdr_prev_block = tip_id c, hdr_merkle_root = HASH_ZERO,
                       hdr_uncles_root = HASH_ZERO, hdr_miner = beneficiary, hdr_time = of_nat time,
                       hdr_bits = next_bits_after c (tip_id c), hdr_height = of_nat height, hdr_nonce = 0\<rparr>,
                     blk_transactions = coinbase # mempool, blk_uncles = uncles\<rparr>
           in Ok (b\<lparr>blk_header := (blk_header b)\<lparr>hdr_merkle_root := compute_merkle_root b,
                                                  hdr_uncles_root := compute_uncles_root b\<rparr>\<rparr>)))))"

text \<open>\<open>hash\<close> is the hash of the table of the block's epoch.\<close>

definition mine_block_with_uncles ::
  "(block_header \<Rightarrow> hash256) \<Rightarrow> nat \<Rightarrow> chain \<Rightarrow> hash256 \<Rightarrow> SchemeId \<Rightarrow> transaction list \<Rightarrow> block_header list \<Rightarrow> nat \<Rightarrow> nat
   \<Rightarrow> (block option, 'e) result" where
  "mine_block_with_uncles hash threads c beneficiary scheme mempool uncles timestamp max_tries =
     rbind (assemble_candidate c beneficiary scheme mempool uncles timestamp) (\<lambda>b.
       case mine_with_table_parallel hash (blk_header b) max_tries threads of
         (Ok _, h) \<Rightarrow> Ok (Some (b\<lparr>blk_header := h\<rparr>))
       | (Err _, _) \<Rightarrow> Ok None
       | (Panic, _) \<Rightarrow> Panic)"

definition mine_block ::
  "(block_header \<Rightarrow> hash256) \<Rightarrow> nat \<Rightarrow> chain \<Rightarrow> hash256 \<Rightarrow> SchemeId \<Rightarrow> transaction list \<Rightarrow> nat \<Rightarrow> nat
   \<Rightarrow> (block option, 'e) result" where
  "mine_block hash threads c beneficiary scheme mempool timestamp max_tries =
     mine_block_with_uncles hash threads c beneficiary scheme mempool [] timestamp max_tries"

end
