(* ===== verification/Ledger.thy ===== *)
theory Ledger
  imports Validate
begin

text \<open>
  The abstract ledger that a chain of blocks promises: a list of blocks, genesis first, each accepted by
  the rules against the outputs left unspent by the blocks before it (\<open>valid_chain\<close>), and the map of
  unspent outputs that replaying the list gives (\<open>ledger_of\<close>). No state of the node enters it.

  The lemmas show what every such history satisfies, provided the hashes of the blocks
  considered do not collide (\<open>sound_universe\<close>): no transaction id appears twice, no output is created
  again after it was spent, and the money in the ledger never exceeds what was issued.
\<close>

section \<open>Replaying blocks\<close>

type_synonym ledger = "outpoint \<Rightarrow> utxo_entry option"

definition ledger_tx :: "nat \<Rightarrow> transaction \<Rightarrow> ledger \<Rightarrow> ledger" where
  "ledger_tx h t L op =
     (case created_entry (txid t) h (tx_is_coinbase t) 0 (tx_outputs t) op of
        Some e \<Rightarrow> Some e
      | None \<Rightarrow> if \<not> tx_is_coinbase t \<and> op \<in> set (map prev_out (tx_inputs t)) then None else L op)"

definition ledger_txs :: "nat \<Rightarrow> transaction list \<Rightarrow> ledger \<Rightarrow> ledger" where
  "ledger_txs h ts L = foldl (\<lambda>L t. ledger_tx h t L) L ts"

definition ledger_of :: "block list \<Rightarrow> ledger" where
  "ledger_of bs = foldl (\<lambda>L (h, b). ledger_txs h (blk_transactions b) L) Map.empty (List.enumerate 0 bs)"

lemma ledger_of_snoc: "ledger_of (bs @ [b]) = ledger_txs (length bs) (blk_transactions b) (ledger_of bs)"
  by (simp add: ledger_of_def enumerate_append_eq)

lemma ledger_of_single: "ledger_of [b] = ledger_txs 0 (blk_transactions b) Map.empty"
  by (simp add: ledger_of_def)

lemma apply_transaction_ledger: "utxo_get (fst (apply_transaction s t h u)) = ledger_tx h t (utxo_get s)"
  by (rule ext) (simp add: apply_transaction_get ledger_tx_def)

lemma apply_transactions_ledger: "utxo_get (fst (apply_transactions s u h ts)) = ledger_txs h ts (utxo_get s)"
proof (induction ts arbitrary: s u)
  case (Cons t ts)
  obtain s1 u1 where "apply_transaction s t h u = (s1, u1)" by (cases "apply_transaction s t h u")
  then show ?case using Cons [of s1 u1] apply_transaction_ledger [of s t h u] by (simp add: ledger_txs_def)
qed (simp add: ledger_txs_def)

section \<open>The blocks considered\<close>

text \<open>
  What is asked of the hash functions, for the blocks in play: ids of headers and of transactions do
  not collide, nobody has found a header with the id that genesis names as its parent, and there are
  fewer than \<open>2 ^ 62\<close> blocks. The first block carries one coinbase, not marked with a height.
\<close>

definition block_txs :: "block set \<Rightarrow> transaction set" where
  "block_txs U = (\<Union>b \<in> U. set (blk_transactions b))"

definition genesis_ok :: "block \<Rightarrow> bool" where
  "genesis_ok g \<longleftrightarrow> (\<exists>cb. blk_transactions g = [cb] \<and> tx_is_coinbase cb \<and> outs_value (tx_outputs cb) \<le> MAX_SUPPLY \<and>
     (\<forall>h < 2 ^ 62. \<not> starts_with (wit_signature (in_witness (tx_inputs cb ! 0))) (le_bytes 8 h))) \<and>
     hdr_height (blk_header g) = 0"

definition sound_universe :: "block set \<Rightarrow> block \<Rightarrow> bool" where
  "sound_universe U g \<longleftrightarrow> g \<in> U \<and> genesis_ok g \<and> finite U \<and> card U < 2 ^ 62 \<and>
     (\<forall>t \<in> block_txs U. wf_tx t) \<and> inj_on block_id (blk_header ` U) \<and>
     (\<forall>t \<in> block_txs U. \<forall>t' \<in> block_txs U. txid t = txid t' \<longrightarrow> txid_preimage t = txid_preimage t') \<and>
     hdr_prev_block (blk_header g) \<notin> block_id ` blk_header ` U"

lemma universe_tx: "sound_universe U g \<Longrightarrow> t \<in> block_txs U \<Longrightarrow> wf_tx t"
  unfolding sound_universe_def by blast

lemma universe_preimage: "sound_universe U g \<Longrightarrow> t \<in> block_txs U \<Longrightarrow> t' \<in> block_txs U \<Longrightarrow> txid t = txid t' \<Longrightarrow>
    txid_preimage t = txid_preimage t'"
  unfolding sound_universe_def by blast

text \<open>The value a block adds to the money issued, given its fees.\<close>

definition emitted :: "block \<Rightarrow> amount \<Rightarrow> nat" where
  "emitted b fees = outs_value (tx_outputs (blk_transactions b ! 0)) - units fees"

inductive valid_chain :: "mldsa_lib \<Rightarrow> (block_header \<Rightarrow> (unit, PowError) result) \<Rightarrow> block set \<Rightarrow> block \<Rightarrow> block list \<Rightarrow> nat \<Rightarrow> bool"
  for mldsa pow U g where
  genesis: "valid_chain mldsa pow U g [g] (outs_value (tx_outputs (blk_transactions g ! 0)))"
| extend: "valid_chain mldsa pow U g bs issued \<Longrightarrow> utxo_inv s \<Longrightarrow> utxo_get s = ledger_of bs \<Longrightarrow>
    check_block mldsa pow b s ctx = Ok fees \<Longrightarrow> ctx_height ctx = length bs \<Longrightarrow>
    ctx_prev_id ctx = block_id (blk_header (last bs)) \<Longrightarrow> ctx_cumulative_issued ctx = issued \<Longrightarrow> b \<in> U \<Longrightarrow>
    valid_chain mldsa pow U g (bs @ [b]) (issued + emitted b fees)"

inductive_cases valid_chain_nilE: "valid_chain mldsa pow U g [] n"

lemma valid_chain_not_empty: "valid_chain mldsa pow U g bs n \<Longrightarrow> bs \<noteq> []"
  by (auto elim: valid_chain.cases)

lemma valid_chain_hd: "valid_chain mldsa pow U g bs n \<Longrightarrow> bs ! 0 = g"
  by (induction rule: valid_chain.induct) (auto simp: nth_append dest: valid_chain_not_empty)

lemma valid_chain_universe: "valid_chain mldsa pow U g bs n \<Longrightarrow> g \<in> U \<Longrightarrow> set bs \<subseteq> U"
  by (induction rule: valid_chain.induct) auto

section \<open>What the rules of a block give\<close>

lemma check_block_parts:
  assumes "check_block mldsa pow b s ctx = Ok fees"
  shows "\<exists>cb ts. blk_transactions b = cb # ts \<and> tx_is_coinbase cb \<and> (\<forall>t \<in> set ts. \<not> tx_is_coinbase t) \<and>
      check_txs mldsa (ctx_network ctx) (ctx_height ctx) [] 0 (block_view_new s) ts = Ok (units fees) \<and>
      starts_with (wit_signature (in_witness (tx_inputs cb ! 0))) (le_bytes 8 (ctx_height ctx)) \<and>
      outs_value (tx_outputs cb) \<le> block_subsidy (ctx_height ctx) + units fees \<and>
      ctx_cumulative_issued ctx + emitted b fees \<le> MAX_SUPPLY \<and>
      unat (hdr_height (blk_header b)) = ctx_height ctx \<and> hdr_prev_block (blk_header b) = ctx_prev_id ctx"
proof -
  from assms obtain n where c: "check_header_rules pow (blk_header b) ctx = Ok ()" "block_check_shape b = Ok ()"
    "check_txs mldsa (ctx_network ctx) (ctx_height ctx) [] 0 (block_view_new s) (drop 1 (blk_transactions b)) = Ok n"
    "check_uncles pow b ctx = Ok ()" "check_coinbase b ctx n = Ok ()" "fees = from_units (of_nat n)"
    by (auto simp: check_block_def Let_def split: if_splits)
  from c(2) obtain cb ts where t: "blk_transactions b = cb # ts" "tx_is_coinbase cb" "\<forall>t \<in> set ts. \<not> tx_is_coinbase t"
    by (auto simp: block_check_shape_Ok_iff)
  have "n < 2 ^ 64" using c(3) check_txs_bound by fastforce
  then have f: "units fees = n" unfolding c(6) from_units_def units_Amount by (rule unat_of_nat_lt)
  have m: "starts_with (wit_signature (in_witness (tx_inputs cb ! 0))) (le_bytes 8 (ctx_height ctx))"
    using c(5) t(1) by (auto simp: check_coinbase_def Let_def split: if_splits)
  have h: "unat (hdr_height (blk_header b)) = ctx_height ctx" "hdr_prev_block (blk_header b) = ctx_prev_id ctx"
    using c(1) by (auto simp: check_header_rules_def split: if_splits)
  show ?thesis using t c(3) f m h check_coinbase_value [OF c(5,4) t(1)] by (simp add: emitted_def)
qed

lemma valid_chain_headers:
  "valid_chain mldsa pow U g bs n \<Longrightarrow> genesis_ok g \<Longrightarrow> i < length bs \<Longrightarrow>
   unat (hdr_height (blk_header (bs ! i))) = i \<and>
   (0 < i \<longrightarrow> hdr_prev_block (blk_header (bs ! i)) = block_id (blk_header (bs ! (i - 1))))"
proof (induction arbitrary: i rule: valid_chain.induct)
  case genesis
  then show ?case by (simp add: genesis_ok_def)
next
  case (extend bs issued s b ctx fees)
  have ne: "bs \<noteq> []" using extend.hyps(1) by (rule valid_chain_not_empty)
  show ?case
  proof (cases "i < length bs")
    case True
    then show ?thesis using extend.IH extend.prems by (auto simp: nth_append)
  next
    case False
    then have "i = length bs" using extend.prems by simp
    then show ?thesis using check_block_parts [OF extend.hyps(4)] extend.hyps ne by (auto simp: nth_append last_conv_nth)
  qed
qed

lemma valid_chain_distinct:
  assumes "valid_chain mldsa pow U g bs n" "sound_universe U g"
  shows "distinct (map (\<lambda>b. block_id (blk_header b)) bs)" "length bs < 2 ^ 62"
proof -
  have g: "genesis_ok g" "g \<in> U" "finite U" "card U < 2 ^ 62" "inj_on block_id (blk_header ` U)"
    using assms(2) by (auto simp: sound_universe_def)
  have sub: "set bs \<subseteq> U" using valid_chain_universe [OF assms(1) g(2)] .
  have d: "distinct (map blk_header bs)"
    unfolding distinct_conv_nth using valid_chain_headers [OF assms(1) g(1)] by (metis length_map nth_map)
  then have "distinct (map block_id (map blk_header bs))"
    using sub g(5) by (subst distinct_map) (auto intro: inj_on_subset)
  then show "distinct (map (\<lambda>b. block_id (blk_header b)) bs)" by (simp add: comp_def)
  have "length bs = card (set bs)" using d by (simp add: distinct_map distinct_card)
  also have "\<dots> \<le> card U" using sub g(3) by (rule card_mono [rotated])
  finally show "length bs < 2 ^ 62" using g(4) by simp
qed

section \<open>Transaction ids\<close>

definition txids :: "transaction list \<Rightarrow> hash256 set" where
  "txids H = txid ` set H"

lemma txids_simps [simp]: "txids [] = {}" "txids (H @ H') = txids H \<union> txids H'" "txids (t # H) = insert (txid t) (txids H)"
  by (auto simp: txids_def)

text \<open>Transactions with the same preimage spend the same outputs; coinbases also carry the same marker.\<close>

lemma same_preimage:
  assumes "wf_tx t" "wf_tx t'" "txid_preimage t = txid_preimage t'"
  shows "map prev_out (tx_inputs t) = map prev_out (tx_inputs t') \<and> tx_is_coinbase t = tx_is_coinbase t' \<and>
    (tx_is_coinbase t \<longrightarrow>
      wit_signature (in_witness (tx_inputs t ! 0)) = wit_signature (in_witness (tx_inputs t' ! 0)))"
proof -
  let ?r = "\<lambda>t. if tx_is_coinbase t then w_var_bytes (wit_signature (in_witness (tx_inputs t ! 0))) else []"
  have p: "txid_preimage t = encode_without_witness t @ ?r t" for t by (simp add: txid_preimage_def Let_def)
  from encode_without_witness_prefix_free [OF assms(1,2), of "?r t" "?r t'"] assms(3)
  have s: "stripped t = stripped t'" "?r t = ?r t'" unfolding p by blast+
  have m: "map prev_out (tx_inputs t) = map prev_out (tx_inputs t')"
  proof -
    have "map fst (map input_prev (tx_inputs t)) = map fst (map input_prev (tx_inputs t'))"
      using s(1) by (simp only: stripped_def prod.inject)
    then show ?thesis by (simp add: comp_def)
  qed
  then have l: "length (tx_inputs t) = length (tx_inputs t')" by (metis length_map)
  have cb: "tx_is_coinbase t = tx_is_coinbase t'"
  proof (cases "length (tx_inputs t) = 1")
    case True
    then have "prev_out (tx_inputs t ! 0) = prev_out (tx_inputs t' ! 0)" using m l by (metis nth_map zero_less_one)
    then show ?thesis using l by (simp add: tx_is_coinbase_def)
  qed (simp add: tx_is_coinbase_def l)
  moreover have "wit_signature (in_witness (tx_inputs t ! 0)) = wit_signature (in_witness (tx_inputs t' ! 0))"
    if "tx_is_coinbase t"
  proof (rule var_bytes.enc_inj)
    have "tx_inputs t ! 0 \<in> set (tx_inputs t)" "tx_inputs t' ! 0 \<in> set (tx_inputs t')"
      using that cb by (auto simp: tx_is_coinbase_def)
    then show "length (wit_signature (in_witness (tx_inputs t ! 0))) < 2 ^ 64"
      "length (wit_signature (in_witness (tx_inputs t' ! 0))) < 2 ^ 64"
      using assms by (auto simp: wf_tx_def wf_txin_def wf_witness_def)
    show "w_var_bytes (wit_signature (in_witness (tx_inputs t ! 0))) = w_var_bytes (wit_signature (in_witness (tx_inputs t' ! 0)))"
      using s(2) that cb by simp
  qed
  ultimately show ?thesis using m by blast
qed

text \<open>
  A history and the outputs it leaves: ids are distinct, no output is spent twice, every unspent output
  belongs to the history, and what the history spent is gone for good.
\<close>

definition spends :: "transaction list \<Rightarrow> outpoint list" where
  "spends H = concat (map (\<lambda>t. if tx_is_coinbase t then [] else map prev_out (tx_inputs t)) H)"

definition hist_ok :: "transaction list \<Rightarrow> ledger \<Rightarrow> bool" where
  "hist_ok H L \<longleftrightarrow> distinct (map txid H) \<and> distinct (spends H) \<and> (\<forall>op. L op \<noteq> None \<longrightarrow> op_txid op \<in> txids H) \<and>
     (\<forall>t \<in> set H. \<not> tx_is_coinbase t \<longrightarrow>
        (\<forall>i \<in> set (tx_inputs t). L (prev_out i) = None \<and> op_txid (prev_out i) \<in> txids H))"

lemma hist_ok_Nil: "hist_ok [] Map.empty"
  by (simp add: hist_ok_def spends_def)

lemma hist_ok_step:
  assumes "hist_ok H L" "txid t \<notin> txids H" "\<not> tx_is_coinbase t \<Longrightarrow> \<forall>i \<in> set (tx_inputs t). L (prev_out i) \<noteq> None"
    and "\<not> tx_is_coinbase t \<Longrightarrow> distinct (map prev_out (tx_inputs t))"
  shows "hist_ok (H @ [t]) (ledger_tx h t L)"
proof -
  have once: "distinct (spends (H @ [t]))"
  proof (cases "tx_is_coinbase t")
    case True
    then show ?thesis using assms(1) by (simp add: spends_def hist_ok_def)
  next
    case False
    have "L op = None" if "op \<in> set (spends H)" for op
      using assms(1) that by (auto simp: spends_def hist_ok_def split: if_splits)
    then show ?thesis using assms(1,3,4) False by (auto simp: spends_def hist_ok_def)
  qed
  have new: "ledger_tx h t L op \<noteq> None \<Longrightarrow> op_txid op = txid t \<or> L op \<noteq> None" for op
    using created_entry_txid [of "txid t" h "tx_is_coinbase t" 0 "tx_outputs t" op]
    by (auto simp: ledger_tx_def split: option.splits if_splits)
  have gone: "ledger_tx h t L op = None" if "L op = None" "op_txid op \<in> txids H" for op
    using new [of op] that assms(2) by fastforce
  have "ledger_tx h t L (prev_out i) = None \<and> op_txid (prev_out i) \<in> txids H"
    if t': "\<not> tx_is_coinbase t" "i \<in> set (tx_inputs t)" for i
  proof -
    have "op_txid (prev_out i) \<in> txids H" using assms(1,3) t' by (simp add: hist_ok_def)
    moreover from this have "created_entry (txid t) h (tx_is_coinbase t) 0 (tx_outputs t) (prev_out i) = None"
      using created_entry_txid [of "txid t" h "tx_is_coinbase t" 0 "tx_outputs t" "prev_out i"] assms(2)
      by (metis not_None_eq)
    ultimately show ?thesis using t' by (simp add: ledger_tx_def)
  qed
  note spent = this
  show ?thesis unfolding hist_ok_def
  proof (intro conjI allI impI ballI)
    show "distinct (map txid (H @ [t]))" using assms(1,2) by (simp add: hist_ok_def txids_def)
    show "distinct (spends (H @ [t]))" by (rule once)
    show "op_txid op \<in> txids (H @ [t])" if "ledger_tx h t L op \<noteq> None" for op
      using new [OF that] assms(1) by (auto simp: hist_ok_def)
    fix t' i assume t': "t' \<in> set (H @ [t])" "\<not> tx_is_coinbase t'" "i \<in> set (tx_inputs t')"
    have "ledger_tx h t L (prev_out i) = None \<and> op_txid (prev_out i) \<in> txids H"
    proof (cases "t' \<in> set H")
      case True
      then show ?thesis using gone t' assms(1) by (simp add: hist_ok_def)
    qed (use t' spent in simp)
    then show "ledger_tx h t L (prev_out i) = None" "op_txid (prev_out i) \<in> txids (H @ [t])" by simp_all
  qed
qed

lemma fresh_spend:
  assumes "hist_ok H L" "sound_universe U g" "set H \<subseteq> block_txs U" "t \<in> block_txs U"
    and "\<not> tx_is_coinbase t" "tx_inputs t \<noteq> []" "\<forall>i \<in> set (tx_inputs t). L (prev_out i) \<noteq> None"
  shows "txid t \<notin> txids H"
proof
  assume "txid t \<in> txids H"
  then obtain t' where t': "t' \<in> set H" "txid t = txid t'" by (auto simp: txids_def)
  then have u: "t' \<in> block_txs U" using assms(3) by blast
  have "wf_tx t" "wf_tx t'" using universe_tx [OF assms(2)] assms(4) u by blast+
  moreover have "txid_preimage t = txid_preimage t'" by (rule universe_preimage [OF assms(2,4) u t'(2)])
  ultimately have s: "map prev_out (tx_inputs t) = map prev_out (tx_inputs t')" "\<not> tx_is_coinbase t'"
    using same_preimage [of t t'] assms(5) by auto
  obtain i where i: "i \<in> set (tx_inputs t)" using assms(6) by (meson list.set_sel(1))
  then have "prev_out i \<in> set (map prev_out (tx_inputs t))" by simp
  then have "prev_out i \<in> set (map prev_out (tx_inputs t'))" unfolding s(1) .
  then obtain i' where i': "i' \<in> set (tx_inputs t')" "prev_out i' = prev_out i" by auto
  have "L (prev_out i') = None" using assms(1) t'(1) s(2) i'(1) by (simp add: hist_ok_def)
  then have "L (prev_out i) = None" using i'(2) by simp
  then show False using assms(7) i by blast
qed

text \<open>No coinbase of the history carries the marker of a height from \<open>n\<close> on.\<close>

definition coinbase_sig :: "transaction \<Rightarrow> byte list" where
  "coinbase_sig t = wit_signature (in_witness (tx_inputs t ! 0))"

definition unmarked :: "transaction list \<Rightarrow> nat \<Rightarrow> bool" where
  "unmarked H n \<longleftrightarrow> (\<forall>t \<in> set H. tx_is_coinbase t \<longrightarrow>
     (\<forall>h. n \<le> h \<longrightarrow> h < 2 ^ 62 \<longrightarrow> \<not> starts_with (coinbase_sig t) (le_bytes 8 h)))"

lemma marker_unique:
  assumes "starts_with sig (le_bytes 8 h)" "starts_with sig (le_bytes 8 h')" "h < 2 ^ 62" "h' < 2 ^ 62"
  shows "h = h'"
proof (rule le_bytes_inj)
  show "le_bytes 8 h = le_bytes 8 h'" using assms(1,2) by (simp add: starts_with_def)
  show "h < 256 ^ 8" "h' < 256 ^ 8" using assms(3,4) by simp_all
qed

lemma fresh_coinbase:
  assumes "unmarked H n" "sound_universe U g" "set H \<subseteq> block_txs U" "t \<in> block_txs U"
    and "tx_is_coinbase t" "starts_with (coinbase_sig t) (le_bytes 8 n)" "n < 2 ^ 62"
  shows "txid t \<notin> txids H"
proof
  assume "txid t \<in> txids H"
  then obtain t' where t': "t' \<in> set H" "txid t = txid t'" by (auto simp: txids_def)
  then have u: "t' \<in> block_txs U" using assms(3) by blast
  have "wf_tx t" "wf_tx t'" using universe_tx [OF assms(2)] assms(4) u by blast+
  moreover have "txid_preimage t = txid_preimage t'" by (rule universe_preimage [OF assms(2,4) u t'(2)])
  ultimately have "tx_is_coinbase t'" "coinbase_sig t = coinbase_sig t'"
    using same_preimage [of t t'] assms(5) by (auto simp: coinbase_sig_def)
  then show False using assms(1,6,7) t'(1) by (auto simp: unmarked_def)
qed

text \<open>The transactions of a block, one after the other, each validated against the view.\<close>

lemma check_txs_hist:
  "check_txs mldsa net h seen fees v ts = Ok fees' \<Longrightarrow> mirrors v s \<Longrightarrow> hist_ok H (utxo_get s) \<Longrightarrow>
   (\<And>t. t \<in> set ts \<Longrightarrow> \<not> tx_is_coinbase t) \<Longrightarrow> sound_universe U g \<Longrightarrow> set H \<subseteq> block_txs U \<Longrightarrow> set ts \<subseteq> block_txs U \<Longrightarrow>
   hist_ok (H @ ts) (ledger_txs h ts (utxo_get s))"
proof (induction ts arbitrary: seen fees v s H)
  case Nil
  then show ?case by (simp add: ledger_txs_def)
next
  case (Cons t ts)
  from Cons.prems(1) obtain f seen' fees1 where c: "check_transaction mldsa t (bv_view v) net h seen = Ok (f, seen')"
    "check_txs mldsa net h seen' fees1 (bv_apply v t h) ts = Ok fees'"
    by (auto split: prod.splits)
  note k = c(1) [unfolded check_transaction_iff]
  have nc: "\<not> tx_is_coinbase t" using Cons.prems(4) by simp
  have ne: "tx_inputs t \<noteq> []" using k by (auto simp: tx_check_shape_def)
  have ins: "\<forall>i \<in> set (tx_inputs t). utxo_get s (prev_out i) \<noteq> None"
  proof
    fix i assume "i \<in> set (tx_inputs t)"
    then obtain e where "bv_lookup v (prev_out i) = Some e"
      using k unfolding in_set_conv_nth input_ok_def bv_view_def by auto
    then show "utxo_get s (prev_out i) \<noteq> None" using Cons.prems(2) by (simp add: mirrors_def)
  qed
  have fr: "txid t \<notin> txids H"
    using fresh_spend [OF Cons.prems(3,5,6) _ nc ne ins] Cons.prems(7) by simp
  have h1: "hist_ok (H @ [t]) (ledger_tx h t (utxo_get s))"
    by (rule hist_ok_step [OF Cons.prems(3) fr ins]) (use k in blast)
  obtain s1 u1 where a: "apply_transaction s t h undo_new = (s1, u1)" by (cases "apply_transaction s t h undo_new")
  then have g1: "utxo_get s1 = ledger_tx h t (utxo_get s)" using apply_transaction_ledger [of s t h undo_new] by simp
  have m1: "mirrors (bv_apply v t h) s1" using mirrors_apply [OF Cons.prems(2) nc, of h undo_new] a by simp
  have "hist_ok ((H @ [t]) @ ts) (ledger_txs h ts (utxo_get s1))"
    by (rule Cons.IH [OF c(2) m1]) (use h1 g1 Cons.prems in auto)
  then show ?case using g1 by (simp add: ledger_txs_def)
qed

lemma accepted_block_hist:
  assumes "check_block mldsa pow b s ctx = Ok fees" "utxo_inv s" "hist_ok H (utxo_get s)" "unmarked H (ctx_height ctx)"
    and "ctx_height ctx < 2 ^ 62" "b \<in> U" "set H \<subseteq> block_txs U" "sound_universe U g"
  shows "hist_ok (H @ blk_transactions b) (ledger_txs (ctx_height ctx) (blk_transactions b) (utxo_get s)) \<and>
    unmarked (H @ blk_transactions b) (Suc (ctx_height ctx)) \<and>
    utxo_sum (fst (apply_transactions s undo_new (ctx_height ctx) (blk_transactions b))) \<le> utxo_sum s + emitted b fees"
proof -
  let ?h = "ctx_height ctx"
  obtain cb ts where p: "blk_transactions b = cb # ts" "tx_is_coinbase cb" "\<forall>t \<in> set ts. \<not> tx_is_coinbase t"
    "check_txs mldsa (ctx_network ctx) ?h [] 0 (block_view_new s) ts = Ok (units fees)"
    "starts_with (coinbase_sig cb) (le_bytes 8 ?h)"
    using check_block_parts [OF assms(1)] by (auto simp: coinbase_sig_def)
  have "set (blk_transactions b) \<subseteq> block_txs U" using assms(6) by (auto simp: block_txs_def)
  then have u: "cb \<in> block_txs U" "set ts \<subseteq> block_txs U" using p(1) by auto
  have fr: "txid cb \<notin> txids H" by (rule fresh_coinbase [OF assms(4,8,7) u(1) p(2,5) assms(5)])
  have new: "utxo_get s \<lparr>op_txid = txid cb, op_index = i\<rparr> = None" for i
    using assms(3) fr unfolding hist_ok_def by fastforce
  obtain s1 u1 where a: "apply_transaction s cb ?h undo_new = (s1, u1)" by (cases "apply_transaction s cb ?h undo_new")
  have m1: "mirrors (block_view_new s) s1" using mirrors_coinbase [of s cb ?h undo_new] new p(2) a by simp
  have g1: "utxo_get s1 = ledger_tx ?h cb (utxo_get s)" using apply_transaction_ledger [of s cb ?h undo_new] a by simp
  have h1: "hist_ok (H @ [cb]) (utxo_get s1)"
    unfolding g1 by (rule hist_ok_step [OF assms(3) fr]) (use p(2) in simp_all)
  have "hist_ok ((H @ [cb]) @ ts) (ledger_txs ?h ts (utxo_get s1))"
    by (rule check_txs_hist [OF p(4) m1 h1 _ assms(8)]) (use p(3) u assms(7) in auto)
  then have h2: "hist_ok (H @ blk_transactions b) (ledger_txs ?h (blk_transactions b) (utxo_get s))"
    using p(1) g1 by (simp add: ledger_txs_def)
  have "\<not> starts_with (coinbase_sig cb) (le_bytes 8 k)" if "Suc ?h \<le> k" "k < 2 ^ 62" for k
    using marker_unique [OF p(5)] that assms(5) by fastforce
  then have "unmarked (H @ blk_transactions b) (Suc ?h)"
    using assms(4) p(1,3) by (auto simp: unmarked_def)
  moreover have "utxo_sum (fst (apply_transactions s undo_new ?h (blk_transactions b))) \<le> utxo_sum s + emitted b fees"
  proof -
    have "emitted b fees = outs_value (tx_outputs cb) - units fees" using p(1) by (simp add: emitted_def)
    then show ?thesis using accepted_block_value [OF assms(2,1) p(1) new] by linarith
  qed
  ultimately show ?thesis using h2 by blast
qed

section \<open>Valid histories\<close>

definition history :: "block list \<Rightarrow> transaction list" where
  "history bs = concat (map blk_transactions bs)"

lemma history_simps [simp]: "history [] = []" "history (b # bs) = blk_transactions b @ history bs"
  "history (bs @ bs') = history bs @ history bs'"
  by (simp_all add: history_def)

lemma history_universe: "set bs \<subseteq> U \<Longrightarrow> set (history bs) \<subseteq> block_txs U"
  by (auto simp: history_def block_txs_def)

text \<open>\<open>backed L n\<close>: a set that holds exactly \<open>L\<close> is worth at most \<open>n\<close>.\<close>

definition backed :: "ledger \<Rightarrow> nat \<Rightarrow> bool" where
  "backed L n \<longleftrightarrow> (\<forall>s. utxo_inv s \<longrightarrow> utxo_get s = L \<longrightarrow> utxo_sum s \<le> n)"

lemma same_get_sum: "utxo_inv s \<Longrightarrow> utxo_inv s' \<Longrightarrow> utxo_get s = utxo_get s' \<Longrightarrow> utxo_sum s = utxo_sum s'"
  unfolding utxo_sum_def by (metis same_get_mset mset_map sum_mset_sum_list)

lemma utxo_get_new: "utxo_get utxo_new = Map.empty"
  by (simp add: utxo_get_def utxo_new_def fun_eq_iff)

lemma genesis_hist:
  assumes "genesis_ok g"
  shows "hist_ok (history [g]) (ledger_of [g])" "unmarked (history [g]) 0"
    "backed (ledger_of [g]) (outs_value (tx_outputs (blk_transactions g ! 0)))"
proof -
  from assms obtain cb where cb: "blk_transactions g = [cb]" "tx_is_coinbase cb"
    "\<forall>h < 2 ^ 62. \<not> starts_with (coinbase_sig cb) (le_bytes 8 h)"
    by (auto simp: genesis_ok_def coinbase_sig_def)
  have L: "ledger_of [g] = ledger_tx 0 cb Map.empty" using cb(1) by (simp add: ledger_of_single ledger_txs_def)
  show "hist_ok (history [g]) (ledger_of [g])"
    using hist_ok_step [OF hist_ok_Nil, of cb 0] cb L by simp
  show "unmarked (history [g]) 0" using cb by (simp add: unmarked_def)
  obtain s1 u1 where a: "apply_transaction utxo_new cb 0 undo_new = (s1, u1)" by (cases "apply_transaction utxo_new cb 0 undo_new")
  have g1: "utxo_get s1 = ledger_of [g]"
    using apply_transaction_ledger [of utxo_new cb 0 undo_new] a L
    by (simp add: utxo_get_new)
  have i1: "utxo_inv s1" using utxo_inv_apply [OF utxo_inv_new, of cb 0 undo_new] a by simp
  have "utxo_sum s1 \<le> outs_value (tx_outputs cb)"
    using apply_value [OF utxo_inv_new a] by (simp add: spent_value_def undo_new_def utxo_sum_def utxo_new_def)
  then show "backed (ledger_of [g]) (outs_value (tx_outputs (blk_transactions g ! 0)))"
    using same_get_sum [OF _ i1] g1 cb(1) by (auto simp: backed_def)
qed

lemma valid_chain_hist:
  assumes "valid_chain mldsa pow U g bs n" "sound_universe U g"
  shows "hist_ok (history bs) (ledger_of bs) \<and> unmarked (history bs) (length bs) \<and> backed (ledger_of bs) n \<and> n \<le> MAX_SUPPLY"
  using assms(1)
proof (induction rule: valid_chain.induct)
  case genesis
  have g: "genesis_ok g" using assms(2) by (simp add: sound_universe_def)
  then have "outs_value (tx_outputs (blk_transactions g ! 0)) \<le> MAX_SUPPLY" by (auto simp: genesis_ok_def)
  then show ?case using genesis_hist [OF g] by (auto simp: unmarked_def)
next
  case (extend bs issued s b ctx fees)
  have g: "g \<in> U" using assms(2) by (simp add: sound_universe_def)
  have len: "length bs < 2 ^ 62" by (rule valid_chain_distinct(2) [OF extend.hyps(1) assms(2)])
  have sub: "set (history bs) \<subseteq> block_txs U" using history_universe valid_chain_universe [OF extend.hyps(1) g] by blast
  let ?a = "apply_transactions s undo_new (length bs) (blk_transactions b)"
  note b = accepted_block_hist [OF extend.hyps(4,2), unfolded extend.hyps(3,5), OF _ _ len extend.hyps(8) sub assms(2)]
  have l: "ledger_of (bs @ [b]) = ledger_txs (length bs) (blk_transactions b) (ledger_of bs)" by (rule ledger_of_snoc)
  have g1: "utxo_get (fst ?a) = ledger_of (bs @ [b])" unfolding l apply_transactions_ledger extend.hyps(3) ..
  have i1: "utxo_inv (fst ?a)" by (rule utxo_inv_apply_all [OF extend.hyps(2)])
  have "utxo_sum s \<le> issued" using extend.IH extend.hyps(2,3) by (simp add: backed_def)
  then have "utxo_sum (fst ?a) \<le> issued + emitted b fees" using b extend.IH by simp
  then have "backed (ledger_of (bs @ [b])) (issued + emitted b fees)"
    using same_get_sum [OF _ i1] g1 by (auto simp: backed_def)
  moreover have "issued + emitted b fees \<le> MAX_SUPPLY"
    using check_block_parts [OF extend.hyps(4)] extend.hyps(7) by auto
  ultimately show ?case using b extend.IH l by simp
qed

text \<open>The undo record of an accepted block takes any set that holds the new ledger back to the old one.\<close>

definition restores :: "undo_record \<Rightarrow> ledger \<Rightarrow> ledger \<Rightarrow> bool" where
  "restores u L' L \<longleftrightarrow> (\<forall>s. utxo_inv s \<longrightarrow> utxo_get s = L' \<longrightarrow> utxo_get (utxo_undo s u) = L)"

lemma created_txids:
  "apply_transactions s u h ts = (s', u') \<Longrightarrow> op \<in> set (undo_created u') \<Longrightarrow>
   op \<in> set (undo_created u) \<or> op_txid op \<in> txids ts"
proof (induction ts arbitrary: s u)
  case (Cons t ts)
  obtain s1 u1 where a: "apply_transaction s t h u = (s1, u1)" by (cases "apply_transaction s t h u")
  have cr: "op \<in> set (undo_created (snd (create_outputs tid h c i s u outs))) \<Longrightarrow>
      op \<in> set (undo_created u) \<or> op_txid op = tid" for tid c i s u outs
  proof (induction outs arbitrary: i s u)
    case (Cons out outs)
    from Cons.IH [OF Cons.prems [unfolded create_outputs.simps Let_def]] show ?case by auto
  qed simp
  have sp: "undo_created (snd (spend_inputs s u is)) = undo_created u" for s u "is"
    by (induction "is" arbitrary: s u) (auto split: prod.splits option.splits)
  obtain s0 u0 where b: "(if tx_is_coinbase t then (s, u) else spend_inputs s u (tx_inputs t)) = (s0, u0)"
    by (cases "if tx_is_coinbase t then (s, u) else spend_inputs s u (tx_inputs t)")
  have u0: "undo_created u0 = undo_created u" using b sp [of s u "tx_inputs t"] by (auto split: if_splits)
  have "u1 = snd (create_outputs (txid t) h (tx_is_coinbase t) 0 s0 u0 (tx_outputs t))"
    using a b by (simp add: apply_transaction_def)
  then have "op \<in> set (undo_created u1) \<Longrightarrow> op \<in> set (undo_created u) \<or> op_txid op = txid t"
    using cr [of "txid t" "tx_is_coinbase t" 0 s0 u0 "tx_outputs t"] u0 by simp
  then show ?case using Cons.IH [of s1 u1] Cons.prems a by auto
qed simp

lemma accepted_block_restores:
  assumes "valid_chain mldsa pow U g bs n" "sound_universe U g" "valid_chain mldsa pow U g (bs @ [b]) n'"
    and "utxo_inv s" "utxo_get s = ledger_of bs" "apply_transactions s undo_new (length bs) (blk_transactions b) = (s', u)"
  shows "restores u (ledger_of (bs @ [b])) (ledger_of bs)"
  unfolding restores_def
proof (intro allI impI)
  fix s2 assume s2: "utxo_inv s2" "utxo_get s2 = ledger_of (bs @ [b])"
  have g': "utxo_get s' = ledger_of (bs @ [b])"
    using apply_transactions_ledger [of s undo_new "length bs" "blk_transactions b"] assms(5,6) by (simp add: ledger_of_snoc)
  have "tracks s s' u" by (rule tracks_block [OF tracks_new assms(6)])
  then have t2: "tracks s s2 u" using s2(2) g' by (simp add: tracks_def)
  have H: "hist_ok (history bs) (ledger_of bs)" "distinct (map txid (history (bs @ [b])))"
    using valid_chain_hist [OF assms(1,2)] valid_chain_hist [OF assms(3,2)] by (auto simp: hist_ok_def)
  have "utxo_get s op = None" if "op \<in> set (undo_created u)" for op
  proof -
    have "op_txid op \<in> txids (blk_transactions b)" using created_txids [OF assms(6) that] by (simp add: undo_new_def)
    then have "op_txid op \<notin> txids (history bs)" using H(2) by (auto simp: txids_def)
    then show ?thesis using H(1) assms(5) by (auto simp: hist_ok_def)
  qed
  then have "utxo_get (utxo_undo s2 u) = utxo_get s" by (rule utxo_undo_get [OF t2])
  then show "utxo_get (utxo_undo s2 u) = ledger_of bs" using assms(5) by simp
qed

end
