(* ===== verification/ChainInv.thy ===== *)
theory ChainInv
  imports Chain Ledger "HOL-Library.Sublist"
begin

text \<open>
  The invariant of the chain (\<open>chain_ok\<close>) and its preservation by every operation of
  \<open>src/src/chain.rs\<close>: the active chain is a valid history of the abstract ledger, the set of unspent outputs
  is what replaying it gives, every undo record kept takes the set one block back, the index is a tree
  rooted at genesis whose work adds up, and the bodies in memory are those of their ids.
\<close>

abbreviation bid_of :: "block \<Rightarrow> hash256" where
  "bid_of b \<equiv> block_id (blk_header b)"

section \<open>Frames\<close>

text \<open>What bookkeeping of bodies leaves alone.\<close>

definition same_core :: "chain \<Rightarrow> chain \<Rightarrow> bool" where
  "same_core c c' \<longleftrightarrow> c_network c' = c_network c \<and> c_index c' = c_index c \<and> c_active c' = c_active c \<and>
     c_utxo c' = c_utxo c \<and> c_undos c' = c_undos c \<and> c_issued c' = c_issued c \<and>
     c_finality_hold c' = c_finality_hold c \<and> c_returning c' = c_returning c \<and> c_bound c' = c_bound c"

lemma same_core_refl [simp]: "same_core c c"
  by (simp add: same_core_def)

lemma same_core_trans: "same_core c c' \<Longrightarrow> same_core c' c'' \<Longrightarrow> same_core c c''"
  by (simp add: same_core_def)

lemma same_core_simps:
  "same_core c c' \<Longrightarrow> c_network c' = c_network c" "same_core c c' \<Longrightarrow> c_index c' = c_index c"
  "same_core c c' \<Longrightarrow> c_active c' = c_active c" "same_core c c' \<Longrightarrow> c_utxo c' = c_utxo c"
  "same_core c c' \<Longrightarrow> c_undos c' = c_undos c" "same_core c c' \<Longrightarrow> c_issued c' = c_issued c"
  by (simp_all add: same_core_def)

lemma same_core_updates [simp]:
  "same_core c (c\<lparr>c_body_order := x\<rparr>)" "same_core c (c\<lparr>c_body_bytes := n\<rparr>)" "same_core c (c\<lparr>c_blocks := m\<rparr>)"
  "same_core c (c\<lparr>c_side_bodies := q\<rparr>)" "same_core c (c\<lparr>c_side_bytes := n\<rparr>)" "same_core c (c\<lparr>c_wanted := w\<rparr>)"
  by (simp_all add: same_core_def)

lemma same_core_drop_body [simp]: "same_core c (drop_body c bid)"
  by (simp add: drop_body_def same_core_def split: option.split)

text \<open>Bodies in memory only ever disappear, but for the one stored.\<close>

definition fewer_bodies :: "chain \<Rightarrow> chain \<Rightarrow> bool" where
  "fewer_bodies c c' \<longleftrightarrow> (\<forall>k b. hget (c_blocks c') k = Some b \<longrightarrow> hget (c_blocks c) k = Some b)"

lemma fewer_refl [simp]: "fewer_bodies c c"
  by (simp add: fewer_bodies_def)

lemma fewer_trans: "fewer_bodies c c' \<Longrightarrow> fewer_bodies c' c'' \<Longrightarrow> fewer_bodies c c''"
  by (simp add: fewer_bodies_def)

lemma fewer_drop_body [simp]: "fewer_bodies c (drop_body c bid)"
  by (auto simp: drop_body_def fewer_bodies_def split: option.splits if_splits)

lemma fewer_updates [simp]:
  "fewer_bodies c (c\<lparr>c_body_order := x\<rparr>)" "fewer_bodies c (c\<lparr>c_body_bytes := n\<rparr>)"
  "fewer_bodies c (c\<lparr>c_side_bodies := q\<rparr>)" "fewer_bodies c (c\<lparr>c_side_bytes := n\<rparr>)"
  "fewer_bodies c (c\<lparr>c_index := ix\<rparr>)" "fewer_bodies c (c\<lparr>c_wanted := w\<rparr>)"
  by (simp_all add: fewer_bodies_def)

lemma prune_loop_frame: "same_core c (prune_loop n w bu c) \<and> fewer_bodies c (prune_loop n w bu c)"
proof (induction n arbitrary: c)
  case (Suc n)
  show ?case
  proof (cases "prune_more w bu c \<and> c_body_order c \<noteq> []")
    case True
    then obtain old rest where o: "c_body_order c = old # rest" by (cases "c_body_order c") auto
    let ?c = "if lget (c_active c) 0 = Some old then c\<lparr>c_body_order := rest @ [old]\<rparr> else drop_body (c\<lparr>c_body_order := rest\<rparr>) old"
    have "same_core c ?c" "fewer_bodies c ?c"
      using same_core_trans [of c "c\<lparr>c_body_order := rest\<rparr>"] fewer_trans [of c "c\<lparr>c_body_order := rest\<rparr>"] by simp_all
    then have "same_core c (prune_loop n w bu ?c) \<and> fewer_bodies c (prune_loop n w bu ?c)"
      using Suc [of ?c] same_core_trans fewer_trans by blast
    moreover have "prune_loop (Suc n) w bu c = prune_loop n w bu ?c" using True o by (simp only: prune_loop.simps list.case if_True)
    ultimately show ?thesis by (simp only:)
  next
    case False
    then show ?thesis by (auto split: list.split)
  qed
qed simp

lemma keep_body_frame: "same_core c (keep_body c bid b) \<and>
    (\<forall>k b'. hget (c_blocks (keep_body c bid b)) k = Some b' \<longrightarrow> (k = bid \<and> b' = b) \<or> hget (c_blocks c) k = Some b')"
proof -
  let ?c1 = "case hget (c_blocks c) bid of
       None \<Rightarrow> c\<lparr>c_body_order := c_body_order c @ [bid], c_body_bytes := c_body_bytes c + length (block_encode b)\<rparr>
     | Some previous \<Rightarrow> c\<lparr>c_body_bytes := sat_add64 (c_body_bytes c - length (block_encode previous)) (length (block_encode b))\<rparr>"
  let ?c2 = "?c1\<lparr>c_blocks := hput bid b (c_blocks ?c1)\<rparr>"
  have k: "keep_body c bid b = prune_loop (Suc (length (c_body_order ?c2))) BODY_WINDOW BODY_BUDGET_BYTES ?c2"
    by (simp add: keep_body_def Let_def prune_bodies_def)
  have s: "same_core c ?c2" by (simp add: same_core_def split: option.split)
  have bl: "c_blocks ?c2 = hput bid b (c_blocks c)" by (simp split: option.split)
  define d where "d = prune_loop (Suc (length (c_body_order ?c2))) BODY_WINDOW BODY_BUDGET_BYTES ?c2"
  have "same_core ?c2 d" "fewer_bodies ?c2 d" unfolding d_def by (simp_all only: prune_loop_frame)
  then have "same_core c d" "\<And>k b'. hget (c_blocks d) k = Some b' \<Longrightarrow> (k = bid \<and> b' = b) \<or> hget (c_blocks c) k = Some b'"
    using same_core_trans [OF s] unfolding fewer_bodies_def bl by (auto split: if_splits)
  then show ?thesis unfolding k d_def by blast
qed

lemma evict_side_frame: "same_core c (evict_side c q) \<and> fewer_bodies c (evict_side c q)"
proof (induction c q rule: evict_side.induct)
  case (2 c old weight q)
  let ?c1 = "c\<lparr>c_side_bytes := c_side_bytes c - weight\<rparr>"
  let ?c2 = "if is_active ?c1 old then ?c1 else drop_body ?c1 old"
  show ?case
  proof (cases "c_side_bytes c > SIDE_BODY_BUDGET_BYTES")
    case True
    have "same_core c ?c2" "fewer_bodies c ?c2"
      using same_core_trans [of c ?c1] fewer_trans [of c ?c1] by simp_all
    moreover have "same_core ?c2 (evict_side ?c2 q)" "fewer_bodies ?c2 (evict_side ?c2 q)" using 2 True by simp_all
    moreover have "evict_side c ((old, weight) # q) = evict_side ?c2 q" using True by (simp only: evict_side.simps Let_def if_True)
    ultimately show ?thesis using same_core_trans [of c ?c2 "evict_side ?c2 q"] fewer_trans [of c ?c2 "evict_side ?c2 q"]
      by (simp only: simp_thms)
  qed simp
qed simp

lemma keep_side_body_frame: "same_core c (keep_side_body c bid sz) \<and> fewer_bodies c (keep_side_body c bid sz)"
proof -
  let ?c = "c\<lparr>c_side_bytes := sat_add64 (c_side_bytes c) sz\<rparr>"
  show ?thesis unfolding keep_side_body_def
    using evict_side_frame [of ?c "c_side_bodies c @ [(bid, sz)]"] same_core_trans [of c ?c] fewer_trans [of c ?c] by simp
qed

section \<open>The invariant\<close>

text \<open>The undo records, newest first, each take the ledger one block back.\<close>

fun undo_ok :: "undo_record list \<Rightarrow> block list \<Rightarrow> bool" where
  "undo_ok [] bs \<longleftrightarrow> True"
| "undo_ok (u # us) bs \<longleftrightarrow> bs \<noteq> [] \<and> restores u (ledger_of bs) (ledger_of (butlast bs)) \<and> undo_ok us (butlast bs)"

lemma undo_ok_length: "undo_ok us bs \<Longrightarrow> length us \<le> length bs"
proof (induction us bs rule: undo_ok.induct)
  case (2 u us bs)
  then have "length us \<le> length (butlast bs)" "bs \<noteq> []" by auto
  then show ?case by (cases bs rule: rev_cases) auto
qed simp

lemma undo_ok_butlast: "undo_ok us bs \<Longrightarrow> undo_ok (butlast us) bs"
  by (induction us bs rule: undo_ok.induct) auto

text \<open>The active chain is indexed, with what each of its blocks had issued.\<close>

definition active_ok :: "mldsa_lib \<Rightarrow> pow_engine \<Rightarrow> block set \<Rightarrow> block \<Rightarrow> block list \<Rightarrow> (hash256, block_index) hmap \<Rightarrow> bool" where
  "active_ok mldsa pow U g bs ix \<longleftrightarrow>
     (\<forall>i < length bs. \<exists>e. hget ix (bid_of (bs ! i)) = Some e \<and> bi_header e = blk_header (bs ! i) \<and>
        valid_chain mldsa pow U g (take (Suc i) bs) (bi_issued e))"

text \<open>The index is a tree: every block but genesis has its parent there, one height below, and the work of a
  branch adds up.\<close>

definition tree_ok :: "block set \<Rightarrow> block \<Rightarrow> (hash256, block_index) hmap \<Rightarrow> bool" where
  "tree_ok U g ix \<longleftrightarrow>
     (\<forall>k e. hget ix k = Some e \<longrightarrow> k = block_id (bi_header e) \<and> bi_header e \<in> blk_header ` U \<and>
        (k = bid_of g \<and> bi_total_work e = block_work (hdr_bits (blk_header g)) \<or>
         k \<noteq> bid_of g \<and> (\<exists>p. hget ix (hdr_prev_block (bi_header e)) = Some p \<and>
            unat (hdr_height (bi_header e)) = unat (hdr_height (bi_header p)) + 1 \<and>
            bi_total_work e = work_after (bi_total_work p) (hdr_bits (bi_header e)))))"

lemma tree_okD:
  assumes "tree_ok U g ix" "hget ix k = Some e"
  shows "block_id (bi_header e) = k" "bi_header e \<in> blk_header ` U"
  using assms unfolding tree_ok_def by blast+

lemma tree_ok_parent:
  assumes "tree_ok U g ix" "hget ix k = Some e" "k \<noteq> bid_of g"
  obtains p where "hget ix (hdr_prev_block (bi_header e)) = Some p"
    "unat (hdr_height (bi_header e)) = unat (hdr_height (bi_header p)) + 1"
    "bi_total_work e = work_after (bi_total_work p) (hdr_bits (bi_header e))"
  using assms unfolding tree_ok_def by blast

lemma tree_ok_root: "tree_ok U g ix \<Longrightarrow> hget ix (bid_of g) = Some e \<Longrightarrow> bi_total_work e = block_work (hdr_bits (blk_header g))"
  unfolding tree_ok_def by blast

definition bodies_ok :: "block set \<Rightarrow> (hash256, block) hmap \<Rightarrow> bool" where
  "bodies_ok U m \<longleftrightarrow> (\<forall>k b. hget m k = Some b \<longrightarrow> b \<in> U \<and> bid_of b = k)"

definition chain_ok :: "mldsa_lib \<Rightarrow> pow_engine \<Rightarrow> block set \<Rightarrow> block \<Rightarrow> block list \<Rightarrow> chain \<Rightarrow> bool" where
  "chain_ok mldsa pow U g bs c \<longleftrightarrow>
     valid_chain mldsa pow U g bs (c_issued c) \<and> c_active c = map bid_of bs \<and>
     hwf (c_index c) \<and> active_ok mldsa pow U g bs (c_index c) \<and> tree_ok U g (c_index c) \<and>
     utxo_inv (c_utxo c) \<and> utxo_get (c_utxo c) = ledger_of bs \<and>
     undo_ok (rev (c_undos c)) bs \<and> length (c_undos c) \<le> BODY_WINDOW \<and> bodies_ok U (c_blocks c)"

lemma chain_ok_frame: "chain_ok mldsa pow U g bs c \<Longrightarrow> same_core c c' \<Longrightarrow> bodies_ok U (c_blocks c') \<Longrightarrow> chain_ok mldsa pow U g bs c'"
  by (simp add: chain_ok_def same_core_simps)

lemma bodies_ok_fewer: "bodies_ok U (c_blocks c) \<Longrightarrow> fewer_bodies c c' \<Longrightarrow> bodies_ok U (c_blocks c')"
  by (auto simp: bodies_ok_def fewer_bodies_def)

lemma bodies_ok_keep: "bodies_ok U (c_blocks c) \<Longrightarrow> b \<in> U \<Longrightarrow> bodies_ok U (c_blocks (keep_body c (bid_of b) b))"
  using keep_body_frame [of c "bid_of b" b] unfolding bodies_ok_def by blast

lemma chain_ok_active:
  assumes "chain_ok mldsa pow U g bs c"
  shows "bs \<noteq> []" "length (c_active c) = length bs" "chain_height c + 1 = length bs" "tip_id c = bid_of (last bs)"
proof -
  show ne: "bs \<noteq> []" using assms valid_chain_not_empty unfolding chain_ok_def by blast
  then show "length (c_active c) = length bs" "chain_height c + 1 = length bs" "tip_id c = bid_of (last bs)"
    using assms by (auto simp: chain_ok_def chain_height_def tip_id_def last_map Suc_leI)
qed

lemma lget_active: "chain_ok mldsa pow U g bs c \<Longrightarrow> lget (c_active c) i = (if i < length bs then Some (bid_of (bs ! i)) else None)"
  by (simp add: chain_ok_def lget_def)

text \<open>Ids determine headers among the blocks considered.\<close>

lemma universe_header: "sound_universe U g \<Longrightarrow> h \<in> blk_header ` U \<Longrightarrow> h' \<in> blk_header ` U \<Longrightarrow> block_id h = block_id h' \<Longrightarrow> h = h'"
  by (auto simp: sound_universe_def dest: inj_onD)

lemma chain_ok_height: "chain_ok mldsa pow U g bs c \<Longrightarrow> sound_universe U g \<Longrightarrow> i < length bs \<Longrightarrow>
    unat (hdr_height (blk_header (bs ! i))) = i"
  using valid_chain_headers unfolding chain_ok_def sound_universe_def by blast

lemma chain_ok_prev: "chain_ok mldsa pow U g bs c \<Longrightarrow> sound_universe U g \<Longrightarrow> i < length bs \<Longrightarrow> 0 < i \<Longrightarrow>
    hdr_prev_block (blk_header (bs ! i)) = bid_of (bs ! (i - 1))"
  using valid_chain_headers unfolding chain_ok_def sound_universe_def by blast

text \<open>Storing an entry for a known block, or for a new one, keeps the tree.\<close>

lemma tree_ok_put:
  assumes "tree_ok U g ix" "sound_universe U g" "b \<in> U" "hget ix (hdr_prev_block (blk_header b)) = Some p"
    and "unat (hdr_height (blk_header b)) = unat (hdr_height (bi_header p)) + 1"
    and "bi_header e = blk_header b" "bi_total_work e = work_after (bi_total_work p) (hdr_bits (blk_header b))"
  shows "tree_ok U g (hput (bid_of b) e ix)"
proof -
  have same: "bi_header o' = blk_header b" if "hget ix (bid_of b) = Some o'" for o'
    using tree_okD [OF assms(1) that] universe_header [OF assms(2)] assms(3) by blast
  have np: "hdr_prev_block (blk_header b) \<noteq> bid_of b"
  proof
    assume "hdr_prev_block (blk_header b) = bid_of b"
    then have "bi_header p = blk_header b" using same assms(4) by simp
    then show False using assms(5) by simp
  qed
  have ng: "bid_of b \<noteq> bid_of g"
  proof
    assume "bid_of b = bid_of g"
    then have "blk_header b = blk_header g" using universe_header [OF assms(2)] assms(2,3) by (auto simp: sound_universe_def)
    then have "hdr_height (blk_header b) = 0" using assms(2) by (auto simp: sound_universe_def genesis_ok_def)
    then show False using assms(5) by simp
  qed
  have same_work: "bi_total_work o' = bi_total_work e" if o: "hget ix (bid_of b) = Some o'" for o'
    using tree_ok_parent [OF assms(1) o ng] same [OF o] assms(4,7) by simp
  show ?thesis unfolding tree_ok_def
  proof (intro allI impI)
    fix k x assume x: "hget (hput (bid_of b) e ix) k = Some x"
    let ?P = "\<lambda>ix p. hget ix (hdr_prev_block (bi_header x)) = Some p \<and>
            unat (hdr_height (bi_header x)) = unat (hdr_height (bi_header p)) + 1 \<and>
            bi_total_work x = work_after (bi_total_work p) (hdr_bits (bi_header x))"
    show "k = block_id (bi_header x) \<and> bi_header x \<in> blk_header ` U \<and>
        (k = bid_of g \<and> bi_total_work x = block_work (hdr_bits (blk_header g)) \<or> k \<noteq> bid_of g \<and> (\<exists>p. ?P (hput (bid_of b) e ix) p))"
    proof (cases "k = bid_of b")
      case True
      then have "x = e" using x by simp
      then show ?thesis using True assms np ng by auto
    next
      case False
      then have old: "hget ix k = Some x" using x by simp
      have "\<exists>p. ?P (hput (bid_of b) e ix) p" if kg: "k \<noteq> bid_of g"
      proof -
        obtain q where q: "?P ix q" using tree_ok_parent [OF assms(1) old kg] by blast
        show ?thesis
        proof (cases "hdr_prev_block (bi_header x) = bid_of b")
          case True
          then have "hget ix (bid_of b) = Some q" using q by simp
          then have "bi_header q = bi_header e" "bi_total_work q = bi_total_work e" using same same_work assms(6) by auto
          then show ?thesis using True q by (intro exI [of _ e]) simp
        qed (use q in auto)
      qed
      then have "k = bid_of g \<and> bi_total_work x = block_work (hdr_bits (blk_header g)) \<or> k \<noteq> bid_of g \<and> (\<exists>p. ?P (hput (bid_of b) e ix) p)"
        using tree_ok_root [OF assms(1)] old by blast
      then show ?thesis using tree_okD [OF assms(1) old] by (intro conjI) (rule sym)
    qed
  qed
qed

section \<open>Connecting\<close>

lemma rmap_Ok: "(\<And>x. x \<in> set xs \<Longrightarrow> f x = Ok (g x)) \<Longrightarrow> rmap f xs = Ok (map g xs)"
  by (induction xs) auto

lemma rmap_map: "rmap f (map h xs) = rmap (\<lambda>x. f (h x)) xs"
  by (induction xs) auto

lemma index_of_Ok: "hget (c_index c) bid = Some e \<Longrightarrow> index_of c bid = Ok e"
  by (simp add: index_of_def)

lemma active_entry:
  assumes "chain_ok mldsa pow U g bs c" "i < length bs"
  obtains e where "hget (c_index c) (bid_of (bs ! i)) = Some e" "bi_header e = blk_header (bs ! i)"
    "valid_chain mldsa pow U g (take (Suc i) bs) (bi_issued e)"
  using assms unfolding chain_ok_def active_ok_def by blast

lemma tip_entry:
  assumes "chain_ok mldsa pow U g bs c"
  obtains e where "hget (c_index c) (tip_id c) = Some e" "bi_header e = blk_header (last bs)"
    "valid_chain mldsa pow U g bs (bi_issued e)"
proof -
  have ne: "bs \<noteq> []" "tip_id c = bid_of (last bs)" by (rule chain_ok_active [OF assms])+
  then have l: "length bs - 1 < length bs" "last bs = bs ! (length bs - 1)" "take (Suc (length bs - 1)) bs = bs"
    by (auto simp: last_conv_nth)
  obtain e where "hget (c_index c) (bid_of (bs ! (length bs - 1))) = Some e" "bi_header e = blk_header (bs ! (length bs - 1))"
    "valid_chain mldsa pow U g (take (Suc (length bs - 1)) bs) (bi_issued e)"
    by (rule active_entry [OF assms l(1)])
  then show thesis using that ne(2) l(2,3) by simp
qed

lemma recent_times_Ok: "chain_ok mldsa pow U g bs c \<Longrightarrow>
    recent_times c = Ok (map (\<lambda>b. unat (hdr_time (blk_header b))) (drop (length bs - MEDIAN_TIME_SPAN) bs))"
proof -
  assume ok: "chain_ok mldsa pow U g bs c"
  have one: "rbind (index_of c (bid_of b)) (\<lambda>e. Ok (unat (hdr_time (bi_header e)))) = Ok (unat (hdr_time (blk_header b)))"
    if b: "b \<in> set bs" for b
  proof -
    obtain i where i: "i < length bs" "bs ! i = b" using b by (auto simp: in_set_conv_nth)
    obtain e where "hget (c_index c) (bid_of b) = Some e" "bi_header e = blk_header b"
      using active_entry [OF ok i(1)] i(2) by metis
    then show ?thesis by (simp add: index_of_Ok)
  qed
  have "rmap (\<lambda>b. rbind (index_of c (bid_of b)) (\<lambda>e. Ok (unat (hdr_time (bi_header e))))) (drop (length bs - MEDIAN_TIME_SPAN) bs) =
      Ok (map (\<lambda>b. unat (hdr_time (blk_header b))) (drop (length bs - MEDIAN_TIME_SPAN) bs))"
    by (rule rmap_Ok) (use one in_set_dropD in metis)
  then show ?thesis using ok by (simp add: recent_times_def chain_ok_def drop_map rmap_map)
qed

lemma claimed_uncles_Ok: "claimed_uncles src c = Ok []"
  by (simp add: claimed_uncles_def MAX_UNCLES_def)

definition context_of :: "chain \<Rightarrow> block list \<Rightarrow> nat \<Rightarrow> block_context" where
  "context_of c bs now =
     \<lparr>ctx_network = c_network c, ctx_height = length bs, ctx_prev_id = bid_of (last bs),
      ctx_recent_times = map (\<lambda>b. unat (hdr_time (blk_header b))) (drop (length bs - MEDIAN_TIME_SPAN) bs),
      ctx_parent_time = Some (unat (hdr_time (blk_header (last bs)))),
      ctx_expected_bits = next_bits_after c (bid_of (last bs)), ctx_now = now,
      ctx_ancestors = recent_ancestors c, ctx_claimed_uncles = [],
      ctx_uncle_expected_bits = uncle_expected_bits c, ctx_cumulative_issued = c_issued c\<rparr>"

lemma connect_context_Ok:
  assumes "chain_ok mldsa pow U g bs c"
  shows "connect_context src c now = Ok (context_of c bs now)"
proof -
  obtain e where "hget (c_index c) (tip_id c) = Some e" "bi_header e = blk_header (last bs)" by (rule tip_entry [OF assms])
  then show ?thesis
    using chain_ok_active [OF assms]
    by (simp add: connect_context_def context_of_def recent_times_Ok [OF assms] claimed_uncles_Ok)
qed

text \<open>What connecting a block changes besides the ledger.\<close>

definition connected :: "chain \<Rightarrow> block \<Rightarrow> chain \<Rightarrow> bool" where
  "connected c b c' \<longleftrightarrow>
     (\<exists>e p. c_index c' = hput (bid_of b) e (c_index c) \<and> bi_header e = blk_header b \<and>
        hget (c_index c) (tip_id c) = Some p \<and> bi_total_work e = work_after (bi_total_work p) (hdr_bits (blk_header b))) \<and>
     length (c_undos c') = min BODY_WINDOW (length (c_undos c) + 1) \<and> c_network c' = c_network c \<and>
     c_finality_hold c' = c_finality_hold c \<and> c_returning c' = c_returning c \<and> c_bound c' = c_bound c"

lemma check_block_total:
  assumes "check_block mldsa pow b s ctx = Ok fees"
  shows "\<exists>a. blk_transactions b \<noteq> [] \<and> total_output (blk_transactions b ! 0) = Ok a \<and>
    units a = outs_value (tx_outputs (blk_transactions b ! 0))"
proof -
  from assms have "block_check_shape b = Ok ()" by (auto simp: check_block_def Let_def split: if_splits)
  then have "tx_check_shape (blk_transactions b ! 0) = Ok ()" and ne: "blk_transactions b \<noteq> []"
    by (auto simp: block_check_shape_Ok_iff)
  then obtain a where "total_output (blk_transactions b ! 0) = Ok a" by (auto simp: tx_check_shape_def split: if_splits)
  then show ?thesis using total_output_Ok ne by (auto simp: outs_value_def)
qed

lemma active_ok_snoc:
  assumes "active_ok mldsa pow U g bs ix" "distinct (map bid_of (bs @ [b]))" "bi_header e = blk_header b"
    and "valid_chain mldsa pow U g (bs @ [b]) (bi_issued e)"
  shows "active_ok mldsa pow U g (bs @ [b]) (hput (bid_of b) e ix)"
  unfolding active_ok_def
proof (intro allI impI)
  fix i assume i: "i < length (bs @ [b])"
  show "\<exists>e'. hget (hput (bid_of b) e ix) (bid_of ((bs @ [b]) ! i)) = Some e' \<and> bi_header e' = blk_header ((bs @ [b]) ! i) \<and>
      valid_chain mldsa pow U g (take (Suc i) (bs @ [b])) (bi_issued e')"
  proof (cases "i < length bs")
    case True
    then have "bs ! i \<in> set bs" by simp
    then have "bid_of (bs ! i) \<noteq> bid_of b" using assms(2) by (metis (no_types, lifting) disjoint_iff distinct_append image_eqI list.set_intros(1) list.simps(9) map_append set_map)
    then show ?thesis using True assms(1) by (simp add: active_ok_def nth_append)
  next
    case False
    then have "i = length bs" using i by simp
    then show ?thesis using assms(3,4) by simp
  qed
qed

lemma undo_ok_push:
  assumes "undo_ok (rev us) bs" "restores u (ledger_of (bs @ [b])) (ledger_of bs)"
  shows "undo_ok (rev (if length (us @ [u]) > BODY_WINDOW then tl (us @ [u]) else us @ [u])) (bs @ [b])"
proof -
  have a: "undo_ok (rev (us @ [u])) (bs @ [b])" using assms by simp
  have "rev (tl (us @ [u])) = butlast (rev (us @ [u]))" by (metis butlast_rev rev_rev_ident)
  then show ?thesis using a undo_ok_butlast [OF a] by (simp only: split: if_split) auto
qed

lemma connect_valid_ok:
  assumes ok: "chain_ok mldsa pow U g bs c" and su: "sound_universe U g" and b: "b \<in> U"
    and chk: "check_block mldsa pow b (c_utxo c) (context_of c bs now) = Ok fees"
  shows "\<exists>c'. connect_valid c b fees = (c', Ok fees) \<and> chain_ok mldsa pow U g (bs @ [b]) c' \<and> connected c b c'"
proof -
  let ?n = "length bs" and ?issued = "c_issued c + emitted b fees"
  note act = chain_ok_active [OF ok]
  note inv = ok [unfolded chain_ok_def]
  have vc: "valid_chain mldsa pow U g (bs @ [b]) ?issued"
    by (rule valid_chain.extend [OF _ _ _ chk]) (use inv b in \<open>simp_all add: context_of_def\<close>)
  obtain utxo undo where a: "apply_transactions (c_utxo c) undo_new ?n (blk_transactions b) = (utxo, undo)"
    by (cases "apply_transactions (c_utxo c) undo_new ?n (blk_transactions b)")
  obtain cb where cb: "total_output (blk_transactions b ! 0) = Ok cb" "units cb - units fees = emitted b fees"
    "0 < length (blk_transactions b)"
    using check_block_total [OF chk] by (auto simp: emitted_def)
  have cap: "?issued \<le> MAX_SUPPLY" using valid_chain_hist [OF vc su] by blast
  have par: "hdr_prev_block (blk_header b) = tip_id c" "unat (hdr_height (blk_header b)) = ?n"
    using check_block_parts [OF chk] act(4) by (auto simp: context_of_def)
  obtain p where p: "hget (c_index c) (tip_id c) = Some p" "bi_header p = blk_header (last bs)" by (rule tip_entry [OF ok])
  define e where "e = \<lparr>bi_header = blk_header b, bi_total_work = work_after (bi_total_work p) (hdr_bits (blk_header b)), bi_issued = ?issued\<rparr>"
  define c2 where "c2 = c\<lparr>c_utxo := utxo, c_issued := ?issued, c_index := hput (bid_of b) e (c_index c)\<rparr>"
  define c3 where "c3 = keep_body c2 (bid_of b) b"
  have ht: "chain_height c + 1 = ?n" by (rule act(3))
  have eq: "connect_valid c b fees = (push_tip c3 (bid_of b) undo, Ok fees)"
    using cb cap p(1) par(1) a
    by (simp add: connect_valid_def ht [simplified] c3_def c2_def e_def andthen_def index_of_def supply_defs Let_def add64_def index_at_def sat_sub64_def)
  have fr: "same_core c2 c3" using keep_body_frame [of c2 "bid_of b" b] by (simp add: c3_def)
  have dist: "distinct (map bid_of (bs @ [b]))" using valid_chain_distinct(1) [OF vc su] by simp
  have tr: "tree_ok U g (hput (bid_of b) e (c_index c))"
  proof (rule tree_ok_put [OF _ su b])
    have "?n - 1 < ?n" "last bs = bs ! (?n - 1)" using act(1) by (simp_all add: last_conv_nth)
    then have "unat (hdr_height (blk_header (last bs))) = ?n - 1" using chain_ok_height [OF ok su] by metis
    then show "unat (hdr_height (blk_header b)) = unat (hdr_height (bi_header p)) + 1" using p(2) par(2) act(1) by simp
  qed (use inv p par e_def in simp_all)
  have rs: "restores undo (ledger_of (bs @ [b])) (ledger_of bs)"
    by (rule accepted_block_restores [OF conjunct1 [OF inv] su vc _ _ a]) (use inv in simp_all)
  have g': "utxo_get utxo = ledger_of (bs @ [b])"
    using apply_transactions_ledger [of "c_utxo c" undo_new ?n "blk_transactions b"] a inv by (simp add: ledger_of_snoc)
  have i': "utxo_inv utxo" using utxo_inv_apply_all [of "c_utxo c" undo_new ?n "blk_transactions b"] a inv by simp
  have bo: "bodies_ok U (c_blocks c3)"
    unfolding c3_def by (rule bodies_ok_keep [OF _ b]) (use inv in \<open>simp add: c2_def\<close>)
  have av: "active_ok mldsa pow U g (bs @ [b]) (hput (bid_of b) e (c_index c))"
    by (rule active_ok_snoc [OF _ dist]) (use inv vc in \<open>simp_all add: e_def\<close>)
  have core: "c_index c3 = hput (bid_of b) e (c_index c)" "c_active c3 = c_active c" "c_utxo c3 = utxo" "c_undos c3 = c_undos c"
    "c_issued c3 = ?issued"
    using same_core_simps [OF fr] by (simp_all add: c2_def)
  have "chain_ok mldsa pow U g (bs @ [b]) (push_tip c3 (bid_of b) undo)"
    unfolding chain_ok_def
    using vc inv av tr i' g' undo_ok_push [OF _ rs, of "c_undos c"] bo
    by (simp add: push_tip_def Let_def core)
  moreover have "connected c b (push_tip c3 (bid_of b) undo)"
    using fr p(1) inv unfolding connected_def by (auto simp: push_tip_def Let_def core same_core_def c2_def e_def)
  ultimately show ?thesis using eq by blast
qed

text \<open>Connecting either extends the history by the block, or changes nothing.\<close>

lemma connect_cases:
  assumes "chain_ok mldsa pow U g bs c" "sound_universe U g" "b \<in> U" "connect mldsa pow src c b now = (c', r)"
  shows "(\<exists>fees. r = Ok fees \<and> check_block mldsa pow b (c_utxo c) (context_of c bs now) = Ok fees \<and>
      chain_ok mldsa pow U g (bs @ [b]) c' \<and> connected c b c') \<or>
    (c' = c \<and> (\<forall>fees. r \<noteq> Ok fees) \<and> r = check_block mldsa pow b (c_utxo c) (context_of c bs now))"
proof -
  have eq: "connect mldsa pow src c b now =
      andthen c (check_block mldsa pow b (c_utxo c) (context_of c bs now)) (connect_valid c b)"
    by (simp add: connect_def connect_context_Ok [OF assms(1)] andthen_def)
  show ?thesis
  proof (cases "check_block mldsa pow b (c_utxo c) (context_of c bs now)")
    case (Ok fees)
    from connect_valid_ok [OF assms(1-3) Ok] show ?thesis using eq assms(4) Ok by (auto simp: andthen_def)
  qed (use eq assms(4) in \<open>auto simp: andthen_def\<close>)
qed

section \<open>Disconnecting\<close>

definition disconnected_to :: "chain \<Rightarrow> chain \<Rightarrow> bool" where
  "disconnected_to c c' \<longleftrightarrow> c_index c' = c_index c \<and> c_blocks c' = c_blocks c \<and> c_network c' = c_network c \<and>
     c_finality_hold c' = c_finality_hold c \<and> c_returning c' = c_returning c \<and> c_bound c' = c_bound c"

lemma disconnect_ok:
  assumes ok: "chain_ok mldsa pow U g bs c"
  shows "if length bs \<le> 1 \<or> c_undos c = [] then (disconnect c :: chain \<times> (bool, 'e) result) = (c, Ok False)
    else \<exists>c'. (disconnect c :: chain \<times> (bool, 'e) result) = (c', Ok True) \<and> chain_ok mldsa pow U g (butlast bs) c' \<and>
      length (c_undos c') = length (c_undos c) - 1 \<and> disconnected_to c c'"
proof (cases "length bs \<le> 1 \<or> c_undos c = []")
  case True
  then show ?thesis using chain_ok_active(2) [OF ok] by (auto simp: disconnect_def)
next
  case False
  note inv = ok [unfolded chain_ok_def]
  have l: "length bs - 2 < length bs" "c_active c ! (length (c_active c) - 2) = bid_of (bs ! (length bs - 2))"
    using False inv by auto
  obtain e where e: "hget (c_index c) (bid_of (bs ! (length bs - 2))) = Some e"
    "valid_chain mldsa pow U g (take (Suc (length bs - 2)) bs) (bi_issued e)"
    by (rule active_entry [OF ok l(1)])
  have "take (Suc (length bs - 2)) bs = butlast bs" using False by (simp add: butlast_conv_take Suc_diff_Suc numeral_2_eq_2)
  then have v: "valid_chain mldsa pow U g (butlast bs) (bi_issued e)" using e(2) by simp
  define c' where "c' = c\<lparr>c_undos := butlast (c_undos c), c_utxo := utxo_undo (c_utxo c) (last (c_undos c)),
      c_active := butlast (c_active c), c_issued := bi_issued e\<rparr>"
  have d: "(disconnect c :: chain \<times> (bool, 'e) result) = (c', Ok True)"
    using False l(2) e(1) chain_ok_active(2) [OF ok] by (simp add: disconnect_def andthen_def index_of_def c'_def)
  have r: "rev (c_undos c) = last (c_undos c) # rev (butlast (c_undos c))" using False by (metis append_butlast_last_id rev_eq_Cons_iff rev_rev_ident)
  have "undo_ok (rev (c_undos c)) bs" using inv by blast
  then have u: "restores (last (c_undos c)) (ledger_of bs) (ledger_of (butlast bs))" "undo_ok (rev (butlast (c_undos c))) (butlast bs)"
    unfolding r by simp_all
  have "active_ok mldsa pow U g (butlast bs) (c_index c)"
    using inv unfolding active_ok_def by (auto simp: nth_butlast take_butlast)
  moreover have "utxo_get (utxo_undo (c_utxo c) (last (c_undos c))) = ledger_of (butlast bs)" using u(1) inv by (simp add: restores_def)
  moreover have "utxo_inv (utxo_undo (c_utxo c) (last (c_undos c)))" using inv utxo_inv_undo by blast
  ultimately have "chain_ok mldsa pow U g (butlast bs) c'"
    using inv v u(2) unfolding chain_ok_def c'_def by (auto simp: map_butlast)
  then show ?thesis using False d by (simp add: c'_def disconnected_to_def)
qed

lemma disconnect_times_ok:
  "chain_ok mldsa pow U g bs c \<Longrightarrow>
   \<exists>c' m. (disconnect_times n c :: chain \<times> (unit, 'e) result) = (c', Ok ()) \<and> m \<le> n \<and> m < length bs \<and> chain_ok mldsa pow U g (take (length bs - m) bs) c' \<and>
     (n \<le> length (c_undos c) \<longrightarrow> n < length bs \<longrightarrow> m = n) \<and> length (c_undos c') = length (c_undos c) - m \<and> disconnected_to c c'"
proof (induction n arbitrary: bs c)
  case 0
  then show ?case using chain_ok_active(1) [OF 0] by (auto simp: disconnected_to_def)
next
  case (Suc n)
  have ne: "bs \<noteq> []" by (rule chain_ok_active(1) [OF Suc.prems])
  show ?case
  proof (cases "length bs \<le> 1 \<or> c_undos c = []")
    case True
    then have "(disconnect c :: chain \<times> (bool, 'e) result) = (c, Ok False)" using disconnect_ok [OF Suc.prems] by simp
    then show ?thesis using Suc.prems ne True by (intro exI [of _ c] exI [of _ 0]) (auto simp: disconnected_to_def)
  next
    case False
    then obtain c1 where c1: "(disconnect c :: chain \<times> (bool, 'e) result) = (c1, Ok True)" "chain_ok mldsa pow U g (butlast bs) c1"
      "length (c_undos c1) = length (c_undos c) - 1" "disconnected_to c c1"
      using disconnect_ok [OF Suc.prems] by auto
    obtain c' m where m: "(disconnect_times n c1 :: chain \<times> (unit, 'e) result) = (c', Ok ())" "m \<le> n" "m < length (butlast bs)"
      "chain_ok mldsa pow U g (take (length (butlast bs) - m) (butlast bs)) c'"
      "n \<le> length (c_undos c1) \<longrightarrow> n < length (butlast bs) \<longrightarrow> m = n"
      "length (c_undos c') = length (c_undos c1) - m" "disconnected_to c1 c'"
      using Suc.IH [OF c1(2)] by blast
    have "take (length (butlast bs) - m) (butlast bs) = take (length bs - Suc m) bs" by (auto simp: butlast_conv_take min_def)
    then have "chain_ok mldsa pow U g (take (length bs - Suc m) bs) c'" using m(4) by simp
    moreover have "Suc n \<le> length (c_undos c) \<longrightarrow> Suc n < length bs \<longrightarrow> Suc m = Suc n" using m(5) c1(3) by auto
    ultimately show ?thesis using c1 m(1-3,6,7)
      by (intro exI [of _ c'] exI [of _ "Suc m"]) (auto simp: disconnected_to_def)
  qed
qed

section \<open>Connecting a branch\<close>

definition source_ok :: "block set \<Rightarrow> body_source \<Rightarrow> bool" where
  "source_ok U src \<longleftrightarrow> (\<forall>k b. src k = Some b \<longrightarrow> b \<in> U \<and> bid_of b = k)"

lemma fetch_bodies_ok:
  "chain_ok mldsa pow U g bs c \<Longrightarrow> source_ok U src \<Longrightarrow> fetch_bodies src c i ids = Ok bl \<Longrightarrow> set bl \<subseteq> U \<and> map bid_of bl = ids"
proof (induction ids arbitrary: i bl)
  case (Cons k ids)
  from Cons.prems(3) obtain b bl' where b: "block_by_id src c k = Some b" "fetch_bodies src c (Suc i) ids = Ok bl'" "bl = b # bl'"
    by (auto split: option.splits)
  have "b \<in> U \<and> bid_of b = k" using b(1) Cons.prems(1,2)
    by (auto simp: block_by_id_def chain_ok_def bodies_ok_def source_ok_def split: option.splits)
  then show ?case using Cons.IH [OF Cons.prems(1,2) b(2)] b(3) by simp
qed simp

lemma fetch_bodies_Err: "fetch_bodies src c i ids = Err j \<Longrightarrow> i \<le> j \<and> j < i + length ids"
proof (induction ids arbitrary: i)
  case (Cons k ids)
  show ?case
  proof (cases "block_by_id src c k")
    case (Some b)
    then have "fetch_bodies src c (Suc i) ids = Err j" using Cons.prems by (cases "fetch_bodies src c (Suc i) ids") auto
    then show ?thesis using Cons.IH [of "Suc i"] by simp
  qed (use Cons.prems in simp)
qed simp

lemma fetch_bodies_no_panic [simp]: "fetch_bodies src c i ids \<noteq> Panic"
  by (induction ids arbitrary: i) (auto simp: rbind_Panic_iff split: option.splits)

definition same_finality :: "chain \<Rightarrow> chain \<Rightarrow> bool" where
  "same_finality c c' \<longleftrightarrow> c_network c' = c_network c \<and> c_finality_hold c' = c_finality_hold c \<and>
     c_returning c' = c_returning c \<and> c_bound c' = c_bound c"

lemma connect_bodies_ok:
  "chain_ok mldsa pow U g bs c \<Longrightarrow> sound_universe U g \<Longrightarrow> set bl \<subseteq> U \<Longrightarrow> connect_bodies mldsa pow src now c bl = (c', r) \<Longrightarrow>
   \<exists>k \<le> length bl. chain_ok mldsa pow U g (bs @ take k bl) c' \<and> (r = Ok () \<longrightarrow> k = length bl) \<and>
     length (c_undos c') = min BODY_WINDOW (length (c_undos c) + k) \<and> same_finality c c'"
proof (induction bl arbitrary: bs c)
  case Nil
  then show ?case by (auto simp: same_finality_def chain_ok_def)
next
  case (Cons b bl)
  obtain c1 r1 where c1: "connect mldsa pow src c b now = (c1, r1)" by (cases "connect mldsa pow src c b now")
  have b: "b \<in> U" "set bl \<subseteq> U" using Cons.prems(3) by auto
  from connect_cases [OF Cons.prems(1,2) b(1) c1] show ?case
  proof
    assume "\<exists>fees. r1 = Ok fees \<and> check_block mldsa pow b (c_utxo c) (context_of c bs now) = Ok fees \<and>
      chain_ok mldsa pow U g (bs @ [b]) c1 \<and> connected c b c1"
    then have o: "\<exists>fees. r1 = Ok fees" "chain_ok mldsa pow U g (bs @ [b]) c1" "connected c b c1" by auto
    have "connect_bodies mldsa pow src now c1 bl = (c', r)" using Cons.prems(4) c1 o(1) by auto
    from Cons.IH [OF o(2) Cons.prems(2) b(2) this] obtain k where k: "k \<le> length bl"
      "chain_ok mldsa pow U g ((bs @ [b]) @ take k bl) c'" "r = Ok () \<longrightarrow> k = length bl"
      "length (c_undos c') = min BODY_WINDOW (length (c_undos c1) + k)" "same_finality c1 c'" by blast
    have u: "length (c_undos c1) = min BODY_WINDOW (length (c_undos c) + 1)" "same_finality c c1"
      using o(3) by (auto simp: connected_def same_finality_def)
    have "length (c_undos c') = min BODY_WINDOW (length (c_undos c) + Suc k)" using k(4) u(1) by simp
    then show ?thesis using k u(2) by (intro exI [of _ "Suc k"]) (auto simp: same_finality_def)
  next
    assume e: "c1 = c \<and> (\<forall>fees. r1 \<noteq> Ok fees) \<and> r1 = check_block mldsa pow b (c_utxo c) (context_of c bs now)"
    have u: "length (c_undos c) \<le> BODY_WINDOW" using Cons.prems(1) by (simp add: chain_ok_def)
    have "c' = c \<and> r \<noteq> Ok ()" using Cons.prems(4) c1 e by (auto split: result.splits)
    then show ?thesis using Cons.prems(1) u by (intro exI [of _ 0]) (auto simp: same_finality_def)
  qed
qed

section \<open>Switching branches\<close>

lemma disconnect_to_ok:
  assumes "chain_ok mldsa pow U g (pre @ xs) c" "pre \<noteq> []"
  shows "\<exists>c' ys. (disconnect_to (length pre) c :: chain \<times> (unit, 'e) result) = (c', Ok ()) \<and> chain_ok mldsa pow U g (pre @ ys) c' \<and>
    (length xs \<le> length (c_undos c) \<longrightarrow> ys = [] \<and> length (c_undos c') = length (c_undos c) - length xs) \<and> same_finality c c'"
proof -
  have n: "length (c_active c) - length pre = length xs" using chain_ok_active(2) [OF assms(1)] by simp
  obtain c' m where m: "(disconnect_times (length xs) c :: chain \<times> (unit, 'e) result) = (c', Ok ())" "m \<le> length xs"
    "chain_ok mldsa pow U g (take (length (pre @ xs) - m) (pre @ xs)) c'"
    "length xs \<le> length (c_undos c) \<longrightarrow> length xs < length (pre @ xs) \<longrightarrow> m = length xs"
    "length (c_undos c') = length (c_undos c) - m" "disconnected_to c c'"
    using disconnect_times_ok [OF assms(1), of "length xs"] by blast
  have "take (length (pre @ xs) - m) (pre @ xs) = pre @ take (length xs - m) xs" using m(2) by simp
  then have "chain_ok mldsa pow U g (pre @ take (length xs - m) xs) c'" using m(3) by simp
  moreover have "length xs \<le> length (c_undos c) \<longrightarrow> m = length xs" using m(4) assms(2) by simp
  ultimately show ?thesis using m(1,5,6)
    by (intro exI [of _ c'] exI [of _ "take (length xs - m) xs"]) (auto simp: disconnect_to_def n same_finality_def disconnected_to_def)
qed

lemma same_finality_trans: "same_finality c c' \<Longrightarrow> same_finality c' c'' \<Longrightarrow> same_finality c c''"
  by (simp add: same_finality_def)

text \<open>
  Rolling back keeps everything up to the fork. When what is to be undone fits in the undo window, it
  ends on the old branch, or on the fork itself when the old branch no longer connects.
\<close>

lemma roll_back_ok:
  assumes ok: "chain_ok mldsa pow U g (pre @ xs) c" and ne: "pre \<noteq> []" and su: "sound_universe U g" and old: "set old \<subseteq> U"
    and rb: "roll_back mldsa pow src now c (length pre - 1) old e = (c', r)"
  shows "\<exists>ys. chain_ok mldsa pow U g (pre @ ys) c' \<and> same_finality c c' \<and> (\<forall>d. r \<noteq> Ok d) \<and>
    (length xs \<le> length (c_undos c) \<longrightarrow> length old \<le> BODY_WINDOW \<longrightarrow> r \<noteq> Panic \<longrightarrow> ys = old \<or> ys = [])"
proof -
  have f: "length pre - 1 + 1 = length pre" using ne by (simp add: Suc_leI)
  obtain c1 ys1 where c1: "(disconnect_to (length pre) c :: chain \<times> (unit, ChainError) result) = (c1, Ok ())"
    "chain_ok mldsa pow U g (pre @ ys1) c1"
    "length xs \<le> length (c_undos c) \<longrightarrow> ys1 = [] \<and> length (c_undos c1) = length (c_undos c) - length xs" "same_finality c c1"
    using disconnect_to_ok [OF ok ne] by blast
  obtain c2 r2 where c2: "connect_bodies mldsa pow src now c1 old = (c2, r2)" by (cases "connect_bodies mldsa pow src now c1 old")
  obtain k where k: "k \<le> length old" "chain_ok mldsa pow U g ((pre @ ys1) @ take k old) c2" "r2 = Ok () \<longrightarrow> k = length old"
    "length (c_undos c2) = min BODY_WINDOW (length (c_undos c1) + k)" "same_finality c1 c2"
    using connect_bodies_ok [OF c1(2) su old c2] by blast
  have k2: "chain_ok mldsa pow U g (pre @ (ys1 @ take k old)) c2" using k(2) by simp
  obtain c3 ys3 where c3: "(disconnect_to (length pre) c2 :: chain \<times> (unit, ChainError) result) = (c3, Ok ())"
    "chain_ok mldsa pow U g (pre @ ys3) c3"
    "length (ys1 @ take k old) \<le> length (c_undos c2) \<longrightarrow> ys3 = []" "same_finality c2 c3"
    using disconnect_to_ok [OF k2 ne] by blast
  have fin: "same_finality c c2" "same_finality c c3" using c1(4) k(5) c3(4) same_finality_trans by blast+
  have w: "ys3 = []" if "length xs \<le> length (c_undos c)" "length old \<le> BODY_WINDOW"
    using c1(3) c3(3) k(1,4) that by auto
  show ?thesis
  proof (cases r2)
    case (Ok u)
    then have "roll_back mldsa pow src now c (length pre - 1) old e = (c2, Err (Validation e))"
      by (simp add: roll_back_def f [simplified] c1(1) c2)
    then have "c' = c2" "\<forall>d. r \<noteq> Ok d" using rb by auto
    then show ?thesis using k2 fin(1) k(1,3) c1(3) Ok by (intro exI [of _ "ys1 @ take k old"]) auto
  next
    case (Err e')
    then have "roll_back mldsa pow src now c (length pre - 1) old e = (c3, Err (Validation e))"
      by (simp add: roll_back_def f [simplified] c1(1) c2 c3(1))
    then have "c' = c3" "\<forall>d. r \<noteq> Ok d" using rb by auto
    then show ?thesis using c3(2) fin(2) w by (intro exI [of _ ys3]) auto
  next
    case Panic
    then have "roll_back mldsa pow src now c (length pre - 1) old e = (c2, Panic)"
      by (simp add: roll_back_def f [simplified] c1(1) c2)
    then have "c' = c2" "r = Panic" using rb by simp_all
    then show ?thesis using k2 fin(1) by (intro exI [of _ "ys1 @ take k old"]) auto
  qed
qed

lemma chain_ok_note_disconnected: "chain_ok mldsa pow U g bs c \<Longrightarrow> chain_ok mldsa pow U g bs (note_disconnected c old)"
  by (simp add: chain_ok_def note_disconnected_def)

lemma switch_branch_ok:
  assumes ok: "chain_ok mldsa pow U g bs c" and su: "sound_universe U g" and br: "set branch \<subseteq> U" and old: "set old \<subseteq> U"
    and fork: "fork < length bs" and depth: "depth = length bs - 1 - fork" "depth \<le> length (c_undos c)"
    and lo: "map bid_of old = map bid_of (drop (fork + 1) bs)"
    and sw: "switch_branch mldsa pow src now c fork depth branch old = (c', r)"
  shows "\<exists>ys. chain_ok mldsa pow U g (take (fork + 1) bs @ ys) c' \<and> same_finality c c' \<and>
    (\<forall>d. r = Ok d \<longrightarrow> d = depth \<and> ys = branch) \<and>
    (length branch \<le> BODY_WINDOW \<longrightarrow> (\<forall>d. r \<noteq> Ok d) \<longrightarrow> r \<noteq> Panic \<longrightarrow> ys = old \<or> ys = [])"
proof -
  let ?pre = "take (fork + 1) bs"
  have ne: "?pre \<noteq> []" and lp: "length ?pre = fork + 1" using fork by auto
  have d: "depth < length bs" "length bs - depth = fork + 1" using fork depth(1) by auto
  obtain c1 where c1: "(disconnect_times depth c :: chain \<times> (unit, ChainError) result) = (c1, Ok ())"
    "chain_ok mldsa pow U g ?pre c1" "length (c_undos c1) = length (c_undos c) - depth" "disconnected_to c c1"
    using disconnect_times_ok [OF ok, of depth] depth(2) d by auto
  have f1: "same_finality c c1" using c1(4) by (simp add: same_finality_def disconnected_to_def)
  obtain c2 r2 where c2: "connect_bodies mldsa pow src now c1 branch = (c2, r2)" by (cases "connect_bodies mldsa pow src now c1 branch")
  obtain k where k: "k \<le> length branch" "chain_ok mldsa pow U g (?pre @ take k branch) c2" "r2 = Ok () \<longrightarrow> k = length branch"
    "length (c_undos c2) = min BODY_WINDOW (length (c_undos c1) + k)" "same_finality c1 c2"
    using connect_bodies_ok [OF c1(2) su br c2] by blast
  have f2: "same_finality c c2" using f1 k(5) same_finality_trans by blast
  have lold: "length old \<le> BODY_WINDOW"
  proof -
    have "length old = length (drop (fork + 1) bs)" using lo by (metis length_map)
    then show ?thesis using depth ok by (auto simp: chain_ok_def)
  qed
  show ?thesis
  proof (cases r2)
    case (Ok u)
    then have "switch_branch mldsa pow src now c fork depth branch old = (note_disconnected c2 old, Ok depth)"
      by (simp add: switch_branch_def c1(1) c2)
    then have "c' = note_disconnected c2 old" "r = Ok depth" using sw by simp_all
    moreover have "chain_ok mldsa pow U g (?pre @ branch) (note_disconnected c2 old)"
      using k(2,3) Ok by (intro chain_ok_note_disconnected) simp
    moreover have "same_finality c (note_disconnected c2 old)" using f2 by (simp add: same_finality_def note_disconnected_def)
    ultimately show ?thesis by (intro exI [of _ branch]) simp
  next
    case (Err e)
    then have rb: "roll_back mldsa pow src now c2 (length ?pre - 1) old e = (c', r)"
      using sw c1(1) c2 lp by (simp add: switch_branch_def)
    obtain ys where ys: "chain_ok mldsa pow U g (?pre @ ys) c'" "same_finality c2 c'" "\<forall>d. r \<noteq> Ok d"
      "length (take k branch) \<le> length (c_undos c2) \<longrightarrow> length old \<le> BODY_WINDOW \<longrightarrow> r \<noteq> Panic \<longrightarrow> ys = old \<or> ys = []"
      using roll_back_ok [OF k(2) ne su old rb] by blast
    have "length branch \<le> BODY_WINDOW \<longrightarrow> length (take k branch) \<le> length (c_undos c2)" using k(1,4) by auto
    then show ?thesis using ys f2 same_finality_trans lold by (intro exI [of _ ys]) blast
  next
    case Panic
    then have "switch_branch mldsa pow src now c fork depth branch old = (c2, Panic)"
      by (simp add: switch_branch_def c1(1) c2)
    then have "c' = c2" "r = Panic" using sw by simp_all
    then show ?thesis using k(2) f2 by (intro exI [of _ "take k branch"]) auto
  qed
qed

section \<open>Work\<close>

text \<open>The work of a block is a function of its id: two trees over the same blocks give the same.\<close>

lemma tree_work_unique:
  assumes "sound_universe U g" "tree_ok U g ix" "tree_ok U g ix'"
  shows "hget ix k = Some e \<Longrightarrow> hget ix' k = Some e' \<Longrightarrow> bi_header e = bi_header e' \<and> bi_total_work e = bi_total_work e'"
proof (induction "unat (hdr_height (bi_header e))" arbitrary: k e e' rule: less_induct)
  case less
  have h: "bi_header e = bi_header e'"
    using universe_header [OF assms(1)] tree_okD [OF assms(2) less.prems(1)] tree_okD [OF assms(3) less.prems(2)] by metis
  show ?case
  proof (cases "k = bid_of g")
    case True
    then show ?thesis using tree_ok_root assms(2,3) less.prems h by metis
  next
    case False
    obtain p where p: "hget ix (hdr_prev_block (bi_header e)) = Some p" "unat (hdr_height (bi_header e)) = unat (hdr_height (bi_header p)) + 1"
      "bi_total_work e = work_after (bi_total_work p) (hdr_bits (bi_header e))"
      by (rule tree_ok_parent [OF assms(2) less.prems(1) False])
    obtain p' where p': "hget ix' (hdr_prev_block (bi_header e')) = Some p'"
      "bi_total_work e' = work_after (bi_total_work p') (hdr_bits (bi_header e'))"
      by (rule tree_ok_parent [OF assms(3) less.prems(2) False])
    have "bi_total_work p = bi_total_work p'" using less.hyps [of p _ p'] p(1,2) p'(1) h by simp
    then show ?thesis using h p(3) p'(2) by simp
  qed
qed

lemma work_after_ge: "uval w \<le> uval (work_after w bits)"
  by (auto simp: work_after_def u256_checked_add_Some split: option.split)

section \<open>The way to the active chain\<close>

lemma path_loop_ok:
  assumes "chain_ok mldsa pow U g bs c"
  shows "path_loop n c br cur = Some (fork, path) \<Longrightarrow>
    fork < length bs \<and> length path < length br + n \<and>
    (path = rev br \<and> cur = bid_of (bs ! fork) \<or> (\<exists>ids. path = ids @ cur # rev br))"
proof (induction n arbitrary: br cur)
  case (Suc n)
  obtain idx where idx: "hget (c_index c) cur = Some idx" using Suc.prems by (auto split: option.splits)
  let ?h = "unat (hdr_height (bi_header idx))"
  show ?case
  proof (cases "lget (c_active c) ?h = Some cur")
    case True
    then show ?thesis using Suc.prems idx lget_active [OF assms, of ?h] by (auto simp: Let_def split: if_splits)
  next
    case False
    then have "path_loop n c (br @ [cur]) (hdr_prev_block (bi_header idx)) = Some (fork, path)"
      using Suc.prems idx by (auto simp: Let_def split: if_splits)
    from Suc.IH [OF this] show ?thesis by auto
  qed
qed simp

lemma path_to_active_ok:
  assumes "chain_ok mldsa pow U g bs c" "path_to_active c tip reach = Some (fork, path)" "reach < 2 ^ 63"
  shows "fork < length bs" "length path \<le> reach + 1" "path = [] \<and> tip = bid_of (bs ! fork) \<or> (path \<noteq> [] \<and> last path = tip)"
  using path_loop_ok [OF assms(1), of "sat_add64 reach 1 + 1" "[]" tip fork path] assms(2,3)
  by (auto simp: path_to_active_def sat_add64_def u64_max_def)

section \<open>Forgetting side blocks\<close>

lemma children_of_set: "hwf ix \<Longrightarrow> set (children_of ix k) = {ch. \<exists>e. hget ix ch = Some e \<and> hdr_prev_block (bi_header e) = k}"
  using hm.in_items_iff [of ix] by (force simp: children_of_def)

lemma forget_loop_closed:
  "hwf ix \<Longrightarrow> set todo \<subseteq> set gone \<Longrightarrow> (\<forall>x \<in> set gone - set todo. set (children_of ix x) \<subseteq> set gone) \<Longrightarrow>
   set gone \<subseteq> set (forget_loop ix gone todo) \<and>
   (\<forall>x \<in> set (forget_loop ix gone todo). set (children_of ix x) \<subseteq> set (forget_loop ix gone todo))"
proof (induction ix gone todo rule: forget_loop.induct)
  case (2 ix gone k todo)
  let ?new = "filter (\<lambda>ch. ch \<notin> set gone) (children_of ix k)"
  have "set (?new @ gone) \<subseteq> set (forget_loop ix (?new @ gone) (rev ?new @ todo)) \<and>
     (\<forall>x \<in> set (forget_loop ix (?new @ gone) (rev ?new @ todo)).
        set (children_of ix x) \<subseteq> set (forget_loop ix (?new @ gone) (rev ?new @ todo)))"
  proof (rule "2.IH")
    show "set (rev ?new @ todo) \<subseteq> set (?new @ gone)" using 2(3) by auto
    show "\<forall>x \<in> set (?new @ gone) - set (rev ?new @ todo). set (children_of ix x) \<subseteq> set (?new @ gone)" using 2(4) by auto
  qed (use 2 in simp_all)
  then show ?case by (auto simp: Let_def)
qed simp

lemma forget_loop_avoids:
  "(\<And>x. x \<in> set gone \<Longrightarrow> \<not> P x) \<Longrightarrow> set todo \<subseteq> set gone \<Longrightarrow> (\<And>x ch. \<not> P x \<Longrightarrow> ch \<in> set (children_of ix x) \<Longrightarrow> \<not> P ch) \<Longrightarrow>
   x \<in> set (forget_loop ix gone todo) \<Longrightarrow> \<not> P x"
proof (induction ix gone todo rule: forget_loop.induct)
  case (2 ix gone k todo)
  let ?new = "filter (\<lambda>ch. ch \<notin> set gone) (children_of ix k)"
  have k: "\<not> P k" using 2(2,3) by simp
  show ?case
  proof (rule "2.IH" [of ?new])
    show "\<And>x. x \<in> set (?new @ gone) \<Longrightarrow> \<not> P x" using 2(2,4) k by auto
    show "x \<in> set (forget_loop ix (?new @ gone) (rev ?new @ todo))" using 2(5) by (simp add: Let_def)
  qed (use 2 in auto)
qed simp

lemma forget_fold:
  "let c' = foldl (\<lambda>c bid. drop_body (c\<lparr>c_index := hdel bid (c_index c)\<rparr>) bid) c gone
   in (\<forall>k. hget (c_index c') k = (if k \<in> set gone then None else hget (c_index c) k)) \<and> (hwf (c_index c) \<longrightarrow> hwf (c_index c')) \<and>
     fewer_bodies c c' \<and> c_active c' = c_active c \<and> c_utxo c' = c_utxo c \<and> c_undos c' = c_undos c \<and> c_issued c' = c_issued c \<and>
     same_finality c c'"
proof (induction gone arbitrary: c)
  case (Cons k gone)
  let ?c = "drop_body (c\<lparr>c_index := hdel k (c_index c)\<rparr>) k"
  have i: "c_index ?c = hdel k (c_index c)" "c_active ?c = c_active c" "c_utxo ?c = c_utxo c" "c_undos ?c = c_undos c"
    "c_issued ?c = c_issued c" "same_finality c ?c"
    by (auto simp: drop_body_def same_finality_def split: option.split)
  have f: "fewer_bodies c ?c" using fewer_trans [of c "c\<lparr>c_index := hdel k (c_index c)\<rparr>"] by simp
  show ?case using Cons [of ?c] i f fewer_trans [of c ?c] same_finality_trans [of c ?c] by (auto simp: Let_def)
qed (simp add: same_finality_def)

lemma active_never_gone:
  assumes ok: "chain_ok mldsa pow U g bs c" and su: "sound_universe U g"
    and seeds: "\<And>k. k \<in> set seeds \<Longrightarrow> hget (c_index c) k \<noteq> None \<and> \<not> is_active c k"
    and x: "x \<in> set (forget_loop (c_index c) seeds seeds)"
  shows "x \<notin> set (map bid_of bs) \<and> hget (c_index c) x \<noteq> None"
proof -
  let ?P = "\<lambda>x. x \<in> set (map bid_of bs) \<or> hget (c_index c) x = None"
  have hw: "hwf (c_index c)" and tr: "tree_ok U g (c_index c)" using ok by (auto simp: chain_ok_def)
  have "\<not> ?P x"
  proof (rule forget_loop_avoids [OF _ _ _ x])
    fix k assume k: "k \<in> set seeds"
    have "k \<notin> set (map bid_of bs)"
    proof
      assume "k \<in> set (map bid_of bs)"
      then obtain i where i: "i < length bs" "k = bid_of (bs ! i)" by (auto simp: in_set_conv_nth)
      obtain e where "hget (c_index c) (bid_of (bs ! i)) = Some e" "bi_header e = blk_header (bs ! i)"
        by (rule active_entry [OF ok i(1)])
      then have "is_active c k" using i chain_ok_height [OF ok su i(1)] lget_active [OF ok, of i] by (simp add: is_active_def)
      then show False using seeds [OF k] by simp
    qed
    then show "\<not> ?P k" using seeds [OF k] by simp
  next
    fix y ch assume y: "\<not> ?P y" and ch: "ch \<in> set (children_of (c_index c) y)"
    obtain e where e: "hget (c_index c) ch = Some e" "hdr_prev_block (bi_header e) = y"
      using ch children_of_set [OF hw] by auto
    obtain ey where "hget (c_index c) y = Some ey" using y by auto
    then have yU: "y \<in> block_id ` blk_header ` U" using tree_okD [OF tr, of y ey] by (metis image_eqI)
    have "ch \<notin> set (map bid_of bs)"
    proof
      assume "ch \<in> set (map bid_of bs)"
      then obtain i where i: "i < length bs" "ch = bid_of (bs ! i)" by (auto simp: in_set_conv_nth)
      obtain e' where "hget (c_index c) (bid_of (bs ! i)) = Some e'" "bi_header e' = blk_header (bs ! i)"
        by (rule active_entry [OF ok i(1)])
      then have p: "hdr_prev_block (blk_header (bs ! i)) = y" using e i(2) by simp
      show False
      proof (cases "i = 0")
        case True
        then have "bs ! i = g" using ok valid_chain_hd unfolding chain_ok_def by blast
        then show False using p yU su by (auto simp: sound_universe_def)
      next
        case False
        then have "y = bid_of (bs ! (i - 1))" "bs ! (i - 1) \<in> set bs" using chain_ok_prev [OF ok su i(1)] p i(1) by auto
        then show False using y by auto
      qed
    qed
    then show "\<not> ?P ch" using e(1) by simp
  qed simp
  then show ?thesis by blast
qed

lemma forget_side_ok:
  assumes ok: "chain_ok mldsa pow U g bs c" and su: "sound_universe U g"
  shows "chain_ok mldsa pow U g bs (forget_side c ids) \<and> same_finality c (forget_side c ids)"
proof -
  define seeds where "seeds = remdups (filter (\<lambda>bid. hget (c_index c) bid \<noteq> None \<and> \<not> is_active c bid) ids)"
  define gone where "gone = forget_loop (c_index c) seeds seeds"
  define c1 where "c1 = foldl (\<lambda>c bid. drop_body (c\<lparr>c_index := hdel bid (c_index c)\<rparr>) bid) c gone"
  note inv = ok [unfolded chain_ok_def]
  have hw: "hwf (c_index c)" and tr: "tree_ok U g (c_index c)" using inv by auto
  have f: "\<And>k. hget (c_index c1) k = (if k \<in> set gone then None else hget (c_index c) k)" "hwf (c_index c1)" "fewer_bodies c c1"
    "c_active c1 = c_active c" "c_utxo c1 = c_utxo c" "c_undos c1 = c_undos c" "c_issued c1 = c_issued c" "same_finality c c1"
    using forget_fold [of c gone] hw unfolding c1_def [symmetric] by (simp_all add: Let_def)
  have ng: "k \<notin> set (map bid_of bs)" if "k \<in> set gone" for k
    using active_never_gone [OF ok su, of seeds k] that by (auto simp: gone_def seeds_def)
  have cl: "set (children_of (c_index c) x) \<subseteq> set gone" if "x \<in> set gone" for x
    using forget_loop_closed [OF hw, of seeds seeds] that by (auto simp: gone_def)
  have tr1: "tree_ok U g (c_index c1)"
    unfolding tree_ok_def
  proof (intro allI impI)
    fix k e assume "hget (c_index c1) k = Some e"
    then have k: "k \<notin> set gone" "hget (c_index c) k = Some e" using f(1) by (auto split: if_splits)
    have "hdr_prev_block (bi_header e) \<notin> set gone"
      using cl k children_of_set [OF hw, of "hdr_prev_block (bi_header e)"] by blast
    then show "k = block_id (bi_header e) \<and> bi_header e \<in> blk_header ` U \<and>
        (k = bid_of g \<and> bi_total_work e = block_work (hdr_bits (blk_header g)) \<or>
         k \<noteq> bid_of g \<and> (\<exists>p. hget (c_index c1) (hdr_prev_block (bi_header e)) = Some p \<and>
            unat (hdr_height (bi_header e)) = unat (hdr_height (bi_header p)) + 1 \<and>
            bi_total_work e = work_after (bi_total_work p) (hdr_bits (bi_header e))))"
      using tr k(2) unfolding tree_ok_def f(1) by simp
  qed
  have av: "active_ok mldsa pow U g bs (c_index c1)"
  proof -
    have "bid_of (bs ! i) \<notin> set gone" if "i < length bs" for i using ng that by force
    then show ?thesis using inv unfolding active_ok_def f(1) by auto
  qed
  have "chain_ok mldsa pow U g bs c1"
    using inv tr1 av f(2,4-7) bodies_ok_fewer [OF _ f(3)] unfolding chain_ok_def by simp
  then have "chain_ok mldsa pow U g bs (forget_side c ids)" "same_finality c (forget_side c ids)"
    using f(8) unfolding chain_ok_def same_finality_def forget_side_def Let_def seeds_def [symmetric] gone_def [symmetric] c1_def [symmetric]
    by simp_all
  then show ?thesis by blast
qed

lemma want_on_disk_ok: "chain_ok mldsa pow U g bs c \<Longrightarrow> chain_ok mldsa pow U g bs (want_on_disk c ids) \<and> same_finality c (want_on_disk c ids)"
  by (simp add: want_on_disk_def Let_def chain_ok_def same_finality_def)

section \<open>Reorganizing and submitting\<close>

lemma total_work_Ok: "chain_ok mldsa pow U g bs c \<Longrightarrow> \<exists>e. hget (c_index c) (tip_id c) = Some e \<and> total_work c = Ok (bi_total_work e)"
  by (erule tip_entry) (auto simp: total_work_def index_of_def)

text \<open>What a reorganization leaves: the blocks up to the fork are kept whatever the outcome.\<close>

definition reorg_spec :: "mldsa_lib \<Rightarrow> pow_engine \<Rightarrow> block set \<Rightarrow> block \<Rightarrow> block list \<Rightarrow> chain \<Rightarrow> chain \<Rightarrow> (nat, ChainError) result \<Rightarrow> bool" where
  "reorg_spec mldsa pow U g bs c c' r \<longleftrightarrow>
     (\<exists>bs' fork. chain_ok mldsa pow U g bs' c' \<and> same_finality c c' \<and> fork < length bs \<and> take (fork + 1) bs' = take (fork + 1) bs \<and>
        (finality_binds c \<longrightarrow> bs' = bs \<or> length bs - 1 - fork \<le> MAX_REORG_DEPTH) \<and>
        (\<forall>d. r = Ok d \<longrightarrow> d = length bs - 1 - fork) \<and>
        (finality_binds c \<longrightarrow> (\<forall>d. r \<noteq> Ok d) \<longrightarrow> r \<noteq> Panic \<longrightarrow> map bid_of bs' = map bid_of bs \<or> bs' = take (fork + 1) bs))"

lemma reorg_spec_same:
  assumes "chain_ok mldsa pow U g bs c'" "same_finality c c'" "\<forall>d. r \<noteq> Ok d"
  shows "reorg_spec mldsa pow U g bs c c' r"
  unfolding reorg_spec_def using assms chain_ok_active(1) [OF assms(1)]
  by (intro exI [of _ bs] exI [of _ 0]) auto

text \<open>The surcharge for depth only ever asks for more than the work of the active chain.\<close>

lemma mul_div_ge:
  assumes "u256_mul_div x (of_nat (100 + e)) 100 = Some y" "1 \<le> e" "e \<le> 25"
  shows "uval x \<le> uval y"
proof -
  have m: "unat (of_nat (100 + e) :: u64) = 100 + e" using assms(3) by (intro unat_of_nat_lt) simp
  show ?thesis
  proof (cases "u256_checked_mul_u64 x (of_nat (100 + e))")
    case (Some p)
    then have "uval p = uval x * (100 + e)" using m by (simp add: u256_checked_mul_u64_Some)
    moreover have "uval y = uval p div 100" using assms(1) Some by (simp add: u256_mul_div_def u256_checked_div_u64_Some)
    ultimately show ?thesis by (simp add: add_mult_distrib2)
  next
    case None
    obtain u where u: "\<not> uval x * (100 + e) < 2 ^ 256"
      using None uval_surj [of "uval x * (100 + e)"] m by (metis option.distinct(1) u256_checked_mul_u64_Some)
    have big: "12500 \<le> uval x"
    proof (rule ccontr)
      assume "\<not> 12500 \<le> uval x"
      then have "uval x * (100 + e) \<le> 12500 * 125" using assms(3) by (intro mult_le_mono) auto
      then show False using u by simp
    qed
    obtain q where q: "uval q = uval x div 100" "u256_checked_mul_u64 q (of_nat (100 + e)) = Some y"
      using assms(1) None by (auto simp: u256_mul_div_def u256_checked_div_u64_Some bind_eq_Some_conv)
    have "uval y = uval q * (100 + e)" using q(2) m by (simp add: u256_checked_mul_u64_Some)
    moreover have "uval q * 101 \<le> uval q * (100 + e)" using assms(2) by (intro mult_le_mono2) simp
    moreover have "uval x \<le> uval q * 101"
    proof -
      have "uval x = 100 * uval q + uval x mod 100" using q(1) by simp
      moreover have "uval x mod 100 < 100" by simp
      moreover have "125 \<le> uval q" using q(1) big by (simp add: le_div_geq less_eq_div_iff_mult_less_eq)
      ultimately show ?thesis by linarith
    qed
    ultimately show ?thesis by linarith
  qed
qed

lemma reorg_threshold_ge:
  assumes "reorg_threshold c fork depth = (Ok r :: (U256, 'e) result)" "total_work c = (Ok w :: (U256, 'e) result)"
  shows "uval w \<le> uval r"
proof (cases "depth \<le> REORG_PENALTY_FROM_DEPTH")
  case True
  then show ?thesis using assms by (simp add: reorg_threshold_def Let_def)
next
  case False
  define common where "common = (case Option.bind (lget (c_active c) fork) (hget (c_index c)) of Some b \<Rightarrow> bi_total_work b | None \<Rightarrow> U256_ZERO)"
  define since where "since = (case u256_checked_sub w common of Some x \<Rightarrow> x | None \<Rightarrow> U256_ZERO)"
  define e where "e = min ((depth - REORG_PENALTY_FROM_DEPTH) * REORG_PENALTY_PCT_PER_BLOCK) REORG_PENALTY_MAX_PCT"
  define sur where "sur = (case u256_mul_div since (of_nat (100 + e)) 100 of Some x \<Rightarrow> x | None \<Rightarrow> since)"
  have r: "r = (case u256_checked_add common sur of Some x \<Rightarrow> x | None \<Rightarrow> w)"
    using assms False unfolding reorg_threshold_def Let_def sur_def since_def common_def e_def by auto
  have e: "1 \<le> e" "e \<le> 25" using False by (auto simp: e_def REORG_PENALTY_PCT_PER_BLOCK_def REORG_PENALTY_MAX_PCT_def)
  have s: "uval since \<le> uval sur" using mul_div_ge [OF _ e] by (auto simp: sur_def split: option.split)
  have "uval w \<le> uval common + uval since"
  proof (cases "u256_checked_sub w common")
    case None
    then show ?thesis using u256_checked_sub_total [of common w] by (cases "uval common \<le> uval w") auto
  next
    case (Some x)
    then have "since = x" "uval x = uval w - uval common" by (simp_all add: since_def) (simp add: u256_checked_sub_Some)
    then show ?thesis by simp
  qed
  then show ?thesis using s r by (auto simp: u256_checked_add_Some split: option.splits)
qed

lemma fetch_and_switch_ok:
  assumes ok: "chain_ok mldsa pow U g bs c" and su: "sound_universe U g" and src: "source_ok U src"
    and fork: "fork < length bs" "length bs - 1 - fork \<le> length (c_undos c)"
    and tr: "fetch_and_switch mldsa pow src now c fork branch (length bs - 1 - fork) = (c', r)"
  shows "\<exists>ys. chain_ok mldsa pow U g (take (fork + 1) bs @ ys) c' \<and> same_finality c c' \<and>
    (\<forall>d. r = Ok d \<longrightarrow> d = length bs - 1 - fork \<and> map bid_of ys = branch) \<and>
    (length branch \<le> BODY_WINDOW \<longrightarrow> (\<forall>d. r \<noteq> Ok d) \<longrightarrow> r \<noteq> Panic \<longrightarrow>
       map bid_of (take (fork + 1) bs @ ys) = map bid_of bs \<or> ys = [])"
proof -
  have act: "c_active c = map bid_of bs" using ok by (simp add: chain_ok_def)
  have same: ?thesis if "chain_ok mldsa pow U g bs c'" "same_finality c c'" "\<forall>d. r \<noteq> Ok d"
    using that by (intro exI [of _ "drop (fork + 1) bs"]) simp
  have refl: "same_finality c c" by (simp add: same_finality_def)
  have sl: "slice_from (c_active c) (fork + 1) = Ok (drop (fork + 1) (c_active c))" using fork(1) act by simp
  note t = tr [unfolded fetch_and_switch_def sl andthen_def result.case]
  show ?thesis
  proof (cases "fetch_bodies src c 0 branch")
    case (Err i)
    then have e: "c' = forget_side (want_on_disk c branch) (drop i branch)" "\<forall>d. r \<noteq> Ok d"
      using t fetch_bodies_Err [OF Err] by (auto simp: slice_from_def)
    have "chain_ok mldsa pow U g bs c' \<and> same_finality c c'"
      using want_on_disk_ok [OF ok] forget_side_ok [OF _ su] same_finality_trans unfolding e(1) by blast
    then show ?thesis using same e(2) by simp
  next
    case (Ok bodies)
    have bb: "set bodies \<subseteq> U" "map bid_of bodies = branch" using fetch_bodies_ok [OF ok src Ok] by auto
    show ?thesis
    proof (cases "fetch_bodies src c 0 (drop (fork + 1) (c_active c))")
      case (Err i)
      then have "c' = c" "\<forall>d. r \<noteq> Ok d" using t Ok by auto
      then show ?thesis using same ok refl by simp
    next
      case old: (Ok old)
      have ob: "set old \<subseteq> U" "map bid_of old = map bid_of (drop (fork + 1) bs)"
        using fetch_bodies_ok [OF ok src old] act by (auto simp: drop_map)
      have sw: "switch_branch mldsa pow src now c fork (length bs - 1 - fork) bodies old = (c', r)" using t Ok old by simp
      obtain ys where ys: "chain_ok mldsa pow U g (take (fork + 1) bs @ ys) c'" "same_finality c c'"
        "\<forall>d. r = Ok d \<longrightarrow> d = length bs - 1 - fork \<and> ys = bodies"
        "length bodies \<le> BODY_WINDOW \<longrightarrow> (\<forall>d. r \<noteq> Ok d) \<longrightarrow> r \<noteq> Panic \<longrightarrow> ys = old \<or> ys = []"
        using switch_branch_ok [OF ok su bb(1) ob(1) fork(1) HOL.refl fork(2) ob(2) sw] by blast
      have "map bid_of (take (fork + 1) bs @ old) = map bid_of bs"
        using ob(2) by (simp only: map_append) (simp only: map_append [symmetric] append_take_drop_id)
      moreover have "length bodies = length branch" using bb(2) by (metis length_map)
      ultimately show ?thesis using ys bb(2) by (intro exI [of _ ys]) auto
    qed simp
  qed simp
qed

lemma last_take_append:
  assumes "fork < length bs" "map bid_of ys = path" "path = [] \<and> t = bid_of (bs ! fork) \<or> (path \<noteq> [] \<and> last path = t)"
  shows "bid_of (last (take (fork + 1) bs @ ys)) = t"
proof (cases "ys = []")
  case True
  then show ?thesis using assms by (auto simp: take_Suc_conv_app_nth)
next
  case False
  then show ?thesis using assms last_map [of ys bid_of] by auto
qed

lemma try_reorg_ok:
  assumes ok: "chain_ok mldsa pow U g bs c" and su: "sound_universe U g" and src: "source_ok U src"
    and tr: "try_reorg mldsa pow src c new_tip now = (c', r)"
  shows "reorg_spec mldsa pow U g bs c c' r \<and>
    (\<forall>d. r = Ok d \<longrightarrow> tip_id c' = new_tip \<and>
       (\<exists>e w. hget (c_index c) new_tip = Some e \<and> total_work c = (Ok w :: (U256, ChainError) result) \<and> uval w < uval (bi_total_work e)))"
    (is "?spec \<and> ?work")
proof -
  let ?binds = "finality_binds c"
  let ?reach = "if ?binds then MAX_REORG_DEPTH + 1 else BODY_WINDOW + 1"
  have same: "?spec \<and> ?work" if "c' = c" "\<forall>d. r \<noteq> Ok d"
  proof -
    have "same_finality c c'" using that(1) by (simp add: same_finality_def)
    then show ?thesis using reorg_spec_same [of mldsa pow U g bs c' c r] that ok by simp
  qed
  have rl: "?reach < 2 ^ 63" by (simp add: MAX_REORG_DEPTH_def BODY_WINDOW_def)
  have len: "length (c_active c) = length bs" by (rule chain_ok_active(2) [OF ok])
  obtain w where w: "(total_work c :: (U256, ChainError) result) = Ok w" using total_work_Ok [OF ok] by auto
  note t = tr [unfolded try_reorg_def Let_def andthen_def]
  show ?thesis
  proof (cases "path_to_active c new_tip ?reach")
    case None
    then show ?thesis using t by (intro same) auto
  next
    case (Some fb)
    obtain fork branch where path: "path_to_active c new_tip ?reach = Some (fork, branch)" using Some by (cases fb) auto
    note pth = path_to_active_ok [OF ok path rl]
    let ?depth = "length bs - 1 - fork"
    let ?req = "(if ?binds then reorg_threshold c fork ?depth else total_work c) :: (U256, ChainError) result"
    show ?thesis
    proof (cases "(?binds \<longrightarrow> ?depth \<le> MAX_REORG_DEPTH) \<and> (\<exists>required tip. ?req = Ok required \<and> hget (c_index c) new_tip = Some tip \<and>
        uval required < uval (bi_total_work tip)) \<and> ?depth \<le> length (c_undos c)")
      case False
      then show ?thesis using t path len pth(1) by (intro same) (auto simp: sub64_def index_of_def not_le not_less split: if_splits result.splits option.splits)
    next
      case True
      then obtain required tip where g: "?binds \<longrightarrow> ?depth \<le> MAX_REORG_DEPTH" "?req = Ok required"
        "hget (c_index c) new_tip = Some tip" "uval required < uval (bi_total_work tip)" "?depth \<le> length (c_undos c)" by blast
      have sw: "fetch_and_switch mldsa pow src now c fork branch ?depth = (c', r)"
        using t path len g pth(1) by (auto simp: sub64_def index_of_def split: if_splits)
      obtain ys where ys: "chain_ok mldsa pow U g (take (fork + 1) bs @ ys) c'" "same_finality c c'"
        "\<forall>d. r = Ok d \<longrightarrow> d = ?depth \<and> map bid_of ys = branch"
        "length branch \<le> BODY_WINDOW \<longrightarrow> (\<forall>d. r \<noteq> Ok d) \<longrightarrow> r \<noteq> Panic \<longrightarrow> map bid_of (take (fork + 1) bs @ ys) = map bid_of bs \<or> ys = []"
        using fetch_and_switch_ok [OF ok su src pth(1) g(5) sw] by blast
      have lb: "?binds \<Longrightarrow> length branch \<le> BODY_WINDOW" using pth(2) by (simp add: MAX_REORG_DEPTH_def BODY_WINDOW_def)
      have ?spec unfolding reorg_spec_def
        using ys pth(1) g(1) lb by (intro exI [of _ "take (fork + 1) bs @ ys"] exI [of _ fork]) auto
      moreover have "tip_id c' = new_tip" if "r = Ok d" for d
        using last_take_append [OF pth(1) _ pth(3), of ys] chain_ok_active(4) [OF ys(1)] ys(3) that by simp
      moreover have "uval w \<le> uval required"
        using g(2) w reorg_threshold_ge [of c fork ?depth required w] by (auto split: if_splits)
      ultimately show ?thesis using g(3,4) w by (auto intro: le_less_trans)
    qed
  qed
qed

lemma index_side_ok:
  assumes ok: "chain_ok mldsa pow U g bs c" and su: "sound_universe U g" and b: "b \<in> U" "hget (c_index c) (bid_of b) = None"
    and p: "hget (c_index c) (hdr_prev_block (blk_header b)) = Some p"
      "unat (hdr_height (blk_header b)) = unat (hdr_height (bi_header p)) + 1"
    and tw: "tw = work_after (bi_total_work p) (hdr_bits (blk_header b))"
  shows "chain_ok mldsa pow U g bs (index_side c b tw sz) \<and> same_finality c (index_side c b tw sz) \<and>
    c_index (index_side c b tw sz) = hput (bid_of b) \<lparr>bi_header = blk_header b, bi_total_work = tw, bi_issued = 0\<rparr> (c_index c)"
proof -
  define e where "e = \<lparr>bi_header = blk_header b, bi_total_work = tw, bi_issued = 0\<rparr>"
  define c1 where "c1 = c\<lparr>c_index := hput (bid_of b) e (c_index c)\<rparr>"
  define c2 where "c2 = keep_body c1 (bid_of b) b"
  define c3 where "c3 = keep_side_body c2 (bid_of b) sz"
  note inv = ok [unfolded chain_ok_def]
  have d: "index_side c b tw sz = c3" by (simp add: index_side_def Let_def c3_def c2_def c1_def e_def)
  have tr: "tree_ok U g (hput (bid_of b) e (c_index c))"
    by (rule tree_ok_put [OF _ su b(1) p(1,2)]) (use inv tw in \<open>simp_all add: e_def\<close>)
  have "bid_of (bs ! i) \<noteq> bid_of b" if "i < length bs" for i
    using active_entry [OF ok that] b(2) by (metis option.distinct(1))
  then have av: "active_ok mldsa pow U g bs (hput (bid_of b) e (c_index c))" using inv by (simp add: active_ok_def)
  have ok1: "chain_ok mldsa pow U g bs c1" using inv tr av by (simp add: chain_ok_def c1_def)
  have s2: "same_core c1 c2" using keep_body_frame by (simp add: c2_def)
  have "bodies_ok U (c_blocks c2)" unfolding c2_def by (rule bodies_ok_keep [OF _ b(1)]) (use ok1 in \<open>simp add: chain_ok_def\<close>)
  then have ok2: "chain_ok mldsa pow U g bs c2" by (rule chain_ok_frame [OF ok1 s2])
  have s3: "same_core c2 c3" "fewer_bodies c2 c3" using keep_side_body_frame by (simp_all add: c3_def)
  have ok3: "chain_ok mldsa pow U g bs c3"
    by (rule chain_ok_frame [OF ok2 s3(1)], rule bodies_ok_fewer [OF _ s3(2)]) (use ok2 in \<open>simp add: chain_ok_def\<close>)
  have "same_core c1 c3" using s2 s3(1) same_core_trans by blast
  then show ?thesis using ok3 unfolding d by (auto simp: same_core_def same_finality_def c1_def e_def)
qed

text \<open>What a submission does to the history, outcome by outcome.\<close>

definition submit_spec :: "mldsa_lib \<Rightarrow> pow_engine \<Rightarrow> block set \<Rightarrow> block \<Rightarrow> block list \<Rightarrow> chain \<Rightarrow> block \<Rightarrow> chain \<Rightarrow> (Accept, ChainError) result \<Rightarrow> bool" where
  "submit_spec mldsa pow U g bs c b c' r \<longleftrightarrow>
     (\<exists>bs'. chain_ok mldsa pow U g bs' c' \<and> same_finality c c' \<and>
        (finality_binds c \<longrightarrow> take (length bs - MAX_REORG_DEPTH) bs' = take (length bs - MAX_REORG_DEPTH) bs) \<and>
        (r = Ok Extended \<longrightarrow> bs' = bs @ [b]) \<and> (r = Ok SideBranch \<or> r = Ok AlreadyKnown \<longrightarrow> bs' = bs) \<and>
        (\<forall>d. r = Ok (Reorganized d) \<longrightarrow> take (length bs - d) bs' = take (length bs - d) bs \<and> last (c_active c') = bid_of b) \<and>
        (finality_binds c \<longrightarrow> (\<exists>e. r = Err e) \<longrightarrow> prefix (map bid_of bs') (map bid_of bs)))"

lemma submit_spec_same:
  "chain_ok mldsa pow U g bs c' \<Longrightarrow> same_finality c c' \<Longrightarrow> r \<noteq> Ok Extended \<Longrightarrow> (\<And>d. r \<noteq> Ok (Reorganized d)) \<Longrightarrow>
   submit_spec mldsa pow U g bs c b c' r"
  unfolding submit_spec_def by (intro exI [of _ bs]) auto

lemma check_attachment_Ok:
  "check_attachment c h = Ok n \<longleftrightarrow> (\<exists>p. hget (c_index c) (hdr_prev_block h) = Some p \<and> n = unat (hdr_height (bi_header p)) \<and>
     unat (hdr_height h) = n + 1)"
proof (cases "hget (c_index c) (hdr_prev_block h)")
  case (Some p)
  have "check_attachment c h = Ok n \<longleftrightarrow> unat (hdr_height (bi_header p)) + 1 < 2 ^ 64 \<and>
      unat (hdr_height h) = unat (hdr_height (bi_header p)) + 1 \<and> n = unat (hdr_height (bi_header p))"
    by (simp add: check_attachment_def Some Let_def) auto
  then show ?thesis using Some unat_u64_lt [of "hdr_height h"] by auto
qed (simp add: check_attachment_def)

lemma check_side_Ok:
  "check_side pow c b ph now = Ok (tw, sz) \<Longrightarrow>
   \<exists>p. hget (c_index c) (hdr_prev_block (blk_header b)) = Some p \<and> tw = work_after (bi_total_work p) (hdr_bits (blk_header b))"
  by (auto simp: check_side_def Let_def index_of_def split: if_splits option.splits)

lemma reorg_spec_submit:
  assumes rs: "reorg_spec mldsa pow U g bs c1 c' r" and fin: "same_finality c c1" "finality_binds c = finality_binds c1"
    and tip: "\<And>d. r = Ok d \<Longrightarrow> tip_id c' = bid_of b"
  shows "submit_spec mldsa pow U g bs c b c' (rbind r (\<lambda>d. Ok (Reorganized d)))"
proof -
  obtain bs' fork where s: "chain_ok mldsa pow U g bs' c'" "same_finality c1 c'" "fork < length bs" "take (fork + 1) bs' = take (fork + 1) bs"
    "finality_binds c1 \<longrightarrow> bs' = bs \<or> length bs - 1 - fork \<le> MAX_REORG_DEPTH" "\<forall>d. r = Ok d \<longrightarrow> d = length bs - 1 - fork"
    "finality_binds c1 \<longrightarrow> (\<forall>d. r \<noteq> Ok d) \<longrightarrow> r \<noteq> Panic \<longrightarrow> map bid_of bs' = map bid_of bs \<or> bs' = take (fork + 1) bs"
    using rs unfolding reorg_spec_def by blast
  have keep: "take n bs' = take n bs" if "n \<le> fork + 1" for n
    using s(4) that by (metis min.absorb_iff1 take_take)
  have "take (length bs - MAX_REORG_DEPTH) bs' = take (length bs - MAX_REORG_DEPTH) bs" if "finality_binds c"
    using s(5) that fin(2) keep s(3) by (cases "bs' = bs") auto
  moreover have "take (length bs - d) bs' = take (length bs - d) bs" if "r = Ok d" for d
    using s(3,6) that by (intro keep) auto
  moreover have "prefix (map bid_of bs') (map bid_of bs)" if "finality_binds c" "\<exists>e. r = Err e"
  proof -
    have "map bid_of bs' = map bid_of bs \<or> bs' = take (fork + 1) bs" using s(7) that fin(2) by auto
    then show ?thesis by (metis map_mono_prefix prefix_order.refl take_is_prefix)
  qed
  moreover have "same_finality c c'" using fin(1) s(2) same_finality_trans by blast
  ultimately show ?thesis
    unfolding submit_spec_def using s(1) tip by (intro exI [of _ bs']) (auto simp: rbind_Err_iff tip_id_def)
qed

lemma finality_binds_cong: "same_finality c c' \<Longrightarrow> length (c_active c') = length (c_active c) \<Longrightarrow> finality_binds c' = finality_binds c"
  by (simp add: finality_binds_def same_finality_def chain_height_def)

text \<open>The work of the tip never goes down when a block is accepted.\<close>

definition work_grows :: "chain \<Rightarrow> chain \<Rightarrow> (Accept, ChainError) result \<Rightarrow> bool" where
  "work_grows c c' r \<longleftrightarrow>
     (\<exists>w w'. total_work c = (Ok w :: (U256, unit) result) \<and> total_work c' = (Ok w' :: (U256, unit) result) \<and>
        (\<forall>a. r = Ok a \<longrightarrow> uval w \<le> uval w') \<and> (\<forall>d. r = Ok (Reorganized d) \<longrightarrow> uval w < uval w'))"

lemma total_work_entry: "hget (c_index c) (tip_id c) = Some e \<Longrightarrow> total_work c = Ok (bi_total_work e)"
  by (simp add: total_work_def index_of_def)

lemma work_grows_same:
  assumes "chain_ok mldsa pow U g bs c" "hget (c_index c') (tip_id c) = hget (c_index c) (tip_id c)" "tip_id c' = tip_id c"
    "\<And>d. r \<noteq> Ok (Reorganized d)"
  shows "work_grows c c' r"
proof -
  obtain e where e: "hget (c_index c) (tip_id c) = Some e" by (rule tip_entry [OF assms(1)])
  then show ?thesis using assms(2-4) by (simp add: work_grows_def total_work_entry)
qed

lemma extended_ok:
  assumes ok: "chain_ok mldsa pow U g bs c" and su: "sound_universe U g" and b: "b \<in> U"
    and c: "connect mldsa pow src c b now = (c', r)"
  shows "submit_spec mldsa pow U g bs c b c' (rbind (map_err Validation r) (\<lambda>_. Ok Extended)) \<and>
    work_grows c c' (rbind (map_err Validation r) (\<lambda>_. Ok Extended))"
proof (rule disjE [OF connect_cases [OF ok su b c]])
  assume "\<exists>fees. r = Ok fees \<and> check_block mldsa pow b (c_utxo c) (context_of c bs now) = Ok fees \<and>
      chain_ok mldsa pow U g (bs @ [b]) c' \<and> connected c b c'"
  then have o: "\<exists>fees. r = Ok fees" "chain_ok mldsa pow U g (bs @ [b]) c'" "connected c b c'" by auto
  obtain e p where e: "c_index c' = hput (bid_of b) e (c_index c)" "hget (c_index c) (tip_id c) = Some p"
    "bi_total_work e = work_after (bi_total_work p) (hdr_bits (blk_header b))"
    using o(3) by (auto simp: connected_def)
  have "hget (c_index c') (tip_id c') = Some e" using chain_ok_active(4) [OF o(2)] e(1) by simp
  then have "work_grows c c' (rbind (map_err Validation r) (\<lambda>_. Ok Extended))"
    using e(2,3) work_after_ge by (auto simp: work_grows_def total_work_entry)
  moreover have "submit_spec mldsa pow U g bs c b c' (rbind (map_err Validation r) (\<lambda>_. Ok Extended))"
    unfolding submit_spec_def using o by (intro exI [of _ "bs @ [b]"]) (auto simp: connected_def same_finality_def)
  ultimately show ?thesis by blast
next
  assume e: "c' = c \<and> (\<forall>fees. r \<noteq> Ok fees) \<and> r = check_block mldsa pow b (c_utxo c) (context_of c bs now)"
  have "same_finality c c" by (simp add: same_finality_def)
  then show ?thesis
    using e ok submit_spec_same [OF ok, of c "rbind (map_err Validation r) (\<lambda>_. Ok Extended)" b] work_grows_same [OF ok, of c] by auto
qed

lemma reorg_work:
  assumes ok: "chain_ok mldsa pow U g bs c" and su: "sound_universe U g" and ok1: "chain_ok mldsa pow U g bs c1"
    and e: "hget (c_index c) (tip_id c) = Some e" "hget (c_index c1) (tip_id c) = hget (c_index c) (tip_id c)"
    and n: "\<exists>x. hget (c_index c1) new_tip = Some x \<and> bi_total_work x = tw"
    and R: "reorg_spec mldsa pow U g bs c1 c' r \<and> (\<forall>d. r = Ok d \<longrightarrow> tip_id c' = new_tip \<and>
       (\<exists>e w. hget (c_index c1) new_tip = Some e \<and> total_work c1 = (Ok w :: (U256, ChainError) result) \<and> uval w < uval (bi_total_work e)))"
    and gt: "bi_total_work e < tw"
  shows "work_grows c c' (rbind r (\<lambda>d. Ok (Reorganized d)))"
proof -
  obtain bs' where ok': "chain_ok mldsa pow U g bs' c'" using R by (auto simp: reorg_spec_def)
  obtain e' where e': "hget (c_index c') (tip_id c') = Some e'" by (rule tip_entry [OF ok'])
  have tr: "tree_ok U g (c_index c1)" "tree_ok U g (c_index c')" using ok1 ok' by (auto simp: chain_ok_def)
  have "uval (bi_total_work e) < uval (bi_total_work e')" if "r = Ok d" for d
  proof -
    have t: "tip_id c' = new_tip" using R that by blast
    obtain x where x: "hget (c_index c1) new_tip = Some x" "bi_total_work x = tw" using n by blast
    have "bi_total_work x = bi_total_work e'" using tree_work_unique [OF su tr x(1)] e' t by blast
    then show ?thesis using gt x(2) by simp
  qed
  then show ?thesis using e(1) e' by (auto simp: work_grows_def total_work_entry less_imp_le)
qed

lemma side_block_ok:
  assumes ok: "chain_ok mldsa pow U g bs c" and su: "sound_universe U g" and src: "source_ok U src"
    and b: "b \<in> U" "hget (c_index c) (bid_of b) = None"
    and p: "hget (c_index c) (hdr_prev_block (blk_header b)) = Some p"
      "unat (hdr_height (blk_header b)) = unat (hdr_height (bi_header p)) + 1"
    and tw: "tw = work_after (bi_total_work p) (hdr_bits (blk_header b))"
    and s: "andthen (index_side c b tw sz) (total_work (index_side c b tw sz)) (\<lambda>ours.
        if tw \<le> ours then (index_side c b tw sz, Ok SideBranch)
        else case try_reorg mldsa pow src (index_side c b tw sz) (bid_of b) now of
          (c2, r) \<Rightarrow> (c2, rbind r (\<lambda>depth. Ok (Reorganized depth)))) = (c', r)"
  shows "submit_spec mldsa pow U g bs c b c' r \<and> work_grows c c' r"
proof -
  define c1 where "c1 = index_side c b tw sz"
  have s1: "chain_ok mldsa pow U g bs c1" "same_finality c c1"
    "c_index c1 = hput (bid_of b) \<lparr>bi_header = blk_header b, bi_total_work = tw, bi_issued = 0\<rparr> (c_index c)"
    using index_side_ok [OF ok su b p tw, of sz] unfolding c1_def by blast+
  have act: "c_active c1 = c_active c" using ok s1(1) by (simp add: chain_ok_def)
  obtain e where e: "hget (c_index c) (tip_id c) = Some e" by (rule tip_entry [OF ok])
  then have "tip_id c \<noteq> bid_of b" using b(2) by auto
  then have t1: "tip_id c1 = tip_id c" "hget (c_index c1) (tip_id c) = hget (c_index c) (tip_id c)"
    using act s1(3) by (simp_all add: tip_id_def)
  have w: "(total_work c1 :: (U256, ChainError) result) = Ok (bi_total_work e)" using e t1 by (simp add: total_work_entry)
  note d = s [folded c1_def, unfolded w andthen_def, simplified]
  show ?thesis
  proof (cases "tw \<le> bi_total_work e")
    case True
    then have "c' = c1" "r = Ok SideBranch" using d by auto
    then show ?thesis using submit_spec_same [OF s1(1,2)] work_grows_same [OF ok t1(2,1)] by simp
  next
    case False
    obtain c2 r2 where c2: "try_reorg mldsa pow src c1 (bid_of b) now = (c2, r2)" by (cases "try_reorg mldsa pow src c1 (bid_of b) now")
    have cr: "c' = c2" "r = rbind r2 (\<lambda>d. Ok (Reorganized d))" using False d c2 by auto
    note R = try_reorg_ok [OF s1(1) su src c2]
    have fb: "finality_binds c = finality_binds c1" using finality_binds_cong [OF s1(2)] act by simp
    have "submit_spec mldsa pow U g bs c b c' r" unfolding cr
      by (rule reorg_spec_submit [OF conjunct1 [OF R] s1(2) fb]) (use R in blast)
    moreover have "work_grows c c' r" unfolding cr
      by (rule reorg_work [OF ok su s1(1) e t1(2) _ R, of tw]) (use False s1(3) in auto)
    ultimately show ?thesis by blast
  qed
qed

lemma submit_ok:
  assumes ok: "chain_ok mldsa pow U g bs c" and su: "sound_universe U g" and src: "source_ok U src" and b: "b \<in> U"
    and s: "submit mldsa pow src c b now = (c', r)"
  shows "submit_spec mldsa pow U g bs c b c' r \<and> work_grows c c' r"
proof -
  have refl: "same_finality c c" by (simp add: same_finality_def)
  have same: ?thesis if "c' = c" "r \<noteq> Ok Extended" "\<And>d. r \<noteq> Ok (Reorganized d)"
    using submit_spec_same [OF ok refl that(2,3)] work_grows_same [OF ok _ _ that(3)] that(1) by simp
  note d = s [unfolded submit_def Let_def]
  consider (known) "has_block c (bid_of b)" | (loose) "\<not> has_block c (bid_of b)" "\<forall>n. check_attachment c (blk_header b) \<noteq> Ok n"
    | (attached) n where "\<not> has_block c (bid_of b)" "check_attachment c (blk_header b) = Ok n" by blast
  then show ?thesis
  proof cases
    case known
    then show ?thesis using d by (intro same) auto
  next
    case loose
    then show ?thesis using d by (intro same) (auto simp: andthen_def split: result.splits)
  next
    case attached
    then have new: "hget (c_index c) (bid_of b) = None" by (simp add: has_block_def)
    obtain p where p: "hget (c_index c) (hdr_prev_block (blk_header b)) = Some p" "unat (hdr_height (blk_header b)) = unat (hdr_height (bi_header p)) + 1"
      using attached(2) by (auto simp: check_attachment_Ok)
    show ?thesis
    proof (cases "hdr_prev_block (blk_header b) = tip_id c")
      case True
      obtain c1 r1 where c1: "connect mldsa pow src c b now = (c1, r1)" by (cases "connect mldsa pow src c b now")
      then have "c' = c1" "r = rbind (map_err Validation r1) (\<lambda>_. Ok Extended)" using d attached True by (auto simp: andthen_def)
      then show ?thesis using extended_ok [OF ok su b c1] by simp
    next
      case side: False
      show ?thesis
      proof (cases "check_side pow c b n now")
        case (Ok ts)
        obtain tw sz where ts: "ts = (tw, sz)" by (cases ts)
        have tw: "tw = work_after (bi_total_work p) (hdr_bits (blk_header b))" using check_side_Ok [of pow c b n now tw sz] Ok ts p(1) by auto
        show ?thesis
          by (rule side_block_ok [OF ok su src b new p tw, of sz now])
            (use d attached side Ok ts in \<open>simp add: andthen_def [of c]\<close>)
      qed (use d attached side in \<open>(intro same; auto simp: andthen_def)+\<close>)
    qed
  qed
qed

end
