(* ===== verification/ChainProps.thy ===== *)
theory ChainProps
  imports ChainInv
begin

text \<open>
  The states a node can be in: those reached from a new chain by submitting blocks, by the clock of
  rolling finality and by taking what a reorganization left aside (\<open>reachable\<close>). The invariant holds in all of
  them, which gives the properties of the chain: it implements the abstract ledger, its money is bounded by the
  schedule, the work of its tip never goes down and what finality covers does not move.
\<close>

section \<open>The first state\<close>

lemma genesis_ok_coinbase:
  assumes "genesis_ok g"
  obtains cb a where "blk_transactions g = [cb]" "tx_is_coinbase cb" "total_output cb = Ok a" "units a = outs_value (tx_outputs cb)"
    "units a \<le> MAX_SUPPLY"
proof -
  from assms obtain cb where cb: "blk_transactions g = [cb]" "tx_is_coinbase cb" "outs_value (tx_outputs cb) \<le> MAX_SUPPLY"
    by (auto simp: genesis_ok_def)
  have "sum_list (map units (map out_value (tx_outputs cb))) < 2 ^ 64"
    using cb(3) by (simp add: outs_value_def comp_def supply_defs)
  then have "checked_sum (map out_value (tx_outputs cb)) \<noteq> None" by (metis checked_sum_None linorder_not_less)
  then obtain a where a: "total_output cb = Ok a" by (auto simp: total_output_def)
  then have "units a = outs_value (tx_outputs cb)" using total_output_Ok by (simp add: outs_value_def)
  then show thesis using that cb a by simp
qed

lemma chain_new_ok:
  assumes "sound_universe U g"
  shows "\<exists>c. chain_new net g = Ok c \<and> chain_ok mldsa pow U g [g] c"
proof -
  have g: "g \<in> U" "genesis_ok g" using assms by (simp_all add: sound_universe_def)
  obtain cb a where cb: "blk_transactions g = [cb]" "tx_is_coinbase cb" "total_output cb = Ok a" "units a = outs_value (tx_outputs cb)"
    "units a \<le> MAX_SUPPLY" by (rule genesis_ok_coinbase [OF g(2)])
  obtain s u where a: "apply_transaction utxo_new cb 0 undo_new = (s, u)" by (cases "apply_transaction utxo_new cb 0 undo_new")
  define e where "e = \<lparr>bi_header = blk_header g, bi_total_work = block_work (hdr_bits (blk_header g)), bi_issued = units a\<rparr>"
  have "genesis_apply (blk_transactions g) 0 utxo_new undo_new = Ok (units a, s, u)"
    using cb a by (simp add: supply_defs add64_def)
  then obtain c where c: "chain_new net g = Ok c" "c_index c = hput (bid_of g) e []" "c_active c = [bid_of g]" "c_utxo c = s"
    "c_undos c = [u]" "c_issued c = units a" "c_blocks c = hput (bid_of g) g []"
    by (simp add: chain_new_def Let_def e_def)
  have vc: "valid_chain mldsa pow U g [g] (units a)" using valid_chain.genesis [of mldsa pow U g] cb by simp
  have gs: "utxo_get s = ledger_of [g]"
    using apply_transaction_ledger [of utxo_new cb 0 undo_new] a cb(1) by (simp add: utxo_get_new ledger_of_single ledger_txs_def)
  have iv: "utxo_inv s" using utxo_inv_apply [OF utxo_inv_new, of cb 0 undo_new] a by simp
  have rs: "restores u (ledger_of [g]) (ledger_of [])"
    unfolding restores_def
  proof (intro allI impI)
    fix s2 assume s2: "utxo_inv s2" "utxo_get s2 = ledger_of [g]"
    have "tracks utxo_new s u" by (rule tracks_apply [OF tracks_new a])
    then have "tracks utxo_new s2 u" using s2(2) gs by (simp add: tracks_def)
    then show "utxo_get (utxo_undo s2 u) = ledger_of []"
      using utxo_undo_get [of utxo_new s2 u] by (simp add: utxo_get_new ledger_of_def)
  qed
  have "chain_ok mldsa pow U g [g] c"
    unfolding chain_ok_def c(2-7)
    using vc gs iv rs g by (simp add: active_ok_def tree_ok_def bodies_ok_def e_def BODY_WINDOW_def)
  then show ?thesis using c(1) by blast
qed

section \<open>Reachable states\<close>

text \<open>The blocks submitted, and those the disk returns, are among \<open>U\<close>; the network, the clocks and the disk are arbitrary.\<close>

inductive reachable :: "mldsa_lib \<Rightarrow> pow_engine \<Rightarrow> block set \<Rightarrow> block \<Rightarrow> chain \<Rightarrow> bool" for mldsa pow U g where
  start: "chain_new net g = Ok c \<Longrightarrow> reachable mldsa pow U g c"
| block: "reachable mldsa pow U g c \<Longrightarrow> b \<in> U \<Longrightarrow> source_ok U src \<Longrightarrow> submit mldsa pow src c b now = (c', r) \<Longrightarrow>
    reachable mldsa pow U g c'"
| opened: "reachable mldsa pow U g c \<Longrightarrow> note_start c now = (Ok c' :: (chain, unit) result) \<Longrightarrow> reachable mldsa pow U g c'"
| live: "reachable mldsa pow U g c \<Longrightarrow> note_live_at c now at = (Ok (c', x) :: (chain \<times> bool, unit) result) \<Longrightarrow> reachable mldsa pow U g c'"
| bind: "reachable mldsa pow U g c \<Longrightarrow> reachable mldsa pow U g (bind_finality c)"
| held: "reachable mldsa pow U g c \<Longrightarrow> reachable mldsa pow U g (set_held_before c secs)"
| hold: "reachable mldsa pow U g c \<Longrightarrow> reachable mldsa pow U g (set_finality_hold c h)"
| taken: "reachable mldsa pow U g c \<Longrightarrow> reachable mldsa pow U g (fst (take_disconnected c))"
| taken_txids: "reachable mldsa pow U g c \<Longrightarrow> reachable mldsa pow U g (fst (take_disconnected_txids c))"

text \<open>Everything but submission leaves the history alone.\<close>

definition same_history :: "chain \<Rightarrow> chain \<Rightarrow> bool" where
  "same_history c c' \<longleftrightarrow> c_index c' = c_index c \<and> c_active c' = c_active c \<and> c_utxo c' = c_utxo c \<and> c_undos c' = c_undos c \<and>
     c_issued c' = c_issued c \<and> c_blocks c' = c_blocks c"

lemma same_history_ok: "chain_ok mldsa pow U g bs c \<Longrightarrow> same_history c c' \<Longrightarrow> chain_ok mldsa pow U g bs c'"
  by (simp add: chain_ok_def same_history_def)

lemma clock_same_history [simp]:
  "same_history c (bind_finality c)" "same_history c (set_held_before c secs)" "same_history c (set_finality_hold c h)"
  "same_history c (fst (take_disconnected c))" "same_history c (fst (take_disconnected_txids c))"
  by (simp_all add: same_history_def bind_finality_def set_held_before_def set_finality_hold_def take_disconnected_def
      take_disconnected_txids_def)

lemma note_start_same_history: "note_start c now = Ok c' \<Longrightarrow> same_history c c'"
  by (auto simp: note_start_def same_history_def split: if_splits)

lemma note_live_same_history:
  assumes "note_live_at c now at = (Ok (c', x) :: (chain \<times> bool, 'e) result)"
  shows "same_history c c'"
proof (cases "finality_binds c")
  case False
  then obtain tip where tip: "(chain_tip c :: (block_header, 'e) result) = Ok tip"
    using assms by (auto simp: note_live_at_def Let_def)
  note t = assms [unfolded note_live_at_def if_not_P [OF False] tip rbind.simps Let_def]
  show ?thesis
  proof (cases "now - unat (hdr_time tip) > RECENT_TIP_SECS")
    case True
    then show ?thesis using t by (cases "c_recent_since c") (auto simp: same_history_def)
  next
    case recent: False
    have "same_history c (c\<lparr>c_recent_since := s\<rparr>)" "same_history c (c\<lparr>c_recent_since := s, c_bound := True, c_returning := False\<rparr>)" for s
      by (simp_all add: same_history_def)
    then show ?thesis using t [unfolded if_not_P [OF recent]] by (simp only: result.inject prod.inject split: if_splits) blast+
  qed
qed (use assms in \<open>simp add: note_live_at_def same_history_def\<close>)

lemma reachable_ok:
  assumes "reachable mldsa pow U g c" "sound_universe U g"
  shows "\<exists>bs. chain_ok mldsa pow U g bs c"
  using assms(1)
proof (induction rule: reachable.induct)
  case (start net c)
  then show ?case using chain_new_ok [OF assms(2), of net mldsa pow] by auto
next
  case (block c b src now c' r)
  then obtain bs where "chain_ok mldsa pow U g bs c" by blast
  from submit_ok [OF this assms(2) block.hyps(3,2,4)] show ?case by (auto simp: submit_spec_def)
qed (blast intro: same_history_ok note_start_same_history note_live_same_history clock_same_history)+

section \<open>No panic\<close>

lemma tree_heights:
  assumes "tree_ok U g ix" "sound_universe U g"
  shows "hget ix k = Some e \<Longrightarrow> {..unat (hdr_height (bi_header e))} \<subseteq> (\<lambda>b. unat (hdr_height (blk_header b))) ` U"
proof (induction "unat (hdr_height (bi_header e))" arbitrary: k e)
  case 0
  then show ?case using tree_okD(2) [OF assms(1) 0(2)] by force
next
  case (Suc n)
  have gh: "hdr_height (blk_header g) = 0" "g \<in> U" using assms(2) by (auto simp: sound_universe_def genesis_ok_def)
  have "bi_header e \<noteq> blk_header g" using Suc.hyps(2) gh(1) by auto
  moreover have "bi_header e \<in> blk_header ` U" "blk_header g \<in> blk_header ` U" using tree_okD(2) [OF assms(1) Suc.prems] gh(2) by auto
  ultimately have "k \<noteq> bid_of g" using tree_okD(1) [OF assms(1) Suc.prems] universe_header [OF assms(2)] by metis
  then obtain p where p: "hget ix (hdr_prev_block (bi_header e)) = Some p" "unat (hdr_height (bi_header e)) = unat (hdr_height (bi_header p)) + 1"
    by (rule tree_ok_parent [OF assms(1) Suc.prems])
  then have "{..n} \<subseteq> (\<lambda>b. unat (hdr_height (blk_header b))) ` U" using Suc.hyps(1) [of p] Suc.hyps(2) by simp
  moreover have "Suc n \<in> (\<lambda>b. unat (hdr_height (blk_header b))) ` U"
    using tree_okD(2) [OF assms(1) Suc.prems] Suc.hyps(2) by force
  ultimately show ?case unfolding Suc.hyps(2) [symmetric] by (simp add: atMost_Suc)
qed

lemma tree_height_bound:
  assumes "tree_ok U g ix" "sound_universe U g" "hget ix k = Some e"
  shows "unat (hdr_height (bi_header e)) < 2 ^ 62"
proof -
  have f: "finite U" "card U < 2 ^ 62" using assms(2) by (simp_all add: sound_universe_def)
  have "card {..unat (hdr_height (bi_header e))} \<le> card ((\<lambda>b. unat (hdr_height (blk_header b))) ` U)"
    by (rule card_mono [OF _ tree_heights [OF assms]]) (use f in simp)
  also have "\<dots> \<le> card U" by (rule card_image_le [OF f(1)])
  finally show ?thesis using f(2) by simp
qed

lemma ledger_txs_height:
  "ledger_txs h ts L op = Some e \<Longrightarrow> ue_height e = h \<or> L op = Some e"
proof (induction ts arbitrary: L)
  case (Cons t ts)
  have "ledger_txs h ts (ledger_tx h t L) op = Some e" using Cons.prems by (simp add: ledger_txs_def)
  from Cons.IH [OF this] show ?case by (auto simp: ledger_tx_def dest: created_entry_height split: option.splits if_splits)
qed (simp add: ledger_txs_def)

lemma ledger_height: "ledger_of bs op = Some e \<Longrightarrow> ue_height e < length bs"
proof (induction bs rule: rev_induct)
  case (snoc b bs)
  then show ?case using ledger_txs_height unfolding ledger_of_snoc by fastforce
qed (simp add: ledger_of_def)

text \<open>What the environment must give: an engine that returns, a clock that is not at the end of time.\<close>

definition calm :: "pow_engine \<Rightarrow> nat \<Rightarrow> bool" where
  "calm pow now \<longleftrightarrow> (\<forall>h. pow h \<noteq> Panic) \<and> now + MAX_FUTURE_TIME < 2 ^ 64"

lemma connect_no_panic:
  assumes "chain_ok mldsa pow U g bs c" "sound_universe U g" "b \<in> U" "calm pow now"
  shows "connect mldsa pow src c b now \<noteq> (c', Panic)"
proof
  assume p: "connect mldsa pow src c b now = (c', Panic)"
  have len: "length bs < 2 ^ 62" using valid_chain_distinct(2) assms(1,2) unfolding chain_ok_def by blast
  have "low_heights (bv_view (block_view_new (c_utxo c)))"
    using assms(1) len ledger_height by (intro low_heights_set) (fastforce simp: chain_ok_def COINBASE_MATURITY_def)
  then have "check_block mldsa pow b (c_utxo c) (context_of c bs now) \<noteq> Panic"
    using assms(4) len by (intro check_block_no_panic) (auto simp: calm_def context_of_def COINBASE_MATURITY_def)
  then show False using connect_cases [OF assms(1-3) p] by auto
qed

lemma connect_bodies_no_panic:
  "chain_ok mldsa pow U g bs c \<Longrightarrow> sound_universe U g \<Longrightarrow> set bl \<subseteq> U \<Longrightarrow> calm pow now \<Longrightarrow>
   connect_bodies mldsa pow src now c bl \<noteq> (c', Panic)"
proof (induction bl arbitrary: bs c)
  case (Cons b bl)
  have b: "b \<in> U" "set bl \<subseteq> U" using Cons.prems(3) by auto
  obtain c1 r1 where c1: "connect mldsa pow src c b now = (c1, r1)" by (cases "connect mldsa pow src c b now")
  show ?case
  proof (cases r1)
    case (Ok fees)
    then have "chain_ok mldsa pow U g (bs @ [b]) c1" using connect_cases [OF Cons.prems(1,2) b(1) c1] by auto
    then show ?thesis using Cons.IH Cons.prems b c1 Ok by simp
  next
    case (Err e)
    then show ?thesis using c1 by simp
  next
    case Panic
    then show ?thesis using connect_no_panic [OF Cons.prems(1,2) b(1) Cons.prems(4)] c1 by blast
  qed
qed simp

lemma roll_back_no_panic:
  assumes ok: "chain_ok mldsa pow U g (pre @ xs) c" and ne: "pre \<noteq> []" and su: "sound_universe U g" and old: "set old \<subseteq> U"
    and cm: "calm pow now"
  shows "roll_back mldsa pow src now c (length pre - 1) old e \<noteq> (c', Panic)"
proof -
  have f: "length pre - 1 + 1 = length pre" using ne by (simp add: Suc_leI)
  obtain c1 ys1 where c1: "(disconnect_to (length pre) c :: chain \<times> (unit, ChainError) result) = (c1, Ok ())"
    "chain_ok mldsa pow U g (pre @ ys1) c1"
    using disconnect_to_ok [OF ok ne] by blast
  obtain c2 r2 where c2: "connect_bodies mldsa pow src now c1 old = (c2, r2)" by (cases "connect_bodies mldsa pow src now c1 old")
  obtain k where k: "chain_ok mldsa pow U g ((pre @ ys1) @ take k old) c2"
    using connect_bodies_ok [OF c1(2) su old c2] by blast
  then have k2: "chain_ok mldsa pow U g (pre @ (ys1 @ take k old)) c2" by simp
  obtain c3 where c3: "(disconnect_to (length pre) c2 :: chain \<times> (unit, ChainError) result) = (c3, Ok ())"
    using disconnect_to_ok [OF k2 ne] by blast
  have "r2 \<noteq> Panic" using connect_bodies_no_panic [OF c1(2) su old cm] c2 by blast
  then show ?thesis by (cases r2) (simp_all add: roll_back_def f [simplified] c1(1) c2 c3)
qed

lemma switch_branch_no_panic:
  assumes ok: "chain_ok mldsa pow U g bs c" and su: "sound_universe U g" and br: "set branch \<subseteq> U" and old: "set old \<subseteq> U"
    and fork: "fork < length bs" and depth: "depth = length bs - 1 - fork" "depth \<le> length (c_undos c)" and cm: "calm pow now"
  shows "switch_branch mldsa pow src now c fork depth branch old \<noteq> (c', Panic)"
proof -
  let ?pre = "take (fork + 1) bs"
  have ne: "?pre \<noteq> []" and lp: "length ?pre - 1 = fork" using fork by auto
  have d: "depth < length bs" "length bs - depth = fork + 1" using fork depth(1) by auto
  obtain c1 where c1: "(disconnect_times depth c :: chain \<times> (unit, ChainError) result) = (c1, Ok ())"
    "chain_ok mldsa pow U g ?pre c1"
    using disconnect_times_ok [OF ok, of depth] depth(2) d by auto
  obtain c2 r2 where c2: "connect_bodies mldsa pow src now c1 branch = (c2, r2)" by (cases "connect_bodies mldsa pow src now c1 branch")
  obtain k where k: "chain_ok mldsa pow U g (?pre @ take k branch) c2" using connect_bodies_ok [OF c1(2) su br c2] by blast
  have "r2 \<noteq> Panic" using connect_bodies_no_panic [OF c1(2) su br cm] c2 by blast
  then show ?thesis
    using roll_back_no_panic [OF k ne su old cm, unfolded lp]
    by (cases r2) (simp_all add: switch_branch_def c1(1) c2)
qed

lemma try_reorg_no_panic:
  assumes ok: "chain_ok mldsa pow U g bs c" and su: "sound_universe U g" and src: "source_ok U src" and cm: "calm pow now"
    and tip: "hget (c_index c) new_tip \<noteq> None"
  shows "try_reorg mldsa pow src c new_tip now \<noteq> (c', Panic)"
proof
  assume p: "try_reorg mldsa pow src c new_tip now = (c', Panic)"
  have act: "c_active c = map bid_of bs" using ok by (simp add: chain_ok_def)
  obtain w where w: "(total_work c :: (U256, ChainError) result) = Ok w" using total_work_Ok [OF ok] by auto
  then have w': "(reorg_threshold c fork depth :: (U256, ChainError) result) \<noteq> Panic" for fork depth
    by (simp add: reorg_threshold_def Let_def)
  obtain e where e: "hget (c_index c) new_tip = Some e" using tip by auto
  let ?reach = "if finality_binds c then MAX_REORG_DEPTH + 1 else BODY_WINDOW + 1"
  have rl: "?reach < 2 ^ 63" by (simp add: MAX_REORG_DEPTH_def BODY_WINDOW_def)
  have "path_to_active c new_tip ?reach \<noteq> None"
    using p by (auto simp: try_reorg_def Let_def andthen_Panic)
  then obtain fork branch where path: "path_to_active c new_tip ?reach = Some (fork, branch)" by auto
  have fork: "fork < length bs" by (rule path_to_active_ok(1) [OF ok path rl])
  have dp: "length bs - 1 - fork \<le> length (c_undos c)"
    and f: "fetch_and_switch mldsa pow src now c fork branch (length bs - 1 - fork) = (c', Panic)"
    using p e w w' act path fork
    by (auto simp: try_reorg_def Let_def andthen_Panic index_of_def not_less sub64_def split: if_splits)
  obtain br old where "fetch_bodies src c 0 branch = Ok br" "fetch_bodies src c 0 (drop (fork + 1) (c_active c)) = Ok old"
    and s: "switch_branch mldsa pow src now c fork (length bs - 1 - fork) br old = (c', Panic)"
    using f fork act fetch_bodies_Err [of src c 0 branch]
    by (auto simp: fetch_and_switch_def andthen_def slice_from_def split: result.splits if_splits)
  then have "set br \<subseteq> U" "set old \<subseteq> U" using fetch_bodies_ok [OF ok src] by blast+
  then show False using switch_branch_no_panic [OF ok su _ _ fork refl dp cm] s by blast
qed

lemma check_context_no_panic: "calm pow now \<Longrightarrow> check_context c h n now \<noteq> Panic"
  by (auto simp: check_context_def check_after_parent_def check_anchor_def Let_def rbind_Panic_iff add64_def calm_def
      split: option.splits prod.splits if_splits)

lemma check_side_no_panic:
  assumes "chain_ok mldsa pow U g bs c" "calm pow now" "hget (c_index c) (hdr_prev_block (blk_header b)) = Some p"
  shows "check_side pow c b n now \<noteq> Panic"
proof -
  have "block_check_shape b \<noteq> Panic" by (rule block_check_shape_no_panic)
  moreover obtain w where "(total_work c :: (U256, ChainError) result) = Ok w" using total_work_Ok [OF assms(1)] by auto
  moreover have "check_work pow h \<noteq> Panic" for h using assms(2) by (simp add: check_work_def calm_def)
  ultimately show ?thesis using check_context_no_panic [OF assms(2), of c] assms(3)
    by (auto simp: check_side_def Let_def rbind_Panic_iff index_of_def)
qed

lemma submit_no_panic:
  assumes ok: "chain_ok mldsa pow U g bs c" and su: "sound_universe U g" and src: "source_ok U src" and b: "b \<in> U" and cm: "calm pow now"
  shows "snd (submit mldsa pow src c b now) \<noteq> Panic"
proof
  assume p: "snd (submit mldsa pow src c b now) = Panic"
  have tr: "tree_ok U g (c_index c)" using ok by (simp add: chain_ok_def)
  have new: "\<not> has_block c (bid_of b)" using p by (auto simp: submit_def Let_def)
  have at: "check_attachment c (blk_header b) \<noteq> Panic"
  proof (cases "hget (c_index c) (hdr_prev_block (blk_header b))")
    case (Some p)
    then show ?thesis using tree_height_bound [OF tr su Some] by (simp add: check_attachment_def add64_def Let_def)
  qed (simp add: check_attachment_def)
  then obtain n where n: "check_attachment c (blk_header b) = Ok n"
    using p new by (cases "check_attachment c (blk_header b)") (auto simp: submit_def Let_def andthen_def)
  then obtain q where q: "hget (c_index c) (hdr_prev_block (blk_header b)) = Some q"
    "unat (hdr_height (blk_header b)) = unat (hdr_height (bi_header q)) + 1" by (auto simp: check_attachment_Ok)
  have side: "hdr_prev_block (blk_header b) \<noteq> tip_id c"
  proof
    assume "hdr_prev_block (blk_header b) = tip_id c"
    then show False using p new n connect_no_panic [OF ok su b cm, of src]
      by (cases "connect mldsa pow src c b now") (auto simp: submit_def Let_def andthen_def rbind_Panic_iff)
  qed
  obtain tw sz where ts: "check_side pow c b n now = Ok (tw, sz)"
    using p new n side check_side_no_panic [OF ok cm q(1), of n]
    by (cases "check_side pow c b n now") (auto simp: submit_def Let_def andthen_def)
  have tw: "tw = work_after (bi_total_work q) (hdr_bits (blk_header b))" using check_side_Ok [OF ts] q(1) by auto
  define c1 where "c1 = index_side c b tw sz"
  have nb: "hget (c_index c) (bid_of b) = None" using new by (simp add: has_block_def)
  have c1: "chain_ok mldsa pow U g bs c1" "hget (c_index c1) (bid_of b) \<noteq> None"
    using index_side_ok [OF ok su b nb q tw, of sz] unfolding c1_def by auto
  obtain w where w: "(total_work c1 :: (U256, ChainError) result) = Ok w" using total_work_Ok [OF c1(1)] by auto
  show False using p new n side ts w try_reorg_no_panic [OF c1(1) su src cm c1(2)]
    by (cases "try_reorg mldsa pow src c1 (bid_of b) now")
      (auto simp: submit_def Let_def andthen_def c1_def [symmetric] rbind_Panic_iff split: if_splits)
qed

section \<open>A first state\<close>

text \<open>A genesis block whose parent is the id of no block: ids have 32 bytes.\<close>

definition example_genesis :: block where
  "example_genesis = \<lparr>blk_header = \<lparr>hdr_version = 1, hdr_prev_block = [], hdr_merkle_root = HASH_ZERO,
       hdr_uncles_root = HASH_ZERO, hdr_miner = GENESIS_BENEFICIARY, hdr_time = GENESIS_TIME,
       hdr_bits = INITIAL_BITS, hdr_height = 0, hdr_nonce = 0\<rparr>,
     blk_transactions = [genesis_coinbase], blk_uncles = []\<rparr>"

lemma genesis_coinbase_ok: "genesis_ok example_genesis"
proof -
  have "\<not> starts_with GENESIS_MESSAGE (le_bytes 8 h)" if "h < 2 ^ 62" for h
  proof
    assume a: "starts_with GENESIS_MESSAGE (le_bytes 8 h)"
    then have "le_val (take 8 GENESIS_MESSAGE) = le_val (le_bytes 8 h)" by (simp add: starts_with_def)
    also have "\<dots> = h" using that by (simp add: le_val_le_bytes)
    finally have h: "h = le_val (take 8 GENESIS_MESSAGE)" by simp
    have "le_val (take 8 GENESIS_MESSAGE) \<ge> 2 ^ 62" by (simp add: GENESIS_MESSAGE_def str_bytes_def)
    then show False using h that by simp
  qed
  moreover have "tx_is_coinbase genesis_coinbase"
    by (simp add: genesis_coinbase_def tx_is_coinbase_def txin_coinbase_def outpoint_is_coinbase_def)
  moreover have "outs_value (tx_outputs genesis_coinbase) \<le> MAX_SUPPLY"
    by (simp add: outs_value_def genesis_coinbase_def from_units_def units_Amount unat_of_nat GENESIS_PREMINT_def supply_defs)
  ultimately show ?thesis by (simp add: genesis_ok_def example_genesis_def genesis_coinbase_def txin_coinbase_def)
qed

lemma example_universe: "sound_universe {example_genesis} example_genesis"
proof -
  have "block_id (blk_header example_genesis) \<noteq> []" by (metis block_id_def length_tagged_hash(1) list.size(3) zero_neq_numeral)
  moreover have "wf_tx genesis_coinbase"
    by (simp add: wf_tx_def wf_txin_def wf_prev_def wf_witness_def wf_txout_def genesis_coinbase_def txin_coinbase_def
        OUTPOINT_COINBASE_def HASH_ZERO_def GENESIS_BENEFICIARY_def GENESIS_MESSAGE_def)
  ultimately show ?thesis using genesis_coinbase_ok
    by (simp add: sound_universe_def block_txs_def) (simp add: example_genesis_def)
qed

definition example_chain :: chain where
  "example_chain = (case chain_new Regtest example_genesis of Ok c \<Rightarrow> c)"

lemma example_chain_new: "chain_new Regtest example_genesis = Ok example_chain"
proof -
  obtain c where "chain_new Regtest example_genesis = Ok c" using chain_new_ok [OF example_universe, of Regtest] by blast
  then show ?thesis by (simp add: example_chain_def)
qed

lemma chain_new_fields:
  "chain_new net g = Ok c \<Longrightarrow> c_network c = net \<and> c_finality_hold c = default_finality_hold net \<and> \<not> c_returning c \<and>
   hget (c_index c) (bid_of g) \<noteq> None"
  by (auto simp: chain_new_def Let_def)

lemma example_reachable: "reachable mldsa pow {example_genesis} example_genesis example_chain"
  by (rule reachable.start [OF example_chain_new])

lemma example_source: "source_ok {example_genesis} (\<lambda>_. None)"
  by (simp add: source_ok_def)

section \<open>Properties\<close>

text \<open>C21. Every reachable state implements the abstract ledger: the active chain is a list of blocks each accepted by the
  rules on top of the previous ones, starting at genesis, and the set of unspent outputs is exactly what
  replaying these blocks gives.\<close>

theorem chain_implements_ledger:
  assumes "reachable mldsa pow U g c" "sound_universe U g"
  shows "\<exists>bs. valid_chain mldsa pow U g bs (c_issued c) \<and> c_active c = map bid_of bs \<and>
    utxo_inv (c_utxo c) \<and> utxo_get (c_utxo c) = ledger_of bs"
  using reachable_ok [OF assms] unfolding chain_ok_def by blast

theorem chain_implements_ledger_witness:
  "\<exists>bs. valid_chain (\<lambda>_ _ _ _. False) (\<lambda>_. Ok ()) {example_genesis} example_genesis bs (c_issued example_chain) \<and>
    c_active example_chain = map bid_of bs \<and> utxo_inv (c_utxo example_chain) \<and> utxo_get (c_utxo example_chain) = ledger_of bs"
  by (rule chain_implements_ledger [OF example_reachable example_universe])

text \<open>C22. In every reachable state the money held is at most what was issued, which never exceeds the cap; over the
  whole active chain no transaction id appears twice and no output is spent twice.\<close>

theorem chain_money_is_sound:
  assumes "reachable mldsa pow U g c" "sound_universe U g"
  shows "utxo_sum (c_utxo c) \<le> c_issued c \<and> c_issued c \<le> MAX_SUPPLY \<and>
    (\<exists>bs. c_active c = map bid_of bs \<and> set bs \<subseteq> U \<and> distinct (map txid (history bs)) \<and> distinct (spends (history bs)))"
proof -
  obtain bs where ok: "chain_ok mldsa pow U g bs c" using reachable_ok [OF assms] by blast
  note inv = ok [unfolded chain_ok_def]
  have vc: "valid_chain mldsa pow U g bs (c_issued c)" using inv by blast
  have "g \<in> U" using assms(2) by (simp add: sound_universe_def)
  then have "set bs \<subseteq> U" by (rule valid_chain_universe [OF vc])
  then show ?thesis using valid_chain_hist [OF vc assms(2)] inv by (auto simp: hist_ok_def backed_def)
qed

theorem chain_money_is_sound_witness:
  "utxo_sum (c_utxo example_chain) \<le> c_issued example_chain \<and> c_issued example_chain \<le> MAX_SUPPLY \<and>
    (\<exists>bs. c_active example_chain = map bid_of bs \<and> set bs \<subseteq> {example_genesis} \<and> distinct (map txid (history bs)) \<and>
       distinct (spends (history bs)))"
  by (rule chain_money_is_sound [OF example_reachable example_universe])

text \<open>C23. When finality binds, no submission, whatever its outcome, changes the active chain deeper than the limit of
  reorganizations; and one that fails leaves a part of the previous chain from genesis on, without any block of the
  failed branch.\<close>

theorem submit_respects_finality:
  assumes "reachable mldsa pow U g c" "sound_universe U g" "source_ok U src" "b \<in> U" "finality_binds c"
    and "submit mldsa pow src c b now = (c', r)"
  shows "take (length (c_active c) - MAX_REORG_DEPTH) (c_active c') = take (length (c_active c) - MAX_REORG_DEPTH) (c_active c) \<and>
    ((\<exists>e. r = Err e) \<longrightarrow> prefix (c_active c') (c_active c))"
proof -
  obtain bs where ok: "chain_ok mldsa pow U g bs c" using reachable_ok [OF assms(1,2)] by blast
  obtain bs' where s: "chain_ok mldsa pow U g bs' c'" "take (length bs - MAX_REORG_DEPTH) bs' = take (length bs - MAX_REORG_DEPTH) bs"
    "(\<exists>e. r = Err e) \<longrightarrow> prefix (map bid_of bs') (map bid_of bs)"
    using submit_ok [OF ok assms(2-4,6)] assms(5) unfolding submit_spec_def by blast
  have a: "c_active c = map bid_of bs" "c_active c' = map bid_of bs'" using ok s(1) by (simp_all add: chain_ok_def)
  show ?thesis unfolding a using s(2,3) by (simp add: take_map)
qed

theorem submit_respects_finality_witness:
  "take (length (c_active example_chain) - MAX_REORG_DEPTH)
      (c_active (fst (submit (\<lambda>_ _ _ _. False) (\<lambda>_. Ok ()) (\<lambda>_. None) example_chain example_genesis 0))) =
    take (length (c_active example_chain) - MAX_REORG_DEPTH) (c_active example_chain)"
proof -
  have "finality_binds example_chain"
    using chain_new_fields [OF example_chain_new] by (simp add: finality_binds_def last_anchor_height_def)
  from submit_respects_finality [OF example_reachable example_universe example_source _ this]
  show ?thesis by (metis prod.collapse singletonI)
qed

text \<open>C24. Accepting a block never lowers the total work of the tip, and a reorganization strictly raises it, to the
  block submitted; a block that extends the tip becomes the new tip.\<close>

theorem submit_raises_work:
  assumes "reachable mldsa pow U g c" "sound_universe U g" "source_ok U src" "b \<in> U"
    and "submit mldsa pow src c b now = (c', Ok a)"
  shows "\<exists>w w'. total_work c = (Ok w :: (U256, unit) result) \<and> total_work c' = (Ok w' :: (U256, unit) result) \<and> uval w \<le> uval w' \<and>
    (a = Extended \<longrightarrow> c_active c' = c_active c @ [bid_of b]) \<and>
    (\<forall>d. a = Reorganized d \<longrightarrow> uval w < uval w' \<and> tip_id c' = bid_of b \<and>
       take (length (c_active c) - d) (c_active c') = take (length (c_active c) - d) (c_active c))"
proof -
  obtain bs where ok: "chain_ok mldsa pow U g bs c" using reachable_ok [OF assms(1,2)] by blast
  note S = submit_ok [OF ok assms(2-5)]
  obtain bs' where s: "chain_ok mldsa pow U g bs' c'" "Ok a = (Ok Extended :: (Accept, ChainError) result) \<longrightarrow> bs' = bs @ [b]"
    "\<forall>d. Ok a = (Ok (Reorganized d) :: (Accept, ChainError) result) \<longrightarrow>
       take (length bs - d) bs' = take (length bs - d) bs \<and> last (c_active c') = bid_of b"
    using S unfolding submit_spec_def by blast
  have act: "c_active c = map bid_of bs" "c_active c' = map bid_of bs'" using ok s(1) by (simp_all add: chain_ok_def)
  obtain w w' where w: "total_work c = (Ok w :: (U256, unit) result)" "total_work c' = (Ok w' :: (U256, unit) result)"
    "uval w \<le> uval w'" "\<forall>d. a = Reorganized d \<longrightarrow> uval w < uval w'"
    using S unfolding work_grows_def by auto
  have "a = Extended \<longrightarrow> c_active c' = c_active c @ [bid_of b]" using s(2) act by simp
  moreover have "\<forall>d. a = Reorganized d \<longrightarrow> tip_id c' = bid_of b \<and>
       take (length (c_active c) - d) (c_active c') = take (length (c_active c) - d) (c_active c)"
    using s(3) act by (simp add: tip_id_def take_map)
  ultimately show ?thesis using w by blast
qed

theorem submit_raises_work_witness:
  "\<exists>w w'. total_work example_chain = (Ok w :: (U256, unit) result) \<and>
     total_work (fst (submit (\<lambda>_ _ _ _. False) (\<lambda>_. Ok ()) (\<lambda>_. None) example_chain example_genesis 0)) = (Ok w' :: (U256, unit) result) \<and>
     uval w \<le> uval w'"
proof -
  have "has_block example_chain (bid_of example_genesis)"
    using chain_new_fields [OF example_chain_new] by (simp add: has_block_def)
  then have "submit (\<lambda>_ _ _ _. False) (\<lambda>_. Ok ()) (\<lambda>_. None) example_chain example_genesis 0 = (example_chain, Ok AlreadyKnown)"
    by (simp add: submit_def)
  from submit_raises_work [OF example_reachable example_universe example_source _ this] this show ?thesis by auto
qed

text \<open>C25. Submitting a block never panics in a reachable state: no missing index entry, no overflow of a height or of the
  clock, whatever the block and the branch it starts, provided the engine returns and the clock is not within
  the tolerance of the end of time.\<close>

theorem submit_never_panics:
  assumes "reachable mldsa pow U g c" "sound_universe U g" "source_ok U src" "b \<in> U"
    and "\<And>h. pow h \<noteq> Panic" "now + MAX_FUTURE_TIME < 2 ^ 64"
  shows "snd (submit mldsa pow src c b now) \<noteq> Panic"
proof -
  obtain bs where "chain_ok mldsa pow U g bs c" using reachable_ok [OF assms(1,2)] by blast
  then show ?thesis using submit_no_panic assms(2-6) by (simp add: calm_def)
qed

theorem submit_never_panics_witness:
  "snd (submit (\<lambda>_ _ _ _. False) (\<lambda>_. Ok ()) (\<lambda>_. None) example_chain example_genesis 0) \<noteq> Panic"
  by (rule submit_never_panics [OF example_reachable example_universe example_source]) (simp_all add: MAX_FUTURE_TIME_def)

section \<open>The loop over the bodies\<close>

text \<open>The turns left: genesis goes to the end of the queue at most once.\<close>

definition turns :: "hash256 option \<Rightarrow> hash256 list \<Rightarrow> nat" where
  "turns g q = (if q \<noteq> [] \<and> Some (last q) = g then length q - 1 else length q)"

lemma drop_body_queue [simp]: "c_body_order (drop_body c k) = c_body_order c" "c_active (drop_body c k) = c_active c"
  by (simp_all add: drop_body_def split: option.split)

lemma prune_loop_ends:
  "length (filter (\<lambda>k. lget (c_active c) 0 = Some k) (c_body_order c)) \<le> 1 \<Longrightarrow>
   turns (lget (c_active c) 0) (c_body_order c) \<le> n \<Longrightarrow> \<not> prune_more w bu (prune_loop n w bu c)"
proof (induction n arbitrary: c)
  case 0
  then show ?case by (auto simp: turns_def prune_more_def split: if_splits)
next
  case (Suc n)
  show ?case
  proof (cases "prune_more w bu c")
    case True
    then obtain k rest where q: "c_body_order c = k # rest" "rest \<noteq> []"
      by (cases "c_body_order c") (auto simp: prune_more_def)
    let ?c = "if lget (c_active c) 0 = Some k then c\<lparr>c_body_order := rest @ [k]\<rparr> else drop_body (c\<lparr>c_body_order := rest\<rparr>) k"
    have act: "c_active ?c = c_active c" by simp
    have "\<not> prune_more w bu (prune_loop n w bu ?c)"
    proof (rule Suc.IH, unfold act)
      show "length (filter (\<lambda>k. lget (c_active c) 0 = Some k) (c_body_order ?c)) \<le> 1"
        using Suc.prems(1) q(1) by (auto split: if_splits)
      show "turns (lget (c_active c) 0) (c_body_order ?c) \<le> n"
      proof (cases "lget (c_active c) 0 = Some k")
        case True
        then have "Some (last rest) \<noteq> lget (c_active c) 0"
          using Suc.prems(1) q last_in_set [OF q(2)] by (auto simp: filter_empty_conv)
        then show ?thesis using Suc.prems(2) q True by (auto simp: turns_def)
      qed (use Suc.prems(2) q in \<open>auto simp: turns_def split: if_splits\<close>)
    qed
    then show ?thesis using True q(1) by simp
  qed simp
qed

text \<open>C26. The loop that drops the oldest bodies ends: with the one turn more than the queue has entries that the model
  allows, the queue is down to one body or within the window and the budget, as the condition of the loop asks,
  as long as genesis, which goes back to the end of the queue, is there at most once.\<close>

theorem prune_bodies_ends:
  assumes "length (filter (\<lambda>k. lget (c_active c) 0 = Some k) (c_body_order c)) \<le> 1"
  shows "\<not> prune_more window budget (prune_bodies window budget c)"
  unfolding prune_bodies_def by (rule prune_loop_ends [OF assms]) (auto simp: turns_def)

theorem prune_bodies_ends_witness:
  "\<not> prune_more 1 0 (prune_bodies 1 0 (example_chain\<lparr>c_active := [[1]], c_body_order := [[1], [2], [3]]\<rparr>))"
  by (rule prune_bodies_ends) (simp add: lget_def)

end
