(* ===== verification/Mempool.thy ===== *)
theory Mempool
  imports Validate "HOL-Library.List_Lexorder" "HOL-Library.Product_Lexorder"
begin

text \<open>
  The pool of pending transactions (\<open>src/src/mempool.rs\<close>): its state, admission, eviction, removal by
  package, what a connected block and a reorganization change, the order in which a block takes the
  transactions, and the pool of transactions that wait for a parent.

  Heights, counters and sums of bytes in memory are natural numbers: \<open>height + 1\<close>, the arrival counter and
  \<open>bytes + size\<close> stay far below \<open>2 ^ 64\<close>. A \<open>BTreeSet\<close> is a sorted list without repetition; digests and
  strings compare as byte strings, which is the lexicographic order of lists. A read
  \<open>self.entries[id]\<close> is a \<open>Panic\<close> when the id is absent. \<open>mldsa\<close> is the signature library.
\<close>

section \<open>Constants, entries, errors\<close>

definition MEMPOOL_MAX_BYTES :: nat where
  "MEMPOOL_MAX_BYTES = 64 * 1024 * 1024"

definition MIN_FEE_RATE :: nat where
  "MIN_FEE_RATE = 10"

definition INCREMENTAL_FEE_RATE :: nat where
  "INCREMENTAL_FEE_RATE = MIN_FEE_RATE"

definition MAX_AUTOMATIC_FEE_RATE :: nat where
  "MAX_AUTOMATIC_FEE_RATE = 100 * MIN_FEE_RATE"

definition TYPICAL_TX_WEIGHT :: nat where
  "TYPICAL_TX_WEIGHT = 20000"

definition COINBASE_WEIGHT_RESERVE :: nat where
  "COINBASE_WEIGHT_RESERVE = 10000"

definition PACKAGE_CANDIDATES :: nat where
  "PACKAGE_CANDIDATES = 256"

definition PACKAGE_MAX :: nat where
  "PACKAGE_MAX = 64"

definition LOCAL_CONFIRMED_MAX :: nat where
  "LOCAL_CONFIRMED_MAX = 4096"

definition RETURNED_PROTECTION_BLOCKS :: nat where
  "RETURNED_PROTECTION_BLOCKS = 6"

definition MAX_USABLE_BLOCK_SIZE :: nat where
  "MAX_USABLE_BLOCK_SIZE = MAX_BLOCK_SIZE - 64 * 1024"

definition MAX_USABLE_WEIGHT :: nat where
  "MAX_USABLE_WEIGHT = TARGET_BLOCK_WEIGHT"

fun next_rate_loop :: "nat \<Rightarrow> nat \<Rightarrow> (nat \<times> nat) list \<Rightarrow> nat" where
  "next_rate_loop room used [] = MIN_FEE_RATE"
| "next_rate_loop room used ((rate, w) # rates) =
     (let used = sat_add64 used w
      in if used > room then max (sat_add64 rate INCREMENTAL_FEE_RATE) MIN_FEE_RATE else next_rate_loop room used rates)"

text \<open>\<open>sort_unstable_by_key\<close> on \<open>Reverse\<close>: among equal rates the order does not change the result.\<close>

definition next_block_rate :: "(nat \<times> nat) list \<Rightarrow> nat \<Rightarrow> nat" where
  "next_block_rate rates weight =
     next_rate_loop (TARGET_BLOCK_WEIGHT - COINBASE_WEIGHT_RESERVE - weight) 0 (sort_key (\<lambda>(r, _). - int r) rates)"

record mempool_entry =
  me_tx :: transaction
  me_fee :: amount
  me_weight :: nat
  me_size :: nat
  me_arrival :: nat
  me_local :: bool
  me_returned :: bool
  me_policy :: bool
  me_name :: bool

definition rate_of :: "nat \<Rightarrow> nat \<Rightarrow> nat" where
  "rate_of fee weight = sat_mul64 fee 1000 div max weight 1"

definition fee_rate :: "mempool_entry \<Rightarrow> nat" where
  "fee_rate e = rate_of (units (me_fee e)) (me_weight e)"

datatype MempoolError =
    AlreadyPresent
  | SpendConflict outpoint
  | UnconfirmedDependency outpoint
  | FeeRateTooLow nat nat
  | Unmineable nat nat
  | FullAndUnderpaid
  | MempoolValidation ValidationError

section \<open>State\<close>

text \<open>A set of ids is a list; \<open>p_returned_since\<close> is oldest first.\<close>

record mempool =
  p_entries :: "(hash256, mempool_entry) hmap"
  p_committed :: "(outpoint, hash256) hmap"
  p_created :: "(outpoint, utxo_entry) hmap"
  p_children :: "(hash256, hash256 list) hmap"
  p_parents :: "(hash256, hash256 list) hmap"
  p_evictable :: "(nat \<times> nat \<times> hash256) list"
  p_local_confirmed :: "hash256 list"
  p_bytes :: nat
  p_counter :: nat
  p_max_bytes :: nat
  p_blocks_seen :: nat
  p_returned_since :: "(nat \<times> hash256) list"
  p_returned_at :: "(hash256, nat) hmap"
  p_pending_names :: "(byte list, byte list \<times> hash256) hmap"
  p_pending_owned :: "(hash256, nat) hmap"

definition pool_new :: mempool where
  "pool_new = \<lparr>p_entries = [], p_committed = [], p_created = [], p_children = [], p_parents = [], p_evictable = [],
     p_local_confirmed = [], p_bytes = 0, p_counter = 0, p_max_bytes = 0, p_blocks_seen = 0, p_returned_since = [],
     p_returned_at = [], p_pending_names = [], p_pending_owned = []\<rparr>"

definition capacity :: "mempool \<Rightarrow> nat" where
  "capacity m = (if p_max_bytes m = 0 then MEMPOOL_MAX_BYTES else p_max_bytes m)"

text \<open>\<open>entry(k).or_default()\<close> on a map of lists or of counts; a sorted set.\<close>

definition kids :: "('k, 'v list) hmap \<Rightarrow> 'k \<Rightarrow> 'v list" where
  "kids m k = (case hget m k of Some v \<Rightarrow> v | None \<Rightarrow> [])"

definition ord_insert :: "'a::linorder \<Rightarrow> 'a list \<Rightarrow> 'a list" where
  "ord_insert x xs = (if x \<in> set xs then xs else insort x xs)"

definition ord_remove :: "'a \<Rightarrow> 'a list \<Rightarrow> 'a list" where
  "ord_remove x xs = remove1 x xs"

definition has_entry :: "mempool \<Rightarrow> hash256 \<Rightarrow> bool" where
  "has_entry m i \<longleftrightarrow> hget (p_entries m) i \<noteq> None"

definition entry_of :: "mempool \<Rightarrow> hash256 \<Rightarrow> (mempool_entry, 'e) result" where
  "entry_of m i = (case hget (p_entries m) i of Some e \<Rightarrow> Ok e | None \<Rightarrow> Panic)"

section \<open>The view\<close>

definition pool_lookup :: "mempool \<Rightarrow> utxo_set \<Rightarrow> outpoint \<Rightarrow> utxo_entry option" where
  "pool_lookup m s op =
     (case hget (p_created m) op of
        Some e \<Rightarrow> Some e
      | None \<Rightarrow> if hget (p_committed m) op \<noteq> None then None else utxo_get s op)"

definition pool_owned :: "mempool \<Rightarrow> hash256 \<Rightarrow> nat" where
  "pool_owned m ow = (case hget (p_pending_owned m) ow of Some n \<Rightarrow> n | None \<Rightarrow> 0)"

definition pool_view :: "mempool \<Rightarrow> utxo_set \<Rightarrow> utxo_view" where
  "pool_view m s =
     \<lparr>view_lookup = pool_lookup m s,
      view_name_by_skeleton = (\<lambda>sk. case hget (p_pending_names m) sk of
         Some (n, _) \<Rightarrow> Some n | None \<Rightarrow> view_name_by_skeleton (set_view s) sk),
      view_names_owned = (\<lambda>ow. view_names_owned (set_view s) ow + pool_owned m ow)\<rparr>"

section \<open>Locks of unconfirmed outputs, apparent fees\<close>

definition unconfirmed_lock_free :: "utxo_entry \<Rightarrow> tx_witness \<Rightarrow> bool" where
  "unconfirmed_lock_free spent w \<longleftrightarrow> relative_lock (ue_output spent) w = 0"

fun unconfirmed_relative_lock :: "(outpoint, utxo_entry) hmap \<Rightarrow> nat \<Rightarrow> txin list \<Rightarrow> (unit, MempoolError) result" where
  "unconfirmed_relative_lock created height [] = Ok ()"
| "unconfirmed_relative_lock created height (i # ins) =
     (case hget created (prev_out i) of
        Some u \<Rightarrow> if \<not> unconfirmed_lock_free u (in_witness i)
                  then Err (MempoolValidation (PolicyErr (TooEarly u64_max (height + 1))))
                  else unconfirmed_relative_lock created height ins
      | None \<Rightarrow> unconfirmed_relative_lock created height ins)"

text \<open>The entries of a block order that remain, given the ids dropped so far.\<close>

fun drop_unripe :: "(outpoint, utxo_entry) hmap \<Rightarrow> hash256 list \<Rightarrow> mempool_entry list \<Rightarrow> transaction list" where
  "drop_unripe created dropped [] = []"
| "drop_unripe created dropped (e # es) =
     (if list_ex (\<lambda>i. op_txid (prev_out i) \<in> set dropped \<or>
           (case hget created (prev_out i) of Some u \<Rightarrow> \<not> unconfirmed_lock_free u (in_witness i) | None \<Rightarrow> False))
         (tx_inputs (me_tx e))
      then drop_unripe created (txid (me_tx e) # dropped) es
      else me_tx e # drop_unripe created dropped es)"

definition without_unripe_policy_spends :: "mempool_entry list \<Rightarrow> (outpoint, utxo_entry) hmap \<Rightarrow> transaction list" where
  "without_unripe_policy_spends order created = drop_unripe created [] order"

definition policy_locks_met :: "utxo_entry \<Rightarrow> tx_witness \<Rightarrow> nat \<Rightarrow> bool" where
  "policy_locks_met spent w height \<longleftrightarrow> height + 1 \<ge> policy_available_at spent w"

fun input_sum :: "utxo_view \<Rightarrow> nat \<Rightarrow> txin list \<Rightarrow> (nat, MempoolError) result" where
  "input_sum view acc [] = Ok acc"
| "input_sum view acc (i # ins) =
     rbind (ok_or (view_lookup view (prev_out i)) (UnconfirmedDependency (prev_out i))) (\<lambda>u.
     rbind (ok_or (checked_add64 acc (units (out_value (ue_output u)))) (UnconfirmedDependency (prev_out i))) (\<lambda>acc.
       input_sum view acc ins))"

definition apparent_fees :: "transaction \<Rightarrow> utxo_view \<Rightarrow> (nat, MempoolError) result" where
  "apparent_fees t view =
     rbind (input_sum view 0 (tx_inputs t)) (\<lambda>inputs.
     rbind (map_err (\<lambda>_. FeeRateTooLow 0 MIN_FEE_RATE) (total_output t)) (\<lambda>outputs.
       Ok (inputs - units outputs)))"

section \<open>Reading the pool\<close>

definition median_fee_rate :: "mempool \<Rightarrow> nat option" where
  "median_fee_rate m =
     (if p_entries m = [] then None
      else let rates = sort (map (\<lambda>(_, e). fee_rate e) (p_entries m)) in Some (rates ! (length rates div 2)))"

definition next_block_fee_rate :: "mempool \<Rightarrow> nat \<Rightarrow> nat" where
  "next_block_fee_rate m weight = next_block_rate (map (\<lambda>(_, e). (fee_rate e, me_weight e)) (p_entries m)) weight"

definition automatic_fee_rate :: "mempool \<Rightarrow> nat" where
  "automatic_fee_rate m = min (max (next_block_fee_rate m TYPICAL_TX_WEIGHT) MIN_FEE_RATE) MAX_AUTOMATIC_FEE_RATE"

definition pool_spends :: "mempool \<Rightarrow> outpoint \<Rightarrow> bool" where
  "pool_spends m op \<longleftrightarrow> hget (p_committed m) op \<noteq> None"

definition unspent_created :: "mempool \<Rightarrow> (txout \<Rightarrow> bool) \<Rightarrow> (outpoint \<times> txout) list" where
  "unspent_created m own =
     sort_key (\<lambda>(op, _). outpoint_key op)
       (map (\<lambda>(op, e). (op, ue_output e))
         (filter (\<lambda>(op, e). hget (p_committed m) op = None \<and> own (ue_output e)) (p_created m)))"

definition spends_only :: "mempool \<Rightarrow> hash256 \<Rightarrow> utxo_set \<Rightarrow> (txout \<Rightarrow> bool) \<Rightarrow> bool" where
  "spends_only m i s own \<longleftrightarrow>
     (case hget (p_entries m) i of
        None \<Rightarrow> False
      | Some e \<Rightarrow> list_all (\<lambda>inp.
          case (case hget (p_created m) (prev_out inp) of Some u \<Rightarrow> Some u | None \<Rightarrow> utxo_get s (prev_out inp)) of
            Some u \<Rightarrow> own (ue_output u) | None \<Rightarrow> False) (tx_inputs (me_tx e)))"

text \<open>\<open>ancestors_up_to\<close>: the stack \<open>todo\<close> has its top first; \<open>Inl\<close> is the early return.\<close>

fun see_parents :: "mempool \<Rightarrow> nat \<Rightarrow> hash256 list \<Rightarrow> hash256 list \<Rightarrow> hash256 list \<Rightarrow> nat + hash256 list \<times> hash256 list" where
  "see_parents m limit seen todo [] = Inr (seen, todo)"
| "see_parents m limit seen todo (p # ps) =
     (if has_entry m p \<and> p \<notin> set seen
      then (if length (p # seen) \<ge> limit then Inl limit else see_parents m limit (p # seen) (p # todo) ps)
      else see_parents m limit seen todo ps)"

lemma see_parents_grow:
  "see_parents m limit seen todo ps = Inr (seen', todo') \<Longrightarrow>
   \<exists>new. seen' = new @ seen \<and> todo' = new @ todo \<and> distinct new \<and> set new \<inter> set seen = {} \<and>
     (\<forall>p \<in> set new. p \<in> set (map fst (p_entries m)))"
proof (induction ps arbitrary: seen todo)
  case (Cons p ps)
  show ?case
  proof (cases "has_entry m p \<and> p \<notin> set seen")
    case True
    then have "see_parents m limit (p # seen) (p # todo) ps = Inr (seen', todo')" using Cons.prems by (simp split: if_splits)
    from Cons.IH [OF this] obtain new where "seen' = new @ p # seen" "todo' = new @ p # todo" "distinct new"
      "set new \<inter> set (p # seen) = {}" "\<forall>p \<in> set new. p \<in> set (map fst (p_entries m))" by auto
    moreover have "p \<in> set (map fst (p_entries m))"
      using True by (metis has_entry_def hget_def domIff dom_map_of_conv_image_fst list.set_map)
    ultimately show ?thesis using True by (intro exI [of _ "new @ [p]"]) auto
  qed (use Cons in auto)
qed simp

function ancestors_loop :: "mempool \<Rightarrow> nat \<Rightarrow> hash256 list \<Rightarrow> hash256 list \<Rightarrow> nat" where
  "ancestors_loop m limit seen [] = length seen"
| "ancestors_loop m limit seen (i # todo) =
     (case see_parents m limit seen todo (kids (p_parents m) i) of
        Inl n \<Rightarrow> n
      | Inr (seen, todo) \<Rightarrow> ancestors_loop m limit seen todo)"
  by pat_completeness auto
termination
proof (relation "inv_image (less_than <*lex*> less_than)
    (\<lambda>(m, limit, seen, todo). (card (set (map fst (p_entries m)) - set seen), length todo))", intro wf_inv_image wf_lex_prod wf_less_than)
  fix m :: mempool and limit :: nat and seen i todo x seen' todo'
  assume a: "see_parents m limit seen todo (kids (p_parents m) i) = Inr x" "(seen', todo') = x"
  let ?K = "set (map fst (p_entries m))"
  obtain new where n: "seen' = new @ seen" "todo' = new @ todo" "set new \<inter> set seen = {}" "set new \<subseteq> ?K"
    using see_parents_grow [of m limit seen todo "kids (p_parents m) i" seen' todo'] a by auto
  show "((m, limit, seen', todo'), (m, limit, seen, i # todo)) \<in> inv_image (less_than <*lex*> less_than)
      (\<lambda>(m, limit, seen, todo). (card (set (map fst (p_entries m)) - set seen), length todo))"
  proof (cases "new = []")
    case False
    then obtain y where "y \<in> set new" by (meson list.set_sel(1))
    then have "?K - set seen' \<subset> ?K - set seen" using n by auto
    then have "card (?K - set seen') < card (?K - set seen)" by (intro psubset_card_mono) auto
    then show ?thesis by simp
  qed (use n in simp)
qed

definition ancestors_up_to :: "mempool \<Rightarrow> hash256 \<Rightarrow> nat \<Rightarrow> nat" where
  "ancestors_up_to m i limit = ancestors_loop m limit [] [i]"

definition touches_names :: "mempool \<Rightarrow> hash256 \<Rightarrow> bool" where
  "touches_names m i \<longleftrightarrow> (case hget (p_entries m) i of Some e \<Rightarrow> me_name e | None \<Rightarrow> False)"

definition registered :: "transaction \<Rightarrow> name_registration option" where
  "registered t = (case registration t of Ok r \<Rightarrow> r | _ \<Rightarrow> None)"

definition pending_registrations :: "mempool \<Rightarrow> (name_registration \<times> hash256) list" where
  "pending_registrations m =
     sort_key (\<lambda>(r, _). reg_name r)
       (List.map_filter (\<lambda>(i, e). map_option (\<lambda>r. (r, i)) (registered (me_tx e))) (filter (\<lambda>(_, e). me_name e) (p_entries m)))"

definition touches_policy :: "mempool \<Rightarrow> hash256 \<Rightarrow> bool" where
  "touches_policy m i \<longleftrightarrow> (case hget (p_entries m) i of Some e \<Rightarrow> me_policy e | None \<Rightarrow> False)"

definition apparent_fee_rate :: "mempool \<Rightarrow> transaction \<Rightarrow> utxo_set \<Rightarrow> nat option" where
  "apparent_fee_rate m t s =
     (case apparent_fees t (pool_view m s) of
        Ok fees \<Rightarrow> Some (rate_of fees (tx_weight t WITNESS_DISCOUNT)) | _ \<Rightarrow> None)"

definition witness_is_canonical :: "mempool \<Rightarrow> transaction \<Rightarrow> utxo_set \<Rightarrow> bool" where
  "witness_is_canonical m t s \<longleftrightarrow>
     list_all (\<lambda>i. case pool_lookup m s (prev_out i) of
        None \<Rightarrow> False
      | Some u \<Rightarrow> let sc = out_scheme (ue_output u)
                  in sc \<in> set SCHEME_ALL \<and> length (wit_pubkey (in_witness i)) = pubkey_len sc \<and>
                     length (wit_signature (in_witness i)) = sig_len sc) (tx_inputs t)"

definition pool_get :: "mempool \<Rightarrow> hash256 \<Rightarrow> transaction option" where
  "pool_get m i = map_option me_tx (hget (p_entries m) i)"

definition pool_txids :: "mempool \<Rightarrow> hash256 list" where
  "pool_txids m = sort (map fst (p_entries m))"

text \<open>One pass of \<open>ordered_transactions\<close>: the ids emitted, the transactions, what is deferred.\<close>

fun emit_pass :: "mempool \<Rightarrow> hash256 list \<Rightarrow> transaction list \<Rightarrow> hash256 list \<Rightarrow> hash256 list
  \<Rightarrow> hash256 list \<times> transaction list \<times> hash256 list" where
  "emit_pass m emitted outs deferred [] = (emitted, outs, deferred)"
| "emit_pass m emitted outs deferred (i # ids) =
     (if list_all (\<lambda>p. p \<in> set emitted \<or> \<not> has_entry m p) (kids (p_parents m) i)
      then emit_pass m (i # emitted) (case pool_get m i of Some t \<Rightarrow> outs @ [t] | None \<Rightarrow> outs) deferred ids
      else emit_pass m emitted outs (deferred @ [i]) ids)"

lemma emit_pass_length: "length (snd (snd (emit_pass m emitted outs deferred ids))) \<le> length deferred + length ids"
  by (induction m emitted outs deferred ids rule: emit_pass.induct) auto

function ordered_loop :: "mempool \<Rightarrow> hash256 list \<Rightarrow> transaction list \<Rightarrow> hash256 list \<Rightarrow> transaction list" where
  "ordered_loop m emitted outs remaining =
     (if remaining = [] then outs
      else let (emitted', outs', deferred) = emit_pass m emitted outs [] remaining
           in if length deferred = length remaining then outs' else ordered_loop m emitted' outs' deferred)"
  by pat_completeness auto
termination
proof (relation "measure (\<lambda>(m, emitted, outs, remaining). length remaining)")
  fix m :: mempool and emitted outs remaining x emitted' y outs' deferred
  assume a: "x = emit_pass m emitted outs [] remaining" "(emitted', y) = x" "(outs', deferred) = y"
    "length deferred \<noteq> length remaining"
  have "length deferred \<le> length remaining"
    using emit_pass_length [of m emitted outs "[]" remaining] a(1-3) by (metis add_0 list.size(3) snd_conv)
  then show "((m, emitted', outs', deferred), (m, emitted, outs, remaining)) \<in> measure (\<lambda>(m, emitted, outs, remaining). length remaining)"
    using a(4) by simp
qed simp

declare ordered_loop.simps [simp del]

definition ordered_transactions :: "mempool \<Rightarrow> transaction list" where
  "ordered_transactions m = ordered_loop m [] [] (pool_txids m)"

definition child_count :: "mempool \<Rightarrow> hash256 \<Rightarrow> nat" where
  "child_count m i = length (kids (p_children m) i)"

section \<open>Removal\<close>

definition eviction_key :: "hash256 \<Rightarrow> mempool_entry \<Rightarrow> nat \<times> nat \<times> hash256" where
  "eviction_key i e = (fee_rate e, u64_max - me_arrival e, i)"

definition add_evictable :: "mempool \<Rightarrow> hash256 \<Rightarrow> mempool_entry \<Rightarrow> mempool" where
  "add_evictable m i e = m\<lparr>p_evictable := ord_insert (eviction_key i e) (p_evictable m)\<rparr>"

definition drop_evictable :: "mempool \<Rightarrow> hash256 \<Rightarrow> mempool_entry \<Rightarrow> mempool" where
  "drop_evictable m i e = m\<lparr>p_evictable := ord_remove (eviction_key i e) (p_evictable m)\<rparr>"

definition forget_name :: "mempool \<Rightarrow> hash256 \<Rightarrow> mempool_entry \<Rightarrow> mempool" where
  "forget_name m i e =
     (case (if me_name e then registered (me_tx e) else None) of
        None \<Rightarrow> m
      | Some reg \<Rightarrow>
          let sk = skeleton (reg_name reg);
              m1 = (case hget (p_pending_names m) sk of
                      Some (_, t) \<Rightarrow> if t = i then m\<lparr>p_pending_names := hdel sk (p_pending_names m)\<rparr> else m
                    | None \<Rightarrow> m)
          in case hget (p_pending_owned m1) (reg_owner reg) of
               None \<Rightarrow> m1
             | Some n \<Rightarrow> m1\<lparr>p_pending_owned :=
                  (if n - 1 = 0 then hdel (reg_owner reg) (p_pending_owned m1)
                   else hput (reg_owner reg) (n - 1) (p_pending_owned m1))\<rparr>)"

definition release_input :: "hash256 \<Rightarrow> (outpoint, hash256) hmap \<Rightarrow> txin \<Rightarrow> (outpoint, hash256) hmap" where
  "release_input i committed inp = (if hget committed (prev_out inp) = Some i then hdel (prev_out inp) committed else committed)"

text \<open>A parent loses a child; left without any, it is a leaf again.\<close>

definition orphan_child :: "hash256 \<Rightarrow> mempool \<Rightarrow> hash256 \<Rightarrow> mempool" where
  "orphan_child i m p =
     (case hget (p_children m) p of
        None \<Rightarrow> m
      | Some v \<Rightarrow>
          let v' = filter (\<lambda>c. c \<noteq> i) v; m1 = m\<lparr>p_children := hput p v' (p_children m)\<rparr>
          in if v' = [] then
               (case hget (p_entries m1) p of
                  Some pe \<Rightarrow> if \<not> me_local pe \<and> \<not> me_returned pe then add_evictable m1 p pe else m1
                | None \<Rightarrow> m1)
             else m1)"

definition remove_one :: "mempool \<Rightarrow> hash256 \<Rightarrow> mempool \<times> mempool_entry option" where
  "remove_one m i =
     (case hget (p_entries m) i of
        None \<Rightarrow> (m, None)
      | Some e \<Rightarrow>
          let m1 = forget_name (drop_evictable (m\<lparr>p_entries := hdel i (p_entries m)\<rparr>) i e) i e;
              m2 = m1\<lparr>p_bytes := p_bytes m1 - me_size e,
                      p_committed := foldl (release_input i) (p_committed m1) (tx_inputs (me_tx e)),
                      p_created := foldl (\<lambda>cr k. hdel \<lparr>op_txid = i, op_index = of_nat k\<rparr> cr) (p_created m1)
                        [0..<length (tx_outputs (me_tx e))]\<rparr>;
              m3 = foldl (orphan_child i) (m2\<lparr>p_parents := hdel i (p_parents m2)\<rparr>) (kids (p_parents m2) i)
          in (m3\<lparr>p_children := hdel i (p_children m3)\<rparr>, Some e))"

definition add_new :: "'a list \<Rightarrow> 'a \<Rightarrow> 'a list" where
  "add_new xs x = (if x \<in> set xs then xs else xs @ [x])"

lemma add_all_prefix: "\<exists>new. foldl add_new xs ys = xs @ new \<and> set new \<subseteq> set ys \<and> distinct new \<and> set new \<inter> set xs = {}"
proof (induction ys arbitrary: xs)
  case (Cons y ys)
  show ?case
  proof (cases "y \<in> set xs")
    case True
    then have "add_new xs y = xs" by (simp add: add_new_def)
    then show ?thesis using Cons [of xs] by auto
  next
    case False
    obtain new where "foldl add_new (xs @ [y]) ys = (xs @ [y]) @ new" "set new \<subseteq> set ys" "distinct new" "set new \<inter> set (xs @ [y]) = {}"
      using Cons [of "xs @ [y]"] by blast
    moreover have "add_new xs y = xs @ [y]" using False by (simp add: add_new_def)
    ultimately show ?thesis using False by (intro exI [of _ "y # new"]) auto
  qed
qed simp

text \<open>The walk over the descendants, in the order the vector grows. Its termination measure counts the ids not
  met yet.\<close>

definition child_ids :: "(hash256, hash256 list) hmap \<Rightarrow> hash256 set" where
  "child_ids ch = (\<Union>v \<in> set (map snd ch). set v)"

lemma finite_child_ids [simp]: "finite (child_ids ch)"
  by (simp add: child_ids_def)

lemma kids_child_ids: "set (kids ch i) \<subseteq> child_ids ch"
  using map_of_SomeD [of ch i] by (force simp: kids_def child_ids_def hget_def split: option.splits)

definition walk_measure :: "((hash256, hash256 list) hmap \<times> hash256 list \<times> nat) rel" where
  "walk_measure = inv_image (less_than <*lex*> less_than) (\<lambda>(ch, members, i). (card (child_ids ch - set members), length members - i))"

lemma wf_walk_measure: "wf walk_measure"
  by (simp add: walk_measure_def wf_inv_image wf_lex_prod)

lemma walk_decreases:
  assumes "i < length members" "members' = members @ new" "set new \<subseteq> child_ids ch" "set new \<inter> set members = {}"
  shows "((ch, members', Suc i), (ch, members, i)) \<in> walk_measure"
proof (cases "new = []")
  case False
  then obtain y where "y \<in> set new" by (meson list.set_sel(1))
  then have "child_ids ch - set members' \<subset> child_ids ch - set members" using assms by auto
  then have "card (child_ids ch - set members') < card (child_ids ch - set members)" by (intro psubset_card_mono) simp_all
  then show ?thesis by (simp add: walk_measure_def)
qed (use assms in \<open>simp add: walk_measure_def\<close>)

function descend :: "(hash256, hash256 list) hmap \<Rightarrow> hash256 list \<Rightarrow> nat \<Rightarrow> hash256 list" where
  "descend ch members i =
     (if i < length members then descend ch (foldl add_new members (kids ch (members ! i))) (Suc i) else members)"
  by pat_completeness auto
termination
proof (relation walk_measure, rule wf_walk_measure)
  fix ch :: "(hash256, hash256 list) hmap" and members :: "hash256 list" and i
  assume "i < length members"
  then show "((ch, foldl add_new members (kids ch (members ! i)), Suc i), (ch, members, i)) \<in> walk_measure"
    using add_all_prefix [of members "kids ch (members ! i)"] kids_child_ids [of ch "members ! i"] walk_decreases by blast
qed

declare descend.simps [simp del]

definition pool_remove :: "mempool \<Rightarrow> hash256 \<Rightarrow> mempool \<times> mempool_entry option" where
  "pool_remove m i =
     foldl (\<lambda>(m, first) j. case remove_one m j of
              (m', Some e) \<Rightarrow> (m', if j = i then Some e else first)
            | (m', None) \<Rightarrow> (m', first))
       (m, None) (rev (descend (p_children m) [i] 0))"

section \<open>Making room\<close>

fun push_children :: "hash256 list \<Rightarrow> hash256 list \<Rightarrow> hash256 list option" where
  "push_children members [] = Some members"
| "push_children members (c # cs) =
     (if c \<in> set members then push_children members cs
      else if length members + 1 > PACKAGE_MAX then None
      else push_children (members @ [c]) cs)"

lemma push_children_eq: "push_children members cs = Some ms \<Longrightarrow> ms = foldl add_new members cs"
  by (induction members cs rule: push_children.induct) (auto simp: add_new_def split: if_splits)

function package_loop :: "mempool \<Rightarrow> hash256 list \<Rightarrow> nat \<Rightarrow> hash256 list option" where
  "package_loop m members i =
     (if i < length members then
        (if (case hget (p_entries m) (members ! i) of Some e \<Rightarrow> me_local e \<or> me_returned e | None \<Rightarrow> False) then None
         else case push_children members (kids (p_children m) (members ! i)) of
                None \<Rightarrow> None
              | Some members \<Rightarrow> package_loop m members (Suc i))
      else Some members)"
  by pat_completeness auto
termination
proof (relation "inv_image walk_measure (\<lambda>(m, members, i). (p_children m, members, i))", intro wf_inv_image wf_walk_measure)
  fix m :: mempool and members members' :: "hash256 list" and i
  assume a: "i < length members" "push_children members (kids (p_children m) (members ! i)) = Some members'"
  obtain new where "members' = members @ new" "set new \<subseteq> set (kids (p_children m) (members ! i))" "set new \<inter> set members = {}"
    using push_children_eq [OF a(2)] add_all_prefix [of members "kids (p_children m) (members ! i)"] by auto
  then have "((p_children m, members', Suc i), (p_children m, members, i)) \<in> walk_measure"
    using walk_decreases [OF a(1)] kids_child_ids by blast
  then show "((m, members', Suc i), (m, members, i)) \<in> inv_image walk_measure (\<lambda>(m, members, i). (p_children m, members, i))" by simp
qed

declare package_loop.simps [simp del]

definition descendant_package :: "mempool \<Rightarrow> hash256 \<Rightarrow> hash256 list option" where
  "descendant_package m root = package_loop m [root] 0"

fun room_leaves ::
  "mempool \<Rightarrow> nat \<Rightarrow> hash256 list \<Rightarrow> bool \<Rightarrow> nat \<Rightarrow> nat \<Rightarrow> hash256 list \<Rightarrow> (nat \<times> nat \<times> hash256) list
   \<Rightarrow> (nat \<times> hash256 list, unit) result" where
  "room_leaves m rate protected priority need freed outs [] = Ok (freed, outs)"
| "room_leaves m rate protected priority need freed outs ((r, _, i) # es) =
     (if freed \<ge> need then Ok (freed, outs)
      else if \<not> priority \<and> sat_add64 r INCREMENTAL_FEE_RATE > rate then Ok (freed, outs)
      else if i \<in> set protected then room_leaves m rate protected priority need freed outs es
      else rbind (entry_of m i) (\<lambda>e. room_leaves m rate protected priority need (freed + me_size e) (outs @ [i]) es))"

definition room_candidates :: "mempool \<Rightarrow> nat \<Rightarrow> hash256 list \<Rightarrow> bool \<Rightarrow> (nat \<times> nat \<times> hash256) list" where
  "room_candidates m rate protected priority =
     take PACKAGE_CANDIDATES (sort (map (\<lambda>(i, e). eviction_key i e)
       (filter (\<lambda>(i, e). \<not> me_local e \<and> \<not> me_returned e \<and> i \<notin> set protected \<and> kids (p_children m) i \<noteq> [] \<and>
                  (priority \<or> sat_add64 (fee_rate e) INCREMENTAL_FEE_RATE \<le> rate)) (p_entries m))))"

fun package_totals :: "mempool \<Rightarrow> nat \<times> nat \<Rightarrow> hash256 list \<Rightarrow> (nat \<times> nat, unit) result" where
  "package_totals m (f, w) [] = Ok (f, w)"
| "package_totals m (f, w) (i # ids) =
     rbind (entry_of m i) (\<lambda>e. package_totals m (sat_add64 f (units (me_fee e)), sat_add64 w (me_weight e)) ids)"

fun room_packages ::
  "mempool \<Rightarrow> nat \<Rightarrow> bool \<Rightarrow> (nat \<times> nat \<times> hash256) list \<Rightarrow> ((nat \<times> hash256 \<times> hash256 list) list, unit) result" where
  "room_packages m rate priority [] = Ok []"
| "room_packages m rate priority ((_, _, i) # cs) =
     (case descendant_package m i of
        None \<Rightarrow> room_packages m rate priority cs
      | Some members \<Rightarrow>
          rbind (package_totals m (0, 0) members) (\<lambda>(fee, weight).
          rbind (room_packages m rate priority cs) (\<lambda>ps.
            let package_rate = rate_of fee weight
            in Ok (if priority \<or> sat_add64 package_rate INCREMENTAL_FEE_RATE \<le> rate then (package_rate, i, members) # ps else ps))))"

text \<open>The members of a package not taken yet, with the bytes they free.\<close>

fun take_members :: "mempool \<Rightarrow> hash256 list \<Rightarrow> nat \<Rightarrow> bool \<Rightarrow> hash256 list \<Rightarrow> (hash256 list \<times> nat \<times> bool, unit) result" where
  "take_members m taken freed added [] = Ok (taken, freed, added)"
| "take_members m taken freed added (i # ids) =
     (if i \<in> set taken then take_members m taken freed added ids
      else rbind (entry_of m i) (\<lambda>e. take_members m (i # taken) (freed + me_size e) True ids))"

fun take_packages ::
  "mempool \<Rightarrow> nat \<Rightarrow> hash256 list \<Rightarrow> nat \<Rightarrow> hash256 list \<Rightarrow> (nat \<times> hash256 \<times> hash256 list) list \<Rightarrow> (nat \<times> hash256 list, unit) result" where
  "take_packages m need taken freed outs [] = Ok (freed, outs)"
| "take_packages m need taken freed outs ((_, root, members) # ps) =
     (if freed \<ge> need then Ok (freed, outs)
      else rbind (take_members m taken freed False members) (\<lambda>(taken, freed, added).
             take_packages m need taken freed (if added then outs @ [root] else outs) ps))"

definition room_for :: "mempool \<Rightarrow> nat \<Rightarrow> nat \<Rightarrow> hash256 list \<Rightarrow> bool \<Rightarrow> (hash256 list option, unit) result" where
  "room_for m rate sz protected priority =
     (let need = p_bytes m + sz - capacity m
      in rbind (room_leaves m rate protected priority need 0 [] (p_evictable m)) (\<lambda>(freed, outs).
         if freed \<ge> need then Ok (Some outs)
         else rbind (room_packages m rate priority (room_candidates m rate protected priority)) (\<lambda>packages.
              rbind (take_packages m need outs freed outs (sort_key (\<lambda>(r, i, _). (r, i)) packages)) (\<lambda>(freed, outs).
                Ok (if freed \<ge> need then Some outs else None)))))"

definition would_admit :: "mempool \<Rightarrow> nat \<Rightarrow> nat \<Rightarrow> (bool, unit) result" where
  "would_admit m rate sz =
     (if p_bytes m + sz \<le> capacity m then Ok True
      else rbind (room_for m rate sz [] False) (\<lambda>r. Ok (r \<noteq> None)))"

definition make_room :: "mempool \<Rightarrow> nat \<Rightarrow> nat \<Rightarrow> hash256 list \<Rightarrow> bool \<Rightarrow> (mempool \<times> bool, unit) result" where
  "make_room m rate sz protected priority =
     rbind (room_for m rate sz protected priority) (\<lambda>r.
       case r of
         None \<Rightarrow> Ok (m, False)
       | Some to_evict \<Rightarrow>
           let m' = foldl (\<lambda>m i. fst (pool_remove m i)) m to_evict in Ok (m', p_bytes m' + sz \<le> capacity m'))"


section \<open>Admission\<close>

fun find_parents :: "mempool \<Rightarrow> utxo_set \<Rightarrow> hash256 \<Rightarrow> txin list \<Rightarrow> (hash256 list, MempoolError) result" where
  "find_parents m s tid [] = Ok []"
| "find_parents m s tid (i # ins) =
     (if (case hget (p_committed m) (prev_out i) of Some other \<Rightarrow> other \<noteq> tid | None \<Rightarrow> False) then Err (SpendConflict (prev_out i))
      else if hget (p_created m) (prev_out i) \<noteq> None
      then rbind (find_parents m s tid ins) (\<lambda>ps. Ok (op_txid (prev_out i) # ps))
      else if \<not> utxo_contains s (prev_out i) then Err (UnconfirmedDependency (prev_out i))
      else find_parents m s tid ins)"

text \<open>The ancestors of a newcomer in the pool; the stack has its top first.\<close>

function protect :: "mempool \<Rightarrow> hash256 list \<Rightarrow> hash256 list \<Rightarrow> hash256 list" where
  "protect m protected [] = protected"
| "protect m protected (i # todo) =
     (if has_entry m i \<and> i \<notin> set protected then protect m (i # protected) (rev (kids (p_parents m) i) @ todo)
      else protect m protected todo)"
  by pat_completeness auto
termination
proof (relation "inv_image (less_than <*lex*> less_than)
    (\<lambda>(m, protected, todo). (card (set (map fst (p_entries m)) - set protected), length todo))", intro wf_inv_image wf_lex_prod wf_less_than)
  fix m :: mempool and protected i and todo :: "hash256 list"
  assume a: "has_entry m i \<and> i \<notin> set protected"
  let ?K = "set (map fst (p_entries m))"
  have "i \<in> ?K" using a by (metis has_entry_def hget_def domIff dom_map_of_conv_image_fst list.set_map)
  then have "?K - set (i # protected) \<subset> ?K - set protected" using a by auto
  then have "card (?K - set (i # protected)) < card (?K - set protected)" by (intro psubset_card_mono) auto
  then show "((m, i # protected, rev (kids (p_parents m) i) @ todo), (m, protected, i # todo)) \<in> inv_image (less_than <*lex*> less_than)
    (\<lambda>(m, protected, todo). (card (set (map fst (p_entries m)) - set protected), length todo))" by simp
qed simp

definition new_entry :: "transaction \<Rightarrow> utxo_view \<Rightarrow> amount \<Rightarrow> nat \<Rightarrow> bool \<Rightarrow> bool \<Rightarrow> mempool_entry" where
  "new_entry t view fee arrival is_local is_returned =
     \<lparr>me_tx = t, me_fee = fee, me_weight = tx_weight t WITNESS_DISCOUNT, me_size = length (tx_encode t), me_arrival = arrival,
      me_local = is_local, me_returned = is_returned,
      me_policy = (list_ex (\<lambda>out. out_scheme out = SchemeId.Policy) (tx_outputs t) \<or>
        list_ex (\<lambda>i. case view_lookup view (prev_out i) of
           Some e \<Rightarrow> out_scheme (ue_output e) = SchemeId.Policy | None \<Rightarrow> False) (tx_inputs t)),
      me_name = (registered t \<noteq> None)\<rparr>"

definition note_name :: "mempool \<Rightarrow> hash256 \<Rightarrow> name_registration option \<Rightarrow> mempool" where
  "note_name m tid r =
     (case r of
        None \<Rightarrow> m
      | Some reg \<Rightarrow>
          m\<lparr>p_pending_owned := hput (reg_owner reg) (pool_owned m (reg_owner reg) + 1) (p_pending_owned m),
            p_pending_names := hput (skeleton (reg_name reg)) (reg_name reg, tid) (p_pending_names m)\<rparr>)"

definition link_parent :: "hash256 \<Rightarrow> mempool \<Rightarrow> hash256 \<Rightarrow> mempool" where
  "link_parent tid m p =
     (let m1 = m\<lparr>p_children := hput p (kids (p_children m) p @ [tid]) (p_children m)\<rparr>
      in case hget (p_entries m1) p of Some e \<Rightarrow> drop_evictable m1 p e | None \<Rightarrow> m1)"

definition adopted :: "mempool \<Rightarrow> hash256 \<Rightarrow> transaction \<Rightarrow> hash256 list" where
  "adopted m tid t =
     remdups_adj (sort (filter (\<lambda>c. c \<noteq> tid \<and> has_entry m c)
       (List.map_filter (\<lambda>k. hget (p_committed m) \<lparr>op_txid = tid, op_index = of_nat k\<rparr>) [0..<length (tx_outputs t)])))"

definition adopt :: "hash256 \<Rightarrow> (hash256, hash256 list) hmap \<Rightarrow> hash256 \<Rightarrow> (hash256, hash256 list) hmap" where
  "adopt tid parents c = hput c (let p = kids parents c in if tid \<in> set p then p else p @ [tid]) parents"

text \<open>What \<open>accept_with\<close> does once the transaction is admitted and there is room.\<close>

definition admit :: "mempool \<Rightarrow> transaction \<Rightarrow> nat \<Rightarrow> mempool_entry \<Rightarrow> hash256 list \<Rightarrow> mempool" where
  "admit m t height e parents =
     (let tid = txid t;
          m1 = note_name (m\<lparr>p_counter := p_counter m + 1, p_bytes := p_bytes m + me_size e\<rparr>) tid (registered t);
          m2 = m1\<lparr>p_committed := foldl (\<lambda>cm i. hput (prev_out i) tid cm) (p_committed m1) (tx_inputs t),
                  p_created := bv_create tid (height + 1) 0 (p_created m1) (tx_outputs t)\<rparr>;
          ps = remdups_adj (sort parents);
          m3 = foldl (link_parent tid) m2 ps;
          m4 = m3\<lparr>p_parents := hput tid ps (p_parents m3)\<rparr>;
          kids_waiting = adopted m4 tid t;
          m5 = m4\<lparr>p_parents := foldl (adopt tid) (p_parents m4) kids_waiting\<rparr>;
          m6 = (if \<not> me_local e \<and> \<not> me_returned e \<and> kids_waiting = [] then add_evictable m5 tid e else m5);
          m7 = (if kids_waiting \<noteq> []
                then m6\<lparr>p_children := hput tid (kids (p_children m6) tid @ kids_waiting) (p_children m6)\<rparr> else m6);
          m8 = m7\<lparr>p_entries := hput tid e (p_entries m7)\<rparr>
      in if me_returned e
         then m8\<lparr>p_returned_since := p_returned_since m8 @ [(p_blocks_seen m8, tid)],
                 p_returned_at := hput tid (p_blocks_seen m8) (p_returned_at m8)\<rparr>
         else m8)"

text \<open>The checks before any signature: the parents of the newcomer and its protected ancestors.\<close>

definition pre_accept :: "mempool \<Rightarrow> transaction \<Rightarrow> utxo_set \<Rightarrow> bool \<Rightarrow> (hash256 list \<times> hash256 list, MempoolError) result" where
  "pre_accept m t s is_returned =
     (if has_entry m (txid t) then Err AlreadyPresent
      else rbind (find_parents m s (txid t) (tx_inputs t)) (\<lambda>parents.
        let protected = protect m [] (rev parents);
            weight = tx_weight t WITNESS_DISCOUNT;
            sz = length (tx_encode t)
        in if sz > MAX_USABLE_BLOCK_SIZE \<or> weight > MAX_USABLE_WEIGHT then Err (Unmineable weight sz)
           else rbind (apparent_fees t (pool_view m s)) (\<lambda>fees.
             let announced = rate_of fees weight
             in if announced < MIN_FEE_RATE then Err (FeeRateTooLow announced MIN_FEE_RATE)
                else if p_bytes m + sz > capacity m
                then (case room_for m announced sz protected is_returned of
                        Ok None \<Rightarrow> Err FullAndUnderpaid
                      | Ok (Some _) \<Rightarrow> Ok (parents, protected)
                      | _ \<Rightarrow> Panic)
                else Ok (parents, protected))))"

definition accept_with ::
  "mldsa_lib \<Rightarrow> mempool \<Rightarrow> transaction \<Rightarrow> utxo_set \<Rightarrow> network \<Rightarrow> nat \<Rightarrow> bool \<Rightarrow> bool \<Rightarrow> mempool \<times> (hash256, MempoolError) result" where
  "accept_with mldsa m t s net height is_local is_returned =
     andthen m (pre_accept m t s is_returned) (\<lambda>(parents, protected).
     andthen m (unconfirmed_relative_lock (p_created m) height (tx_inputs t)) (\<lambda>_.
     andthen m (map_err MempoolValidation (check_transaction mldsa t (pool_view m s) net (height + 1) [])) (\<lambda>(fee, _).
       let e = new_entry t (pool_view m s) fee (p_counter m) is_local is_returned; rate = fee_rate e
       in if rate < MIN_FEE_RATE then (m, Err (FeeRateTooLow rate MIN_FEE_RATE))
          else if p_bytes m + me_size e > capacity m
          then (case make_room m rate (me_size e) protected is_returned of
                  Ok (m', True) \<Rightarrow> (admit m' t height e parents, Ok (txid t))
                | Ok (m', False) \<Rightarrow> (m', Err FullAndUnderpaid)
                | _ \<Rightarrow> (m, Panic))
          else (admit m t height e parents, Ok (txid t)))))"

definition accept :: "mldsa_lib \<Rightarrow> mempool \<Rightarrow> transaction \<Rightarrow> utxo_set \<Rightarrow> network \<Rightarrow> nat \<Rightarrow> mempool \<times> (hash256, MempoolError) result" where
  "accept mldsa m t s net height = accept_with mldsa m t s net height False False"

definition accept_local :: "mldsa_lib \<Rightarrow> mempool \<Rightarrow> transaction \<Rightarrow> utxo_set \<Rightarrow> network \<Rightarrow> nat \<Rightarrow> mempool \<times> (hash256, MempoolError) result" where
  "accept_local mldsa m t s net height = accept_with mldsa m t s net height True False"

section \<open>Reorganizations and restarts\<close>

fun return_txs :: "mldsa_lib \<Rightarrow> utxo_set \<Rightarrow> network \<Rightarrow> nat \<Rightarrow> mempool \<Rightarrow> nat \<Rightarrow> transaction list \<Rightarrow> (mempool \<times> nat, unit) result" where
  "return_txs mldsa s net height m back [] = Ok (m, back)"
| "return_txs mldsa s net height m back (t # ts) =
     (let is_local = txid t \<in> set (p_local_confirmed m);
          m1 = m\<lparr>p_local_confirmed := removeAll (txid t) (p_local_confirmed m)\<rparr>
      in case accept_with mldsa m1 t s net height is_local True of
           (m2, Ok _) \<Rightarrow> return_txs mldsa s net height m2 (back + 1) ts
         | (m2, Err _) \<Rightarrow> return_txs mldsa s net height m2 back ts
         | (m2, Panic) \<Rightarrow> Panic)"

text \<open>\<open>return_abandoned\<close>: the coinbase of each block is skipped.\<close>

definition return_abandoned :: "mldsa_lib \<Rightarrow> mempool \<Rightarrow> block list \<Rightarrow> utxo_set \<Rightarrow> network \<Rightarrow> nat \<Rightarrow> (mempool \<times> nat, unit) result" where
  "return_abandoned mldsa m blocks s net height =
     return_txs mldsa s net height m 0 (concat (map (\<lambda>b. drop 1 (blk_transactions b)) blocks))"

fun restore_saved ::
  "mldsa_lib \<Rightarrow> (transaction \<Rightarrow> bool) \<Rightarrow> utxo_set \<Rightarrow> network \<Rightarrow> nat \<Rightarrow> mempool \<Rightarrow> nat \<Rightarrow> transaction list \<Rightarrow> (mempool \<times> nat, unit) result" where
  "restore_saved mldsa own s net height m n [] = Ok (m, n)"
| "restore_saved mldsa own s net height m n (t # ts) =
     (case (if own t then accept_local mldsa m t s net height else accept mldsa m t s net height) of
        (m', Ok _) \<Rightarrow> restore_saved mldsa own s net height m' (n + 1) ts
      | (m', Err e) \<Rightarrow> restore_saved mldsa own s net height m' (if e = AlreadyPresent then n + 1 else n) ts
      | (m', Panic) \<Rightarrow> Panic)"

definition restore_at_startup ::
  "mldsa_lib \<Rightarrow> mempool \<Rightarrow> block list \<Rightarrow> transaction list \<Rightarrow> (transaction \<Rightarrow> bool) \<Rightarrow> utxo_set \<Rightarrow> network \<Rightarrow> nat
   \<Rightarrow> (mempool \<times> nat \<times> nat, unit) result" where
  "restore_at_startup mldsa m abandoned saved own s net height =
     rbind (return_abandoned mldsa m abandoned s net height) (\<lambda>(m1, returned).
     rbind (restore_saved mldsa own s net height m1 0 saved) (\<lambda>(m2, restored). Ok (m2, returned, restored)))"

section \<open>A connected block\<close>

definition note_confirmed :: "mempool \<Rightarrow> hash256 \<Rightarrow> mempool_entry option \<Rightarrow> mempool" where
  "note_confirmed m i r =
     (case r of
        Some e \<Rightarrow> if me_local e
                  then let lc = (if length (p_local_confirmed m) \<ge> LOCAL_CONFIRMED_MAX then [] else p_local_confirmed m)
                       in m\<lparr>p_local_confirmed := List.insert i lc\<rparr>
                  else m
      | None \<Rightarrow> m)"

definition drop_conflict :: "mempool \<Rightarrow> txin \<Rightarrow> mempool" where
  "drop_conflict m inp = (case hget (p_committed m) (prev_out inp) of Some c \<Rightarrow> fst (pool_remove m c) | None \<Rightarrow> m)"

definition confirm_tx :: "mempool \<Rightarrow> transaction \<Rightarrow> mempool" where
  "confirm_tx m t =
     (case remove_one m (txid t) of (m1, r) \<Rightarrow> foldl drop_conflict (note_confirmed m1 (txid t) r) (tx_inputs t))"

fun expire_loop :: "mempool \<Rightarrow> (nat \<times> hash256) list \<Rightarrow> mempool" where
  "expire_loop m [] = m\<lparr>p_returned_since := []\<rparr>"
| "expire_loop m ((since, i) # q) =
     (if p_blocks_seen m - since < RETURNED_PROTECTION_BLOCKS then m\<lparr>p_returned_since := (since, i) # q\<rparr>
      else if hget (p_returned_at m) i \<noteq> Some since then expire_loop m q
      else let m1 = m\<lparr>p_returned_at := hdel i (p_returned_at m)\<rparr>
           in case hget (p_entries m1) i of
                None \<Rightarrow> expire_loop m1 q
              | Some e \<Rightarrow>
                  if \<not> me_returned e then expire_loop m1 q
                  else let e' = e\<lparr>me_returned := False\<rparr>; m2 = m1\<lparr>p_entries := hput i e' (p_entries m1)\<rparr>
                       in expire_loop (if \<not> me_local e' \<and> kids (p_children m2) i = [] then add_evictable m2 i e' else m2) q)"

definition end_expired_protection :: "mempool \<Rightarrow> mempool" where
  "end_expired_protection m = expire_loop m (p_returned_since m)"

definition on_block_connected :: "mempool \<Rightarrow> block \<Rightarrow> mempool" where
  "on_block_connected m b =
     (let m1 = foldl confirm_tx m (blk_transactions b)
      in end_expired_protection (m1\<lparr>p_blocks_seen := p_blocks_seen m1 + 1\<rparr>))"

section \<open>The order of a block\<close>

type_synonym waiting_map = "(hash256, (hash256 \<times> mempool_entry) list) hmap"

text \<open>
  The inner loop of \<open>block_order\<close>: the positions of the source are the pairs they point to, the stack has its
  top first, and the ids selected are those of the entries chosen. Each turn takes one pair off the stack, to
  drop it, to choose it or to let it wait, and a pair leaves \<open>waiting\<close> at most once.
\<close>

definition pairs_left :: "waiting_map \<Rightarrow> (hash256 \<times> mempool_entry) list \<Rightarrow> nat" where
  "pairs_left waiting stack = length stack + sum_list (map (\<lambda>(_, v). length v) waiting)"

lemma pairs_wait: "pairs_left (hput p (kids waiting p @ [x]) waiting) stack = pairs_left waiting (x # stack)"
proof -
  have "sum_list (map (\<lambda>(_, v). length v) (AList.update p v w)) + length (kids w p) =
      sum_list (map (\<lambda>(_, v). length v) w) + length v" for v and w :: waiting_map
    by (induction w) (auto simp: kids_def hget_def)
  from this [of "kids waiting p @ [x]" waiting] show ?thesis by (simp add: pairs_left_def hput_def)
qed

lemma pairs_release: "pairs_left (hdel i waiting) (kids waiting i @ stack) \<le> pairs_left waiting stack"
proof -
  have d: "sum_list (map (\<lambda>(_, v). length v) (AList.delete i w)) \<le> sum_list (map (\<lambda>(_, v). length v) w)" for w :: waiting_map
    by (induction w) (auto simp: AList.delete_eq)
  have "sum_list (map (\<lambda>(_, v). length v) (AList.delete i w)) + length (kids w i) \<le> sum_list (map (\<lambda>(_, v). length v) w)"
    for w :: waiting_map
  proof (induction w)
    case (Cons a w)
    then show ?case using d [of w] by (cases a) (auto simp: kids_def hget_def AList.delete_eq)
  qed (simp add: kids_def)
  from this [of waiting] show ?thesis by (simp add: pairs_left_def hdel_def)
qed

function order_loop ::
  "mempool \<Rightarrow> nat \<Rightarrow> (hash256 \<times> mempool_entry) list \<Rightarrow> nat \<Rightarrow> waiting_map \<Rightarrow> (hash256 \<times> mempool_entry) list
   \<Rightarrow> (hash256 \<times> mempool_entry) list \<times> nat \<times> waiting_map" where
  "order_loop m max_weight chosen weight waiting [] = (chosen, weight, waiting)"
| "order_loop m max_weight chosen weight waiting ((i, e) # stack) =
     (if i \<in> set (map fst chosen) \<or> weight + me_weight e > max_weight then order_loop m max_weight chosen weight waiting stack
      else case List.find (\<lambda>p. p \<notin> set (map fst chosen) \<and> has_entry m p) (kids (p_parents m) i) of
             Some p \<Rightarrow> order_loop m max_weight chosen weight (hput p (kids waiting p @ [(i, e)]) waiting) stack
           | None \<Rightarrow> order_loop m max_weight (chosen @ [(i, e)]) (weight + me_weight e) (hdel i waiting) (kids waiting i @ stack))"
  by pat_completeness auto
termination
proof (relation "inv_image (less_than <*lex*> less_than)
    (\<lambda>(m, max_weight, chosen, weight, waiting, stack). (pairs_left waiting stack, length stack))", intro wf_inv_image wf_lex_prod wf_less_than)
  fix m :: mempool and max_weight weight :: nat and chosen stack :: "(hash256 \<times> mempool_entry) list" and waiting :: waiting_map and i e p
  show "((m, max_weight, chosen, weight, hput p (kids waiting p @ [(i, e)]) waiting, stack), (m, max_weight, chosen, weight, waiting, (i, e) # stack))
    \<in> inv_image (less_than <*lex*> less_than) (\<lambda>(m, max_weight, chosen, weight, waiting, stack). (pairs_left waiting stack, length stack))"
    by (simp add: pairs_wait)
  have "pairs_left (hdel i waiting) (kids waiting i @ stack) < pairs_left waiting ((i, e) # stack)"
    using pairs_release [of i waiting stack] by (simp add: pairs_left_def)
  then show "((m, max_weight, chosen @ [(i, e)], weight + me_weight e, hdel i waiting, kids waiting i @ stack),
      (m, max_weight, chosen, weight, waiting, (i, e) # stack))
    \<in> inv_image (less_than <*lex*> less_than) (\<lambda>(m, max_weight, chosen, weight, waiting, stack). (pairs_left waiting stack, length stack))"
    by simp
qed (simp add: pairs_left_def)

definition by_rate :: "mempool \<Rightarrow> (hash256 \<times> mempool_entry) list" where
  "by_rate m = sort_key (\<lambda>(i, e). (- int (fee_rate e), me_arrival e, i)) (p_entries m)"

fun order_from ::
  "mempool \<Rightarrow> nat \<Rightarrow> (hash256 \<times> mempool_entry) list \<Rightarrow> nat \<Rightarrow> waiting_map \<Rightarrow> (hash256 \<times> mempool_entry) list
   \<Rightarrow> (hash256 \<times> mempool_entry) list" where
  "order_from m max_weight chosen weight waiting [] = chosen"
| "order_from m max_weight chosen weight waiting (x # xs) =
     (case order_loop m max_weight chosen weight waiting [x] of
        (chosen, weight, waiting) \<Rightarrow> order_from m max_weight chosen weight waiting xs)"

definition block_order :: "mempool \<Rightarrow> nat \<Rightarrow> mempool_entry list" where
  "block_order m max_weight = map snd (order_from m max_weight [] 0 [] (by_rate m))"

definition select_for_block :: "mempool \<Rightarrow> nat \<Rightarrow> transaction list" where
  "select_for_block m max_weight = without_unripe_policy_spends (block_order m max_weight) (p_created m)"

fun announce_loop :: "nat \<Rightarrow> nat \<Rightarrow> mempool_entry list \<Rightarrow> hash256 list" where
  "announce_loop max_inputs inputs [] = []"
| "announce_loop max_inputs inputs (e # es) =
     (let inputs = inputs + length (tx_inputs (me_tx e))
      in if inputs > max_inputs then [] else txid (me_tx e) # announce_loop max_inputs inputs es)"

definition announcement :: "mempool \<Rightarrow> nat \<Rightarrow> hash256 list" where
  "announcement m max_inputs = announce_loop max_inputs 0 (block_order m u64_max)"

definition announcement_window :: "mempool \<Rightarrow> nat \<Rightarrow> hash256 list" where
  "announcement_window m max_txs = map (\<lambda>e. txid (me_tx e)) (take max_txs (block_order m u64_max))"

section \<open>Revalidation\<close>

definition confirmed_ids :: "mempool \<Rightarrow> utxo_set \<Rightarrow> hash256 list" where
  "confirmed_ids m s =
     map fst (filter (\<lambda>(i, e). list_ex (\<lambda>k. utxo_get s \<lparr>op_txid = i, op_index = of_nat k\<rparr> \<noteq> None) [0..<length (tx_outputs (me_tx e))])
       (p_entries m))"

definition leave_confirmed :: "mempool \<Rightarrow> hash256 \<Rightarrow> mempool" where
  "leave_confirmed m i = (case remove_one m i of (m', r) \<Rightarrow> note_confirmed m' i r)"

definition remove_all_of :: "mempool \<Rightarrow> hash256 list \<Rightarrow> mempool" where
  "remove_all_of m ids = foldl (\<lambda>m i. fst (pool_remove m i)) m ids"

text \<open>The registrations a block made impossible, then those beyond what their owner may still register.\<close>

fun sort_names ::
  "utxo_set \<Rightarrow> hash256 list \<Rightarrow> (hash256, (nat \<times> hash256) list) hmap \<Rightarrow> (hash256 \<times> mempool_entry) list
   \<Rightarrow> hash256 list \<times> (hash256, (nat \<times> hash256) list) hmap" where
  "sort_names s clashing by_owner [] = (clashing, by_owner)"
| "sort_names s clashing by_owner ((i, e) # es) =
     (if \<not> me_name e then sort_names s clashing by_owner es
      else case registration (me_tx e) of
             Ok (Some reg) \<Rightarrow>
               if view_name_by_skeleton (set_view s) (skeleton (reg_name reg)) \<noteq> None then sort_names s (clashing @ [i]) by_owner es
               else sort_names s clashing (hput (reg_owner reg) (kids by_owner (reg_owner reg) @ [(me_arrival e, i)]) by_owner) es
           | _ \<Rightarrow> sort_names s (clashing @ [i]) by_owner es)"

definition clashing_names :: "mempool \<Rightarrow> utxo_set \<Rightarrow> hash256 list" where
  "clashing_names m s =
     (case sort_names s [] [] (p_entries m) of
        (clashing, by_owner) \<Rightarrow> clashing @ concat (map (\<lambda>(ow, pending).
          map snd (drop (MAX_NAMES_PER_OWNER - view_names_owned (set_view s) ow) (sort pending))) by_owner))"

definition input_available :: "mempool \<Rightarrow> utxo_set \<Rightarrow> nat \<Rightarrow> txin \<Rightarrow> bool" where
  "input_available m s height inp \<longleftrightarrow>
     (case utxo_get s (prev_out inp) of
        Some u \<Rightarrow> (\<not> ue_is_coinbase u \<or> height + 1 \<ge> ue_height u + COINBASE_MATURITY) \<and> policy_locks_met u (in_witness inp) height
      | None \<Rightarrow>
          (case hget (p_created m) (prev_out inp) of
             Some u \<Rightarrow> unconfirmed_lock_free u (in_witness inp) \<and> policy_locks_met u (in_witness inp) height
           | None \<Rightarrow> False))"

definition orphans :: "mempool \<Rightarrow> utxo_set \<Rightarrow> nat \<Rightarrow> hash256 list" where
  "orphans m s height = map fst (filter (\<lambda>(i, e). \<not> list_all (input_available m s height) (tx_inputs (me_tx e))) (p_entries m))"

lemma orphan_child_entries [simp]: "p_entries (orphan_child i m p) = p_entries m"
  by (auto simp: orphan_child_def Let_def add_evictable_def split: option.split)

lemma foldl_orphan_child_entries [simp]: "p_entries (foldl (orphan_child i) m ps) = p_entries m"
  by (induction ps arbitrary: m) simp_all

lemma forget_name_entries [simp]: "p_entries (forget_name m i e) = p_entries m"
  by (auto simp: forget_name_def Let_def split: option.split)

lemma remove_one_entries: "p_entries (fst (remove_one m i)) = (if has_entry m i then hdel i (p_entries m) else p_entries m)"
  by (auto simp: remove_one_def has_entry_def Let_def drop_evictable_def split: option.splits)

lemma length_hdel: "length (hdel k m) \<le> length m \<and> (hget m k \<noteq> None \<longrightarrow> length (hdel k m) < length m)"
proof -
  have le: "length (AList.delete k m) \<le> length m" for m :: "('a \<times> 'b) list" by (simp add: AList.delete_eq)
  have "map_of m k \<noteq> None \<longrightarrow> length (AList.delete k m) < length m"
  proof (induction m)
    case (Cons a m)
    then show ?case using le [of m] by (cases a) (auto simp: AList.delete_eq less_Suc_eq_le)
  qed simp
  then show ?thesis using le by (simp add: hdel_def hget_def)
qed

lemma remove_one_length:
  "length (p_entries (fst (remove_one m i))) \<le> length (p_entries m) \<and>
   (has_entry m i \<longrightarrow> length (p_entries (fst (remove_one m i))) < length (p_entries m))"
  using length_hdel [of i "p_entries m"] by (auto simp: remove_one_entries has_entry_def)

text \<open>\<open>remove\<close> is \<open>remove_one\<close> over the walk, last met first.\<close>

lemma pool_remove_fold: "fst (pool_remove m i) = foldl (\<lambda>m j. fst (remove_one m j)) m (rev (descend (p_children m) [i] 0))"
proof -
  let ?f = "\<lambda>(m, first) j. case remove_one m j of
              (m', Some e) \<Rightarrow> (m', if j = i then Some e else first) | (m', None) \<Rightarrow> (m', first)"
  have "fst (foldl ?f (m, first) js) = foldl (\<lambda>m j. fst (remove_one m j)) m js" for m first js
    by (induction js arbitrary: m first) (auto split: prod.split option.split)
  then show ?thesis by (simp add: pool_remove_def)
qed

lemma descend_prefix: "\<exists>xs. descend ch members i = members @ xs"
proof (induction ch members i rule: descend.induct)
  case (1 ch members i)
  obtain new where n: "foldl add_new members (kids ch (members ! i)) = members @ new"
    using add_all_prefix [of members "kids ch (members ! i)"] by blast
  show ?case
  proof (cases "i < length members")
    case True
    then show ?thesis using 1 n by (subst descend.simps) auto
  qed (subst descend.simps, simp)
qed

lemma remove_fold_length: "length (p_entries (foldl (\<lambda>m j. fst (remove_one m j)) m js)) \<le> length (p_entries m)"
proof (induction js arbitrary: m)
  case (Cons j js)
  then show ?case using le_trans [OF Cons [of "fst (remove_one m j)"]] remove_one_length [of m j] by simp
qed simp

lemma remove_fold_gone:
  "hget (p_entries (foldl (\<lambda>m j. fst (remove_one m j)) m js)) k = (if k \<in> set js then None else hget (p_entries m) k)"
proof (induction js arbitrary: m)
  case (Cons j js)
  then show ?case by (auto simp: remove_one_entries has_entry_def)
qed simp

lemma remove_fold_shrinks:
  "j \<in> set js \<Longrightarrow> has_entry m j \<Longrightarrow> length (p_entries (foldl (\<lambda>m j. fst (remove_one m j)) m js)) < length (p_entries m)"
proof (induction js arbitrary: m)
  case (Cons k js)
  show ?case
  proof (cases "has_entry m k")
    case True
    then show ?thesis using remove_one_length [of m k] remove_fold_length [of "fst (remove_one m k)" js] by simp
  next
    case False
    then have "fst (remove_one m k) = m" by (auto simp: remove_one_def has_entry_def split: option.splits)
    then show ?thesis using Cons False by auto
  qed
qed simp

lemma pool_remove_length: "length (p_entries (fst (pool_remove m i))) \<le> length (p_entries m)"
  unfolding pool_remove_fold by (rule remove_fold_length)

lemma pool_remove_shrinks:
  assumes "has_entry m i"
  shows "length (p_entries (fst (pool_remove m i))) < length (p_entries m)"
proof -
  obtain xs where "descend (p_children m) [i] 0 = [i] @ xs" using descend_prefix by blast
  then have "i \<in> set (rev (descend (p_children m) [i] 0))" by simp
  then show ?thesis unfolding pool_remove_fold using assms by (rule remove_fold_shrinks)
qed

lemma remove_all_length: "length (p_entries (remove_all_of m ids)) \<le> length (p_entries m)"
proof (induction ids arbitrary: m)
  case (Cons i ids)
  then show ?case using le_trans [OF Cons [of "fst (pool_remove m i)"] pool_remove_length] by (simp add: remove_all_of_def)
qed (simp add: remove_all_of_def)

lemma remove_all_shrinks: "ids \<noteq> [] \<Longrightarrow> has_entry m (hd ids) \<Longrightarrow> length (p_entries (remove_all_of m ids)) < length (p_entries m)"
  using remove_all_length [of "fst (pool_remove m (hd ids))" "tl ids"] pool_remove_shrinks [of m "hd ids"]
  by (cases ids) (auto simp: remove_all_of_def)

text \<open>The loop of \<open>revalidate\<close>: each round removes at least one transaction.\<close>

function drop_orphans :: "mempool \<Rightarrow> utxo_set \<Rightarrow> nat \<Rightarrow> mempool" where
  "drop_orphans m s height =
     (let os = orphans m s height in if os = [] then m else drop_orphans (remove_all_of m os) s height)"
  by pat_completeness auto
termination
proof (relation "measure (\<lambda>(m, s, height). length (p_entries m))")
  fix m :: mempool and s :: utxo_set and height os
  assume o: "os = orphans m s height" "os \<noteq> []"
  have "set os \<subseteq> set (map fst (p_entries m))" unfolding o(1) orphans_def by auto
  then have "hd os \<in> set (map fst (p_entries m))" using o(2) hd_in_set by blast
  then have "has_entry m (hd os)" by (auto simp: has_entry_def hget_def map_of_eq_None_iff)
  then have "length (p_entries (remove_all_of m os)) < length (p_entries m)" using remove_all_shrinks o(2) by blast
  then show "((remove_all_of m os, s, height), (m, s, height)) \<in> measure (\<lambda>(m, s, height). length (p_entries m))" by simp
qed simp

declare drop_orphans.simps [simp del]

definition revalidate :: "mempool \<Rightarrow> utxo_set \<Rightarrow> network \<Rightarrow> nat \<Rightarrow> mempool" where
  "revalidate m s net height =
     (let m1 = foldl leave_confirmed m (confirmed_ids m s);
          m2 = (if policy_is_active net (height + 1) then m1
                else remove_all_of m1 (map fst (filter (\<lambda>(_, e). me_policy e) (p_entries m1))));
          m3 = (if names_is_active net (height + 1) then m2
                else remove_all_of m2 (map fst (filter (\<lambda>(_, e). me_name e) (p_entries m2))));
          m4 = remove_all_of m3 (clashing_names m3 s)
      in drop_orphans m4 s height)"


end
