(* ===== verification/MempoolInv.thy ===== *)
theory MempoolInv
  imports Mempool
begin

text \<open>
  The invariant of the pool of pending transactions (\<open>pool_ok\<close>): the maps derived from the entries are exact,
  no output is spent twice, the transactions a full pool may push out are exactly the ordinary ones nothing
  depends on, and the bytes held are counted and bounded. \<open>funded\<close> says that every pending transaction
  spends outputs that exist, confirmed or pending.
\<close>

section \<open>The invariant\<close>

type_synonym ledger_view = "outpoint \<Rightarrow> utxo_entry option"

definition spent_by :: "mempool_entry \<Rightarrow> outpoint set" where
  "spent_by e = set (map prev_out (tx_inputs (me_tx e)))"

definition made :: "hash256 \<Rightarrow> transaction \<Rightarrow> outpoint set" where
  "made i t = (\<lambda>k. \<lparr>op_txid = i, op_index = of_nat k\<rparr>) ` {..<length (tx_outputs t)}"

text \<open>\<open>c\<close> spends an output of \<open>p\<close>, both pending.\<close>

definition depends :: "(hash256, mempool_entry) hmap \<Rightarrow> hash256 \<Rightarrow> hash256 \<Rightarrow> bool" where
  "depends es p c \<longleftrightarrow> c \<noteq> p \<and> (\<exists>pe ce. hget es p = Some pe \<and> hget es c = Some ce \<and> spent_by ce \<inter> made p (me_tx pe) \<noteq> {})"

definition ordinary :: "mempool_entry \<Rightarrow> bool" where
  "ordinary e \<longleftrightarrow> \<not> me_local e \<and> \<not> me_returned e"

definition evictable_ok :: "mempool \<Rightarrow> bool" where
  "evictable_ok m \<longleftrightarrow> sorted (p_evictable m) \<and> distinct (p_evictable m) \<and>
     set (p_evictable m) = {eviction_key i e |i e. hget (p_entries m) i = Some e \<and> ordinary e \<and> kids (p_children m) i = []}"

definition links_ok :: "mempool \<Rightarrow> bool" where
  "links_ok m \<longleftrightarrow> (\<forall>p. set (kids (p_children m) p) = {c. depends (p_entries m) p c}) \<and>
     (\<forall>p c. depends (p_entries m) p c \<longrightarrow> p \<in> set (kids (p_parents m) c))"

definition entry_ok :: "hash256 \<Rightarrow> mempool_entry \<Rightarrow> bool" where
  "entry_ok i e \<longleftrightarrow> txid (me_tx e) = i \<and> me_weight e = tx_weight (me_tx e) WITNESS_DISCOUNT \<and> me_size e = length (tx_encode (me_tx e)) \<and>
     (me_name e \<longleftrightarrow> registered (me_tx e) \<noteq> None) \<and>
     (list_ex (\<lambda>out. out_scheme out = SchemeId.Policy) (tx_outputs (me_tx e)) \<longrightarrow> me_policy e)"

definition maps_ok :: "mempool \<Rightarrow> bool" where
  "maps_ok m \<longleftrightarrow> hwf (p_entries m) \<and> (\<forall>i e. hget (p_entries m) i = Some e \<longrightarrow> entry_ok i e) \<and>
     (\<forall>op i. hget (p_committed m) op = Some i \<longleftrightarrow> (\<exists>e. hget (p_entries m) i = Some e \<and> op \<in> spent_by e)) \<and>
     (\<forall>op. hget (p_created m) op \<noteq> None \<longleftrightarrow> (\<exists>e. hget (p_entries m) (op_txid op) = Some e \<and> op \<in> made (op_txid op) (me_tx e)))"

text \<open>An output listed as pending is the output of the pending transaction that makes it.\<close>

definition outputs_ok :: "mempool \<Rightarrow> bool" where
  "outputs_ok m \<longleftrightarrow> (\<forall>op u. hget (p_created m) op = Some u \<longrightarrow>
     (\<exists>e k. hget (p_entries m) (op_txid op) = Some e \<and> k < length (tx_outputs (me_tx e)) \<and> op_index op = of_nat k \<and>
        ue_output u = tx_outputs (me_tx e) ! k))"

definition total_size :: "(hash256, mempool_entry) hmap \<Rightarrow> nat" where
  "total_size es = sum_list (map (\<lambda>(_, e). me_size e) es)"

definition pool_ok :: "mempool \<Rightarrow> bool" where
  "pool_ok m \<longleftrightarrow> maps_ok m \<and> outputs_ok m \<and> links_ok m \<and> evictable_ok m \<and> p_bytes m = total_size (p_entries m) \<and> p_bytes m \<le> capacity m"

lemma pool_new_ok: "pool_ok pool_new"
  by (simp add: pool_ok_def maps_ok_def outputs_ok_def links_ok_def evictable_ok_def pool_new_def total_size_def depends_def kids_def)

lemma made_txid: "op \<in> made i t \<Longrightarrow> op_txid op = i"
  by (auto simp: made_def)

lemma eviction_key_inj: "eviction_key i e = eviction_key i' e' \<Longrightarrow> i = i'"
  by (simp add: eviction_key_def)

text \<open>What the invariant depends on.\<close>

definition same_pool :: "mempool \<Rightarrow> mempool \<Rightarrow> bool" where
  "same_pool m m' \<longleftrightarrow> p_entries m' = p_entries m \<and> p_committed m' = p_committed m \<and> p_created m' = p_created m \<and>
     p_children m' = p_children m \<and> p_parents m' = p_parents m \<and> p_evictable m' = p_evictable m \<and> p_bytes m' = p_bytes m \<and>
     p_max_bytes m' = p_max_bytes m"

lemma capacity_cong: "p_max_bytes m' = p_max_bytes m \<Longrightarrow> capacity m' = capacity m"
  by (simp add: capacity_def)

lemma same_pool_ok: "pool_ok m \<Longrightarrow> same_pool m m' \<Longrightarrow> pool_ok m'"
  using capacity_cong [of m' m] by (simp add: pool_ok_def maps_ok_def outputs_ok_def links_ok_def evictable_ok_def same_pool_def)

lemma same_pool_refl [simp]: "same_pool m m"
  by (simp add: same_pool_def)

lemma note_confirmed_same [simp]: "same_pool m (note_confirmed m i r)"
  by (auto simp: note_confirmed_def same_pool_def Let_def split: option.split)

lemma depends_entries: "depends es p c \<Longrightarrow> hget es p \<noteq> None \<and> hget es c \<noteq> None"
  by (auto simp: depends_def)

section \<open>Removing one transaction\<close>

lemma ord_insert_ok: "sorted xs \<Longrightarrow> distinct xs \<Longrightarrow> sorted (ord_insert x xs) \<and> distinct (ord_insert x xs) \<and> set (ord_insert x xs) = insert x (set xs)"
  by (auto simp: ord_insert_def sorted_insort distinct_insort set_insort_key)

lemma ord_remove_ok: "sorted xs \<Longrightarrow> distinct xs \<Longrightarrow> sorted (ord_remove x xs) \<and> distinct (ord_remove x xs) \<and> set (ord_remove x xs) = set xs - {x}"
  by (simp add: ord_remove_def sorted_remove1)

lemma forget_name_frame [simp]:
  "p_committed (forget_name m i e) = p_committed m" "p_created (forget_name m i e) = p_created m"
  "p_children (forget_name m i e) = p_children m" "p_parents (forget_name m i e) = p_parents m"
  "p_evictable (forget_name m i e) = p_evictable m" "p_bytes (forget_name m i e) = p_bytes m"
  "p_max_bytes (forget_name m i e) = p_max_bytes m"
  by (auto simp: forget_name_def Let_def split: option.split)

lemma release_inputs_get:
  "hget (foldl (release_input i) cm ins) op = (if op \<in> set (map prev_out ins) \<and> hget cm op = Some i then None else hget cm op)"
  by (induction ins arbitrary: cm) (auto simp: release_input_def)

lemma drop_made_get:
  "hget (foldl (\<lambda>cr k. hdel \<lparr>op_txid = i, op_index = of_nat k\<rparr> cr) cr ks) op =
   (if op \<in> (\<lambda>k. \<lparr>op_txid = i, op_index = of_nat k\<rparr>) ` set ks then None else hget cr op)"
  by (induction ks arbitrary: cr) auto

lemma kids_put [simp]: "kids (hput k v m) k' = (if k' = k then v else kids m k')"
  by (simp add: kids_def)

lemma kids_del [simp]: "kids (hdel k m) k' = (if k' = k then [] else kids m k')"
  by (simp add: kids_def)

lemma orphan_child_step:
  "p_committed (orphan_child i m p) = p_committed m" "p_created (orphan_child i m p) = p_created m"
  "p_parents (orphan_child i m p) = p_parents m" "p_bytes (orphan_child i m p) = p_bytes m"
  "p_max_bytes (orphan_child i m p) = p_max_bytes m"
  "kids (p_children (orphan_child i m p)) k = (if k = p then filter (\<lambda>c. c \<noteq> i) (kids (p_children m) k) else kids (p_children m) k)"
  "hget (p_children (orphan_child i m p)) k = None \<longleftrightarrow> hget (p_children m) k = None"
  by (auto simp: orphan_child_def Let_def add_evictable_def kids_def split: option.splits)

text \<open>The key of a parent that loses its last child.\<close>

definition freed_key :: "hash256 \<Rightarrow> mempool \<Rightarrow> hash256 \<Rightarrow> (nat \<times> nat \<times> hash256) set" where
  "freed_key i m p = {eviction_key p pe |pe. hget (p_children m) p \<noteq> None \<and> filter (\<lambda>c. c \<noteq> i) (kids (p_children m) p) = [] \<and>
     hget (p_entries m) p = Some pe \<and> ordinary pe}"

lemma freed_key_step: "freed_key i (orphan_child i m p) p' = freed_key i m p'"
  by (simp add: freed_key_def orphan_child_step)

lemma orphan_child_evictable:
  assumes "sorted (p_evictable m)" "distinct (p_evictable m)"
  shows "sorted (p_evictable (orphan_child i m p))" "distinct (p_evictable (orphan_child i m p))"
    "set (p_evictable (orphan_child i m p)) = set (p_evictable m) \<union> freed_key i m p"
  using assms ord_insert_ok [OF assms]
  by (auto simp: orphan_child_def freed_key_def Let_def add_evictable_def kids_def ordinary_def split: option.splits)

lemma orphan_children_frame:
  "p_committed (foldl (orphan_child i) m ps) = p_committed m" "p_created (foldl (orphan_child i) m ps) = p_created m"
  "p_parents (foldl (orphan_child i) m ps) = p_parents m" "p_bytes (foldl (orphan_child i) m ps) = p_bytes m"
  "p_max_bytes (foldl (orphan_child i) m ps) = p_max_bytes m"
  by (induction ps arbitrary: m) (simp_all add: orphan_child_step)

lemma orphan_children_kids:
  "kids (p_children (foldl (orphan_child i) m ps)) k =
   (if k \<in> set ps then filter (\<lambda>c. c \<noteq> i) (kids (p_children m) k) else kids (p_children m) k)"
  by (induction ps arbitrary: m) (simp_all add: orphan_child_step)

lemma orphan_children_evictable:
  "sorted (p_evictable m) \<Longrightarrow> distinct (p_evictable m) \<Longrightarrow>
   sorted (p_evictable (foldl (orphan_child i) m ps)) \<and> distinct (p_evictable (foldl (orphan_child i) m ps)) \<and>
   set (p_evictable (foldl (orphan_child i) m ps)) = set (p_evictable m) \<union> (\<Union>p \<in> set ps. freed_key i m p)"
proof (induction ps arbitrary: m)
  case (Cons p ps)
  from Cons.IH [OF orphan_child_evictable(1,2) [OF Cons.prems]] show ?case
    by (simp add: freed_key_step orphan_child_evictable(3) [OF Cons.prems] Un_assoc)
qed simp

text \<open>The fields after a removal.\<close>

lemma remove_one_fields:
  assumes "hget (p_entries m) i = Some e"
  shows "p_max_bytes (fst (remove_one m i)) = p_max_bytes m" "p_bytes (fst (remove_one m i)) = p_bytes m - me_size e"
    "p_entries (fst (remove_one m i)) = hdel i (p_entries m)" "p_parents (fst (remove_one m i)) = hdel i (p_parents m)"
    "hget (p_committed (fst (remove_one m i))) op = (if op \<in> spent_by e \<and> hget (p_committed m) op = Some i then None else hget (p_committed m) op)"
    "hget (p_created (fst (remove_one m i))) op = (if op \<in> made i (me_tx e) then None else hget (p_created m) op)"
    "kids (p_children (fst (remove_one m i))) k = (if k = i then []
       else if k \<in> set (kids (p_parents m) i) then filter (\<lambda>c. c \<noteq> i) (kids (p_children m) k) else kids (p_children m) k)"
  using assms
  by (simp_all add: remove_one_def Let_def orphan_children_frame orphan_children_kids release_inputs_get drop_made_get
      drop_evictable_def spent_by_def made_def atLeast0LessThan)

lemma remove_one_evictable:
  assumes "hget (p_entries m) i = Some e" "sorted (p_evictable m)" "distinct (p_evictable m)"
  shows "sorted (p_evictable (fst (remove_one m i)))" "distinct (p_evictable (fst (remove_one m i)))"
    "set (p_evictable (fst (remove_one m i))) = (set (p_evictable m) - {eviction_key i e}) \<union>
       {eviction_key p pe |p pe. p \<in> set (kids (p_parents m) i) \<and> p \<noteq> i \<and> hget (p_children m) p \<noteq> None \<and>
          filter (\<lambda>c. c \<noteq> i) (kids (p_children m) p) = [] \<and> hget (p_entries m) p = Some pe \<and> ordinary pe}"
proof -
  define m0 where "m0 = forget_name (drop_evictable (m\<lparr>p_entries := hdel i (p_entries m)\<rparr>) i e) i e"
  define m2 where "m2 = m0\<lparr>p_bytes := p_bytes m0 - me_size e,
      p_committed := foldl (release_input i) (p_committed m0) (tx_inputs (me_tx e)),
      p_created := foldl (\<lambda>cr k. hdel \<lparr>op_txid = i, op_index = of_nat k\<rparr> cr) (p_created m0) [0..<length (tx_outputs (me_tx e))],
      p_parents := hdel i (p_parents m0)\<rparr>"
  have r: "p_evictable (fst (remove_one m i)) = p_evictable (foldl (orphan_child i) m2 (kids (p_parents m) i))"
    using assms(1) by (simp add: remove_one_def Let_def m2_def m0_def drop_evictable_def)
  have e2: "p_evictable m2 = ord_remove (eviction_key i e) (p_evictable m)" by (simp add: m2_def m0_def drop_evictable_def)
  have s: "sorted (p_evictable m2)" "distinct (p_evictable m2)" "set (p_evictable m2) = set (p_evictable m) - {eviction_key i e}"
    unfolding e2 using ord_remove_ok [OF assms(2,3)] by simp_all
  have k: "freed_key i m2 p = {eviction_key p pe |pe. p \<noteq> i \<and> hget (p_children m) p \<noteq> None \<and>
          filter (\<lambda>c. c \<noteq> i) (kids (p_children m) p) = [] \<and> hget (p_entries m) p = Some pe \<and> ordinary pe}" for p
    by (auto simp: freed_key_def m2_def m0_def drop_evictable_def)
  note o = orphan_children_evictable [OF s(1,2), of i "kids (p_parents m) i"]
  show "sorted (p_evictable (fst (remove_one m i)))" "distinct (p_evictable (fst (remove_one m i)))" unfolding r using o by blast+
  have u: "(\<Union>p \<in> P. {f p pe |pe. Q p pe}) = {f p pe |p pe. p \<in> P \<and> Q p pe}" for P :: "'a set" and f :: "'a \<Rightarrow> 'b \<Rightarrow> 'c" and Q by auto
  show "set (p_evictable (fst (remove_one m i))) = (set (p_evictable m) - {eviction_key i e}) \<union>
       {eviction_key p pe |p pe. p \<in> set (kids (p_parents m) i) \<and> p \<noteq> i \<and> hget (p_children m) p \<noteq> None \<and>
          filter (\<lambda>c. c \<noteq> i) (kids (p_children m) p) = [] \<and> hget (p_entries m) p = Some pe \<and> ordinary pe}"
    unfolding r using o by (simp only: s(3) k u)
qed

lemma depends_del: "depends (hdel i es) p c \<longleftrightarrow> depends es p c \<and> p \<noteq> i \<and> c \<noteq> i"
  by (auto simp: depends_def)

lemma remove_one_maps:
  assumes "maps_ok m"
  shows "maps_ok (fst (remove_one m i))"
proof (cases "hget (p_entries m) i")
  case (Some e)
  note f = remove_one_fields [OF Some]
  have c: "hget (p_committed m) op = Some j \<longleftrightarrow> (\<exists>e. hget (p_entries m) j = Some e \<and> op \<in> spent_by e)" for op j
    using assms by (simp add: maps_ok_def)
  have cr: "hget (p_created m) op \<noteq> None \<longleftrightarrow> (\<exists>e. hget (p_entries m) (op_txid op) = Some e \<and> op \<in> made (op_txid op) (me_tx e))" for op
    using assms unfolding maps_ok_def by blast
  have "hget (p_committed (fst (remove_one m i))) op = Some j \<longleftrightarrow> (\<exists>e. hget (hdel i (p_entries m)) j = Some e \<and> op \<in> spent_by e)" for op j
    unfolding f(5) using c [of op j] c [of op i] Some by auto
  moreover have "hget (p_created (fst (remove_one m i))) op \<noteq> None \<longleftrightarrow>
      (\<exists>e. hget (hdel i (p_entries m)) (op_txid op) = Some e \<and> op \<in> made (op_txid op) (me_tx e))" for op
    unfolding f(6) using cr [of op] Some made_txid [of op i "me_tx e"] by auto
  ultimately show ?thesis using assms unfolding maps_ok_def f(3) by auto
qed (use assms in \<open>simp add: remove_one_def\<close>)

lemma remove_one_outputs:
  assumes "maps_ok m" "outputs_ok m"
  shows "outputs_ok (fst (remove_one m i))"
proof (cases "hget (p_entries m) i")
  case (Some e)
  note f = remove_one_fields [OF Some]
  have "op_txid op \<noteq> i" if "hget (p_created m) op = Some u" "op \<notin> made i (me_tx e)" for op u
    using assms(1) that Some unfolding maps_ok_def by (metis option.distinct(1) option.inject)
  then show ?thesis using assms(2) unfolding outputs_ok_def f(3,6) by (auto split: if_splits)
qed (use assms in \<open>simp add: remove_one_def\<close>)

lemma remove_one_kids:
  assumes "links_ok m" "hget (p_entries m) i = Some e"
  shows "kids (p_children (fst (remove_one m i))) k = (if k = i then [] else filter (\<lambda>c. c \<noteq> i) (kids (p_children m) k))"
proof -
  have "i \<in> set (kids (p_children m) k) \<Longrightarrow> k \<in> set (kids (p_parents m) i)"
    using assms(1) unfolding links_ok_def by blast
  moreover have "i \<notin> set (kids (p_children m) k) \<Longrightarrow> filter (\<lambda>c. c \<noteq> i) (kids (p_children m) k) = kids (p_children m) k"
    by (auto intro: filter_True)
  ultimately show ?thesis unfolding remove_one_fields(7) [OF assms(2)] by metis
qed

lemma remove_one_links:
  assumes "links_ok m"
  shows "links_ok (fst (remove_one m i))"
proof (cases "hget (p_entries m) i")
  case (Some e)
  note f = remove_one_fields [OF Some]
  have "set (kids (p_children m) p) = {c. depends (p_entries m) p c}" for p using assms by (simp add: links_ok_def)
  then have "set (kids (p_children (fst (remove_one m i))) p) = {c. depends (hdel i (p_entries m)) p c}" for p
    unfolding remove_one_kids [OF assms Some] depends_del by auto
  then show ?thesis using assms unfolding links_ok_def f(3,4) depends_del by auto
qed (use assms in \<open>simp add: remove_one_def\<close>)

lemma remove_one_evictable_ok:
  assumes "links_ok m" "evictable_ok m"
  shows "evictable_ok (fst (remove_one m i))"
proof (cases "hget (p_entries m) i")
  case (Some e)
  have s: "sorted (p_evictable m)" "distinct (p_evictable m)"
    "set (p_evictable m) = {eviction_key i e |i e. hget (p_entries m) i = Some e \<and> ordinary e \<and> kids (p_children m) i = []}"
    using assms(2) by (simp_all add: evictable_ok_def)
  note f = remove_one_fields(3) [OF Some] and k = remove_one_kids [OF assms(1) Some]
  have par: "i \<in> set (kids (p_children m) p) \<Longrightarrow> p \<in> set (kids (p_parents m) i) \<and> p \<noteq> i" for p
    using assms(1) unfolding links_ok_def by (auto simp: depends_def)
  let ?new = "{eviction_key p pe |p pe. p \<in> set (kids (p_parents m) i) \<and> p \<noteq> i \<and> hget (p_children m) p \<noteq> None \<and>
          filter (\<lambda>c. c \<noteq> i) (kids (p_children m) p) = [] \<and> hget (p_entries m) p = Some pe \<and> ordinary pe}"
  let ?goal = "{eviction_key j e |j e. hget (hdel i (p_entries m)) j = Some e \<and> ordinary e \<and>
      kids (p_children (fst (remove_one m i))) j = []}"
  have "x \<in> (set (p_evictable m) - {eviction_key i e}) \<union> ?new" if "x \<in> ?goal" for x
  proof -
    obtain j ej where x: "x = eviction_key j ej" "j \<noteq> i" "hget (p_entries m) j = Some ej" "ordinary ej"
      "filter (\<lambda>c. c \<noteq> i) (kids (p_children m) j) = []"
      using \<open>x \<in> ?goal\<close> by (auto simp: k split: if_splits)
    show ?thesis
    proof (cases "i \<in> set (kids (p_children m) j)")
      case True
      then have "hget (p_children m) j \<noteq> None" by (cases "hget (p_children m) j") (simp_all add: kids_def)
      then show ?thesis using x par [OF True] by blast
    next
      case False
      then have "filter (\<lambda>c. c \<noteq> i) (kids (p_children m) j) = kids (p_children m) j" by (auto intro: filter_True)
      then have "kids (p_children m) j = []" using x(5) by simp
      then have "x \<in> set (p_evictable m)" unfolding s(3) using x by blast
      moreover have "x \<noteq> eviction_key i e" using x(1,2) eviction_key_inj by blast
      ultimately show ?thesis by blast
    qed
  qed
  moreover have "x \<in> ?goal" if old: "x \<in> set (p_evictable m) - {eviction_key i e}" for x
  proof -
    obtain j ej where x: "x = eviction_key j ej" "hget (p_entries m) j = Some ej" "ordinary ej" "kids (p_children m) j = []"
      "x \<noteq> eviction_key i e" using old unfolding s(3) by blast
    then have "j \<noteq> i" using Some by auto
    then have "hget (hdel i (p_entries m)) j = Some ej \<and> ordinary ej \<and> kids (p_children (fst (remove_one m i))) j = []"
      using x by (simp add: k)
    then show ?thesis using x(1) by blast
  qed
  moreover have "x \<in> ?goal" if "x \<in> ?new" for x using that by (auto simp: k)
  ultimately have "(set (p_evictable m) - {eviction_key i e}) \<union> ?new = ?goal" by blast
  then show ?thesis using remove_one_evictable [OF Some s(1,2)] unfolding evictable_ok_def f by simp
qed (use assms in \<open>simp add: remove_one_def\<close>)

lemma total_size_del: "hwf es \<Longrightarrow> hget es i = Some e \<Longrightarrow> total_size (hdel i es) + me_size e = total_size es"
  using hm.sum_del [of es "\<lambda>_ e. me_size e" i] by (simp add: total_size_def)

lemma remove_one_ok:
  assumes "pool_ok m"
  shows "pool_ok (fst (remove_one m i))"
proof (cases "hget (p_entries m) i")
  case (Some e)
  note f = remove_one_fields [OF Some]
  have "total_size (hdel i (p_entries m)) + me_size e = total_size (p_entries m)"
    by (rule total_size_del [OF _ Some]) (use assms in \<open>simp add: pool_ok_def maps_ok_def\<close>)
  moreover have p: "maps_ok m" "links_ok m" "evictable_ok m" "p_bytes m = total_size (p_entries m)" "p_bytes m \<le> capacity m"
    "outputs_ok m"
    using assms by (simp_all add: pool_ok_def)
  ultimately have "p_bytes m - me_size e = total_size (hdel i (p_entries m))" "p_bytes m - me_size e \<le> capacity m" by linarith+
  then show ?thesis
    using remove_one_maps [OF p(1)] remove_one_outputs [OF p(1,6)] remove_one_links [OF p(2)] remove_one_evictable_ok [OF p(2,3)] capacity_cong [OF f(1)]
    by (simp add: pool_ok_def f(2,3))
qed (use assms in \<open>simp add: remove_one_def\<close>)


section \<open>Removing packages\<close>

definition kid_rel :: "(hash256, hash256 list) hmap \<Rightarrow> hash256 rel" where
  "kid_rel ch = {(p, c). c \<in> set (kids ch p)}"

definition dep_rel :: "(hash256, mempool_entry) hmap \<Rightarrow> hash256 rel" where
  "dep_rel es = {(p, c). depends es p c}"

lemma kid_dep: "links_ok m \<Longrightarrow> kid_rel (p_children m) = dep_rel (p_entries m)"
  by (auto simp: links_ok_def kid_rel_def dep_rel_def)

lemma add_all_set: "set (foldl add_new xs ys) = set xs \<union> set ys"
proof (induction ys arbitrary: xs)
  case (Cons y ys)
  have "set (add_new xs y) = insert y (set xs)" by (auto simp: add_new_def)
  then show ?case using Cons [of "add_new xs y"] by simp
qed simp

lemma reach_mono: "A \<subseteq> R\<^sup>* `` B \<Longrightarrow> R\<^sup>* `` A \<subseteq> R\<^sup>* `` B"
  by (blast intro: rtrancl_trans)

lemma descend_closed:
  "(\<forall>j < n. set (kids ch (members ! j)) \<subseteq> set members) \<Longrightarrow> n \<le> length members \<Longrightarrow>
   \<forall>x \<in> set (descend ch members n). set (kids ch x) \<subseteq> set (descend ch members n)"
proof (induction ch members n rule: descend.induct)
  case (1 ch members n)
  show ?case
  proof (cases "n < length members")
    case True
    let ?ms = "foldl add_new members (kids ch (members ! n))"
    obtain new where n: "?ms = members @ new" "set new \<subseteq> set (kids ch (members ! n))"
      using add_all_prefix [of members "kids ch (members ! n)"] by blast
    have all: "set (kids ch (members ! n)) \<subseteq> set ?ms" by (simp add: add_all_set)
    have "\<forall>j < Suc n. set (kids ch (?ms ! j)) \<subseteq> set ?ms"
      using "1.prems"(1) True all n(1) by (auto simp: less_Suc_eq nth_append)
    then show ?thesis using "1.IH" [OF True] True n(1) by (subst (1 2) descend.simps) simp
  next
    case False
    have "set (kids ch x) \<subseteq> set members" if x: "x \<in> set members" for x
    proof -
      obtain j where "j < length members" "x = members ! j" using x by (auto simp: in_set_conv_nth)
      then show ?thesis using "1.prems" False by auto
    qed
    then show ?thesis using False by (subst (1 2) descend.simps) simp
  qed
qed

lemma descend_reaches: "set (descend ch members n) \<subseteq> (kid_rel ch)\<^sup>* `` set members"
proof (induction ch members n rule: descend.induct)
  case (1 ch members n)
  show ?case
  proof (cases "n < length members")
    case True
    obtain new where n: "foldl add_new members (kids ch (members ! n)) = members @ new" "set new \<subseteq> set (kids ch (members ! n))"
      using add_all_prefix [of members "kids ch (members ! n)"] by blast
    have "x \<in> (kid_rel ch)\<^sup>* `` set members" if "x \<in> set new" for x
    proof -
      have "(members ! n, x) \<in> kid_rel ch" using n(2) \<open>x \<in> set new\<close> by (auto simp: kid_rel_def)
      then show ?thesis using True by (meson ImageI nth_mem r_into_rtrancl)
    qed
    moreover have "x \<in> (kid_rel ch)\<^sup>* `` set members" if "x \<in> set members" for x using that by blast
    ultimately have "(kid_rel ch)\<^sup>* `` set (members @ new) \<subseteq> (kid_rel ch)\<^sup>* `` set members"
      by (intro reach_mono) auto
    then show ?thesis using "1.IH" [OF True] n(1) True by (subst descend.simps) auto
  qed (subst descend.simps, auto)
qed

lemma descend_set: "set (descend ch [i] 0) = (kid_rel ch)\<^sup>* `` {i}"
proof -
  obtain xs where x: "descend ch [i] 0 = [i] @ xs" using descend_prefix by blast
  have cl: "\<forall>x \<in> set (descend ch [i] 0). set (kids ch x) \<subseteq> set (descend ch [i] 0)" by (rule descend_closed) simp_all
  have "y \<in> set (descend ch [i] 0)" if "(i, y) \<in> (kid_rel ch)\<^sup>*" for y
    using that by (induction rule: rtrancl_induct) (use x cl in \<open>auto simp: kid_rel_def\<close>)
  then show ?thesis using descend_reaches [of ch "[i]" 0] by auto
qed

lemma remove_fold_ok: "pool_ok m \<Longrightarrow> pool_ok (foldl (\<lambda>m j. fst (remove_one m j)) m js)"
  by (induction js arbitrary: m) (simp_all add: remove_one_ok)

lemma pool_remove_ok: "pool_ok m \<Longrightarrow> pool_ok (fst (pool_remove m i))"
  unfolding pool_remove_fold by (rule remove_fold_ok)

text \<open>Removing a transaction removes exactly what depends on it.\<close>

lemma pool_remove_entries:
  assumes "pool_ok m"
  shows "hget (p_entries (fst (pool_remove m i))) k = (if k \<in> (dep_rel (p_entries m))\<^sup>* `` {i} then None else hget (p_entries m) k)"
  unfolding pool_remove_fold remove_fold_gone
  using descend_set [of "p_children m" i] kid_dep [of m] assms by (simp add: pool_ok_def)

lemma reach_outside:
  assumes "R `` D \<subseteq> D" "y \<notin> D"
  shows "(z, y) \<in> R\<^sup>* \<longleftrightarrow> (z, y) \<in> {(p, c) \<in> R. p \<notin> D \<and> c \<notin> D}\<^sup>*"
proof
  assume "(z, y) \<in> R\<^sup>*"
  then show "(z, y) \<in> {(p, c) \<in> R. p \<notin> D \<and> c \<notin> D}\<^sup>*" using assms(2)
  proof (induction rule: rtrancl_induct)
    case (step x y)
    then have "x \<notin> D" using assms(1) by blast
    then show ?case using step by (auto intro: rtrancl_into_rtrancl)
  qed simp
next
  assume "(z, y) \<in> {(p, c) \<in> R. p \<notin> D \<and> c \<notin> D}\<^sup>*"
  then show "(z, y) \<in> R\<^sup>*" by (rule rtrancl_mono [THEN subsetD, rotated]) auto
qed

lemma dep_restrict:
  assumes "\<And>k. hget es' k = (if k \<in> D then None else hget es k)"
  shows "dep_rel es' = {(p, c) \<in> dep_rel es. p \<notin> D \<and> c \<notin> D}"
  using assms by (auto simp: dep_rel_def depends_def split: if_splits)

lemma reach_closed: "R `` (R\<^sup>* `` X) \<subseteq> R\<^sup>* `` X"
  by (auto intro: rtrancl_into_rtrancl)

lemma remove_all_entries:
  "pool_ok m \<Longrightarrow> pool_ok (remove_all_of m ids) \<and>
   (\<forall>k. hget (p_entries (remove_all_of m ids)) k = (if k \<in> (dep_rel (p_entries m))\<^sup>* `` set ids then None else hget (p_entries m) k))"
proof (induction ids arbitrary: m)
  case (Cons i ids)
  let ?R = "dep_rel (p_entries m)" and ?m = "fst (pool_remove m i)"
  let ?D = "?R\<^sup>* `` {i}"
  note e = pool_remove_entries [OF Cons.prems, of i]
  have r: "dep_rel (p_entries ?m) = {(p, c) \<in> ?R. p \<notin> ?D \<and> c \<notin> ?D}" by (rule dep_restrict [OF e])
  have ih: "pool_ok (remove_all_of ?m ids)"
    "\<And>k. hget (p_entries (remove_all_of ?m ids)) k =
       (if k \<in> (dep_rel (p_entries ?m))\<^sup>* `` set ids then None else hget (p_entries ?m) k)"
    using Cons.IH [OF pool_remove_ok [OF Cons.prems]] by blast+
  have "k \<in> (dep_rel (p_entries ?m))\<^sup>* `` set ids \<longleftrightarrow> k \<in> ?R\<^sup>* `` set ids" if "k \<notin> ?D" for k
    unfolding r using reach_outside [OF reach_closed that] by auto
  then have "hget (p_entries (remove_all_of ?m ids)) k = (if k \<in> ?R\<^sup>* `` set (i # ids) then None else hget (p_entries m) k)" for k
    unfolding ih(2) e by auto
  then show ?case using ih(1) by (simp add: remove_all_of_def)
qed (simp add: remove_all_of_def)

lemma remove_all_capacity: "capacity (remove_all_of m ids) = capacity m"
proof -
  have "p_max_bytes (fst (remove_one m i)) = p_max_bytes m" for m i
    by (cases "hget (p_entries m) i") (simp_all add: remove_one_fields(1), simp add: remove_one_def)
  then have "p_max_bytes (foldl (\<lambda>m j. fst (remove_one m j)) m js) = p_max_bytes m" for m js
    by (induction js arbitrary: m) simp_all
  then have "p_max_bytes (fst (pool_remove m i)) = p_max_bytes m" for m i unfolding pool_remove_fold .
  then have "p_max_bytes (remove_all_of m ids) = p_max_bytes m" unfolding remove_all_of_def
    by (induction ids arbitrary: m) simp_all
  then show ?thesis by (rule capacity_cong)
qed

section \<open>Funding\<close>

definition funded :: "mempool \<Rightarrow> ledger_view \<Rightarrow> bool" where
  "funded m L \<longleftrightarrow> (\<forall>i e op. hget (p_entries m) i = Some e \<longrightarrow> op \<in> spent_by e \<longrightarrow> hget (p_created m) op \<noteq> None \<or> L op \<noteq> None)"

text \<open>What remains after a removal closed under dependence is still funded.\<close>

lemma funded_restrict:
  assumes "maps_ok m" "maps_ok m'" "funded m L"
    and e: "\<And>k. hget (p_entries m') k = (if k \<in> D then None else hget (p_entries m) k)" "dep_rel (p_entries m) `` D \<subseteq> D"
  shows "funded m' L"
  unfolding funded_def
proof (intro allI impI)
  fix c ce op assume c: "hget (p_entries m') c = Some ce" "op \<in> spent_by ce"
  then have c': "hget (p_entries m) c = Some ce" "c \<notin> D" using e(1) by (auto split: if_splits)
  show "hget (p_created m') op \<noteq> None \<or> L op \<noteq> None"
  proof (cases "hget (p_created m) op = None")
    case True
    moreover have "hget (p_created m) op \<noteq> None \<or> L op \<noteq> None" using assms(3) c'(1) c(2) unfolding funded_def by blast
    ultimately show ?thesis by blast
  next
    case False
    then obtain pe where p: "hget (p_entries m) (op_txid op) = Some pe" "op \<in> made (op_txid op) (me_tx pe)"
      using assms(1) unfolding maps_ok_def by blast
    have "op_txid op \<notin> D"
    proof
      assume d: "op_txid op \<in> D"
      then have "c \<noteq> op_txid op" using c'(2) by blast
      then have "(op_txid op, c) \<in> dep_rel (p_entries m)" using p c'(1) c(2) by (auto simp: dep_rel_def depends_def)
      then show False using d c'(2) e(2) by blast
    qed
    then have "hget (p_entries m') (op_txid op) = Some pe" using p(1) e(1) by simp
    then show ?thesis using p(2) assms(2) unfolding maps_ok_def by blast
  qed
qed

lemma remove_all_funded:
  assumes "pool_ok m" "funded m L"
  shows "funded (remove_all_of m ids) L"
proof (rule funded_restrict [OF _ _ assms(2)])
  show "maps_ok m" "maps_ok (remove_all_of m ids)" using remove_all_entries [OF assms(1)] assms(1) by (auto simp: pool_ok_def)
  show "hget (p_entries (remove_all_of m ids)) k = (if k \<in> (dep_rel (p_entries m))\<^sup>* `` set ids then None else hget (p_entries m) k)" for k
    using remove_all_entries [OF assms(1)] by blast
qed (rule reach_closed)

lemma pool_remove_all: "fst (pool_remove m i) = remove_all_of m [i]"
  by (simp add: remove_all_of_def)

section \<open>Making room\<close>

definition size_in :: "(hash256, mempool_entry) hmap \<Rightarrow> hash256 \<Rightarrow> nat" where
  "size_in es i = (case hget es i of Some e \<Rightarrow> me_size e | None \<Rightarrow> 0)"

abbreviation sizes :: "mempool \<Rightarrow> hash256 list \<Rightarrow> nat" where
  "sizes m ids \<equiv> sum_list (map (size_in (p_entries m)) ids)"

lemma total_size_set:
  assumes "hwf es"
  shows "total_size es = (\<Sum>i \<in> fst ` set es. size_in es i)"
proof -
  have "total_size es = sum_list (map (size_in es) (map fst es))"
    unfolding total_size_def map_map
    by (rule arg_cong [of _ _ sum_list], rule map_cong [OF refl])
      (use hm.in_items_iff [OF assms] in \<open>auto simp: size_in_def\<close>)
  also have "\<dots> = (\<Sum>i \<in> set (map fst es). size_in es i)"
    using assms by (intro sum_list_distinct_conv_sum_set) (simp add: hwf_def)
  finally show ?thesis by simp
qed

lemma dom_hget: "hwf es \<Longrightarrow> fst ` set es = {i. hget es i \<noteq> None}"
  unfolding hget_def by (metis (no_types, lifting) Collect_cong domIff dom_def dom_map_of_conv_image_fst)

text \<open>Removing what is reached from some ids frees at least the sizes of any of them.\<close>

lemma freed_enough:
  assumes "hwf es" "hwf es'" "\<And>k. hget es' k = (if k \<in> D then None else hget es k)"
    and "distinct taken" "set taken \<subseteq> D" "\<And>k. k \<in> set taken \<Longrightarrow> hget es k \<noteq> None"
  shows "total_size es' + sum_list (map (size_in es) taken) \<le> total_size es"
proof -
  let ?K = "fst ` set es"
  have fin: "finite ?K" by simp
  have K: "?K = {i. hget es i \<noteq> None}" "fst ` set es' = ?K - D"
    using dom_hget [OF assms(1)] dom_hget [OF assms(2)] assms(3) by auto
  have "total_size es' = (\<Sum>i \<in> ?K - D. size_in es' i)" unfolding total_size_set [OF assms(2)] K(2) ..
  also have "\<dots> = (\<Sum>i \<in> ?K - D. size_in es i)" by (rule sum.cong) (auto simp: size_in_def assms(3))
  finally have a: "total_size es' = (\<Sum>i \<in> ?K - D. size_in es i)" .
  have "sum_list (map (size_in es) taken) = (\<Sum>i \<in> set taken. size_in es i)"
    using assms(4) by (rule sum_list_distinct_conv_sum_set)
  also have "\<dots> \<le> (\<Sum>i \<in> ?K \<inter> D. size_in es i)"
    using assms(5,6) K(1) fin by (intro sum_mono2 finite_Int disjI1) auto
  finally have "total_size es' + sum_list (map (size_in es) taken) \<le> (\<Sum>i \<in> ?K - D. size_in es i) + (\<Sum>i \<in> ?K \<inter> D. size_in es i)"
    using a by simp
  also have "\<dots> = (\<Sum>i \<in> ?K. size_in es i)"
    by (subst sum.union_disjoint [symmetric]) (auto intro: arg_cong [of _ _ "sum (size_in es)"])
  finally show ?thesis unfolding total_size_set [OF assms(1)] .
qed

lemma entry_of_Ok [simp]: "entry_of m i = Ok e \<longleftrightarrow> hget (p_entries m) i = Some e"
  by (simp add: entry_of_def split: option.split)

lemma entry_of_Panic [simp]: "entry_of m i = Panic \<longleftrightarrow> hget (p_entries m) i = None"
  by (simp add: entry_of_def split: option.split)

lemma room_leaves_spec:
  "room_leaves m rate prot pri need freed outs es = Ok (freed', outs') \<Longrightarrow> distinct (map (\<lambda>(_, _, i). i) es) \<Longrightarrow>
   \<exists>new. outs' = outs @ new \<and> distinct new \<and> set new \<subseteq> (\<lambda>(_, _, i). i) ` set es - set prot \<and>
     (\<forall>i \<in> set new. hget (p_entries m) i \<noteq> None) \<and> freed' = freed + sizes m new"
proof (induction m rate prot pri need freed outs es rule: room_leaves.induct)
  case (2 m rate prot pri need freed outs r a i es)
  consider (stop) "outs' = outs" "freed' = freed"
    | (skip) "i \<in> set prot" "room_leaves m rate prot pri need freed outs es = Ok (freed', outs')"
        "\<not> freed \<ge> need" "\<not> (\<not> pri \<and> sat_add64 r INCREMENTAL_FEE_RATE > rate)"
    | (take) e where "i \<notin> set prot" "hget (p_entries m) i = Some e" "\<not> freed \<ge> need" "\<not> (\<not> pri \<and> sat_add64 r INCREMENTAL_FEE_RATE > rate)"
        "room_leaves m rate prot pri need (freed + me_size e) (outs @ [i]) es = Ok (freed', outs')"
    using "2.prems"(1) by (auto split: if_splits)
  then show ?case
  proof cases
    case stop
    then show ?thesis by (intro exI [of _ "[]"]) simp
  next
    case skip
    then show ?thesis using "2.IH"(1) "2.prems"(2) by fastforce
  next
    case take
    obtain new where n: "outs' = (outs @ [i]) @ new" "distinct new" "set new \<subseteq> (\<lambda>(_, _, i). i) ` set es - set prot"
      "\<forall>i \<in> set new. hget (p_entries m) i \<noteq> None" "freed' = freed + me_size e + sizes m new"
      using "2.IH"(2) [OF take(3,4,1,5)] "2.prems"(2) take(2) by auto
    have "i \<notin> set new" using n(3) "2.prems"(2) by auto
    moreover have "size_in (p_entries m) i = me_size e" using take(2) by (simp add: size_in_def)
    ultimately show ?thesis using n take(1,2) by (intro exI [of _ "i # new"]) auto
  qed
qed simp

lemma room_leaves_no_panic:
  "(\<And>k. k \<in> set es \<Longrightarrow> (case k of (_, _, i) \<Rightarrow> hget (p_entries m) i \<noteq> None)) \<Longrightarrow> room_leaves m rate prot pri need freed outs es \<noteq> Panic"
proof (induction m rate prot pri need freed outs es rule: room_leaves.induct)
  case (2 m rate prot pri need freed outs r a i es)
  have "hget (p_entries m) i \<noteq> None" "\<And>k. k \<in> set es \<Longrightarrow> (case k of (_, _, i) \<Rightarrow> hget (p_entries m) i \<noteq> None)"
    using "2.prems" by fastforce+
  then show ?case using "2.IH" by (auto simp: rbind_Panic_iff)
qed simp

lemma package_loop_eq: "package_loop m members n = Some ms \<Longrightarrow> ms = descend (p_children m) members n"
proof (induction m members n rule: package_loop.induct)
  case (1 m members n)
  show ?case
  proof (cases "n < length members")
    case True
    obtain ms' where ms: "push_children members (kids (p_children m) (members ! n)) = Some ms'" "package_loop m ms' (Suc n) = Some ms"
      "\<not> (case hget (p_entries m) (members ! n) of Some e \<Rightarrow> me_local e \<or> me_returned e | None \<Rightarrow> False)"
      using "1.prems" True by (subst (asm) package_loop.simps) (auto split: if_splits option.splits)
    have "ms = descend (p_children m) ms' (Suc n)" by (rule "1.IH" [OF True ms(3,1,2)])
    then show ?thesis using True push_children_eq [OF ms(1)] by (subst descend.simps) simp
  next
    case False
    then show ?thesis using "1.prems" by (subst descend.simps, subst (asm) package_loop.simps) simp
  qed
qed

lemma package_loop_ordinary:
  "package_loop m members n = Some ms \<Longrightarrow> (\<forall>j < n. \<forall>e. hget (p_entries m) (members ! j) = Some e \<longrightarrow> ordinary e) \<Longrightarrow> n \<le> length members \<Longrightarrow>
   \<forall>i \<in> set ms. \<forall>e. hget (p_entries m) i = Some e \<longrightarrow> ordinary e"
proof (induction m members n rule: package_loop.induct)
  case (1 m members n)
  show ?case
  proof (cases "n < length members")
    case True
    obtain ms' where ms: "push_children members (kids (p_children m) (members ! n)) = Some ms'" "package_loop m ms' (Suc n) = Some ms"
      "\<not> (case hget (p_entries m) (members ! n) of Some e \<Rightarrow> me_local e \<or> me_returned e | None \<Rightarrow> False)"
      using "1.prems"(1) True by (subst (asm) package_loop.simps) (auto split: if_splits option.splits)
    obtain new where new: "ms' = members @ new"
      using push_children_eq [OF ms(1)] add_all_prefix [of members "kids (p_children m) (members ! n)"] by auto
    have "\<forall>j < Suc n. \<forall>e. hget (p_entries m) (ms' ! j) = Some e \<longrightarrow> ordinary e"
      using "1.prems"(2) ms(3) True by (auto simp: new less_Suc_eq nth_append ordinary_def)
    then show ?thesis using "1.IH" [OF True ms(3,1,2)] True new by simp
  next
    case False
    have "ms = members" using "1.prems"(1) False by (subst (asm) package_loop.simps) simp
    then show ?thesis using "1.prems"(2,3) False by (auto simp: in_set_conv_nth)
  qed
qed

lemma descendant_package_spec:
  assumes "pool_ok m" "descendant_package m i = Some ms"
  shows "set ms = (dep_rel (p_entries m))\<^sup>* `` {i}" "\<forall>k \<in> set ms. \<forall>e. hget (p_entries m) k = Some e \<longrightarrow> ordinary e"
proof -
  have "ms = descend (p_children m) [i] 0" using assms(2) package_loop_eq unfolding descendant_package_def by blast
  then show "set ms = (dep_rel (p_entries m))\<^sup>* `` {i}" using descend_set kid_dep assms(1) by (simp add: pool_ok_def)
  show "\<forall>k \<in> set ms. \<forall>e. hget (p_entries m) k = Some e \<longrightarrow> ordinary e"
    using package_loop_ordinary [OF assms(2) [unfolded descendant_package_def]] by simp
qed

lemma reach_entries: "hget (p_entries m) i \<noteq> None \<Longrightarrow> (i, k) \<in> (dep_rel (p_entries m))\<^sup>* \<Longrightarrow> hget (p_entries m) k \<noteq> None"
  by (erule rtrancl_induct) (auto simp: dep_rel_def depends_def)

lemma take_members_spec:
  "take_members m taken freed added ids = Ok (taken', freed', added') \<Longrightarrow> distinct taken \<Longrightarrow> freed = sizes m taken \<Longrightarrow>
   distinct taken' \<and> freed' = sizes m taken' \<and> set taken' = set taken \<union> set ids \<and> (added' \<longleftrightarrow> added \<or> \<not> set ids \<subseteq> set taken) \<and>
   (\<forall>i \<in> set ids - set taken. hget (p_entries m) i \<noteq> None)"
proof (induction m taken freed added ids rule: take_members.induct)
  case (2 m taken freed added i ids)
  show ?case
  proof (cases "i \<in> set taken")
    case True
    then show ?thesis using 2 by auto
  next
    case False
    then obtain e where e: "hget (p_entries m) i = Some e"
      "take_members m (i # taken) (freed + me_size e) True ids = Ok (taken', freed', added')"
      using "2.prems"(1) by auto
    have "size_in (p_entries m) i = me_size e" using e(1) by (simp add: size_in_def)
    then show ?thesis using "2.IH"(2) [OF False e(2)] "2.prems"(2,3) False e(1) by auto
  qed
qed simp

lemma take_packages_spec:
  assumes "take_packages m need taken freed outs ps = Ok (freed', outs')" "distinct taken" "freed = sizes m taken"
    and "set taken \<subseteq> R\<^sup>* `` set outs" "\<And>r i ms. (r, i, ms) \<in> set ps \<Longrightarrow> set ms = R\<^sup>* `` {i}"
    and "\<And>k. k \<in> set taken \<Longrightarrow> hget (p_entries m) k \<noteq> None"
  shows "\<exists>taken'. distinct taken' \<and> freed' = sizes m taken' \<and> set taken' \<subseteq> R\<^sup>* `` set outs' \<and>
    (\<forall>k \<in> set taken'. hget (p_entries m) k \<noteq> None) \<and> set outs' \<subseteq> set outs \<union> (\<lambda>(_, i, _). i) ` set ps"
  using assms
proof (induction m need taken freed outs ps rule: take_packages.induct)
  case (1 m need taken freed outs)
  then show ?case by auto
next
  case (2 m need taken freed outs r root ms ps)
  show ?case
  proof (cases "freed \<ge> need")
    case True
    then show ?thesis using "2.prems" by auto
  next
    case False
    then obtain taken1 freed1 added where t: "take_members m taken freed False ms = Ok (taken1, freed1, added)"
      "take_packages m need taken1 freed1 (if added then outs @ [root] else outs) ps = Ok (freed', outs')"
      using "2.prems"(1) by auto
    note tm = take_members_spec [OF t(1) "2.prems"(2,3)]
    let ?outs = "if added then outs @ [root] else outs"
    have ms: "set ms = R\<^sup>* `` {root}" using "2.prems"(5) by fastforce
    have sub: "set taken1 \<subseteq> R\<^sup>* `` set ?outs"
    proof (cases added)
      case True
      then show ?thesis using tm "2.prems"(4) ms by auto
    next
      case False
      then show ?thesis using tm "2.prems"(4) by auto
    qed
    have ent: "\<And>k. k \<in> set taken1 \<Longrightarrow> hget (p_entries m) k \<noteq> None" using tm "2.prems"(6) by blast
    obtain taken' where "distinct taken'" "freed' = sizes m taken'" "set taken' \<subseteq> R\<^sup>* `` set outs'"
      "\<forall>k \<in> set taken'. hget (p_entries m) k \<noteq> None" "set outs' \<subseteq> set ?outs \<union> (\<lambda>(_, i, _). i) ` set ps"
      using "2.IH" [OF False t(2) _ _ sub _ ent] tm "2.prems"(5) by (metis (no_types, lifting) list.set_intros(2))
    then show ?thesis by (intro exI [of _ taken']) (auto split: if_splits)
  qed
qed

lemma room_packages_spec:
  "room_packages m rate pri cs = Ok ps \<Longrightarrow> (r, i, ms) \<in> set ps \<Longrightarrow> descendant_package m i = Some ms \<and> i \<in> (\<lambda>(_, _, i). i) ` set cs"
proof (induction m rate pri cs arbitrary: ps rule: room_packages.induct)
  case (2 m rate pri a b j cs)
  show ?case
  proof (cases "descendant_package m j")
    case None
    then show ?thesis using 2 by fastforce
  next
    case (Some members)
    then obtain x ps' where p: "room_packages m rate pri cs = Ok ps'" "ps = ps' \<or> ps = (x, j, members) # ps'"
      using "2.prems"(1) by (auto simp: Let_def split: if_splits prod.splits)
    have "(r, i, ms) \<in> set ps' \<Longrightarrow> descendant_package m i = Some ms \<and> i \<in> (\<lambda>(_, _, i). i) ` set cs"
      using "2.IH" Some p(1) by blast
    then show ?thesis using p(2) "2.prems"(2) Some by auto
  qed
qed simp

lemma evictable_ids:
  assumes "evictable_ok m"
  shows "distinct (map (\<lambda>(_, _, i). i) (p_evictable m))"
    "k \<in> set (p_evictable m) \<Longrightarrow> (case k of (_, _, i) \<Rightarrow> \<exists>e. hget (p_entries m) i = Some e \<and> ordinary e \<and> kids (p_children m) i = [])"
proof -
  have s: "distinct (p_evictable m)"
    "set (p_evictable m) = {eviction_key i e |i e. hget (p_entries m) i = Some e \<and> ordinary e \<and> kids (p_children m) i = []}"
    using assms by (simp_all add: evictable_ok_def)
  have "inj_on (\<lambda>(_, _, i). i) (set (p_evictable m))" unfolding s(2) by (auto simp: inj_on_def eviction_key_def)
  then show "distinct (map (\<lambda>(_, _, i). i) (p_evictable m))" using s(1) by (simp add: distinct_map)
  show "k \<in> set (p_evictable m) \<Longrightarrow> (case k of (_, _, i) \<Rightarrow> \<exists>e. hget (p_entries m) i = Some e \<and> ordinary e \<and> kids (p_children m) i = [])"
    unfolding s(2) by (auto simp: eviction_key_def)
qed

lemma leaf_reach:
  assumes "links_ok m" "kids (p_children m) i = []"
  shows "(dep_rel (p_entries m))\<^sup>* `` {i} = {i}"
proof -
  have "(i, c) \<notin> dep_rel (p_entries m)" for c
    unfolding kid_dep [OF assms(1), symmetric] using assms(2) by (simp add: kid_rel_def)
  then show ?thesis by (auto elim: converse_rtranclE)
qed

lemma room_candidates_set:
  assumes "(r, a, i) \<in> set (room_candidates m rate prot pri)" "hwf (p_entries m)"
  shows "i \<notin> set prot" "hget (p_entries m) i \<noteq> None"
proof -
  have "(r, a, i) \<in> (\<lambda>(i, e). eviction_key i e) ` {(i, e) \<in> set (p_entries m). i \<notin> set prot}"
    using in_set_takeD [OF assms(1) [unfolded room_candidates_def]] by auto
  then obtain e where "(i, e) \<in> set (p_entries m)" "i \<notin> set prot" by (auto simp: eviction_key_def)
  then show "i \<notin> set prot" "hget (p_entries m) i \<noteq> None" using hm.in_items_iff [OF assms(2)] by auto
qed

text \<open>
  What making room pushes out: pending ordinary transactions, none of them protected, and enough of them once
  their descendants are counted.
\<close>

lemma room_for_spec:
  assumes ok: "pool_ok m" and r: "room_for m rate sz prot pri = Ok (Some outs)"
  shows "\<forall>i \<in> set outs. i \<notin> set prot \<and> hget (p_entries m) i \<noteq> None"
    "\<forall>k \<in> (dep_rel (p_entries m))\<^sup>* `` set outs. \<forall>e. hget (p_entries m) k = Some e \<longrightarrow> ordinary e"
    "p_bytes (remove_all_of m outs) + sz \<le> capacity m"
proof -
  let ?R = "dep_rel (p_entries m)" and ?need = "p_bytes m + sz - capacity m"
  have inv: "links_ok m" "evictable_ok m" "hwf (p_entries m)" "p_bytes m = total_size (p_entries m)" "p_bytes m \<le> capacity m"
    using ok by (auto simp: pool_ok_def maps_ok_def)
  obtain freed0 outs0 where l: "room_leaves m rate prot pri ?need 0 [] (p_evictable m) = Ok (freed0, outs0)"
    using r by (auto simp: room_for_def Let_def)
  obtain new where n: "outs0 = new" "distinct new" "set new \<subseteq> (\<lambda>(_, _, i). i) ` set (p_evictable m) - set prot"
    "\<forall>i \<in> set new. hget (p_entries m) i \<noteq> None" "freed0 = sizes m new"
    using room_leaves_spec [OF l evictable_ids(1) [OF inv(2)]] by auto
  have leaf: "(\<exists>e. hget (p_entries m) i = Some e \<and> ordinary e) \<and> ?R\<^sup>* `` {i} = {i}" if "i \<in> set new" for i
  proof -
    obtain a b where "(a, b, i) \<in> set (p_evictable m)" using n(3) \<open>i \<in> set new\<close> by auto
    from evictable_ids(2) [OF inv(2) this] show ?thesis using leaf_reach [OF inv(1), of i] by auto
  qed
  have "\<exists>taken. distinct taken \<and> ?need \<le> sizes m taken \<and> set taken \<subseteq> ?R\<^sup>* `` set outs \<and>
      (\<forall>k \<in> set taken. hget (p_entries m) k \<noteq> None) \<and>
      set outs \<subseteq> set new \<union> {i. i \<notin> set prot \<and> hget (p_entries m) i \<noteq> None \<and> (\<exists>ms. descendant_package m i = Some ms)}"
  proof (cases "freed0 \<ge> ?need")
    case True
    then have "outs = new" using r l n(1) by (simp add: room_for_def Let_def)
    then show ?thesis using n True by (intro exI [of _ new]) auto
  next
    case False
    then obtain ps freed where p: "room_packages m rate pri (room_candidates m rate prot pri) = Ok ps"
      "take_packages m ?need outs0 freed0 outs0 (sort_key (\<lambda>(r, i, _). (r, i)) ps) = Ok (freed, outs)" "freed \<ge> ?need"
      using r l by (auto simp: room_for_def Let_def split: if_splits)
    have pk: "descendant_package m i = Some ms \<and> i \<notin> set prot \<and> hget (p_entries m) i \<noteq> None" if "(r, i, ms) \<in> set ps" for r i ms
    proof -
      have "descendant_package m i = Some ms" "i \<in> (\<lambda>(_, _, i). i) ` set (room_candidates m rate prot pri)"
        using room_packages_spec [OF p(1) \<open>(r, i, ms) \<in> set ps\<close>] by blast+
      then show ?thesis using room_candidates_set [OF _ inv(3)] by auto
    qed
    have ms: "set ms = ?R\<^sup>* `` {i}" if "(r, i, ms) \<in> set (sort_key (\<lambda>(r, i, _). (r, i)) ps)" for r i ms
      using descendant_package_spec(1) [OF ok, of i ms] pk [of r i ms] that by simp
    have "\<exists>taken'. distinct taken' \<and> freed = sizes m taken' \<and> set taken' \<subseteq> ?R\<^sup>* `` set outs \<and>
      (\<forall>k \<in> set taken'. hget (p_entries m) k \<noteq> None) \<and> set outs \<subseteq> set outs0 \<union> (\<lambda>(_, i, _). i) ` set (sort_key (\<lambda>(r, i, _). (r, i)) ps)"
      by (rule take_packages_spec [OF p(2) _ _ _ ms]) (use n in auto)
    then obtain taken where t: "distinct taken" "freed = sizes m taken" "set taken \<subseteq> ?R\<^sup>* `` set outs"
      "\<forall>k \<in> set taken. hget (p_entries m) k \<noteq> None" "set outs \<subseteq> set new \<union> (\<lambda>(_, i, _). i) ` set ps" using n(1) by auto
    moreover have "(\<lambda>(_, i, _). i) ` set ps \<subseteq> {i. i \<notin> set prot \<and> hget (p_entries m) i \<noteq> None \<and> (\<exists>ms. descendant_package m i = Some ms)}"
      using pk by auto
    ultimately show ?thesis using p(3) by (intro exI [of _ taken]) blast
  qed
  then obtain taken where t: "distinct taken" "?need \<le> sizes m taken" "set taken \<subseteq> ?R\<^sup>* `` set outs"
      "\<forall>k \<in> set taken. hget (p_entries m) k \<noteq> None"
      "set outs \<subseteq> set new \<union> {i. i \<notin> set prot \<and> hget (p_entries m) i \<noteq> None \<and> (\<exists>ms. descendant_package m i = Some ms)}" by blast
  show "\<forall>i \<in> set outs. i \<notin> set prot \<and> hget (p_entries m) i \<noteq> None" using t(5) n(3,4) by blast
  have "ordinary e" if io: "i \<in> set outs" "k \<in> ?R\<^sup>* `` {i}" "hget (p_entries m) k = Some e" for i k e
  proof (cases "i \<in> set new")
    case True
    then show ?thesis using leaf [OF True] io by auto
  next
    case False
    then obtain ms where "descendant_package m i = Some ms" using t(5) io(1) by blast
    from descendant_package_spec [OF ok this] show ?thesis using io by blast
  qed
  then show "\<forall>k \<in> ?R\<^sup>* `` set outs. \<forall>e. hget (p_entries m) k = Some e \<longrightarrow> ordinary e" by blast
  note re = remove_all_entries [OF ok, of outs]
  have "total_size (p_entries (remove_all_of m outs)) + sizes m taken \<le> total_size (p_entries m)"
    by (rule freed_enough [OF inv(3) _ conjunct2 [OF re, rule_format] t(1,3)]) (use re t(4) in \<open>auto simp: pool_ok_def maps_ok_def\<close>)
  moreover have "p_bytes (remove_all_of m outs) = total_size (p_entries (remove_all_of m outs))" using re by (simp add: pool_ok_def)
  ultimately show "p_bytes (remove_all_of m outs) + sz \<le> capacity m" using t(2) inv(4) by linarith
qed

lemma make_room_spec:
  assumes "pool_ok m" "make_room m rate sz prot pri = Ok (m', b)"
  shows "(b \<longrightarrow> (\<exists>outs. room_for m rate sz prot pri = Ok (Some outs) \<and> m' = remove_all_of m outs)) \<and> (\<not> b \<longrightarrow> m' = m)"
proof -
  obtain r where r: "room_for m rate sz prot pri = Ok r" using assms(2) by (auto simp: make_room_def)
  show ?thesis
  proof (cases r)
    case None
    then show ?thesis using assms(2) r by (simp add: make_room_def)
  next
    case (Some outs)
    then have "m' = remove_all_of m outs" "b \<longleftrightarrow> p_bytes m' + sz \<le> capacity m'"
      using assms(2) r by (auto simp: make_room_def Let_def remove_all_of_def)
    then show ?thesis using room_for_spec(3) [OF assms(1)] r Some remove_all_capacity by auto
  qed
qed

section \<open>Protected ancestors\<close>

definition parent_closed :: "mempool \<Rightarrow> hash256 set \<Rightarrow> bool" where
  "parent_closed m P \<longleftrightarrow> (\<forall>j \<in> P. \<forall>p \<in> set (kids (p_parents m) j). has_entry m p \<longrightarrow> p \<in> P)"

lemma protect_spec:
  "(\<forall>j \<in> set prot. \<forall>p \<in> set (kids (p_parents m) j). has_entry m p \<longrightarrow> p \<in> set prot \<union> set todo) \<Longrightarrow>
   set prot \<subseteq> set (protect m prot todo) \<and> (\<forall>p \<in> set todo. has_entry m p \<longrightarrow> p \<in> set (protect m prot todo)) \<and>
   parent_closed m (set (protect m prot todo))"
proof (induction m prot todo rule: protect.induct)
  case (2 m prot i todo)
  show ?case
  proof (cases "has_entry m i \<and> i \<notin> set prot")
    case True
    have "set (i # prot) \<subseteq> set (protect m (i # prot) (rev (kids (p_parents m) i) @ todo)) \<and>
      (\<forall>p \<in> set (rev (kids (p_parents m) i) @ todo). has_entry m p \<longrightarrow> p \<in> set (protect m (i # prot) (rev (kids (p_parents m) i) @ todo))) \<and>
      parent_closed m (set (protect m (i # prot) (rev (kids (p_parents m) i) @ todo)))"
      by (rule "2.IH"(1) [OF True]) (use "2.prems" in auto)
    then show ?thesis using True by auto
  next
    case False
    have "set prot \<subseteq> set (protect m prot todo) \<and> (\<forall>p \<in> set todo. has_entry m p \<longrightarrow> p \<in> set (protect m prot todo)) \<and>
      parent_closed m (set (protect m prot todo))"
      by (rule "2.IH"(2) [OF False]) (use "2.prems" False in auto)
    then show ?thesis using False by auto
  qed
qed (simp add: parent_closed_def)

lemma protect_ok:
  "(\<forall>p \<in> set ps. has_entry m p \<longrightarrow> p \<in> set (protect m [] (rev ps))) \<and> parent_closed m (set (protect m [] (rev ps)))"
  using protect_spec [of "[]" m "rev ps"] by simp

text \<open>What is reached from an id outside a set closed under parents stays outside.\<close>

lemma reach_avoids:
  assumes "links_ok m" "parent_closed m P" "(x, y) \<in> (dep_rel (p_entries m))\<^sup>*" "y \<in> P"
  shows "x \<in> P"
  using assms(3,4)
proof (induction rule: converse_rtrancl_induct)
  case (step a b)
  then have "depends (p_entries m) a b" "b \<in> P" by (auto simp: dep_rel_def)
  then have "a \<in> set (kids (p_parents m) b)" "has_entry m a"
    using assms(1) depends_entries [of "p_entries m" a b] by (auto simp: links_ok_def has_entry_def)
  then show ?case using assms(2) \<open>b \<in> P\<close> by (auto simp: parent_closed_def)
qed simp

section \<open>Admission\<close>

lemma created_entry_made: "created_entry tid h c i outs op \<noteq> None \<longleftrightarrow>
    op \<in> (\<lambda>k. \<lparr>op_txid = tid, op_index = of_nat k\<rparr>) ` {i..<i + length outs}"
proof (induction outs arbitrary: i)
  case (Cons out outs)
  have "{i..<i + length (out # outs)} = insert i {Suc i..<Suc i + length outs}" by auto
  then show ?case using Cons [of "Suc i"] by (auto split: option.splits if_splits)
qed simp

lemma bv_create_made: "hget (bv_create tid h 0 m (tx_outputs t)) op \<noteq> None \<longleftrightarrow> op \<in> made tid t \<or> hget m op \<noteq> None"
  using created_entry_made [of tid h False 0 "tx_outputs t" op]
  by (auto simp: bv_create_get made_def atLeast0LessThan split: option.splits)

lemma commit_inputs_get:
  "hget (foldl (\<lambda>cm i. hput (prev_out i) tid cm) cm ins) op = (if op \<in> set (map prev_out ins) then Some tid else hget cm op)"
  by (induction ins arbitrary: cm) auto

lemma link_parent_frame:
  "p_entries (link_parent tid m p) = p_entries m" "p_committed (link_parent tid m p) = p_committed m"
  "p_created (link_parent tid m p) = p_created m" "p_parents (link_parent tid m p) = p_parents m"
  "p_bytes (link_parent tid m p) = p_bytes m" "p_max_bytes (link_parent tid m p) = p_max_bytes m"
  "kids (p_children (link_parent tid m p)) k = (if k = p then kids (p_children m) k @ [tid] else kids (p_children m) k)"
  by (simp_all add: link_parent_def Let_def drop_evictable_def split: option.split)

lemma link_parent_evictable:
  assumes "sorted (p_evictable m)" "distinct (p_evictable m)"
  shows "sorted (p_evictable (link_parent tid m p))" "distinct (p_evictable (link_parent tid m p))"
    "set (p_evictable (link_parent tid m p)) = set (p_evictable m) - {eviction_key p e |e. hget (p_entries m) p = Some e}"
  using assms ord_remove_ok [OF assms] by (auto simp: link_parent_def Let_def drop_evictable_def split: option.splits)

lemma link_parents:
  "p_entries (foldl (link_parent tid) m ps) = p_entries m" "p_committed (foldl (link_parent tid) m ps) = p_committed m"
  "p_created (foldl (link_parent tid) m ps) = p_created m" "p_parents (foldl (link_parent tid) m ps) = p_parents m"
  "p_bytes (foldl (link_parent tid) m ps) = p_bytes m" "p_max_bytes (foldl (link_parent tid) m ps) = p_max_bytes m"
  "set (kids (p_children (foldl (link_parent tid) m ps)) k) = set (kids (p_children m) k) \<union> (if k \<in> set ps then {tid} else {})"
  by (induction ps arbitrary: m) (auto simp: link_parent_frame)

lemma link_parents_evictable:
  "sorted (p_evictable m) \<Longrightarrow> distinct (p_evictable m) \<Longrightarrow>
   sorted (p_evictable (foldl (link_parent tid) m ps)) \<and> distinct (p_evictable (foldl (link_parent tid) m ps)) \<and>
   set (p_evictable (foldl (link_parent tid) m ps)) =
     set (p_evictable m) - {eviction_key p e |p e. p \<in> set ps \<and> hget (p_entries m) p = Some e}"
proof (induction ps arbitrary: m)
  case (Cons p ps)
  let ?m = "link_parent tid m p"
  note e = link_parent_evictable [OF Cons.prems, of tid p]
  from Cons.IH [OF e(1,2)] have "sorted (p_evictable (foldl (link_parent tid) ?m ps))" "distinct (p_evictable (foldl (link_parent tid) ?m ps))"
    "set (p_evictable (foldl (link_parent tid) ?m ps)) =
       set (p_evictable m) - {eviction_key p e |e. hget (p_entries m) p = Some e} -
       {eviction_key p e |p e. p \<in> set ps \<and> hget (p_entries m) p = Some e}"
    by (simp_all add: e(3) link_parent_frame)
  moreover have "set (p_evictable m) - {eviction_key p e |e. hget (p_entries m) p = Some e} -
       {eviction_key p e |p e. p \<in> set ps \<and> hget (p_entries m) p = Some e} =
     set (p_evictable m) - {eviction_key q e |q e. q \<in> set (p # ps) \<and> hget (p_entries m) q = Some e}" by auto
  ultimately show ?case by simp
qed simp

lemma adopt_kids: "set (kids (foldl (adopt tid) par cs) k) = set (kids par k) \<union> (if k \<in> set cs then {tid} else {})"
proof (induction cs arbitrary: par)
  case (Cons c cs)
  have "set (kids (adopt tid par c) k) = set (kids par k) \<union> (if k = c then {tid} else {})" by (auto simp: adopt_def Let_def)
  then show ?case using Cons [of "adopt tid par c"] by auto
qed simp

lemma adopted_set: "set (adopted m tid t) = {c. c \<noteq> tid \<and> has_entry m c \<and> (\<exists>op \<in> made tid t. hget (p_committed m) op = Some c)}"
  unfolding adopted_def made_def by (auto simp: map_filter_def split: option.splits if_splits) force+

lemma note_name_frame [simp]:
  "p_entries (note_name m i r) = p_entries m" "p_committed (note_name m i r) = p_committed m" "p_created (note_name m i r) = p_created m"
  "p_children (note_name m i r) = p_children m" "p_parents (note_name m i r) = p_parents m" "p_evictable (note_name m i r) = p_evictable m"
  "p_bytes (note_name m i r) = p_bytes m" "p_max_bytes (note_name m i r) = p_max_bytes m"
  by (simp_all add: note_name_def split: option.split)

text \<open>The fields after an admission.\<close>

lemma admit_fields:
  fixes m t h e parents
  defines "m' \<equiv> admit m t h e parents" and "ad \<equiv> {c. c \<noteq> txid t \<and> has_entry m c \<and>
      (\<exists>op \<in> made (txid t) t. op \<notin> set (map prev_out (tx_inputs t)) \<and> hget (p_committed m) op = Some c)}"
  shows "p_entries m' = hput (txid t) e (p_entries m)" "p_bytes m' = p_bytes m + me_size e" "p_max_bytes m' = p_max_bytes m"
    "hget (p_committed m') op = (if op \<in> set (map prev_out (tx_inputs t)) then Some (txid t) else hget (p_committed m) op)"
    "hget (p_created m') op \<noteq> None \<longleftrightarrow> op \<in> made (txid t) t \<or> hget (p_created m) op \<noteq> None"
    "set (kids (p_children m') k) = set (kids (p_children m) k) \<union> (if k \<in> set parents then {txid t} else {}) \<union> (if k = txid t then ad else {})"
    "set (kids (p_parents m') k) = (if k = txid t then set parents else set (kids (p_parents m) k)) \<union> (if k \<in> ad then {txid t} else {})"
    "sorted (p_evictable m) \<Longrightarrow> distinct (p_evictable m) \<Longrightarrow>
     sorted (p_evictable m') \<and> distinct (p_evictable m') \<and>
     set (p_evictable m') = (set (p_evictable m) - {eviction_key p e |p e. p \<in> set parents \<and> hget (p_entries m) p = Some e}) \<union>
       (if ordinary e \<and> ad = {} then {eviction_key (txid t) e} else {})"
proof -
  define tid where "tid = txid t"
  define m1 where "m1 = note_name (m\<lparr>p_counter := p_counter m + 1, p_bytes := p_bytes m + me_size e\<rparr>) tid (registered t)"
  define m2 where "m2 = m1\<lparr>p_committed := foldl (\<lambda>cm i. hput (prev_out i) tid cm) (p_committed m1) (tx_inputs t),
                  p_created := bv_create tid (h + 1) 0 (p_created m1) (tx_outputs t)\<rparr>"
  define ps where "ps = remdups_adj (sort parents)"
  define m3 where "m3 = foldl (link_parent tid) m2 ps"
  define m4 where "m4 = m3\<lparr>p_parents := hput tid ps (p_parents m3)\<rparr>"
  define w where "w = adopted m4 tid t"
  define m5 where "m5 = m4\<lparr>p_parents := foldl (adopt tid) (p_parents m4) w\<rparr>"
  define m6 where "m6 = (if \<not> me_local e \<and> \<not> me_returned e \<and> w = [] then add_evictable m5 tid e else m5)"
  define m7 where "m7 = (if w \<noteq> [] then m6\<lparr>p_children := hput tid (kids (p_children m6) tid @ w) (p_children m6)\<rparr> else m6)"
  define m8 where "m8 = m7\<lparr>p_entries := hput tid e (p_entries m7)\<rparr>"
  have m': "m' = (if me_returned e then m8\<lparr>p_returned_since := p_returned_since m8 @ [(p_blocks_seen m8, tid)],
                 p_returned_at := hput tid (p_blocks_seen m8) (p_returned_at m8)\<rparr> else m8)"
    unfolding m'_def admit_def Let_def m8_def m7_def m6_def m5_def w_def m4_def m3_def ps_def m2_def m1_def tid_def ..
  have e2: "p_entries m2 = p_entries m" "p_children m2 = p_children m" "p_parents m2 = p_parents m" "p_evictable m2 = p_evictable m"
    "p_bytes m2 = p_bytes m + me_size e" "p_max_bytes m2 = p_max_bytes m" by (simp_all add: m2_def m1_def)
  have c2: "hget (p_committed m2) op = (if op \<in> set (map prev_out (tx_inputs t)) then Some tid else hget (p_committed m) op)"
    "hget (p_created m2) op \<noteq> None \<longleftrightarrow> op \<in> made tid t \<or> hget (p_created m) op \<noteq> None" for op
    by (simp_all add: m2_def m1_def commit_inputs_get bv_create_made [simplified])
  have sps: "set ps = set parents" by (simp add: ps_def)
  note l = link_parents [of tid m2 ps, folded m3_def]
  have e4: "p_entries m4 = p_entries m" "p_committed m4 = p_committed m2" "p_children m4 = p_children m3" by (simp_all add: m4_def l e2)
  have "set w = {c. c \<noteq> tid \<and> has_entry m4 c \<and> (\<exists>op \<in> made tid t. hget (p_committed m4) op = Some c)}"
    unfolding w_def by (rule adopted_set)
  then have sw: "set w = ad" unfolding ad_def e4 c2 tid_def has_entry_def by (auto split: if_splits)
  then have w0: "w = [] \<longleftrightarrow> ad = {}" by auto
  have f8: "p_entries m' = hput tid e (p_entries m)" "p_committed m' = p_committed m2" "p_created m' = p_created m2" "p_parents m' = p_parents m5"
    "p_bytes m' = p_bytes m2" "p_max_bytes m' = p_max_bytes m2" "p_evictable m' = p_evictable m6" "p_children m' = p_children m7"
    unfolding m' m8_def m7_def m6_def m5_def by (simp_all add: add_evictable_def e4 l m4_def e2)
  show "p_entries m' = hput (txid t) e (p_entries m)" "p_bytes m' = p_bytes m + me_size e" "p_max_bytes m' = p_max_bytes m"
    using f8 e2 by (simp_all add: tid_def)
  show "hget (p_committed m') op = (if op \<in> set (map prev_out (tx_inputs t)) then Some (txid t) else hget (p_committed m) op)"
    "hget (p_created m') op \<noteq> None \<longleftrightarrow> op \<in> made (txid t) t \<or> hget (p_created m) op \<noteq> None"
    unfolding f8(2,3) using c2 by (simp_all add: tid_def)
  have "set (kids (p_children m7) k) = set (kids (p_children m3) k) \<union> (if k = tid then ad else {})"
    by (auto simp: m7_def m6_def m5_def m4_def add_evictable_def sw w0)
  then show "set (kids (p_children m') k) = set (kids (p_children m) k) \<union> (if k \<in> set parents then {txid t} else {}) \<union> (if k = txid t then ad else {})"
    unfolding f8(8) by (simp add: l(7) e2 sps tid_def)
  show "set (kids (p_parents m') k) = (if k = txid t then set parents else set (kids (p_parents m) k)) \<union> (if k \<in> ad then {txid t} else {})"
    unfolding f8(4) by (simp add: m5_def adopt_kids m4_def sw sps l e2 tid_def)
  assume srt: "sorted (p_evictable m)" "distinct (p_evictable m)"
  note v = link_parents_evictable [of m2 tid ps, folded m3_def, unfolded e2, OF srt]
  have v5: "p_evictable m5 = p_evictable m3" by (simp add: m5_def m4_def)
  have "sorted (p_evictable m6) \<and> distinct (p_evictable m6) \<and>
     set (p_evictable m6) = set (p_evictable m3) \<union> (if ordinary e \<and> ad = {} then {eviction_key tid e} else {})"
    using v ord_insert_ok [of "p_evictable m3" "eviction_key tid e"] by (auto simp: m6_def add_evictable_def v5 w0 ordinary_def)
  then show "sorted (p_evictable m') \<and> distinct (p_evictable m') \<and>
     set (p_evictable m') = (set (p_evictable m) - {eviction_key p e |p e. p \<in> set parents \<and> hget (p_entries m) p = Some e}) \<union>
       (if ordinary e \<and> ad = {} then {eviction_key (txid t) e} else {})"
    unfolding f8(7) using v by (simp add: sps tid_def)
qed

lemma admit_created: "p_created (admit m t h e parents) = bv_create (txid t) (h + 1) 0 (p_created m) (tx_outputs t)"
  by (simp add: admit_def Let_def add_evictable_def link_parents)

lemma created_entry_output: "created_entry tid h c i outs op = Some u \<Longrightarrow>
    \<exists>k. i \<le> k \<and> k < i + length outs \<and> op = \<lparr>op_txid = tid, op_index = of_nat k\<rparr> \<and> ue_output u = outs ! (k - i)"
proof (induction outs arbitrary: i)
  case (Cons out outs)
  show ?case
  proof (cases "created_entry tid h c (Suc i) outs op")
    case None
    then show ?thesis using Cons.prems by (intro exI [of _ i]) (auto split: if_splits)
  next
    case (Some v)
    then have "v = u" using Cons.prems by simp
    with Cons.IH [of "Suc i"] Some obtain k where "Suc i \<le> k" "k < Suc i + length outs"
      "op = \<lparr>op_txid = tid, op_index = of_nat k\<rparr>" "ue_output u = outs ! (k - Suc i)" by blast
    then show ?thesis by (intro exI [of _ k]) (auto simp: nth_Cons')
  qed
qed simp

lemma admit_outputs:
  assumes "outputs_ok m" "me_tx e = t" "\<not> has_entry m (txid t)"
  shows "outputs_ok (admit m t h e parents)"
  unfolding outputs_ok_def admit_fields(1) admit_created bv_create_get
proof (intro allI impI)
  fix op u
  assume u: "(case created_entry (txid t) (h + 1) False 0 (tx_outputs t) op of None \<Rightarrow> hget (p_created m) op | Some e \<Rightarrow> Some e) = Some u"
  show "\<exists>e' k. hget (hput (txid t) e (p_entries m)) (op_txid op) = Some e' \<and> k < length (tx_outputs (me_tx e')) \<and>
      op_index op = of_nat k \<and> ue_output u = tx_outputs (me_tx e') ! k"
  proof (cases "created_entry (txid t) (h + 1) False 0 (tx_outputs t) op")
    case None
    then have "hget (p_created m) op = Some u" using u by simp
    then obtain e' k where e': "hget (p_entries m) (op_txid op) = Some e'" "k < length (tx_outputs (me_tx e'))" "op_index op = of_nat k"
      "ue_output u = tx_outputs (me_tx e') ! k" using assms(1) unfolding outputs_ok_def by blast
    then have "op_txid op \<noteq> txid t" using assms(3) by (auto simp: has_entry_def)
    then show ?thesis using e' by auto
  next
    case (Some v)
    then show ?thesis using created_entry_output [OF Some] u assms(2) by auto
  qed
qed

lemma depends_put:
  assumes "hget es tid = None"
  shows "depends (hput tid e es) p c \<longleftrightarrow> depends es p c \<or>
    (c = tid \<and> p \<noteq> tid \<and> (\<exists>pe. hget es p = Some pe \<and> spent_by e \<inter> made p (me_tx pe) \<noteq> {})) \<or>
    (p = tid \<and> c \<noteq> tid \<and> (\<exists>ce. hget es c = Some ce \<and> spent_by ce \<inter> made tid (me_tx e) \<noteq> {}))"
  using assms by (auto simp: depends_def)

text \<open>What a newcomer must satisfy: its inputs are free and its parents are those of its inputs that are pending.\<close>

definition fits :: "mempool \<Rightarrow> transaction \<Rightarrow> hash256 list \<Rightarrow> bool" where
  "fits m t parents \<longleftrightarrow> \<not> has_entry m (txid t) \<and> (\<forall>op \<in> set (map prev_out (tx_inputs t)). hget (p_committed m) op = None) \<and>
     set parents = {op_txid op |op. op \<in> set (map prev_out (tx_inputs t)) \<and> hget (p_created m) op \<noteq> None}"

lemma admit_ok:
  assumes ok: "pool_ok m" and fit: "fits m t parents" and e: "me_tx e = t" "entry_ok (txid t) e" and room: "p_bytes m + me_size e \<le> capacity m"
  shows "pool_ok (admit m t h e parents)"
proof -
  let ?m = "admit m t h e parents" and ?tid = "txid t" and ?E = "p_entries m" and ?ins = "set (map prev_out (tx_inputs t))"
  define ad where "ad = {c. c \<noteq> ?tid \<and> has_entry m c \<and> (\<exists>op \<in> made ?tid t. op \<notin> ?ins \<and> hget (p_committed m) op = Some c)}"
  note f = admit_fields [of m t h e parents, folded ad_def]
  have new: "hget ?E ?tid = None" using fit by (simp add: fits_def has_entry_def)
  have sp: "spent_by e = ?ins" by (simp add: spent_by_def e(1))
  have inv: "hwf ?E" "\<And>i e. hget ?E i = Some e \<Longrightarrow> entry_ok i e"
    "\<And>op i. hget (p_committed m) op = Some i \<longleftrightarrow> (\<exists>e. hget ?E i = Some e \<and> op \<in> spent_by e)"
    "\<And>op. hget (p_created m) op \<noteq> None \<longleftrightarrow> (\<exists>e. hget ?E (op_txid op) = Some e \<and> op \<in> made (op_txid op) (me_tx e))"
    "\<And>p. set (kids (p_children m) p) = {c. depends ?E p c}" "\<And>p c. depends ?E p c \<Longrightarrow> p \<in> set (kids (p_parents m) c)"
    using ok unfolding pool_ok_def maps_ok_def links_ok_def by blast+
  have free: "\<And>op. op \<in> ?ins \<Longrightarrow> hget (p_committed m) op = None" using fit unfolding fits_def by blast
  have par: "p \<in> set parents \<longleftrightarrow> (\<exists>pe. hget ?E p = Some pe \<and> ?ins \<inter> made p (me_tx pe) \<noteq> {})" for p
  proof -
    have "p \<in> set parents \<longleftrightarrow> (\<exists>op \<in> ?ins. op_txid op = p \<and> hget (p_created m) op \<noteq> None)" using fit by (auto simp: fits_def)
    also have "\<dots> \<longleftrightarrow> (\<exists>op \<in> ?ins. \<exists>pe. hget ?E p = Some pe \<and> op \<in> made p (me_tx pe))" using inv(4) made_txid by blast
    finally show ?thesis by blast
  qed
  then have ptid: "?tid \<notin> set parents" using new by auto
  have adc: "c \<in> ad \<longleftrightarrow> c \<noteq> ?tid \<and> (\<exists>ce. hget ?E c = Some ce \<and> spent_by ce \<inter> made ?tid t \<noteq> {})" for c
  proof -
    have "op \<notin> ?ins" if "hget (p_committed m) op = Some c" for op using free [of op] that by auto
    then have "c \<in> ad \<longleftrightarrow> c \<noteq> ?tid \<and> has_entry m c \<and> (\<exists>op \<in> made ?tid t. hget (p_committed m) op = Some c)" by (auto simp: ad_def)
    then show ?thesis using inv(3) by (auto simp: has_entry_def)
  qed
  have dep: "depends (hput ?tid e ?E) p c \<longleftrightarrow> depends ?E p c \<or> (c = ?tid \<and> p \<in> set parents) \<or> (p = ?tid \<and> c \<in> ad)" for p c
    unfolding depends_put [OF new] sp e(1) adc using par [of p] ptid by blast
  have "maps_ok ?m"
    unfolding maps_ok_def f(1)
  proof (intro conjI allI impI)
    show "hwf (hput ?tid e ?E)" using inv(1) by simp
    show "entry_ok i e'" if "hget (hput ?tid e ?E) i = Some e'" for i e' using that inv(2) e(2) by (auto split: if_splits)
    show "hget (p_committed ?m) op = Some i \<longleftrightarrow> (\<exists>e'. hget (hput ?tid e ?E) i = Some e' \<and> op \<in> spent_by e')" for op i
      unfolding f(4) using inv(3) [of op i] free [of op] new sp by (cases "i = ?tid"; cases "op \<in> ?ins") auto
    show "hget (p_created ?m) op \<noteq> None \<longleftrightarrow> (\<exists>e'. hget (hput ?tid e ?E) (op_txid op) = Some e' \<and> op \<in> made (op_txid op) (me_tx e'))" for op
      unfolding f(5) inv(4) using e(1) new made_txid [of op ?tid t] by (cases "op_txid op = ?tid") auto
  qed
  moreover have ki: "set (kids (p_children ?m) p) = {c. depends (hput ?tid e ?E) p c}" for p
    unfolding f(6) dep inv(5) by auto
  have nd: "\<not> depends ?E p ?tid" for p using depends_entries [of ?E p ?tid] new by blast
  have "links_ok ?m"
    unfolding links_ok_def f(1) using ki inv(6) nd by (auto simp: f(7) dep)
  moreover have "evictable_ok ?m"
  proof -
    have s: "sorted (p_evictable m)" "distinct (p_evictable m)"
      "set (p_evictable m) = {eviction_key i e |i e. hget ?E i = Some e \<and> ordinary e \<and> kids (p_children m) i = []}"
      using ok by (simp_all add: pool_ok_def evictable_ok_def)
    have k0: "kids (p_children ?m) i = [] \<longleftrightarrow> kids (p_children m) i = [] \<and> i \<notin> set parents \<and> (i = ?tid \<longrightarrow> ad = {})" for i
      unfolding set_empty [symmetric] f(6) by auto
    have kt: "kids (p_children m) ?tid = []" unfolding set_empty [symmetric] inv(5) using depends_entries [of ?E ?tid] new by blast
    have "{eviction_key i e' |i e'. hget (hput ?tid e ?E) i = Some e' \<and> ordinary e' \<and> kids (p_children ?m) i = []} =
      (set (p_evictable m) - {eviction_key p e |p e. p \<in> set parents \<and> hget ?E p = Some e}) \<union>
       (if ordinary e \<and> ad = {} then {eviction_key ?tid e} else {})" (is "?L = ?R")
    proof
      show "?L \<subseteq> ?R"
      proof
        fix x assume "x \<in> ?L"
        then obtain i e' where x: "x = eviction_key i e'" "hget (hput ?tid e ?E) i = Some e'" "ordinary e'" "kids (p_children ?m) i = []" by blast
        show "x \<in> ?R"
        proof (cases "i = ?tid")
          case True
          then have "e' = e" "ad = {}" using x(2,4) k0 [of i] by simp_all
          then show ?thesis using x(1,3) True by simp
        next
          case False
          then have "hget ?E i = Some e'" "kids (p_children m) i = []" "i \<notin> set parents" using x by (auto simp: k0)
          then show ?thesis unfolding s(3) using x(1,3) by (auto dest: eviction_key_inj)
        qed
      qed
      show "?R \<subseteq> ?L"
      proof
        fix x assume "x \<in> ?R"
        then consider (old) i e' where "x = eviction_key i e'" "hget ?E i = Some e'" "ordinary e'" "kids (p_children m) i = []" "i \<notin> set parents"
          | (new) "x = eviction_key ?tid e" "ordinary e" "ad = {}"
          unfolding s(3) by (auto split: if_splits)
        then show "x \<in> ?L"
        proof cases
          case old
          then have "hget (hput ?tid e ?E) i = Some e' \<and> ordinary e' \<and> kids (p_children ?m) i = []" using new by (auto simp: k0)
          then show ?thesis using old(1) by blast
        next
          case new
          then have "hget (hput ?tid e ?E) ?tid = Some e \<and> ordinary e \<and> kids (p_children ?m) ?tid = []" using kt ptid by (simp add: k0)
          then show ?thesis using new(1) by blast
        qed
      qed
    qed
    then show ?thesis using f(8) [OF s(1,2)] unfolding evictable_ok_def f(1) by simp
  qed
  moreover have "total_size (hput ?tid e ?E) = total_size ?E + me_size e"
    using hm.sum_put [OF inv(1), of "\<lambda>_ e. me_size e" ?tid e] new by (simp add: total_size_def)
  moreover have "outputs_ok ?m" using ok e(1) fit by (intro admit_outputs) (simp_all add: pool_ok_def fits_def)
  ultimately show ?thesis using ok room f(2) capacity_cong [OF f(3)] by (simp add: pool_ok_def f(1))
qed

lemma find_parents_Ok:
  "find_parents m s tid ins = Ok ps \<Longrightarrow>
   (\<forall>op \<in> set (map prev_out ins). (hget (p_committed m) op = None \<or> hget (p_committed m) op = Some tid) \<and>
      (hget (p_created m) op \<noteq> None \<or> utxo_get s op \<noteq> None)) \<and>
   set ps = {op_txid op |op. op \<in> set (map prev_out ins) \<and> hget (p_created m) op \<noteq> None}"
proof (induction ins arbitrary: ps)
  case (Cons i ins)
  have c: "hget (p_committed m) (prev_out i) = None \<or> hget (p_committed m) (prev_out i) = Some tid"
    using Cons.prems by (auto split: if_splits option.splits)
  show ?case
  proof (cases "hget (p_created m) (prev_out i) = None")
    case True
    then have "utxo_get s (prev_out i) \<noteq> None" "find_parents m s tid ins = Ok ps"
      using Cons.prems by (auto simp: utxo_contains_def utxo_get_def split: if_splits)
    then show ?thesis using Cons.IH c True by auto
  next
    case False
    then obtain ps' where p: "find_parents m s tid ins = Ok ps'" "ps = op_txid (prev_out i) # ps'"
      using Cons.prems by (auto split: if_splits)
    have "set ps = insert (op_txid (prev_out i)) (set ps')" using p(2) by simp
    then show ?thesis using Cons.IH [OF p(1)] c False by auto
  qed
qed simp

text \<open>What is pushed out for a newcomer leaves its parents in place.\<close>

lemma fits_after_eviction:
  assumes ok: "pool_ok m" and fit: "fits m t ps" and out: "\<forall>i \<in> set outs. i \<notin> set (protect m [] (rev ps))"
  shows "fits (remove_all_of m outs) t ps"
    "\<And>op. op \<in> set (map prev_out (tx_inputs t)) \<Longrightarrow> hget (p_created m) op \<noteq> None \<Longrightarrow> hget (p_created (remove_all_of m outs)) op \<noteq> None"
proof -
  let ?m = "remove_all_of m outs" and ?D = "(dep_rel (p_entries m))\<^sup>* `` set outs"
  have ok': "pool_ok ?m" and e: "\<And>k. hget (p_entries ?m) k = (if k \<in> ?D then None else hget (p_entries m) k)"
    using remove_all_entries [OF ok] by blast+
  have maps: "\<And>op. hget (p_created m) op \<noteq> None \<longleftrightarrow> (\<exists>e. hget (p_entries m) (op_txid op) = Some e \<and> op \<in> made (op_txid op) (me_tx e))"
    "\<And>op. hget (p_created ?m) op \<noteq> None \<longleftrightarrow> (\<exists>e. hget (p_entries ?m) (op_txid op) = Some e \<and> op \<in> made (op_txid op) (me_tx e))"
    "\<And>op i. hget (p_committed m) op = Some i \<longleftrightarrow> (\<exists>e. hget (p_entries m) i = Some e \<and> op \<in> spent_by e)"
    "\<And>op i. hget (p_committed ?m) op = Some i \<longleftrightarrow> (\<exists>e. hget (p_entries ?m) i = Some e \<and> op \<in> spent_by e)"
    using ok ok' unfolding pool_ok_def maps_ok_def by blast+
  have links: "links_ok m" using ok by (simp add: pool_ok_def)
  show cr: "hget (p_created ?m) op \<noteq> None" if op: "op \<in> set (map prev_out (tx_inputs t))" "hget (p_created m) op \<noteq> None" for op
  proof -
    obtain pe where p: "hget (p_entries m) (op_txid op) = Some pe" "op \<in> made (op_txid op) (me_tx pe)" using op(2) maps(1) by blast
    have "op_txid op \<in> set ps" using fit op by (auto simp: fits_def)
    then have "op_txid op \<in> set (protect m [] (rev ps))" using protect_ok [of ps m] p(1) by (simp add: has_entry_def)
    then have "op_txid op \<notin> ?D" using reach_avoids [OF links conjunct2 [OF protect_ok]] out by blast
    then show ?thesis unfolding maps(2) e using p by auto
  qed
  have old: "hget (p_created m) op \<noteq> None" if "hget (p_created ?m) op \<noteq> None" for op
    using that unfolding maps(1,2) e by (auto split: if_splits)
  have "hget (p_committed ?m) op = None" if "hget (p_committed m) op = None" for op
    using maps(3,4) [of op] that unfolding e by (metis not_None_eq option.discI)
  moreover have "\<not> has_entry ?m (txid t)" using fit e [of "txid t"] by (auto simp: fits_def has_entry_def)
  moreover have "set ps = {op_txid op |op. op \<in> set (map prev_out (tx_inputs t)) \<and> hget (p_created ?m) op \<noteq> None}"
  proof -
    have "set ps = {op_txid op |op. op \<in> set (map prev_out (tx_inputs t)) \<and> hget (p_created m) op \<noteq> None}"
      using fit unfolding fits_def by (elim conjE)
    also have "\<dots> = {op_txid op |op. op \<in> set (map prev_out (tx_inputs t)) \<and> hget (p_created ?m) op \<noteq> None}"
      by (rule Collect_cong) (use cr old in blast)
    finally show ?thesis .
  qed
  moreover have "\<forall>op \<in> set (map prev_out (tx_inputs t)). hget (p_committed m) op = None" using fit unfolding fits_def by (elim conjE)
  ultimately show "fits ?m t ps" unfolding fits_def by blast
qed

lemma accept_with_cases:
  assumes ok: "pool_ok m" and a: "accept_with mldsa m t s net height loc ret = (m', r)"
  obtains (refused) "m' = m" "\<And>i. r \<noteq> Ok i"
  | (admitted) outs ps e where "r = Ok (txid t)" "m' = admit (remove_all_of m outs) t height e ps" "fits (remove_all_of m outs) t ps"
      "me_tx e = t" "entry_ok (txid t) e" "p_bytes (remove_all_of m outs) + me_size e \<le> capacity (remove_all_of m outs)"
      "\<forall>k \<in> (dep_rel (p_entries m))\<^sup>* `` set outs. \<forall>e. hget (p_entries m) k = Some e \<longrightarrow> ordinary e"
      "\<forall>op \<in> set (map prev_out (tx_inputs t)). hget (p_created (remove_all_of m outs)) op \<noteq> None \<or> utxo_get s op \<noteq> None"
proof (cases "\<exists>i. r = Ok i")
  case False
  have "m' = m"
  proof -
    have "m' = m" if "make_room m rate sz prot ret = Ok (m', False)" for rate sz prot
      using make_room_spec [OF ok that] by simp
    then show ?thesis using a False
      by (auto simp: accept_with_def andthen_def Let_def split: result.splits prod.splits if_splits bool.splits)
  qed
  then show ?thesis using refused False by blast
next
  case True
  then obtain ps prot where pre: "pre_accept m t s ret = Ok (ps, prot)" using a
    by (auto simp: accept_with_def andthen_def split: result.splits)
  then have ne: "\<not> has_entry m (txid t)" and fp: "find_parents m s (txid t) (tx_inputs t) = Ok ps" and pr: "prot = protect m [] (rev ps)"
    by (auto simp: pre_accept_def Let_def split: if_splits result.splits option.splits)
  obtain fee where fee: "check_transaction mldsa t (pool_view m s) net (height + 1) [] = Ok fee"
    using a pre True by (auto simp: accept_with_def andthen_def split: result.splits prod.splits)
  define e where "e = new_entry t (pool_view m s) (fst fee) (p_counter m) loc ret"
  have te: "me_tx e = t" "entry_ok (txid t) e" by (simp_all add: e_def new_entry_def entry_ok_def)
  have m': "(p_bytes m + me_size e \<le> capacity m \<and> m' = admit m t height e ps \<or>
       (\<exists>m1. make_room m (fee_rate e) (me_size e) prot ret = Ok (m1, True) \<and> m' = admit m1 t height e ps)) \<and> r = Ok (txid t)"
    using a pre fee True
    by (auto simp: accept_with_def andthen_def Let_def e_def split: result.splits prod.splits if_splits bool.splits)
  have cm: "hget (p_committed m) op = None" if "op \<in> set (map prev_out (tx_inputs t))" for op
  proof -
    have "hget (p_committed m) op \<noteq> Some (txid t)" using ok ne by (auto simp: pool_ok_def maps_ok_def has_entry_def)
    then show ?thesis using find_parents_Ok [OF fp] that by blast
  qed
  have fit: "fits m t ps" unfolding fits_def using ne cm find_parents_Ok [OF fp] by blast
  have nil: "remove_all_of m [] = m" by (simp add: remove_all_of_def)
  from m' consider (fits) "p_bytes m + me_size e \<le> capacity m" "m' = admit m t height e ps"
    | (evicts) m1 where "make_room m (fee_rate e) (me_size e) prot ret = Ok (m1, True)" "m' = admit m1 t height e ps" by blast
  then show ?thesis
  proof cases
    case fits
    show ?thesis by (rule admitted [of "[]" e ps]) (use m' fits fit te find_parents_Ok [OF fp] in \<open>auto simp: nil\<close>)
  next
    case evicts
    obtain outs where o: "room_for m (fee_rate e) (me_size e) prot ret = Ok (Some outs)" "m1 = remove_all_of m outs"
      using make_room_spec [OF ok evicts(1)] by blast
    note rs = room_for_spec [OF ok o(1)]
    have np: "\<forall>i \<in> set outs. i \<notin> set (protect m [] (rev ps))" using rs(1) pr by blast
    note fa = fits_after_eviction [OF ok fit np]
    show ?thesis
    proof (rule admitted [of outs e ps])
      show "r = Ok (txid t)" "m' = admit (remove_all_of m outs) t height e ps" using m' evicts(2) o(2) by blast+
      show "p_bytes (remove_all_of m outs) + me_size e \<le> capacity (remove_all_of m outs)" using rs(3) remove_all_capacity by simp
      show "\<forall>op \<in> set (map prev_out (tx_inputs t)). hget (p_created (remove_all_of m outs)) op \<noteq> None \<or> utxo_get s op \<noteq> None"
        using find_parents_Ok [OF fp] fa(2) by blast
    qed (use fa(1) te rs(2) in blast)+
  qed
qed

end
