(* ===== verification/MempoolProps.thy ===== *)
theory MempoolProps
  imports MempoolInv Ledger
begin

text \<open>
  What the pool of pending transactions promises: admission keeps the invariant and refuses without side
  effects, a connected block leaves only transactions whose inputs still exist, revalidation leaves only
  transactions whose inputs are available to the next block, and a block template has parents before children.
\<close>

section \<open>Admission\<close>

lemma admit_funded:
  assumes "funded m L" "me_tx e = t" "\<forall>op \<in> set (map prev_out (tx_inputs t)). hget (p_created m) op \<noteq> None \<or> L op \<noteq> None"
  shows "funded (admit m t height e ps) L"
  unfolding funded_def admit_fields(1)
proof (intro allI impI)
  fix i ie op assume i: "hget (hput (txid t) e (p_entries m)) i = Some ie" "op \<in> spent_by ie"
  have "hget (p_created m) op \<noteq> None \<or> L op \<noteq> None"
  proof (cases "i = txid t")
    case True
    then have "op \<in> set (map prev_out (tx_inputs t))" using i assms(2) by (simp add: spent_by_def)
    then show ?thesis using assms(3) by blast
  next
    case False
    then have "hget (p_entries m) i = Some ie" using i(1) by simp
    then show ?thesis using assms(1) i(2) unfolding funded_def by blast
  qed
  then show "hget (p_created (admit m t height e ps)) op \<noteq> None \<or> L op \<noteq> None" unfolding admit_fields(5) by blast
qed

lemma accept_ok:
  assumes ok: "pool_ok m" and fu: "funded m (utxo_get s)" and a: "accept_with mldsa m t s net height loc ret = (m', r)"
  shows "pool_ok m' \<and> funded m' (utxo_get s) \<and> ((\<forall>i. r \<noteq> Ok i) \<longrightarrow> m' = m) \<and>
    (\<forall>i e. hget (p_entries m) i = Some e \<longrightarrow> \<not> ordinary e \<longrightarrow> hget (p_entries m') i = Some e) \<and>
    (\<forall>i. r = Ok i \<longrightarrow> i = txid t \<and> pool_get m' i = Some t)"
proof (rule accept_with_cases [OF ok a])
  assume "m' = m" "\<And>i. r \<noteq> Ok i"
  then show ?thesis using ok fu by simp
next
  fix outs ps e
  let ?m = "remove_all_of m outs" and ?D = "(dep_rel (p_entries m))\<^sup>* `` set outs"
  assume r: "r = Ok (txid t)" and m': "m' = admit ?m t height e ps" and fit: "fits ?m t ps"
    and e: "me_tx e = t" "entry_ok (txid t) e" and room: "p_bytes ?m + me_size e \<le> capacity ?m"
    and o: "\<forall>k \<in> ?D. \<forall>e. hget (p_entries m) k = Some e \<longrightarrow> ordinary e"
    and ins: "\<forall>op \<in> set (map prev_out (tx_inputs t)). hget (p_created ?m) op \<noteq> None \<or> utxo_get s op \<noteq> None"
  have ok1: "pool_ok ?m" and e1: "\<And>k. hget (p_entries ?m) k = (if k \<in> ?D then None else hget (p_entries m) k)"
    using remove_all_entries [OF ok] by blast+
  have "hget (p_entries m') i = Some e'" if i: "hget (p_entries m) i = Some e'" "\<not> ordinary e'" for i e'
  proof -
    have "i \<notin> ?D" using o i by blast
    then have k: "hget (p_entries ?m) i = Some e'" using e1 i(1) by simp
    then have "i \<noteq> txid t" using fit by (auto simp: fits_def has_entry_def)
    then show ?thesis unfolding m' admit_fields(1) using k by simp
  qed
  moreover have "pool_ok m'" unfolding m' by (rule admit_ok [OF ok1 fit e room])
  moreover have "funded m' (utxo_get s)" unfolding m' by (rule admit_funded [OF remove_all_funded [OF ok fu] e(1) ins])
  moreover have "pool_get m' (txid t) = Some t" unfolding m' pool_get_def admit_fields(1) using e(1) by simp
  ultimately show ?thesis using r by blast
qed

section \<open>A connected block\<close>

lemma expire_ok:
  "pool_ok m \<Longrightarrow> pool_ok (expire_loop m q) \<and> (\<forall>L. funded m L \<longrightarrow> funded (expire_loop m q) L) \<and>
   (\<forall>i. has_entry (expire_loop m q) i = has_entry m i)"
proof (induction m q rule: expire_loop.induct)
  case (1 m)
  have "same_pool m (m\<lparr>p_returned_since := []\<rparr>)" by (simp add: same_pool_def)
  then show ?case using same_pool_ok [OF 1] by (simp add: funded_def has_entry_def)
next
  case (2 m since i q)
  let ?m1 = "m\<lparr>p_returned_at := hdel i (p_returned_at m)\<rparr>"
  have ok1: "pool_ok ?m1" by (rule same_pool_ok [OF "2.prems"]) (simp add: same_pool_def)
  have fr: "funded (m\<lparr>p_returned_since := x\<rparr>) L = funded m L" "has_entry (m\<lparr>p_returned_since := x\<rparr>) j = has_entry m j"
    "funded ?m1 L = funded m L" "has_entry ?m1 j = has_entry m j" for x L j by (simp_all add: funded_def has_entry_def)
  consider (stop) "p_blocks_seen m - since < RETURNED_PROTECTION_BLOCKS"
    | (stale) "\<not> p_blocks_seen m - since < RETURNED_PROTECTION_BLOCKS" "hget (p_returned_at m) i \<noteq> Some since"
    | (gone) "\<not> p_blocks_seen m - since < RETURNED_PROTECTION_BLOCKS" "hget (p_returned_at m) i = Some since" "hget (p_entries m) i = None"
    | (plain) e where "\<not> p_blocks_seen m - since < RETURNED_PROTECTION_BLOCKS" "hget (p_returned_at m) i = Some since"
        "hget (p_entries m) i = Some e" "\<not> me_returned e"
    | (expired) e where "\<not> p_blocks_seen m - since < RETURNED_PROTECTION_BLOCKS" "hget (p_returned_at m) i = Some since"
        "hget (p_entries m) i = Some e" "me_returned e" by blast
  then show ?case
  proof cases
    case stop
    have "pool_ok (m\<lparr>p_returned_since := (since, i) # q\<rparr>)" by (rule same_pool_ok [OF "2.prems"]) (simp add: same_pool_def)
    then show ?thesis using stop by (simp add: fr)
  next
    case stale
    then show ?thesis using "2.IH"(1) [OF stale "2.prems"] by simp
  next
    case gone
    then show ?thesis using "2.IH"(2) ok1 by (simp add: fr)
  next
    case plain
    then show ?thesis using "2.IH"(3) ok1 by (simp add: fr)
  next
    case expired
    define e' where "e' = e\<lparr>me_returned := False\<rparr>"
    define m2 where "m2 = ?m1\<lparr>p_entries := hput i e' (p_entries m)\<rparr>"
    define m3 where "m3 = (if \<not> me_local e' \<and> kids (p_children m2) i = [] then add_evictable m2 i e' else m2)"
    have ex: "expire_loop m ((since, i) # q) = expire_loop m3 q"
      using expired by (simp add: Let_def m3_def m2_def e'_def)
    have same: "spent_by e' = spent_by e" "me_tx e' = me_tx e" "me_size e' = me_size e" "eviction_key i e' = eviction_key i e"
      "entry_ok i e' = entry_ok i e" "ordinary e' \<longleftrightarrow> \<not> me_local e'" "\<not> ordinary e"
      using expired(4) by (simp_all add: e'_def spent_by_def eviction_key_def fee_rate_def entry_ok_def ordinary_def)
    have g: "hget (p_entries m2) k = (if k = i then Some e' else hget (p_entries m) k)" for k by (simp add: m2_def)
    have dep: "depends (p_entries m2) p c = depends (p_entries m) p c" for p c
      using expired(3) same by (auto simp: depends_def g)
    have ex_iff: "(\<exists>e. hget (p_entries m2) k = Some e \<and> P (spent_by e) (me_tx e)) \<longleftrightarrow> (\<exists>e. hget (p_entries m) k = Some e \<and> P (spent_by e) (me_tx e))" for k P
      using expired(3) same by (auto simp: g)
    have f2: "p_committed m2 = p_committed m" "p_created m2 = p_created m" "p_children m2 = p_children m" "p_parents m2 = p_parents m"
      "p_bytes m2 = p_bytes m" "p_max_bytes m2 = p_max_bytes m" "p_evictable m2 = p_evictable m" by (simp_all add: m2_def)
    have f3: "p_entries m3 = p_entries m2" "p_committed m3 = p_committed m" "p_created m3 = p_created m" "p_children m3 = p_children m"
      "p_parents m3 = p_parents m" "p_bytes m3 = p_bytes m" "p_max_bytes m3 = p_max_bytes m"
      "p_evictable m3 = (if \<not> me_local e' \<and> kids (p_children m) i = [] then ord_insert (eviction_key i e') (p_evictable m) else p_evictable m)"
      by (simp_all add: m3_def add_evictable_def f2)
    have inv: "maps_ok m" "links_ok m" "evictable_ok m" "p_bytes m = total_size (p_entries m)" "p_bytes m \<le> capacity m" "outputs_ok m"
      using "2.prems" by (simp_all add: pool_ok_def)
    have "maps_ok m3"
      using inv(1) expired(3) ex_iff [of _ "\<lambda>x _. _ \<in> x"] ex_iff [of _ "\<lambda>_ t. _ \<in> made _ t"] same(5)
      unfolding maps_ok_def f3(1-3) by (auto simp: g m2_def split: if_splits)
    moreover have "outputs_ok m3"
      unfolding outputs_ok_def f3(1,3)
    proof (intro allI impI)
      fix op u
      assume "hget (p_created m) op = Some u"
      then obtain x k where x: "hget (p_entries m) (op_txid op) = Some x" "k < length (tx_outputs (me_tx x))" "op_index op = of_nat k"
        "ue_output u = tx_outputs (me_tx x) ! k" using inv(6) unfolding outputs_ok_def by blast
      then show "\<exists>x k. hget (p_entries m2) (op_txid op) = Some x \<and> k < length (tx_outputs (me_tx x)) \<and> op_index op = of_nat k \<and>
          ue_output u = tx_outputs (me_tx x) ! k"
        using expired(3) same(2) by (cases "op_txid op = i") (auto simp: g)
    qed
    moreover have "links_ok m3" using inv(2) unfolding links_ok_def f3 dep .
    moreover have "evictable_ok m3"
    proof -
      have s: "sorted (p_evictable m)" "distinct (p_evictable m)"
        "set (p_evictable m) = {eviction_key i e |i e. hget (p_entries m) i = Some e \<and> ordinary e \<and> kids (p_children m) i = []}"
        using inv(3) by (simp_all add: evictable_ok_def)
      have "{eviction_key j x |j x. hget (p_entries m2) j = Some x \<and> ordinary x \<and> kids (p_children m) j = []} =
        set (p_evictable m) \<union> (if \<not> me_local e' \<and> kids (p_children m) i = [] then {eviction_key i e'} else {})"
        (is "?L = ?R")
      proof (rule set_eqI)
        fix x
        have "x \<in> ?L \<longleftrightarrow> (\<exists>j y. x = eviction_key j y \<and> j \<noteq> i \<and> hget (p_entries m) j = Some y \<and> ordinary y \<and> kids (p_children m) j = []) \<or>
            (x = eviction_key i e' \<and> ordinary e' \<and> kids (p_children m) i = [])"
          by (auto simp: g split: if_splits)
        moreover have "x \<in> set (p_evictable m) \<longleftrightarrow> (\<exists>j y. x = eviction_key j y \<and> j \<noteq> i \<and> hget (p_entries m) j = Some y \<and> ordinary y \<and> kids (p_children m) j = [])"
        proof -
          have "j \<noteq> i" if "hget (p_entries m) j = Some y" "ordinary y" for j y using expired(3) same(7) that by auto
          then show ?thesis unfolding s(3) by blast
        qed
        ultimately show "x \<in> ?L \<longleftrightarrow> x \<in> ?R" using same(6) by auto
      qed
      then show ?thesis using ord_insert_ok [OF s(1,2)] s(1,2) unfolding evictable_ok_def f3(1,4,8) by auto
    qed
    moreover have "total_size (p_entries m2) = total_size (p_entries m)"
      using hm.sum_put [of "p_entries m" "\<lambda>_ e. me_size e" i e'] inv(1) expired(3) same(3)
      by (simp add: total_size_def m2_def maps_ok_def)
    ultimately have ok3: "pool_ok m3" using inv(4,5) capacity_cong [OF f3(7)] by (simp add: pool_ok_def f3(1,6))
    have "funded m3 L" if "funded m L" for L
      using that expired(3) same(1) unfolding funded_def f3(1,3) by (auto simp: g split: if_splits)
    moreover have "has_entry m3 j = has_entry m j" for j using expired(3) by (simp add: has_entry_def f3(1) g)
    moreover have "pool_ok (expire_loop m3 q) \<and> (\<forall>L. funded m3 L \<longrightarrow> funded (expire_loop m3 q) L) \<and> (\<forall>i. has_entry (expire_loop m3 q) i = has_entry m3 i)"
      using "2.IH"(4) [of ?m1 e e' m2] ok3 expired by (simp add: m3_def m2_def e'_def)
    ultimately show ?thesis unfolding ex by blast
  qed
qed

lemma drop_conflict_step:
  assumes "pool_ok m"
  shows "pool_ok (drop_conflict m inp)" "funded m L \<Longrightarrow> funded (drop_conflict m inp) L"
    "hget (p_entries (drop_conflict m inp)) i = Some e \<Longrightarrow> hget (p_entries m) i = Some e"
    "hget (p_entries (drop_conflict m inp)) i = Some e \<Longrightarrow> prev_out inp \<notin> spent_by e"
proof -
  let ?m = "drop_conflict m inp"
  have d: "?m = (case hget (p_committed m) (prev_out inp) of Some c \<Rightarrow> remove_all_of m [c] | None \<Rightarrow> m)"
    by (cases "hget (p_committed m) (prev_out inp)") (simp_all add: drop_conflict_def pool_remove_all)
  show "pool_ok ?m" unfolding d using assms remove_all_entries by (auto split: option.split)
  show "funded m L \<Longrightarrow> funded ?m L" unfolding d using assms remove_all_funded by (auto split: option.split)
  show sub: "hget (p_entries ?m) i = Some e \<Longrightarrow> hget (p_entries m) i = Some e"
    unfolding d using remove_all_entries [OF assms] by (auto split: option.splits if_splits)
  show "prev_out inp \<notin> spent_by e" if i: "hget (p_entries ?m) i = Some e"
  proof
    assume "prev_out inp \<in> spent_by e"
    then have "hget (p_committed m) (prev_out inp) = Some i"
      using assms sub [OF i] unfolding pool_ok_def maps_ok_def by blast
    then show False using i remove_all_entries [OF assms, of "[i]"] by (simp add: d)
  qed
qed

lemma drop_conflicts:
  "pool_ok m \<Longrightarrow> pool_ok (foldl drop_conflict m ins) \<and> (\<forall>L. funded m L \<longrightarrow> funded (foldl drop_conflict m ins) L) \<and>
   (\<forall>i e. hget (p_entries (foldl drop_conflict m ins)) i = Some e \<longrightarrow> hget (p_entries m) i = Some e \<and> spent_by e \<inter> set (map prev_out ins) = {})"
proof (induction ins arbitrary: m)
  case (Cons inp ins)
  note d = drop_conflict_step [OF Cons.prems, where inp = inp]
  have ih: "pool_ok (foldl drop_conflict (drop_conflict m inp) ins)"
    "\<And>L. funded (drop_conflict m inp) L \<Longrightarrow> funded (foldl drop_conflict (drop_conflict m inp) ins) L"
    "\<And>i e. hget (p_entries (foldl drop_conflict (drop_conflict m inp) ins)) i = Some e \<Longrightarrow>
       hget (p_entries (drop_conflict m inp)) i = Some e \<and> spent_by e \<inter> set (map prev_out ins) = {}"
    using Cons.IH [OF d(1)] by blast+
  have "spent_by e \<inter> set (map prev_out (inp # ins)) = {}" if "hget (p_entries (foldl drop_conflict (drop_conflict m inp) ins)) i = Some e" for i e
    using ih(3) [OF that] d(4) [of i e] by auto
  then show ?case using ih d(2,3) by auto
qed simp

text \<open>Two transactions with the same id have as many outputs: the id commits to them.\<close>

definition same_ids :: "mempool \<Rightarrow> transaction list \<Rightarrow> bool" where
  "same_ids m ts \<longleftrightarrow> (\<forall>t \<in> set ts. \<forall>e. hget (p_entries m) (txid t) = Some e \<longrightarrow> length (tx_outputs (me_tx e)) = length (tx_outputs t))"

lemma confirm_tx_ok:
  assumes ok: "pool_ok m" and fu: "funded m L" and ids: "same_ids m [t]"
  shows "pool_ok (confirm_tx m t)" "funded (confirm_tx m t) (ledger_tx h t L)" "\<not> has_entry (confirm_tx m t) (txid t)"
    "\<And>i e. hget (p_entries (confirm_tx m t)) i = Some e \<Longrightarrow> hget (p_entries m) i = Some e \<and> spent_by e \<inter> set (map prev_out (tx_inputs t)) = {}"
proof -
  let ?tid = "txid t"
  define m1 where "m1 = note_confirmed (fst (remove_one m ?tid)) ?tid (snd (remove_one m ?tid))"
  have c: "confirm_tx m t = foldl drop_conflict m1 (tx_inputs t)" by (simp add: confirm_tx_def m1_def split: prod.split)
  have sp: "same_pool (fst (remove_one m ?tid)) m1" by (simp add: m1_def)
  have ok1: "pool_ok m1" by (rule same_pool_ok [OF remove_one_ok [OF ok] sp])
  have e1: "hget (p_entries m1) i = (if i = ?tid then None else hget (p_entries m) i)" for i
    using sp by (auto simp: same_pool_def remove_one_entries has_entry_def)
  define L1 where "L1 op = (case created_entry ?tid h (tx_is_coinbase t) 0 (tx_outputs t) op of Some x \<Rightarrow> Some x | None \<Rightarrow> L op)" for op
  have mk: "L1 op \<noteq> None" if "op \<in> made ?tid t" for op
    using created_entry_made [of ?tid h "tx_is_coinbase t" 0 "tx_outputs t" op] that by (auto simp: L1_def made_def atLeast0LessThan)
  have maps: "\<And>op. hget (p_created m) op \<noteq> None \<longleftrightarrow> (\<exists>e. hget (p_entries m) (op_txid op) = Some e \<and> op \<in> made (op_txid op) (me_tx e))"
    "\<And>op. hget (p_created m1) op \<noteq> None \<longleftrightarrow> (\<exists>e. hget (p_entries m1) (op_txid op) = Some e \<and> op \<in> made (op_txid op) (me_tx e))"
    using ok ok1 unfolding pool_ok_def maps_ok_def by blast+
  have fu1: "funded m1 L1"
    unfolding funded_def
  proof (intro allI impI)
    fix i e op assume i: "hget (p_entries m1) i = Some e" "op \<in> spent_by e"
    then have "hget (p_entries m) i = Some e" using e1 by (auto split: if_splits)
    then have "hget (p_created m) op \<noteq> None \<or> L op \<noteq> None" using fu i(2) unfolding funded_def by blast
    then show "hget (p_created m1) op \<noteq> None \<or> L1 op \<noteq> None"
    proof
      assume "hget (p_created m) op \<noteq> None"
      then obtain pe where p: "hget (p_entries m) (op_txid op) = Some pe" "op \<in> made (op_txid op) (me_tx pe)" using maps(1) by blast
      show ?thesis
      proof (cases "op_txid op = ?tid")
        case True
        then have "length (tx_outputs (me_tx pe)) = length (tx_outputs t)" using ids p(1) by (simp add: same_ids_def)
        then have "op \<in> made ?tid t" using p(2) True by (simp add: made_def)
        then show ?thesis using mk by blast
      next
        case False
        then have "hget (p_entries m1) (op_txid op) = Some pe" using e1 p(1) by simp
        then show ?thesis using maps(2) p(2) by blast
      qed
    next
      assume "L op \<noteq> None"
      then show ?thesis by (simp add: L1_def split: option.split)
    qed
  qed
  note d = drop_conflicts [OF ok1, of "tx_inputs t", folded c]
  show "pool_ok (confirm_tx m t)" using d by blast
  have sub: "hget (p_entries (confirm_tx m t)) i = Some e \<Longrightarrow> hget (p_entries m1) i = Some e \<and> spent_by e \<inter> set (map prev_out (tx_inputs t)) = {}" for i e
    using d by blast
  then show "\<not> has_entry (confirm_tx m t) ?tid" using e1 [of ?tid] by (fastforce simp: has_entry_def)
  show "hget (p_entries (confirm_tx m t)) i = Some e \<Longrightarrow> hget (p_entries m) i = Some e \<and> spent_by e \<inter> set (map prev_out (tx_inputs t)) = {}" for i e
    using sub [of i e] e1 [of i] by (auto split: if_splits)
  have "funded (confirm_tx m t) L1" using d fu1 by blast
  then show "funded (confirm_tx m t) (ledger_tx h t L)"
    unfolding funded_def
  proof (intro allI impI)
    fix i e op assume f: "\<forall>i e op. hget (p_entries (confirm_tx m t)) i = Some e \<longrightarrow> op \<in> spent_by e \<longrightarrow>
        hget (p_created (confirm_tx m t)) op \<noteq> None \<or> L1 op \<noteq> None"
      and i: "hget (p_entries (confirm_tx m t)) i = Some e" "op \<in> spent_by e"
    have "op \<notin> set (map prev_out (tx_inputs t))" using sub [OF i(1)] i(2) by blast
    then have "ledger_tx h t L op = L1 op" by (simp add: ledger_tx_def L1_def split: option.split)
    then show "hget (p_created (confirm_tx m t)) op \<noteq> None \<or> ledger_tx h t L op \<noteq> None" using f i by auto
  qed
qed

lemma confirm_txs_ok:
  "pool_ok m \<Longrightarrow> funded m L \<Longrightarrow> same_ids m ts \<Longrightarrow>
   pool_ok (foldl confirm_tx m ts) \<and> funded (foldl confirm_tx m ts) (ledger_txs h ts L) \<and>
   (\<forall>i e. hget (p_entries (foldl confirm_tx m ts)) i = Some e \<longrightarrow> hget (p_entries m) i = Some e \<and>
      i \<notin> txids ts \<and> spent_by e \<inter> (\<Union>t \<in> set ts. set (map prev_out (tx_inputs t))) = {})"
proof (induction ts arbitrary: m L)
  case Nil
  then show ?case by (simp add: ledger_txs_def)
next
  case (Cons t ts)
  have ids: "same_ids m [t]" using Cons.prems(3) by (simp add: same_ids_def)
  note c = confirm_tx_ok [OF Cons.prems(1,2) ids]
  have "same_ids (confirm_tx m t) ts" using Cons.prems(3) c(4) by (auto simp: same_ids_def)
  from Cons.IH [OF c(1,2) this, of h] have ih: "pool_ok (foldl confirm_tx (confirm_tx m t) ts)"
    "funded (foldl confirm_tx (confirm_tx m t) ts) (ledger_txs h ts (ledger_tx h t L))"
    "\<And>i e. hget (p_entries (foldl confirm_tx (confirm_tx m t) ts)) i = Some e \<Longrightarrow> hget (p_entries (confirm_tx m t)) i = Some e \<and>
      i \<notin> txids ts \<and> spent_by e \<inter> (\<Union>t \<in> set ts. set (map prev_out (tx_inputs t))) = {}"
    by blast+
  have "hget (p_entries m) i = Some e \<and> i \<notin> txids (t # ts) \<and> spent_by e \<inter> (\<Union>t \<in> set (t # ts). set (map prev_out (tx_inputs t))) = {}"
    if "hget (p_entries (foldl confirm_tx (confirm_tx m t) ts)) i = Some e" for i e
  proof -
    have i: "hget (p_entries (confirm_tx m t)) i = Some e" "i \<notin> txids ts" "spent_by e \<inter> (\<Union>t \<in> set ts. set (map prev_out (tx_inputs t))) = {}"
      using ih(3) [OF that] by blast+
    have "i \<noteq> txid t" using c(3) i(1) by (auto simp: has_entry_def)
    then show ?thesis using c(4) [OF i(1)] i(2,3) by auto
  qed
  then show ?case using ih(1,2) by (simp add: ledger_txs_def)
qed

lemma block_connected_ok:
  assumes ok: "pool_ok m" and fu: "funded m L" and ids: "same_ids m (blk_transactions b)"
  shows "pool_ok (on_block_connected m b)" "funded (on_block_connected m b) (ledger_txs h (blk_transactions b) L)"
    "has_entry (on_block_connected m b) i \<Longrightarrow> has_entry m i \<and> i \<notin> txids (blk_transactions b)"
proof -
  let ?m1 = "foldl confirm_tx m (blk_transactions b)"
  let ?m2 = "?m1\<lparr>p_blocks_seen := p_blocks_seen ?m1 + 1\<rparr>"
  note c = confirm_txs_ok [OF ok fu ids, of h]
  have ok2: "pool_ok ?m2" by (rule same_pool_ok [OF conjunct1 [OF c]]) (simp add: same_pool_def)
  have fu2: "funded ?m2 (ledger_txs h (blk_transactions b) L)" using c by (simp add: funded_def)
  have o: "on_block_connected m b = expire_loop ?m2 (p_returned_since ?m2)"
    by (simp add: on_block_connected_def end_expired_protection_def Let_def)
  note x = expire_ok [OF ok2, of "p_returned_since ?m2", folded o]
  show "pool_ok (on_block_connected m b)" "funded (on_block_connected m b) (ledger_txs h (blk_transactions b) L)" using x fu2 by blast+
  assume "has_entry (on_block_connected m b) i"
  then have "has_entry ?m2 i" using x by blast
  then obtain e where "hget (p_entries ?m1) i = Some e" by (auto simp: has_entry_def)
  then show "has_entry m i \<and> i \<notin> txids (blk_transactions b)" using c by (auto simp: has_entry_def)
qed

section \<open>Revalidation\<close>

definition part_of :: "mempool \<Rightarrow> mempool \<Rightarrow> bool" where
  "part_of m' m \<longleftrightarrow> (\<forall>i e. hget (p_entries m') i = Some e \<longrightarrow> hget (p_entries m) i = Some e)"

lemma part_of_trans: "part_of m'' m' \<Longrightarrow> part_of m' m \<Longrightarrow> part_of m'' m"
  by (simp add: part_of_def)

lemma remove_all_part: "pool_ok m \<Longrightarrow> pool_ok (remove_all_of m ids) \<and> part_of (remove_all_of m ids) m"
  using remove_all_entries [of m ids] by (auto simp: part_of_def split: if_splits)

lemma leave_confirmed_part: "pool_ok m \<Longrightarrow> pool_ok (foldl leave_confirmed m ids) \<and> part_of (foldl leave_confirmed m ids) m"
proof (induction ids arbitrary: m)
  case (Cons i ids)
  have s: "same_pool (fst (remove_one m i)) (leave_confirmed m i)" by (simp add: leave_confirmed_def split: prod.split)
  have "pool_ok (leave_confirmed m i)" by (rule same_pool_ok [OF remove_one_ok [OF Cons.prems] s])
  moreover have "part_of (leave_confirmed m i) m"
    using s by (auto simp: part_of_def same_pool_def remove_one_entries split: if_splits)
  ultimately show ?case using Cons.IH [of "leave_confirmed m i"] part_of_trans by auto
qed (simp add: part_of_def)

lemma drop_orphans_ok:
  "pool_ok m \<Longrightarrow> pool_ok (drop_orphans m s height) \<and> part_of (drop_orphans m s height) m \<and> orphans (drop_orphans m s height) s height = []"
proof (induction m s height rule: drop_orphans.induct)
  case (1 m s height)
  show ?case
  proof (cases "orphans m s height = []")
    case True
    then show ?thesis using "1.prems" by (subst (1 2 3) drop_orphans.simps) (simp add: part_of_def)
  next
    case False
    let ?m = "remove_all_of m (orphans m s height)"
    have "drop_orphans m s height = drop_orphans ?m s height" using False by (subst drop_orphans.simps) (simp add: Let_def)
    then show ?thesis using "1.IH" [OF refl False] remove_all_part [OF "1.prems"] part_of_trans by auto
  qed
qed

lemma revalidate_ok:
  assumes ok: "pool_ok m"
  shows "pool_ok (revalidate m s net height)" "part_of (revalidate m s net height) m" "orphans (revalidate m s net height) s height = []"
proof -
  define m1 where "m1 = foldl leave_confirmed m (confirmed_ids m s)"
  define m2 where "m2 = (if policy_is_active net (height + 1) then m1
      else remove_all_of m1 (map fst (filter (\<lambda>(_, e). me_policy e) (p_entries m1))))"
  define m3 where "m3 = (if names_is_active net (height + 1) then m2
      else remove_all_of m2 (map fst (filter (\<lambda>(_, e). me_name e) (p_entries m2))))"
  define m4 where "m4 = remove_all_of m3 (clashing_names m3 s)"
  have refl: "part_of x x" for x by (simp add: part_of_def)
  have 1: "pool_ok m1" "part_of m1 m" using leave_confirmed_part [OF ok] by (simp_all add: m1_def)
  have 2: "pool_ok m2" "part_of m2 m1" using remove_all_part [OF 1(1)] 1(1) refl by (simp_all add: m2_def)
  have 3: "pool_ok m3" "part_of m3 m2" using remove_all_part [OF 2(1)] 2(1) refl by (simp_all add: m3_def)
  have 4: "pool_ok m4" "part_of m4 m3" using remove_all_part [OF 3(1)] by (simp_all add: m4_def)
  have r: "revalidate m s net height = drop_orphans m4 s height"
    by (simp add: revalidate_def Let_def m4_def m3_def m2_def m1_def)
  note d = drop_orphans_ok [OF 4(1), of s height, folded r]
  show "pool_ok (revalidate m s net height)" "orphans (revalidate m s net height) s height = []" using d by blast+
  show "part_of (revalidate m s net height) m" using d 4(2) 3(2) 2(2) 1(2) part_of_trans by blast
qed

section \<open>The block template\<close>

definition order_ok :: "mempool \<Rightarrow> nat \<Rightarrow> (hash256 \<times> mempool_entry) list \<Rightarrow> nat \<Rightarrow> bool" where
  "order_ok m mw chosen weight \<longleftrightarrow> set chosen \<subseteq> set (p_entries m) \<and> distinct (map fst chosen) \<and>
     weight = sum_list (map (\<lambda>(_, e). me_weight e) chosen) \<and> weight \<le> mw \<and>
     (\<forall>k < length chosen. \<forall>p \<in> set (kids (p_parents m) (fst (chosen ! k))). has_entry m p \<longrightarrow> p \<in> fst ` set (take k chosen))"

lemma order_loop_ok:
  "order_ok m mw chosen weight \<Longrightarrow> (\<forall>k. set (kids waiting k) \<subseteq> set (p_entries m)) \<Longrightarrow> set stack \<subseteq> set (p_entries m) \<Longrightarrow>
   order_loop m mw chosen weight waiting stack = (chosen', weight', waiting') \<Longrightarrow>
   order_ok m mw chosen' weight' \<and> (\<forall>k. set (kids waiting' k) \<subseteq> set (p_entries m))"
proof (induction m mw chosen weight waiting stack rule: order_loop.induct)
  case (2 m mw chosen weight waiting i e stack)
  let ?find = "List.find (\<lambda>p. p \<notin> set (map fst chosen) \<and> has_entry m p) (kids (p_parents m) i)"
  have st: "(i, e) \<in> set (p_entries m)" "set stack \<subseteq> set (p_entries m)" using "2.prems"(3) by auto
  show ?case
  proof (cases "i \<in> set (map fst chosen) \<or> weight + me_weight e > mw")
    case True
    then show ?thesis using "2.IH"(1) [OF True "2.prems"(1,2) st(2)] "2.prems"(4) by simp
  next
    case skip: False
    show ?thesis
    proof (cases ?find)
      case (Some p)
      have "\<forall>k. set (kids (hput p (kids waiting p @ [(i, e)]) waiting) k) \<subseteq> set (p_entries m)" using "2.prems"(2) st(1) by auto
      then show ?thesis using "2.IH"(3) [OF skip Some "2.prems"(1) _ st(2)] "2.prems"(4) skip Some by auto
    next
      case None
      then have par: "p \<in> set (kids (p_parents m) i) \<Longrightarrow> has_entry m p \<Longrightarrow> p \<in> fst ` set chosen" for p
        by (auto simp: find_None_iff)
      have "order_ok m mw (chosen @ [(i, e)]) (weight + me_weight e)"
        using "2.prems"(1) skip st(1) par unfolding order_ok_def by (auto simp: nth_append less_Suc_eq)
      moreover have "\<forall>k. set (kids (hdel i waiting) k) \<subseteq> set (p_entries m)" "set (kids waiting i @ stack) \<subseteq> set (p_entries m)"
        using "2.prems"(2) st(2) by auto
      ultimately show ?thesis using "2.IH"(2) [OF skip None] "2.prems"(4) skip None by auto
    qed
  qed
qed auto

lemma order_from_ok:
  "order_ok m mw chosen weight \<Longrightarrow> (\<forall>k. set (kids waiting k) \<subseteq> set (p_entries m)) \<Longrightarrow> set xs \<subseteq> set (p_entries m) \<Longrightarrow>
   \<exists>w. order_ok m mw (order_from m mw chosen weight waiting xs) w"
proof (induction xs arbitrary: chosen weight waiting)
  case (Cons x xs)
  obtain c w wt where o: "order_loop m mw chosen weight waiting [x] = (c, w, wt)" by (cases "order_loop m mw chosen weight waiting [x]")
  have "order_ok m mw c w \<and> (\<forall>k. set (kids wt k) \<subseteq> set (p_entries m))"
    by (rule order_loop_ok [OF Cons.prems(1,2) _ o]) (use Cons.prems(3) in simp)
  then show ?case using Cons.IH [of c w wt] Cons.prems(3) o by auto
qed auto

lemma drop_unripe_ok:
  "distinct (map (\<lambda>e. txid (me_tx e)) es) \<Longrightarrow>
   (\<forall>k < length es. \<forall>i \<in> set (tx_inputs (me_tx (es ! k))). hget created (prev_out i) \<noteq> None \<longrightarrow> op_txid (prev_out i) \<noteq> txid (me_tx (es ! k)) \<longrightarrow>
      op_txid (prev_out i) \<in> K \<union> set dropped \<union> (\<lambda>e. txid (me_tx e)) ` set (take k es)) \<Longrightarrow>
   set (drop_unripe created dropped es) \<subseteq> me_tx ` set es \<and> distinct (map txid (drop_unripe created dropped es)) \<and>
   sum_list (map w (drop_unripe created dropped es)) \<le> sum_list (map (\<lambda>e. w (me_tx e) :: nat) es) \<and>
   (\<forall>k < length (drop_unripe created dropped es). \<forall>i \<in> set (tx_inputs (drop_unripe created dropped es ! k)).
      hget created (prev_out i) \<noteq> None \<longrightarrow> op_txid (prev_out i) = txid (drop_unripe created dropped es ! k) \<or>
      op_txid (prev_out i) \<in> K \<union> txid ` set (take k (drop_unripe created dropped es)))"
proof (induction es arbitrary: K dropped)
  case (Cons e es)
  let ?x = "txid (me_tx e)"
  have first: "hget created (prev_out i) \<noteq> None \<Longrightarrow> op_txid (prev_out i) \<noteq> ?x \<Longrightarrow> op_txid (prev_out i) \<in> K \<union> set dropped"
    if "i \<in> set (tx_inputs (me_tx e))" for i
    using Cons.prems(2) [rule_format, of 0 i] that by simp
  have later: "op_txid (prev_out i) \<in> insert ?x (K \<union> set dropped) \<union> (\<lambda>e. txid (me_tx e)) ` set (take k es)"
    if "k < length es" "i \<in> set (tx_inputs (me_tx (es ! k)))" "hget created (prev_out i) \<noteq> None" "op_txid (prev_out i) \<noteq> txid (me_tx (es ! k))" for k i
    using Cons.prems(2) [rule_format, of "Suc k" i] that by auto
  show ?case
  proof (cases "list_ex (\<lambda>i. op_txid (prev_out i) \<in> set dropped \<or>
           (case hget created (prev_out i) of Some u \<Rightarrow> \<not> unconfirmed_lock_free u (in_witness i) | None \<Rightarrow> False)) (tx_inputs (me_tx e))")
    case True
    then have "drop_unripe created dropped (e # es) = drop_unripe created (?x # dropped) es" by simp
    moreover have "\<forall>k < length es. \<forall>i \<in> set (tx_inputs (me_tx (es ! k))). hget created (prev_out i) \<noteq> None \<longrightarrow> op_txid (prev_out i) \<noteq> txid (me_tx (es ! k)) \<longrightarrow>
      op_txid (prev_out i) \<in> K \<union> set (?x # dropped) \<union> (\<lambda>e. txid (me_tx e)) ` set (take k es)"
      using later by fastforce
    ultimately show ?thesis using Cons.IH [of K "?x # dropped"] Cons.prems(1) by (auto simp: trans_le_add2)
  next
    case False
    let ?r = "drop_unripe created dropped es"
    have eq: "drop_unripe created dropped (e # es) = me_tx e # ?r" using False by simp
    have "\<forall>k < length es. \<forall>i \<in> set (tx_inputs (me_tx (es ! k))). hget created (prev_out i) \<noteq> None \<longrightarrow> op_txid (prev_out i) \<noteq> txid (me_tx (es ! k)) \<longrightarrow>
      op_txid (prev_out i) \<in> insert ?x K \<union> set dropped \<union> (\<lambda>e. txid (me_tx e)) ` set (take k es)"
      using later by fastforce
    then have ih: "set ?r \<subseteq> me_tx ` set es" "distinct (map txid ?r)" "sum_list (map w ?r) \<le> sum_list (map (\<lambda>e. w (me_tx e)) es)"
      "\<And>k i. k < length ?r \<Longrightarrow> i \<in> set (tx_inputs (?r ! k)) \<Longrightarrow> hget created (prev_out i) \<noteq> None \<Longrightarrow>
        op_txid (prev_out i) = txid (?r ! k) \<or> op_txid (prev_out i) \<in> insert ?x K \<union> txid ` set (take k ?r)"
      using Cons.IH [of "insert ?x K" dropped] Cons.prems(1) by auto
    have "?x \<notin> txid ` set ?r" using ih(1) Cons.prems(1) by auto
    moreover have "op_txid (prev_out i) = txid ((me_tx e # ?r) ! k) \<or> op_txid (prev_out i) \<in> K \<union> txid ` set (take k (me_tx e # ?r))"
      if k: "k < length (me_tx e # ?r)" "i \<in> set (tx_inputs ((me_tx e # ?r) ! k))" "hget created (prev_out i) \<noteq> None" for k i
    proof (cases k)
      case 0
      have "op_txid (prev_out i) \<notin> set dropped" using False k(2) 0 by (auto simp: list_ex_iff)
      then show ?thesis using first [of i] k 0 by auto
    next
      case (Suc j)
      then show ?thesis using ih(4) [of j i] k by auto
    qed
    ultimately show ?thesis unfolding eq using ih(1-3) by auto
  qed
qed simp

lemma block_order_ok:
  assumes "pool_ok m"
  shows "\<exists>ch w. block_order m mw = map snd ch \<and> order_ok m mw ch w"
proof -
  have "set (by_rate m) = set (p_entries m)" by (simp add: by_rate_def)
  then have "\<exists>w. order_ok m mw (order_from m mw [] 0 [] (by_rate m)) w"
    by (intro order_from_ok) (simp_all add: order_ok_def kids_def)
  then show ?thesis unfolding block_order_def by blast
qed

lemma pending_parent:
  assumes ok: "pool_ok m" and e: "hget (p_entries m) i = Some e" "inp \<in> set (tx_inputs (me_tx e))"
    and c: "hget (p_created m) (prev_out inp) \<noteq> None" and n: "op_txid (prev_out inp) \<noteq> i"
  shows "op_txid (prev_out inp) \<in> set (kids (p_parents m) i) \<and> has_entry m (op_txid (prev_out inp))"
proof -
  obtain pe where p: "hget (p_entries m) (op_txid (prev_out inp)) = Some pe" "prev_out inp \<in> made (op_txid (prev_out inp)) (me_tx pe)"
    using ok c unfolding pool_ok_def maps_ok_def by blast
  have "prev_out inp \<in> spent_by e" using e(2) by (simp add: spent_by_def)
  then have "depends (p_entries m) (op_txid (prev_out inp)) i" unfolding depends_def using p e(1) n by blast
  then show ?thesis using ok p(1) by (auto simp: pool_ok_def links_ok_def has_entry_def)
qed

lemma spent_apart:
  assumes "pool_ok m" "hget (p_entries m) i = Some e" "hget (p_entries m) j = Some e'" "i \<noteq> j"
  shows "spent_by e \<inter> spent_by e' = {}"
proof -
  have c: "hget (p_committed m) op = Some k \<longleftrightarrow> (\<exists>e. hget (p_entries m) k = Some e \<and> op \<in> spent_by e)" for op k
    using assms(1) unfolding pool_ok_def maps_ok_def by blast
  have "hget (p_committed m) op = Some i \<and> hget (p_committed m) op = Some j" if "op \<in> spent_by e" "op \<in> spent_by e'" for op
    unfolding c using that assms(2,3) by blast
  then show ?thesis using assms(4) by fastforce
qed

text \<open>A chosen list seen as transactions.\<close>

lemma order_ok_txs:
  assumes ok: "pool_ok m" and o: "order_ok m mw ch w"
  defines "es \<equiv> map snd ch"
  shows "map (\<lambda>e. txid (me_tx e)) es = map fst ch" "\<forall>e \<in> set es. hget (p_entries m) (txid (me_tx e)) = Some e"
    "sum_list (map (\<lambda>e. tx_weight (me_tx e) WITNESS_DISCOUNT) es) \<le> mw"
    "\<forall>k < length es. \<forall>i \<in> set (tx_inputs (me_tx (es ! k))). hget (p_created m) (prev_out i) \<noteq> None \<longrightarrow>
       op_txid (prev_out i) \<noteq> txid (me_tx (es ! k)) \<longrightarrow> op_txid (prev_out i) \<in> (\<lambda>e. txid (me_tx e)) ` set (take k es)"
proof -
  have wf: "hwf (p_entries m)" using ok by (simp add: pool_ok_def maps_ok_def)
  have en: "hget (p_entries m) i = Some e \<and> entry_ok i e" if "(i, e) \<in> set ch" for i e
  proof -
    have "hget (p_entries m) i = Some e" using o \<open>(i, e) \<in> set ch\<close> hm.in_items_iff [OF wf] by (auto simp: order_ok_def)
    then show ?thesis using ok by (simp add: pool_ok_def maps_ok_def)
  qed
  have id: "txid (me_tx e) = i" "me_weight e = tx_weight (me_tx e) WITNESS_DISCOUNT" if "(i, e) \<in> set ch" for i e
    using en [OF that] by (simp_all add: entry_ok_def)
  have "map (\<lambda>x. txid (me_tx (snd x))) xs = map fst xs" if "set xs \<subseteq> set ch" for xs
    using id(1) that by (induction xs) auto
  from this [OF set_take_subset] have take: "map (\<lambda>e. txid (me_tx e)) (take k es) = map fst (take k ch)" for k
    by (simp add: es_def take_map)
  show ids: "map (\<lambda>e. txid (me_tx e)) es = map fst ch" using take [of "length ch"] by (simp add: es_def)
  show "\<forall>e \<in> set es. hget (p_entries m) (txid (me_tx e)) = Some e" using en id(1) by (auto simp: es_def)
  have "sum_list (map (\<lambda>e. tx_weight (me_tx e) WITNESS_DISCOUNT) es) = sum_list (map (\<lambda>(_, e). me_weight e) ch)"
    unfolding es_def map_map by (rule arg_cong [where f = sum_list], rule map_cong) (auto simp: id(2))
  then show "sum_list (map (\<lambda>e. tx_weight (me_tx e) WITNESS_DISCOUNT) es) \<le> mw" using o by (simp add: order_ok_def)
  show "\<forall>k < length es. \<forall>i \<in> set (tx_inputs (me_tx (es ! k))). hget (p_created m) (prev_out i) \<noteq> None \<longrightarrow>
       op_txid (prev_out i) \<noteq> txid (me_tx (es ! k)) \<longrightarrow> op_txid (prev_out i) \<in> (\<lambda>e. txid (me_tx e)) ` set (take k es)"
  proof (intro allI ballI impI)
    fix k i assume k: "k < length es" "i \<in> set (tx_inputs (me_tx (es ! k)))" "hget (p_created m) (prev_out i) \<noteq> None"
      "op_txid (prev_out i) \<noteq> txid (me_tx (es ! k))"
    have m: "(fst (ch ! k), es ! k) \<in> set ch" using k(1) nth_mem [of k ch] by (simp add: es_def)
    have "op_txid (prev_out i) \<in> set (kids (p_parents m) (fst (ch ! k))) \<and> has_entry m (op_txid (prev_out i))"
      by (rule pending_parent [OF ok _ k(2,3)]) (use en [OF m] k(4) id(1) [OF m] in simp_all)
    then have "op_txid (prev_out i) \<in> set (map fst (take k ch))" using o k(1) by (simp add: order_ok_def es_def)
    then show "op_txid (prev_out i) \<in> (\<lambda>e. txid (me_tx e)) ` set (take k es)"
      unfolding take [symmetric] by simp
  qed
qed

section \<open>Properties\<close>

lemma example_pool_empty: "funded pool_new L" "same_ids pool_new ts"
  by (simp_all add: funded_def same_ids_def pool_new_def)

text \<open>C27. Admission to the pool keeps its invariant - exact derived maps, no output spent twice, bytes counted
  and bounded - and leaves every pending transaction with outputs to spend. A refusal changes nothing; an
  admission keeps the node's own transactions and those a reorganization returned, and the newcomer is found
  under its id.\<close>

theorem accept_keeps_pool:
  assumes "pool_ok m" "funded m (utxo_get s)" "accept_with mldsa m t s net height is_local is_returned = (m', r)"
  shows "pool_ok m' \<and> funded m' (utxo_get s) \<and> ((\<forall>i. r \<noteq> Ok i) \<longrightarrow> m' = m) \<and>
    (\<forall>i e. hget (p_entries m) i = Some e \<longrightarrow> me_local e \<or> me_returned e \<longrightarrow> hget (p_entries m') i = Some e) \<and>
    (\<forall>i. r = Ok i \<longrightarrow> i = txid t \<and> pool_get m' i = Some t)"
  using accept_ok [OF assms] by (auto simp: ordinary_def)

theorem accept_keeps_pool_witness:
  "pool_ok (fst (accept_with (\<lambda>_ _ _ _. False) pool_new example_spend utxo_new Regtest 0 True False))"
  by (rule conjunct1 [OF accept_keeps_pool [OF pool_new_ok example_pool_empty(1) prod.collapse [symmetric]]])

text \<open>C28. When a block connects, no transaction of the block stays in the pool, nothing enters it, and what
  remains is a pool whose inputs all exist after the block: a pending transaction in conflict with the block
  left with its descendants. Pending transactions with the id of a transaction of the block have as many outputs.\<close>

theorem block_connected_keeps_pool:
  assumes "pool_ok m" "funded m (utxo_get s)" "same_ids m (blk_transactions b)"
    and "apply_transactions s undo_new h (blk_transactions b) = (s', u)"
  shows "pool_ok (on_block_connected m b) \<and> funded (on_block_connected m b) (utxo_get s') \<and>
    (\<forall>i. has_entry (on_block_connected m b) i \<longrightarrow> has_entry m i \<and> i \<notin> txids (blk_transactions b))"
  using block_connected_ok [OF assms(1-3)] apply_transactions_ledger [of s undo_new h "blk_transactions b"] assms(4) by simp

theorem block_connected_keeps_pool_witness: "pool_ok (on_block_connected pool_new example_block)"
  by (rule conjunct1 [OF block_connected_keeps_pool [OF pool_new_ok example_pool_empty prod.collapse [symmetric]]])

lemma template_parts:
  fixes max_weight :: nat
  assumes ok: "pool_ok m"
  defines "ts \<equiv> select_for_block m max_weight"
  shows "\<forall>t \<in> set ts. pool_get m (txid t) = Some t" "distinct (map txid ts)"
    "sum_list (map (\<lambda>t. tx_weight t WITNESS_DISCOUNT) ts) \<le> max_weight"
    "\<forall>t \<in> set ts. \<forall>t' \<in> set ts. t \<noteq> t' \<longrightarrow> set (map prev_out (tx_inputs t)) \<inter> set (map prev_out (tx_inputs t')) = {}"
    "\<forall>k < length ts. \<forall>i \<in> set (tx_inputs (ts ! k)). hget (p_created m) (prev_out i) \<noteq> None \<longrightarrow>
       op_txid (prev_out i) = txid (ts ! k) \<or> op_txid (prev_out i) \<in> txid ` set (take k ts)"
proof -
  obtain ch w where b: "block_order m max_weight = map snd ch" and o: "order_ok m max_weight ch w"
    using block_order_ok [OF ok] by blast
  note x = order_ok_txs [OF ok o]
  have dis: "distinct (map (\<lambda>e. txid (me_tx e)) (map snd ch))" unfolding x(1) using o by (simp add: order_ok_def)
  have ts: "ts = drop_unripe (p_created m) [] (map snd ch)"
    by (simp add: ts_def select_for_block_def without_unripe_policy_spends_def b)
  note d = drop_unripe_ok [OF dis, where created = "p_created m" and K = "{}" and dropped = "[]"
      and w = "\<lambda>t. tx_weight t WITNESS_DISCOUNT", folded ts]
  have par: "\<forall>k < length (map snd ch). \<forall>i \<in> set (tx_inputs (me_tx (map snd ch ! k))). hget (p_created m) (prev_out i) \<noteq> None \<longrightarrow>
      op_txid (prev_out i) \<noteq> txid (me_tx (map snd ch ! k)) \<longrightarrow>
      op_txid (prev_out i) \<in> {} \<union> set [] \<union> (\<lambda>e. txid (me_tx e)) ` set (take k (map snd ch))" using x(4) by simp
  note d = d [OF par]
  have ent: "\<exists>e. hget (p_entries m) (txid t) = Some e \<and> me_tx e = t" if "t \<in> set ts" for t using d x(2) that by fastforce
  show "\<forall>t \<in> set ts. pool_get m (txid t) = Some t" using ent by (fastforce simp: pool_get_def)
  show "distinct (map txid ts)" using d by blast
  show "sum_list (map (\<lambda>t. tx_weight t WITNESS_DISCOUNT) ts) \<le> max_weight" using d x(3) by linarith
  show "\<forall>t \<in> set ts. \<forall>t' \<in> set ts. t \<noteq> t' \<longrightarrow> set (map prev_out (tx_inputs t)) \<inter> set (map prev_out (tx_inputs t')) = {}"
  proof (intro ballI impI)
    fix t t' assume t: "t \<in> set ts" "t' \<in> set ts" "t \<noteq> t'"
    obtain e e' where e: "hget (p_entries m) (txid t) = Some e" "me_tx e = t" "hget (p_entries m) (txid t') = Some e'" "me_tx e' = t'"
      using ent t(1,2) by meson
    have "txid t \<noteq> txid t'"
    proof
      assume "txid t = txid t'"
      then have "e = e'" using e(1,3) by simp
      then show False using e(2,4) t(3) by simp
    qed
    from spent_apart [OF ok e(1,3) this] show "set (map prev_out (tx_inputs t)) \<inter> set (map prev_out (tx_inputs t')) = {}"
      using e(2,4) by (simp add: spent_by_def)
  qed
  show "\<forall>k < length ts. \<forall>i \<in> set (tx_inputs (ts ! k)). hget (p_created m) (prev_out i) \<noteq> None \<longrightarrow>
       op_txid (prev_out i) = txid (ts ! k) \<or> op_txid (prev_out i) \<in> txid ` set (take k ts)" using d by simp
qed

text \<open>The transactions chosen for a block are pending, each chosen once, no two of them spend the same
  output, their weight fits, and a transaction that spends a pending output comes after the one that makes it.\<close>

theorem template_is_ordered:
  assumes "pool_ok m" "ts = select_for_block m max_weight"
  shows "(\<forall>t \<in> set ts. pool_get m (txid t) = Some t) \<and> distinct (map txid ts) \<and>
    sum_list (map (\<lambda>t. tx_weight t WITNESS_DISCOUNT) ts) \<le> max_weight \<and>
    (\<forall>t \<in> set ts. \<forall>t' \<in> set ts. t \<noteq> t' \<longrightarrow> set (map prev_out (tx_inputs t)) \<inter> set (map prev_out (tx_inputs t')) = {}) \<and>
    (\<forall>k < length ts. \<forall>i \<in> set (tx_inputs (ts ! k)). hget (p_created m) (prev_out i) \<noteq> None \<longrightarrow>
       op_txid (prev_out i) = txid (ts ! k) \<or> op_txid (prev_out i) \<in> txid ` set (take k ts))"
  unfolding assms(2) using template_parts [OF assms(1), of max_weight] by (intro conjI)

theorem template_is_ordered_witness: "distinct (map txid (select_for_block pool_new 10))"
  using template_is_ordered [OF pool_new_ok refl, of 10] by blast

end
