(* ===== verification/Revalidate.thy ===== *)
theory Revalidate
  imports MempoolProps
begin

text \<open>
  What \<open>revalidate\<close> (\<open>src/src/mempool.rs\<close>) leaves in the pool after a reorganization, against a statement of
  what the next block may hold that does not use the code's tests: \<open>minable\<close> for one transaction, with
  its inputs, locks, outputs and name, and the quota of names of each owner.
\<close>

section \<open>What the next block may hold\<close>

text \<open>
  An input of the next block, at height \<open>height + 1\<close>: a confirmed output, mature and with its locks open; or an
  output of a pending transaction, with its locks open for an output born in the same block.
\<close>

definition minable_input :: "mempool \<Rightarrow> utxo_set \<Rightarrow> nat \<Rightarrow> txin \<Rightarrow> bool" where
  "minable_input m s height inp \<longleftrightarrow>
     (case utxo_get s (prev_out inp) of
        Some u \<Rightarrow> (ue_is_coinbase u \<longrightarrow> ue_height u + COINBASE_MATURITY \<le> height + 1) \<and>
          locks_hold (ue_height u) (ue_output u) (in_witness inp) (height + 1)
      | None \<Rightarrow> (\<exists>e k. hget (p_entries m) (op_txid (prev_out inp)) = Some e \<and> k < length (tx_outputs (me_tx e)) \<and>
          op_index (prev_out inp) = of_nat k \<and>
          locks_hold (height + 1) (tx_outputs (me_tx e) ! k) (in_witness inp) (height + 1)))"

definition minable :: "mempool \<Rightarrow> utxo_set \<Rightarrow> network \<Rightarrow> nat \<Rightarrow> mempool_entry \<Rightarrow> bool" where
  "minable m s net height e \<longleftrightarrow>
     (\<forall>inp \<in> set (tx_inputs (me_tx e)). minable_input m s height inp) \<and>
     (\<forall>k < length (tx_outputs (me_tx e)). utxo_get s \<lparr>op_txid = txid (me_tx e), op_index = of_nat k\<rparr> = None) \<and>
     (me_policy e \<longrightarrow> policy_is_active net (height + 1)) \<and>
     (\<forall>reg. registered (me_tx e) = Some reg \<longrightarrow> names_is_active net (height + 1) \<and>
        view_name_by_skeleton (set_view s) (skeleton (reg_name reg)) = None)"

text \<open>The pending registrations of an owner, and how many it may still have.\<close>

definition registering :: "mempool \<Rightarrow> hash256 \<Rightarrow> hash256 set" where
  "registering m owner = {i. \<exists>e reg. hget (p_entries m) i = Some e \<and> registered (me_tx e) = Some reg \<and> reg_owner reg = owner}"

definition names_left :: "utxo_set \<Rightarrow> hash256 \<Rightarrow> nat" where
  "names_left s owner = MAX_NAMES_PER_OWNER - view_names_owned (set_view s) owner"

section \<open>Inputs\<close>

lemma path_available_open:
  "path_available_at path born \<le> height \<longleftrightarrow> locks_open born height (pp_min_age path) (pp_min_height path)"
  by (auto simp: path_available_at_def locks_open_def sat_add64_def Let_def)

lemma policy_locks_met_iff: "policy_locks_met u w height \<longleftrightarrow> locks_hold (ue_height u) (ue_output u) w (height + 1)"
proof (cases "out_scheme (ue_output u) = SchemeId.Policy")
  case True
  show ?thesis unfolding locks_hold_iff [OF True]
    using True by (auto simp: policy_locks_met_def policy_available_at_def path_available_open split: result.splits)
qed (simp add: policy_locks_met_def policy_available_at_def locks_hold_def)

text \<open>An unconfirmed output has no relative lock on the path: born with the block, it would not expire in it.\<close>

lemma unconfirmed_locks:
  "unconfirmed_lock_free u w \<Longrightarrow> policy_locks_met u w height \<Longrightarrow> locks_hold (height + 1) (ue_output u) w (height + 1)"
  "height + 1 < u64_max \<Longrightarrow> locks_hold (height + 1) (ue_output u) w (height + 1) \<Longrightarrow>
     unconfirmed_lock_free u w \<and> policy_locks_met u w height"
proof -
  consider (other) "out_scheme (ue_output u) \<noteq> SchemeId.Policy" | (pol) "out_scheme (ue_output u) = SchemeId.Policy" by blast
  then have "(unconfirmed_lock_free u w \<longrightarrow> policy_locks_met u w height \<longrightarrow> locks_hold (height + 1) (ue_output u) w (height + 1)) \<and>
    (height + 1 < u64_max \<longrightarrow> locks_hold (height + 1) (ue_output u) w (height + 1) \<longrightarrow>
       unconfirmed_lock_free u w \<and> policy_locks_met u w height)"
  proof cases
    case other
    then show ?thesis by (simp add: locks_hold_def unconfirmed_lock_free_def relative_lock_def policy_locks_met_def policy_available_at_def)
  next
    case pol
    show ?thesis
      unfolding policy_locks_met_iff locks_hold_iff [OF pol] using pol
      by (auto simp: unconfirmed_lock_free_def relative_lock_def locks_open_def split: result.splits)
  qed
  then show "unconfirmed_lock_free u w \<Longrightarrow> policy_locks_met u w height \<Longrightarrow> locks_hold (height + 1) (ue_output u) w (height + 1)"
    "height + 1 < u64_max \<Longrightarrow> locks_hold (height + 1) (ue_output u) w (height + 1) \<Longrightarrow>
     unconfirmed_lock_free u w \<and> policy_locks_met u w height" by blast+
qed

lemma available_minable: "pool_ok m \<Longrightarrow> input_available m s height inp \<Longrightarrow> minable_input m s height inp"
proof (cases "utxo_get s (prev_out inp)")
  case (Some u)
  then show "input_available m s height inp \<Longrightarrow> minable_input m s height inp"
    by (auto simp: input_available_def minable_input_def policy_locks_met_iff)
next
  case None
  assume ok: "pool_ok m" and a: "input_available m s height inp"
  from a None obtain u where u: "hget (p_created m) (prev_out inp) = Some u" "unconfirmed_lock_free u (in_witness inp)"
    "policy_locks_met u (in_witness inp) height" by (auto simp: input_available_def split: option.splits)
  obtain e k where "hget (p_entries m) (op_txid (prev_out inp)) = Some e" "k < length (tx_outputs (me_tx e))"
    "op_index (prev_out inp) = of_nat k" "ue_output u = tx_outputs (me_tx e) ! k"
    using ok u(1) unfolding pool_ok_def outputs_ok_def by blast
  then show ?thesis using None unconfirmed_locks(1) [OF u(2,3)] by (auto simp: minable_input_def)
qed

lemma minable_available:
  assumes "pool_ok m" "height + 1 < u64_max" "minable_input m s height inp"
    and small: "\<And>i e. hget (p_entries m) i = Some e \<Longrightarrow> length (tx_outputs (me_tx e)) \<le> 2 ^ 32"
  shows "input_available m s height inp"
proof (cases "utxo_get s (prev_out inp)")
  case (Some u)
  then show ?thesis using assms(3) by (auto simp: input_available_def minable_input_def policy_locks_met_iff)
next
  case None
  then obtain e k where e: "hget (p_entries m) (op_txid (prev_out inp)) = Some e" "k < length (tx_outputs (me_tx e))"
    "op_index (prev_out inp) = of_nat k" "locks_hold (height + 1) (tx_outputs (me_tx e) ! k) (in_witness inp) (height + 1)"
    using assms(3) by (auto simp: minable_input_def)
  have "prev_out inp \<in> made (op_txid (prev_out inp)) (me_tx e)"
    unfolding made_def using e(2,3) by (intro image_eqI [of _ _ k]) simp_all
  then obtain u where u: "hget (p_created m) (prev_out inp) = Some u"
    using assms(1) e(1) unfolding pool_ok_def maps_ok_def by blast
  obtain k' where k': "k' < length (tx_outputs (me_tx e))" "op_index (prev_out inp) = of_nat k'" "ue_output u = tx_outputs (me_tx e) ! k'"
    using assms(1) u e(1) unfolding pool_ok_def outputs_ok_def by (metis option.inject)
  have "k < 2 ^ 32" "k' < 2 ^ 32" using small [OF e(1)] e(2) k'(1) by linarith+
  moreover have "unat (of_nat k :: u32) = unat (of_nat k' :: u32)" using e(3) k'(2) by simp
  ultimately have "k = k'" by (simp add: unat_of_nat take_bit_nat_eq_self)
  then have "unconfirmed_lock_free u (in_witness inp) \<and> policy_locks_met u (in_witness inp) height"
    by (intro unconfirmed_locks(2)) (use assms(2) e(4) k'(3) in simp_all)
  then show ?thesis using None u by (simp add: input_available_def)
qed

section \<open>Names\<close>

definition clash :: "utxo_set \<Rightarrow> mempool_entry \<Rightarrow> bool" where
  "clash s e \<longleftrightarrow> (case registered (me_tx e) of
     Some reg \<Rightarrow> view_name_by_skeleton (set_view s) (skeleton (reg_name reg)) \<noteq> None | None \<Rightarrow> True)"

definition waiting :: "utxo_set \<Rightarrow> hash256 \<Rightarrow> hash256 \<times> mempool_entry \<Rightarrow> bool" where
  "waiting s owner x \<longleftrightarrow> (case x of (i, e) \<Rightarrow> me_name e \<and> \<not> clash s e \<and> map_option reg_owner (registered (me_tx e)) = Some owner)"

definition queue :: "mempool \<Rightarrow> utxo_set \<Rightarrow> hash256 \<Rightarrow> (nat \<times> hash256) list" where
  "queue m s owner = map (\<lambda>(i, e). (me_arrival e, i)) (filter (waiting s owner) (p_entries m))"

lemma sort_names_spec:
  "hwf bo \<Longrightarrow> sort_names s cl bo es = (cl', bo') \<Longrightarrow> hwf bo' \<and>
   set cl' = set cl \<union> {i. \<exists>e. (i, e) \<in> set es \<and> me_name e \<and> clash s e} \<and>
   (\<forall>ow. kids bo' ow = kids bo ow @ map (\<lambda>(i, e). (me_arrival e, i)) (filter (waiting s ow) es))"
proof (induction es arbitrary: cl bo)
  case (Cons x es)
  obtain i e where x: "x = (i, e)" by (cases x)
  consider (skip) "\<not> me_name e" | (bad) "me_name e" "clash s e"
    | (good) reg where "me_name e" "\<not> clash s e" "registration (me_tx e) = Ok (Some reg)" "registered (me_tx e) = Some reg"
      "view_name_by_skeleton (set_view s) (skeleton (reg_name reg)) = None"
  proof (cases "registered (me_tx e)")
    case None
    then show ?thesis using skip bad by (auto simp: clash_def)
  next
    case (Some reg)
    then have "registration (me_tx e) = Ok (Some reg)" by (simp add: registered_def split: result.splits)
    then show ?thesis using skip bad good [of reg] Some by (auto simp: clash_def)
  qed
  then show ?case
  proof cases
    case skip
    then have "sort_names s cl bo es = (cl', bo')" using Cons.prems(2) by (simp add: x)
    from Cons.IH [OF Cons.prems(1) this] skip show ?thesis by (auto simp: x waiting_def)
  next
    case bad
    then have "sort_names s (cl @ [i]) bo es = (cl', bo')" using Cons.prems(2)
      by (auto simp: x clash_def registered_def split: result.splits option.splits)
    from Cons.IH [OF Cons.prems(1) this] bad show ?thesis by (auto simp: x waiting_def)
  next
    case good
    then have "sort_names s cl (hput (reg_owner reg) (kids bo (reg_owner reg) @ [(me_arrival e, i)]) bo) es = (cl', bo')"
      using Cons.prems(2) by (simp add: x)
    from Cons.IH [OF _ this] good Cons.prems(1) show ?thesis by (auto simp: x waiting_def)
  qed
qed simp

lemma clashing_names_set:
  "set (clashing_names m s) = {i. \<exists>e. (i, e) \<in> set (p_entries m) \<and> me_name e \<and> clash s e} \<union>
     {i. \<exists>ow. i \<in> snd ` set (drop (names_left s ow) (sort (queue m s ow)))}"
proof -
  obtain cl bo where sn: "sort_names s [] [] (p_entries m) = (cl, bo)" by (cases "sort_names s [] [] (p_entries m)")
  note sp = sort_names_spec [OF hwf_empty sn]
  have k: "kids bo ow = queue m s ow" for ow using sp by (simp add: queue_def kids_def)
  have it: "(ow, pend) \<in> set bo \<longleftrightarrow> hget bo ow = Some pend" for ow pend by (rule hm.in_items_iff) (use sp in simp)
  have ex: "(\<exists>ow pend. (ow, pend) \<in> set bo \<and> P ow pend) \<longleftrightarrow> (\<exists>ow. P ow (queue m s ow))" if nil: "\<And>ow. \<not> P ow []" for P
  proof
    assume "\<exists>ow pend. (ow, pend) \<in> set bo \<and> P ow pend"
    then obtain ow pend where p: "hget bo ow = Some pend" "P ow pend" unfolding it by blast
    then have "kids bo ow = pend" by (simp add: kids_def)
    then show "\<exists>ow. P ow (queue m s ow)" using p(2) k by metis
  next
    assume "\<exists>ow. P ow (queue m s ow)"
    then obtain ow where p: "P ow (kids bo ow)" unfolding k by blast
    then obtain pend where "hget bo ow = Some pend" using nil [of ow] by (cases "hget bo ow") (auto simp: kids_def)
    then show "\<exists>ow pend. (ow, pend) \<in> set bo \<and> P ow pend" unfolding it using p by (auto simp: kids_def)
  qed
  have late: "i \<in> set (concat (map (\<lambda>(ow, pending). map snd (drop (names_left s ow) (sort pending))) bo)) \<longleftrightarrow>
      (\<exists>ow. i \<in> snd ` set (drop (names_left s ow) (sort (queue m s ow))))" for i
  proof -
    have "i \<in> set (concat (map (\<lambda>(ow, pending). map snd (drop (names_left s ow) (sort pending))) bo)) \<longleftrightarrow>
        (\<exists>ow pend. (ow, pend) \<in> set bo \<and> i \<in> snd ` set (drop (names_left s ow) (sort pend)))" by auto
    also have "\<dots> \<longleftrightarrow> (\<exists>ow. i \<in> snd ` set (drop (names_left s ow) (sort (queue m s ow))))" by (rule ex) simp
    finally show ?thesis .
  qed
  have "clashing_names m s = cl @ concat (map (\<lambda>(ow, pending). map snd (drop (names_left s ow) (sort pending))) bo)"
    by (simp add: clashing_names_def sn names_left_def)
  moreover have "set cl = {i. \<exists>e. (i, e) \<in> set (p_entries m) \<and> me_name e \<and> clash s e}" using sp by simp
  ultimately show ?thesis by (simp only: set_append set_eq_iff Un_iff late mem_Collect_eq) simp
qed

lemma queue_distinct: "hwf (p_entries m) \<Longrightarrow> distinct (map snd (queue m s ow))"
proof -
  assume "hwf (p_entries m)"
  then have "distinct (map fst (filter (waiting s ow) (p_entries m)))" by (simp add: hwf_def distinct_map_filter)
  moreover have "map snd (queue m s ow) = map fst (filter (waiting s ow) (p_entries m))" by (simp add: queue_def case_prod_beta comp_def)
  ultimately show ?thesis by simp
qed

section \<open>The passes of the revalidation\<close>

lemma leave_confirmed_entries: "p_entries (leave_confirmed m i) = (if has_entry m i then hdel i (p_entries m) else p_entries m)"
proof -
  have "same_pool (fst (remove_one m i)) (leave_confirmed m i)" by (simp add: leave_confirmed_def split: prod.split)
  then show ?thesis by (simp add: same_pool_def remove_one_entries)
qed

lemma leave_confirmed_gone:
  "hget (p_entries (foldl leave_confirmed m ids)) i = Some e \<Longrightarrow> hget (p_entries m) i = Some e \<and> i \<notin> set ids"
proof (induction ids arbitrary: m)
  case (Cons j ids)
  then have "hget (p_entries (leave_confirmed m j)) i = Some e" "i \<notin> set ids" by auto
  then show ?case by (auto simp: leave_confirmed_entries has_entry_def split: if_splits)
qed simp

lemma remove_all_gone:
  assumes "pool_ok m" "hget (p_entries (remove_all_of m ids)) i = Some e"
  shows "hget (p_entries m) i = Some e \<and> i \<notin> set ids"
  using remove_all_entries [OF assms(1), of ids] assms(2) by (auto split: if_splits)

lemma remove_matching:
  assumes "pool_ok m" "hget (p_entries (remove_all_of m (map fst (filter (\<lambda>(_, e). P e) (p_entries m))))) i = Some e"
  shows "\<not> P e"
proof
  assume "P e"
  have wf: "hwf (p_entries m)" using assms(1) by (simp add: pool_ok_def maps_ok_def)
  note g = remove_all_gone [OF assms]
  then have "(i, e) \<in> set (p_entries m)" using hm.in_items_iff [OF wf] by blast
  then have "i \<in> set (map fst (filter (\<lambda>(_, e). P e) (p_entries m)))" using \<open>P e\<close> by force
  then show False using g by blast
qed

lemma clashing_gone:
  assumes "pool_ok m" "hget (p_entries (remove_all_of m (clashing_names m s))) i = Some e" "me_name e"
  shows "\<not> clash s e"
    "map_option reg_owner (registered (me_tx e)) = Some ow \<Longrightarrow> i \<in> snd ` set (take (names_left s ow) (sort (queue m s ow)))"
proof -
  have wf: "hwf (p_entries m)" using assms(1) by (simp add: pool_ok_def maps_ok_def)
  note g = remove_all_gone [OF assms(1,2)]
  then have it: "(i, e) \<in> set (p_entries m)" using hm.in_items_iff [OF wf] by blast
  then show nc: "\<not> clash s e" using g assms(3) unfolding clashing_names_set by blast
  assume ow: "map_option reg_owner (registered (me_tx e)) = Some ow"
  have "(i, e) \<in> set (filter (waiting s ow) (p_entries m))" using it nc ow assms(3) by (simp add: waiting_def)
  then have "(me_arrival e, i) \<in> set (queue m s ow)" unfolding queue_def by force
  then have "(me_arrival e, i) \<in> set (take (names_left s ow) (sort (queue m s ow)) @ drop (names_left s ow) (sort (queue m s ow)))" by simp
  moreover have "(me_arrival e, i) \<notin> set (drop (names_left s ow) (sort (queue m s ow)))"
    using g unfolding clashing_names_set by force
  ultimately have "(me_arrival e, i) \<in> set (take (names_left s ow) (sort (queue m s ow)))" unfolding set_append by blast
  then show "i \<in> snd ` set (take (names_left s ow) (sort (queue m s ow)))" by (rule image_eqI [rotated]) simp
qed

lemma entry_flags:
  assumes "pool_ok m" "hget (p_entries m) i = Some e"
  shows "txid (me_tx e) = i" "me_name e \<longleftrightarrow> registered (me_tx e) \<noteq> None"
  using assms by (auto simp: pool_ok_def maps_ok_def entry_ok_def)

lemma revalidate_passes:
  fixes m s net height
  assumes ok: "pool_ok m"
  defines "m' \<equiv> revalidate m s net height"
  shows "hget (p_entries m') i = Some e \<Longrightarrow> i \<notin> set (confirmed_ids m s) \<and> (me_policy e \<longrightarrow> policy_is_active net (height + 1)) \<and>
      (me_name e \<longrightarrow> names_is_active net (height + 1) \<and> \<not> clash s e)"
    "card (registering m' ow) \<le> names_left s ow"
proof -
  define m1 where "m1 = foldl leave_confirmed m (confirmed_ids m s)"
  define m2 where "m2 = (if policy_is_active net (height + 1) then m1
      else remove_all_of m1 (map fst (filter (\<lambda>(_, e). me_policy e) (p_entries m1))))"
  define m3 where "m3 = (if names_is_active net (height + 1) then m2
      else remove_all_of m2 (map fst (filter (\<lambda>(_, e). me_name e) (p_entries m2))))"
  define m4 where "m4 = remove_all_of m3 (clashing_names m3 s)"
  have refl: "part_of x x" for x by (simp add: part_of_def)
  have 1: "pool_ok m1" using leave_confirmed_part [OF ok] by (simp add: m1_def)
  have 2: "pool_ok m2" "part_of m2 m1" using remove_all_part [OF 1] 1 refl by (simp_all add: m2_def)
  have 3: "pool_ok m3" "part_of m3 m2" using remove_all_part [OF 2(1)] 2(1) refl by (simp_all add: m3_def)
  have 4: "pool_ok m4" "part_of m4 m3" using remove_all_part [OF 3(1)] by (simp_all add: m4_def)
  have r: "m' = drop_orphans m4 s height"
    by (simp add: m'_def revalidate_def Let_def m4_def m3_def m2_def m1_def)
  have p4: "part_of m' m4" using drop_orphans_ok [OF 4(1)] by (simp add: r)
  have in4: "hget (p_entries m4) i = Some e" if "hget (p_entries m') i = Some e" for i e using that p4 by (simp add: part_of_def)
  show "i \<notin> set (confirmed_ids m s) \<and> (me_policy e \<longrightarrow> policy_is_active net (height + 1)) \<and>
      (me_name e \<longrightarrow> names_is_active net (height + 1) \<and> \<not> clash s e)" if i: "hget (p_entries m') i = Some e"
  proof -
    have e4: "hget (p_entries m4) i = Some e" by (rule in4 [OF i])
    have e3: "hget (p_entries m3) i = Some e" using e4 4(2) by (simp add: part_of_def)
    have e2: "hget (p_entries m2) i = Some e" using e3 3(2) by (simp add: part_of_def)
    have e1: "hget (p_entries m1) i = Some e" using e2 2(2) by (simp add: part_of_def)
    have "i \<notin> set (confirmed_ids m s)" using leave_confirmed_gone [OF e1 [unfolded m1_def]] by blast
    moreover have "policy_is_active net (height + 1)" if "me_policy e"
      using remove_matching [OF 1, of me_policy i e] e2 that unfolding m2_def by (auto split: if_splits)
    moreover have "names_is_active net (height + 1)" if "me_name e"
      using remove_matching [OF 2(1), of me_name i e] e3 that unfolding m3_def by (auto split: if_splits)
    moreover have "\<not> clash s e" if "me_name e" by (rule clashing_gone(1) [OF 3(1) e4 [unfolded m4_def] that])
    ultimately show ?thesis by blast
  qed
  have "i \<in> snd ` set (take (names_left s ow) (sort (queue m3 s ow)))" if i: "i \<in> registering m' ow" for i
  proof -
    obtain e reg where e: "hget (p_entries m') i = Some e" "registered (me_tx e) = Some reg" "reg_owner reg = ow"
      using i by (auto simp: registering_def)
    have e4: "hget (p_entries m4) i = Some e" by (rule in4 [OF e(1)])
    have "me_name e" using entry_flags(2) [OF 4(1) e4] e(2) by simp
    then show ?thesis by (rule clashing_gone(2) [OF 3(1) e4 [unfolded m4_def]]) (simp add: e)
  qed
  then have "card (registering m' ow) \<le> card (snd ` set (take (names_left s ow) (sort (queue m3 s ow))))"
    by (intro card_mono) auto
  also have "\<dots> \<le> length (take (names_left s ow) (sort (queue m3 s ow)))" by (metis card_length length_map list.set_map)
  also have "\<dots> \<le> names_left s ow" by simp
  finally show "card (registering m' ow) \<le> names_left s ow" .
qed

text \<open>A pool that is already good is left as it is.\<close>

lemma revalidate_keeps:
  assumes ok: "pool_ok m" and h: "height + 1 < u64_max"
    and good: "\<And>i e. hget (p_entries m) i = Some e \<Longrightarrow> minable m s net height e \<and> length (tx_outputs (me_tx e)) \<le> 2 ^ 32"
    and quota: "\<And>ow. card (registering m ow) \<le> names_left s ow"
  shows "revalidate m s net height = m"
proof -
  have wf: "hwf (p_entries m)" using ok by (simp add: pool_ok_def maps_ok_def)
  have g: "minable m s net height e" "txid (me_tx e) = i" "me_name e \<longleftrightarrow> registered (me_tx e) \<noteq> None"
    if "(i, e) \<in> set (p_entries m)" for i e
    using that good entry_flags [OF ok] hm.in_items_iff [OF wf] by blast+
  have 1: "confirmed_ids m s = []"
    using g by (auto simp: confirmed_ids_def filter_empty_conv list_ex_iff minable_def)
  have 2: "filter (\<lambda>(_, e). me_policy e) (p_entries m) = []" if "\<not> policy_is_active net (height + 1)"
    using g(1) that by (auto simp: filter_empty_conv minable_def)
  have 3: "filter (\<lambda>(_, e). me_name e) (p_entries m) = []" if "\<not> names_is_active net (height + 1)"
    using g(1,3) that by (auto simp: filter_empty_conv minable_def)
  have nc: "\<not> clash s e" if "(i, e) \<in> set (p_entries m)" "me_name e" for i e
    using g(1,3) [OF that(1)] that(2) by (auto simp: clash_def minable_def)
  have "length (queue m s ow) \<le> names_left s ow" for ow
  proof -
    have "snd ` set (queue m s ow) \<subseteq> registering m ow"
      using hm.in_items_iff [OF wf] by (fastforce simp: queue_def waiting_def registering_def)
    moreover have "finite (registering m ow)"
    proof (rule finite_subset)
      show "registering m ow \<subseteq> fst ` set (p_entries m)" using hm.in_items_iff [OF wf] by (force simp: registering_def)
    qed simp
    ultimately have "card (snd ` set (queue m s ow)) \<le> card (registering m ow)" by (intro card_mono)
    moreover have "card (snd ` set (queue m s ow)) = length (queue m s ow)"
      using distinct_card [OF queue_distinct [OF wf, of s ow]] by simp
    ultimately show ?thesis using quota [of ow] by linarith
  qed
  then have "set (clashing_names m s) = {}" unfolding clashing_names_set using nc by auto
  then have 4: "clashing_names m s = []" by simp
  have "input_available m s height inp" if "(i, e) \<in> set (p_entries m)" "inp \<in> set (tx_inputs (me_tx e))" for i e inp
  proof (rule minable_available [OF ok h])
    show "minable_input m s height inp" using g(1) [OF that(1)] that(2) by (simp add: minable_def)
    show "length (tx_outputs (me_tx x)) \<le> 2 ^ 32" if "hget (p_entries m) k = Some x" for k x using good [OF that] by simp
  qed
  then have 5: "orphans m s height = []" by (fastforce simp: orphans_def filter_empty_conv list_all_iff)
  then have "drop_orphans m s height = m" by (subst drop_orphans.simps) simp
  then show ?thesis using 1 2 3 4 by (auto simp: revalidate_def Let_def remove_all_of_def)
qed

section \<open>The property\<close>

text \<open>C29. After a reorganization the pool that remains is part of the pool before, keeps the invariant, and
  each transaction in it can be in the next block: none of its outputs is confirmed already; every input
  is either a confirmed output, mature if it is a coinbase's and with every lock on its path expired, or
  an output of a transaction that is still pending, without a relative lock and with its absolute locks
  expired; policies and names are in force if it uses them; the name it registers is free; and no owner
  has more registrations pending than it may still make. A pool of which all this is already true is
  left exactly as it is. The last part is for heights below the largest \<open>u64\<close> and transactions of at most
  \<open>2 ^ 32\<close> outputs.\<close>

theorem revalidate_leaves_valid:
  assumes "pool_ok m" "m' = revalidate m s net height"
  shows "pool_ok m' \<and>
    (\<forall>i e. hget (p_entries m') i = Some e \<longrightarrow> hget (p_entries m) i = Some e \<and> minable m' s net height e) \<and>
    (\<forall>owner. card (registering m' owner) \<le> names_left s owner) \<and>
    (height + 1 < u64_max \<longrightarrow>
     (\<forall>i e. hget (p_entries m) i = Some e \<longrightarrow> minable m s net height e \<and> length (tx_outputs (me_tx e)) \<le> 2 ^ 32) \<longrightarrow>
     (\<forall>owner. card (registering m owner) \<le> names_left s owner) \<longrightarrow> m' = m)"
proof -
  note r = revalidate_ok [OF assms(1), of s net height, folded assms(2)]
  have wf: "hwf (p_entries m)" "hwf (p_entries m')" using r(1) assms(1) by (simp_all add: pool_ok_def maps_ok_def)
  have "minable m' s net height e" if i: "hget (p_entries m') i = Some e" for i e
  proof -
    note p = revalidate_passes(1) [OF assms(1), of s net height i e, folded assms(2), OF i]
    have "list_all (input_available m' s height) (tx_inputs (me_tx e))"
      using r(3) i hm.in_items_iff [OF wf(2)] by (fastforce simp: orphans_def filter_empty_conv)
    then have ins: "minable_input m' s height inp" if "inp \<in> set (tx_inputs (me_tx e))" for inp
      using available_minable [OF r(1)] that by (auto simp: list_all_iff)
    have "(i, e) \<in> set (p_entries m)" using r(2) i hm.in_items_iff [OF wf(1)] by (auto simp: part_of_def)
    then have out: "utxo_get s \<lparr>op_txid = i, op_index = of_nat k\<rparr> = None" if "k < length (tx_outputs (me_tx e))" for k
      using p that unfolding confirmed_ids_def by (force simp: list_ex_iff)
    show ?thesis
      using p ins out entry_flags [OF r(1) i] unfolding minable_def by (auto simp: clash_def split: option.splits)
  qed
  then show ?thesis
    using r(1,2) revalidate_passes(2) [OF assms(1), of s net height, folded assms(2)] revalidate_keeps [OF assms(1), of height s net]
    unfolding part_of_def assms(2) [symmetric] by blast
qed

definition pending_tx :: transaction where
  "pending_tx = \<lparr>tx_version = 1,
     tx_inputs = [\<lparr>prev_out = \<lparr>op_txid = [], op_index = 5\<rparr>, in_witness = \<lparr>wit_pubkey = [], wit_signature = []\<rparr>, in_sequence = 0\<rparr>],
     tx_outputs = [example_out], tx_lock_time = 0\<rparr>"

definition pending_set :: utxo_set where
  "pending_set = utxo_insert utxo_new \<lparr>op_txid = [], op_index = 5\<rparr> example_entry"

definition pending_entry :: mempool_entry where
  "pending_entry = new_entry pending_tx (set_view pending_set) AMOUNT_ZERO 0 False False"

definition pending_pool :: mempool where
  "pending_pool = admit pool_new pending_tx 0 pending_entry []"

lemma pending_registered: "registered pending_tx = None"
  by (simp add: registered_def registration_def scheme_positions_def pending_tx_def example_out_def is_name_def)

lemma pending_pool_ok: "pool_ok pending_pool"
  unfolding pending_pool_def
proof (rule admit_ok [OF pool_new_ok])
  show "fits pool_new pending_tx []" by (simp add: fits_def has_entry_def pool_new_def)
  show "me_tx pending_entry = pending_tx" by (simp add: pending_entry_def new_entry_def)
  show "entry_ok (txid pending_tx) pending_entry" by (simp add: entry_ok_def pending_entry_def new_entry_def)
  show "p_bytes pool_new + me_size pending_entry \<le> capacity pool_new"
    by (simp add: pending_entry_def new_entry_def pending_tx_def example_out_def pool_new_def capacity_def MEMPOOL_MAX_BYTES_def tx_encode_def
        encode_without_witness_def encode_prev_def encode_output_def encode_witness_def w_var_bytes_def w_varint_def w_u8_def w_u32_def w_u64_def)
qed

lemma pending_entries: "hget (p_entries pending_pool) i = (if i = txid pending_tx then Some pending_entry else None)"
  unfolding pending_pool_def admit_fields(1) by (simp add: pool_new_def)

lemma pending_entry_tx [simp]: "me_tx pending_entry = pending_tx"
  by (simp add: pending_entry_def new_entry_def)

lemma pending_minable: "minable pending_pool pending_set Regtest 0 pending_entry"
proof -
  have "utxo_get pending_set op = (if op = \<lparr>op_txid = [], op_index = 5\<rparr> then Some example_entry else None)" for op
    by (simp add: pending_set_def utxo_get_insert) (simp add: utxo_get_def utxo_new_def)
  moreover have "policy_is_active Regtest 1" by (simp add: policy_is_active_def POLICY_ACTIVATION_REGTEST_def)
  moreover have "minable_input pending_pool pending_set 0 inp" if "inp \<in> set (tx_inputs pending_tx)" for inp
    using that calculation by (simp add: pending_tx_def minable_input_def example_entry_def example_out_def locks_hold_def)
  moreover have "txid pending_tx \<noteq> []"
  proof
    assume "txid pending_tx = []"
    moreover have "length (txid pending_tx) = 32" by (simp add: txid_def)
    ultimately show False by simp
  qed
  ultimately show ?thesis by (simp add: minable_def pending_registered)
qed

text \<open>A pending transaction stays as long as the output it spends is there, and leaves with it.\<close>

theorem revalidate_leaves_valid_witness:
  "hget (p_entries (revalidate pending_pool pending_set Regtest 0)) (txid pending_tx) = Some pending_entry \<and>
   hget (p_entries (revalidate pending_pool utxo_new Regtest 0)) (txid pending_tx) = None"
proof
  have reg: "registering pending_pool ow = {}" for ow
    by (auto simp: registering_def pending_entries pending_registered split: if_splits)
  have min: "minable pending_pool pending_set Regtest 0 e \<and> length (tx_outputs (me_tx e)) \<le> 2 ^ 32"
    if "hget (p_entries pending_pool) i = Some e" for i e
  proof -
    have "e = pending_entry" using that by (simp add: pending_entries split: if_splits)
    then show ?thesis using pending_minable by simp (simp add: pending_tx_def)
  qed
  note keeps = revalidate_leaves_valid [OF pending_pool_ok refl, of pending_set Regtest 0, THEN conjunct2, THEN conjunct2, THEN conjunct2]
  have "0 + 1 < u64_max" by (simp add: u64_max_def)
  then have "revalidate pending_pool pending_set Regtest 0 = pending_pool"
    using keeps min reg by (metis card.empty le0)
  then show "hget (p_entries (revalidate pending_pool pending_set Regtest 0)) (txid pending_tx) = Some pending_entry"
    by (simp add: pending_entries)
  have no: "utxo_get utxo_new op = None" for op by (simp add: utxo_get_def utxo_new_def)
  show "hget (p_entries (revalidate pending_pool utxo_new Regtest 0)) (txid pending_tx) = None"
  proof (rule ccontr)
    assume "hget (p_entries (revalidate pending_pool utxo_new Regtest 0)) (txid pending_tx) \<noteq> None"
    then obtain e where e: "hget (p_entries (revalidate pending_pool utxo_new Regtest 0)) (txid pending_tx) = Some e" by auto
    note r = revalidate_leaves_valid [OF pending_pool_ok refl, of utxo_new Regtest 0]
    have "hget (p_entries pending_pool) (txid pending_tx) = Some e" "minable (revalidate pending_pool utxo_new Regtest 0) utxo_new Regtest 0 e"
      using r e by blast+
    then have "minable_input (revalidate pending_pool utxo_new Regtest 0) utxo_new 0 (hd (tx_inputs pending_tx))"
      by (auto simp: pending_entries minable_def pending_tx_def)
    then obtain x where "hget (p_entries (revalidate pending_pool utxo_new Regtest 0)) [] = Some x"
      by (auto simp: pending_tx_def minable_input_def no)
    then have "hget (p_entries pending_pool) [] = Some x" using r by blast
    moreover have "length (txid pending_tx) = 32" by (simp add: txid_def)
    ultimately show False by (auto simp: pending_entries split: if_splits)
  qed
qed

end
