(* ===== verification/Orphans.thy ===== *)
theory Orphans
  imports MempoolProps
begin

text \<open>
  The transactions that wait for a parent (\<open>OrphanPool\<close> of \<open>src/src/mempool.rs\<close>), what the node does with them
  when the parent arrives (\<open>adopt_orphans\<close> of \<open>src/src/net.rs\<close>), and what a block accepted by the chain does to
  both pools (the mempool part of \<open>integrate\<close>).

  Instants are natural numbers of nanoseconds. The announcements of adopted transactions to the peers are not
  part of this state.
\<close>

section \<open>State\<close>

definition MAX_ORPHANS :: nat where
  "MAX_ORPHANS = 256"

definition MAX_ORPHAN_BYTES :: nat where
  "MAX_ORPHAN_BYTES = 4 * 1024 * 1024"

definition MAX_ORPHAN_SIZE :: nat where
  "MAX_ORPHAN_SIZE = 100 * 1024"

definition ORPHAN_EXPIRY :: nat where
  "ORPHAN_EXPIRY = 20 * 60 * 10 ^ 9"

type_synonym orphan = "transaction \<times> nat \<times> nat \<times> nat"

record orphan_pool =
  o_by_id :: "(hash256, orphan) hmap"
  o_by_parent :: "(hash256, hash256 list) hmap"
  o_bytes :: nat

definition orphans_new :: orphan_pool where
  "orphans_new = \<lparr>o_by_id = [], o_by_parent = [], o_bytes = 0\<rparr>"

definition orphans_contains :: "orphan_pool \<Rightarrow> hash256 \<Rightarrow> bool" where
  "orphans_contains p i \<longleftrightarrow> hget (o_by_id p) i \<noteq> None"

section \<open>Operations\<close>

definition forget_parent :: "hash256 \<Rightarrow> (hash256, hash256 list) hmap \<Rightarrow> txin \<Rightarrow> (hash256, hash256 list) hmap" where
  "forget_parent tid bp inp =
     (case hget bp (op_txid (prev_out inp)) of
        None \<Rightarrow> bp
      | Some v \<Rightarrow> let v' = filter (\<lambda>c. c \<noteq> tid) v
                  in if v' = [] then hdel (op_txid (prev_out inp)) bp else hput (op_txid (prev_out inp)) v' bp)"

text \<open>The subtraction of the bytes is exact: the pool counts the sizes of what it holds (\<open>orphan_remove_exact\<close>).\<close>

definition orphan_remove :: "orphan_pool \<Rightarrow> hash256 \<Rightarrow> orphan_pool \<times> (transaction \<times> nat) option" where
  "orphan_remove p tid =
     (case hget (o_by_id p) tid of
        None \<Rightarrow> (p, None)
      | Some (t, peer, at, sz) \<Rightarrow>
          (p\<lparr>o_by_id := hdel tid (o_by_id p), o_bytes := o_bytes p - sz,
             o_by_parent := foldl (forget_parent tid) (o_by_parent p) (tx_inputs t)\<rparr>, Some (t, peer)))"

definition orphan_remove_all :: "orphan_pool \<Rightarrow> hash256 list \<Rightarrow> orphan_pool" where
  "orphan_remove_all p ids = foldl (\<lambda>p i. fst (orphan_remove p i)) p ids"

definition orphans_expire :: "orphan_pool \<Rightarrow> nat \<Rightarrow> orphan_pool" where
  "orphans_expire p now =
     orphan_remove_all p (map fst (filter (\<lambda>(_, _, _, at, _). now - at \<ge> ORPHAN_EXPIRY) (o_by_id p)))"

definition forget_peer :: "orphan_pool \<Rightarrow> nat \<Rightarrow> orphan_pool" where
  "forget_peer p peer = orphan_remove_all p (map fst (filter (\<lambda>(_, _, from_peer, _, _). from_peer = peer) (o_by_id p)))"

text \<open>The oldest orphan, the smallest id among those of the same instant.\<close>

definition oldest :: "orphan_pool \<Rightarrow> hash256" where
  "oldest p = snd (hd (sort (map (\<lambda>(i, _, _, at, _). (at, i)) (o_by_id p))))"

lemma oldest_present:
  assumes "o_by_id p \<noteq> []"
  shows "hget (o_by_id p) (oldest p) \<noteq> None"
proof -
  let ?xs = "map (\<lambda>(i, _, _, at, _). (at, i)) (o_by_id p)"
  have "set (sort ?xs) \<noteq> {}" using assms by (simp only: set_sort) simp
  then have "sort ?xs \<noteq> []" by force
  from hd_in_set [OF this] have "hd (sort ?xs) \<in> set ?xs" unfolding set_sort .
  then have "oldest p \<in> fst ` set (o_by_id p)" by (force simp: oldest_def)
  then show ?thesis by (simp add: hget_def map_of_eq_None_iff)
qed

lemma orphan_remove_length: "hget (o_by_id p) i \<noteq> None \<Longrightarrow> length (o_by_id (fst (orphan_remove p i))) < length (o_by_id p)"
  using length_hdel [of i "o_by_id p"] by (auto simp: orphan_remove_def)

function shed :: "orphan_pool \<Rightarrow> nat \<Rightarrow> orphan_pool" where
  "shed p sz =
     (if o_by_id p \<noteq> [] \<and> (length (o_by_id p) \<ge> MAX_ORPHANS \<or> o_bytes p + sz > MAX_ORPHAN_BYTES)
      then shed (fst (orphan_remove p (oldest p))) sz else p)"
  by pat_completeness auto
termination
  by (relation "measure (\<lambda>(p, sz). length (o_by_id p))") (simp_all add: orphan_remove_length oldest_present)

declare shed.simps [simp del]

definition note_parent :: "hash256 \<Rightarrow> (hash256, hash256 list) hmap \<Rightarrow> hash256 \<Rightarrow> (hash256, hash256 list) hmap" where
  "note_parent tid bp par = hput par (kids bp par @ [tid]) bp"

definition orphans_add :: "orphan_pool \<Rightarrow> transaction \<Rightarrow> nat \<Rightarrow> nat \<Rightarrow> orphan_pool \<times> bool" where
  "orphans_add p t peer now =
     (let tid = txid t; sz = length (tx_encode t)
      in if sz > MAX_ORPHAN_SIZE \<or> orphans_contains p tid then (p, False)
         else let p1 = shed (orphans_expire p now) sz;
                  parents = remdups_adj (sort (map (\<lambda>i. op_txid (prev_out i)) (tx_inputs t)))
              in (p1\<lparr>o_by_parent := foldl (note_parent tid) (o_by_parent p1) parents, o_bytes := o_bytes p1 + sz,
                     o_by_id := hput tid (t, peer, now, sz) (o_by_id p1)\<rparr>, True))"

fun take_out :: "orphan_pool \<Rightarrow> hash256 list \<Rightarrow> orphan_pool \<times> (transaction \<times> nat) list" where
  "take_out p [] = (p, [])"
| "take_out p (i # ids) =
     (case orphan_remove p i of (p1, r) \<Rightarrow> case take_out p1 ids of (p2, ts) \<Rightarrow>
        (p2, case r of Some x \<Rightarrow> x # ts | None \<Rightarrow> ts))"

definition take_children :: "orphan_pool \<Rightarrow> hash256 \<Rightarrow> orphan_pool \<times> (transaction \<times> nat) list" where
  "take_children p par =
     (case hget (o_by_parent p) par of
        None \<Rightarrow> (p, [])
      | Some ids \<Rightarrow>
          let p1 = p\<lparr>o_by_parent := hdel par (o_by_parent p)\<rparr>;
              out = remdups_adj (sort (List.map_filter (\<lambda>i. map_option (\<lambda>(_, _, at, _). (at, i)) (hget (o_by_id p1) i)) ids))
          in take_out p1 (map snd out))"

section \<open>Sizes\<close>

lemma orphan_remove_le: "length (o_by_id (fst (orphan_remove p i))) \<le> length (o_by_id p)"
  using length_hdel [of i "o_by_id p"] by (auto simp: orphan_remove_def split: option.split)

lemma orphan_remove_all_le: "length (o_by_id (orphan_remove_all p ids)) \<le> length (o_by_id p)"
proof (induction ids arbitrary: p)
  case (Cons i ids)
  then show ?case using le_trans [OF Cons [of "fst (orphan_remove p i)"] orphan_remove_le] by (simp add: orphan_remove_all_def)
qed (simp add: orphan_remove_all_def)

lemma shed_le: "length (o_by_id (shed p sz)) \<le> length (o_by_id p)"
proof (induction p sz rule: shed.induct)
  case (1 p sz)
  then show ?case using le_trans [OF _ orphan_remove_le [of p "oldest p"]] by (subst shed.simps) simp
qed

lemma hput_length: "length (hput k v m) \<le> Suc (length m)"
  unfolding hput_def by (induction m) auto

lemma orphans_add_le: "length (o_by_id (fst (orphans_add p t peer now))) \<le> Suc (length (o_by_id p))"
proof -
  have "length (o_by_id (shed (orphans_expire p now) sz)) \<le> length (o_by_id p)" for sz
    using le_trans [OF shed_le orphan_remove_all_le] by (simp add: orphans_expire_def)
  then show ?thesis by (auto simp: orphans_add_def Let_def intro: le_trans [OF hput_length])
qed

lemma take_out_length: "length (snd (take_out p ids)) + length (o_by_id (fst (take_out p ids))) \<le> length (o_by_id p)"
proof (induction ids arbitrary: p)
  case (Cons i ids)
  obtain p1 r where r: "orphan_remove p i = (p1, r)" by (cases "orphan_remove p i")
  have "r \<noteq> None \<Longrightarrow> length (o_by_id p1) < length (o_by_id p)" "length (o_by_id p1) \<le> length (o_by_id p)"
    using orphan_remove_length [of p i] orphan_remove_le [of p i] r by (auto simp: orphan_remove_def split: option.splits)
  then show ?case using Cons [of p1] r by (auto split: prod.split option.split)
qed simp

lemma take_children_length: "length (snd (take_children p par)) + length (o_by_id (fst (take_children p par))) \<le> length (o_by_id p)"
  using take_out_length [of "p\<lparr>o_by_parent := hdel par (o_by_parent p)\<rparr>"]
  by (auto simp: take_children_def Let_def split: option.split)

section \<open>The invariant\<close>

definition waits_for :: "orphan \<Rightarrow> hash256 set" where
  "waits_for x = (\<lambda>i. op_txid (prev_out i)) ` set (tx_inputs (fst x))"

definition orphan_sizes :: "(hash256, orphan) hmap \<Rightarrow> nat" where
  "orphan_sizes es = sum_list (map (\<lambda>(_, x). snd (snd (snd x))) es)"

text \<open>\<open>linked_but p q\<close>: the index of parents is exact, but for the parent \<open>q\<close>, whose line is gone.\<close>

definition linked_but :: "orphan_pool \<Rightarrow> hash256 option \<Rightarrow> bool" where
  "linked_but p q \<longleftrightarrow> (\<forall>par. set (kids (o_by_parent p) par) =
      (if Some par = q then {} else {i. \<exists>x. hget (o_by_id p) i = Some x \<and> par \<in> waits_for x}))"

definition orphans_core :: "orphan_pool \<Rightarrow> hash256 option \<Rightarrow> bool" where
  "orphans_core p q \<longleftrightarrow> hwf (o_by_id p) \<and> linked_but p q \<and> o_bytes p = orphan_sizes (o_by_id p) \<and>
     (\<forall>i t peer at sz. hget (o_by_id p) i = Some (t, peer, at, sz) \<longrightarrow> txid t = i \<and> sz = length (tx_encode t) \<and> sz \<le> MAX_ORPHAN_SIZE)"

definition orphans_ok :: "orphan_pool \<Rightarrow> bool" where
  "orphans_ok p \<longleftrightarrow> orphans_core p None \<and> length (o_by_id p) \<le> MAX_ORPHANS \<and> o_bytes p \<le> MAX_ORPHAN_BYTES"

lemma orphans_new_ok: "orphans_ok orphans_new"
  by (simp add: orphans_ok_def orphans_core_def linked_but_def orphans_new_def orphan_sizes_def kids_def)

lemma orphan_sizes_del: "hwf es \<Longrightarrow> hget es i = Some (t, peer, at, sz) \<Longrightarrow> orphan_sizes (hdel i es) + sz = orphan_sizes es"
  using hm.sum_del [of es "\<lambda>_ x. snd (snd (snd x))" i] by (simp add: orphan_sizes_def)

lemma orphan_sizes_put: "hwf es \<Longrightarrow> hget es i = None \<Longrightarrow> orphan_sizes (hput i (t, peer, at, sz) es) = orphan_sizes es + sz"
  using hm.sum_put [of es "\<lambda>_ x. snd (snd (snd x))" i "(t, peer, at, sz)"] by (simp add: orphan_sizes_def)

lemma forget_parent_kids:
  "set (kids (forget_parent tid bp inp) par) = (if par = op_txid (prev_out inp) then set (kids bp par) - {tid} else set (kids bp par))"
  by (auto simp: forget_parent_def kids_def Let_def filter_empty_conv split: option.splits)

lemma forget_parents_kids:
  "set (kids (foldl (forget_parent tid) bp ins) par) =
   (if par \<in> (\<lambda>i. op_txid (prev_out i)) ` set ins then set (kids bp par) - {tid} else set (kids bp par))"
  by (induction ins arbitrary: bp) (auto simp: forget_parent_kids)

lemma orphan_remove_fields:
  assumes "hget (o_by_id p) i = Some (t, peer, at, sz)"
  shows "o_by_id (fst (orphan_remove p i)) = hdel i (o_by_id p)" "o_bytes (fst (orphan_remove p i)) = o_bytes p - sz"
    "o_by_parent (fst (orphan_remove p i)) = foldl (forget_parent i) (o_by_parent p) (tx_inputs t)"
  using assms by (simp_all add: orphan_remove_def)

lemma orphan_remove_exact:
  assumes "orphans_core p q" "hget (o_by_id p) i = Some (t, peer, at, sz)"
  shows "sub64 (o_bytes p) sz = Ok (o_bytes (fst (orphan_remove p i)))"
  using assms orphan_sizes_del [of "o_by_id p" i t peer at sz] by (simp add: orphans_core_def orphan_remove_fields)

lemma orphan_remove_core:
  assumes "orphans_core p q"
  shows "orphans_core (fst (orphan_remove p i)) q"
proof (cases "hget (o_by_id p) i")
  case (Some x)
  obtain t peer at sz where x: "x = (t, peer, at, sz)" by (cases x)
  note f = orphan_remove_fields [OF Some [unfolded x]]
  have wf: "hwf (o_by_id p)" and bytes: "o_bytes p = orphan_sizes (o_by_id p)" using assms by (simp_all add: orphans_core_def)
  have l: "set (kids (o_by_parent p) par) = (if Some par = q then {} else {i. \<exists>x. hget (o_by_id p) i = Some x \<and> par \<in> waits_for x})" for par
    using assms by (simp add: orphans_core_def linked_but_def)
  have "linked_but (fst (orphan_remove p i)) q"
    unfolding linked_but_def f forget_parents_kids l using Some x by (auto simp: waits_for_def)
  moreover have "o_bytes (fst (orphan_remove p i)) = orphan_sizes (o_by_id (fst (orphan_remove p i)))"
    unfolding f(1,2) bytes using orphan_sizes_del [OF wf Some [unfolded x]] by simp
  ultimately show ?thesis using assms wf unfolding orphans_core_def f(1) by (auto split: if_splits)
qed (use assms in \<open>simp add: orphan_remove_def\<close>)

lemma orphan_remove_get: "hget (o_by_id (fst (orphan_remove p i))) k = (if k = i then None else hget (o_by_id p) k)"
  by (auto simp: orphan_remove_def split: option.split)

lemma orphan_remove_bytes: "o_bytes (fst (orphan_remove p i)) \<le> o_bytes p"
  by (auto simp: orphan_remove_def split: option.split)

lemma orphan_remove_ok: "orphans_ok p \<Longrightarrow> orphans_ok (fst (orphan_remove p i))"
  unfolding orphans_ok_def using orphan_remove_core orphan_remove_le orphan_remove_bytes le_trans by blast

lemma orphan_remove_all_ok:
  "orphans_ok p \<Longrightarrow> orphans_ok (orphan_remove_all p ids) \<and>
   (\<forall>k. hget (o_by_id (orphan_remove_all p ids)) k = (if k \<in> set ids then None else hget (o_by_id p) k))"
proof (induction ids arbitrary: p)
  case (Cons i ids)
  have e: "orphan_remove_all p (i # ids) = orphan_remove_all (fst (orphan_remove p i)) ids" by (simp add: orphan_remove_all_def)
  show ?case unfolding e using Cons.IH [OF orphan_remove_ok [OF Cons.prems, of i]] by (auto simp: orphan_remove_get)
qed (simp add: orphan_remove_all_def)

lemma shed_ok:
  "orphans_ok p \<Longrightarrow> orphans_ok (shed p sz) \<and> (o_by_id (shed p sz) = [] \<or>
     length (o_by_id (shed p sz)) < MAX_ORPHANS \<and> o_bytes (shed p sz) + sz \<le> MAX_ORPHAN_BYTES) \<and>
   (\<forall>k x. hget (o_by_id (shed p sz)) k = Some x \<longrightarrow> hget (o_by_id p) k = Some x)"
proof (induction p sz rule: shed.induct)
  case (1 p sz)
  show ?case
  proof (cases "o_by_id p \<noteq> [] \<and> (length (o_by_id p) \<ge> MAX_ORPHANS \<or> o_bytes p + sz > MAX_ORPHAN_BYTES)")
    case True
    then have e: "shed p sz = shed (fst (orphan_remove p (oldest p))) sz" by (subst shed.simps) simp
    show ?thesis unfolding e using "1.IH" [OF True orphan_remove_ok [OF "1.prems"]] unfolding orphan_remove_get by (metis option.distinct(1))
  next
    case False
    then have e: "shed p sz = p" by (subst shed.simps) (rule if_not_P)
    show ?thesis unfolding e using "1.prems" False by (auto simp: not_le not_less)
  qed
qed

lemma note_parents_kids:
  "set (kids (foldl (note_parent tid) bp ps) par) = set (kids bp par) \<union> (if par \<in> set ps then {tid} else {})"
  by (induction ps arbitrary: bp) (auto simp: note_parent_def)

lemma orphans_add_ok:
  assumes ok: "orphans_ok p"
  shows "orphans_ok (fst (orphans_add p t peer now))"
    "snd (orphans_add p t peer now) \<Longrightarrow> hget (o_by_id (fst (orphans_add p t peer now))) (txid t) = Some (t, peer, now, length (tx_encode t))"
proof -
  let ?sz = "length (tx_encode t)" and ?p1 = "shed (orphans_expire p now) (length (tx_encode t))"
  have "orphans_ok (fst (orphans_add p t peer now)) \<and> (snd (orphans_add p t peer now) \<longrightarrow>
      hget (o_by_id (fst (orphans_add p t peer now))) (txid t) = Some (t, peer, now, ?sz))"
  proof (cases "?sz > MAX_ORPHAN_SIZE \<or> orphans_contains p (txid t)")
    case True
    then show ?thesis using ok by (simp add: orphans_add_def)
  next
    case False
    have x: "orphans_ok (orphans_expire p now)" "\<And>k. hget (o_by_id (orphans_expire p now)) k \<noteq> None \<Longrightarrow> hget (o_by_id p) k \<noteq> None"
      using orphan_remove_all_ok [OF ok] by (auto simp: orphans_expire_def split: if_splits)
    note s = shed_ok [OF x(1), of ?sz]
    have none: "hget (o_by_id ?p1) (txid t) = None" using s x(2) [of "txid t"] False by (cases "hget (o_by_id ?p1) (txid t)") (auto simp: orphans_contains_def)
    have c: "hwf (o_by_id ?p1)" "linked_but ?p1 None" "o_bytes ?p1 = orphan_sizes (o_by_id ?p1)"
      "\<And>i t peer at sz. hget (o_by_id ?p1) i = Some (t, peer, at, sz) \<Longrightarrow> txid t = i \<and> sz = length (tx_encode t) \<and> sz \<le> MAX_ORPHAN_SIZE"
      using s by (auto simp: orphans_ok_def orphans_core_def)
    let ?ps = "remdups_adj (sort (map (\<lambda>i. op_txid (prev_out i)) (tx_inputs t)))"
    let ?p2 = "?p1\<lparr>o_by_parent := foldl (note_parent (txid t)) (o_by_parent ?p1) ?ps, o_bytes := o_bytes ?p1 + ?sz,
        o_by_id := hput (txid t) (t, peer, now, ?sz) (o_by_id ?p1)\<rparr>"
    have add: "orphans_add p t peer now = (?p2, True)" using False by (simp add: orphans_add_def Let_def)
    have "linked_but ?p2 None"
      using c(2) none by (auto simp: linked_but_def note_parents_kids waits_for_def)
    moreover have "o_bytes ?p2 = orphan_sizes (o_by_id ?p2)" using orphan_sizes_put [OF c(1) none] c(3) by simp
    moreover have "length (o_by_id ?p2) \<le> MAX_ORPHANS \<and> o_bytes ?p2 \<le> MAX_ORPHAN_BYTES"
    proof -
      have l: "length (o_by_id ?p2) \<le> Suc (length (o_by_id ?p1))" using hput_length by simp
      have "?sz \<le> MAX_ORPHAN_BYTES" "0 < MAX_ORPHANS" using False by (simp_all add: MAX_ORPHAN_SIZE_def MAX_ORPHAN_BYTES_def MAX_ORPHANS_def)
      then show ?thesis using s l c(3) by (auto simp: orphan_sizes_def)
    qed
    ultimately have "orphans_ok ?p2" using c(1,4) False by (auto simp: orphans_ok_def orphans_core_def)
    then show ?thesis unfolding add by simp
  qed
  then show "orphans_ok (fst (orphans_add p t peer now))"
    "snd (orphans_add p t peer now) \<Longrightarrow> hget (o_by_id (fst (orphans_add p t peer now))) (txid t) = Some (t, peer, now, ?sz)" by blast+
qed

section \<open>Taking the children of a parent\<close>

lemma take_out_ok:
  "orphans_core p q \<Longrightarrow> distinct ids \<Longrightarrow> take_out p ids = (p', ts) \<Longrightarrow> orphans_core p' q \<and>
   (\<forall>k. hget (o_by_id p') k = (if k \<in> set ids then None else hget (o_by_id p) k)) \<and>
   set ts = {(t, peer). \<exists>i \<in> set ids. \<exists>at sz. hget (o_by_id p) i = Some (t, peer, at, sz)} \<and>
   o_bytes p' \<le> o_bytes p \<and> length (o_by_id p') \<le> length (o_by_id p)"
proof (induction ids arbitrary: p ts)
  case (Cons i ids)
  obtain p1 r ts1 where r: "orphan_remove p i = (p1, r)" "take_out p1 ids = (p', ts1)" "ts = (case r of Some x \<Rightarrow> x # ts1 | None \<Rightarrow> ts1)"
    using Cons.prems(3) by (auto split: prod.splits)
  have p1: "p1 = fst (orphan_remove p i)" using r(1) by simp
  have c: "orphans_core p1 q" unfolding p1 by (rule orphan_remove_core [OF Cons.prems(1)])
  have g: "hget (o_by_id p1) k = (if k = i then None else hget (o_by_id p) k)" for k unfolding p1 by (rule orphan_remove_get)
  note ih = Cons.IH [OF c _ r(2)]
  have "set ts1 = {(t, peer). \<exists>k \<in> set ids. \<exists>at sz. hget (o_by_id p) k = Some (t, peer, at, sz)}"
    using ih Cons.prems(2) g by (fastforce split: if_splits)
  moreover have "set ts = set ts1 \<union> {(t, peer). \<exists>at sz. hget (o_by_id p) i = Some (t, peer, at, sz)}"
    using r(1,3) by (auto simp: orphan_remove_def split: option.splits)
  ultimately have "set ts = {(t, peer). \<exists>k \<in> set (i # ids). \<exists>at sz. hget (o_by_id p) k = Some (t, peer, at, sz)}" by auto
  moreover have "o_bytes p1 \<le> o_bytes p" "length (o_by_id p1) \<le> length (o_by_id p)"
    unfolding p1 by (rule orphan_remove_bytes, rule orphan_remove_le)
  ultimately show ?case using ih Cons.prems(2) g by auto
qed auto

lemma taken_ids:
  "set (map snd (remdups_adj (sort (List.map_filter (\<lambda>i. map_option (\<lambda>(_, _, at, _). (at, i)) (hget es i)) ids)))) =
   {i \<in> set ids. hget es i \<noteq> None}" (is "set (map snd (remdups_adj (sort ?xs))) = _")
proof -
  have "snd ` set ?xs = {i \<in> set ids. hget es i \<noteq> None}" by (force simp: List.map_filter_def image_iff)
  then show ?thesis by simp
qed

lemma distinct_remdups_adj: "sorted xs \<Longrightarrow> distinct (remdups_adj xs)"
  by (induction xs rule: remdups_adj.induct) (auto simp: order.order_iff_strict)

lemma taken_distinct:
  fixes es :: "(hash256, orphan) hmap"
  shows "distinct (map snd (remdups_adj (sort (List.map_filter (\<lambda>i. map_option (\<lambda>(_, _, at, _). (at, i)) (hget es i)) ids))))"
    (is "distinct (map snd ?ys)")
proof -
  have "inj_on snd (set ?ys)" by (auto simp: inj_on_def List.map_filter_def)
  moreover have "distinct ?ys" by (rule distinct_remdups_adj) simp
  ultimately show ?thesis by (simp add: distinct_map)
qed

lemma take_children_ok:
  assumes ok: "orphans_ok p" and t: "take_children p par = (p', ts)"
  shows "orphans_ok p' \<and>
    (\<forall>k. hget (o_by_id p') k = (case hget (o_by_id p) k of Some x \<Rightarrow> if par \<in> waits_for x then None else Some x | None \<Rightarrow> None)) \<and>
    set ts = {(t, peer). \<exists>i at sz. hget (o_by_id p) i = Some (t, peer, at, sz) \<and> par \<in> waits_for (t, peer, at, sz)}"
proof -
  have l: "set (kids (o_by_parent p) par') = {i. \<exists>x. hget (o_by_id p) i = Some x \<and> par' \<in> waits_for x}" for par'
    using ok by (simp add: orphans_ok_def orphans_core_def linked_but_def)
  show ?thesis
  proof (cases "hget (o_by_parent p) par")
    case None
    then have n: "hget (o_by_id p) i = Some x \<Longrightarrow> par \<notin> waits_for x" for i x using l [of par] by (simp add: kids_def del: split_paired_All split_paired_Ex)
    then have "(case hget (o_by_id p) k of Some x \<Rightarrow> if par \<in> waits_for x then None else Some x | None \<Rightarrow> None) = hget (o_by_id p) k" for k
      by (auto split: option.split)
    then show ?thesis using ok t None n by (auto simp: take_children_def)
  next
    case (Some ids)
    define p1 where "p1 = p\<lparr>o_by_parent := hdel par (o_by_parent p)\<rparr>"
    define out where "out = map snd (remdups_adj (sort (List.map_filter (\<lambda>i. map_option (\<lambda>(_, _, at, _). (at, i)) (hget (o_by_id p1) i)) ids)))"
    have t1: "take_out p1 out = (p', ts)" using t Some by (simp add: take_children_def p1_def out_def Let_def)
    have c: "orphans_core p1 (Some par)" using ok by (auto simp: orphans_ok_def orphans_core_def linked_but_def p1_def)
    have ids: "set ids = {i. \<exists>x. hget (o_by_id p) i = Some x \<and> par \<in> waits_for x}" using l [of par] Some by (simp add: kids_def)
    have out: "set out = {i. \<exists>x. hget (o_by_id p) i = Some x \<and> par \<in> waits_for x}"
      unfolding out_def taken_ids by (auto simp: ids p1_def)
    have "distinct out" unfolding out_def by (rule taken_distinct)
    note x = take_out_ok [OF c this t1]
    have g: "hget (o_by_id p') k = (case hget (o_by_id p) k of Some x \<Rightarrow> if par \<in> waits_for x then None else Some x | None \<Rightarrow> None)" for k
      using x by (auto simp: out p1_def split: option.split)
    have "orphans_core p' None"
    proof -
      have "linked_but p' (Some par)" using x by (simp add: orphans_core_def)
      then have "linked_but p' None" unfolding linked_but_def g by (auto split: option.splits if_splits)
      then show ?thesis using x by (simp add: orphans_core_def)
    qed
    moreover have "length (o_by_id p') \<le> MAX_ORPHANS" "o_bytes p' \<le> MAX_ORPHAN_BYTES"
      using x ok by (auto simp: orphans_ok_def p1_def)
    moreover have "set ts = {(t, peer). \<exists>i at sz. hget (o_by_id p) i = Some (t, peer, at, sz) \<and> par \<in> waits_for (t, peer, at, sz)}"
      using x unfolding out by (fastforce simp: p1_def)
    ultimately show ?thesis using g by (simp add: orphans_ok_def)
  qed
qed

end
