(* ===== verification/PoolFlow.thy ===== *)
theory PoolFlow
  imports Orphans
begin

text \<open>
  What the node does with its two pools: the orphans tried again when their parent arrives (\<open>adopt_orphans\<close> of
  \<open>src/src/net.rs\<close>) and the steps after the chain accepts a block (the pool part of \<open>integrate\<close>). The pools keep
  their invariants through both, no read of the pool panics, and both end.
\<close>

section \<open>Adoption of orphans\<close>

text \<open>\<open>adopt_children\<close> is the loop over the children of one parent: the queue has its top first. The clock is
  read once per transaction put back; one instant stands for them all. The announcements to the peers are not part
  of this state.\<close>

fun adopt_children ::
  "mldsa_lib \<Rightarrow> utxo_set \<Rightarrow> network \<Rightarrow> nat \<Rightarrow> nat \<Rightarrow> mempool \<Rightarrow> orphan_pool \<Rightarrow> hash256 list \<Rightarrow> (transaction \<times> nat) list
   \<Rightarrow> (mempool \<times> orphan_pool \<times> hash256 list, unit) result" where
  "adopt_children mldsa s net height now m p queue [] = Ok (m, p, queue)"
| "adopt_children mldsa s net height now m p queue ((t, from_peer) # ts) =
     (case accept mldsa m t s net height of (m', r) \<Rightarrow>
      (case r of
         Ok i \<Rightarrow> adopt_children mldsa s net height now m' p (i # queue) ts
       | Err e \<Rightarrow>
           adopt_children mldsa s net height now m'
             (case e of UnconfirmedDependency _ \<Rightarrow> fst (orphans_add p t from_peer now) | _ \<Rightarrow> p) queue ts
       | Panic \<Rightarrow> Panic))"

lemma adopt_children_length:
  "adopt_children mldsa s net height now m p queue ts = Ok (m', p', queue') \<Longrightarrow>
   length queue' + length (o_by_id p') \<le> length queue + length (o_by_id p) + length ts \<and> length queue \<le> length queue'"
proof (induction ts arbitrary: m p queue)
  case (Cons x ts)
  obtain t fp where x: "x = (t, fp)" by (cases x)
  obtain m1 r where a: "accept mldsa m t s net height = (m1, r)" by (cases "accept mldsa m t s net height")
  show ?case
  proof (cases r)
    case (Ok i)
    then show ?thesis using Cons.IH [of m1 p "i # queue"] Cons.prems a x by simp
  next
    case (Err e)
    let ?p = "case e of UnconfirmedDependency _ \<Rightarrow> fst (orphans_add p t fp now) | _ \<Rightarrow> p"
    have "length (o_by_id ?p) \<le> Suc (length (o_by_id p))" using orphans_add_le [of p t fp now] by (simp split: MempoolError.split)
    moreover have "length queue' + length (o_by_id p') \<le> length queue + length (o_by_id ?p) + length ts \<and> length queue \<le> length queue'"
      using Cons.IH [of m1 ?p queue] Cons.prems a x Err by simp
    ultimately show ?thesis by simp
  qed (use Cons.prems a x in simp)
qed simp

function adopt_loop ::
  "mldsa_lib \<Rightarrow> utxo_set \<Rightarrow> network \<Rightarrow> nat \<Rightarrow> nat \<Rightarrow> mempool \<Rightarrow> orphan_pool \<Rightarrow> hash256 list \<Rightarrow> (mempool \<times> orphan_pool, unit) result" where
  "adopt_loop mldsa s net height now m p [] = Ok (m, p)"
| "adopt_loop mldsa s net height now m p (q # queue) =
     (case take_children p q of (p1, ts) \<Rightarrow>
      (case adopt_children mldsa s net height now m p1 queue ts of
         Ok (m', p', queue') \<Rightarrow> adopt_loop mldsa s net height now m' p' queue'
       | _ \<Rightarrow> Panic))"
  by pat_completeness auto
termination
proof (relation "measure (\<lambda>(mldsa, s, net, height, now, m, p, queue). 2 * length (o_by_id p) + length queue)")
  fix mldsa :: mldsa_lib and s :: utxo_set and net :: network and height now :: nat and m m' :: mempool and p p1 p' :: orphan_pool
    and q :: hash256 and queue queue' :: "hash256 list" and ts y z
  assume a: "(p1, ts) = take_children p q" "adopt_children mldsa s net height now m p1 queue ts = Ok y"
    "(m', z) = y" "(p', queue') = z"
  have "length ts + length (o_by_id p1) \<le> length (o_by_id p)" using take_children_length [of p q] a(1) [symmetric] by simp
  moreover have "length queue' + length (o_by_id p') \<le> length queue + length (o_by_id p1) + length ts \<and> length queue \<le> length queue'"
    using adopt_children_length [of mldsa s net height now m p1 queue ts m' p' queue'] a(2-4) by simp
  ultimately show "((mldsa, s, net, height, now, m', p', queue'), (mldsa, s, net, height, now, m, p, q # queue))
      \<in> measure (\<lambda>(mldsa, s, net, height, now, m, p, queue). 2 * length (o_by_id p) + length queue)" by simp
qed simp

definition adopt_orphans ::
  "mldsa_lib \<Rightarrow> utxo_set \<Rightarrow> network \<Rightarrow> nat \<Rightarrow> nat \<Rightarrow> mempool \<Rightarrow> orphan_pool \<Rightarrow> hash256 \<Rightarrow> (mempool \<times> orphan_pool, unit) result" where
  "adopt_orphans mldsa s net height now m p parent =
     (if o_by_id p = [] then Ok (m, p) else adopt_loop mldsa s net height now m p [parent])"

section \<open>After a block\<close>

fun adopt_after :: "mldsa_lib \<Rightarrow> utxo_set \<Rightarrow> network \<Rightarrow> nat \<Rightarrow> nat \<Rightarrow> mempool \<Rightarrow> orphan_pool \<Rightarrow> transaction list
  \<Rightarrow> (mempool \<times> orphan_pool, unit) result" where
  "adopt_after mldsa s net height now m p [] = Ok (m, p)"
| "adopt_after mldsa s net height now m p (t # ts) =
     rbind (adopt_orphans mldsa s net height now m p (txid t)) (\<lambda>(m, p). adopt_after mldsa s net height now m p ts)"

text \<open>\<open>s\<close>, \<open>height\<close> and \<open>abandoned\<close> are those of the chain after it accepted \<open>b\<close>.\<close>

definition settle_block ::
  "mldsa_lib \<Rightarrow> utxo_set \<Rightarrow> network \<Rightarrow> nat \<Rightarrow> nat \<Rightarrow> mempool \<Rightarrow> orphan_pool \<Rightarrow> block \<Rightarrow> block list
   \<Rightarrow> (mempool \<times> orphan_pool, unit) result" where
  "settle_block mldsa s net height now m p b abandoned =
     (let m1 = on_block_connected m b
      in rbind (if abandoned \<noteq> [] then rbind (return_abandoned mldsa m1 abandoned s net height) (\<lambda>(m, _). Ok m) else Ok m1) (\<lambda>m2.
           adopt_after mldsa s net height now (revalidate m2 s net height) p (blk_transactions b)))"

section \<open>No read of the pool panics\<close>

lemma package_totals_no_panic: "(\<And>i. i \<in> set ids \<Longrightarrow> hget (p_entries m) i \<noteq> None) \<Longrightarrow> package_totals m (f, w) ids \<noteq> Panic"
  by (induction ids arbitrary: f w) (auto simp: rbind_Panic_iff)

lemma room_packages_no_panic:
  assumes ok: "pool_ok m"
  shows "(\<And>r a i. (r, a, i) \<in> set cs \<Longrightarrow> hget (p_entries m) i \<noteq> None) \<Longrightarrow> room_packages m rate pri cs \<noteq> Panic"
proof (induction cs)
  case (Cons c cs)
  obtain r a i where c: "c = (r, a, i)" by (cases c)
  have ih: "room_packages m rate pri cs \<noteq> Panic" by (rule Cons.IH) (use Cons.prems in \<open>metis list.set_intros(2)\<close>)
  have i: "hget (p_entries m) i \<noteq> None" using Cons.prems [of r a i] by (simp add: c)
  show ?case
  proof (cases "descendant_package m i")
    case (Some ms)
    have "hget (p_entries m) k \<noteq> None" if "k \<in> set ms" for k
      using descendant_package_spec(1) [OF ok Some] that reach_entries [OF i] by blast
    then have "package_totals m (0, 0) ms \<noteq> Panic" by (rule package_totals_no_panic)
    then show ?thesis using ih Some c by (auto simp: rbind_Panic_iff Let_def split: prod.splits)
  qed (use ih c in simp)
qed simp

lemma take_members_no_panic:
  "(\<And>i. i \<in> set ids \<Longrightarrow> hget (p_entries m) i \<noteq> None) \<Longrightarrow> take_members m taken freed added ids \<noteq> Panic"
  by (induction ids arbitrary: taken freed added) (auto simp: rbind_Panic_iff)

lemma take_packages_no_panic:
  "(\<And>r i ms k. (r, i, ms) \<in> set ps \<Longrightarrow> k \<in> set ms \<Longrightarrow> hget (p_entries m) k \<noteq> None) \<Longrightarrow> take_packages m need taken freed outs ps \<noteq> Panic"
proof (induction ps arbitrary: taken freed outs)
  case (Cons x ps)
  obtain r i ms where x: "x = (r, i, ms)" by (cases x)
  have "take_members m taken freed False ms \<noteq> Panic" by (rule take_members_no_panic) (use Cons.prems [of r i ms] x in simp)
  moreover have "take_packages m need taken freed outs ps \<noteq> Panic" for taken freed outs by (rule Cons.IH) (use Cons.prems in \<open>metis list.set_intros(2)\<close>)
  ultimately show ?case by (auto simp: x rbind_Panic_iff split: prod.splits)
qed simp

lemma room_for_no_panic:
  assumes ok: "pool_ok m"
  shows "room_for m rate sz prot pri \<noteq> Panic"
proof -
  have wf: "hwf (p_entries m)" and ev: "evictable_ok m" using ok by (simp_all add: pool_ok_def maps_ok_def)
  have "room_leaves m rate prot pri need 0 [] (p_evictable m) \<noteq> Panic" for need
    by (rule room_leaves_no_panic) (use evictable_ids(2) [OF ev] in fastforce)
  moreover have "room_packages m rate pri (room_candidates m rate prot pri) \<noteq> Panic"
    by (rule room_packages_no_panic [OF ok]) (rule room_candidates_set(2) [OF _ wf])
  moreover have "take_packages m need taken freed outs (sort_key (\<lambda>(r, i, _). (r, i)) ps) \<noteq> Panic"
    if p: "room_packages m rate pri (room_candidates m rate prot pri) = Ok ps" for need taken freed outs ps
  proof (rule take_packages_no_panic)
    fix r i ms k assume m: "(r, i, ms) \<in> set (sort_key (\<lambda>(r, i, _). (r, i)) ps)" "k \<in> set ms"
    have d: "descendant_package m i = Some ms" "i \<in> (\<lambda>(_, _, i). i) ` set (room_candidates m rate prot pri)"
      using room_packages_spec [OF p] m(1) by simp_all
    have "hget (p_entries m) i \<noteq> None" using d(2) room_candidates_set(2) [OF _ wf] by fastforce
    then show "hget (p_entries m) k \<noteq> None" using descendant_package_spec(1) [OF ok d(1)] m(2) reach_entries by blast
  qed
  ultimately show ?thesis by (auto simp: room_for_def Let_def rbind_Panic_iff)
qed

lemma room_for_no_error: "room_for m rate sz prot pri \<noteq> Err u"
proof -
  have e: "entry_of m i \<noteq> Err u" for i u by (simp add: entry_of_def split: option.split)
  have l: "room_leaves m rate prot pri need freed outs es \<noteq> Err u" for need freed outs es u
    by (induction es arbitrary: freed outs) (auto simp: rbind_Err_iff e split: if_splits)
  have t: "package_totals m fw ids \<noteq> Err u" for fw ids u by (induction m fw ids rule: package_totals.induct) (auto simp: rbind_Err_iff entry_of_def split: option.splits)
  have p: "room_packages m rate pri cs \<noteq> Err u" for cs u
    by (induction cs) (auto simp: rbind_Err_iff t Let_def split: option.splits prod.splits)
  have k: "take_members m taken freed added ids \<noteq> Err u" for taken freed added ids u
    by (induction ids arbitrary: taken freed added) (auto simp: rbind_Err_iff e split: if_splits)
  have "take_packages m need taken freed outs ps \<noteq> Err u" for need taken freed outs ps u
    by (induction ps arbitrary: taken freed outs) (auto simp: rbind_Err_iff k split: prod.splits if_splits)
  then show ?thesis by (auto simp: room_for_def Let_def rbind_Err_iff l p split: if_splits)
qed

definition low_pool :: "mempool \<Rightarrow> bool" where
  "low_pool m \<longleftrightarrow> (\<forall>op e. hget (p_created m) op = Some e \<longrightarrow> ue_height e + COINBASE_MATURITY < 2 ^ 64)"

definition low_set :: "utxo_set \<Rightarrow> bool" where
  "low_set s \<longleftrightarrow> (\<forall>op e. utxo_get s op = Some e \<longrightarrow> ue_height e + COINBASE_MATURITY < 2 ^ 64)"

lemma find_parents_no_panic: "find_parents m s tid ins \<noteq> Panic"
  by (induction ins) (auto simp: rbind_Panic_iff)

lemma apparent_fees_no_panic: "apparent_fees t view \<noteq> Panic"
proof -
  have "input_sum view acc ins \<noteq> Panic" for acc ins by (induction ins arbitrary: acc) (auto simp: rbind_Panic_iff)
  then show ?thesis by (auto simp: apparent_fees_def rbind_Panic_iff total_output_def)
qed

lemma unconfirmed_lock_no_panic: "unconfirmed_relative_lock created height ins \<noteq> Panic"
  by (induction ins) (auto split: option.split)

lemma accept_no_panic:
  assumes ok: "pool_ok m" and low: "low_pool m" "low_set s"
  shows "snd (accept_with mldsa m t s net height is_local is_returned) \<noteq> Panic"
proof -
  have view: "low_heights (pool_view m s)"
    using low by (auto simp: low_heights_def pool_view_def pool_lookup_def low_pool_def low_set_def split: option.splits if_splits)
  have pre: "pre_accept m t s is_returned \<noteq> Panic"
    using room_for_no_panic [OF ok] room_for_no_error [of m]
    by (auto simp: pre_accept_def Let_def rbind_Panic_iff find_parents_no_panic apparent_fees_no_panic split: result.splits option.splits)
  have room: "make_room m rate sz prot pri \<noteq> Panic" for rate sz prot pri
    using room_for_no_panic [OF ok] by (auto simp: make_room_def Let_def rbind_Panic_iff split: option.splits)
  have err: "make_room m rate sz prot pri \<noteq> Err u" for rate sz prot pri u
    using room_for_no_error [of m] by (auto simp: make_room_def Let_def rbind_Err_iff split: option.splits)
  show ?thesis
  proof
    assume "snd (accept_with mldsa m t s net height is_local is_returned) = Panic"
    then show False using pre room err unconfirmed_lock_no_panic check_transaction_no_panic [OF view]
      by (fastforce simp: accept_with_def andthen_def Let_def split: result.splits prod.splits if_splits bool.splits)
  qed
qed

section \<open>The flow keeps both pools\<close>

text \<open>Removals only shrink the outputs created by the pool.\<close>

lemma remove_one_low: "low_pool m \<Longrightarrow> low_pool (fst (remove_one m i))"
proof (cases "hget (p_entries m) i")
  case (Some e)
  assume "low_pool m"
  then show ?thesis unfolding low_pool_def remove_one_fields(6) [OF Some] by (auto split: if_splits)
qed (simp add: remove_one_def)

lemma same_created_low: "low_pool m \<Longrightarrow> p_created m' = p_created m \<Longrightarrow> low_pool m'"
  by (simp add: low_pool_def)

lemma pool_remove_low: "low_pool m \<Longrightarrow> low_pool (fst (pool_remove m i))"
proof -
  have "low_pool m \<Longrightarrow> low_pool (foldl (\<lambda>m j. fst (remove_one m j)) m js)" for m js
    by (induction js arbitrary: m) (simp_all add: remove_one_low)
  then show "low_pool m \<Longrightarrow> low_pool (fst (pool_remove m i))" unfolding pool_remove_fold .
qed

lemma remove_all_low: "low_pool m \<Longrightarrow> low_pool (remove_all_of m ids)"
  by (induction ids arbitrary: m) (simp_all add: remove_all_of_def pool_remove_low)

lemma note_confirmed_created [simp]: "p_created (note_confirmed m i r) = p_created m"
  using note_confirmed_same by (simp add: same_pool_def)

lemma confirm_tx_keeps:
  assumes "pool_ok m" "low_pool m"
  shows "pool_ok (confirm_tx m t)" "low_pool (confirm_tx m t)"
proof -
  obtain m1 r where r: "remove_one m (txid t) = (m1, r)" by (cases "remove_one m (txid t)")
  let ?m2 = "note_confirmed m1 (txid t) r"
  have m1: "m1 = fst (remove_one m (txid t))" using r by simp
  have ok2: "pool_ok ?m2" by (rule same_pool_ok [OF _ note_confirmed_same]) (unfold m1, rule remove_one_ok [OF assms(1)])
  have low2: "low_pool ?m2" by (rule same_created_low [OF remove_one_low [OF assms(2)]]) (simp add: m1)
  have "pool_ok m \<Longrightarrow> low_pool m \<Longrightarrow> pool_ok (foldl drop_conflict m ins) \<and> low_pool (foldl drop_conflict m ins)" for m ins
  proof (induction ins arbitrary: m)
    case (Cons i ins)
    have "pool_ok (drop_conflict m i)" "low_pool (drop_conflict m i)"
      using pool_remove_ok [OF Cons.prems(1)] pool_remove_low [OF Cons.prems(2)] Cons.prems by (simp_all add: drop_conflict_def split: option.split)
    then show ?case using Cons.IH by simp
  qed simp
  from this [OF ok2 low2] show "pool_ok (confirm_tx m t)" "low_pool (confirm_tx m t)" by (simp_all add: confirm_tx_def r)
qed

lemma expire_created [simp]: "p_created (expire_loop m q) = p_created m"
  by (induction m q rule: expire_loop.induct) (auto simp: Let_def add_evictable_def split: option.split)

lemma block_connected_keeps:
  assumes "pool_ok m" "low_pool m"
  shows "pool_ok (on_block_connected m b)" "low_pool (on_block_connected m b)"
proof -
  let ?m1 = "foldl confirm_tx m (blk_transactions b)"
  let ?m2 = "?m1\<lparr>p_blocks_seen := p_blocks_seen ?m1 + 1\<rparr>"
  have "pool_ok m \<Longrightarrow> low_pool m \<Longrightarrow> pool_ok (foldl confirm_tx m ts) \<and> low_pool (foldl confirm_tx m ts)" for m ts
    by (induction ts arbitrary: m) (simp_all add: confirm_tx_keeps)
  then have 1: "pool_ok ?m1" "low_pool ?m1" using assms by blast+
  have ok2: "pool_ok ?m2" by (rule same_pool_ok [OF 1(1)]) (simp add: same_pool_def)
  have o: "on_block_connected m b = expire_loop ?m2 (p_returned_since ?m2)"
    by (simp add: on_block_connected_def end_expired_protection_def Let_def)
  show "pool_ok (on_block_connected m b)" unfolding o using expire_ok [OF ok2] by blast
  show "low_pool (on_block_connected m b)" unfolding o by (rule same_created_low [OF 1(2)]) simp
qed

lemma revalidate_low:
  assumes "low_pool m"
  shows "low_pool (revalidate m s net height)"
proof -
  have l: "low_pool (leave_confirmed m i)" if "low_pool m" for m i
    using remove_one_low [OF that, of i] same_created_low by (auto simp: leave_confirmed_def split: prod.split)
  have f: "low_pool m \<Longrightarrow> low_pool (foldl leave_confirmed m ids)" for m ids by (induction ids arbitrary: m) (simp_all add: l)
  have d: "low_pool m \<Longrightarrow> low_pool (drop_orphans m s height)" for m
  proof (induction m s height rule: drop_orphans.induct)
    case (1 m s height)
    then show ?case using remove_all_low [OF "1.prems"] by (subst drop_orphans.simps) (simp add: Let_def)
  qed
  show ?thesis unfolding revalidate_def Let_def using f [OF assms] by (auto intro!: d remove_all_low)
qed

lemma accept_keeps_ok:
  assumes ok: "pool_ok m" and a: "accept_with mldsa m t s net height is_local is_returned = (m', r)"
  shows "pool_ok m'"
proof (rule accept_with_cases [OF ok a])
  fix outs ps e
  assume "m' = admit (remove_all_of m outs) t height e ps" and fit: "fits (remove_all_of m outs) t ps" and e: "me_tx e = t" "entry_ok (txid t) e"
    and room: "p_bytes (remove_all_of m outs) + me_size e \<le> capacity (remove_all_of m outs)"
  then show ?thesis using admit_ok [OF _ fit e room] remove_all_entries [OF ok] by blast
qed (use ok in simp)

lemma accept_low:
  assumes ok: "pool_ok m" and low: "low_pool m" and h: "height + 1 + COINBASE_MATURITY < 2 ^ 64"
    and a: "accept_with mldsa m t s net height is_local is_returned = (m', r)"
  shows "low_pool m'"
proof (rule accept_with_cases [OF ok a])
  fix outs ps e
  assume m': "m' = admit (remove_all_of m outs) t height e ps"
  show ?thesis using remove_all_low [OF low, of outs] h unfolding low_pool_def m' admit_created
    by (auto simp: bv_create_get dest: created_entry_height split: option.splits)
qed (use low in simp)

text \<open>The state the flow keeps, for a UTXO set and a height.\<close>

definition pools_ok :: "utxo_set \<Rightarrow> mempool \<Rightarrow> orphan_pool \<Rightarrow> bool" where
  "pools_ok s m p \<longleftrightarrow> pool_ok m \<and> low_pool m \<and> funded m (utxo_get s) \<and> orphans_ok p"

definition calm :: "utxo_set \<Rightarrow> nat \<Rightarrow> bool" where
  "calm s height \<longleftrightarrow> low_set s \<and> height + 1 + COINBASE_MATURITY < 2 ^ 64"

lemma accept_pools:
  assumes c: "calm s height" and p: "pools_ok s m p" and a: "accept_with mldsa m t s net height is_local is_returned = (m', r)"
  shows "pools_ok s m' p" "r \<noteq> Panic"
  using accept_ok [OF _ _ a] accept_low [OF _ _ _ a] accept_no_panic [of m s mldsa t net height is_local is_returned] assms
  by (auto simp: pools_ok_def calm_def)

lemma adopt_children_pools:
  assumes c: "calm s height"
  shows "pools_ok s m p \<Longrightarrow> \<exists>m' p' q. adopt_children mldsa s net height now m p queue ts = Ok (m', p', q) \<and> pools_ok s m' p'"
proof (induction ts arbitrary: m p queue)
  case (Cons x ts)
  obtain t fp where x: "x = (t, fp)" by (cases x)
  obtain m1 r where a: "accept mldsa m t s net height = (m1, r)" by (cases "accept mldsa m t s net height")
  note k = accept_pools [OF c Cons.prems a [unfolded accept_def]]
  show ?case
  proof (cases r)
    case (Ok i)
    then show ?thesis using Cons.IH [OF k(1)] a x by simp
  next
    case (Err e)
    let ?p = "case e of UnconfirmedDependency _ \<Rightarrow> fst (orphans_add p t fp now) | _ \<Rightarrow> p"
    have "pools_ok s m1 ?p" using k(1) orphans_add_ok(1) by (simp add: pools_ok_def split: MempoolError.split)
    from Cons.IH [OF this] show ?thesis using a x Err by simp
  qed (use k in simp)
qed simp

lemma adopt_loop_pools:
  "calm s height \<Longrightarrow> pools_ok s m p \<Longrightarrow> \<exists>m' p'. adopt_loop mldsa s net height now m p queue = Ok (m', p') \<and> pools_ok s m' p'"
proof (induction mldsa s net height now m p queue rule: adopt_loop.induct)
  case (2 mldsa s net height now m p q queue)
  obtain p1 ts where t: "take_children p q = (p1, ts)" by (cases "take_children p q")
  have "orphans_ok p1" using take_children_ok [OF _ t] "2.prems"(2) by (simp add: pools_ok_def)
  then have "pools_ok s m p1" using "2.prems"(2) by (simp add: pools_ok_def)
  then obtain m' p' q' where a: "adopt_children mldsa s net height now m p1 queue ts = Ok (m', p', q')" "pools_ok s m' p'"
    using adopt_children_pools [OF "2.prems"(1)] by blast
  from "2.IH" [OF t [symmetric] a(1) refl refl "2.prems"(1) a(2)] show ?case using t a(1) by simp
qed simp

lemma adopt_after_pools:
  assumes c: "calm s height"
  shows "pools_ok s m p \<Longrightarrow> \<exists>m' p'. adopt_after mldsa s net height now m p ts = Ok (m', p') \<and> pools_ok s m' p'"
proof (induction ts arbitrary: m p)
  case (Cons t ts)
  obtain m1 p1 where a: "adopt_orphans mldsa s net height now m p (txid t) = Ok (m1, p1)" "pools_ok s m1 p1"
    using adopt_loop_pools [OF c Cons.prems, of mldsa net now "[txid t]"] Cons.prems unfolding adopt_orphans_def by (metis (full_types))
  then show ?case using Cons.IH [OF a(2)] by simp
qed simp

lemma return_txs_keeps:
  assumes c: "calm s height"
  shows "pool_ok m \<Longrightarrow> low_pool m \<Longrightarrow> \<exists>m' n'. return_txs mldsa s net height m n ts = Ok (m', n') \<and> pool_ok m' \<and> low_pool m'"
proof (induction ts arbitrary: m n)
  case (Cons t ts)
  define m1 where "m1 = m\<lparr>p_local_confirmed := removeAll (txid t) (p_local_confirmed m)\<rparr>"
  have ok1: "pool_ok m1" by (rule same_pool_ok [OF Cons.prems(1)]) (simp add: same_pool_def m1_def)
  have low1: "low_pool m1" by (rule same_created_low [OF Cons.prems(2)]) (simp add: m1_def)
  let ?l = "txid t \<in> set (p_local_confirmed m)"
  obtain m2 r where a: "accept_with mldsa m1 t s net height ?l True = (m2, r)" by (cases "accept_with mldsa m1 t s net height ?l True")
  have "r \<noteq> Panic" using accept_no_panic [OF ok1 low1, of s mldsa t net height ?l True] c a by (simp add: calm_def)
  moreover have "low_pool m2" by (rule accept_low [OF ok1 low1 _ a]) (use c in \<open>simp add: calm_def\<close>)
  moreover have "pool_ok m2" by (rule accept_keeps_ok [OF ok1 a])
  ultimately show ?case using Cons.IH [of m2] a by (cases r) (auto simp: Let_def simp flip: m1_def)
qed simp

lemma available_funded:
  assumes "pool_ok m" "orphans m s height = []"
  shows "funded m (utxo_get s)"
proof -
  have wf: "hwf (p_entries m)" using assms(1) by (simp add: pool_ok_def maps_ok_def)
  have "input_available m s height inp" if "hget (p_entries m) i = Some e" "inp \<in> set (tx_inputs (me_tx e))" for i e inp
    using assms(2) that hm.in_items_iff [OF wf] by (fastforce simp: orphans_def filter_empty_conv list_all_iff)
  then show ?thesis by (fastforce simp: funded_def spent_by_def input_available_def split: option.splits)
qed

text \<open>C30. After the chain accepts a block, whatever the pools were and whether or not it reorganized, the node's
  steps on its two pools end without a panic; the pool then has its invariant and spends only outputs that exist in the
  chain or in the pool, and the orphans are indexed exactly and bounded. The heights stay \<open>COINBASE_MATURITY\<close> below
  \<open>2 ^ 64\<close>.\<close>

theorem settle_block_keeps_pools:
  assumes "pool_ok m" "low_pool m" "orphans_ok p" "low_set s" "height + 1 + COINBASE_MATURITY < 2 ^ 64"
  shows "\<exists>m' p'. settle_block mldsa s net height now m p b abandoned = Ok (m', p') \<and>
    pool_ok m' \<and> funded m' (utxo_get s) \<and> low_pool m' \<and> orphans_ok p'"
proof -
  have c: "calm s height" using assms(4,5) by (simp add: calm_def)
  let ?m1 = "on_block_connected m b"
  note k = block_connected_keeps [OF assms(1,2), of b]
  obtain m2 where m2: "(if abandoned \<noteq> [] then rbind (return_abandoned mldsa ?m1 abandoned s net height) (\<lambda>(m, _). Ok m) else Ok ?m1) = Ok m2"
    "pool_ok m2" "low_pool m2"
  proof (cases "abandoned = []")
    case False
    from return_txs_keeps [OF c k] obtain m' n' where "return_abandoned mldsa ?m1 abandoned s net height = Ok (m', n')" "pool_ok m'" "low_pool m'"
      unfolding return_abandoned_def by blast
    then show ?thesis using that [of m'] False by simp
  qed (use that k in simp)
  let ?m3 = "revalidate m2 s net height"
  have "pools_ok s ?m3 p"
    using revalidate_ok(1) [OF m2(2)] available_funded [OF revalidate_ok(1,3) [OF m2(2)]] revalidate_low [OF m2(3)] assms(3)
    by (simp add: pools_ok_def)
  from adopt_after_pools [OF c this] obtain m' p' where
    "adopt_after mldsa s net height now ?m3 p (blk_transactions b) = Ok (m', p')" "pools_ok s m' p'" by blast
  then show ?thesis using m2(1) unfolding settle_block_def Let_def pools_ok_def by auto
qed

theorem settle_block_keeps_pools_witness:
  "\<exists>m' p'. settle_block (\<lambda>_ _ _ _. False) utxo_new Regtest 1 0 pool_new orphans_new example_block [example_block] = Ok (m', p') \<and>
    pool_ok m' \<and> funded m' (utxo_get utxo_new) \<and> low_pool m' \<and> orphans_ok p'"
  by (rule settle_block_keeps_pools [OF pool_new_ok _ orphans_new_ok])
    (simp_all add: low_pool_def low_set_def pool_new_def utxo_get_new COINBASE_MATURITY_def)

text \<open>Taking the children of a parent out of the orphans returns exactly the orphans that spend one of its
  outputs, with the peers they came from, and leaves exactly the others, indexed and bounded as before.\<close>

theorem take_children_exact:
  assumes "orphans_ok p" "take_children p par = (p', ts)"
  shows "orphans_ok p' \<and>
    (\<forall>k. hget (o_by_id p') k = (case hget (o_by_id p) k of Some x \<Rightarrow> if par \<in> waits_for x then None else Some x | None \<Rightarrow> None)) \<and>
    set ts = {(t, peer). \<exists>i at sz. hget (o_by_id p) i = Some (t, peer, at, sz) \<and> par \<in> waits_for (t, peer, at, sz)}"
  by (rule take_children_ok [OF assms])

theorem take_children_exact_witness: "orphans_ok (fst (take_children orphans_new []))"
  by (rule conjunct1 [OF take_children_exact [OF orphans_new_ok prod.collapse [symmetric]]])

end
