(* ===== verification/Bech32.thy ===== *)
theory Bech32
  imports Sig
begin

text \<open>
  Bech32m (\<open>src/src/bech32.rs\<close>) and the addresses written in it (\<open>src/src/address.rs\<close>): checksum, regrouping of
  bits, encoding and decoding with every error, and the round trips. A string is the list of its bytes.
\<close>

unbundle bit_operations_syntax

section \<open>Constants and errors\<close>

definition CHARSET :: "byte list" where
  "CHARSET = str_bytes ''qpzry9x8gf2tvdw0s3jn54khce6mua7l''"

definition GENERATOR :: "u32 list" where
  "GENERATOR = [0x3b6a57b2, 0x26508e6d, 0x1ea119fa, 0x3d4233dd, 0x2a1462b3]"

definition BECH32M_CONST :: u32 where
  "BECH32M_CONST = 0x2bc830a3"

datatype Bech32Error = InvalidHrp | InvalidChar | MixedCase | InvalidChecksum | TooShort | TooLong | MissingSeparator | InvalidPadding

section \<open>Checksum\<close>

definition gen_step :: "u32 \<Rightarrow> u32 \<Rightarrow> nat \<times> u32 \<Rightarrow> u32" where
  "gen_step b chk ig = (if drop_bit (fst ig) b AND 1 = 1 then chk XOR snd ig else chk)"

definition polymod_step :: "u32 \<Rightarrow> byte \<Rightarrow> u32" where
  "polymod_step chk v = foldl (gen_step (drop_bit 25 chk)) (push_bit 5 (chk AND 0x1ffffff) XOR ucast v) (enumerate 0 GENERATOR)"

definition polymod :: "byte list \<Rightarrow> u32" where
  "polymod values = foldl polymod_step 1 values"

definition hrp_expand :: "byte list \<Rightarrow> byte list" where
  "hrp_expand h = map (drop_bit 5) h @ [0] @ map (\<lambda>c. c AND 31) h"

section \<open>Regrouping bits\<close>

text \<open>The inner loop: it ends because \<open>to\<close> is positive in both uses.\<close>

function emit :: "u32 \<Rightarrow> nat \<Rightarrow> nat \<Rightarrow> byte list \<Rightarrow> nat \<times> byte list" where
  "emit acc bits to_bits out =
     (if bits \<ge> to_bits \<and> 0 < to_bits
      then emit acc (bits - to_bits) to_bits (out @ [ucast (drop_bit (bits - to_bits) acc AND (2 ^ to_bits - 1))])
      else (bits, out))"
  by pat_completeness auto
termination
  by (relation "measure (\<lambda>(acc, bits, to_bits, out). bits)") auto

declare emit.simps [simp del]

fun regroup :: "nat \<Rightarrow> nat \<Rightarrow> u32 \<Rightarrow> nat \<Rightarrow> byte list \<Rightarrow> byte list \<Rightarrow> (u32 \<times> nat \<times> byte list) option" where
  "regroup from_bits to_bits acc bits out [] = Some (acc, bits, out)"
| "regroup from_bits to_bits acc bits out (value # vs) =
     (if drop_bit from_bits (ucast value :: u32) \<noteq> 0 then None
      else let acc = push_bit from_bits acc OR ucast value; bits = bits + from_bits
           in case emit acc bits to_bits out of (bits, out) \<Rightarrow> regroup from_bits to_bits acc bits out vs)"

definition convert_bits :: "byte list \<Rightarrow> nat \<Rightarrow> nat \<Rightarrow> bool \<Rightarrow> byte list option" where
  "convert_bits data from_bits to_bits pad =
     (case regroup from_bits to_bits 0 0 [] data of
        None \<Rightarrow> None
      | Some (acc, bits, out) \<Rightarrow>
          let rest = push_bit (to_bits - bits) acc AND (2 ^ to_bits - 1)
          in if pad then Some (if bits > 0 then out @ [ucast rest] else out)
             else if bits \<ge> from_bits \<or> rest \<noteq> 0 then None else Some out)"

section \<open>Encoding and decoding\<close>

definition is_lower :: "byte \<Rightarrow> bool" where
  "is_lower c \<longleftrightarrow> 97 \<le> c \<and> c \<le> 122"

definition is_upper :: "byte \<Rightarrow> bool" where
  "is_upper c \<longleftrightarrow> 65 \<le> c \<and> c \<le> 90"

definition to_lower :: "byte \<Rightarrow> byte" where
  "to_lower c = (if is_upper c then c + 32 else c)"

definition hrp_char :: "byte \<Rightarrow> bool" where
  "hrp_char c \<longleftrightarrow> 33 \<le> c \<and> c \<le> 126"

definition checksum_digits :: "u32 \<Rightarrow> byte list" where
  "checksum_digits poly = map (\<lambda>i. ucast (drop_bit (5 * (5 - i)) poly AND 31)) [0..<6]"

definition bech32_encode :: "byte list \<Rightarrow> byte list \<Rightarrow> (byte list, Bech32Error) result" where
  "bech32_encode h data =
     (if h = [] \<or> length h > 83 then Err InvalidHrp
      else if list_ex (\<lambda>c. \<not> hrp_char c) h then Err InvalidHrp
      else if list_ex is_upper h then Err MixedCase
      else rbind (ok_or (convert_bits data 8 5 True) InvalidChar) (\<lambda>fives.
        let poly = polymod (hrp_expand h @ fives @ replicate 6 0) XOR BECH32M_CONST;
            out = h @ [49] @ map (\<lambda>b. CHARSET ! unat b) fives @ map (\<lambda>b. CHARSET ! unat b) (checksum_digits poly)
        in if length out > 90 then Err TooLong else Ok out))"

text \<open>\<open>rfind\<close>: the last position; \<open>position\<close>: the first.\<close>

definition rfind :: "byte \<Rightarrow> byte list \<Rightarrow> nat option" where
  "rfind c s = List.find (\<lambda>i. s ! i = c) (rev [0..<length s])"

definition char_pos :: "byte \<Rightarrow> nat option" where
  "char_pos c = List.find (\<lambda>i. CHARSET ! i = c) [0..<length CHARSET]"

fun char_values :: "byte list \<Rightarrow> (byte list, Bech32Error) result" where
  "char_values [] = Ok []"
| "char_values (c # cs) = rbind (ok_or (char_pos c) InvalidChar) (\<lambda>i. rbind (char_values cs) (\<lambda>vs. Ok (of_nat i # vs)))"

definition bech32_decode :: "byte list \<Rightarrow> (byte list \<times> byte list, Bech32Error) result" where
  "bech32_decode s =
     (if length s < 8 then Err TooShort
      else if length s > 90 then Err TooLong
      else if list_ex is_lower s \<and> list_ex is_upper s then Err MixedCase
      else let s = map to_lower s
           in rbind (ok_or (rfind 49 s) MissingSeparator) (\<lambda>sep.
              if sep = 0 \<or> sep + 7 > length s then Err MissingSeparator
              else let h = take sep s
                   in if list_ex (\<lambda>c. \<not> hrp_char c) h then Err InvalidHrp
                      else rbind (char_values (drop (sep + 1) s)) (\<lambda>values.
                        if polymod (hrp_expand h @ values) \<noteq> BECH32M_CONST then Err InvalidChecksum
                        else rbind (ok_or (convert_bits (take (length values - 6) values) 5 8 False) InvalidPadding) (\<lambda>bytes.
                          Ok (h, bytes)))))"

section \<open>Addresses\<close>

record address =
  ad_network :: network
  ad_scheme :: SchemeId
  ad_hash :: hash256

datatype AddressError =
    AddressEncoding Bech32Error
  | UnknownNetwork
  | UnknownScheme byte
  | InvalidLength nat
  | WrongNetwork network network

definition address_from_pubkey :: "network \<Rightarrow> SchemeId \<Rightarrow> byte list \<Rightarrow> address" where
  "address_from_pubkey net sc pubkey = \<lparr>ad_network = net, ad_scheme = sc, ad_hash = pubkey_hash sc pubkey\<rparr>"

text \<open>\<open>Panic\<close> is the failed \<open>expect\<close>.\<close>

definition to_string_bech32 :: "address \<Rightarrow> (byte list, unit) result" where
  "to_string_bech32 a =
     (case bech32_encode (str_bytes (hrp (ad_network a))) (scheme_as_u8 (ad_scheme a) # ad_hash a) of
        Ok s \<Rightarrow> Ok s | _ \<Rightarrow> Panic)"

definition network_of_bytes :: "byte list \<Rightarrow> network option" where
  "network_of_bytes h = from_hrp (map (\<lambda>b. char_of (unat b)) h)"

definition address_parse :: "byte list \<Rightarrow> (address, AddressError) result" where
  "address_parse s =
     rbind (map_err AddressEncoding (bech32_decode s)) (\<lambda>(h, payload).
     rbind (ok_or (network_of_bytes h) UnknownNetwork) (\<lambda>net.
       if length payload \<noteq> 33 then Err (InvalidLength (length payload))
       else case scheme_from_u8 (payload ! 0) of
              Some sc \<Rightarrow> if sc \<in> set SCHEME_ALL then Ok \<lparr>ad_network = net, ad_scheme = sc, ad_hash = drop 1 (take 33 payload)\<rparr>
                         else Err (UnknownScheme (payload ! 0))
            | None \<Rightarrow> Err (UnknownScheme (payload ! 0))))"

definition parse_on :: "byte list \<Rightarrow> network \<Rightarrow> (address, AddressError) result" where
  "parse_on s expected =
     rbind (address_parse s) (\<lambda>a. if ad_network a \<noteq> expected then Err (WrongNetwork expected (ad_network a)) else Ok a)"

section \<open>The checksum is linear\<close>

lemma gen_steps_xor: "foldl (gen_step b) (c XOR d) gs = foldl (gen_step b) c gs XOR d"
proof (induction gs arbitrary: c)
  case (Cons g gs)
  have "gen_step b (c XOR d) g = gen_step b c g XOR d" by (simp add: gen_step_def ac_simps)
  then show ?case using Cons by simp
qed simp

definition low25 :: "u32 \<Rightarrow> bool" where
  "low25 d \<longleftrightarrow> drop_bit 25 d = 0"

lemma low25_mask: "low25 d \<Longrightarrow> d AND 0x1ffffff = d"
proof -
  assume "low25 d"
  then have "take_bit 25 d = d" unfolding low25_def by (metis bits_ident xor_self_eq add.left_neutral push_bit_of_0)
  moreover have "(0x1ffffff :: u32) = mask 25" by (simp add: mask_eq_exp_minus_1)
  ultimately show ?thesis by (simp only: take_bit_eq_mask)
qed

lemma polymod_step_xor:
  assumes "low25 d"
  shows "polymod_step (a XOR d) v = polymod_step a 0 XOR (push_bit 5 d XOR ucast v)"
proof -
  have "drop_bit 25 (a XOR d) = drop_bit 25 a" using assms by (simp add: low25_def)
  moreover have "push_bit 5 ((a XOR d) AND 0x1ffffff) XOR ucast v = push_bit 5 (a AND 0x1ffffff) XOR ucast (0::byte) XOR (push_bit 5 d XOR ucast v)"
    using low25_mask [OF assms] by (simp add: bit.conj_xor_distrib2 ac_simps)
  ultimately show ?thesis unfolding polymod_step_def by (simp only: gen_steps_xor ac_simps)
qed

text \<open>Six digits of five bits as one word.\<close>

definition pack :: "byte list \<Rightarrow> u32" where
  "pack cs = foldl (\<lambda>d c. push_bit 5 d XOR ucast c) 0 cs"

definition five :: "byte \<Rightarrow> bool" where
  "five c \<longleftrightarrow> unat c < 32"

lemma pack_simps [simp]: "pack [] = 0" "pack (cs @ [c]) = push_bit 5 (pack cs) XOR ucast c"
  by (simp_all add: pack_def)

lemma unat_wide: "unat (ucast (c :: byte) :: u32) = unat c"
  by transfer (simp add: take_bit_take_bit)

lemma five_bits: "five c \<Longrightarrow> drop_bit 5 (ucast c :: u32) = 0" "five c \<Longrightarrow> take_bit 5 (ucast c :: u32) = ucast c"
proof -
  assume c: "five c"
  have "drop_bit 5 (unat c) = 0" using c by (simp add: five_def drop_bit_eq_div)
  moreover have "unat (ucast c :: u32) = unat c" by (rule unat_wide)
  ultimately have "unat (drop_bit 5 (ucast c :: u32)) = 0" by (simp add: unat_drop_bit_eq)
  then show "drop_bit 5 (ucast c :: u32) = 0" by (simp only: unat_eq_zero)
  then show "take_bit 5 (ucast c :: u32) = ucast c"
    by (metis bits_ident xor_self_eq add.left_neutral push_bit_of_0)
qed

lemma drop_pack: "list_all five cs \<Longrightarrow> drop_bit (5 * length cs) (pack cs) = 0"
proof (induction cs rule: rev_induct)
  case (snoc c cs)
  have "drop_bit 5 (push_bit 5 (pack cs)) = take_bit 27 (pack cs)"
    by (rule bit_word_eqI) (auto simp: bit_simps)
  then have "drop_bit (5 * length cs) (drop_bit 5 (pack (cs @ [c]))) = drop_bit (5 * length cs) (take_bit 27 (pack cs))"
    using snoc.prems five_bits(1) [of c] by simp
  also have "\<dots> = take_bit (27 - 5 * length cs) (drop_bit (5 * length cs) (pack cs))" by (simp add: drop_bit_take_bit)
  also have "\<dots> = 0" using snoc by simp
  finally show ?case by (simp add: drop_bit_drop_bit add.commute)
qed simp

lemma polymod_pack:
  "list_all five cs \<Longrightarrow> length cs \<le> 6 \<Longrightarrow> foldl polymod_step a cs = foldl polymod_step a (replicate (length cs) 0) XOR pack cs"
proof (induction cs rule: rev_induct)
  case (snoc c cs)
  have "low25 (pack cs)"
  proof -
    have "drop_bit (5 * length cs) (pack cs) = 0" using snoc.prems(1) drop_pack by simp
    moreover have "25 = 5 * length cs + (25 - 5 * length cs)" using snoc.prems(2) by simp
    ultimately show ?thesis unfolding low25_def by (metis drop_bit_drop_bit add.commute drop_bit_of_0)
  qed
  moreover have "replicate (length (cs @ [c])) (0 :: byte) = replicate (length cs) 0 @ [0]" by (simp add: replicate_append_same)
  ultimately show ?case using snoc polymod_step_xor [of "pack cs" "foldl polymod_step a (replicate (length cs) 0)" c]
    by (simp del: replicate.simps)
qed simp

lemma pack_last:
  assumes "list_all five cs" "length cs \<le> 5" "five c"
  shows "take_bit 5 (pack (cs @ [c])) = ucast c" "drop_bit 5 (pack (cs @ [c])) = pack cs"
proof -
  show "take_bit 5 (pack (cs @ [c])) = ucast c" using five_bits(2) [OF assms(3)] by (simp add: take_bit_push_bit)
  have "drop_bit (5 * length cs) (pack cs) = 0" by (rule drop_pack [OF assms(1)])
  moreover have "27 = 5 * length cs + (27 - 5 * length cs)" using assms(2) by simp
  ultimately have "drop_bit 27 (pack cs) = 0" by (metis drop_bit_drop_bit add.commute drop_bit_of_0)
  then have "take_bit 27 (pack cs) = pack cs" by (metis bits_ident add.left_neutral push_bit_of_0)
  moreover have "drop_bit 5 (push_bit 5 (pack cs)) = take_bit 27 (pack cs)" by (rule bit_word_eqI) (auto simp: bit_simps)
  ultimately show "drop_bit 5 (pack (cs @ [c])) = pack cs" using five_bits(1) [OF assms(3)] by simp
qed

lemma pack_inj:
  "list_all five cs \<Longrightarrow> list_all five ds \<Longrightarrow> length cs = length ds \<Longrightarrow> length cs \<le> 6 \<Longrightarrow> pack cs = pack ds \<Longrightarrow> cs = ds"
proof (induction cs arbitrary: ds rule: rev_induct)
  case (snoc c cs)
  obtain d ds' where ds: "ds = ds' @ [d]" using snoc.prems(3) by (cases ds rule: rev_cases) auto
  have "ucast c = (ucast d :: u32)" "pack cs = pack ds'"
  proof -
    have k: "list_all five cs" "length cs \<le> 5" "five c" "list_all five ds'" "length ds' \<le> 5" "five d" using snoc.prems ds by auto
    have eq: "pack (cs @ [c]) = pack (ds' @ [d])" using snoc.prems(5) ds by simp
    show "ucast c = (ucast d :: u32)" using arg_cong [OF eq, of "take_bit 5"] by (simp only: pack_last [OF k(1-3)] pack_last [OF k(4-6)])
    show "pack cs = pack ds'" using arg_cong [OF eq, of "drop_bit 5"] by (simp only: pack_last [OF k(1-3)] pack_last [OF k(4-6)])
  qed
  moreover have "c = d" using calculation(1) by (metis unat_wide word_unat_eq_iff)
  ultimately show ?case using snoc.IH [of ds'] snoc.prems ds by simp
qed simp

text \<open>The digits of a word of thirty bits.\<close>

fun to_digits :: "nat \<Rightarrow> u32 \<Rightarrow> byte list" where
  "to_digits 0 p = []"
| "to_digits (Suc n) p = to_digits n (drop_bit 5 p) @ [ucast (p AND 31)]"

lemma checksum_digits_eq: "checksum_digits p = to_digits 6 p"
  by (simp add: checksum_digits_def numeral_eq_Suc drop_bit_drop_bit)

lemma and_31: "x AND 31 = take_bit 5 x" for x :: "'a :: len word"
proof -
  have "(31 :: 'a word) = mask 5" by (simp add: mask_eq_exp_minus_1)
  then show ?thesis by (simp only: take_bit_eq_mask)
qed

lemma narrow_wide: "ucast (ucast (take_bit 5 (p :: u32)) :: byte) = take_bit 5 p"
  by (rule bit_word_eqI) (auto simp: bit_simps)

lemma to_digits_five: "list_all five (to_digits n p)" "length (to_digits n p) = n"
proof -
  have "unat (ucast (take_bit 5 p) :: byte) < 2 ^ 5" for p :: u32
    by (metis narrow_wide unat_wide unsigned_take_bit_eq take_bit_nat_less_exp)
  then show "list_all five (to_digits n p)" by (induction n arbitrary: p) (simp_all add: five_def and_31)
  show "length (to_digits n p) = n" by (induction n arbitrary: p) simp_all
qed

lemma pack_digits: "drop_bit (5 * n) p = 0 \<Longrightarrow> pack (to_digits n p) = p"
proof (induction n arbitrary: p)
  case (Suc n)
  have "drop_bit (5 * n) (drop_bit 5 p) = 0" using Suc.prems by (simp add: drop_bit_drop_bit add.commute)
  then have "pack (to_digits (Suc n) p) = push_bit 5 (drop_bit 5 p) XOR take_bit 5 p"
    using Suc.IH by (simp add: and_31 narrow_wide)
  also have "\<dots> = p" by (rule bit_word_eqI) (auto simp: bit_simps)
  finally show ?case .
qed simp

lemma polymod_step_30: "five v \<Longrightarrow> drop_bit 30 (polymod_step chk v) = 0"
proof -
  assume v: "five v"
  have g: "list_all (\<lambda>ig. drop_bit 30 (snd ig) = 0) (enumerate 0 GENERATOR)" by (simp add: GENERATOR_def drop_bit_numeral_minus_bit1)
  have "list_all (\<lambda>ig. drop_bit 30 (snd ig) = 0) gs \<Longrightarrow> drop_bit 30 c = 0 \<Longrightarrow> drop_bit 30 (foldl (gen_step b) c gs) = 0" for b c and gs :: "(nat \<times> u32) list"
    by (induction gs arbitrary: c) (simp_all add: gen_step_def)
  moreover have "drop_bit 30 (push_bit 5 (chk AND 0x1ffffff) XOR ucast v) = 0"
  proof -
    have "(0x1ffffff :: u32) = mask 25" by (simp add: mask_eq_exp_minus_1)
    then have "drop_bit 30 (push_bit 5 (chk AND 0x1ffffff)) = 0"
      by (simp only: flip: take_bit_eq_mask) (rule bit_word_eqI, auto simp: bit_simps)
    moreover have "drop_bit 30 (ucast v :: u32) = drop_bit 25 (drop_bit 5 (ucast v))" by (simp add: drop_bit_drop_bit)
    ultimately show ?thesis using five_bits(1) [OF v] by simp
  qed
  ultimately show ?thesis using g unfolding polymod_step_def by blast
qed

lemma xor_flip: "a XOR b = c \<longleftrightarrow> b = a XOR c" for a b c :: u32
  by (auto simp flip: xor.assoc)

text \<open>The six characters that make the checksum right are unique.\<close>

lemma checksum_unique:
  assumes "list_all five cs" "length cs = 6"
  shows "polymod (v @ cs) = BECH32M_CONST \<longleftrightarrow> cs = checksum_digits (polymod (v @ replicate 6 0) XOR BECH32M_CONST)"
proof -
  let ?p = "polymod (v @ replicate 6 0)"
  have "polymod (v @ cs) = ?p XOR pack cs"
    using polymod_pack [OF assms(1), of "foldl polymod_step 1 v"] assms(2) by (simp add: polymod_def)
  moreover have "drop_bit 30 ?p = 0"
  proof -
    have "v @ replicate 6 0 = (v @ replicate 5 0) @ [0 :: byte]" by (simp add: numeral_eq_Suc)
    then show ?thesis unfolding polymod_def by (simp only: foldl_append foldl.simps) (rule polymod_step_30, simp add: five_def)
  qed
  moreover have "drop_bit 30 BECH32M_CONST = 0" by (simp add: BECH32M_CONST_def drop_bit_numeral_minus_bit1)
  ultimately have d: "pack (checksum_digits (?p XOR BECH32M_CONST)) = ?p XOR BECH32M_CONST"
    unfolding checksum_digits_eq by (intro pack_digits) simp
  have "?p XOR pack cs = BECH32M_CONST \<longleftrightarrow> pack cs = ?p XOR BECH32M_CONST" by (rule xor_flip)
  also have "\<dots> \<longleftrightarrow> cs = checksum_digits (?p XOR BECH32M_CONST)"
    using pack_inj [OF assms(1), of "checksum_digits (?p XOR BECH32M_CONST)"] d assms(2) to_digits_five by (metis checksum_digits_eq order_refl)
  finally show ?thesis using \<open>polymod (v @ cs) = ?p XOR pack cs\<close> by simp
qed

section \<open>Regrouping keeps the bits\<close>

text \<open>The low \<open>n\<close> bits of a word, most significant first, and the bits of a list of groups.\<close>

definition bl :: "nat \<Rightarrow> u32 \<Rightarrow> bool list" where
  "bl n w = map (bit w) (rev [0..<n])"

definition groups :: "nat \<Rightarrow> byte list \<Rightarrow> bool list" where
  "groups n vs = concat (map (\<lambda>v. bl n (ucast v)) vs)"

definition small :: "nat \<Rightarrow> byte \<Rightarrow> bool" where
  "small n v \<longleftrightarrow> drop_bit n (ucast v :: u32) = 0"

lemma length_bl [simp]: "length (bl n w) = n"
  by (simp add: bl_def)

lemma bl_nth: "k < n \<Longrightarrow> bl n w ! k = bit w (n - Suc k)"
  by (simp add: bl_def rev_nth)

lemma bl_0 [simp]: "bl 0 w = []"
  by (simp add: bl_def)

lemma length_groups [simp]: "length (groups n vs) = n * length vs"
  by (induction vs) (simp_all add: groups_def)

lemma groups_simps [simp]: "groups n [] = []" "groups n (v # vs) = bl n (ucast v) @ groups n vs" "groups n (vs @ ws) = groups n vs @ groups n ws"
  by (simp_all add: groups_def)

lemma bl_eqI: "(\<And>k. k < n \<Longrightarrow> bit v k = bit w k) \<Longrightarrow> bl n v = bl n w"
  by (simp add: bl_def)

lemma bl_split: "bl (n + m) w = bl n (drop_bit m w) @ bl m w"
  by (rule nth_equalityI) (auto simp: bl_nth nth_append bit_simps intro!: arg_cong [of _ _ "bit w"])

lemma bl_absorb:
  assumes "drop_bit m (v :: u32) = 0" "n + m \<le> 32"
  shows "bl (n + m) (push_bit m acc OR v) = bl n acc @ bl m v"
proof -
  have v: "\<not> bit v (m + k)" for k 
  proof -
    have "bit (drop_bit m v) k \<longleftrightarrow> bit v (m + k)" by (simp add: bit_simps)
    then show ?thesis using assms(1) by simp
  qed
  have "bl n (drop_bit m (push_bit m acc OR v)) = bl n acc"
    by (rule bl_eqI) (use v assms(2) in \<open>auto simp: bit_simps\<close>)
  moreover have "bl m (push_bit m acc OR v) = bl m v" by (rule bl_eqI) (auto simp: bit_simps)
  ultimately show ?thesis by (simp add: bl_split)
qed

lemma mask_and: "x AND (2 ^ n - 1) = take_bit n x" for x :: u32
  by (simp add: take_bit_eq_mask mask_eq_exp_minus_1)

lemma cut:
  assumes "n \<le> 8"
  shows "bl n (ucast (ucast (take_bit n (x :: u32)) :: byte)) = bl n x" "small n (ucast (take_bit n x) :: byte)"
proof -
  show "bl n (ucast (ucast (take_bit n x) :: byte)) = bl n x" by (rule bl_eqI) (use assms in \<open>auto simp: bit_simps\<close>)
  show "small n (ucast (take_bit n x) :: byte)" unfolding small_def by (rule bit_word_eqI) (auto simp: bit_simps)
qed

lemma emit_spec:
  "0 < t \<Longrightarrow> t \<le> 8 \<Longrightarrow> \<exists>new bits'. emit acc bits t out = (bits', out @ new) \<and> bits' < t \<and> list_all (small t) new \<and>
     groups t new @ bl bits' acc = bl bits acc"
proof (induction acc bits t out rule: emit.induct)
  case (1 acc bits t out)
  show ?case
  proof (cases "bits \<ge> t")
    case True
    let ?e = "ucast (drop_bit (bits - t) acc AND (2 ^ t - 1)) :: byte"
    have "\<exists>new bits'. emit acc (bits - t) t (out @ [?e]) = (bits', (out @ [?e]) @ new) \<and> bits' < t \<and> list_all (small t) new \<and>
        groups t new @ bl bits' acc = bl (bits - t) acc" using 1 True by blast
    then obtain new bits' where n: "emit acc (bits - t) t (out @ [?e]) = (bits', (out @ [?e]) @ new)" "bits' < t" "list_all (small t) new"
      "groups t new @ bl bits' acc = bl (bits - t) acc" by blast
    have "bl bits acc = bl t (drop_bit (bits - t) acc) @ bl (bits - t) acc" using bl_split [of t "bits - t" acc] True by simp
    then have "groups t (?e # new) @ bl bits' acc = bl bits acc" using n(4) cut(1) [OF "1.prems"(2)] by (simp add: mask_and)
    moreover have "list_all (small t) (?e # new)" using n(3) cut(2) [OF "1.prems"(2)] by (simp add: mask_and)
    moreover have "emit acc bits t out = (bits', out @ ?e # new)" using n(1) True "1.prems"(1) by (subst emit.simps) simp
    ultimately show ?thesis using n(2) by blast
  next
    case False
    then have "emit acc bits t out = (bits, out @ [])" by (subst emit.simps) simp
    then show ?thesis using False by fastforce
  qed
qed

lemma regroup_spec:
  assumes "0 < t" "t \<le> 8" "f \<le> 8"
  shows "bits < t \<Longrightarrow> list_all (small f) vs \<Longrightarrow> \<exists>acc' bits' new. regroup f t acc bits out vs = Some (acc', bits', out @ new) \<and>
     bits' < t \<and> list_all (small t) new \<and> groups t new @ bl bits' acc' = bl bits acc @ groups f vs"
proof (induction vs arbitrary: acc bits out)
  case (Cons v vs)
  let ?acc = "push_bit f acc OR ucast v"
  obtain new1 bits1 where e: "emit ?acc (bits + f) t out = (bits1, out @ new1)" "bits1 < t" "list_all (small t) new1"
    "groups t new1 @ bl bits1 ?acc = bl (bits + f) ?acc" using emit_spec [OF assms(1,2)] by blast
  have "list_all (small f) vs" using Cons.prems(2) by simp
  from Cons.IH [OF e(2) this] obtain acc' bits' new where n: "regroup f t ?acc bits1 (out @ new1) vs = Some (acc', bits', (out @ new1) @ new)"
    "bits' < t" "list_all (small t) new" "groups t new @ bl bits' acc' = bl bits1 ?acc @ groups f vs" by blast
  have v: "drop_bit f (ucast v :: u32) = 0" using Cons.prems(2) by (simp add: small_def)
  have "bl (bits + f) ?acc = bl bits acc @ bl f (ucast v)" by (rule bl_absorb [OF v]) (use Cons.prems(1) assms in simp)
  then have "groups t (new1 @ new) @ bl bits' acc' = bl bits acc @ groups f (v # vs)" using e(4) n(4) by simp
  moreover have "regroup f t acc bits out (v # vs) = Some (acc', bits', out @ new1 @ new)" using v e(1) n(1) by (simp add: Let_def)
  moreover have "list_all (small t) (new1 @ new)" using e(3) n(3) by simp
  ultimately show ?case using n(2) by blast
qed auto

lemma regroup_bad: "\<not> list_all (small f) vs \<Longrightarrow> regroup f t acc bits out vs = None"
  by (induction vs arbitrary: acc bits out) (auto simp: Let_def small_def split: prod.split)

lemma small_8: "small 8 v"
  unfolding small_def by (rule bit_word_eqI) (auto simp: bit_simps dest: bit_imp_le_length)

lemma small_five: "small 5 v \<longleftrightarrow> five v"
proof
  assume "small 5 v"
  then have "take_bit 5 (ucast v :: u32) = ucast v" unfolding small_def by (metis bits_ident add.left_neutral push_bit_of_0)
  moreover have "unat (take_bit 5 (ucast v :: u32)) < 2 ^ 5" by (metis unsigned_take_bit_eq take_bit_nat_less_exp)
  ultimately show "five v" by (simp add: five_def unat_wide)
qed (simp add: small_def five_bits)

text \<open>Eight bits to five, with padding; five to eight, with the padding checked.\<close>

lemma to_fives:
  "\<exists>fs z. convert_bits data 8 5 True = Some fs \<and> list_all five fs \<and> z < 5 \<and> groups 5 fs = groups 8 data @ replicate z False"
proof -
  have "list_all (small 8) data" by (simp add: list_all_iff small_8)
  then obtain acc bits new where r: "regroup 8 5 0 0 [] data = Some (acc, bits, new)" "bits < 5" "list_all (small 5) new"
    "groups 5 new @ bl bits acc = groups 8 data" using regroup_spec [of 5 8 0 data 0 "[]"] by auto
  show ?thesis
  proof (cases "bits = 0")
    case True
    then have "convert_bits data 8 5 True = Some new" using r(1) by (simp add: convert_bits_def)
    then show ?thesis using r(3,4) True by (auto simp: small_five list_all_iff intro!: exI [of _ new])
  next
    case False
    let ?e = "ucast (push_bit (5 - bits) acc AND (2 ^ 5 - 1)) :: byte"
    have "bl 5 (ucast ?e) = bl 5 (push_bit (5 - bits) acc)" unfolding mask_and by (rule cut(1)) simp
    also have "\<dots> = bl (bits + (5 - bits)) (push_bit (5 - bits) acc OR 0)" using r(2) by simp
    also have "\<dots> = bl bits acc @ bl (5 - bits) 0" by (rule bl_absorb) (use r(2) in simp_all)
    also have "bl (5 - bits) 0 = replicate (5 - bits) False" by (rule nth_equalityI) (simp_all add: bl_nth)
    finally have "groups 5 (new @ [?e]) = groups 8 data @ replicate (5 - bits) False" using r(4) by (metis append_assoc groups_simps append_Nil2)
    moreover have "convert_bits data 8 5 True = Some (new @ [?e])" using r(1) False by (simp add: convert_bits_def)
    moreover have "list_all five (new @ [?e])" using r(3) cut(2) [of 5 "push_bit (5 - bits) acc"] by (simp add: and_31 list_all_iff small_five)
    ultimately show ?thesis using False by (intro exI [of _ "new @ [?e]"] exI [of _ "5 - bits"]) auto
  qed
qed

lemma bl_inj:
  assumes "small n v" "small n w" "bl n (ucast v) = bl n (ucast w)"
  shows "v = w"
proof -
  have "bit (ucast v :: u32) k = bit (ucast w :: u32) k" for k
  proof (cases "k < n")
    case True
    then show ?thesis using arg_cong [OF assms(3), of "\<lambda>l. l ! (n - Suc k)"] by (simp add: bl_nth)
  next
    case False
    have "bit (drop_bit n x) (k - n) \<longleftrightarrow> bit x k" for x :: u32 using False by (simp add: bit_simps)
    then show ?thesis using assms(1,2) unfolding small_def by (metis bit_0_eq bot_apply)
  qed
  then have "(ucast v :: u32) = ucast w" by (intro bit_word_eqI) blast
  then show ?thesis by (metis unat_wide word_unat_eq_iff)
qed

lemma groups_inj: "list_all (small n) vs \<Longrightarrow> list_all (small n) ws \<Longrightarrow> length vs = length ws \<Longrightarrow> groups n vs = groups n ws \<Longrightarrow> vs = ws"
proof (induction vs arbitrary: ws)
  case (Cons v vs)
  then obtain w ws' where ws: "ws = w # ws'" by (cases ws) auto
  have "bl n (ucast v) = bl n (ucast w)" "groups n vs = groups n ws'" using Cons.prems(4) ws by simp_all
  then show ?case using Cons bl_inj ws by auto
qed simp

lemma groups_cancel:
  assumes "list_all (small n) vs" "list_all (small n) ws" "groups n vs @ xs = groups n ws @ ys" "length xs < n" "length ys < n"
  shows "vs = ws \<and> xs = ys"
proof -
  have "n * length vs + length xs = n * length ws + length ys" using arg_cong [OF assms(3), of length] by simp
  then have "(n * length vs + length xs) div n = (n * length ws + length ys) div n" by simp
  then have l: "length vs = length ws" using assms(4,5) by simp
  then have "groups n vs = groups n ws \<and> xs = ys" using assms(3) by (simp add: append_eq_append_conv)
  then show ?thesis using groups_inj [OF assms(1,2) l] by blast
qed

lemma bl_zero: "bl n x = replicate n False \<longleftrightarrow> take_bit n x = 0"
proof
  assume b: "bl n x = replicate n False"
  have "\<not> bit x k" if "k < n" for k using bl_nth [of "n - Suc k" n x] that b by simp
  then show "take_bit n x = 0" by (intro bit_word_eqI) (simp add: bit_simps)
next
  assume t: "take_bit n x = 0"
  have "\<not> bit x k" if "k < n" for k
  proof -
    have "bit (take_bit n x) k \<longleftrightarrow> bit x k" using that by (simp add: bit_simps)
    then show ?thesis using t by simp
  qed
  then show "bl n x = replicate n False" by (intro nth_equalityI) (simp_all add: bl_nth)
qed

lemma from_fives:
  assumes "list_all five ds"
  shows "convert_bits ds 5 8 False = Some bs \<longleftrightarrow> (\<exists>z < 5. groups 5 ds = groups 8 bs @ replicate z False)"
proof -
  have "list_all (small 5) ds" using assms by (simp add: list_all_iff small_five)
  then obtain acc bits new where r: "regroup 5 8 0 0 [] ds = Some (acc, bits, new)" "bits < 8" "groups 8 new @ bl bits acc = groups 5 ds"
    using regroup_spec [of 8 5 0 ds 0 "[]"] by auto
  let ?rest = "push_bit (8 - bits) acc AND (2 ^ 8 - 1)"
  have c: "convert_bits ds 5 8 False = (if bits \<ge> 5 \<or> ?rest \<noteq> 0 then None else Some new)" using r(1) by (simp add: convert_bits_def)
  have "bl 8 (push_bit (8 - bits) acc) = bl (bits + (8 - bits)) (push_bit (8 - bits) acc OR 0)" using r(2) by simp
  also have "\<dots> = bl bits acc @ bl (8 - bits) 0" by (rule bl_absorb) (use r(2) in simp_all)
  also have "bl (8 - bits) 0 = replicate (8 - bits) False" by (simp add: bl_zero)
  finally have b: "bl 8 (push_bit (8 - bits) acc) = bl bits acc @ replicate (8 - bits) False" .
  have "replicate 8 False = replicate bits False @ replicate (8 - bits) False" using r(2) by (simp flip: replicate_add)
  then have rest: "?rest = 0 \<longleftrightarrow> bl bits acc = replicate bits False" unfolding mask_and bl_zero [symmetric] b by simp
  show ?thesis
  proof
    assume "convert_bits ds 5 8 False = Some bs"
    then have "bits < 5" "?rest = 0" "bs = new" using c by (auto split: if_splits)
    then show "\<exists>z < 5. groups 5 ds = groups 8 bs @ replicate z False" using r(3) rest by (intro exI [of _ bits]) simp
  next
    assume "\<exists>z < 5. groups 5 ds = groups 8 bs @ replicate z False"
    then obtain z where z: "z < 5" "groups 8 new @ bl bits acc = groups 8 bs @ replicate z False" using r(3) by auto
    have eq: "new = bs \<and> bl bits acc = replicate z False"
      by (rule groups_cancel [OF _ _ z(2)]) (use r(2) z(1) in \<open>auto simp: list_all_iff small_8\<close>)
    moreover have "bits = z" using arg_cong [OF conjunct2 [OF eq], of length] by simp
    ultimately show "convert_bits ds 5 8 False = Some bs" using c rest z(1) by simp
  qed
qed

text \<open>Both directions of the regrouping are inverse of each other.\<close>

lemma regrouping: "convert_bits data 8 5 True = Some fs \<longleftrightarrow> list_all five fs \<and> convert_bits fs 5 8 False = Some data"
proof -
  obtain fs' z' where f: "convert_bits data 8 5 True = Some fs'" "list_all five fs'" "z' < 5" "groups 5 fs' = groups 8 data @ replicate z' False"
    using to_fives by blast
  show ?thesis
  proof
    assume "convert_bits data 8 5 True = Some fs"
    then show "list_all five fs \<and> convert_bits fs 5 8 False = Some data" using f from_fives [OF f(2)] by auto
  next
    assume a: "list_all five fs \<and> convert_bits fs 5 8 False = Some data"
    then obtain z where z: "z < 5" "groups 5 fs = groups 8 data @ replicate z False" using from_fives by blast
    have l: "5 * length fs = 8 * length data + z" "5 * length fs' = 8 * length data + z'"
      using arg_cong [OF z(2), of length] arg_cong [OF f(4), of length] by simp_all
    then have "length fs = length fs'" using z(1) f(3) by (cases "length fs" "length fs'" rule: linorder_cases) linarith+
    then have "z = z'" using l by simp
    then have "groups 5 fs @ [] = groups 5 fs' @ []" using z(2) f(4) by simp
    then have "fs = fs'" using groups_cancel [of 5 fs fs' "[]" "[]"] a f(2) by (simp add: list_all_iff small_five)
    then show "convert_bits data 8 5 True = Some fs" using f(1) by simp
  qed
qed

section \<open>Characters\<close>

lemma charset_length [simp]: "length CHARSET = 32"
  by (simp add: CHARSET_def)

lemma charset_distinct: "distinct CHARSET"
  by (simp add: CHARSET_def str_bytes_def)

lemma charset_chars: "list_all (\<lambda>c. c \<noteq> 49 \<and> \<not> is_upper c) CHARSET"
  by (simp add: CHARSET_def str_bytes_def is_upper_def)

lemma char_pos_iff: "char_pos c = Some i \<longleftrightarrow> i < 32 \<and> CHARSET ! i = c"
proof
  assume "char_pos c = Some i"
  then show "i < 32 \<and> CHARSET ! i = c" unfolding char_pos_def find_Some_iff by auto
next
  assume i: "i < 32 \<and> CHARSET ! i = c"
  have "CHARSET ! j \<noteq> c" if "j < i" for j using nth_eq_iff_index_eq [OF charset_distinct, of j i] i that by auto
  then show "char_pos c = Some i" unfolding char_pos_def find_Some_iff using i by (intro exI [of _ i]) auto
qed

definition char_of_five :: "byte \<Rightarrow> byte" where
  "char_of_five b = CHARSET ! unat b"

lemma char_values_iff: "char_values cs = Ok vs \<longleftrightarrow> list_all five vs \<and> cs = map char_of_five vs"
proof (induction cs arbitrary: vs)
  case (Cons c cs)
  show ?case
  proof
    assume "char_values (c # cs) = Ok vs"
    then obtain i vs' where v: "char_pos c = Some i" "char_values cs = Ok vs'" "vs = of_nat i # vs'" by auto
    have i: "i < 32" "CHARSET ! i = c" using v(1) char_pos_iff by blast+
    then have "unat (of_nat i :: byte) = i" by (simp add: unat_of_nat)
    then show "list_all five vs \<and> c # cs = map char_of_five vs" using v(2,3) i Cons.IH by (simp add: five_def [of "of_nat i"] char_of_five_def [of "of_nat i"])
  next
    assume a: "list_all five vs \<and> c # cs = map char_of_five vs"
    then obtain v vs' where v: "vs = v # vs'" "c = char_of_five v" "cs = map char_of_five vs'" "five v" "list_all five vs'" by (cases vs) auto
    have "char_pos c = Some (unat v)" unfolding char_pos_iff using v by (simp add: char_of_five_def five_def)
    moreover have "char_values cs = Ok vs'" using Cons.IH v by simp
    ultimately show "char_values (c # cs) = Ok vs" using v by simp
  qed
qed auto

lemma char_of_five_plain: "five v \<Longrightarrow> char_of_five v \<noteq> 49 \<and> \<not> is_upper (char_of_five v)"
proof -
  assume "five v"
  then have "char_of_five v \<in> set CHARSET" by (simp add: char_of_five_def five_def)
  then show ?thesis using charset_chars by (simp add: list_all_iff)
qed

lemma rfind_snoc: "rfind c (s @ [x]) = (if x = c then Some (length s) else rfind c s)"
proof -
  have "List.find (\<lambda>i. (s @ [x]) ! i = c) (rev [0..<length s]) = List.find (\<lambda>i. s ! i = c) (rev [0..<length s])"
    by (rule find_cong) (simp_all add: nth_append)
  then show ?thesis by (simp add: rfind_def)
qed

lemma rfind_sep: "c \<notin> set t \<Longrightarrow> rfind c (h @ [c] @ t) = Some (length h)"
proof (induction t rule: rev_induct)
  case Nil
  then show ?case using rfind_snoc [of c h c] by simp
next
  case (snoc x t)
  then show ?case using rfind_snoc [of c "h @ [c] @ t" x] by auto
qed

lemma rfind_Some: "rfind c s = Some i \<Longrightarrow> i < length s \<and> s ! i = c"
  unfolding rfind_def find_Some_iff by (auto simp: rev_nth)

lemma lower_plain: "\<not> is_upper (to_lower c)" "\<not> is_upper c \<Longrightarrow> to_lower c = c"
  by (auto simp: to_lower_def is_upper_def word_le_nat_alt unat_word_ariths)

section \<open>Round trips\<close>

definition mixed :: "byte list \<Rightarrow> bool" where
  "mixed s \<longleftrightarrow> list_ex is_lower s \<and> list_ex is_upper s"

lemma map_lower_plain: "\<not> list_ex is_upper s \<Longrightarrow> map to_lower s = s"
  by (induction s) (auto simp: lower_plain(2))

lemma map_lower_upper [simp]: "\<not> list_ex is_upper (map to_lower s)"
  by (induction s) (auto simp: lower_plain(1))

text \<open>What an accepted encoding looks like.\<close>

lemma encode_iff:
  "bech32_encode h data = Ok s \<longleftrightarrow> h \<noteq> [] \<and> length h \<le> 83 \<and> list_all hrp_char h \<and> \<not> list_ex is_upper h \<and> length s \<le> 90 \<and>
     (\<exists>fs. convert_bits data 8 5 True = Some fs \<and>
        s = h @ [49] @ map char_of_five (fs @ checksum_digits (polymod (hrp_expand h @ fs @ replicate 6 0) XOR BECH32M_CONST)))"
proof -
  have x: "list_ex (\<lambda>c. \<not> hrp_char c) h \<longleftrightarrow> \<not> list_all hrp_char h" by (simp add: list_ex_iff list_all_iff)
  obtain fs where f: "convert_bits data 8 5 True = Some fs" using to_fives by blast
  show ?thesis unfolding bech32_encode_def x f using char_of_five_def [abs_def] by (auto simp: Let_def split: if_splits)
qed

lemma decode_lower: "\<not> mixed s \<Longrightarrow> bech32_decode s = bech32_decode (map to_lower s)"
  unfolding bech32_decode_def mixed_def map_lower_plain [OF map_lower_upper] length_map by (simp only: map_lower_upper simp_thms if_False)

text \<open>What an accepted string in lower case looks like.\<close>

lemma decode_iff:
  assumes u: "\<not> list_ex is_upper s"
  shows "bech32_decode s = Ok (h, data) \<longleftrightarrow> 8 \<le> length s \<and> length s \<le> 90 \<and> h \<noteq> [] \<and> list_all hrp_char h \<and>
     (\<exists>vs. list_all five vs \<and> 6 \<le> length vs \<and> s = h @ [49] @ map char_of_five vs \<and> polymod (hrp_expand h @ vs) = BECH32M_CONST \<and>
        convert_bits (take (length vs - 6) vs) 5 8 False = Some data)" (is "_ \<longleftrightarrow> ?r")
proof
  assume d: "bech32_decode s = Ok (h, data)"
  obtain sep vs where v: "8 \<le> length s" "length s \<le> 90" "rfind 49 s = Some sep" "sep \<noteq> 0" "sep + 7 \<le> length s" "h = take sep s"
    "\<not> list_ex (\<lambda>c. \<not> hrp_char c) h" "char_values (drop (sep + 1) s) = Ok vs" "polymod (hrp_expand h @ vs) = BECH32M_CONST"
    "convert_bits (take (length vs - 6) vs) 5 8 False = Some data"
    using d u by (auto simp: bech32_decode_def map_lower_plain Let_def split: if_splits)
  have s: "sep < length s" "s ! sep = 49" using rfind_Some [OF v(3)] by blast+
  have c: "list_all five vs" "drop (sep + 1) s = map char_of_five vs" using v(8) char_values_iff by blast+
  have "s = h @ [49] @ map char_of_five vs" using id_take_nth_drop [OF s(1)] s(2) v(6) c(2) by simp
  moreover have "length vs = length s - (sep + 1)" using arg_cong [OF c(2), of length] by simp
  ultimately show ?r using v c(1) by (auto simp: list_all_iff list_ex_iff)
next
  assume ?r
  then obtain vs where v: "8 \<le> length s" "length s \<le> 90" "h \<noteq> []" "list_all hrp_char h" "list_all five vs" "6 \<le> length vs"
    "s = h @ [49] @ map char_of_five vs" "polymod (hrp_expand h @ vs) = BECH32M_CONST"
    "convert_bits (take (length vs - 6) vs) 5 8 False = Some data" by blast
  have "49 \<notin> set (map char_of_five vs)" using v(5) char_of_five_plain by (force simp: list_all_iff)
  then have r: "rfind 49 s = Some (length h)" unfolding v(7) by (rule rfind_sep)
  have "char_values (drop (length h + 1) s) = Ok vs" unfolding char_values_iff v(7) using v(5) by simp
  moreover have "take (length h) s = h" "length h + 7 \<le> length s" using v(6,7) by simp_all
  moreover have "\<not> list_ex (\<lambda>c. \<not> hrp_char c) h" using v(4) by (simp add: list_all_iff list_ex_iff)
  ultimately show "bech32_decode s = Ok (h, data)" using v(1-3,8,9) u r by (simp add: bech32_decode_def map_lower_plain Let_def)
qed

lemma encode_decode: "bech32_encode h data = Ok s \<longleftrightarrow> \<not> list_ex is_upper s \<and> bech32_decode s = Ok (h, data)"
proof
  assume "bech32_encode h data = Ok s"
  then obtain fs where e: "h \<noteq> []" "length h \<le> 83" "list_all hrp_char h" "\<not> list_ex is_upper h" "length s \<le> 90" "convert_bits data 8 5 True = Some fs"
    "s = h @ [49] @ map char_of_five (fs @ checksum_digits (polymod (hrp_expand h @ fs @ replicate 6 0) XOR BECH32M_CONST))"
    unfolding encode_iff by blast
  let ?cs = "checksum_digits (polymod (hrp_expand h @ fs @ replicate 6 0) XOR BECH32M_CONST)"
  have cs: "list_all five ?cs" "length ?cs = 6" unfolding checksum_digits_eq by (rule to_digits_five)+
  have fs: "list_all five fs" "convert_bits fs 5 8 False = Some data" using e(6) regrouping by blast+
  have u: "\<not> list_ex is_upper s" unfolding e(7) using e(4) fs(1) cs(1) char_of_five_plain by (auto simp: list_ex_iff list_all_iff is_upper_def [of 49])
  have "polymod (hrp_expand h @ fs @ ?cs) = BECH32M_CONST" using checksum_unique [OF cs, of "hrp_expand h @ fs"] by simp
  moreover have "take (length (fs @ ?cs) - 6) (fs @ ?cs) = fs" using cs(2) by simp
  moreover have "8 \<le> length s" using e(1,7) cs(2) by (cases h) simp_all
  ultimately have "bech32_decode s = Ok (h, data)" unfolding decode_iff [OF u] using e(1,3,5,7) cs fs
    by (intro conjI exI [of _ "fs @ ?cs"]) simp_all
  then show "\<not> list_ex is_upper s \<and> bech32_decode s = Ok (h, data)" using u by blast
next
  assume a: "\<not> list_ex is_upper s \<and> bech32_decode s = Ok (h, data)"
  then obtain vs where v: "length s \<le> 90" "h \<noteq> []" "list_all hrp_char h" "list_all five vs" "6 \<le> length vs"
    "s = h @ [49] @ map char_of_five vs" "polymod (hrp_expand h @ vs) = BECH32M_CONST" "convert_bits (take (length vs - 6) vs) 5 8 False = Some data"
    using decode_iff by blast
  define fs where "fs = take (length vs - 6) vs"
  define cs where "cs = drop (length vs - 6) vs"
  have vs: "vs = fs @ cs" by (simp add: fs_def cs_def)
  have five: "list_all five fs" "list_all five cs" using v(4) unfolding vs by simp_all
  have "length cs = 6" using v(5) by (simp add: cs_def)
  then have "cs = checksum_digits (polymod (hrp_expand h @ fs @ replicate 6 0) XOR BECH32M_CONST)"
    using checksum_unique [OF five(2), of "hrp_expand h @ fs"] v(7) vs by simp
  moreover have "convert_bits data 8 5 True = Some fs" using regrouping five(1) v(8) unfolding fs_def by blast
  moreover have "length h \<le> 83" "\<not> list_ex is_upper h" using v(1,5,6) a by (auto simp: list_ex_iff)
  ultimately show "bech32_encode h data = Ok s" unfolding encode_iff using v(1,2,3,6) vs by auto
qed

lemma bech32_canon:
  "bech32_decode s = Ok (h, data) \<longleftrightarrow> \<not> mixed s \<and> bech32_encode h data = Ok (map to_lower s)"
proof (cases "mixed s")
  case True
  then have "bech32_decode s \<noteq> Ok (h, data)" by (simp add: bech32_decode_def mixed_def)
  then show ?thesis using True by blast
next
  case False
  then show ?thesis using decode_lower [OF False] encode_decode [of h data "map to_lower s"] by simp
qed

text \<open>Bech32m strings are canonical: a string decodes to a prefix and a payload exactly when it is written in one
  case and its lower-case form is the encoding of that prefix and payload.\<close>

theorem bech32_canonical:
  "bech32_decode s = Ok (h, data) \<longleftrightarrow> \<not> mixed s \<and> bech32_encode h data = Ok (map to_lower s)"
  by (rule bech32_canon)

lemma byte_char: "of_nat (of_char (char_of (unat b) :: char)) = (b :: byte)" "char_of (unat (of_nat (of_char c) :: byte)) = (c :: char)"
proof -
  have "unat b < 256" using unsigned_less [of b, where ?'a = nat] by simp
  then show "of_nat (of_char (char_of (unat b) :: char)) = b" by simp
  have "(of_char c :: nat) < 256" using of_char_mod_256 [of c, where ?'a = nat] by (metis mod_less_divisor zero_less_numeral)
  then show "char_of (unat (of_nat (of_char c) :: byte)) = c" by (simp add: unat_of_nat take_bit_eq_mod)
qed

lemma network_iff: "network_of_bytes h = Some net \<longleftrightarrow> h = str_bytes (hrp net)"
proof -
  have f: "from_hrp x = Some net \<longleftrightarrow> x = hrp net" for x by (cases net) (auto simp: from_hrp_def hrp_defs)
  have "map (\<lambda>b. char_of (unat b)) h = x \<longleftrightarrow> h = str_bytes x" for x
  proof
    assume "map (\<lambda>b. char_of (unat b)) h = x"
    then have "str_bytes x = map (\<lambda>b. of_nat (of_char (char_of (unat b) :: char))) h" by (auto simp: str_bytes_def)
    also have "\<dots> = h" by (simp only: byte_char(1) map_ident)
    finally show "h = str_bytes x" by simp
  next
    assume "h = str_bytes x"
    then show "map (\<lambda>b. char_of (unat b)) h = x" by (simp add: str_bytes_def byte_char(2) comp_def)
  qed
  then show ?thesis by (simp add: network_of_bytes_def f)
qed

definition valid_address :: "address \<Rightarrow> bool" where
  "valid_address a \<longleftrightarrow> ad_scheme a \<in> set SCHEME_ALL \<and> length (ad_hash a) = 32"

text \<open>C35. Addresses have one form: every valid address is printed, and a string is read as an address exactly when
  it is in one case and its lower-case form is what that address prints as. In particular no string designates an
  address on two networks, a scheme that is no key, or a policy.\<close>

theorem address_canonical:
  "(valid_address a \<longrightarrow> (\<exists>s. to_string_bech32 a = Ok s)) \<and>
   (address_parse s = Ok a \<longleftrightarrow> valid_address a \<and> \<not> mixed s \<and> to_string_bech32 a = Ok (map to_lower s))"
proof
  let ?h = "str_bytes (hrp (ad_network a))" and ?p = "scheme_as_u8 (ad_scheme a) # ad_hash a"
  have ts: "to_string_bech32 a = Ok x \<longleftrightarrow> bech32_encode ?h ?p = Ok x" for x
    by (auto simp: to_string_bech32_def split: result.splits)
  show "valid_address a \<longrightarrow> (\<exists>s. to_string_bech32 a = Ok s)"
  proof
    assume v: "valid_address a"
    obtain fs z where f: "convert_bits ?p 8 5 True = Some fs" "z < 5" "groups 5 fs = groups 8 ?p @ replicate z False" using to_fives by blast
    have "5 * length fs = 8 * 33 + z" using arg_cong [OF f(3), of length] v by (simp add: valid_address_def)
    then have "length fs \<le> 53" using f(2) by simp
    then have "\<exists>s. bech32_encode ?h ?p = Ok s" unfolding encode_iff using f(1) to_digits_five(2)
      by (cases "ad_network a") (auto simp: hrp_defs str_bytes_def hrp_char_def is_upper_def checksum_digits_eq)
    then show "\<exists>s. to_string_bech32 a = Ok s" unfolding ts .
  qed
  show "address_parse s = Ok a \<longleftrightarrow> valid_address a \<and> \<not> mixed s \<and> to_string_bech32 a = Ok (map to_lower s)"
  proof
    assume "address_parse s = Ok a"
    then obtain h p net sc where d: "bech32_decode s = Ok (h, p)" "network_of_bytes h = Some net" "length p = 33"
      "scheme_from_u8 (p ! 0) = Some sc" "sc \<in> set SCHEME_ALL" "a = \<lparr>ad_network = net, ad_scheme = sc, ad_hash = drop 1 (take 33 p)\<rparr>"
      by (auto simp: address_parse_def split: option.splits if_splits prod.splits)
    have "p ! 0 = scheme_as_u8 sc" using d(4) by (auto simp: scheme_from_u8_def split: if_splits)
    then have "p = ?p" using d(3,6) by (cases p) simp_all
    moreover have "h = ?h" using d(2,6) by (simp add: network_iff)
    moreover have "valid_address a" using d(3,5,6) by (simp add: valid_address_def)
    ultimately show "valid_address a \<and> \<not> mixed s \<and> to_string_bech32 a = Ok (map to_lower s)"
      unfolding ts using d(1) bech32_canon by metis
  next
    assume v: "valid_address a \<and> \<not> mixed s \<and> to_string_bech32 a = Ok (map to_lower s)"
    then have "bech32_decode s = Ok (?h, ?p)" unfolding ts using bech32_canon by blast
    moreover have "scheme_from_u8 (scheme_as_u8 (ad_scheme a)) = Some (ad_scheme a)" by (cases "ad_scheme a") (simp_all add: scheme_from_u8_def)
    ultimately show "address_parse s = Ok a" using v network_iff [of ?h "ad_network a"] by (simp add: address_parse_def valid_address_def)
  qed
qed

theorem address_canonical_witness:
  "\<exists>s. to_string_bech32 \<lparr>ad_network = Mainnet, ad_scheme = MlDsa65, ad_hash = replicate 32 7\<rparr> = Ok s"
  using address_canonical [of "\<lparr>ad_network = Mainnet, ad_scheme = MlDsa65, ad_hash = replicate 32 7\<rparr>"]
  by (simp add: valid_address_def SCHEME_ALL_def)

end
