(* ===== verification/Compact.thy ===== *)
theory Compact
  imports Block
begin

text \<open>
  Compact block relay: the keyed hash SipHash-2-4 (\<open>src/src/siphash.rs\<close>), the compact announcement of a block,
  its wire form, and the reconstruction of the block from the transactions a node already has
  (\<open>src/src/compact.rs\<close>). The share of transactions found (\<open>hit_rate\<close>, a float for statistics) is not modelled.
\<close>

unbundle bit_operations_syntax

section \<open>SipHash\<close>

type_synonym sip_vars = "u64 \<times> u64 \<times> u64 \<times> u64"

record sip_hasher =
  sip_v :: sip_vars
  sip_buffer :: "byte list"
  sip_buffered :: nat
  sip_total :: nat

fun sipround :: "sip_vars \<Rightarrow> sip_vars" where
  "sipround (v0, v1, v2, v3) =
     (let v0 = v0 + v1; v1 = word_rotl 13 v1; v1 = v1 XOR v0; v0 = word_rotl 32 v0;
          v2 = v2 + v3; v3 = word_rotl 16 v3; v3 = v3 XOR v2;
          v0 = v0 + v3; v3 = word_rotl 21 v3; v3 = v3 XOR v0;
          v2 = v2 + v1; v1 = word_rotl 17 v1; v1 = v1 XOR v2; v2 = word_rotl 32 v2
      in (v0, v1, v2, v3))"

definition sip_new :: "u64 \<Rightarrow> u64 \<Rightarrow> sip_hasher" where
  "sip_new k0 k1 =
     \<lparr>sip_v = (k0 XOR 0x736f6d6570736575, k1 XOR 0x646f72616e646f6d, k0 XOR 0x6c7967656e657261, k1 XOR 0x7465646279746573),
      sip_buffer = replicate 8 0, sip_buffered = 0, sip_total = 0\<rparr>"

fun sip_absorb :: "sip_vars \<Rightarrow> u64 \<Rightarrow> sip_vars" where
  "sip_absorb (v0, v1, v2, v3) m =
     (case sipround (sipround (v0, v1, v2, v3 XOR m)) of (v0, v1, v2, v3) \<Rightarrow> (v0 XOR m, v1, v2, v3))"

function sip_words :: "sip_vars \<Rightarrow> byte list \<Rightarrow> sip_vars \<times> byte list" where
  "sip_words v bs =
     (if length bs \<ge> 8 then sip_words (sip_absorb v (u64_from_le (take 8 bs))) (drop 8 bs) else (v, bs))"
  by pat_completeness auto
termination
  by (relation "measure (\<lambda>(v, bs). length bs)") auto

declare sip_words.simps [simp del]

text \<open>The count of bytes is a \<open>usize\<close>; only its value modulo 256 is used.\<close>

definition sip_update :: "sip_hasher \<Rightarrow> byte list \<Rightarrow> sip_hasher" where
  "sip_update h bs =
     (let h = h\<lparr>sip_total := sip_total h + length bs\<rparr>;
          (h, bs) =
            (if sip_buffered h > 0 then
               let need = 8 - sip_buffered h;
                   tk = min need (length bs);
                   buf = copy_at (sip_buffered h) (take tk bs) (sip_buffer h);
                   n = sip_buffered h + tk
               in if n = 8 then (h\<lparr>sip_buffer := buf, sip_buffered := 0, sip_v := sip_absorb (sip_v h) (u64_from_le buf)\<rparr>, drop tk bs)
                  else (h\<lparr>sip_buffer := buf, sip_buffered := n\<rparr>, drop tk bs)
             else (h, bs));
          (v, bs) = sip_words (sip_v h) bs;
          h = h\<lparr>sip_v := v\<rparr>
      in if bs \<noteq> [] then h\<lparr>sip_buffer := copy_at 0 bs (sip_buffer h), sip_buffered := length bs\<rparr> else h)"

fun sip_end :: "sip_vars \<Rightarrow> u64" where
  "sip_end (v0, v1, v2, v3) =
     (case sipround (sipround (sipround (sipround (v0, v1, v2 XOR 0xff, v3)))) of (v0, v1, v2, v3) \<Rightarrow> v0 XOR v1 XOR v2 XOR v3)"

definition sip_finalize :: "sip_hasher \<Rightarrow> u64" where
  "sip_finalize h =
     (let last_bytes = (copy_at 0 (take (sip_buffered h) (sip_buffer h)) (replicate 8 0))[7 := of_nat (sip_total h mod 256)]
      in sip_end (sip_absorb (sip_v h) (u64_from_le last_bytes)))"

definition siphash24 :: "u64 \<Rightarrow> u64 \<Rightarrow> byte list \<Rightarrow> u64" where
  "siphash24 k0 k1 bs = sip_finalize (sip_update (sip_new k0 k1) bs)"

section \<open>Compact announcements\<close>

definition SHORT_ID_LEN :: nat where
  "SHORT_ID_LEN = 6"

definition TAG_COMPACT_KEY :: string where
  "TAG_COMPACT_KEY = ''Q21/compact/key''"

datatype CompactError =
    CompactBadMerkleRoot
  | WrongTransactionCount nat nat
  | UnexpectedTransaction nat
  | TooManyTransactions nat
  | MissingCoinbase
  | CompactRead ReadError

definition short_id_key :: "block_header \<Rightarrow> u64 \<Rightarrow> u64 \<times> u64" where
  "short_id_key header nonce =
     (let h = tagged_hash_parts TAG_COMPACT_KEY [header_encode header, u64_le nonce]
      in (u64_from_le (take 8 h), u64_from_le (take 8 (drop 8 h))))"

definition short_id :: "u64 \<times> u64 \<Rightarrow> hash256 \<Rightarrow> u64" where
  "short_id k tid = siphash24 (fst k) (snd k) tid AND 0x0000ffffffffffff"

record compact_block =
  cb_header :: block_header
  cb_nonce :: u64
  cb_short_ids :: "u64 list"
  cb_prefilled :: "(u32 \<times> transaction) list"
  cb_uncles :: "block_header list"

definition from_block :: "block \<Rightarrow> u64 \<Rightarrow> compact_block" where
  "from_block b nonce =
     (let k = short_id_key (blk_header b) nonce
      in \<lparr>cb_header = blk_header b, cb_nonce = nonce,
          cb_short_ids = map (\<lambda>t. short_id k (txid t)) (drop 1 (blk_transactions b)),
          cb_prefilled = map (\<lambda>t. (0, t)) (take 1 (blk_transactions b)),
          cb_uncles = blk_uncles b\<rparr>)"

definition tx_count :: "compact_block \<Rightarrow> nat" where
  "tx_count c = length (cb_short_ids c) + length (cb_prefilled c)"

definition w_short_id :: "u64 \<Rightarrow> byte list" where
  "w_short_id i = take SHORT_ID_LEN (u64_le i)"

definition w_prefilled :: "u32 \<times> transaction \<Rightarrow> byte list" where
  "w_prefilled p = w_varint (unat (fst p)) @ w_var_bytes (tx_encode (snd p))"

definition compact_encode :: "compact_block \<Rightarrow> byte list" where
  "compact_encode c =
     header_encode (cb_header c) @ w_u64 (cb_nonce c)
     @ w_varint (length (cb_short_ids c)) @ concat (map w_short_id (cb_short_ids c))
     @ w_varint (length (cb_prefilled c)) @ concat (map w_prefilled (cb_prefilled c))
     @ w_varint (length (cb_uncles c)) @ concat (map header_encode (cb_uncles c))"

definition read_short_id :: "byte list \<Rightarrow> (u64 \<times> byte list, CompactError) result" where
  "read_short_id bs =
     rbind (map_err CompactRead (read_n r_u8 SHORT_ID_LEN bs)) (\<lambda>(buf, bs). Ok (u64_from_le (buf @ replicate (8 - SHORT_ID_LEN) 0), bs))"

definition read_prefilled :: "byte list \<Rightarrow> ((u32 \<times> transaction) \<times> byte list, CompactError) result" where
  "read_prefilled bs =
     rbind (map_err CompactRead (r_varint bs)) (\<lambda>(raw, bs).
       if raw > 0xffffffff then Err (CompactRead InvalidValue)
       else rbind (map_err CompactRead (r_var_bytes bs)) (\<lambda>(bytes, bs).
            rbind (map_err (\<lambda>_. CompactRead InvalidValue) (tx_decode bytes)) (\<lambda>t. Ok ((of_nat raw, t), bs))))"

definition read_compact_uncle :: "byte list \<Rightarrow> (block_header \<times> byte list, CompactError) result" where
  "read_compact_uncle bs =
     rbind (map_err CompactRead (read_n r_u8 HEADER_SIZE bs)) (\<lambda>(buf, bs).
     rbind (map_err CompactRead (header_decode buf)) (\<lambda>h. Ok (h, bs)))"

definition compact_decode :: "byte list \<Rightarrow> (compact_block, CompactError) result" where
  "compact_decode bs =
     (if length bs < HEADER_SIZE then Err (CompactRead UnexpectedEnd)
      else rbind (map_err CompactRead (header_decode (take HEADER_SIZE bs))) (\<lambda>header.
           rbind (map_err CompactRead (r_u64 (drop HEADER_SIZE bs))) (\<lambda>(nonce, bs).
           rbind (map_err CompactRead (read_count 6 bs)) (\<lambda>(n, bs).
           if n > MAX_TX_PER_BLOCK then Err (TooManyTransactions n)
           else rbind (read_n read_short_id n bs) (\<lambda>(short_ids, bs).
           rbind (map_err CompactRead (read_count 12 bs)) (\<lambda>(np, bs).
           if np > MAX_TX_PER_BLOCK then Err (TooManyTransactions np)
           else rbind (read_n read_prefilled np bs) (\<lambda>(prefilled, bs).
           rbind (map_err CompactRead (read_count HEADER_SIZE bs)) (\<lambda>(nu, bs).
           if nu > 64 then Err (TooManyTransactions nu)
           else rbind (read_n read_compact_uncle nu bs) (\<lambda>(uncles, bs).
           rbind (map_err CompactRead (expect_end bs)) (\<lambda>_.
             Ok \<lparr>cb_header = header, cb_nonce = nonce, cb_short_ids = short_ids, cb_prefilled = prefilled, cb_uncles = uncles\<rparr>))))))))))"

section \<open>Reconstruction\<close>

record reconstruction =
  rc_header :: block_header
  rc_uncles :: "block_header list"
  rc_slots :: "transaction option list"
  rc_missing :: "nat list"

text \<open>The table of the short identifiers of what the node has; \<open>None\<close> is an ambiguous one.\<close>

definition note_short :: "u64 \<times> u64 \<Rightarrow> (u64, transaction option) hmap \<Rightarrow> hash256 \<times> transaction \<Rightarrow> (u64, transaction option) hmap" where
  "note_short k m it =
     (let sid = short_id k (fst it)
      in case hget m sid of Some _ \<Rightarrow> hput sid None m | None \<Rightarrow> hput sid (Some (snd it)) m)"

fun put_prefilled :: "transaction option list \<Rightarrow> (u32 \<times> transaction) list \<Rightarrow> (transaction option list, CompactError) result" where
  "put_prefilled slots [] = Ok slots"
| "put_prefilled slots ((i, t) # ps) =
     (if unat i \<ge> length slots then Err (UnexpectedTransaction (unat i)) else put_prefilled (slots[unat i := Some t]) ps)"

fun fill_free :: "(u64, transaction option) hmap \<Rightarrow> transaction option list \<Rightarrow> nat list \<Rightarrow> nat list \<Rightarrow> u64 list
  \<Rightarrow> (transaction option list \<times> nat list, CompactError) result" where
  "fill_free by_id slots missing free [] = Ok (slots, missing)"
| "fill_free by_id slots missing free (sid # sids) =
     (case free of
        [] \<Rightarrow> Err (UnexpectedTransaction (length slots))
      | i # free \<Rightarrow>
          (case hget by_id sid of
             Some (Some t) \<Rightarrow> fill_free by_id (slots[i := Some t]) missing free sids
           | _ \<Rightarrow> fill_free by_id slots (missing @ [i]) free sids))"

definition from_compact :: "compact_block \<Rightarrow> (hash256, transaction) hmap \<Rightarrow> (reconstruction, CompactError) result" where
  "from_compact c available =
     (let n = tx_count c
      in if n > MAX_TX_PER_BLOCK then Err (TooManyTransactions n)
         else let k = short_id_key (cb_header c) (cb_nonce c);
                  by_id = foldl (note_short k) [] available
              in rbind (put_prefilled (replicate n None) (cb_prefilled c)) (\<lambda>slots.
                 if slots = [] \<or> slots ! 0 = None then Err MissingCoinbase
                 else rbind (fill_free by_id slots [] (filter (\<lambda>i. slots ! i = None) [0..<length slots]) (cb_short_ids c)) (\<lambda>(slots, missing).
                   Ok \<lparr>rc_header = cb_header c, rc_uncles = cb_uncles c, rc_slots = slots, rc_missing = missing\<rparr>)))"

definition is_complete :: "reconstruction \<Rightarrow> bool" where
  "is_complete r \<longleftrightarrow> rc_missing r = []"

fun collect_slots :: "nat \<Rightarrow> transaction option list \<Rightarrow> (transaction list, CompactError) result" where
  "collect_slots i [] = Ok []"
| "collect_slots i (s # ss) =
     (case s of Some t \<Rightarrow> rbind (collect_slots (Suc i) ss) (\<lambda>ts. Ok (t # ts)) | None \<Rightarrow> Err (UnexpectedTransaction i))"

definition rc_finalize :: "reconstruction \<Rightarrow> (block, CompactError) result" where
  "rc_finalize r =
     rbind (collect_slots 0 (rc_slots r)) (\<lambda>ts.
       let b = \<lparr>blk_header = rc_header r, blk_transactions = ts, blk_uncles = rc_uncles r\<rparr>
       in if compute_merkle_root b \<noteq> hdr_merkle_root (blk_header b) then Err CompactBadMerkleRoot else Ok b)"

text \<open>A slot out of range would panic.\<close>

fun put_supplied :: "transaction option list \<Rightarrow> (nat \<times> transaction) list \<Rightarrow> (transaction option list, CompactError) result" where
  "put_supplied slots [] = Ok slots"
| "put_supplied slots ((i, t) # ps) = (if i < length slots then put_supplied (slots[i := Some t]) ps else Panic)"

definition rc_complete :: "reconstruction \<Rightarrow> transaction list \<Rightarrow> (block, CompactError) result" where
  "rc_complete r supplied =
     (if length supplied \<noteq> length (rc_missing r) then Err (WrongTransactionCount (length (rc_missing r)) (length supplied))
      else rbind (put_supplied (rc_slots r) (zip (rc_missing r) supplied)) (\<lambda>slots. rc_finalize (r\<lparr>rc_slots := slots\<rparr>)))"

definition rc_finish :: "reconstruction \<Rightarrow> (block, CompactError) result" where
  "rc_finish r = (if rc_missing r \<noteq> [] then Err (WrongTransactionCount (length (rc_missing r)) 0) else rc_finalize r)"

section \<open>The keyed hash, in one pass\<close>

lemma sip_words_append: "sip_words v (a @ b) = (case sip_words v a of (v', r) \<Rightarrow> sip_words v' (r @ b))"
proof (induction v a rule: sip_words.induct)
  case (1 v a)
  show ?case
  proof (cases "length a \<ge> 8")
    case True
    have "sip_words v (a @ b) = sip_words (sip_absorb v (u64_from_le (take 8 a))) (drop 8 a @ b)"
      using True by (subst sip_words.simps) simp
    moreover have "sip_words v a = sip_words (sip_absorb v (u64_from_le (take 8 a))) (drop 8 a)"
      using True by (subst sip_words.simps) simp
    ultimately show ?thesis using 1 True by simp
  next
    case False
    then show ?thesis by (subst (2) sip_words.simps) simp
  qed
qed

lemma sip_words_short: "length bs < 8 \<Longrightarrow> sip_words v bs = (v, bs)"
  by (simp add: sip_words.simps)

lemma sip_words_one: "length bs = 8 \<Longrightarrow> sip_words v bs = (sip_absorb v (u64_from_le bs), [])"
  by (subst sip_words.simps) (simp add: sip_words_short)

lemma sip_words_rest: "length (snd (sip_words v bs)) < 8"
  by (induction v bs rule: sip_words.induct) (subst sip_words.simps, auto)

definition sip_holds :: "sip_vars \<Rightarrow> sip_hasher \<Rightarrow> byte list \<Rightarrow> bool" where
  "sip_holds v h m \<longleftrightarrow> sip_words v m = (sip_v h, take (sip_buffered h) (sip_buffer h)) \<and> sip_buffered h < 8 \<and>
     length (sip_buffer h) = 8 \<and> sip_total h = length m"

lemma sip_update_holds:
  assumes "sip_holds v h m"
  shows "sip_holds v (sip_update h d) (m @ d)"
proof -
  let ?b = "sip_buffered h" and ?buf = "sip_buffer h" and ?v = "sip_v h"
  let ?tk = "min (8 - ?b) (length d)"
  let ?nb = "copy_at ?b (take ?tk d) ?buf"
  have b: "?b < 8" "length ?buf = 8" and w: "sip_words v m = (?v, take ?b ?buf)" and tot: "sip_total h = length m"
    using assms by (simp_all add: sip_holds_def)
  have full: "sip_words v (m @ d) = sip_words ?v (take ?b ?buf @ d)" using sip_words_append [of v m d] w by simp
  obtain v' r where fin: "sip_words ?v (take ?b ?buf @ d) = (v', r)" by (cases "sip_words ?v (take ?b ?buf @ d)")
  have r: "length r < 8" using sip_words_rest [of ?v "take ?b ?buf @ d"] fin by simp
  show ?thesis
  proof (cases "?b = 0")
    case True
    then have "sip_words ?v d = (v', r)" using fin by simp
    then show ?thesis using True r full fin b tot by (auto simp: sip_update_def Let_def sip_holds_def copy_at_def)
  next
    case False
    have nb: "take (?b + ?tk) ?nb = take ?b ?buf @ take ?tk d" using take_copy_at [of ?b ?buf "take ?tk d"] b by simp
    show ?thesis
    proof (cases "?b + ?tk = 8")
      case True
      then have "?nb = take ?b ?buf @ take ?tk d" using nb b by simp
      moreover have "length (take ?b ?buf @ take ?tk d) = 8" using True b by simp
      ultimately have "sip_words (sip_absorb ?v (u64_from_le ?nb)) (drop ?tk d) = (v', r)"
        using sip_words_append [of ?v "take ?b ?buf @ take ?tk d" "drop ?tk d"] fin by (simp add: sip_words_one)
      then show ?thesis using True False r full fin b tot by (auto simp: sip_update_def Let_def sip_holds_def copy_at_def)
    next
      case less: False
      then have tk: "?tk = length d" "?b + length d < 8" using b by auto
      then have "sip_words ?v (take ?b ?buf @ d) = (?v, take ?b ?buf @ d)" using b by (intro sip_words_short) simp
      then show ?thesis using tk False full nb b tot by (auto simp: sip_update_def Let_def sip_holds_def sip_words_short)
    qed
  qed
qed

text \<open>Feeding a message in parts gives the hash of the message.\<close>

lemma siphash_streaming: "sip_finalize (foldl sip_update (sip_new k0 k1) ps) = siphash24 k0 k1 (concat ps)"
proof -
  let ?v = "sip_v (sip_new k0 k1)"
  have new: "sip_holds ?v (sip_new k0 k1) []" by (simp add: sip_holds_def sip_new_def sip_words_short)
  have "sip_holds ?v h m \<Longrightarrow> sip_holds ?v (foldl sip_update h ps) (m @ concat ps)" for h m
  proof (induction ps arbitrary: h m)
    case (Cons p ps)
    from Cons.IH [OF sip_update_holds [OF Cons.prems, of p]] show ?case by simp
  qed simp
  from this [OF new] have 1: "sip_holds ?v (foldl sip_update (sip_new k0 k1) ps) (concat ps)" by simp
  have 2: "sip_holds ?v (sip_update (sip_new k0 k1) (concat ps)) (concat ps)" using sip_update_holds [OF new, of "concat ps"] by simp
  show ?thesis using 1 2 by (simp add: siphash24_def sip_finalize_def sip_holds_def)
qed

section \<open>The wire form\<close>

lemma le_bytes_app: "le_bytes (n + m) v = le_bytes n v @ le_bytes m (v div 256 ^ n)"
  by (induction n arbitrary: v) (simp_all add: div_mult2_eq)

lemma le_bytes_0: "le_bytes n 0 = replicate n 0"
  by (induction n) simp_all

lemma le_val_zeros: "le_val (bs @ replicate n 0) = le_val bs"
proof (induction bs)
  case Nil
  then show ?case by (induction n) simp_all
qed simp

interpretation sid: codec w_short_id read_short_id "\<lambda>i. unat i < 2 ^ 48"
proof unfold_locales
  fix i :: u64 and rest
  assume i: "unat i < 2 ^ 48"
  have "unat i div 256 ^ 6 = 0" using i by simp
  then have "le_bytes (6 + 2) (unat i) = le_bytes 6 (unat i) @ replicate 2 0" unfolding le_bytes_app by (simp only: le_bytes_0)
  then have "u64_le i = le_bytes 6 (unat i) @ replicate 2 0" by (simp add: u64_le_def)
  then have w: "w_short_id i = le_bytes 6 (unat i)" by (simp add: w_short_id_def SHORT_ID_LEN_def)
  have "u64_from_le (le_bytes 6 (unat i) @ replicate 2 0) = i"
    using i by (simp add: u64_from_le_def le_val_zeros le_val_le_bytes)
  then show "read_short_id (w_short_id i @ rest) = Ok (i, rest)"
    unfolding w by (simp add: read_short_id_def read_n_u8 SHORT_ID_LEN_def)
next
  fix bs i rest
  assume "read_short_id bs = Ok (i, rest)"
  then obtain buf where b: "buf = take 6 bs" "rest = drop 6 bs" "length bs \<ge> 6" "i = u64_from_le (buf @ replicate 2 0)"
    by (auto simp: read_short_id_def read_n_u8 SHORT_ID_LEN_def split: if_splits)
  have "le_val buf < 2 ^ 48" using le_val_bound [of buf] b(1,3) by simp
  then have u: "unat i = le_val buf" unfolding b(4) u64_from_le_def le_val_zeros by (simp add: unat_of_nat take_bit_eq_mod)
  have "take 6 (le_bytes 8 (le_val buf)) = le_bytes 6 (le_val buf)" using le_bytes_app [of 6 2 "le_val buf"] by simp
  also have "\<dots> = buf" using le_bytes_le_val [of buf] b(1,3) by simp
  finally show "bs = w_short_id i @ rest \<and> unat i < 2 ^ 48"
    using \<open>le_val buf < 2 ^ 48\<close> b(1,2) by (simp add: w_short_id_def SHORT_ID_LEN_def u64_le_def u)
next
  fix bs
  show "read_short_id bs \<noteq> Panic" by (auto simp: read_short_id_def read_n_u8 rbind_Panic_iff)
qed

interpretation pre: codec w_prefilled read_prefilled "\<lambda>p. wf_block_tx (snd p)"
proof unfold_locales
  fix p :: "u32 \<times> transaction" and rest
  assume wf: "wf_block_tx (snd p)"
  have i: "unat (fst p) < 2 ^ 32" using unsigned_less [of "fst p", where ?'a = nat] by simp
  have "r_varint (w_varint (unat (fst p)) @ x) = Ok (unat (fst p), x)" for x using i by (intro varint.dec_enc) simp
  moreover have "r_var_bytes (w_var_bytes (tx_encode (snd p)) @ rest) = Ok (tx_encode (snd p), rest)"
    using wf by (intro var_bytes.dec_enc) (simp add: wf_block_tx_def)
  moreover have "tx_decode (tx_encode (snd p)) = Ok (snd p)" using wf tx_decode_Ok_iff [of "tx_encode (snd p)" "snd p"] by (simp add: wf_block_tx_def)
  ultimately show "read_prefilled (w_prefilled p @ rest) = Ok (p, rest)" using i by (cases p) (simp add: read_prefilled_def w_prefilled_def)
next
  fix bs p rest
  assume r: "read_prefilled bs = Ok (p, rest)"
  obtain raw b1 bytes t where x: "r_varint bs = Ok (raw, b1)" "raw \<le> 0xffffffff" "r_var_bytes b1 = Ok (bytes, rest)" "tx_decode bytes = Ok t" "p = (of_nat raw, t)"
    using r by (auto simp: read_prefilled_def split: if_splits prod.splits)
  have "unat (of_nat raw :: u32) = raw" using x(2) by (simp add: unat_of_nat take_bit_eq_mod)
  then show "bs = w_prefilled p @ rest \<and> wf_block_tx (snd p)"
    using varint.enc_dec [OF x(1)] var_bytes.enc_dec [OF x(3)] x(4,5) by (auto simp: w_prefilled_def wf_block_tx_def tx_decode_Ok_iff)
next
  fix bs
  show "read_prefilled bs \<noteq> Panic"
    by (auto simp: read_prefilled_def rbind_Panic_iff var_bytes.no_panic split: prod.splits if_splits)
qed

interpretation cu: codec header_encode read_compact_uncle wf_header
proof unfold_locales
  fix h rest
  show "wf_header h \<Longrightarrow> read_compact_uncle (header_encode h @ rest) = Ok (h, rest)"
    using header_decode_Ok_iff [of "header_encode h" h] by (simp add: read_compact_uncle_def read_n_u8)
next
  fix bs h rest
  assume "read_compact_uncle bs = Ok (h, rest)"
  then have "header_decode (take HEADER_SIZE bs) = Ok h" "rest = drop HEADER_SIZE bs"
    by (auto simp: read_compact_uncle_def read_n_u8 simp del: header_decode_Ok_iff split: if_splits)
  then show "bs = header_encode h @ rest \<and> wf_header h" by (metis append_take_drop_id header_decode_Ok_iff)
next
  fix bs
  show "read_compact_uncle bs \<noteq> Panic" by (auto simp: read_compact_uncle_def read_n_u8 rbind_Panic_iff split: prod.splits)
qed

definition wf_compact :: "compact_block \<Rightarrow> bool" where
  "wf_compact c \<longleftrightarrow> wf_header (cb_header c) \<and> length (cb_short_ids c) \<le> MAX_TX_PER_BLOCK \<and> (\<forall>i \<in> set (cb_short_ids c). unat i < 2 ^ 48) \<and>
     length (cb_prefilled c) \<le> MAX_TX_PER_BLOCK \<and> (\<forall>p \<in> set (cb_prefilled c). wf_block_tx (snd p)) \<and>
     length (cb_uncles c) \<le> 64 \<and> (\<forall>u \<in> set (cb_uncles c). wf_header u)"

lemma max_txs: "MAX_TX_PER_BLOCK < 2 ^ 32"
  by (simp add: MAX_TX_PER_BLOCK_def MAX_BLOCK_SIZE_def MIN_TX_SIZE_def)

lemma compact_decode_enc:
  assumes wf: "wf_compact c"
  shows "compact_decode (compact_encode c) = Ok c"
proof -
  let ?S = "cb_short_ids c" and ?P = "cb_prefilled c" and ?U = "cb_uncles c"
  let ?u = "concat (map header_encode ?U)"
  let ?p = "concat (map w_prefilled ?P) @ w_varint (length ?U) @ ?u"
  let ?s = "concat (map w_short_id ?S) @ w_varint (length ?P) @ ?p"
  have w: "wf_header (cb_header c)" "\<forall>i \<in> set ?S. unat i < 2 ^ 48" "\<forall>p \<in> set ?P. wf_block_tx (snd p)" "\<forall>u \<in> set ?U. wf_header u"
    "length ?S \<le> MAX_TX_PER_BLOCK" "length ?P \<le> MAX_TX_PER_BLOCK" "length ?U \<le> 64" using wf by (auto simp: wf_compact_def)
  have ls: "length (concat (map w_short_id ?S)) = 6 * length ?S"
    by (rule length_concat_chunks) (simp add: w_short_id_def SHORT_ID_LEN_def u64_le_def)
  have lp: "length ?P * 12 \<le> length (concat (map w_prefilled ?P))"
  proof (rule length_concat_ge)
    fix p show "12 \<le> length (w_prefilled p)" using length_tx_encode_ge [of "snd p"] by (simp add: w_prefilled_def w_var_bytes_def)
  qed
  have lu: "length ?u = HEADER_SIZE * length ?U" using w(4) by (intro length_concat_chunks) auto
  have "header_decode (header_encode (cb_header c)) = Ok (cb_header c)" using w(1) by simp
  moreover have "read_count 6 (w_varint (length ?S) @ ?s) = Ok (length ?S, ?s)"
    by (rule read_count_enc) (use w(5) max_txs ls in simp_all)
  moreover have "read_n read_short_id (length ?S) ?s = Ok (?S, w_varint (length ?P) @ ?p)" by (rule sid.read_n_enc [OF w(2)])
  moreover have "read_count 12 (w_varint (length ?P) @ ?p) = Ok (length ?P, ?p)"
    by (rule read_count_enc) (use w(6) max_txs lp in simp_all)
  moreover have "read_n read_prefilled (length ?P) ?p = Ok (?P, w_varint (length ?U) @ ?u)" by (rule pre.read_n_enc [OF w(3)])
  moreover have "read_count HEADER_SIZE (w_varint (length ?U) @ ?u) = Ok (length ?U, ?u)"
    by (rule read_count_enc) (use w(7) lu in simp_all)
  moreover have "read_n read_compact_uncle (length ?U) ?u = Ok (?U, [])" using cu.read_n_enc [OF w(4), of "[]"] by simp
  moreover have "r_u64 (w_u64 (cb_nonce c) @ x) = Ok (cb_nonce c, x)" for x by simp
  ultimately show ?thesis using w(1,5-7) by (simp add: compact_decode_def compact_encode_def expect_end_def del: header_decode_Ok_iff r_u64_Ok_iff)
qed

lemma compact_decode_dec:
  assumes "compact_decode bs = Ok c"
  shows "bs = compact_encode c \<and> wf_compact c"
proof -
  have long: "\<not> length bs < HEADER_SIZE" using assms by (auto simp: compact_decode_def)
  obtain h nonce b0 n b1 ss b2 np b3 ps b4 nu b5 us where
    r: "header_decode (take HEADER_SIZE bs) = Ok h" "r_u64 (drop HEADER_SIZE bs) = Ok (nonce, b0)" "read_count 6 b0 = Ok (n, b1)" "\<not> n > MAX_TX_PER_BLOCK"
    "read_n read_short_id n b1 = Ok (ss, b2)" "read_count 12 b2 = Ok (np, b3)" "\<not> np > MAX_TX_PER_BLOCK" "read_n read_prefilled np b3 = Ok (ps, b4)"
    "read_count HEADER_SIZE b4 = Ok (nu, b5)" "\<not> nu > 64" "read_n read_compact_uncle nu b5 = Ok (us, [])"
    and c: "c = \<lparr>cb_header = h, cb_nonce = nonce, cb_short_ids = ss, cb_prefilled = ps, cb_uncles = us\<rparr>"
    using assms long unfolding compact_decode_def
    by (auto simp del: header_decode_Ok_iff r_u64_Ok_iff split: prod.splits if_splits)
  note s = sid.read_n_dec [OF r(5)] and p = pre.read_n_dec [OF r(8)] and u = cu.read_n_dec [OF r(11)]
  have h: "wf_header h" "take HEADER_SIZE bs = header_encode h" using r(1) by auto
  have "bs = take HEADER_SIZE bs @ drop HEADER_SIZE bs" by simp
  also have "\<dots> = compact_encode c" unfolding h(2) using r(2,3,6,9) s p u c by (simp add: compact_encode_def read_count_Ok_iff)
  finally show ?thesis using r(4,7,10) s p u c h(1) by (auto simp: wf_compact_def)
qed

section \<open>Reconstruction\<close>

lemma by_id_get:
  "hget (foldl (note_short k) [] available) sid =
   (case filter (\<lambda>it. short_id k (fst it) = sid) available of [] \<Rightarrow> None | [it] \<Rightarrow> Some (Some (snd it)) | _ \<Rightarrow> Some None)"
proof (induction available rule: rev_induct)
  case (snoc it available)
  let ?m = "foldl (note_short k) [] available"
  show ?case
  proof (cases "short_id k (fst it) = sid")
    case True
    then have "hget (note_short k ?m it) sid = (case hget ?m sid of Some _ \<Rightarrow> Some None | None \<Rightarrow> Some (Some (snd it)))"
      by (auto simp: note_short_def [of k ?m] Let_def split: option.split)
    then show ?thesis using snoc True by (simp split: list.splits)
  next
    case False
    then have "hget (note_short k ?m it) sid = hget ?m sid" by (simp add: note_short_def [of k ?m] Let_def split: option.split)
    then show ?thesis using snoc False by simp
  qed
qed simp

lemma by_id_hit: "hget (foldl (note_short k) [] available) sid = Some (Some t) \<Longrightarrow> \<exists>i. (i, t) \<in> set available \<and> short_id k i = sid"
proof -
  assume "hget (foldl (note_short k) [] available) sid = Some (Some t)"
  then obtain it where f: "filter (\<lambda>it. short_id k (fst it) = sid) available = [it]" "snd it = t"
    unfolding by_id_get by (auto split: list.splits)
  from arg_cong [OF f(1), of set] have "it \<in> {x \<in> set available. short_id k (fst x) = sid}" unfolding set_filter by simp
  then have "it \<in> set available \<and> short_id k (fst it) = sid" by blast
  then show ?thesis using f(2) by (intro exI [of _ "fst it"]) (metis prod.collapse)
qed

lemma fill_free_ok:
  "length sids = length free \<Longrightarrow> distinct free \<Longrightarrow> (\<And>i. i \<in> set free \<Longrightarrow> i < length slots) \<Longrightarrow>
   (\<And>j t. j < length free \<Longrightarrow> hget by_id (sids ! j) = Some (Some t) \<Longrightarrow> t = txs ! (free ! j)) \<Longrightarrow>
   (\<And>i. i \<in> set free \<Longrightarrow> slots ! i = None) \<Longrightarrow>
   \<exists>slots' new. fill_free by_id slots missing free sids = Ok (slots', missing @ new) \<and> length slots' = length slots \<and> distinct new \<and>
     set new = {free ! j |j. j < length free \<and> (\<forall>t. hget by_id (sids ! j) \<noteq> Some (Some t))} \<and>
     (\<forall>i < length slots. slots' ! i = (if i \<in> set free - set new then Some (txs ! i) else slots ! i))"
proof (induction sids arbitrary: free slots missing)
  case (Cons sid sids)
  obtain i free' where f: "free = i # free'" using Cons.prems(1) by (cases free) auto
  have i: "i < length slots" "i \<notin> set free'" "distinct free'" using Cons.prems(2) Cons.prems(3) [of i] f by auto
  have len: "length sids = length free'" using Cons.prems(1) f by simp
  have hits: "t = txs ! (free' ! j)" if "j < length free'" "hget by_id (sids ! j) = Some (Some t)" for j t
    using Cons.prems(4) [of "Suc j" t] that f by simp
  have split: "{free ! j |j. j < length free \<and> (\<forall>t. hget by_id ((sid # sids) ! j) \<noteq> Some (Some t))} =
      (if \<forall>t. hget by_id sid \<noteq> Some (Some t) then {i} else {}) \<union> {free' ! j |j. j < length free' \<and> (\<forall>t. hget by_id (sids ! j) \<noteq> Some (Some t))}"
    (is "?L = ?R")
  proof (intro set_eqI iffI)
    fix x assume "x \<in> ?L"
    then obtain j where "x = free ! j" "j < length free" "\<forall>t. hget by_id ((sid # sids) ! j) \<noteq> Some (Some t)" by blast
    then show "x \<in> ?R" using f by (cases j) auto
  next
    fix x assume "x \<in> ?R"
    then consider "x = i" "\<forall>t. hget by_id sid \<noteq> Some (Some t)" | j where "x = free' ! j" "j < length free'" "\<forall>t. hget by_id (sids ! j) \<noteq> Some (Some t)"
      by (auto split: if_splits)
    then show "x \<in> ?L"
    proof cases
      case 1
      then show ?thesis using f by (intro CollectI exI [of _ 0]) simp
    next
      case 2
      then show ?thesis using f by (intro CollectI exI [of _ "Suc j"]) simp
    qed
  qed
  show ?case
  proof (cases "\<exists>t. hget by_id sid = Some (Some t)")
    case True
    then obtain t where t: "hget by_id sid = Some (Some t)" by blast
    have ti: "t = txs ! i" using Cons.prems(4) [of 0 t] t f by simp
    let ?s = "slots[i := Some t]"
    have a: "k < length ?s" "?s ! k = None" if "k \<in> set free'" for k
      using Cons.prems(3,5) [of k] that f i by (auto simp: nth_list_update)
    obtain slots' new where n: "fill_free by_id ?s missing free' sids = Ok (slots', missing @ new)" "length slots' = length ?s" "distinct new"
      "set new = {free' ! j |j. j < length free' \<and> (\<forall>t. hget by_id (sids ! j) \<noteq> Some (Some t))}"
      "\<forall>k < length ?s. slots' ! k = (if k \<in> set free' - set new then Some (txs ! k) else ?s ! k)"
      using Cons.IH [OF len i(3) a(1) hits a(2)] by blast
    have sub: "set new \<subseteq> set free'" unfolding n(4) by auto
    have "slots' ! k = (if k \<in> set free - set new then Some (txs ! k) else slots ! k)" if "k < length slots" for k
      using n(5) that i(1,2) sub ti f by (auto simp: nth_list_update)
    moreover have "set new = {free ! j |j. j < length free \<and> (\<forall>t. hget by_id ((sid # sids) ! j) \<noteq> Some (Some t))}"
      unfolding split n(4) using True by auto
    ultimately show ?thesis using n(1-3) t f by (intro exI [of _ slots'] exI [of _ new]) simp
  next
    case False
    have a: "k < length slots" "slots ! k = None" if "k \<in> set free'" for k using Cons.prems(3,5) [of k] that f by auto
    obtain slots' new where n: "fill_free by_id slots (missing @ [i]) free' sids = Ok (slots', (missing @ [i]) @ new)" "length slots' = length slots" "distinct new"
      "set new = {free' ! j |j. j < length free' \<and> (\<forall>t. hget by_id (sids ! j) \<noteq> Some (Some t))}"
      "\<forall>k < length slots. slots' ! k = (if k \<in> set free' - set new then Some (txs ! k) else slots ! k)"
      using Cons.IH [OF len i(3) a(1) hits a(2)] by blast
    have sub: "set new \<subseteq> set free'" unfolding n(4) by auto
    have "fill_free by_id slots missing free (sid # sids) = Ok (slots', missing @ i # new)"
      using n(1) False f by (auto split: option.split)
    moreover have "slots' ! k = (if k \<in> set free - set (i # new) then Some (txs ! k) else slots ! k)" if "k < length slots" for k
      using n(5) that i(2) f by auto
    moreover have "set (i # new) = {free ! j |j. j < length free \<and> (\<forall>t. hget by_id ((sid # sids) ! j) \<noteq> Some (Some t))}"
      unfolding split using n(4) False by auto
    moreover have "distinct (i # new)" using n(3) sub i(2) by auto
    ultimately show ?thesis using n(2) by blast
  qed
qed simp

lemma put_supplied_ok:
  "(\<And>i. i \<in> set is \<Longrightarrow> i < length slots) \<Longrightarrow> \<exists>slots'. put_supplied slots (zip is (map (\<lambda>i. txs ! i) is)) = Ok slots' \<and>
     length slots' = length slots \<and> (\<forall>k < length slots. slots' ! k = (if k \<in> set is then Some (txs ! k) else slots ! k))"
proof (induction "is" arbitrary: slots)
  case (Cons i js)
  have "\<And>k. k \<in> set js \<Longrightarrow> k < length (slots[i := Some (txs ! i)])" using Cons.prems by simp
  from Cons.IH [OF this] Cons.prems [of i] show ?case by (auto simp: nth_list_update)
qed simp

lemma collect_slots_Some: "collect_slots i (map Some ts) = Ok ts"
  by (induction ts arbitrary: i) simp_all

lemma collect_slots_Ok: "collect_slots i ss = Ok ts \<Longrightarrow> ss = map Some ts"
  by (induction ss arbitrary: i ts) (auto split: option.splits)

text \<open>The announcement of a block: the coinbase in full, the others by their short identifiers.\<close>

definition no_confusion :: "block \<Rightarrow> u64 \<Rightarrow> (hash256, transaction) hmap \<Rightarrow> bool" where
  "no_confusion b nonce available \<longleftrightarrow>
     (\<forall>(i, t) \<in> set available. \<forall>u \<in> set (drop 1 (blk_transactions b)).
        short_id (short_id_key (blk_header b) nonce) i = short_id (short_id_key (blk_header b) nonce) (txid u) \<longrightarrow> t = u)"

lemma from_block_slots:
  assumes ne: "blk_transactions b = c # ts" and n: "length (blk_transactions b) \<le> MAX_TX_PER_BLOCK" and nc: "no_confusion b nonce available"
  defines "k \<equiv> short_id_key (blk_header b) nonce" and "txs \<equiv> blk_transactions b"
  shows "\<exists>r. from_compact (from_block b nonce) available = Ok r \<and> rc_header r = blk_header b \<and> rc_uncles r = blk_uncles b \<and>
    length (rc_slots r) = length txs \<and> distinct (rc_missing r) \<and>
    set (rc_missing r) = {i. 0 < i \<and> i < length txs \<and> (\<forall>t. hget (foldl (note_short k) [] available) (short_id k (txid (txs ! i))) \<noteq> Some (Some t))} \<and>
    (\<forall>i < length txs. rc_slots r ! i = (if i \<in> set (rc_missing r) then None else Some (txs ! i)))"
proof -
  let ?by = "foldl (note_short k) [] available" and ?sids = "map (\<lambda>t. short_id k (txid t)) ts" and ?slots = "Some c # replicate (length ts) None"
  have txs: "txs = c # ts" using ne by (simp add: txs_def)
  have put: "put_prefilled (replicate (Suc (length ts)) None) [(0, c)] = Ok ?slots" by simp
  have free: "filter (\<lambda>i. ?slots ! i = None) [0..<length ?slots] = [1..<Suc (length ts)]"
  proof -
    have "[0..<length ?slots] = 0 # [1..<Suc (length ts)]" by (simp add: upt_conv_Cons del: upt_Suc)
    moreover have "filter (\<lambda>i. ?slots ! i = None) [1..<Suc (length ts)] = [1..<Suc (length ts)]"
      by (rule filter_True) (auto simp: nth_Cons split: nat.split)
    ultimately show ?thesis by simp
  qed
  have "\<exists>slots' new. fill_free ?by ?slots [] [1..<Suc (length ts)] ?sids = Ok (slots', [] @ new) \<and> length slots' = length ?slots \<and> distinct new \<and>
     set new = {[1..<Suc (length ts)] ! j |j. j < length [1..<Suc (length ts)] \<and> (\<forall>t. hget ?by (?sids ! j) \<noteq> Some (Some t))} \<and>
     (\<forall>i < length ?slots. slots' ! i = (if i \<in> set [1..<Suc (length ts)] - set new then Some (txs ! i) else ?slots ! i))"
  proof (rule fill_free_ok)
    fix j t assume j: "j < length [1..<Suc (length ts)]" "hget ?by (?sids ! j) = Some (Some t)"
    have jl: "j < length ts" using j(1) by (simp del: upt_Suc)
    obtain i where "(i, t) \<in> set available" "short_id k i = short_id k (txid (ts ! j))" using by_id_hit [OF j(2)] jl by auto
    moreover have "ts ! j \<in> set (drop 1 (blk_transactions b))" using jl ne by simp
    ultimately have "t = ts ! j" using nc unfolding no_confusion_def k_def by blast
    then show "t = txs ! ([1..<Suc (length ts)] ! j)" using jl txs by (simp del: upt_Suc)
  next
    fix i assume "i \<in> set [1..<Suc (length ts)]"
    then have "i \<noteq> 0" "i < Suc (length ts)" by (simp_all del: upt_Suc)
    then obtain j where "i = Suc j" "j < length ts" using not0_implies_Suc by blast
    then show "i < length ?slots" "?slots ! i = None" by simp_all
  qed (simp_all del: upt_Suc)
  then obtain slots' new where f: "fill_free ?by ?slots [] [1..<Suc (length ts)] ?sids = Ok (slots', new)" "length slots' = length txs" "distinct new"
    "set new = {[1..<Suc (length ts)] ! j |j. j < length [1..<Suc (length ts)] \<and> (\<forall>t. hget ?by (?sids ! j) \<noteq> Some (Some t))}"
    "\<forall>i < length ?slots. slots' ! i = (if i \<in> set [1..<Suc (length ts)] - set new then Some (txs ! i) else ?slots ! i)" using txs by auto
  have new: "set new = {i. 0 < i \<and> i < length txs \<and> (\<forall>t. hget ?by (short_id k (txid (txs ! i))) \<noteq> Some (Some t))}" (is "_ = ?N")
  proof (intro set_eqI iffI)
    fix x assume "x \<in> set new"
    then obtain j where "x = Suc j" "j < length ts" "\<forall>t. hget ?by (short_id k (txid (ts ! j))) \<noteq> Some (Some t)"
      unfolding f(4) by (auto simp: nth_append simp del: upt_Suc)
    then show "x \<in> ?N" using txs by simp
  next
    fix x assume x: "x \<in> ?N"
    then obtain j where "x = Suc j" by (cases x) auto
    then show "x \<in> set new" unfolding f(4) using x txs by (intro CollectI exI [of _ j]) (simp del: upt_Suc)
  qed
  let ?r = "\<lparr>rc_header = blk_header b, rc_uncles = blk_uncles b, rc_slots = slots', rc_missing = new\<rparr>"
  have "from_compact (from_block b nonce) available = Ok ?r"
    using n ne put free f(1) by (simp add: from_compact_def from_block_def tx_count_def Let_def k_def del: upt_Suc)
  moreover have "slots' ! i = (if i \<in> set new then None else Some (txs ! i))" if "i < length txs" for i
    using f(5) that new txs by (cases i) auto
  ultimately show ?thesis using f(2,3) new by (intro exI [of _ ?r]) simp
qed

lemma finalize_full:
  assumes "length (rc_slots r) = length txs" "\<forall>i < length txs. rc_slots r ! i = Some (txs ! i)"
    and "b = \<lparr>blk_header = rc_header r, blk_transactions = txs, blk_uncles = rc_uncles r\<rparr>" "compute_merkle_root b = hdr_merkle_root (blk_header b)"
  shows "rc_finalize r = Ok b"
proof -
  have "rc_slots r = map Some txs" by (rule nth_equalityI) (use assms(1,2) in simp_all)
  then show ?thesis using assms(3,4) by (simp add: rc_finalize_def collect_slots_Some Let_def)
qed

text \<open>C31. Compact relay rebuilds the block: for a block with its Merkle root right, and as long as no transaction the node
  has is taken for another one by its short identifier, the announcement is accepted, what is asked for again is what
  the node has no unambiguous transaction for, and with the transactions asked for the very block announced comes out.\<close>

theorem compact_relay_exact:
  assumes "blk_transactions b \<noteq> []" "length (blk_transactions b) \<le> MAX_TX_PER_BLOCK" "compute_merkle_root b = hdr_merkle_root (blk_header b)"
    and "no_confusion b nonce available"
  shows "\<exists>r. from_compact (from_block b nonce) available = Ok r \<and>
    rc_complete r (map (\<lambda>i. blk_transactions b ! i) (rc_missing r)) = Ok b \<and> (is_complete r \<longrightarrow> rc_finish r = Ok b) \<and>
    (\<forall>i t. 0 < i \<and> i < length (blk_transactions b) \<and>
       filter (\<lambda>it. short_id (short_id_key (blk_header b) nonce) (fst it) =
         short_id (short_id_key (blk_header b) nonce) (txid (blk_transactions b ! i))) available = [(txid (blk_transactions b ! i), t)] \<longrightarrow>
       i \<notin> set (rc_missing r))"
proof -
  let ?txs = "blk_transactions b"
  obtain c ts where ne: "?txs = c # ts" using assms(1) by (cases ?txs) auto
  obtain r where r: "from_compact (from_block b nonce) available = Ok r" "rc_header r = blk_header b" "rc_uncles r = blk_uncles b"
    "length (rc_slots r) = length ?txs"
    "set (rc_missing r) = {i. 0 < i \<and> i < length ?txs \<and> (\<forall>t. hget (foldl (note_short (short_id_key (blk_header b) nonce)) [] available)
        (short_id (short_id_key (blk_header b) nonce) (txid (?txs ! i))) \<noteq> Some (Some t))}"
    "\<forall>i < length ?txs. rc_slots r ! i = (if i \<in> set (rc_missing r) then None else Some (?txs ! i))"
    using from_block_slots [OF ne assms(2,4)] by blast
  have b: "b = \<lparr>blk_header = rc_header r, blk_transactions = ?txs, blk_uncles = rc_uncles r\<rparr>" using r(2,3) by simp
  obtain slots where s: "put_supplied (rc_slots r) (zip (rc_missing r) (map (\<lambda>i. ?txs ! i) (rc_missing r))) = Ok slots" "length slots = length (rc_slots r)"
    "\<forall>k < length (rc_slots r). slots ! k = (if k \<in> set (rc_missing r) then Some (?txs ! k) else rc_slots r ! k)"
    using put_supplied_ok [of "rc_missing r" "rc_slots r" ?txs] r(4,5) by auto
  have "rc_finalize (r\<lparr>rc_slots := slots\<rparr>) = Ok b"
    by (rule finalize_full [of _ ?txs]) (use s r(4,6) b assms(3) in auto)
  then have "rc_complete r (map (\<lambda>i. ?txs ! i) (rc_missing r)) = Ok b" using s(1) by (simp add: rc_complete_def)
  moreover have "rc_finish r = Ok b" if "is_complete r"
    using finalize_full [of r ?txs b] r(4,6) b assms(3) that by (simp add: rc_finish_def is_complete_def)
  ultimately show ?thesis using r(1,5) by (intro exI [of _ r]) (auto simp: by_id_get)
qed

definition example_hdr :: "hash256 \<Rightarrow> block_header" where
  "example_hdr root = \<lparr>hdr_version = 1, hdr_prev_block = replicate 32 0, hdr_merkle_root = root, hdr_uncles_root = replicate 32 0,
     hdr_miner = replicate 32 0, hdr_time = 0, hdr_bits = 0, hdr_height = 0, hdr_nonce = 0\<rparr>"

lemma example_block_nc: "no_confusion b nonce []"
  by (simp add: no_confusion_def)

theorem compact_relay_exact_witness:
  "\<exists>r. from_compact (from_block \<lparr>blk_header = example_hdr (merkle_root [merkle_leaf example_tx]), blk_transactions = [example_tx], blk_uncles = []\<rparr> 5) [] = Ok r \<and>
    rc_complete r (map (\<lambda>i. [example_tx] ! i) (rc_missing r)) =
      Ok \<lparr>blk_header = example_hdr (merkle_root [merkle_leaf example_tx]), blk_transactions = [example_tx], blk_uncles = []\<rparr>"
  using compact_relay_exact [OF _ _ _ example_block_nc, of "\<lparr>blk_header = example_hdr (merkle_root [merkle_leaf example_tx]), blk_transactions = [example_tx], blk_uncles = []\<rparr>" 5]
  by (auto simp: compute_merkle_root_def example_hdr_def MAX_TX_PER_BLOCK_def MAX_BLOCK_SIZE_def MIN_TX_SIZE_def)

text \<open>The wire form of a compact announcement is canonical: decoding accepts exactly the encodings of well-formed
  announcements, within the limits on counts, and no input makes it panic.\<close>

theorem compact_decode_canonical:
  "(compact_decode bs = Ok c \<longleftrightarrow> wf_compact c \<and> bs = compact_encode c) \<and> compact_decode bs \<noteq> Panic"
proof -
  have "compact_decode bs \<noteq> Panic"
    by (auto simp: compact_decode_def rbind_Panic_iff sid.read_n_no_panic pre.read_n_no_panic cu.read_n_no_panic split: prod.splits if_splits)
  then show ?thesis using compact_decode_enc compact_decode_dec by blast
qed

lemma put_prefilled_length: "put_prefilled slots ps = Ok slots' \<Longrightarrow> length slots' = length slots"
  by (induction slots ps rule: put_prefilled.induct) (auto split: if_splits)

lemma fill_free_range:
  "fill_free by_id slots missing free sids = Ok (slots', missing') \<Longrightarrow> (\<And>i. i \<in> set missing \<union> set free \<Longrightarrow> i < length slots) \<Longrightarrow>
   length slots' = length slots \<and> (\<forall>i \<in> set missing'. i < length slots)"
proof (induction sids arbitrary: slots missing free)
  case (Cons sid sids)
  obtain i free' where f: "free = i # free'" using Cons.prems(1) by (cases free) auto
  have p: "k < length slots" if "k \<in> set (missing @ [i]) \<union> set free'" for k using Cons.prems(2) [of k] that f by auto
  show ?case
  proof (cases "\<exists>t. hget by_id sid = Some (Some t)")
    case True
    then obtain t where "hget by_id sid = Some (Some t)" by blast
    then have "fill_free by_id (slots[i := Some t]) missing free' sids = Ok (slots', missing')" using Cons.prems(1) f by simp
    from Cons.IH [OF this] show ?thesis using p by auto
  next
    case False
    then have "fill_free by_id slots (missing @ [i]) free' sids = Ok (slots', missing')" using Cons.prems(1) f by (auto split: option.splits)
    from Cons.IH [OF this p] show ?thesis .
  qed
qed auto

lemma from_compact_range:
  assumes "from_compact c available = Ok r"
  shows "\<forall>i \<in> set (rc_missing r). i < length (rc_slots r)"
proof -
  obtain slots slots' missing by_id where f: "fill_free by_id slots [] (filter (\<lambda>i. slots ! i = None) [0..<length slots]) (cb_short_ids c) = Ok (slots', missing)"
    "rc_slots r = slots'" "rc_missing r = missing"
    using assms by (auto simp: from_compact_def Let_def split: if_splits)
  show ?thesis using fill_free_range [OF f(1)] f(2,3) by auto
qed

lemma finalize_Ok:
  assumes "rc_finalize r = Ok b"
  shows "blk_header b = rc_header r \<and> blk_uncles b = rc_uncles r \<and> compute_merkle_root b = hdr_merkle_root (rc_header r) \<and>
    length (blk_transactions b) = length (rc_slots r)"
  using assms collect_slots_Ok by (fastforce simp: rc_finalize_def Let_def split: if_splits)

definition leaves_of :: "block \<Rightarrow> byte list list" where
  "leaves_of b = map (\<lambda>t. txid t @ wtxid t) (blk_transactions b)"

text \<open>C32. Whatever a peer announces and supplies, completing a reconstruction does not panic, and a block comes out only
  with the announced header and a Merkle root that matches it: it then has the transactions of every other block with that
  header and its root right, ids and witness ids alike, or two of the messages hashed in the two trees collide.\<close>

theorem compact_relay_safe:
  assumes "from_compact c available = Ok r"
  shows "rc_complete r supplied \<noteq> Panic \<and> (rc_complete r supplied = Ok b \<or> rc_finish r = Ok b \<longrightarrow>
    blk_header b = cb_header c \<and> blk_uncles b = cb_uncles c \<and> compute_merkle_root b = hdr_merkle_root (cb_header c) \<and>
    (\<forall>b'. blk_header b' = blk_header b \<and> compute_merkle_root b' = hdr_merkle_root (blk_header b') \<and> blk_transactions b' \<noteq> [] \<longrightarrow>
       leaves_of b' = leaves_of b \<or>
       (\<exists>p \<in> set (mqueries (merkle_tree (leaves_of b'))). \<exists>q \<in> set (mqueries (merkle_tree (leaves_of b))). collision p q)))"
proof -
  have hd: "rc_header r = cb_header c" "rc_uncles r = cb_uncles c" using assms by (auto simp: from_compact_def Let_def split: if_splits)
  have ne: "rc_slots r \<noteq> []"
  proof -
    obtain slots slots' missing by_id where f: "fill_free by_id slots [] (filter (\<lambda>i. slots ! i = None) [0..<length slots]) (cb_short_ids c) = Ok (slots', missing)"
      "rc_slots r = slots'" "slots \<noteq> []" using assms by (auto simp: from_compact_def Let_def split: if_splits)
    have "length slots' = length slots" using fill_free_range [OF f(1)] by simp
    then show ?thesis using f(2,3) by auto
  qed
  have put: "(\<And>i. i \<in> set is \<Longrightarrow> i < length slots) \<Longrightarrow> put_supplied slots (zip is ts) \<noteq> Panic \<and>
      (\<forall>s. put_supplied slots (zip is ts) = Ok s \<longrightarrow> length s = length slots)" for "is" slots ts
  proof (induction "is" arbitrary: slots ts)
    case (Cons i js)
    show ?case
    proof (cases ts)
      case (Cons t us)
      then show ?thesis using Cons.prems Cons.IH [of "slots[i := Some t]" us] by auto
    qed simp
  qed simp
  have collect: "collect_slots i ss \<noteq> Panic" for i ss by (induction ss arbitrary: i) (auto simp: rbind_Panic_iff split: option.splits)
  have "rc_complete r supplied \<noteq> Panic"
    using put [of "rc_missing r" "rc_slots r" supplied] from_compact_range [OF assms] collect
    by (auto simp: rc_complete_def rc_finalize_def rbind_Panic_iff Let_def split: if_splits)
  moreover have "blk_header b = cb_header c \<and> blk_uncles b = cb_uncles c \<and> compute_merkle_root b = hdr_merkle_root (cb_header c) \<and> blk_transactions b \<noteq> []"
    if o: "rc_complete r supplied = Ok b \<or> rc_finish r = Ok b"
  proof -
    have "\<exists>slots. rc_finalize (r\<lparr>rc_slots := slots\<rparr>) = Ok b \<and> length slots = length (rc_slots r)"
      using o
    proof
      assume "rc_complete r supplied = Ok b"
      then obtain slots where "put_supplied (rc_slots r) (zip (rc_missing r) supplied) = Ok slots" "rc_finalize (r\<lparr>rc_slots := slots\<rparr>) = Ok b"
        by (auto simp: rc_complete_def split: if_splits)
      then show ?thesis using put [of "rc_missing r" "rc_slots r" supplied] from_compact_range [OF assms] by blast
    next
      assume "rc_finish r = Ok b"
      then have "rc_finalize (r\<lparr>rc_slots := rc_slots r\<rparr>) = Ok b" by (simp add: rc_finish_def split: if_splits)
      then show ?thesis by blast
    qed
    then obtain slots where s: "rc_finalize (r\<lparr>rc_slots := slots\<rparr>) = Ok b" "length slots = length (rc_slots r)" by blast
    show ?thesis using finalize_Ok [OF s(1)] s(2) hd ne by auto
  qed
  moreover have "leaves_of b' = leaves_of b \<or> (\<exists>p \<in> set (mqueries (merkle_tree (leaves_of b'))). \<exists>q \<in> set (mqueries (merkle_tree (leaves_of b))). collision p q)"
    if "compute_merkle_root b' = compute_merkle_root b" "blk_transactions b' \<noteq> []" "blk_transactions b \<noteq> []" for b'
  proof -
    have m: "compute_merkle_root x = merkle_root (map leaf_hash (leaves_of x))" for x
      by (simp add: compute_merkle_root_def leaves_of_def merkle_leaf_def [abs_def] comp_def)
    have l: "leaves_of b \<noteq> []" "leaves_of b' \<noteq> []" using that by (simp_all add: leaves_of_def)
    have "mhash (merkle_tree (leaves_of b')) = mhash (merkle_tree (leaves_of b))"
      using that(1) unfolding m merkle_root_tree [OF l(1)] merkle_root_tree [OF l(2)] .
    from mhash_binding [OF this] show ?thesis using mleaves_merkle_tree [OF l(1)] mleaves_merkle_tree [OF l(2)] by metis
  qed
  ultimately show ?thesis by metis
qed

theorem compact_relay_safe_witness:
  "rc_complete \<lparr>rc_header = example_hdr [], rc_uncles = [], rc_slots = [Some example_tx], rc_missing = []\<rparr> [] \<noteq> Panic"
proof -
  let ?c = "\<lparr>cb_header = example_hdr [], cb_nonce = 0, cb_short_ids = [], cb_prefilled = [(0, example_tx)], cb_uncles = []\<rparr>"
  have "from_compact ?c [] = Ok \<lparr>rc_header = example_hdr [], rc_uncles = [], rc_slots = [Some example_tx], rc_missing = []\<rparr>"
    by (simp add: from_compact_def tx_count_def Let_def MAX_TX_PER_BLOCK_def MAX_BLOCK_SIZE_def MIN_TX_SIZE_def)
  from compact_relay_safe [OF this, of "[]"] show ?thesis by blast
qed

end
