(* ===== verification/Shachain.thy ===== *)
theory Shachain
  imports Hashing "HOL-Library.Multiset"
begin

text \<open>
  Compact storage of the revocation secrets of a payment channel (\<open>src/src/shachain.rs\<close>). Secrets derive from
  a seed along a binary tree; the receiver keeps one secret per number of trailing zero bits and rebuilds every
  secret revealed before. Indices are natural numbers; the code checks them against \<open>MAX_INDEX\<close>. The wiping of
  memory is not modelled.
\<close>

unbundle bit_operations_syntax

section \<open>Derivation\<close>

definition MAX_INDEX :: nat where
  "MAX_INDEX = 2 ^ 48 - 1"

definition MAX_ENTRIES :: nat where
  "MAX_ENTRIES = 49"

type_synonym secret = "byte list"

definition flip_bit_at :: "nat \<Rightarrow> secret \<Rightarrow> secret" where
  "flip_bit_at b p = p[b div 8 := p ! (b div 8) XOR push_bit (b mod 8) 1]"

fun derive_from :: "secret \<Rightarrow> nat \<Rightarrow> nat \<Rightarrow> secret" where
  "derive_from p 0 index = p"
| "derive_from p (Suc b) index =
     derive_from (if odd (index div 2 ^ b) then sha256 (flip_bit_at b p) else p) b index"

definition derive :: "secret \<Rightarrow> nat \<Rightarrow> secret" where
  "derive seed index = derive_from seed 48 index"

text \<open>The number of trailing zeros of a 64-bit integer.\<close>

fun trailing_zeros :: "nat \<Rightarrow> nat \<Rightarrow> nat" where
  "trailing_zeros 0 n = 0"
| "trailing_zeros (Suc w) n = (if odd n then 0 else Suc (trailing_zeros w (n div 2)))"

definition bucket :: "nat \<Rightarrow> nat" where
  "bucket index = min (trailing_zeros 64 index) 48"

section \<open>The store\<close>

datatype ShachainError =
    Inconsistent nat
  | OutOfOrder nat nat
  | IndexOutOfRange nat

record store =
  st_known :: "(secret \<times> nat) option list"
  st_next :: "nat option"

definition store_default :: store where
  "store_default = \<lparr>st_known = [], st_next = None\<rparr>"

definition store_new :: store where
  "store_new = \<lparr>st_known = replicate MAX_ENTRIES None, st_next = Some MAX_INDEX\<rparr>"

definition flatten :: "'a option list \<Rightarrow> 'a list" where
  "flatten xs = List.map_filter (\<lambda>x. x) xs"

definition checked_pred :: "nat \<Rightarrow> nat option" where
  "checked_pred n = (if n = 0 then None else Some (n - 1))"

definition store_insert :: "store \<Rightarrow> secret \<Rightarrow> nat \<Rightarrow> store \<times> (unit, ShachainError) result" where
  "store_insert st secret index =
     (if index > MAX_INDEX then (st, Err (IndexOutOfRange index))
      else let st = (if st_known st = [] then store_new else st);
               expected = (case st_next st of Some e \<Rightarrow> e | None \<Rightarrow> 0);
               at = bucket index
           in if st_next st = None \<or> index \<noteq> expected then (st, Err (OutOfOrder expected index))
              else if list_ex (\<lambda>(older_secret, older). derive_from secret at older \<noteq> older_secret) (flatten (take at (st_known st)))
              then (st, Err (Inconsistent index))
              else (\<lparr>st_known = (st_known st)[at := Some (secret, index)], st_next = checked_pred index\<rparr>, Ok ()))"

fun get_from :: "nat \<Rightarrow> nat \<Rightarrow> (secret \<times> nat) option list \<Rightarrow> secret option" where
  "get_from index b [] = None"
| "get_from index b (entry # es) =
     (case entry of
        Some (secret, at) \<Rightarrow> if index div 2 ^ b = at div 2 ^ b \<and> index \<ge> at then Some (derive_from secret b index)
                             else get_from index (Suc b) es
      | None \<Rightarrow> get_from index (Suc b) es)"

definition store_get :: "store \<Rightarrow> nat \<Rightarrow> secret option" where
  "store_get st index = get_from index 0 (st_known st)"

definition store_len :: "store \<Rightarrow> nat" where
  "store_len st = length (flatten (st_known st))"

definition store_bytes :: "store \<Rightarrow> nat" where
  "store_bytes st = store_len st * (32 + 8)"

definition store_entries :: "store \<Rightarrow> (secret \<times> nat) list" where
  "store_entries st = sort_key (\<lambda>(_, i). - int i) (flatten (st_known st))"

fun restore_place :: "store \<Rightarrow> nat option \<Rightarrow> (secret \<times> nat) list \<Rightarrow> (store \<times> nat option, ShachainError) result" where
  "restore_place st lowest [] = Ok (st, lowest)"
| "restore_place st lowest ((secret, index) # es) =
     (if index > MAX_INDEX then Err (IndexOutOfRange index)
      else if st_known st ! bucket index \<noteq> None then Err (Inconsistent index)
      else restore_place (st\<lparr>st_known := (st_known st)[bucket index := Some (secret, index)]\<rparr>)
             (Some (case lowest of None \<Rightarrow> index | Some l \<Rightarrow> min l index)) es)"

fun restore_check :: "(secret \<times> nat) option list \<Rightarrow> nat list \<Rightarrow> (unit, ShachainError) result" where
  "restore_check known [] = Ok ()"
| "restore_check known (at # ats) =
     (case known ! at of
        Some (secret, index) \<Rightarrow>
          if list_ex (\<lambda>(older_secret, older). older > index \<and> derive_from secret at older \<noteq> older_secret) (flatten (take at known))
          then Err (Inconsistent index) else restore_check known ats
      | None \<Rightarrow> restore_check known ats)"

definition store_restore :: "(secret \<times> nat) list \<Rightarrow> (store, ShachainError) result" where
  "store_restore entries =
     rbind (restore_place store_new None entries) (\<lambda>(st, lowest).
     rbind (restore_check (st_known st) [0..<length (st_known st)]) (\<lambda>_.
       Ok (st\<lparr>st_next := (case lowest of Some l \<Rightarrow> checked_pred l | None \<Rightarrow> Some MAX_INDEX)\<rparr>)))"

section \<open>Bits\<close>

lemma derive_from_zeros: "2 ^ b dvd index \<Longrightarrow> derive_from p b index = p"
proof (induction b arbitrary: p)
  case (Suc b)
  then obtain k where k: "index = 2 ^ Suc b * k" by blast
  then have "even (index div 2 ^ b)" "2 ^ b dvd index" by simp_all
  then show ?case using Suc.IH by simp
qed simp

lemma derive_from_split:
  "b \<le> c \<Longrightarrow> x div 2 ^ b = y div 2 ^ b \<Longrightarrow> 2 ^ b dvd y \<Longrightarrow> derive_from p c x = derive_from (derive_from p c y) b x"
proof (induction c arbitrary: p)
  case (Suc c)
  show ?case
  proof (cases "b = Suc c")
    case True
    then show ?thesis using derive_from_zeros [of "Suc c" y] Suc.prems(3) by simp
  next
    case False
    then have b: "b \<le> c" using Suc.prems(1) by simp
    have "x div 2 ^ c = x div 2 ^ b div 2 ^ (c - b)" "y div 2 ^ c = y div 2 ^ b div 2 ^ (c - b)"
      using b by (simp_all add: flip: div_mult2_eq power_add)
    then have "x div 2 ^ c = y div 2 ^ c" using Suc.prems(2) by simp
    then show ?thesis using Suc.IH [OF b Suc.prems(2,3)] by simp
  qed
qed simp

lemma trailing_zeros_dvd: "2 ^ trailing_zeros w n dvd n"
proof (induction w n rule: trailing_zeros.induct)
  case (2 w n)
  show ?case
  proof (cases "odd n")
    case False
    then have "2 ^ trailing_zeros w (n div 2) dvd n div 2" using "2.IH" by blast
    then obtain k where "n div 2 = 2 ^ trailing_zeros w (n div 2) * k" by blast
    then have "n = 2 ^ trailing_zeros (Suc w) n * k" using False by (metis (no_types, lifting) dvd_mult_div_cancel mult.assoc power_Suc trailing_zeros.simps(2))
    then show ?thesis by (metis dvd_triv_left)
  qed simp
qed simp

lemma trailing_zeros_exact: "n < 2 ^ k \<Longrightarrow> n \<noteq> 0 \<Longrightarrow> k \<le> w \<Longrightarrow> odd (n div 2 ^ trailing_zeros w n) \<and> trailing_zeros w n < k"
proof (induction w n arbitrary: k rule: trailing_zeros.induct)
  case (2 w n)
  show ?case
  proof (cases "odd n")
    case True
    then show ?thesis using "2.prems" by (cases k) auto
  next
    case False
    obtain k' where k: "k = Suc k'" using "2.prems" by (cases k) auto
    have "n div 2 < 2 ^ k'" "n div 2 \<noteq> 0" "k' \<le> w" using "2.prems" False k by (auto elim: oddE evenE)
    then have "odd (n div 2 div 2 ^ trailing_zeros w (n div 2)) \<and> trailing_zeros w (n div 2) < k'" using "2.IH" False by blast
    then show ?thesis using False k by (simp add: div_mult2_eq)
  qed
qed simp

lemma odd_part_unique:
  fixes n :: nat
  assumes "2 ^ a dvd n" "odd (n div 2 ^ a)" "2 ^ b dvd n" "odd (n div 2 ^ b)"
  shows "a = (b :: nat)"
proof (rule ccontr)
  have *: False if "a < b" "2 ^ b dvd n" "odd (n div 2 ^ a)" for a b
  proof -
    obtain k where "n = 2 ^ b * k" using \<open>2 ^ b dvd n\<close> by blast
    moreover have "(2::nat) ^ b = 2 ^ a * 2 ^ (b - a)" using \<open>a < b\<close> by (simp flip: power_add)
    ultimately have "n div 2 ^ a = 2 ^ (b - a) * k" by simp
    then show False using that(1,3) by simp
  qed
  assume "a \<noteq> b"
  then show False using * [of a b] * [of b a] assms by linarith
qed

text \<open>The bucket of an index: its exact power of two, and 48 for the last one.\<close>

lemma bucket_zero [simp]: "bucket 0 = 48"
proof -
  have "trailing_zeros w 0 = w" for w by (induction w) auto
  then show ?thesis by (simp add: bucket_def)
qed

lemma bucket_iff: "0 < n \<Longrightarrow> n \<le> MAX_INDEX \<Longrightarrow> bucket n = b \<longleftrightarrow> 2 ^ b dvd n \<and> odd (n div 2 ^ b)"
proof -
  assume n: "0 < n" "n \<le> MAX_INDEX"
  have "n < 2 ^ 48" using n by (simp add: MAX_INDEX_def)
  then have t: "odd (n div 2 ^ trailing_zeros 64 n)" "trailing_zeros 64 n < 48" using trailing_zeros_exact [of n 48 64] n(1) by auto
  then have "bucket n = trailing_zeros 64 n" by (simp add: bucket_def)
  then show ?thesis using trailing_zeros_dvd [of 64 n] t(1) odd_part_unique by metis
qed

lemma bucket_le: "bucket n \<le> 48"
  by (simp add: bucket_def)

lemma bucket_dvd: "n \<le> MAX_INDEX \<Longrightarrow> 2 ^ bucket n dvd n"
  using bucket_iff [of n "bucket n"] by (cases "n = 0") auto

text \<open>The block of \<open>j\<close> above \<open>n\<close>: the indices that share with \<open>j\<close> the bits from the first one where it leaves \<open>n\<close>.\<close>

lemma leaving_bit:
  fixes n j :: nat
  shows "n < j \<Longrightarrow> \<exists>b. odd (j div 2 ^ b) \<and> n < j div 2 ^ b * 2 ^ b \<and> j div 2 ^ Suc b = n div 2 ^ Suc b"
proof (induction j arbitrary: n rule: less_induct)
  case (less j)
  show ?case
  proof (cases "j div 2 = n div 2")
    case True
    then have "odd j" using less.prems by presburger
    then show ?thesis using True less.prems by (intro exI [of _ 0]) simp
  next
    case False
    then have l: "n div 2 < j div 2" using less.prems div_le_mono [of n j 2] by linarith
    have "j div 2 < j" using less.prems by simp
    from less.IH [OF this l] obtain b where b: "odd (j div 2 div 2 ^ b)" "n div 2 < j div 2 div 2 ^ b * 2 ^ b"
      "j div 2 div 2 ^ Suc b = n div 2 div 2 ^ Suc b" by blast
    have eq: "x div 2 ^ Suc k = x div 2 div 2 ^ k" for x k :: nat by (simp add: div_mult2_eq)
    have "n < j div 2 ^ Suc b * 2 ^ Suc b" using b(2) by (simp add: div_mult2_eq)
    then show ?thesis using b(1,3) eq by (intro exI [of _ "Suc b"]) metis
  qed
qed

lemma same_block:
  fixes x y :: nat
  assumes "x div 2 ^ b = y div 2 ^ b" "y \<le> MAX_INDEX" "b \<le> 48"
  shows "x \<le> MAX_INDEX"
proof -
  have "x div 2 ^ 48 = x div 2 ^ b div 2 ^ (48 - b)" "y div 2 ^ 48 = y div 2 ^ b div 2 ^ (48 - b)"
    using assms(3) by (simp_all only: flip: div_mult2_eq power_add) simp_all
  then have "x div 2 ^ 48 = y div 2 ^ 48" using assms(1) by metis
  then show ?thesis using assms(2) by (simp add: MAX_INDEX_def)
qed

text \<open>The first index from \<open>n\<close> with the bucket of the block of \<open>j\<close> is the start of that block.\<close>

lemma first_above:
  assumes "n < j" "j \<le> MAX_INDEX"
  obtains b a where "bucket a = b" "b < 48" "n < a" "a \<le> j" "j div 2 ^ b = a div 2 ^ b" "\<And>x. n \<le> x \<Longrightarrow> x < a \<Longrightarrow> bucket x \<noteq> b"
    "j div 2 ^ Suc b = n div 2 ^ Suc b"
proof -
  obtain b where b: "odd (j div 2 ^ b)" "n < j div 2 ^ b * 2 ^ b" "j div 2 ^ Suc b = n div 2 ^ Suc b"
    using leaving_bit [OF assms(1)] by blast
  define a where "a = j div 2 ^ b * 2 ^ b"
  have a: "a \<le> j" "0 < a" "n < a" "2 ^ b dvd a" "a div 2 ^ b = j div 2 ^ b"
    using b(2) by (simp add: a_def, unfold a_def, linarith, simp_all)
  have ba: "bucket a = b" using bucket_iff [of a b] a assms(2) b(1) by simp
  have "2 ^ b \<le> a" using a(2,4) by (simp add: dvd_imp_le)
  then have "(2::nat) ^ b < 2 ^ 48" using a(1) assms(2) by (simp add: MAX_INDEX_def)
  then have b48: "b < 48" by (rule power_less_imp_less_exp [rotated]) simp
  have "bucket x \<noteq> b" if x: "n \<le> x" "x < a" for x
  proof
    assume bx: "bucket x = b"
    have "x \<noteq> 0" using bx b48 by (metis bucket_zero less_irrefl)
    then have d: "2 ^ b dvd x" "odd (x div 2 ^ b)" using bucket_iff [of x b] bx x(2) a(1) assms(2) by auto
    have "x div 2 ^ Suc b \<le> j div 2 ^ Suc b" "n div 2 ^ Suc b \<le> x div 2 ^ Suc b" using x a(1) by (simp_all add: div_le_mono)
    then have "x div 2 ^ Suc b = j div 2 ^ Suc b" using b(3) by simp
    then have "x div 2 ^ b div 2 = j div 2 ^ b div 2" by (simp add: mult.commute flip: div_mult2_eq)
    then have "x div 2 ^ b = j div 2 ^ b" using d(2) b(1) by (metis odd_two_times_div_two_succ)
    then have "x = a" using d(1) by (metis a_def dvd_div_mult_self)
    then show False using x(2) by simp
  qed
  then show thesis using that [of a b] ba b48 a b(3) by simp
qed

section \<open>The invariant\<close>

definition first_from :: "nat \<Rightarrow> nat \<Rightarrow> nat \<Rightarrow> bool" where
  "first_from i b a \<longleftrightarrow> bucket a = b \<and> i \<le> a \<and> a \<le> MAX_INDEX \<and> (\<forall>x. i \<le> x \<and> x < a \<longrightarrow> bucket x \<noteq> b)"

lemma first_from_unique: "first_from i b a \<Longrightarrow> first_from i b a' \<Longrightarrow> a = a'"
  by (metis first_from_def linorder_neqE_nat)

text \<open>The store after the secrets \<open>\<sigma>\<close> of the indices from \<open>i\<close> up: each bucket holds the lowest index it may, and
  an entry derives the secrets of its whole block.\<close>

definition store_inv :: "store \<Rightarrow> nat \<Rightarrow> (nat \<Rightarrow> secret) \<Rightarrow> bool" where
  "store_inv st i \<sigma> \<longleftrightarrow> i \<le> Suc MAX_INDEX \<and> length (st_known st) = MAX_ENTRIES \<and> st_next st = checked_pred i \<and>
     (\<forall>b < MAX_ENTRIES. \<forall>s a. st_known st ! b = Some (s, a) \<longleftrightarrow> first_from i b a \<and> s = \<sigma> a) \<and>
     (\<forall>b < MAX_ENTRIES. \<forall>s a. st_known st ! b = Some (s, a) \<longrightarrow>
        (\<forall>j. a \<le> j \<longrightarrow> j div 2 ^ b = a div 2 ^ b \<longrightarrow> derive_from s b j = \<sigma> j))"

lemma store_inv_new: "store_inv store_new (Suc MAX_INDEX) \<sigma>"
  by (simp add: store_inv_def store_new_def first_from_def checked_pred_def)

lemma store_entry:
  assumes "store_inv st i \<sigma>" "first_from i b a"
  shows "st_known st ! b = Some (\<sigma> a, a)"
proof -
  have "b < MAX_ENTRIES" using assms(2) bucket_le [of a] by (simp add: first_from_def MAX_ENTRIES_def)
  then show ?thesis using assms by (simp add: store_inv_def)
qed

lemma in_flatten: "x \<in> set (flatten xs) \<longleftrightarrow> Some x \<in> set xs"
  by (force simp: flatten_def List.map_filter_def)

text \<open>A lower bucket holds an index of the same block, if any above.\<close>

lemma lower_bucket:
  assumes "first_from i b a" "b < bucket n" "i \<le> Suc n" "n < a" "n \<le> MAX_INDEX"
  shows "a div 2 ^ bucket n = n div 2 ^ bucket n"
proof -
  have b48: "b < 48" using assms(2) bucket_le [of n] by simp
  let ?x = "n + 2 ^ b"
  have d: "2 ^ bucket n dvd n" by (rule bucket_dvd [OF assms(5)])
  have p: "(2::nat) ^ bucket n = 2 ^ b * 2 ^ (bucket n - b)" using assms(2) by (simp flip: power_add)
  obtain k where k: "n = 2 ^ bucket n * k" using d by blast
  have eq: "?x div 2 ^ bucket n = n div 2 ^ bucket n"
    using assms(2) by (subst k, subst k) (simp add: power_strict_increasing)
  have xm: "?x \<le> MAX_INDEX" using same_block [OF eq assms(5) bucket_le] .
  have q: "?x div 2 ^ b = 2 ^ (bucket n - b) * k + 1" by (subst k, subst p) (simp add: mult.assoc)
  have "2 ^ b dvd ?x" using d p by (metis dvd_add dvd_refl dvd_mult_left)
  moreover have "odd (?x div 2 ^ b)" unfolding q using assms(2) by simp
  ultimately have bx: "bucket ?x = b" using bucket_iff [of ?x b] xm by simp
  have "i \<le> ?x" using assms(3) by (simp add: Suc_leI le_trans)
  then have "a \<le> ?x" using assms(1) bx unfolding first_from_def by (metis not_le)
  then have "a div 2 ^ bucket n \<le> n div 2 ^ bucket n" using eq div_le_mono by metis
  moreover have "n div 2 ^ bucket n \<le> a div 2 ^ bucket n" using assms(4) by (simp add: div_le_mono)
  ultimately show ?thesis by simp
qed

text \<open>An accepted secret extends the revealed ones.\<close>

lemma store_insert_inv:
  assumes inv: "store_inv st (Suc n) \<sigma>" and ins: "store_insert st secret n = (st', Ok ())"
  shows "store_inv st' n (\<sigma>(n := secret))"
proof -
  let ?at = "bucket n" and ?\<sigma> = "\<sigma>(n := secret)"
  have len: "length (st_known st) = MAX_ENTRIES" and nx: "st_next st = Some n" and n: "n \<le> MAX_INDEX"
    using inv by (simp_all add: store_inv_def checked_pred_def)
  have ne: "st_known st \<noteq> []" using len by (auto simp: MAX_ENTRIES_def)
  have at: "?at < MAX_ENTRIES" using bucket_le [of n] by (simp add: MAX_ENTRIES_def)
  have chk: "\<forall>(os, older) \<in> set (flatten (take ?at (st_known st))). derive_from secret ?at older = os"
    and st': "st' = \<lparr>st_known = (st_known st)[?at := Some (secret, n)], st_next = checked_pred n\<rparr>"
    using ins nx ne n by (auto simp: store_insert_def Let_def list_ex_iff split: if_splits)
  have old: "st_known st ! b = Some (s, a) \<longleftrightarrow> first_from (Suc n) b a \<and> s = \<sigma> a" if "b < MAX_ENTRIES" for b s a
    using inv that by (simp add: store_inv_def)
  have der: "derive_from (\<sigma> a) b j = \<sigma> j" if "b < MAX_ENTRIES" "first_from (Suc n) b a" "a \<le> j" "j div 2 ^ b = a div 2 ^ b" for b a j
    using inv old [OF that(1)] that unfolding store_inv_def by blast
  have fst: "first_from n b a \<longleftrightarrow> (if b = ?at then a = n else first_from (Suc n) b a)" for b a
  proof (cases "b = ?at")
    case True
    then show ?thesis using n by (auto simp: first_from_def)
  next
    case False
    have "(n \<le> x \<and> x < a \<longrightarrow> bucket x \<noteq> b) \<longleftrightarrow> (Suc n \<le> x \<and> x < a \<longrightarrow> bucket x \<noteq> b)" for x
      using False by (cases "x = n") auto
    moreover have "bucket a = b \<and> n \<le> a \<longleftrightarrow> bucket a = b \<and> Suc n \<le> a" using False by (cases "a = n") auto
    ultimately show ?thesis using False unfolding first_from_def by auto
  qed
  have known: "st_known st' ! b = Some (s, a) \<longleftrightarrow> first_from n b a \<and> s = ?\<sigma> a" if b: "b < MAX_ENTRIES" for b s a
  proof (cases "b = ?at")
    case True
    then show ?thesis using st' len at fst by auto
  next
    case False
    have "first_from (Suc n) b a \<Longrightarrow> a \<noteq> n" by (auto simp: first_from_def)
    then show ?thesis using st' False old [OF b] fst by auto
  qed
  have new: "derive_from (?\<sigma> a) b j = ?\<sigma> j" if b: "b < MAX_ENTRIES" "first_from n b a" "a \<le> j" "j div 2 ^ b = a div 2 ^ b" for b a j
  proof (cases "b = ?at")
    case False
    then have f: "first_from (Suc n) b a" using b(2) fst by simp
    then have "a \<noteq> n" "j \<noteq> n" using b(3) by (auto simp: first_from_def)
    then show ?thesis using der [OF b(1) f b(3,4)] by simp
  next
    case True
    then have a: "a = n" using b(2) fst by simp
    have j: "j \<le> MAX_INDEX" using same_block [OF b(4)] n a True bucket_le by simp
    show ?thesis
    proof (cases "j = n")
      case True
      then show ?thesis using a derive_from_zeros [OF bucket_dvd [OF n]] \<open>b = ?at\<close> by simp
    next
      case False
      then have "n < j" using b(3) a by simp
      then obtain c x where c: "bucket x = c" "c < 48" "n < x" "x \<le> j" "j div 2 ^ c = x div 2 ^ c" "\<And>y. n \<le> y \<Longrightarrow> y < x \<Longrightarrow> bucket y \<noteq> c"
        using first_above [OF _ j] by metis
      have f: "first_from (Suc n) c x" using c j by (simp add: first_from_def)
      have cM: "c < MAX_ENTRIES" using c(2) by (simp add: MAX_ENTRIES_def)
      have lt: "c < ?at"
      proof (rule ccontr)
        assume "\<not> c < ?at"
        then have "j div 2 ^ c = n div 2 ^ c" using b(4) a True
          by (metis div_mult2_eq le_add_diff_inverse not_less power_add)
        then have "x div 2 ^ c * 2 ^ c \<le> n" using c(5) by (metis div_times_less_eq_dividend)
        moreover have "x div 2 ^ c * 2 ^ c = x" using bucket_dvd [of x] c(1,4) j by simp
        ultimately show False using c(3) by simp
      qed
      have "c < length (take ?at (st_known st))" "take ?at (st_known st) ! c = Some (\<sigma> x, x)"
        using store_entry [OF inv f] lt len at by simp_all
      then have "(\<sigma> x, x) \<in> set (flatten (take ?at (st_known st)))" unfolding in_flatten by (metis nth_mem)
      then have "derive_from secret ?at x = \<sigma> x" using chk by blast
      moreover have "derive_from secret ?at j = derive_from (derive_from secret ?at x) c j"
        using derive_from_split [of c ?at j x] lt c(5) bucket_dvd [of x] c(1,4) j by simp
      ultimately show ?thesis using der [OF cM f c(4,5)] a True False by simp
    qed
  qed
  have der': "derive_from s b j = ?\<sigma> j"
    if k: "b < MAX_ENTRIES" "st_known st' ! b = Some (s, a)" "a \<le> j" "j div 2 ^ b = a div 2 ^ b" for b s a j
  proof -
    have "first_from n b a" "s = ?\<sigma> a" using iffD1 [OF known [OF k(1)] k(2)] by blast+
    then show ?thesis using new [OF k(1) _ k(3,4)] by simp
  qed
  show ?thesis unfolding store_inv_def
  proof (intro conjI allI impI)
    show "n \<le> Suc MAX_INDEX" "length (st_known st') = MAX_ENTRIES" "st_next st' = checked_pred n" using st' len n by simp_all
  qed (fact known, fact der')
qed

lemma get_from_Some:
  "(\<And>k s a. k < length es \<Longrightarrow> es ! k = Some (s, a) \<Longrightarrow> j div 2 ^ (b + k) = a div 2 ^ (b + k) \<Longrightarrow> a \<le> j \<Longrightarrow> derive_from s (b + k) j = r) \<Longrightarrow>
   (\<exists>k s a. k < length es \<and> es ! k = Some (s, a) \<and> j div 2 ^ (b + k) = a div 2 ^ (b + k) \<and> a \<le> j) \<Longrightarrow> get_from j b es = Some r"
proof (induction es arbitrary: b)
  case (Cons e es)
  show ?case
  proof (cases "\<exists>s a. e = Some (s, a) \<and> j div 2 ^ b = a div 2 ^ b \<and> a \<le> j")
    case True
    then show ?thesis using Cons.prems(1) [of 0] by auto
  next
    case False
    then have "get_from j b (e # es) = get_from j (Suc b) es" by (auto split: option.split)
    also have "\<dots> = Some r"
    proof (rule Cons.IH)
      fix k s a assume "k < length es" "es ! k = Some (s, a)" "j div 2 ^ (Suc b + k) = a div 2 ^ (Suc b + k)" "a \<le> j"
      then show "derive_from s (Suc b + k) j = r" using Cons.prems(1) [of "Suc k" s a] by simp
    next
      obtain k s a where "k < length (e # es)" "(e # es) ! k = Some (s, a)" "j div 2 ^ (b + k) = a div 2 ^ (b + k)" "a \<le> j"
        using Cons.prems(2) by blast
      then show "\<exists>k s a. k < length es \<and> es ! k = Some (s, a) \<and> j div 2 ^ (Suc b + k) = a div 2 ^ (Suc b + k) \<and> a \<le> j"
        using False by (cases k) auto
    qed
    finally show ?thesis .
  qed
qed simp

lemma get_from_None:
  "(\<And>k s a. k < length es \<Longrightarrow> es ! k = Some (s, a) \<Longrightarrow> j < a \<or> j div 2 ^ (b + k) \<noteq> a div 2 ^ (b + k)) \<Longrightarrow> get_from j b es = None"
proof (induction es arbitrary: b)
  case (Cons e es)
  have "get_from j (Suc b) es = None" by (rule Cons.IH) (use Cons.prems [of "Suc k" for k] in fastforce)
  then show ?case using Cons.prems [of 0] by (auto split: option.split)
qed simp

text \<open>The store returns exactly what was revealed.\<close>

lemma store_get_revealed:
  assumes inv: "store_inv st i \<sigma>"
  shows "store_get st j = (if i \<le> j \<and> j \<le> MAX_INDEX then Some (\<sigma> j) else None)"
proof (cases "i \<le> j \<and> j \<le> MAX_INDEX")
  case True
  have len: "length (st_known st) = MAX_ENTRIES" using inv by (simp add: store_inv_def)
  have "\<exists>b a. b < MAX_ENTRIES \<and> first_from i b a \<and> a \<le> j \<and> j div 2 ^ b = a div 2 ^ b"
  proof (cases "i = j")
    case True
    then have "first_from i (bucket j) j" using \<open>i \<le> j \<and> j \<le> MAX_INDEX\<close> by (auto simp: first_from_def)
    then show ?thesis using bucket_le [of j] by (intro exI [of _ "bucket j"] exI [of _ j]) (simp add: MAX_ENTRIES_def)
  next
    case False
    then have "i < j" using True by simp
    then obtain b a where "bucket a = b" "b < 48" "i < a" "a \<le> j" "j div 2 ^ b = a div 2 ^ b" "\<And>x. i \<le> x \<Longrightarrow> x < a \<Longrightarrow> bucket x \<noteq> b"
      using first_above [of i j] True by metis
    then have "b < MAX_ENTRIES \<and> first_from i b a \<and> a \<le> j \<and> j div 2 ^ b = a div 2 ^ b" using True by (simp add: first_from_def MAX_ENTRIES_def)
    then show ?thesis by blast
  qed
  then obtain b a where b: "b < length (st_known st)" "st_known st ! b = Some (\<sigma> a, a)" "a \<le> j" "j div 2 ^ b = a div 2 ^ b"
    using store_entry [OF inv] len by metis
  have "get_from j 0 (st_known st) = Some (\<sigma> j)"
  proof (rule get_from_Some)
    show "\<exists>k s a. k < length (st_known st) \<and> st_known st ! k = Some (s, a) \<and> j div 2 ^ (0 + k) = a div 2 ^ (0 + k) \<and> a \<le> j" using b by auto
    fix k s a
    assume "k < length (st_known st)" "st_known st ! k = Some (s, a)" "j div 2 ^ (0 + k) = a div 2 ^ (0 + k)" "a \<le> j"
    then show "derive_from s (0 + k) j = \<sigma> j" using inv len unfolding store_inv_def by auto
  qed
  then show ?thesis using True by (simp add: store_get_def)
next
  case False
  have "get_from j 0 (st_known st) = None"
  proof (rule get_from_None)
    fix k s a assume k: "k < length (st_known st)" "st_known st ! k = Some (s, a)"
    then have f: "first_from i k a" and k48: "k \<le> 48" using inv unfolding store_inv_def by (auto simp: MAX_ENTRIES_def)
    have "j \<le> MAX_INDEX" if "j div 2 ^ k = a div 2 ^ k" using same_block [OF that _ k48] f by (simp add: first_from_def)
    then show "j < a \<or> j div 2 ^ (0 + k) \<noteq> a div 2 ^ (0 + k)" using f False by (auto simp: first_from_def)
  qed
  then show ?thesis using False by (auto simp: store_get_def)
qed

text \<open>Honest secrets are accepted.\<close>

lemma store_insert_honest:
  assumes inv: "store_inv st (Suc n) (derive seed)"
  shows "\<exists>st'. store_insert st (derive seed n) n = (st', Ok ())"
proof -
  have len: "length (st_known st) = MAX_ENTRIES" and nx: "st_next st = Some n" and n: "n \<le> MAX_INDEX"
    using inv by (simp_all add: store_inv_def checked_pred_def)
  have ne: "st_known st \<noteq> []" using len by (auto simp: MAX_ENTRIES_def)
  have "derive_from (derive seed n) (bucket n) a = s" if m: "(s, a) \<in> set (flatten (take (bucket n) (st_known st)))" for s a
  proof -
    obtain b where b: "b < bucket n" "b < MAX_ENTRIES" "st_known st ! b = Some (s, a)"
      using m len unfolding in_flatten by (auto simp: in_set_conv_nth)
    then have f: "first_from (Suc n) b a" "s = derive seed a" using inv unfolding store_inv_def by auto
    have "a div 2 ^ bucket n = n div 2 ^ bucket n" by (rule lower_bucket [OF f(1) b(1) _ _ n]) (use f(1) in \<open>auto simp: first_from_def\<close>)
    then show ?thesis using derive_from_split [OF bucket_le _ bucket_dvd [OF n], of a seed] f(2) by (simp add: derive_def)
  qed
  then have "\<not> list_ex (\<lambda>(os, older). derive_from (derive seed n) (bucket n) older \<noteq> os) (flatten (take (bucket n) (st_known st)))"
    by (auto simp: list_ex_iff)
  then show ?thesis using nx ne n by (simp add: store_insert_def)
qed

section \<open>Sequences of secrets\<close>

text \<open>The secrets \<open>ss\<close> given in turn from index \<open>i - 1\<close> down; \<open>None\<close> once one is refused.\<close>

fun insert_all :: "store \<Rightarrow> nat \<Rightarrow> secret list \<Rightarrow> store option" where
  "insert_all st i [] = Some st"
| "insert_all st i (s # ss) =
     (case store_insert st s (i - 1) of (st', Ok _) \<Rightarrow> if i = 0 then None else insert_all st' (i - 1) ss | _ \<Rightarrow> None)"

lemma insert_all_inv:
  "store_inv st i \<sigma> \<Longrightarrow> insert_all st i ss = Some st' \<Longrightarrow>
   \<exists>\<sigma>'. length ss \<le> i \<and> store_inv st' (i - length ss) \<sigma>' \<and> (\<forall>j \<ge> i. \<sigma>' j = \<sigma> j) \<and> (\<forall>k < length ss. \<sigma>' (i - 1 - k) = ss ! k)"
proof (induction ss arbitrary: st i \<sigma>)
  case (Cons s ss)
  obtain st1 u where i: "store_insert st s (i - 1) = (st1, Ok u)" "insert_all st1 (i - 1) ss = Some st'" "i \<noteq> 0"
    using Cons.prems(2) by (auto split: prod.splits result.splits if_splits)
  then obtain n where n: "i = Suc n" by (cases i) auto
  have inv: "store_inv st1 n (\<sigma>(n := s))" using store_insert_inv [of st n \<sigma> s st1] Cons.prems(1) i(1) n by simp
  obtain \<sigma>' where ih: "length ss \<le> n" "store_inv st' (n - length ss) \<sigma>'" "\<forall>j \<ge> n. \<sigma>' j = (\<sigma>(n := s)) j"
    "\<forall>k < length ss. \<sigma>' (n - 1 - k) = ss ! k" using Cons.IH [OF inv] i(2) n by auto
  have "\<sigma>' (i - 1 - k) = (s # ss) ! k" if "k < length (s # ss)" for k using ih(3,4) that n by (cases k) auto
  moreover have "\<forall>j \<ge> i. \<sigma>' j = \<sigma> j" using ih(3) n by simp
  ultimately show ?case using ih(1,2) n by (intro exI [of _ \<sigma>']) auto
qed auto

lemma insert_all_honest:
  "store_inv st i (derive seed) \<Longrightarrow> n \<le> i \<Longrightarrow> \<exists>st'. insert_all st i (map (\<lambda>k. derive seed (i - 1 - k)) [0..<n]) = Some st'"
proof (induction n arbitrary: st i)
  case (Suc n)
  then obtain j where j: "i = Suc j" by (cases i) auto
  obtain st1 where st1: "store_insert st (derive seed j) j = (st1, Ok ())" using store_insert_honest Suc.prems(1) j by blast
  have "store_inv st1 j (derive seed)" using store_insert_inv [OF Suc.prems(1) [unfolded j] st1] by simp
  then obtain st' where "insert_all st1 j (map (\<lambda>k. derive seed (j - 1 - k)) [0..<n]) = Some st'" using Suc.IH [of st1 j] Suc.prems(2) j by auto
  moreover have "map (\<lambda>k. derive seed (i - 1 - k)) [0..<Suc n] = derive seed j # map (\<lambda>k. derive seed (j - 1 - k)) [0..<n]"
    unfolding upt_conv_Cons [OF zero_less_Suc] map_Suc_upt [symmetric] using j by (simp del: upt_Suc)
  ultimately show ?case using st1 j by simp
qed simp

section \<open>Restoring\<close>

definition place :: "(secret \<times> nat) option list \<Rightarrow> secret \<times> nat \<Rightarrow> (secret \<times> nat) option list" where
  "place known e = known[bucket (snd e) := Some e]"

definition lower_index :: "nat option \<Rightarrow> secret \<times> nat \<Rightarrow> nat option" where
  "lower_index l e = Some (case l of None \<Rightarrow> snd e | Some l \<Rightarrow> min l (snd e))"

lemma places_nth:
  "distinct (map (\<lambda>e. bucket (snd e)) es) \<Longrightarrow> b < length known \<Longrightarrow>
   foldl place known es ! b = (case List.find (\<lambda>e. bucket (snd e) = b) es of Some e \<Rightarrow> Some e | None \<Rightarrow> known ! b)"
proof (induction es arbitrary: known)
  case (Cons e es)
  have "length (place known e) = length known" by (simp add: place_def)
  then have ih: "foldl place (place known e) es ! b = (case List.find (\<lambda>e. bucket (snd e) = b) es of Some e \<Rightarrow> Some e | None \<Rightarrow> place known e ! b)"
    using Cons by simp
  show ?case
  proof (cases "bucket (snd e) = b")
    case True
    then have "List.find (\<lambda>e. bucket (snd e) = b) es = None" 
    proof -
      have "b \<notin> (\<lambda>e. bucket (snd e)) ` set es" using Cons.prems(1) True by simp
      then show ?thesis unfolding find_None_iff by blast
    qed
    then show ?thesis using ih True Cons.prems(2) by (simp add: place_def [of known])
  qed (use ih in \<open>simp add: place_def [of known] split: option.split\<close>)
qed simp

lemma restore_place_ok:
  "(\<And>e. e \<in> set es \<Longrightarrow> snd e \<le> MAX_INDEX \<and> st_known st ! bucket (snd e) = None) \<Longrightarrow> distinct (map (\<lambda>e. bucket (snd e)) es) \<Longrightarrow>
   restore_place st low es = Ok (st\<lparr>st_known := foldl place (st_known st) es\<rparr>,
     foldl lower_index low es)"
proof (induction es arbitrary: st low)
  case (Cons e es)
  obtain s a where e: "e = (s, a)" by (cases e)
  let ?st = "st\<lparr>st_known := (st_known st)[bucket a := Some (s, a)]\<rparr>"
  have "snd x \<le> MAX_INDEX \<and> st_known ?st ! bucket (snd x) = None" if "x \<in> set es" for x
  proof -
    have "bucket a \<notin> (\<lambda>e. bucket (snd e)) ` set es" using Cons.prems(2) e by simp
    then have "bucket (snd x) \<noteq> bucket a" using \<open>x \<in> set es\<close> by (metis imageI)
    then show ?thesis using Cons.prems(1) [of x] that by simp
  qed
  note ih = Cons.IH [OF this]
  have d: "distinct (map (\<lambda>e. bucket (snd e)) es)" using Cons.prems(2) by simp
  have "restore_place st low (e # es) = restore_place ?st (lower_index low e) es"
    using Cons.prems(1) [of e] by (simp add: e lower_index_def split: option.split)
  also have "\<dots> = Ok (?st\<lparr>st_known := foldl place (st_known ?st) es\<rparr>, foldl lower_index (lower_index low e) es)"
    by (rule ih [OF _ d])
  finally show ?case by (simp add: e place_def [of "st_known st"])
qed simp

lemma lowest_fold:
  "foldl lower_index low es =
   (if es = [] then low else Some (Min (set_option low \<union> snd ` set es)))"
proof (induction es arbitrary: low)
  case (Cons e es)
  have "set_option (lower_index low e) = {case low of None \<Rightarrow> snd e | Some l \<Rightarrow> min l (snd e)}" by (simp add: lower_index_def)
  then show ?case using Cons [of "lower_index low e"]
    by (cases low; cases "es = []") (auto simp: lower_index_def ac_simps)
qed simp

lemma known_entries:
  assumes "store_inv st i \<sigma>"
  shows "set (flatten (st_known st)) = {(\<sigma> a, a) |a. first_from i (bucket a) a}" "distinct (map (\<lambda>e. bucket (snd e)) (flatten (st_known st)))"
proof -
  have k: "st_known st ! b = Some (s, a) \<longleftrightarrow> first_from i b a \<and> s = \<sigma> a" if "b < length (st_known st)" for b s a
    using assms that by (auto simp: store_inv_def)
  have l: "first_from i b a \<Longrightarrow> b < length (st_known st)" for b a
    using assms bucket_le [of a] by (auto simp: store_inv_def first_from_def MAX_ENTRIES_def)
  show "set (flatten (st_known st)) = {(\<sigma> a, a) |a. first_from i (bucket a) a}"
  proof (intro set_eqI iffI)
    fix x assume "x \<in> set (flatten (st_known st))"
    then obtain b where b: "b < length (st_known st)" "st_known st ! b = Some (fst x, snd x)"
      unfolding in_flatten by (auto simp: in_set_conv_nth)
    then have "first_from i b (snd x)" "fst x = \<sigma> (snd x)" using k by blast+
    moreover have "b = bucket (snd x)" using calculation(1) by (simp add: first_from_def)
    ultimately show "x \<in> {(\<sigma> a, a) |a. first_from i (bucket a) a}" by (cases x) auto
  next
    fix x assume "x \<in> {(\<sigma> a, a) |a. first_from i (bucket a) a}"
    then obtain a where a: "x = (\<sigma> a, a)" "first_from i (bucket a) a" by blast
    then have "st_known st ! bucket a = Some x" using k [OF l] by blast
    then show "x \<in> set (flatten (st_known st))" unfolding in_flatten using l [OF a(2)] by (metis nth_mem)
  qed
  have "distinct (map (\<lambda>e. bucket (snd e)) (flatten xs))" if x: "\<And>b s a. b < length xs \<Longrightarrow> xs ! b = Some (s, a) \<Longrightarrow> bucket a = c + b"
    for xs :: "(secret \<times> nat) option list" and c
    using x
  proof (induction xs arbitrary: c)
    case (Cons y ys)
    have y: "bucket a = Suc c + b" if "b < length ys" "ys ! b = Some (s, a)" for b s a using Cons.prems [of "Suc b" s a] that by simp
    have d: "distinct (map (\<lambda>e. bucket (snd e)) (flatten ys))" by (rule Cons.IH [of "Suc c"]) (use y in blast)
    have "bucket (snd e) > c" if e: "e \<in> set (flatten ys)" for e
    proof -
      obtain b where "b < length ys" "ys ! b = Some (fst e, snd e)" using e unfolding in_flatten by (auto simp: in_set_conv_nth)
      then show ?thesis using y by fastforce
    qed
    then show ?case using d Cons.prems [of 0] by (cases y) (force simp: flatten_def List.map_filter_simps)+
  qed (simp add: flatten_def List.map_filter_simps)
  from this [of "st_known st" 0] show "distinct (map (\<lambda>e. bucket (snd e)) (flatten (st_known st)))"
    using k by (auto simp: first_from_def)
qed

lemma restore_check_ok:
  assumes inv: "store_inv st i \<sigma>"
  shows "set ats \<subseteq> {..<MAX_ENTRIES} \<Longrightarrow> restore_check (st_known st) ats = Ok ()"
proof (induction ats)
  case (Cons at ats)
  have len: "length (st_known st) = MAX_ENTRIES" using inv by (simp add: store_inv_def)
  show ?case
  proof (cases "st_known st ! at")
    case (Some e)
    obtain s n where e: "e = (s, n)" by (cases e)
    have at: "at < MAX_ENTRIES" using Cons.prems by simp
    have f: "first_from i at n" "s = \<sigma> n" using inv at Some e unfolding store_inv_def by auto
    have "derive_from s at older = os" if m: "(os, older) \<in> set (flatten (take at (st_known st)))" "older > n" for os older
    proof -
      obtain b where b: "b < at" "b < MAX_ENTRIES" "st_known st ! b = Some (os, older)"
        using m(1) len unfolding in_flatten by (auto simp: in_set_conv_nth)
      have o: "first_from i b older" "os = \<sigma> older" using inv b unfolding store_inv_def by auto
      have "older div 2 ^ at = n div 2 ^ at"
        using lower_bucket [OF o(1), of n] b(1) f(1) m(2) by (simp add: first_from_def)
      then show ?thesis using inv at Some e o(2) m(2) unfolding store_inv_def by auto
    qed
    then have "\<not> list_ex (\<lambda>(os, older). older > n \<and> derive_from s at older \<noteq> os) (flatten (take at (st_known st)))"
      by (auto simp: list_ex_iff)
    then show ?thesis using Some e Cons by simp
  qed (use Cons in simp)
qed simp

lemma restore_entries:
  assumes inv: "store_inv st i \<sigma>"
  shows "store_restore (store_entries st) = Ok st"
proof -
  let ?es = "store_entries st"
  have len: "length (st_known st) = MAX_ENTRIES" and nx: "st_next st = checked_pred i" and i: "i \<le> Suc MAX_INDEX"
    using inv by (simp_all add: store_inv_def)
  note k = known_entries [OF inv]
  have es: "set ?es = {(\<sigma> a, a) |a. first_from i (bucket a) a}" using k(1) by (simp add: store_entries_def)
  have "mset (map (\<lambda>e. bucket (snd e)) ?es) = mset (map (\<lambda>e. bucket (snd e)) (flatten (st_known st)))"
    unfolding mset_map store_entries_def mset_sort ..
  then have d: "distinct (map (\<lambda>e. bucket (snd e)) ?es)" using k(2) mset_eq_imp_distinct_iff by blast
  have new: "length (st_known store_new) = MAX_ENTRIES" by (simp add: store_new_def)
  have place: "restore_place store_new None ?es = Ok (store_new\<lparr>st_known := foldl place (st_known store_new) ?es\<rparr>, foldl lower_index None ?es)"
  proof (rule restore_place_ok [OF _ d])
    fix e assume "e \<in> set ?es"
    then show "snd e \<le> MAX_INDEX \<and> st_known store_new ! bucket (snd e) = None"
      unfolding es using bucket_le [of "snd e"] by (auto simp: first_from_def store_new_def MAX_ENTRIES_def)
  qed
  have plen: "length (foldl place known xs) = length known" for known xs by (induction xs arbitrary: known) (simp_all add: place_def)
  have known: "foldl place (st_known store_new) ?es = st_known st"
  proof (rule nth_equalityI)
    show "length (foldl place (st_known store_new) ?es) = length (st_known st)" using plen new len by simp
    fix b assume "b < length (foldl place (st_known store_new) ?es)"
    then have b: "b < MAX_ENTRIES" using plen new by simp
    show "foldl place (st_known store_new) ?es ! b = st_known st ! b"
    proof (cases "List.find (\<lambda>e. bucket (snd e) = b) ?es")
      case None
      have no: "\<not> first_from i b a" for a
      proof
        assume f: "first_from i b a"
        then have b: "bucket a = b" by (simp add: first_from_def)
        then have "(\<sigma> a, a) \<in> set ?es" unfolding es using f by blast
        then show False using None b unfolding find_None_iff by auto
      qed
      have "st_known st ! b \<noteq> Some (s, a)" for s a using no [of a] inv b unfolding store_inv_def by blast
      then have "st_known st ! b = None" by (cases "st_known st ! b") auto
      then show ?thesis using places_nth [OF d, of b "st_known store_new"] None b new by (simp add: store_new_def)
    next
      case (Some e)
      then have "e \<in> set ?es" "bucket (snd e) = b" by (auto simp: find_Some_iff)
      then obtain a where "e = (\<sigma> a, a)" "first_from i b a" using es by auto
      then have "st_known st ! b = Some e" using store_entry [OF inv] by blast
      then show ?thesis using places_nth [OF d, of b "st_known store_new"] Some b new by simp
    qed
  qed
  have low: "(case foldl lower_index None ?es of Some l \<Rightarrow> checked_pred l | None \<Rightarrow> Some MAX_INDEX) = st_next st"
  proof (cases "i \<le> MAX_INDEX")
    case True
    have i: "(\<sigma> i, i) \<in> set ?es" unfolding es using True by (auto simp: first_from_def)
    then have "Min (snd ` set ?es) = i" unfolding es by (intro Min_eqI) (auto simp: first_from_def image_iff simp flip: es)
    moreover have "?es \<noteq> []" using i by auto
    ultimately show ?thesis using nx by (simp add: lowest_fold)
  next
    case False
    then have "set ?es = {}" unfolding es by (auto simp: first_from_def)
    then show ?thesis using nx False \<open>i \<le> Suc MAX_INDEX\<close> by (simp add: checked_pred_def le_Suc_eq)
  qed
  have "restore_check (st_known st) [0..<length (st_known st)] = Ok ()" by (rule restore_check_ok [OF inv]) (auto simp: len)
  then show ?thesis unfolding store_restore_def place using known low by simp
qed

section \<open>Properties\<close>

text \<open>C33. Whatever secrets a peer reveals, once the store accepts them it returns every one of them, exactly and
  forever, and no other; it never holds more than 49 of them, and what it writes to its journal restores it.\<close>

theorem store_rebuilds_secrets:
  assumes "insert_all store_new (Suc MAX_INDEX) ss = Some st"
  shows "(\<forall>k < length ss. store_get st (MAX_INDEX - k) = Some (ss ! k)) \<and>
    (\<forall>j. j + length ss \<le> MAX_INDEX \<or> MAX_INDEX < j \<longrightarrow> store_get st j = None) \<and>
    store_len st \<le> MAX_ENTRIES \<and> store_restore (store_entries st) = Ok st"
proof -
  obtain \<sigma> where n: "length ss \<le> Suc MAX_INDEX" and inv: "store_inv st (Suc MAX_INDEX - length ss) \<sigma>"
    and s: "\<forall>k < length ss. \<sigma> (MAX_INDEX - k) = ss ! k"
    using insert_all_inv [OF store_inv_new [of "\<lambda>_. []"] assms] by auto
  have "store_get st (MAX_INDEX - k) = Some (ss ! k)" if "k < length ss" for k
    using store_get_revealed [OF inv, of "MAX_INDEX - k"] that n s by auto
  moreover have "store_get st j = None" if "j + length ss \<le> MAX_INDEX \<or> MAX_INDEX < j" for j
    using store_get_revealed [OF inv, of j] that n by auto
  moreover have "store_len st \<le> length (st_known st)" by (simp add: store_len_def flatten_def List.map_filter_def)
  ultimately show ?thesis using restore_entries [OF inv] inv by (auto simp: store_inv_def)
qed

theorem store_rebuilds_secrets_witness:
  "store_get (fst (store_insert store_new [7] MAX_INDEX)) MAX_INDEX = Some [7]"
proof -
  have z: "trailing_zeros (Suc w) (Suc (2 * n)) = 0" for w n by simp
  have "MAX_INDEX = Suc (2 * (2 ^ 47 - 1))" by (simp add: MAX_INDEX_def)
  then have "bucket MAX_INDEX = 0" using z [of 63 "2 ^ 47 - 1"] by (simp add: bucket_def)
  then have "store_insert store_new [7] MAX_INDEX = (\<lparr>st_known = (st_known store_new)[0 := Some ([7], MAX_INDEX)], st_next = checked_pred MAX_INDEX\<rparr>, Ok ())"
    by (simp add: store_insert_def store_new_def MAX_ENTRIES_def flatten_def List.map_filter_simps)
  then have "insert_all store_new (Suc MAX_INDEX) [[7]] = Some (fst (store_insert store_new [7] MAX_INDEX))" by simp
  from store_rebuilds_secrets [OF this] show ?thesis by fastforce
qed

text \<open>C34. Secrets derived from a seed are never refused: the whole life of a channel, up to \<open>2 ^ 48\<close> states, fits in
  the store, and every past secret is the one the seed derives.\<close>

theorem honest_secrets_accepted:
  assumes "n \<le> 2 ^ 48"
  shows "\<exists>st. insert_all store_new (Suc MAX_INDEX) (map (\<lambda>k. derive seed (MAX_INDEX - k)) [0..<n]) = Some st \<and>
    (\<forall>j. MAX_INDEX < j + n \<and> j \<le> MAX_INDEX \<longrightarrow> store_get st j = Some (derive seed j))"
proof -
  have n: "n \<le> Suc MAX_INDEX" using assms by (simp add: MAX_INDEX_def)
  obtain st where st: "insert_all store_new (Suc MAX_INDEX) (map (\<lambda>k. derive seed (MAX_INDEX - k)) [0..<n]) = Some st"
    using insert_all_honest [OF store_inv_new n] by auto
  obtain \<sigma> where inv: "store_inv st (Suc MAX_INDEX - n) \<sigma>" and s: "\<forall>k < n. \<sigma> (MAX_INDEX - k) = derive seed (MAX_INDEX - k)"
    using insert_all_inv [OF store_inv_new [of "\<lambda>_. []"] st] by auto
  have "store_get st j = Some (derive seed j)" if "MAX_INDEX < j + n" "j \<le> MAX_INDEX" for j
    using store_get_revealed [OF inv, of j] s [rule_format, of "MAX_INDEX - j"] that by auto
  then show ?thesis using st by blast
qed

theorem honest_secrets_accepted_witness:
  "\<exists>st. insert_all store_new (Suc MAX_INDEX) (map (\<lambda>k. derive [1] (MAX_INDEX - k)) [0..<1000]) = Some st"
  using honest_secrets_accepted [of 1000 "[1]"] by auto

end
