(* ===== verification/ChanTx.thy ===== *)
theory ChanTx
  imports Shachain Mempool
begin

text \<open>
  The transactions of a payment channel (\<open>src/src/channel/txbuild.rs\<close>), its keys (\<open>src/src/channel/keys.rs\<close>), its
  terms (\<open>src/src/channel/mod.rs\<close>) and the reading of a spend of the funding output (\<open>src/src/channel/watcher.rs\<close>).
  The signing library is a parameter: a \<open>signer\<close> is the record of what the trait \<open>Signer\<close> gives. The indices 0 and 1 of the
  two-element arrays are the two parties; the arrays are pairs. Balances and fees are natural numbers, below \<open>2 ^ 64\<close>.
\<close>

unbundle bit_operations_syntax

section \<open>Parties and keys\<close>

datatype party = FUNDER | ACCEPTOR

type_synonym 'a two = "'a \<times> 'a"

fun peer_of :: "party \<Rightarrow> party" where
  "peer_of FUNDER = ACCEPTOR"
| "peer_of ACCEPTOR = FUNDER"

fun pick :: "'a two \<Rightarrow> party \<Rightarrow> 'a" where
  "pick (a, b) FUNDER = a"
| "pick (a, b) ACCEPTOR = b"

fun put :: "party \<Rightarrow> 'a \<Rightarrow> 'a two \<Rightarrow> 'a two" where
  "put FUNDER x (a, b) = (x, b)"
| "put ACCEPTOR x (a, b) = (a, x)"

fun party_u8 :: "party \<Rightarrow> byte" where
  "party_u8 FUNDER = 0"
| "party_u8 ACCEPTOR = 1"

definition CHANNEL_SCHEME :: SchemeId where
  "CHANNEL_SCHEME = MlDsa87"

definition TAG_FUND :: string where
  "TAG_FUND = ''Q21/channel/fund-key''"

definition TAG_REVOKE :: string where
  "TAG_REVOKE = ''Q21/channel/revoke-root''"

definition TAG_NODE_ID :: string where
  "TAG_NODE_ID = ''Q21/channel/node-id/3''"

definition funding_key_seed :: "byte list \<Rightarrow> u32 \<Rightarrow> byte list" where
  "funding_key_seed wallet_seed channel_index = tagged_hash_parts TAG_FUND [wallet_seed, u32_le channel_index]"

definition node_id :: "byte list \<Rightarrow> hash256" where
  "node_id identity_pubkey = tagged_hash_parts TAG_NODE_ID [identity_pubkey]"

record signer =
  sg_pubkey :: "byte list"
  sg_sign :: "hash256 \<Rightarrow> byte list"
  sg_revocation_root :: "hash256 \<Rightarrow> secret"
  sg_key_index :: "u32 option"

definition signer_pubkey_hash :: "signer \<Rightarrow> hash256" where
  "signer_pubkey_hash sg = pubkey_hash CHANNEL_SCHEME (sg_pubkey sg)"

text \<open>\<open>ChannelKey\<close>: the key pair and the signature come from the ML-DSA library, given as \<open>keygen\<close> and \<open>sign\<close>.\<close>

definition channel_key ::
  "(byte list \<Rightarrow> byte list) \<Rightarrow> (byte list \<Rightarrow> byte list \<Rightarrow> byte list) \<Rightarrow> byte list \<Rightarrow> u32 option \<Rightarrow> signer" where
  "channel_key keygen sign seed index =
     \<lparr>sg_pubkey = keygen seed, sg_sign = sign seed,
      sg_revocation_root = (\<lambda>channel_id. tagged_hash_parts TAG_REVOKE [seed, channel_id]), sg_key_index = index\<rparr>"

definition channel_key_derive ::
  "(byte list \<Rightarrow> byte list) \<Rightarrow> (byte list \<Rightarrow> byte list \<Rightarrow> byte list) \<Rightarrow> byte list \<Rightarrow> u32 \<Rightarrow> signer" where
  "channel_key_derive keygen sign wallet_seed channel_index =
     channel_key keygen sign (funding_key_seed wallet_seed channel_index) (Some channel_index)"

section \<open>Terms\<close>

record terms =
  default_delay :: nat
  min_delay :: nat
  max_delay :: nat
  terms_funding_depth :: nat

definition channel_terms :: "network \<Rightarrow> terms" where
  "channel_terms net =
     (case net of
        Regtest \<Rightarrow> \<lparr>default_delay = 12, min_delay = 6, max_delay = 2016, terms_funding_depth = 2\<rparr>
      | _ \<Rightarrow> \<lparr>default_delay = 1440, min_delay = 720, max_delay = 2016, terms_funding_depth = 6\<rparr>)"

definition MIN_CAPACITY :: nat where
  "MIN_CAPACITY = 4 * MIN_OUTPUT_VALUE"

definition MAX_CAPACITY :: nat where
  "MAX_CAPACITY = 21000000000000"

section \<open>Fees\<close>

datatype fee_tier = Low | Medium | High

definition FEE_TIERS :: "fee_tier list" where
  "FEE_TIERS = [Low, Medium, High]"

fun multiplier :: "fee_tier \<Rightarrow> nat" where
  "multiplier Low = 1"
| "multiplier Medium = 4"
| "multiplier High = 16"

definition tier_from_index :: "byte \<Rightarrow> fee_tier option" where
  "tier_from_index i = (if i = 0 then Some Low else if i = 1 then Some Medium else if i = 2 then Some High else None)"

definition MAX_COMMIT_FEE_RATE :: nat where
  "MAX_COMMIT_FEE_RATE = 10000"

definition SWEEP_FEE :: nat where
  "SWEEP_FEE = 20000"

definition TO_LOCAL_DUST :: nat where
  "TO_LOCAL_DUST = MIN_OUTPUT_VALUE + SWEEP_FEE"

definition capped_fee :: "nat \<Rightarrow> nat \<Rightarrow> nat" where
  "capped_fee v fee = min fee (sat_sub64 v MIN_OUTPUT_VALUE)"

definition tier_rate :: "nat \<Rightarrow> fee_tier \<Rightarrow> nat" where
  "tier_rate base_rate tier = min (sat_mul64 (max base_rate MIN_FEE_RATE) (multiplier tier)) MAX_COMMIT_FEE_RATE"

section \<open>Shapes\<close>

definition key_output :: "hash256 \<Rightarrow> nat \<Rightarrow> txout" where
  "key_output h v = \<lparr>out_value = from_units (of_nat v), out_scheme = CHANNEL_SCHEME, out_pubkey_hash = h\<rparr>"

definition key_leaf :: "hash256 \<Rightarrow> policy" where
  "key_leaf h = PKey CHANNEL_SCHEME h"

definition WITNESS_EMPTY :: tx_witness where
  "WITNESS_EMPTY = \<lparr>wit_pubkey = [], wit_signature = []\<rparr>"

definition one_input :: "outpoint \<Rightarrow> txout list \<Rightarrow> u64 \<Rightarrow> transaction" where
  "one_input op outs lock =
     \<lparr>tx_version = 1, tx_inputs = [\<lparr>prev_out = op, in_witness = WITNESS_EMPTY, in_sequence = - 1\<rparr>],
      tx_outputs = outs, tx_lock_time = lock\<rparr>"

record channel_params =
  cp_funding :: "hash256 two"
  cp_capacity :: amount
  cp_delay :: u16

record Commitment =
  cm_tx :: transaction
  cm_to_local :: policy
  cm_trimmed_units :: nat
  cm_trimmed_outputs :: nat

definition funding_policy :: "channel_params \<Rightarrow> policy" where
  "funding_policy cp = PAll [key_leaf (pick (cp_funding cp) FUNDER), key_leaf (pick (cp_funding cp) ACCEPTOR)]"

definition funding_output :: "channel_params \<Rightarrow> txout" where
  "funding_output cp = policy_output (funding_policy cp) (cp_capacity cp)"

definition obscurer :: "channel_params \<Rightarrow> u64" where
  "obscurer cp = u64_from_le (take 8 (sha256 (pick (cp_funding cp) FUNDER @ pick (cp_funding cp) ACCEPTOR))) AND of_nat MAX_INDEX"

definition state_of :: "channel_params \<Rightarrow> transaction \<Rightarrow> nat" where
  "state_of cp t = unat (tx_lock_time t XOR obscurer cp)"

definition to_local_policy :: "channel_params \<Rightarrow> party \<Rightarrow> hash256 \<Rightarrow> policy" where
  "to_local_policy cp holder point =
     PAny [PAll [key_leaf (pick (cp_funding cp) (peer_of holder)), PPreimage point],
           PAll [key_leaf (pick (cp_funding cp) holder), POlder (cp_delay cp)]]"

definition funding_outpoint_placeholder :: outpoint where
  "funding_outpoint_placeholder = \<lparr>op_txid = HASH_ZERO, op_index = 0\<rparr>"

text \<open>\<open>ChannelParams::commitment\<close>: an output pushed or a balance trimmed, for the holder and for the other side.\<close>

definition push_output :: "nat \<Rightarrow> nat \<Rightarrow> txout \<Rightarrow> txout list \<times> nat \<times> nat \<Rightarrow> txout list \<times> nat \<times> nat" where
  "push_output floor v out st =
     (case st of (outs, trim, n) \<Rightarrow>
        if v \<ge> floor then (outs @ [out], trim, n)
        else if v > 0 then (outs, trim + v, n + 1)
        else (outs, trim, n))"

definition commitment :: "channel_params \<Rightarrow> party \<Rightarrow> nat \<Rightarrow> nat two \<Rightarrow> nat \<Rightarrow> hash256 \<Rightarrow> Commitment" where
  "commitment cp holder n bal fee point =
     (let side = put FUNDER (sat_sub64 (pick bal FUNDER) fee) bal;
          to_local = to_local_policy cp holder point;
          mine = pick side holder;
          theirs = pick side (peer_of holder);
          st1 = push_output TO_LOCAL_DUST mine (policy_output to_local (from_units (of_nat mine))) ([], 0, 0);
          st2 = push_output MIN_OUTPUT_VALUE theirs (key_output (pick (cp_funding cp) (peer_of holder)) theirs) st1
      in \<lparr>cm_tx = one_input funding_outpoint_placeholder (fst st2) (of_nat n XOR obscurer cp), cm_to_local = to_local,
          cm_trimmed_units = fst (snd st2), cm_trimmed_outputs = snd (snd st2)\<rparr>)"

definition funding_sighash_at :: "channel_params \<Rightarrow> transaction \<Rightarrow> u32 \<Rightarrow> network \<Rightarrow> party \<Rightarrow> hash256" where
  "funding_sighash_at cp t input net p =
     policy_message t input net (funding_output cp) (funding_policy cp) (party_u8 p) []"

definition funding_sighash :: "channel_params \<Rightarrow> transaction \<Rightarrow> network \<Rightarrow> party \<Rightarrow> hash256" where
  "funding_sighash cp t net p = funding_sighash_at cp t 0 net p"

text \<open>\<open>complete_funding_spend_at\<close>: an input out of range would panic; the callers give one that exists.\<close>

definition set_witness :: "transaction \<Rightarrow> nat \<Rightarrow> tx_witness \<Rightarrow> transaction" where
  "set_witness t i w = t\<lparr>tx_inputs := (tx_inputs t)[i := (tx_inputs t ! i)\<lparr>in_witness := w\<rparr>]\<rparr>"

definition funding_satisfaction :: "byte list two \<Rightarrow> byte list two \<Rightarrow> satisfaction" where
  "funding_satisfaction sigs pubkeys = SAll [SKey (pick pubkeys FUNDER) (pick sigs FUNDER), SKey (pick pubkeys ACCEPTOR) (pick sigs ACCEPTOR)]"

definition complete_funding_spend_at ::
  "channel_params \<Rightarrow> transaction \<Rightarrow> nat \<Rightarrow> byte list two \<Rightarrow> byte list two \<Rightarrow> transaction" where
  "complete_funding_spend_at cp t input sigs pubkeys =
     set_witness t input (policy_witness (funding_policy cp) (funding_satisfaction sigs pubkeys))"

definition complete_funding_spend :: "channel_params \<Rightarrow> transaction \<Rightarrow> byte list two \<Rightarrow> byte list two \<Rightarrow> transaction" where
  "complete_funding_spend cp t sigs pubkeys = complete_funding_spend_at cp t 0 sigs pubkeys"

definition cooperative_close ::
  "channel_params \<Rightarrow> outpoint \<Rightarrow> nat two \<Rightarrow> nat \<Rightarrow> hash256 two \<Rightarrow> party \<Rightarrow> Commitment" where
  "cooperative_close cp funding bal fee payout payer =
     (let side = put payer (sat_sub64 (pick bal payer) fee) bal;
          pay = (\<lambda>p. push_output MIN_OUTPUT_VALUE (pick side p) (key_output (pick payout p) (pick side p)));
          st = pay ACCEPTOR (pay FUNDER ([], 0, 0))
      in \<lparr>cm_tx = one_input funding (fst st) 0, cm_to_local = funding_policy cp,
          cm_trimmed_units = fst (snd st), cm_trimmed_outputs = snd (snd st)\<rparr>)"

section \<open>Weights\<close>

definition dummy_funding_witness :: "policy \<Rightarrow> tx_witness" where
  "dummy_funding_witness p =
     (let k = SKey (replicate (pubkey_len CHANNEL_SCHEME) 0) (replicate (sig_len CHANNEL_SCHEME) 0)
      in policy_witness p (SAll [k, k]))"

definition half_and_half :: "channel_params \<Rightarrow> nat two" where
  "half_and_half cp = (units (cp_capacity cp) div 2, units (cp_capacity cp) - units (cp_capacity cp) div 2)"

definition standard_commitment_weight :: "channel_params \<Rightarrow> nat" where
  "standard_commitment_weight cp =
     (let c = commitment cp FUNDER 0 (half_and_half cp) 0 HASH_ZERO
      in tx_weight (set_witness (cm_tx c) 0 (dummy_funding_witness (funding_policy cp))) WITNESS_DISCOUNT)"

definition standard_close_weight :: "channel_params \<Rightarrow> nat" where
  "standard_close_weight cp =
     (let c = cooperative_close cp funding_outpoint_placeholder (half_and_half cp) 0 (HASH_ZERO, replicate 32 1) FUNDER
      in tx_weight (set_witness (cm_tx c) 0 (dummy_funding_witness (funding_policy cp))) WITNESS_DISCOUNT)"

definition penalty_fee :: "transaction \<Rightarrow> nat" where
  "penalty_fee penalty = max (sat_mul64 MAX_COMMIT_FEE_RATE (tx_weight penalty WITNESS_DISCOUNT) div 1000) SWEEP_FEE"

definition div_ceil :: "nat \<Rightarrow> nat \<Rightarrow> nat" where
  "div_ceil a b = (a + b - 1) div b"

definition close_fee_bounds :: "channel_params \<Rightarrow> nat two" where
  "close_fee_bounds cp =
     (let w = standard_close_weight cp
      in (div_ceil (sat_mul64 MIN_FEE_RATE w) 1000, max (sat_mul64 MAX_COMMIT_FEE_RATE w div 1000) SWEEP_FEE))"

definition commitment_fee :: "channel_params \<Rightarrow> nat \<Rightarrow> nat" where
  "commitment_fee cp rate = sat_mul64 rate (standard_commitment_weight cp) div 1000"

definition close_reserve :: "u16 \<Rightarrow> nat \<Rightarrow> nat" where
  "close_reserve delay base_rate =
     commitment_fee \<lparr>cp_funding = (HASH_ZERO, HASH_ZERO), cp_capacity = from_units (of_nat UNITS_PER_COIN), cp_delay = delay\<rparr>
       (tier_rate base_rate High)"

section \<open>Penalties and sweeps\<close>

definition sweep_unsigned :: "outpoint \<Rightarrow> txout \<Rightarrow> hash256 \<Rightarrow> nat \<Rightarrow> transaction" where
  "sweep_unsigned op out sweep_to fee =
     (let v = units (out_value out) in one_input op [key_output sweep_to (sat_sub64 v (capped_fee v fee))] 0)"

definition penalty_tx ::
  "outpoint \<Rightarrow> txout \<Rightarrow> policy \<Rightarrow> secret \<Rightarrow> hash256 \<Rightarrow> nat \<Rightarrow> network \<Rightarrow> signer \<Rightarrow> transaction" where
  "penalty_tx op out pol secret sweep_to fee net sg =
     (let t = sweep_unsigned op out sweep_to fee;
          m = policy_message t 0 net out pol 0 [0];
          s = SAny 0 (SAll [SKey (sg_pubkey sg) (sg_sign sg m), SPreimage secret])
      in set_witness t 0 (policy_witness pol s))"

definition local_sweep_tx ::
  "outpoint \<Rightarrow> txout \<Rightarrow> policy \<Rightarrow> hash256 \<Rightarrow> nat \<Rightarrow> network \<Rightarrow> signer \<Rightarrow> transaction" where
  "local_sweep_tx op out pol sweep_to fee net sg =
     (let t = sweep_unsigned op out sweep_to fee;
          m = policy_message t 0 net out pol 2 [1];
          s = SAny 1 (SAll [SKey (sg_pubkey sg) (sg_sign sg m), SOlder])
      in set_witness t 0 (policy_witness pol s))"

definition to_remote_claim_tx :: "outpoint \<Rightarrow> txout \<Rightarrow> hash256 \<Rightarrow> nat \<Rightarrow> network \<Rightarrow> signer \<Rightarrow> transaction" where
  "to_remote_claim_tx op out sweep_to fee net sg =
     (let t = sweep_unsigned op out sweep_to fee
      in set_witness t 0 \<lparr>wit_pubkey = sg_pubkey sg, wit_signature = sg_sign sg (sighash t 0 net out)\<rparr>)"

definition key_spend_weight :: nat where
  "key_spend_weight =
     tx_weight (set_witness (one_input funding_outpoint_placeholder [key_output HASH_ZERO MIN_OUTPUT_VALUE] 0) 0
       \<lparr>wit_pubkey = replicate (pubkey_len CHANNEL_SCHEME) 0, wit_signature = replicate (sig_len CHANNEL_SCHEME) 0\<rparr>)
       WITNESS_DISCOUNT"

definition claimable :: "nat \<Rightarrow> bool" where
  "claimable v \<longleftrightarrow> capped_fee v SWEEP_FEE \<ge> div_ceil (sat_mul64 MIN_FEE_RATE key_spend_weight) 1000"

section \<open>The watcher\<close>

record output_ref =
  or_outpoint :: outpoint
  or_output :: txout

datatype watch =
    RevokedByPeer nat output_ref secret "output_ref option"
  | PeerLatest nat "output_ref option"
  | OurCommitment nat "output_ref option" u16
  | NotOurChannel
  | Unrecognized

text \<open>The first output with a property, with its index.\<close>

fun find_output :: "(txout \<Rightarrow> bool) \<Rightarrow> nat \<Rightarrow> txout list \<Rightarrow> (nat \<times> txout) option" where
  "find_output P i [] = None"
| "find_output P i (out # outs) = (if P out then Some (i, out) else find_output P (Suc i) outs)"

definition find_key_output :: "transaction \<Rightarrow> hash256 \<Rightarrow> (nat \<times> txout) option" where
  "find_key_output t h = find_output (\<lambda>out. out_scheme out = MlDsa87 \<and> out_pubkey_hash out = h) 0 (tx_outputs t)"

definition find_policy_output :: "transaction \<Rightarrow> (nat \<times> txout) option" where
  "find_policy_output t = find_output (\<lambda>out. out_scheme out = SchemeId.Policy) 0 (tx_outputs t)"

definition output_at :: "hash256 \<Rightarrow> nat \<times> txout \<Rightarrow> output_ref" where
  "output_at tid x = \<lparr>or_outpoint = \<lparr>op_txid = tid, op_index = of_nat (fst x)\<rparr>, or_output = snd x\<rparr>"

definition spends_first :: "transaction \<Rightarrow> outpoint option" where
  "spends_first t = (case tx_inputs t of [] \<Rightarrow> None | i # _ \<Rightarrow> Some (prev_out i))"

text \<open>
  \<open>classify\<close>. The subtraction \<open>MAX_INDEX - n\<close> panics for a state beyond the last index; the field
  \<open>latest_state\<close> of the context is read by nothing.
\<close>

definition classify :: "channel_params \<Rightarrow> party \<Rightarrow> store \<Rightarrow> outpoint \<Rightarrow> transaction \<Rightarrow> (watch, unit) result" where
  "classify cp us st funding t =
     (if spends_first t \<noteq> Some funding then Ok NotOurChannel
      else let n = state_of cp t;
               tid = txid t;
               ours = find_key_output t (pick (cp_funding cp) us);
               theirs = find_key_output t (pick (cp_funding cp) (peer_of us));
               pol = find_policy_output t
           in if ours \<noteq> None \<and> theirs = None then
                (if n > MAX_INDEX then Panic
                 else case (store_get st (MAX_INDEX - n), pol) of
                   (Some secret, Some x) \<Rightarrow> Ok (RevokedByPeer n (output_at tid x) secret (map_option (output_at tid) ours))
                 | _ \<Rightarrow> Ok (PeerLatest n (map_option (output_at tid) ours)))
              else if theirs \<noteq> None \<and> ours = None then Ok (OurCommitment n (map_option (output_at tid) pol) (cp_delay cp))
              else Ok Unrecognized)"

section \<open>What a commitment pays\<close>

definition outputs_total :: "txout list \<Rightarrow> nat" where
  "outputs_total outs = sum_list (map (\<lambda>out. units (out_value out)) outs)"

lemma units_from_units [simp]: "v < 2 ^ 64 \<Longrightarrow> units (from_units (of_nat v)) = v"
  by (simp add: units_def from_units_def unat_of_nat take_bit_nat_eq_self)

lemma push_output_total:
  assumes "push_output floor v out (outs, trim, n) = (outs', trim', n')" "v < 2 ^ 64" "units (out_value out) = v"
  shows "outputs_total outs' + trim' = outputs_total outs + trim + v \<and>
    set outs' \<subseteq> insert out (set outs) \<and> (out \<in> set outs' \<longrightarrow> out \<in> set outs \<or> floor \<le> v)"
  using assms by (auto simp: push_output_def outputs_total_def split: if_splits)

lemma pick_put [simp]: "pick (put p x s) q = (if q = p then x else pick s q)"
  by (cases s; cases p; cases q) simp_all

lemma pick_both: "pick s p + pick s (peer_of p) = fst s + (snd s :: nat)"
  by (cases s; cases p) simp_all

lemma peer_of_neq [simp]: "peer_of p \<noteq> p" "p \<noteq> peer_of p" "peer_of (peer_of p) = p"
  by (cases p; simp)+

lemma two_pushes:
  assumes "v < 2 ^ 64" "w < 2 ^ 64" "units (out_value a) = v" "units (out_value b) = w" "MIN_OUTPUT_VALUE \<le> f" "MIN_OUTPUT_VALUE \<le> g"
    and "push_output g w b (push_output f v a ([], 0, 0)) = (outs, trim, n)"
  shows "outputs_total outs + trim = v + w \<and> (\<forall>out \<in> set outs. MIN_OUTPUT_VALUE \<le> units (out_value out)) \<and> length outs + n \<le> 2 \<and>
    trim < f + g"
  using assms by (auto simp: push_output_def outputs_total_def MIN_OUTPUT_VALUE_def split: if_splits prod.splits)

lemma commitment_pays:
  assumes "fst bal + snd bal = units (cp_capacity cp)" "fee \<le> fst bal"
  shows "outputs_total (tx_outputs (cm_tx (commitment cp h n bal fee pt))) + cm_trimmed_units (commitment cp h n bal fee pt) + fee =
      units (cp_capacity cp) \<and>
    (\<forall>out \<in> set (tx_outputs (cm_tx (commitment cp h n bal fee pt))). MIN_OUTPUT_VALUE \<le> units (out_value out)) \<and>
    length (tx_outputs (cm_tx (commitment cp h n bal fee pt))) + cm_trimmed_outputs (commitment cp h n bal fee pt) \<le> 2 \<and>
    cm_trimmed_units (commitment cp h n bal fee pt) < TO_LOCAL_DUST + MIN_OUTPUT_VALUE"
proof -
  let ?side = "put FUNDER (sat_sub64 (pick bal FUNDER) fee) bal"
  have cap: "units (cp_capacity cp) < 2 ^ 64" by (rule units_lt)
  have s: "pick ?side h + pick ?side (peer_of h) + fee = units (cp_capacity cp)"
    using assms by (cases bal; cases h) (auto simp: sat_sub64_def)
  obtain outs trim k where st: "push_output MIN_OUTPUT_VALUE (pick ?side (peer_of h)) (key_output (pick (cp_funding cp) (peer_of h)) (pick ?side (peer_of h)))
      (push_output TO_LOCAL_DUST (pick ?side h) (policy_output (to_local_policy cp h pt) (from_units (of_nat (pick ?side h)))) ([], 0, 0)) = (outs, trim, k)"
    by (metis prod_cases3)
  have "outputs_total outs + trim = pick ?side h + pick ?side (peer_of h) \<and> (\<forall>out \<in> set outs. MIN_OUTPUT_VALUE \<le> units (out_value out)) \<and>
      length outs + k \<le> 2 \<and> trim < TO_LOCAL_DUST + MIN_OUTPUT_VALUE"
    by (rule two_pushes [OF _ _ _ _ _ _ st]) (use s cap in \<open>simp_all add: policy_output_def key_output_def TO_LOCAL_DUST_def del: pick_put\<close>)
  then show ?thesis using s st by (simp add: commitment_def one_input_def Let_def del: pick_put)
qed

lemma close_pays:
  assumes "fst bal + snd bal = units (cp_capacity cp)" "fee \<le> pick bal payer"
  shows "outputs_total (tx_outputs (cm_tx (cooperative_close cp op bal fee payout payer))) +
      cm_trimmed_units (cooperative_close cp op bal fee payout payer) + fee = units (cp_capacity cp) \<and>
    (\<forall>out \<in> set (tx_outputs (cm_tx (cooperative_close cp op bal fee payout payer))). MIN_OUTPUT_VALUE \<le> units (out_value out))"
proof -
  let ?side = "put payer (sat_sub64 (pick bal payer) fee) bal"
  have cap: "units (cp_capacity cp) < 2 ^ 64" by (rule units_lt)
  have s: "pick ?side FUNDER + pick ?side ACCEPTOR + fee = units (cp_capacity cp)"
    using assms by (cases bal; cases payer) (auto simp: sat_sub64_def)
  obtain outs trim k where st: "push_output MIN_OUTPUT_VALUE (pick ?side ACCEPTOR) (key_output (pick payout ACCEPTOR) (pick ?side ACCEPTOR))
      (push_output MIN_OUTPUT_VALUE (pick ?side FUNDER) (key_output (pick payout FUNDER) (pick ?side FUNDER)) ([], 0, 0)) = (outs, trim, k)"
    by (metis prod_cases3)
  have "outputs_total outs + trim = pick ?side FUNDER + pick ?side ACCEPTOR \<and> (\<forall>out \<in> set outs. MIN_OUTPUT_VALUE \<le> units (out_value out)) \<and>
      length outs + k \<le> 2 \<and> trim < MIN_OUTPUT_VALUE + MIN_OUTPUT_VALUE"
    by (rule two_pushes [OF _ _ _ _ _ _ st]) (use s cap in \<open>simp_all add: key_output_def del: pick_put\<close>)
  then show ?thesis using s st by (simp add: cooperative_close_def one_input_def Let_def del: pick_put)
qed

section \<open>Who may take the revocable output\<close>

definition params_ok :: "channel_params \<Rightarrow> bool" where
  "params_ok cp \<longleftrightarrow> length (fst (cp_funding cp)) = 32 \<and> length (snd (cp_funding cp)) = 32 \<and> cp_delay cp \<noteq> 0"

text \<open>
  What the signing library is trusted for: keys and signatures of the sizes of the scheme, and signatures the
  verification accepts.
\<close>

definition signs_for :: "mldsa_lib \<Rightarrow> signer \<Rightarrow> hash256 \<Rightarrow> bool" where
  "signs_for mldsa sg h \<longleftrightarrow> length (sg_pubkey sg) = pubkey_len CHANNEL_SCHEME \<and> signer_pubkey_hash sg = h \<and>
     (\<forall>m. length (sg_sign sg m) = sig_len CHANNEL_SCHEME \<and> mldsa CHANNEL_SCHEME (sg_pubkey sg) m (sg_sign sg m))"

lemma signs_for_verify: "signs_for mldsa sg h \<Longrightarrow> verify mldsa CHANNEL_SCHEME (sg_pubkey sg) m (sg_sign sg m) = Ok ()"
  by (simp add: signs_for_def verify_def CHANNEL_SCHEME_def check_sizes_def mldsa_verify_params_def)

lemma to_local_ok: "params_ok cp \<Longrightarrow> length pt = 32 \<Longrightarrow> policy_ok (to_local_policy cp h pt)"
  by (cases "cp_funding cp"; cases h)
    (auto simp: policy_ok_def to_local_policy_def params_ok_def key_leaf_def CHANNEL_SCHEME_def SCHEME_ALL_def is_one_time_def
      MAX_POLICY_LEAVES_def MAX_POLICY_DEPTH_def)

lemma funding_policy_ok: "params_ok cp \<Longrightarrow> policy_ok (funding_policy cp)"
  by (cases "cp_funding cp")
    (auto simp: policy_ok_def funding_policy_def params_ok_def key_leaf_def CHANNEL_SCHEME_def SCHEME_ALL_def is_one_time_def
      MAX_POLICY_LEAVES_def MAX_POLICY_DEPTH_def)

text \<open>The two ways through the policy of the revocable output, as a witness spells them.\<close>

definition revocation_spend ::
  "mldsa_lib \<Rightarrow> transaction \<Rightarrow> u32 \<Rightarrow> network \<Rightarrow> channel_params \<Rightarrow> party \<Rightarrow> hash256 \<Rightarrow> txout \<Rightarrow> byte list \<Rightarrow> bool" where
  "revocation_spend mldsa t i net cp h pt out bs \<longleftrightarrow>
     (\<exists>pk sg x. bs = 0 # w_var_bytes pk @ w_var_bytes sg @ x \<and> length x = 32 \<and> sha256 x = pt \<and>
        check_sizes CHANNEL_SCHEME pk sg = Ok () \<and> pubkey_hash CHANNEL_SCHEME pk = pick (cp_funding cp) (peer_of h) \<and>
        verify mldsa CHANNEL_SCHEME pk (policy_message t i net out (to_local_policy cp h pt) 0 [0]) sg = Ok ())"

definition delayed_spend ::
  "mldsa_lib \<Rightarrow> transaction \<Rightarrow> u32 \<Rightarrow> network \<Rightarrow> channel_params \<Rightarrow> party \<Rightarrow> hash256 \<Rightarrow> txout \<Rightarrow> byte list \<Rightarrow> bool" where
  "delayed_spend mldsa t i net cp h pt out bs \<longleftrightarrow>
     (\<exists>pk sg. bs = 1 # w_var_bytes pk @ w_var_bytes sg \<and>
        check_sizes CHANNEL_SCHEME pk sg = Ok () \<and> pubkey_hash CHANNEL_SCHEME pk = pick (cp_funding cp) h \<and>
        verify mldsa CHANNEL_SCHEME pk (policy_message t i net out (to_local_policy cp h pt) 2 [1]) sg = Ok ())"

abbreviation key_used :: "nat \<Rightarrow> hash256 \<Rightarrow> byte list \<Rightarrow> byte list \<Rightarrow> key_use" where
  "key_used leaf h pk sg \<equiv> \<lparr>ku_leaf = leaf, ku_scheme = CHANNEL_SCHEME, ku_hash = h, ku_pubkey = pk, ku_signature = sg\<rparr>"

lemma channel_sizes: "check_sizes CHANNEL_SCHEME pk sg = Ok () \<Longrightarrow> length pk < 2 ^ 64 \<and> length sg < 2 ^ 64"
  by (auto simp: check_sizes_def CHANNEL_SCHEME_def split: if_splits)

lemma walk_key_leaf:
  "check_sizes CHANNEL_SCHEME pk sg = Ok () \<Longrightarrow>
   walk (key_leaf h) (w_var_bytes pk @ w_var_bytes sg @ rest, leaf, path) =
     Ok (rest, leaf + 1, path\<lparr>pp_keys := pp_keys path @ [key_used leaf h pk sg]\<rparr>)"
  using channel_sizes [of pk sg] by (simp add: key_leaf_def var_bytes.dec_enc)

lemma leaf_count_key_leaf [simp]: "leaf_count (key_leaf h) = 1"
  by (simp add: key_leaf_def)

lemma walk_preimage:
  "length x = 32 \<Longrightarrow> sha256 x = pt \<Longrightarrow> walk (PPreimage pt) (x @ rest, leaf, path) = Ok (rest, leaf + 1, path)"
  using arr32.dec_enc [of x rest] by (simp del: r_array32_Ok_iff)

lemma walk_to_local:
  "walk (to_local_policy cp h pt) (bs, 0, path_new True) = Ok ([], leaf, path) \<longleftrightarrow>
     (\<exists>pk sg x. bs = 0 # w_var_bytes pk @ w_var_bytes sg @ x \<and> length x = 32 \<and> sha256 x = pt \<and>
        check_sizes CHANNEL_SCHEME pk sg = Ok () \<and> leaf = 4 \<and>
        path = \<lparr>pp_keys = [key_used 0 (pick (cp_funding cp) (peer_of h)) pk sg], pp_min_age = 0, pp_min_height = 0, pp_choices = [0],
                pp_check_preimages = True\<rparr>) \<or>
     (\<exists>pk sg. bs = 1 # w_var_bytes pk @ w_var_bytes sg \<and> check_sizes CHANNEL_SCHEME pk sg = Ok () \<and> leaf = 4 \<and>
        path = \<lparr>pp_keys = [key_used 2 (pick (cp_funding cp) h) pk sg], pp_min_age = unat (cp_delay cp), pp_min_height = 0, pp_choices = [1],
                pp_check_preimages = True\<rparr>)" (is "?w \<longleftrightarrow> ?r \<or> ?d")
proof
  assume w: ?w
  then obtain index rest where bs: "bs = index # rest" and idx: "unat index < 2"
    by (auto simp: to_local_policy_def path_new_def split: if_splits prod.splits)
  have "unat index = 0 \<or> unat index = 1" using idx by arith
  then have "index = 0 \<or> index = 1" by (simp add: word_unat_eq_iff)
  then consider "index = 0" | "index = 1" by blast
  then show "?r \<or> ?d"
  proof cases
    case 1
    with w show ?thesis unfolding bs
      by (auto simp: to_local_policy_def path_new_def key_leaf_def var_bytes.dec_iff split: if_splits prod.splits)
  next
    case 2
    with w show ?thesis unfolding bs
      by (auto simp: to_local_policy_def path_new_def key_leaf_def var_bytes.dec_iff split: if_splits prod.splits)
  qed
next
  assume "?r \<or> ?d"
  then show ?w
  proof (elim disjE exE conjE)
    fix pk sg x
    assume a: "bs = 0 # w_var_bytes pk @ w_var_bytes sg @ x" "length x = 32" "sha256 x = pt" "check_sizes CHANNEL_SCHEME pk sg = Ok ()" "leaf = 4"
      "path = \<lparr>pp_keys = [key_used 0 (pick (cp_funding cp) (peer_of h)) pk sg], pp_min_age = 0, pp_min_height = 0, pp_choices = [0],
                pp_check_preimages = True\<rparr>"
    show ?w using walk_preimage [OF a(2,3), of "[]"]
      by (simp add: a(1,5,6) to_local_policy_def path_new_def walk_key_leaf [OF a(4)] r_u8_Cons key_leaf_def [symmetric] del: rbind_Ok_iff walk.simps(1,2) r_u8_Ok_iff)
  next
    fix pk sg
    assume a: "bs = 1 # w_var_bytes pk @ w_var_bytes sg" "check_sizes CHANNEL_SCHEME pk sg = Ok ()" "leaf = 4"
      "path = \<lparr>pp_keys = [key_used 2 (pick (cp_funding cp) h) pk sg], pp_min_age = unat (cp_delay cp), pp_min_height = 0, pp_choices = [1],
                pp_check_preimages = True\<rparr>"
    show ?w using walk_key_leaf [OF a(2), of _ "[]"]
      by (simp add: a(1,3,4) to_local_policy_def path_new_def r_u8_Cons key_leaf_def [symmetric] del: rbind_Ok_iff walk.simps(1) r_u8_Ok_iff)
  qed
qed

lemma read_to_local:
  assumes "params_ok cp" "length pt = 32" "wit_pubkey wit = policy_encode (to_local_policy cp h pt)"
  shows "read_spend (policy_output (to_local_policy cp h pt) v) wit = Ok (p, path) \<longleftrightarrow>
    p = to_local_policy cp h pt \<and> (\<exists>leaf. walk p (wit_signature wit, 0, path_new True) = Ok ([], leaf, path))"
proof -
  let ?p = "to_local_policy cp h pt"
  have ok: "policy_ok ?p" using to_local_ok [OF assms(1,2)] .
  then have "length (policy_encode ?p) \<le> MAX_POLICY_SIZE"
    using policy_encode_length [of ?p] by (simp add: policy_ok_def MAX_POLICY_SIZE_def MAX_POLICY_LEAVES_def)
  moreover have "policy_decode (policy_encode ?p) = Ok ?p" using ok policy_decode_iff by blast
  ultimately show ?thesis
    by (auto simp: read_spend_def assms(3) policy_output_def lock_hash_def split: if_splits)
qed

lemma precheck_Ok:
  "precheck net spent height wit = Ok path \<longleftrightarrow> (\<exists>p. read_spend (ue_output spent) wit = Ok (p, path)) \<and>
     path_available_at path (ue_height spent) \<le> height \<and> check_path_keys net (pp_keys path) = Ok ()"
  by (cases "path_available_at path (ue_height spent) \<le> height")
    (auto simp: precheck_def Let_def not_le split: if_splits, metis linorder_not_less)

lemma check_spend_to_local:
  assumes "params_ok cp" "length pt = 32" "wit_pubkey wit = policy_encode (to_local_policy cp h pt)"
    and "ue_output spent = policy_output (to_local_policy cp h pt) v"
  shows "check_spend mldsa t i net spent height wit = Ok () \<longleftrightarrow>
    revocation_spend mldsa t i net cp h pt (ue_output spent) (wit_signature wit) \<or>
    delayed_spend mldsa t i net cp h pt (ue_output spent) (wit_signature wit) \<and> sat_add64 (ue_height spent) (unat (cp_delay cp)) \<le> height"
proof -
  let ?p = "to_local_policy cp h pt"
  have net: "allowed_on CHANNEL_SCHEME net" by (simp add: CHANNEL_SCHEME_def)
  have d: "0 < unat (cp_delay cp)" using assms(1) by (simp add: params_ok_def unat_gt_0)
  define P where "P path \<longleftrightarrow> path_available_at path (ue_height spent) \<le> height \<and> check_path_keys net (pp_keys path) = Ok () \<and>
      verify_path_keys mldsa (\<lambda>leaf. policy_message t i net (ue_output spent) ?p (of_nat leaf) (pp_choices path)) (pp_keys path) = Ok ()" for path
  have r: "P \<lparr>pp_keys = [key_used 0 (pick (cp_funding cp) (peer_of h)) pk sg], pp_min_age = 0, pp_min_height = 0, pp_choices = [0],
        pp_check_preimages = True\<rparr> \<longleftrightarrow> pubkey_hash CHANNEL_SCHEME pk = pick (cp_funding cp) (peer_of h) \<and>
        verify mldsa CHANNEL_SCHEME pk (policy_message t i net (ue_output spent) ?p 0 [0]) sg = Ok ()" for pk sg
    using net by (auto simp: P_def path_available_at_def Let_def)
  have d: "P \<lparr>pp_keys = [key_used 2 (pick (cp_funding cp) h) pk sg], pp_min_age = unat (cp_delay cp), pp_min_height = 0, pp_choices = [1],
        pp_check_preimages = True\<rparr> \<longleftrightarrow> pubkey_hash CHANNEL_SCHEME pk = pick (cp_funding cp) h \<and>
        verify mldsa CHANNEL_SCHEME pk (policy_message t i net (ue_output spent) ?p 2 [1]) sg = Ok () \<and>
        sat_add64 (ue_height spent) (unat (cp_delay cp)) \<le> height" for pk sg
    using net d by (auto simp: P_def path_available_at_def Let_def)
  have "check_spend mldsa t i net spent height wit = Ok () \<longleftrightarrow>
      (\<exists>leaf path. walk ?p (wit_signature wit, 0, path_new True) = Ok ([], leaf, path) \<and> P path)"
    using read_to_local [OF assms(1-3), of v]
    by (auto simp: check_spend_def precheck_Ok assms(3,4) policy_message_def policy_sighash_def P_def)
  also have "\<dots> \<longleftrightarrow> (\<exists>pk sg x. wit_signature wit = 0 # w_var_bytes pk @ w_var_bytes sg @ x \<and> length x = 32 \<and> sha256 x = pt \<and>
        check_sizes CHANNEL_SCHEME pk sg = Ok () \<and> P \<lparr>pp_keys = [key_used 0 (pick (cp_funding cp) (peer_of h)) pk sg], pp_min_age = 0,
          pp_min_height = 0, pp_choices = [0], pp_check_preimages = True\<rparr>) \<or>
      (\<exists>pk sg. wit_signature wit = 1 # w_var_bytes pk @ w_var_bytes sg \<and> check_sizes CHANNEL_SCHEME pk sg = Ok () \<and>
        P \<lparr>pp_keys = [key_used 2 (pick (cp_funding cp) h) pk sg], pp_min_age = unat (cp_delay cp), pp_min_height = 0, pp_choices = [1],
          pp_check_preimages = True\<rparr>)"
    unfolding walk_to_local by blast
  finally show ?thesis unfolding r d revocation_spend_def delayed_spend_def by blast
qed

lemma set_witness_stripped [simp]: "encode_without_witness (set_witness t i w) = encode_without_witness t"
proof (cases "i < length (tx_inputs t)")
  case True
  have "map (\<lambda>x. encode_prev (input_prev x)) ((tx_inputs t)[i := (tx_inputs t ! i)\<lparr>in_witness := w\<rparr>]) =
      map (\<lambda>x. encode_prev (input_prev x)) (tx_inputs t)"
    by (rule nth_equalityI) (use True in \<open>auto simp: nth_list_update\<close>)
  then show ?thesis unfolding encode_without_witness_def set_witness_def by simp
qed (simp add: set_witness_def list_update_beyond)

lemma policy_message_witness [simp]: "policy_message (set_witness t i w) j net out p l c = policy_message t j net out p l c"
  by (simp add: policy_message_def policy_sighash_def)

lemma sweep_total:
  "outputs_total (tx_outputs (sweep_unsigned op out to fee)) = units (out_value out) - capped_fee (units (out_value out)) fee"
  using units_lt [of "out_value out"]
  by (simp add: sweep_unsigned_def Let_def one_input_def outputs_total_def key_output_def sat_sub64_def less_imp_diff_less)

lemma capped_fee_le: "capped_fee v fee \<le> v - MIN_OUTPUT_VALUE" "capped_fee v fee \<le> fee" "fee + MIN_OUTPUT_VALUE \<le> v \<Longrightarrow> capped_fee v fee = fee"
  by (auto simp: capped_fee_def sat_sub64_def)

lemma sign_sizes: "signs_for mldsa sg h \<Longrightarrow> check_sizes CHANNEL_SCHEME (sg_pubkey sg) (sg_sign sg m) = Ok ()"
  by (simp add: signs_for_def check_sizes_def)

lemma sha256_length [simp]: "length (sha256 x) = 32"
  by (simp add: sha256_eq_spec)

text \<open>C36. Commitments conserve the channel: for balances that add up to the capacity, of which the funder's covers the
  fee, the outputs of either party's commitment, what is trimmed and the fee add up to the capacity; no output is below the
  dust floor, what is trimmed is below the two floors together, and a cooperative close conserves the capacity in the
  same way, with the fee on the side of the party that proposed it.\<close>

theorem commitments_conserve:
  assumes "fst bal + snd bal = units (cp_capacity cp)" "fee \<le> fst bal" "close_fee \<le> pick bal payer"
  shows "let c = commitment cp h n bal fee pt; d = cooperative_close cp op bal close_fee payout payer in
    outputs_total (tx_outputs (cm_tx c)) + cm_trimmed_units c + fee = units (cp_capacity cp) \<and>
    outputs_total (tx_outputs (cm_tx d)) + cm_trimmed_units d + close_fee = units (cp_capacity cp) \<and>
    (\<forall>out \<in> set (tx_outputs (cm_tx c) @ tx_outputs (cm_tx d)). MIN_OUTPUT_VALUE \<le> units (out_value out)) \<and>
    cm_trimmed_units c < TO_LOCAL_DUST + MIN_OUTPUT_VALUE"
  using commitment_pays [OF assms(1,2), of h n pt] close_pays [OF assms(1,3), of op payout] by (auto simp: Let_def)

theorem commitments_conserve_witness:
  "let cp = \<lparr>cp_funding = (replicate 32 1, replicate 32 2), cp_capacity = Amount 100000, cp_delay = 144\<rparr>;
       c = commitment cp ACCEPTOR 7 (60000, 40000) 5000 (replicate 32 9) in
    outputs_total (tx_outputs (cm_tx c)) + cm_trimmed_units c + 5000 = 100000"
  using commitments_conserve [of "(60000, 40000)" "\<lparr>cp_funding = (replicate 32 1, replicate 32 2), cp_capacity = Amount 100000, cp_delay = 144\<rparr>"
      5000 100 FUNDER ACCEPTOR 7 "replicate 32 9" OUTPOINT_COINBASE "(HASH_ZERO, HASH_ZERO)"]
  by (simp add: Let_def units_def)

text \<open>C37. The revocable output of a commitment can be taken in exactly two ways: at any height by the other party, with
  the secret whose hash is the commitment's revocation point, or by the holder once the delay has passed since the
  commitment was mined. A witness that reveals another policy is accepted only if the two policies have the same tagged
  hash.\<close>

theorem revocable_output_spends:
  assumes "params_ok cp" "length pt = 32" "ue_output spent = policy_output (to_local_policy cp h pt) v"
  shows "(wit_pubkey wit = policy_encode (to_local_policy cp h pt) \<longrightarrow>
      (check_spend mldsa t i net spent height wit = Ok () \<longleftrightarrow>
        revocation_spend mldsa t i net cp h pt (ue_output spent) (wit_signature wit) \<or>
        delayed_spend mldsa t i net cp h pt (ue_output spent) (wit_signature wit) \<and>
          sat_add64 (ue_height spent) (unat (cp_delay cp)) \<le> height)) \<and>
    (wit_pubkey wit \<noteq> policy_encode (to_local_policy cp h pt) \<longrightarrow> check_spend mldsa t i net spent height wit = Ok () \<longrightarrow>
      tagged_hash TAG_POLICY (wit_pubkey wit) = tagged_hash TAG_POLICY (policy_encode (to_local_policy cp h pt)))"
proof (intro conjI impI)
  assume "check_spend mldsa t i net spent height wit = Ok ()"
  then obtain p path where "read_spend (ue_output spent) wit = Ok (p, path)" by (auto simp: check_spend_def precheck_Ok)
  then show "tagged_hash TAG_POLICY (wit_pubkey wit) = tagged_hash TAG_POLICY (policy_encode (to_local_policy cp h pt))"
    by (auto simp: assms(3) read_spend_def policy_output_def lock_hash_def lock_hash_of_def split: if_splits)
qed (rule check_spend_to_local [OF assms(1,2) _ assms(3)])

text \<open>C38. The punishment always works: whatever height a revoked commitment was mined at, the penalty the other party builds
  from the revealed secret is accepted by the rules of the chain, at once, and pays what the output held less its fee, never
  below the dust floor. The holder's own sweep is accepted exactly once the delay has passed.\<close>

theorem penalty_beats_the_delay:
  assumes "params_ok cp" "length secret = 32" "signs_for mldsa sg (pick (cp_funding cp) (peer_of h))" "signs_for mldsa sg' (pick (cp_funding cp) h)"
    and "ue_output spent = policy_output (to_local_policy cp h (sha256 secret)) v"
  shows "let p = to_local_policy cp h (sha256 secret);
             t = penalty_tx op (ue_output spent) p secret to fee net sg;
             t' = local_sweep_tx op (ue_output spent) p to fee net sg' in
    check_spend mldsa t 0 net spent height (in_witness (tx_inputs t ! 0)) = Ok () \<and>
    outputs_total (tx_outputs t) + min fee (units v - MIN_OUTPUT_VALUE) = units v \<and>
    (MIN_OUTPUT_VALUE \<le> units v \<longrightarrow> MIN_OUTPUT_VALUE \<le> outputs_total (tx_outputs t)) \<and>
    (check_spend mldsa t' 0 net spent height (in_witness (tx_inputs t' ! 0)) = Ok () \<longleftrightarrow>
       sat_add64 (ue_height spent) (unat (cp_delay cp)) \<le> height)"
proof -
  let ?p = "to_local_policy cp h (sha256 secret)" and ?u = "sweep_unsigned op (ue_output spent) to fee"
  let ?t = "penalty_tx op (ue_output spent) ?p secret to fee net sg" and ?t' = "local_sweep_tx op (ue_output spent) ?p to fee net sg'"
  let ?g = "sg_sign sg (policy_message ?u 0 net (ue_output spent) ?p 0 [0])" and ?g' = "sg_sign sg' (policy_message ?u 0 net (ue_output spent) ?p 2 [1])"
  have l: "0 < length (tx_inputs ?u)" by (simp add: sweep_unsigned_def Let_def one_input_def)
  have w: "in_witness (tx_inputs ?t ! 0) = policy_witness ?p (SAny 0 (SAll [SKey (sg_pubkey sg) ?g, SPreimage secret]))"
    and w': "in_witness (tx_inputs ?t' ! 0) = policy_witness ?p (SAny 1 (SAll [SKey (sg_pubkey sg') ?g', SOlder]))"
    using l by (simp_all add: penalty_tx_def local_sweep_tx_def Let_def set_witness_def)
  have m: "policy_message ?t 0 net (ue_output spent) ?p a b = policy_message ?u 0 net (ue_output spent) ?p a b"
    "policy_message ?t' 0 net (ue_output spent) ?p a b = policy_message ?u 0 net (ue_output spent) ?p a b" for a b
    by (simp_all add: penalty_tx_def local_sweep_tx_def Let_def)
  have hash: "pubkey_hash CHANNEL_SCHEME (sg_pubkey sg) = pick (cp_funding cp) (peer_of h)" "pubkey_hash CHANNEL_SCHEME (sg_pubkey sg') = pick (cp_funding cp) h"
    using assms(3,4) by (simp_all add: signs_for_def signer_pubkey_hash_def)
  note cs = check_spend_to_local [OF assms(1) sha256_length _ assms(5), of _ mldsa]
  have "revocation_spend mldsa ?t 0 net cp h (sha256 secret) (ue_output spent) (wit_signature (in_witness (tx_inputs ?t ! 0)))"
    unfolding revocation_spend_def w m
    by (intro exI [of _ "sg_pubkey sg"] exI [of _ ?g] exI [of _ secret])
      (simp add: policy_witness_def w_u8_def assms(2) hash sign_sizes [OF assms(3)] signs_for_verify [OF assms(3)])
  then have 1: "check_spend mldsa ?t 0 net spent height (in_witness (tx_inputs ?t ! 0)) = Ok ()"
    using cs [of "in_witness (tx_inputs ?t ! 0)" ?t 0 net height] by (simp add: w policy_witness_def)
  have "\<not> revocation_spend mldsa ?t' 0 net cp h (sha256 secret) (ue_output spent) (wit_signature (in_witness (tx_inputs ?t' ! 0)))"
    by (simp add: revocation_spend_def w' policy_witness_def w_u8_def)
  moreover have "delayed_spend mldsa ?t' 0 net cp h (sha256 secret) (ue_output spent) (wit_signature (in_witness (tx_inputs ?t' ! 0)))"
    unfolding delayed_spend_def w' m
    by (intro exI [of _ "sg_pubkey sg'"] exI [of _ ?g'])
      (simp add: policy_witness_def w_u8_def hash sign_sizes [OF assms(4)] signs_for_verify [OF assms(4)])
  ultimately have 2: "check_spend mldsa ?t' 0 net spent height (in_witness (tx_inputs ?t' ! 0)) = Ok () \<longleftrightarrow>
      sat_add64 (ue_height spent) (unat (cp_delay cp)) \<le> height"
    using cs [of "in_witness (tx_inputs ?t' ! 0)" ?t' 0 net height] by (simp add: w' policy_witness_def)
  have "outputs_total (tx_outputs ?t) = units v - capped_fee (units v) fee"
    using sweep_total [of op "ue_output spent" to fee] assms(5) by (simp add: penalty_tx_def Let_def set_witness_def policy_output_def)
  then show ?thesis using 1 2 by (auto simp: Let_def capped_fee_def sat_sub64_def)
qed

definition example_params :: channel_params where
  "example_params = \<lparr>cp_funding = (pubkey_hash CHANNEL_SCHEME (replicate 2592 1), pubkey_hash CHANNEL_SCHEME (replicate 2592 2)),
     cp_capacity = Amount 100000, cp_delay = 144\<rparr>"

definition example_signer :: "byte \<Rightarrow> signer" where
  "example_signer b = \<lparr>sg_pubkey = replicate 2592 b, sg_sign = (\<lambda>m. replicate 4627 b), sg_revocation_root = (\<lambda>c. replicate 32 b), sg_key_index = None\<rparr>"

lemma example_params_ok: "params_ok example_params"
  by (simp add: params_ok_def example_params_def pubkey_hash_def)

lemma example_signs: "signs_for (\<lambda>_ _ _ _. True) (example_signer 1) (pick (cp_funding example_params) FUNDER)"
    "signs_for (\<lambda>_ _ _ _. True) (example_signer 2) (pick (cp_funding example_params) ACCEPTOR)"
  by (simp_all add: signs_for_def example_signer_def example_params_def signer_pubkey_hash_def CHANNEL_SCHEME_def)

theorem penalty_beats_the_delay_witness:
  "\<exists>spent t. check_spend (\<lambda>_ _ _ _. True) t 0 Regtest spent 0 (in_witness (tx_inputs t ! 0)) = Ok ()"
proof -
  let ?e = "\<lparr>ue_output = policy_output (to_local_policy example_params FUNDER (sha256 (replicate 32 5))) (Amount 50000), ue_height = 10, ue_is_coinbase = False\<rparr>"
  have "length (replicate 32 (5 :: byte)) = 32" "ue_output ?e = policy_output (to_local_policy example_params FUNDER (sha256 (replicate 32 5))) (Amount 50000)"
    by simp_all
  from penalty_beats_the_delay [OF example_params_ok this(1), of "\<lambda>_ _ _ _. True" "example_signer 2" FUNDER "example_signer 1" ?e, OF _ _ this(2)]
  show ?thesis using example_signs by (simp add: Let_def) blast
qed

theorem revocable_output_spends_witness:
  "\<not> (check_spend (\<lambda>_ _ _ _. True) example_tx 0 Regtest
      \<lparr>ue_output = policy_output (to_local_policy example_params FUNDER (sha256 [])) (Amount 50000), ue_height = 10, ue_is_coinbase = False\<rparr> 20
      \<lparr>wit_pubkey = policy_encode (to_local_policy example_params FUNDER (sha256 [])), wit_signature = [7]\<rparr> = Ok ())"
proof -
  let ?e = "\<lparr>ue_output = policy_output (to_local_policy example_params FUNDER (sha256 [])) (Amount 50000), ue_height = 10, ue_is_coinbase = False\<rparr>"
  have "ue_output ?e = policy_output (to_local_policy example_params FUNDER (sha256 [])) (Amount 50000)" by simp
  from revocable_output_spends [OF example_params_ok sha256_length this] show ?thesis
    by (simp add: revocation_spend_def delayed_spend_def)
qed

end
