(* ===== verification/ChanMsg.thy ===== *)
theory ChanMsg
  imports ChanTx
begin

text \<open>
  The messages two channel engines exchange and their encoding (\<open>src/src/channel/messages.rs\<close>). Numbers of 64 and 16 bits are
  natural numbers; \<open>wf_message\<close> bounds them. The text of an error is the bytes of the string.
\<close>

section \<open>Messages\<close>

definition WIRE_VERSION :: byte where
  "WIRE_VERSION = 3"

definition MAX_SPLICE_TX :: nat where
  "MAX_SPLICE_TX = 1800"

definition MAX_ANNOUNCED_HASHES :: nat where
  "MAX_ANNOUNCED_HASHES = 8"

definition MAX_ERROR_LEN :: nat where
  "MAX_ERROR_LEN = 256"

datatype WireError =
    WireRead ReadError
  | UnknownVersion byte
  | UnknownType byte
  | FieldTooLong
  | BadCryptoLength
  | BadTierCount

record revocation =
  rv_secret :: secret
  rv_next_hash :: hash256

type_synonym tier_sigs = "byte list \<times> byte list \<times> byte list"

fun tier_sig :: "tier_sigs \<Rightarrow> fee_tier \<Rightarrow> byte list" where
  "tier_sig (a, b, c) Low = a"
| "tier_sig (a, b, c) Medium = b"
| "tier_sig (a, b, c) High = c"

type_synonym counters = "nat \<times> nat \<times> nat \<times> nat"

datatype message =
    MOpen nat nat nat "byte list" "hash256 list"
  | MAccept "byte list" "hash256 list"
  | MFunding hash256 u32 tier_sigs
  | MFundingSigned tier_sigs
  | MReady nat "byte list"
  | MUpdate nat "nat two" tier_sigs
  | MAck nat tier_sigs revocation
  | MRevoke nat revocation
  | MReestablish hash256 counters "byte list" byte "byte list"
  | MClose nat nat "byte list"
  | MCloseSigned nat "byte list"
  | MError "byte list"
  | MSplice nat nat u32 "byte list" tier_sigs
  | MSpliceAck nat tier_sigs
  | MSpliceSig nat "byte list"
  | MSpliceLocked nat revocation
  | MSpliceBusy nat
  | MBehindProof nat secret

definition CONTROL_READY :: byte where
  "CONTROL_READY = 5"

definition CONTROL_CLOSE :: byte where
  "CONTROL_CLOSE = 10"

definition control_message :: "hash256 \<Rightarrow> byte \<Rightarrow> nat \<Rightarrow> byte \<Rightarrow> byte list \<Rightarrow> hash256" where
  "control_message channel_id sender seq kind body =
     tagged_hash_parts ''Q21/channel/control'' [channel_id, [sender], u64_le (of_nat seq), [kind], body]"

text \<open>The order of byte arrays.\<close>

fun bytes_le :: "byte list \<Rightarrow> byte list \<Rightarrow> bool" where
  "bytes_le [] ys = True"
| "bytes_le (x # xs) [] = False"
| "bytes_le (x # xs) (y # ys) = (x < y \<or> x = y \<and> bytes_le xs ys)"

definition initiative :: "hash256 two \<Rightarrow> party" where
  "initiative hashes = (if bytes_le (pick hashes FUNDER) (pick hashes ACCEPTOR) then FUNDER else ACCEPTOR)"

section \<open>Writers and readers\<close>

definition w_num64 :: "nat \<Rightarrow> byte list" where
  "w_num64 n = w_u64 (of_nat n)"

definition w_num16 :: "nat \<Rightarrow> byte list" where
  "w_num16 n = le_bytes 2 n"

definition write_hashes :: "hash256 list \<Rightarrow> byte list" where
  "write_hashes hs = w_varint (length hs) @ concat hs"

definition write_tier_sigs :: "tier_sigs \<Rightarrow> byte list" where
  "write_tier_sigs s = w_u8 3 @ w_var_bytes (tier_sig s Low) @ w_var_bytes (tier_sig s Medium) @ w_var_bytes (tier_sig s High)"

definition write_revocation :: "revocation \<Rightarrow> byte list" where
  "write_revocation r = rv_secret r @ rv_next_hash r"

type_synonym 'a wreader = "byte list \<Rightarrow> ('a \<times> byte list, WireError) result"

definition wr :: "'a reader \<Rightarrow> 'a wreader" where
  "wr r bs = map_err WireRead (r bs)"

definition rd_num64 :: "nat reader" where
  "rd_num64 bs = rbind (r_u64 bs) (\<lambda>(w, bs). Ok (unat w, bs))"

definition rd_num16 :: "nat reader" where
  "rd_num16 bs = rbind (r_u8 bs) (\<lambda>(a, bs). rbind (r_u8 bs) (\<lambda>(b, bs). Ok (le_val [a, b], bs)))"

abbreviation r_num64 :: "nat wreader" where
  "r_num64 \<equiv> wr rd_num64"

abbreviation r_num16 :: "nat wreader" where
  "r_num16 \<equiv> wr rd_num16"

definition read_bounded :: "nat \<Rightarrow> byte list wreader" where
  "read_bounded mx bs = rbind (wr r_var_bytes bs) (\<lambda>(b, bs). if length b > mx then Err FieldTooLong else Ok (b, bs))"

definition read_exact :: "nat \<Rightarrow> byte list wreader" where
  "read_exact n bs = rbind (read_bounded n bs) (\<lambda>(b, bs). if length b \<noteq> n then Err BadCryptoLength else Ok (b, bs))"

definition read_pubkey :: "byte list wreader" where
  "read_pubkey = read_exact (pubkey_len CHANNEL_SCHEME)"

definition read_sig :: "byte list wreader" where
  "read_sig = read_exact (sig_len CHANNEL_SCHEME)"

definition read_hashes :: "hash256 list wreader" where
  "read_hashes bs =
     rbind (wr (read_count 32) bs) (\<lambda>(n, bs).
       if n > MAX_ANNOUNCED_HASHES then Err FieldTooLong else read_n (wr r_array32) n bs)"

definition read_tier_sigs :: "tier_sigs wreader" where
  "read_tier_sigs bs =
     rbind (wr r_u8 bs) (\<lambda>(n, bs).
       if n \<noteq> 3 then Err BadTierCount
       else rbind (read_sig bs) (\<lambda>(a, bs). rbind (read_sig bs) (\<lambda>(b, bs). rbind (read_sig bs) (\<lambda>(c, bs). Ok ((a, b, c), bs)))))"

definition read_revocation :: "revocation wreader" where
  "read_revocation bs =
     rbind (wr r_array32 bs) (\<lambda>(s, bs). rbind (wr r_array32 bs) (\<lambda>(h, bs). Ok (\<lparr>rv_secret = s, rv_next_hash = h\<rparr>, bs)))"

text \<open>
  \<open>String::from_utf8_lossy\<close>: the length of the next character, or of the next ill-formed part, which is replaced by
  the replacement character.
\<close>

definition is_cont :: "byte list \<Rightarrow> nat \<Rightarrow> bool" where
  "is_cont bs i \<longleftrightarrow> i < length bs \<and> 128 \<le> bs ! i \<and> bs ! i < 192"

definition second_in :: "byte list \<Rightarrow> byte \<Rightarrow> byte \<Rightarrow> bool" where
  "second_in bs lo hi \<longleftrightarrow> 1 < length bs \<and> lo \<le> bs ! 1 \<and> bs ! 1 \<le> hi"

definition utf8_step :: "byte list \<Rightarrow> bool \<times> nat" where
  "utf8_step bs =
     (let b = bs ! 0 in
      if b < 128 then (True, 1)
      else if 194 \<le> b \<and> b \<le> 223 then (if is_cont bs 1 then (True, 2) else (False, 1))
      else if 224 \<le> b \<and> b \<le> 239 then
        (if \<not> second_in bs (if b = 224 then 160 else 128) (if b = 237 then 159 else 191) then (False, 1)
         else if \<not> is_cont bs 2 then (False, 2) else (True, 3))
      else if 240 \<le> b \<and> b \<le> 244 then
        (if \<not> second_in bs (if b = 240 then 144 else 128) (if b = 244 then 143 else 191) then (False, 1)
         else if \<not> is_cont bs 2 then (False, 2)
         else if \<not> is_cont bs 3 then (False, 3) else (True, 4))
      else (False, 1))"

function utf8_lossy :: "byte list \<Rightarrow> byte list" where
  "utf8_lossy bs =
     (if bs = [] then []
      else case utf8_step bs of (ok, n) \<Rightarrow> (if ok then take n bs else [239, 191, 189]) @ utf8_lossy (drop n bs))"
  by pat_completeness auto
termination
  by (relation "measure length") (auto simp: utf8_step_def Let_def split: if_splits)

declare utf8_lossy.simps [simp del]

section \<open>The encoding\<close>

fun msg_encode_body :: "message \<Rightarrow> byte list" where
  "msg_encode_body (MOpen cap delay depth pubkey hashes) =
     w_u8 1 @ w_num64 cap @ w_num16 delay @ w_num16 depth @ w_var_bytes pubkey @ write_hashes hashes"
| "msg_encode_body (MAccept pubkey hashes) = w_u8 2 @ w_var_bytes pubkey @ write_hashes hashes"
| "msg_encode_body (MFunding tid index sigs) = w_u8 3 @ tid @ w_u32 index @ write_tier_sigs sigs"
| "msg_encode_body (MFundingSigned sigs) = w_u8 4 @ write_tier_sigs sigs"
| "msg_encode_body (MReady seq sg) = w_u8 5 @ w_num64 seq @ w_var_bytes sg"
| "msg_encode_body (MUpdate st bal sigs) = w_u8 6 @ w_num64 st @ w_num64 (fst bal) @ w_num64 (snd bal) @ write_tier_sigs sigs"
| "msg_encode_body (MAck st sigs r) = w_u8 7 @ w_num64 st @ write_tier_sigs sigs @ write_revocation r"
| "msg_encode_body (MRevoke st r) = w_u8 8 @ w_num64 st @ write_revocation r"
| "msg_encode_body (MReestablish cid (a, b, c, d) nonce direction proof) =
     w_u8 9 @ cid @ w_num64 a @ w_num64 b @ w_num64 c @ w_num64 d @ nonce @ w_u8 direction @ w_var_bytes proof"
| "msg_encode_body (MClose fee seq sg) = w_u8 10 @ w_num64 fee @ w_num64 seq @ w_var_bytes sg"
| "msg_encode_body (MCloseSigned fee sg) = w_u8 11 @ w_num64 fee @ w_var_bytes sg"
| "msg_encode_body (MError reason) = w_u8 12 @ w_var_bytes (take MAX_ERROR_LEN reason)"
| "msg_encode_body (MSplice st add input t sigs) =
     w_u8 14 @ w_num64 st @ w_num64 add @ w_u32 input @ w_var_bytes t @ write_tier_sigs sigs"
| "msg_encode_body (MSpliceAck st sigs) = w_u8 15 @ w_num64 st @ write_tier_sigs sigs"
| "msg_encode_body (MSpliceSig st sg) = w_u8 16 @ w_num64 st @ w_var_bytes sg"
| "msg_encode_body (MSpliceLocked st r) = w_u8 17 @ w_num64 st @ write_revocation r"
| "msg_encode_body (MSpliceBusy st) = w_u8 18 @ w_num64 st"
| "msg_encode_body (MBehindProof st s) = w_u8 19 @ w_num64 st @ s"

definition msg_encode :: "message \<Rightarrow> byte list" where
  "msg_encode m = w_u8 WIRE_VERSION @ msg_encode_body m"

text \<open>The body of each message after its type byte.\<close>

definition msg_read :: "byte \<Rightarrow> message wreader" where
  "msg_read tag bs =
     (if tag = 1 then
        rbind (r_num64 bs) (\<lambda>(cap, bs). rbind (r_num16 bs) (\<lambda>(delay, bs). rbind (r_num16 bs) (\<lambda>(depth, bs).
        rbind (read_pubkey bs) (\<lambda>(pubkey, bs). rbind (read_hashes bs) (\<lambda>(hs, bs). Ok (MOpen cap delay depth pubkey hs, bs))))))
      else if tag = 2 then
        rbind (read_pubkey bs) (\<lambda>(pubkey, bs). rbind (read_hashes bs) (\<lambda>(hs, bs). Ok (MAccept pubkey hs, bs)))
      else if tag = 3 then
        rbind (wr r_array32 bs) (\<lambda>(tid, bs). rbind (wr r_u32 bs) (\<lambda>(index, bs). rbind (read_tier_sigs bs) (\<lambda>(sigs, bs).
          Ok (MFunding tid index sigs, bs))))
      else if tag = 4 then rbind (read_tier_sigs bs) (\<lambda>(sigs, bs). Ok (MFundingSigned sigs, bs))
      else if tag = 5 then rbind (r_num64 bs) (\<lambda>(seq, bs). rbind (read_sig bs) (\<lambda>(sg, bs). Ok (MReady seq sg, bs)))
      else if tag = 6 then
        rbind (r_num64 bs) (\<lambda>(st, bs). rbind (r_num64 bs) (\<lambda>(a, bs). rbind (r_num64 bs) (\<lambda>(b, bs).
        rbind (read_tier_sigs bs) (\<lambda>(sigs, bs). Ok (MUpdate st (a, b) sigs, bs)))))
      else if tag = 7 then
        rbind (r_num64 bs) (\<lambda>(st, bs). rbind (read_tier_sigs bs) (\<lambda>(sigs, bs). rbind (read_revocation bs) (\<lambda>(r, bs).
          Ok (MAck st sigs r, bs))))
      else if tag = 8 then rbind (r_num64 bs) (\<lambda>(st, bs). rbind (read_revocation bs) (\<lambda>(r, bs). Ok (MRevoke st r, bs)))
      else if tag = 9 then
        rbind (wr r_array32 bs) (\<lambda>(cid, bs). rbind (r_num64 bs) (\<lambda>(a, bs). rbind (r_num64 bs) (\<lambda>(b, bs).
        rbind (r_num64 bs) (\<lambda>(c, bs). rbind (r_num64 bs) (\<lambda>(d, bs). rbind (wr r_array32 bs) (\<lambda>(nonce, bs).
        rbind (wr r_u8 bs) (\<lambda>(direction, bs). rbind (read_sig bs) (\<lambda>(proof, bs).
          Ok (MReestablish cid (a, b, c, d) nonce direction proof, bs)))))))))
      else if tag = 10 then
        rbind (r_num64 bs) (\<lambda>(fee, bs). rbind (r_num64 bs) (\<lambda>(seq, bs). rbind (read_sig bs) (\<lambda>(sg, bs). Ok (MClose fee seq sg, bs))))
      else if tag = 11 then rbind (r_num64 bs) (\<lambda>(fee, bs). rbind (read_sig bs) (\<lambda>(sg, bs). Ok (MCloseSigned fee sg, bs)))
      else if tag = 12 then rbind (read_bounded MAX_ERROR_LEN bs) (\<lambda>(b, bs). Ok (MError (utf8_lossy b), bs))
      else if tag = 14 then
        rbind (r_num64 bs) (\<lambda>(st, bs). rbind (r_num64 bs) (\<lambda>(add, bs). rbind (wr r_u32 bs) (\<lambda>(input, bs).
        rbind (read_bounded MAX_SPLICE_TX bs) (\<lambda>(t, bs). rbind (read_tier_sigs bs) (\<lambda>(sigs, bs). Ok (MSplice st add input t sigs, bs))))))
      else if tag = 15 then rbind (r_num64 bs) (\<lambda>(st, bs). rbind (read_tier_sigs bs) (\<lambda>(sigs, bs). Ok (MSpliceAck st sigs, bs)))
      else if tag = 16 then rbind (r_num64 bs) (\<lambda>(st, bs). rbind (read_sig bs) (\<lambda>(sg, bs). Ok (MSpliceSig st sg, bs)))
      else if tag = 17 then rbind (r_num64 bs) (\<lambda>(st, bs). rbind (read_revocation bs) (\<lambda>(r, bs). Ok (MSpliceLocked st r, bs)))
      else if tag = 18 then rbind (r_num64 bs) (\<lambda>(st, bs). Ok (MSpliceBusy st, bs))
      else if tag = 19 then rbind (r_num64 bs) (\<lambda>(st, bs). rbind (wr r_array32 bs) (\<lambda>(s, bs). Ok (MBehindProof st s, bs)))
      else Err (UnknownType tag))"

definition msg_decode :: "byte list \<Rightarrow> (message, WireError) result" where
  "msg_decode data =
     rbind (wr r_u8 data) (\<lambda>(version, bs).
       if version \<noteq> WIRE_VERSION then Err (UnknownVersion version)
       else rbind (wr r_u8 bs) (\<lambda>(tag, bs).
            rbind (msg_read tag bs) (\<lambda>(m, rest).
            rbind (map_err WireRead (expect_end rest)) (\<lambda>_. Ok m))))"

section \<open>One form per message\<close>

lemma wr_Ok_iff [simp]: "wr r bs = Ok y \<longleftrightarrow> r bs = Ok y"
  by (cases "r bs") (simp_all add: wr_def)

lemma wr_Panic_iff [simp]: "wr r bs = Panic \<longleftrightarrow> r bs = Panic"
  by (cases "r bs") (simp_all add: wr_def)

interpretation rnum64: codec w_num64 rd_num64 "\<lambda>n. n < 2 ^ 64"
proof
  show "rd_num64 (w_num64 x @ rest) = Ok (x, rest)" if "x < 2 ^ 64" for x rest
    using that by (auto simp: rd_num64_def w_num64_def unat_of_nat take_bit_nat_eq_self split: prod.splits)
  show "bs = w_num64 x @ rest \<and> x < 2 ^ 64" if "rd_num64 bs = Ok (x, rest)" for bs x rest
    using that unat_lt [where 'a = 64] by (auto simp: rd_num64_def w_num64_def)
  show "rd_num64 bs \<noteq> Panic" for bs by (auto simp: rd_num64_def rbind_Panic_iff)
qed

interpretation rnum16: codec w_num16 rd_num16 "\<lambda>n. n < 2 ^ 16"
proof
  show "rd_num16 (w_num16 x @ rest) = Ok (x, rest)" if x: "x < 2 ^ 16" for x rest
  proof -
    obtain a b where ab: "w_num16 x = [a, b]" by (simp add: w_num16_def numeral_2_eq_2)
    then have "le_val [a, b] = x" using le_val_le_bytes [of 2 x] x unfolding w_num16_def by simp
    with ab show ?thesis by (simp add: rd_num16_def r_u8_Cons del: le_val.simps)
  qed
  show "bs = w_num16 x @ rest \<and> x < 2 ^ 16" if "rd_num16 bs = Ok (x, rest)" for bs x rest
  proof -
    from that obtain a b where ab: "bs = a # b # rest" "x = le_val [a, b]" by (auto simp: rd_num16_def simp del: le_val.simps)
    then show ?thesis using le_val_take [of "[a, b]" 2] by (simp add: w_num16_def del: le_val.simps)
  qed
  show "rd_num16 bs \<noteq> Panic" for bs by (auto simp: rd_num16_def rbind_Panic_iff)
qed

lemma read_bounded_iff: "mx < 2 ^ 64 \<Longrightarrow> read_bounded mx bs = Ok (b, rest) \<longleftrightarrow> length b \<le> mx \<and> bs = w_var_bytes b @ rest"
proof
  assume "mx < 2 ^ 64" "length b \<le> mx \<and> bs = w_var_bytes b @ rest"
  then have "r_var_bytes bs = Ok (b, rest)" by (simp add: var_bytes.dec_iff)
  then show "read_bounded mx bs = Ok (b, rest)" using \<open>length b \<le> mx \<and> _\<close> by (simp add: read_bounded_def wr_def)
qed (auto simp: read_bounded_def var_bytes.dec_iff split: if_splits)

lemma read_bounded_no_panic [simp]: "read_bounded mx bs \<noteq> Panic"
  by (auto simp: read_bounded_def rbind_Panic_iff var_bytes.no_panic)

lemma read_exact_iff: "n < 2 ^ 64 \<Longrightarrow> read_exact n bs = Ok (b, rest) \<longleftrightarrow> length b = n \<and> bs = w_var_bytes b @ rest"
  by (auto simp: read_exact_def read_bounded_iff split: if_splits)

lemma read_exact_no_panic [simp]: "read_exact n bs \<noteq> Panic"
  by (auto simp: read_exact_def rbind_Panic_iff)

interpretation pk: codec w_var_bytes read_pubkey "\<lambda>b. length b = pubkey_len CHANNEL_SCHEME"
  by unfold_locales (simp_all add: read_pubkey_def read_exact_iff CHANNEL_SCHEME_def)

interpretation sgn: codec w_var_bytes read_sig "\<lambda>b. length b = sig_len CHANNEL_SCHEME"
  by unfold_locales (simp_all add: read_sig_def read_exact_iff CHANNEL_SCHEME_def)

interpretation warr: codec "\<lambda>x. x" "wr r_array32" "\<lambda>x. length x = 32"
  by unfold_locales (auto simp: arr32.dec_iff)

definition wf_hashes :: "hash256 list \<Rightarrow> bool" where
  "wf_hashes hs \<longleftrightarrow> length hs \<le> MAX_ANNOUNCED_HASHES \<and> (\<forall>h \<in> set hs. length h = 32)"

lemma length_concat_32: "\<forall>h \<in> set hs. length h = 32 \<Longrightarrow> length (concat hs) = 32 * length hs"
  by (induction hs) auto

interpretation hs: codec write_hashes read_hashes wf_hashes
proof
  show "read_hashes (write_hashes x @ rest) = Ok (x, rest)" if "wf_hashes x" for x rest
  proof -
    have "read_count 32 (w_varint (length x) @ concat x @ rest) = Ok (length x, concat x @ rest)"
      by (rule read_count_enc) (use that length_concat_32 [of x] in \<open>auto simp: wf_hashes_def MAX_ANNOUNCED_HASHES_def\<close>)
    then show ?thesis using that warr.read_n_enc [of x rest]
      by (simp add: read_hashes_def write_hashes_def wf_hashes_def wr_def)
  qed
  show "bs = write_hashes x @ rest \<and> wf_hashes x" if "read_hashes bs = Ok (x, rest)" for bs x rest
    using that by (auto simp: read_hashes_def write_hashes_def wf_hashes_def read_count_Ok_iff split: if_splits dest!: warr.read_n_dec)
  show "read_hashes bs \<noteq> Panic" for bs
    by (auto simp: read_hashes_def rbind_Panic_iff warr.read_n_no_panic split: if_splits)
qed

definition wf_sigs :: "tier_sigs \<Rightarrow> bool" where
  "wf_sigs s \<longleftrightarrow> (\<forall>t. length (tier_sig s t) = sig_len CHANNEL_SCHEME)"

lemma all_tiers: "(\<forall>t. P t) \<longleftrightarrow> P Low \<and> P Medium \<and> P High"
  by (metis fee_tier.exhaust)

lemma wf_sigs_iff: "wf_sigs (a, b, c) \<longleftrightarrow> length a = sig_len CHANNEL_SCHEME \<and> length b = sig_len CHANNEL_SCHEME \<and> length c = sig_len CHANNEL_SCHEME"
  by (auto simp: wf_sigs_def all_tiers)

interpretation ts: codec write_tier_sigs read_tier_sigs wf_sigs
proof
  show "read_tier_sigs (write_tier_sigs x @ rest) = Ok (x, rest)" if "wf_sigs x" for x rest
    using that by (cases x) (simp add: wf_sigs_iff read_tier_sigs_def write_tier_sigs_def w_u8_def wr_def r_u8_Cons sgn.dec_enc)
  show "bs = write_tier_sigs x @ rest \<and> wf_sigs x" if "read_tier_sigs bs = Ok (x, rest)" for bs x rest
    using that by (auto simp: wf_sigs_iff read_tier_sigs_def write_tier_sigs_def w_u8_def sgn.dec_iff split: if_splits)
  show "read_tier_sigs bs \<noteq> Panic" for bs
    by (auto simp: read_tier_sigs_def rbind_Panic_iff sgn.no_panic split: if_splits)
qed

definition wf_revocation :: "revocation \<Rightarrow> bool" where
  "wf_revocation r \<longleftrightarrow> length (rv_secret r) = 32 \<and> length (rv_next_hash r) = 32"

interpretation rv: codec write_revocation read_revocation wf_revocation
proof
  show "read_revocation (write_revocation x @ rest) = Ok (x, rest)" if "wf_revocation x" for x rest
    using that warr.dec_enc [of "rv_secret x" "rv_next_hash x @ rest"] warr.dec_enc [of "rv_next_hash x" rest]
    by (simp add: read_revocation_def write_revocation_def wf_revocation_def del: wr_Ok_iff rbind_Ok_iff)
qed (auto simp: read_revocation_def write_revocation_def wf_revocation_def rbind_Panic_iff)

text \<open>The strings of the program are well-formed UTF-8.\<close>

function valid_utf8 :: "byte list \<Rightarrow> bool" where
  "valid_utf8 bs \<longleftrightarrow> (if bs = [] then True else fst (utf8_step bs) \<and> valid_utf8 (drop (snd (utf8_step bs)) bs))"
  by pat_completeness auto
termination
  by (relation "measure length") (auto simp: utf8_step_def Let_def split: if_splits)

declare valid_utf8.simps [simp del]

lemma utf8_lossy_valid: "valid_utf8 bs \<Longrightarrow> utf8_lossy bs = bs"
proof (induction bs rule: utf8_lossy.induct)
  case (1 bs)
  then show ?case
    by (cases "bs = []") (auto simp: utf8_lossy.simps [of "[]"] utf8_lossy.simps [of bs] valid_utf8.simps [of bs] split: prod.splits)
qed

lemma utf8_step_True:
  "utf8_step bs = (True, n) \<longleftrightarrow>
     bs ! 0 < 128 \<and> n = 1 \<or>
     \<not> bs ! 0 < 128 \<and> (194 \<le> bs ! 0 \<and> bs ! 0 \<le> 223) \<and> is_cont bs 1 \<and> n = 2 \<or>
     \<not> bs ! 0 < 128 \<and> \<not> (194 \<le> bs ! 0 \<and> bs ! 0 \<le> 223) \<and> (224 \<le> bs ! 0 \<and> bs ! 0 \<le> 239) \<and>
       second_in bs (if bs ! 0 = 224 then 160 else 128) (if bs ! 0 = 237 then 159 else 191) \<and> is_cont bs 2 \<and> n = 3 \<or>
     \<not> bs ! 0 < 128 \<and> \<not> (194 \<le> bs ! 0 \<and> bs ! 0 \<le> 223) \<and> \<not> (224 \<le> bs ! 0 \<and> bs ! 0 \<le> 239) \<and> (240 \<le> bs ! 0 \<and> bs ! 0 \<le> 244) \<and>
       second_in bs (if bs ! 0 = 240 then 144 else 128) (if bs ! 0 = 244 then 143 else 191) \<and> is_cont bs 2 \<and> is_cont bs 3 \<and> n = 4"
  unfolding utf8_step_def Let_def
  by (cases "bs ! 0 < 128"; cases "194 \<le> bs ! 0 \<and> bs ! 0 \<le> 223"; cases "224 \<le> bs ! 0 \<and> bs ! 0 \<le> 239"; cases "240 \<le> bs ! 0 \<and> bs ! 0 \<le> 244";
      simp only: if_True if_False simp_thms; cases "is_cont bs 1"; cases "is_cont bs 2"; cases "is_cont bs 3";
      simp only: if_True if_False simp_thms prod.inject; auto)

lemma utf8_step_prefix:
  assumes st: "utf8_step bs = (True, n)" and "bs \<noteq> []"
  shows "utf8_step (take n bs @ x) = (True, n) \<and> 0 < n \<and> n \<le> length bs"
proof -
  have n: "0 < n" "n \<le> length bs"
    using assms unfolding utf8_step_True is_cont_def second_in_def by (auto simp: Suc_le_eq)
  have "(take n bs @ x) ! i = bs ! i" if "i < n" for i using that n by (simp add: nth_append)
  then have c: "i < n \<Longrightarrow> is_cont (take n bs @ x) i \<longleftrightarrow> is_cont bs i" and z: "(take n bs @ x) ! 0 = bs ! 0"
    and s: "1 < n \<Longrightarrow> second_in (take n bs @ x) lo hi \<longleftrightarrow> second_in bs lo hi" for i lo hi
    using n by (auto simp: is_cont_def second_in_def)
  obtain cs where cs: "cs = take n bs @ x" by blast
  have "utf8_step cs = (True, n)"
    using st z c [of 1] c [of 2] c [of 3] s unfolding utf8_step_True cs [symmetric] One_nat_def
    by (elim disjE conjE) (simp_all del: One_nat_def)
  then show ?thesis using n cs by simp
qed

lemma valid_utf8_lossy: "valid_utf8 (utf8_lossy bs)"
proof (induction bs rule: utf8_lossy.induct)
  case (1 bs)
  show ?case
  proof (cases "bs = []")
    case False
    obtain ok n where st: "utf8_step bs = (ok, n)" by fastforce
    have rec: "valid_utf8 (utf8_lossy (drop n bs))" using 1 False st by simp
    have "utf8_step ((if ok then take n bs else [239, 191, 189]) @ utf8_lossy (drop n bs)) = (True, if ok then n else 3)"
      using utf8_step_prefix [of bs n] st False by (auto simp: utf8_step_def [of "239 # _"] Let_def is_cont_def second_in_def)
    moreover have "drop (if ok then n else 3) ((if ok then take n bs else [239, 191, 189]) @ utf8_lossy (drop n bs)) = utf8_lossy (drop n bs)"
      using utf8_step_prefix [of bs n] st False by auto
    moreover have "(if ok then take n bs else [239, 191, 189]) @ utf8_lossy (drop n bs) \<noteq> []"
      using utf8_step_prefix [of bs n] st False by (auto split: if_splits)
    ultimately show ?thesis
      unfolding utf8_lossy.simps [of bs] using False st rec by (subst valid_utf8.simps) simp
  qed (simp add: utf8_lossy.simps valid_utf8.simps)
qed

fun wf_message :: "message \<Rightarrow> bool" where
  "wf_message (MOpen cap delay depth pubkey hashes) \<longleftrightarrow>
     cap < 2 ^ 64 \<and> delay < 2 ^ 16 \<and> depth < 2 ^ 16 \<and> length pubkey = pubkey_len CHANNEL_SCHEME \<and> wf_hashes hashes"
| "wf_message (MAccept pubkey hashes) \<longleftrightarrow> length pubkey = pubkey_len CHANNEL_SCHEME \<and> wf_hashes hashes"
| "wf_message (MFunding tid index sigs) \<longleftrightarrow> length tid = 32 \<and> wf_sigs sigs"
| "wf_message (MFundingSigned sigs) \<longleftrightarrow> wf_sigs sigs"
| "wf_message (MReady seq sg) \<longleftrightarrow> seq < 2 ^ 64 \<and> length sg = sig_len CHANNEL_SCHEME"
| "wf_message (MUpdate st bal sigs) \<longleftrightarrow> st < 2 ^ 64 \<and> fst bal < 2 ^ 64 \<and> snd bal < 2 ^ 64 \<and> wf_sigs sigs"
| "wf_message (MAck st sigs r) \<longleftrightarrow> st < 2 ^ 64 \<and> wf_sigs sigs \<and> wf_revocation r"
| "wf_message (MRevoke st r) \<longleftrightarrow> st < 2 ^ 64 \<and> wf_revocation r"
| "wf_message (MReestablish cid (a, b, c, d) nonce direction proof) \<longleftrightarrow>
     length cid = 32 \<and> a < 2 ^ 64 \<and> b < 2 ^ 64 \<and> c < 2 ^ 64 \<and> d < 2 ^ 64 \<and> length nonce = 32 \<and> length proof = sig_len CHANNEL_SCHEME"
| "wf_message (MClose fee seq sg) \<longleftrightarrow> fee < 2 ^ 64 \<and> seq < 2 ^ 64 \<and> length sg = sig_len CHANNEL_SCHEME"
| "wf_message (MCloseSigned fee sg) \<longleftrightarrow> fee < 2 ^ 64 \<and> length sg = sig_len CHANNEL_SCHEME"
| "wf_message (MError reason) \<longleftrightarrow> valid_utf8 reason \<and> length reason \<le> MAX_ERROR_LEN"
| "wf_message (MSplice st add input t sigs) \<longleftrightarrow> st < 2 ^ 64 \<and> add < 2 ^ 64 \<and> length t \<le> MAX_SPLICE_TX \<and> wf_sigs sigs"
| "wf_message (MSpliceAck st sigs) \<longleftrightarrow> st < 2 ^ 64 \<and> wf_sigs sigs"
| "wf_message (MSpliceSig st sg) \<longleftrightarrow> st < 2 ^ 64 \<and> length sg = sig_len CHANNEL_SCHEME"
| "wf_message (MSpliceLocked st r) \<longleftrightarrow> st < 2 ^ 64 \<and> wf_revocation r"
| "wf_message (MSpliceBusy st) \<longleftrightarrow> st < 2 ^ 64"
| "wf_message (MBehindProof st s) \<longleftrightarrow> st < 2 ^ 64 \<and> length s = 32"

lemmas msg_readers = rnum64.dec_iff rnum16.dec_iff pk.dec_iff sgn.dec_iff warr.dec_iff hs.dec_iff ts.dec_iff rv.dec_iff

lemmas msg_no_panic = rnum64.no_panic rnum16.no_panic pk.no_panic sgn.no_panic warr.no_panic hs.no_panic ts.no_panic rv.no_panic

definition is_text :: "message \<Rightarrow> bool" where
  "is_text m \<longleftrightarrow> (case m of MError _ \<Rightarrow> True | _ \<Rightarrow> False)"

lemma msg_read_dec: "msg_read tag bs = Ok (m, rest) \<Longrightarrow> \<not> is_text m \<Longrightarrow> wf_message m \<and> tag # bs = msg_encode_body m @ rest"
  by (simp add: msg_read_def is_text_def msg_readers read_bounded_iff MAX_SPLICE_TX_def w_u8_def split: if_splits prod.splits)
    (auto simp: w_u8_def MAX_SPLICE_TX_def)

lemma msg_read_enc: "wf_message m \<Longrightarrow> msg_encode_body m @ rest = tag # bs \<Longrightarrow> msg_read tag bs = Ok (m, rest)"
proof (induction m rule: msg_encode_body.induct)
  case (12 reason)
  then have "read_bounded MAX_ERROR_LEN bs = Ok (reason, rest)" by (auto simp: read_bounded_iff MAX_ERROR_LEN_def w_u8_def)
  then show ?case using 12 by (auto simp: msg_read_def w_u8_def utf8_lossy_valid)
qed (auto simp: msg_read_def w_u8_def msg_readers read_bounded_iff MAX_SPLICE_TX_def)

lemma msg_read_text: "msg_read tag bs = Ok (m, rest) \<Longrightarrow> is_text m \<Longrightarrow> \<exists>r. m = MError r \<and> valid_utf8 r"
  by (auto simp: msg_read_def is_text_def valid_utf8_lossy split: if_splits)

lemma msg_read_no_panic: "msg_read tag bs \<noteq> Panic"
  by (auto simp: msg_read_def rbind_Panic_iff msg_no_panic split: if_splits)

text \<open>C39. One frame has one meaning: every well-formed message is read back from its encoding; what is read from a frame is
  well-formed and the frame is its encoding, except for the text of an error, which is read as well-formed UTF-8 whatever
  its bytes are. No frame makes the reader panic.\<close>

theorem messages_canonical:
  "(wf_message m \<longrightarrow> msg_decode (msg_encode m) = Ok m) \<and>
   (msg_decode bs = Ok m \<longrightarrow> (if is_text m then \<exists>r. m = MError r \<and> valid_utf8 r else wf_message m \<and> bs = msg_encode m)) \<and>
   msg_decode bs \<noteq> Panic"
proof (intro conjI impI)
  assume w: "wf_message m"
  obtain tag body where e: "msg_encode_body m @ [] = tag # body" by (cases m rule: msg_encode_body.cases) (auto simp: w_u8_def)
  from msg_read_enc [OF w e] e show "msg_decode (msg_encode m) = Ok m"
    by (simp add: msg_decode_def msg_encode_def w_u8_def wr_def r_u8_Cons expect_end_def)
next
  assume "msg_decode bs = Ok m"
  then obtain tag body where d: "bs = WIRE_VERSION # tag # body" "msg_read tag body = Ok (m, [])"
    by (auto simp: msg_decode_def split: if_splits)
  then show "if is_text m then \<exists>r. m = MError r \<and> valid_utf8 r else wf_message m \<and> bs = msg_encode m"
    using msg_read_dec [OF d(2)] msg_read_text [OF d(2)] by (auto simp: msg_encode_def w_u8_def)
next
  show "msg_decode bs \<noteq> Panic" by (auto simp: msg_decode_def rbind_Panic_iff msg_read_no_panic split: if_splits)
qed

theorem messages_canonical_witness:
  "msg_decode (msg_encode (MSpliceBusy 7)) = Ok (MSpliceBusy 7)"
  using messages_canonical [of "MSpliceBusy 7" "[]"] by simp

end
