(* ===== verification/ChanJournal.thy ===== *)
theory ChanJournal
  imports ChanMsg
begin

text \<open>
  The journal of a channel (\<open>src/src/channel/journal.rs\<close>): the records, their encoding, their framing and the reading of a
  journal whose last write was interrupted. The file is its bytes; \<open>journal_open\<close> returns the records with the file as it
  is left. File names and system errors are not modelled here.
\<close>

section \<open>Records\<close>

datatype jrecord =
    ROpened hash256 byte "hash256 two" nat nat nat "byte list" "byte list" "hash256 two" "u32 option"
  | RFunded hash256 u32
  | RLocalCommit nat "nat two" tier_sigs
  | RRemoteCommit nat "nat two"
  | RRevocationSent nat
  | RRevocationRecv nat secret
  | RTheirPoint nat hash256
  | RReady
  | RClosingCoop nat
  | RClosingCoopBy nat byte
  | RFundingTx "byte list"
  | RKeyIndex u32
  | RForcing
  | RPenalised
  | RClosed
  | RRevocations nat "(secret \<times> nat) list"
  | RConfirmed nat
  | RCloseSigned nat "byte list"
  | RCrossed nat
  | RControlSent nat
  | RControlRecv nat
  | RAbandoned
  | RSplice nat byte nat nat "hash256 \<times> u32" u32 "byte list"
  | RSpliceSig "byte list"
  | RSpliceTx "byte list"
  | RSpliceLocked

definition w_entry :: "secret \<times> nat \<Rightarrow> byte list" where
  "w_entry e = fst e @ w_num64 (snd e)"

fun rec_encode :: "jrecord \<Rightarrow> byte list" where
  "rec_encode (ROpened cid us funding cap delay depth pk pk' payout key_index) =
     w_u8 (if key_index \<noteq> None then 20 else 1) @ cid @ w_u8 us @ fst funding @ snd funding @ w_num64 cap @ w_num16 delay @ w_num16 depth @
     w_var_bytes pk @ w_var_bytes pk' @ fst payout @ snd payout @ (case key_index of Some i \<Rightarrow> w_u32 i | None \<Rightarrow> [])"
| "rec_encode (RFunded tid index) = w_u8 2 @ tid @ w_u32 index"
| "rec_encode (RLocalCommit st bal sigs) =
     w_u8 3 @ w_num64 st @ w_num64 (fst bal) @ w_num64 (snd bal) @ w_var_bytes (tier_sig sigs Low) @ w_var_bytes (tier_sig sigs Medium) @
     w_var_bytes (tier_sig sigs High)"
| "rec_encode (RRemoteCommit st bal) = w_u8 4 @ w_num64 st @ w_num64 (fst bal) @ w_num64 (snd bal)"
| "rec_encode (RRevocationSent st) = w_u8 5 @ w_num64 st"
| "rec_encode (RRevocationRecv st s) = w_u8 6 @ w_num64 st @ s"
| "rec_encode RReady = w_u8 7"
| "rec_encode (RClosingCoop fee) = w_u8 8 @ w_num64 fee"
| "rec_encode RForcing = w_u8 9"
| "rec_encode RPenalised = w_u8 10"
| "rec_encode RClosed = w_u8 11"
| "rec_encode (RTheirPoint st p) = w_u8 12 @ w_num64 st @ p"
| "rec_encode (RRevocations st entries) = w_u8 13 @ w_num64 st @ w_u8 (of_nat (length entries)) @ concat (map w_entry entries)"
| "rec_encode (RConfirmed h) = w_u8 14 @ w_num64 h"
| "rec_encode (RCloseSigned fee sg) = w_u8 15 @ w_num64 fee @ w_var_bytes sg"
| "rec_encode (RCrossed st) = w_u8 16 @ w_num64 st"
| "rec_encode (RClosingCoopBy fee payer) = w_u8 17 @ w_num64 fee @ w_u8 payer"
| "rec_encode (RFundingTx t) = w_u8 18 @ w_var_bytes t"
| "rec_encode (RKeyIndex i) = w_u8 19 @ w_u32 i"
| "rec_encode (RControlSent seq) = w_u8 21 @ w_num64 seq"
| "rec_encode (RControlRecv seq) = w_u8 22 @ w_num64 seq"
| "rec_encode RAbandoned = w_u8 23"
| "rec_encode (RSplice st adder add old_cap old_funding input t) =
     w_u8 24 @ w_num64 st @ w_u8 adder @ w_num64 add @ w_num64 old_cap @ fst old_funding @ w_u32 (snd old_funding) @ w_u32 input @ w_var_bytes t"
| "rec_encode (RSpliceSig sg) = w_u8 25 @ w_var_bytes sg"
| "rec_encode (RSpliceTx t) = w_u8 26 @ w_var_bytes t"
| "rec_encode RSpliceLocked = w_u8 27"

definition rd_entry :: "(secret \<times> nat) reader" where
  "rd_entry bs = rbind (r_array32 bs) (\<lambda>(s, bs). rbind (rd_num64 bs) (\<lambda>(i, bs). Ok ((s, i), bs)))"

definition rd_opened :: "bool \<Rightarrow> jrecord reader" where
  "rd_opened indexed bs =
     rbind (r_array32 bs) (\<lambda>(cid, bs). rbind (r_u8 bs) (\<lambda>(us, bs). rbind (r_array32 bs) (\<lambda>(f, bs). rbind (r_array32 bs) (\<lambda>(a, bs).
     rbind (rd_num64 bs) (\<lambda>(cap, bs). rbind (rd_num16 bs) (\<lambda>(delay, bs). rbind (rd_num16 bs) (\<lambda>(depth, bs).
     rbind (r_var_bytes bs) (\<lambda>(pk, bs). rbind (r_var_bytes bs) (\<lambda>(pk', bs). rbind (r_array32 bs) (\<lambda>(p, bs). rbind (r_array32 bs) (\<lambda>(q, bs).
     rbind (if indexed then rbind (r_u32 bs) (\<lambda>(i, bs). Ok (Some i, bs)) else Ok (None, bs)) (\<lambda>(index, bs).
       Ok (ROpened cid us (f, a) cap delay depth pk pk' (p, q) index, bs)))))))))))))"

definition rec_read :: "byte \<Rightarrow> jrecord reader" where
  "rec_read tag bs =
     (if tag = 1 \<or> tag = 20 then rd_opened (tag = 20) bs
      else if tag = 2 then rbind (r_array32 bs) (\<lambda>(tid, bs). rbind (r_u32 bs) (\<lambda>(i, bs). Ok (RFunded tid i, bs)))
      else if tag = 3 then
        rbind (rd_num64 bs) (\<lambda>(st, bs). rbind (rd_num64 bs) (\<lambda>(x, bs). rbind (rd_num64 bs) (\<lambda>(y, bs).
        rbind (r_var_bytes bs) (\<lambda>(a, bs). rbind (r_var_bytes bs) (\<lambda>(b, bs). rbind (r_var_bytes bs) (\<lambda>(c, bs).
          Ok (RLocalCommit st (x, y) (a, b, c), bs)))))))
      else if tag = 4 then
        rbind (rd_num64 bs) (\<lambda>(st, bs). rbind (rd_num64 bs) (\<lambda>(x, bs). rbind (rd_num64 bs) (\<lambda>(y, bs). Ok (RRemoteCommit st (x, y), bs))))
      else if tag = 5 then rbind (rd_num64 bs) (\<lambda>(st, bs). Ok (RRevocationSent st, bs))
      else if tag = 6 then rbind (rd_num64 bs) (\<lambda>(st, bs). rbind (r_array32 bs) (\<lambda>(s, bs). Ok (RRevocationRecv st s, bs)))
      else if tag = 12 then rbind (rd_num64 bs) (\<lambda>(st, bs). rbind (r_array32 bs) (\<lambda>(p, bs). Ok (RTheirPoint st p, bs)))
      else if tag = 7 then Ok (RReady, bs)
      else if tag = 8 then rbind (rd_num64 bs) (\<lambda>(fee, bs). Ok (RClosingCoop fee, bs))
      else if tag = 9 then Ok (RForcing, bs)
      else if tag = 10 then Ok (RPenalised, bs)
      else if tag = 11 then Ok (RClosed, bs)
      else if tag = 13 then
        rbind (rd_num64 bs) (\<lambda>(st, bs). rbind (r_u8 bs) (\<lambda>(n, bs).
          if unat n > MAX_ENTRIES then Err InvalidValue
          else rbind (read_n rd_entry (unat n) bs) (\<lambda>(es, bs). Ok (RRevocations st es, bs))))
      else if tag = 14 then rbind (rd_num64 bs) (\<lambda>(h, bs). Ok (RConfirmed h, bs))
      else if tag = 16 then rbind (rd_num64 bs) (\<lambda>(st, bs). Ok (RCrossed st, bs))
      else if tag = 19 then rbind (r_u32 bs) (\<lambda>(i, bs). Ok (RKeyIndex i, bs))
      else if tag = 21 then rbind (rd_num64 bs) (\<lambda>(seq, bs). Ok (RControlSent seq, bs))
      else if tag = 22 then rbind (rd_num64 bs) (\<lambda>(seq, bs). Ok (RControlRecv seq, bs))
      else if tag = 23 then Ok (RAbandoned, bs)
      else if tag = 18 then rbind (r_var_bytes bs) (\<lambda>(t, bs). Ok (RFundingTx t, bs))
      else if tag = 17 then rbind (rd_num64 bs) (\<lambda>(fee, bs). rbind (r_u8 bs) (\<lambda>(p, bs). Ok (RClosingCoopBy fee p, bs)))
      else if tag = 15 then rbind (rd_num64 bs) (\<lambda>(fee, bs). rbind (r_var_bytes bs) (\<lambda>(sg, bs). Ok (RCloseSigned fee sg, bs)))
      else if tag = 24 then
        rbind (rd_num64 bs) (\<lambda>(st, bs). rbind (r_u8 bs) (\<lambda>(adder, bs). rbind (rd_num64 bs) (\<lambda>(add, bs). rbind (rd_num64 bs) (\<lambda>(old, bs).
        rbind (r_array32 bs) (\<lambda>(tid, bs). rbind (r_u32 bs) (\<lambda>(i, bs). rbind (r_u32 bs) (\<lambda>(input, bs). rbind (r_var_bytes bs) (\<lambda>(t, bs).
          Ok (RSplice st adder add old (tid, i) input t, bs)))))))))
      else if tag = 25 then rbind (r_var_bytes bs) (\<lambda>(sg, bs). Ok (RSpliceSig sg, bs))
      else if tag = 26 then rbind (r_var_bytes bs) (\<lambda>(t, bs). Ok (RSpliceTx t, bs))
      else if tag = 27 then Ok (RSpliceLocked, bs)
      else Err InvalidValue)"

definition rec_decode :: "byte list \<Rightarrow> (jrecord, ReadError) result" where
  "rec_decode data =
     rbind (r_u8 data) (\<lambda>(tag, bs). rbind (rec_read tag bs) (\<lambda>(r, rest). rbind (expect_end rest) (\<lambda>_. Ok r)))"

definition rec_params :: "jrecord \<Rightarrow> channel_params option" where
  "rec_params r =
     (case r of ROpened _ _ funding cap delay _ _ _ _ _ \<Rightarrow>
        Some \<lparr>cp_funding = funding, cp_capacity = from_units (of_nat cap), cp_delay = of_nat delay\<rparr>
      | _ \<Rightarrow> None)"

section \<open>Frames\<close>

definition checksum :: "byte list \<Rightarrow> byte list" where
  "checksum bs = take 4 (sha256 bs)"

definition frame_of :: "byte list \<Rightarrow> byte list" where
  "frame_of body = u32_le (of_nat (length body)) @ checksum body @ body"

definition frame :: "jrecord \<Rightarrow> byte list" where
  "frame r = frame_of (rec_encode r)"

datatype corruption = BadChecksum nat | Undecodable nat

definition zeros_to_end :: "byte list \<Rightarrow> bool" where
  "zeros_to_end rest = list_all (\<lambda>b. b = 0) rest"

definition TORN_ZEROS_MAX :: nat where
  "TORN_ZEROS_MAX = MAX_BLOCK_SIZE + 64 * 1024"

text \<open>The bytes from an offset on are given with the offset.\<close>

definition torn_zeros :: "byte list \<Rightarrow> nat \<Rightarrow> (bool, corruption) result" where
  "torn_zeros rest from =
     (if \<not> zeros_to_end rest then Ok False
      else if length rest > TORN_ZEROS_MAX then Err (BadChecksum from)
      else Ok True)"

text \<open>
  The loop of \<open>scan\<close>: the bytes left from the position on, the records read so far; it returns at a break with the
  position and the bytes left there.
\<close>

function scan_loop :: "nat \<Rightarrow> byte list \<Rightarrow> jrecord list \<Rightarrow> (jrecord list \<times> nat \<times> byte list, corruption) result" where
  "scan_loop pos rest out =
     (if length rest < 8 then Ok (out, pos, rest)
      else rbind (torn_zeros rest pos) (\<lambda>zeros.
        if zeros then Ok (out, pos, rest)
        else let len = le_val (take 4 rest); crc = take 4 (drop 4 rest); body = take len (drop 8 rest); after = drop (8 + len) rest
             in if length (drop 8 rest) < len then Ok (out, pos, rest)
                else if checksum body \<noteq> crc
                then rbind (if after = [] then Ok True else torn_zeros after (pos + 8 + len)) (\<lambda>torn.
                       if torn then Ok (out, pos, rest) else Err (BadChecksum pos))
                else case rec_decode body of
                       Ok r \<Rightarrow> scan_loop (pos + 8 + len) after (out @ [r])
                     | Err _ \<Rightarrow> Err (Undecodable pos)
                     | Panic \<Rightarrow> Panic))"
  by pat_completeness auto
termination
  by (relation "measure (\<lambda>(pos, rest, out). length rest)") auto

declare scan_loop.simps [simp del]

definition scan :: "byte list \<Rightarrow> (jrecord list \<times> nat, corruption) result" where
  "scan raw =
     rbind (scan_loop 0 raw []) (\<lambda>(out, pos, rest).
       if out = [] \<and> rest \<noteq> [] \<and> zeros_to_end rest then Err (BadChecksum 0) else Ok (out, pos))"

definition journal_open :: "byte list \<Rightarrow> (jrecord list \<times> byte list, corruption) result" where
  "journal_open raw = rbind (scan raw) (\<lambda>(records, good). Ok (records, take good raw))"

definition journal_append :: "byte list \<Rightarrow> jrecord \<Rightarrow> byte list" where
  "journal_append file r = file @ frame r"

definition journal_rewrite :: "jrecord list \<Rightarrow> byte list" where
  "journal_rewrite records = concat (map frame records)"

section \<open>One form per record\<close>

abbreviation small :: "byte list \<Rightarrow> bool" where
  "small bs \<equiv> length bs < 2 ^ 64"

definition wf_entry :: "secret \<times> nat \<Rightarrow> bool" where
  "wf_entry e \<longleftrightarrow> length (fst e) = 32 \<and> snd e < 2 ^ 64"

fun wf_record :: "jrecord \<Rightarrow> bool" where
  "wf_record (ROpened cid us funding cap delay depth pk pk' payout key_index) \<longleftrightarrow>
     length cid = 32 \<and> length (fst funding) = 32 \<and> length (snd funding) = 32 \<and> cap < 2 ^ 64 \<and> delay < 2 ^ 16 \<and> depth < 2 ^ 16 \<and>
     small pk \<and> small pk' \<and> length (fst payout) = 32 \<and> length (snd payout) = 32"
| "wf_record (RFunded tid index) \<longleftrightarrow> length tid = 32"
| "wf_record (RLocalCommit st bal sigs) \<longleftrightarrow> st < 2 ^ 64 \<and> fst bal < 2 ^ 64 \<and> snd bal < 2 ^ 64 \<and> (\<forall>t. small (tier_sig sigs t))"
| "wf_record (RRemoteCommit st bal) \<longleftrightarrow> st < 2 ^ 64 \<and> fst bal < 2 ^ 64 \<and> snd bal < 2 ^ 64"
| "wf_record (RRevocationSent st) \<longleftrightarrow> st < 2 ^ 64"
| "wf_record (RRevocationRecv st s) \<longleftrightarrow> st < 2 ^ 64 \<and> length s = 32"
| "wf_record (RTheirPoint st p) \<longleftrightarrow> st < 2 ^ 64 \<and> length p = 32"
| "wf_record (RClosingCoop fee) \<longleftrightarrow> fee < 2 ^ 64"
| "wf_record (RClosingCoopBy fee payer) \<longleftrightarrow> fee < 2 ^ 64"
| "wf_record (RFundingTx t) \<longleftrightarrow> small t"
| "wf_record (RRevocations st entries) \<longleftrightarrow> st < 2 ^ 64 \<and> length entries \<le> MAX_ENTRIES \<and> (\<forall>e \<in> set entries. wf_entry e)"
| "wf_record (RConfirmed h) \<longleftrightarrow> h < 2 ^ 64"
| "wf_record (RCloseSigned fee sg) \<longleftrightarrow> fee < 2 ^ 64 \<and> small sg"
| "wf_record (RCrossed st) \<longleftrightarrow> st < 2 ^ 64"
| "wf_record (RControlSent seq) \<longleftrightarrow> seq < 2 ^ 64"
| "wf_record (RControlRecv seq) \<longleftrightarrow> seq < 2 ^ 64"
| "wf_record (RSplice st adder add old_cap old_funding input t) \<longleftrightarrow>
     st < 2 ^ 64 \<and> add < 2 ^ 64 \<and> old_cap < 2 ^ 64 \<and> length (fst old_funding) = 32 \<and> small t"
| "wf_record (RSpliceSig sg) \<longleftrightarrow> small sg"
| "wf_record (RSpliceTx t) \<longleftrightarrow> small t"
| "wf_record _ \<longleftrightarrow> True"

interpretation entry: codec w_entry rd_entry wf_entry
proof
  show "rd_entry (w_entry x @ rest) = Ok (x, rest)" if "wf_entry x" for x rest
    using that arr32.dec_enc [of "fst x" "w_num64 (snd x) @ rest"] rnum64.dec_enc [of "snd x" rest]
    by (simp add: rd_entry_def w_entry_def wf_entry_def del: rbind_Ok_iff r_array32_Ok_iff)
qed (auto simp: rd_entry_def w_entry_def wf_entry_def rbind_Panic_iff rnum64.dec_iff rnum64.no_panic)

lemmas rec_readers = rnum64.dec_iff rnum16.dec_iff var_bytes.dec_iff arr32.dec_iff

lemmas rec_no_panics = rnum64.no_panic rnum16.no_panic var_bytes.no_panic entry.read_n_no_panic

lemma rec_read_dec: "rec_read tag bs = Ok (r, rest) \<Longrightarrow> wf_record r \<and> tag # bs = rec_encode r @ rest"
  by (simp add: rec_read_def rd_opened_def rec_readers w_u8_def split: if_splits prod.splits)
    (auto simp: w_u8_def all_tiers dest!: entry.read_n_dec)

lemmas rec_steps = arr32.dec_enc rnum64.dec_enc rnum16.dec_enc var_bytes.dec_enc u32.dec_enc r_u8_Cons

lemma rec_read_enc: "wf_record r \<Longrightarrow> rec_encode r @ rest = tag # bs \<Longrightarrow> rec_read tag bs = Ok (r, rest)"
proof (induction r rule: rec_encode.induct)
  case (1 cid us funding cap delay depth pk pk' payout key_index)
  have bs: "bs = cid @ us # fst funding @ snd funding @ w_num64 cap @ w_num16 delay @ w_num16 depth @
     w_var_bytes pk @ w_var_bytes pk' @ fst payout @ snd payout @ (case key_index of Some i \<Rightarrow> w_u32 i | None \<Rightarrow> []) @ rest"
    and tag: "tag = (if key_index \<noteq> None then 20 else 1)" using 1(2) by (simp_all add: w_u8_def)
  show ?case
    using 1(1) unfolding bs tag rec_read_def rd_opened_def
    by (cases key_index) (simp_all add: rec_steps del: rbind_Ok_iff r_array32_Ok_iff r_u8_Ok_iff r_u32_Ok_iff)
next
  case (13 st entries)
  then have n: "unat (of_nat (length entries) :: byte) = length entries" by (simp add: unat_of_nat MAX_ENTRIES_def)
  have "read_n rd_entry (length entries) (concat (map w_entry entries) @ rest) = Ok (entries, rest)"
    using entry.read_n_enc [of entries rest] 13 by simp
  moreover have "bs = w_num64 st @ of_nat (length entries) # concat (map w_entry entries) @ rest" "tag = 13" using 13(2) by (simp_all add: w_u8_def)
  ultimately show ?case using 13(1) n
    by (simp add: rec_read_def rec_steps del: rbind_Ok_iff r_array32_Ok_iff r_u8_Ok_iff r_u32_Ok_iff)
next
  case (23 st adder add old_cap old_funding input t)
  have bs: "bs = w_num64 st @ adder # w_num64 add @ w_num64 old_cap @ fst old_funding @ w_u32 (snd old_funding) @ w_u32 input @ w_var_bytes t @ rest"
    "tag = 24" using 23(2) by (simp_all add: w_u8_def)
  show ?case
    using 23(1) unfolding bs rec_read_def
    by (simp add: rec_steps del: rbind_Ok_iff r_array32_Ok_iff r_u8_Ok_iff r_u32_Ok_iff)
qed (auto simp: rec_read_def w_u8_def rec_readers all_tiers)

lemma rec_decode_iff: "rec_decode bs = Ok r \<longleftrightarrow> wf_record r \<and> bs = rec_encode r"
proof
  assume "rec_decode bs = Ok r"
  then obtain tag body where "bs = tag # body" "rec_read tag body = Ok (r, [])" by (auto simp: rec_decode_def)
  then show "wf_record r \<and> bs = rec_encode r" using rec_read_dec by fastforce
next
  assume r: "wf_record r \<and> bs = rec_encode r"
  obtain tag body where e: "rec_encode r @ [] = tag # body" by (cases r rule: rec_encode.cases) (auto simp: w_u8_def)
  then have "rec_read tag body = Ok (r, [])" using r rec_read_enc by blast
  then show "rec_decode bs = Ok r" using e r by (simp add: rec_decode_def r_u8_Cons expect_end_def del: r_u8_Ok_iff)
qed

lemma rec_decode_no_panic: "rec_decode bs \<noteq> Panic"
  by (auto simp: rec_decode_def rec_read_def rd_opened_def rbind_Panic_iff rec_no_panics split: if_splits)

section \<open>Torn writes\<close>

lemma rec_encode_nonempty [simp]: "rec_encode r \<noteq> []"
  by (cases r rule: rec_encode.cases) (auto simp: w_u8_def)

definition storable :: "jrecord \<Rightarrow> bool" where
  "storable r \<longleftrightarrow> wf_record r \<and> length (rec_encode r) < 2 ^ 32"

lemma length_checksum [simp]: "length (checksum bs) = 4"
  by (simp add: checksum_def)

lemma length_frame: "length (frame r) = 8 + length (rec_encode r)"
  by (simp add: frame_def frame_of_def u32_le_def)

lemma frame_parts:
  assumes "storable r"
  shows "take 4 (frame r @ tl_bs) = u32_le (of_nat (length (rec_encode r)))" "le_val (take 4 (frame r @ tl_bs)) = length (rec_encode r)"
    "take 4 (drop 4 (frame r @ tl_bs)) = checksum (rec_encode r)" "drop 8 (frame r @ tl_bs) = rec_encode r @ tl_bs"
proof -
  have l: "length (u32_le w) = 4" for w by (simp add: u32_le_def)
  show "take 4 (frame r @ tl_bs) = u32_le (of_nat (length (rec_encode r)))" "take 4 (drop 4 (frame r @ tl_bs)) = checksum (rec_encode r)"
    by (simp_all add: frame_def frame_of_def l)
  then show "le_val (take 4 (frame r @ tl_bs)) = length (rec_encode r)"
    using assms by (simp add: u32_le_def le_val_le_bytes unat_of_nat storable_def)
  have "length (u32_le (of_nat (length (rec_encode r))) @ checksum (rec_encode r)) = 8" by (simp add: l)
  then show "drop 8 (frame r @ tl_bs) = rec_encode r @ tl_bs"
    unfolding frame_def frame_of_def by (metis append.assoc append_eq_conv_conj)
qed

lemma zeros_take: "zeros_to_end bs \<Longrightarrow> zeros_to_end (take k bs)"
  by (auto simp: zeros_to_end_def list_all_iff dest: in_set_takeD)

lemma le_val_replicate_0: "zeros_to_end bs \<Longrightarrow> le_val bs = 0"
  by (induction bs) (auto simp: zeros_to_end_def)

lemma frame_not_zeros:
  assumes "storable r" "4 \<le> k"
  shows "\<not> zeros_to_end (take k (frame r @ tl_bs))"
proof
  assume z: "zeros_to_end (take k (frame r @ tl_bs))"
  then have "zeros_to_end (take 4 (frame r @ tl_bs))" using zeros_take [OF z, of 4] assms(2) unfolding take_take by (simp only: min_absorb1)
  then have "le_val (take 4 (frame r @ tl_bs)) = 0" by (rule le_val_replicate_0)
  then show False using frame_parts(2) [OF assms(1), of tl_bs] by simp
qed

lemma scan_loop_frame:
  assumes "storable r"
  shows "scan_loop pos (frame r @ tl_bs) out = scan_loop (pos + length (frame r)) tl_bs (out @ [r])"
proof -
  note p = frame_parts [OF assms, of tl_bs]
  have "\<not> zeros_to_end (frame r @ tl_bs)" using frame_not_zeros [OF assms, of "length (frame r @ tl_bs)" tl_bs] by (simp add: length_frame)
  then have z: "torn_zeros (frame r @ tl_bs) pos = Ok False" by (simp add: torn_zeros_def)
  have a: "drop (8 + length (rec_encode r)) (frame r @ tl_bs) = tl_bs" using length_frame by simp
  have b: "take (length (rec_encode r)) (rec_encode r @ tl_bs) = rec_encode r" by simp
  have d: "rec_decode (rec_encode r) = Ok r" using assms by (simp add: storable_def rec_decode_iff)
  show ?thesis
    by (subst scan_loop.simps) (simp add: p(2,3,4) length_frame z Let_def a b d add.assoc del: append_assoc take_append drop_append)
qed

lemma scan_loop_frames:
  "\<forall>r \<in> set rs. storable r \<Longrightarrow>
   scan_loop pos (concat (map frame rs) @ tl_bs) out = scan_loop (pos + length (concat (map frame rs))) tl_bs (out @ rs)"
  by (induction rs arbitrary: pos out) (auto simp: scan_loop_frame add.assoc)

lemma scan_loop_torn:
  assumes "storable r" "k < length (frame r)"
  shows "scan_loop pos (take k (frame r)) out = Ok (out, pos, take k (frame r))"
proof (cases "k < 8")
  case True
  then show ?thesis using assms(2) by (subst scan_loop.simps) simp
next
  case False
  note p = frame_parts [OF assms(1), of "[]", simplified]
  have "torn_zeros (take k (frame r)) pos = Ok False" using frame_not_zeros [OF assms(1), of k "[]"] False by (simp add: torn_zeros_def)
  moreover have "le_val (take 4 (take k (frame r))) = length (rec_encode r)" using p(2) False by (simp add: min_absorb1)
  moreover have "length (drop 8 (take k (frame r))) < length (rec_encode r)" "\<not> length (take k (frame r)) < 8"
    using False assms(2) length_frame [of r] by auto
  ultimately show ?thesis by (subst scan_loop.simps) (simp add: Let_def del: take_take length_drop length_take)
qed

text \<open>A journal starts with the opening record, whose two keys have the length of their scheme.\<close>

definition journal_shape :: "jrecord list \<Rightarrow> bool" where
  "journal_shape rs \<longleftrightarrow> (\<forall>r \<in> set rs. storable r) \<and>
     (case rs of [] \<Rightarrow> True
      | ROpened _ _ _ _ _ _ pk pk' _ _ # _ \<Rightarrow> length pk = pubkey_len CHANNEL_SCHEME \<and> length pk' = pubkey_len CHANNEL_SCHEME
      | _ \<Rightarrow> False)"

lemma hd_le_bytes: "n mod 256 \<noteq> 0 \<Longrightarrow> hd (le_bytes (Suc k) n) \<noteq> 0"
  by (simp add: word_unat_eq_iff unat_of_nat take_bit_eq_mod)

lemma opened_length:
  assumes "wf_record (ROpened cid us f cap delay depth pk pk' p i)" "length pk = pubkey_len CHANNEL_SCHEME" "length pk' = pubkey_len CHANNEL_SCHEME"
  shows "length (rec_encode (ROpened cid us f cap delay depth pk pk' p i)) = (if i = None then 5364 else 5368)"
  using assms by (auto simp: w_u8_def w_num64_def w_num16_def w_u64_def u64_le_def w_u32_def u32_le_def w_var_bytes_def w_varint_def
      CHANNEL_SCHEME_def split: option.split)

lemma opened_head:
  assumes "storable (ROpened cid us f cap delay depth pk pk' p i)" "length pk = pubkey_len CHANNEL_SCHEME" "length pk' = pubkey_len CHANNEL_SCHEME"
  shows "hd (frame (ROpened cid us f cap delay depth pk pk' p i)) \<noteq> 0"
proof -
  define body where "body = rec_encode (ROpened cid us f cap delay depth pk pk' p i)"
  have l: "length body = (if i = None then 5364 else 5368)"
    unfolding body_def by (rule opened_length) (use assms in \<open>simp_all only: storable_def\<close>)
  have n: "length body mod 256 \<noteq> 0" "length body < 2 ^ 32" unfolding l by simp_all
  have u: "unat (of_nat (length body) :: u32) = length body" using n(2) by (simp add: unat_of_nat take_bit_nat_eq_self)
  have "le_bytes 4 (length body) \<noteq> []" using length_le_bytes [of 4 "length body"] by (metis length_0_conv zero_neq_numeral)
  then have "hd (frame_of body) = hd (le_bytes (Suc 3) (length body))" unfolding frame_of_def u32_le_def u by simp
  then show ?thesis using hd_le_bytes [OF n(1), of 3] by (simp add: frame_def body_def)
qed

lemma frames_take:
  "n < length (concat (map frame rs)) \<Longrightarrow>
   \<exists>j k. j < length rs \<and> k < length (frame (rs ! j)) \<and> n = length (concat (map frame (take j rs))) + k \<and>
     take n (concat (map frame rs)) = concat (map frame (take j rs)) @ take k (frame (rs ! j))"
proof (induction rs arbitrary: n)
  case (Cons r rs)
  show ?case
  proof (cases "n < length (frame r)")
    case True
    then show ?thesis by (intro exI [of _ 0] exI [of _ n]) simp
  next
    case False
    then obtain j k where "j < length rs" "k < length (frame (rs ! j))" "n - length (frame r) = length (concat (map frame (take j rs))) + k"
      "take (n - length (frame r)) (concat (map frame rs)) = concat (map frame (take j rs)) @ take k (frame (rs ! j))"
      using Cons.IH [of "n - length (frame r)"] Cons.prems by (metis (no_types) add_diff_inverse_nat add_less_cancel_left concat.simps(2) length_append list.simps(9))
    then show ?thesis using False by (intro exI [of _ "Suc j"] exI [of _ k]) simp
  qed
qed simp

lemma scan_torn:
  assumes "journal_shape rs" "j < length rs" "k < length (frame (rs ! j))"
  shows "scan (concat (map frame (take j rs)) @ take k (frame (rs ! j))) = Ok (take j rs, length (concat (map frame (take j rs))))"
proof -
  have st: "\<forall>r \<in> set (take j rs). storable r" "storable (rs ! j)"
    using assms(1,2) by (auto simp: journal_shape_def dest: in_set_takeD)
  have l: "scan_loop 0 (concat (map frame (take j rs)) @ take k (frame (rs ! j))) [] =
      Ok (take j rs, length (concat (map frame (take j rs))), take k (frame (rs ! j)))"
    using scan_loop_frames [OF st(1), of 0 "take k (frame (rs ! j))" "[]"] scan_loop_torn [OF st(2) assms(3)] by simp
  have "\<not> zeros_to_end (take k (frame (rs ! j)))" if "take j rs = []" "take k (frame (rs ! j)) \<noteq> []"
  proof -
    from that(1) assms(2) have j: "j = 0" "rs \<noteq> []" by auto
    then obtain cid us f cap delay depth pk pk' p i rs' where r: "rs = ROpened cid us f cap delay depth pk pk' p i # rs'"
      "length pk = pubkey_len CHANNEL_SCHEME" "length pk' = pubkey_len CHANNEL_SCHEME"
      using assms(1) by (auto simp: journal_shape_def split: list.splits jrecord.splits)
    have "hd (frame (rs ! j)) \<noteq> 0" using opened_head [of cid us f cap delay depth pk pk' p i] r st(2) j(1) by simp
    moreover have "hd (take k (frame (rs ! j))) = hd (frame (rs ! j))" using that(2) by (simp add: hd_take)
    ultimately show ?thesis using that(2) unfolding zeros_to_end_def list_all_iff by (metis hd_in_set)
  qed
  then show ?thesis using l unfolding scan_def by (simp only: rbind.simps prod.case) (metis (full_types))
qed

text \<open>C40. A crash during a write loses nothing written before it: wherever the bytes of a journal are cut, opening it reads
  back exactly the records written whole before the cut, and leaves the file ready for the next one; uncut, it reads back
  every record. Bytes of zero after whole records, up to the bound of what an interrupted write leaves, are cut off too, and
  a record has one form.\<close>

theorem journal_survives_torn_writes:
  assumes "journal_shape rs"
  shows "(\<forall>n < length (journal_rewrite rs). \<exists>j < length rs.
       journal_open (take n (journal_rewrite rs)) = Ok (take j rs, journal_rewrite (take j rs)) \<and>
       length (journal_rewrite (take j rs)) \<le> n \<and> n < length (journal_rewrite (take (Suc j) rs))) \<and>
    journal_open (journal_rewrite rs) = Ok (rs, journal_rewrite rs) \<and>
    (rs \<noteq> [] \<and> z \<le> TORN_ZEROS_MAX \<longrightarrow> journal_open (journal_rewrite rs @ replicate z 0) = Ok (rs, journal_rewrite rs)) \<and>
    (rec_decode bs = Ok r \<longleftrightarrow> wf_record r \<and> bs = rec_encode r)"
proof (intro conjI allI impI)
  fix n assume "n < length (journal_rewrite rs)"
  then obtain j k where j: "j < length rs" "k < length (frame (rs ! j))" "n = length (concat (map frame (take j rs))) + k"
    "take n (concat (map frame rs)) = concat (map frame (take j rs)) @ take k (frame (rs ! j))"
    using frames_take unfolding journal_rewrite_def by blast
  have "journal_open (take n (journal_rewrite rs)) = Ok (take j rs, journal_rewrite (take j rs))"
    using scan_torn [OF assms j(1,2)] unfolding journal_open_def journal_rewrite_def j(4) by simp
  moreover have "length (journal_rewrite (take (Suc j) rs)) = length (journal_rewrite (take j rs)) + length (frame (rs ! j))"
    using j(1) by (simp add: journal_rewrite_def take_Suc_conv_app_nth)
  ultimately show "\<exists>j < length rs. journal_open (take n (journal_rewrite rs)) = Ok (take j rs, journal_rewrite (take j rs)) \<and>
       length (journal_rewrite (take j rs)) \<le> n \<and> n < length (journal_rewrite (take (Suc j) rs))"
    using j(1-3) by (intro exI [of _ j]) (simp add: journal_rewrite_def)
next
  have st: "\<forall>r \<in> set rs. storable r" using assms by (simp add: journal_shape_def)
  have "scan_loop 0 (journal_rewrite rs) [] = Ok (rs, length (journal_rewrite rs), [])"
    using scan_loop_frames [OF st, of 0 "[]" "[]"] by (simp add: journal_rewrite_def scan_loop.simps [of _ "[]"])
  then show "journal_open (journal_rewrite rs) = Ok (rs, journal_rewrite rs)" by (simp add: journal_open_def scan_def)
  assume z: "rs \<noteq> [] \<and> z \<le> TORN_ZEROS_MAX"
  have "scan_loop p (replicate z 0) out = Ok (out, p, replicate z 0)" for p out
    using z by (subst scan_loop.simps) (simp add: torn_zeros_def zeros_to_end_def list_all_iff)
  then have "scan_loop 0 (journal_rewrite rs @ replicate z 0) [] = Ok (rs, length (journal_rewrite rs), replicate z 0)"
    using scan_loop_frames [OF st, of 0 "replicate z 0" "[]"] by (simp add: journal_rewrite_def)
  then show "journal_open (journal_rewrite rs @ replicate z 0) = Ok (rs, journal_rewrite rs)"
    using z by (simp add: journal_open_def scan_def)
qed (rule rec_decode_iff)

theorem journal_survives_torn_writes_witness:
  "journal_open (journal_rewrite []) = Ok ([], journal_rewrite []) \<and>
   (\<exists>rs. rs \<noteq> [] \<and> journal_open (journal_rewrite rs @ replicate 100 0) = Ok (rs, journal_rewrite rs))"
proof -
  let ?r = "ROpened (replicate 32 1) 0 (replicate 32 2, replicate 32 3) 100000 144 6 (replicate 2592 1) (replicate 2592 2) (replicate 32 4, replicate 32 5) None"
  have w: "wf_record ?r" by simp
  have "length (rec_encode ?r) = 5364" using opened_length [OF w] by (simp add: CHANNEL_SCHEME_def del: rec_encode.simps)
  then have s: "journal_shape [?r]" using w by (simp add: journal_shape_def storable_def CHANNEL_SCHEME_def del: rec_encode.simps wf_record.simps)
  have e: "journal_shape []" by (simp add: journal_shape_def)
  have z: "100 \<le> TORN_ZEROS_MAX" by (simp add: TORN_ZEROS_MAX_def MAX_BLOCK_SIZE_def)
  show ?thesis using journal_survives_torn_writes [OF e] journal_survives_torn_writes [OF s, of 100] z by blast
qed

end
