(* ===== verification/ChanMachine.thy ===== *)
theory ChanMachine
  imports ChanJournal "HOL-Library.Option_ord"
begin

text \<open>
  The state machine of a channel (\<open>src/src/channel/machine.rs\<close>). An operation takes the machine and returns it with its
  result, so that an early return leaves the changes made before it. The journal is the list of its records; a write to it may
  fail, as the oracle \<open>m_faults\<close> says, and \<open>m_broken\<close> remembers that one did. Ordered maps are association lists. Counters
  are optional naturals, \<open>None\<close> below every number as in the source. What the source wipes from memory and the random nonce
  of \<open>reestablish\<close> are not modelled.
\<close>

section \<open>State\<close>

datatype phase = Opening | Funded | Open | Closing | Forcing | Penalised | Closed

datatype ChannelError =
    Io
  | BadSignature
  | BadRevocation
  | Unexpected
  | BadReestablish
  | BadBalances
  | WrongDirection
  | BadParameters
  | NoRandomness
  | Stale
  | Invariant string

datatype sync_verdict = InStep | WeAreBehind | PeerIsBehind

record splice =
  sp_state :: nat
  sp_adder :: party
  sp_add :: nat
  sp_old_capacity :: nat
  sp_old_outpoint :: outpoint
  sp_funding_input :: u32
  sp_tx :: transaction
  sp_peer_sig :: "byte list option"
  sp_complete :: bool
  sp_locked :: bool

record machine =
  m_params :: channel_params
  m_network :: network
  m_us :: party
  m_channel_id :: hash256
  m_signer :: signer
  m_our_pubkey :: "byte list"
  m_their_pubkey :: "byte list"
  m_payout :: "hash256 two"
  m_revocation_seed :: secret
  m_funding_depth :: nat
  m_journal :: "jrecord list"
  m_faults :: "bool list"
  m_broken :: bool
  m_phase :: phase
  m_funding_outpoint :: "outpoint option"
  m_local :: "nat option"
  m_remote :: "nat option"
  m_sent :: "nat option"
  m_recv :: "nat option"
  m_local_commits :: "(nat, nat two \<times> tier_sigs) hmap"
  m_remote_balances :: "(nat, nat two) hmap"
  m_initiated :: "(nat, bool) hmap"
  m_close_fee :: "nat option"
  m_close_payer :: "party option"
  m_funding_tx :: "transaction option"
  m_key_index :: "u32 option"
  m_close_signed :: bool
  m_close_peer_sig :: "byte list option"
  m_funding_height :: "nat option"
  m_control_sent :: nat
  m_control_recv :: nat
  m_their_points :: "(nat, hash256) hmap"
  m_store :: store
  m_base_fee_rate :: nat
  m_seen_nonces :: "byte list list"
  m_peer_proposal :: "nat option"
  m_crossed :: "nat option"
  m_sync :: sync_verdict
  m_peer_counters :: "counters option"
  m_splice :: "splice option"
  m_retired :: "splice option"
  m_abandoned :: bool
  m_splice_height :: "nat option"

definition TAG_REESTABLISH :: string where
  "TAG_REESTABLISH = ''Q21/channel/reestablish-proof''"

definition channel_id_of :: "hash256 two \<Rightarrow> hash256" where
  "channel_id_of funding = tagged_hash_parts ''Q21/channel/id'' [pick funding FUNDER, pick funding ACCEPTOR]"

definition merge_side :: "nat \<Rightarrow> nat \<Rightarrow> nat \<Rightarrow> nat option" where
  "merge_side base ours theirs = (case checked_add64 ours theirs of Some s \<Rightarrow> checked_sub64 s base | None \<Rightarrow> None)"

definition merge :: "nat two \<Rightarrow> nat two \<Rightarrow> nat two \<Rightarrow> nat two option" where
  "merge base ours theirs =
     (case (merge_side (fst base) (fst ours) (fst theirs), merge_side (snd base) (snd ours) (snd theirs)) of
        (Some a, Some b) \<Rightarrow> Some (a, b) | _ \<Rightarrow> None)"

definition oldest :: "(nat, 'v) hmap \<Rightarrow> nat" where
  "oldest m = Min (set (map fst m))"

function prune_to_latest :: "(nat, 'v) hmap \<Rightarrow> nat \<Rightarrow> (nat, 'v) hmap" where
  "prune_to_latest m keep = (if length m \<le> keep then m else prune_to_latest (hdel (oldest m) m) keep)"
  by pat_completeness auto
termination
proof (relation "measure (\<lambda>(m, keep). length m)", goal_cases)
  case (2 m keep)
  then have "oldest m \<in> set (map fst m)" unfolding oldest_def by (intro Min_in) auto
  then show ?case by (auto simp: hdel_def AList.delete_eq intro!: length_filter_less)
qed simp

declare prune_to_latest.simps [simp del]

definition splice_sequence :: "nat \<Rightarrow> u32" where
  "splice_sequence n = of_nat n"

definition tx_stripped :: "transaction \<Rightarrow> transaction" where
  "tx_stripped t = t\<lparr>tx_inputs := map (\<lambda>i. i\<lparr>in_witness := WITNESS_EMPTY\<rparr>) (tx_inputs t)\<rparr>"

definition reestablish_message :: "hash256 \<Rightarrow> byte list \<Rightarrow> byte \<Rightarrow> counters \<Rightarrow> hash256" where
  "reestablish_message cid nonce direction c =
     (case c of (n1, n2, n3, n4) \<Rightarrow>
        tagged_hash_parts TAG_REESTABLISH
          [cid, nonce, [direction], u64_le (of_nat n1) @ u64_le (of_nat n2) @ u64_le (of_nat n3) @ u64_le (of_nat n4)])"

definition sync_verdict_of :: "counters \<Rightarrow> counters \<Rightarrow> sync_verdict" where
  "sync_verdict_of ours theirs =
     (case (ours, theirs) of ((n_local, n_remote, n_sent, n_recv), (p_local, p_remote, p_sent, p_recv)) \<Rightarrow>
        let we_behind = (n_local > 0 \<and> p_recv \<ge> n_local \<or> p_remote \<ge> sat_add64 n_local 2 \<or> p_local > n_remote \<or>
              p_sent > sat_add64 n_recv 1 \<or> p_recv > n_sent);
            peer_behind = (p_local > 0 \<and> n_recv \<ge> p_local \<or> n_remote \<ge> sat_add64 p_local 2 \<or> n_local > p_remote \<or>
              p_sent < n_recv \<or> sat_add64 p_recv 1 < n_sent)
        in if we_behind then WeAreBehind else if peer_behind then PeerIsBehind else InStep)"

definition MAX_SEEN_NONCES :: nat where
  "MAX_SEEN_NONCES = 64"

definition COMPACT_AFTER :: nat where
  "COMPACT_AFTER = 64"

section \<open>Operations and the journal\<close>

type_synonym 'a act = "machine \<Rightarrow> machine \<times> ('a, ChannelError) result"

definition areturn :: "'a \<Rightarrow> 'a act" where
  "areturn x m = (m, Ok x)"

definition afail :: "ChannelError \<Rightarrow> 'a act" where
  "afail e m = (m, Err e)"

definition apanic :: "'a act" where
  "apanic m = (m, Panic)"

definition abind :: "'a act \<Rightarrow> ('a \<Rightarrow> 'b act) \<Rightarrow> 'b act" where
  "abind f g m = (case f m of (m', Ok x) \<Rightarrow> g x m' | (m', Err e) \<Rightarrow> (m', Err e) | (m', Panic) \<Rightarrow> (m', Panic))"

definition aget :: "(machine \<Rightarrow> 'a) \<Rightarrow> 'a act" where
  "aget f m = (m, Ok (f m))"

definition amodify :: "(machine \<Rightarrow> machine) \<Rightarrow> unit act" where
  "amodify f m = (f m, Ok ())"

definition alift :: "(machine \<Rightarrow> ('a, ChannelError) result) \<Rightarrow> 'a act" where
  "alift f m = (m, f m)"

definition aguard :: "(machine \<Rightarrow> bool) \<Rightarrow> ChannelError \<Rightarrow> unit act" where
  "aguard P e m = (m, if P m then Ok () else Err e)"

text \<open>\<open>Journal::append\<close> and \<open>Journal::rewrite\<close>, with their failures.\<close>

definition write_with :: "(machine \<Rightarrow> machine) \<Rightarrow> unit act" where
  "write_with f m =
     (case m_faults m of
        True # fs \<Rightarrow> (m\<lparr>m_faults := fs, m_broken := True\<rparr>, Err Io)
      | False # fs \<Rightarrow> (f (m\<lparr>m_faults := fs\<rparr>), Ok ())
      | [] \<Rightarrow> (f m, Ok ()))"

definition append_record :: "jrecord \<Rightarrow> unit act" where
  "append_record r = write_with (\<lambda>m. m\<lparr>m_journal := m_journal m @ [r]\<rparr>)"

definition rewrite_journal :: "jrecord list \<Rightarrow> unit act" where
  "rewrite_journal rs = write_with (\<lambda>m. m\<lparr>m_journal := rs\<rparr>)"

section \<open>Reading the state\<close>

definition our_secret :: "machine \<Rightarrow> nat \<Rightarrow> secret" where
  "our_secret m n = derive (m_revocation_seed m) (MAX_INDEX - n)"

definition our_point :: "machine \<Rightarrow> nat \<Rightarrow> hash256" where
  "our_point m n = sha256 (our_secret m n)"

definition commit_fee :: "machine \<Rightarrow> fee_tier \<Rightarrow> nat" where
  "commit_fee m tier = commitment_fee (m_params m) (tier_rate (m_base_fee_rate m) tier)"

definition watched_splice :: "machine \<Rightarrow> splice option" where
  "watched_splice m = (case m_splice m of Some sp \<Rightarrow> Some sp | None \<Rightarrow> m_retired m)"

definition params_at :: "machine \<Rightarrow> nat \<Rightarrow> channel_params" where
  "params_at m n =
     (case watched_splice m of
        Some sp \<Rightarrow> if n < sp_state sp then (m_params m)\<lparr>cp_capacity := from_units (of_nat (sp_old_capacity sp))\<rparr> else m_params m
      | None \<Rightarrow> m_params m)"

definition outpoint_at :: "machine \<Rightarrow> nat \<Rightarrow> outpoint option" where
  "outpoint_at m n =
     (case watched_splice m of
        Some sp \<Rightarrow> if n < sp_state sp then Some (sp_old_outpoint sp) else m_funding_outpoint m
      | None \<Rightarrow> m_funding_outpoint m)"

definition set_prev_out :: "outpoint \<Rightarrow> transaction \<Rightarrow> transaction" where
  "set_prev_out op t = t\<lparr>tx_inputs := (tx_inputs t)[0 := (tx_inputs t ! 0)\<lparr>prev_out := op\<rparr>]\<rparr>"

definition with_funding_input :: "machine \<Rightarrow> nat \<Rightarrow> Commitment \<Rightarrow> Commitment" where
  "with_funding_input m n c = (case outpoint_at m n of Some op \<Rightarrow> c\<lparr>cm_tx := set_prev_out op (cm_tx c)\<rparr> | None \<Rightarrow> c)"

definition their_commitment :: "machine \<Rightarrow> nat \<Rightarrow> nat two \<Rightarrow> fee_tier \<Rightarrow> Commitment option" where
  "their_commitment m n bal tier =
     map_option (\<lambda>pt. with_funding_input m n (commitment (params_at m n) (peer_of (m_us m)) n bal (commit_fee m tier) pt))
       (hget (m_their_points m) n)"

definition our_commitment :: "machine \<Rightarrow> nat \<Rightarrow> nat two \<Rightarrow> fee_tier \<Rightarrow> Commitment" where
  "our_commitment m n bal tier = with_funding_input m n (commitment (params_at m n) (m_us m) n bal (commit_fee m tier) (our_point m n))"

definition sign_tier :: "machine \<Rightarrow> nat \<Rightarrow> nat two \<Rightarrow> fee_tier \<Rightarrow> (byte list, ChannelError) result" where
  "sign_tier m n bal tier =
     rbind (ok_or (their_commitment m n bal tier) (Invariant ''missing counterparty point'')) (\<lambda>c.
       Ok (sg_sign (m_signer m) (funding_sighash (params_at m n) (cm_tx c) (m_network m) (m_us m))))"

definition sign_their_commitment :: "nat \<Rightarrow> nat two \<Rightarrow> machine \<Rightarrow> (tier_sigs, ChannelError) result" where
  "sign_their_commitment n bal m =
     rbind (sign_tier m n bal Low) (\<lambda>a. rbind (sign_tier m n bal Medium) (\<lambda>b. rbind (sign_tier m n bal High) (\<lambda>c. Ok (a, b, c))))"

fun party_ix :: "party \<Rightarrow> nat" where
  "party_ix FUNDER = 0"
| "party_ix ACCEPTOR = 1"

text \<open>A signature of the other side over a spend of the funding output of \<open>cp\<close>.\<close>

definition check_their_sig :: "mldsa_lib \<Rightarrow> machine \<Rightarrow> channel_params \<Rightarrow> transaction \<Rightarrow> u32 \<Rightarrow> byte list \<Rightarrow> (unit, ChannelError) result" where
  "check_their_sig mldsa m cp t input sg =
     map_err (\<lambda>_. BadSignature)
       (check_signature mldsa t input (m_network m) (funding_output cp) (policy_encode (funding_policy cp))
          (party_ix (peer_of (m_us m))) [] (m_their_pubkey m) sg)"

fun verify_tiers :: "(fee_tier \<Rightarrow> (unit, ChannelError) result) \<Rightarrow> fee_tier list \<Rightarrow> (unit, ChannelError) result" where
  "verify_tiers f [] = Ok ()"
| "verify_tiers f (t # ts) = rbind (f t) (\<lambda>_. verify_tiers f ts)"

text \<open>The index of a state beyond the last one underflows, which panics.\<close>

definition verify_our_commitment :: "mldsa_lib \<Rightarrow> nat \<Rightarrow> nat two \<Rightarrow> tier_sigs \<Rightarrow> machine \<Rightarrow> (unit, ChannelError) result" where
  "verify_our_commitment mldsa n bal sigs m =
     (if n > MAX_INDEX then Panic
      else verify_tiers (\<lambda>tier. check_their_sig mldsa m (params_at m n) (cm_tx (our_commitment m n bal tier)) 0 (tier_sig sigs tier)) FEE_TIERS)"

definition check_balances_for :: "machine \<Rightarrow> channel_params \<Rightarrow> nat two \<Rightarrow> (unit, ChannelError) result" where
  "check_balances_for m cp bal =
     (case checked_add64 (fst bal) (snd bal) of
        None \<Rightarrow> Err BadBalances
      | Some s \<Rightarrow> if s \<noteq> units (cp_capacity cp) \<or> pick bal FUNDER < commit_fee m High then Err BadBalances else Ok ())"

definition check_balances :: "nat two \<Rightarrow> machine \<Rightarrow> (unit, ChannelError) result" where
  "check_balances bal m = check_balances_for m (m_params m) bal"

definition accepted :: "machine \<Rightarrow> bool" where
  "accepted m \<longleftrightarrow> m_us m = FUNDER \<and> m_their_points m \<noteq> []"

definition succ_or_0 :: "nat option \<Rightarrow> nat" where
  "succ_or_0 n = (case n of Some k \<Rightarrow> k + 1 | None \<Rightarrow> 0)"

definition next_state :: "machine \<Rightarrow> nat" where
  "next_state m = max (succ_or_0 (m_local m)) (succ_or_0 (m_remote m))"

definition current_balances :: "machine \<Rightarrow> nat two" where
  "current_balances m =
     (case m_local m of
        Some n \<Rightarrow> (case hget (m_local_commits m) n of Some (b, _) \<Rightarrow> b | None \<Rightarrow> (units (cp_capacity (m_params m)), 0))
      | None \<Rightarrow> (units (cp_capacity (m_params m)), 0))"

definition funding_of :: "machine \<Rightarrow> (outpoint, ChannelError) result" where
  "funding_of m = ok_or (m_funding_outpoint m) (Invariant ''no funding outpoint'')"

definition settled_balances :: "nat \<Rightarrow> machine \<Rightarrow> (nat two, ChannelError) result" where
  "settled_balances n m = ok_or (map_option fst (hget (m_local_commits m) n)) (Invariant ''missing settled commitment'')"

definition merged_balances :: "machine \<Rightarrow> nat two option" where
  "merged_balances m =
     (case m_crossed m of
        None \<Rightarrow> None
      | Some 0 \<Rightarrow> None
      | Some (Suc k) \<Rightarrow>
          (case (hget (m_local_commits m) k, hget (m_remote_balances m) (Suc k), hget (m_local_commits m) (Suc k)) of
             (Some (base, _), Some ours, Some (theirs, _)) \<Rightarrow> merge base ours theirs
           | _ \<Rightarrow> None))"

definition has_initiative :: "machine \<Rightarrow> bool" where
  "has_initiative m \<longleftrightarrow> initiative (cp_funding (m_params m)) = m_us m"

definition update_in_flight :: "machine \<Rightarrow> bool" where
  "update_in_flight m \<longleftrightarrow>
     (case m_local m of
        None \<Rightarrow> False
      | Some l \<Rightarrow>
          (case m_peer_proposal m of Some p \<Rightarrow> l < p | None \<Rightarrow> False) \<or>
          m_crossed m = Some l \<or> m_remote m \<noteq> Some l \<or>
          l \<ge> 1 \<and> (m_sent m < Some (l - 1) \<or> m_recv m < Some (l - 1)))"

section \<open>Persistence\<close>

definition note_initiator :: "nat \<Rightarrow> bool \<Rightarrow> machine \<Rightarrow> machine" where
  "note_initiator n we m =
     m\<lparr>m_initiated := prune_to_latest (if hget (m_initiated m) n = None then hput n we (m_initiated m) else m_initiated m) 3\<rparr>"

definition set_local :: "nat \<Rightarrow> nat two \<Rightarrow> tier_sigs \<Rightarrow> bool \<Rightarrow> machine \<Rightarrow> machine" where
  "set_local n bal sigs we m =
     note_initiator n we (m\<lparr>m_local := Some n, m_local_commits := prune_to_latest (hput n (bal, sigs) (m_local_commits m)) 2\<rparr>)"

definition set_remote :: "nat \<Rightarrow> nat two \<Rightarrow> machine \<Rightarrow> machine" where
  "set_remote n bal m =
     note_initiator n True (m\<lparr>m_remote := Some n, m_remote_balances := prune_to_latest (hput n bal (m_remote_balances m)) 2\<rparr>)"

definition persist_local_commit :: "nat \<Rightarrow> nat two \<Rightarrow> tier_sigs \<Rightarrow> bool \<Rightarrow> unit act" where
  "persist_local_commit n bal sigs we = abind (append_record (RLocalCommit n bal sigs)) (\<lambda>_. amodify (set_local n bal sigs we))"

definition persist_remote_commit :: "nat \<Rightarrow> nat two \<Rightarrow> unit act" where
  "persist_remote_commit n bal = abind (append_record (RRemoteCommit n bal)) (\<lambda>_. amodify (set_remote n bal))"

definition persist_revocation_sent :: "nat \<Rightarrow> unit act" where
  "persist_revocation_sent k m =
     (if m_sent m \<ge> Some k then (m, Ok ())
      else abind (append_record (RRevocationSent k)) (\<lambda>_. amodify (\<lambda>m. m\<lparr>m_sent := Some k\<rparr>)) m)"

definition persist_revocation_recv :: "nat \<Rightarrow> secret \<Rightarrow> unit act" where
  "persist_revocation_recv k s = abind (append_record (RRevocationRecv k s)) (\<lambda>_. amodify (\<lambda>m. m\<lparr>m_recv := Some k\<rparr>))"

definition make_revocation :: "nat \<Rightarrow> machine \<Rightarrow> (revocation, ChannelError) result" where
  "make_revocation k m =
     (if m_local m < Some (k + 1) then Err (Invariant ''would reveal a secret before the replacement state is persisted'')
      else if k + 2 > MAX_INDEX then Panic
      else Ok \<lparr>rv_secret = our_secret m k, rv_next_hash = our_point m (k + 2)\<rparr>)"

definition take_revocation :: "nat \<Rightarrow> revocation \<Rightarrow> unit act" where
  "take_revocation k r =
     abind (alift (\<lambda>m. ok_or (hget (m_their_points m) k) BadRevocation)) (\<lambda>announced.
     abind (aguard (\<lambda>_. sha256 (rv_secret r) = announced) BadRevocation) (\<lambda>_.
     abind (\<lambda>m. if k > MAX_INDEX then (m, Panic)
                else case store_insert (m_store m) (rv_secret r) (MAX_INDEX - k) of
                       (st, Ok _) \<Rightarrow> (m\<lparr>m_store := st\<rparr>, Ok ()) | (st, _) \<Rightarrow> (m\<lparr>m_store := st\<rparr>, Err BadRevocation)) (\<lambda>_.
     abind (append_record (RTheirPoint (k + 2) (rv_next_hash r))) (\<lambda>_.
     abind (amodify (\<lambda>m. m\<lparr>m_their_points := hput (k + 2) (rv_next_hash r) (hdel k (m_their_points m))\<rparr>)) (\<lambda>_.
     persist_revocation_recv k (rv_secret r))))))"

section \<open>Compaction\<close>

definition out_index :: "outpoint \<Rightarrow> hash256 \<times> u32" where
  "out_index op = (op_txid op, op_index op)"

definition splice_records :: "splice \<Rightarrow> jrecord list" where
  "splice_records sp =
     [RSplice (sp_state sp) (party_u8 (sp_adder sp)) (sp_add sp) (sp_old_capacity sp) (out_index (sp_old_outpoint sp)) (sp_funding_input sp)
        (tx_encode (if sp_complete sp then tx_stripped (sp_tx sp) else sp_tx sp))] @
     (case sp_peer_sig sp of Some s \<Rightarrow> [RSpliceSig s] | None \<Rightarrow> []) @
     (if sp_complete sp then [RSpliceTx (tx_encode (sp_tx sp))] else []) @
     (if sp_locked sp then [RSpliceLocked] else [])"

definition commit_records :: "machine \<Rightarrow> nat \<Rightarrow> jrecord list" where
  "commit_records m n =
     (let local = (case hget (m_local_commits m) n of Some (b, sigs) \<Rightarrow> [RLocalCommit n b sigs] | None \<Rightarrow> []);
          remote = (case hget (m_remote_balances m) n of
                      Some b \<Rightarrow> [RRemoteCommit n b]
                    | None \<Rightarrow> (if m_remote m \<ge> Some n
                               then (case hget (m_local_commits m) n of Some (b, _) \<Rightarrow> [RRemoteCommit n b] | None \<Rightarrow> [])
                               else []))
      in if hget (m_initiated m) n = Some True then remote @ local else local @ remote)"

definition retained_states :: "machine \<Rightarrow> nat list" where
  "retained_states m = sorted_list_of_set (set (map fst (m_local_commits m) @ map fst (m_remote_balances m)))"

definition opt_rec :: "('a \<Rightarrow> jrecord) \<Rightarrow> 'a option \<Rightarrow> jrecord list" where
  "opt_rec f x = (case x of Some v \<Rightarrow> [f v] | None \<Rightarrow> [])"

definition snapshot_records :: "machine \<Rightarrow> jrecord list" where
  "snapshot_records m =
     (let sp = watched_splice m;
          cap = (case sp of Some s \<Rightarrow> sp_old_capacity s | None \<Rightarrow> units (cp_capacity (m_params m)));
          outpoint = (case sp of Some s \<Rightarrow> Some (sp_old_outpoint s) | None \<Rightarrow> m_funding_outpoint m)
      in [ROpened (m_channel_id m) (party_u8 (m_us m)) (cp_funding (m_params m)) cap (unat (cp_delay (m_params m))) (m_funding_depth m)
            (m_our_pubkey m) (m_their_pubkey m) (m_payout m) (m_key_index m)] @
         opt_rec (\<lambda>op. RFunded (op_txid op) (op_index op)) outpoint @
         (case sp of Some s \<Rightarrow> splice_records s | None \<Rightarrow> []) @
         concat (map (commit_records m) (retained_states m)) @
         (case m_crossed m of Some c \<Rightarrow> if Some c \<ge> m_local m then [RCrossed c] else [] | None \<Rightarrow> []) @
         opt_rec RRevocationSent (m_sent m) @
         opt_rec (\<lambda>k. RRevocations k (store_entries (m_store m))) (m_recv m) @
         map (\<lambda>n. RTheirPoint n (the (hget (m_their_points m) n))) (sorted_list_of_set (set (map fst (m_their_points m)))) @
         (if m_phase m \<notin> {Opening, Funded} then [RReady] else []) @
         opt_rec RConfirmed (m_funding_height m) @
         (if m_control_sent m > 0 then [RControlSent (m_control_sent m)] else []) @
         (if m_control_recv m > 0 then [RControlRecv (m_control_recv m)] else []) @
         opt_rec (\<lambda>t. RFundingTx (tx_encode t)) (m_funding_tx m) @
         (case m_close_fee m of
            Some fee \<Rightarrow> RClosingCoopBy fee (party_u8 (case m_close_payer m of Some p \<Rightarrow> p | None \<Rightarrow> FUNDER)) #
              opt_rec (RCloseSigned fee) (m_close_peer_sig m)
          | None \<Rightarrow> []) @
         (case m_phase m of
            Forcing \<Rightarrow> [RForcing]
          | Penalised \<Rightarrow> [RPenalised]
          | Closed \<Rightarrow> if m_abandoned m then [RAbandoned] else [RClosed]
          | _ \<Rightarrow> []))"

definition compact :: "unit act" where
  "compact = abind (aget snapshot_records) rewrite_journal"

definition compact_if_long :: "unit act" where
  "compact_if_long m = (if length (m_journal m) > COMPACT_AFTER then compact m else (m, Ok ()))"

section \<open>Opening\<close>

definition blank_machine ::
  "network \<Rightarrow> party \<Rightarrow> signer \<Rightarrow> byte list \<Rightarrow> channel_params \<Rightarrow> nat \<Rightarrow> nat \<Rightarrow> hash256 two \<Rightarrow> hash256 \<Rightarrow> u32 option \<Rightarrow> machine" where
  "blank_machine net us sg their_pubkey cp depth base_rate payout cid key_index =
     \<lparr>m_params = cp, m_network = net, m_us = us, m_channel_id = cid, m_signer = sg, m_our_pubkey = sg_pubkey sg,
      m_their_pubkey = their_pubkey, m_payout = payout, m_revocation_seed = sg_revocation_root sg cid, m_funding_depth = depth,
      m_journal = [], m_faults = [], m_broken = False, m_phase = Opening, m_funding_outpoint = None, m_local = None, m_remote = None,
      m_sent = None, m_recv = None, m_local_commits = [], m_remote_balances = [], m_initiated = [], m_close_fee = None,
      m_close_payer = None, m_funding_tx = None, m_key_index = key_index, m_close_signed = False, m_close_peer_sig = None,
      m_funding_height = None, m_control_sent = 0, m_control_recv = 0, m_their_points = [], m_store = store_new,
      m_base_fee_rate = base_rate, m_seen_nonces = [], m_peer_proposal = None, m_crossed = None, m_sync = InStep,
      m_peer_counters = None, m_splice = None, m_retired = None, m_abandoned = False, m_splice_height = None\<rparr>"

text \<open>\<open>bootstrap\<close>, on a fresh journal whose writes fail as \<open>faults\<close> says; a journal in use is refused before.\<close>

definition bootstrap ::
  "jrecord list \<Rightarrow> bool list \<Rightarrow> network \<Rightarrow> party \<Rightarrow> signer \<Rightarrow> byte list \<Rightarrow> channel_params \<Rightarrow> nat \<Rightarrow> nat \<Rightarrow> hash256 two
   \<Rightarrow> (machine, ChannelError) result" where
  "bootstrap existing faults net us sg their_pubkey cp depth base_rate payout =
     (let cid = channel_id_of (cp_funding cp);
          m = (blank_machine net us sg their_pubkey cp depth base_rate payout cid (sg_key_index sg))\<lparr>m_faults := faults\<rparr>
      in if existing \<noteq> [] then Err (Invariant ''journal already in use'')
         else case append_record (ROpened cid (party_u8 us) (cp_funding cp) (units (cp_capacity cp)) (unat (cp_delay cp)) depth
                 (sg_pubkey sg) their_pubkey payout (sg_key_index sg)) m of
                (m', Ok _) \<Rightarrow> Ok m' | (_, Err e) \<Rightarrow> Err e | (_, Panic) \<Rightarrow> Panic)"

definition new_funder ::
  "jrecord list \<Rightarrow> bool list \<Rightarrow> network \<Rightarrow> signer \<Rightarrow> byte list \<Rightarrow> nat \<Rightarrow> nat \<Rightarrow> nat \<Rightarrow> nat \<Rightarrow> hash256 \<Rightarrow> hash256
   \<Rightarrow> (machine \<times> message, ChannelError) result" where
  "new_funder existing faults net sg their_pubkey cap delay depth base_rate our_payout their_payout =
     (let cp = \<lparr>cp_funding = (signer_pubkey_hash sg, pubkey_hash CHANNEL_SCHEME their_pubkey), cp_capacity = from_units (of_nat cap),
                cp_delay = of_nat delay\<rparr>
      in rbind (bootstrap existing faults net FUNDER sg their_pubkey cp depth base_rate (our_payout, their_payout)) (\<lambda>m.
           Ok (m, MOpen cap delay depth (sg_pubkey sg) [our_point m 0, our_point m 1])))"

fun record_points :: "nat \<Rightarrow> hash256 list \<Rightarrow> unit act" where
  "record_points i [] m = (m, Ok ())"
| "record_points i (h # hs) m =
     abind (append_record (RTheirPoint i h)) (\<lambda>_.
     abind (amodify (\<lambda>m. m\<lparr>m_their_points := hput i h (m_their_points m)\<rparr>)) (\<lambda>_. record_points (Suc i) hs)) m"

definition record_their_points :: "hash256 list \<Rightarrow> unit act" where
  "record_their_points hashes = record_points 0 hashes"

definition bad_terms :: "network \<Rightarrow> nat \<Rightarrow> nat \<Rightarrow> nat \<Rightarrow> bool" where
  "bad_terms net cap delay depth \<longleftrightarrow>
     (let t = channel_terms net in
      delay < min_delay t \<or> delay > max_delay t \<or> depth < terms_funding_depth t \<or> depth > max_delay t \<or>
      cap < MIN_CAPACITY \<or> cap > MAX_CAPACITY)"

definition accept_channel ::
  "jrecord list \<Rightarrow> bool list \<Rightarrow> network \<Rightarrow> signer \<Rightarrow> nat \<Rightarrow> message \<Rightarrow> hash256 \<Rightarrow> hash256 \<Rightarrow> (machine \<times> message, ChannelError) result" where
  "accept_channel existing faults net sg base_rate msg our_payout their_payout =
     (case msg of
        MOpen cap delay depth funder_pubkey first_hashes \<Rightarrow>
          if bad_terms net cap delay depth then Err BadParameters
          else let cp = \<lparr>cp_funding = (pubkey_hash CHANNEL_SCHEME funder_pubkey, signer_pubkey_hash sg), cp_capacity = from_units (of_nat cap),
                         cp_delay = of_nat delay\<rparr>
               in rbind (bootstrap existing faults net ACCEPTOR sg funder_pubkey cp depth base_rate (their_payout, our_payout)) (\<lambda>m.
                    case record_their_points first_hashes m of
                      (m', Ok _) \<Rightarrow> Ok (m', MAccept (sg_pubkey sg) [our_point m' 0, our_point m' 1])
                    | (_, Err e) \<Rightarrow> Err e | (_, Panic) \<Rightarrow> Panic)
      | _ \<Rightarrow> Err Unexpected)"

definition on_accept :: "message \<Rightarrow> unit act" where
  "on_accept msg m =
     (case msg of
        MAccept acceptor_pubkey first_hashes \<Rightarrow>
          if m_us m \<noteq> FUNDER \<or> m_phase m \<noteq> Opening then (m, Err Unexpected)
          else if accepted m then (m, Err Unexpected)
          else if pubkey_hash CHANNEL_SCHEME acceptor_pubkey \<noteq> pick (cp_funding (m_params m)) ACCEPTOR then (m, Err Unexpected)
          else record_their_points first_hashes (m\<lparr>m_their_pubkey := acceptor_pubkey\<rparr>)
      | _ \<Rightarrow> (m, Err Unexpected))"

definition set_funding :: "outpoint \<Rightarrow> unit act" where
  "set_funding op =
     abind (amodify (\<lambda>m. m\<lparr>m_funding_outpoint := Some op\<rparr>)) (\<lambda>_. append_record (RFunded (op_txid op) (op_index op)))"

definition first_balances :: "machine \<Rightarrow> nat two" where
  "first_balances m = (units (cp_capacity (m_params m)), 0)"

definition funding_created :: "outpoint \<Rightarrow> message act" where
  "funding_created op m =
     (if m_us m \<noteq> FUNDER \<or> m_phase m \<noteq> Opening then (m, Err Unexpected)
      else if m_funding_outpoint m \<noteq> None then (m, Err Unexpected)
      else abind (set_funding op) (\<lambda>_.
           abind (aget first_balances) (\<lambda>bal.
           abind (alift (sign_their_commitment 0 bal)) (\<lambda>sigs.
           abind (persist_remote_commit 0 bal) (\<lambda>_. areturn (MFunding (op_txid op) (op_index op) sigs))))) m)"

text \<open>The output of a transaction at an outpoint's index, if it has one.\<close>

definition output_of :: "transaction \<Rightarrow> outpoint \<Rightarrow> txout option" where
  "output_of t op = (if unat (op_index op) < length (tx_outputs t) then Some (tx_outputs t ! unat (op_index op)) else None)"

definition funding_built :: "outpoint \<Rightarrow> transaction \<Rightarrow> message act" where
  "funding_built op t m =
     (if m_us m \<noteq> FUNDER \<or> m_phase m \<noteq> Opening \<or> \<not> accepted m then (m, Err Unexpected)
      else if txid t \<noteq> op_txid op \<or> output_of t op \<noteq> Some (funding_output (m_params m))
      then (m, Err (Invariant ''funding transaction does not fund the channel''))
      else abind (append_record (RFundingTx (tx_encode t))) (\<lambda>_.
           abind (amodify (\<lambda>m. m\<lparr>m_funding_tx := Some t\<rparr>)) (\<lambda>_. funding_created op)) m)"

definition keep_funding_tx :: "transaction \<Rightarrow> bool act" where
  "keep_funding_tx t m =
     (if m_funding_tx m \<noteq> None then (m, Ok False)
      else case m_funding_outpoint m of
             None \<Rightarrow> (m, Ok False)
           | Some op \<Rightarrow>
               if txid t \<noteq> op_txid op \<or> output_of t op \<noteq> Some (funding_output (m_params m)) then (m, Ok False)
               else abind (append_record (RFundingTx (tx_encode t))) (\<lambda>_.
                    abind (amodify (\<lambda>m. m\<lparr>m_funding_tx := Some t\<rparr>)) (\<lambda>_. areturn True)) m)"

definition funding_message :: "machine \<Rightarrow> (message, ChannelError) result" where
  "funding_message m =
     rbind (funding_of m) (\<lambda>op. rbind (sign_their_commitment 0 (first_balances m) m) (\<lambda>sigs. Ok (MFunding (op_txid op) (op_index op) sigs)))"

definition on_funding :: "mldsa_lib \<Rightarrow> message \<Rightarrow> message act" where
  "on_funding mldsa msg m =
     (case msg of
        MFunding tid index sigs \<Rightarrow>
          if m_us m \<noteq> ACCEPTOR \<or> m_phase m \<noteq> Opening then (m, Err Unexpected)
          else let op = \<lparr>op_txid = tid, op_index = index\<rparr>; bal = first_balances m in
            (case m_funding_outpoint m of
               Some known \<Rightarrow>
                 if known \<noteq> op \<or> m_local m \<noteq> Some 0 then (m, Err Unexpected)
                 else abind (alift (verify_our_commitment mldsa 0 bal sigs)) (\<lambda>_.
                      abind (alift (sign_their_commitment 0 bal)) (\<lambda>s. areturn (MFundingSigned s))) m
             | None \<Rightarrow>
                 abind (set_funding op) (\<lambda>_.
                 abind (alift (verify_our_commitment mldsa 0 bal sigs)) (\<lambda>_.
                 abind (persist_local_commit 0 bal sigs False) (\<lambda>_.
                 abind (alift (sign_their_commitment 0 bal)) (\<lambda>s.
                 abind (persist_remote_commit 0 bal) (\<lambda>_. areturn (MFundingSigned s)))))) m)
      | _ \<Rightarrow> (m, Err Unexpected))"

definition set_phase :: "phase \<Rightarrow> machine \<Rightarrow> machine" where
  "set_phase p m = m\<lparr>m_phase := p\<rparr>"

definition on_funding_signed :: "mldsa_lib \<Rightarrow> message \<Rightarrow> unit act" where
  "on_funding_signed mldsa msg m =
     (case msg of
        MFundingSigned sigs \<Rightarrow>
          if m_us m \<noteq> FUNDER \<or> m_phase m \<noteq> Opening then (m, Err Unexpected)
          else let bal = first_balances m in
            abind (alift (verify_our_commitment mldsa 0 bal sigs)) (\<lambda>_.
            abind (persist_local_commit 0 bal sigs True) (\<lambda>_. amodify (set_phase Funded))) m
      | _ \<Rightarrow> (m, Err Unexpected))"

section \<open>Signed control messages\<close>

definition sign_control :: "byte \<Rightarrow> byte list \<Rightarrow> (nat \<times> byte list) act" where
  "sign_control kind body m =
     (let seq = m_control_sent m + 1 in
      abind (append_record (RControlSent seq)) (\<lambda>_.
      abind (amodify (\<lambda>m. m\<lparr>m_control_sent := seq\<rparr>)) (\<lambda>_.
      aget (\<lambda>m. (seq, sg_sign (m_signer m) (control_message (m_channel_id m) (party_u8 (m_us m)) seq kind body))))) m)"

definition check_control :: "mldsa_lib \<Rightarrow> byte \<Rightarrow> byte list \<Rightarrow> nat \<Rightarrow> byte list \<Rightarrow> machine \<Rightarrow> (unit, ChannelError) result" where
  "check_control mldsa kind body seq sg m =
     (if seq \<le> m_control_recv m then Err Stale
      else map_err (\<lambda>_. BadSignature)
        (verify mldsa CHANNEL_SCHEME (m_their_pubkey m)
           (control_message (m_channel_id m) (party_u8 (peer_of (m_us m))) seq kind body) sg))"

definition note_control :: "nat \<Rightarrow> unit act" where
  "note_control seq = abind (append_record (RControlRecv seq)) (\<lambda>_. amodify (\<lambda>m. m\<lparr>m_control_recv := seq\<rparr>))"

definition funding_confirmed :: "message act" where
  "funding_confirmed m =
     (if m_phase m \<notin> {Funded, Opening} then (m, Err Unexpected)
      else abind (append_record RReady) (\<lambda>_.
           abind (amodify (set_phase Open)) (\<lambda>_.
           abind (sign_control CONTROL_READY []) (\<lambda>(seq, sg). areturn (MReady seq sg)))) m)"

definition on_ready :: "mldsa_lib \<Rightarrow> message \<Rightarrow> unit act" where
  "on_ready mldsa msg m =
     (case msg of
        MReady seq sg \<Rightarrow>
          abind (alift (check_control mldsa CONTROL_READY [] seq sg)) (\<lambda>_.
            (\<lambda>m. if m_phase m \<in> {Opening, Funded} then (m, Ok ()) else note_control seq m)) m
      | _ \<Rightarrow> (m, Err Unexpected))"

definition close_message :: "nat \<Rightarrow> message act" where
  "close_message fee = abind (sign_control CONTROL_CLOSE (u64_le (of_nat fee))) (\<lambda>(seq, sg). areturn (MClose fee seq sg))"

definition check_close :: "mldsa_lib \<Rightarrow> message \<Rightarrow> machine \<Rightarrow> (nat \<times> nat, ChannelError) result" where
  "check_close mldsa msg m =
     (case msg of
        MClose fee seq sg \<Rightarrow> rbind (check_control mldsa CONTROL_CLOSE (u64_le (of_nat fee)) seq sg m) (\<lambda>_. Ok (fee, seq))
      | _ \<Rightarrow> Err Unexpected)"

end
