(* ===== verification/ChanFlow.thy ===== *)
theory ChanFlow
  imports ChanMachine
begin

text \<open>
  The life of a channel after its opening (\<open>src/src/channel/machine.rs\<close>): payment updates and their resends, splices, crossed
  proposals, cooperative close, replay of the journal and reestablishment, forced close and the reading of what is on the
  chain. State numbers are below \<open>2 ^ 64 - 2\<close>: the shachain has \<open>2 ^ 48\<close> indices, and an index beyond them is \<open>Panic\<close> here as
  its subtraction is in the source.
\<close>

section \<open>Revocations\<close>

definition awhen :: "(machine \<Rightarrow> bool) \<Rightarrow> unit act \<Rightarrow> unit act" where
  "awhen P a m = (if P m then a m else (m, Ok ()))"

text \<open>\<open>make_revocation\<close> followed by \<open>persist_revocation_sent\<close>, as every caller does: journaled as revealed before it leaves.\<close>

definition reveal :: "nat \<Rightarrow> revocation act" where
  "reveal k = abind (alift (make_revocation k)) (\<lambda>r. abind (persist_revocation_sent k) (\<lambda>_. areturn r))"

section \<open>The end of a splice\<close>

definition splice_done :: "machine \<Rightarrow> (bool, ChannelError) result" where
  "splice_done m =
     (case m_splice m of
        None \<Rightarrow> Ok False
      | Some sp \<Rightarrow>
          if \<not> sp_locked sp then Ok False
          else if sp_state sp = 0 then Panic
          else Ok (m_sent m \<ge> Some (sp_state sp - 1) \<and> m_recv m \<ge> Some (sp_state sp - 1)))"

definition retire :: "machine \<Rightarrow> machine" where
  "retire m = m\<lparr>m_retired := m_splice m, m_splice := None, m_splice_height := None\<rparr>"

definition finish_splice :: "unit act" where
  "finish_splice = abind (alift splice_done) (\<lambda>over. if over then abind (amodify retire) (\<lambda>_. compact) else areturn ())"

definition forget_retired :: "unit act" where
  "forget_retired m = (if m_retired m = None then (m, Ok ()) else abind (amodify (\<lambda>m. m\<lparr>m_retired := None\<rparr>)) (\<lambda>_. compact) m)"

section \<open>Updates\<close>

definition propose :: "nat two \<Rightarrow> message act" where
  "propose bal m =
     (if m_phase m \<noteq> Open \<or> m_splice m \<noteq> None then (m, Err Unexpected)
      else abind (alift (check_balances bal)) (\<lambda>_.
           abind (aget next_state) (\<lambda>n.
           abind (alift (sign_their_commitment n bal)) (\<lambda>sigs.
           abind (persist_remote_commit n bal) (\<lambda>_. areturn (MUpdate n bal sigs))))) m)"

text \<open>The callers of the resends give a state of at least one.\<close>

definition answer_remote :: "nat \<Rightarrow> nat two \<Rightarrow> unit act" where
  "answer_remote n bal =
     abind (persist_remote_commit n bal) (\<lambda>_. amodify (\<lambda>m. m\<lparr>m_initiated := hput n False (m_initiated m)\<rparr>))"

definition resend_balances :: "nat \<Rightarrow> nat two act" where
  "resend_balances n m =
     (case hget (m_remote_balances m) n of
        Some b \<Rightarrow> (m, Ok b)
      | None \<Rightarrow>
          if m_local m = Some n \<and> m_remote m < Some n
          then abind (alift (\<lambda>m. ok_or (map_option fst (hget (m_local_commits m) n)) (Invariant ''missing local commitment''))) (\<lambda>bal.
               abind (answer_remote n bal) (\<lambda>_. areturn bal)) m
          else (m, Err (Invariant ''missing remote balances for resend'')))"

definition resend_ack :: "nat \<Rightarrow> message act" where
  "resend_ack n =
     abind (resend_balances n) (\<lambda>bal.
     abind (alift (sign_their_commitment n bal)) (\<lambda>sigs.
     abind (reveal (n - 1)) (\<lambda>r. areturn (MAck n sigs r))))"

definition resend_revoke :: "nat \<Rightarrow> message act" where
  "resend_revoke n = abind (reveal (n - 1)) (\<lambda>r. areturn (MRevoke n r))"

definition resend_update :: "nat \<Rightarrow> machine \<Rightarrow> (message, ChannelError) result" where
  "resend_update n m =
     rbind (ok_or (hget (m_remote_balances m) n) (Invariant ''missing remote balances for resend'')) (\<lambda>bal.
     rbind (sign_their_commitment n bal m) (\<lambda>sigs. Ok (MUpdate n bal sigs)))"

text \<open>What a received update may do to our balance: never lower it, except as the merge of crossed proposals.\<close>

definition check_direction :: "nat two \<Rightarrow> machine \<Rightarrow> (unit, ChannelError) result" where
  "check_direction bal m =
     (if m_crossed m \<noteq> None \<and> m_crossed m = m_local m
      then (if merged_balances m = Some bal then Ok () else Err BadBalances)
      else if pick bal (m_us m) < pick (current_balances m) (m_us m) then Err WrongDirection
      else Ok ())"

definition take_update :: "mldsa_lib \<Rightarrow> nat \<Rightarrow> nat two \<Rightarrow> tier_sigs \<Rightarrow> message act" where
  "take_update mldsa n bal sigs =
     abind (alift (check_balances bal)) (\<lambda>_.
     abind (alift (check_direction bal)) (\<lambda>_.
     abind (alift (verify_our_commitment mldsa n bal sigs)) (\<lambda>_.
     abind (persist_local_commit n bal sigs False) (\<lambda>_.
     abind (alift (sign_their_commitment n bal)) (\<lambda>our_sigs.
     abind (persist_remote_commit n bal) (\<lambda>_.
     abind (reveal (n - 1)) (\<lambda>r. areturn (MAck n our_sigs r))))))))"

definition on_update :: "mldsa_lib \<Rightarrow> message \<Rightarrow> message act" where
  "on_update mldsa msg m =
     (case msg of
        MUpdate n bal sigs \<Rightarrow>
          if n = 0 then (m, Err Unexpected)
          else if (case m_splice m of Some sp \<Rightarrow> n \<ge> sp_state sp | None \<Rightarrow> False) then (m, Err Unexpected)
          else if m_phase m \<in> {Open, Closing} \<and> m_local m \<ge> Some n then resend_ack n m
          else if m_phase m \<noteq> Open \<and> \<not> (m_phase m = Closing \<and> \<not> m_close_signed m) then (m, Err Unexpected)
          else if n \<noteq> next_state m then (m, Err Unexpected)
          else take_update mldsa n bal sigs m
      | _ \<Rightarrow> (m, Err Unexpected))"

text \<open>The splice an acknowledgement may finish: locked by us, held and signed by both.\<close>

definition ack_of_splice :: "nat \<Rightarrow> revocation \<Rightarrow> splice \<Rightarrow> message act" where
  "ack_of_splice n rv sp m =
     (if sp_state sp = n \<and> sp_locked sp \<and> m_local m \<ge> Some n \<and> m_remote m \<ge> Some n
      then abind (reveal (n - 1)) (\<lambda>ours.
           abind (awhen (\<lambda>m. m_recv m < Some (n - 1)) (take_revocation (n - 1) rv)) (\<lambda>_.
           abind finish_splice (\<lambda>_. areturn (MSpliceLocked n ours)))) m
      else (m, Err Unexpected))"

definition take_ack :: "mldsa_lib \<Rightarrow> nat \<Rightarrow> tier_sigs \<Rightarrow> revocation \<Rightarrow> message act" where
  "take_ack mldsa n sigs rv =
     abind (alift (\<lambda>m. ok_or (hget (m_remote_balances m) n) (Invariant ''missing remote balances''))) (\<lambda>bal.
     abind (alift (verify_our_commitment mldsa n bal sigs)) (\<lambda>_.
     abind (persist_local_commit n bal sigs True) (\<lambda>_.
     abind (take_revocation (n - 1) rv) (\<lambda>_.
     abind (reveal (n - 1)) (\<lambda>ours.
     abind compact_if_long (\<lambda>_. areturn (MRevoke n ours)))))))"

definition on_ack :: "mldsa_lib \<Rightarrow> message \<Rightarrow> message act" where
  "on_ack mldsa msg m =
     (case msg of
        MAck n sigs rv \<Rightarrow>
          if m_phase m \<notin> {Open, Closing} then (m, Err Unexpected)
          else if n = 0 then (m, Err Unexpected)
          else (case m_splice m of
                  Some sp \<Rightarrow> ack_of_splice n rv sp m
                | None \<Rightarrow>
                    if m_local m \<ge> Some n \<and> m_recv m \<ge> Some (n - 1) then resend_revoke n m
                    else if m_remote m \<noteq> Some n then (m, Err Unexpected)
                    else take_ack mldsa n sigs rv m)
      | _ \<Rightarrow> (m, Err Unexpected))"

definition on_revoke :: "message \<Rightarrow> unit act" where
  "on_revoke msg m =
     (case msg of
        MRevoke n rv \<Rightarrow>
          if n = 0 then (m, Err Unexpected)
          else if m_recv m \<ge> Some (n - 1) then finish_splice m
          else abind (take_revocation (n - 1) rv) (\<lambda>_. abind finish_splice (\<lambda>_. compact_if_long)) m
      | _ \<Rightarrow> (m, Err Unexpected))"

section \<open>Splices\<close>

definition note_splice_height :: "nat option \<Rightarrow> machine \<Rightarrow> machine" where
  "note_splice_height h m = (if m_splice m \<noteq> None then m\<lparr>m_splice_height := h\<rparr> else m)"

definition check_splice_tx :: "transaction \<Rightarrow> nat \<Rightarrow> u32 \<Rightarrow> nat \<Rightarrow> machine \<Rightarrow> (channel_params, ChannelError) result" where
  "check_splice_tx t n input add m =
     rbind (funding_of m) (\<lambda>funding.
       let k = unat input; ins = tx_inputs t in
       if \<not> (k < length ins \<and> in_sequence (ins ! k) = splice_sequence n) then Err BadParameters
       else if length ins < 2 \<or> k + 1 \<noteq> length ins \<or> prev_out (ins ! k) \<noteq> funding \<or>
               funding \<in> prev_out ` set (take k ins) \<or> \<not> distinct (map prev_out ins) \<or> tx_lock_time t \<noteq> 0 \<or> add < MIN_OUTPUT_VALUE
       then Err BadParameters
       else case checked_add64 (units (cp_capacity (m_params m))) add of
              None \<Rightarrow> Err BadParameters
            | Some cap \<Rightarrow>
                if cap > MAX_CAPACITY then Err BadParameters
                else let cp = (m_params m)\<lparr>cp_capacity := from_units (of_nat cap)\<rparr> in
                  if tx_outputs t = [] \<or> hd (tx_outputs t) \<noteq> funding_output cp then Err BadParameters else Ok cp)"

definition install_splice :: "splice \<Rightarrow> channel_params \<Rightarrow> machine \<Rightarrow> machine" where
  "install_splice sp cp m =
     m\<lparr>m_funding_outpoint := Some \<lparr>op_txid = txid (sp_tx sp), op_index = 0\<rparr>, m_params := cp, m_splice := Some sp, m_splice_height := None\<rparr>"

definition uninstall_splice :: "machine \<Rightarrow> machine" where
  "uninstall_splice m =
     (case m_splice m of
        None \<Rightarrow> m\<lparr>m_splice_height := None\<rparr>
      | Some sp \<Rightarrow> m\<lparr>m_splice := None, m_params := (m_params m)\<lparr>cp_capacity := from_units (of_nat (sp_old_capacity sp))\<rparr>,
                     m_funding_outpoint := Some (sp_old_outpoint sp), m_splice_height := None\<rparr>)"

definition splice_record :: "splice \<Rightarrow> transaction \<Rightarrow> jrecord" where
  "splice_record sp t =
     RSplice (sp_state sp) (party_u8 (sp_adder sp)) (sp_add sp) (sp_old_capacity sp) (out_index (sp_old_outpoint sp)) (sp_funding_input sp) (tx_encode t)"

definition journal_splice :: "transaction \<Rightarrow> unit act" where
  "journal_splice t =
     abind (alift (\<lambda>m. ok_or (m_splice m) (Invariant ''no splice to journal''))) (\<lambda>sp. append_record (splice_record sp t))"

text \<open>An error undoes what only memory holds.\<close>

definition or_undo :: "'a act \<Rightarrow> (machine \<Rightarrow> machine) \<Rightarrow> 'a act" where
  "or_undo a undo m = (case a m of (m', Err e) \<Rightarrow> (undo m', Err e) | r \<Rightarrow> r)"

definition new_splice :: "nat \<Rightarrow> party \<Rightarrow> nat \<Rightarrow> nat \<Rightarrow> outpoint \<Rightarrow> u32 \<Rightarrow> transaction \<Rightarrow> splice" where
  "new_splice n adder add old_capacity op input t =
     \<lparr>sp_state = n, sp_adder = adder, sp_add = add, sp_old_capacity = old_capacity, sp_old_outpoint = op, sp_funding_input = input,
      sp_tx = t, sp_peer_sig = None, sp_complete = False, sp_locked = False\<rparr>"

text \<open>The balances with the added coins.\<close>

definition add_to_side :: "party \<Rightarrow> nat \<Rightarrow> machine \<Rightarrow> (nat two, ChannelError) result" where
  "add_to_side p add m =
     rbind (ok_or (checked_add64 (pick (current_balances m) p) add) BadBalances) (\<lambda>v. Ok (put p v (current_balances m)))"

definition propose_splice :: "nat \<Rightarrow> transaction \<Rightarrow> message act" where
  "propose_splice add t m =
     (if m_phase m \<noteq> Open \<or> m_splice m \<noteq> None \<or> m_retired m \<noteq> None \<or> update_in_flight m \<or> m_sync m \<noteq> InStep then (m, Err Unexpected)
      else let input = of_nat (length (tx_inputs t) - 1); n = next_state m; stripped = tx_encode (tx_stripped t) in
        abind (alift (check_splice_tx t n input add)) (\<lambda>cp.
        abind (aguard (\<lambda>_. length stripped \<le> MAX_SPLICE_TX) BadParameters) (\<lambda>_.
        abind (alift (add_to_side (m_us m) add)) (\<lambda>bal.
        abind (alift (\<lambda>m. check_balances_for m cp bal)) (\<lambda>_.
        abind (alift funding_of) (\<lambda>op.
        abind (amodify (\<lambda>m. install_splice (new_splice n (m_us m) add (units (cp_capacity (m_params m))) op input t) cp m)) (\<lambda>_.
        abind (or_undo (abind (alift (sign_their_commitment n bal)) (\<lambda>sigs. abind (journal_splice t) (\<lambda>_. areturn sigs))) uninstall_splice) (\<lambda>sigs.
        abind (persist_remote_commit n bal) (\<lambda>_. areturn (MSplice n add input stripped sigs))))))))) m)"

definition sign_splice_input :: "splice \<Rightarrow> machine \<Rightarrow> (byte list, ChannelError) result" where
  "sign_splice_input sp m =
     (if sp_state sp = 0 then Panic
      else Ok (sg_sign (m_signer m)
             (funding_sighash_at (params_at m (sp_state sp - 1)) (sp_tx sp) (sp_funding_input sp) (m_network m) (m_us m))))"

definition the_splice :: "machine \<Rightarrow> (splice, ChannelError) result" where
  "the_splice m = ok_or (m_splice m) (Invariant ''no splice'')"

definition splice_answer :: "message list act" where
  "splice_answer =
     abind (alift the_splice) (\<lambda>sp.
     abind (alift (\<lambda>m. ok_or (map_option fst (hget (m_local_commits m) (sp_state sp))) (Invariant ''missing local commitment''))) (\<lambda>bal.
     abind (alift (sign_their_commitment (sp_state sp) bal)) (\<lambda>sigs.
     abind (awhen (\<lambda>m. m_remote m < Some (sp_state sp)) (answer_remote (sp_state sp) bal)) (\<lambda>_.
     abind (alift (sign_splice_input sp)) (\<lambda>sg.
     areturn [MSpliceAck (sp_state sp) sigs, MSpliceSig (sp_state sp) sg])))))"

definition unsigned_inputs :: "transaction \<Rightarrow> bool" where
  "unsigned_inputs t \<longleftrightarrow> (\<forall>i \<in> set (tx_inputs t). wit_pubkey (in_witness i) = [] \<and> wit_signature (in_witness i) = [])"

text \<open>The same splice again, and a new one.\<close>

definition splice_again :: "mldsa_lib \<Rightarrow> nat \<Rightarrow> transaction \<Rightarrow> tier_sigs \<Rightarrow> splice \<Rightarrow> message list act" where
  "splice_again mldsa n t sigs sp m =
     (if sp_adder sp = m_us m \<and> m_local m < Some (sp_state sp) then (m, Ok [MSpliceBusy n])
      else if sp_state sp \<noteq> n \<or> sp_adder sp = m_us m \<or> txid (sp_tx sp) \<noteq> txid t then (m, Err Unexpected)
      else abind (awhen (\<lambda>m. m_local m < Some n)
             (abind (alift (add_to_side (sp_adder sp) (sp_add sp))) (\<lambda>bal.
              abind (alift (verify_our_commitment mldsa n bal sigs)) (\<lambda>_. persist_local_commit n bal sigs False)))) (\<lambda>_.
           splice_answer) m)"

definition take_splice :: "mldsa_lib \<Rightarrow> nat \<Rightarrow> nat \<Rightarrow> u32 \<Rightarrow> transaction \<Rightarrow> tier_sigs \<Rightarrow> message list act" where
  "take_splice mldsa n add input t sigs =
     abind (alift (check_splice_tx t n input add)) (\<lambda>cp.
     abind (aget (\<lambda>m. peer_of (m_us m))) (\<lambda>adder.
     abind (alift (add_to_side adder add)) (\<lambda>bal.
     abind (alift (\<lambda>m. check_balances_for m cp bal)) (\<lambda>_.
     abind (alift funding_of) (\<lambda>op.
     abind (amodify (\<lambda>m. install_splice (new_splice n adder add (units (cp_capacity (m_params m))) op input t) cp m)) (\<lambda>_.
     abind (or_undo (abind (alift (verify_our_commitment mldsa n bal sigs)) (\<lambda>_. journal_splice t)) uninstall_splice) (\<lambda>_.
     abind (persist_local_commit n bal sigs False) (\<lambda>_. splice_answer))))))))"

definition on_splice :: "mldsa_lib \<Rightarrow> message \<Rightarrow> message list act" where
  "on_splice mldsa msg m =
     (case msg of
        MSplice n add input raw sigs \<Rightarrow>
          (case tx_decode raw of
             Err _ \<Rightarrow> (m, Err BadParameters)
           | Panic \<Rightarrow> (m, Panic)
           | Ok t \<Rightarrow>
               if \<not> unsigned_inputs t then (m, Err BadParameters)
               else if m_splice m = None \<and> m_retired m \<noteq> None then (m, Ok [MSpliceBusy n])
               else case m_splice m of
                 Some sp \<Rightarrow> splice_again mldsa n t sigs sp m
               | None \<Rightarrow>
                   if m_phase m \<noteq> Open then (m, Ok [MSpliceBusy n])
                   else let m' = (if m_peer_proposal m = Some n then m\<lparr>m_peer_proposal := None\<rparr> else m) in
                     if n = 0 \<or> n \<noteq> next_state m' \<or> update_in_flight m' \<or> m_sync m' \<noteq> InStep then (m, Ok [MSpliceBusy n])
                     else take_splice mldsa n add input t sigs m')
      | _ \<Rightarrow> (m, Err Unexpected))"

definition resend_splice :: "message act" where
  "resend_splice =
     abind (alift the_splice) (\<lambda>sp.
     abind (\<lambda>m. case hget (m_remote_balances m) (sp_state sp) of
                  Some b \<Rightarrow> (m, Ok b)
                | None \<Rightarrow> abind (alift (add_to_side (sp_adder sp) (sp_add sp))) (\<lambda>b.
                          abind (persist_remote_commit (sp_state sp) b) (\<lambda>_. areturn b)) m) (\<lambda>bal.
     abind (alift (sign_their_commitment (sp_state sp) bal)) (\<lambda>sigs.
     areturn (MSplice (sp_state sp) (sp_add sp) (sp_funding_input sp) (tx_encode (tx_stripped (sp_tx sp))) sigs))))"

definition update_splice :: "(splice \<Rightarrow> splice) \<Rightarrow> machine \<Rightarrow> machine" where
  "update_splice f m = m\<lparr>m_splice := map_option f (m_splice m)\<rparr>"

text \<open>The two sides' signatures or keys, ours and theirs.\<close>

definition both :: "machine \<Rightarrow> 'a \<Rightarrow> 'a \<Rightarrow> 'a two" where
  "both m ours theirs = (case m_us m of FUNDER \<Rightarrow> (ours, theirs) | ACCEPTOR \<Rightarrow> (theirs, ours))"

definition completed_splice :: "splice \<Rightarrow> byte list \<Rightarrow> machine \<Rightarrow> (transaction, ChannelError) result" where
  "completed_splice sp sg m =
     rbind (sign_splice_input sp m) (\<lambda>our_sig.
       Ok (complete_funding_spend_at (params_at m (sp_state sp - 1)) (sp_tx sp) (unat (sp_funding_input sp))
             (both m our_sig sg) (both m (m_our_pubkey m) (m_their_pubkey m))))"

definition complete_splice :: "transaction option act" where
  "complete_splice m =
     (case m_splice m of
        None \<Rightarrow> (m, Ok None)
      | Some sp \<Rightarrow>
          (case sp_peer_sig sp of
             None \<Rightarrow> (m, Ok None)
           | Some sg \<Rightarrow>
               if sp_complete sp \<or> sp_adder sp \<noteq> m_us m \<or> m_local m < Some (sp_state sp) then (m, Ok None)
               else abind (alift (completed_splice sp sg)) (\<lambda>t.
                    abind (append_record (RSpliceTx (tx_encode t))) (\<lambda>_.
                    abind (amodify (update_splice (\<lambda>s. s\<lparr>sp_tx := t, sp_complete := True\<rparr>))) (\<lambda>_. areturn (Some t)))) m))"

definition on_splice_ack :: "mldsa_lib \<Rightarrow> message \<Rightarrow> transaction option act" where
  "on_splice_ack mldsa msg m =
     (case msg of
        MSpliceAck n sigs \<Rightarrow>
          if \<not> (case m_splice m of Some sp \<Rightarrow> sp_state sp = n \<and> sp_adder sp = m_us m | None \<Rightarrow> False) then (m, Err Unexpected)
          else if m_local m \<ge> Some n then (m, Ok None)
          else if m_remote m \<noteq> Some n then (m, Err Unexpected)
          else abind (alift (\<lambda>m. ok_or (hget (m_remote_balances m) n) (Invariant ''missing remote balances''))) (\<lambda>bal.
               abind (alift (verify_our_commitment mldsa n bal sigs)) (\<lambda>_.
               abind (persist_local_commit n bal sigs True) (\<lambda>_. complete_splice))) m
      | _ \<Rightarrow> (m, Err Unexpected))"

definition check_splice_sig :: "mldsa_lib \<Rightarrow> splice \<Rightarrow> byte list \<Rightarrow> machine \<Rightarrow> (unit, ChannelError) result" where
  "check_splice_sig mldsa sp sg m =
     (if sp_state sp = 0 then Panic
      else check_their_sig mldsa m (params_at m (sp_state sp - 1)) (sp_tx sp) (sp_funding_input sp) sg)"

definition on_splice_sig :: "mldsa_lib \<Rightarrow> message \<Rightarrow> transaction option act" where
  "on_splice_sig mldsa msg m =
     (case msg of
        MSpliceSig n sg \<Rightarrow>
          (case m_splice m of
             None \<Rightarrow> (m, Err Unexpected)
           | Some sp \<Rightarrow>
               if sp_state sp \<noteq> n \<or> sp_adder sp \<noteq> m_us m then (m, Err Unexpected)
               else if sp_complete sp \<or> sp_peer_sig sp \<noteq> None then (m, Ok None)
               else abind (alift (check_splice_sig mldsa sp sg)) (\<lambda>_.
                    abind (append_record (RSpliceSig sg)) (\<lambda>_.
                    abind (amodify (update_splice (\<lambda>s. s\<lparr>sp_peer_sig := Some sg\<rparr>))) (\<lambda>_. complete_splice))) m)
      | _ \<Rightarrow> (m, Err Unexpected))"

definition dropped_splice :: "nat \<Rightarrow> machine \<Rightarrow> machine" where
  "dropped_splice n m =
     (let m' = uninstall_splice m
      in m'\<lparr>m_remote_balances := hdel n (m_remote_balances m'), m_initiated := hdel n (m_initiated m'), m_remote := m_local m'\<rparr>)"

definition cancel_splice :: "transaction act" where
  "cancel_splice =
     abind (alift the_splice) (\<lambda>sp.
     abind (aguard (\<lambda>m. \<not> (sp_adder sp \<noteq> m_us m \<or> sp_complete sp \<or> m_local m \<ge> Some (sp_state sp))) (Invariant ''a splice already taken stays'')) (\<lambda>_.
     abind (amodify (dropped_splice (sp_state sp))) (\<lambda>_.
     abind compact (\<lambda>_. areturn (sp_tx sp)))))"

definition on_splice_busy :: "message \<Rightarrow> transaction option act" where
  "on_splice_busy msg m =
     (case msg of
        MSpliceBusy n \<Rightarrow>
          if (case m_splice m of Some sp \<Rightarrow> sp_state sp = n \<and> sp_adder sp = m_us m \<and> m_local m < Some (sp_state sp) | None \<Rightarrow> False)
          then abind cancel_splice (\<lambda>t. areturn (Some t)) m
          else (m, Ok None)
      | _ \<Rightarrow> (m, Err Unexpected))"

definition splice_locked :: "message act" where
  "splice_locked m =
     (case m_splice m of
        None \<Rightarrow> (m, Err Unexpected)
      | Some sp \<Rightarrow>
          if m_phase m \<notin> {Open, Closing} then (m, Err Unexpected)
          else if sp_state sp = 0 then (m, Panic)
          else abind (alift (make_revocation (sp_state sp - 1))) (\<lambda>r.
               abind (awhen (\<lambda>_. \<not> sp_locked sp)
                 (abind (append_record RSpliceLocked) (\<lambda>_. amodify (update_splice (\<lambda>s. s\<lparr>sp_locked := True\<rparr>))))) (\<lambda>_.
               abind (persist_revocation_sent (sp_state sp - 1)) (\<lambda>_.
               abind finish_splice (\<lambda>_. areturn (MSpliceLocked (sp_state sp) r))))) m)"

definition on_splice_locked :: "message \<Rightarrow> unit act" where
  "on_splice_locked msg m =
     (case msg of
        MSpliceLocked n rv \<Rightarrow>
          if m_recv m \<ge> Some (n - 1) \<and> n \<ge> 1 then finish_splice m
          else if (case m_splice m of Some sp \<Rightarrow> sp_state sp = n \<and> m_local m \<ge> Some n | None \<Rightarrow> False) \<and> m_remote m \<ge> Some n
          then (if n = 0 then (m, Panic) else abind (take_revocation (n - 1) rv) (\<lambda>_. finish_splice) m)
          else (m, Err Unexpected)
      | _ \<Rightarrow> (m, Err Unexpected))"

text \<open>\<open>checked_sub\<close> of one on a counter of the peer.\<close>

definition checked_dec :: "nat \<Rightarrow> nat option" where
  "checked_dec n = (if n = 0 then None else Some (n - 1))"

definition resync_splice :: "nat option \<Rightarrow> nat option \<Rightarrow> message list act" where
  "resync_splice their_local their_recv =
     abind (alift the_splice) (\<lambda>sp.
     abind (\<lambda>m. if sp_adder sp = m_us m
                then (if m_local m < Some (sp_state sp) \<and> (case their_local of None \<Rightarrow> True | Some held \<Rightarrow> held < sp_state sp)
                      then abind resend_splice (\<lambda>x. areturn [x]) m else (m, Ok []))
                else (if m_local m \<ge> Some (sp_state sp) \<and> \<not> sp_locked sp then splice_answer m else (m, Ok []))) (\<lambda>out.
     abind (\<lambda>m. if \<not> sp_locked sp then (m, Ok [])
                else case their_recv of
                       None \<Rightarrow> abind splice_locked (\<lambda>x. areturn [x]) m
                     | Some tr \<Rightarrow> if sp_state sp = 0 then (m, Panic)
                                  else if tr < sp_state sp - 1 then abind splice_locked (\<lambda>x. areturn [x]) m else (m, Ok [])) (\<lambda>out'.
     areturn (out @ out'))))"

text \<open>\<open>check_update_over_splice\<close>: the commitment of the update on the old funding.\<close>

definition old_commitment :: "splice \<Rightarrow> nat \<Rightarrow> nat two \<Rightarrow> fee_tier \<Rightarrow> machine \<Rightarrow> transaction" where
  "old_commitment sp n bal tier m =
     set_prev_out (sp_old_outpoint sp)
       (cm_tx (commitment (params_at m (sp_state sp - 1)) (m_us m) n bal (commit_fee m tier) (our_point m n)))"

definition check_update_over_splice :: "mldsa_lib \<Rightarrow> message \<Rightarrow> machine \<Rightarrow> (unit, ChannelError) result" where
  "check_update_over_splice mldsa msg m =
     (case msg of
        MUpdate n bal sigs \<Rightarrow>
          rbind (the_splice m) (\<lambda>sp.
            if sp_state sp = 0 then Panic
            else let old = params_at m (sp_state sp - 1) in
              if map_option Suc (m_local m) \<noteq> Some n then Err Unexpected
              else rbind (check_balances_for m old bal) (\<lambda>_.
                if pick bal (m_us m) < pick (current_balances m) (m_us m) then Err WrongDirection
                else if n > MAX_INDEX then Panic
                else verify_tiers (\<lambda>tier. check_their_sig mldsa m old (old_commitment sp n bal tier m) 0 (tier_sig sigs tier)) FEE_TIERS))
      | _ \<Rightarrow> Err Unexpected)"

definition close_state :: "machine \<Rightarrow> (nat, ChannelError) result" where
  "close_state m =
     rbind (ok_or (m_local m) (Invariant ''no commitment yet'')) (\<lambda>n.
       case m_splice m of
         None \<Rightarrow> Ok n
       | Some sp \<Rightarrow>
           if n \<ge> sp_state sp \<and> m_splice_height m = None \<and> \<not> sp_locked sp
           then (if sp_state sp = 0 then Panic else if m_sent m < Some (sp_state sp - 1) then Ok (sp_state sp - 1) else Ok n)
           else Ok n)"

section \<open>Proof of an older copy\<close>

definition behind_proof :: "machine \<Rightarrow> (message option, ChannelError) result" where
  "behind_proof m =
     (if m_sync m \<noteq> PeerIsBehind then Ok None
      else case m_peer_counters m of
             None \<Rightarrow> Ok None
           | Some (p_local, _, _, _) \<Rightarrow>
               (case checked_dec p_local of
                  None \<Rightarrow> Ok None
                | Some n \<Rightarrow> if n > MAX_INDEX then Panic
                            else Ok (map_option (MBehindProof n) (store_get (m_store m) (MAX_INDEX - n)))))"

definition check_behind_proof :: "message \<Rightarrow> machine \<Rightarrow> bool" where
  "check_behind_proof msg m =
     (case msg of
        MBehindProof n s \<Rightarrow>
          (case m_local m of
             None \<Rightarrow> False
           | Some latest \<Rightarrow> if n < latest \<or> n > MAX_INDEX then False else our_secret m n = s)
      | _ \<Rightarrow> False)"

section \<open>Cooperative close\<close>

definition check_close_fee :: "nat \<Rightarrow> party \<Rightarrow> machine \<Rightarrow> (unit, ChannelError) result" where
  "check_close_fee fee payer m =
     (case close_fee_bounds (m_params m) of (lo, hi) \<Rightarrow>
        if fee < lo \<or> fee > hi \<or> fee > pick (current_balances m) payer then Err BadParameters else Ok ())"

definition journal_close :: "nat \<Rightarrow> party \<Rightarrow> unit act" where
  "journal_close fee payer =
     abind (append_record (RClosingCoopBy fee (party_u8 payer))) (\<lambda>_.
     amodify (\<lambda>m. m\<lparr>m_phase := Closing, m_close_fee := Some fee, m_close_payer := Some payer\<rparr>))"

definition propose_close :: "nat \<Rightarrow> message act" where
  "propose_close fee m =
     (if m_phase m = Closing
      then (case (m_close_fee m, m_close_payer m) of
              (Some agreed, Some p) \<Rightarrow> if p = m_us m then close_message agreed m else (m, Err Unexpected)
            | _ \<Rightarrow> (m, Err Unexpected))
      else if m_phase m \<noteq> Open \<or> update_in_flight m then (m, Err Unexpected)
      else abind (alift (check_close_fee fee (m_us m))) (\<lambda>_.
           abind (journal_close fee (m_us m)) (\<lambda>_. close_message fee)) m)"

definition agree_close :: "nat \<Rightarrow> bool \<Rightarrow> unit act" where
  "agree_close fee ours m =
     (let payer = (if ours then m_us m else peer_of (m_us m)) in
      case m_phase m of
        Open \<Rightarrow> abind (alift (check_close_fee fee payer)) (\<lambda>_. journal_close fee payer) m
      | Closing \<Rightarrow> (m, Ok ())
      | _ \<Rightarrow> (m, Err Unexpected))"

definition sign_peer_close :: "nat \<Rightarrow> message act" where
  "sign_peer_close fee m =
     (if m_phase m \<notin> {Open, Closing, Closed} then (m, Err Unexpected)
      else if update_in_flight m then (m, Err Unexpected)
      else let peer = peer_of (m_us m) in
        abind (alift (check_close_fee fee peer)) (\<lambda>_.
        abind (awhen (\<lambda>m. m_phase m = Open) (journal_close fee peer)) (\<lambda>_.
        abind (alift funding_of) (\<lambda>op.
        abind (amodify (\<lambda>m. m\<lparr>m_close_signed := True\<rparr>)) (\<lambda>_.
        aget (\<lambda>m. MCloseSigned fee (sg_sign (m_signer m)
          (funding_sighash (m_params m) (cm_tx (cooperative_close (m_params m) op (current_balances m) fee (m_payout m) peer)) (m_network m) (m_us m))))))))
        m)"

definition close_after_update :: "message option act" where
  "close_after_update m =
     (if m_phase m \<noteq> Closing \<or> update_in_flight m then (m, Ok None)
      else case (m_close_fee m, m_close_payer m) of
             (Some fee, Some p) \<Rightarrow> abind (if p = m_us m then close_message fee else sign_peer_close fee) (\<lambda>x. areturn (Some x)) m
           | _ \<Rightarrow> (m, Ok None))"

definition on_close :: "mldsa_lib \<Rightarrow> message \<Rightarrow> message act" where
  "on_close mldsa msg m =
     (case msg of
        MClose _ _ _ \<Rightarrow>
          if m_phase m \<notin> {Open, Closing, Closed} \<or> update_in_flight m then (m, Err Unexpected)
          else abind (alift (check_close mldsa msg)) (\<lambda>(fee, seq).
               abind (sign_peer_close fee) (\<lambda>signed.
               abind (note_control seq) (\<lambda>_. areturn signed))) m
      | _ \<Rightarrow> (m, Err Unexpected))"

definition on_close_crossing :: "mldsa_lib \<Rightarrow> message \<Rightarrow> unit act" where
  "on_close_crossing mldsa msg =
     abind (alift (check_close mldsa msg)) (\<lambda>(fee, seq). abind (agree_close fee False) (\<lambda>_. note_control seq))"

definition assemble_close :: "mldsa_lib \<Rightarrow> nat \<Rightarrow> byte list \<Rightarrow> machine \<Rightarrow> (transaction, ChannelError) result" where
  "assemble_close mldsa fee sg m =
     rbind (funding_of m) (\<lambda>op.
       let t = cm_tx (cooperative_close (m_params m) op (current_balances m) fee (m_payout m) (m_us m)) in
       rbind (check_their_sig mldsa m (m_params m) t 0 sg) (\<lambda>_.
         Ok (complete_funding_spend (m_params m) t
               (both m (sg_sign (m_signer m) (funding_sighash (m_params m) t (m_network m) (m_us m))) sg)
               (both m (m_our_pubkey m) (m_their_pubkey m)))))"

definition on_close_signed :: "mldsa_lib \<Rightarrow> message \<Rightarrow> transaction act" where
  "on_close_signed mldsa msg m =
     (case msg of
        MCloseSigned fee sg \<Rightarrow>
          if m_phase m \<notin> {Closing, Closed} then (m, Err Unexpected)
          else if m_close_fee m \<noteq> Some fee \<or> m_close_payer m \<noteq> Some (m_us m) then (m, Err Unexpected)
          else abind (alift (assemble_close mldsa fee sg)) (\<lambda>t.
               abind (awhen (\<lambda>m. m_close_peer_sig m = None)
                 (abind (append_record (RCloseSigned fee sg)) (\<lambda>_.
                  amodify (\<lambda>m. m\<lparr>m_close_peer_sig := Some sg, m_close_fee := Some fee\<rparr>)))) (\<lambda>_.
               abind (amodify (\<lambda>m. m\<lparr>m_close_signed := True\<rparr>)) (\<lambda>_. areturn t))) m
      | _ \<Rightarrow> (m, Err Unexpected))"

definition signed_cooperative_close :: "mldsa_lib \<Rightarrow> machine \<Rightarrow> transaction option" where
  "signed_cooperative_close mldsa m =
     (case (m_close_peer_sig m, m_close_fee m) of
        (Some sg, Some fee) \<Rightarrow> (case assemble_close mldsa fee sg m of Ok t \<Rightarrow> Some t | _ \<Rightarrow> None)
      | _ \<Rightarrow> None)"

definition note_key_index :: "u32 \<Rightarrow> unit act" where
  "note_key_index i =
     awhen (\<lambda>m. m_key_index m \<noteq> Some i) (abind (append_record (RKeyIndex i)) (\<lambda>_. amodify (\<lambda>m. m\<lparr>m_key_index := Some i\<rparr>)))"

definition note_funding_height :: "nat \<Rightarrow> unit act" where
  "note_funding_height h =
     awhen (\<lambda>m. m_funding_height m \<noteq> Some h) (abind (append_record (RConfirmed h)) (\<lambda>_. amodify (\<lambda>m. m\<lparr>m_funding_height := Some h\<rparr>)))"

section \<open>Crossed proposals\<close>

definition crosses_our_proposal :: "message \<Rightarrow> machine \<Rightarrow> bool" where
  "crosses_our_proposal msg m =
     (case msg of
        MUpdate n _ _ \<Rightarrow>
          m_phase m \<in> {Open, Closing} \<and> n \<ge> 1 \<and> m_remote m = Some n \<and> m_local m = Some (n - 1) \<and> hget (m_initiated m) n = Some True
      | _ \<Rightarrow> False)"

definition merge_ready :: "nat \<Rightarrow> machine \<Rightarrow> (bool, ChannelError) result" where
  "merge_ready n m =
     (if \<not> (m_local m = Some n \<and> m_remote m = Some n) then Ok False
      else if n = 0 then Panic
      else Ok (m_sent m \<ge> Some (n - 1) \<and> m_recv m \<ge> Some (n - 1) \<and> has_initiative m \<and> m_phase m \<in> {Open, Closing}))"

definition merge_if_ready :: "message option act" where
  "merge_if_ready m =
     (case m_crossed m of
        None \<Rightarrow> (m, Ok None)
      | Some n \<Rightarrow>
          abind (alift (merge_ready n)) (\<lambda>ready.
            if \<not> ready then areturn None
            else abind (alift (\<lambda>m. ok_or (merged_balances m) (Invariant ''crossed proposals do not merge''))) (\<lambda>merged.
                 abind (alift (check_balances merged)) (\<lambda>_.
                 abind (alift (sign_their_commitment (n + 1) merged)) (\<lambda>sigs.
                 abind (persist_remote_commit (n + 1) merged) (\<lambda>_. areturn (Some (MUpdate (n + 1) merged sigs))))))) m)"

text \<open>The checks of a crossing proposal: a payment to us, and a merge that is a valid state.\<close>

definition check_crossing :: "mldsa_lib \<Rightarrow> nat \<Rightarrow> nat two \<Rightarrow> tier_sigs \<Rightarrow> machine \<Rightarrow> (unit, ChannelError) result" where
  "check_crossing mldsa n bal sigs m =
     rbind (check_balances bal m) (\<lambda>_.
     rbind (settled_balances (n - 1) m) (\<lambda>base.
       if pick bal (m_us m) < pick base (m_us m) then Err WrongDirection
       else rbind (ok_or (hget (m_remote_balances m) n) (Invariant ''missing our proposal'')) (\<lambda>ours.
            rbind (ok_or (case merge base ours bal of Some x \<Rightarrow> if check_balances x m = Ok () then Some x else None | None \<Rightarrow> None) BadBalances) (\<lambda>_.
            verify_our_commitment mldsa n bal sigs m))))"

definition on_crossed_update :: "mldsa_lib \<Rightarrow> message \<Rightarrow> message list act" where
  "on_crossed_update mldsa msg m =
     (case msg of
        MUpdate n bal sigs \<Rightarrow>
          if \<not> crosses_our_proposal msg m then (m, Err Unexpected)
          else abind (alift (check_crossing mldsa n bal sigs)) (\<lambda>_.
               abind (awhen (\<lambda>m. m_crossed m \<noteq> Some n) (abind (append_record (RCrossed n)) (\<lambda>_. amodify (\<lambda>m. m\<lparr>m_crossed := Some n\<rparr>)))) (\<lambda>_.
               abind (persist_local_commit n bal sigs True) (\<lambda>_.
               abind (reveal (n - 1)) (\<lambda>r.
               abind merge_if_ready (\<lambda>x. areturn (MRevoke n r # (case x of Some u \<Rightarrow> [u] | None \<Rightarrow> []))))))) m
      | _ \<Rightarrow> (m, Err Unexpected))"

definition on_peer_update :: "mldsa_lib \<Rightarrow> message \<Rightarrow> message list act" where
  "on_peer_update mldsa msg m =
     (case msg of
        MUpdate n _ _ \<Rightarrow>
          if m_crossed m = Some n \<and> m_local m \<ge> Some n then (m, Ok [])
          else abind (awhen (\<lambda>m. case m_splice m of Some sp \<Rightarrow> sp_adder sp = m_us m \<and> sp_state sp = n \<and> m_local m < Some (sp_state sp) | None \<Rightarrow> False)
                 (abind (alift (check_update_over_splice mldsa msg)) (\<lambda>_. abind cancel_splice (\<lambda>_. areturn ())))) (\<lambda>_.
               (\<lambda>m. if crosses_our_proposal msg m then on_crossed_update mldsa msg m
                    else abind (on_update mldsa msg) (\<lambda>x. areturn [x]) m)) m
      | _ \<Rightarrow> (m, Err Unexpected))"

section \<open>Replay\<close>

definition party_of_u8 :: "byte \<Rightarrow> party" where
  "party_of_u8 b = (if b = 0 then FUNDER else ACCEPTOR)"

definition replay_splice :: "nat \<Rightarrow> byte \<Rightarrow> nat \<Rightarrow> nat \<Rightarrow> hash256 \<times> u32 \<Rightarrow> u32 \<Rightarrow> byte list \<Rightarrow> machine \<Rightarrow> machine" where
  "replay_splice n adder add old_capacity old input raw m =
     (case tx_decode raw of
        Ok t \<Rightarrow>
          install_splice
            (new_splice n (party_of_u8 adder) add old_capacity \<lparr>op_txid = fst old, op_index = snd old\<rparr> input t)
            ((m_params m)\<lparr>cp_capacity := from_units (of_nat (sat_add64 old_capacity add))\<rparr>) m
      | _ \<Rightarrow> m)"

text \<open>One record of the journal. A party other than 0 is the acceptor: the machine writes 0 and 1 only.\<close>

fun replay_record :: "jrecord \<Rightarrow> machine \<Rightarrow> machine" where
  "replay_record (ROpened _ _ _ _ _ _ _ _ _ _) m = m"
| "replay_record (RFunded t i) m = m\<lparr>m_funding_outpoint := Some \<lparr>op_txid = t, op_index = i\<rparr>\<rparr>"
| "replay_record (RLocalCommit n bal sigs) m = set_local n bal sigs False m"
| "replay_record (RRemoteCommit n bal) m = set_remote n bal m"
| "replay_record (RRevocationSent n) m = m\<lparr>m_sent := Some n\<rparr>"
| "replay_record (RRevocationRecv n s) m =
     m\<lparr>m_recv := Some n, m_store := fst (store_insert (m_store m) s (MAX_INDEX - n)), m_their_points := hdel n (m_their_points m)\<rparr>"
| "replay_record (RTheirPoint n h) m = m\<lparr>m_their_points := hput n h (m_their_points m)\<rparr>"
| "replay_record RReady m = m\<lparr>m_phase := Open\<rparr>"
| "replay_record (RClosingCoop fee) m = m\<lparr>m_phase := Closing, m_close_fee := Some fee, m_close_payer := Some FUNDER\<rparr>"
| "replay_record (RClosingCoopBy fee p) m = m\<lparr>m_phase := Closing, m_close_fee := Some fee, m_close_payer := Some (party_of_u8 p)\<rparr>"
| "replay_record (RFundingTx raw) m = m\<lparr>m_funding_tx := (case tx_decode raw of Ok t \<Rightarrow> Some t | _ \<Rightarrow> None)\<rparr>"
| "replay_record (RKeyIndex i) m = m\<lparr>m_key_index := Some i\<rparr>"
| "replay_record RForcing m = m\<lparr>m_phase := Forcing\<rparr>"
| "replay_record RPenalised m = m\<lparr>m_phase := Penalised\<rparr>"
| "replay_record RClosed m = m\<lparr>m_phase := Closed\<rparr>"
| "replay_record (RRevocations n entries) m =
     m\<lparr>m_recv := Some n, m_store := (case store_restore entries of Ok st \<Rightarrow> st | _ \<Rightarrow> m_store m)\<rparr>"
| "replay_record (RConfirmed h) m = m\<lparr>m_funding_height := Some h\<rparr>"
| "replay_record (RCloseSigned fee sg) m =
     m\<lparr>m_close_fee := Some fee, m_close_payer := Some (m_us m), m_close_peer_sig := Some sg,
       m_phase := (if m_phase m \<noteq> Closed then Closing else m_phase m)\<rparr>"
| "replay_record (RCrossed n) m = m\<lparr>m_crossed := Some n\<rparr>"
| "replay_record (RControlSent n) m = m\<lparr>m_control_sent := max (m_control_sent m) n\<rparr>"
| "replay_record (RControlRecv n) m = m\<lparr>m_control_recv := max (m_control_recv m) n\<rparr>"
| "replay_record RAbandoned m = m\<lparr>m_phase := Closed, m_abandoned := True\<rparr>"
| "replay_record (RSplice n adder add old_capacity old input raw) m = replay_splice n adder add old_capacity old input raw m"
| "replay_record (RSpliceSig sg) m = update_splice (\<lambda>s. s\<lparr>sp_peer_sig := Some sg\<rparr>) m"
| "replay_record (RSpliceTx raw) m =
     (case tx_decode raw of Ok t \<Rightarrow> update_splice (\<lambda>s. s\<lparr>sp_tx := t, sp_complete := True\<rparr>) m | _ \<Rightarrow> m)"
| "replay_record RSpliceLocked m = update_splice (\<lambda>s. s\<lparr>sp_locked := True\<rparr>) m"

text \<open>The index of a revoked state is subtracted from the last one, which panics beyond it.\<close>

definition record_panics :: "jrecord \<Rightarrow> bool" where
  "record_panics r = (case r of RRevocationRecv n _ \<Rightarrow> n > MAX_INDEX | _ \<Rightarrow> False)"

definition replay_end :: "machine \<Rightarrow> machine" where
  "replay_end m =
     (let m = (if m_phase m = Opening \<and> m_local m = Some 0 then m\<lparr>m_phase := Funded\<rparr> else m)
      in m\<lparr>m_close_signed := m_phase m \<in> {Closing, Closed}\<rparr>)"

definition replay :: "jrecord list \<Rightarrow> machine \<Rightarrow> (machine, ChannelError) result" where
  "replay rs m =
     (if list_ex record_panics rs then Panic
      else let m' = fold replay_record rs m in
        rbind (splice_done m') (\<lambda>over. Ok (replay_end (if over then m'\<lparr>m_retired := m_splice m', m_splice := None\<rparr> else m'))))"

text \<open>\<open>reopen\<close>, on the records read from the journal.\<close>

definition reopened :: "network \<Rightarrow> signer \<Rightarrow> nat \<Rightarrow> bool list \<Rightarrow> jrecord list \<Rightarrow> machine option" where
  "reopened net sg base_rate faults rs =
     (case rs of
        ROpened cid us funding cap delay depth _ their_pubkey payout key_index # _ \<Rightarrow>
          Some ((blank_machine net (party_of_u8 us) sg their_pubkey
                   \<lparr>cp_funding = funding, cp_capacity = from_units (of_nat cap), cp_delay = of_nat delay\<rparr> depth base_rate payout cid key_index)
                \<lparr>m_journal := rs, m_faults := faults\<rparr>)
      | _ \<Rightarrow> None)"

definition reopen :: "network \<Rightarrow> signer \<Rightarrow> nat \<Rightarrow> bool list \<Rightarrow> jrecord list \<Rightarrow> (machine, ChannelError) result" where
  "reopen net sg base_rate faults rs =
     (case rs of
        [] \<Rightarrow> Err (Invariant ''empty journal'')
      | _ \<Rightarrow>
          rbind (ok_or (reopened net sg base_rate faults rs) (Invariant ''first record is not Opened'')) (\<lambda>m.
          rbind (replay rs m) (\<lambda>m. case compact_if_long m of (m', Ok _) \<Rightarrow> Ok m' | (_, Err e) \<Rightarrow> Err e | (_, Panic) \<Rightarrow> Panic)))"

section \<open>Reestablishment\<close>

definition sync_counters :: "machine \<Rightarrow> counters" where
  "sync_counters m = (succ_or_0 (m_local m), succ_or_0 (m_remote m), succ_or_0 (m_sent m), succ_or_0 (m_recv m))"

definition reestablish_for :: "byte list \<Rightarrow> machine \<Rightarrow> message" where
  "reestablish_for nonce m =
     MReestablish (m_channel_id m) (sync_counters m) nonce (party_u8 (m_us m))
       (sg_sign (m_signer m) (reestablish_message (m_channel_id m) nonce (party_u8 (m_us m)) (sync_counters m)))"

definition remember_nonce :: "byte list \<Rightarrow> machine \<Rightarrow> machine" where
  "remember_nonce nonce m =
     m\<lparr>m_seen_nonces := (if length (m_seen_nonces m) \<ge> MAX_SEEN_NONCES then tl (m_seen_nonces m) else m_seen_nonces m) @ [nonce]\<rparr>"

text \<open>What our own latest commitment owes the peer, with the state whose acknowledgement is queued.\<close>

definition resend_local :: "nat option \<Rightarrow> (message list \<times> nat option) act" where
  "resend_local their_recv m =
     (case m_local m of
        None \<Rightarrow> (m, Ok ([], None))
      | Some l \<Rightarrow>
          if l \<ge> 1 \<and> m_remote m < Some l then abind (resend_ack l) (\<lambda>x. areturn ([x], Some l)) m
          else if l \<ge> 1 \<and> (case their_recv of None \<Rightarrow> True | Some tr \<Rightarrow> tr < l - 1)
          then (if hget (m_initiated m) l = Some True
                then abind (resend_revoke l) (\<lambda>x. areturn ([x], None)) m
                else abind (resend_ack l) (\<lambda>x. areturn ([x], Some l)) m)
          else (m, Ok ([], None)))"

definition resend_remote :: "nat option \<Rightarrow> nat option \<Rightarrow> message list act" where
  "resend_remote their_local acked m =
     (case m_remote m of
        None \<Rightarrow> (m, Ok [])
      | Some r \<Rightarrow>
          if r \<ge> 1 \<and> (case their_local of None \<Rightarrow> True | Some held \<Rightarrow> held < r) \<and> acked \<noteq> Some r
          then (if hget (m_initiated m) r = Some True
                then abind (alift (resend_update r)) (\<lambda>x. areturn [x]) m
                else abind (resend_ack r) (\<lambda>x. areturn [x]) m)
          else (m, Ok []))"

definition resend_close :: "message list act" where
  "resend_close m =
     (if m_phase m = Closing \<and> \<not> update_in_flight m
      then (case (m_close_fee m, m_close_payer m) of
              (Some fee, Some p) \<Rightarrow> if p = m_us m then abind (close_message fee) (\<lambda>x. areturn [x]) m else (m, Ok [])
            | _ \<Rightarrow> (m, Ok []))
      else (m, Ok []))"

definition resync :: "counters \<Rightarrow> message list act" where
  "resync theirs m =
     (case theirs of (p_local, p_remote, p_sent, p_recv) \<Rightarrow>
        if m_splice m \<noteq> None then resync_splice (checked_dec p_local) (checked_dec p_recv) m
        else abind (amodify (\<lambda>m. m\<lparr>m_peer_proposal :=
                 (case checked_dec p_remote of Some r \<Rightarrow> if m_local m < Some r \<and> m_remote m < Some r then Some r else None | None \<Rightarrow> None)\<rparr>)) (\<lambda>_.
             abind (resend_local (checked_dec p_recv)) (\<lambda>(out, acked).
             abind (resend_remote (checked_dec p_local) acked) (\<lambda>out'.
             abind merge_if_ready (\<lambda>x.
             abind resend_close (\<lambda>out''. areturn (out @ out' @ (case x of Some u \<Rightarrow> [u] | None \<Rightarrow> []) @ out'')))))) m)"

definition check_reestablish :: "mldsa_lib \<Rightarrow> hash256 \<Rightarrow> counters \<Rightarrow> byte list \<Rightarrow> byte \<Rightarrow> byte list \<Rightarrow> machine \<Rightarrow> (unit, ChannelError) result" where
  "check_reestablish mldsa cid theirs nonce direction proof_sig m =
     (if cid \<noteq> m_channel_id m \<or> nonce \<in> set (m_seen_nonces m) \<or> direction \<noteq> party_u8 (peer_of (m_us m)) then Err BadReestablish
      else map_err (\<lambda>_. BadReestablish)
        (verify mldsa CHANNEL_SCHEME (m_their_pubkey m) (reestablish_message (m_channel_id m) nonce direction theirs) proof_sig))"

definition on_reestablish :: "mldsa_lib \<Rightarrow> message \<Rightarrow> message list act" where
  "on_reestablish mldsa msg m =
     (case msg of
        MReestablish cid theirs nonce direction proof_sig \<Rightarrow>
          abind (alift (check_reestablish mldsa cid theirs nonce direction proof_sig)) (\<lambda>_.
          abind (amodify (remember_nonce nonce)) (\<lambda>_.
            (\<lambda>m. if m_phase m \<in> {Forcing, Penalised, Closed} then (m, Ok [])
                 else abind (amodify (\<lambda>m. m\<lparr>m_sync := sync_verdict_of (sync_counters m) theirs, m_peer_counters := Some theirs\<rparr>)) (\<lambda>_.
                        (\<lambda>m. if m_sync m \<noteq> InStep then (m, Ok []) else resync theirs m)) m))) m
      | _ \<Rightarrow> (m, Err Unexpected))"

section \<open>On the chain\<close>

definition is_cooperative_close :: "machine \<Rightarrow> transaction \<Rightarrow> bool" where
  "is_cooperative_close m t =
     (case m_funding_outpoint m of
        None \<Rightarrow> False
      | Some funding \<Rightarrow>
          length (tx_inputs t) = 1 \<and> prev_out (hd (tx_inputs t)) = funding \<and> tx_outputs t \<noteq> [] \<and>
          (\<forall>out \<in> set (tx_outputs t). out_scheme out = CHANNEL_SCHEME \<and>
             list_ex (\<lambda>p. out_pubkey_hash out = pick (m_payout m) p \<and> units (out_value out) \<le> pick (current_balances m) p) [FUNDER, ACCEPTOR]))"

definition signed_commitment_at :: "nat \<Rightarrow> fee_tier \<Rightarrow> machine \<Rightarrow> (transaction, ChannelError) result" where
  "signed_commitment_at n tier m =
     rbind (ok_or (hget (m_local_commits m) n) (Invariant ''commitment not retained'')) (\<lambda>(bal, their_sigs).
       if n > MAX_INDEX then Panic
       else let t = cm_tx (our_commitment m n bal tier); cp = params_at m n in
         Ok (complete_funding_spend cp t
               (both m (sg_sign (m_signer m) (funding_sighash cp t (m_network m) (m_us m))) (tier_sig their_sigs tier))
               (both m (m_our_pubkey m) (m_their_pubkey m))))"

definition closing_commitment :: "fee_tier \<Rightarrow> machine \<Rightarrow> (transaction, ChannelError) result" where
  "closing_commitment tier m = rbind (close_state m) (\<lambda>n. signed_commitment_at n tier m)"

definition enter :: "jrecord \<Rightarrow> phase \<Rightarrow> unit act" where
  "enter r p = abind (append_record r) (\<lambda>_. amodify (set_phase p))"

definition force_close :: "fee_tier \<Rightarrow> transaction act" where
  "force_close tier = abind (alift (closing_commitment tier)) (\<lambda>t. abind (enter RForcing Forcing) (\<lambda>_. areturn t))"

definition mark_forcing :: "unit act" where
  "mark_forcing = awhen (\<lambda>m. m_phase m \<noteq> Forcing) (enter RForcing Forcing)"

definition mark_penalised :: "unit act" where
  "mark_penalised = awhen (\<lambda>m. m_phase m \<noteq> Penalised) (enter RPenalised Penalised)"

definition mark_abandoned :: "unit act" where
  "mark_abandoned =
     awhen (\<lambda>m. m_phase m \<noteq> Closed) (abind (append_record RAbandoned) (\<lambda>_. amodify (\<lambda>m. m\<lparr>m_phase := Closed, m_abandoned := True\<rparr>)))"

definition mark_closed :: "unit act" where
  "mark_closed = awhen (\<lambda>m. m_phase m \<noteq> Closed) (enter RClosed Closed)"

definition newest :: "(nat, 'v) hmap \<Rightarrow> (nat \<times> 'v) option" where
  "newest m = (if m = [] then None else let k = Max (set (map fst m)) in map_option (Pair k) (hget m k))"

definition latest_balances :: "machine \<Rightarrow> nat two" where
  "latest_balances m =
     (case (newest (m_local_commits m), newest (m_remote_balances m)) of
        (Some (l, lb, _), Some (r, rb)) \<Rightarrow> if r > l then rb else lb
      | (Some (_, b, _), None) \<Rightarrow> b
      | (None, Some (_, b)) \<Rightarrow> b
      | (None, None) \<Rightarrow> current_balances m)"

definition irrevocable_balance :: "machine \<Rightarrow> nat" where
  "irrevocable_balance m =
     (let us = m_us m; latest = pick (current_balances m) us in
      case m_remote m of
        None \<Rightarrow> latest
      | Some high \<Rightarrow>
          let low = succ_or_0 (m_recv m) in
          if low > high then latest
          else fold min
            (map (\<lambda>(_, b). pick b us) (filter (\<lambda>(n, _). low \<le> n \<and> n \<le> high) (m_remote_balances m)) @
             map (\<lambda>(_, b, _). pick b us) (filter (\<lambda>(n, _). low \<le> n \<and> n \<le> high) (m_local_commits m))) latest)"

definition machine_reserve :: "machine \<Rightarrow> nat" where
  "machine_reserve m = (if m_us m = FUNDER then commit_fee m High else 0)"

definition sendable :: "machine \<Rightarrow> nat" where
  "sendable m = sat_sub64 (pick (current_balances m) (m_us m)) (machine_reserve m)"

definition remote_sendable :: "machine \<Rightarrow> nat" where
  "remote_sendable m =
     (let peer = peer_of (m_us m) in sat_sub64 (pick (current_balances m) peer) (if peer = FUNDER then commit_fee m High else 0))"

definition watched_outpoints :: "machine \<Rightarrow> outpoint list" where
  "watched_outpoints m =
     (case m_funding_outpoint m of Some op \<Rightarrow> [op] | None \<Rightarrow> []) @
     (case watched_splice m of Some sp \<Rightarrow> [sp_old_outpoint sp] | None \<Rightarrow> [])"

definition find_our_output :: "machine \<Rightarrow> transaction \<Rightarrow> output_ref option" where
  "find_our_output m t = map_option (output_at (txid t)) (find_key_output t (pick (cp_funding (m_params m)) (m_us m)))"

text \<open>A state number beyond the last index underflows, which panics.\<close>

definition identify_spend :: "machine \<Rightarrow> transaction \<Rightarrow> (watch, ChannelError) result" where
  "identify_spend m t =
     (case m_funding_outpoint m of
        None \<Rightarrow> Ok NotOurChannel
      | Some current \<Rightarrow>
          let spent = spends_first t;
              funding = (case watched_splice m of
                           Some sp \<Rightarrow> if spent = Some (sp_old_outpoint sp) then sp_old_outpoint sp else current | None \<Rightarrow> current);
              n = state_of (m_params m) t; peer = peer_of (m_us m);
              matches = (\<lambda>out holder pt. out_pubkey_hash out = lock_hash (to_local_policy (m_params m) holder pt));
              by_shape = map_err (\<lambda>_. Unexpected) (classify (m_params m) (m_us m) (m_store m) funding t)
          in if spent \<noteq> Some funding then Ok NotOurChannel
             else case find_policy_output t of
               None \<Rightarrow> by_shape
             | Some (idx, out) \<Rightarrow>
                 if n > MAX_INDEX then Panic
                 else case (case store_get (m_store m) (MAX_INDEX - n) of
                              Some s \<Rightarrow> if matches out peer (sha256 s) then Some s else None | None \<Rightarrow> None) of
                   Some s \<Rightarrow> Ok (RevokedByPeer n (output_at (txid t) (idx, out)) s (find_our_output m t))
                 | None \<Rightarrow>
                     if matches out (m_us m) (our_point m n)
                     then Ok (OurCommitment n (Some (output_at (txid t) (idx, out))) (cp_delay (m_params m)))
                     else case hget (m_their_points m) n of
                       Some pt \<Rightarrow> if matches out peer pt then Ok (PeerLatest n (find_our_output m t)) else by_shape
                     | None \<Rightarrow> by_shape)"

definition build_penalty :: "machine \<Rightarrow> watch \<Rightarrow> hash256 \<Rightarrow> nat \<Rightarrow> (transaction, ChannelError) result" where
  "build_penalty m w sweep_to fee =
     (case w of
        RevokedByPeer _ to_local s _ \<Rightarrow>
          Ok (penalty_tx (or_outpoint to_local) (or_output to_local)
                (to_local_policy (m_params m) (peer_of (m_us m)) (sha256 s)) s sweep_to fee (m_network m) (m_signer m))
      | _ \<Rightarrow> Err Unexpected)"

definition build_local_sweep :: "machine \<Rightarrow> watch \<Rightarrow> hash256 \<Rightarrow> nat \<Rightarrow> (transaction, ChannelError) result" where
  "build_local_sweep m w sweep_to fee =
     (case w of
        OurCommitment n (Some to_local) _ \<Rightarrow>
          if n > MAX_INDEX then Panic
          else Ok (local_sweep_tx (or_outpoint to_local) (or_output to_local)
                (to_local_policy (m_params m) (m_us m) (our_point m n)) sweep_to fee (m_network m) (m_signer m))
      | _ \<Rightarrow> Err Unexpected)"

definition build_to_remote_claim :: "machine \<Rightarrow> output_ref \<Rightarrow> hash256 \<Rightarrow> nat \<Rightarrow> transaction" where
  "build_to_remote_claim m to_remote sweep_to fee =
     to_remote_claim_tx (or_outpoint to_remote) (or_output to_remote) sweep_to fee (m_network m) (m_signer m)"

end
