(* ===== verification/Spec2Isabelle.thy ===== *)
theory Spec2Isabelle
  imports Commitment ChainProps Revalidate PoolFlow Bech32 Compact ChanFlow
begin

text \<open>
  A verification development for the Q21 node (\<open>src/src\<close>): its consensus rules, its chain, its pools and its payment
  channels, translated function by function, with the theorems that make them correct.

  \<^bold>\<open>The program and its theories.\<close> A Q21 node receives transactions and blocks as bytes, decodes them, validates them against
  the set of unspent outputs, keeps the chain with the most work, and keeps pending transactions in pools. A wallet may
  open payment channels whose states are transactions exchanged off the chain.

  \<^item> Vocabulary: \<open>Prelude\<close> (machine integers, the outcome \<open>Ok\<close>, \<open>Err\<close>, \<open>Panic\<close> of a Rust call, association lists standing for
    maps), \<open>Consensus\<close> (\<open>consensus.rs\<close>), \<open>Amounts\<close> (\<open>amount.rs\<close>), \<open>Uint256\<close> (\<open>uint.rs\<close>), \<open>Ser\<close> (\<open>ser.rs\<close>).
  \<^item> Cryptography: \<open>Hashing\<close> (\<open>sha256.rs\<close>, \<open>hash.rs\<close>), \<open>Merkle\<close> (\<open>merkle.rs\<close>), \<open>Sig\<close> (\<open>sig.rs\<close>, \<open>lamport.rs\<close>), \<open>Muhash\<close>
    (\<open>muhash.rs\<close>), \<open>Pow\<close> (\<open>pow.rs\<close>). The ML-DSA library and the memory-hard function are parameters.
  \<^item> Data: \<open>Tx\<close> (\<open>tx.rs\<close>), \<open>Block\<close> (\<open>block.rs\<close>), \<open>Policy\<close> (\<open>policy.rs\<close>), \<open>Names\<close> (\<open>names.rs\<close>), \<open>Bech32\<close> (\<open>bech32.rs\<close>,
    \<open>address.rs\<close>), \<open>Compact\<close> (\<open>compact.rs\<close>, \<open>siphash.rs\<close>).
  \<^item> Rules and state: \<open>Emission\<close> (\<open>emission.rs\<close>), \<open>Utxo\<close> and \<open>Commitment\<close> (\<open>utxo.rs\<close>), \<open>Validate\<close> (\<open>validate.rs\<close>), \<open>Difficulty\<close> and \<open>Chain\<close>
    (\<open>chain.rs\<close>), with the abstract ledger of \<open>Ledger\<close>, the invariant of \<open>ChainInv\<close> and the reachable states of \<open>ChainProps\<close>.
  \<^item> Pools: \<open>Mempool\<close>, \<open>MempoolInv\<close>, \<open>MempoolProps\<close>, \<open>Revalidate\<close>, \<open>Orphans\<close> (\<open>mempool.rs\<close>) and \<open>PoolFlow\<close> (the part of \<open>net.rs\<close> that
    settles a block in the pools).
  \<^item> Channels: \<open>Shachain\<close> (\<open>shachain.rs\<close>), \<open>ChanTx\<close> (\<open>channel/txbuild.rs\<close>, \<open>watcher.rs\<close>, \<open>keys.rs\<close>, \<open>mod.rs\<close>), \<open>ChanMsg\<close>
    (\<open>channel/messages.rs\<close>), \<open>ChanJournal\<close> (\<open>channel/journal.rs\<close>), \<open>ChanMachine\<close> and \<open>ChanFlow\<close> (\<open>channel/machine.rs\<close>).

  \<^bold>\<open>Conventions.\<close> A structure is a record, an enumeration a datatype, a method a function that takes and returns its state.
  Integers of fixed width are words, or naturals where every use is checked; the release build checks overflow, so that an
  overflow, an \<open>unwrap\<close> of nothing and an index out of range are the value \<open>Panic\<close>, and theorems show that no input reaches it.
  Hash maps are association lists. Locales state the interfaces: codecs (a reader that accepts exactly the encodings), the
  view of unspent outputs, incremental hashers; each is interpreted on the definitions of the model.

  \<^bold>\<open>What is shown.\<close>
  \<^item> Money: emission is exactly its schedule and is capped, a block cannot inflate, and in every reachable chain the
    unspent outputs hold at most what was issued.
  \<^item> Validation: a transaction is accepted exactly under the stated rules; no block, however formed, makes validation panic;
    a policy output is spent exactly by the satisfactions of the committed policy, in a semantics given on the tree.
  \<^item> The set of unspent outputs: undoing a block restores it, its index is exact, its commitment follows any history.
  \<^item> Encodings: transactions, blocks, policies, addresses, messages and journal records have one encoding each; decoding
    accepts exactly those and never panics.
  \<^item> Chain: every reachable state refines the abstract ledger; submitting a block never panics, never lowers the work,
    respects rolling finality; disconnection restores the unspent outputs exactly; pruning ends.
  \<^item> Pools: admission, eviction, block connection and revalidation keep the invariant of the pools, orphans included; what
    revalidation leaves can be in the next block, and nothing is dropped from a pool that already could.
  \<^item> Relay: compact relay rebuilds the block or fails, whatever peers send.
  \<^item> Channels: secrets are rebuilt from their compact store; commitments conserve the capacity; a revoked commitment
    is punished before its holder can take anything; the journal survives torn writes.

  \<^bold>\<open>Bounds and fuel.\<close> Loops are structural recursions or functions with a termination proof. The pools' adoption of orphans and
  the pruning of bodies take a number of turns, shown sufficient. A time is a natural number given by the caller.

  \<^bold>\<open>Not modelled.\<close> Sockets, threads and message dispatch (\<open>net.rs\<close>, \<open>wire.rs\<close>), the local interface (\<open>rpc.rs\<close>, \<open>http.rs\<close>,
  \<open>wallet_ui.rs\<close>, \<open>explorer.rs\<close>), the wallet file and its coin selection (\<open>wallet.rs\<close>), files of blocks and snapshots
  (\<open>store.rs\<close>, \<open>state.rs\<close>, \<open>fast_sync.rs\<close>), the memory-hard function (\<open>memhard.rs\<close>, \<open>argon2.rs\<close>, \<open>blake2b.rs\<close>), the driver,
  link and transport of channels (\<open>channel/manager.rs\<close>, \<open>link.rs\<close>, \<open>transport.rs\<close>): input and output, presentation, or code
  whose state is that of the operating system.
\<close>

end
